(* ===== verification/Prelude.thy ===== *)
theory Prelude
  imports Main "HOL-Library.Word"
begin

text \<open>
  Shared vocabulary of the development: the machine integers and pointers of the code, the
  constants of \<open>src/include/xdefines.h\<close>, and the generic lemmas on machine words that the
  component theories use.

  Addresses and sizes that the allocator computes with are 64-bit words (the library is built
  for 64-bit Linux by the target \<open>libdthread.so\<close> of \<open>src/Makefile\<close>). A pointer that may be
  NULL is an option; dereferencing NULL makes an operation return \<open>None\<close>.
\<close>

unbundle bit_operations_syntax

section \<open>Machine integers and pointers\<close>

type_synonym byte = "8 word"
type_synonym ushort = "16 word"
type_synonym cint = "32 word"
type_synonym ulong = "64 word"
type_synonym ptr = "nat option"

section \<open>Constants of xdefines.h\<close>

definition PageSize :: nat where
  "PageSize = 4096"

definition PROTECTEDHEAP_SIZE :: nat where
  "PROTECTEDHEAP_SIZE = 1048576 * 4096"

definition PROTECTEDHEAP_CHUNK :: ulong where
  "PROTECTEDHEAP_CHUNK = 10485760"

definition MAX_GLOBALS_SIZE :: nat where
  "MAX_GLOBALS_SIZE = 1048576 * 40"

definition INTERNALHEAP_SIZE :: ulong where
  "INTERNALHEAP_SIZE = 1048576 * 100"

definition NUM_HEAPS :: nat where
  "NUM_HEAPS = 32"

definition LOCK_OWNER_BUDGET :: int where
  "LOCK_OWNER_BUDGET = 10"

section \<open>Collections\<close>

named_theorems defs_xpersist \<open>definitions of the page store\<close>
named_theorems defs_determ \<open>definitions of the deterministic synchronisation layer\<close>
named_theorems defs_heap \<open>definitions of the heap layers\<close>

section \<open>Words\<close>

lemma unat_inc:
  fixes w :: "'a::len word"
  assumes "unat w + 1 < 2 ^ LENGTH('a)"
  shows "unat (w + 1) = unat w + 1"
  using assms by (simp add: unat_word_ariths)

lemma unat_dec:
  fixes w :: "'a::len word"
  assumes "w \<noteq> 0"
  shows "unat (w - 1) = unat w - 1"
  using assms by (simp add: unat_minus_one)

lemma unat_add_no_overflow:
  fixes a b :: "'a::len word"
  assumes "unat a + unat b < 2 ^ LENGTH('a)"
  shows "unat (a + b) = unat a + unat b"
  using assms by (simp add: unat_word_ariths)

lemma unat_of_nat_small: "n < 2 ^ LENGTH('a) \<Longrightarrow> unat (word_of_nat n :: 'a::len word) = n"
  by (simp add: unsigned_of_nat take_bit_nat_eq_self)

section \<open>Failures\<close>

text \<open>
  How an operation can end other than by returning: a call of \<open>abort()\<close> or \<open>exit()\<close>, a NULL
  dereference, an access outside an array, or the use of a variable that was never assigned.
  Assertions are compiled out (\<open>-DNDEBUG\<close> in \<open>src/Makefile\<close>), so a failing one is no branch here.
\<close>

datatype failure = Aborted | Exited int | NullDeref | OutOfBounds | Uninitialised

type_synonym 'a result = "failure + 'a"

definition res_bind :: "'a result \<Rightarrow> ('a \<Rightarrow> 'b result) \<Rightarrow> 'b result" where
  "res_bind m f = (case m of Inl e \<Rightarrow> Inl e | Inr x \<Rightarrow> f x)"

lemma res_bind_simps [simp]: "res_bind (Inl e) f = Inl e" "res_bind (Inr x) f = f x"
  by (simp_all add: res_bind_def)

lemma res_bind_Inr: "res_bind m f = Inr y \<longleftrightarrow> (\<exists>x. m = Inr x \<and> f x = Inr y)"
  by (cases m) auto

lemma res_bind_Inl: "res_bind m f = Inl e \<longleftrightarrow> m = Inl e \<or> (\<exists>x. m = Inr x \<and> f x = Inl e)"
  by (cases m) auto

lemma res_bind_assoc: "res_bind (res_bind m f) g = res_bind m (\<lambda>x. res_bind (f x) g)"
  by (cases m) auto

text \<open>A dereference of a possibly NULL pointer.\<close>

definition deref :: "ptr \<Rightarrow> nat result" where
  "deref p = (case p of None \<Rightarrow> Inl NullDeref | Some a \<Rightarrow> Inr a)"

lemma deref_simps [simp]: "deref None = Inl NullDeref" "deref (Some a) = Inr a"
  by (simp_all add: deref_def)

definition of_null :: "'a option \<Rightarrow> 'a result" where
  "of_null m = (case m of None \<Rightarrow> Inl NullDeref | Some x \<Rightarrow> Inr x)"

lemma of_null_simps [simp]: "of_null None = Inl NullDeref" "of_null (Some x) = Inr x"
  by (simp_all add: of_null_def)

section \<open>Byte-addressed memory\<close>

type_synonym mem = "nat \<Rightarrow> byte"

text \<open>A page is its content at the offsets below \<open>PageSize\<close>.\<close>

type_synonym page = "nat \<Rightarrow> byte"

definition byte_of :: "'a::len word \<Rightarrow> nat \<Rightarrow> byte" where
  "byte_of w k = ucast (drop_bit (8 * k) w)"

text \<open>Little-endian stores and loads of a 32-bit and a 64-bit value.\<close>

definition store32 :: "nat \<Rightarrow> cint \<Rightarrow> mem \<Rightarrow> mem" where
  "store32 a v m = (\<lambda>b. if a \<le> b \<and> b < a + 4 then byte_of v (b - a) else m b)"

definition load32 :: "nat \<Rightarrow> mem \<Rightarrow> cint" where
  "load32 a m = ucast (m a) OR push_bit 8 (ucast (m (a + 1)))
     OR push_bit 16 (ucast (m (a + 2))) OR push_bit 24 (ucast (m (a + 3)))"

definition store64 :: "nat \<Rightarrow> ulong \<Rightarrow> mem \<Rightarrow> mem" where
  "store64 a v m = (\<lambda>b. if a \<le> b \<and> b < a + 8 then byte_of v (b - a) else m b)"

definition load64 :: "nat \<Rightarrow> mem \<Rightarrow> ulong" where
  "load64 a m = ucast (load32 a m) OR push_bit 32 (ucast (load32 (a + 4) m))"

definition memcpy :: "nat \<Rightarrow> nat \<Rightarrow> nat \<Rightarrow> mem \<Rightarrow> mem \<Rightarrow> mem" where
  "memcpy dst src n from to = (\<lambda>b. if dst \<le> b \<and> b < dst + n then from (src + (b - dst)) else to b)"

lemma store32_other [simp]: "b < a \<or> a + 4 \<le> b \<Longrightarrow> store32 a v m b = m b"
  by (auto simp: store32_def)

lemma store64_other [simp]: "b < a \<or> a + 8 \<le> b \<Longrightarrow> store64 a v m b = m b"
  by (auto simp: store64_def)

lemma memcpy_other [simp]: "b < dst \<or> dst + n \<le> b \<Longrightarrow> memcpy dst src n from to b = to b"
  by (auto simp: memcpy_def)

lemma memcpy_inside [simp]: "k < n \<Longrightarrow> memcpy dst src n from to (dst + k) = from (src + k)"
  by (simp add: memcpy_def)

text \<open>Bit \<open>n\<close> of a load is bit \<open>n mod 8\<close> of byte \<open>n div 8\<close>.\<close>

lemma bit_byte_of: "bit (byte_of w k) j \<longleftrightarrow> j < 8 \<and> bit w (8 * k + j)"
  by (auto simp: byte_of_def bit_ucast_iff bit_drop_bit_eq)

lemma bit_byte_high: "8 \<le> j \<Longrightarrow> \<not> bit (b :: byte) j"
  using bit_imp_le_length [of b j] by auto

lemma bit_load32: "bit (load32 a m) n \<longleftrightarrow> n < 32 \<and> bit (m (a + n div 8)) (n mod 8)"
proof (cases "n < 32")
  case True
  then consider "n < 8" | "8 \<le> n" "n < 16" | "16 \<le> n" "n < 24" | "24 \<le> n" "n < 32" by linarith
  then show ?thesis
  proof cases
    case 1
    then show ?thesis by (auto simp: load32_def bit_or_iff bit_push_bit_iff bit_ucast_iff)
  next
    case 2
    then have "n div 8 = 1" "n mod 8 = n - 8" "n - 8 < 8" by (simp_all add: mod_if)
    with 2 show ?thesis
      by (auto simp: load32_def bit_or_iff bit_push_bit_iff bit_ucast_iff bit_byte_high)
  next
    case 3
    then have "n div 8 = 2" "n mod 8 = n - 16" "8 \<le> n - 8" by (simp_all add: mod_if)
    with 3 show ?thesis
      by (auto simp: load32_def bit_or_iff bit_push_bit_iff bit_ucast_iff bit_byte_high)
  next
    case 4
    then have "n div 8 = 3" "n mod 8 = n - 24" "8 \<le> n - 8" "8 \<le> n - 16" by (simp_all add: mod_if)
    with 4 show ?thesis
      by (auto simp: load32_def bit_or_iff bit_push_bit_iff bit_ucast_iff bit_byte_high)
  qed
next
  case False
  then show ?thesis using bit_imp_le_length [of "load32 a m" n] by auto
qed

lemma bit_load64: "bit (load64 a m) n \<longleftrightarrow> n < 64 \<and> bit (m (a + n div 8)) (n mod 8)"
proof (cases "n < 32")
  case True
  then show ?thesis by (auto simp: load64_def bit_or_iff bit_push_bit_iff bit_ucast_iff bit_load32)
next
  case False
  then obtain k where n: "n = 32 + k" by (metis le_Suc_ex not_less)
  have "bit (load64 a m) n \<longleftrightarrow> n < 64 \<and> bit (load32 (a + 4) m) k"
    using n by (auto simp: load64_def bit_or_iff bit_push_bit_iff bit_ucast_iff bit_load32)
  also have "\<dots> \<longleftrightarrow> n < 64 \<and> bit (m (a + (4 + k div 8))) (k mod 8)"
    using n by (auto simp: bit_load32 add.assoc)
  finally have "bit (load64 a m) n \<longleftrightarrow> n < 64 \<and> bit (m (a + (4 + k div 8))) (k mod 8)" .
  moreover have "n = k + 4 * 8" using n by simp
  then have "4 + k div 8 = n div 8" "k mod 8 = n mod 8" by (simp, simp only: mod_mult_self1)
  ultimately show ?thesis by simp
qed

lemma load32_store32 [simp]: "load32 a (store32 a v m) = v"
proof (rule bit_word_eqI)
  fix n assume n: "n < LENGTH(32)"
  then have "n div 8 < 4" by simp
  with n show "bit (load32 a (store32 a v m)) n = bit v n"
    by (simp add: bit_load32 store32_def bit_byte_of)
qed

lemma load64_store64 [simp]: "load64 a (store64 a v m) = v"
proof (rule bit_word_eqI)
  fix n assume n: "n < LENGTH(64)"
  then have "n div 8 < 8" by simp
  with n show "bit (load64 a (store64 a v m)) n = bit v n"
    by (simp add: bit_load64 store64_def bit_byte_of)
qed

lemma load32_store32_other: "b + 4 \<le> a \<or> a + 4 \<le> b \<Longrightarrow> load32 b (store32 a v m) = load32 b m"
  by (auto simp: load32_def store32_def)

lemma load64_eq_iff: "load64 a m = load64 a m' \<longleftrightarrow> (\<forall>j<8. m (a + j) = m' (a + j))"
proof
  assume eq: "load64 a m = load64 a m'"
  show "\<forall>j<8. m (a + j) = m' (a + j)"
  proof (intro allI impI bit_word_eqI)
    fix j n :: nat assume j: "j < 8" and n: "n < LENGTH(8)"
    have "bit (load64 a m) (8 * j + n) = bit (load64 a m') (8 * j + n)" using eq by simp
    then show "bit (m (a + j)) n = bit (m' (a + j)) n" using j n by (simp add: bit_load64)
  qed
next
  assume eq: "\<forall>j<8. m (a + j) = m' (a + j)"
  show "load64 a m = load64 a m'"
  proof (rule bit_word_eqI)
    fix n assume "n < LENGTH(64)"
    then have "n div 8 < 8" by simp
    with eq show "bit (load64 a m) n = bit (load64 a m') n" by (simp add: bit_load64)
  qed
qed

lemma load64_store64_other: "b + 8 \<le> a \<or> a + 8 \<le> b \<Longrightarrow> load64 b (store64 a v m) = load64 b m"
  by (auto simp: load64_eq_iff store64_def)

lemma bit_below:
  fixes w :: "'a::len word"
  assumes "unat w < 2 ^ n" and "bit w j"
  shows "j < n"
proof -
  have "bit (unat w) j" using assms(2) by (simp add: bit_unsigned_iff)
  moreover have "take_bit n (unat w) = unat w" using assms(1) by (simp add: take_bit_nat_eq_self)
  ultimately show ?thesis by (metis bit_take_bit_iff)
qed

lemma unat_push1: "k < 64 \<Longrightarrow> unat (push_bit k 1 :: ulong) = 2 ^ k"
proof -
  assume k: "k < 64"
  have "(2::nat) ^ k < 2 ^ 64" using k by (intro power_strict_increasing) auto
  moreover have "push_bit k (1::nat) = 2 ^ k" by (simp add: push_bit_eq_mult)
  ultimately show ?thesis using k by (simp only: unsigned_push_bit_eq unsigned_1) (simp add: take_bit_nat_eq_self)
qed

lemma sint_small:
  fixes w :: cint
  assumes "unat w < 2 ^ 31"
  shows "sint w = int (unat w)"
proof -
  have "int (unat w) < int (2 ^ 31)" using assms by (simp only: of_nat_less_iff)
  then have "uint w < 2 ^ 31" by simp
  then have "signed_take_bit 31 (uint w) = uint w"
    by (intro signed_take_bit_int_eq_self) (use uint_ge_0 [of w] in linarith)+
  then show ?thesis by (simp add: sint_uint)
qed

end
