(* ===== verification/Kingsley.thy ===== *)
theory Kingsley
  imports Prelude
begin

text \<open>
  The size classes of \<open>src/include/heaplayers/kingsleyheap.h\<close>: classes are powers of two from 8 bytes.
  \<open>size2Class\<close> reads a table up to 128 bytes and counts shifts above; the lemmas show that it yields the least class
  that is big enough, and that it inverts \<open>class2Size\<close>.
\<close>

section \<open>The functions of the code\<close>

definition NUMBINS :: nat where
  "NUMBINS = 29"

definition cl :: "int list" where
  "cl = [0, 1, 2, 2, 3, 3, 3, 3, 4, 4, 4, 4, 4, 4, 4, 4]"

text \<open>The shift count is \<open>(size_t)i + 3\<close>; classes are never below \<open>-3\<close>.\<close>

definition class2Size :: "int \<Rightarrow> ulong" where
  "class2Size i = push_bit (nat (i + 3)) 1"

text \<open>The loop that counts the shifts of a size above 128 bytes.\<close>

function class_loop :: "ulong \<Rightarrow> int \<Rightarrow> int" where
  "class_loop sz1 c = (if 7 < sz1 then class_loop (drop_bit 1 sz1) (c + 1) else c)"
  by auto
termination
proof (relation "measure (\<lambda>(s, _). unat s)", goal_cases)
  case (2 sz1 c)
  then have "7 < unat sz1" by (simp add: word_less_nat_alt)
  then have "unat sz1 div 2 < unat sz1" by simp
  moreover have "unat (drop_bit 1 sz1) = unat sz1 div 2" by (simp only: unat_drop_bit_eq) (simp add: drop_bit_eq_div)
  ultimately show ?case by simp
qed simp

declare class_loop.simps [simp del]

definition size2Class :: "ulong \<Rightarrow> int" where
  "size2Class sz0 =
     (let sz = (if sz0 < 8 then 8 else sz0)
      in if sz \<le> 128 then cl ! unat (drop_bit 3 (sz - 1))
         else class_loop (drop_bit 5 (sz - 1)) 5)"

section \<open>Sizes as numbers\<close>

lemma unat_class2Size: "- 3 \<le> i \<Longrightarrow> i \<le> 60 \<Longrightarrow> unat (class2Size i) = 2 ^ nat (i + 3)"
proof -
  assume "- 3 \<le> i" "i \<le> 60"
  then have n: "nat (i + 3) < 64" by simp
  then have "(2::nat) ^ nat (i + 3) < 2 ^ 64" by (intro power_strict_increasing) auto
  moreover have "push_bit (nat (i + 3)) (1::nat) = 2 ^ nat (i + 3)" by (simp add: push_bit_eq_mult)
  ultimately show ?thesis
    using n by (simp only: class2Size_def unsigned_push_bit_eq unsigned_1) (simp add: take_bit_nat_eq_self)
qed

lemma unat_drop_div: "unat (drop_bit n (w :: ulong)) = unat w div 2 ^ n"
  by (simp only: unat_drop_bit_eq) (simp add: drop_bit_eq_div)

lemma class_loop_spec:
  assumes "4 \<le> unat s"
  shows "\<exists>k. class_loop s c = c + int k \<and> 4 * 2 ^ k \<le> unat s \<and> unat s < 8 * 2 ^ k"
  using assms
proof (induction s c rule: class_loop.induct)
  case (1 s c)
  show ?case
  proof (cases "7 < s")
    case True
    then have "8 \<le> unat s" by (simp add: word_less_nat_alt)
    then have "4 \<le> unat (drop_bit 1 s)" by (simp add: unat_drop_div)
    from "1.IH" [OF True this] obtain k where k: "class_loop (drop_bit 1 s) (c + 1) = c + 1 + int k"
      "4 * 2 ^ k \<le> unat s div 2" "unat s div 2 < 8 * 2 ^ k" by (auto simp: unat_drop_div)
    have "4 * 2 ^ Suc k \<le> unat s" using k(2) by simp
    moreover have "unat s < 8 * 2 ^ Suc k" using k(3) by simp
    moreover have "class_loop s c = c + int (Suc k)" using True k(1) by (subst class_loop.simps) simp
    ultimately show ?thesis by blast
  next
    case False
    then have "unat s < 8" by (simp add: word_less_nat_alt not_less)
    with False "1.prems" show ?thesis by (intro exI [of _ 0]) (simp add: class_loop.simps)
  qed
qed

lemma cl_spec: "m < 16 \<Longrightarrow> \<exists>k\<le>4. cl ! m = int k \<and> (m < 2 ^ k) \<and> (k = 0 \<or> 2 ^ k div 2 \<le> m)"
proof -
  assume "m < 16"
  then have "m \<in> set [0..<16]" by simp
  then show ?thesis unfolding cl_def
    by (auto simp: upt_rec intro: exI [of _ 0] exI [of _ 1] exI [of _ 2] exI [of _ 3] exI [of _ 4])
qed

section \<open>What the classes mean\<close>

definition maxObjectSize :: ulong where
  "maxObjectSize = class2Size (int NUMBINS - 1)"

lemma unat_maxObjectSize: "unat maxObjectSize = 2 ^ 31"
  by (simp add: maxObjectSize_def NUMBINS_def unat_class2Size)

text \<open>The class of a size: \<open>c\<close> is the least class whose size is at least \<open>n\<close>.\<close>

definition class_of :: "nat \<Rightarrow> nat \<Rightarrow> bool" where
  "class_of n c \<longleftrightarrow> n \<le> 2 ^ (c + 3) \<and> (c = 0 \<or> 2 ^ (c + 2) < n)"

lemma class_of_unique: "class_of n c \<Longrightarrow> class_of n d \<Longrightarrow> c = d"
proof (rule ccontr)
  assume c: "class_of n c" and d: "class_of n d" and "c \<noteq> d"
  then consider "c + 3 \<le> d + 2" | "d + 3 \<le> c + 2" by linarith
  then show False
  proof cases
    case 1
    then have "2 ^ (c + 3) \<le> (2::nat) ^ (d + 2)" by (intro power_increasing) simp_all
    with c d 1 show False by (auto simp: class_of_def)
  next
    case 2
    then have "2 ^ (d + 3) \<le> (2::nat) ^ (c + 2)" by (intro power_increasing) simp_all
    with c d 2 show False by (auto simp: class_of_def)
  qed
qed

lemma size2Class_spec: "\<exists>c. size2Class sz = int c \<and> class_of (max 8 (unat sz)) c"
proof -
  let ?s = "if sz < 8 then 8 else sz"
  have n: "unat ?s = max 8 (unat sz)" by (simp add: word_less_nat_alt)
  have dec: "unat (?s - 1) = unat ?s - 1"
  proof (rule unat_dec)
    show "?s \<noteq> 0" using n by (auto simp: word_unat_eq_iff split: if_splits)
  qed
  show ?thesis
  proof (cases "?s \<le> 128")
    case True
    then have le: "unat ?s \<le> 128" by (simp add: word_le_nat_alt)
    let ?m = "unat (drop_bit 3 (?s - 1))"
    have m: "?m = (unat ?s - 1) div 8" by (simp only: unat_drop_div dec) simp
    then have "?m < 16" using le by simp
    from cl_spec [OF this] obtain k where k: "cl ! ?m = int k" "?m < 2 ^ k" "k = 0 \<or> 2 ^ k div 2 \<le> ?m" by blast
    have c: "size2Class sz = int k" using True k(1) by (simp add: size2Class_def Let_def)
    have "unat ?s - 1 < 8 * 2 ^ k" using k(2) m by (simp add: less_mult_imp_div_less div_less_iff_less_mult)
    then have up: "unat ?s \<le> 2 ^ (k + 3)" by (simp add: power_add)
    have "k = 0 \<or> 2 ^ (k + 2) < unat ?s"
    proof (cases k)
      case (Suc j)
      with k(3) have "2 ^ j \<le> (unat ?s - 1) div 8" using m by simp
      then have "8 * 2 ^ j \<le> unat ?s - 1" by linarith
      then show ?thesis using Suc n by (simp add: power_add)
    qed simp
    with c up n show ?thesis by (auto simp: class_of_def)
  next
    case False
    then have gt: "128 < unat ?s" by (simp add: word_le_nat_alt)
    let ?w = "drop_bit 5 (?s - 1)"
    have w: "unat ?w = (unat ?s - 1) div 32" by (simp only: unat_drop_div dec) simp
    then have "4 \<le> unat ?w" using gt by simp
    from class_loop_spec [OF this, of 5] obtain k where k: "class_loop ?w 5 = 5 + int k"
      "4 * 2 ^ k \<le> unat ?w" "unat ?w < 8 * 2 ^ k" by blast
    have c: "size2Class sz = int (k + 5)" using False k(1) by (simp add: size2Class_def Let_def)
    have "unat ?s - 1 < 256 * 2 ^ k" "128 * 2 ^ k \<le> unat ?s - 1" using k(2,3) w by linarith+
    then have "unat ?s \<le> 2 ^ (k + 5 + 3)" "2 ^ (k + 5 + 2) < unat ?s" using gt by (simp_all add: power_add)
    then have "class_of (max 8 (unat sz)) (k + 5)" unfolding n [symmetric] by (simp add: class_of_def)
    with c show ?thesis by blast
  qed
qed

text \<open>Round trip, least fitting class, and the waste bound of a power-of-two allocator.\<close>

lemma size2Class_class2Size: "0 \<le> i \<Longrightarrow> i < 60 \<Longrightarrow> size2Class (class2Size i) = i"
proof -
  assume i: "0 \<le> i" "i < 60"
  obtain c where c: "size2Class (class2Size i) = int c" "class_of (max 8 (unat (class2Size i))) c"
    using size2Class_spec by blast
  have u: "unat (class2Size i) = 2 ^ (nat i + 3)" using i by (simp add: unat_class2Size nat_add_distrib)
  have "(8::nat) \<le> 2 ^ (nat i + 3)" by (simp add: power_add)
  then have "class_of (max 8 (unat (class2Size i))) (nat i)" by (simp add: u class_of_def max_def power_add)
  from class_of_unique [OF c(2) this] c(1) i show ?thesis by simp
qed

lemma class_bound: "class_of n c \<Longrightarrow> n \<le> 2 ^ m \<Longrightarrow> 3 \<le> m \<Longrightarrow> c + 3 \<le> m"
proof (rule ccontr)
  assume c: "class_of n c" and n: "n \<le> 2 ^ m" "3 \<le> m" and "\<not> c + 3 \<le> m"
  then have "m \<le> c + 2" "c \<noteq> 0" by linarith+
  then have "(2::nat) ^ m \<le> 2 ^ (c + 2)" by (intro power_increasing) simp_all
  with c n \<open>c \<noteq> 0\<close> show False by (auto simp: class_of_def)
qed

lemma size2Class_fits:
  assumes "sz \<le> maxObjectSize"
  shows "0 \<le> size2Class sz" and "size2Class sz < int NUMBINS" and "sz \<le> class2Size (size2Class sz)"
    and "unat (class2Size (size2Class sz)) < 2 * max 8 (unat sz)"
    and "0 \<le> c \<Longrightarrow> c < size2Class sz \<Longrightarrow> class2Size c < sz"
proof -
  obtain k where k: "size2Class sz = int k" "class_of (max 8 (unat sz)) k" using size2Class_spec by blast
  have "unat sz \<le> 2 ^ 31" using assms by (simp add: word_le_nat_alt unat_maxObjectSize)
  then have "max 8 (unat sz) \<le> 2 ^ 31" by simp
  from class_bound [OF k(2) this] have k31: "k \<le> 28" by simp
  then show "0 \<le> size2Class sz" "size2Class sz < int NUMBINS" using k(1) by (simp_all add: NUMBINS_def)
  have u: "unat (class2Size (size2Class sz)) = 2 ^ (k + 3)" using k31 by (simp add: k(1) unat_class2Size nat_add_distrib)
  then show "sz \<le> class2Size (size2Class sz)" using k(2) by (simp add: word_le_nat_alt class_of_def)
  show "unat (class2Size (size2Class sz)) < 2 * max 8 (unat sz)"
    using k(2) by (cases "k = 0") (auto simp: u class_of_def power_add)
  show "class2Size c < sz" if "0 \<le> c" "c < size2Class sz"
  proof -
    have c: "nat c < k" using that k(1) by simp
    then have "2 ^ (nat c + 3) \<le> (2::nat) ^ (k + 2)" by (intro power_increasing) simp_all
    also have "\<dots> < max 8 (unat sz)" using k(2) c by (auto simp: class_of_def)
    finally have lt: "2 ^ (nat c + 3) < max 8 (unat sz)" .
    have "(8::nat) \<le> 2 ^ (nat c + 3)" by (simp add: power_add)
    with lt have "2 ^ (nat c + 3) < unat sz" by (simp add: max_def split: if_splits)
    then show ?thesis using that k31 c by (simp add: word_less_nat_alt unat_class2Size nat_add_distrib)
  qed
qed

text \<open>The loop of \<open>free\<close> that lowers the class; it stops at class \<open>-3\<close> at the latest, whose size is 1.\<close>

function shrink_class :: "int \<Rightarrow> ulong \<Rightarrow> int" where
  "shrink_class c sz = (if sz < class2Size c \<and> - 3 < c then shrink_class (c - 1) sz else c)"
  by auto
termination
  by (relation "measure (\<lambda>(c, _). nat (c + 3))") auto

declare shrink_class.simps [simp del]

lemma shrink_class_exact: "shrink_class c (class2Size c) = c"
  by (subst shrink_class.simps) simp

end
