(* ===== verification/HeapLayers.thy ===== *)
theory HeapLayers
  imports Kingsley
begin

text \<open>
  The heap layers of \<open>src/include/heaplayers\<close> from which \<open>src/include/warpheap.h\<close> builds its allocators:
  the free lists that link freed objects through their own first word (\<open>util/sllist.h\<close>, \<open>adaptheap.h\<close>), the object header
  (\<open>objectheader.h\<close>, \<open>NewSourceHeap\<close>), the arena allocator (\<open>zoneheap.h\<close>), the segregated fits of \<open>segheap.h\<close> and the
  wrapper of \<open>ansiwrapper.h\<close>. The layers are C++ templates over the heap below them; here that heap is an argument,
  \<open>smalloc\<close>, and its state the type \<open>'w\<close>. Headers, arena descriptors and list links live in the flat memory, where the code
  has them. NULL is address 0.
\<close>

section \<open>State\<close>

record kingsley =
  currentArena :: ptr
  pastArenas :: ptr
  sl_head :: "nat \<Rightarrow> ptr"
  binmap :: "nat \<Rightarrow> ulong"
  memoryHeld :: ulong

record 'w heap =
  hmem :: mem
  source :: 'w
  kz :: kingsley

type_synonym 'w source_malloc = "ulong \<Rightarrow> 'w \<Rightarrow> (ptr \<times> 'w) result"

definition enc :: "ptr \<Rightarrow> ulong" where
  "enc p = (case p of None \<Rightarrow> 0 | Some a \<Rightarrow> word_of_nat a)"

definition dec :: "ulong \<Rightarrow> ptr" where
  "dec v = (if v = 0 then None else Some (unat v))"

definition rd :: "nat \<Rightarrow> 'w heap \<Rightarrow> ulong" where
  "rd a h = load64 a (hmem h)"

definition wr :: "nat \<Rightarrow> ulong \<Rightarrow> 'w heap \<Rightarrow> 'w heap" where
  "wr a v h = h\<lparr>hmem := store64 a v (hmem h)\<rparr>"

definition on_kz :: "(kingsley \<Rightarrow> kingsley) \<Rightarrow> 'w heap \<Rightarrow> 'w heap" where
  "on_kz f h = h\<lparr>kz := f (kz h)\<rparr>"

text \<open>The constructors: empty lists, no arena, no bin marked.\<close>

definition kingsley_init :: kingsley where
  "kingsley_init = \<lparr>currentArena = None, pastArenas = None, sl_head = (\<lambda>_. None), binmap = (\<lambda>_. 0), memoryHeld = 0\<rparr>"

section \<open>SLList and AdaptHeap\<close>

definition sl_clear :: ptr where
  "sl_clear = None"

definition sl_get :: "ptr \<Rightarrow> mem \<Rightarrow> ptr \<times> ptr" where
  "sl_get head m = (case head of None \<Rightarrow> (None, head) | Some e \<Rightarrow> (Some e, dec (load64 e m)))"

definition sl_insert :: "nat \<Rightarrow> ptr \<Rightarrow> mem \<Rightarrow> ptr \<times> mem" where
  "sl_insert e head m = (Some e, store64 e (enc head) m)"

definition sl_remove :: "nat \<Rightarrow> ptr result" where
  "sl_remove e = Inl Aborted"

definition adapt_malloc :: "nat \<Rightarrow> 'w heap \<Rightarrow> ptr \<times> 'w heap" where
  "adapt_malloc i h =
     (case sl_get (sl_head (kz h) i) (hmem h) of
        (p, head) \<Rightarrow> (p, on_kz (\<lambda>k. k\<lparr>sl_head := (sl_head k)(i := head)\<rparr>) h))"

definition adapt_free :: "nat \<Rightarrow> nat \<Rightarrow> 'w heap \<Rightarrow> 'w heap" where
  "adapt_free i p h =
     (case sl_insert p (sl_head (kz h) i) (hmem h) of
        (head, m) \<Rightarrow> on_kz (\<lambda>k. k\<lparr>sl_head := (sl_head k)(i := head)\<rparr>) (h\<lparr>hmem := m\<rparr>))"

section \<open>Object headers and NewSourceHeap\<close>

definition MAGIC :: ulong where
  "MAGIC = 0xCAFEBABE"

definition sizeof_header :: nat where
  "sizeof_header = 16"

definition new_header :: "nat \<Rightarrow> ulong \<Rightarrow> 'w heap \<Rightarrow> 'w heap" where
  "new_header a sz h = wr (a + 8) sz (wr a MAGIC h)"

definition oh_sanityCheck :: "nat \<Rightarrow> 'w heap \<Rightarrow> bool result" where
  "oh_sanityCheck a h = (if rd a h \<noteq> MAGIC then Inl Aborted else Inr True)"

definition oh_getSize :: "nat \<Rightarrow> 'w heap \<Rightarrow> ulong result" where
  "oh_getSize a h = res_bind (oh_sanityCheck a h) (\<lambda>_. Inr (rd (a + 8) h))"

definition oh_isValidObject :: "nat \<Rightarrow> 'w heap \<Rightarrow> bool result" where
  "oh_isValidObject a h = res_bind (oh_sanityCheck a h) (\<lambda>ret. if ret then Inr (rd (a + 8) h mod 8 = 0) else Inr ret)"

definition oh_verifyMagic :: "nat \<Rightarrow> 'w heap \<Rightarrow> bool" where
  "oh_verifyMagic a h = (rd a h = MAGIC)"

definition ns_getObject :: "nat \<Rightarrow> nat" where
  "ns_getObject p = p - sizeof_header"

definition ns_getPointer :: "nat \<Rightarrow> nat" where
  "ns_getPointer a = a + sizeof_header"

definition ns_malloc :: "(ulong \<Rightarrow> 'w heap \<Rightarrow> (ptr \<times> 'w heap) result) \<Rightarrow> ulong \<Rightarrow> 'w heap \<Rightarrow> (ptr \<times> 'w heap) result" where
  "ns_malloc super sz h =
     res_bind (super (sz + word_of_nat sizeof_header) h)
       (\<lambda>(p, h1). case p of None \<Rightarrow> Inr (None, h1)
          | Some a \<Rightarrow> Inr (Some (ns_getPointer a), new_header a sz h1))"

definition ns_getSize :: "nat \<Rightarrow> 'w heap \<Rightarrow> ulong result" where
  "ns_getSize p h = oh_getSize (ns_getObject p) h"

definition ns_free :: "(nat \<Rightarrow> 'w heap \<Rightarrow> 'w heap) \<Rightarrow> nat \<Rightarrow> 'w heap \<Rightarrow> 'w heap" where
  "ns_free super p h = super (ns_getObject p) h"

section \<open>ZoneHeap\<close>

text \<open>An arena descriptor: \<open>_remaining\<close>, \<open>_nextArena\<close>, \<open>_arenaSpace\<close> and a dummy, 8 bytes each.\<close>

definition sizeof_Arena :: nat where
  "sizeof_Arena = 32"

definition align :: "ulong \<Rightarrow> ulong" where
  "align sz = (sz + 7) AND NOT 7"

definition arena_init :: "nat \<Rightarrow> ulong \<Rightarrow> 'w heap \<Rightarrow> 'w heap" where
  "arena_init a sz h = wr (a + 16) (word_of_nat (a + sizeof_Arena)) (wr (a + 8) 0 (wr a sz h))"

definition arena_malloc :: "nat \<Rightarrow> ulong \<Rightarrow> 'w heap \<Rightarrow> ptr \<times> 'w heap" where
  "arena_malloc a sz h =
     (if rd a h < sz then (None, h)
      else (let h1 = wr a (rd a h - sz) h; p = rd (a + 16) h1
            in (dec p, wr (a + 16) (p + sz) h1)))"

definition sizeRemaining :: "nat \<Rightarrow> 'w heap \<Rightarrow> ulong" where
  "sizeRemaining a h = rd a h"

definition setNextArena :: "nat \<Rightarrow> ptr \<Rightarrow> 'w heap \<Rightarrow> 'w heap" where
  "setNextArena a p h = wr (a + 8) (enc p) h"

definition retire_arena :: "'w heap \<Rightarrow> 'w heap" where
  "retire_arena h =
     (case currentArena (kz h) of None \<Rightarrow> h
      | Some a \<Rightarrow> on_kz (\<lambda>k. k\<lparr>pastArenas := Some a, currentArena := None\<rparr>)
                    (setNextArena a (pastArenas (kz h)) h))"

definition slowMalloc :: "'w source_malloc \<Rightarrow> ulong \<Rightarrow> ulong \<Rightarrow> 'w heap \<Rightarrow> (ptr \<times> 'w heap) result" where
  "slowMalloc smalloc chunk sz h =
     (let h1 = retire_arena h;
          allocSize = (if chunk < sz then sz else chunk)
      in res_bind (smalloc (word_of_nat sizeof_Arena + allocSize) (source h1))
           (\<lambda>(b, w). let h2 = h1\<lparr>source := w\<rparr>
              in case b of None \<Rightarrow> Inr (None, h2)
                 | Some buf \<Rightarrow> Inr (arena_malloc buf sz
                     (on_kz (\<lambda>k. k\<lparr>currentArena := Some buf\<rparr>) (arena_init buf allocSize h2)))))"

definition zoneMalloc :: "'w source_malloc \<Rightarrow> ulong \<Rightarrow> ulong \<Rightarrow> 'w heap \<Rightarrow> (ptr \<times> 'w heap) result" where
  "zoneMalloc smalloc chunk sz0 h =
     (let sz = align sz0
      in case currentArena (kz h) of
           Some a \<Rightarrow> if sz \<le> sizeRemaining a h then Inr (arena_malloc a sz h) else slowMalloc smalloc chunk sz h
         | None \<Rightarrow> slowMalloc smalloc chunk sz h)"

definition zone_free :: "nat \<Rightarrow> 'w heap \<Rightarrow> 'w heap" where
  "zone_free p h = h"

section \<open>StrictSegHeap\<close>

definition big_malloc :: "'w source_malloc \<Rightarrow> ulong \<Rightarrow> ulong \<Rightarrow> 'w heap \<Rightarrow> (ptr \<times> 'w heap) result" where
  "big_malloc smalloc chunk = ns_malloc (zoneMalloc smalloc chunk)"

definition strict_malloc :: "'w source_malloc \<Rightarrow> ulong \<Rightarrow> ulong \<Rightarrow> 'w heap \<Rightarrow> (ptr \<times> 'w heap) result" where
  "strict_malloc smalloc chunk sz h =
     (if sz \<le> maxObjectSize
      then (let sizeClass = size2Class sz;
                objectSize = class2Size sizeClass
            in case adapt_malloc (nat sizeClass) h of
                 (Some p, h1) \<Rightarrow> Inr (Some p, h1)
               | (None, h1) \<Rightarrow> big_malloc smalloc chunk objectSize h1)
      else big_malloc smalloc chunk sz h)"

definition strict_free :: "nat \<Rightarrow> 'w heap \<Rightarrow> 'w heap result" where
  "strict_free p h =
     res_bind (ns_getSize p h)
       (\<lambda>objectSize.
          if objectSize = 0 then Inr h
          else if maxObjectSize < objectSize then Inr (ns_free zone_free p h)
          else (let c = shrink_class (size2Class objectSize) objectSize
                in Inr (on_kz (\<lambda>k. k\<lparr>memoryHeld := memoryHeld k + objectSize\<rparr>) (adapt_free (nat c) p h))))"

section \<open>ANSIWrapper and KingsleyStyleHeap\<close>

definition aw_malloc :: "'w source_malloc \<Rightarrow> ulong \<Rightarrow> ulong \<Rightarrow> 'w heap \<Rightarrow> (ptr \<times> 'w heap) result" where
  "aw_malloc smalloc chunk sz h =
     (let sz1 = (if sz < 16 then 16 else sz) in strict_malloc smalloc chunk (align sz1) h)"

definition aw_free :: "ptr \<Rightarrow> 'w heap \<Rightarrow> 'w heap result" where
  "aw_free p h = (case p of None \<Rightarrow> Inr h | Some a \<Rightarrow> strict_free a h)"

definition aw_getSize :: "ptr \<Rightarrow> 'w heap \<Rightarrow> ulong result" where
  "aw_getSize p h = (case p of None \<Rightarrow> Inr 0 | Some a \<Rightarrow> ns_getSize a h)"

definition mem_set :: "nat \<Rightarrow> byte \<Rightarrow> nat \<Rightarrow> 'w heap \<Rightarrow> 'w heap" where
  "mem_set a b n h = h\<lparr>hmem := (\<lambda>x. if a \<le> x \<and> x < a + n then b else hmem h x)\<rparr>"

definition mem_copy :: "nat \<Rightarrow> nat \<Rightarrow> nat \<Rightarrow> 'w heap \<Rightarrow> 'w heap" where
  "mem_copy dst from n h = h\<lparr>hmem := memcpy dst from n (hmem h) (hmem h)\<rparr>"

definition aw_calloc :: "'w source_malloc \<Rightarrow> ulong \<Rightarrow> ulong \<Rightarrow> ulong \<Rightarrow> 'w heap \<Rightarrow> (ptr \<times> 'w heap) result" where
  "aw_calloc smalloc chunk s1 s2 h =
     res_bind (aw_malloc smalloc chunk (s1 * s2) h)
       (\<lambda>(p, h1). case p of None \<Rightarrow> Inr (None, h1) | Some a \<Rightarrow> Inr (Some a, mem_set a 0 (unat (s1 * s2)) h1))"

definition aw_realloc :: "'w source_malloc \<Rightarrow> ulong \<Rightarrow> ptr \<Rightarrow> ulong \<Rightarrow> 'w heap \<Rightarrow> (ptr \<times> 'w heap) result" where
  "aw_realloc smalloc chunk p sz h =
     (case p of None \<Rightarrow> aw_malloc smalloc chunk sz h
      | Some a \<Rightarrow>
          if sz = 0 then res_bind (aw_free p h) (\<lambda>h1. Inr (None, h1))
          else res_bind (aw_getSize p h) (\<lambda>objSize.
            if objSize = sz then Inr (p, h)
            else res_bind (aw_malloc smalloc chunk sz h) (\<lambda>(buf, h1).
              let minSize = (if objSize < sz then objSize else sz);
                  h2 = (case buf of None \<Rightarrow> h1 | Some b \<Rightarrow> mem_copy b a (unat minSize) h1)
              in res_bind (aw_free p h2) (\<lambda>h3. Inr (buf, h3)))))"

definition kingsley_malloc :: "'w source_malloc \<Rightarrow> ulong \<Rightarrow> ulong \<Rightarrow> 'w heap \<Rightarrow> (ptr \<times> 'w heap) result" where
  "kingsley_malloc = aw_malloc"

end
