(* ===== verification/HeapSafety.thy ===== *)
theory HeapSafety
  imports HeapLayers
begin

text \<open>
  Memory safety of the heap layers. The memory a Kingsley heap has obtained is divided into areas: the objects with
  their headers, the arena descriptors and the unused rest of the current arena. The invariant says that the areas are
  pairwise disjoint and lie in memory obtained from the source, that every header is intact, and that the free lists link exactly the
  freed objects of their class. It is preserved by every operation, and by every store of the program inside an object it holds.
\<close>

section \<open>Areas\<close>

datatype label = Obj nat | Arena nat | Space

definition obj_size :: "mem \<Rightarrow> nat \<Rightarrow> nat" where
  "obj_size m p = unat (load64 (p - 8) m)"

fun area :: "mem \<Rightarrow> ptr \<Rightarrow> label \<Rightarrow> nat set" where
  "area m cur (Obj p) = {p - 16 ..< p + obj_size m p}"
| "area m cur (Arena a) = {a ..< a + 32}"
| "area m cur Space = (case cur of None \<Rightarrow> {}
     | Some a \<Rightarrow> {unat (load64 (a + 16) m) ..< unat (load64 (a + 16) m) + unat (load64 a m)})"

definition labels :: "nat set \<Rightarrow> nat set \<Rightarrow> label set" where
  "labels objs arenas = Obj ` objs \<union> Arena ` arenas \<union> {Space}"

definition separate :: "nat set \<Rightarrow> nat set \<Rightarrow> mem \<Rightarrow> ptr \<Rightarrow> bool" where
  "separate objs arenas m cur \<longleftrightarrow> (\<forall>k\<in>labels objs arenas. \<forall>l\<in>labels objs arenas.
     k \<noteq> l \<longrightarrow> area m cur k \<inter> area m cur l = {})"

lemma separate_pairwise:
  "separate objs arenas m cur \<longleftrightarrow> pairwise (\<lambda>k l. area m cur k \<inter> area m cur l = {}) (labels objs arenas)"
  by (simp add: separate_def pairwise_def)

fun chain :: "mem \<Rightarrow> ptr \<Rightarrow> nat list \<Rightarrow> bool" where
  "chain m head [] \<longleftrightarrow> head = None"
| "chain m head (x # xs) \<longleftrightarrow> head = Some x \<and> chain m (dec (load64 x m)) xs"

text \<open>The sizes of objects: the size of a class, or more than the greatest one.\<close>

definition size_class :: "ulong \<Rightarrow> bool" where
  "size_class sz \<longleftrightarrow> (\<exists>c<NUMBINS. sz = class2Size (int c)) \<or> maxObjectSize < sz"

definition obj_ok :: "mem \<Rightarrow> nat \<Rightarrow> bool" where
  "obj_ok m p \<longleftrightarrow> 16 \<le> p \<and> p mod 8 = 0 \<and> load64 (p - 16) m = MAGIC \<and> p + obj_size m p < 2 ^ 64
     \<and> size_class (load64 (p - 8) m)"

definition arena_ok :: "mem \<Rightarrow> nat set \<Rightarrow> ptr \<Rightarrow> bool" where
  "arena_ok m arenas cur \<longleftrightarrow> (case cur of None \<Rightarrow> True
     | Some a \<Rightarrow> a \<in> arenas \<and> 0 < unat (load64 (a + 16) m) \<and> unat (load64 (a + 16) m) mod 8 = 0
         \<and> unat (load64 (a + 16) m) + unat (load64 a m) < 2 ^ 64)"

definition bins_ok :: "mem \<Rightarrow> nat set \<Rightarrow> (nat \<Rightarrow> nat list) \<Rightarrow> (nat \<Rightarrow> ptr) \<Rightarrow> bool" where
  "bins_ok m objs free heads \<longleftrightarrow> (\<forall>c<NUMBINS. chain m (heads c) (free c) \<and> distinct (free c)
     \<and> (\<forall>p\<in>set (free c). p \<in> objs \<and> load64 (p - 8) m = class2Size (int c)))"

definition heap_inv :: "('w \<Rightarrow> bool) \<Rightarrow> ('w \<Rightarrow> nat set) \<Rightarrow> nat set \<Rightarrow> nat set \<Rightarrow> (nat \<Rightarrow> nat list) \<Rightarrow> 'w heap \<Rightarrow> bool" where
  "heap_inv good taken objs arenas free h \<longleftrightarrow>
     good (source h) \<and> (\<forall>p\<in>objs. obj_ok (hmem h) p)
     \<and> arena_ok (hmem h) arenas (currentArena (kz h))
     \<and> separate objs arenas (hmem h) (currentArena (kz h))
     \<and> (\<forall>l\<in>labels objs arenas. area (hmem h) (currentArena (kz h)) l \<subseteq> taken (source h))
     \<and> bins_ok (hmem h) objs free (sl_head (kz h))"

text \<open>The bytes the allocator relies on: headers, links of free objects, and the two live fields of the current arena.\<close>

definition meta :: "nat set \<Rightarrow> (nat \<Rightarrow> nat list) \<Rightarrow> ptr \<Rightarrow> nat set" where
  "meta objs free cur = (\<Union>p\<in>objs. {p - 16 ..< p}) \<union> (\<Union>c<NUMBINS. \<Union>p\<in>set (free c). {p ..< p + 8})
     \<union> (case cur of None \<Rightarrow> {} | Some a \<Rightarrow> {a ..< a + 8} \<union> {a + 16 ..< a + 24})"

lemma load64_agree: "(\<And>x. x \<in> {a ..< a + 8} \<Longrightarrow> m' x = m x) \<Longrightarrow> load64 a m' = load64 a m"
  by (simp add: load64_eq_iff)

lemma chain_agree:
  "chain m head xs \<Longrightarrow> (\<And>x. x \<in> set xs \<Longrightarrow> load64 x m' = load64 x m) \<Longrightarrow> chain m' head xs"
  by (induction xs arbitrary: head) auto

lemma labels_simps [simp]: "Obj p \<in> labels objs arenas \<longleftrightarrow> p \<in> objs" "Arena a \<in> labels objs arenas \<longleftrightarrow> a \<in> arenas"
  "Space \<in> labels objs arenas"
  by (auto simp: labels_def)

lemma area_agree:
  assumes "\<And>p. p \<in> objs \<Longrightarrow> load64 (p - 8) m' = load64 (p - 8) m"
    and "\<And>a. cur = Some a \<Longrightarrow> load64 a m' = load64 a m \<and> load64 (a + 16) m' = load64 (a + 16) m"
    and "l \<in> labels objs arenas"
  shows "area m' cur l = area m cur l"
  using assms by (cases l) (auto simp: obj_size_def split: option.splits)

lemma heap_inv_agree:
  assumes inv: "heap_inv good taken objs arenas free h"
    and eq: "\<And>x. x \<in> meta objs free (currentArena (kz h)) \<Longrightarrow> hmem h' x = hmem h x"
    and "source h' = source h" and "currentArena (kz h') = currentArena (kz h)" and "sl_head (kz h') = sl_head (kz h)"
  shows "heap_inv good taken objs arenas free h'"
proof -
  let ?m = "hmem h" and ?m' = "hmem h'"
  have 16: "16 \<le> p" if "p \<in> objs" for p using inv that by (simp add: heap_inv_def obj_ok_def)
  have sz: "load64 (p - 8) ?m' = load64 (p - 8) ?m" if "p \<in> objs" for p
    by (rule load64_agree, rule eq) (use that 16 [OF that] in \<open>auto simp: meta_def intro!: bexI [of _ p]\<close>)
  have mg: "load64 (p - 16) ?m' = load64 (p - 16) ?m" if "p \<in> objs" for p
    by (rule load64_agree, rule eq) (use that 16 [OF that] in \<open>auto simp: meta_def intro!: bexI [of _ p]\<close>)
  have lk: "load64 p ?m' = load64 p ?m" if "c < NUMBINS" "p \<in> set (free c)" for c p
    by (rule load64_agree, rule eq, unfold meta_def) (use that in blast)
  have ar: "load64 a ?m' = load64 a ?m \<and> load64 (a + 16) ?m' = load64 (a + 16) ?m" if "currentArena (kz h) = Some a" for a
    using that by (auto intro!: load64_agree eq simp: meta_def)
  have areas: "area ?m' (currentArena (kz h)) l = area ?m (currentArena (kz h)) l" if "l \<in> labels objs arenas" for l
    by (rule area_agree [OF sz ar that])
  have "separate objs arenas ?m' (currentArena (kz h))" using inv areas by (simp add: heap_inv_def separate_def)
  moreover have "\<forall>p\<in>objs. obj_ok ?m' p" using inv sz mg by (simp add: heap_inv_def obj_ok_def obj_size_def)
  moreover have "arena_ok ?m' arenas (currentArena (kz h))"
    using inv ar by (auto simp: heap_inv_def arena_ok_def split: option.splits)
  moreover have "bins_ok ?m' objs free (sl_head (kz h))"
    using inv sz lk by (auto simp: heap_inv_def bins_ok_def intro: chain_agree)
  ultimately show ?thesis using inv areas assms(3-5) by (simp add: heap_inv_def)
qed

definition freed :: "(nat \<Rightarrow> nat list) \<Rightarrow> nat set" where
  "freed free = (\<Union>c<NUMBINS. set (free c))"

lemma class_size_nat: "c < NUMBINS \<Longrightarrow> unat (class2Size (int c)) = 2 ^ (c + 3)"
  by (simp add: NUMBINS_def unat_class2Size nat_add_distrib)

lemma class_size_ge: "c < NUMBINS \<Longrightarrow> 8 \<le> unat (class2Size (int c))"
  by (simp add: class_size_nat power_add)

lemma class_size_inj: "c < NUMBINS \<Longrightarrow> d < NUMBINS \<Longrightarrow> class2Size (int c) = class2Size (int d) \<Longrightarrow> c = d"
proof -
  assume cd: "c < NUMBINS" "d < NUMBINS" "class2Size (int c) = class2Size (int d)"
  have "(2::nat) ^ (c + 3) = 2 ^ (d + 3)"
    using class_size_nat [OF cd(1)] class_size_nat [OF cd(2)] by (simp only: cd(3))
  then have "c + 3 = d + 3" by (subst (asm) power_inject_exp) simp_all
  then show ?thesis by simp
qed

lemma areas_disjoint:
  assumes "heap_inv good taken objs arenas free h" and "k \<in> labels objs arenas" and "l \<in> labels objs arenas" and "k \<noteq> l"
    and "x \<in> area (hmem h) (currentArena (kz h)) k"
  shows "x \<notin> area (hmem h) (currentArena (kz h)) l"
  using assms by (auto simp: heap_inv_def separate_def)

text \<open>Where the relied-on bytes are.\<close>

lemma meta_area:
  assumes inv: "heap_inv good taken objs arenas free h" and "x \<in> meta objs free (currentArena (kz h))"
  shows "\<exists>l\<in>labels objs arenas. x \<in> area (hmem h) (currentArena (kz h)) l
     \<and> (\<forall>p. l = Obj p \<longrightarrow> x < p \<or> p \<in> freed free \<and> x < p + 8) \<and> l \<noteq> Space"
proof -
  from assms(2) consider (hd) p where "p \<in> objs" "x \<in> {p - 16 ..< p}"
    | (lk) c p where "c < NUMBINS" "p \<in> set (free c)" "x \<in> {p ..< p + 8}"
    | (ar) a where "currentArena (kz h) = Some a" "x \<in> {a ..< a + 32}"
    by (auto simp: meta_def split: option.splits)
  then show ?thesis
  proof cases
    case hd
    then show ?thesis by (intro bexI [of _ "Obj p"]) auto
  next
    case lk
    then have p: "p \<in> objs" "load64 (p - 8) (hmem h) = class2Size (int c)"
      using inv by (auto simp: heap_inv_def bins_ok_def)
    then have "8 \<le> obj_size (hmem h) p" using class_size_ge [OF lk(1)] by (simp add: obj_size_def)
    with p lk show ?thesis by (intro bexI [of _ "Obj p"]) (auto simp: freed_def)
  next
    case ar
    then have "a \<in> arenas" using inv by (simp add: heap_inv_def arena_ok_def)
    with ar show ?thesis by (intro bexI [of _ "Arena a"]) auto
  qed
qed

lemma payload_not_meta:
  assumes inv: "heap_inv good taken objs arenas free h" and p: "p \<in> objs" "p \<notin> freed free"
    and x: "x \<in> {p ..< p + obj_size (hmem h) p}"
  shows "x \<notin> meta objs free (currentArena (kz h))"
proof
  assume "x \<in> meta objs free (currentArena (kz h))"
  from meta_area [OF inv this] obtain l where l: "l \<in> labels objs arenas"
    "x \<in> area (hmem h) (currentArena (kz h)) l" "\<forall>q. l = Obj q \<longrightarrow> x < q \<or> q \<in> freed free \<and> x < q + 8" by blast
  have xp: "x \<in> area (hmem h) (currentArena (kz h)) (Obj p)" using x by auto
  show False
  proof (cases "l = Obj p")
    case True
    with l(3) x p(2) show ?thesis by auto
  next
    case False
    with areas_disjoint [OF inv _ l(1) _ xp] l(2) p(1) show ?thesis by auto
  qed
qed

text \<open>The program may write what it holds.\<close>

lemma heap_inv_user_write:
  assumes inv: "heap_inv good taken objs arenas free h" and "p \<in> objs" "p \<notin> freed free"
    and eq: "\<And>x. x \<notin> {p ..< p + obj_size (hmem h) p} \<Longrightarrow> m x = hmem h x"
  shows "heap_inv good taken objs arenas free (h\<lparr>hmem := m\<rparr>)"
proof (rule heap_inv_agree [OF inv])
  fix x assume "x \<in> meta objs free (currentArena (kz h))"
  then show "hmem (h\<lparr>hmem := m\<rparr>) x = hmem h x"
    using payload_not_meta [OF inv assms(2,3)] eq by auto
qed simp_all

text \<open>
  All the heap covers, and operations confined to it: they write, and extend it, only within what it covered and what the
  source handed out meanwhile. This is what keeps the heaps of different threads apart.
\<close>

definition territory :: "nat set \<Rightarrow> nat set \<Rightarrow> 'w heap \<Rightarrow> nat set" where
  "territory objs arenas h = (\<Union>l\<in>labels objs arenas. area (hmem h) (currentArena (kz h)) l)"

definition confined :: "('w \<Rightarrow> nat set) \<Rightarrow> nat set \<Rightarrow> 'w heap \<Rightarrow> nat set \<Rightarrow> 'w heap \<Rightarrow> bool" where
  "confined taken T h T' h' \<longleftrightarrow> taken (source h) \<subseteq> taken (source h')
     \<and> (\<forall>x. x \<notin> T \<union> (taken (source h') - taken (source h)) \<longrightarrow> hmem h' x = hmem h x)
     \<and> T' \<subseteq> T \<union> (taken (source h') - taken (source h))"

lemma confined_trans: "confined taken T h T' k \<Longrightarrow> confined taken T' k T'' l \<Longrightarrow> confined taken T h T'' l"
proof -
  assume 1: "confined taken T h T' k" and 2: "confined taken T' k T'' l"
  have hl: "hmem l x = hmem h x" if "x \<notin> T \<union> (taken (source l) - taken (source h))" for x
  proof -
    have "x \<notin> T \<union> (taken (source k) - taken (source h))" "x \<notin> T' \<union> (taken (source l) - taken (source k))"
      using that 1 2 by (auto simp: confined_def)
    with 1 2 show ?thesis unfolding confined_def by simp
  qed
  show ?thesis unfolding confined_def using 1 2 hl by (auto simp: confined_def)
qed

lemma confined_mono: "confined taken T h T' k \<Longrightarrow> T \<subseteq> S \<Longrightarrow> S' \<subseteq> T' \<Longrightarrow> confined taken S h S' k"
  unfolding confined_def by blast

lemma confined_refl: "confined taken T h T h"
  by (simp add: confined_def)

lemma confined_write: "source h' = source h \<Longrightarrow> (\<And>x. x \<notin> T \<Longrightarrow> hmem h' x = hmem h x) \<Longrightarrow> T' \<subseteq> T
   \<Longrightarrow> confined taken T h T' h'"
  by (simp add: confined_def)

lemma heap_inv_agree_areas:
  assumes inv: "heap_inv good taken objs arenas free h"
    and nm: "\<And>x. x \<in> meta objs free (currentArena (kz h)) \<Longrightarrow> m x = hmem h x" and l: "l \<in> labels objs arenas"
  shows "area m (currentArena (kz h)) l = area (hmem h) (currentArena (kz h)) l"
proof (rule area_agree [OF _ _ l])
  fix p assume p: "p \<in> objs"
  then have "16 \<le> p" using inv by (simp add: heap_inv_def obj_ok_def)
  with p show "load64 (p - 8) m = load64 (p - 8) (hmem h)"
    by (intro load64_agree nm) (auto simp: meta_def intro!: bexI [of _ p])
next
  fix a assume "currentArena (kz h) = Some a"
  then show "load64 a m = load64 a (hmem h) \<and> load64 (a + 16) m = load64 (a + 16) (hmem h)"
    by (auto intro!: load64_agree nm simp: meta_def)
qed

section \<open>The free lists\<close>

lemma adapt_malloc_inv:
  assumes inv: "heap_inv good taken objs arenas free h" and c: "c < NUMBINS"
  shows "(case free c of
       [] \<Rightarrow> adapt_malloc c h = (None, h)
     | p # ps \<Rightarrow> \<exists>h'. adapt_malloc c h = (Some p, h') \<and> heap_inv good taken objs arenas (free(c := ps)) h'
         \<and> hmem h' = hmem h \<and> source h' = source h \<and> p \<in> objs \<and> load64 (p - 8) (hmem h) = class2Size (int c))"
proof (cases "free c")
  case Nil
  then have "sl_head (kz h) c = None" using inv c by (auto simp: heap_inv_def bins_ok_def)
  then have "adapt_malloc c h = (None, h)"
    by (simp add: adapt_malloc_def sl_get_def on_kz_def fun_upd_idem)
  with Nil show ?thesis by simp
next
  case (Cons p ps)
  have ch: "chain (hmem h) (sl_head (kz h) c) (p # ps)" "distinct (p # ps)"
    "p \<in> objs" "load64 (p - 8) (hmem h) = class2Size (int c)"
    using inv c Cons by (auto simp: heap_inv_def bins_ok_def)
  define h' where "h' = on_kz (\<lambda>k. k\<lparr>sl_head := (sl_head k)(c := dec (load64 p (hmem h)))\<rparr>) h"
  have eq: "adapt_malloc c h = (Some p, h')" using ch(1) by (simp add: adapt_malloc_def sl_get_def h'_def)
  have "heap_inv good taken objs arenas (free(c := ps)) h'"
    using inv ch Cons by (auto simp: heap_inv_def h'_def on_kz_def bins_ok_def)
  with eq ch Cons show ?thesis by (simp add: h'_def on_kz_def)
qed

lemma dec_enc: "chain m head xs \<Longrightarrow> (\<And>x. x \<in> set xs \<Longrightarrow> 0 < x \<and> x < 2 ^ 64) \<Longrightarrow> dec (enc head) = head"
proof (cases xs)
  case (Cons x ys)
  assume "chain m head xs" "\<And>x. x \<in> set xs \<Longrightarrow> 0 < x \<and> x < 2 ^ 64"
  with Cons have h: "head = Some x" and x: "0 < x" "x < 2 ^ 64" by auto
  have u: "unat (word_of_nat x :: ulong) = x" using x by (simp add: unsigned_of_nat take_bit_nat_eq_self)
  then have "(word_of_nat x :: ulong) \<noteq> 0" using x(1) by (metis not_less_zero unat_0)
  with u h show ?thesis by (simp add: enc_def dec_def)
qed (simp add: enc_def dec_def)

lemma adapt_free_inv:
  assumes inv: "heap_inv good taken objs arenas free h" and c: "c < NUMBINS"
    and p: "p \<in> objs" "p \<notin> freed free" "load64 (p - 8) (hmem h) = class2Size (int c)"
  shows "heap_inv good taken objs arenas (free(c := p # free c)) (adapt_free c p h)"
    and "\<And>x. x \<notin> {p ..< p + 8} \<Longrightarrow> hmem (adapt_free c p h) x = hmem h x"
    and "source (adapt_free c p h) = source h"
    and "territory objs arenas (adapt_free c p h) = territory objs arenas h"
proof -
  let ?m = "store64 p (enc (sl_head (kz h) c)) (hmem h)"
  define h1 where "h1 = h\<lparr>hmem := ?m\<rparr>"
  have eq: "adapt_free c p h = on_kz (\<lambda>k. k\<lparr>sl_head := (sl_head k)(c := Some p)\<rparr>) h1"
    by (simp add: adapt_free_def sl_insert_def h1_def)
  have sz: "8 \<le> obj_size (hmem h) p" using class_size_ge [OF c] p(3) by (simp add: obj_size_def)
  have out: "?m x = hmem h x" if "x \<notin> {p ..< p + 8}" for x using that by (auto simp: store64_def)
  have inv1: "heap_inv good taken objs arenas free h1"
    unfolding h1_def by (rule heap_inv_user_write [OF inv p(1,2)]) (use out sz in auto)
  have chc: "chain (hmem h) (sl_head (kz h) c) (free c)" "distinct (free c)" "set (free c) \<subseteq> objs"
    using inv c by (auto simp: heap_inv_def bins_ok_def)
  have "0 < x \<and> x < 2 ^ 64" if "x \<in> objs" for x
    using inv that unfolding heap_inv_def obj_ok_def by (metis add_lessD1 less_le_trans zero_less_numeral)
  with chc(3) have "dec (enc (sl_head (kz h) c)) = sl_head (kz h) c" by (intro dec_enc [OF chc(1)]) blast
  then have link: "dec (load64 p ?m) = sl_head (kz h) c" by simp
  have ch1: "chain ?m (sl_head (kz h) c) (free c)"
    using inv1 c by (auto simp: heap_inv_def bins_ok_def h1_def)
  have p16: "16 \<le> p" using inv p(1) by (simp add: heap_inv_def obj_ok_def)
  then have szp: "load64 (p - 8) ?m = class2Size (int c)" using p(3) by (simp add: load64_store64_other)
  have "p \<notin> set (free c)" using p(2) c by (auto simp: freed_def)
  then show "heap_inv good taken objs arenas (free(c := p # free c)) (adapt_free c p h)"
    using inv1 link ch1 szp p(1) chc(2) unfolding eq
    by (auto simp: heap_inv_def on_kz_def bins_ok_def h1_def)
  show "\<And>x. x \<notin> {p ..< p + 8} \<Longrightarrow> hmem (adapt_free c p h) x = hmem h x"
    "source (adapt_free c p h) = source h"
    using out by (simp_all add: eq on_kz_def h1_def)
  have "area ?m (currentArena (kz h)) l = area (hmem h) (currentArena (kz h)) l" if "l \<in> labels objs arenas" for l
  proof (rule heap_inv_agree_areas [OF inv _ that])
    fix x assume "x \<in> meta objs free (currentArena (kz h))"
    then have "x \<notin> {p ..< p + obj_size (hmem h) p}" using payload_not_meta [OF inv p(1,2)] by blast
    then have "x \<notin> {p ..< p + 8}" using sz by auto
    then show "?m x = hmem h x" by (rule out)
  qed
  then show "territory objs arenas (adapt_free c p h) = territory objs arenas h"
    unfolding territory_def eq by (simp add: on_kz_def h1_def)
qed

section \<open>Arenas\<close>

text \<open>A region that belongs to the heap and to none of its areas.\<close>

definition spare :: "('w \<Rightarrow> nat set) \<Rightarrow> nat set \<Rightarrow> nat set \<Rightarrow> 'w heap \<Rightarrow> nat set \<Rightarrow> bool" where
  "spare taken objs arenas h R \<longleftrightarrow> R \<subseteq> taken (source h)
     \<and> (\<forall>l\<in>labels objs arenas. area (hmem h) (currentArena (kz h)) l \<inter> R = {})"

text \<open>A store outside the objects, and outside the current arena's descriptor, changes nothing of them.\<close>

lemma meta_outside:
  assumes inv: "heap_inv good taken objs arenas free h"
    and "\<And>p. p \<in> objs \<Longrightarrow> x \<notin> area (hmem h) (currentArena (kz h)) (Obj p)"
    and "\<And>a. currentArena (kz h) = Some a \<Longrightarrow> x \<notin> {a ..< a + 8} \<and> x \<notin> {a + 16 ..< a + 24}"
  shows "x \<notin> meta objs free (currentArena (kz h))"
proof
  assume m: "x \<in> meta objs free (currentArena (kz h))"
  from meta_area [OF inv m] obtain l where l: "l \<in> labels objs arenas" "x \<in> area (hmem h) (currentArena (kz h)) l" "l \<noteq> Space"
    by blast
  then obtain a where a: "l = Arena a" "a \<in> arenas" using assms(2) by (cases l) auto
  from m consider p where "p \<in> objs" "x \<in> {p - 16 ..< p}" | c p where "c < NUMBINS" "p \<in> set (free c)" "x \<in> {p ..< p + 8}"
    using assms(3) by (auto simp: meta_def split: option.splits)
  then show False
  proof cases
    case 1
    then show False using assms(2) [of p] by auto
  next
    case 2
    then have p: "p \<in> objs" "load64 (p - 8) (hmem h) = class2Size (int c)" using inv by (auto simp: heap_inv_def bins_ok_def)
    then have "8 \<le> obj_size (hmem h) p" using class_size_ge [OF 2(1)] by (simp add: obj_size_def)
    with 2 p show False using assms(2) [of p] by auto
  qed
qed

lemma spare_write_areas:
  assumes inv: "heap_inv good taken objs arenas free h" and sp: "spare taken objs arenas h R"
    and eq: "\<And>x. x \<notin> R \<Longrightarrow> m x = hmem h x" and l: "l \<in> labels objs arenas"
  shows "area m (currentArena (kz h)) l = area (hmem h) (currentArena (kz h)) l"
proof -
  have nm: "m x = hmem h x" if "x \<in> meta objs free (currentArena (kz h))" for x
  proof -
    from meta_area [OF inv that] sp have "x \<notin> R" by (auto simp: spare_def)
    then show ?thesis by (rule eq)
  qed
  then show ?thesis by (rule heap_inv_agree_areas [OF inv _ l])
qed

lemma heap_inv_spare_write:
  assumes inv: "heap_inv good taken objs arenas free h" and sp: "spare taken objs arenas h R"
    and eq: "\<And>x. x \<notin> R \<Longrightarrow> m x = hmem h x"
  shows "heap_inv good taken objs arenas free (h\<lparr>hmem := m\<rparr>)" and "spare taken objs arenas (h\<lparr>hmem := m\<rparr>) R"
proof -
  have nm: "m x = hmem h x" if "x \<in> meta objs free (currentArena (kz h))" for x
  proof -
    from meta_area [OF inv that] sp have "x \<notin> R" by (auto simp: spare_def)
    then show ?thesis by (rule eq)
  qed
  then show "heap_inv good taken objs arenas free (h\<lparr>hmem := m\<rparr>)" by (intro heap_inv_agree [OF inv]) simp_all
  have "area m (currentArena (kz h)) l = area (hmem h) (currentArena (kz h)) l" if "l \<in> labels objs arenas" for l
    by (rule spare_write_areas [OF inv sp eq that])
  with sp show "spare taken objs arenas (h\<lparr>hmem := m\<rparr>) R" by (simp add: spare_def)
qed

text \<open>Putting a header at the start of a spare region makes it an object.\<close>

lemma new_header_inv:
  assumes inv: "heap_inv good taken objs arenas free h" and sp: "spare taken objs arenas h {q ..< q + n}"
    and q: "q mod 8 = 0" "0 < q" "q + n < 2 ^ 64" and n: "16 + unat sz \<le> n" and sc: "size_class sz"
  shows "heap_inv good taken (insert (q + 16) objs) arenas free (new_header q sz h)"
    and "obj_size (hmem (new_header q sz h)) (q + 16) = unat sz" and "q + 16 \<notin> objs"
    and "\<And>x. x \<notin> {q ..< q + 16} \<Longrightarrow> hmem (new_header q sz h) x = hmem h x"
    and "confined taken (territory objs arenas h \<union> {q ..< q + n}) h
           (territory (insert (q + 16) objs) arenas (new_header q sz h)) (new_header q sz h)"
proof -
  let ?m = "store64 (q + 8) sz (store64 q MAGIC (hmem h))"
  have eq: "new_header q sz h = h\<lparr>hmem := ?m\<rparr>" by (simp add: new_header_def wr_def)
  have out: "?m x = hmem h x" if "x \<notin> {q ..< q + 16}" for x using that by (auto simp: store64_def)
  then have out': "?m x = hmem h x" if "x \<notin> {q ..< q + n}" for x using that n by auto
  note w = heap_inv_spare_write [OF inv sp out']
  have ld: "load64 (q + 8) ?m = sz" "load64 q ?m = MAGIC" by (simp_all add: load64_store64_other)
  have "q + 16 - 8 = q + 8" by simp
  then have os: "obj_size ?m (q + 16) = unat sz" by (simp only: obj_size_def ld(1))
  then show "obj_size (hmem (new_header q sz h)) (q + 16) = unat sz" by (simp add: eq)
  have new: "area ?m (currentArena (kz h)) (Obj (q + 16)) = {q ..< q + 16 + unat sz}"
    using os by simp
  have dis: "area ?m (currentArena (kz h)) l \<inter> {q ..< q + n} = {}" if "l \<in> labels objs arenas" for l
    using w(2) that by (simp add: spare_def)
  show nin: "q + 16 \<notin> objs"
  proof
    assume "q + 16 \<in> objs"
    from dis [of "Obj (q + 16)"] this n show False unfolding new by auto
  qed
  have lab: "labels (insert (q + 16) objs) arenas = insert (Obj (q + 16)) (labels objs arenas)" by (auto simp: labels_def)
  have "{q ..< q + 16 + unat sz} \<subseteq> {q ..< q + n}" using n by auto
  then have sub: "area ?m (currentArena (kz h)) (Obj (q + 16)) \<subseteq> {q ..< q + n}" unfolding new .
  have "separate (insert (q + 16) objs) arenas ?m (currentArena (kz h))"
    unfolding separate_pairwise lab pairwise_insert
  proof (intro conjI allI impI)
    show "pairwise (\<lambda>k l. area ?m (currentArena (kz h)) k \<inter> area ?m (currentArena (kz h)) l = {}) (labels objs arenas)"
      using w(1) by (simp add: heap_inv_def separate_pairwise)
    fix l assume "l \<in> labels objs arenas \<and> l \<noteq> Obj (q + 16)"
    with dis sub show "area ?m (currentArena (kz h)) (Obj (q + 16)) \<inter> area ?m (currentArena (kz h)) l = {}"
      "area ?m (currentArena (kz h)) l \<inter> area ?m (currentArena (kz h)) (Obj (q + 16)) = {}" by blast+
  qed
  moreover have "(q + 16) mod 8 = 0" using q(1) by presburger
  then have "obj_ok ?m (q + 16)" using ld q n os sc \<open>q + 16 - 8 = q + 8\<close>
    by (simp only: obj_ok_def) simp
  moreover have "area ?m (currentArena (kz h)) (Obj (q + 16)) \<subseteq> taken (source h)"
    using sub sp by (auto simp: spare_def)
  ultimately show "heap_inv good taken (insert (q + 16) objs) arenas free (new_header q sz h)"
    using w(1) unfolding eq by (simp add: heap_inv_def lab bins_ok_def)
  show "\<And>x. x \<notin> {q ..< q + 16} \<Longrightarrow> hmem (new_header q sz h) x = hmem h x" using out by (simp add: eq)
  have "area ?m (currentArena (kz h)) l = area (hmem h) (currentArena (kz h)) l" if "l \<in> labels objs arenas" for l
    by (rule spare_write_areas [OF inv sp out' that])
  then have "territory objs arenas (new_header q sz h) = territory objs arenas h"
    unfolding territory_def eq by simp
  then have "territory (insert (q + 16) objs) arenas (new_header q sz h) \<subseteq> territory objs arenas h \<union> {q ..< q + n}"
    using sub unfolding territory_def lab eq by auto
  then show "confined taken (territory objs arenas h \<union> {q ..< q + n}) h
           (territory (insert (q + 16) objs) arenas (new_header q sz h)) (new_header q sz h)"
    using out' by (intro confined_write) (simp_all add: eq)
qed

lemma unat_add_small: "unat a + unat b < 2 ^ 64 \<Longrightarrow> unat (a + b :: ulong) = unat a + unat b"
  by (rule unat_add_no_overflow) simp

lemma unat_sub_small: "b \<le> a \<Longrightarrow> unat (a - b :: ulong) = unat a - unat b"
  by (rule unat_sub)

text \<open>Bumping the pointer of the current arena.\<close>

lemma arena_malloc_inv:
  assumes inv: "heap_inv good taken objs arenas free h" and cur: "currentArena (kz h) = Some a"
    and sz: "sz \<le> rd a h" "unat sz mod 8 = 0"
  shows "\<exists>q h'. arena_malloc a sz h = (Some q, h') \<and> heap_inv good taken objs arenas free h'
     \<and> spare taken objs arenas h' {q ..< q + unat sz}
     \<and> q mod 8 = 0 \<and> 0 < q \<and> q + unat sz < 2 ^ 64 \<and> source h' = source h
     \<and> (\<forall>x. x \<notin> {a ..< a + 32} \<longrightarrow> hmem h' x = hmem h x) \<and> a \<in> arenas
     \<and> confined taken (territory objs arenas h) h (territory objs arenas h' \<union> {q ..< q + unat sz}) h'"
proof -
  let ?rem = "rd a h" and ?sp = "rd (a + 16) h"
  have ok: "a \<in> arenas" "0 < unat ?sp" "unat ?sp mod 8 = 0" "unat ?sp + unat ?rem < 2 ^ 64"
    using inv cur by (simp_all add: heap_inv_def arena_ok_def rd_def)
  have le: "unat sz \<le> unat ?rem" using sz(1) by (simp add: word_le_nat_alt)
  let ?m = "store64 (a + 16) (?sp + sz) (store64 a (?rem - sz) (hmem h))"
  define h' where "h' = h\<lparr>hmem := ?m\<rparr>"
  have nz: "?sp \<noteq> 0" using ok(2) by (metis less_irrefl unat_0)
  have eq: "arena_malloc a sz h = (Some (unat ?sp), h')"
    using sz(1) nz by (simp add: arena_malloc_def h'_def rd_def wr_def dec_def Let_def load64_store64_other)
  have ld: "load64 (a + 16) ?m = ?sp + sz" "load64 a ?m = ?rem - sz" by (simp_all add: load64_store64_other)
  have u: "unat (?sp + sz) = unat ?sp + unat sz" "unat (?rem - sz) = unat ?rem - unat sz"
    using ok(4) le sz(1) by (simp_all add: unat_add_small unat_sub_small)
  have out: "?m x = hmem h x" if "x \<notin> {a ..< a + 32}" for x using that by (auto simp: store64_def)
  have obj: "?m x = hmem h x" if "p \<in> objs" "x \<in> area (hmem h) (Some a) (Obj p)" for p x
  proof (rule out)
    show "x \<notin> {a ..< a + 32}"
      using areas_disjoint [OF inv, of "Obj p" "Arena a" x] that ok(1) cur by simp
  qed
  have o16: "16 \<le> p" if "p \<in> objs" for p using inv that by (simp add: heap_inv_def obj_ok_def)
  have hd: "load64 (p - 8) ?m = load64 (p - 8) (hmem h)" "load64 (p - 16) ?m = load64 (p - 16) (hmem h)" if "p \<in> objs" for p
    using obj [OF that] o16 [OF that] by (auto intro!: load64_agree)
  have os: "obj_size ?m p = obj_size (hmem h) p" if "p \<in> objs" for p using hd [OF that] by (simp add: obj_size_def)
  have lk: "load64 p ?m = load64 p (hmem h)" if "c < NUMBINS" "p \<in> set (free c)" for c p
  proof -
    have p: "p \<in> objs" "load64 (p - 8) (hmem h) = class2Size (int c)" using inv that by (auto simp: heap_inv_def bins_ok_def)
    then have "8 \<le> obj_size (hmem h) p" using class_size_ge [OF that(1)] by (simp add: obj_size_def)
    then show ?thesis using obj [OF p(1)] by (intro load64_agree) auto
  qed
  have space: "area ?m (Some a) Space = {unat ?sp + unat sz ..< unat ?sp + unat ?rem}"
    using le by (simp add: ld u)
  have space0: "area (hmem h) (Some a) Space = {unat ?sp ..< unat ?sp + unat ?rem}" by (simp add: rd_def)
  have same: "area ?m (Some a) l = area (hmem h) (Some a) l" if "l \<in> labels objs arenas" "l \<noteq> Space" for l
    using that os by (cases l) auto
  have sub: "area ?m (Some a) l \<subseteq> area (hmem h) (Some a) l" if "l \<in> labels objs arenas" for l
    using that same space space0 le by (cases "l = Space") auto
  have dis0: "area (hmem h) (Some a) k \<inter> area (hmem h) (Some a) l = {}"
    if "k \<in> labels objs arenas" "l \<in> labels objs arenas" "k \<noteq> l" for k l
    using inv cur that by (simp add: heap_inv_def separate_def)
  have "separate objs arenas ?m (Some a)"
    unfolding separate_def using dis0 sub by (meson disjoint_iff subsetD)
  moreover have "\<forall>p\<in>objs. obj_ok ?m p" using inv hd os by (simp add: heap_inv_def obj_ok_def)
  moreover have "(unat ?sp + unat sz) mod 8 = 0" using ok(3) sz(2) by presburger
  then have "arena_ok ?m arenas (Some a)"
    using ok le by (simp add: arena_ok_def ld u)
  moreover have "bins_ok ?m objs free (sl_head (kz h))"
    using inv hd lk by (auto simp: heap_inv_def bins_ok_def intro: chain_agree)
  moreover have tk: "area (hmem h) (Some a) l \<subseteq> taken (source h)" if "l \<in> labels objs arenas" for l
    using inv cur that by (simp add: heap_inv_def)
  ultimately have inv': "heap_inv good taken objs arenas free h'"
    using inv cur subset_trans [OF sub tk] unfolding heap_inv_def h'_def by simp
  have R: "{unat ?sp ..< unat ?sp + unat sz} \<subseteq> area (hmem h) (Some a) Space" using le space0 by auto
  have "area ?m (Some a) l \<inter> {unat ?sp ..< unat ?sp + unat sz} = {}" if "l \<in> labels objs arenas" for l
  proof (cases "l = Space")
    case False
    have "area (hmem h) (Some a) l \<inter> area (hmem h) (Some a) Space = {}" by (rule dis0 [OF that _ False]) simp
    then show ?thesis using R unfolding same [OF that False] by blast
  next
    case True
    show ?thesis unfolding True space by auto
  qed
  then have "spare taken objs arenas h' {unat ?sp ..< unat ?sp + unat sz}"
    using R tk [of Space] cur by (auto simp: spare_def h'_def)
  note sparing = this
  have conf: "confined taken (territory objs arenas h) h (territory objs arenas h' \<union> {unat ?sp ..< unat ?sp + unat sz}) h'"
  proof (rule confined_write)
    fix x assume "x \<notin> territory objs arenas h"
    then have "x \<notin> area (hmem h) (currentArena (kz h)) (Arena a)"
      using ok(1) unfolding territory_def by (meson UN_I labels_simps(2))
    then show "hmem h' x = hmem h x" using out by (simp add: h'_def)
  next
    have "area (hmem h) (Some a) Space \<subseteq> territory objs arenas h"
      unfolding territory_def cur by (rule UN_upper) simp
    with R have "{unat ?sp ..< unat ?sp + unat sz} \<subseteq> territory objs arenas h" by (rule subset_trans)
    moreover have "currentArena (kz h') = Some a" "hmem h' = ?m" by (simp_all add: h'_def cur)
    then have "territory objs arenas h' \<subseteq> territory objs arenas h"
      unfolding territory_def cur by (simp only:) (use sub in blast)
    ultimately show "territory objs arenas h' \<union> {unat ?sp ..< unat ?sp + unat sz} \<subseteq> territory objs arenas h" by simp
  qed (simp add: h'_def)
  show ?thesis
  proof (intro exI [of _ "unat ?sp"] exI [of _ h'] conjI)
    show "unat ?sp + unat sz < 2 ^ 64" using ok le by simp
    show "\<forall>x. x \<notin> {a ..< a + 32} \<longrightarrow> hmem h' x = hmem h x" using out by (simp add: h'_def)
    show "source h' = source h" by (simp add: h'_def)
  qed (rule eq inv' sparing conf ok)+
qed

definition keeps_objects :: "nat set \<Rightarrow> 'w heap \<Rightarrow> 'w heap \<Rightarrow> bool" where
  "keeps_objects objs h h' \<longleftrightarrow> (\<forall>p\<in>objs. \<forall>x\<in>{p - 16 ..< p + obj_size (hmem h) p}. hmem h' x = hmem h x)"

lemma keeps_objects_refl [simp]: "keeps_objects objs h h"
  by (simp add: keeps_objects_def)

lemma keeps_objects_size: "keeps_objects objs h h' \<Longrightarrow> p \<in> objs \<Longrightarrow> 16 \<le> p \<Longrightarrow> obj_size (hmem h') p = obj_size (hmem h) p"
  unfolding obj_size_def by (intro arg_cong [where f = unat] load64_agree) (auto simp: keeps_objects_def)

lemma keeps_objects_trans:
  assumes "keeps_objects objs h k" and "keeps_objects objs k l" and "\<And>p. p \<in> objs \<Longrightarrow> 16 \<le> p"
  shows "keeps_objects objs h l"
  using assms keeps_objects_size [OF assms(1)] by (auto simp: keeps_objects_def)

text \<open>Retiring the current arena.\<close>

lemma retire_arena_inv:
  assumes inv: "heap_inv good taken objs arenas free h"
  shows "heap_inv good taken objs arenas free (retire_arena h)" and "keeps_objects objs h (retire_arena h)"
    and "currentArena (kz (retire_arena h)) = None" and "source (retire_arena h) = source h"
    and "confined taken (territory objs arenas h) h (territory objs arenas (retire_arena h)) (retire_arena h)"
proof -
  have "heap_inv good taken objs arenas free (retire_arena h) \<and> keeps_objects objs h (retire_arena h)
    \<and> currentArena (kz (retire_arena h)) = None \<and> source (retire_arena h) = source h
    \<and> confined taken (territory objs arenas h) h (territory objs arenas (retire_arena h)) (retire_arena h)"
  proof (cases "currentArena (kz h)")
    case None
    then show ?thesis using inv by (simp add: retire_arena_def confined_refl)
  next
    case (Some a)
    let ?m = "store64 (a + 8) (enc (pastArenas (kz h))) (hmem h)"
    let ?h1 = "h\<lparr>hmem := ?m\<rparr>"
    have eq: "retire_arena h = on_kz (\<lambda>k. k\<lparr>pastArenas := Some a, currentArena := None\<rparr>) ?h1"
      using Some by (simp add: retire_arena_def setNextArena_def wr_def)
    have a: "a \<in> arenas" using inv Some by (simp add: heap_inv_def arena_ok_def)
    have out: "?m x = hmem h x" if "x \<notin> {a + 8 ..< a + 16}" for x using that by (auto simp: store64_def)
    have obj: "x \<notin> {a ..< a + 32}" if "p \<in> objs" "x \<in> area (hmem h) (currentArena (kz h)) (Obj p)" for p x
      using areas_disjoint [OF inv _ _ _ that(2), of "Arena a"] that a by simp
    have keepm: "?m x = hmem h x" if m: "x \<in> meta objs free (currentArena (kz h))" for x
    proof -
      have "x \<notin> {a + 8 ..< a + 16}"
      proof
        assume x: "x \<in> {a + 8 ..< a + 16}"
        have "x \<notin> meta objs free (currentArena (kz h))"
        proof (rule meta_outside [OF inv])
          fix p assume "p \<in> objs"
          moreover have "x \<in> {a ..< a + 32}" using x by simp
          ultimately show "x \<notin> area (hmem h) (currentArena (kz h)) (Obj p)" using obj by blast
        qed (use x Some in auto)
        with m show False by simp
      qed
      then show ?thesis using out by simp
    qed
    have "heap_inv good taken objs arenas free ?h1"
      by (rule heap_inv_agree [OF inv]) (simp_all add: keepm)
    moreover have less: "area m None l \<subseteq> area m c l" for m c l by (cases l) auto
    ultimately have "heap_inv good taken objs arenas free (retire_arena h)"
      unfolding eq heap_inv_def separate_def on_kz_def arena_ok_def
      by (simp; meson disjoint_iff subset_iff)
    moreover have "keeps_objects objs h (retire_arena h)"
      unfolding keeps_objects_def
    proof (intro ballI)
      fix p x assume p: "p \<in> objs" "x \<in> {p - 16 ..< p + obj_size (hmem h) p}"
      then have "x \<in> area (hmem h) (currentArena (kz h)) (Obj p)" by simp
      from obj [OF p(1) this] have "x \<notin> {a + 8 ..< a + 16}" by auto
      from out [OF this] show "hmem (retire_arena h) x = hmem h x" unfolding eq by (simp add: on_kz_def)
    qed
    moreover have "confined taken (territory objs arenas h) h (territory objs arenas (retire_arena h)) (retire_arena h)"
    proof (rule confined_write)
      fix x assume "x \<notin> territory objs arenas h"
      then have "x \<notin> area (hmem h) (currentArena (kz h)) (Arena a)"
        using a unfolding territory_def by (meson UN_I labels_simps(2))
      then have "x \<notin> {a + 8 ..< a + 16}" by auto
      from out [OF this] show "hmem (retire_arena h) x = hmem h x" unfolding eq by (simp add: on_kz_def)
    next
      have "area ?m (currentArena (kz h)) l = area (hmem h) (currentArena (kz h)) l" if "l \<in> labels objs arenas" for l
        using heap_inv_agree_areas [OF inv _ that, of ?m] keepm by simp
      moreover have "hmem (retire_arena h) = ?m" "currentArena (kz (retire_arena h)) = None" unfolding eq by (simp_all add: on_kz_def)
      ultimately show "territory objs arenas (retire_arena h) \<subseteq> territory objs arenas h"
        unfolding territory_def using less [of ?m _ "currentArena (kz h)"] by (simp only:) blast
    qed (unfold eq, simp add: on_kz_def)
    ultimately show ?thesis by (simp add: eq on_kz_def)
  qed
  then show "heap_inv good taken objs arenas free (retire_arena h)" "keeps_objects objs h (retire_arena h)"
    "currentArena (kz (retire_arena h)) = None" "source (retire_arena h) = source h"
    "confined taken (territory objs arenas h) h (territory objs arenas (retire_arena h)) (retire_arena h)" by simp_all
qed

text \<open>Memory from the source is spare; a descriptor at its start makes it the current arena.\<close>

lemma heap_inv_source:
  assumes "heap_inv good taken objs arenas free h" and "good w" and "taken (source h) \<subseteq> taken w"
  shows "heap_inv good taken objs arenas free (h\<lparr>source := w\<rparr>)"
  using assms subset_trans [OF _ assms(3)] by (simp add: heap_inv_def)

lemma arena_init_inv:
  assumes inv: "heap_inv good taken objs arenas free h" and cur: "currentArena (kz h) = None"
    and sp: "spare taken objs arenas h {b ..< b + (32 + unat n)}"
    and b: "0 < b" "b mod 8 = 0" "b + (32 + unat n) < 2 ^ 64"
  shows "heap_inv good taken objs (insert b arenas) free (on_kz (\<lambda>k. k\<lparr>currentArena := Some b\<rparr>) (arena_init b n h))"
    and "keeps_objects objs h (on_kz (\<lambda>k. k\<lparr>currentArena := Some b\<rparr>) (arena_init b n h))"
    and "rd b (on_kz (\<lambda>k. k\<lparr>currentArena := Some b\<rparr>) (arena_init b n h)) = n"
    and "confined taken (territory objs arenas h \<union> {b ..< b + (32 + unat n)}) h
           (territory objs (insert b arenas) (on_kz (\<lambda>k. k\<lparr>currentArena := Some b\<rparr>) (arena_init b n h)))
           (on_kz (\<lambda>k. k\<lparr>currentArena := Some b\<rparr>) (arena_init b n h))"
proof -
  let ?R = "{b ..< b + (32 + unat n)}"
  let ?m = "store64 (b + 16) (word_of_nat (b + 32)) (store64 (b + 8) 0 (store64 b n (hmem h)))"
  let ?h' = "on_kz (\<lambda>k. k\<lparr>currentArena := Some b\<rparr>) (arena_init b n h)"
  have eq: "?h' = on_kz (\<lambda>k. k\<lparr>currentArena := Some b\<rparr>) (h\<lparr>hmem := ?m\<rparr>)"
    by (simp add: arena_init_def wr_def sizeof_Arena_def)
  have out: "?m x = hmem h x" if "x \<notin> ?R" for x using that by (auto simp: store64_def)
  note w = heap_inv_spare_write [OF inv sp out]
  have ld: "load64 (b + 16) ?m = word_of_nat (b + 32)" "load64 b ?m = n" by (simp_all add: load64_store64_other)
  from ld(2) show "rd b ?h' = n" unfolding eq by (simp add: rd_def on_kz_def)
  have u: "unat (word_of_nat (b + 32) :: ulong) = b + 32"
    using b(3) by (intro unat_of_nat_small) simp
  have space: "area ?m (Some b) Space = {b + 32 ..< b + 32 + unat n}" by (simp only: area.simps option.case ld u)
  have old: "area ?m (Some b) l = area ?m None l" if "l \<noteq> Space" for l using that by (cases l) auto
  have dis: "area ?m None l \<inter> ?R = {}" if "l \<in> labels objs arenas" for l
    using w(2) that cur by (simp add: spare_def)
  have nb: "b \<notin> arenas" using dis [of "Arena b"] by auto
  have lab: "labels objs (insert b arenas) = insert (Arena b) (labels objs arenas)" by (auto simp: labels_def)
  have "pairwise (\<lambda>k l. area ?m (Some b) k \<inter> area ?m (Some b) l = {}) (labels objs arenas)"
  proof (rule pairwiseI)
    fix k l assume kl: "k \<in> labels objs arenas" "l \<in> labels objs arenas" "k \<noteq> l"
    have d: "area ?m None k \<inter> area ?m None l = {}"
      using w(1) kl cur by (simp add: heap_inv_def separate_def)
    have sub: "area ?m (Some b) Space \<subseteq> ?R" unfolding space by auto
    show "area ?m (Some b) k \<inter> area ?m (Some b) l = {}"
    proof (cases "k = Space")
      case True
      then show ?thesis using old [of l] dis [OF kl(2)] sub kl(3) by blast
    next
      case False
      then show ?thesis using old [OF False] old [of l] dis [OF kl(1)] sub d by (cases "l = Space") blast+
    qed
  qed
  moreover have "area ?m (Some b) (Arena b) \<inter> area ?m (Some b) l = {}" if "l \<in> labels objs arenas" for l
  proof (cases "l = Space")
    case True
    show ?thesis unfolding True space by auto
  next
    case False
    have "area ?m (Some b) (Arena b) \<subseteq> ?R" by auto
    with dis [OF that] old [OF False] show ?thesis by blast
  qed
  ultimately have "separate objs (insert b arenas) ?m (Some b)"
    unfolding separate_pairwise lab pairwise_insert by blast
  moreover have "area ?m (Some b) l \<subseteq> taken (source h)" if "l \<in> labels objs (insert b arenas)" for l
  proof -
    have R: "?R \<subseteq> taken (source h)" using sp by (simp add: spare_def)
    consider "l = Arena b" | "l = Space" | "l \<in> labels objs arenas" "l \<noteq> Space" using \<open>l \<in> _\<close> lab by blast
    then show ?thesis
    proof cases
      case 1
      then show ?thesis using R by auto
    next
      case 2
      then show ?thesis using R unfolding 2 space by auto
    next
      case 3
      then show ?thesis using w(1) cur old [OF 3(2)] by (simp add: heap_inv_def)
    qed
  qed
  moreover have "arena_ok ?m (insert b arenas) (Some b)"
  proof -
    have "(b + 32) mod 8 = 0" using b(2) by presburger
    with b show ?thesis by (simp only: arena_ok_def option.case ld u) simp
  qed
  ultimately show "heap_inv good taken objs (insert b arenas) free ?h'"
    using w(1) unfolding eq by (simp add: heap_inv_def on_kz_def)
  show "keeps_objects objs h ?h'"
    unfolding keeps_objects_def
  proof (intro ballI)
    fix p x assume p: "p \<in> objs" "x \<in> {p - 16 ..< p + obj_size (hmem h) p}"
    have "area (hmem h) (currentArena (kz h)) (Obj p) \<inter> ?R = {}" using sp p(1) unfolding spare_def by (metis labels_simps(1))
    then have "x \<notin> ?R" using p(2) by auto
    from out [OF this] show "hmem ?h' x = hmem h x" unfolding eq by (simp add: on_kz_def)
  qed
  show "confined taken (territory objs arenas h \<union> ?R) h (territory objs (insert b arenas) ?h') ?h'"
  proof (rule confined_write)
    show "source ?h' = source h" unfolding eq by (simp add: on_kz_def)
    show "hmem ?h' x = hmem h x" if "x \<notin> territory objs arenas h \<union> ?R" for x
      using out [of x] that unfolding eq by (simp add: on_kz_def)
    have "area ?m (Some b) l \<subseteq> territory objs arenas h \<union> ?R" if l: "l \<in> labels objs (insert b arenas)" for l
    proof -
      consider "l = Arena b" | "l = Space" | "l \<in> labels objs arenas" "l \<noteq> Space" using l lab by blast
      then show ?thesis
      proof cases
        case 1
        then show ?thesis by auto
      next
        case 2
        then show ?thesis unfolding 2 space by auto
      next
        case 3
        have "area ?m (Some b) l = area (hmem h) (currentArena (kz h)) l"
          using old [OF 3(2)] spare_write_areas [OF inv sp out 3(1)] cur by simp
        then show ?thesis using 3(1) unfolding territory_def by blast
      qed
    qed
    moreover have "hmem ?h' = ?m" "currentArena (kz ?h') = Some b" unfolding eq by (simp_all add: on_kz_def)
    ultimately show "territory objs (insert b arenas) ?h' \<subseteq> territory objs arenas h \<union> ?R"
      unfolding territory_def [of objs "insert b arenas"] by (simp only:) blast
  qed
qed

lemma confined_source:
  assumes "taken (source h) \<subseteq> taken w" and "R \<subseteq> taken w" and "R \<inter> taken (source h) = {}"
  shows "confined taken (territory objs arenas h) h (territory objs arenas (h\<lparr>source := w\<rparr>) \<union> R) (h\<lparr>source := w\<rparr>)"
  using assms by (auto simp: confined_def territory_def)

section \<open>Allocation from a source\<close>

lemma align_shift: "align sz = push_bit 3 (drop_bit 3 (sz + 7))"
proof (rule bit_word_eqI)
  fix n assume "n < LENGTH(64)"
  have "align sz = (sz + 7) AND NOT (mask 3)" by (simp add: align_def mask_eq_exp_minus_1)
  then show "bit (align sz) n = bit (push_bit 3 (drop_bit 3 (sz + 7))) n"
    using \<open>n < LENGTH(64)\<close>
    by (auto simp: bit_and_iff bit_not_iff bit_push_bit_iff bit_drop_bit_eq bit_mask_iff)
qed

text \<open>Rounding up to 8 bytes, away from the end of the word.\<close>

lemma unat_align: "unat sz < 2 ^ 64 - 7 \<Longrightarrow> unat (align sz) = (unat sz + 7) div 8 * 8"
proof -
  assume s: "unat sz < 2 ^ 64 - 7"
  then have "unat (sz + 7) = unat sz + 7" by (subst unat_add_small) simp_all
  then have d: "unat (drop_bit 3 (sz + 7)) = (unat sz + 7) div 8" by (simp only: unat_drop_div) simp
  have "(unat sz + 7) div 8 * 8 < 2 ^ 64" using s by linarith
  then have "take_bit 64 (push_bit 3 ((unat sz + 7) div 8)) = (unat sz + 7) div 8 * 8"
    by (subst take_bit_nat_eq_self) (simp_all add: push_bit_eq_mult)
  moreover have "unat (push_bit 3 (drop_bit 3 (sz + 7))) = take_bit 64 (push_bit 3 (unat (drop_bit 3 (sz + 7))))"
    by (simp only: unsigned_push_bit_eq) simp
  ultimately show ?thesis by (simp only: align_shift d)
qed

text \<open>
  What the layers need of the heap below them: a request below its limit is refused or answered with memory that it has
  not handed out before.
\<close>

locale source_heap =
  fixes smalloc :: "ulong \<Rightarrow> 'w \<Rightarrow> (nat option \<times> 'w) result"
    and good :: "'w \<Rightarrow> bool"
    and taken :: "'w \<Rightarrow> nat set"
    and limit :: nat
  assumes limit: "limit \<le> 2 ^ 63"
    and fresh: "good w \<Longrightarrow> unat sz < limit \<Longrightarrow> smalloc sz w = Inr (Some a, w') \<Longrightarrow>
      good w' \<and> taken w \<subseteq> taken w' \<and> {a ..< a + unat sz} \<subseteq> taken w' \<and> {a ..< a + unat sz} \<inter> taken w = {}
      \<and> 0 < a \<and> a mod 8 = 0 \<and> a + unat sz < 2 ^ 64"
    and refused: "good w \<Longrightarrow> unat sz < limit \<Longrightarrow> smalloc sz w = Inr (None, w') \<Longrightarrow> good w' \<and> taken w \<subseteq> taken w'"
begin

lemma slowMalloc_inv:
  assumes inv: "heap_inv good taken objs arenas free h" and sz: "unat sz mod 8 = 0" "32 + unat sz < limit"
    and chunk: "32 + unat chunk < limit" and r: "slowMalloc smalloc chunk sz h = Inr (p, h')"
  shows "case p of None \<Rightarrow> heap_inv good taken objs arenas free h' \<and> keeps_objects objs h h'
         \<and> confined taken (territory objs arenas h) h (territory objs arenas h') h'
     | Some q \<Rightarrow> \<exists>arenas'. heap_inv good taken objs arenas' free h' \<and> spare taken objs arenas' h' {q ..< q + unat sz}
         \<and> q mod 8 = 0 \<and> 0 < q \<and> q + unat sz < 2 ^ 64 \<and> keeps_objects objs h h'
         \<and> confined taken (territory objs arenas h) h (territory objs arenas' h' \<union> {q ..< q + unat sz}) h'"
proof -
  let ?h1 = "retire_arena h" and ?n = "if chunk < sz then sz else chunk"
  note ret = retire_arena_inv [OF inv]
  have o16: "16 \<le> p" if "p \<in> objs" for p using inv that by (simp add: heap_inv_def obj_ok_def)
  have n62: "32 + unat ?n < limit" "sz \<le> ?n" using sz chunk by auto
  have u: "unat (word_of_nat sizeof_Arena + ?n) = 32 + unat ?n"
    using n62 limit by (subst unat_add_small) (simp_all add: sizeof_Arena_def unat_of_nat_small)
  have g: "good (source ?h1)" using ret(1) by (simp add: heap_inv_def)
  from r obtain b w where b: "smalloc (word_of_nat sizeof_Arena + ?n) (source ?h1) = Inr (b, w)"
    by (auto simp: slowMalloc_def Let_def res_bind_Inr)
  have res: "(case b of None \<Rightarrow> (None, ?h1\<lparr>source := w\<rparr>) | Some buf \<Rightarrow> arena_malloc buf sz
       (on_kz (\<lambda>k. k\<lparr>currentArena := Some buf\<rparr>) (arena_init buf ?n (?h1\<lparr>source := w\<rparr>)))) = (p, h')"
    using r b by (cases b) (simp_all add: slowMalloc_def Let_def)
  show ?thesis
  proof (cases b)
    case None
    with b have "good w \<and> taken (source ?h1) \<subseteq> taken w"
      using refused [OF g _, of "word_of_nat sizeof_Arena + ?n" w] n62 by (simp only: u)
    then have i2: "heap_inv good taken objs arenas free (?h1\<lparr>source := w\<rparr>)"
      and "taken (source ?h1) \<subseteq> taken w" using heap_inv_source [OF ret(1)] by blast+
    from confined_source [OF this(2), of "{}" objs arenas]
    have "confined taken (territory objs arenas h) h (territory objs arenas (?h1\<lparr>source := w\<rparr>)) (?h1\<lparr>source := w\<rparr>)"
      by (intro confined_trans [OF ret(5)]) simp
    moreover have "p = None" "h' = ?h1\<lparr>source := w\<rparr>" using res None by simp_all
    ultimately show ?thesis using ret(2) i2 by (simp add: keeps_objects_def)
  next
    case (Some buf)
    let ?h2 = "?h1\<lparr>source := w\<rparr>"
    let ?h3 = "on_kz (\<lambda>k. k\<lparr>currentArena := Some buf\<rparr>) (arena_init buf ?n ?h2)"
    have fr: "good w" "taken (source ?h1) \<subseteq> taken w" "{buf ..< buf + (32 + unat ?n)} \<subseteq> taken w"
      "{buf ..< buf + (32 + unat ?n)} \<inter> taken (source ?h1) = {}" "0 < buf" "buf mod 8 = 0" "buf + (32 + unat ?n) < 2 ^ 64"
      using fresh [OF g _ b [unfolded Some]] n62(1) unfolding u by auto
    have inv2: "heap_inv good taken objs arenas free ?h2" by (rule heap_inv_source [OF ret(1) fr(1,2)])
    have sp: "spare taken objs arenas ?h2 {buf ..< buf + (32 + unat ?n)}"
      unfolding spare_def
    proof (intro conjI ballI)
      fix l assume "l \<in> labels objs arenas"
      then have "area (hmem ?h1) (currentArena (kz ?h1)) l \<subseteq> taken (source ?h1)" using ret(1) by (simp add: heap_inv_def)
      then show "area (hmem ?h2) (currentArena (kz ?h2)) l \<inter> {buf ..< buf + (32 + unat ?n)} = {}" using fr(4) by auto
    qed (use fr(3) in simp)
    have "currentArena (kz ?h2) = None" using ret(3) by simp
    note ai = arena_init_inv [OF inv2 this sp fr(5,6,7)]
    have "currentArena (kz ?h3) = Some buf" by (simp add: on_kz_def)
    from arena_malloc_inv [OF ai(1) this _ sz(1)] n62(2) ai(3)
    obtain q h4 where q: "arena_malloc buf sz ?h3 = (Some q, h4)" "heap_inv good taken objs (insert buf arenas) free h4"
      "spare taken objs (insert buf arenas) h4 {q ..< q + unat sz}" "q mod 8 = 0" "0 < q" "q + unat sz < 2 ^ 64"
      "\<forall>x. x \<notin> {buf ..< buf + 32} \<longrightarrow> hmem h4 x = hmem ?h3 x"
      "confined taken (territory objs (insert buf arenas) ?h3) ?h3
         (territory objs (insert buf arenas) h4 \<union> {q ..< q + unat sz}) h4" by auto
    have conf: "confined taken (territory objs arenas h) h (territory objs (insert buf arenas) h4 \<union> {q ..< q + unat sz}) h4"
      by (rule confined_trans [OF confined_trans [OF confined_trans [OF ret(5) confined_source [OF fr(2,3,4)]] ai(4)] q(8)])
    have ph: "p = Some q" "h' = h4" using res q(1) Some by simp_all
    have "keeps_objects objs ?h3 h4"
      unfolding keeps_objects_def
    proof (intro ballI)
      fix p x assume p: "p \<in> objs" "x \<in> {p - 16 ..< p + obj_size (hmem ?h3) p}"
      have "x \<notin> area (hmem ?h3) (currentArena (kz ?h3)) (Arena buf)"
        by (rule areas_disjoint [OF ai(1), of "Obj p"]) (use p in simp_all)
      with q(7) show "hmem h4 x = hmem ?h3 x" by simp
    qed
    moreover have "keeps_objects objs h ?h2" using ret(2) by (simp add: keeps_objects_def)
    ultimately have "keeps_objects objs h h4" using keeps_objects_trans ai(2) o16 by meson
    with q conf ph show ?thesis by (simp only: option.case, intro exI [of _ "insert buf arenas"]) simp
  qed
qed

lemma zoneMalloc_inv:
  assumes inv: "heap_inv good taken objs arenas free h" and sz: "40 + unat sz < limit"
    and chunk: "32 + unat chunk < limit" and r: "zoneMalloc smalloc chunk sz h = Inr (p, h')"
  shows "case p of None \<Rightarrow> heap_inv good taken objs arenas free h' \<and> keeps_objects objs h h'
         \<and> confined taken (territory objs arenas h) h (territory objs arenas h') h'
     | Some q \<Rightarrow> \<exists>arenas' n. heap_inv good taken objs arenas' free h' \<and> spare taken objs arenas' h' {q ..< q + n}
         \<and> unat sz \<le> n \<and> q mod 8 = 0 \<and> 0 < q \<and> q + n < 2 ^ 64 \<and> keeps_objects objs h h'
         \<and> confined taken (territory objs arenas h) h (territory objs arenas' h' \<union> {q ..< q + n}) h'"
proof -
  have "unat (align sz) = (unat sz + 7) div 8 * 8" using sz limit by (intro unat_align) simp
  then have al: "unat sz \<le> unat (align sz)" "unat (align sz) mod 8 = 0" "32 + unat (align sz) < limit"
    using sz by simp_all
  have o16: "16 \<le> p" if "p \<in> objs" for p using inv that by (simp add: heap_inv_def obj_ok_def)
  from r have "(\<exists>a. currentArena (kz h) = Some a \<and> align sz \<le> rd a h \<and> arena_malloc a (align sz) h = (p, h'))
     \<or> slowMalloc smalloc chunk (align sz) h = Inr (p, h')"
    by (cases "currentArena (kz h)") (simp_all add: zoneMalloc_def Let_def sizeRemaining_def split: if_splits)
  then consider (fast) a where "currentArena (kz h) = Some a" "align sz \<le> rd a h" "arena_malloc a (align sz) h = (p, h')"
    | (slow) "slowMalloc smalloc chunk (align sz) h = Inr (p, h')" by blast
  then show ?thesis
  proof cases
    case fast
    from arena_malloc_inv [OF inv fast(1,2) al(2)] obtain q h4 where q: "arena_malloc a (align sz) h = (Some q, h4)"
      "heap_inv good taken objs arenas free h4" "spare taken objs arenas h4 {q ..< q + unat (align sz)}"
      "q mod 8 = 0" "0 < q" "q + unat (align sz) < 2 ^ 64" "\<forall>x. x \<notin> {a ..< a + 32} \<longrightarrow> hmem h4 x = hmem h x" "a \<in> arenas"
      "confined taken (territory objs arenas h) h (territory objs arenas h4 \<union> {q ..< q + unat (align sz)}) h4"
      by (elim exE conjE) (rule that)
    have "keeps_objects objs h h4"
      unfolding keeps_objects_def
    proof (intro ballI)
      fix p x assume p: "p \<in> objs" "x \<in> {p - 16 ..< p + obj_size (hmem h) p}"
      have "x \<notin> area (hmem h) (currentArena (kz h)) (Arena a)"
        by (rule areas_disjoint [OF inv, of "Obj p"]) (use p q(8) in simp_all)
      with q(7) show "hmem h4 x = hmem h x" by simp
    qed
    moreover have "p = Some q" "h' = h4" using q(1) fast(3) by simp_all
    ultimately show ?thesis using q al(1)
      by (simp only: option.case, intro exI [of _ arenas] exI [of _ "unat (align sz)"]) simp
  next
    case slow
    note sl = slowMalloc_inv [OF inv al(2,3) chunk slow]
    show ?thesis
    proof (cases p)
      case None
      with sl show ?thesis by simp
    next
      case (Some q)
      with sl obtain arenas' where "heap_inv good taken objs arenas' free h'"
        "spare taken objs arenas' h' {q ..< q + unat (align sz)}" "q mod 8 = 0" "0 < q"
        "q + unat (align sz) < 2 ^ 64" "keeps_objects objs h h'"
        "confined taken (territory objs arenas h) h (territory objs arenas' h' \<union> {q ..< q + unat (align sz)}) h'" by auto
      with al(1) Some show ?thesis
        by (simp only: option.case, intro exI [of _ arenas'] exI [of _ "unat (align sz)"]) simp
    qed
  qed
qed

lemma big_malloc_inv:
  assumes inv: "heap_inv good taken objs arenas free h" and sz: "56 + unat sz < limit" "size_class sz"
    and chunk: "32 + unat chunk < limit" and r: "big_malloc smalloc chunk sz h = Inr (p, h')"
  shows "case p of None \<Rightarrow> heap_inv good taken objs arenas free h' \<and> keeps_objects objs h h'
         \<and> confined taken (territory objs arenas h) h (territory objs arenas h') h'
     | Some a \<Rightarrow> \<exists>arenas'. heap_inv good taken (insert a objs) arenas' free h' \<and> a \<notin> objs
         \<and> obj_size (hmem h') a = unat sz \<and> keeps_objects objs h h'
         \<and> confined taken (territory objs arenas h) h (territory (insert a objs) arenas' h') h'"
proof -
  have u: "unat (sz + word_of_nat sizeof_header) = unat sz + 16"
    using sz limit by (subst unat_add_small) (simp_all add: sizeof_header_def)
  from r obtain b h1 where b: "zoneMalloc smalloc chunk (sz + word_of_nat sizeof_header) h = Inr (b, h1)"
    by (auto simp: big_malloc_def ns_malloc_def res_bind_Inr)
  have res: "(p, h') = (case b of None \<Rightarrow> (None, h1) | Some q \<Rightarrow> (Some (q + 16), new_header q sz h1))"
    using r b by (cases b) (simp_all add: big_malloc_def ns_malloc_def ns_getPointer_def sizeof_header_def)
  have "40 + unat (sz + word_of_nat sizeof_header) < limit" using u sz by simp
  note z = zoneMalloc_inv [OF inv this chunk b]
  show ?thesis
  proof (cases b)
    case None
    with z res show ?thesis by simp
  next
    case (Some q)
    with z u obtain arenas' n where q: "heap_inv good taken objs arenas' free h1"
      "spare taken objs arenas' h1 {q ..< q + n}" "16 + unat sz \<le> n" "q mod 8 = 0" "0 < q" "q + n < 2 ^ 64"
      "keeps_objects objs h h1"
      "confined taken (territory objs arenas h) h (territory objs arenas' h1 \<union> {q ..< q + n}) h1" by auto
    note nh = new_header_inv [OF q(1,2,4,5,6,3) sz(2)]
    have o16: "16 \<le> p" if "p \<in> objs" for p using inv that by (simp add: heap_inv_def obj_ok_def)
    have "keeps_objects objs h1 (new_header q sz h1)"
      unfolding keeps_objects_def
    proof (intro ballI)
      fix p x assume p: "p \<in> objs" "x \<in> {p - 16 ..< p + obj_size (hmem h1) p}"
      have "area (hmem h1) (currentArena (kz h1)) (Obj p) \<inter> {q ..< q + n} = {}"
        using q(2) p(1) unfolding spare_def by (metis labels_simps(1))
      then have "x \<notin> {q ..< q + 16}" using p(2) q(3) by auto
      then show "hmem (new_header q sz h1) x = hmem h1 x" by (rule nh(4))
    qed
    then have "keeps_objects objs h (new_header q sz h1)" using keeps_objects_trans [OF q(7)] o16 by blast
    moreover have "p = Some (q + 16)" "h' = new_header q sz h1" using res Some by simp_all
    moreover have "confined taken (territory objs arenas h) h
       (territory (insert (q + 16) objs) arenas' (new_header q sz h1)) (new_header q sz h1)"
      by (rule confined_trans [OF q(8) nh(5)])
    ultimately show ?thesis using nh by (simp only: option.case, intro exI [of _ arenas']) simp
  qed
qed

end

end
