(* ===== verification/KingsleyHeap.thy ===== *)
theory KingsleyHeap
  imports HeapSafety
begin

text \<open>
  The contract of \<open>KingsleyStyleHeap\<close> (\<open>src/include/warpheap.h\<close>) towards the program: blocks handed out are big enough,
  aligned, disjoint from every block the program still holds, and neither \<open>malloc\<close> nor \<open>free\<close> touches the content of a
  held block; a freed block is the first one reused for its size class.
\<close>

section \<open>What the program holds\<close>

text \<open>\<open>L\<close>: the blocks the program holds; \<open>T\<close>: an upper bound of the memory the heap covers.\<close>

definition holds :: "('w \<Rightarrow> bool) \<Rightarrow> ('w \<Rightarrow> nat set) \<Rightarrow> nat set \<Rightarrow> nat set \<Rightarrow> 'w heap \<Rightarrow> bool" where
  "holds good taken L T h \<longleftrightarrow> (\<exists>objs arenas free. heap_inv good taken objs arenas free h
     \<and> L \<subseteq> objs - freed free \<and> territory objs arenas h \<subseteq> T)"

definition block :: "'w heap \<Rightarrow> nat \<Rightarrow> nat set" where
  "block h p = {p ..< p + obj_size (hmem h) p}"

definition whole :: "'w heap \<Rightarrow> nat \<Rightarrow> nat set" where
  "whole h p = {p - 16 ..< p + obj_size (hmem h) p}"

lemma block_whole: "block h p \<subseteq> whole h p"
  by (auto simp: block_def whole_def)

lemma holdsE:
  assumes "holds good taken L T h"
  obtains objs arenas free where "heap_inv good taken objs arenas free h" and "L \<subseteq> objs - freed free"
    and "territory objs arenas h \<subseteq> T"
  using assms unfolding holds_def by blast

lemma territory_Obj: "p \<in> objs \<Longrightarrow> whole h p \<subseteq> territory objs arenas h"
proof -
  assume p: "p \<in> objs"
  have "area (hmem h) (currentArena (kz h)) (Obj p) \<subseteq> territory objs arenas h"
    unfolding territory_def by (rule UN_upper) (simp add: p)
  then show ?thesis by (simp add: whole_def)
qed

lemma holds_disjoint:
  assumes "holds good taken L T h" and pq: "p \<in> L" "q \<in> L" "p \<noteq> q"
  shows "whole h p \<inter> whole h q = {}"
proof -
  from assms(1) obtain objs arenas free where inv: "heap_inv good taken objs arenas free h" and L: "L \<subseteq> objs - freed free"
    by (rule holdsE)
  have "area (hmem h) (currentArena (kz h)) (Obj p) \<inter> area (hmem h) (currentArena (kz h)) (Obj q) = {}"
    using inv L pq unfolding heap_inv_def separate_def by (metis DiffD1 labels_simps(1) label.inject(1) subsetD)
  then show ?thesis by (simp add: whole_def)
qed

lemma holds_ok: "holds good taken L T h \<Longrightarrow> p \<in> L \<Longrightarrow> obj_ok (hmem h) p"
  by (auto simp: holds_def heap_inv_def)

lemma holds_within: "holds good taken L T h \<Longrightarrow> p \<in> L \<Longrightarrow> whole h p \<subseteq> T"
  using territory_Obj by (blast elim: holdsE)

lemma holds_good: "holds good taken L T h \<Longrightarrow> good (source h)"
  by (auto simp: holds_def heap_inv_def)

lemma holds_taken: "holds good taken L T h \<Longrightarrow> p \<in> L \<Longrightarrow> whole h p \<subseteq> taken (source h)"
proof -
  assume "holds good taken L T h" "p \<in> L"
  then obtain objs arenas free where inv: "heap_inv good taken objs arenas free h" and p: "p \<in> objs" by (auto simp: holds_def)
  then have "area (hmem h) (currentArena (kz h)) (Obj p) \<subseteq> taken (source h)" unfolding heap_inv_def by (meson labels_simps(1))
  then show ?thesis by (simp add: whole_def)
qed

lemma holds_mono: "holds good taken L T h \<Longrightarrow> T \<subseteq> T' \<Longrightarrow> holds good taken L T' h"
  unfolding holds_def by (meson subset_trans)

text \<open>What happens outside of \<open>T\<close> does not matter.\<close>

lemma meta_territory:
  assumes "heap_inv good taken objs arenas free h"
  shows "meta objs free (currentArena (kz h)) \<subseteq> territory objs arenas h"
proof
  fix x assume "x \<in> meta objs free (currentArena (kz h))"
  from meta_area [OF assms this] show "x \<in> territory objs arenas h" unfolding territory_def by auto
qed

lemma holds_frame:
  assumes "holds good taken L T h" and "\<And>x. x \<in> T \<Longrightarrow> hmem h' x = hmem h x"
    and "good (source h')" and "taken (source h) \<subseteq> taken (source h')" and "kz h' = kz h"
  shows "holds good taken L T h'"
proof -
  from assms(1) obtain objs arenas free where inv: "heap_inv good taken objs arenas free h" and L: "L \<subseteq> objs - freed free"
    and T: "territory objs arenas h \<subseteq> T" by (rule holdsE)
  have m: "hmem h' x = hmem h x" if "x \<in> meta objs free (currentArena (kz h))" for x
    using that meta_territory [OF inv] T assms(2) by blast
  from heap_inv_source [OF inv assms(3,4)]
  have "heap_inv good taken objs arenas free h'"
    by (rule heap_inv_agree) (simp_all add: m assms(5))
  moreover have "territory objs arenas h' = territory objs arenas h"
    unfolding territory_def assms(5) by (rule SUP_cong [OF refl]) (rule heap_inv_agree_areas [OF inv m])
  ultimately show ?thesis using L T unfolding holds_def by metis
qed

text \<open>The program stores into a block it holds.\<close>

lemma holds_write:
  assumes "holds good taken L T h" and "p \<in> L" and "\<And>x. x \<notin> block h p \<Longrightarrow> m x = hmem h x"
  shows "holds good taken L T (h\<lparr>hmem := m\<rparr>)"
proof -
  from assms(1) obtain objs arenas free where inv: "heap_inv good taken objs arenas free h" and L: "L \<subseteq> objs - freed free"
    and T: "territory objs arenas h \<subseteq> T" by (rule holdsE)
  have p: "p \<in> objs" "p \<notin> freed free" using assms(2) L by auto
  have "heap_inv good taken objs arenas free (h\<lparr>hmem := m\<rparr>)"
    by (rule heap_inv_user_write [OF inv p]) (use assms(3) in \<open>auto simp: block_def\<close>)
  moreover have "area m (currentArena (kz h)) l = area (hmem h) (currentArena (kz h)) l" if "l \<in> labels objs arenas" for l
    by (rule heap_inv_agree_areas [OF inv _ that])
      (use payload_not_meta [OF inv p] assms(3) in \<open>auto simp: block_def\<close>)
  then have "territory objs arenas (h\<lparr>hmem := m\<rparr>) = territory objs arenas h" unfolding territory_def by simp
  ultimately show ?thesis using L T unfolding holds_def by metis
qed

text \<open>A held block can be taken out of one heap and put into another: \<open>free\<close> by another thread than the allocating one.\<close>

lemma holds_drop:
  assumes "holds good taken L T h" and "p \<in> L"
  shows "holds good taken (L - {p}) (T - whole h p) h"
proof -
  from assms(1) obtain objs arenas free where inv: "heap_inv good taken objs arenas free h" and L: "L \<subseteq> objs - freed free"
    and T: "territory objs arenas h \<subseteq> T" by (rule holdsE)
  have p: "p \<in> objs" "p \<notin> freed free" using assms(2) L by auto
  have lab: "labels (objs - {p}) arenas = labels objs arenas - {Obj p}" by (auto simp: labels_def)
  have "heap_inv good taken (objs - {p}) arenas free h"
    using inv p(2) unfolding heap_inv_def lab separate_def by (auto simp: bins_ok_def freed_def)
  moreover have "L - {p} \<subseteq> (objs - {p}) - freed free" using L by auto
  moreover have "territory (objs - {p}) arenas h \<subseteq> T - whole h p"
  proof
    fix x assume "x \<in> territory (objs - {p}) arenas h"
    then obtain l where l: "l \<in> labels objs arenas" "l \<noteq> Obj p" "x \<in> area (hmem h) (currentArena (kz h)) l"
      unfolding territory_def lab by blast
    have "x \<notin> area (hmem h) (currentArena (kz h)) (Obj p)"
      by (rule areas_disjoint [OF inv l(1) _ l(2,3)]) (simp add: p)
    moreover have "x \<in> T" using l T unfolding territory_def by blast
    ultimately show "x \<in> T - whole h p" by (simp add: whole_def)
  qed
  ultimately show ?thesis unfolding holds_def by blast
qed

lemma holds_adopt:
  assumes "holds good taken L T h" and ok: "obj_ok (hmem h) p" and dis: "whole h p \<inter> T = {}" and tk: "whole h p \<subseteq> taken (source h)"
  shows "holds good taken (insert p L) (T \<union> whole h p) h"
proof -
  from assms(1) obtain objs arenas free where inv: "heap_inv good taken objs arenas free h" and L: "L \<subseteq> objs - freed free"
    and T: "territory objs arenas h \<subseteq> T" by (rule holdsE)
  have ne: "p - 16 \<in> whole h p" using ok by (auto simp: whole_def obj_ok_def)
  have p: "p \<notin> objs" using territory_Obj [of p objs h arenas] ne T dis by blast
  have lab: "labels (insert p objs) arenas = insert (Obj p) (labels objs arenas)" by (auto simp: labels_def)
  have apart: "area (hmem h) (currentArena (kz h)) l \<inter> whole h p = {}" if "l \<in> labels objs arenas" for l
    using that T dis unfolding territory_def by blast
  have "area (hmem h) (currentArena (kz h)) (Obj p) = whole h p" by (simp add: whole_def)
  then have "separate (insert p objs) arenas (hmem h) (currentArena (kz h))"
    using inv apart unfolding separate_pairwise lab pairwise_insert heap_inv_def by (auto simp del: area.simps)
  then have "heap_inv good taken (insert p objs) arenas free h"
    using inv ok tk unfolding heap_inv_def lab by (auto simp: bins_ok_def whole_def)
  moreover have "p \<notin> freed free" using inv p by (auto simp: freed_def heap_inv_def bins_ok_def)
  then have "insert p L \<subseteq> insert p objs - freed free" using L by auto
  moreover have "territory (insert p objs) arenas h \<subseteq> T \<union> whole h p"
    using T unfolding territory_def lab by (auto simp: whole_def)
  ultimately show ?thesis unfolding holds_def by blast
qed

text \<open>The empty heap.\<close>

lemma holds_init: "good w \<Longrightarrow> holds good taken {} {} \<lparr>hmem = m, source = w, kz = kingsley_init\<rparr>"
  unfolding holds_def
  by (rule exI [of _ "{}"], rule exI [of _ "{}"], rule exI [of _ "\<lambda>_. []"])
    (simp add: heap_inv_def arena_ok_def separate_def labels_def bins_ok_def kingsley_init_def territory_def)

lemma freed_split: "c < NUMBINS \<Longrightarrow> freed (f(c := xs)) = set xs \<union> (\<Union>d\<in>{..<NUMBINS} - {c}. set (f d))"
  unfolding freed_def by (auto split: if_splits)

lemma freed_split0: "c < NUMBINS \<Longrightarrow> freed f = set (f c) \<union> (\<Union>d\<in>{..<NUMBINS} - {c}. set (f d))"
  using freed_split [of c f "f c"] by simp

lemma freed_mono: "c < NUMBINS \<Longrightarrow> free c = p # ps \<Longrightarrow> heap_inv good taken objs arenas free h
   \<Longrightarrow> freed (free(c := ps)) = freed free - {p}"
proof -
  assume c: "c < NUMBINS" "free c = p # ps" and inv: "heap_inv good taken objs arenas free h"
  have "p \<notin> set ps" using inv c by (auto simp: heap_inv_def bins_ok_def)
  moreover have "p \<notin> set (free d)" if "d < NUMBINS" "d \<noteq> c" for d
  proof
    assume "p \<in> set (free d)"
    moreover have "load64 (q - 8) (hmem h) = class2Size (int e)" if "e < NUMBINS" "q \<in> set (free e)" for e q
      using inv that by (simp add: heap_inv_def bins_ok_def)
    from this [OF c(1), of p] this [OF that(1), of p] c(2) \<open>p \<in> set (free d)\<close>
    have "class2Size (int c) = class2Size (int d)" by simp
    with class_size_inj [OF c(1) that(1)] that(2) show False by simp
  qed
  ultimately have "p \<notin> set ps \<union> (\<Union>d\<in>{..<NUMBINS} - {c}. set (free d))" by blast
  then show ?thesis unfolding freed_split [OF c(1)] freed_split0 [OF c(1), of free] c(2) by auto
qed

lemma freed_cons: "c < NUMBINS \<Longrightarrow> freed (free(c := p # free c)) = insert p (freed free)"
  by (simp add: freed_split freed_split0 [of c free])

section \<open>Free\<close>

lemma strict_free_holds:
  assumes "holds good taken L T h" and p: "p \<in> L"
  shows "\<exists>h'. strict_free p h = Inr h' \<and> holds good taken (L - {p}) T h'
     \<and> (\<forall>x. x \<notin> block h p \<longrightarrow> hmem h' x = hmem h x) \<and> source h' = source h
     \<and> (\<forall>c<NUMBINS. obj_size (hmem h) p = unat (class2Size (int c)) \<longrightarrow> sl_head (kz h') c = Some p)"
proof -
  from assms(1) obtain objs arenas free where inv: "heap_inv good taken objs arenas free h" "L \<subseteq> objs - freed free"
    and T: "territory objs arenas h \<subseteq> T" by (rule holdsE)
  then have po: "p \<in> objs" "p \<notin> freed free" "obj_ok (hmem h) p" using p by (auto simp: heap_inv_def)
  let ?s = "load64 (p - 8) (hmem h)"
  have "p - 16 + 8 = p - 8" using po(3) by (simp add: obj_ok_def)
  then have gs: "ns_getSize p h = Inr ?s"
    using po(3) by (simp add: ns_getSize_def oh_getSize_def oh_sanityCheck_def ns_getObject_def sizeof_header_def rd_def obj_ok_def)
  have sc: "size_class ?s" using po(3) by (simp add: obj_ok_def)
  show ?thesis
  proof (cases "maxObjectSize < ?s")
    case True
    then have "?s \<noteq> 0" by auto
    with True gs have eq: "strict_free p h = Inr h" by (simp add: strict_free_def ns_free_def zone_free_def)
    have "obj_size (hmem h) p \<noteq> unat (class2Size (int c))" if "c < NUMBINS" for c
    proof -
      have "unat (class2Size (int c)) \<le> 2 ^ 31"
        unfolding class_size_nat [OF that] using that by (intro power_increasing) (simp_all add: NUMBINS_def)
      then show ?thesis using True by (simp add: obj_size_def word_less_nat_alt unat_maxObjectSize)
    qed
    moreover have "holds good taken (L - {p}) T h" unfolding holds_def using inv T by blast
    ultimately show ?thesis using eq by auto
  next
    case False
    with sc obtain c where c: "c < NUMBINS" "?s = class2Size (int c)" by (auto simp: size_class_def)
    then have nz: "?s \<noteq> 0" using class_size_ge [OF c(1)] by (metis not_numeral_le_zero unat_0)
    have "size2Class ?s = int c" using c by (simp add: size2Class_class2Size NUMBINS_def)
    then have cls: "nat (shrink_class (size2Class ?s) ?s) = c" using c(2) shrink_class_exact [of "int c"] by simp
    let ?h' = "on_kz (\<lambda>k. k\<lparr>memoryHeld := memoryHeld k + ?s\<rparr>) (adapt_free c p h)"
    have eq: "strict_free p h = Inr ?h'"
      using gs nz False cls by (simp add: strict_free_def Let_def)
    note af = adapt_free_inv [OF inv(1) c(1) po(1,2) c(2)]
    have kz: "sl_head (kz ?h') = sl_head (kz (adapt_free c p h))" "hmem ?h' = hmem (adapt_free c p h)"
      "source ?h' = source h" "currentArena (kz ?h') = currentArena (kz (adapt_free c p h))"
      using af(3) by (simp_all add: on_kz_def)
    have "heap_inv good taken objs arenas (free(c := p # free c)) ?h'"
      by (rule heap_inv_agree [OF af(1)]) (simp_all add: kz af(3))
    moreover have "L - {p} \<subseteq> objs - freed (free(c := p # free c))" using inv(2) freed_cons [OF c(1), of free p] by auto
    moreover have "territory objs arenas ?h' \<subseteq> T" using af(4) T kz(2,4) by (simp add: territory_def)
    ultimately have hold: "holds good taken (L - {p}) T ?h'" unfolding holds_def by blast
    have "hmem ?h' x = hmem h x" if "x \<notin> block h p" for x
    proof -
      have "8 \<le> obj_size (hmem h) p" using class_size_ge [OF c(1)] c(2) by (simp add: obj_size_def)
      then have "x \<notin> {p ..< p + 8}" using that by (auto simp: block_def)
      then show ?thesis unfolding kz by (rule af(2))
    qed
    moreover have "sl_head (kz ?h') d = Some p"
      if "d < NUMBINS" "obj_size (hmem h) p = unat (class2Size (int d))" for d
    proof -
      have "class2Size (int c) = class2Size (int d)" using that(2) c(2) by (simp add: obj_size_def word_unat_eq_iff)
      then have "d = c" using class_size_inj [OF c(1) that(1)] by simp
      then show ?thesis by (simp add: on_kz_def adapt_free_def sl_insert_def)
    qed
    ultimately show ?thesis using eq hold kz(3) by blast
  qed
qed

text \<open>A freed block is the next one handed out for its class, whatever the source would do.\<close>

lemma strict_malloc_reuse:
  assumes "sz \<le> maxObjectSize" and "sl_head (kz h) (nat (size2Class sz)) = Some p"
  shows "\<exists>h'. strict_malloc smalloc chunk sz h = Inr (Some p, h') \<and> hmem h' = hmem h \<and> source h' = source h"
  using assms by (simp add: strict_malloc_def Let_def adapt_malloc_def sl_get_def on_kz_def)

section \<open>Malloc\<close>

text \<open>What a request of \<open>sz\<close> bytes may return.\<close>

definition extended :: "('w \<Rightarrow> nat set) \<Rightarrow> nat set \<Rightarrow> 'w heap \<Rightarrow> 'w heap \<Rightarrow> nat set" where
  "extended taken T h h' = T \<union> (taken (source h') - taken (source h))"

definition grants :: "('w \<Rightarrow> bool) \<Rightarrow> ('w \<Rightarrow> nat set) \<Rightarrow> nat set \<Rightarrow> nat set \<Rightarrow> ulong \<Rightarrow> 'w heap \<Rightarrow> ptr \<Rightarrow> 'w heap \<Rightarrow> bool" where
  "grants good taken L T sz h p h' \<longleftrightarrow> keeps_objects L h h' \<and> confined taken T h (extended taken T h h') h' \<and>
     (case p of None \<Rightarrow> holds good taken L (extended taken T h h') h'
      | Some a \<Rightarrow> a \<notin> L \<and> holds good taken (insert a L) (extended taken T h h') h'
          \<and> unat sz \<le> obj_size (hmem h') a \<and> a mod 8 = 0)"

lemma grants_disjoint:
  assumes "grants good taken L T sz h (Some a) h'" and "q \<in> L"
  shows "whole h' a \<inter> whole h' q = {}"
proof -
  have "holds good taken (insert a L) (extended taken T h h') h'" "a \<notin> L" using assms(1) by (simp_all add: grants_def)
  from holds_disjoint [OF this(1), of a q] this(2) assms(2) show ?thesis by blast
qed

lemma keeps_objects_mono: "keeps_objects A h h' \<Longrightarrow> B \<subseteq> A \<Longrightarrow> keeps_objects B h h'"
  by (auto simp: keeps_objects_def)

lemma confined_extended:
  assumes "confined taken (territory objs arenas h) h T1 h'" and "territory objs arenas h \<subseteq> T"
  shows "confined taken T h (extended taken T h h') h'" and "T1 \<subseteq> extended taken T h h'"
  using assms by (auto simp: confined_def extended_def)

context source_heap
begin

lemma big_malloc_grants:
  assumes "holds good taken L T h" and "56 + unat sz < limit" and "size_class sz"
    and "32 + unat chunk < limit" and "big_malloc smalloc chunk sz h = Inr (p, h')"
  shows "grants good taken L T sz h p h'"
proof -
  from assms(1) obtain objs arenas free where inv: "heap_inv good taken objs arenas free h" "L \<subseteq> objs - freed free"
    and T: "territory objs arenas h \<subseteq> T" by (rule holdsE)
  note bm = big_malloc_inv [OF inv(1) assms(2-5)]
  show ?thesis
  proof (cases p)
    case None
    with bm have n: "heap_inv good taken objs arenas free h'" "keeps_objects objs h h'"
      "confined taken (territory objs arenas h) h (territory objs arenas h') h'" by simp_all
    note ce = confined_extended [OF n(3) T]
    have "holds good taken L (extended taken T h h') h'" unfolding holds_def using n(1) inv(2) ce(2) by blast
    moreover have "keeps_objects L h h'" using n(2) inv(2) by (blast intro: keeps_objects_mono)
    ultimately show ?thesis using ce(1) None by (simp add: grants_def)
  next
    case (Some a)
    with bm obtain arenas' where a: "heap_inv good taken (insert a objs) arenas' free h'" "a \<notin> objs"
      "obj_size (hmem h') a = unat sz" "keeps_objects objs h h'"
      "confined taken (territory objs arenas h) h (territory (insert a objs) arenas' h') h'" by auto
    note ce = confined_extended [OF a(5) T]
    have "a \<notin> freed free" using inv(1) a(2) by (auto simp: freed_def heap_inv_def bins_ok_def)
    then have "insert a L \<subseteq> insert a objs - freed free" using inv(2) by auto
    then have "holds good taken (insert a L) (extended taken T h h') h'" unfolding holds_def using a(1) ce(2) by blast
    moreover have "a mod 8 = 0" using a(1) by (simp add: heap_inv_def obj_ok_def)
    moreover have "keeps_objects L h h'" "a \<notin> L" using a(2,4) inv(2) by (blast intro: keeps_objects_mono)+
    ultimately show ?thesis using a(3) Some ce(1) by (simp add: grants_def)
  qed
qed

lemma strict_malloc_grants:
  assumes "holds good taken L T h" and "72 + 2 * unat sz < limit" and "32 + unat chunk < limit"
    and r: "strict_malloc smalloc chunk sz h = Inr (p, h')"
  shows "grants good taken L T sz h p h'"
proof (cases "sz \<le> maxObjectSize")
  case False
  then have "maxObjectSize < sz" by simp
  then have "big_malloc smalloc chunk sz h = Inr (p, h')" "size_class sz"
    using r False by (simp_all add: strict_malloc_def size_class_def)
  moreover have "56 + unat sz < limit" using assms(2) by simp
  ultimately show ?thesis using big_malloc_grants assms(1,3) by blast
next
  case True
  let ?c = "nat (size2Class sz)"
  note fits = size2Class_fits [OF True]
  have c: "?c < NUMBINS" "int ?c = size2Class sz" using fits(1,2) by simp_all
  let ?s = "class2Size (size2Class sz)"
  have s: "sz \<le> ?s" "size_class ?s" using fits(3) c by (auto simp: size_class_def)
  have s31: "56 + unat ?s < limit" using fits(4) assms(2) by (simp add: max_def split: if_splits)
  from assms(1) obtain objs arenas free where inv: "heap_inv good taken objs arenas free h" "L \<subseteq> objs - freed free"
    and T: "territory objs arenas h \<subseteq> T" by (rule holdsE)
  note am = adapt_malloc_inv [OF inv(1) c(1)]
  show ?thesis
  proof (cases "free ?c")
    case Nil
    with am have "big_malloc smalloc chunk ?s h = Inr (p, h')"
      using r True by (simp add: strict_malloc_def Let_def)
    then have "grants good taken L T ?s h p h'" using big_malloc_grants assms(1,3) s31 s(2) by blast
    then show ?thesis using s(1) by (auto simp: grants_def word_le_nat_alt split: option.splits)
  next
    case (Cons a ps)
    with am obtain h1 where a: "adapt_malloc ?c h = (Some a, h1)" "heap_inv good taken objs arenas (free(?c := ps)) h1"
      "hmem h1 = hmem h" "a \<in> objs" "load64 (a - 8) (hmem h) = ?s" "source h1 = source h" using c(2) by auto
    then have ph: "p = Some a" "h' = h1" using r True by (simp_all add: strict_malloc_def Let_def)
    have af: "a \<in> freed free" unfolding freed_split0 [OF c(1), of free] Cons by simp
    have "freed (free(?c := ps)) = freed free - {a}" by (rule freed_mono [OF c(1) Cons inv(1)])
    then have sub: "insert a L \<subseteq> objs - freed (free(?c := ps))" using inv(2) a(4) by auto
    have "kz h1 = (kz h)\<lparr>sl_head := sl_head (kz h1)\<rparr>"
      using a(1) by (auto simp: adapt_malloc_def sl_get_def on_kz_def split: option.splits)
    then have "currentArena (kz h1) = currentArena (kz h)" by (metis kingsley.select_convs(1) kingsley.surjective kingsley.update_convs(3))
    then have "territory objs arenas h1 = territory objs arenas h" by (simp add: territory_def a(3))
    then have "holds good taken (insert a L) T h'" unfolding holds_def ph using a(2) sub T by metis
    then have "holds good taken (insert a L) (extended taken T h h') h'" by (rule holds_mono) (simp add: extended_def)
    moreover have "a \<notin> L" using af inv(2) by auto
    moreover have "a mod 8 = 0" using inv(1) a(4) by (simp add: heap_inv_def obj_ok_def)
    moreover have "unat sz \<le> obj_size (hmem h') a" using a(3,5) s(1) ph by (simp add: obj_size_def word_le_nat_alt)
    moreover have "confined taken T h (extended taken T h h') h'" using a(3,6) ph by (simp add: confined_def extended_def)
    ultimately show ?thesis using a(3) by (simp add: grants_def ph keeps_objects_def)
  qed
qed

lemma aw_malloc_grants:
  assumes "holds good taken L T h" and "128 + 2 * unat sz < limit" and "32 + unat chunk < limit"
    and r: "aw_malloc smalloc chunk sz h = Inr (p, h')"
  shows "grants good taken L T sz h p h'" and "p = Some a \<Longrightarrow> 16 \<le> obj_size (hmem h') a"
proof -
  let ?s = "align (if sz < 16 then 16 else sz)"
  have u: "unat (if sz < 16 then 16 else sz) = max 16 (unat sz)" by (simp add: word_less_nat_alt)
  have al: "unat ?s = (max 16 (unat sz) + 7) div 8 * 8"
    using assms(2) limit by (subst unat_align) (simp_all only: u, simp_all)
  have "max 16 (unat sz) \<le> unat sz + 16" by simp
  then have ge: "max 16 (unat sz) \<le> unat ?s" "72 + 2 * unat ?s < limit" using assms(2) unfolding al by linarith+
  have "strict_malloc smalloc chunk ?s h = Inr (p, h')" using r by (simp add: aw_malloc_def Let_def)
  from strict_malloc_grants [OF assms(1) ge(2) assms(3) this] have g: "grants good taken L T ?s h p h'" .
  then show "grants good taken L T sz h p h'" using ge(1) by (auto simp: grants_def split: option.splits)
  show "p = Some a \<Longrightarrow> 16 \<le> obj_size (hmem h') a" using g ge(1) by (auto simp: grants_def)
qed

end

end
