(* ===== verification/Xatomic.thy ===== *)
theory Xatomic
  imports Prelude
begin

text \<open>
  The atomic operations of \<open>src/include/xatomic.h\<close>. Their inline assembly uses 32-bit
  instructions (\<open>incl\<close>, \<open>decl\<close>, \<open>addl\<close>, \<open>xaddl\<close>) on objects declared
  \<open>unsigned long\<close>, so they change the low half of a 64-bit object and drop the carry; only
  \<open>exchange\<close> and \<open>atomic_set\<close> (\<open>xchgq\<close> on x86-64 for the first) work on the whole object.
  An operation returns the new value of the object and its own result.
\<close>

section \<open>The low half of a 64-bit object\<close>

definition low32 :: "ulong \<Rightarrow> cint" where
  "low32 w = ucast w"

definition set_low32 :: "ulong \<Rightarrow> cint \<Rightarrow> ulong" where
  "set_low32 w c = (w AND push_bit 32 (mask 32)) OR ucast c"

section \<open>The operations\<close>

definition exchange :: "ulong \<Rightarrow> ulong \<Rightarrow> ulong \<times> ulong" where
  "exchange oldval newval = (newval, oldval)"

definition increment_and_return :: "ulong \<Rightarrow> ulong \<times> cint" where
  "increment_and_return obj = (set_low32 obj (low32 obj + 1), low32 obj)"

definition increment :: "ulong \<Rightarrow> ulong" where
  "increment obj = set_low32 obj (low32 obj + 1)"

definition add :: "cint \<Rightarrow> ulong \<Rightarrow> ulong" where
  "add i obj = set_low32 obj (low32 obj + i)"

definition decrement :: "ulong \<Rightarrow> ulong" where
  "decrement obj = set_low32 obj (low32 obj - 1)"

definition decrement_and_return :: "ulong \<Rightarrow> ulong \<times> cint" where
  "decrement_and_return obj = (set_low32 obj (low32 obj + (- 1)), low32 obj)"

text \<open>\<open>atomic_set\<close> uses \<open>xchgl\<close> with a 64-bit register operand; its destination is the low half.\<close>

definition atomic_set :: "ulong \<Rightarrow> ulong \<Rightarrow> ulong" where
  "atomic_set oldval newval = set_low32 oldval (low32 newval)"

definition atomic_read :: "ulong \<Rightarrow> cint" where
  "atomic_read obj = ucast obj"

definition memoryBarrier :: "'s \<Rightarrow> 's" where
  "memoryBarrier s = s"

section \<open>What they compute\<close>

lemma low32_set_low32 [simp]: "low32 (set_low32 w c) = c"
  by (rule bit_word_eqI)
    (auto simp: low32_def set_low32_def bit_ucast_iff bit_or_iff bit_and_iff bit_push_bit_iff bit_mask_iff)

lemma high_set_low32 [simp]: "drop_bit 32 (set_low32 w c) = drop_bit 32 w"
  by (rule bit_word_eqI)
    (auto simp: set_low32_def bit_drop_bit_eq bit_ucast_iff bit_or_iff bit_and_iff bit_push_bit_iff
      bit_mask_iff dest: bit_imp_le_length)

lemma halves_eqI:
  fixes w v :: ulong
  assumes "low32 w = low32 v" and "drop_bit 32 w = drop_bit 32 v"
  shows "w = v"
proof (rule bit_word_eqI)
  fix n assume "n < LENGTH(64)"
  show "bit w n = bit v n"
  proof (cases "n < 32")
    case True
    have "bit (low32 w) n = bit (low32 v) n" using assms(1) by simp
    with True show ?thesis by (simp add: low32_def bit_ucast_iff)
  next
    case False
    have "bit (drop_bit 32 w) (n - 32) = bit (drop_bit 32 v) (n - 32)" using assms(2) by simp
    with False show ?thesis by (simp add: bit_drop_bit_eq)
  qed
qed

lemma set_low32_same [simp]: "set_low32 w (low32 w) = w"
  by (rule halves_eqI) simp_all

lemma set_low32_set_low32 [simp]: "set_low32 (set_low32 w c) d = set_low32 w d"
  by (rule halves_eqI) simp_all

lemma decrement_increment: "decrement (increment obj) = obj"
  by (simp add: decrement_def increment_def)

text \<open>While the low half does not overflow, the 32-bit increment is the 64-bit one.\<close>

lemma unat_low32: "unat (low32 w) = unat w mod 2 ^ 32"
  by (simp add: low32_def unsigned_ucast_eq take_bit_eq_mod)

lemma unat_set_low32: "unat (set_low32 w c) = unat w div 2 ^ 32 * 2 ^ 32 + unat c"
proof -
  have "unat v div 2 ^ 32 = unat (drop_bit 32 v)" for v :: ulong
    by (simp only: unat_drop_bit_eq) (simp add: drop_bit_eq_div)
  then show ?thesis
    using div_mult_mod_eq [of "unat (set_low32 w c)" "2 ^ 32"] unat_low32 [of "set_low32 w c"]
    by simp
qed

lemma increment_exact:
  assumes "unat obj mod 2 ^ 32 + 1 < 2 ^ 32"
  shows "unat (increment obj) = unat obj + 1"
proof -
  have low: "unat (low32 obj) = unat obj mod 2 ^ 32" by (rule unat_low32)
  with assms have "unat (low32 obj + 1) = unat obj mod 2 ^ 32 + 1"
    by (subst unat_inc) simp_all
  then show ?thesis by (simp add: increment_def unat_set_low32)
qed

lemma increment_wraps: "unat obj mod 2 ^ 32 + 1 = 2 ^ 32 \<Longrightarrow> unat (increment obj) + (2 ^ 32 - 1) = unat obj"
proof -
  assume a: "unat obj mod 2 ^ 32 + 1 = 2 ^ 32"
  then have "unat (low32 obj) = 2 ^ 32 - 1" by (simp add: unat_low32)
  then have "low32 obj + 1 = 0" by (simp add: unat_eq_0 unat_word_ariths flip: unat_0_iff)
  then show ?thesis using a div_mult_mod_eq [of "unat obj" "2 ^ 32"]
    by (simp add: increment_def unat_set_low32)
qed

end
