(* ===== verification/Pools.thy ===== *)
theory Pools
  imports Prelude
begin

text \<open>
  The contract shared by the two index pools of the library, \<open>xbitmap\<close> (twin pages, shared by all
  processes) and \<open>xpageentry\<close> (page records, one pool per process): both hand out consecutive
  indices from a bump counter until the pool is full and are emptied as a whole by \<open>cleanup\<close>.
\<close>

text \<open>\<open>n\<close> allocations in a row.\<close>

fun pool_gets :: "('s \<Rightarrow> ('i \<times> 's) result) \<Rightarrow> nat \<Rightarrow> 's \<Rightarrow> ('i list \<times> 's) result" where
  "pool_gets get 0 s = Inr ([], s)"
| "pool_gets get (Suc n) s =
     res_bind (get s) (\<lambda>(i, s'). res_bind (pool_gets get n s') (\<lambda>(is, s''). Inr (i # is, s'')))"

locale bump_pool =
  fixes get :: "'s \<Rightarrow> ('i \<times> 's) result"
    and cleanup :: "'s \<Rightarrow> 's"
    and pos :: "'s \<Rightarrow> nat"
    and num :: "'i \<Rightarrow> nat"
    and wf :: "'s \<Rightarrow> bool"
    and first :: nat
    and limit :: nat
    and exhausted :: failure
  assumes get_ok: "wf s \<Longrightarrow> pos s < limit \<Longrightarrow> \<exists>i s'. get s = Inr (i, s') \<and> num i = pos s
      \<and> pos s' = Suc (pos s) \<and> wf s'"
    and get_full: "wf s \<Longrightarrow> \<not> pos s < limit \<Longrightarrow> get s = Inl exhausted"
    and cleanup: "wf s \<Longrightarrow> wf (cleanup s) \<and> pos (cleanup s) = first"
begin

lemma gets_ok:
  assumes "wf s" and "pos s + n \<le> limit"
  shows "\<exists>is s'. pool_gets get n s = Inr (is, s') \<and> map num is = [pos s ..< pos s + n]
    \<and> pos s' = pos s + n \<and> wf s'"
  using assms
proof (induction n arbitrary: s)
  case 0
  then show ?case by simp
next
  case (Suc n)
  then obtain i s' where 1: "get s = Inr (i, s')" "num i = pos s" "pos s' = Suc (pos s)" "wf s'"
    using get_ok [of s] by auto
  with Suc.prems Suc.IH [of s'] obtain ks s'' where
    "pool_gets get n s' = Inr (ks, s'')" "map num ks = [Suc (pos s) ..< Suc (pos s) + n]"
    "pos s'' = Suc (pos s) + n" "wf s''"
    by auto
  with 1 show ?case by (auto simp: upt_conv_Cons)
qed

text \<open>Between two cleanups no index is handed out twice.\<close>

lemma gets_distinct:
  assumes "wf s" and "pos s + n \<le> limit"
  shows "\<exists>is s'. pool_gets get n s = Inr (is, s') \<and> distinct is \<and> length is = n \<and> (\<forall>i \<in> set is. pos s \<le> num i)"
proof -
  from gets_ok [OF assms] obtain ks s' where g: "pool_gets get n s = Inr (ks, s')"
    and k: "map num ks = [pos s ..< pos s + n]" by blast
  have "distinct ks" using k by (metis distinct_map distinct_upt)
  moreover have "length ks = n" using k by (metis add_diff_cancel_left' length_map length_upt)
  moreover have "\<forall>i \<in> set ks. pos s \<le> num i"
  proof
    fix i assume "i \<in> set ks"
    then have "num i \<in> set (map num ks)" by simp
    with k show "pos s \<le> num i" by simp
  qed
  ultimately show ?thesis using g by blast
qed

text \<open>Asking for more than the pool holds fails at the call that finds it full.\<close>

lemma gets_full:
  assumes "wf s" and "pos s \<le> limit" and "limit < pos s + n"
  shows "pool_gets get n s = Inl exhausted"
  using assms
proof (induction n arbitrary: s)
  case (Suc n)
  show ?case
  proof (cases "pos s < limit")
    case True
    with Suc.prems obtain i s' where 1: "get s = Inr (i, s')" "pos s' = Suc (pos s)" "wf s'"
      using get_ok [of s] by auto
    with True Suc.prems Suc.IH [of s'] show ?thesis by simp
  next
    case False
    with Suc.prems get_full show ?thesis by simp
  qed
qed simp

lemma gets_after_cleanup:
  "wf s \<Longrightarrow> first + n \<le> limit \<Longrightarrow> \<exists>is s'. pool_gets get n (cleanup s) = Inr (is, s')
     \<and> map num is = [first ..< first + n]"
  using gets_ok [of "cleanup s" n] cleanup [of s] by auto

end

end
