(* ===== verification/PageDiff.thy ===== *)
theory PageDiff
  imports Prelude "HOL-Library.Multiset"
begin

text \<open>
  How a transaction's writes reach the shared copy of a page (\<open>commitWord\<close> and
  \<open>writePageDiffs\<close> of \<open>src/include/xpersist.h\<close>): the bytes in which the local copy differs from
  the twin (the content the transaction started from) are copied, all others are left alone. Both
  the word-wise loop and the SSE loop of the code are modelled and proved to compute the same
  byte-wise merge; the algebra of this merge gives the meaning of a sequence of commits.
\<close>

section \<open>Pages in a flat memory\<close>

text \<open>Pages are compared below \<open>PageSize\<close> only; \<open>clip\<close> normalises the rest to zero.\<close>

definition clip :: "page \<Rightarrow> page" where
  "clip pg = (\<lambda>k. if k < PageSize then pg k else 0)"

definition page_at :: "nat \<Rightarrow> mem \<Rightarrow> page" where
  "page_at a m = clip (\<lambda>k. m (a + k))"

definition put_page :: "nat \<Rightarrow> page \<Rightarrow> mem \<Rightarrow> mem" where
  "put_page a pg m = memcpy a 0 PageSize pg m"

definition is_page :: "page \<Rightarrow> bool" where
  "is_page pg \<longleftrightarrow> clip pg = pg"

lemma clip_inside [simp]: "k < PageSize \<Longrightarrow> clip pg k = pg k"
  by (simp add: clip_def)

lemma clip_outside [simp]: "\<not> k < PageSize \<Longrightarrow> clip pg k = 0"
  by (simp add: clip_def)

lemma clip_clip [simp]: "clip (clip pg) = clip pg"
  by (simp add: clip_def fun_eq_iff)

lemma is_page_clip [simp]: "is_page (clip pg)"
  by (simp add: is_page_def)

lemma is_page_page_at [simp]: "is_page (page_at a m)"
  by (simp add: page_at_def)

lemma clip_is_page: "is_page pg \<Longrightarrow> clip pg = pg"
  by (simp add: is_page_def)

lemma page_eqI: "is_page p \<Longrightarrow> is_page q \<Longrightarrow> (\<And>k. k < PageSize \<Longrightarrow> p k = q k) \<Longrightarrow> p = q"
  by (metis clip_inside clip_is_page clip_outside ext)

lemma page_at_put_page [simp]: "page_at a (put_page a pg m) = clip pg"
  by (simp add: page_at_def put_page_def clip_def fun_eq_iff memcpy_def)

lemma page_at_put_page_other:
  "a + PageSize \<le> b \<or> b + PageSize \<le> a \<Longrightarrow> page_at b (put_page a pg m) = page_at b m"
  by (auto simp: page_at_def put_page_def clip_def fun_eq_iff memcpy_def)

section \<open>The loops of the code\<close>

definition commitWord :: "page \<Rightarrow> page \<Rightarrow> nat \<Rightarrow> page \<Rightarrow> page" where
  "commitWord src twin off dest =
     fold (\<lambda>i d. if src (off + i) \<noteq> twin (off + i) then d(off + i := src (off + i)) else d) [0..<8] dest"

definition writePageDiffs :: "page \<Rightarrow> page \<Rightarrow> page \<Rightarrow> page" where
  "writePageDiffs lcl twin dest =
     fold (\<lambda>i d. if load64 (8 * i) lcl \<noteq> load64 (8 * i) twin then commitWord lcl twin (8 * i) d else d)
       [0..<PageSize div 8] dest"

text \<open>
  The path compiled with \<open>SSE_SUPPORT\<close>: chunks of 16 bytes. \<open>_mm_cmpeq_epi8\<close> yields a byte of
  ones where the operands agree, \<open>_mm_maskmoveu_si128\<close> stores the bytes whose mask has bit 7 set.
\<close>

type_synonym m128 = "nat \<Rightarrow> byte"

definition mm_load_si128 :: "page \<Rightarrow> nat \<Rightarrow> m128" where
  "mm_load_si128 pg i = (\<lambda>k. pg (16 * i + k))"

definition mm_cmpeq_epi8 :: "m128 \<Rightarrow> m128 \<Rightarrow> m128" where
  "mm_cmpeq_epi8 a b = (\<lambda>k. if a k = b k then 255 else 0)"

definition mm_xor_si128 :: "m128 \<Rightarrow> m128 \<Rightarrow> m128" where
  "mm_xor_si128 a b = (\<lambda>k. a k XOR b k)"

definition allones :: m128 where
  "allones = (\<lambda>_. 255)"

definition mm_maskmoveu_si128 :: "m128 \<Rightarrow> m128 \<Rightarrow> nat \<Rightarrow> page \<Rightarrow> page" where
  "mm_maskmoveu_si128 data msk off dest =
     (\<lambda>k. if off \<le> k \<and> k < off + 16 \<and> bit (msk (k - off)) 7 then data (k - off) else dest k)"

definition writePageDiffs_sse :: "page \<Rightarrow> page \<Rightarrow> page \<Rightarrow> page" where
  "writePageDiffs_sse lcl twin dest =
     fold (\<lambda>i d. let localChunk = mm_load_si128 lcl i;
                     twinChunk = mm_load_si128 twin i;
                     eqChunk = mm_cmpeq_epi8 localChunk twinChunk;
                     neqChunk = mm_xor_si128 allones eqChunk
                 in mm_maskmoveu_si128 localChunk neqChunk (16 * i) d)
       [0..<PageSize div 16] dest"

section \<open>The merge they compute\<close>

definition merge_page :: "page \<Rightarrow> page \<Rightarrow> page \<Rightarrow> page" where
  "merge_page lcl twin dest = (\<lambda>k. if k < PageSize \<and> lcl k \<noteq> twin k then lcl k else dest k)"

lemma commitWord_apply:
  "commitWord src twin off dest k =
     (if off \<le> k \<and> k < off + 8 \<and> src k \<noteq> twin k then src k else dest k)"
proof -
  have "fold (\<lambda>i d. if src (off + i) \<noteq> twin (off + i) then d(off + i := src (off + i)) else d) [0..<n] dest k =
     (if off \<le> k \<and> k < off + n \<and> src k \<noteq> twin k then src k else dest k)" for n
    by (induction n) (auto simp: less_Suc_eq)
  then show ?thesis by (simp add: commitWord_def)
qed

text \<open>Skipping a word whose two copies agree as 64-bit values loses no byte.\<close>

lemma commitWord_skip: "load64 off src = load64 off twin \<Longrightarrow> commitWord src twin off dest = dest"
  by (rule ext) (auto simp: commitWord_apply load64_eq_iff le_iff_add)

lemma writePageDiffs_merge: "writePageDiffs lcl twin dest = merge_page lcl twin dest"
proof -
  let ?f = "\<lambda>i d. if load64 (8 * i) lcl \<noteq> load64 (8 * i) twin then commitWord lcl twin (8 * i) d else d"
  have "fold ?f [0..<n] dest = (\<lambda>k. if k < 8 * n \<and> lcl k \<noteq> twin k then lcl k else dest k)" for n
  proof (induction n)
    case (Suc n)
    have "?f n d = commitWord lcl twin (8 * n) d" for d by (simp add: commitWord_skip)
    then have "fold ?f [0..<Suc n] dest = commitWord lcl twin (8 * n) (fold ?f [0..<n] dest)" by simp
    with Suc.IH show ?case by (auto simp: commitWord_apply fun_eq_iff)
  qed simp
  from this [of "PageSize div 8"] show ?thesis by (simp add: writePageDiffs_def merge_page_def PageSize_def)
qed

lemma mask_bit: "bit ((255 :: byte) XOR (if p then 255 else 0)) 7 \<longleftrightarrow> \<not> p"
  by (simp add: bit_xor_iff)

lemma writePageDiffs_sse_merge: "writePageDiffs_sse lcl twin dest = merge_page lcl twin dest"
proof -
  let ?f = "\<lambda>i d. mm_maskmoveu_si128 (mm_load_si128 lcl i)
     (mm_xor_si128 allones (mm_cmpeq_epi8 (mm_load_si128 lcl i) (mm_load_si128 twin i))) (16 * i) d"
  have step: "?f i d = (\<lambda>k. if 16 * i \<le> k \<and> k < 16 * i + 16 \<and> lcl k \<noteq> twin k then lcl k else d k)" for i d
    by (auto simp: mm_maskmoveu_si128_def mm_xor_si128_def mm_cmpeq_epi8_def mm_load_si128_def allones_def
      mask_bit fun_eq_iff)
  have "fold ?f [0..<n] dest = (\<lambda>k. if k < 16 * n \<and> lcl k \<noteq> twin k then lcl k else dest k)" for n
  proof (induction n)
    case (Suc n)
    then show ?case by (auto simp: step fun_eq_iff)
  qed simp
  from this [of "PageSize div 16"] show ?thesis
    by (simp add: writePageDiffs_sse_def merge_page_def PageSize_def Let_def)
qed

section \<open>Algebra of the merge\<close>

lemma is_page_merge [simp]: "is_page dest \<Longrightarrow> is_page (merge_page lcl twin dest)"
  by (auto simp: is_page_def clip_def merge_page_def fun_eq_iff split: if_splits)

text \<open>Merging into the twin's own content is a plain copy: the fast commit agrees with the slow one.\<close>

lemma merge_page_same: "is_page lcl \<Longrightarrow> is_page twin \<Longrightarrow> merge_page lcl twin twin = lcl"
  by (rule page_eqI) (simp, simp, simp add: merge_page_def)

lemma merge_page_idle: "merge_page twin twin dest = dest"
  by (simp add: merge_page_def fun_eq_iff)

lemma merge_page_idem: "merge_page lcl twin (merge_page lcl twin dest) = merge_page lcl twin dest"
  by (simp add: merge_page_def fun_eq_iff)

text \<open>Transactions that wrote different bytes commit in either order to the same page.\<close>

lemma merge_page_commute:
  assumes "\<And>k. k < PageSize \<Longrightarrow> a k = twin k \<or> b k = twin k"
  shows "merge_page a twin (merge_page b twin dest) = merge_page b twin (merge_page a twin dest)"
  using assms by (auto simp: merge_page_def fun_eq_iff)

text \<open>Where they wrote the same byte the later commit wins.\<close>

lemma merge_page_last: "k < PageSize \<Longrightarrow> a k \<noteq> twin k \<Longrightarrow> merge_page a twin dest k = a k"
  by (simp add: merge_page_def)

text \<open>A sequence of commits over the same twin: each byte comes from its last writer.\<close>

definition merge_all :: "page \<Rightarrow> page list \<Rightarrow> page \<Rightarrow> page" where
  "merge_all twin ls dest = fold (\<lambda>l d. merge_page l twin d) ls dest"

lemma merge_all_simps [simp]:
  "merge_all twin [] dest = dest"
  "merge_all twin (l # ls) dest = merge_all twin ls (merge_page l twin dest)"
  by (simp_all add: merge_all_def)

lemma merge_all_snoc: "merge_all twin (ls @ [l]) dest = merge_page l twin (merge_all twin ls dest)"
  by (simp add: merge_all_def)

lemma merge_all_apply:
  assumes "k < PageSize"
  shows "merge_all twin ls dest k =
    (case filter (\<lambda>l. l k \<noteq> twin k) ls of [] \<Rightarrow> dest k | xs \<Rightarrow> last xs k)"
  using assms
  by (induction ls arbitrary: dest) (auto simp: merge_page_def split: list.splits)

lemma is_page_merge_all [simp]: "is_page dest \<Longrightarrow> is_page (merge_all twin ls dest)"
  by (induction ls arbitrary: dest) simp_all

text \<open>Commits of pairwise disjoint writers can be permuted.\<close>

lemma merge_all_swap:
  assumes "\<And>k. k < PageSize \<Longrightarrow> a k = twin k \<or> b k = twin k"
  shows "merge_all twin (xs @ a # b # ys) dest = merge_all twin (xs @ b # a # ys) dest"
  using merge_page_commute [of a twin b] assms by (simp add: merge_all_def)


text \<open>
  \<open>race_free\<close>: every byte has at most one writer. Then the order of the commits does not matter at
  all; without it the result is still a function of the order, which the token fixes.
\<close>

definition race_free :: "page \<Rightarrow> page list \<Rightarrow> bool" where
  "race_free twin ls \<longleftrightarrow> (\<forall>k<PageSize. length (filter (\<lambda>l. l k \<noteq> twin k) ls) \<le> 1)"

lemma short_mset_eq: "mset xs = mset ys \<Longrightarrow> length xs \<le> 1 \<Longrightarrow> xs = ys"
proof -
  assume m: "mset xs = mset ys" and l: "length xs \<le> 1"
  show "xs = ys"
  proof (cases xs)
    case Nil
    with m show ?thesis by simp
  next
    case (Cons x xs')
    with l have "xs = [x]" by simp
    with m show ?thesis by (metis mset_single_iff_right)
  qed
qed

lemma merge_all_race_free:
  assumes "race_free twin ls" and "mset ls = mset ls'" and "is_page dest"
  shows "merge_all twin ls dest = merge_all twin ls' dest"
proof (rule page_eqI)
  fix k assume k: "k < PageSize"
  have "mset (filter (\<lambda>l. l k \<noteq> twin k) ls) = mset (filter (\<lambda>l. l k \<noteq> twin k) ls')"
    using assms(2) by (simp add: mset_filter)
  moreover have "length (filter (\<lambda>l. l k \<noteq> twin k) ls) \<le> 1" using assms(1) k by (simp add: race_free_def)
  ultimately have "filter (\<lambda>l. l k \<noteq> twin k) ls = filter (\<lambda>l. l k \<noteq> twin k) ls'" by (rule short_mset_eq)
  then show "merge_all twin ls dest k = merge_all twin ls' dest k" by (simp add: merge_all_apply [OF k])
qed (use assms(3) in simp_all)

end
