(* ===== verification/Xbitmap.thy ===== *)
theory Xbitmap
  imports Pools PageDiff
begin

text \<open>
  The pool of twin pages of \<open>src/include/xbitmap.h\<close>: one shared mapping that holds the next
  free index (an \<open>int\<close> at offset 0), the versions of the twin pages (an \<open>int\<close> array at
  offset 4) and, from offset \<open>2 * PageSize\<close>, the twin pages themselves. It is modelled as the flat
  memory it is, so that the extents of the three areas are part of the model.
\<close>

definition BITMAP_SIZE_PER_PAGE :: nat where
  "BITMAP_SIZE_PER_PAGE = 4096"

definition INITIAL_PAGES :: nat where
  "INITIAL_PAGES = 81920"

text \<open>Offsets from the start of the mapping.\<close>

definition bm_cur :: nat where
  "bm_cur = 0"

definition bm_versionStart :: nat where
  "bm_versionStart = 4"

definition bm_pageStart :: nat where
  "bm_pageStart = 2 * PageSize"

lemmas bm_offsets = bm_cur_def bm_versionStart_def bm_pageStart_def PageSize_def BITMAP_SIZE_PER_PAGE_def
  INITIAL_PAGES_def

definition bm_initialize :: mem where
  "bm_initialize = store32 bm_cur 1 (\<lambda>_. 0)"

definition bm_get :: "mem \<Rightarrow> (cint \<times> mem) result" where
  "bm_get m =
     (let cur = load32 bm_cur m
      in if sint (cur + 1) < int INITIAL_PAGES then Inr (cur, store32 bm_cur (cur + 1) m)
         else Inl Uninitialised)"

definition bm_getAddress :: "cint \<Rightarrow> nat" where
  "bm_getAddress index = bm_pageStart + unat index * BITMAP_SIZE_PER_PAGE"

definition bm_setVersion :: "cint \<Rightarrow> cint \<Rightarrow> mem \<Rightarrow> mem" where
  "bm_setVersion index version m = store32 (bm_versionStart + 4 * unat index) version m"

definition bm_getVersion :: "cint \<Rightarrow> mem \<Rightarrow> cint" where
  "bm_getVersion index m = load32 (bm_versionStart + 4 * unat index) m"

definition bm_cleanup :: "mem \<Rightarrow> mem" where
  "bm_cleanup m = store32 bm_cur 1 m"

text \<open>The content of twin page \<open>index\<close>, and the copy of a page into it (\<open>memcpy(twin, ...)\<close>).\<close>

definition twin_page :: "cint \<Rightarrow> mem \<Rightarrow> page" where
  "twin_page index m = page_at (bm_getAddress index) m"

definition write_twin :: "cint \<Rightarrow> page \<Rightarrow> mem \<Rightarrow> mem" where
  "write_twin index pg m = put_page (bm_getAddress index) pg m"

section \<open>Allocation\<close>

text \<open>\<open>bm_wf\<close>: the next free index lies between 1 and the size of the pool.\<close>

definition bm_wf :: "mem \<Rightarrow> bool" where
  "bm_wf m \<longleftrightarrow> 1 \<le> unat (load32 bm_cur m) \<and> unat (load32 bm_cur m) < INITIAL_PAGES"

lemma bm_wf_initialize: "bm_wf bm_initialize"
  by (simp add: bm_wf_def bm_initialize_def INITIAL_PAGES_def)

lemma bm_wf_cleanup: "bm_wf (bm_cleanup m)"
  by (simp add: bm_wf_def bm_cleanup_def INITIAL_PAGES_def)

lemma unat_next_index: "bm_wf m \<Longrightarrow> unat (load32 bm_cur m + 1) = unat (load32 bm_cur m) + 1"
  by (rule unat_inc) (simp add: bm_wf_def INITIAL_PAGES_def)

lemma bm_get_ok:
  assumes "bm_wf m" and "unat (load32 bm_cur m) + 1 < INITIAL_PAGES"
  shows "bm_get m = Inr (load32 bm_cur m, store32 bm_cur (load32 bm_cur m + 1) m)"
proof -
  have "sint (load32 bm_cur m + 1) = int (unat (load32 bm_cur m) + 1)"
    using assms by (subst sint_small) (simp_all add: unat_next_index INITIAL_PAGES_def)
  with assms(2) show ?thesis by (simp only: bm_get_def Let_def of_nat_less_iff if_True)
qed

lemma bm_get_exhausted:
  assumes "bm_wf m" and "\<not> unat (load32 bm_cur m) + 1 < INITIAL_PAGES"
  shows "bm_get m = Inl Uninitialised"
proof -
  have "sint (load32 bm_cur m + 1) = int (unat (load32 bm_cur m) + 1)"
    using assms by (subst sint_small) (simp_all add: unat_next_index bm_wf_def INITIAL_PAGES_def)
  with assms(2) show ?thesis by (simp only: bm_get_def Let_def of_nat_less_iff if_False)
qed

lemma bm_get_wf:
  assumes "bm_wf m" and "bm_get m = Inr (i, m')"
  shows "bm_wf m'" and "i = load32 bm_cur m" and "unat (load32 bm_cur m') = unat i + 1" and "i \<noteq> 0"
proof -
  have "unat (load32 bm_cur m) + 1 < INITIAL_PAGES" using assms bm_get_exhausted by fastforce
  with assms show "bm_wf m'" "i = load32 bm_cur m" "unat (load32 bm_cur m') = unat i + 1" "i \<noteq> 0"
    by (auto simp: bm_get_ok unat_next_index bm_wf_def)
qed

interpretation bm: bump_pool bm_get bm_cleanup "\<lambda>m. unat (load32 bm_cur m)" unat bm_wf 1
  "INITIAL_PAGES - 1" Uninitialised
proof unfold_locales
  fix m assume "bm_wf m" "unat (load32 bm_cur m) < INITIAL_PAGES - 1"
  then have "bm_get m = Inr (load32 bm_cur m, store32 bm_cur (load32 bm_cur m + 1) m)"
    by (intro bm_get_ok) simp_all
  moreover from bm_get_wf [OF \<open>bm_wf m\<close> this]
  have "bm_wf (store32 bm_cur (load32 bm_cur m + 1) m)"
    "unat (load32 bm_cur (store32 bm_cur (load32 bm_cur m + 1) m)) = unat (load32 bm_cur m) + 1"
    by simp_all
  ultimately show "\<exists>i m'. bm_get m = Inr (i, m') \<and> unat i = unat (load32 bm_cur m)
    \<and> unat (load32 bm_cur m') = Suc (unat (load32 bm_cur m)) \<and> bm_wf m'" by auto
next
  fix m assume "bm_wf m" "\<not> unat (load32 bm_cur m) < INITIAL_PAGES - 1"
  then show "bm_get m = Inl Uninitialised"
    by (intro bm_get_exhausted) (simp_all add: INITIAL_PAGES_def)
next
  fix m assume "bm_wf m"
  show "bm_wf (bm_cleanup m) \<and> unat (load32 bm_cur (bm_cleanup m)) = 1"
    by (simp add: bm_wf_cleanup) (simp add: bm_cleanup_def)
qed

section \<open>The three areas\<close>

lemma is_page_twin_page [simp]: "is_page (twin_page i m)"
  by (simp add: twin_page_def)

lemma twin_page_write_twin [simp]: "twin_page i (write_twin i pg m) = clip pg"
  by (simp add: twin_page_def write_twin_def)

lemma twin_page_write_twin_other:
  assumes "i \<noteq> j"
  shows "twin_page j (write_twin i pg m) = twin_page j m"
proof -
  have "unat i \<noteq> unat j" using assms by (metis unsigned_word_eqI)
  then consider "unat i + 1 \<le> unat j" | "unat j + 1 \<le> unat i" by linarith
  then have "bm_getAddress i + PageSize \<le> bm_getAddress j \<or> bm_getAddress j + PageSize \<le> bm_getAddress i"
    by cases (auto simp: bm_getAddress_def bm_offsets)
  then show ?thesis by (simp add: twin_page_def write_twin_def page_at_put_page_other)
qed

lemma cur_write_twin [simp]: "load32 bm_cur (write_twin i pg m) = load32 bm_cur m"
  by (simp add: load32_def write_twin_def put_page_def bm_getAddress_def bm_offsets)

lemma cur_setVersion [simp]: "load32 bm_cur (bm_setVersion i v m) = load32 bm_cur m"
  by (simp add: bm_setVersion_def load32_store32_other bm_offsets)

lemma getVersion_setVersion [simp]: "bm_getVersion i (bm_setVersion i v m) = v"
  by (simp add: bm_getVersion_def bm_setVersion_def)

text \<open>Handing out an index writes the counter only.\<close>

lemma twin_page_store_cur [simp]: "twin_page j (store32 bm_cur v m) = twin_page j m"
  by (auto simp: twin_page_def page_at_def clip_def fun_eq_iff bm_getAddress_def bm_offsets)

lemma twin_page_get: "bm_get m = Inr (i, m') \<Longrightarrow> twin_page j m' = twin_page j m"
  by (auto simp: bm_get_def Let_def split: if_splits)

lemma twin_page_cleanup [simp]: "twin_page j (bm_cleanup m) = twin_page j m"
  by (simp add: bm_cleanup_def)

text \<open>
  The version array has room for the indices up to 2046 in the two pages before the twin pages;
  up to index 3070 it grows into twin page 0 only, which is never handed out.
\<close>

lemma setVersion_keeps_twins:
  assumes "unat i \<le> 3070" and "1 \<le> unat j"
  shows "twin_page j (bm_setVersion i v m) = twin_page j m"
  using assms
  by (auto simp: twin_page_def page_at_def clip_def fun_eq_iff bm_setVersion_def bm_getAddress_def bm_offsets)

text \<open>From index 3071 on, recording a version overwrites twin pages handed out earlier.\<close>

lemma setVersion_3071: "k < 4 \<Longrightarrow> twin_page 1 (bm_setVersion 3071 v m) k = byte_of v k"
  by (simp add: twin_page_def page_at_def clip_def bm_setVersion_def store32_def bm_getAddress_def bm_offsets)

end
