(* ===== verification/Xpageentry.thy ===== *)
theory Xpageentry
  imports Pools
begin

text \<open>
  The pool of page records of \<open>src/include/xpageentry.h\<close> and the records themselves
  (\<open>src/include/xpageinfo.h\<close>): one pool per process, filled by the page-fault handler and emptied
  when a transaction begins.
\<close>

record xpageinfo =
  pi_pageNo :: nat
  pi_version :: cint
  pi_pageStart :: nat
  pi_isUpdated :: bool
  pi_isShared :: bool
  pi_release :: bool

definition PAGE_ENTRY_NUM :: nat where
  "PAGE_ENTRY_NUM = 800000"

record xpageentry =
  pe_total :: nat
  pe_cur :: nat
  pe_start :: "nat \<Rightarrow> xpageinfo"

text \<open>An anonymous mapping is zero filled.\<close>

definition zero_pageinfo :: xpageinfo where
  "zero_pageinfo = \<lparr>pi_pageNo = 0, pi_version = 0, pi_pageStart = 0, pi_isUpdated = False,
     pi_isShared = False, pi_release = False\<rparr>"

definition pe_constructor :: xpageentry where
  "pe_constructor = \<lparr>pe_total = 0, pe_cur = 0, pe_start = (\<lambda>_. zero_pageinfo)\<rparr>"

definition pe_initialize :: "xpageentry \<Rightarrow> xpageentry" where
  "pe_initialize p = p\<lparr>pe_cur := 0, pe_total := PAGE_ENTRY_NUM, pe_start := (\<lambda>_. zero_pageinfo)\<rparr>"

definition pe_alloc :: "xpageentry \<Rightarrow> (nat \<times> xpageentry) result" where
  "pe_alloc p = (if pe_cur p < pe_total p then Inr (pe_cur p, p\<lparr>pe_cur := pe_cur p + 1\<rparr>) else Inl Aborted)"

definition pe_cleanup :: "xpageentry \<Rightarrow> xpageentry" where
  "pe_cleanup p = p\<lparr>pe_cur := 0\<rparr>"

text \<open>A store through the pointer that \<open>alloc\<close> returned.\<close>

definition pe_update :: "nat \<Rightarrow> (xpageinfo \<Rightarrow> xpageinfo) \<Rightarrow> xpageentry \<Rightarrow> xpageentry" where
  "pe_update i f p = p\<lparr>pe_start := (pe_start p)(i := f (pe_start p i))\<rparr>"

lemma pe_update_simps [simp]:
  "pe_cur (pe_update i f p) = pe_cur p" "pe_total (pe_update i f p) = pe_total p"
  "pe_start (pe_update i f p) j = (if j = i then f (pe_start p i) else pe_start p j)"
  by (simp_all add: pe_update_def)

definition pe_wf :: "xpageentry \<Rightarrow> bool" where
  "pe_wf p \<longleftrightarrow> pe_total p = PAGE_ENTRY_NUM \<and> pe_cur p \<le> PAGE_ENTRY_NUM"

lemma pe_wf_initialize: "pe_wf (pe_initialize p)"
  by (simp add: pe_wf_def pe_initialize_def)

interpretation pe: bump_pool pe_alloc pe_cleanup pe_cur "\<lambda>i. i" pe_wf 0 PAGE_ENTRY_NUM Aborted
  by unfold_locales (auto simp: pe_alloc_def pe_wf_def pe_cleanup_def)

end
