(* ===== verification/Xpersist.thy ===== *)
theory Xpersist
  imports Xatomic Xbitmap Xpageentry
begin

text \<open>
  The page store of \<open>src/include/xpersist.h\<close> in the configuration of \<open>src/Makefile\<close>
  (\<open>LAZY_COMMIT\<close>, no \<open>GET_CHARACTERISTICS\<close>). One region (the globals or the heap) is backed by a
  file: its shared mapping, the versions, users and owners of its pages and the twin pages are
  visible to every process; each process has its own private mapping of the region, its page
  attributes, its owned blocks, its list of dirtied pages and its pool of page records.

  A state (\<open>world\<close>) holds the shared part once and one private part per process, so that the
  operations of several processes can be composed; an operation takes the process that runs it.
  The operating system is modelled where the code relies on it: \<open>mmap\<close> with \<open>MAP_FIXED\<close>,
  \<open>mprotect\<close> and \<open>madvise(MADV_DONTNEED)\<close> act on the page mappings; whether \<open>mmap\<close> succeeds,
  whether a process is alive and how often a signal is re-sent are inputs.
\<close>

section \<open>State\<close>

record shareinfo =
  si_users :: ushort
  si_bitmapIndex :: ushort

record xshared =
  persistentMemory :: mem
  persistentVersions :: "nat \<Rightarrow> ulong"
  pageUsers :: "nat \<Rightarrow> shareinfo"
  pageOwner :: "nat \<Rightarrow> ulong"
  twins :: mem

datatype prot = PROT_NONE | PROT_READ | PROT_READ_WRITE

record mapping =
  m_prot :: prot
  m_shared :: bool
  m_copy :: "page option"

record xlocal =
  xp_base :: nat
  xp_size :: nat
  transient :: "nat \<Rightarrow> mapping"
  isHeap :: bool
  isProtected :: bool
  pageInfo :: "nat \<Rightarrow> ulong"
  ownedblockinfo :: "nat \<Rightarrow> ulong"
  ownedblocks :: ulong
  dirtiedPagesList :: "(nat \<times> nat) list"
  trans_count :: cint
  threadindex :: int

record world =
  sh :: xshared
  locals :: "cint \<Rightarrow> xlocal"
  pools :: "cint \<Rightarrow> xpageentry"
  live :: "cint \<Rightarrow> bool"
  resends :: "nat \<Rightarrow> nat"
  mmap_ok :: "nat \<Rightarrow> nat \<Rightarrow> bool"

definition on_sh :: "(xshared \<Rightarrow> xshared) \<Rightarrow> world \<Rightarrow> world" where
  "on_sh f w = w\<lparr>sh := f (sh w)\<rparr>"

definition on_lo :: "cint \<Rightarrow> (xlocal \<Rightarrow> xlocal) \<Rightarrow> world \<Rightarrow> world" where
  "on_lo me f w = w\<lparr>locals := (locals w)(me := f (locals w me))\<rparr>"

definition on_pool :: "cint \<Rightarrow> (xpageentry \<Rightarrow> xpageentry) \<Rightarrow> world \<Rightarrow> world" where
  "on_pool me f w = w\<lparr>pools := (pools w)(me := f (pools w me))\<rparr>"

lemma on_sh_simps [simp]:
  "sh (on_sh f w) = f (sh w)" "locals (on_sh f w) = locals w" "pools (on_sh f w) = pools w"
  "live (on_sh f w) = live w" "resends (on_sh f w) = resends w" "mmap_ok (on_sh f w) = mmap_ok w"
  by (simp_all add: on_sh_def)

lemma on_lo_simps [simp]:
  "sh (on_lo me f w) = sh w" "pools (on_lo me f w) = pools w"
  "locals (on_lo me f w) q = (if q = me then f (locals w me) else locals w q)"
  "live (on_lo me f w) = live w" "resends (on_lo me f w) = resends w" "mmap_ok (on_lo me f w) = mmap_ok w"
  by (simp_all add: on_lo_def)

lemma on_pool_simps [simp]:
  "sh (on_pool me f w) = sh w" "locals (on_pool me f w) = locals w"
  "pools (on_pool me f w) q = (if q = me then f (pools w me) else pools w q)"
  "live (on_pool me f w) = live w" "resends (on_pool me f w) = resends w" "mmap_ok (on_pool me f w) = mmap_ok w"
  by (simp_all add: on_pool_def)

section \<open>Constants and address arithmetic\<close>

definition SHARED_PAGE :: ulong where
  "SHARED_PAGE = 0xFFFFFFFF"

definition PAGE_ACCESS_NONE :: ulong where
  "PAGE_ACCESS_NONE = 0"

definition PAGE_ACCESS_READ :: ulong where
  "PAGE_ACCESS_READ = 1"

definition PAGE_ACCESS_WRITE :: ulong where
  "PAGE_ACCESS_WRITE = 2"

lemmas page_access_defs = PAGE_ACCESS_NONE_def PAGE_ACCESS_READ_def PAGE_ACCESS_WRITE_def

text \<open>A pid in comparisons with an \<open>unsigned long\<close>.\<close>

definition pid_ulong :: "cint \<Rightarrow> ulong" where
  "pid_ulong pid = scast pid"

definition computePage :: "nat \<Rightarrow> nat" where
  "computePage index = index div PageSize"

definition TotalPageNums :: "xlocal \<Rightarrow> nat" where
  "TotalPageNums l = xp_size l div PageSize"

definition inRange :: "cint \<Rightarrow> nat \<Rightarrow> world \<Rightarrow> bool" where
  "inRange me addr w = (xp_base (locals w me) \<le> addr \<and> addr < xp_base (locals w me) + xp_size (locals w me))"

definition getPageStart :: "cint \<Rightarrow> nat \<Rightarrow> world \<Rightarrow> nat" where
  "getPageStart me pageNo w = xp_base (locals w me) + pageNo * PageSize"

text \<open>Page \<open>pageNo\<close> of the shared mapping, and page \<open>pageNo\<close> as process \<open>me\<close> sees it.\<close>

definition share_page :: "nat \<Rightarrow> world \<Rightarrow> page" where
  "share_page pageNo w = page_at (pageNo * PageSize) (persistentMemory (sh w))"

definition put_share :: "nat \<Rightarrow> page \<Rightarrow> world \<Rightarrow> world" where
  "put_share pageNo pg = on_sh (\<lambda>s. s\<lparr>persistentMemory := put_page (pageNo * PageSize) pg (persistentMemory s)\<rparr>)"

definition local_page :: "cint \<Rightarrow> nat \<Rightarrow> world \<Rightarrow> page" where
  "local_page me pageNo w =
     (case m_copy (transient (locals w me) pageNo) of Some pg \<Rightarrow> clip pg | None \<Rightarrow> share_page pageNo w)"

section \<open>The system calls on mappings\<close>

definition pages_of :: "nat \<Rightarrow> nat" where
  "pages_of sz = (sz + PageSize - 1) div PageSize"

definition fill :: "nat \<Rightarrow> nat \<Rightarrow> 'a \<Rightarrow> (nat \<Rightarrow> 'a) \<Rightarrow> nat \<Rightarrow> 'a" where
  "fill a b v f = (\<lambda>i. if a \<le> i \<and> i < b then v else f i)"

definition mmap_fixed :: "cint \<Rightarrow> nat \<Rightarrow> nat \<Rightarrow> prot \<Rightarrow> bool \<Rightarrow> world \<Rightarrow> world" where
  "mmap_fixed me first n pr shared =
     on_lo me (\<lambda>l. l\<lparr>transient := fill first (first + n) \<lparr>m_prot = pr, m_shared = shared, m_copy = None\<rparr> (transient l)\<rparr>)"

definition mprotect :: "cint \<Rightarrow> nat \<Rightarrow> nat \<Rightarrow> prot \<Rightarrow> world \<Rightarrow> world" where
  "mprotect me first n pr =
     on_lo me (\<lambda>l. l\<lparr>transient := (\<lambda>p. if first \<le> p \<and> p < first + n then (transient l p)\<lparr>m_prot := pr\<rparr>
       else transient l p)\<rparr>)"

definition madvise_dontneed :: "cint \<Rightarrow> nat \<Rightarrow> nat \<Rightarrow> world \<Rightarrow> world" where
  "madvise_dontneed me first n =
     on_lo me (\<lambda>l. l\<lparr>transient := (\<lambda>p. if first \<le> p \<and> p < first + n then (transient l p)\<lparr>m_copy := None\<rparr>
       else transient l p)\<rparr>)"

text \<open>A store of one byte that the protection allows: to the file for a shared mapping, else to a private copy.\<close>

definition write_byte :: "cint \<Rightarrow> nat \<Rightarrow> nat \<Rightarrow> byte \<Rightarrow> world \<Rightarrow> world" where
  "write_byte me pageNo k b w =
     (if m_shared (transient (locals w me) pageNo)
      then put_share pageNo ((share_page pageNo w)(k := b)) w
      else on_lo me (\<lambda>l. l\<lparr>transient := (transient l)(pageNo :=
             (transient l pageNo)\<lparr>m_copy := Some ((local_page me pageNo w)(k := b))\<rparr>)\<rparr>) w)"

section \<open>Construction\<close>

text \<open>
  The results of the system calls of the constructor, which runs in the first process. A fresh file is zero
  filled, and so are the anonymous maps. The fields that the constructor does not set (\<open>_ownedblocks\<close>, \<open>_trans\<close>,
  \<open>_threadindex\<close>) keep their value.
\<close>

record xp_os =
  os_data_file :: bool
  os_data_truncate :: bool
  os_version_file :: bool
  os_version_truncate :: bool
  os_map_persistent :: bool
  os_map_transient :: ptr
  os_map_versions :: bool
  os_map_users :: bool
  os_map_owner :: bool
  os_map_info :: bool

definition new_shared :: "mem \<Rightarrow> mem \<Rightarrow> xshared" where
  "new_shared content tw = \<lparr>persistentMemory = content, persistentVersions = (\<lambda>_. 0),
     pageUsers = (\<lambda>_. \<lparr>si_users = 0, si_bitmapIndex = 0\<rparr>), pageOwner = (\<lambda>_. 0), twins = tw\<rparr>"

definition xp_constructor :: "xp_os \<Rightarrow> cint \<Rightarrow> nat \<Rightarrow> ptr \<Rightarrow> nat \<Rightarrow> mem \<Rightarrow> world \<Rightarrow> world result" where
  "xp_constructor os me sz startaddr startsize initial w =
     (if 0 < startsize \<and> sz < startsize then Inl Aborted
      else if \<not> os_data_file os \<or> \<not> os_data_truncate os then Inl Aborted
      else if \<not> os_version_file os \<or> \<not> os_version_truncate os then Inl Aborted
      else if \<not> os_map_persistent os then Inl Aborted
      else
        (let content = (case startaddr of Some a \<Rightarrow> memcpy 0 a startsize initial (\<lambda>_. 0) | None \<Rightarrow> (\<lambda>_. 0))
         in case os_map_transient os of None \<Rightarrow> Inl Aborted
            | Some a \<Rightarrow>
                if \<not> os_map_owner os \<or> \<not> os_map_info os then Inl Aborted
                else if \<not> os_map_versions os \<or> \<not> os_map_users os then Inl Aborted
                else Inr (mmap_fixed me 0 (pages_of sz) PROT_READ_WRITE True
                       (on_lo me (\<lambda>l. l\<lparr>xp_base := (case startaddr of Some b \<Rightarrow> b | None \<Rightarrow> a), xp_size := sz,
                            isHeap := (startaddr = None), isProtected := False, pageInfo := (\<lambda>_. 0),
                            ownedblockinfo := (\<lambda>_. 0), dirtiedPagesList := []\<rparr>)
                         (on_sh (\<lambda>s. new_shared content (twins s)) w)))))"

section \<open>Protection of the region\<close>

definition xp_initialize :: "cint \<Rightarrow> world \<Rightarrow> world" where
  "xp_initialize me = on_lo me (\<lambda>l. l\<lparr>dirtiedPagesList := []\<rparr>)"

definition writeProtect :: "cint \<Rightarrow> nat \<Rightarrow> nat \<Rightarrow> world \<Rightarrow> world result" where
  "writeProtect me start sz w =
     (if mmap_ok w start sz
      then Inr (mmap_fixed me ((start - xp_base (locals w me)) div PageSize) (pages_of sz) PROT_READ False w)
      else Inl (Exited (- 1)))"

definition removeProtect :: "cint \<Rightarrow> nat \<Rightarrow> nat \<Rightarrow> world \<Rightarrow> world result" where
  "removeProtect me start sz w =
     (if mmap_ok w start sz
      then Inr (mmap_fixed me ((start - xp_base (locals w me)) div PageSize) (pages_of sz) PROT_READ_WRITE True w)
      else Inl (Exited (- 1)))"

text \<open>
  \<open>openProtection\<close> for the heap computes the allocated size in an \<open>int\<close>; the page counts divide
  it by the unsigned \<open>PageSize\<close>, the test for \<open>> 0\<close> and the file offset use it signed.
\<close>

definition set_pages :: "cint \<Rightarrow> nat \<Rightarrow> nat \<Rightarrow> ulong \<Rightarrow> ulong \<Rightarrow> world \<Rightarrow> world" where
  "set_pages me a b owner info w =
     on_lo me (\<lambda>l. l\<lparr>pageInfo := fill a b info (pageInfo l)\<rparr>)
       (on_sh (\<lambda>s. s\<lparr>pageOwner := fill a b owner (pageOwner s)\<rparr>) w)"

definition openProtection :: "cint \<Rightarrow> nat \<Rightarrow> world \<Rightarrow> world result" where
  "openProtection me end_addr w =
     (let l = locals w me; total = TotalPageNums l
      in res_bind
        (if \<not> isHeap l
         then res_bind (writeProtect me (xp_base l) (xp_size l) w)
                (\<lambda>w1. Inr (set_pages me 0 total SHARED_PAGE PAGE_ACCESS_READ w1))
         else
           (let allocSize = (word_of_nat (end_addr - xp_base l) :: cint);
                npages = unat allocSize div PageSize;
                rest = (word_of_nat (xp_size l) - scast allocSize :: ulong)
            in res_bind (if 0 < sint allocSize then writeProtect me (xp_base l) (unat allocSize) w else Inr w)
                 (\<lambda>w1. let w2 = set_pages me 0 npages SHARED_PAGE PAGE_ACCESS_READ w1
                   in if 0 \<le> sint allocSize \<and> mmap_ok w2 end_addr (unat rest)
                      then Inr (set_pages me npages total 0 PAGE_ACCESS_NONE
                             (mmap_fixed me npages (pages_of (unat rest)) PROT_NONE False w2))
                      else Inl (Exited (- 1)))))
        (\<lambda>w3. Inr (on_lo me (\<lambda>l. l\<lparr>isProtected := True,
             ownedblocks := 0, trans_count := 0\<rparr>) w3)))"

definition closeProtection :: "cint \<Rightarrow> world \<Rightarrow> world result" where
  "closeProtection me w =
     res_bind (removeProtect me (xp_base (locals w me)) (xp_size (locals w me)) w)
       (\<lambda>w1. Inr (on_lo me (\<lambda>l. l\<lparr>isProtected := False\<rparr>) w1))"

definition xp_finalize :: "cint \<Rightarrow> world \<Rightarrow> world result" where
  "xp_finalize me w = (if isProtected (locals w me) then closeProtection me w else Inr w)"

definition setThreadIndex :: "cint \<Rightarrow> int \<Rightarrow> world \<Rightarrow> world" where
  "setThreadIndex me index = on_lo me (\<lambda>l. l\<lparr>threadindex := index\<rparr>)"

definition xp_mem_write :: "cint \<Rightarrow> nat \<Rightarrow> ulong \<Rightarrow> world \<Rightarrow> world" where
  "xp_mem_write me addr val w =
     on_sh (\<lambda>s. s\<lparr>persistentMemory := store64 (addr - xp_base (locals w me)) val (persistentMemory s)\<rparr>) w"


section \<open>Page ownership\<close>

definition mprotectRead :: "cint \<Rightarrow> nat \<Rightarrow> world \<Rightarrow> world" where
  "mprotectRead me pageNo w =
     mprotect me pageNo 1 PROT_READ
       (on_lo me (\<lambda>l. l\<lparr>pageInfo := (pageInfo l)(pageNo := PAGE_ACCESS_READ)\<rparr>) w)"

definition mprotectWrite :: "cint \<Rightarrow> nat \<Rightarrow> world \<Rightarrow> world" where
  "mprotectWrite me pageNo w =
     mprotect me pageNo 1 PROT_READ_WRITE
       (if pageOwner (sh w) pageNo = pid_ulong me
        then on_lo me (\<lambda>l. l\<lparr>pageInfo := (pageInfo l)(pageNo := PAGE_ACCESS_WRITE)\<rparr>) w else w)"

definition isSharedPage :: "nat \<Rightarrow> world \<Rightarrow> bool" where
  "isSharedPage pageNo w = (pageOwner (sh w) pageNo = SHARED_PAGE)"

definition setSharedPage :: "cint \<Rightarrow> nat \<Rightarrow> world \<Rightarrow> world" where
  "setSharedPage me pageNo w =
     (if pageOwner (sh w) pageNo \<noteq> SHARED_PAGE
      then on_lo me (\<lambda>l. l\<lparr>pageInfo := (pageInfo l)(pageNo := PAGE_ACCESS_READ)\<rparr>)
             (on_sh (\<lambda>s. s\<lparr>pageOwner := (pageOwner s)(pageNo := fst (exchange (pageOwner s pageNo) SHARED_PAGE))\<rparr>) w)
      else w)"

text \<open>
  The table of owned blocks is one page of \<open>unsigned long\<close>: 512 entries, two per block. A store
  past its end is out of bounds; the code's own limit is 2048 blocks.
\<close>

definition OWNED_ENTRIES :: nat where
  "OWNED_ENTRIES = PageSize div 8"

definition setOwnedPage :: "cint \<Rightarrow> nat \<Rightarrow> nat \<Rightarrow> world \<Rightarrow> world result" where
  "setOwnedPage me addr sz w =
     (if \<not> isProtected (locals w me) then Inr w
      else
        (let startPage = computePage (addr - xp_base (locals w me));
             pages = sz div PageSize;
             blocks = unat (ownedblocks (locals w me));
             w1 = mprotect me startPage (pages_of sz) PROT_READ w;
             w2 = set_pages me startPage (startPage + pages) (pid_ulong me) PAGE_ACCESS_READ w1
         in if blocks * 2 + 1 < OWNED_ENTRIES
            then (let w3 = on_lo me (\<lambda>l. l\<lparr>ownedblockinfo := (ownedblockinfo l)
                              (blocks * 2 := word_of_nat startPage,
                               blocks * 2 + 1 := word_of_nat (startPage + pages)),
                            ownedblocks := ownedblocks l + 1\<rparr>) w2
                  in if unat (ownedblocks (locals w3 me)) = PageSize div 2 then Inl (Exited (- 1)) else Inr w3)
            else Inl OutOfBounds))"

definition cleanupOwnedBlocks :: "cint \<Rightarrow> world \<Rightarrow> world" where
  "cleanupOwnedBlocks me = on_lo me (\<lambda>l. l\<lparr>ownedblocks := 0\<rparr>)"

definition bump_version :: "nat \<Rightarrow> world \<Rightarrow> world" where
  "bump_version pageNo =
     on_sh (\<lambda>s. s\<lparr>persistentVersions := (persistentVersions s)(pageNo := persistentVersions s pageNo + 1)\<rparr>)"

definition commitOwnedPage :: "cint \<Rightarrow> nat \<Rightarrow> bool \<Rightarrow> world \<Rightarrow> world" where
  "commitOwnedPage me pageNo setShared w =
     (let w1 = put_share pageNo (local_page me pageNo w) w;
          w2 = (if setShared then madvise_dontneed me pageNo 1 (setSharedPage me pageNo w1) else w1)
      in bump_version pageNo w2)"

text \<open>
  The owner of a page answers the signal in its handler, \<open>xmemory::signalHandler\<close>, by committing
  the page; the caller spins until the page is shared and re-sends the signal while it waits
  (\<open>resends\<close> counts the extra deliveries). If the signal cannot be queued the caller marks the
  page shared itself.
\<close>

definition notifyOwnerToCommit :: "cint \<Rightarrow> nat \<Rightarrow> world \<Rightarrow> world" where
  "notifyOwnerToCommit me pageNo w =
     (let owner = (ucast (pageOwner (sh w) pageNo) :: cint)
      in if owner = ucast SHARED_PAGE then w
         else if \<not> live w owner then setSharedPage me pageNo w
         else (commitOwnedPage owner pageNo True ^^ Suc (resends w pageNo)) w)"

definition forceCommitOwnedPages :: "cint \<Rightarrow> cint \<Rightarrow> nat \<Rightarrow> world \<Rightarrow> world" where
  "forceCommitOwnedPages me pid end_addr w =
     (let endpage = (end_addr - xp_base (locals w me)) div PageSize
      in fold (\<lambda>i v. if pageOwner (sh v) i = pid_ulong pid then notifyOwnerToCommit me i v else v)
           [0..<endpage] w)"

definition finalcommit_page :: "cint \<Rightarrow> bool \<Rightarrow> nat \<Rightarrow> world \<Rightarrow> world" where
  "finalcommit_page me release j w =
     (if pageOwner (sh w) j = pid_ulong me
      then (if release then commitOwnedPage me j True w
            else setSharedPage me j (commitOwnedPage me j False w))
      else w)"

definition finalcommit :: "cint \<Rightarrow> bool \<Rightarrow> world \<Rightarrow> world" where
  "finalcommit me release w =
     fold (\<lambda>i v. fold (finalcommit_page me release)
                   [unat (ownedblockinfo (locals v me) (i * 2)) ..< unat (ownedblockinfo (locals v me) (i * 2 + 1))] v)
       [0 ..< unat (ownedblocks (locals w me))] w"

section \<open>The page-fault handler\<close>

text \<open>
  \<open>xatomic::increment\<close> runs a 32-bit \<open>incl\<close> on the two adjacent 16-bit fields: \<open>users\<close> is the low
  half, \<open>bitmapIndex\<close> the high half, and a carry out of \<open>users\<close> lands in \<open>bitmapIndex\<close>.
\<close>

definition share_word :: "shareinfo \<Rightarrow> cint" where
  "share_word si = push_bit 16 (ucast (si_bitmapIndex si)) OR ucast (si_users si)"

definition word_share :: "cint \<Rightarrow> shareinfo" where
  "word_share c = \<lparr>si_users = ucast c, si_bitmapIndex = ucast (drop_bit 16 c)\<rparr>"

definition increment_users :: "nat \<Rightarrow> world \<Rightarrow> world" where
  "increment_users pageNo =
     on_sh (\<lambda>s. s\<lparr>pageUsers := (pageUsers s)(pageNo := word_share (share_word (pageUsers s pageNo) + 1))\<rparr>)"

text \<open>\<open>multimap::insert\<close>: after the entries with a smaller or equal key.\<close>

fun multimap_insert :: "nat \<times> nat \<Rightarrow> (nat \<times> nat) list \<Rightarrow> (nat \<times> nat) list" where
  "multimap_insert e [] = [e]"
| "multimap_insert e (x # xs) = (if fst x \<le> fst e then x # multimap_insert e xs else e # x # xs)"

definition add_dirty :: "cint \<Rightarrow> nat \<Rightarrow> world \<Rightarrow> world result" where
  "add_dirty me pageNo w =
     (let w1 = increment_users pageNo w
      in res_bind (pe_alloc (pools w1 me))
        (\<lambda>(i, p). let p' = pe_update i (\<lambda>e. e\<lparr>pi_pageNo := pageNo, pi_pageStart := getPageStart me pageNo w1,
                             pi_isUpdated := False, pi_version := ucast (persistentVersions (sh w1) pageNo)\<rparr>) p
           in Inr (on_lo me (\<lambda>l. l\<lparr>dirtiedPagesList := multimap_insert (pageNo, i) (dirtiedPagesList l)\<rparr>)
                (on_pool me (\<lambda>_. p') w1))))"

definition handleWrite :: "cint \<Rightarrow> nat \<Rightarrow> world \<Rightarrow> world result" where
  "handleWrite me addr w =
     (let pageNo = computePage (addr - xp_base (locals w me));
          accessType = pageInfo (locals w me) pageNo
      in if accessType = PAGE_ACCESS_NONE
         then Inr (mprotectRead me pageNo (notifyOwnerToCommit me pageNo w))
         else if accessType = PAGE_ACCESS_READ
         then add_dirty me pageNo (mprotectWrite me pageNo w)
         else if accessType = PAGE_ACCESS_WRITE
         then add_dirty me pageNo (commitOwnedPage me pageNo False (mprotectWrite me pageNo w))
         else add_dirty me pageNo w)"

definition nop :: "cint \<Rightarrow> world \<Rightarrow> bool" where
  "nop me w = (dirtiedPagesList (locals w me) = [])"

section \<open>Commit\<close>

definition createTwinPage :: "nat \<Rightarrow> world \<Rightarrow> world result" where
  "createTwinPage pageNo w =
     res_bind (bm_get (twins (sh w)))
       (\<lambda>(index, m).
          let m1 = write_twin index (share_page pageNo w) m;
              m2 = bm_setVersion index (ucast (persistentVersions (sh w) pageNo)) m1
          in Inr (on_sh (\<lambda>s. s\<lparr>pageUsers := (pageUsers s)(pageNo :=
                    (pageUsers s pageNo)\<lparr>si_bitmapIndex := ucast index\<rparr>), twins := m2\<rparr>) w))"

text \<open>The twin that \<open>getAddress(shareinfo->bitmapIndex)\<close> points to.\<close>

definition twin_of :: "nat \<Rightarrow> world \<Rightarrow> page" where
  "twin_of pageNo w = twin_page (ucast (si_bitmapIndex (pageUsers (sh w) pageNo))) (twins (sh w))"

definition updatePage :: "cint \<Rightarrow> nat \<Rightarrow> nat \<Rightarrow> bool \<Rightarrow> world \<Rightarrow> world" where
  "updatePage me pageNo pages release w =
     mprotect me pageNo pages PROT_READ (if release then madvise_dontneed me pageNo pages w else w)"

definition set_info :: "cint \<Rightarrow> nat \<Rightarrow> (xpageinfo \<Rightarrow> xpageinfo) \<Rightarrow> world \<Rightarrow> world" where
  "set_info me i f = on_pool me (pe_update i f)"

definition dec_users :: "nat \<Rightarrow> world \<Rightarrow> world" where
  "dec_users pageNo =
     on_sh (\<lambda>s. s\<lparr>pageUsers := (pageUsers s)(pageNo :=
       (pageUsers s pageNo)\<lparr>si_users := si_users (pageUsers s pageNo) - 1\<rparr>)\<rparr>)"

text \<open>The block under \<open>if (isModified)\<close>.\<close>

definition finish_modified :: "nat \<Rightarrow> world \<Rightarrow> world" where
  "finish_modified pageNo w =
     (let w1 = (if si_users (pageUsers (sh w) pageNo) = 1
                then on_sh (\<lambda>s. s\<lparr>pageUsers := (pageUsers s)(pageNo := (pageUsers s pageNo)\<lparr>si_bitmapIndex := 0\<rparr>)\<rparr>) w
                else w)
      in bump_version pageNo (dec_users pageNo w1))"

definition same_version :: "xpageinfo \<Rightarrow> world \<Rightarrow> bool" where
  "same_version e w = ((scast (pi_version e) :: ulong) = persistentVersions (sh w) (pi_pageNo e))"

text \<open>One iteration of the loop of \<open>checkandcommit\<close>, for the page record \<open>i\<close>.\<close>

definition commit_page :: "cint \<Rightarrow> bool \<Rightarrow> nat \<Rightarrow> world \<Rightarrow> world result" where
  "commit_page me update i w =
     (let e = pe_start (pools w me) i; pageNo = pi_pageNo e
      in res_bind
        (if 1 < si_users (pageUsers (sh w) pageNo) \<and> si_bitmapIndex (pageUsers (sh w) pageNo) = 0
         then createTwinPage pageNo w else Inr w)
        (\<lambda>w1.
          if update
          then (if \<not> same_version e w1
                then (let w2 = put_share pageNo (writePageDiffs (local_page me pageNo w1) (twin_of pageNo w1)
                                 (share_page pageNo w1)) w1;
                          w3 = setSharedPage me pageNo w2;
                          w4 = updatePage me pageNo 1 True w3;
                          w5 = set_info me i (\<lambda>e. e\<lparr>pi_isUpdated := True\<rparr>) w4
                      in Inr (finish_modified pageNo w5))
                else Inr w1)
          else (if \<not> pi_isUpdated e
                then (if si_users (pageUsers (sh w1) pageNo) \<noteq> 1 \<or> pageOwner (sh w1) pageNo \<noteq> pid_ulong me
                      then (let w2 = set_info me i (\<lambda>e. e\<lparr>pi_release := True\<rparr>) w1;
                                w3 = (if same_version e w2
                                      then put_share pageNo (local_page me pageNo w2) w2
                                      else put_share pageNo (writePageDiffs (local_page me pageNo w2)
                                             (twin_of pageNo w2) (share_page pageNo w2)) (setSharedPage me pageNo w2))
                            in Inr (finish_modified pageNo w3))
                      else Inr (dec_users pageNo (set_info me i (\<lambda>e. e\<lparr>pi_release := False\<rparr>) w1)))
                else Inr w1)))"

fun commit_loop :: "cint \<Rightarrow> bool \<Rightarrow> (nat \<times> nat) list \<Rightarrow> world \<Rightarrow> world result" where
  "commit_loop me update [] w = Inr w"
| "commit_loop me update ((_, i) # ds) w = res_bind (commit_page me update i w) (commit_loop me update ds)"

definition checkandcommit :: "cint \<Rightarrow> bool \<Rightarrow> world \<Rightarrow> world result" where
  "checkandcommit me update w =
     (if dirtiedPagesList (locals w me) = [] then Inr w
      else commit_loop me update (dirtiedPagesList (locals w me))
             (on_lo me (\<lambda>l. l\<lparr>trans_count := trans_count l + 1\<rparr>) w))"

definition updateAll_page :: "cint \<Rightarrow> nat \<times> nat \<Rightarrow> world \<Rightarrow> world" where
  "updateAll_page me d w =
     (let e = pe_start (pools w me) (snd d)
      in if \<not> pi_isUpdated e then updatePage me (pi_pageNo e) 1 (pi_release e) w else w)"

definition updateAll :: "cint \<Rightarrow> bool \<Rightarrow> world \<Rightarrow> world" where
  "updateAll me cleanup w =
     (let w1 = fold (updateAll_page me) (dirtiedPagesList (locals w me)) w
      in if cleanup then on_pool me pe_cleanup (on_lo me (\<lambda>l. l\<lparr>dirtiedPagesList := []\<rparr>) w1) else w1)"

definition xp_begin :: "cint \<Rightarrow> bool \<Rightarrow> world \<Rightarrow> world" where
  "xp_begin me cleanup = updateAll me cleanup"

section \<open>The other build configurations\<close>

text \<open>
  Without \<open>LAZY_COMMIT\<close> every page of the dirty list is committed, owned or not, and \<open>release\<close> is set when
  the page is dirtied.
\<close>

definition commit_page_eager :: "cint \<Rightarrow> bool \<Rightarrow> nat \<Rightarrow> world \<Rightarrow> world result" where
  "commit_page_eager me update i w =
     (let e = pe_start (pools w me) i; pageNo = pi_pageNo e
      in res_bind
        (if 1 < si_users (pageUsers (sh w) pageNo) \<and> si_bitmapIndex (pageUsers (sh w) pageNo) = 0
         then createTwinPage pageNo w else Inr w)
        (\<lambda>w1.
          if update
          then (if \<not> same_version e w1
                then (let w2 = put_share pageNo (writePageDiffs (local_page me pageNo w1) (twin_of pageNo w1)
                                 (share_page pageNo w1)) w1;
                          w3 = updatePage me pageNo 1 True w2;
                          w4 = set_info me i (\<lambda>e. e\<lparr>pi_isUpdated := True\<rparr>) w3
                      in Inr (finish_modified pageNo w4))
                else Inr w1)
          else (if \<not> pi_isUpdated e
                then Inr (finish_modified pageNo
                       (if same_version e w1
                        then put_share pageNo (local_page me pageNo w1) w1
                        else put_share pageNo (writePageDiffs (local_page me pageNo w1)
                               (twin_of pageNo w1) (share_page pageNo w1)) w1))
                else Inr w1)))"

text \<open>The statistics compiled in with \<open>GET_CHARACTERISTICS\<close>.\<close>

record pagechangeinfo =
  pc_tid :: ushort
  pc_version :: ushort

definition recordPageChanges :: "cint \<Rightarrow> nat \<Rightarrow> (nat \<Rightarrow> pagechangeinfo) \<Rightarrow> nat \<Rightarrow> pagechangeinfo" where
  "recordPageChanges mine pageNo ch =
     (let pg = ch pageNo;
          tid = (ucast (pc_tid pg) :: cint);
          pg1 = (if tid = 0 then pg\<lparr>pc_tid := ucast mine\<rparr>
                 else if tid \<noteq> 0 \<and> tid \<noteq> mine \<and> tid \<noteq> 0xFFFF then pg\<lparr>pc_tid := 0xFFFF\<rparr> else pg)
      in ch(pageNo := pg1\<lparr>pc_version := pc_version pg1 + 1\<rparr>))"

definition getSingleThreadPages :: "nat \<Rightarrow> (nat \<Rightarrow> pagechangeinfo) \<Rightarrow> cint" where
  "getSingleThreadPages npages ch =
     fold (\<lambda>i n. if 1 < pc_version (ch i) \<and> pc_tid (ch i) \<noteq> 0xFFFF then n + ucast (pc_version (ch i)) else n)
       [0..<npages] 0"

end
