(* ===== verification/XpersistCommit.thy ===== *)
theory XpersistCommit
  imports Xpersist
begin

text \<open>
  What a round of commits does (\<open>checkandcommit\<close> and \<open>begin\<close> of \<open>src/include/xpersist.h\<close>). The
  processes of a round have each dirtied some pages; they commit one after the other in the order
  in which the token visits them. The lemmas show that every shared page ends as the merge, in that
  order, of the private copies of the processes that dirtied it, that the user counts return to zero and the twin is
  released, and that after the following \<open>begin\<close> every process sees the shared pages again.
\<close>

section \<open>Frame lemmas\<close>

lemma share_page_put_share [simp]:
  "share_page p (put_share q pg w) = (if p = q then clip pg else share_page p w)"
proof -
  have "p \<noteq> q \<Longrightarrow> p * PageSize + PageSize \<le> q * PageSize \<or> q * PageSize + PageSize \<le> p * PageSize"
    by (cases p q rule: linorder_cases) (auto simp: PageSize_def)
  then show ?thesis by (auto simp: share_page_def put_share_def page_at_put_page_other)
qed

lemma put_share_simps [simp]:
  "persistentVersions (sh (put_share p pg w)) = persistentVersions (sh w)"
  "pageUsers (sh (put_share p pg w)) = pageUsers (sh w)"
  "pageOwner (sh (put_share p pg w)) = pageOwner (sh w)"
  "twins (sh (put_share p pg w)) = twins (sh w)"
  "locals (put_share p pg w) = locals w" "pools (put_share p pg w) = pools w"
  by (simp_all add: put_share_def)

lemma bump_version_simps [simp]:
  "persistentVersions (sh (bump_version p w)) q = (if q = p then persistentVersions (sh w) p + 1 else persistentVersions (sh w) q)"
  "pageUsers (sh (bump_version p w)) = pageUsers (sh w)"
  "pageOwner (sh (bump_version p w)) = pageOwner (sh w)"
  "twins (sh (bump_version p w)) = twins (sh w)"
  "locals (bump_version p w) = locals w" "pools (bump_version p w) = pools w"
  "persistentMemory (sh (bump_version p w)) = persistentMemory (sh w)"
  "share_page q (bump_version p w) = share_page q w"
  by (simp_all add: bump_version_def share_page_def)

lemma dec_users_simps [simp]:
  "persistentVersions (sh (dec_users p w)) = persistentVersions (sh w)"
  "pageUsers (sh (dec_users p w)) q = (if q = p then (pageUsers (sh w) p)\<lparr>si_users := si_users (pageUsers (sh w) p) - 1\<rparr>
     else pageUsers (sh w) q)"
  "pageOwner (sh (dec_users p w)) = pageOwner (sh w)"
  "twins (sh (dec_users p w)) = twins (sh w)"
  "locals (dec_users p w) = locals w" "pools (dec_users p w) = pools w"
  "persistentMemory (sh (dec_users p w)) = persistentMemory (sh w)"
  "share_page q (dec_users p w) = share_page q w"
  by (simp_all add: dec_users_def share_page_def)

lemma set_info_simps [simp]:
  "sh (set_info me i f w) = sh w" "locals (set_info me i f w) = locals w"
  "share_page q (set_info me i f w) = share_page q w"
  "pe_start (pools (set_info me i f w) me') j =
     (if me' = me \<and> j = i then f (pe_start (pools w me) i) else pe_start (pools w me') j)"
  "pe_cur (pools (set_info me i f w) me') = pe_cur (pools w me')"
  by (simp_all add: set_info_def share_page_def)

lemma finish_modified_simps [simp]:
  "persistentVersions (sh (finish_modified p w)) q =
     (if q = p then persistentVersions (sh w) p + 1 else persistentVersions (sh w) q)"
  "si_users (pageUsers (sh (finish_modified p w)) q) =
     (if q = p then si_users (pageUsers (sh w) p) - 1 else si_users (pageUsers (sh w) q))"
  "si_bitmapIndex (pageUsers (sh (finish_modified p w)) q) =
     (if q = p \<and> si_users (pageUsers (sh w) p) = 1 then 0 else si_bitmapIndex (pageUsers (sh w) q))"
  "pageOwner (sh (finish_modified p w)) = pageOwner (sh w)"
  "twins (sh (finish_modified p w)) = twins (sh w)"
  "locals (finish_modified p w) = locals w" "pools (finish_modified p w) = pools w"
  "share_page q (finish_modified p w) = share_page q w"
  by (auto simp: finish_modified_def Let_def share_page_def)

lemma local_page_cong: "share_page p w = share_page p v \<Longrightarrow> transient (locals w q) p = transient (locals v q) p
   \<Longrightarrow> local_page q p w = local_page q p v"
  by (auto simp: local_page_def split: option.splits)

lemma is_page_share_page [simp]: "is_page (share_page p w)"
  by (simp add: share_page_def)

lemma is_page_local_page [simp]: "is_page (local_page q p w)"
  by (simp add: local_page_def split: option.splits)

lemma clip_local_page [simp]: "clip (local_page q p w) = local_page q p w" "clip (share_page p w) = share_page p w"
  by (simp_all add: clip_is_page)

lemma setSharedPage_shared [simp]: "pageOwner (sh w) p = SHARED_PAGE \<Longrightarrow> setSharedPage me p w = w"
  by (simp add: setSharedPage_def)

section \<open>Creating the twin\<close>

text \<open>A 32-bit index stored in the 16-bit field \<open>bitmapIndex\<close>.\<close>

lemma unat_ucast_up: "unat (ucast (x :: ushort) :: cint) = unat x"
proof -
  have "unat x < 2 ^ 16" using unsigned_less [of x, where ?'a = nat] by simp
  then have "take_bit 32 (unat x) = unat x" by (intro take_bit_nat_eq_self) simp
  then show ?thesis by (simp add: unsigned_ucast_eq)
qed

lemma unat_ucast_down: "unat (c :: cint) < 65536 \<Longrightarrow> unat (ucast c :: ushort) = unat c"
  by (simp add: unsigned_ucast_eq take_bit_eq_mod)

lemma ucast_back: "unat (c :: cint) < 65536 \<Longrightarrow> (ucast (ucast c :: ushort) :: cint) = c"
  by (simp only: word_unat_eq_iff unat_ucast_up unat_ucast_down)

lemma createTwinPage_ok:
  assumes "bm_wf (twins (sh w))" and "unat (load32 bm_cur (twins (sh w))) + 1 < INITIAL_PAGES"
  obtains w' where "createTwinPage p w = Inr w'" and "locals w' = locals w" and "pools w' = pools w"
    and "persistentMemory (sh w') = persistentMemory (sh w)"
    and "persistentVersions (sh w') = persistentVersions (sh w)" and "pageOwner (sh w') = pageOwner (sh w)"
    and "pageUsers (sh w') = (pageUsers (sh w))(p := (pageUsers (sh w) p)
           \<lparr>si_bitmapIndex := ucast (load32 bm_cur (twins (sh w)))\<rparr>)"
    and "twins (sh w') = bm_setVersion (load32 bm_cur (twins (sh w))) (ucast (persistentVersions (sh w) p))
           (write_twin (load32 bm_cur (twins (sh w))) (share_page p w)
             (store32 bm_cur (load32 bm_cur (twins (sh w)) + 1) (twins (sh w))))"
  using bm_get_ok [OF assms] by (auto simp: createTwinPage_def Let_def)

text \<open>
  While the next index is at most 3070, creating a twin for one page leaves the twins in use
  intact, and the new twin holds the shared content.
\<close>

definition small_pool :: "world \<Rightarrow> bool" where
  "small_pool w \<longleftrightarrow> bm_wf (twins (sh w)) \<and> unat (load32 bm_cur (twins (sh w))) \<le> 3070"

lemma createTwinPage_keeps:
  assumes "small_pool w"
  shows "\<exists>w'. createTwinPage p w = Inr w' \<and> locals w' = locals w \<and> pools w' = pools w
     \<and> (\<forall>r. share_page r w' = share_page r w)
     \<and> persistentVersions (sh w') = persistentVersions (sh w) \<and> pageOwner (sh w') = pageOwner (sh w)
     \<and> (\<forall>r. si_users (pageUsers (sh w') r) = si_users (pageUsers (sh w) r))
     \<and> (\<forall>r. r \<noteq> p \<longrightarrow> si_bitmapIndex (pageUsers (sh w') r) = si_bitmapIndex (pageUsers (sh w) r))
     \<and> si_bitmapIndex (pageUsers (sh w') p) \<noteq> 0
     \<and> unat (si_bitmapIndex (pageUsers (sh w') p)) < unat (load32 bm_cur (twins (sh w')))
     \<and> twin_of p w' = share_page p w
     \<and> (\<forall>r. r \<noteq> p \<longrightarrow> si_bitmapIndex (pageUsers (sh w) r) \<noteq> 0
          \<longrightarrow> unat (si_bitmapIndex (pageUsers (sh w) r)) < unat (load32 bm_cur (twins (sh w)))
          \<longrightarrow> twin_of r w' = twin_of r w)
     \<and> bm_wf (twins (sh w')) \<and> unat (load32 bm_cur (twins (sh w'))) = unat (load32 bm_cur (twins (sh w))) + 1"
proof -
  let ?c = "load32 bm_cur (twins (sh w))"
  have wf: "bm_wf (twins (sh w))" and c: "unat ?c \<le> 3070" using assms by (simp_all add: small_pool_def)
  from wf have c1: "1 \<le> unat ?c" by (simp add: bm_wf_def)
  have room: "unat ?c + 1 < INITIAL_PAGES" using c by (simp add: INITIAL_PAGES_def)
  have u: "unat (ucast ?c :: ushort) = unat ?c" using c by (simp add: unat_ucast_down)
  have bk: "(ucast (ucast ?c :: ushort) :: cint) = ?c" using c by (intro ucast_back) simp
  from createTwinPage_ok [OF wf room, of p] obtain w' where w': "createTwinPage p w = Inr w'"
    "locals w' = locals w" "pools w' = pools w" "persistentMemory (sh w') = persistentMemory (sh w)"
    "persistentVersions (sh w') = persistentVersions (sh w)" "pageOwner (sh w') = pageOwner (sh w)"
    "pageUsers (sh w') = (pageUsers (sh w))(p := (pageUsers (sh w) p)\<lparr>si_bitmapIndex := ucast ?c\<rparr>)"
    "twins (sh w') = bm_setVersion ?c (ucast (persistentVersions (sh w) p))
       (write_twin ?c (share_page p w) (store32 bm_cur (?c + 1) (twins (sh w))))" by blast
  have cur: "load32 bm_cur (twins (sh w')) = ?c + 1" by (simp add: w'(8))
  have keep: "twin_page j (twins (sh w')) = twin_page j (twins (sh w))" if "1 \<le> unat j" "unat j < unat ?c" for j
  proof -
    have "?c \<noteq> j" using that(2) by auto
    then show ?thesis using that c by (simp add: w'(8) setVersion_keeps_twins twin_page_write_twin_other)
  qed
  have new: "twin_page ?c (twins (sh w')) = share_page p w"
    using c c1 by (simp add: w'(8) setVersion_keeps_twins)
  have "twin_of r w' = twin_of r w" if "r \<noteq> p" "si_bitmapIndex (pageUsers (sh w) r) \<noteq> 0"
    "unat (si_bitmapIndex (pageUsers (sh w) r)) < unat ?c" for r
  proof -
    let ?j = "ucast (si_bitmapIndex (pageUsers (sh w) r)) :: cint"
    have j: "unat ?j = unat (si_bitmapIndex (pageUsers (sh w) r))" by (rule unat_ucast_up)
    then have "1 \<le> unat ?j" "unat ?j < unat ?c" using that by (simp_all add: unat_gt_0 Suc_le_eq)
    from keep [OF this] that(1) show ?thesis by (simp add: twin_of_def w'(7))
  qed
  moreover have "(ucast ?c :: ushort) \<noteq> 0" using u c1 by (metis not_one_le_zero unat_0)
  moreover have "bm_wf (twins (sh w'))" using c by (simp add: bm_wf_def cur unat_next_index [OF wf] INITIAL_PAGES_def)
  moreover have "twin_of p w' = share_page p w" by (simp add: twin_of_def w'(7) bk new)
  ultimately show ?thesis
    using w' u unat_next_index [OF wf] by (intro exI [of _ w']) (auto simp: cur share_page_def)
qed

section \<open>One commit\<close>

lemma pid_not_SHARED [simp]: "pid_ulong me \<noteq> SHARED_PAGE"
proof
  assume "pid_ulong me = SHARED_PAGE"
  then have "bit (pid_ulong me) n = bit SHARED_PAGE n" for n by simp
  from this [of 31] this [of 32] show False
    by (simp add: pid_ulong_def SHARED_PAGE_def bit_simps)
qed

definition new_content :: "cint \<Rightarrow> xpageinfo \<Rightarrow> world \<Rightarrow> page" where
  "new_content me e w =
     (let p = pi_pageNo e
      in if same_version e w then local_page me p w
         else merge_page (local_page me p w) (twin_of p w) (share_page p w))"

lemma commit_page_shared:
  assumes "e = pe_start (pools w me) i" and "p = pi_pageNo e" and "\<not> pi_isUpdated e"
    and "pageOwner (sh w) p = SHARED_PAGE" and "w1 = w \<or> createTwinPage p w = Inr w1"
    and "w1 = w \<longleftrightarrow> \<not> (1 < si_users (pageUsers (sh w) p) \<and> si_bitmapIndex (pageUsers (sh w) p) = 0)"
    and "pageOwner (sh w1) = pageOwner (sh w)"
  shows "commit_page me False i w =
    Inr (finish_modified p (put_share p (new_content me e w1) (set_info me i (\<lambda>e. e\<lparr>pi_release := True\<rparr>) w1)))"
proof -
  have "same_version e (set_info me i f w1) = same_version e w1"
    "local_page me p (set_info me i f w1) = local_page me p w1"
    "twin_of p (set_info me i f w1) = twin_of p w1" for f
    by (simp_all add: same_version_def twin_of_def) (intro local_page_cong, simp_all)
  note frame = this
  have twin: "(if 1 < si_users (pageUsers (sh w) p) \<and> si_bitmapIndex (pageUsers (sh w) p) = 0
      then createTwinPage p w else Inr w) = Inr w1"
    using assms(5,6) by auto
  have owner: "pageOwner (sh w1) p \<noteq> pid_ulong me" "pageOwner (sh w1) p = SHARED_PAGE"
    using assms(4,7) pid_not_SHARED [of me] by (auto simp del: pid_not_SHARED)
  show ?thesis
    unfolding commit_page_def Let_def assms(1,2) [symmetric] twin
    using assms(3) owner
    by (simp add: frame new_content_def Let_def writePageDiffs_merge assms(2) [symmetric])
qed

section \<open>A round of commits\<close>

text \<open>
  A commit is a pair of a process and one of its page records. \<open>ready w cs\<close> holds before the round
  \<open>cs\<close>: every record is fresh, its page is shared, in use by exactly the records of the round, has no
  twin yet, and the process holds a private copy of it.
\<close>

type_synonym commit = "cint \<times> nat"

definition record_of :: "world \<Rightarrow> commit \<Rightarrow> xpageinfo" where
  "record_of w c = pe_start (pools w (fst c)) (snd c)"

definition page_of :: "world \<Rightarrow> commit \<Rightarrow> nat" where
  "page_of w c = pi_pageNo (record_of w c)"

definition on_page :: "world \<Rightarrow> nat \<Rightarrow> commit list \<Rightarrow> commit list" where
  "on_page w p cs = filter (\<lambda>c. page_of w c = p) cs"

definition copies :: "world \<Rightarrow> nat \<Rightarrow> commit list \<Rightarrow> page list" where
  "copies w p cs = map (\<lambda>c. local_page (fst c) p w) (on_page w p cs)"

definition ready_record :: "world \<Rightarrow> commit list \<Rightarrow> commit \<Rightarrow> bool" where
  "ready_record w cs c \<longleftrightarrow>
     (let p = page_of w c in
      \<not> pi_isUpdated (record_of w c) \<and> same_version (record_of w c) w
      \<and> pageOwner (sh w) p = SHARED_PAGE
      \<and> unat (si_users (pageUsers (sh w) p)) = length (on_page w p cs)
      \<and> si_bitmapIndex (pageUsers (sh w) p) = 0
      \<and> m_copy (transient (locals w (fst c)) p) \<noteq> None)"

definition ready :: "world \<Rightarrow> commit list \<Rightarrow> bool" where
  "ready w cs \<longleftrightarrow> distinct cs \<and> bm_wf (twins (sh w))
     \<and> unat (load32 bm_cur (twins (sh w))) + length cs \<le> 3071 \<and> (\<forall>c\<in>set cs. ready_record w cs c)"

text \<open>\<open>page_inv w all done v p\<close>: what holds of page \<open>p\<close> in \<open>v\<close> once the commits \<open>done\<close> of the round \<open>all\<close>,
  which started in \<open>w\<close>, have run.\<close>

definition page_inv :: "world \<Rightarrow> commit list \<Rightarrow> commit list \<Rightarrow> world \<Rightarrow> nat \<Rightarrow> bool" where
  "page_inv w cs ds v p \<longleftrightarrow>
     share_page p v = merge_all (share_page p w) (copies w p ds) (share_page p w)
     \<and> persistentVersions (sh v) p = persistentVersions (sh w) p + of_nat (length (on_page w p ds))
     \<and> unat (si_users (pageUsers (sh v) p)) = unat (si_users (pageUsers (sh w) p)) - length (on_page w p ds)
     \<and> (if on_page w p ds = [] then si_bitmapIndex (pageUsers (sh v) p) = si_bitmapIndex (pageUsers (sh w) p)
        else if length (on_page w p ds) = length (on_page w p cs) then si_bitmapIndex (pageUsers (sh v) p) = 0
        else si_bitmapIndex (pageUsers (sh v) p) \<noteq> 0
          \<and> unat (si_bitmapIndex (pageUsers (sh v) p)) < unat (load32 bm_cur (twins (sh v)))
          \<and> twin_of p v = share_page p w)"

definition round_inv :: "world \<Rightarrow> commit list \<Rightarrow> commit list \<Rightarrow> world \<Rightarrow> bool" where
  "round_inv w cs ds v \<longleftrightarrow>
     (\<forall>p. page_inv w cs ds v p) \<and> pageOwner (sh v) = pageOwner (sh w)
     \<and> (\<forall>q. transient (locals v q) = transient (locals w q) \<and> dirtiedPagesList (locals v q) = dirtiedPagesList (locals w q))
     \<and> (\<forall>c. record_of v c = (record_of w c)\<lparr>pi_release := pi_release (record_of w c) \<or> c \<in> set ds\<rparr>)
     \<and> bm_wf (twins (sh v))
     \<and> unat (load32 bm_cur (twins (sh v))) \<le> unat (load32 bm_cur (twins (sh w))) + length ds"

lemma round_inv_start: "bm_wf (twins (sh w)) \<Longrightarrow> round_inv w cs [] w"
  by (simp add: round_inv_def page_inv_def on_page_def copies_def)

lemma on_page_snoc: "on_page w p (ds @ [c]) = on_page w p ds @ (if page_of w c = p then [c] else [])"
  by (simp add: on_page_def)

lemma copies_snoc: "copies w p (ds @ [c]) = copies w p ds @ (if page_of w c = p then [local_page (fst c) p w] else [])"
  by (simp add: copies_def on_page_snoc)

lemma on_page_Cons: "on_page w p (c # cs) = (if page_of w c = p then [c] else []) @ on_page w p cs"
  by (simp add: on_page_def)

lemma on_page_append: "on_page w p (as @ bs) = on_page w p as @ on_page w p bs"
  by (simp add: on_page_def)

lemma length_on_page: "length (on_page w p cs) \<le> length cs"
  by (simp add: on_page_def)

lemma new_content_round:
  assumes "local_page q p v = local_page q p w" and "pi_pageNo e = p"
    and "scast (pi_version e) = persistentVersions (sh w) p"
    and "persistentVersions (sh v) p = persistentVersions (sh w) p + of_nat k" and "k < 65536"
    and "k \<noteq> 0 \<Longrightarrow> twin_of p v = share_page p w"
    and "k = 0 \<Longrightarrow> share_page p v = share_page p w"
  shows "new_content q e v = merge_page (local_page q p w) (share_page p w) (share_page p v)"
proof -
  have "(of_nat k :: ulong) = 0 \<longleftrightarrow> k = 0"
    using assms(5) by (auto simp: word_of_nat_eq_0_iff dest: dvd_imp_le)
  then have "same_version e v \<longleftrightarrow> k = 0" using assms(2,3,4) by (simp add: same_version_def)
  moreover have "k = 0 \<Longrightarrow> merge_page (local_page q p w) (share_page p w) (share_page p v) = local_page q p w"
    by (simp add: assms(7) merge_page_same)
  ultimately show ?thesis
    by (cases "k = 0") (simp_all add: new_content_def Let_def assms(1,2) assms(6))
qed

text \<open>What the twin phase of a commit of page \<open>p\<close> leaves behind, \<open>k\<close> of \<open>n\<close> commits of \<open>p\<close> being done.\<close>

definition twin_phase :: "world \<Rightarrow> world \<Rightarrow> world \<Rightarrow> nat \<Rightarrow> nat \<Rightarrow> nat \<Rightarrow> bool" where
  "twin_phase w v w1 p k n \<longleftrightarrow>
     locals w1 = locals v \<and> pools w1 = pools v \<and> pageOwner (sh w1) = pageOwner (sh v)
     \<and> persistentVersions (sh w1) = persistentVersions (sh v) \<and> (\<forall>r. share_page r w1 = share_page r v)
     \<and> (\<forall>r. si_users (pageUsers (sh w1) r) = si_users (pageUsers (sh v) r))
     \<and> (\<forall>r. r \<noteq> p \<longrightarrow> si_bitmapIndex (pageUsers (sh w1) r) = si_bitmapIndex (pageUsers (sh v) r))
     \<and> (\<forall>r. r \<noteq> p \<longrightarrow> si_bitmapIndex (pageUsers (sh v) r) \<noteq> 0
          \<longrightarrow> unat (si_bitmapIndex (pageUsers (sh v) r)) < unat (load32 bm_cur (twins (sh v)))
          \<longrightarrow> twin_of r w1 = twin_of r v)
     \<and> (k \<noteq> 0 \<or> 1 < n \<longrightarrow> si_bitmapIndex (pageUsers (sh w1) p) \<noteq> 0 \<and> twin_of p w1 = share_page p w
          \<and> unat (si_bitmapIndex (pageUsers (sh w1) p)) < unat (load32 bm_cur (twins (sh w1))))
     \<and> bm_wf (twins (sh w1))
     \<and> unat (load32 bm_cur (twins (sh v))) \<le> unat (load32 bm_cur (twins (sh w1)))
     \<and> unat (load32 bm_cur (twins (sh w1))) \<le> unat (load32 bm_cur (twins (sh v))) + 1"

lemma twin_phase:
  assumes inv: "page_inv w cs ds v p" and pool: "small_pool v"
    and k: "k = length (on_page w p ds)" and n: "n = length (on_page w p cs)" and kn: "k < n"
    and users: "unat (si_users (pageUsers (sh w) p)) = n" and bm0: "si_bitmapIndex (pageUsers (sh w) p) = 0"
  shows "\<exists>w1. (w1 = v \<or> createTwinPage p v = Inr w1)
     \<and> (w1 = v \<longleftrightarrow> \<not> (1 < si_users (pageUsers (sh v) p) \<and> si_bitmapIndex (pageUsers (sh v) p) = 0))
     \<and> twin_phase w v w1 p k n"
proof (cases "k = 0 \<and> 1 < n")
  case True
  then have "unat (si_users (pageUsers (sh v) p)) = n" "si_bitmapIndex (pageUsers (sh v) p) = 0"
    "share_page p v = share_page p w"
    using inv k users bm0 by (simp_all add: page_inv_def copies_def)
  then have c: "1 < si_users (pageUsers (sh v) p) \<and> si_bitmapIndex (pageUsers (sh v) p) = 0"
    using True by (simp add: word_less_nat_alt)
  from createTwinPage_keeps [OF pool, of p] obtain w1 where "createTwinPage p v = Inr w1" "twin_phase w v w1 p k n"
    "si_bitmapIndex (pageUsers (sh w1) p) \<noteq> 0"
    using \<open>share_page p v = share_page p w\<close> by (auto simp: twin_phase_def)
  moreover from this(3) c have "w1 \<noteq> v" by auto
  ultimately show ?thesis using c by blast
next
  case False
  have "k \<noteq> 0 \<Longrightarrow> si_bitmapIndex (pageUsers (sh v) p) \<noteq> 0
     \<and> unat (si_bitmapIndex (pageUsers (sh v) p)) < unat (load32 bm_cur (twins (sh v))) \<and> twin_of p v = share_page p w"
    using inv k n kn by (auto simp: page_inv_def)
  moreover have "k = 0 \<Longrightarrow> unat (si_users (pageUsers (sh v) p)) = 1"
  proof -
    assume "k = 0"
    then have "n = 1" "on_page w p ds = []" using False kn k by auto
    then show ?thesis using inv users by (simp add: page_inv_def)
  qed
  ultimately have "\<not> (1 < si_users (pageUsers (sh v) p) \<and> si_bitmapIndex (pageUsers (sh v) p) = 0)"
    by (cases "k = 0") (auto simp: word_less_nat_alt)
  moreover have "twin_phase w v v p k n"
    using pool False kn \<open>k \<noteq> 0 \<Longrightarrow> _\<close> by (auto simp: twin_phase_def small_pool_def)
  ultimately show ?thesis by blast
qed

lemma page_inv_other:
  assumes "page_inv w cs ds v r" and "twin_phase w v w1 p k n" and "page_of w c \<noteq> r" and "r \<noteq> p"
  shows "page_inv w cs (ds @ [c]) (finish_modified p (put_share p new (set_info q i f w1))) r"
proof -
  have "twin_of r (finish_modified p (put_share p new (set_info q i f w1))) = twin_of r w1"
    using assms(4) by (simp add: twin_of_def)
  moreover have "si_bitmapIndex (pageUsers (sh v) r) \<noteq> 0
      \<Longrightarrow> unat (si_bitmapIndex (pageUsers (sh v) r)) < unat (load32 bm_cur (twins (sh v)))
      \<Longrightarrow> twin_of r w1 = twin_of r v \<and> unat (si_bitmapIndex (pageUsers (sh v) r)) < unat (load32 bm_cur (twins (sh w1)))"
    using assms(2,4) by (auto simp: twin_phase_def)
  ultimately show ?thesis
    using assms by (auto simp: page_inv_def on_page_snoc copies_snoc twin_phase_def)
qed

lemma page_inv_step:
  assumes inv: "page_inv w cs ds v p" and tp: "twin_phase w v w1 p k n"
    and k: "k = length (on_page w p ds)" and n: "n = length (on_page w p cs)" and kn: "k < n"
    and users: "unat (si_users (pageUsers (sh w) p)) = n" and bm0: "si_bitmapIndex (pageUsers (sh w) p) = 0"
    and c: "page_of w c = p" "fst c = q"
  shows "page_inv w cs (ds @ [c]) (finish_modified p (put_share p
     (merge_page (local_page q p w) (share_page p w) (share_page p v)) (set_info q i f w1))) p"
proof -
  let ?v' = "finish_modified p (put_share p (merge_page (local_page q p w) (share_page p w) (share_page p v))
     (set_info q i f w1))"
  have u: "unat (si_users (pageUsers (sh w1) p)) = n - k" using inv tp users k by (simp add: page_inv_def twin_phase_def)
  then have u1: "si_users (pageUsers (sh w1) p) = 1 \<longleftrightarrow> n = Suc k"
    using kn by (auto simp: word_unat_eq_iff)
  have "si_users (pageUsers (sh w1) p) \<noteq> 0" using u kn by (auto simp: word_unat_eq_iff)
  then have "unat (si_users (pageUsers (sh ?v') p)) = n - Suc k" by (simp add: unat_dec u)
  moreover have "share_page p ?v' = merge_all (share_page p w) (copies w p (ds @ [c])) (share_page p w)"
    using inv c by (simp add: copies_snoc merge_all_snoc page_inv_def clip_is_page)
  moreover have "persistentVersions (sh ?v') p = persistentVersions (sh w) p + of_nat (length (on_page w p (ds @ [c])))"
    using inv tp c by (simp add: on_page_snoc page_inv_def twin_phase_def add.commute)
  moreover have later: "n \<noteq> Suc k \<Longrightarrow> si_bitmapIndex (pageUsers (sh ?v') p) \<noteq> 0
     \<and> unat (si_bitmapIndex (pageUsers (sh ?v') p)) < unat (load32 bm_cur (twins (sh ?v'))) \<and> twin_of p ?v' = share_page p w"
  proof -
    assume "n \<noteq> Suc k"
    moreover from this kn have "k \<noteq> 0 \<or> 1 < n" by linarith
    ultimately show ?thesis using tp u1 by (simp add: twin_phase_def twin_of_def)
  qed
  ultimately show ?thesis
    using later users c k n u1 kn by (simp add: page_inv_def on_page_snoc)
qed

text \<open>One step of the round preserves the invariant.\<close>

lemma round_step:
  assumes ready: "ready w cs" and cs: "cs = ds @ c # rest" and inv: "round_inv w cs ds v"
  shows "\<exists>v'. commit_page (fst c) False (snd c) v = Inr v' \<and> round_inv w cs (ds @ [c]) v'"
proof -
  define p where "p = page_of w c"
  define k where "k = length (on_page w p ds)"
  define n where "n = length (on_page w p cs)"
  obtain q i where c: "c = (q, i)" by fastforce
  have rr: "ready_record w cs c" using ready cs by (simp add: ready_def)
  have kn: "k < n" using cs by (simp add: k_def n_def on_page_append on_page_Cons p_def)
  have n: "unat (si_users (pageUsers (sh w) p)) = n" "si_bitmapIndex (pageUsers (sh w) p) = 0"
    "pageOwner (sh w) p = SHARED_PAGE" "m_copy (transient (locals w q) p) \<noteq> None"
    "\<not> pi_isUpdated (record_of w c)" "same_version (record_of w c) w"
    using rr by (simp_all add: ready_record_def Let_def p_def n_def c)
  then have n16: "n < 65536" using unsigned_less [of "si_users (pageUsers (sh w) p)", where ?'a = nat] by simp
  have pool: "small_pool v" using inv ready cs by (auto simp: small_pool_def round_inv_def ready_def)
  have pinv: "page_inv w cs ds v r" for r using inv by (simp add: round_inv_def)
  obtain w1 where w1: "w1 = v \<or> createTwinPage p v = Inr w1"
    "w1 = v \<longleftrightarrow> \<not> (1 < si_users (pageUsers (sh v) p) \<and> si_bitmapIndex (pageUsers (sh v) p) = 0)"
    and tp: "twin_phase w v w1 p k n"
    using twin_phase [OF pinv pool k_def n_def kn n(1,2)] by blast
  let ?e = "record_of v c"
  have e: "pi_pageNo ?e = p" "\<not> pi_isUpdated ?e" "pi_version ?e = pi_version (record_of w c)"
  proof -
    have "?e = (record_of w c)\<lparr>pi_release := pi_release (record_of w c) \<or> c \<in> set ds\<rparr>"
      using inv unfolding round_inv_def by blast
    then show "pi_pageNo ?e = p" "\<not> pi_isUpdated ?e" "pi_version ?e = pi_version (record_of w c)"
      using n(5) by (simp_all add: p_def page_of_def)
  qed
  have tr: "transient (locals v x) = transient (locals w x)" "pageOwner (sh v) = pageOwner (sh w)" for x
    using inv by (simp_all add: round_inv_def)
  define new where "new = new_content q ?e w1"
  define v' where "v' = finish_modified p (put_share p new (set_info q i (\<lambda>e. e\<lparr>pi_release := True\<rparr>) w1))"
  have step: "commit_page q False i v = Inr v'"
    unfolding v'_def new_def
    using e(1,2) n(3) tr(2) w1 tp by (intro commit_page_shared) (simp_all add: record_of_def c twin_phase_def)
  have ver: "persistentVersions (sh w1) p = persistentVersions (sh w) p + of_nat k"
    and share: "share_page r w1 = share_page r v" for r
    using tp pinv [of p] by (simp_all add: twin_phase_def page_inv_def k_def)
  have lp: "local_page q p w1 = local_page q p w"
    using n(4) tp tr by (auto simp: local_page_def twin_phase_def)
  have new: "new = merge_page (local_page q p w) (share_page p w) (share_page p v)"
    unfolding new_def share [symmetric]
  proof (rule new_content_round [OF lp e(1) _ ver])
    show "scast (pi_version ?e) = persistentVersions (sh w) p"
      using n(6) e by (simp add: same_version_def p_def page_of_def)
    show "k < 65536" using kn n16 by simp
    show "k \<noteq> 0 \<Longrightarrow> twin_of p w1 = share_page p w" using tp by (simp add: twin_phase_def)
    show "k = 0 \<Longrightarrow> share_page p w1 = share_page p w"
      using pinv [of p] share by (simp add: page_inv_def copies_def k_def)
  qed
  have "page_inv w cs (ds @ [c]) v' r" for r
  proof (cases "r = p")
    case True
    have "page_of w c = p" by (simp add: p_def)
    then show ?thesis unfolding True
      unfolding v'_def new by (intro page_inv_step [OF pinv tp k_def n_def kn n(1,2)]) (simp_all add: c)
  next
    case False
    then have "page_of w c \<noteq> r" by (simp add: p_def)
    then show ?thesis using False unfolding v'_def by (intro page_inv_other [OF pinv tp])
  qed
  moreover have "record_of v' x = (record_of w x)\<lparr>pi_release := pi_release (record_of w x) \<or> x \<in> set (ds @ [c])\<rparr>" for x
  proof -
    have "record_of v x = (record_of w x)\<lparr>pi_release := pi_release (record_of w x) \<or> x \<in> set ds\<rparr>"
      using inv unfolding round_inv_def by blast
    moreover have "record_of v' x = (if x = c then (record_of v x)\<lparr>pi_release := True\<rparr> else record_of v x)"
      using tp by (cases x) (auto simp: v'_def record_of_def c twin_phase_def)
    ultimately show ?thesis by (cases "x = c") auto
  qed
  ultimately have "round_inv w cs (ds @ [c]) v'"
    using inv tp by (simp add: round_inv_def v'_def twin_phase_def)
  with step show ?thesis by (auto simp: c)
qed

definition commits_of :: "world \<Rightarrow> cint \<Rightarrow> commit list" where
  "commits_of w q = map (\<lambda>d. (q, snd d)) (dirtiedPagesList (locals w q))"

text \<open>The processes commit one after the other, in the order the token visits them.\<close>

fun commit_round :: "cint list \<Rightarrow> world \<Rightarrow> world result" where
  "commit_round [] w = Inr w"
| "commit_round (q # qs) w = res_bind (checkandcommit q False w) (commit_round qs)"

lemma on_lo_views [simp]:
  "share_page p (on_lo q f w) = share_page p w" "twin_of p (on_lo q f w) = twin_of p w"
  "record_of (on_lo q f w) c = record_of w c"
  by (simp_all add: share_page_def twin_of_def record_of_def)

lemma round_inv_trans:
  "round_inv w cs ds v \<Longrightarrow> round_inv w cs ds (on_lo q (\<lambda>l. l\<lparr>trans_count := trans_count l + 1\<rparr>) v)"
  by (simp add: round_inv_def page_inv_def)

lemma commit_loop_round:
  assumes "ready w cs" and "cs = ds @ map (\<lambda>d. (q, snd d)) l @ rest" and "round_inv w cs ds v"
  shows "\<exists>v'. commit_loop q False l v = Inr v' \<and> round_inv w cs (ds @ map (\<lambda>d. (q, snd d)) l) v'"
  using assms(2,3)
proof (induction l arbitrary: ds v)
  case (Cons d l)
  obtain x i where d: "d = (x, i)" by fastforce
  have "cs = ds @ (q, i) # (map (\<lambda>d. (q, snd d)) l @ rest)" using Cons.prems by (simp add: d)
  from round_step [OF assms(1) this Cons.prems(2)] obtain v1
    where v1: "commit_page q False i v = Inr v1" "round_inv w cs (ds @ [(q, i)]) v1" by auto
  from Cons.IH [OF _ this(2)] Cons.prems v1(1) show ?case by (auto simp: d)
qed simp

lemma checkandcommit_round:
  assumes "ready w cs" and "cs = ds @ commits_of w q @ rest" and "round_inv w cs ds v"
  shows "\<exists>v'. checkandcommit q False v = Inr v' \<and> round_inv w cs (ds @ commits_of w q) v'"
proof -
  have same: "dirtiedPagesList (locals v q) = dirtiedPagesList (locals w q)"
    using assms(3) by (simp add: round_inv_def)
  show ?thesis
  proof (cases "dirtiedPagesList (locals w q) = []")
    case True
    then show ?thesis using assms(3) same by (simp add: checkandcommit_def commits_of_def)
  next
    case False
    from commit_loop_round [OF assms(1) _ round_inv_trans [OF assms(3)], of q "dirtiedPagesList (locals w q)" rest q]
    show ?thesis using assms(2) same False by (simp add: checkandcommit_def commits_of_def)
  qed
qed

lemma commit_round_inv:
  assumes "ready w cs" and "cs = ds @ concat (map (commits_of w) qs)" and "round_inv w cs ds v"
  shows "\<exists>v'. commit_round qs v = Inr v' \<and> round_inv w cs cs v'"
  using assms(2,3)
proof (induction qs arbitrary: ds v)
  case (Cons q qs)
  from checkandcommit_round [OF assms(1) _ Cons.prems(2), of q "concat (map (commits_of w) qs)"] Cons.prems(1)
  obtain v1 where v1: "checkandcommit q False v = Inr v1" "round_inv w cs (ds @ commits_of w q) v1" by auto
  from Cons.IH [OF _ v1(2)] Cons.prems(1) v1(1) show ?case by auto
qed simp

text \<open>
  The content of every page after a round is the merge of the private copies in the order of the commits; its users are
  gone, its twin is released and its version counts the commits.
\<close>

lemma commit_round_merges:
  assumes "cs = concat (map (commits_of w) qs)" and "ready w cs"
  shows "\<exists>w'. commit_round qs w = Inr w'
     \<and> (\<forall>p. share_page p w' = merge_all (share_page p w) (copies w p cs) (share_page p w)
          \<and> persistentVersions (sh w') p = persistentVersions (sh w) p + of_nat (length (on_page w p cs))
          \<and> (on_page w p cs \<noteq> [] \<longrightarrow> pageUsers (sh w') p = \<lparr>si_users = 0, si_bitmapIndex = 0\<rparr>)
          \<and> (on_page w p cs = [] \<longrightarrow> share_page p w' = share_page p w))"
proof -
  have "bm_wf (twins (sh w))" using assms(2) by (simp add: ready_def)
  from commit_round_inv [OF assms(2) _ round_inv_start [OF this], of qs] assms(1)
  obtain w' where w': "commit_round qs w = Inr w'" "round_inv w cs cs w'" by auto
  have users: "pageUsers (sh w') p = \<lparr>si_users = 0, si_bitmapIndex = 0\<rparr>" if ne: "on_page w p cs \<noteq> []" for p
  proof -
    from ne obtain c where "c \<in> set cs" "page_of w c = p" by (auto simp: on_page_def filter_empty_conv)
    with assms(2) have "unat (si_users (pageUsers (sh w) p)) = length (on_page w p cs)"
      by (auto simp: ready_def ready_record_def Let_def)
    moreover from w'(2) have "page_inv w cs cs w' p" by (simp add: round_inv_def)
    ultimately show ?thesis using ne by (simp add: page_inv_def unat_eq_0 shareinfo.equality)
  qed
  have "page_inv w cs cs w' p" for p using w'(2) by (simp add: round_inv_def)
  with users w'(1) show ?thesis by (auto simp: page_inv_def copies_def)
qed

text \<open>
  If no byte of a page has two writers, the content of the page does not even depend on the order in
  which the processes commit.
\<close>

lemma mset_concat_map: "mset xs = mset ys \<Longrightarrow> mset (concat (map f xs)) = mset (concat (map f ys))"
proof -
  assume "mset xs = mset ys"
  then have "image_mset (mset \<circ> f) (mset xs) = image_mset (mset \<circ> f) (mset ys)" by simp
  then have "mset (map (mset \<circ> f) xs) = mset (map (mset \<circ> f) ys)" by simp
  then have "sum_list (map (mset \<circ> f) xs) = sum_list (map (mset \<circ> f) ys)"
    by (metis sum_mset_sum_list)
  then show ?thesis by (simp add: mset_concat o_def)
qed

lemma mset_on_page: "mset cs = mset cs' \<Longrightarrow> mset (on_page w p cs) = mset (on_page w p cs')"
  by (simp add: on_page_def mset_filter)

lemma ready_mset: "mset cs = mset cs' \<Longrightarrow> ready w cs \<Longrightarrow> ready w cs'"
  unfolding ready_def ready_record_def Let_def
  by (metis (no_types, lifting) mset_eq_imp_distinct_iff mset_eq_length mset_eq_setD mset_on_page)

lemma commit_round_race_free:
  assumes "cs = concat (map (commits_of w) qs)" and "ready w cs" and "mset qs = mset qs'"
    and "race_free (share_page p w) (copies w p cs)"
  shows "\<exists>v v'. commit_round qs w = Inr v \<and> commit_round qs' w = Inr v' \<and> share_page p v = share_page p v'"
proof -
  let ?cs' = "concat (map (commits_of w) qs')"
  have m: "mset cs = mset ?cs'" unfolding assms(1) by (rule mset_concat_map [OF assms(3)])
  then have c: "mset (copies w p cs) = mset (copies w p ?cs')"
    using mset_on_page [OF m, of w p] by (simp add: copies_def)
  have eq: "merge_all (share_page p w) (copies w p cs) (share_page p w)
     = merge_all (share_page p w) (copies w p ?cs') (share_page p w)"
    by (rule merge_all_race_free [OF assms(4) c]) simp
  from commit_round_merges [OF assms(1,2)] commit_round_merges [OF refl ready_mset [OF m assms(2)]]
  show ?thesis using eq by metis
qed

section \<open>The next transaction\<close>

definition refreshed :: "xpageentry \<Rightarrow> (nat \<times> nat) list \<Rightarrow> nat \<Rightarrow> bool" where
  "refreshed p ds pg \<longleftrightarrow> (\<exists>d\<in>set ds. \<not> pi_isUpdated (pe_start p (snd d)) \<and> pi_pageNo (pe_start p (snd d)) = pg)"

definition dropped :: "xpageentry \<Rightarrow> (nat \<times> nat) list \<Rightarrow> nat \<Rightarrow> bool" where
  "dropped p ds pg \<longleftrightarrow> (\<exists>d\<in>set ds. \<not> pi_isUpdated (pe_start p (snd d)) \<and> pi_pageNo (pe_start p (snd d)) = pg
      \<and> pi_release (pe_start p (snd d)))"

definition refresh_mapping :: "xpageentry \<Rightarrow> (nat \<times> nat) list \<Rightarrow> nat \<Rightarrow> mapping \<Rightarrow> mapping" where
  "refresh_mapping p ds pg m = m\<lparr>m_prot := if refreshed p ds pg then PROT_READ else m_prot m,
     m_copy := if dropped p ds pg then None else m_copy m\<rparr>"

lemma updateAll_page_simps:
  "sh (updateAll_page me d w) = sh w" "pools (updateAll_page me d w) = pools w"
  "dirtiedPagesList (locals (updateAll_page me d w) q) = dirtiedPagesList (locals w q)"
  "transient (locals (updateAll_page me d w) q) pg =
     (if q = me then refresh_mapping (pools w me) [d] pg (transient (locals w q) pg) else transient (locals w q) pg)"
  by (auto simp: updateAll_page_def Let_def updatePage_def mprotect_def madvise_dontneed_def refresh_mapping_def
      refreshed_def dropped_def)

lemma fold_updateAll_page:
  "sh (fold (updateAll_page me) ds w) = sh w \<and> pools (fold (updateAll_page me) ds w) = pools w
   \<and> transient (locals (fold (updateAll_page me) ds w) q) pg =
     (if q = me then refresh_mapping (pools w me) ds pg (transient (locals w q) pg) else transient (locals w q) pg)
   \<and> dirtiedPagesList (locals (fold (updateAll_page me) ds w) q) = dirtiedPagesList (locals w q)"
proof (induction ds arbitrary: w)
  case Nil
  then show ?case by (simp add: refresh_mapping_def refreshed_def dropped_def)
next
  case (Cons d ds)
  show ?case
    by (auto simp: Cons.IH updateAll_page_simps) (auto simp: refresh_mapping_def refreshed_def dropped_def)
qed

lemma xp_begin_simps [simp]:
  "sh (xp_begin me True w) = sh w"
  "pools (xp_begin me True w) q = (if q = me then pe_cleanup (pools w me) else pools w q)"
  "dirtiedPagesList (locals (xp_begin me True w) q) = (if q = me then [] else dirtiedPagesList (locals w q))"
  "transient (locals (xp_begin me True w) q) pg =
     (if q = me then refresh_mapping (pools w me) (dirtiedPagesList (locals w me)) pg (transient (locals w q) pg)
      else transient (locals w q) pg)"
  by (simp_all add: xp_begin_def updateAll_def Let_def fold_updateAll_page)

text \<open>A page that was dropped is seen as it is in the shared mapping.\<close>

lemma xp_begin_view:
  assumes "dropped (pools w me) (dirtiedPagesList (locals w me)) p \<or> m_copy (transient (locals w me) p) = None"
  shows "local_page me p (xp_begin me True w) = share_page p (xp_begin me True w)"
  using assms by (auto simp: local_page_def refresh_mapping_def share_page_def)

definition begin_all :: "cint list \<Rightarrow> world \<Rightarrow> world" where
  "begin_all qs w = fold (\<lambda>q. xp_begin q True) qs w"

lemma begin_all_simps:
  "sh (begin_all qs w) = sh w"
  "q \<notin> set qs \<Longrightarrow> transient (locals (begin_all qs w) q) = transient (locals w q)"
  "q \<notin> set qs \<Longrightarrow> dirtiedPagesList (locals (begin_all qs w) q) = dirtiedPagesList (locals w q)"
  by (induction qs arbitrary: w) (auto simp: begin_all_def fun_eq_iff)

lemma begin_all_view:
  assumes "distinct qs" and "q \<in> set qs"
    and "dropped (pools w q) (dirtiedPagesList (locals w q)) p \<or> m_copy (transient (locals w q) p) = None"
  shows "local_page q p (begin_all qs w) = share_page p w"
    and "dirtiedPagesList (locals (begin_all qs w) q) = []"
proof -
  have "local_page q p (begin_all qs w) = share_page p w \<and> dirtiedPagesList (locals (begin_all qs w) q) = []"
    using assms
  proof (induction qs arbitrary: w)
    case (Cons r qs)
    show ?case
    proof (cases "r = q")
      case True
      with Cons.prems have "q \<notin> set qs" by simp
      then have "local_page q p (begin_all (q # qs) w) = local_page q p (xp_begin q True w)"
        using begin_all_simps(1) [of qs "xp_begin q True w"] begin_all_simps(2) [of q qs "xp_begin q True w"]
        by (auto simp: begin_all_def intro!: local_page_cong) (simp_all add: share_page_def)
      also have "\<dots> = share_page p w"
        using xp_begin_view [OF Cons.prems(3)] by (simp add: share_page_def)
      finally show ?thesis
        using True begin_all_simps(3) [OF \<open>q \<notin> set qs\<close>, of "xp_begin q True w"] by (simp add: begin_all_def)
    next
      case False
      from Cons.IH [of "xp_begin r True w"] Cons.prems False
      show ?thesis by (simp add: begin_all_def share_page_def)
    qed
  qed simp
  then show "local_page q p (begin_all qs w) = share_page p w" "dirtiedPagesList (locals (begin_all qs w) q) = []"
    by simp_all
qed

text \<open>
  After a round and the next \<open>begin\<close> of its processes, each of them sees the merged pages: every page it had dirtied,
  and every page of which it held no private copy.
\<close>

lemma round_then_begin:
  assumes "cs = concat (map (commits_of w) qs)" and "ready w cs" and "distinct qs" and "q \<in> set qs"
    and "commit_round qs w = Inr w'"
    and "m_copy (transient (locals w q) p) = None \<or> (\<exists>c\<in>set (commits_of w q). page_of w c = p)"
  shows "local_page q p (begin_all qs w') = share_page p (begin_all qs w')"
    and "dirtiedPagesList (locals (begin_all qs w') q) = []"
proof -
  have "bm_wf (twins (sh w))" using assms(2) by (simp add: ready_def)
  from commit_round_inv [OF assms(2) _ round_inv_start [OF this], of qs] assms(1,5)
  have inv: "round_inv w cs cs w'" by auto
  have d: "dropped (pools w' q) (dirtiedPagesList (locals w' q)) p \<or> m_copy (transient (locals w' q) p) = None"
  proof (cases "m_copy (transient (locals w q) p) = None")
    case False
    with assms(6) obtain i x where i: "(x, i) \<in> set (dirtiedPagesList (locals w q))" "page_of w (q, i) = p"
      by (auto simp: commits_of_def)
    then have "(q, i) \<in> set cs" using assms(1,4) by (force simp: commits_of_def)
    moreover from this have "ready_record w cs (q, i)" using assms(2) by (simp add: ready_def)
    ultimately have "record_of w' (q, i) = (record_of w (q, i))\<lparr>pi_release := True\<rparr>" "\<not> pi_isUpdated (record_of w (q, i))"
      using inv by (auto simp: round_inv_def ready_record_def Let_def)
    then have "dropped (pools w' q) (dirtiedPagesList (locals w q)) p"
      using i by (auto simp: dropped_def record_of_def page_of_def intro!: bexI [of _ "(x, i)"])
    then show ?thesis using inv by (simp add: round_inv_def)
  next
    case True
    then show ?thesis using inv by (simp add: round_inv_def)
  qed
  from begin_all_view [OF assms(3,4) d]
  show "local_page q p (begin_all qs w') = share_page p (begin_all qs w')"
    "dirtiedPagesList (locals (begin_all qs w') q) = []"
    by (simp_all add: share_page_def begin_all_simps)
qed

end
