(* ===== verification/XpersistOwner.thy ===== *)
theory XpersistOwner
  imports XpersistCommit
begin

text \<open>
  Ownership of pages and the page-fault handler of \<open>src/include/xpersist.h\<close>: a page of a fresh heap block
  belongs to the process that took the block, which may keep its writes private; the first access by another process, the
  death of the owner or its exit make the page shared, with its content. The lemmas show what each branch of
  the handler leaves behind, that a faulting store succeeds after at most two faults, and that no
  committed content is lost when a page changes hands.
\<close>

section \<open>Frame lemmas\<close>

lemma mprotect_simps [simp]:
  "sh (mprotect me a n pr w) = sh w" "pools (mprotect me a n pr w) = pools w"
  "live (mprotect me a n pr w) = live w" "resends (mprotect me a n pr w) = resends w"
  "share_page p (mprotect me a n pr w) = share_page p w"
  "local_page q p (mprotect me a n pr w) = local_page q p w"
  "xp_base (locals (mprotect me a n pr w) q) = xp_base (locals w q)"
  "pageInfo (locals (mprotect me a n pr w) q) = pageInfo (locals w q)"
  "isProtected (locals (mprotect me a n pr w) q) = isProtected (locals w q)"
  "ownedblocks (locals (mprotect me a n pr w) q) = ownedblocks (locals w q)"
  "ownedblockinfo (locals (mprotect me a n pr w) q) = ownedblockinfo (locals w q)"
  "dirtiedPagesList (locals (mprotect me a n pr w) q) = dirtiedPagesList (locals w q)"
  "m_shared (transient (locals (mprotect me a n pr w) q) p) = m_shared (transient (locals w q) p)"
  "m_copy (transient (locals (mprotect me a n pr w) q) p) = m_copy (transient (locals w q) p)"
  "m_prot (transient (locals (mprotect me a n pr w) q) p) =
     (if q = me \<and> a \<le> p \<and> p < a + n then pr else m_prot (transient (locals w q) p))"
  by (auto simp: mprotect_def share_page_def local_page_def split: option.splits)

lemma setSharedPage_simps [simp]:
  "pools (setSharedPage me p w) = pools w"
  "live (setSharedPage me p w) = live w" "resends (setSharedPage me p w) = resends w"
  "share_page r (setSharedPage me p w) = share_page r w"
  "local_page q r (setSharedPage me p w) = local_page q r w"
  "xp_base (locals (setSharedPage me p w) q) = xp_base (locals w q)"
  "dirtiedPagesList (locals (setSharedPage me p w) q) = dirtiedPagesList (locals w q)"
  "transient (locals (setSharedPage me p w) q) = transient (locals w q)"
  "ownedblockinfo (locals (setSharedPage me p w) q) = ownedblockinfo (locals w q)"
  "ownedblocks (locals (setSharedPage me p w) q) = ownedblocks (locals w q)"
  "persistentVersions (sh (setSharedPage me p w)) = persistentVersions (sh w)"
  "pageUsers (sh (setSharedPage me p w)) = pageUsers (sh w)"
  "twins (sh (setSharedPage me p w)) = twins (sh w)"
  "pageOwner (sh (setSharedPage me p w)) r = (if r = p then SHARED_PAGE else pageOwner (sh w) r)"
  by (auto simp: setSharedPage_def share_page_def local_page_def exchange_def split: option.splits)

lemma madvise_simps [simp]:
  "sh (madvise_dontneed me a n w) = sh w" "pools (madvise_dontneed me a n w) = pools w"
  "live (madvise_dontneed me a n w) = live w" "resends (madvise_dontneed me a n w) = resends w"
  "share_page p (madvise_dontneed me a n w) = share_page p w"
  "local_page q p (madvise_dontneed me a n w) =
     (if q = me \<and> a \<le> p \<and> p < a + n then share_page p w else local_page q p w)"
  "xp_base (locals (madvise_dontneed me a n w) q) = xp_base (locals w q)"
  "pageInfo (locals (madvise_dontneed me a n w) q) = pageInfo (locals w q)"
  "dirtiedPagesList (locals (madvise_dontneed me a n w) q) = dirtiedPagesList (locals w q)"
  "ownedblockinfo (locals (madvise_dontneed me a n w) q) = ownedblockinfo (locals w q)"
  "ownedblocks (locals (madvise_dontneed me a n w) q) = ownedblocks (locals w q)"
  "m_shared (transient (locals (madvise_dontneed me a n w) q) p) = m_shared (transient (locals w q) p)"
  "m_prot (transient (locals (madvise_dontneed me a n w) q) p) = m_prot (transient (locals w q) p)"
  "m_copy (transient (locals (madvise_dontneed me a n w) q) p) =
     (if q = me \<and> a \<le> p \<and> p < a + n then None else m_copy (transient (locals w q) p))"
  by (auto simp: madvise_dontneed_def share_page_def local_page_def split: option.splits)

lemma bump_version_frame [simp]:
  "local_page q r (bump_version p w) = local_page q r w"
  "live (bump_version p w) = live w" "resends (bump_version p w) = resends w"
  by (auto simp: local_page_def bump_version_def share_page_def split: option.splits)

lemma put_share_frame [simp]:
  "live (put_share p pg w) = live w" "resends (put_share p pg w) = resends w"
  "p \<noteq> r \<Longrightarrow> local_page q r (put_share p pg w) = local_page q r w"
  by (auto simp: local_page_def put_share_def split: option.splits)
     (metis put_share_def share_page_put_share)

lemma local_page_put_own [simp]:
  "local_page q p (put_share p (local_page q p w) w) = local_page q p w"
  by (auto simp: local_page_def split: option.splits)

section \<open>Committing an owned page\<close>

lemma commitOwnedPage_simps [simp]:
  "pools (commitOwnedPage me p b w) = pools w"
  "live (commitOwnedPage me p b w) = live w" "resends (commitOwnedPage me p b w) = resends w"
  "share_page r (commitOwnedPage me p b w) = (if r = p then local_page me p w else share_page r w)"
  "xp_base (locals (commitOwnedPage me p b w) q) = xp_base (locals w q)"
  "dirtiedPagesList (locals (commitOwnedPage me p b w) q) = dirtiedPagesList (locals w q)"
  "ownedblockinfo (locals (commitOwnedPage me p b w) q) = ownedblockinfo (locals w q)"
  "ownedblocks (locals (commitOwnedPage me p b w) q) = ownedblocks (locals w q)"
  "m_shared (transient (locals (commitOwnedPage me p b w) q) r) = m_shared (transient (locals w q) r)"
  "m_prot (transient (locals (commitOwnedPage me p b w) q) r) = m_prot (transient (locals w q) r)"
  "m_copy (transient (locals (commitOwnedPage me p b w) q) r) =
     (if b \<and> q = me \<and> r = p then None else m_copy (transient (locals w q) r))"
  "persistentVersions (sh (commitOwnedPage me p b w)) r =
     (if r = p then persistentVersions (sh w) p + 1 else persistentVersions (sh w) r)"
  "pageUsers (sh (commitOwnedPage me p b w)) = pageUsers (sh w)"
  "twins (sh (commitOwnedPage me p b w)) = twins (sh w)"
  "pageOwner (sh (commitOwnedPage me p b w)) r = (if b \<and> r = p then SHARED_PAGE else pageOwner (sh w) r)"
  by (auto simp: commitOwnedPage_def Let_def)

lemma commitOwnedPage_local [simp]:
  "local_page me p (commitOwnedPage me p b w) = local_page me p w"
  "r \<noteq> p \<Longrightarrow> local_page q r (commitOwnedPage me p b w) = local_page q r w"
  by (auto simp: commitOwnedPage_def Let_def)

text \<open>Committing the same page again, as a re-sent signal does, changes its version only.\<close>

lemma commitOwnedPage_again:
  "share_page r ((commitOwnedPage me p True ^^ n) w) = (if r = p \<and> 0 < n then local_page me p w else share_page r w)
   \<and> local_page me p ((commitOwnedPage me p True ^^ n) w) = local_page me p w
   \<and> pageOwner (sh ((commitOwnedPage me p True ^^ n) w)) r = (if 0 < n \<and> r = p then SHARED_PAGE else pageOwner (sh w) r)
   \<and> persistentVersions (sh ((commitOwnedPage me p True ^^ n) w)) p = persistentVersions (sh w) p + of_nat n
   \<and> pools ((commitOwnedPage me p True ^^ n) w) = pools w
   \<and> xp_base (locals ((commitOwnedPage me p True ^^ n) w) q) = xp_base (locals w q)
   \<and> m_shared (transient (locals ((commitOwnedPage me p True ^^ n) w) q) r) = m_shared (transient (locals w q) r)
   \<and> dirtiedPagesList (locals ((commitOwnedPage me p True ^^ n) w) q) = dirtiedPagesList (locals w q)"
  by (induction n) auto

definition owner_pid :: "nat \<Rightarrow> world \<Rightarrow> cint" where
  "owner_pid p w = ucast (pageOwner (sh w) p)"

lemma owner_pid_shared: "owner_pid p w = ucast SHARED_PAGE \<Longrightarrow> pageOwner (sh w) p < 2 ^ 32 \<Longrightarrow> isSharedPage p w"
proof -
  assume a: "owner_pid p w = ucast SHARED_PAGE" and lt: "pageOwner (sh w) p < 2 ^ 32"
  have "unat (pageOwner (sh w) p) < 2 ^ 32" using lt by (simp add: word_less_nat_alt)
  then have "unat (owner_pid p w) = unat (pageOwner (sh w) p)"
    by (simp add: owner_pid_def unsigned_ucast_eq take_bit_eq_mod)
  moreover have "unat (ucast SHARED_PAGE :: cint) = unat SHARED_PAGE" by (simp add: SHARED_PAGE_def)
  ultimately have "unat (pageOwner (sh w) p) = unat SHARED_PAGE" using a by simp
  then show ?thesis by (simp add: isSharedPage_def word_unat_eq_iff)
qed

text \<open>
  \<open>notifyOwnerToCommit\<close>: afterwards the page is shared, and its shared content is what a living owner saw; nothing
  else changes.
\<close>

lemma notifyOwnerToCommit_shared:
  assumes "pageOwner (sh w) p < 2 ^ 32"
  shows "isSharedPage p (notifyOwnerToCommit me p w)"
    and "share_page r (notifyOwnerToCommit me p w) =
      (if r = p \<and> \<not> isSharedPage p w \<and> live w (owner_pid p w) then local_page (owner_pid p w) p w else share_page r w)"
    and "pools (notifyOwnerToCommit me p w) = pools w"
    and "xp_base (locals (notifyOwnerToCommit me p w) q) = xp_base (locals w q)"
    and "m_shared (transient (locals (notifyOwnerToCommit me p w) q) r) = m_shared (transient (locals w q) r)"
    and "dirtiedPagesList (locals (notifyOwnerToCommit me p w) q) = dirtiedPagesList (locals w q)"
proof -
  let ?o = "owner_pid p w"
  have eq: "notifyOwnerToCommit me p w = (if ?o = ucast SHARED_PAGE then w
     else if \<not> live w ?o then setSharedPage me p w else (commitOwnedPage ?o p True ^^ Suc (resends w p)) w)"
    by (simp add: notifyOwnerToCommit_def owner_pid_def Let_def)
  note again = commitOwnedPage_again [where me = ?o and p = p and n = "Suc (resends w p)" and w = w]
  have sh: "?o = ucast SHARED_PAGE \<longleftrightarrow> isSharedPage p w"
    using owner_pid_shared [OF _ assms] by (auto simp: owner_pid_def isSharedPage_def)
  show "isSharedPage p (notifyOwnerToCommit me p w)"
    using sh again [where r = p] by (auto simp: eq isSharedPage_def simp del: funpow.simps)
  show "share_page r (notifyOwnerToCommit me p w) =
      (if r = p \<and> \<not> isSharedPage p w \<and> live w ?o then local_page ?o p w else share_page r w)"
    "pools (notifyOwnerToCommit me p w) = pools w"
    "xp_base (locals (notifyOwnerToCommit me p w) q) = xp_base (locals w q)"
    "m_shared (transient (locals (notifyOwnerToCommit me p w) q) r) = m_shared (transient (locals w q) r)"
    "dirtiedPagesList (locals (notifyOwnerToCommit me p w) q) = dirtiedPagesList (locals w q)"
    using sh again [where r = r and q = q] by (auto simp: eq simp del: funpow.simps)
qed

section \<open>The page-fault handler\<close>

lemma multimap_insert_set [simp]: "set (multimap_insert e xs) = insert e (set xs)"
  by (induction xs) auto

lemma multimap_insert_sorted: "sorted (map fst xs) \<Longrightarrow> sorted (map fst (multimap_insert e xs))"
proof (induction xs)
  case (Cons x xs)
  have "\<forall>y\<in>set xs. fst x \<le> fst y" using Cons.prems by auto
  with Cons show ?case by (auto simp: less_imp_le)
qed simp

lemma multimap_insert_distinct: "distinct (multimap_insert e xs) \<longleftrightarrow> e \<notin> set xs \<and> distinct xs"
  by (induction xs) auto

lemma multimap_insert_distinct_snd:
  "distinct (map snd (multimap_insert e xs)) \<longleftrightarrow> snd e \<notin> snd ` set xs \<and> distinct (map snd xs)"
  by (induction xs) auto

text \<open>
  The dirty list: sorted by page, each entry is a record of its own, handed out by the pool, for the page it is filed under.
\<close>

definition dirty_wf :: "cint \<Rightarrow> world \<Rightarrow> bool" where
  "dirty_wf me w \<longleftrightarrow>
     (let ds = dirtiedPagesList (locals w me); p = pools w me in
      pe_wf p \<and> sorted (map fst ds) \<and> distinct (map snd ds)
      \<and> (\<forall>d\<in>set ds. snd d < pe_cur p \<and> pi_pageNo (pe_start p (snd d)) = fst d))"

lemma add_dirty_simps:
  assumes "pe_wf (pools w me)"
  shows "pe_cur (pools w me) < PAGE_ENTRY_NUM \<Longrightarrow> \<exists>w'. add_dirty me p w = Inr w'
      \<and> dirtiedPagesList (locals w' me) = multimap_insert (p, pe_cur (pools w me)) (dirtiedPagesList (locals w me))
      \<and> pools w' me = pe_update (pe_cur (pools w me)) (\<lambda>e. e\<lparr>pi_pageNo := p, pi_pageStart := getPageStart me p w,
          pi_isUpdated := False, pi_version := ucast (persistentVersions (sh w) p)\<rparr>)
          ((pools w me)\<lparr>pe_cur := pe_cur (pools w me) + 1\<rparr>)
      \<and> (\<forall>q. transient (locals w' q) = transient (locals w q) \<and> xp_base (locals w' q) = xp_base (locals w q)
           \<and> pageInfo (locals w' q) = pageInfo (locals w q))
      \<and> sh w' = sh (increment_users p w)"
    and "\<not> pe_cur (pools w me) < PAGE_ENTRY_NUM \<Longrightarrow> add_dirty me p w = Inl Aborted"
  using assms
  by (auto simp: add_dirty_def Let_def pe_alloc_def pe_wf_def increment_users_def getPageStart_def)

lemma dirty_wf_add:
  assumes "dirty_wf me w" and "add_dirty me p w = Inr w'"
  shows "dirty_wf me w'"
proof -
  have wf: "pe_wf (pools w me)" using assms(1) by (simp add: dirty_wf_def Let_def)
  with assms(2) have "pe_cur (pools w me) < PAGE_ENTRY_NUM"
    using add_dirty_simps(2) [OF wf, of p] by (cases "pe_cur (pools w me) < PAGE_ENTRY_NUM") auto
  from add_dirty_simps(1) [OF wf this, of p] assms(2)
  have "dirtiedPagesList (locals w' me) = multimap_insert (p, pe_cur (pools w me)) (dirtiedPagesList (locals w me))"
    "pools w' me = pe_update (pe_cur (pools w me)) (\<lambda>e. e\<lparr>pi_pageNo := p, pi_pageStart := getPageStart me p w,
          pi_isUpdated := False, pi_version := ucast (persistentVersions (sh w) p)\<rparr>)
          ((pools w me)\<lparr>pe_cur := pe_cur (pools w me) + 1\<rparr>)" by auto
  with assms(1) \<open>pe_cur (pools w me) < PAGE_ENTRY_NUM\<close> show ?thesis
    by (auto simp: dirty_wf_def Let_def multimap_insert_sorted multimap_insert_distinct_snd pe_wf_def less_Suc_eq)
qed

lemma dirty_wf_cong:
  "dirtiedPagesList (locals w' me) = dirtiedPagesList (locals w me) \<Longrightarrow> pools w' me = pools w me
   \<Longrightarrow> dirty_wf me w' = dirty_wf me w"
  by (simp add: dirty_wf_def)

lemma mprotectWrite_simps [simp]:
  "sh (mprotectWrite me p w) = sh w" "pools (mprotectWrite me p w) = pools w"
  "live (mprotectWrite me p w) = live w"
  "share_page r (mprotectWrite me p w) = share_page r w"
  "local_page q r (mprotectWrite me p w) = local_page q r w"
  "xp_base (locals (mprotectWrite me p w) q) = xp_base (locals w q)"
  "dirtiedPagesList (locals (mprotectWrite me p w) q) = dirtiedPagesList (locals w q)"
  "m_shared (transient (locals (mprotectWrite me p w) q) r) = m_shared (transient (locals w q) r)"
  "m_prot (transient (locals (mprotectWrite me p w) q) r) =
     (if q = me \<and> r = p then PROT_READ_WRITE else m_prot (transient (locals w q) r))"
  by (auto simp: mprotectWrite_def local_page_def split: option.splits)

lemma mprotectRead_simps [simp]:
  "sh (mprotectRead me p w) = sh w" "pools (mprotectRead me p w) = pools w"
  "live (mprotectRead me p w) = live w"
  "share_page r (mprotectRead me p w) = share_page r w"
  "local_page q r (mprotectRead me p w) = local_page q r w"
  "xp_base (locals (mprotectRead me p w) q) = xp_base (locals w q)"
  "dirtiedPagesList (locals (mprotectRead me p w) q) = dirtiedPagesList (locals w q)"
  "m_shared (transient (locals (mprotectRead me p w) q) r) = m_shared (transient (locals w q) r)"
  "m_prot (transient (locals (mprotectRead me p w) q) r) =
     (if q = me \<and> r = p then PROT_READ else m_prot (transient (locals w q) r))"
  "pageInfo (locals (mprotectRead me p w) me) p = PAGE_ACCESS_READ"
  by (auto simp: mprotectRead_def local_page_def split: option.splits)

lemma handleWrite_dirty_wf:
  assumes "dirty_wf me w" and "handleWrite me addr w = Inr w'"
    and "pageOwner (sh w) (computePage (addr - xp_base (locals w me))) < 2 ^ 32"
  shows "dirty_wf me w'"
proof -
  let ?p = "computePage (addr - xp_base (locals w me))"
  have "dirty_wf me (mprotectRead me ?p (notifyOwnerToCommit me ?p w))"
    "dirty_wf me (mprotectWrite me ?p w)" "dirty_wf me (commitOwnedPage me ?p False (mprotectWrite me ?p w))"
    using assms(1) by (subst dirty_wf_cong; simp add: notifyOwnerToCommit_shared [OF assms(3)])+
  with assms(1,2) show ?thesis
    by (auto simp: handleWrite_def Let_def intro: dirty_wf_add split: if_splits)
qed

section \<open>A faulting store\<close>

text \<open>
  The hardware side of the handler: a store to a page that is not writable raises \<open>SIGSEGV\<close>, the handler runs,
  and the instruction is retried. \<open>n\<close> bounds the number of attempts.
\<close>

fun user_store :: "nat \<Rightarrow> cint \<Rightarrow> nat \<Rightarrow> byte \<Rightarrow> world \<Rightarrow> world result option" where
  "user_store 0 me addr b w = None"
| "user_store (Suc n) me addr b w =
     (let p = computePage (addr - xp_base (locals w me))
      in if m_prot (transient (locals w me) p) = PROT_READ_WRITE
         then Some (Inr (write_byte me p ((addr - xp_base (locals w me)) mod PageSize) b w))
         else (case handleWrite me addr w of Inl e \<Rightarrow> Some (Inl e) | Inr w1 \<Rightarrow> user_store n me addr b w1))"

lemma handleWrite_write:
  assumes "p = computePage (addr - xp_base (locals w me))" and "pe_wf (pools w me)"
    and "pe_cur (pools w me) < PAGE_ENTRY_NUM"
    and "pageInfo (locals w me) p = PAGE_ACCESS_READ \<or> pageInfo (locals w me) p = PAGE_ACCESS_WRITE"
  shows "\<exists>w'. handleWrite me addr w = Inr w'
     \<and> m_prot (transient (locals w' me) p) = PROT_READ_WRITE
     \<and> m_shared (transient (locals w' me) p) = m_shared (transient (locals w me) p)
     \<and> xp_base (locals w' me) = xp_base (locals w me)
     \<and> (p, pe_cur (pools w me)) \<in> set (dirtiedPagesList (locals w' me))
     \<and> (\<forall>r. share_page r w' = (if r = p \<and> pageInfo (locals w me) p = PAGE_ACCESS_WRITE then local_page me p w else share_page r w))"
proof -
  let ?v = "if pageInfo (locals w me) p = PAGE_ACCESS_WRITE
    then commitOwnedPage me p False (mprotectWrite me p w) else mprotectWrite me p w"
  have ne: "PAGE_ACCESS_READ \<noteq> PAGE_ACCESS_WRITE" "PAGE_ACCESS_READ \<noteq> PAGE_ACCESS_NONE" "PAGE_ACCESS_WRITE \<noteq> PAGE_ACCESS_NONE"
    by (simp_all add: page_access_defs)
  have hw: "handleWrite me addr w = add_dirty me p ?v"
    using assms(4) ne by (auto simp: handleWrite_def Let_def assms(1) [symmetric])
  have p: "pools ?v me = pools w me" by simp
  from add_dirty_simps(1) [of ?v me p] assms(2,3) obtain w' where w': "add_dirty me p ?v = Inr w'"
    "dirtiedPagesList (locals w' me) = multimap_insert (p, pe_cur (pools w me)) (dirtiedPagesList (locals ?v me))"
    "\<forall>q. transient (locals w' q) = transient (locals ?v q) \<and> xp_base (locals w' q) = xp_base (locals ?v q)"
    "sh w' = sh (increment_users p ?v)" unfolding p by auto
  have "share_page r w' = share_page r ?v" for r
    using w'(4) by (simp add: share_page_def increment_users_def)
  then show ?thesis using w' hw by simp
qed

lemma write_byte_local:
  assumes "\<not> m_shared (transient (locals w me) p)" and "k < PageSize"
  shows "local_page me p (write_byte me p k b w) k = b"
    and "share_page r (write_byte me p k b w) = share_page r w"
  using assms by (simp_all add: write_byte_def local_page_def share_page_def)

text \<open>
  A store to a private mapping of a page reaches the private copy after at most two faults, one to make the page of another
  owner shared and readable and one to make it writable.
\<close>

lemma user_store_writable:
  assumes "p = computePage (addr - xp_base (locals w me))" and "m_prot (transient (locals w me) p) = PROT_READ_WRITE"
    and "\<not> m_shared (transient (locals w me) p)"
  shows "\<exists>w'. user_store (Suc n) me addr b w = Some (Inr w')
    \<and> local_page me p w' ((addr - xp_base (locals w me)) mod PageSize) = b \<and> (\<forall>r. share_page r w' = share_page r w)"
  using assms write_byte_local [OF assms(3)] by (simp add: Let_def PageSize_def)

lemma user_store_readable:
  assumes "p = computePage (addr - xp_base (locals w me))" and "pe_wf (pools w me)"
    and "pe_cur (pools w me) < PAGE_ENTRY_NUM"
    and "pageInfo (locals w me) p = PAGE_ACCESS_READ \<or> pageInfo (locals w me) p = PAGE_ACCESS_WRITE"
    and "\<not> m_shared (transient (locals w me) p)"
  shows "\<exists>w'. user_store (Suc (Suc n)) me addr b w = Some (Inr w')
    \<and> local_page me p w' ((addr - xp_base (locals w me)) mod PageSize) = b"
proof (cases "m_prot (transient (locals w me) p) = PROT_READ_WRITE")
  case True
  from user_store_writable [OF assms(1) True assms(5)] show ?thesis by blast
next
  case False
  from handleWrite_write [OF assms(1-4)] obtain w1 where w1: "handleWrite me addr w = Inr w1"
    "m_prot (transient (locals w1 me) p) = PROT_READ_WRITE" "\<not> m_shared (transient (locals w1 me) p)"
    "xp_base (locals w1 me) = xp_base (locals w me)" using assms(5) by auto
  have eq: "user_store (Suc (Suc n)) me addr b w = user_store (Suc n) me addr b w1"
    using False w1(1) by (simp add: Let_def assms(1) del: user_store.simps(2)) (simp add: Let_def)
  have "p = computePage (addr - xp_base (locals w1 me))" using assms(1) w1(4) by simp
  from user_store_writable [OF this w1(2,3), of n b] show ?thesis unfolding eq w1(4) by blast
qed

lemma user_store_succeeds:
  assumes "p = computePage (addr - xp_base (locals w me))" and "pe_wf (pools w me)"
    and "pe_cur (pools w me) < PAGE_ENTRY_NUM" and "pageInfo (locals w me) p \<le> PAGE_ACCESS_WRITE"
    and "\<not> m_shared (transient (locals w me) p)" and "pageOwner (sh w) p < 2 ^ 32"
  shows "\<exists>w'. user_store 3 me addr b w = Some (Inr w')
    \<and> local_page me p w' ((addr - xp_base (locals w me)) mod PageSize) = b"
proof -
  have "pageInfo (locals w me) p = PAGE_ACCESS_NONE \<or> pageInfo (locals w me) p = PAGE_ACCESS_READ
     \<or> pageInfo (locals w me) p = PAGE_ACCESS_WRITE"
  proof -
    have "unat (pageInfo (locals w me) p) \<le> 2" using assms(4) by (simp add: word_le_nat_alt page_access_defs)
    then have "unat (pageInfo (locals w me) p) = 0 \<or> unat (pageInfo (locals w me) p) = 1
       \<or> unat (pageInfo (locals w me) p) = 2" by linarith
    then show ?thesis by (auto simp: word_unat_eq_iff page_access_defs)
  qed
  then consider "m_prot (transient (locals w me) p) = PROT_READ_WRITE"
    | "pageInfo (locals w me) p = PAGE_ACCESS_READ \<or> pageInfo (locals w me) p = PAGE_ACCESS_WRITE"
    | "m_prot (transient (locals w me) p) \<noteq> PROT_READ_WRITE" "pageInfo (locals w me) p = PAGE_ACCESS_NONE" by blast
  then show ?thesis
  proof cases
    case 1
    from user_store_writable [OF assms(1) 1 assms(5), of 2 b] show ?thesis by (auto simp: eval_nat_numeral)
  next
    case 2
    from user_store_readable [OF assms(1-3) 2 assms(5), of 1 b] show ?thesis by (auto simp: eval_nat_numeral)
  next
    case 3
    let ?w1 = "mprotectRead me p (notifyOwnerToCommit me p w)"
    note n = notifyOwnerToCommit_shared [OF assms(6)]
    have h: "handleWrite me addr w = Inr ?w1" using 3 by (simp add: handleWrite_def Let_def assms(1))
    have eq: "user_store 3 me addr b w = user_store (Suc (Suc 0)) me addr b ?w1"
      using 3(1) h by (simp add: eval_nat_numeral Let_def assms(1) del: user_store.simps(2)) (simp add: Let_def)
    have base: "xp_base (locals ?w1 me) = xp_base (locals w me)" by (simp add: n)
    have "p = computePage (addr - xp_base (locals ?w1 me))" unfolding base by (rule assms(1))
    from user_store_readable [OF this _ _ _ _, of 0 b] assms(2,3,5)
    show ?thesis unfolding eq base by (simp add: n del: user_store.simps)
  qed
qed

section \<open>Leaving: every owned page becomes shared\<close>

definition owned_in_blocks :: "cint \<Rightarrow> world \<Rightarrow> nat \<Rightarrow> bool" where
  "owned_in_blocks me w p \<longleftrightarrow> pageOwner (sh w) p = pid_ulong me \<and>
     (\<exists>i < unat (ownedblocks (locals w me)). unat (ownedblockinfo (locals w me) (i * 2)) \<le> p
        \<and> p < unat (ownedblockinfo (locals w me) (i * 2 + 1)))"

text \<open>\<open>shared_since w me w'\<close>: \<open>w'\<close> is \<open>w\<close> with some of \<open>me\<close>'s pages committed and shared.\<close>

definition shared_since :: "world \<Rightarrow> cint \<Rightarrow> nat set \<Rightarrow> world \<Rightarrow> bool" where
  "shared_since w me P w' \<longleftrightarrow>
     (\<forall>p. pageOwner (sh w') p = (if p \<in> P \<and> pageOwner (sh w) p = pid_ulong me then SHARED_PAGE else pageOwner (sh w) p)
        \<and> share_page p w' = (if p \<in> P \<and> pageOwner (sh w) p = pid_ulong me then local_page me p w else share_page p w)
        \<and> local_page me p w' = local_page me p w)
     \<and> ownedblocks (locals w' me) = ownedblocks (locals w me)
     \<and> ownedblockinfo (locals w' me) = ownedblockinfo (locals w me)"

lemma shared_since_refl: "shared_since w me {} w"
  by (simp add: shared_since_def)

lemma finalcommit_page_simps:
  "pageOwner (sh (finalcommit_page me r j w)) p =
     (if p = j \<and> pageOwner (sh w) p = pid_ulong me then SHARED_PAGE else pageOwner (sh w) p)"
  "share_page p (finalcommit_page me r j w) =
     (if p = j \<and> pageOwner (sh w) p = pid_ulong me then local_page me p w else share_page p w)"
  "local_page me p (finalcommit_page me r j w) = local_page me p w"
  "ownedblocks (locals (finalcommit_page me r j w) me) = ownedblocks (locals w me)"
  "ownedblockinfo (locals (finalcommit_page me r j w) me) = ownedblockinfo (locals w me)"
  by (cases "p = j"; simp add: finalcommit_page_def)+

lemma shared_since_page: "shared_since w me P v \<Longrightarrow> shared_since w me (insert j P) (finalcommit_page me r j v)"
  unfolding shared_since_def
  by (simp add: finalcommit_page_simps)

lemma shared_since_pages:
  "shared_since w me P v \<Longrightarrow> shared_since w me (P \<union> set js) (fold (finalcommit_page me r) js v)"
  by (induction js arbitrary: P v) (use shared_since_page in fastforce)+

lemma shared_since_blocks:
  assumes "shared_since w me P v" and "info = ownedblockinfo (locals w me)"
  shows "shared_since w me (P \<union> (\<Union>i\<in>set is'. {unat (info (i * 2)) ..< unat (info (i * 2 + 1))}))
     (fold (\<lambda>i v. fold (finalcommit_page me r)
        [unat (ownedblockinfo (locals v me) (i * 2)) ..< unat (ownedblockinfo (locals v me) (i * 2 + 1))] v) is' v)"
  using assms(1)
proof (induction is' arbitrary: P v)
  case (Cons i is')
  have "ownedblockinfo (locals v me) = info" using Cons.prems assms(2) by (simp add: shared_since_def)
  with shared_since_pages [OF Cons.prems, of "[unat (info (i * 2)) ..< unat (info (i * 2 + 1))]" r]
  have "shared_since w me (P \<union> {unat (info (i * 2)) ..< unat (info (i * 2 + 1))})
     (fold (finalcommit_page me r) [unat (ownedblockinfo (locals v me) (i * 2)) ..<
        unat (ownedblockinfo (locals v me) (i * 2 + 1))] v)" by simp
  from Cons.IH [OF this] show ?case by (simp add: Un_assoc)
qed simp

lemma finalcommit_shares:
  "pageOwner (sh (finalcommit me r w)) p = (if owned_in_blocks me w p then SHARED_PAGE else pageOwner (sh w) p)"
  "share_page p (finalcommit me r w) = (if owned_in_blocks me w p then local_page me p w else share_page p w)"
  "local_page me p (finalcommit me r w) = local_page me p w"
proof -
  have mem: "p \<in> (\<Union>i\<in>set [0..<unat (ownedblocks (locals w me))].
      {unat (ownedblockinfo (locals w me) (i * 2)) ..< unat (ownedblockinfo (locals w me) (i * 2 + 1))})
    \<and> pageOwner (sh w) p = pid_ulong me \<longleftrightarrow> owned_in_blocks me w p"
    by (auto simp: owned_in_blocks_def)
  from shared_since_blocks [OF shared_since_refl refl, of w me "[0..<unat (ownedblocks (locals w me))]" r] mem
  show "pageOwner (sh (finalcommit me r w)) p = (if owned_in_blocks me w p then SHARED_PAGE else pageOwner (sh w) p)"
    "share_page p (finalcommit me r w) = (if owned_in_blocks me w p then local_page me p w else share_page p w)"
    "local_page me p (finalcommit me r w) = local_page me p w"
    unfolding finalcommit_def [symmetric] by (simp_all add: shared_since_def)
qed

section \<open>Taking a block\<close>

text \<open>The table of owned blocks is full after 256 blocks, long before the limit the code tests.\<close>

primrec own_blocks :: "cint \<Rightarrow> (nat \<times> nat) list \<Rightarrow> world \<Rightarrow> world result" where
  "own_blocks me [] w = Inr w"
| "own_blocks me (b # bs) w = res_bind (setOwnedPage me (fst b) (snd b) w) (own_blocks me bs)"

lemma setOwnedPage_overflow:
  assumes "isProtected (locals w me)" and "256 \<le> unat (ownedblocks (locals w me))"
  shows "setOwnedPage me addr sz w = Inl OutOfBounds"
  using assms by (simp add: setOwnedPage_def Let_def OWNED_ENTRIES_def PageSize_def)

lemma setOwnedPage_unprotected: "\<not> isProtected (locals w me) \<Longrightarrow> setOwnedPage me addr sz w = Inr w"
  by (simp add: setOwnedPage_def)

lemma set_pages_simps [simp]:
  "pageOwner (sh (set_pages me a b own info w)) p = (if a \<le> p \<and> p < b then own else pageOwner (sh w) p)"
  "pageInfo (locals (set_pages me a b own info w) me) p = (if a \<le> p \<and> p < b then info else pageInfo (locals w me) p)"
  "transient (locals (set_pages me a b own info w) q) = transient (locals w q)"
  "xp_base (locals (set_pages me a b own info w) q) = xp_base (locals w q)"
  "isProtected (locals (set_pages me a b own info w) q) = isProtected (locals w q)"
  "ownedblocks (locals (set_pages me a b own info w) q) = ownedblocks (locals w q)"
  "ownedblockinfo (locals (set_pages me a b own info w) q) = ownedblockinfo (locals w q)"
  "mmap_ok (set_pages me a b own info w) = mmap_ok w"
  "persistentMemory (sh (set_pages me a b own info w)) = persistentMemory (sh w)"
  by (simp_all add: set_pages_def fill_def)

lemma setOwnedPage_counts:
  assumes "isProtected (locals w me)" and "unat (ownedblocks (locals w me)) < 256"
  shows "\<exists>w'. setOwnedPage me addr sz w = Inr w' \<and> isProtected (locals w' me) \<and> unat (ownedblocks (locals w' me)) = Suc (unat (ownedblocks (locals w me)))"
proof -
  have "unat (ownedblocks (locals w me) + 1) = Suc (unat (ownedblocks (locals w me)))" using assms(2) unat_inc [of "ownedblocks (locals w me)"] by simp
  then show ?thesis using assms by (simp add: setOwnedPage_def Let_def OWNED_ENTRIES_def PageSize_def)
qed

lemma own_blocks_fit:
  assumes "isProtected (locals w me)" and "unat (ownedblocks (locals w me)) \<le> 256"
  shows "if unat (ownedblocks (locals w me)) + length bs \<le> 256
     then \<exists>w'. own_blocks me bs w = Inr w' \<and> unat (ownedblocks (locals w' me)) = unat (ownedblocks (locals w me)) + length bs
     else own_blocks me bs w = Inl OutOfBounds"
  using assms
proof (induction bs arbitrary: w)
  case (Cons b bs)
  show ?case
  proof (cases "unat (ownedblocks (locals w me)) < 256")
    case True
    with Cons.prems setOwnedPage_counts obtain w1 where w1: "setOwnedPage me (fst b) (snd b) w = Inr w1" "isProtected (locals w1 me)"
      "unat (ownedblocks (locals w1 me)) = Suc (unat (ownedblocks (locals w me)))" by blast
    from Cons.IH [OF w1(2)] True show ?thesis unfolding w1(3) by (auto simp: w1(1) split: if_splits)
  next
    case False
    then show ?thesis using setOwnedPage_overflow [OF Cons.prems(1), of "fst b" "snd b"] Cons.prems(2) by simp
  qed
qed simp

lemma setOwnedPage_owns:
  assumes "isProtected (locals w me)" and "unat (ownedblocks (locals w me)) < 256"
    and "first = computePage (addr - xp_base (locals w me))" and "n = sz div PageSize" and "first + n < 2 ^ 64"
  shows "\<exists>w'. setOwnedPage me addr sz w = Inr w'
     \<and> (\<forall>p. first \<le> p \<and> p < first + n \<longrightarrow> owned_in_blocks me w' p \<and> pageInfo (locals w' me) p = PAGE_ACCESS_READ
           \<and> m_prot (transient (locals w' me) p) = PROT_READ)
     \<and> (\<forall>p. \<not> (first \<le> p \<and> p < first + n) \<longrightarrow> pageOwner (sh w') p = pageOwner (sh w) p)
     \<and> (\<forall>p. share_page p w' = share_page p w \<and> local_page me p w' = local_page me p w)
     \<and> unat (ownedblocks (locals w' me)) = unat (ownedblocks (locals w me)) + 1"
proof -
  let ?b = "unat (ownedblocks (locals w me))"
  let ?w2 = "set_pages me first (first + n) (pid_ulong me) PAGE_ACCESS_READ
     (mprotect me first (pages_of sz) PROT_READ w)"
  let ?w3 = "on_lo me (\<lambda>l. l\<lparr>ownedblockinfo := (ownedblockinfo l)(?b * 2 := word_of_nat first,
     ?b * 2 + 1 := word_of_nat (first + n)), ownedblocks := ownedblocks l + 1\<rparr>) ?w2"
  have ob: "ownedblocks (locals ?w2 me) = ownedblocks (locals w me)"
    by simp
  have cnt: "unat (ownedblocks (locals ?w3 me)) = ?b + 1"
    using assms(2) unat_inc [of "ownedblocks (locals w me)"] by simp
  then have "unat (ownedblocks (locals ?w3 me)) \<noteq> PageSize div 2" using assms(2) by (simp add: PageSize_def)
  then have eq: "setOwnedPage me addr sz w = Inr ?w3"
    using assms(1,2) unfolding setOwnedPage_def Let_def assms(3,4) by (simp add: OWNED_ENTRIES_def PageSize_def)
  have w64: "unat (word_of_nat x :: ulong) = x" if "x < 2 ^ 64" for x
    using that by (simp add: unsigned_of_nat take_bit_nat_eq_self)
  have info: "unat (ownedblockinfo (locals ?w3 me) (?b * 2)) = first"
    "unat (ownedblockinfo (locals ?w3 me) (?b * 2 + 1)) = first + n"
    using assms(5) w64 [of "first + n"] by (simp_all add: w64)
  have "owned_in_blocks me ?w3 p" if "first \<le> p" "p < first + n" for p
    unfolding owned_in_blocks_def
  proof (intro conjI exI [of _ ?b])
    show "pageOwner (sh ?w3) p = pid_ulong me" using that by simp
    show "?b < unat (ownedblocks (locals ?w3 me))" by (simp only: cnt)
    show "unat (ownedblockinfo (locals ?w3 me) (?b * 2)) \<le> p"
      "p < unat (ownedblockinfo (locals ?w3 me) (?b * 2 + 1))" unfolding info using that by simp_all
  qed
  moreover have "n \<le> pages_of sz" unfolding assms(4) pages_of_def by (intro div_le_mono) (simp add: PageSize_def)
  moreover have "local_page me p ?w3 = local_page me p w" for p
    by (auto simp: local_page_def share_page_def split: option.splits)
  ultimately show ?thesis unfolding eq using cnt
    by (intro exI [of _ ?w3]) (auto simp: share_page_def)
qed

section \<open>Opening the protection\<close>

lemma mmap_fixed_simps [simp]:
  "sh (mmap_fixed me a n pr b w) = sh w"
  "pageInfo (locals (mmap_fixed me a n pr b w) q) = pageInfo (locals w q)"
  "transient (locals (mmap_fixed me a n pr b w) q) p =
     (if q = me \<and> a \<le> p \<and> p < a + n then \<lparr>m_prot = pr, m_shared = b, m_copy = None\<rparr> else transient (locals w q) p)"
  "xp_base (locals (mmap_fixed me a n pr b w) q) = xp_base (locals w q)"
  "xp_size (locals (mmap_fixed me a n pr b w) q) = xp_size (locals w q)"
  "mmap_ok (mmap_fixed me a n pr b w) = mmap_ok w"
  by (simp_all add: mmap_fixed_def fill_def)

text \<open>The globals: every page is shared, readable and private from now on, with its content unchanged.\<close>

lemma openProtection_globals:
  assumes "\<not> isHeap (locals w me)" and "mmap_ok w (xp_base (locals w me)) (xp_size (locals w me))"
    and "p < TotalPageNums (locals w me)"
  shows "\<exists>w'. openProtection me e w = Inr w' \<and> isSharedPage p w' \<and> pageInfo (locals w' me) p = PAGE_ACCESS_READ
     \<and> transient (locals w' me) p = \<lparr>m_prot = PROT_READ, m_shared = False, m_copy = None\<rparr>
     \<and> local_page me p w' = share_page p w \<and> isProtected (locals w' me)"
proof -
  have "xp_size (locals w me) div PageSize \<le> pages_of (xp_size (locals w me))"
    unfolding pages_of_def by (intro div_le_mono) (simp add: PageSize_def)
  then have "p < pages_of (xp_size (locals w me))" using assms(3) by (simp add: TotalPageNums_def)
  then show ?thesis using assms
    by (simp add: openProtection_def writeProtect_def isSharedPage_def local_page_def share_page_def Let_def)
qed

text \<open>
  The heap computes the allocated size in an \<open>int\<close>: with at least 2 GB allocated the size is negative and the call exits.
\<close>

lemma openProtection_heap_2GB:
  assumes "isHeap (locals w me)" and "e = xp_base (locals w me) + n" and "2 ^ 31 \<le> n" and "n < 2 ^ 32"
  shows "openProtection me e w = Inl (Exited (- 1))"
proof -
  have u: "unat (word_of_nat n :: cint) = n" using assms(4) by (simp add: unsigned_of_nat take_bit_nat_eq_self)
  have "bit (word_of_nat n :: cint) 31"
  proof -
    have "n div 2 ^ 31 = 1" using assms(3,4) by (intro div_nat_eqI) simp_all
    then have "bit n 31" by (simp add: bit_iff_odd)
    then show ?thesis by (simp add: bit_of_nat_iff)
  qed
  then have neg: "sint (word_of_nat n :: cint) < 0" using bit_last_iff [of "word_of_nat n :: cint"] by simp
  then show ?thesis
    by (simp add: openProtection_def assms(1,2) Let_def)
qed

text \<open>Below 2 GB: the allocated pages are shared and readable, the others are not accessible and have no owner.\<close>

lemma openProtection_heap:
  assumes "isHeap (locals w me)" and "e = xp_base (locals w me) + n" and "n < 2 ^ 31" and "n \<le> xp_size (locals w me)"
    and "xp_size (locals w me) < 2 ^ 64" and "\<And>a b. mmap_ok w a b" and "p < TotalPageNums (locals w me)"
    and "n mod PageSize = 0"
  shows "\<exists>w'. openProtection me e w = Inr w'
     \<and> (if p < n div PageSize
        then isSharedPage p w' \<and> pageInfo (locals w' me) p = PAGE_ACCESS_READ \<and> m_prot (transient (locals w' me) p) = PROT_READ
        else pageOwner (sh w') p = 0 \<and> pageInfo (locals w' me) p = PAGE_ACCESS_NONE \<and> m_prot (transient (locals w' me) p) = PROT_NONE)
     \<and> local_page me p w' = share_page p w"
proof -
  let ?s = "xp_size (locals w me)"
  have u: "unat (word_of_nat n :: cint) = n" using assms(3) by (simp add: unsigned_of_nat take_bit_nat_eq_self)
  have s: "sint (word_of_nat n :: cint) = int n" using sint_small [of "word_of_nat n"] u assms(3) by simp
  have sc: "(scast (word_of_nat n :: cint) :: ulong) = word_of_nat n" by (simp add: scast_eq s)
  have rest: "unat (word_of_nat ?s - word_of_nat n :: ulong) = ?s - n"
    using assms(4,5) by (simp add: unsigned_of_nat take_bit_nat_eq_self flip: of_nat_diff)
  have us: "unat (word_of_nat ?s :: ulong) = ?s"
    using assms(5) by (simp add: unsigned_of_nat take_bit_nat_eq_self)
  obtain k where k: "n = k * PageSize" using assms(8) by (metis add_0_right div_mult_mod_eq)
  then have kn: "n div PageSize = k" by (simp add: PageSize_def)
  have pages: "pages_of n = n div PageSize" unfolding pages_of_def kn k PageSize_def by simp
  have "?s div PageSize = k + (?s - n) div PageSize"
    using assms(4) k by (metis PageSize_def add.commute div_mult_self2 le_add_diff_inverse2 mult.commute zero_neq_numeral)
  also have "\<dots> \<le> k + pages_of (?s - n)"
    unfolding pages_of_def by (intro add_left_mono div_le_mono) (simp add: PageSize_def)
  finally have "?s div PageSize \<le> n div PageSize + pages_of (?s - n)" unfolding kn .
  then have lt: "p < n div PageSize + pages_of (?s - n)" using assms(7) by (simp add: TotalPageNums_def)
  have "p < n div PageSize \<Longrightarrow> 0 < n" by (cases n) (simp_all add: PageSize_def)
  then show ?thesis
    using assms(1,2,6,7) lt
    by (auto simp: openProtection_def Let_def u s sc rest us pages writeProtect_def isSharedPage_def
        local_page_def share_page_def set_pages_simps)
qed

section \<open>A page shared in the middle of its owner's transaction\<close>

text \<open>
  The signal handler of the owner commits and shares a page that is in its dirty list. At the end of the transaction the
  recorded version is out of date, but no twin was ever made: the difference is taken against twin page 0, which the
  pool never hands out. Every byte that differs from it is committed; a store of the value found there is lost.
\<close>

lemma commit_page_after_sharing:
  assumes "e = pe_start (pools w me) i" and "p = pi_pageNo e" and "\<not> pi_isUpdated e"
    and "pageOwner (sh w) p = SHARED_PAGE" and "pageUsers (sh w) p = \<lparr>si_users = 1, si_bitmapIndex = 0\<rparr>"
    and "\<not> same_version e w"
  shows "\<exists>w'. commit_page me False i w = Inr w'
     \<and> share_page p w' = merge_page (local_page me p w) (twin_page 0 (twins (sh w))) (share_page p w)"
proof -
  have "commit_page me False i w =
    Inr (finish_modified p (put_share p (new_content me e w) (set_info me i (\<lambda>e. e\<lparr>pi_release := True\<rparr>) w)))"
    using assms by (intro commit_page_shared) simp_all
  moreover have "new_content me e w = merge_page (local_page me p w) (twin_page 0 (twins (sh w))) (share_page p w)"
    using assms(2,5,6) by (simp add: new_content_def Let_def twin_of_def)
  ultimately show ?thesis by (simp add: clip_is_page)
qed

lemma commit_page_lost_zero:
  assumes "e = pe_start (pools w me) i" and "p = pi_pageNo e" and "\<not> pi_isUpdated e"
    and "pageOwner (sh w) p = SHARED_PAGE" and "pageUsers (sh w) p = \<lparr>si_users = 1, si_bitmapIndex = 0\<rparr>"
    and "\<not> same_version e w" and "local_page me p w k = twin_page 0 (twins (sh w)) k"
  shows "\<exists>w'. commit_page me False i w = Inr w' \<and> share_page p w' k = share_page p w k"
  using commit_page_after_sharing [OF assms(1-6)] assms(7) by (auto simp: merge_page_def)

section \<open>The user count\<close>

lemma word_share_share_word: "word_share (share_word si) = si"
proof -
  have "ucast (share_word si) = si_users si"
    by (rule bit_word_eqI) (auto simp: share_word_def bit_ucast_iff bit_or_iff bit_push_bit_iff)
  moreover have "ucast (drop_bit 16 (share_word si)) = si_bitmapIndex si"
    by (rule bit_word_eqI)
      (auto simp: share_word_def bit_ucast_iff bit_or_iff bit_push_bit_iff bit_drop_bit_eq dest: bit_imp_le_length)
  ultimately show ?thesis by (simp add: word_share_def)
qed

lemma unat_word_share:
  "unat (si_users (word_share c)) = unat c mod 2 ^ 16" "unat (si_bitmapIndex (word_share c)) = unat c div 2 ^ 16"
proof -
  have "unat (drop_bit 16 c) = unat c div 2 ^ 16"
    by (simp only: unat_drop_bit_eq) (simp add: drop_bit_eq_div)
  moreover have "unat c div 2 ^ 16 < 2 ^ 16"
    using unsigned_less [of c, where ?'a = nat] by (simp add: less_mult_imp_div_less)
  ultimately show "unat (si_users (word_share c)) = unat c mod 2 ^ 16"
    "unat (si_bitmapIndex (word_share c)) = unat c div 2 ^ 16"
    by (simp_all add: word_share_def unsigned_ucast_eq take_bit_eq_mod)
qed

lemma word_share_succ:
  assumes "si_users (word_share c) \<noteq> 0xFFFF"
  shows "word_share (c + 1) = (word_share c)\<lparr>si_users := si_users (word_share c) + 1\<rparr>"
proof -
  have "unat (si_users (word_share c)) \<noteq> 0xFFFF" using assms by (auto simp: word_unat_eq_iff)
  moreover have "unat c mod 2 ^ 16 < 2 ^ 16" by simp
  ultimately have m: "unat c mod 65536 + 1 < 65536" by (simp add: unat_word_share)
  have "unat c div 2 ^ 16 < 2 ^ 16"
    using unsigned_less [of c, where ?'a = nat] by (simp add: less_mult_imp_div_less)
  then have "unat c div 65536 < 65536" by simp
  then have "unat c + 1 < 4294967296" using m div_mult_mod_eq [of "unat c" 65536] by linarith
  then have c1: "unat (c + 1) = unat c + 1" by (intro unat_inc) simp
  have u: "unat (si_users (word_share c) + 1) = unat c mod 65536 + 1"
    using m by (subst unat_inc) (simp_all add: unat_word_share)
  have "(unat c + 1) mod 65536 = unat c mod 65536 + 1" "(unat c + 1) div 65536 = unat c div 65536"
    using m by (simp_all add: mod_Suc div_Suc)
  then have "si_users (word_share (c + 1)) = si_users (word_share c) + 1"
    "si_bitmapIndex (word_share (c + 1)) = si_bitmapIndex (word_share c)"
    by (simp_all add: word_unat_eq_iff unat_word_share c1 u)
  then show ?thesis by (metis shareinfo.surjective shareinfo.update_convs(1) old.unit.exhaust)
qed

text \<open>Counting one more user touches the user count only, while it is below \<open>0xFFFF\<close>; then it also moves the twin.\<close>

lemma increment_users_exact:
  assumes "si_users (pageUsers (sh w) p) \<noteq> 0xFFFF"
  shows "pageUsers (sh (increment_users p w)) p =
     (pageUsers (sh w) p)\<lparr>si_users := si_users (pageUsers (sh w) p) + 1\<rparr>"
  using word_share_succ [of "share_word (pageUsers (sh w) p)"] assms
  by (simp add: increment_users_def word_share_share_word)

lemma increment_users_carry:
  assumes "pageUsers (sh w) p = \<lparr>si_users = 0xFFFF, si_bitmapIndex = 7\<rparr>"
  shows "pageUsers (sh (increment_users p w)) p = \<lparr>si_users = 0, si_bitmapIndex = 8\<rparr>"
  using assms by (simp add: increment_users_def share_word_def word_share_def)

end
