(* ===== verification/Xheap.thy ===== *)
theory Xheap
  imports KingsleyHeap XpersistOwner
begin

text \<open>
  The bump-pointer heap of \<open>src/include/xheap.h\<close>, the source of the protected heap: page-aligned blocks, each of which
  the allocating process then owns in the page store. Its metadata page is shared. The mutex around the bump is a
  mutex of the library itself (\<open>DETERM_MEMORY_ALLOC\<close>): an allocation that needs a new chunk waits for the token like any other lock.
\<close>

record xheap =
  xh_start :: nat
  xh_end :: nat
  xh_position :: nat
  xh_remaining :: ulong
  xh_magic :: ulong
  xh_mutex :: nat

definition XHEAP_MAGIC :: ulong where
  "XHEAP_MAGIC = 0xCAFEBABE"

text \<open>\<open>page\<close> is the metadata page; the initialisation of its mutex is the interposed one, which does nothing before the library is ready.\<close>

definition xheap_constructor :: "nat \<Rightarrow> nat \<Rightarrow> nat \<Rightarrow> xheap" where
  "xheap_constructor page base sz = \<lparr>xh_start = base, xh_end = base + sz, xh_position = base,
     xh_remaining = word_of_nat sz, xh_magic = XHEAP_MAGIC, xh_mutex = page + 3 * 8\<rparr>"

definition xheap_sanityCheck :: "xheap \<Rightarrow> unit result" where
  "xheap_sanityCheck x = (if xh_magic x \<noteq> XHEAP_MAGIC then Inl Aborted else Inr ())"

definition xheap_getend :: "xheap \<Rightarrow> nat" where
  "xheap_getend x = xh_position x"

text \<open>The rounding is in 64 bits, so a size within a page of \<open>2 ^ 64\<close> rounds to 0.\<close>

definition round_pages :: "ulong \<Rightarrow> ulong" where
  "round_pages sz = 4096 * ((sz + 4096 - 1) div 4096)"

text \<open>What happens between the lock and the unlock of the mutex, and the whole of \<open>malloc\<close> when nobody else has the mutex.\<close>

definition xheap_bump :: "ulong \<Rightarrow> xheap \<Rightarrow> (nat \<times> xheap) result" where
  "xheap_bump sz x =
     (if xh_remaining x = 0 then Inl (Exited (- 1))
      else if xh_remaining x < sz then Inl (Exited (- 1))
      else Inr (xh_position x, x\<lparr>xh_remaining := xh_remaining x - sz, xh_position := xh_position x + unat sz\<rparr>))"

definition xheap_malloc :: "cint \<Rightarrow> ulong \<Rightarrow> xheap \<times> world \<Rightarrow> (ptr \<times> xheap \<times> world) result" where
  "xheap_malloc me sz0 s =
     (case s of (x, w) \<Rightarrow>
        res_bind (xheap_sanityCheck x)
          (\<lambda>_. let sz = round_pages sz0
             in res_bind (xheap_bump sz x) (\<lambda>(p, x1).
                res_bind (setOwnedPage me p (unat sz) w) (\<lambda>w1. Inr (Some p, x1, w1)))))"

definition xheap_initialize :: "cint \<Rightarrow> world \<Rightarrow> world" where
  "xheap_initialize = xp_initialize"

definition xheap_begin :: "cint \<Rightarrow> bool \<Rightarrow> xheap \<times> world \<Rightarrow> (xheap \<times> world) result" where
  "xheap_begin me cleanup s =
     (case s of (x, w) \<Rightarrow> res_bind (xheap_sanityCheck x) (\<lambda>_. Inr (x, xp_begin me cleanup w)))"

text \<open>These two should never be called.\<close>

definition xheap_free :: "nat \<Rightarrow> xheap \<Rightarrow> xheap result" where
  "xheap_free p x = res_bind (xheap_sanityCheck x) (\<lambda>_. Inr x)"

definition xheap_getSize :: "nat \<Rightarrow> xheap \<Rightarrow> ulong result" where
  "xheap_getSize p x = res_bind (xheap_sanityCheck x) (\<lambda>_. Inr 0)"

section \<open>The contract of a source\<close>

definition xheap_good :: "xheap \<times> world \<Rightarrow> bool" where
  "xheap_good s \<longleftrightarrow> (case s of (x, w) \<Rightarrow> 0 < xh_start x \<and> xh_start x \<le> xh_position x
     \<and> xh_position x mod PageSize = 0 \<and> xh_position x + unat (xh_remaining x) < 2 ^ 64)"

definition xheap_taken :: "xheap \<times> world \<Rightarrow> nat set" where
  "xheap_taken s = (case s of (x, w) \<Rightarrow> {xh_start x ..< xh_position x})"

lemma bump_4095: "sz + 4096 - 1 = (sz + 4095 :: ulong)"
  by (simp only: add_diff_eq [symmetric]) simp

lemma unat_round_pages: "unat sz < 2 ^ 64 - 4095 \<Longrightarrow> unat (round_pages sz) = (unat sz + 4095) div 4096 * 4096"
proof -
  assume s: "unat sz < 2 ^ 64 - 4095"
  have "unat (sz + 4095) = unat sz + 4095" using s by (subst unat_add_small) simp_all
  then have d: "unat ((sz + 4096 - 1) div 4096) = (unat sz + 4095) div 4096"
    by (simp only: bump_4095 unat_div) simp
  have "(unat sz + 4095) div 4096 * 4096 < 2 ^ 64" using s by linarith
  then have "unat (4096 :: ulong) * unat ((sz + 4096 - 1) div 4096) < 2 ^ 64" unfolding d by simp
  then have "unat (round_pages sz) = unat (4096 :: ulong) * ((unat sz + 4095) div 4096)"
    unfolding round_pages_def d [symmetric] by (intro unat_mult_lem [THEN iffD1]) simp
  then show ?thesis by simp
qed

lemma round_pages_overflow: "2 ^ 64 - 4095 \<le> unat sz \<Longrightarrow> round_pages sz = 0"
proof -
  assume s: "2 ^ 64 - 4095 \<le> unat sz"
  have lt: "unat sz < 2 ^ 64" using unsigned_less [of sz, where ?'a = nat] by simp
  have "unat (sz + 4095) = unat sz + 4095 - 2 ^ 64"
    using s lt by (simp add: unat_word_ariths mod_if)
  then have "unat ((sz + 4096 - 1) div 4096) = 0" using lt by (simp only: bump_4095 unat_div) simp
  then have "(sz + 4096 - 1) div 4096 = 0" by (simp only: unat_eq_0)
  then show ?thesis by (simp only: round_pages_def) simp
qed

lemma xheap_malloc_result:
  assumes "xheap_malloc me sz (x, w) = Inr (p, x', w')"
  shows "p = Some (xh_position x)" and "round_pages sz \<le> xh_remaining x"
    and "x' = x\<lparr>xh_remaining := xh_remaining x - round_pages sz, xh_position := xh_position x + unat (round_pages sz)\<rparr>"
    and "setOwnedPage me (xh_position x) (unat (round_pages sz)) w = Inr w'"
  using assms by (auto simp: xheap_malloc_def xheap_bump_def Let_def res_bind_Inr split: if_splits)

lemma xheap_malloc_fresh:
  assumes good: "xheap_good (x, w)" and sz: "unat sz < 2 ^ 63" and r: "xheap_malloc me sz (x, w) = Inr (p, x', w')"
  shows "xheap_good (x', w') \<and> xheap_taken (x, w) \<subseteq> xheap_taken (x', w')
    \<and> {xh_position x ..< xh_position x + unat sz} \<subseteq> xheap_taken (x', w')
    \<and> {xh_position x ..< xh_position x + unat sz} \<inter> xheap_taken (x, w) = {}
    \<and> 0 < xh_position x \<and> xh_position x mod 8 = 0 \<and> xh_position x + unat sz < 2 ^ 64"
proof -
  note res = xheap_malloc_result [OF r]
  let ?n = "unat (round_pages sz)"
  have n: "?n = (unat sz + 4095) div 4096 * 4096" using sz by (intro unat_round_pages) simp
  then have ge: "unat sz \<le> ?n" by linarith
  have le: "?n \<le> unat (xh_remaining x)" using res(2) by (simp add: word_le_nat_alt)
  have g: "0 < xh_start x" "xh_start x \<le> xh_position x" "xh_position x mod 4096 = 0"
    "xh_position x + unat (xh_remaining x) < 2 ^ 64"
    using good by (simp_all add: xheap_good_def PageSize_def)
  have dv: "4096 dvd ?n" "4096 dvd xh_position x" unfolding n using g(3) by (simp_all only: dvd_eq_mod_eq_0) simp
  then have m: "(xh_position x + ?n) mod 4096 = 0" by (simp only: dvd_add dvd_imp_mod_0)
  have "(8 :: nat) dvd 4096" by simp
  with dv(2) have m8: "xh_position x mod 8 = 0" by (meson dvd_imp_mod_0 dvd_trans)
  have rem: "unat (xh_remaining x - round_pages sz) = unat (xh_remaining x) - ?n" using res(2) by (rule unat_sub_small)
  have pos: "xh_position x' = xh_position x + ?n" "xh_start x' = xh_start x"
    "unat (xh_remaining x') = unat (xh_remaining x) - ?n" using res(3) rem by simp_all
  have "xheap_good (x', w')" using g le m unfolding xheap_good_def split pos PageSize_def by simp
  moreover have "xheap_taken (x, w) \<subseteq> xheap_taken (x', w')" unfolding xheap_taken_def split pos by auto
  moreover have "{xh_position x ..< xh_position x + unat sz} \<subseteq> xheap_taken (x', w')"
    unfolding xheap_taken_def split pos using g(2) ge by auto
  moreover have "{xh_position x ..< xh_position x + unat sz} \<inter> xheap_taken (x, w) = {}"
    unfolding xheap_taken_def split by auto
  ultimately show ?thesis using g ge le m8 by simp
qed

interpretation xh: source_heap "xheap_malloc me" xheap_good xheap_taken "2 ^ 63" for me
proof unfold_locales
  fix w :: "xheap \<times> world" and sz a w'
  assume a: "xheap_good w" "unat sz < 2 ^ 63" "xheap_malloc me sz w = Inr (Some a, w')"
  obtain x v x' v' where [simp]: "w = (x, v)" "w' = (x', v')" by (cases w, cases w')
  from xheap_malloc_result(1) [of me sz x v "Some a" x' v'] a(3) have "a = xh_position x" by simp
  with xheap_malloc_fresh [of x v sz me "Some a" x' v'] a
  show "xheap_good w' \<and> xheap_taken w \<subseteq> xheap_taken w' \<and> {a ..< a + unat sz} \<subseteq> xheap_taken w'
     \<and> {a ..< a + unat sz} \<inter> xheap_taken w = {} \<and> 0 < a \<and> a mod 8 = 0 \<and> a + unat sz < 2 ^ 64" by simp
next
  fix w :: "xheap \<times> world" and sz w'
  assume "xheap_malloc me sz w = Inr (None, w')"
  then show "xheap_good w' \<and> xheap_taken w \<subseteq> xheap_taken w'"
    using xheap_malloc_result(1) [of me sz "fst w" "snd w" None "fst w'" "snd w'"] by simp
qed simp

end
