(* ===== verification/WarpHeap.thy ===== *)
theory WarpHeap
  imports Xheap
begin

text \<open>
  The protected heap of \<open>src/include/warpheap.h\<close>: \<open>NUM_HEAPS\<close> Kingsley heaps over one source (\<open>PPHeap\<close>), and its adapter
  \<open>src/include/xadaptheap.h\<close>. The metadata of the heaps is shared; a mutex per heap makes each operation atomic. A block is
  freed into the heap of the thread that frees it. \<open>pp_inv\<close> is the invariant of all heaps together; the two main lemmas say
  that \<open>malloc\<close> on any heap returns a block disjoint from the blocks held in every heap and that \<open>free\<close> moves a block from
  the heap it was allocated in to the one it is freed into.
\<close>

section \<open>PPHeap and xadaptheap\<close>

record 'w ppheap =
  pp_mem :: mem
  pp_source :: 'w
  pp_heap :: "nat \<Rightarrow> kingsley"
  pp_lock :: "nat \<Rightarrow> nat"

definition pp_view :: "nat \<Rightarrow> 'w ppheap \<Rightarrow> 'w heap" where
  "pp_view i p = \<lparr>hmem = pp_mem p, source = pp_source p, kz = pp_heap p i\<rparr>"

definition pp_put :: "nat \<Rightarrow> 'w heap \<Rightarrow> 'w ppheap \<Rightarrow> 'w ppheap" where
  "pp_put i h p = p\<lparr>pp_mem := hmem h, pp_source := source h, pp_heap := (pp_heap p)(i := kz h)\<rparr>"

text \<open>The page that holds the mutexes comes from \<open>mmap\<close>; the code exits when it is NULL.\<close>

definition sizeof_mutex :: nat where
  "sizeof_mutex = 40"

definition pp_initialize :: "ptr \<Rightarrow> 'w ppheap \<Rightarrow> 'w ppheap result" where
  "pp_initialize base p =
     (case base of None \<Rightarrow> Inl (Exited 0)
      | Some b \<Rightarrow> Inr (p\<lparr>pp_lock := (\<lambda>i. if i < NUM_HEAPS then b + sizeof_mutex * i else pp_lock p i)\<rparr>))"

definition pp_malloc :: "'w source_malloc \<Rightarrow> ulong \<Rightarrow> nat \<Rightarrow> ulong \<Rightarrow> 'w ppheap \<Rightarrow> (ptr \<times> 'w ppheap) result" where
  "pp_malloc smalloc chunk ind sz p =
     (if NUM_HEAPS \<le> ind then Inl OutOfBounds
      else res_bind (kingsley_malloc smalloc chunk sz (pp_view ind p)) (\<lambda>(q, h). Inr (q, pp_put ind h p)))"

definition pp_free :: "nat \<Rightarrow> ptr \<Rightarrow> 'w ppheap \<Rightarrow> 'w ppheap result" where
  "pp_free ind q p =
     (if NUM_HEAPS \<le> ind then Inl OutOfBounds
      else res_bind (aw_free q (pp_view ind p)) (\<lambda>h. Inr (pp_put ind h p)))"

definition pp_getSize :: "ptr \<Rightarrow> 'w ppheap \<Rightarrow> ulong result" where
  "pp_getSize q p = aw_getSize q (pp_view 0 p)"

text \<open>\<open>xadaptheap::initialize\<close>: the metadata is constructed in an anonymous shared map.\<close>

definition xadapt_initialize :: "ptr \<Rightarrow> ptr \<Rightarrow> ('w \<Rightarrow> 'w) \<Rightarrow> 'w ppheap \<Rightarrow> 'w ppheap result" where
  "xadapt_initialize buf base source_init p =
     (let p1 = p\<lparr>pp_source := source_init (pp_source p)\<rparr>
      in case buf of None \<Rightarrow> Inl (Exited (- 1))
         | Some _ \<Rightarrow> pp_initialize base (p1\<lparr>pp_heap := (\<lambda>_. kingsley_init)\<rparr>))"

definition xadapt_malloc :: "'w source_malloc \<Rightarrow> ulong \<Rightarrow> nat \<Rightarrow> ulong \<Rightarrow> 'w ppheap \<Rightarrow> (ptr \<times> 'w ppheap) result" where
  "xadapt_malloc smalloc chunk heapid sz = pp_malloc smalloc chunk heapid sz"

definition xadapt_free :: "nat \<Rightarrow> ptr \<Rightarrow> 'w ppheap \<Rightarrow> 'w ppheap result" where
  "xadapt_free heapid q = pp_free heapid q"

definition xadapt_getSize :: "ptr \<Rightarrow> 'w ppheap \<Rightarrow> ulong result" where
  "xadapt_getSize q = pp_getSize q"

lemma pp_view_put [simp]: "pp_view i (pp_put i h p) = h"
  by (simp add: pp_view_def pp_put_def)

lemma pp_view_simps [simp]:
  "hmem (pp_view i p) = pp_mem p" "source (pp_view i p) = pp_source p" "kz (pp_view i p) = pp_heap p i"
  by (simp_all add: pp_view_def)

lemma pp_put_simps [simp]:
  "pp_mem (pp_put i h p) = hmem h" "pp_source (pp_put i h p) = source h"
  "pp_heap (pp_put i h p) j = (if j = i then kz h else pp_heap p j)" "pp_lock (pp_put i h p) = pp_lock p"
  by (simp_all add: pp_put_def)

lemma pp_initialize_locks:
  assumes "pp_initialize (Some b) p = Inr p'" and "i < NUM_HEAPS" and "j < NUM_HEAPS" and "i \<noteq> j"
  shows "{pp_lock p' i ..< pp_lock p' i + sizeof_mutex} \<inter> {pp_lock p' j ..< pp_lock p' j + sizeof_mutex} = {}"
    and "{pp_lock p' i ..< pp_lock p' i + sizeof_mutex} \<subseteq> {b ..< b + sizeof_mutex * NUM_HEAPS}"
  using assms by (auto simp: pp_initialize_def sizeof_mutex_def)

section \<open>The heaps together\<close>

text \<open>Heap \<open>i\<close> covers at most the memory \<open>Ts i\<close> and the program holds the blocks \<open>Ls i\<close> of it.\<close>

definition pp_inv :: "('w \<Rightarrow> bool) \<Rightarrow> ('w \<Rightarrow> nat set) \<Rightarrow> (nat \<Rightarrow> nat set) \<Rightarrow> (nat \<Rightarrow> nat set) \<Rightarrow> 'w ppheap \<Rightarrow> bool" where
  "pp_inv good taken Ls Ts p \<longleftrightarrow>
     (\<forall>i<NUM_HEAPS. holds good taken (Ls i) (Ts i) (pp_view i p) \<and> Ts i \<subseteq> taken (pp_source p))
     \<and> (\<forall>i<NUM_HEAPS. \<forall>j<NUM_HEAPS. i \<noteq> j \<longrightarrow> Ts i \<inter> Ts j = {})"

text \<open>The memory a block takes, header included, and the memory the program may store into.\<close>

definition pp_whole :: "'w ppheap \<Rightarrow> nat \<Rightarrow> nat set" where
  "pp_whole p a = {a - 16 ..< a + obj_size (pp_mem p) a}"

definition pp_block :: "'w ppheap \<Rightarrow> nat \<Rightarrow> nat set" where
  "pp_block p a = {a ..< a + obj_size (pp_mem p) a}"

lemma pp_block_whole: "pp_block p a \<subseteq> pp_whole p a"
  unfolding pp_block_def pp_whole_def by (rule ivl_subset [THEN iffD2]) simp

lemma whole_pp_view [simp]: "whole (pp_view i p) a = pp_whole p a"
  by (simp add: whole_def pp_whole_def)

lemma block_pp_view [simp]: "block (pp_view i p) a = pp_block p a"
  by (simp add: block_def pp_block_def)

lemma pp_invD:
  assumes "pp_inv good taken Ls Ts p" and "i < NUM_HEAPS"
  shows "holds good taken (Ls i) (Ts i) (pp_view i p)" "Ts i \<subseteq> taken (pp_source p)"
    and "j < NUM_HEAPS \<Longrightarrow> i \<noteq> j \<Longrightarrow> Ts i \<inter> Ts j = {}"
  using assms by (auto simp: pp_inv_def)

lemma pp_inv_within: "pp_inv good taken Ls Ts p \<Longrightarrow> i < NUM_HEAPS \<Longrightarrow> a \<in> Ls i \<Longrightarrow> pp_whole p a \<subseteq> Ts i"
  using holds_within [of good taken "Ls i" "Ts i" "pp_view i p" a] by (simp add: pp_inv_def)

lemma pp_inv_disjoint:
  assumes inv: "pp_inv good taken Ls Ts p" and ij: "i < NUM_HEAPS" "j < NUM_HEAPS"
    and ab: "a \<in> Ls i" "b \<in> Ls j" "i \<noteq> j \<or> a \<noteq> b"
  shows "pp_whole p a \<inter> pp_whole p b = {}"
proof (cases "i = j")
  case True
  with holds_disjoint [OF pp_invD(1) [OF inv ij(1)] ab(1), of b] ab(2,3) show ?thesis by simp
next
  case False
  then show ?thesis using pp_inv_within [OF inv ij(1) ab(1)] pp_inv_within [OF inv ij(2) ab(2)] pp_invD(3) [OF inv ij(1) ij(2)]
    by blast
qed

text \<open>An operation on heap \<open>i\<close> that stays in its own memory keeps the other heaps.\<close>

lemma pp_inv_update:
  assumes inv: "pp_inv good taken Ls Ts p" and i: "i < NUM_HEAPS"
    and h: "holds good taken L T h" "T \<subseteq> Ts i \<union> (taken (source h) - taken (pp_source p))"
      "taken (pp_source p) \<subseteq> taken (source h)"
    and same: "\<And>x. x \<in> taken (pp_source p) \<Longrightarrow> x \<notin> Ts i \<Longrightarrow> hmem h x = pp_mem p x"
  shows "pp_inv good taken (Ls(i := L)) (Ts(i := T)) (pp_put i h p)"
proof -
  have "holds good taken (Ls j) (Ts j) (pp_view j (pp_put i h p))" if j: "j < NUM_HEAPS" "j \<noteq> i" for j
  proof (rule holds_frame [OF pp_invD(1) [OF inv j(1)]])
    fix x assume x: "x \<in> Ts j"
    then have "x \<in> taken (pp_source p)" "x \<notin> Ts i" using pp_invD(2,3) [OF inv j(1)] i j by blast+
    then show "hmem (pp_view j (pp_put i h p)) x = hmem (pp_view j p) x" using same by simp
  qed (use holds_good [OF h(1)] h(3) j in simp_all)
  moreover have "T \<subseteq> taken (source h)" using h(2,3) pp_invD(2) [OF inv i] by blast
  moreover have "Ts j \<subseteq> taken (source h)" "Ts j \<inter> T = {}" if "j < NUM_HEAPS" "j \<noteq> i" for j
    using that h(2,3) pp_invD(2) [OF inv that(1)] pp_invD(3) [OF inv that(1) i] by blast+
  ultimately show ?thesis using inv h(1) unfolding pp_inv_def by (auto simp: Int_commute)
qed

lemma pp_inv_init:
  assumes "good w"
  shows "pp_inv good taken (\<lambda>_. {}) (\<lambda>_. {}) \<lparr>pp_mem = m, pp_source = w, pp_heap = (\<lambda>_. kingsley_init), pp_lock = l\<rparr>"
  using holds_init [of good w taken m, OF assms] by (simp add: pp_inv_def pp_view_def)

lemma pp_inv_write:
  assumes inv: "pp_inv good taken Ls Ts p" and i: "i < NUM_HEAPS" "a \<in> Ls i"
    and m: "\<And>x. x \<notin> pp_block p a \<Longrightarrow> m x = pp_mem p x"
  shows "pp_inv good taken Ls Ts (p\<lparr>pp_mem := m\<rparr>)"
proof -
  have ts: "pp_block p a \<subseteq> Ts i" using pp_inv_within [OF inv i] pp_block_whole by blast
  have "holds good taken (Ls i) (Ts i) ((pp_view i p)\<lparr>hmem := m\<rparr>)"
    by (rule holds_write [OF pp_invD(1) [OF inv i(1)] i(2)]) (simp add: m)
  then have "pp_inv good taken (Ls(i := Ls i)) (Ts(i := Ts i)) (pp_put i ((pp_view i p)\<lparr>hmem := m\<rparr>) p)"
    by (rule pp_inv_update [OF inv i(1)]) (use ts m in \<open>auto simp: subset_iff\<close>)
  moreover have "pp_put i ((pp_view i p)\<lparr>hmem := m\<rparr>) p = p\<lparr>pp_mem := m\<rparr>"
    by (simp add: pp_put_def pp_view_def)
  ultimately show ?thesis by simp
qed

section \<open>Free\<close>

text \<open>The block leaves heap \<open>i\<close>, where it was allocated, for heap \<open>j\<close>, the freeing thread's.\<close>

lemma pp_free_moves:
  assumes inv: "pp_inv good taken Ls Ts p" and i: "i < NUM_HEAPS" "a \<in> Ls i" and j: "j < NUM_HEAPS"
  shows "\<exists>p' Ts'. pp_free j (Some a) p = Inr p' \<and> pp_inv good taken (Ls(i := Ls i - {a})) Ts' p'
     \<and> (\<forall>x. x \<notin> pp_block p a \<longrightarrow> pp_mem p' x = pp_mem p x) \<and> pp_source p' = pp_source p
     \<and> (\<forall>c<NUMBINS. obj_size (pp_mem p) a = unat (class2Size (int c)) \<longrightarrow> sl_head (pp_heap p' j) c = Some a)"
proof -
  note hi = pp_invD(1) [OF inv i(1)]
  let ?W = "pp_whole p a"
  have W: "?W \<subseteq> Ts i" by (rule pp_inv_within [OF inv i])
  have blk: "pp_block p a \<subseteq> ?W" by (rule pp_block_whole)
  text \<open>First the block changes hands, then heap \<open>j\<close> frees it.\<close>
  define Ls1 where "Ls1 = (Ls(i := Ls i - {a}))(j := insert a ((Ls(i := Ls i - {a})) j))"
  define Ts1 where "Ts1 = (Ts(i := Ts i - ?W))(j := (Ts(i := Ts i - ?W)) j \<union> ?W)"
  have drop: "pp_inv good taken (Ls(i := Ls i - {a})) (Ts(i := Ts i - ?W)) (pp_put i (pp_view i p) p)"
    by (rule pp_inv_update [OF inv i(1)]) (use holds_drop [OF hi i(2)] in auto)
  have idem: "pp_put k (pp_view k p) p = p" for k by (simp add: pp_put_def pp_view_def)
  note drop = drop [unfolded idem]
  have Wdis: "?W \<inter> (Ts(i := Ts i - ?W)) k = {}" if "k < NUM_HEAPS" for k
    using W pp_invD(3) [OF inv i(1) that] by auto
  have ok: "obj_ok (pp_mem p) a" using holds_ok [OF hi i(2)] by simp
  have tk: "?W \<subseteq> taken (pp_source p)" using W pp_invD(2) [OF inv i(1)] by blast
  have ad: "holds good taken (Ls1 j) (Ts1 j) (pp_view j p)"
    using holds_adopt [OF pp_invD(1) [OF drop j], of a] ok tk Wdis [OF j] by (simp add: Ls1_def Ts1_def)
  from strict_free_holds [OF ad, of a] obtain h' where h': "strict_free a (pp_view j p) = Inr h'"
    "holds good taken (Ls1 j - {a}) (Ts1 j) h'" "\<forall>x. x \<notin> pp_block p a \<longrightarrow> hmem h' x = pp_mem p x"
    "source h' = pp_source p"
    "\<forall>c<NUMBINS. obj_size (pp_mem p) a = unat (class2Size (int c)) \<longrightarrow> sl_head (kz h') c = Some a"
    by (auto simp: Ls1_def)
  have "a - 16 \<in> ?W" using ok by (auto simp: pp_whole_def obj_ok_def)
  then have nin: "a \<notin> (Ls(i := Ls i - {a})) j"
    using pp_inv_within [OF drop j, of a] Wdis [OF j] by blast
  text \<open>The other heaps, with the block's memory taken out of heap \<open>i\<close>'s.\<close>
  have mid: "pp_inv good taken (Ls(i := Ls i - {a})) Ts1 p"
    unfolding pp_inv_def
  proof (intro conjI allI impI)
    fix k assume k: "k < NUM_HEAPS"
    have "holds good taken ((Ls(i := Ls i - {a})) k) ((Ts(i := Ts i - ?W)) k) (pp_view k p)" by (rule pp_invD(1) [OF drop k])
    then show "holds good taken ((Ls(i := Ls i - {a})) k) (Ts1 k) (pp_view k p)"
      by (rule holds_mono) (auto simp: Ts1_def)
    show "Ts1 k \<subseteq> taken (pp_source p)" using pp_invD(2) [OF drop k] tk by (auto simp: Ts1_def split: if_splits)
    fix l assume l: "l < NUM_HEAPS" "k \<noteq> l"
    show "Ts1 k \<inter> Ts1 l = {}"
      using pp_invD(3) [OF drop k l] Wdis [OF k] Wdis [OF l(1)] l(2) unfolding Ts1_def
      by (cases "k = j"; cases "l = j"; auto; blast)
  qed
  have "pp_inv good taken ((Ls(i := Ls i - {a}))(j := Ls1 j - {a})) (Ts1(j := Ts1 j)) (pp_put j h' p)"
  proof (rule pp_inv_update [OF mid j h'(2)])
    fix x assume "x \<notin> Ts1 j"
    then have "x \<notin> pp_block p a" using blk by (auto simp: Ts1_def)
    then show "hmem h' x = pp_mem p x" using h'(3) by blast
  qed (simp_all add: h'(4))
  moreover have "(Ls(i := Ls i - {a}))(j := Ls1 j - {a}) = Ls(i := Ls i - {a})"
    using nin by (auto simp: Ls1_def fun_eq_iff)
  ultimately have "pp_inv good taken (Ls(i := Ls i - {a})) Ts1 (pp_put j h' p)" by simp
  then show ?thesis using h' j by (intro exI [of _ "pp_put j h' p"] exI [of _ Ts1]) (simp add: pp_free_def aw_free_def)
qed

section \<open>Malloc\<close>

context source_heap
begin

lemma pp_malloc_fresh:
  assumes inv: "pp_inv good taken Ls Ts p" and i: "i < NUM_HEAPS"
    and sz: "128 + 2 * unat sz < limit" and chunk: "32 + unat chunk < limit"
    and r: "pp_malloc smalloc chunk i sz p = Inr (Some a, p')"
  shows "\<exists>T'. pp_inv good taken (Ls(i := insert a (Ls i))) (Ts(i := T')) p'" and "a \<notin> Ls i"
    and "unat sz \<le> obj_size (pp_mem p') a" and "16 \<le> obj_size (pp_mem p') a" and "a mod 8 = 0"
    and "j < NUM_HEAPS \<Longrightarrow> b \<in> Ls j \<Longrightarrow> pp_whole p' a \<inter> pp_whole p' b = {}"
    and "j < NUM_HEAPS \<Longrightarrow> b \<in> Ls j \<Longrightarrow> x \<in> pp_whole p b \<Longrightarrow> pp_mem p' x = pp_mem p x"
proof -
  from r i obtain h' where k: "aw_malloc smalloc chunk sz (pp_view i p) = Inr (Some a, h')" and p': "p' = pp_put i h' p"
    by (auto simp: pp_malloc_def kingsley_malloc_def res_bind_Inr)
  note hi = pp_invD(1) [OF inv i]
  note g = aw_malloc_grants [OF hi sz chunk k]
  let ?T = "extended taken (Ts i) (pp_view i p) h'"
  have gr: "keeps_objects (Ls i) (pp_view i p) h'" "confined taken (Ts i) (pp_view i p) ?T h'"
    "a \<notin> Ls i" "holds good taken (insert a (Ls i)) ?T h'" "unat sz \<le> obj_size (hmem h') a" "a mod 8 = 0"
    using g(1) by (simp_all add: grants_def)
  have c: "taken (pp_source p) \<subseteq> taken (source h')"
    "\<And>x. x \<notin> Ts i \<Longrightarrow> x \<in> taken (pp_source p) \<Longrightarrow> hmem h' x = pp_mem p x"
    using gr(2) by (auto simp: confined_def)
  have inv': "pp_inv good taken (Ls(i := insert a (Ls i))) (Ts(i := ?T)) p'"
    unfolding p' by (rule pp_inv_update [OF inv i gr(4)]) (use c in \<open>auto simp: extended_def\<close>)
  then show "\<exists>T'. pp_inv good taken (Ls(i := insert a (Ls i))) (Ts(i := T')) p'" by blast
  show "a \<notin> Ls i" "unat sz \<le> obj_size (pp_mem p') a" "16 \<le> obj_size (pp_mem p') a" "a mod 8 = 0"
    using gr g(2) by (simp_all add: p')
  show "pp_whole p' a \<inter> pp_whole p' b = {}" if "j < NUM_HEAPS" "b \<in> Ls j"
    by (rule pp_inv_disjoint [OF inv' i that(1)]) (use that gr(3) in auto)
  show "pp_mem p' x = pp_mem p x" if jb: "j < NUM_HEAPS" "b \<in> Ls j" "x \<in> pp_whole p b"
  proof (cases "j = i")
    case True
    then show ?thesis using gr(1) jb by (auto simp: keeps_objects_def pp_whole_def p')
  next
    case False
    then have "x \<in> Ts j" "x \<in> taken (pp_source p)" "x \<notin> Ts i"
      using pp_inv_within [OF inv jb(1,2)] pp_invD(2,3) [OF inv jb(1)] i jb(3) by blast+
    then show ?thesis using c(2) by (simp add: p')
  qed
qed

end

text \<open>The block that a thread has just freed is the next one it gets for that size.\<close>

lemma pp_malloc_reuse:
  assumes "i < NUM_HEAPS" and "unat sz \<le> 2 ^ 31 - 8" and "s = align (if sz < 16 then 16 else sz)"
    and "s \<le> maxObjectSize" and "sl_head (pp_heap p i) (nat (size2Class s)) = Some a"
  shows "\<exists>p'. pp_malloc smalloc chunk i sz p = Inr (Some a, p') \<and> pp_mem p' = pp_mem p \<and> pp_source p' = pp_source p"
proof -
  from strict_malloc_reuse [of s "pp_view i p" a smalloc chunk] assms(4,5) obtain h'
    where "strict_malloc smalloc chunk s (pp_view i p) = Inr (Some a, h')" "hmem h' = pp_mem p" "source h' = pp_source p" by auto
  then show ?thesis using assms(1) unfolding assms(3)
    by (simp add: pp_malloc_def kingsley_malloc_def aw_malloc_def Let_def)
qed

end
