(* ===== verification/Internal.thy ===== *)
theory Internal
  imports KingsleyHeap
begin

text \<open>
  The shared heap for the library's own records, \<open>src/include/internalheap.h\<close>: a Kingsley heap over a source that hands out
  one region, once. Locks, condition variables and barriers get their entries from it.
\<close>

section \<open>SourceInternalHeap\<close>

text \<open>\<open>si_mmap\<close>: what the one call of \<open>mmap\<close> returns; \<open>MAP_FAILED\<close> is the word -1.\<close>

record source_internal =
  si_mmap :: ulong
  alreadyMalloced :: bool

definition MAP_FAILED :: ulong where
  "MAP_FAILED = - 1"

definition internal_region :: ulong where
  "internal_region = INTERNALHEAP_SIZE + 4096"

definition si_init :: "ulong \<Rightarrow> source_internal" where
  "si_init region = \<lparr>si_mmap = region, alreadyMalloced = False\<rparr>"

definition si_malloc :: "ulong \<Rightarrow> source_internal \<Rightarrow> (ptr \<times> source_internal) result" where
  "si_malloc sz s =
     (if alreadyMalloced s then Inr (None, s)
      else if si_mmap s = 0 then Inl (Exited 1)
      else Inr (Some (unat (si_mmap s)), s\<lparr>alreadyMalloced := True\<rparr>))"

definition si_free :: "nat \<Rightarrow> source_internal \<Rightarrow> source_internal" where
  "si_free addr s = s"

section \<open>InternalHeap\<close>

text \<open>The heap itself lives in a shared map; its lock makes the operations atomic.\<close>

record iheap =
  ih_heap :: "source_internal heap"
  ih_lock :: ptr

definition ih_new :: "mem \<Rightarrow> ulong \<Rightarrow> iheap" where
  "ih_new m region = \<lparr>ih_heap = \<lparr>hmem = m, source = si_init region, kz = kingsley_init\<rparr>, ih_lock = None\<rparr>"

definition on_ih :: "(source_internal heap \<Rightarrow> source_internal heap) \<Rightarrow> iheap \<Rightarrow> iheap" where
  "on_ih f s = s\<lparr>ih_heap := f (ih_heap s)\<rparr>"

definition ih_malloc :: "ulong \<Rightarrow> iheap \<Rightarrow> (ptr \<times> iheap) result" where
  "ih_malloc sz s =
     res_bind (kingsley_malloc si_malloc INTERNALHEAP_SIZE sz (ih_heap s)) (\<lambda>(p, h). Inr (p, s\<lparr>ih_heap := h\<rparr>))"

definition ih_free :: "ptr \<Rightarrow> iheap \<Rightarrow> iheap result" where
  "ih_free p s = res_bind (aw_free p (ih_heap s)) (\<lambda>h. Inr (s\<lparr>ih_heap := h\<rparr>))"

definition ih_initialize :: "ptr \<Rightarrow> iheap \<Rightarrow> iheap result" where
  "ih_initialize lk s =
     (let s1 = s\<lparr>ih_lock := lk\<rparr>
      in case lk of None \<Rightarrow> Inl (Exited (- 1))
         | Some _ \<Rightarrow> res_bind (ih_malloc 8 s1) (\<lambda>(p, s2). Inr s2))"

text \<open>\<open>InternalHeapAllocator\<close> forwards to the one instance.\<close>

definition iha_malloc :: "ulong \<Rightarrow> iheap \<Rightarrow> (ptr \<times> iheap) result" where
  "iha_malloc sz = ih_malloc sz"

definition iha_free :: "ptr \<Rightarrow> iheap \<Rightarrow> iheap result" where
  "iha_free p = ih_free p"

section \<open>The contract of the source\<close>

definition si_good :: "source_internal \<Rightarrow> bool" where
  "si_good s \<longleftrightarrow> 0 < unat (si_mmap s) \<and> unat (si_mmap s) mod 8 = 0 \<and> unat (si_mmap s) + unat internal_region < 2 ^ 64"

definition si_taken :: "source_internal \<Rightarrow> nat set" where
  "si_taken s = (if alreadyMalloced s then {unat (si_mmap s) ..< unat (si_mmap s) + unat internal_region} else {})"

lemma unat_internal_region [simp]: "unat internal_region = 104861696"
  by (simp add: internal_region_def INTERNALHEAP_SIZE_def)

interpretation si: source_heap si_malloc si_good si_taken "unat internal_region + 1"
proof unfold_locales
  fix w sz a w'
  assume "si_good w" "unat sz < unat internal_region + 1" "si_malloc sz w = Inr (Some a, w')"
  then show "si_good w' \<and> si_taken w \<subseteq> si_taken w' \<and> {a..<a + unat sz} \<subseteq> si_taken w'
      \<and> {a..<a + unat sz} \<inter> si_taken w = {} \<and> 0 < a \<and> a mod 8 = 0 \<and> a + unat sz < 2 ^ 64"
    by (auto simp: si_malloc_def si_good_def si_taken_def split: if_splits)
next
  fix w sz w'
  assume "si_good w" "si_malloc sz w = Inr (None, w')"
  then show "si_good w' \<and> si_taken w \<subseteq> si_taken w'"
    by (auto simp: si_malloc_def split: if_splits)
qed simp

text \<open>What the program of the library may rely on: \<open>L\<close> are the entries in use.\<close>

definition ih_inv :: "nat set \<Rightarrow> nat set \<Rightarrow> iheap \<Rightarrow> bool" where
  "ih_inv L T s \<longleftrightarrow> holds si_good si_taken L T (ih_heap s)"

lemma ih_inv_new: "si_good (si_init region) \<Longrightarrow> ih_inv {} {} (ih_new m region)"
  unfolding ih_inv_def ih_new_def by simp (rule holds_init)

lemma ih_malloc_fresh:
  assumes "ih_inv L T s" and "unat sz \<le> 2 ^ 20" and "ih_malloc sz s = Inr (Some a, s')"
  shows "\<exists>T'. ih_inv (insert a L) T' s'" and "a \<notin> L" and "unat sz \<le> obj_size (hmem (ih_heap s')) a"
    and "b \<in> L \<Longrightarrow> whole (ih_heap s') a \<inter> whole (ih_heap s') b = {}"
    and "b \<in> L \<Longrightarrow> x \<in> whole (ih_heap s) b \<Longrightarrow> hmem (ih_heap s') x = hmem (ih_heap s) x"
proof -
  from assms(3) obtain h where r: "aw_malloc si_malloc INTERNALHEAP_SIZE sz (ih_heap s) = Inr (Some a, h)"
    and s': "s' = s\<lparr>ih_heap := h\<rparr>"
    by (auto simp: ih_malloc_def kingsley_malloc_def res_bind_Inr)
  have "128 + 2 * unat sz < unat internal_region + 1" using assms(2) by simp
  moreover have "32 + unat INTERNALHEAP_SIZE < unat internal_region + 1" by (simp add: INTERNALHEAP_SIZE_def)
  ultimately have g: "grants si_good si_taken L T sz (ih_heap s) (Some a) h"
    using si.aw_malloc_grants(1) [OF _ _ _ r] assms(1) by (simp add: ih_inv_def)
  show "\<exists>T'. ih_inv (insert a L) T' s'" using g by (auto simp: grants_def ih_inv_def s')
  show "a \<notin> L" "unat sz \<le> obj_size (hmem (ih_heap s')) a" using g by (auto simp: grants_def s')
  show "whole (ih_heap s') a \<inter> whole (ih_heap s') b = {}" if "b \<in> L" using grants_disjoint [OF g that] by (simp add: s')
  show "hmem (ih_heap s') x = hmem (ih_heap s) x" if "b \<in> L" "x \<in> whole (ih_heap s) b"
    using g that by (auto simp: grants_def keeps_objects_def whole_def s')
qed

lemma ih_free_drops:
  assumes "ih_inv L T s" and "a \<in> L"
  shows "\<exists>s'. ih_free (Some a) s = Inr s' \<and> ih_inv (L - {a}) T s'"
  using strict_free_holds [of si_good si_taken L T "ih_heap s" a] assms
  by (auto simp: ih_inv_def ih_free_def aw_free_def)

text \<open>The second request to the source fails, and the first is answered with the region whatever its size.\<close>

lemma si_malloc_once: "alreadyMalloced s \<Longrightarrow> si_malloc sz s = Inr (None, s)"
  by (simp add: si_malloc_def)

lemma si_malloc_ignores_size: "si_malloc sz s = si_malloc sz' s"
  by (simp add: si_malloc_def)

text \<open>A failing \<open>mmap\<close> is not noticed: the test is for NULL.\<close>

lemma si_malloc_map_failed: "si_malloc sz (si_init MAP_FAILED) = Inr (Some (2 ^ 64 - 1), \<lparr>si_mmap = MAP_FAILED, alreadyMalloced = True\<rparr>)"
proof -
  have "unat (- 1 :: ulong) = 2 ^ 64 - 1" by (simp add: unsigned_minus_1_eq_mask mask_eq_exp_minus_1)
  then show ?thesis by (simp add: si_malloc_def si_init_def MAP_FAILED_def)
qed

end
