(* ===== verification/Xmemory.thy ===== *)
theory Xmemory
  imports WarpHeap Internal
begin

text \<open>
  All memory of the library: \<open>src/include/xmemory.h\<close> over the protected heap (\<open>src/include/xoneheap.h\<close> around
  \<open>xheap\<close>), the globals (\<open>src/include/xglobals.h\<close>) and the internal heap. The two regions are two page stores with one pool of page
  records per process and one pool of twin pages, which the code has as singletons. Every process keeps its own heap index.
  The allocator works on the heap as the running process sees it (\<open>pp_mem\<close>); the page-level view of the regions is
  \<open>xm_load\<close>.
\<close>

section \<open>The source of the protected heap\<close>

type_synonym pheap_source = "xheap \<times> world"

text \<open>\<open>xoneheap\<close> forwards to its one instance of \<open>xheap\<close>, which is the page store with the bump allocator.\<close>

definition on_world :: "(world \<Rightarrow> world) \<Rightarrow> pheap_source \<Rightarrow> pheap_source" where
  "on_world f s = (fst s, f (snd s))"

definition on_world_r :: "(world \<Rightarrow> world result) \<Rightarrow> pheap_source \<Rightarrow> pheap_source result" where
  "on_world_r f s = res_bind (f (snd s)) (\<lambda>w. Inr (fst s, w))"

definition xo_initialize :: "cint \<Rightarrow> pheap_source \<Rightarrow> pheap_source" where
  "xo_initialize me = on_world (xheap_initialize me)"

definition xo_finalize :: "cint \<Rightarrow> pheap_source \<Rightarrow> pheap_source result" where
  "xo_finalize me = on_world_r (xp_finalize me)"

definition xo_begin :: "cint \<Rightarrow> bool \<Rightarrow> pheap_source \<Rightarrow> pheap_source result" where
  "xo_begin me cleanup = xheap_begin me cleanup"

definition xo_finalcommit :: "cint \<Rightarrow> bool \<Rightarrow> pheap_source \<Rightarrow> pheap_source" where
  "xo_finalcommit me release = on_world (finalcommit me release)"

definition xo_forceCommit :: "cint \<Rightarrow> cint \<Rightarrow> nat \<Rightarrow> pheap_source \<Rightarrow> pheap_source" where
  "xo_forceCommit me pid end_addr = on_world (forceCommitOwnedPages me pid end_addr)"

definition xo_checkandcommit :: "cint \<Rightarrow> bool \<Rightarrow> pheap_source \<Rightarrow> pheap_source result" where
  "xo_checkandcommit me update = on_world_r (checkandcommit me update)"

definition xo_getend :: "pheap_source \<Rightarrow> nat" where
  "xo_getend s = xheap_getend (fst s)"

definition xo_openProtection :: "cint \<Rightarrow> nat \<Rightarrow> pheap_source \<Rightarrow> pheap_source result" where
  "xo_openProtection me end_addr = on_world_r (openProtection me end_addr)"

definition xo_closeProtection :: "cint \<Rightarrow> pheap_source \<Rightarrow> pheap_source result" where
  "xo_closeProtection me = on_world_r (closeProtection me)"

definition xo_nop :: "cint \<Rightarrow> pheap_source \<Rightarrow> bool" where
  "xo_nop me s = nop me (snd s)"

definition xo_inRange :: "cint \<Rightarrow> nat \<Rightarrow> pheap_source \<Rightarrow> bool" where
  "xo_inRange me addr s = inRange me addr (snd s)"

definition xo_handleWrite :: "cint \<Rightarrow> nat \<Rightarrow> pheap_source \<Rightarrow> pheap_source result" where
  "xo_handleWrite me addr = on_world_r (handleWrite me addr)"

definition xo_cleanupOwnedBlocks :: "cint \<Rightarrow> pheap_source \<Rightarrow> pheap_source" where
  "xo_cleanupOwnedBlocks me = on_world (cleanupOwnedBlocks me)"

definition xo_commitOwnedPage :: "cint \<Rightarrow> nat \<Rightarrow> bool \<Rightarrow> pheap_source \<Rightarrow> pheap_source" where
  "xo_commitOwnedPage me page_no set_shared = on_world (commitOwnedPage me page_no set_shared)"

definition xo_mem_write :: "cint \<Rightarrow> nat \<Rightarrow> ulong \<Rightarrow> pheap_source \<Rightarrow> pheap_source" where
  "xo_mem_write me dest val = on_world (xp_mem_write me dest val)"

definition xo_setThreadIndex :: "cint \<Rightarrow> int \<Rightarrow> pheap_source \<Rightarrow> pheap_source" where
  "xo_setThreadIndex me index = on_world (setThreadIndex me index)"

definition xo_malloc :: "cint \<Rightarrow> ulong \<Rightarrow> pheap_source \<Rightarrow> (ptr \<times> pheap_source) result" where
  "xo_malloc me = xheap_malloc me"

definition xo_free :: "nat \<Rightarrow> pheap_source \<Rightarrow> pheap_source result" where
  "xo_free p s = res_bind (xheap_free p (fst s)) (\<lambda>x. Inr (x, snd s))"

definition xo_getSize :: "nat \<Rightarrow> pheap_source \<Rightarrow> ulong result" where
  "xo_getSize p s = xheap_getSize p (fst s)"

section \<open>xglobals\<close>

text \<open>
  The region of the globals is the page-aligned hull of \<open>__data_start\<close> and \<open>_end\<close>; the assertion on its size is compiled
  out with the others (\<open>assert\<close> was defined when \<open>assert.h\<close> was included), so only the check of the constructor remains.
\<close>

definition PAGE_ALIGN_DOWN :: "ulong \<Rightarrow> ulong" where
  "PAGE_ALIGN_DOWN x = x AND NOT 4095"

definition PAGE_ALIGN_UP :: "ulong \<Rightarrow> ulong" where
  "PAGE_ALIGN_UP x = (x + 4095) AND NOT 4095"

definition GLOBALS_START :: "ulong \<Rightarrow> ulong" where
  "GLOBALS_START data_start = PAGE_ALIGN_DOWN data_start"

definition GLOBALS_END :: "ulong \<Rightarrow> ulong" where
  "GLOBALS_END end_addr = PAGE_ALIGN_UP (end_addr - 1)"

definition GLOBALS_SIZE :: "ulong \<Rightarrow> ulong \<Rightarrow> ulong" where
  "GLOBALS_SIZE data_start end_addr = GLOBALS_END end_addr - GLOBALS_START data_start"

definition xglobals_constructor :: "xp_os \<Rightarrow> cint \<Rightarrow> ulong \<Rightarrow> ulong \<Rightarrow> mem \<Rightarrow> world \<Rightarrow> world result" where
  "xglobals_constructor os me data_start end_addr initial =
     xp_constructor os me MAX_GLOBALS_SIZE (Some (unat (GLOBALS_START data_start)))
       (unat (GLOBALS_SIZE data_start end_addr)) initial"

section \<open>State\<close>

record xmemory =
  xm_globals :: world
  xm_pheap :: "pheap_source ppheap"
  xm_internal :: iheap
  xm_heapid :: "cint \<Rightarrow> nat"
  xm_other :: "cint \<Rightarrow> mem"
  xm_mapped :: "nat \<Rightarrow> bool"
  xm_shared :: mem
  xm_handlers :: bool

text \<open>The page records and the twins are one pool each for both regions.\<close>

definition share_pools :: "world \<Rightarrow> world \<Rightarrow> world" where
  "share_pools from to = to\<lparr>pools := pools from, sh := (sh to)\<lparr>twins := twins (sh from)\<rparr>\<rparr>"

definition heap_world :: "xmemory \<Rightarrow> world" where
  "heap_world s = snd (pp_source (xm_pheap s))"

definition put_source :: "pheap_source \<Rightarrow> xmemory \<Rightarrow> xmemory" where
  "put_source src s = s\<lparr>xm_pheap := (xm_pheap s)\<lparr>pp_source := src\<rparr>, xm_globals := share_pools (snd src) (xm_globals s)\<rparr>"

definition put_globals :: "world \<Rightarrow> xmemory \<Rightarrow> xmemory" where
  "put_globals w s = s\<lparr>xm_globals := w,
     xm_pheap := (xm_pheap s)\<lparr>pp_source := (fst (pp_source (xm_pheap s)), share_pools w (heap_world s))\<rparr>\<rparr>"

definition on_pheap :: "(pheap_source \<Rightarrow> pheap_source) \<Rightarrow> xmemory \<Rightarrow> xmemory" where
  "on_pheap f s = put_source (f (pp_source (xm_pheap s))) s"

definition on_pheap_r :: "(pheap_source \<Rightarrow> pheap_source result) \<Rightarrow> xmemory \<Rightarrow> xmemory result" where
  "on_pheap_r f s = res_bind (f (pp_source (xm_pheap s))) (\<lambda>src. Inr (put_source src s))"

definition on_globals :: "(world \<Rightarrow> world) \<Rightarrow> xmemory \<Rightarrow> xmemory" where
  "on_globals f s = put_globals (f (xm_globals s)) s"

definition on_globals_r :: "(world \<Rightarrow> world result) \<Rightarrow> xmemory \<Rightarrow> xmemory result" where
  "on_globals_r f s = res_bind (f (xm_globals s)) (\<lambda>w. Inr (put_globals w s))"

section \<open>Operations\<close>

definition xm_installSignalHandler :: "bool \<Rightarrow> bool \<Rightarrow> xmemory \<Rightarrow> xmemory result" where
  "xm_installSignalHandler segv_ok usr1_ok s =
     (if \<not> segv_ok then Inl (Exited (- 1))
      else if \<not> usr1_ok then Inl (Exited (- 1))
      else Inr (s\<lparr>xm_handlers := True\<rparr>))"

record xm_os =
  os_segv :: bool
  os_usr1 :: bool
  os_heap_meta :: ptr
  os_heap_locks :: ptr
  os_internal_lock :: ptr

definition xm_initialize :: "xm_os \<Rightarrow> cint \<Rightarrow> xmemory \<Rightarrow> xmemory result" where
  "xm_initialize os me s0 =
     res_bind (xm_installSignalHandler (os_segv os) (os_usr1 os) s0) (\<lambda>s1.
     res_bind (xadapt_initialize (os_heap_meta os) (os_heap_locks os) (xo_initialize me) (xm_pheap s1)) (\<lambda>p.
     let s2 = on_globals (xp_initialize me) (s1\<lparr>xm_pheap := p\<rparr>) in
     let s3 = on_globals (on_pool me pe_initialize) s2 in
     res_bind (ih_initialize (os_internal_lock os) (xm_internal s3)) (\<lambda>i. Inr (s3\<lparr>xm_internal := i\<rparr>))))"

text \<open>Memory from \<open>mmap\<close> with \<open>MAP_SHARED | MAP_ANONYMOUS\<close>: zeroes, the same for all processes.\<close>

definition map_shared :: "nat \<Rightarrow> nat \<Rightarrow> xmemory \<Rightarrow> xmemory" where
  "map_shared a n s = s\<lparr>xm_mapped := (\<lambda>x. a \<le> x \<and> x < a + n \<or> xm_mapped s x),
     xm_shared := (\<lambda>x. if a \<le> x \<and> x < a + n then 0 else xm_shared s x)\<rparr>"

definition xm_finalize :: "cint \<Rightarrow> xmemory \<Rightarrow> xmemory result" where
  "xm_finalize me s = res_bind (on_globals_r (xp_finalize me) s) (on_pheap_r (xo_finalize me))"

definition xm_setThreadIndex :: "cint \<Rightarrow> int \<Rightarrow> xmemory \<Rightarrow> xmemory" where
  "xm_setThreadIndex me index s =
     (let s1 = on_pheap (xo_setThreadIndex me index) (on_globals (setThreadIndex me index) s)
      in s1\<lparr>xm_heapid := (xm_heapid s1)(me := nat (index mod int NUM_HEAPS))\<rparr>)"

definition xm_malloc :: "cint \<Rightarrow> ulong \<Rightarrow> xmemory \<Rightarrow> (ptr \<times> xmemory) result" where
  "xm_malloc me sz s =
     res_bind (xadapt_malloc (xo_malloc me) PROTECTEDHEAP_CHUNK (xm_heapid s me) sz (xm_pheap s))
       (\<lambda>(p, h). Inr (p, s\<lparr>xm_pheap := h\<rparr>))"

text \<open>
  An allocation in two parts, for the engine: whether the heap needs a new chunk (its free list is empty and its arena too small),
  and the allocation up to the point where the mutex of the source is released, which leaves the ownership of the chunk to be recorded.
\<close>

definition zone_asks :: "ulong \<Rightarrow> 'w heap \<Rightarrow> bool" where
  "zone_asks sz h = (case currentArena (kz h) of Some a \<Rightarrow> \<not> align sz \<le> sizeRemaining a h | None \<Rightarrow> True)"

definition heap_asks :: "ulong \<Rightarrow> 'w heap \<Rightarrow> bool" where
  "heap_asks sz0 h =
     (let sz = align (if sz0 < 16 then 16 else sz0); hdr = word_of_nat sizeof_header
      in if sz \<le> maxObjectSize
         then fst (adapt_malloc (nat (size2Class sz)) h) = None \<and> zone_asks (class2Size (size2Class sz) + hdr) h
         else zone_asks (sz + hdr) h)"

definition xm_asks :: "cint \<Rightarrow> ulong \<Rightarrow> xmemory \<Rightarrow> bool" where
  "xm_asks me sz s = heap_asks sz (pp_view (xm_heapid s me) (xm_pheap s))"

definition xo_bump :: "ulong \<Rightarrow> pheap_source \<Rightarrow> (ptr \<times> pheap_source) result" where
  "xo_bump sz s =
     (case s of (x, w) \<Rightarrow> res_bind (xheap_sanityCheck x) (\<lambda>_.
        res_bind (xheap_bump (round_pages sz) x) (\<lambda>(p, x1). Inr (Some p, x1, w))))"

definition xo_own :: "cint \<Rightarrow> nat \<Rightarrow> nat \<Rightarrow> pheap_source \<Rightarrow> pheap_source result" where
  "xo_own me p n s = (case s of (x, w) \<Rightarrow> res_bind (setOwnedPage me p n w) (\<lambda>w1. Inr (x, w1)))"

definition xm_own :: "cint \<Rightarrow> nat \<Rightarrow> nat \<Rightarrow> xmemory \<Rightarrow> xmemory result" where
  "xm_own me a n s =
     res_bind (xo_own me a n (pp_source (xm_pheap s))) (\<lambda>src. Inr (s\<lparr>xm_pheap := (xm_pheap s)\<lparr>pp_source := src\<rparr>\<rparr>))"

definition xm_malloc_bump :: "cint \<Rightarrow> ulong \<Rightarrow> xmemory \<Rightarrow> (ptr \<times> xmemory) result" where
  "xm_malloc_bump me sz s =
     res_bind (xadapt_malloc xo_bump PROTECTEDHEAP_CHUNK (xm_heapid s me) sz (xm_pheap s))
       (\<lambda>(p, h). Inr (p, s\<lparr>xm_pheap := h\<rparr>))"

definition xm_free :: "cint \<Rightarrow> ptr \<Rightarrow> xmemory \<Rightarrow> xmemory result" where
  "xm_free me p s = res_bind (xadapt_free (xm_heapid s me) p (xm_pheap s)) (\<lambda>h. Inr (s\<lparr>xm_pheap := h\<rparr>))"

definition xm_getSize :: "ptr \<Rightarrow> xmemory \<Rightarrow> ulong result" where
  "xm_getSize p s = xadapt_getSize p (xm_pheap s)"

definition pp_copy :: "nat \<Rightarrow> nat \<Rightarrow> nat \<Rightarrow> 'w ppheap \<Rightarrow> 'w ppheap" where
  "pp_copy dst src n p = p\<lparr>pp_mem := memcpy dst src n (pp_mem p) (pp_mem p)\<rparr>"

definition xm_realloc :: "cint \<Rightarrow> ptr \<Rightarrow> ulong \<Rightarrow> xmemory \<Rightarrow> (ptr \<times> xmemory) result" where
  "xm_realloc me p sz s =
     res_bind (xm_getSize p s) (\<lambda>osz.
     res_bind (xm_malloc me sz s) (\<lambda>(newptr, s1).
     let copySz = (if osz < sz then osz else sz);
         s2 = (case (newptr, p) of
                 (Some n, Some old) \<Rightarrow> s1\<lparr>xm_pheap := pp_copy n old (unat copySz) (xm_pheap s1)\<rparr>
               | _ \<Rightarrow> s1)
     in res_bind (xm_free me p s2) (\<lambda>s3. Inr (newptr, s3))))"

definition xm_openProtection :: "cint \<Rightarrow> xmemory \<Rightarrow> xmemory result" where
  "xm_openProtection me s =
     res_bind (on_globals_r (openProtection me 0) s)
       (\<lambda>s1. on_pheap_r (xo_openProtection me (xo_getend (pp_source (xm_pheap s1)))) s1)"

definition xm_closeProtection :: "cint \<Rightarrow> xmemory \<Rightarrow> xmemory result" where
  "xm_closeProtection me s = res_bind (on_globals_r (closeProtection me) s) (on_pheap_r (xo_closeProtection me))"

definition xm_begin :: "cint \<Rightarrow> bool \<Rightarrow> xmemory \<Rightarrow> xmemory result" where
  "xm_begin me cleanup s = on_pheap_r (xo_begin me cleanup) (on_globals (xp_begin me cleanup) s)"

definition xm_mem_write :: "cint \<Rightarrow> nat \<Rightarrow> ulong \<Rightarrow> xmemory \<Rightarrow> xmemory" where
  "xm_mem_write me dest val s =
     (if xo_inRange me dest (pp_source (xm_pheap s)) then on_pheap (xo_mem_write me dest val) s
      else if inRange me dest (xm_globals s) then on_globals (xp_mem_write me dest val) s
      else s)"

text \<open>An address in neither region is reported on stderr; the assertion after it is compiled out.\<close>

definition xm_handleWrite :: "cint \<Rightarrow> nat \<Rightarrow> xmemory \<Rightarrow> xmemory result" where
  "xm_handleWrite me addr s =
     (if xo_inRange me addr (pp_source (xm_pheap s)) then on_pheap_r (xo_handleWrite me addr) s
      else if inRange me addr (xm_globals s) then on_globals_r (handleWrite me addr) s
      else Inr s)"

definition xm_commit :: "cint \<Rightarrow> bool \<Rightarrow> xmemory \<Rightarrow> xmemory result" where
  "xm_commit me update s = res_bind (on_pheap_r (xo_checkandcommit me update) s) (on_globals_r (checkandcommit me update))"

definition xm_forceCommit :: "cint \<Rightarrow> cint \<Rightarrow> xmemory \<Rightarrow> xmemory" where
  "xm_forceCommit me pid s = on_pheap (xo_forceCommit me pid (xo_getend (pp_source (xm_pheap s)))) s"

definition xm_cleanupOwnedBlocks :: "cint \<Rightarrow> xmemory \<Rightarrow> xmemory" where
  "xm_cleanupOwnedBlocks me = on_pheap (xo_cleanupOwnedBlocks me)"

definition xm_commitOwnedPage :: "cint \<Rightarrow> nat \<Rightarrow> bool \<Rightarrow> xmemory \<Rightarrow> xmemory" where
  "xm_commitOwnedPage me page_no set_shared = on_pheap (xo_commitOwnedPage me page_no set_shared)"

definition xm_finalcommit :: "cint \<Rightarrow> bool \<Rightarrow> xmemory \<Rightarrow> xmemory" where
  "xm_finalcommit me release = on_pheap (xo_finalcommit me release)"

section \<open>Signal handlers\<close>

datatype si_code = SEGV_ACCERR | SEGV_MAPERR | SEGV_OTHER

definition segvHandle :: "cint \<Rightarrow> si_code \<Rightarrow> nat \<Rightarrow> xmemory \<Rightarrow> xmemory result" where
  "segvHandle me code addr s =
     (case code of SEGV_ACCERR \<Rightarrow> xm_handleWrite me addr s
      | SEGV_MAPERR \<Rightarrow> Inl Aborted
      | SEGV_OTHER \<Rightarrow> Inl Aborted)"

definition signalHandler :: "cint \<Rightarrow> nat \<Rightarrow> xmemory \<Rightarrow> xmemory" where
  "signalHandler me page_no s = xm_commitOwnedPage me page_no True s"

end
