(* ===== verification/SyncVar.thy ===== *)
theory SyncVar
  imports Xmemory
begin

text \<open>
  Words of the program's memory. The synchronisation layer keeps a pointer to its own record in the first word of every mutex,
  condition variable and barrier (\<open>getSyncEntry\<close>, \<open>setSyncEntry\<close> and \<open>clearSyncEntry\<close> of \<open>src/include/determ.h\<close>): it stores the word as the
  program would, through the page-fault handler, and a second time into the shared copy of the page.
\<close>

section \<open>Loads and stores of a process\<close>

definition region_load :: "cint \<Rightarrow> nat \<Rightarrow> world \<Rightarrow> byte" where
  "region_load me a w =
     local_page me (computePage (a - xp_base (locals w me))) w ((a - xp_base (locals w me)) mod PageSize)"

definition xm_load :: "cint \<Rightarrow> nat \<Rightarrow> xmemory \<Rightarrow> byte" where
  "xm_load me a s =
     (if xo_inRange me a (pp_source (xm_pheap s)) then region_load me a (heap_world s)
      else if inRange me a (xm_globals s) then region_load me a (xm_globals s)
      else if xm_mapped s a then xm_shared s a
      else xm_other s me a)"

definition xm_load64 :: "cint \<Rightarrow> nat \<Rightarrow> xmemory \<Rightarrow> ulong" where
  "xm_load64 me a s = load64 a (\<lambda>b. xm_load me b s)"

text \<open>
  A store of an aligned word is one instruction: it faults until its page is writable (three attempts are enough, see
  \<open>user_store_succeeds\<close>), then all eight bytes are written.
\<close>

definition write_word :: "cint \<Rightarrow> nat \<Rightarrow> nat \<Rightarrow> ulong \<Rightarrow> nat list \<Rightarrow> world \<Rightarrow> world" where
  "write_word me p off v ks = fold (\<lambda>k. write_byte me p (off + k) (byte_of v k)) ks"

definition region_store64 :: "cint \<Rightarrow> nat \<Rightarrow> ulong \<Rightarrow> world \<Rightarrow> world result" where
  "region_store64 me a v w =
     (case user_store 3 me a (byte_of v 0) w of
        None \<Rightarrow> Inl Aborted
      | Some r \<Rightarrow> res_bind r (\<lambda>w1. Inr (write_word me (computePage (a - xp_base (locals w1 me)))
                     ((a - xp_base (locals w1 me)) mod PageSize) v [1..<8] w1)))"

text \<open>Outside both regions memory is private to a process, but for what was mapped \<open>MAP_SHARED\<close>.\<close>

definition xm_elsewhere :: "cint \<Rightarrow> nat \<Rightarrow> (mem \<Rightarrow> mem) \<Rightarrow> xmemory \<Rightarrow> xmemory" where
  "xm_elsewhere me a g s =
     (if xm_mapped s a then s\<lparr>xm_shared := g (xm_shared s)\<rparr> else s\<lparr>xm_other := (xm_other s)(me := g (xm_other s me))\<rparr>)"

definition xm_store64 :: "cint \<Rightarrow> nat \<Rightarrow> ulong \<Rightarrow> xmemory \<Rightarrow> xmemory result" where
  "xm_store64 me a v s =
     (if xo_inRange me a (pp_source (xm_pheap s)) then on_pheap_r (on_world_r (region_store64 me a v)) s
      else if inRange me a (xm_globals s) then on_globals_r (region_store64 me a v) s
      else Inr (xm_elsewhere me a (store64 a v) s))"

section \<open>Synchronisation entries\<close>

definition getSyncEntry :: "cint \<Rightarrow> nat \<Rightarrow> xmemory \<Rightarrow> ptr" where
  "getSyncEntry me entry s = dec (xm_load64 me entry s)"

definition setSyncEntry :: "cint \<Rightarrow> nat \<Rightarrow> nat \<Rightarrow> xmemory \<Rightarrow> xmemory result" where
  "setSyncEntry me origentry newentry s =
     res_bind (xm_store64 me origentry (word_of_nat newentry) s)
       (\<lambda>s1. Inr (xm_mem_write me origentry (word_of_nat newentry) s1))"

text \<open>The word is cleared in the private copy; the second write goes to the address read back, which is NULL by then.\<close>

definition clearSyncEntry :: "cint \<Rightarrow> nat \<Rightarrow> xmemory \<Rightarrow> xmemory result" where
  "clearSyncEntry me origentry s =
     res_bind (xm_store64 me origentry 0 s)
       (\<lambda>s1. Inr (xm_mem_write me (unat (xm_load64 me origentry s1)) 0 s1))"

section \<open>A stored word is read back\<close>

lemma handleWrite_frame:
  assumes "handleWrite me a w = Inr w'"
  shows "xp_base (locals w' q) = xp_base (locals w q) \<and> xp_size (locals w' q) = xp_size (locals w q)
     \<and> m_shared (transient (locals w' q) r) = m_shared (transient (locals w q) r)"
proof -
  have ad: "xp_base (locals v' q) = xp_base (locals v q) \<and> xp_size (locals v' q) = xp_size (locals v q)
     \<and> m_shared (transient (locals v' q) r) = m_shared (transient (locals v q) r)" if "add_dirty me p v = Inr v'" for p v v'
  proof -
    from that obtain i pl where "v' = on_lo me (\<lambda>l. l\<lparr>dirtiedPagesList := multimap_insert (p, i) (dirtiedPagesList l)\<rparr>)
        (on_pool me (\<lambda>_. pl) (increment_users p v))"
      by (auto simp: add_dirty_def Let_def res_bind_Inr)
    then show ?thesis by (simp add: increment_users_def)
  qed
  have sp: "xp_base (locals (setSharedPage p r' v) u) = xp_base (locals v u)
     \<and> xp_size (locals (setSharedPage p r' v) u) = xp_size (locals v u)
     \<and> transient (locals (setSharedPage p r' v) u) = transient (locals v u)" for p r' v u
    by (simp add: setSharedPage_def)
  have co: "xp_base (locals (commitOwnedPage p r' b v) q) = xp_base (locals v q)
     \<and> xp_size (locals (commitOwnedPage p r' b v) q) = xp_size (locals v q)
     \<and> m_shared (transient (locals (commitOwnedPage p r' b v) q) r) = m_shared (transient (locals v q) r)" for p r' b v
    by (simp add: sp commitOwnedPage_def Let_def madvise_dontneed_def bump_version_def put_share_def)
  have cn: "xp_base (locals ((commitOwnedPage p r' True ^^ n) v) q) = xp_base (locals v q)
     \<and> xp_size (locals ((commitOwnedPage p r' True ^^ n) v) q) = xp_size (locals v q)
     \<and> m_shared (transient (locals ((commitOwnedPage p r' True ^^ n) v) q) r) = m_shared (transient (locals v q) r)" for p r' n v
    by (induction n) (simp_all add: co)
  have no: "xp_base (locals (notifyOwnerToCommit me p v) q) = xp_base (locals v q)
     \<and> xp_size (locals (notifyOwnerToCommit me p v) q) = xp_size (locals v q)
     \<and> m_shared (transient (locals (notifyOwnerToCommit me p v) q) r) = m_shared (transient (locals v q) r)" for p v
    using cn by (simp add: sp notifyOwnerToCommit_def Let_def del: funpow.simps)
  have mr: "xp_size (locals (mprotectRead me p v) q) = xp_size (locals v q)
     \<and> m_shared (transient (locals (mprotectRead me p v) q) r) = m_shared (transient (locals v q) r)"
    "xp_size (locals (mprotectWrite me p v) q) = xp_size (locals v q)
     \<and> m_shared (transient (locals (mprotectWrite me p v) q) r) = m_shared (transient (locals v q) r)" for p v
    by (simp_all add: mprotectRead_def mprotectWrite_def mprotect_def)
  show ?thesis
    using assms mr no co by (auto simp: handleWrite_def Let_def dest!: ad split: if_splits)
qed

text \<open>Whatever the number of faults, the store that finally succeeds is one byte written to a writable page.\<close>

lemma user_store_end:
  assumes "user_store n me a b w = Some (Inr w')"
  shows "\<exists>w1. w' = write_byte me (computePage (a - xp_base (locals w me))) ((a - xp_base (locals w me)) mod PageSize) b w1
     \<and> (\<forall>q. xp_base (locals w1 q) = xp_base (locals w q) \<and> xp_size (locals w1 q) = xp_size (locals w q)
         \<and> (\<forall>r. m_shared (transient (locals w1 q) r) = m_shared (transient (locals w q) r)))"
  using assms
proof (induction n me a b w rule: user_store.induct)
  case (2 n me a b w)
  show ?case
  proof (cases "m_prot (transient (locals w me) (computePage (a - xp_base (locals w me)))) = PROT_READ_WRITE")
    case True
    with "2.prems" show ?thesis by (auto simp: Let_def)
  next
    case False
    with "2.prems" obtain w1 where w1: "handleWrite me a w = Inr w1" "user_store n me a b w1 = Some (Inr w')"
      by (auto simp: Let_def split: sum.splits)
    from "2.IH" [OF refl False w1] handleWrite_frame [OF w1(1)] show ?thesis by simp
  qed
qed simp

definition private_page :: "cint \<Rightarrow> nat \<Rightarrow> world \<Rightarrow> bool" where
  "private_page me p w \<longleftrightarrow> \<not> m_shared (transient (locals w me) p)"

lemma write_byte_private:
  assumes "private_page me p w"
  shows "private_page me p (write_byte me p k b w)"
    and "m_copy (transient (locals (write_byte me p k b w) me) p) = Some ((local_page me p w)(k := b))"
    and "xp_base (locals (write_byte me p k b w) q) = xp_base (locals w q)"
    and "xp_size (locals (write_byte me p k b w) q) = xp_size (locals w q)"
  using assms by (simp_all add: private_page_def write_byte_def)

lemma write_byte_view:
  assumes "private_page me p w" and "k < PageSize"
  shows "local_page me p (write_byte me p k b w) = (local_page me p w)(k := b)"
proof -
  have "clip (local_page me p w) = local_page me p w"
    by (auto simp: local_page_def share_page_def page_at_def clip_def split: option.splits)
  then show ?thesis
    unfolding local_page_def [of _ _ "write_byte me p k b w"] write_byte_private(2) [OF assms(1)] option.case
    using assms(2) by (auto simp: clip_def fun_eq_iff split: if_splits)
qed

lemma write_word_view:
  assumes "private_page me p w" and "\<And>k. k \<in> set ks \<Longrightarrow> off + k < PageSize"
  shows "private_page me p (write_word me p off v ks w)
    \<and> local_page me p (write_word me p off v ks w) =
        (\<lambda>x. if \<exists>k\<in>set ks. x = off + k then byte_of v (x - off) else local_page me p w x)
    \<and> xp_base (locals (write_word me p off v ks w) q) = xp_base (locals w q)
    \<and> xp_size (locals (write_word me p off v ks w) q) = xp_size (locals w q)
    \<and> (m_copy (transient (locals w me) p) \<noteq> None \<longrightarrow> m_copy (transient (locals (write_word me p off v ks w) me) p) \<noteq> None)"
  using assms
proof (induction ks arbitrary: w)
  case Nil
  then show ?case by (simp add: write_word_def)
next
  case (Cons k ks)
  let ?w1 = "write_byte me p (off + k) (byte_of v k) w"
  have eq: "write_word me p off v (k # ks) w = write_word me p off v ks ?w1" by (simp add: write_word_def)
  note ih = Cons.IH [OF write_byte_private(1) [OF Cons.prems(1)] Cons.prems(2)]
  have "off + k < PageSize" using Cons.prems(2) by simp
  note view = write_byte_view [OF Cons.prems(1) this]
  show ?case
    unfolding eq using ih write_byte_private(2-) [OF Cons.prems(1)] view by (auto simp: fun_eq_iff)
qed

text \<open>The process that stores finds a private mapping of the page, a free page record and a page owner that is a pid.\<close>

definition storable :: "cint \<Rightarrow> nat \<Rightarrow> world \<Rightarrow> bool" where
  "storable me a w \<longleftrightarrow> (let off = a - xp_base (locals w me); p = computePage off in
     pe_wf (pools w me) \<and> pe_cur (pools w me) < PAGE_ENTRY_NUM \<and> pageInfo (locals w me) p \<le> PAGE_ACCESS_WRITE
     \<and> private_page me p w \<and> pageOwner (sh w) p < 2 ^ 32 \<and> off mod PageSize + 8 \<le> PageSize)"

lemma region_store64_view:
  assumes "storable me a w"
  shows "\<exists>w'. region_store64 me a v w = Inr w' \<and> (\<forall>k<8. region_load me (a + k) w' = byte_of v k \<or> a < xp_base (locals w me))
    \<and> private_page me (computePage (a - xp_base (locals w me))) w'
    \<and> m_copy (transient (locals w' me) (computePage (a - xp_base (locals w me)))) \<noteq> None
    \<and> (\<forall>q. xp_base (locals w' q) = xp_base (locals w q) \<and> xp_size (locals w' q) = xp_size (locals w q))"
proof -
  let ?d = "a - xp_base (locals w me)"
  let ?p = "computePage ?d" and ?o = "?d mod PageSize"
  from assms have st: "pe_wf (pools w me)" "pe_cur (pools w me) < PAGE_ENTRY_NUM" "pageInfo (locals w me) ?p \<le> PAGE_ACCESS_WRITE"
    "\<not> m_shared (transient (locals w me) ?p)" "pageOwner (sh w) ?p < 2 ^ 32" "?o + 8 \<le> PageSize"
    by (simp_all add: storable_def Let_def private_page_def)
  from user_store_succeeds [OF refl st(1-5), of "byte_of v 0"] obtain w1
    where w1: "user_store 3 me a (byte_of v 0) w = Some (Inr w1)" "local_page me ?p w1 ?o = byte_of v 0" by blast
  from user_store_end [OF w1(1)] obtain w0 where w0: "w1 = write_byte me ?p ?o (byte_of v 0) w0"
    "\<forall>q. xp_base (locals w0 q) = xp_base (locals w q) \<and> xp_size (locals w0 q) = xp_size (locals w q)
       \<and> (\<forall>r. m_shared (transient (locals w0 q) r) = m_shared (transient (locals w q) r))" by blast
  have pv: "private_page me ?p w0" using w0(2) st(4) by (simp add: private_page_def)
  note wb = write_byte_private [OF pv, of ?o "byte_of v 0", folded w0(1)]
  have base: "xp_base (locals w1 q) = xp_base (locals w q)" "xp_size (locals w1 q) = xp_size (locals w q)" for q
    using wb(3,4) w0(2) by simp_all
  let ?w' = "write_word me ?p ?o v [1..<8] w1"
  have eq: "region_store64 me a v w = Inr ?w'" by (simp add: region_store64_def w1(1) base)
  have "?o + k < PageSize" if "k \<in> set [1..<8]" for k using that st(6) by auto
  note ww = write_word_view [OF wb(1) this, of "[1..<8]" v]
  have "region_load me (a + k) ?w' = byte_of v k" if k: "k < 8" "\<not> a < xp_base (locals w me)" for k
  proof -
    have d: "a + k - xp_base (locals w me) = ?d + k" using k by simp
    have m: "(?d + k) mod PageSize = ?o + k" "computePage (?d + k) = ?p"
    proof -
      have "?o + k < PageSize" using st(6) k by simp
      then show "(?d + k) mod PageSize = ?o + k"
        by (metis mod_add_left_eq mod_less)
      have "?d + k = PageSize * ?p + (?o + k)" by (simp add: computePage_def)
      moreover have "(?o + k + PageSize * ?p) div PageSize = ?p"
        using \<open>?o + k < PageSize\<close> by (subst div_mult_self2) (simp_all add: PageSize_def)
      ultimately show "computePage (?d + k) = ?p" by (simp add: computePage_def ac_simps)
    qed
    have "local_page me ?p ?w' (?o + k) = byte_of v k"
      using ww w1(2) k by (cases "k = 0") auto
    then show ?thesis unfolding region_load_def using ww base d m by simp
  qed
  moreover have "private_page me ?p ?w' \<and> m_copy (transient (locals ?w' me) ?p) \<noteq> None" using ww wb(2) by simp
  moreover have "xp_base (locals ?w' q) = xp_base (locals w q) \<and> xp_size (locals ?w' q) = xp_size (locals w q)" for q
    using write_word_view [OF wb(1), of "[1..<8]" ?o v q] st(6) base by simp
  ultimately show ?thesis using eq by blast
qed

section \<open>The shared copy\<close>

lemma load64_bytes: "(\<And>k. k < 8 \<Longrightarrow> m (a + k) = byte_of v k) \<Longrightarrow> load64 a m = v"
proof -
  assume "\<And>k. k < 8 \<Longrightarrow> m (a + k) = byte_of v k"
  then have "load64 a m = load64 a (store64 a v m)" unfolding load64_eq_iff by (simp add: store64_def)
  then show ?thesis by simp
qed

lemma region_sync:
  assumes "storable me a w" and "xp_base (locals w me) \<le> a"
  shows "\<exists>w1. region_store64 me a v w = Inr w1
     \<and> (\<forall>k<8. region_load me (a + k) (xp_mem_write me a u w1) = byte_of v k)
     \<and> load64 (a - xp_base (locals w me)) (persistentMemory (sh (xp_mem_write me a u w1))) = u
     \<and> (\<forall>k<8. region_load me (a + k) w1 = byte_of v k)
     \<and> (\<forall>q. xp_base (locals w1 q) = xp_base (locals w q) \<and> xp_size (locals w1 q) = xp_size (locals w q))"
proof -
  let ?d = "a - xp_base (locals w me)"
  from region_store64_view [OF assms(1), of v] assms(2) obtain w1 where w1: "region_store64 me a v w = Inr w1"
    "\<forall>k<8. region_load me (a + k) w1 = byte_of v k"
    "m_copy (transient (locals w1 me) (computePage ?d)) \<noteq> None"
    "\<forall>q. xp_base (locals w1 q) = xp_base (locals w q) \<and> xp_size (locals w1 q) = xp_size (locals w q)" by fastforce
  have page: "computePage (a + k - xp_base (locals w me)) = computePage ?d" if "k < 8" for k
  proof -
    have lt: "?d mod PageSize + k < PageSize" using assms(1) that by (auto simp: storable_def Let_def)
    have "(?d mod PageSize + k + PageSize * computePage ?d) div PageSize = computePage ?d"
      using lt by (subst div_mult_self2) (simp_all add: PageSize_def)
    then show ?thesis using assms(2) by (simp add: computePage_def ac_simps)
  qed
  have "region_load me (a + k) (xp_mem_write me a u w1) = byte_of v k" if k: "k < 8" for k
  proof -
    have "region_load me (a + k) (xp_mem_write me a u w1) = region_load me (a + k) w1"
      using w1(3,4) page [OF k] by (auto simp: region_load_def xp_mem_write_def local_page_def split: option.splits)
    then show ?thesis using w1(2) k by simp
  qed
  moreover have "load64 ?d (persistentMemory (sh (xp_mem_write me a u w1))) = u"
    using w1(4) by (simp add: xp_mem_write_def)
  ultimately show ?thesis using w1 by blast
qed

text \<open>The word of a synchronisation variable in the heap, as the next transactions of all processes will find it.\<close>

definition shared_word :: "cint \<Rightarrow> nat \<Rightarrow> xmemory \<Rightarrow> ulong" where
  "shared_word me a s = load64 (a - xp_base (locals (heap_world s) me)) (persistentMemory (sh (heap_world s)))"

definition heap_word :: "cint \<Rightarrow> nat \<Rightarrow> xmemory \<Rightarrow> bool" where
  "heap_word me a s \<longleftrightarrow> xp_base (locals (heap_world s) me) \<le> a
     \<and> a + 8 \<le> xp_base (locals (heap_world s) me) + xp_size (locals (heap_world s) me) \<and> storable me a (heap_world s)"

lemma heap_world_put [simp]: "heap_world (put_source src s) = snd src"
  by (simp add: heap_world_def put_source_def)

lemma pp_source_put [simp]: "pp_source (xm_pheap (put_source src s)) = src"
  by (simp add: put_source_def)

lemma xm_load_heap:
  "xp_base (locals (heap_world s) me) \<le> a \<Longrightarrow> a < xp_base (locals (heap_world s) me) + xp_size (locals (heap_world s) me)
   \<Longrightarrow> xm_load me a s = region_load me a (heap_world s)"
  by (simp add: xm_load_def xo_inRange_def inRange_def heap_world_def)

lemma xm_mem_write_heap:
  assumes "xp_base (locals (heap_world s) me) \<le> a"
    and "a < xp_base (locals (heap_world s) me) + xp_size (locals (heap_world s) me)"
  shows "xm_mem_write me a v s = put_source (fst (pp_source (xm_pheap s)), xp_mem_write me a v (heap_world s)) s"
  using assms by (simp add: xm_mem_write_def xo_inRange_def inRange_def on_pheap_def xo_mem_write_def on_world_def heap_world_def)

lemma xm_store64_heap:
  assumes hw: "heap_word me a s"
  shows "\<exists>w1. xm_store64 me a v s = Inr (put_source (fst (pp_source (xm_pheap s)), w1) s)
     \<and> region_store64 me a v (heap_world s) = Inr w1"
proof -
  from region_store64_view [of me a "heap_world s" v] hw obtain w1 where "region_store64 me a v (heap_world s) = Inr w1"
    by (auto simp: heap_word_def)
  with hw show ?thesis
    by (simp add: xm_store64_def xo_inRange_def inRange_def heap_word_def on_pheap_r_def on_world_r_def heap_world_def)
qed

lemma setSyncEntry_get:
  assumes hw: "heap_word me a s" and e: "0 < e" "e < 2 ^ 64"
  shows "\<exists>s'. setSyncEntry me a e s = Inr s' \<and> getSyncEntry me a s' = Some e \<and> shared_word me a s' = word_of_nat e"
proof -
  let ?v = "word_of_nat e :: ulong"
  have v: "?v \<noteq> 0" "unat ?v = e" using e unat_of_nat_small [of e, where 'a = 64] by (auto simp: word_unat_eq_iff)
  have lo: "xp_base (locals (heap_world s) me) \<le> a" and st: "storable me a (heap_world s)"
    and hi: "a + 8 \<le> xp_base (locals (heap_world s) me) + xp_size (locals (heap_world s) me)"
    using hw by (simp_all add: heap_word_def)
  from xm_store64_heap [OF hw, of ?v] region_sync [OF st lo, of ?v ?v] obtain w1
    where s1: "xm_store64 me a ?v s = Inr (put_source (fst (pp_source (xm_pheap s)), w1) s)"
      and w1: "\<forall>k<8. region_load me (a + k) (xp_mem_write me a ?v w1) = byte_of ?v k"
        "load64 (a - xp_base (locals (heap_world s) me)) (persistentMemory (sh (xp_mem_write me a ?v w1))) = ?v"
        "\<forall>q. xp_base (locals w1 q) = xp_base (locals (heap_world s) q) \<and> xp_size (locals w1 q) = xp_size (locals (heap_world s) q)"
    by fastforce
  let ?s1 = "put_source (fst (pp_source (xm_pheap s)), w1) s"
  let ?s2 = "put_source (fst (pp_source (xm_pheap s)), xp_mem_write me a ?v w1) ?s1"
  have "xm_mem_write me a ?v ?s1 = ?s2"
    using xm_mem_write_heap [of ?s1 me a ?v] lo hi w1(3) by simp
  then have eq: "setSyncEntry me a e s = Inr ?s2" by (simp add: setSyncEntry_def s1)
  have b: "xp_base (locals (xp_mem_write me a ?v w1) me) = xp_base (locals (heap_world s) me)"
    "xp_size (locals (xp_mem_write me a ?v w1) me) = xp_size (locals (heap_world s) me)"
    using w1(3) by (simp_all add: xp_mem_write_def)
  have "xm_load me (a + k) ?s2 = byte_of ?v k" if "k < 8" for k
    using xm_load_heap [of ?s2 me "a + k"] lo hi that w1(1) b by simp
  then have "xm_load64 me a ?s2 = ?v" unfolding xm_load64_def by (rule load64_bytes)
  then have "getSyncEntry me a ?s2 = Some e" using v by (simp add: getSyncEntry_def dec_def)
  moreover have "shared_word me a ?s2 = ?v" using w1(2) b by (simp add: shared_word_def)
  ultimately show ?thesis using eq by blast
qed

lemma write_word_shared:
  assumes "private_page me p w" and "\<And>k. k \<in> set ks \<Longrightarrow> off + k < PageSize"
  shows "sh (write_word me p off v ks w) = sh w"
  using assms
proof (induction ks arbitrary: w)
  case (Cons k ks)
  let ?w1 = "write_byte me p (off + k) (byte_of v k) w"
  have "sh ?w1 = sh w" using Cons.prems(1) by (simp add: write_byte_def private_page_def)
  with Cons.IH [OF write_byte_private(1) [OF Cons.prems(1)] Cons.prems(2)] show ?case by (simp add: write_word_def)
qed (simp add: write_word_def)

text \<open>A store to a page the process may read, and does not own with changes to publish, leaves the shared copy alone.\<close>

lemma region_store64_shared:
  assumes st: "storable me a w" and rd: "pageInfo (locals w me) (computePage (a - xp_base (locals w me))) = PAGE_ACCESS_READ"
    and r: "region_store64 me a v w = Inr w'"
  shows "share_page p w' = share_page p w"
proof -
  let ?p = "computePage (a - xp_base (locals w me))"
  let ?o = "(a - xp_base (locals w me)) mod PageSize"
  have pv: "private_page me ?p w" and pe: "pe_wf (pools w me)" "pe_cur (pools w me) < PAGE_ENTRY_NUM" and o: "?o + 8 \<le> PageSize"
    using st by (simp_all add: storable_def Let_def)
  have "\<exists>w0. user_store 3 me a (byte_of v 0) w = Some (Inr (write_byte me ?p ?o (byte_of v 0) w0))
     \<and> private_page me ?p w0 \<and> share_page p w0 = share_page p w \<and> xp_base (locals w0 me) = xp_base (locals w me)"
  proof (cases "m_prot (transient (locals w me) ?p) = PROT_READ_WRITE")
    case True
    then have "user_store 3 me a b w = Some (Inr (write_byte me ?p ?o b w))" for b by (simp add: numeral_3_eq_3 Let_def)
    then show ?thesis using pv by blast
  next
    case False
    have "PAGE_ACCESS_READ \<noteq> PAGE_ACCESS_WRITE" by (simp add: page_access_defs)
    with handleWrite_write [OF refl pe disjI1 [OF rd]] obtain w0 where w0: "handleWrite me a w = Inr w0"
      "m_prot (transient (locals w0 me) ?p) = PROT_READ_WRITE" "private_page me ?p w0"
      "xp_base (locals w0 me) = xp_base (locals w me)" "share_page p w0 = share_page p w"
      using pv unfolding rd private_page_def by auto
    have "user_store 3 me a b w = user_store 2 me a b w0" "user_store 2 me a b w0 = Some (Inr (write_byte me ?p ?o b w0))" for b
      using False w0(1,2,4) by (simp_all add: numeral_3_eq_3 numeral_2_eq_2 Let_def)
    then have "user_store 3 me a (byte_of v 0) w = Some (Inr (write_byte me ?p ?o (byte_of v 0) w0))" by simp
    with w0 show ?thesis by blast
  qed
  then obtain w0 where w0: "user_store 3 me a (byte_of v 0) w = Some (Inr (write_byte me ?p ?o (byte_of v 0) w0))"
    "private_page me ?p w0" "share_page p w0 = share_page p w" "xp_base (locals w0 me) = xp_base (locals w me)" by blast
  let ?w1 = "write_byte me ?p ?o (byte_of v 0) w0"
  note pb = write_byte_private [OF w0(2), of ?o "byte_of v 0"]
  have "w' = write_word me ?p ?o v [1..<8] ?w1"
    using r w0(1,4) pb(3) [of me] by (simp add: region_store64_def)
  moreover have "sh (write_word me ?p ?o v [1..<8] ?w1) = sh ?w1"
    by (rule write_word_shared [OF pb(1)]) (use o in auto)
  moreover have "sh ?w1 = sh w0" using w0(2) by (simp add: write_byte_def private_page_def)
  ultimately show ?thesis using w0(3) by (simp add: share_page_def)
qed

lemma share_page_word:
  assumes "\<And>p. share_page p w' = share_page p w"
  shows "load64 a (persistentMemory (sh w')) = load64 a (persistentMemory (sh w))"
proof -
  have "persistentMemory (sh w') x = persistentMemory (sh w) x" for x
  proof -
    have "share_page (x div PageSize) v (x mod PageSize) = persistentMemory (sh v) x" for v
      by (simp add: share_page_def page_at_def PageSize_def clip_def)
    from this [of w] this [of w'] show ?thesis by (simp only: assms)
  qed
  then have "persistentMemory (sh w') = persistentMemory (sh w)" by blast
  then show ?thesis by simp
qed

text \<open>
  \<open>clearSyncEntry\<close> clears the private word only: the shared copy of the page keeps the pointer to the record, which the caller
  frees (address 0 is in no region).
\<close>

lemma clearSyncEntry_keeps_shared:
  assumes hw: "heap_word me a s" and nz: "0 < xp_base (locals (heap_world s) me)" "0 < xp_base (locals (xm_globals s) me)"
    and rd: "pageInfo (locals (heap_world s) me) (computePage (a - xp_base (locals (heap_world s) me))) = PAGE_ACCESS_READ"
  shows "\<exists>s'. clearSyncEntry me a s = Inr s' \<and> getSyncEntry me a s' = None \<and> shared_word me a s' = shared_word me a s"
proof -
  have lo: "xp_base (locals (heap_world s) me) \<le> a" and st: "storable me a (heap_world s)"
    and hi: "a + 8 \<le> xp_base (locals (heap_world s) me) + xp_size (locals (heap_world s) me)"
    using hw by (simp_all add: heap_word_def)
  from xm_store64_heap [OF hw, of 0] obtain w1 where s1: "xm_store64 me a 0 s = Inr (put_source (fst (pp_source (xm_pheap s)), w1) s)"
    and r: "region_store64 me a 0 (heap_world s) = Inr w1" by blast
  obtain w where w: "region_store64 me a 0 (heap_world s) = Inr w" and w1: "\<forall>k<8. region_load me (a + k) w = byte_of (0 :: ulong) k"
    "\<forall>q. xp_base (locals w q) = xp_base (locals (heap_world s) q) \<and> xp_size (locals w q) = xp_size (locals (heap_world s) q)"
    using region_sync [OF st lo, of 0 0] by (elim exE conjE) (rule that)
  have "w = w1" using w r by simp
  note w1 = w1 [unfolded this]
  let ?s1 = "put_source (fst (pp_source (xm_pheap s)), w1) s"
  have "xm_load me (a + k) ?s1 = byte_of (0 :: ulong) k" if "k < 8" for k
  proof -
    have "xm_load me (a + k) ?s1 = region_load me (a + k) w1"
      using xm_load_heap [of ?s1 me "a + k"] lo hi that by (simp add: w1(2))
    then show ?thesis using w1(1) that by simp
  qed
  then have z: "xm_load64 me a ?s1 = 0" unfolding xm_load64_def by (rule load64_bytes)
  have "xm_mem_write me 0 0 ?s1 = ?s1"
    using nz w1(2) by (simp add: xm_mem_write_def xo_inRange_def inRange_def put_source_def share_pools_def)
  then have eq: "clearSyncEntry me a s = Inr ?s1" by (simp add: clearSyncEntry_def s1 z)
  have "shared_word me a ?s1 = shared_word me a s"
    using share_page_word [OF region_store64_shared [OF st rd r]] w1(2) by (simp add: shared_word_def)
  then show ?thesis using eq z by (simp add: getSyncEntry_def dec_def)
qed

end
