(* ===== verification/Links.thy ===== *)
theory Links
  imports Prelude
begin

text \<open>
  The circular doubly linked lists of \<open>src/include/list.h\<close>: every operation is translated over
  an explicit store of \<open>Entry\<close> nodes, pointer write by pointer write, in the order of the code.
  \<open>None\<close> is a dereference of NULL. The second half relates the store to plain lists: \<open>ring\<close> says
  that the nodes of a list are linked in a circle, and one lemma per operation gives its effect
  on that list and leaves every other node alone. The locale \<open>ring_ops\<close> states these laws as the
  contract the synchronisation layer relies on.
\<close>

section \<open>Nodes and the store\<close>

record entry =
  entry_prev :: ptr
  entry_next :: ptr

type_synonym links = "nat \<Rightarrow> entry"

definition set_next :: "nat \<Rightarrow> ptr \<Rightarrow> links \<Rightarrow> links" where
  "set_next a p h = h(a := (h a)\<lparr>entry_next := p\<rparr>)"

definition set_prev :: "nat \<Rightarrow> ptr \<Rightarrow> links \<Rightarrow> links" where
  "set_prev a p h = h(a := (h a)\<lparr>entry_prev := p\<rparr>)"

lemma next_set_next [simp]: "entry_next (set_next a p h b) = (if b = a then p else entry_next (h b))"
  and prev_set_next [simp]: "entry_prev (set_next a p h b) = entry_prev (h b)"
  and next_set_prev [simp]: "entry_next (set_prev a p h b) = entry_next (h b)"
  and prev_set_prev [simp]: "entry_prev (set_prev a p h b) = (if b = a then p else entry_prev (h b))"
  by (simp_all add: set_next_def set_prev_def)

lemma set_next_other [simp]: "b \<noteq> a \<Longrightarrow> set_next a p h b = h b"
  and set_prev_other [simp]: "b \<noteq> a \<Longrightarrow> set_prev a p h b = h b"
  by (simp_all add: set_next_def set_prev_def)

section \<open>The operations of list.h\<close>

definition isEmpty :: "ptr \<Rightarrow> bool" where
  "isEmpty head = (case head of None \<Rightarrow> True | Some _ \<Rightarrow> False)"

definition nextEntry :: "nat \<Rightarrow> links \<Rightarrow> ptr" where
  "nextEntry current h = entry_next (h current)"

definition moveWholeList :: "ptr \<Rightarrow> ptr \<Rightarrow> links \<Rightarrow> (ptr \<times> links) option" where
  "moveWholeList prv src h =
     (case src of
        None \<Rightarrow> Some (src, h)
      | Some srchead \<Rightarrow>
          (case prv of
             None \<Rightarrow> None
           | Some p \<Rightarrow>
               (case (entry_next (h p), entry_prev (h srchead)) of
                  (Some nx, Some srctail) \<Rightarrow>
                    (let h1 = set_prev nx (Some srctail) h;
                         h2 = set_prev srchead (Some p) h1;
                         h3 = set_next srctail (Some nx) h2;
                         h4 = set_next p (Some srchead) h3
                     in Some (None, h4))
                | _ \<Rightarrow> None)))"

definition insertTail :: "nat \<Rightarrow> ptr \<Rightarrow> links \<Rightarrow> (ptr \<times> links) option" where
  "insertTail e head h =
     (case head of
        None \<Rightarrow> Some (Some e, set_next e (Some e) (set_prev e (Some e) h))
      | Some header \<Rightarrow>
          (case entry_prev (h header) of
             None \<Rightarrow> None
           | Some tail \<Rightarrow>
               (let h1 = set_next tail (Some e) h;
                    h2 = set_prev header (Some e) h1;
                    h3 = set_prev e (Some tail) h2;
                    h4 = set_next e (Some header) h3
                in Some (head, h4))))"

definition insertHead :: "nat \<Rightarrow> ptr \<Rightarrow> links \<Rightarrow> links option" where
  "insertHead e head h =
     (case head of
        None \<Rightarrow> None
      | Some header \<Rightarrow>
          (case entry_next (h header) of
             None \<Rightarrow> None
           | Some nx \<Rightarrow>
               (let h1 = set_next header (Some e) h;
                    h2 = set_prev nx (Some e) h1;
                    h3 = set_prev e (Some header) h2;
                    h4 = set_next e (Some nx) h3
                in Some h4)))"

definition insertNext :: "nat \<Rightarrow> nat \<Rightarrow> links \<Rightarrow> links option" where
  "insertNext e prv h =
     (case entry_next (h prv) of
        None \<Rightarrow> None
      | Some nx \<Rightarrow>
          (let h1 = set_prev nx (Some e) h;
               h2 = set_prev e (Some prv) h1;
               h3 = set_next e (Some nx) h2;
               h4 = set_next prv (Some e) h3
           in Some h4))"

definition removeEntry :: "nat \<Rightarrow> ptr \<Rightarrow> links \<Rightarrow> (ptr \<times> links) option" where
  "removeEntry e head h =
     (let prv = entry_prev (h e); nx = entry_next (h e)
      in if prv = Some e \<and> nx = Some e then Some (None, h)
         else (case (prv, nx) of
                 (Some p, Some n) \<Rightarrow>
                   (let h1 = set_next p nx h;
                        h2 = set_prev n prv h1
                    in Some (if head = Some e then nx else head, h2))
               | _ \<Rightarrow> None))"

definition removeHeadEntry :: "ptr \<Rightarrow> links \<Rightarrow> (ptr \<times> ptr \<times> links) option" where
  "removeHeadEntry head h =
     (case head of
        None \<Rightarrow> Some (None, head, h)
      | Some header \<Rightarrow>
          (case removeEntry header head h of
             None \<Rightarrow> None
           | Some (head', h') \<Rightarrow> Some (Some header, head', h')))"

text \<open>
  \<open>printEntries\<close> walks the list from its head and prints at most ten entries; the model returns
  the entries it prints. The code dereferences \<open>entry->next\<close> and stops on NULL only at the start
  of an iteration.
\<close>

fun print_loop :: "nat \<Rightarrow> ptr \<Rightarrow> ptr \<Rightarrow> links \<Rightarrow> nat list" where
  "print_loop 0 first cur h = []"
| "print_loop (Suc n) first cur h =
     (case cur of
        None \<Rightarrow> []
      | Some e \<Rightarrow> e # (if entry_next (h e) \<noteq> first then print_loop n first (entry_next (h e)) h else []))"

definition printEntries :: "ptr \<Rightarrow> links \<Rightarrow> nat list" where
  "printEntries head h = print_loop 10 head head h"

section \<open>Rings: the abstraction to lists\<close>

fun linked :: "links \<Rightarrow> nat list \<Rightarrow> bool" where
  "linked h (x # y # zs) =
     (entry_next (h x) = Some y \<and> entry_prev (h y) = Some x \<and> linked h (y # zs))"
| "linked h _ = True"

definition ring :: "links \<Rightarrow> nat list \<Rightarrow> bool" where
  "ring h xs = (xs \<noteq> [] \<and> distinct xs \<and> linked h (xs @ [hd xs]))"

text \<open>\<open>ring_list h head xs\<close>: the list with head pointer \<open>head\<close> holds exactly \<open>xs\<close>, in order.\<close>

definition ring_list :: "links \<Rightarrow> ptr \<Rightarrow> nat list \<Rightarrow> bool" where
  "ring_list h head xs = (if xs = [] then head = None else head = Some (hd xs) \<and> ring h xs)"

lemma linked_snoc: "linked h (xs @ [a, b]) = (linked h (xs @ [a]) \<and> entry_next (h a) = Some b \<and> entry_prev (h b) = Some a)"
  by (induction h xs rule: linked.induct) auto

lemma linked_append: "linked h (xs @ a # ys) = (linked h (xs @ [a]) \<and> linked h (a # ys))"
  by (induction h xs rule: linked.induct) auto

text \<open>A store that agrees on the links between the nodes of a path keeps the path.\<close>

lemma linked_cong:
  assumes "\<And>x. x \<in> set (butlast xs) \<Longrightarrow> entry_next (h' x) = entry_next (h x)"
    and "\<And>x. x \<in> set (tl xs) \<Longrightarrow> entry_prev (h' x) = entry_prev (h x)"
  shows "linked h' xs = linked h xs"
  using assms
proof (induction h xs rule: linked.induct)
  case (1 h x y zs)
  have "linked h' (y # zs) = linked h (y # zs)"
    by (rule "1.IH") (use "1.prems" in \<open>cases zs; auto\<close>)+
  with "1.prems" show ?case by auto
qed auto

lemma ring_frame:
  assumes "ring h xs" and "\<And>x. x \<in> set xs \<Longrightarrow> h' x = h x"
  shows "ring h' xs"
proof -
  from assms(1) have ne: "xs \<noteq> []" by (simp add: ring_def)
  have "linked h' (xs @ [hd xs]) = linked h (xs @ [hd xs])"
    by (rule linked_cong) (use assms(2) ne in \<open>auto simp: butlast_append dest: in_set_butlastD list.set_sel(2) split: if_splits\<close>)
  with assms(1) show ?thesis by (simp add: ring_def)
qed

lemma ring_list_frame:
  assumes "ring_list h head xs" and "\<And>x. x \<in> set xs \<Longrightarrow> h' x = h x"
  shows "ring_list h' head xs"
  using assms by (auto simp: ring_list_def intro: ring_frame split: if_splits)


section \<open>Rings can be cut anywhere\<close>

lemma ring_hd_last:
  assumes "ring h xs"
  shows "entry_next (h (last xs)) = Some (hd xs)" "entry_prev (h (hd xs)) = Some (last xs)"
proof -
  from assms have ne: "xs \<noteq> []" and l: "linked h (xs @ [hd xs])" by (auto simp: ring_def)
  then obtain ys t where "xs = ys @ [t]" by (metis rev_exhaust)
  with l show "entry_next (h (last xs)) = Some (hd xs)" "entry_prev (h (hd xs)) = Some (last xs)"
    by (auto simp: linked_snoc)
qed

lemma ring_rotate1: "ring h (x # xs) \<Longrightarrow> ring h (xs @ [x])"
proof (cases xs)
  case (Cons y ys)
  assume "ring h (x # xs)"
  with Cons have "linked h (x # y # ys @ [x])" and d: "distinct (x # xs)"
    by (auto simp: ring_def)
  then have "entry_next (h x) = Some y" "entry_prev (h y) = Some x" "linked h (y # ys @ [x])" by auto
  then have "linked h ((y # ys) @ [x, y])" by (simp only: linked_snoc) simp
  with Cons d show ?thesis by (simp add: ring_def)
qed simp

lemma ring_rotate: "ring h (xs @ ys) \<Longrightarrow> ring h (ys @ xs)"
proof (induction xs arbitrary: ys)
  case (Cons x xs)
  from Cons.prems have "ring h ((xs @ ys) @ [x])" using ring_rotate1 by fastforce
  then have "ring h (xs @ (ys @ [x]))" by simp
  from Cons.IH [OF this] show ?case by simp
qed simp

lemma ring_rotateI: "ring h zs \<Longrightarrow> zs = xs @ ys \<Longrightarrow> ring h (ys @ xs)"
  by (simp add: ring_rotate)

lemma ring_next_Some: "ring h xs \<Longrightarrow> x \<in> set xs \<Longrightarrow> \<exists>y. entry_next (h x) = Some y \<and> y \<in> set xs"
proof -
  assume r: "ring h xs" and "x \<in> set xs"
  then obtain as bs where "xs = as @ x # bs" by (meson split_list)
  with r have "ring h ((bs @ as) @ [x])" using ring_rotateI [of h xs "as @ [x]" bs] by simp
  from ring_hd_last(1) [OF this] have "entry_next (h x) = Some (hd ((bs @ as) @ [x]))" by simp
  moreover have "hd ((bs @ as) @ [x]) \<in> set xs" using \<open>xs = as @ x # bs\<close>
    by (cases bs; cases as; simp)
  ultimately show ?thesis by blast
qed

text \<open>The successor in the ring is the successor in the list, cyclically.\<close>

lemma ring_next: "ring h (x # xs) \<Longrightarrow> entry_next (h x) = Some (hd (xs @ [x]))"
  using ring_hd_last(1) [of h "xs @ [x]"] ring_rotate1 [of h x xs] by simp

section \<open>Three surgeries on rings\<close>

lemma ring_insert_between:
  assumes r: "ring h (ys @ [t])" and e: "e \<notin> set (ys @ [t])" and x: "x = hd (ys @ [t])"
    and n: "\<And>b. entry_next (h' b) = (if b = e then Some x else if b = t then Some e else entry_next (h b))"
    and p: "\<And>b. entry_prev (h' b) = (if b = e then Some t else if b = x then Some e else entry_prev (h b))"
  shows "ring h' (ys @ [t, e])"
proof -
  have "linked h (ys @ [t])" using r by (simp add: ring_def linked_snoc)
  moreover have "linked h' (ys @ [t]) = linked h (ys @ [t])"
  proof (rule linked_cong)
    fix z assume "z \<in> set (butlast (ys @ [t]))"
    then show "entry_next (h' z) = entry_next (h z)" using r e n by (auto simp: ring_def)
  next
    fix z assume z: "z \<in> set (tl (ys @ [t]))"
    then have "z \<noteq> x" using r x by (cases ys) (auto simp: ring_def)
    moreover have "z \<noteq> e" using z e by (metis list.set_sel(2) tl_Nil)
    ultimately show "entry_prev (h' z) = entry_prev (h z)" using p by simp
  qed
  moreover have "x \<noteq> e" using e x by (cases ys) auto
  ultimately have "linked h' (ys @ [t, e, x])"
    using e n p linked_append [of h' ys t "[e, x]"] by simp
  with r e x show ?thesis by (cases ys) (auto simp: ring_def)
qed

lemma ring_delete:
  assumes r: "ring h (e # xs)" and ne: "xs \<noteq> []"
    and n: "\<And>b. b \<in> set xs \<Longrightarrow> entry_next (h' b) = (if b = last xs then Some (hd xs) else entry_next (h b))"
    and p: "\<And>b. b \<in> set xs \<Longrightarrow> entry_prev (h' b) = (if b = hd xs then Some (last xs) else entry_prev (h b))"
  shows "ring h' xs"
proof -
  from ne obtain ys t where xs: "xs = ys @ [t]" by (metis rev_exhaust)
  have "linked h ((e # ys) @ [t, e])" using r xs by (simp add: ring_def)
  then have "linked h ((e # ys) @ [t])" by (simp only: linked_snoc)
  then have l: "linked h (ys @ [t])" using linked_append [of h "[e]" "hd (ys @ [t])" "tl (ys @ [t])"] by simp
  have d: "distinct xs" using r by (simp add: ring_def)
  have "linked h' (ys @ [t]) = linked h (ys @ [t])"
  proof (rule linked_cong)
    fix z assume "z \<in> set (butlast (ys @ [t]))"
    then show "entry_next (h' z) = entry_next (h z)" using d n xs by auto
  next
    fix z assume z: "z \<in> set (tl (ys @ [t]))"
    then have "z \<noteq> hd xs" using d xs by (cases ys) auto
    then show "entry_prev (h' z) = entry_prev (h z)" using p z xs by (metis list.set_sel(2) tl_Nil)
  qed
  with l have "linked h' (ys @ [t])" by simp
  moreover have "entry_next (h' t) = Some (hd xs)" "entry_prev (h' (hd xs)) = Some t"
    using n [of t] p [OF hd_in_set [OF ne]] xs by auto
  ultimately have "linked h' (xs @ [hd xs])" using xs by (simp add: linked_snoc)
  with d ne show ?thesis by (simp add: ring_def)
qed

lemma linked_join:
  "linked h (xs @ [a]) \<Longrightarrow> linked h (b # ys) \<Longrightarrow> entry_next (h a) = Some b \<Longrightarrow> entry_prev (h b) = Some a
   \<Longrightarrow> linked h (xs @ a # b # ys)"
  using linked_append [of h xs a "b # ys"] by simp

lemma ring_splice:
  assumes rx: "ring h (xs @ [p])" and ry: "ring h ys" and dj: "set (xs @ [p]) \<inter> set ys = {}"
    and n: "\<And>b. entry_next (h' b) = (if b = p then Some (hd ys)
              else if b = last ys then Some (hd (xs @ [p])) else entry_next (h b))"
    and pv: "\<And>b. entry_prev (h' b) = (if b = hd ys then Some p
              else if b = hd (xs @ [p]) then Some (last ys) else entry_prev (h b))"
  shows "ring h' (xs @ [p] @ ys)"
proof -
  let ?n = "hd (xs @ [p])"
  from ry obtain zs t where ys: "ys = zs @ [t]" and dy: "distinct ys"
    by (metis ring_def rev_exhaust)
  have hdy: "hd ys \<in> set ys" "last ys = t" using ys by (cases zs; simp)+
  have nin: "?n \<in> set (xs @ [p])" by (cases xs) auto
  have l1: "linked h (xs @ [p])" using rx by (simp add: ring_def linked_snoc)
  have "linked h (ys @ [hd ys])" using ry by (simp add: ring_def)
  then have l2: "linked h (zs @ [t])" using ys by (simp add: linked_snoc)
  have "linked h' (xs @ [p]) = linked h (xs @ [p])"
  proof (rule linked_cong)
    fix z assume "z \<in> set (butlast (xs @ [p]))"
    then have "z \<in> set xs" by simp
    moreover have "z \<noteq> p" using \<open>z \<in> set xs\<close> rx by (auto simp: ring_def)
    moreover have "z \<noteq> last ys" using \<open>z \<in> set xs\<close> dj hdy ys by auto
    ultimately show "entry_next (h' z) = entry_next (h z)" using n by simp
  next
    fix z assume z: "z \<in> set (tl (xs @ [p]))"
    then have "z \<in> set (xs @ [p])" by (metis list.set_sel(2) tl_Nil)
    then have "z \<noteq> hd ys" using dj hdy by auto
    moreover have "z \<noteq> ?n" using z rx by (cases xs) (auto simp: ring_def)
    ultimately show "entry_prev (h' z) = entry_prev (h z)" using pv by simp
  qed
  with l1 have l1': "linked h' (xs @ [p])" by simp
  have "linked h' (zs @ [t]) = linked h (zs @ [t])"
  proof (rule linked_cong)
    fix z assume "z \<in> set (butlast (zs @ [t]))"
    then have "z \<in> set zs" by simp
    moreover have "z \<noteq> t" using \<open>z \<in> set zs\<close> dy ys by auto
    moreover have "z \<noteq> p" using \<open>z \<in> set zs\<close> dj ys by auto
    ultimately show "entry_next (h' z) = entry_next (h z)" using n hdy by simp
  next
    fix z assume z: "z \<in> set (tl (zs @ [t]))"
    then have "z \<in> set ys" using ys by (metis list.set_sel(2) tl_Nil)
    moreover have "z \<noteq> hd ys" using z dy ys by (cases zs) auto
    moreover have "z \<noteq> ?n" using \<open>z \<in> set ys\<close> nin dj by auto
    ultimately show "entry_prev (h' z) = entry_prev (h z)" using pv by simp
  qed
  with l2 have l2': "linked h' (hd ys # tl ys)" using ys by (cases zs) auto
  have "entry_next (h' p) = Some (hd ys)" "entry_prev (h' (hd ys)) = Some p" using n pv by auto
  from linked_join [OF l1' l2' this] have "linked h' (xs @ p # ys)" using ys by (cases zs) auto
  then have "linked h' ((xs @ p # zs) @ [t])" using ys by simp
  moreover have "entry_next (h' t) = Some ?n" "entry_prev (h' ?n) = Some t"
    using n [of t] pv [of ?n] hdy nin dj ys by auto
  ultimately have "linked h' ((xs @ p # zs) @ [t, ?n])" by (simp only: linked_snoc)
  moreover have "hd (xs @ p # ys) = ?n" by (cases xs) auto
  moreover have "distinct (xs @ p # ys)" using rx ry dj by (auto simp: ring_def)
  ultimately show ?thesis using ys by (simp add: ring_def)
qed


section \<open>Effect of the operations\<close>

text \<open>\<open>same_outside A h h'\<close>: the operation wrote no node outside \<open>A\<close> (the frame of a list operation).\<close>

definition same_outside :: "nat set \<Rightarrow> links \<Rightarrow> links \<Rightarrow> bool" where
  "same_outside A h h' \<longleftrightarrow> (\<forall>b. b \<notin> A \<longrightarrow> h' b = h b)"

lemma same_outsideI: "(\<And>b. b \<notin> A \<Longrightarrow> h' b = h b) \<Longrightarrow> same_outside A h h'"
  by (simp add: same_outside_def)

lemma same_outsideD: "same_outside A h h' \<Longrightarrow> b \<notin> A \<Longrightarrow> h' b = h b"
  by (simp add: same_outside_def)

lemma same_outside_refl [simp]: "same_outside A h h"
  by (simp add: same_outside_def)

lemma same_outside_trans: "same_outside A h k \<Longrightarrow> same_outside B k l \<Longrightarrow> same_outside (A \<union> B) h l"
  by (simp add: same_outside_def)

lemma same_outside_mono: "same_outside A h k \<Longrightarrow> A \<subseteq> B \<Longrightarrow> same_outside B h k"
  by (auto simp: same_outside_def)

lemma same_outside_set_next [simp]: "a \<in> A \<Longrightarrow> same_outside A h k \<Longrightarrow> same_outside A h (set_next a p k)"
  and same_outside_set_prev [simp]: "a \<in> A \<Longrightarrow> same_outside A h k \<Longrightarrow> same_outside A h (set_prev a p k)"
  by (auto simp: same_outside_def) (metis set_next_other set_prev_other)+

lemma ring_list_outside:
  "ring_list h head ys \<Longrightarrow> same_outside A h h' \<Longrightarrow> set ys \<inter> A = {} \<Longrightarrow> ring_list h' head ys"
  by (erule ring_list_frame) (blast dest: same_outsideD)

lemma ring_outside: "ring h ys \<Longrightarrow> same_outside A h h' \<Longrightarrow> set ys \<inter> A = {} \<Longrightarrow> ring h' ys"
  by (erule ring_frame) (blast dest: same_outsideD)

lemma insertTail_ring:
  assumes "ring_list h head xs" and "e \<notin> set xs"
  shows "\<exists>head' h'. insertTail e head h = Some (head', h') \<and> ring_list h' head' (xs @ [e])
    \<and> same_outside (insert e (set xs)) h h'"
proof (cases xs)
  case Nil
  with assms show ?thesis
    by (simp add: ring_list_def insertTail_def ring_def)
next
  case (Cons x as)
  with assms have head: "head = Some x" and r: "ring h xs" by (auto simp: ring_list_def)
  from Cons obtain ys t where xs: "xs = ys @ [t]" by (metis list.distinct(1) rev_exhaust)
  have hdx: "hd (ys @ [t]) = x" using xs Cons by (metis list.sel(1))
  have pv: "entry_prev (h x) = Some t" using ring_hd_last(2) [OF r] xs Cons by (metis last_snoc list.sel(1))
  define h' where "h' = set_next e (Some x) (set_prev e (Some t) (set_prev x (Some e) (set_next t (Some e) h)))"
  have eq: "insertTail e head h = Some (head, h')"
    by (simp add: insertTail_def head pv h'_def Let_def)
  have "ring h' (ys @ [t, e])"
    by (rule ring_insert_between [where h = h and x = x])
      (use r xs assms(2) hdx in \<open>auto simp: h'_def\<close>)
  moreover have "same_outside (insert e (set xs)) h h'"
  proof -
    have "x \<in> set xs" using Cons by simp
    moreover have "t \<in> set xs" using xs by simp
    ultimately have "x \<in> set xs \<and> t \<in> set xs" ..
    then show ?thesis by (simp add: h'_def)
  qed
  moreover have "hd (xs @ [e]) = x" using Cons by simp
  ultimately show ?thesis using eq head xs
    by (auto simp: ring_list_def)
qed

lemma insertHead_ring:
  assumes "ring h (x # xs)" and "e \<notin> set (x # xs)"
  shows "\<exists>h'. insertHead e (Some x) h = Some h' \<and> ring h' (x # e # xs)
    \<and> same_outside (insert e (set (x # xs))) h h'"
proof -
  let ?n = "hd (xs @ [x])"
  have nx: "entry_next (h x) = Some ?n" using assms(1) by (rule ring_next)
  define h' where "h' = set_next e (Some ?n) (set_prev e (Some x) (set_prev ?n (Some e) (set_next x (Some e) h)))"
  have eq: "insertHead e (Some x) h = Some h'"
    by (simp add: insertHead_def nx h'_def Let_def)
  have "ring h' (xs @ [x, e])"
    by (rule ring_insert_between [where h = h and x = ?n])
      (use assms ring_rotate1 in \<open>auto simp: h'_def\<close>)
  then have "ring h' (x # e # xs)" using ring_rotate [of h' xs "[x, e]"] by simp
  moreover have "?n \<in> set (x # xs)" by (cases xs) auto
  then have "same_outside (insert e (set (x # xs))) h h'"
    by (simp add: h'_def)
  ultimately show ?thesis using eq by auto
qed

lemma insertNext_ring:
  assumes "ring h (x # xs)" and "e \<notin> set (x # xs)"
  shows "\<exists>h'. insertNext e x h = Some h' \<and> ring h' (x # e # xs)
    \<and> same_outside (insert e (set (x # xs))) h h'"
proof -
  let ?n = "hd (xs @ [x])"
  have nx: "entry_next (h x) = Some ?n" using assms(1) by (rule ring_next)
  define h' where "h' = set_next x (Some e) (set_next e (Some ?n) (set_prev e (Some x) (set_prev ?n (Some e) h)))"
  have eq: "insertNext e x h = Some h'"
    by (simp add: insertNext_def nx h'_def Let_def)
  have "ring h' (xs @ [x, e])"
    by (rule ring_insert_between [where h = h and x = ?n])
      (use assms ring_rotate1 in \<open>auto simp: h'_def\<close>)
  then have "ring h' (x # e # xs)" using ring_rotate [of h' xs "[x, e]"] by simp
  moreover have "?n \<in> set (x # xs)" by (cases xs) auto
  then have "same_outside (insert e (set (x # xs))) h h'"
    by (simp add: h'_def)
  ultimately show ?thesis using eq by auto
qed

lemma removeEntry_ring:
  assumes "ring_list h head xs" and "e \<in> set xs"
  shows "\<exists>head' h'. removeEntry e head h = Some (head', h') \<and> ring_list h' head' (remove1 e xs)
    \<and> same_outside (set xs - {e}) h h'"
proof -
  from assms(2) obtain as bs where xs: "xs = as @ e # bs" and ea: "e \<notin> set as" by (meson split_list_first)
  from assms have head: "head = Some (hd xs)" and r: "ring h xs" by (auto simp: ring_list_def split: if_splits)
  let ?ys = "bs @ as"
  have r': "ring h (e # ?ys)" using ring_rotateI [OF r xs] by simp
  have nx: "entry_next (h e) = Some (hd (?ys @ [e]))" by (rule ring_next [OF r'])
  have pv: "entry_prev (h e) = Some (last (e # ?ys))" using ring_hd_last(2) [OF r'] by simp
  have d: "e \<notin> set ?ys" "distinct ?ys" using r' by (auto simp: ring_def)
  have rm: "remove1 e xs = as @ bs" using xs ea by (simp add: remove1_append)
  show ?thesis
  proof (cases "?ys = []")
    case True
    then show ?thesis using nx pv rm
      by (simp add: removeEntry_def ring_list_def)
  next
    case False
    define h' where "h' = set_prev (hd ?ys) (Some (last ?ys)) (set_next (last ?ys) (Some (hd ?ys)) h)"
    have nx': "entry_next (h e) = Some (hd ?ys)" and pv': "entry_prev (h e) = Some (last ?ys)"
      by (simp_all only: nx pv hd_append2 [OF False] last_ConsR [OF False])
    have "last ?ys \<noteq> e" using d False last_in_set [OF False] by metis
    then have eq: "removeEntry e head h = Some (if head = Some e then Some (hd ?ys) else head, h')"
      using nx' pv' by (simp add: removeEntry_def h'_def Let_def)
    have "ring h' ?ys"
      by (rule ring_delete [OF r' False]) (auto simp: h'_def)
    then have "ring h' (as @ bs)" by (rule ring_rotate)
    moreover have "(if head = Some e then Some (hd ?ys) else head) = Some (hd (as @ bs))"
      using head xs ea False by (cases as) auto
    moreover have "same_outside (set xs - {e}) h h'"
    proof -
      have "hd ?ys \<in> set xs - {e}" "last ?ys \<in> set xs - {e}"
        using hd_in_set [OF False] last_in_set [OF False] d xs by auto
      then show ?thesis by (simp add: h'_def)
    qed
    moreover have "as @ bs \<noteq> []" using False by auto
    ultimately show ?thesis using eq rm by (auto simp: ring_list_def)
  qed
qed

lemma removeHeadEntry_ring:
  assumes "ring_list h head (x # xs)"
  shows "\<exists>head' h'. removeHeadEntry head h = Some (Some x, head', h') \<and> ring_list h' head' xs
    \<and> same_outside (set xs) h h'"
proof -
  from assms have "head = Some x" and "distinct (x # xs)" by (auto simp: ring_list_def ring_def)
  moreover obtain head' h' where "removeEntry x head h = Some (head', h')" "ring_list h' head' xs"
    "same_outside (set xs) h h'"
    using removeEntry_ring [OF assms, of x] \<open>distinct (x # xs)\<close> by auto
  ultimately show ?thesis by (auto simp: removeHeadEntry_def)
qed

lemma removeHeadEntry_empty: "removeHeadEntry None h = Some (None, None, h)"
  by (simp add: removeHeadEntry_def)

lemma moveWholeList_empty: "moveWholeList p None h = Some (None, h)"
  by (simp add: moveWholeList_def)

lemma moveWholeList_ring:
  assumes "ring h (p # xs)" and "ring_list h src ys" and "ys \<noteq> []"
    and "set (p # xs) \<inter> set ys = {}"
  shows "\<exists>h'. moveWholeList (Some p) src h = Some (None, h') \<and> ring h' (p # ys @ xs)
    \<and> same_outside (set (p # xs) \<union> set ys) h h'"
proof -
  let ?n = "hd (xs @ [p])"
  from assms(2,3) have src: "src = Some (hd ys)" and ry: "ring h ys" by (auto simp: ring_list_def)
  have nx: "entry_next (h p) = Some ?n" by (rule ring_next [OF assms(1)])
  have pv: "entry_prev (h (hd ys)) = Some (last ys)" by (rule ring_hd_last(2) [OF ry])
  define h' where "h' = set_next p (Some (hd ys)) (set_next (last ys) (Some ?n)
     (set_prev (hd ys) (Some p) (set_prev ?n (Some (last ys)) h)))"
  have eq: "moveWholeList (Some p) src h = Some (None, h')"
    by (simp add: moveWholeList_def src nx pv h'_def Let_def)
  have n: "?n \<in> set (p # xs)" by (cases xs) auto
  have "ring h' (xs @ [p] @ ys)"
    by (rule ring_splice [where h = h])
      (use assms ring_rotate1 ry in \<open>auto simp: h'_def\<close>)
  then have "ring h' (p # ys @ xs)" using ring_rotate [of h' xs "[p] @ ys"] by simp
  moreover have "same_outside (set (p # xs) \<union> set ys) h h'"
    using n hd_in_set [OF assms(3)] last_in_set [OF assms(3)] by (auto simp: h'_def)
  ultimately show ?thesis using eq by auto
qed


section \<open>The contract of the list operations\<close>

text \<open>
  \<open>R s head xs\<close> reads: in state \<open>s\<close> the list with head pointer \<open>head\<close> holds \<open>xs\<close>;
  \<open>same A s s'\<close>: the step from \<open>s\<close> to \<open>s'\<close> touched nodes of \<open>A\<close> only. The three client
  lemmas are the composite moves of the synchronisation layer: a thread blocks (leaves the active
  ring, joins the tail of a wait queue), the head of a wait queue wakes next to the token holder,
  and a whole wait queue wakes.
\<close>

locale ring_ops =
  fixes ins_tail :: "nat \<Rightarrow> ptr \<Rightarrow> 's \<Rightarrow> (ptr \<times> 's) option"
    and ins_head :: "nat \<Rightarrow> ptr \<Rightarrow> 's \<Rightarrow> 's option"
    and remove :: "nat \<Rightarrow> ptr \<Rightarrow> 's \<Rightarrow> (ptr \<times> 's) option"
    and remove_head :: "ptr \<Rightarrow> 's \<Rightarrow> (ptr \<times> ptr \<times> 's) option"
    and move_all :: "ptr \<Rightarrow> ptr \<Rightarrow> 's \<Rightarrow> (ptr \<times> 's) option"
    and R :: "'s \<Rightarrow> ptr \<Rightarrow> nat list \<Rightarrow> bool"
    and same :: "nat set \<Rightarrow> 's \<Rightarrow> 's \<Rightarrow> bool"
  assumes ins_tail: "R s head xs \<Longrightarrow> e \<notin> set xs \<Longrightarrow> \<exists>head' s'. ins_tail e head s = Some (head', s')
      \<and> R s' head' (xs @ [e]) \<and> same (insert e (set xs)) s s'"
    and ins_head: "R s (Some x) (x # xs) \<Longrightarrow> e \<notin> set (x # xs) \<Longrightarrow> \<exists>s'. ins_head e (Some x) s = Some s'
      \<and> R s' (Some x) (x # e # xs) \<and> same (insert e (set (x # xs))) s s'"
    and remove: "R s head xs \<Longrightarrow> e \<in> set xs \<Longrightarrow> \<exists>head' s'. remove e head s = Some (head', s')
      \<and> R s' head' (remove1 e xs) \<and> same (set xs - {e}) s s'"
    and remove_head: "R s head (x # xs) \<Longrightarrow> \<exists>head' s'. remove_head head s = Some (Some x, head', s')
      \<and> R s' head' xs \<and> same (set xs) s s'"
    and move_all: "R s (Some p) (p # xs) \<Longrightarrow> R s src ys \<Longrightarrow> ys \<noteq> [] \<Longrightarrow> set (p # xs) \<inter> set ys = {}
      \<Longrightarrow> \<exists>s'. move_all (Some p) src s = Some (None, s') \<and> R s' (Some p) (p # ys @ xs)
        \<and> same (set (p # xs) \<union> set ys) s s'"
    and frame: "R s head ys \<Longrightarrow> same A s s' \<Longrightarrow> set ys \<inter> A = {} \<Longrightarrow> R s' head ys"
    and same_trans: "same A s t \<Longrightarrow> same B t u \<Longrightarrow> same (A \<union> B) s u"
    and rotate: "R s (Some x) (xs @ y # ys) \<Longrightarrow> R s (Some y) (y # ys @ xs)"
    and nodup: "R s head xs \<Longrightarrow> distinct xs"
    and headed: "R s head (x # xs) \<Longrightarrow> head = Some x"
begin

lemma block:
  assumes "R s act as" and "R s q ws" and "e \<in> set as" and "set as \<inter> set ws = {}"
  shows "\<exists>act' s1 q' s2. remove e act s = Some (act', s1) \<and> ins_tail e q s1 = Some (q', s2)
    \<and> R s2 act' (remove1 e as) \<and> R s2 q' (ws @ [e]) \<and> same (set as \<union> set ws) s s2"
proof -
  obtain act' s1 where 1: "remove e act s = Some (act', s1)" "R s1 act' (remove1 e as)"
    "same (set as - {e}) s s1"
    using remove [OF assms(1,3)] by blast
  have "R s1 q ws" by (rule frame [OF assms(2) 1(3)]) (use assms(4) in auto)
  moreover have "e \<notin> set ws" using assms(3,4) by auto
  ultimately obtain q' s2 where 2: "ins_tail e q s1 = Some (q', s2)" "R s2 q' (ws @ [e])"
    "same (insert e (set ws)) s1 s2"
    using ins_tail by blast
  have "R s2 act' (remove1 e as)"
    by (rule frame [OF 1(2) 2(3)])
      (use assms(4) nodup [OF assms(1)] in \<open>auto simp: set_remove1_eq\<close>)
  moreover have "same ((set as - {e}) \<union> insert e (set ws)) s s2" by (rule same_trans [OF 1(3) 2(3)])
  moreover have "(set as - {e}) \<union> insert e (set ws) = set as \<union> set ws" using assms(3) by auto
  ultimately show ?thesis using 1(1) 2(1,2) by auto
qed

lemma wake_one:
  assumes "R s (Some t) (t # as)" and "R s q (w # ws)" and "set (t # as) \<inter> set (w # ws) = {}"
  shows "\<exists>q' s1 s2. remove_head q s = Some (Some w, q', s1) \<and> ins_head w (Some t) s1 = Some s2
    \<and> R s2 (Some t) (t # w # as) \<and> R s2 q' ws \<and> same (set (t # as) \<union> set (w # ws)) s s2"
proof -
  obtain q' s1 where 1: "remove_head q s = Some (Some w, q', s1)" "R s1 q' ws" "same (set ws) s s1"
    using remove_head [OF assms(2)] by blast
  have "R s1 (Some t) (t # as)" by (rule frame [OF assms(1) 1(3)]) (use assms(3) in auto)
  moreover have "w \<notin> set (t # as)" using assms(3) by auto
  ultimately obtain s2 where 2: "ins_head w (Some t) s1 = Some s2" "R s2 (Some t) (t # w # as)"
    "same (insert w (set (t # as))) s1 s2"
    using ins_head by blast
  have "R s2 q' ws"
    by (rule frame [OF 1(2) 2(3)]) (use assms(3) nodup [OF assms(2)] in auto)
  moreover have "same (set ws \<union> insert w (set (t # as))) s s2" by (rule same_trans [OF 1(3) 2(3)])
  moreover have "set ws \<union> insert w (set (t # as)) = set (t # as) \<union> set (w # ws)" by auto
  ultimately show ?thesis using 1(1) 2(1,2) by auto
qed

lemma wake_all:
  assumes "R s (Some t) (t # as)" and "R s q ws" and "ws \<noteq> []" and "set (t # as) \<inter> set ws = {}"
  shows "\<exists>s'. move_all (Some t) q s = Some (None, s') \<and> R s' (Some t) (t # ws @ as)
    \<and> same (set (t # as) \<union> set ws) s s'"
  by (rule move_all [OF assms])

text \<open>Any member of the ring can serve as its head (the token position and the list head share a ring).\<close>

lemma rotate_to:
  assumes "R s head xs" and "t \<in> set xs"
  shows "\<exists>ys. R s (Some t) (t # ys) \<and> set (t # ys) = set xs \<and> length (t # ys) = length xs"
proof -
  from assms(2) obtain as bs where xs: "xs = as @ t # bs" by (meson split_list)
  then obtain x zs where "xs = x # zs" by (metis append_is_Nil_conv neq_Nil_conv list.distinct(1))
  then have "head = Some x" using headed assms(1) by blast
  then have "R s (Some t) (t # bs @ as)" using rotate assms(1) xs by blast
  then show ?thesis using xs by (intro exI [of _ "bs @ as"]) auto
qed

end

interpretation dl: ring_ops insertTail insertHead removeEntry removeHeadEntry moveWholeList
  ring_list same_outside
proof unfold_locales
  fix h head xs e assume "ring_list h head xs" "e \<notin> set xs"
  then show "\<exists>head' h'. insertTail e head h = Some (head', h') \<and> ring_list h' head' (xs @ [e])
    \<and> same_outside (insert e (set xs)) h h'" by (rule insertTail_ring)
next
  fix h x xs e assume "ring_list h (Some x) (x # xs)" "e \<notin> set (x # xs)"
  then show "\<exists>h'. insertHead e (Some x) h = Some h' \<and> ring_list h' (Some x) (x # e # xs)
    \<and> same_outside (insert e (set (x # xs))) h h'"
    using insertHead_ring [of h x xs e] by (auto simp: ring_list_def)
next
  fix h p xs src ys
  assume "ring_list h (Some p) (p # xs)" "ring_list h src ys" "ys \<noteq> []" "set (p # xs) \<inter> set ys = {}"
  then show "\<exists>h'. moveWholeList (Some p) src h = Some (None, h') \<and> ring_list h' (Some p) (p # ys @ xs)
    \<and> same_outside (set (p # xs) \<union> set ys) h h'"
    using moveWholeList_ring [of h p xs src ys] by (auto simp: ring_list_def)
next
  fix h x xs y ys assume "ring_list h (Some x) (xs @ y # ys)"
  then show "ring_list h (Some y) (y # ys @ xs)"
    using ring_rotate [of h xs "y # ys"] by (auto simp: ring_list_def split: if_splits)
next
  fix h and head :: ptr and xs assume "ring_list h head xs"
  then show "distinct xs" by (auto simp: ring_list_def ring_def split: if_splits)
next
  fix h and head :: ptr and x xs assume "ring_list h head (x # xs)"
  then show "head = Some x" by (simp add: ring_list_def)
qed (use removeEntry_ring removeHeadEntry_ring ring_list_outside same_outside_trans in blast)+

end
