(* ===== verification/Determ.thy ===== *)
theory Determ
  imports SyncVar Links
begin

text \<open>
  The deterministic synchronisation layer, \<open>src/include/determ.h\<close>: the ring of active threads that the token travels, the
  two-phase fence, and the queues of the locks, condition variables and barriers. Thread \<open>i\<close> has the entry \<open>_entries[i]\<close>, which is
  node \<open>i\<close> of the linked lists. The global mutex makes every section between two waits atomic, so a method that blocks is cut at its
  waits: the part before the wait, the condition it waits for, and the part after it. Whether a \<open>pthread_cond_wait\<close> that is not
  in a loop may return is part of the state (the sets of sleepers). \<open>getpid()\<close> is the argument \<open>me\<close>.
\<close>

section \<open>State\<close>

datatype threadStatus = STATUS_COND_WAITING | STATUS_BARR_WAITING | STATUS_READY | STATUS_EXIT | STATUS_JOINING

record thread_entry =
  te_tid :: cint
  te_threadindex :: nat
  te_status :: threadStatus
  te_tid_parent :: nat
  te_cond :: ptr
  te_barrier :: ptr
  te_wait :: ulong
  te_joinee :: nat

record lock_entry =
  le_total_users :: cint
  le_last_thread :: cint
  le_is_acquired :: bool
  le_budget :: cint

record cond_entry =
  ce_waiters :: ulong
  ce_cond :: nat
  ce_head :: ptr

record barrier_entry =
  be_maxthreads :: ulong
  be_threads :: ulong
  be_arrival_phase :: bool
  be_orig_barr :: nat
  be_head :: ptr

record determ =
  nodes :: links
  entries :: "nat \<Rightarrow> thread_entry"
  lock_tab :: "nat \<Rightarrow> lock_entry"
  cond_tab :: "nat \<Rightarrow> cond_entry"
  barrier_tab :: "nat \<Rightarrow> barrier_entry"
  childregistered :: bool
  parentnotified :: bool
  sleeping_children :: "nat set"
  sleeping_parent :: "nat set"
  sleeping_fence :: "nat set"
  activelist :: ptr
  tokenpos :: ptr
  maxthreadentries :: nat
  condnum :: ulong
  barriernum :: ulong
  coresNumb :: ulong
  maxthreads :: ulong
  currthreads :: ulong
  alivethreads :: ulong
  is_arrival_phase :: bool

text \<open>The layer with the memory it keeps its sync words in.\<close>

record dsys =
  dt :: determ
  xm :: xmemory

definition MAX_THREADS :: nat where
  "MAX_THREADS = 2048"

definition on_dt :: "(determ \<Rightarrow> determ) \<Rightarrow> 'a dsys_scheme \<Rightarrow> 'a dsys_scheme" where
  "on_dt f s = s\<lparr>dt := f (dt s)\<rparr>"

definition on_xm_r :: "(xmemory \<Rightarrow> xmemory result) \<Rightarrow> 'a dsys_scheme \<Rightarrow> 'a dsys_scheme result" where
  "on_xm_r f s = res_bind (f (xm s)) (\<lambda>m. Inr (s\<lparr>xm := m\<rparr>))"

definition on_entry :: "nat \<Rightarrow> (thread_entry \<Rightarrow> thread_entry) \<Rightarrow> determ \<Rightarrow> determ" where
  "on_entry i f d = d\<lparr>entries := (entries d)(i := f (entries d i))\<rparr>"

definition on_lock :: "nat \<Rightarrow> (lock_entry \<Rightarrow> lock_entry) \<Rightarrow> determ \<Rightarrow> determ" where
  "on_lock p f d = d\<lparr>lock_tab := (lock_tab d)(p := f (lock_tab d p))\<rparr>"

definition on_cond :: "nat \<Rightarrow> (cond_entry \<Rightarrow> cond_entry) \<Rightarrow> determ \<Rightarrow> determ" where
  "on_cond p f d = d\<lparr>cond_tab := (cond_tab d)(p := f (cond_tab d p))\<rparr>"

definition on_barrier :: "nat \<Rightarrow> (barrier_entry \<Rightarrow> barrier_entry) \<Rightarrow> determ \<Rightarrow> determ" where
  "on_barrier p f d = d\<lparr>barrier_tab := (barrier_tab d)(p := f (barrier_tab d p))\<rparr>"

lemmas on_part_defs [defs_determ] = on_entry_def on_lock_def on_cond_def on_barrier_def on_dt_def

section \<open>Construction\<close>

text \<open>The object is constructed in a zeroed anonymous map, so an entry that was never registered reads as waiting on a condition.\<close>

definition zero_entry :: thread_entry where
  "zero_entry = \<lparr>te_tid = 0, te_threadindex = 0, te_status = STATUS_COND_WAITING, te_tid_parent = 0, te_cond = None,
     te_barrier = None, te_wait = 0, te_joinee = 0\<rparr>"

definition determ_constructor :: "determ \<Rightarrow> determ" where
  "determ_constructor d = d\<lparr>condnum := 0, barriernum := 0, maxthreads := 0, currthreads := 0, is_arrival_phase := False,
     alivethreads := 0, maxthreadentries := MAX_THREADS, activelist := None, tokenpos := None,
     parentnotified := False, childregistered := False\<rparr>"

definition determ_getInstance :: determ where
  "determ_getInstance = determ_constructor
     \<lparr>nodes = (\<lambda>_. \<lparr>entry_prev = None, entry_next = None\<rparr>), entries = (\<lambda>_. zero_entry),
      lock_tab = (\<lambda>_. \<lparr>le_total_users = 0, le_last_thread = 0, le_is_acquired = False, le_budget = 0\<rparr>),
      cond_tab = (\<lambda>_. \<lparr>ce_waiters = 0, ce_cond = 0, ce_head = None\<rparr>),
      barrier_tab = (\<lambda>_. \<lparr>be_maxthreads = 0, be_threads = 0, be_arrival_phase = False, be_orig_barr = 0, be_head = None\<rparr>),
      childregistered = False, parentnotified = False, sleeping_children = {}, sleeping_parent = {}, sleeping_fence = {},
      activelist = None, tokenpos = None, maxthreadentries = 0, condnum = 0, barriernum = 0, coresNumb = 0,
      maxthreads = 0, currthreads = 0, alivethreads = 0, is_arrival_phase = False\<rparr>"

text \<open>\<open>sysconf\<close> answers -1 when it fails, which is not smaller than 1 as a \<open>size_t\<close>.\<close>

definition determ_initialize :: "ulong \<Rightarrow> determ \<Rightarrow> determ result" where
  "determ_initialize nprocessors d =
     (let d1 = d\<lparr>coresNumb := nprocessors\<rparr> in if coresNumb d1 < 1 then Inl (Exited (- 1)) else Inr d1)"

definition allocThreadEntry :: "nat \<Rightarrow> determ \<Rightarrow> nat result" where
  "allocThreadEntry index d = (if index < MAX_THREADS then Inr index else Inl OutOfBounds)"

definition freeThreadEntry :: "nat \<Rightarrow> determ \<Rightarrow> determ" where
  "freeThreadEntry i = on_entry i (\<lambda>e. e\<lparr>te_status := STATUS_EXIT\<rparr>)"

section \<open>The fence\<close>

definition startFence :: "nat \<Rightarrow> determ \<Rightarrow> determ" where
  "startFence threads d = d\<lparr>maxthreads := maxthreads d + of_nat threads, alivethreads := alivethreads d + of_nat threads,
     is_arrival_phase := True, sleeping_fence := {}\<rparr>"

definition incrFence :: "ulong \<Rightarrow> determ \<Rightarrow> determ" where
  "incrFence num d = d\<lparr>maxthreads := maxthreads d + num\<rparr>"

definition decrFence :: "determ \<Rightarrow> determ" where
  "decrFence d =
     (let d1 = d\<lparr>maxthreads := maxthreads d - 1\<rparr>
      in if maxthreads d1 \<le> currthreads d1
         then (let d2 = (if is_arrival_phase d1 \<and> maxthreads d1 \<noteq> 0 then d1\<lparr>is_arrival_phase := False\<rparr> else d1)
               in d2\<lparr>sleeping_fence := {}\<rparr>)
         else d1)"

definition isSingleWorkingThread :: "determ \<Rightarrow> bool" where
  "isSingleWorkingThread d = (maxthreads d = 1)"

definition isSingleAliveThread :: "determ \<Rightarrow> bool" where
  "isSingleAliveThread d = (maxthreads d = 1 \<and> alivethreads d = 1)"

text \<open>
  \<open>waitFence\<close>: a thread waits for an arrival phase (\<open>fence_open\<close>), arrives, waits for the departure phase unless it is the last to
  arrive, and leaves. It waits by spinning when the threads fit on the cores, else it sleeps on the condition variable \<open>cond\<close>; only the spinning
  path resets \<open>wait\<close>. The last thread to leave opens the next arrival phase. \<open>sleeping_fence\<close> holds the threads that sleep on \<open>cond\<close>: a
  broadcast empties it, and a sleeper goes on only when it is not in it any more. It then looks at the phase again, and goes back to sleep unless that has changed.
\<close>

definition fence_open :: "determ \<Rightarrow> bool" where
  "fence_open d = is_arrival_phase d"

definition spins :: "determ \<Rightarrow> bool" where
  "spins d = (maxthreads d \<le> coresNumb d)"

definition fence_sleep :: "nat \<Rightarrow> determ \<Rightarrow> determ" where
  "fence_sleep i d = d\<lparr>sleeping_fence := insert i (sleeping_fence d)\<rparr>"

definition fence_awake :: "nat \<Rightarrow> determ \<Rightarrow> bool" where
  "fence_awake i d = (i \<notin> sleeping_fence d)"

definition fence_arrive :: "nat \<Rightarrow> determ \<Rightarrow> bool \<times> determ" where
  "fence_arrive i d =
     (let d1 = d\<lparr>currthreads := currthreads d + 1\<rparr>
      in if maxthreads d1 \<le> currthreads d1 then (True, d1\<lparr>is_arrival_phase := False, sleeping_fence := {}\<rparr>)
         else (let d2 = on_entry i (\<lambda>e. e\<lparr>te_wait := 1\<rparr>) d1 in (False, if spins d2 then d2 else fence_sleep i d2)))"

definition fence_released :: "determ \<Rightarrow> bool" where
  "fence_released d = (\<not> is_arrival_phase d)"

text \<open>After the wait, the spinning path.\<close>

definition fence_wakeup :: "nat \<Rightarrow> determ \<Rightarrow> determ" where
  "fence_wakeup i = on_entry i (\<lambda>e. e\<lparr>te_wait := 0\<rparr>)"

text \<open>A sleeper that has been woken in vain sleeps again.\<close>

definition fence_sleep_again :: "nat \<Rightarrow> determ \<Rightarrow> determ" where
  "fence_sleep_again i d = fence_sleep i (on_entry i (\<lambda>e. e\<lparr>te_wait := 1\<rparr>) d)"

definition fence_leave :: "determ \<Rightarrow> bool \<times> determ" where
  "fence_leave d =
     (let d1 = d\<lparr>currthreads := currthreads d - 1\<rparr>
      in if currthreads d1 = 0 then (True, d1\<lparr>is_arrival_phase := True, sleeping_fence := {}\<rparr>) else (False, d1))"

definition xm_bitmap_cleanup :: "xmemory \<Rightarrow> xmemory" where
  "xm_bitmap_cleanup = on_globals (on_sh (\<lambda>s. s\<lparr>twins := bm_cleanup (twins s)\<rparr>))"

definition waitFence_leave :: "bool \<Rightarrow> 'a dsys_scheme \<Rightarrow> 'a dsys_scheme" where
  "waitFence_leave keepBitmap s =
     (case fence_leave (dt s) of
        (lst, d) \<Rightarrow> let s1 = s\<lparr>dt := d\<rparr>
          in if lst \<and> \<not> keepBitmap then s1\<lparr>xm := xm_bitmap_cleanup (xm s1)\<rparr> else s1)"

section \<open>The token\<close>

text \<open>\<open>getToken\<close> spins until the entry at the token position has the caller's pid.\<close>

definition has_token :: "cint \<Rightarrow> determ \<Rightarrow> bool result" where
  "has_token me d = res_bind (deref (tokenpos d)) (\<lambda>t. Inr (te_tid (entries d t) = me))"

text \<open>The test for the owner prints a message and asserts; without assertions the token moves on all the same.\<close>

definition putToken :: "nat \<Rightarrow> determ \<Rightarrow> determ result" where
  "putToken index d =
     res_bind (deref (tokenpos d))
       (\<lambda>t. let nxt = entry_next (nodes d t)
            in Inr (if nxt \<noteq> None then d\<lparr>tokenpos := nxt\<rparr> else d))"

section \<open>Registration\<close>

definition registerThread :: "nat \<Rightarrow> cint \<Rightarrow> nat \<Rightarrow> determ \<Rightarrow> determ result" where
  "registerThread index pid parentindex d =
     res_bind (allocThreadEntry index d)
       (\<lambda>i. let d1 = on_entry i (\<lambda>e. e\<lparr>te_tid := pid, te_threadindex := index, te_wait := 0,
                        te_tid_parent := parentindex\<rparr>) d;
                d2 = (if tokenpos d1 = None then d1\<lparr>tokenpos := Some i\<rparr> else d1);
                d3 = on_entry i (\<lambda>e. e\<lparr>te_status := STATUS_READY\<rparr>) d2
            in res_bind (of_null (insertTail i (activelist d3) (nodes d3)))
                 (\<lambda>(head, ns). Inr (d3\<lparr>activelist := head, nodes := ns\<rparr>)))"

definition registerMaster :: "nat \<Rightarrow> cint \<Rightarrow> determ \<Rightarrow> determ result" where
  "registerMaster index pid d =
     res_bind (registerThread index pid 0 d)
       (\<lambda>d1. Inr (d1\<lparr>maxthreads := 1, alivethreads := 1, is_arrival_phase := True\<rparr>))"

text \<open>
  The handshake of a parent and the child it spawned, and the release of the children. These waits are not in loops: a sleeper goes
  on when the condition variable is signalled.
\<close>

definition waitParentNotify_sleep :: "nat \<Rightarrow> determ \<Rightarrow> determ" where
  "waitParentNotify_sleep i d =
     d\<lparr>childregistered := True, sleeping_parent := {}, sleeping_children := insert i (sleeping_children d)\<rparr>"

definition waitParentNotify_woken :: "nat \<Rightarrow> determ \<Rightarrow> bool" where
  "waitParentNotify_woken i d = (i \<notin> sleeping_children d)"

definition waitChildRegistered_sleep :: "nat \<Rightarrow> determ \<Rightarrow> bool \<times> determ" where
  "waitChildRegistered_sleep i d =
     (if \<not> childregistered d then (True, d\<lparr>sleeping_parent := insert i (sleeping_parent d)\<rparr>)
      else (False, d\<lparr>childregistered := False\<rparr>))"

definition waitChildRegistered_woken :: "nat \<Rightarrow> determ \<Rightarrow> bool" where
  "waitChildRegistered_woken i d = (i \<notin> sleeping_parent d)"

definition waitChildRegistered_done :: "determ \<Rightarrow> determ" where
  "waitChildRegistered_done d = d\<lparr>childregistered := False\<rparr>"

definition notifyWaitingChildren :: "determ \<Rightarrow> determ" where
  "notifyWaitingChildren d = d\<lparr>sleeping_children := {}\<rparr>"

section \<open>Leaving and waiting for threads\<close>

definition unlink :: "nat \<Rightarrow> determ \<Rightarrow> determ result" where
  "unlink i d = res_bind (of_null (removeEntry i (activelist d) (nodes d)))
     (\<lambda>(head, ns). Inr (d\<lparr>activelist := head, nodes := ns\<rparr>))"

text \<open>One round of the loop of \<open>join\<close> up to its wait: the token moves on while the joiner has it and somebody else is active.\<close>

definition join_sleep :: "nat \<Rightarrow> determ \<Rightarrow> determ result" where
  "join_sleep myindex d =
     (let d1 = decrFence d
      in res_bind (deref (tokenpos d1))
           (\<lambda>t. Inr (if te_threadindex (entries d1 t) = myindex \<and> activelist d1 \<noteq> None
                     then d1\<lparr>tokenpos := entry_next (nodes d1 t)\<rparr> else d1)))"

definition join_start :: "nat \<Rightarrow> nat \<Rightarrow> bool \<Rightarrow> determ \<Rightarrow> (bool \<times> determ) result" where
  "join_start guestindex myindex wakeup d0 =
     (let d = (if wakeup then notifyWaitingChildren d0 else d0)
      in if te_status (entries d guestindex) \<noteq> STATUS_EXIT
         then res_bind (unlink myindex d)
                (\<lambda>d1. let d2 = on_entry myindex (\<lambda>e. e\<lparr>te_status := STATUS_JOINING, te_joinee := guestindex\<rparr>) d1
                      in res_bind (join_sleep myindex d2) (\<lambda>d3. Inr (True, d3)))
         else Inr (False, on_entry myindex (\<lambda>e. e\<lparr>te_status := STATUS_READY\<rparr>) d))"

text \<open>A wakeup on \<open>_cond_join\<close>: the joiner counts in the fence again, and waits again when its joinee is still there.\<close>

definition join_wakeup :: "nat \<Rightarrow> nat \<Rightarrow> determ \<Rightarrow> (bool \<times> determ) result" where
  "join_wakeup guestindex myindex d =
     (let d1 = incrFence 1 d
      in if te_status (entries d1 guestindex) \<noteq> STATUS_EXIT
         then res_bind (join_sleep myindex d1) (\<lambda>d2. Inr (True, d2))
         else Inr (False, on_entry myindex (\<lambda>e. e\<lparr>te_status := STATUS_READY\<rparr>) d1))"

definition token_index :: "nat \<Rightarrow> determ \<Rightarrow> bool result" where
  "token_index myindex d = res_bind (deref (tokenpos d)) (\<lambda>t. Inr (te_threadindex (entries d t) = myindex))"

definition deregisterThread :: "nat \<Rightarrow> determ \<Rightarrow> determ result" where
  "deregisterThread index d =
     (let parent = te_tid_parent (entries d index)
      in res_bind
        (if te_status (entries d parent) = STATUS_JOINING \<and> te_joinee (entries d parent) = index
         then res_bind (of_null (insertHead parent (tokenpos d) (nodes d))) (\<lambda>ns. Inr (d\<lparr>nodes := ns\<rparr>))
         else Inr d)
        (\<lambda>d1. let d2 = (if 0 < alivethreads d1 then decrFence (d1\<lparr>alivethreads := alivethreads d1 - 1\<rparr>) else d1);
                  nextentry = entry_next (nodes d2 index)
              in res_bind (unlink index d2)
                   (\<lambda>d3. Inr ((freeThreadEntry index d3)\<lparr>tokenpos := nextentry\<rparr>))))"

text \<open>\<open>cancel\<close> removes a thread that waits on a condition variable; any other thread is reported as not found.\<close>

definition cancel :: "nat \<Rightarrow> determ \<Rightarrow> (bool \<times> determ) result" where
  "cancel index d =
     (let e = entries d index
      in case te_status e of
           STATUS_COND_WAITING \<Rightarrow>
             res_bind (deref (te_cond e))
               (\<lambda>c. res_bind (of_null (removeEntry index (ce_head (cond_tab d c)) (nodes d)))
                 (\<lambda>(head, ns).
                    let d1 = on_cond c (\<lambda>ce. ce\<lparr>ce_head := head\<rparr>) (d\<lparr>nodes := ns\<rparr>);
                        d2 = d1\<lparr>alivethreads := alivethreads d1 - 1\<rparr>;
                        d3 = (if te_wait e = 1 then d2\<lparr>currthreads := currthreads d2 - 1, maxthreads := maxthreads d2 - 1\<rparr> else d2);
                        d4 = (if maxthreads d3 = 1 then d3\<lparr>is_arrival_phase := True\<rparr> else d3)
                    in Inr (True, freeThreadEntry index d4)))
         | _ \<Rightarrow> Inr (False, d))"

section \<open>Synchronisation entries\<close>

definition sizeof_LockEntry :: ulong where
  "sizeof_LockEntry = 16"

definition sizeof_CondEntry :: ulong where
  "sizeof_CondEntry = 72"

definition sizeof_BarrierEntry :: ulong where
  "sizeof_BarrierEntry = 72"

definition allocSyncEntry :: "ulong \<Rightarrow> 'a dsys_scheme \<Rightarrow> (ptr \<times> 'a dsys_scheme) result" where
  "allocSyncEntry sz s =
     res_bind (ih_malloc sz (xm_internal (xm s))) (\<lambda>(p, i). Inr (p, s\<lparr>xm := (xm s)\<lparr>xm_internal := i\<rparr>\<rparr>))"

definition freeSyncEntry :: "ptr \<Rightarrow> 'a dsys_scheme \<Rightarrow> 'a dsys_scheme result" where
  "freeSyncEntry p s =
     (case p of None \<Rightarrow> Inr s
      | Some a \<Rightarrow> res_bind (ih_free (Some a) (xm_internal (xm s))) (\<lambda>i. Inr (s\<lparr>xm := (xm s)\<lparr>xm_internal := i\<rparr>\<rparr>)))"

definition sync_entry :: "cint \<Rightarrow> nat \<Rightarrow> 'a dsys_scheme \<Rightarrow> ptr" where
  "sync_entry me a s = getSyncEntry me a (xm s)"

section \<open>Locks\<close>

definition lock_init :: "cint \<Rightarrow> nat \<Rightarrow> 'a dsys_scheme \<Rightarrow> (nat \<times> 'a dsys_scheme) result" where
  "lock_init me mutex s =
     res_bind (allocSyncEntry sizeof_LockEntry s) (\<lambda>(p, s1).
     res_bind (deref p) (\<lambda>e.
     let s2 = on_dt (on_lock e (\<lambda>l. l\<lparr>le_total_users := 0, le_last_thread := 0, le_is_acquired := False\<rparr>)) s1 in
     res_bind (on_xm_r (setSyncEntry me mutex e) s2) (\<lambda>s3. Inr (e, s3))))"

definition lock_destroy :: "cint \<Rightarrow> nat \<Rightarrow> 'a dsys_scheme \<Rightarrow> 'a dsys_scheme result" where
  "lock_destroy me mutex s =
     (let e = sync_entry me mutex s
      in res_bind (on_xm_r (clearSyncEntry me mutex) s) (freeSyncEntry e))"

definition isowner_entry :: "cint \<Rightarrow> lock_entry \<Rightarrow> bool \<times> lock_entry" where
  "isowner_entry me l =
     (if le_total_users l = 1
      then (if le_last_thread l \<noteq> me then (False, l\<lparr>le_total_users := le_total_users l + 1\<rparr>) else (True, l))
      else (False, l))"

definition lock_isowner :: "cint \<Rightarrow> nat \<Rightarrow> 'a dsys_scheme \<Rightarrow> bool \<times> 'a dsys_scheme" where
  "lock_isowner me mutex s =
     (case sync_entry me mutex s of
        None \<Rightarrow> (False, s)
      | Some e \<Rightarrow> (case isowner_entry me (lock_tab (dt s) e) of (b, l) \<Rightarrow> (b, on_dt (on_lock e (\<lambda>_. l)) s)))"

definition lock_isacquired :: "cint \<Rightarrow> nat \<Rightarrow> 'a dsys_scheme \<Rightarrow> bool result" where
  "lock_isacquired me mutex s = res_bind (deref (sync_entry me mutex s)) (\<lambda>e. Inr (le_is_acquired (lock_tab (dt s) e)))"

text \<open>The update of the entry in \<open>lock_acquire\<close>; \<open>single\<close> is \<open>isSingleWorkingThread()\<close>.\<close>

definition acquire_entry :: "cint \<Rightarrow> bool \<Rightarrow> lock_entry \<Rightarrow> bool \<times> lock_entry" where
  "acquire_entry me single l =
     (if le_is_acquired l then (False, l)
      else
        (let l1 = l\<lparr>le_is_acquired := True\<rparr>
         in if le_total_users l1 = 0
            then (True, l1\<lparr>le_last_thread := me, le_total_users := 1, le_budget := word_of_int LOCK_OWNER_BUDGET\<rparr>)
            else if le_total_users l1 = 1
            then (if le_last_thread l1 \<noteq> me then (True, l1\<lparr>le_total_users := le_total_users l1 + 1\<rparr>)
                  else
                    (let l2 = l1\<lparr>le_budget := le_budget l1 - 1\<rparr>
                     in if le_budget l2 = 0
                        then (let l3 = l2\<lparr>le_budget := word_of_int LOCK_OWNER_BUDGET\<rparr>
                              in if \<not> single then (False, l3\<lparr>le_is_acquired := False\<rparr>) else (True, l3))
                        else (True, l2)))
            else (True, l1)))"

definition lock_acquire :: "cint \<Rightarrow> nat \<Rightarrow> 'a dsys_scheme \<Rightarrow> (bool \<times> 'a dsys_scheme) result" where
  "lock_acquire me mutex s =
     res_bind (case sync_entry me mutex s of None \<Rightarrow> lock_init me mutex s | Some e \<Rightarrow> Inr (e, s))
       (\<lambda>(e, s1). case acquire_entry me (isSingleWorkingThread (dt s1)) (lock_tab (dt s1) e) of
          (b, l) \<Rightarrow> Inr (b, on_dt (on_lock e (\<lambda>_. l)) s1))"

definition lock_release :: "cint \<Rightarrow> nat \<Rightarrow> 'a dsys_scheme \<Rightarrow> 'a dsys_scheme result" where
  "lock_release me mutex s =
     res_bind (deref (sync_entry me mutex s)) (\<lambda>e. Inr (on_dt (on_lock e (\<lambda>l. l\<lparr>le_is_acquired := False\<rparr>)) s))"

section \<open>Condition variables\<close>

definition cond_init :: "cint \<Rightarrow> nat \<Rightarrow> 'a dsys_scheme \<Rightarrow> (nat \<times> 'a dsys_scheme) result" where
  "cond_init me cnd s =
     res_bind (allocSyncEntry sizeof_CondEntry s) (\<lambda>(p, s1).
     let s2 = on_dt (\<lambda>d. d\<lparr>condnum := condnum d + 1\<rparr>) s1 in
     res_bind (deref p) (\<lambda>e.
     let s3 = on_dt (on_cond e (\<lambda>_. \<lparr>ce_waiters = 0, ce_cond = cnd, ce_head = None\<rparr>)) s2 in
     res_bind (on_xm_r (setSyncEntry me cnd e) s3) (\<lambda>s4. Inr (e, s4))))"

definition cond_entry_of :: "cint \<Rightarrow> nat \<Rightarrow> 'a dsys_scheme \<Rightarrow> (nat \<times> 'a dsys_scheme) result" where
  "cond_entry_of me cnd s = (case sync_entry me cnd s of None \<Rightarrow> cond_init me cnd s | Some e \<Rightarrow> Inr (e, s))"

definition cond_destroy :: "cint \<Rightarrow> nat \<Rightarrow> 'a dsys_scheme \<Rightarrow> 'a dsys_scheme result" where
  "cond_destroy me cnd s =
     (let s1 = on_dt (\<lambda>d. d\<lparr>condnum := condnum d - 1\<rparr>) s; e = sync_entry me cnd s1
      in res_bind (on_xm_r (clearSyncEntry me cnd) s1) (freeSyncEntry e))"

text \<open>\<open>cond_wait\<close> up to its loop: the thread leaves the ring for the tail of the queue and hands the token on.\<close>

definition cond_enqueue :: "nat \<Rightarrow> nat \<Rightarrow> determ \<Rightarrow> determ result" where
  "cond_enqueue i c d =
     (let nxt = entry_next (nodes d i)
      in res_bind (unlink i d) (\<lambda>d1.
         res_bind (of_null (insertTail i (ce_head (cond_tab d1 c)) (nodes d1))) (\<lambda>(head, ns).
         let d2 = on_cond c (\<lambda>ce. ce\<lparr>ce_head := head, ce_waiters := ce_waiters ce + 1\<rparr>) (d1\<lparr>nodes := ns\<rparr>);
             d3 = on_entry i (\<lambda>e. e\<lparr>te_cond := Some c, te_status := STATUS_COND_WAITING\<rparr>) d2
         in Inr ((decrFence d3)\<lparr>tokenpos := nxt\<rparr>))))"

text \<open>The loop of \<open>cond_wait\<close>: a thread that is not ready releases the lock, each time it is woken, and waits.\<close>

definition cond_ready :: "nat \<Rightarrow> determ \<Rightarrow> bool" where
  "cond_ready i d = (te_status (entries d i) = STATUS_READY)"

definition cond_retry :: "cint \<Rightarrow> nat \<Rightarrow> nat \<Rightarrow> 'a dsys_scheme \<Rightarrow> 'a dsys_scheme result" where
  "cond_retry me i thelock s = (if cond_ready i (dt s) then Inr s else lock_release me thelock s)"

definition cond_wait_start :: "cint \<Rightarrow> nat \<Rightarrow> nat \<Rightarrow> nat \<Rightarrow> 'a dsys_scheme \<Rightarrow> 'a dsys_scheme result" where
  "cond_wait_start me i cnd thelock s =
     res_bind (cond_entry_of me cnd s) (\<lambda>(c, s1).
     res_bind (cond_enqueue i c (dt s1)) (\<lambda>d.
     cond_retry me i thelock (s1\<lparr>dt := d\<rparr>)))"

definition cond_wait_finish :: "cint \<Rightarrow> nat \<Rightarrow> 'a dsys_scheme \<Rightarrow> 'a dsys_scheme result" where
  "cond_wait_finish me thelock s = res_bind (lock_acquire me thelock s) (\<lambda>(_, s1). Inr s1)"

definition cond_dequeue :: "nat \<Rightarrow> determ \<Rightarrow> determ result" where
  "cond_dequeue c d =
     res_bind (of_null (removeHeadEntry (ce_head (cond_tab d c)) (nodes d))) (\<lambda>(e, head, ns).
     res_bind (deref e) (\<lambda>i.
     res_bind (of_null (insertHead i (tokenpos d) ns)) (\<lambda>ns'.
     let d1 = on_cond c (\<lambda>ce. ce\<lparr>ce_head := head\<rparr>) (d\<lparr>nodes := ns'\<rparr>);
         d2 = on_entry i (\<lambda>e. e\<lparr>te_cond := None, te_status := STATUS_READY\<rparr>) d1
     in Inr (on_cond c (\<lambda>ce. ce\<lparr>ce_waiters := ce_waiters ce - 1\<rparr>) (incrFence 1 d2)))))"

definition cond_signal :: "cint \<Rightarrow> nat \<Rightarrow> 'a dsys_scheme \<Rightarrow> 'a dsys_scheme result" where
  "cond_signal me cnd s =
     res_bind (cond_entry_of me cnd s) (\<lambda>(c, s1).
     if ce_waiters (cond_tab (dt s1) c) = 0 then Inr s1
     else res_bind (cond_dequeue c (dt s1)) (\<lambda>d. Inr (s1\<lparr>dt := d\<rparr>)))"

text \<open>The loop of \<open>cond_broadcast\<close> marks as many entries ready as there are waiters, following \<open>next\<close>.\<close>

fun ready_loop :: "nat \<Rightarrow> ptr \<Rightarrow> determ \<Rightarrow> determ result" where
  "ready_loop 0 e d = Inr d"
| "ready_loop (Suc n) e d =
     res_bind (deref e) (\<lambda>i. ready_loop n (entry_next (nodes d i))
        (on_entry i (\<lambda>e. e\<lparr>te_cond := None, te_status := STATUS_READY\<rparr>) d))"

definition cond_wake_all :: "nat \<Rightarrow> determ \<Rightarrow> determ result" where
  "cond_wake_all c d =
     (let waiters = unat (ucast (ce_waiters (cond_tab d c)) :: cint)
      in res_bind (ready_loop waiters (ce_head (cond_tab d c)) d) (\<lambda>d1.
         res_bind (of_null (moveWholeList (tokenpos d1) (ce_head (cond_tab d1 c)) (nodes d1))) (\<lambda>(head, ns).
         let d2 = on_cond c (\<lambda>ce. ce\<lparr>ce_head := head\<rparr>) (d1\<lparr>nodes := ns\<rparr>);
             d3 = incrFence (scast (ucast (ce_waiters (cond_tab d2 c)) :: cint)) d2
         in Inr (on_cond c (\<lambda>ce. ce\<lparr>ce_waiters := 0\<rparr>) d3))))"

definition cond_broadcast :: "cint \<Rightarrow> nat \<Rightarrow> 'a dsys_scheme \<Rightarrow> 'a dsys_scheme result" where
  "cond_broadcast me cnd s =
     res_bind (cond_entry_of me cnd s) (\<lambda>(c, s1).
     if ce_waiters (cond_tab (dt s1) c) = 0 then Inr s1
     else res_bind (cond_wake_all c (dt s1)) (\<lambda>d. Inr (s1\<lparr>dt := d\<rparr>)))"

section \<open>Waiting for a signal\<close>

definition sig_wait_leave :: "nat \<Rightarrow> determ \<Rightarrow> determ result" where
  "sig_wait_leave i d =
     (let nxt = entry_next (nodes d i)
      in res_bind (unlink i d) (\<lambda>d1. Inr ((decrFence d1)\<lparr>tokenpos := nxt\<rparr>)))"

definition sig_wait_return :: "nat \<Rightarrow> determ \<Rightarrow> determ result" where
  "sig_wait_return i d =
     res_bind (if tokenpos d = None then Inr (d\<lparr>tokenpos := Some i\<rparr>)
               else res_bind (of_null (insertHead i (tokenpos d) (nodes d))) (\<lambda>ns. Inr (d\<lparr>nodes := ns\<rparr>)))
       (\<lambda>d1. Inr (incrFence 1 d1))"

section \<open>Barriers\<close>

definition barrier_init :: "cint \<Rightarrow> nat \<Rightarrow> cint \<Rightarrow> 'a dsys_scheme \<Rightarrow> 'a dsys_scheme result" where
  "barrier_init me bar cnt s =
     res_bind (allocSyncEntry sizeof_BarrierEntry s) (\<lambda>(p, s1).
     res_bind (deref p) (\<lambda>e.
     let s2 = on_dt (on_barrier e (\<lambda>_. \<lparr>be_maxthreads = scast cnt, be_threads = 0, be_arrival_phase = True,
                be_orig_barr = bar, be_head = None\<rparr>)) s1 in
     res_bind (on_xm_r (setSyncEntry me bar e) s2)
       (\<lambda>s3. Inr (on_dt (\<lambda>d. d\<lparr>barriernum := barriernum d + 1\<rparr>) s3))))"

text \<open>
  \<open>barrier_wait\<close> under the mutex: the thread that completes the barrier splices the whole queue in behind itself and passes the
  token to its head; any other thread moves from the ring to the tail of the queue. The Boolean tells the last thread.
\<close>

definition barrier_arrive :: "nat \<Rightarrow> nat \<Rightarrow> determ \<Rightarrow> (bool \<times> determ) result" where
  "barrier_arrive i b d0 =
     (let d = on_barrier b (\<lambda>be. be\<lparr>be_threads := be_threads be + 1\<rparr>) d0; be = barrier_tab d b
      in if be_threads be = be_maxthreads be
         then res_bind (of_null (moveWholeList (tokenpos d) (be_head be) (nodes d))) (\<lambda>(head, ns).
              let d1 = on_barrier b (\<lambda>be. be\<lparr>be_head := head\<rparr>) (d\<lparr>nodes := ns\<rparr>);
                  d2 = incrFence (scast (ucast (be_maxthreads be - 1) :: cint)) d1;
                  nextentry = entry_next (nodes d2 i);
                  d3 = on_barrier b (\<lambda>be. be\<lparr>be_threads := 0\<rparr>) d2
              in Inr (True, d3\<lparr>tokenpos := nextentry\<rparr>))
         else (let nextentry = entry_next (nodes d i)
               in res_bind (unlink i d) (\<lambda>d1.
                  res_bind (of_null (insertTail i (be_head (barrier_tab d1 b)) (nodes d1))) (\<lambda>(head, ns).
                  let d2 = on_barrier b (\<lambda>be. be\<lparr>be_head := head\<rparr>) (d1\<lparr>nodes := ns\<rparr>);
                      d3 = on_entry i (\<lambda>e. e\<lparr>te_status := STATUS_BARR_WAITING, te_barrier := Some b\<rparr>) d2
                  in Inr (False, (decrFence d3)\<lparr>tokenpos := nextentry\<rparr>)))))"

definition barrier_wait_start :: "cint \<Rightarrow> nat \<Rightarrow> nat \<Rightarrow> 'a dsys_scheme \<Rightarrow> (bool \<times> 'a dsys_scheme) result" where
  "barrier_wait_start me bar i s =
     res_bind (deref (sync_entry me bar s)) (\<lambda>b.
     res_bind (barrier_arrive i b (dt s)) (\<lambda>(lst, d).
     Inr (lst, if lst then s\<lparr>dt := d, xm := xm_bitmap_cleanup (xm s)\<rparr> else s\<lparr>dt := d\<rparr>)))"

text \<open>After the mutex is released, the next transaction begins: before the real barrier, or for the last thread after it.\<close>

definition barrier_wait_begin :: "cint \<Rightarrow> 'a dsys_scheme \<Rightarrow> 'a dsys_scheme result" where
  "barrier_wait_begin me s = on_xm_r (xm_begin me True) s"

definition barrier_destroy :: "cint \<Rightarrow> nat \<Rightarrow> 'a dsys_scheme \<Rightarrow> 'a dsys_scheme result" where
  "barrier_destroy me bar s =
     (let e = sync_entry me bar s
      in res_bind (freeSyncEntry e s) (\<lambda>s1.
         res_bind (on_xm_r (clearSyncEntry me bar) s1) (\<lambda>s2.
         Inr (on_dt (\<lambda>d. d\<lparr>barriernum := barriernum d - 1\<rparr>) s2))))"

end
