(* ===== verification/Xthread.thy ===== *)
theory Xthread
  imports Determ
begin

text \<open>
  Threads that are processes: the status page a parent and a child share (\<open>src/include/xthread.h\<close>, \<open>src/source/xthread.cpp\<close>), the
  statics each process has of its own (\<open>xrun\<close>, \<open>xthread\<close>), and the state of the whole system around the synchronisation layer. A
  process is named by its pid. A status page is addressed by its place in memory; \<open>munmap\<close> removes it, and a later access to it
  is a fault at an unmapped address, which the signal handler answers with \<open>abort\<close>.
\<close>

section \<open>State\<close>

record thread_status =
  ts_tid :: cint
  ts_threadIndex :: cint
  ts_retval :: ulong

text \<open>The statics of one process, and two registers: what the running call returns and its local Boolean.\<close>

record xproc =
  lib_initialized :: bool
  xr_initialized :: bool
  xr_protection_enabled :: bool
  xr_master_thread_id :: ulong
  xr_thread_index :: nat
  xr_fence_enabled :: bool
  xr_children_threads_count :: ulong
  xr_lock_count :: ulong
  xr_token_holding :: bool
  xt_nestingLevel :: cint
  xt_tid :: cint
  pr_ret :: ulong
  pr_flag :: bool

text \<open>
  What \<open>dsys\<close> leaves out: the processes, the counter of thread indices in \<open>global_data\<close>, the status pages, the processes asleep on
  a condition variable or on \<open>_cond_join\<close>, the real barriers (the number of threads each waits for and the processes inside), the
  pending signals, who has the mutex of each per-thread heap, and the processes that have ended.
\<close>

record xsys = dsys +
  procs :: "cint \<Rightarrow> xproc"
  gd_thread_index :: ulong
  statuses :: "nat \<Rightarrow> thread_status option"
  sleep_cond :: "nat \<Rightarrow> cint set"
  sleep_join :: "cint set"
  rb_count :: "nat \<Rightarrow> cint"
  rb_inside :: "nat \<Rightarrow> cint set"
  pending :: "cint \<Rightarrow> cint set"
  heap_holder :: "nat \<Rightarrow> cint option"
  dead :: "cint set"

definition on_proc :: "cint \<Rightarrow> (xproc \<Rightarrow> xproc) \<Rightarrow> xsys \<Rightarrow> xsys" where
  "on_proc me f s = s\<lparr>procs := (procs s)(me := f (procs s me))\<rparr>"

definition on_xm :: "(xmemory \<Rightarrow> xmemory) \<Rightarrow> xsys \<Rightarrow> xsys" where
  "on_xm f s = s\<lparr>xm := f (xm s)\<rparr>"

definition set_ret :: "cint \<Rightarrow> ulong \<Rightarrow> xsys \<Rightarrow> xsys" where
  "set_ret me v = on_proc me (\<lambda>p. p\<lparr>pr_ret := v\<rparr>)"

section \<open>Status pages\<close>

definition status_page :: "nat \<Rightarrow> xsys \<Rightarrow> thread_status result" where
  "status_page v s = (case statuses s v of None \<Rightarrow> Inl Aborted | Some t \<Rightarrow> Inr t)"

definition on_status :: "nat \<Rightarrow> (thread_status \<Rightarrow> thread_status) \<Rightarrow> xsys \<Rightarrow> xsys result" where
  "on_status v f s = res_bind (status_page v s) (\<lambda>t. Inr (s\<lparr>statuses := (statuses s)(v \<mapsto> f t)\<rparr>))"

definition allocateSharedObject :: "nat \<Rightarrow> xsys \<Rightarrow> xsys" where
  "allocateSharedObject v s = s\<lparr>statuses := (statuses s)(v \<mapsto> \<lparr>ts_tid = 0, ts_threadIndex = 0, ts_retval = 0\<rparr>)\<rparr>"

definition freeSharedObject :: "nat \<Rightarrow> xsys \<Rightarrow> xsys" where
  "freeSharedObject v s = s\<lparr>statuses := (statuses s)(v := None)\<rparr>"

definition getThreadIndex :: "nat \<Rightarrow> xsys \<Rightarrow> cint result" where
  "getThreadIndex v s = res_bind (status_page v s) (\<lambda>t. Inr (ts_threadIndex t))"

definition getThreadPid :: "nat \<Rightarrow> xsys \<Rightarrow> cint result" where
  "getThreadPid v s = res_bind (status_page v s) (\<lambda>t. Inr (ts_tid t))"

definition getId :: "cint \<Rightarrow> xsys \<Rightarrow> cint" where
  "getId me s = xt_tid (procs s me)"

definition setId :: "cint \<Rightarrow> cint \<Rightarrow> xsys \<Rightarrow> xsys" where
  "setId me i = on_proc me (\<lambda>p. p\<lparr>xt_tid := i\<rparr>)"

section \<open>Joining, cancelling and signalling\<close>

definition SIGKILL :: cint where
  "SIGKILL = 9"

definition SIGTERM :: cint where
  "SIGTERM = 15"

text \<open>The result is stored only through a pointer that is not NULL; \<open>want\<close> says whether it is.\<close>

definition xt_join :: "cint \<Rightarrow> nat \<Rightarrow> bool \<Rightarrow> xsys \<Rightarrow> xsys result" where
  "xt_join me v want s =
     res_bind (if want then res_bind (status_page v s) (\<lambda>t. Inr (set_ret me (ts_retval t) s)) else Inr s)
       (\<lambda>s1. Inr (freeSharedObject v s1))"

text \<open>\<open>SIGKILL\<close> ends a process at once; any other signal is left pending for it.\<close>

definition set_live :: "cint \<Rightarrow> bool \<Rightarrow> xsys \<Rightarrow> xsys" where
  "set_live q b = on_xm (\<lambda>m. put_globals ((xm_globals m)\<lparr>live := (live (xm_globals m))(q := b)\<rparr>)
     (put_source (fst (pp_source (xm_pheap m)), (heap_world m)\<lparr>live := (live (heap_world m))(q := b)\<rparr>) m))"

definition end_process :: "cint \<Rightarrow> xsys \<Rightarrow> xsys" where
  "end_process q s = set_live q False (s\<lparr>dead := insert q (dead s)\<rparr>)"

definition send_signal :: "cint \<Rightarrow> cint \<Rightarrow> xsys \<Rightarrow> xsys" where
  "send_signal q sig s =
     (if sig = SIGKILL then end_process q s else s\<lparr>pending := (pending s)(q := insert sig (pending s q))\<rparr>)"

definition xt_thread_kill :: "nat \<Rightarrow> cint \<Rightarrow> xsys \<Rightarrow> (cint \<times> xsys) result" where
  "xt_thread_kill v sig s =
     res_bind (status_page v s) (\<lambda>t. Inr (ts_threadIndex t, freeSharedObject v (send_signal (ts_tid t) sig s)))"

definition xt_cancel :: "nat \<Rightarrow> xsys \<Rightarrow> (cint \<times> xsys) result" where
  "xt_cancel v s =
     res_bind (status_page v s) (\<lambda>t. Inr (ts_threadIndex t, freeSharedObject v (send_signal (ts_tid t) SIGKILL s)))"

section \<open>Spawning\<close>

text \<open>
  \<open>clone\<close> without \<open>CLONE_VM\<close> copies the address space: the statics, the private pages and the records of both regions, the heap
  index. What is mapped shared is not copied.
\<close>

definition fork_world :: "cint \<Rightarrow> cint \<Rightarrow> world \<Rightarrow> world" where
  "fork_world me child w = w\<lparr>locals := (locals w)(child := locals w me), pools := (pools w)(child := pools w me),
     live := (live w)(child := True)\<rparr>"

definition fork_process :: "cint \<Rightarrow> cint \<Rightarrow> xsys \<Rightarrow> xsys" where
  "fork_process me child s =
     (let m = xm s;
          m1 = m\<lparr>xm_globals := fork_world me child (xm_globals m),
                 xm_pheap := (xm_pheap m)\<lparr>pp_source := (fst (pp_source (xm_pheap m)), fork_world me child (heap_world m))\<rparr>,
                 xm_heapid := (xm_heapid m)(child := xm_heapid m me), xm_other := (xm_other m)(child := xm_other m me)\<rparr>
      in s\<lparr>xm := m1, procs := (procs s)(child := procs s me), pending := (pending s)(child := {}), dead := dead s - {child}\<rparr>)"

text \<open>After its registration the child publishes its index and its pid in the status page.\<close>

definition publish_status :: "cint \<Rightarrow> nat \<Rightarrow> xsys \<Rightarrow> xsys result" where
  "publish_status me t s =
     on_status t (\<lambda>ts. ts\<lparr>ts_threadIndex := word_of_nat (xr_thread_index (procs s me)), ts_tid := getId me s\<rparr>) s"

definition nest :: "cint \<Rightarrow> cint \<Rightarrow> xsys \<Rightarrow> xsys" where
  "nest me n = on_proc me (\<lambda>p. p\<lparr>xt_nestingLevel := xt_nestingLevel p + n\<rparr>)"

text \<open>The last statement of \<open>run_thread\<close>: the result of the thread function, in register \<open>pr_ret\<close>, goes to the status page.\<close>

definition store_retval :: "cint \<Rightarrow> nat \<Rightarrow> ulong \<Rightarrow> xsys \<Rightarrow> xsys result" where
  "store_retval me t r = on_status t (\<lambda>ts. ts\<lparr>ts_retval := r\<rparr>)"

end
