(* ===== verification/Xrun.thy ===== *)
theory Xrun
  imports Xthread
begin

text \<open>
  The engine, \<open>src/include/xrun.h\<close>. Each function of \<open>xrun\<close> is a sequence of sections between waits. The sections are named by the
  constructors of \<open>instr\<close>, by the group they belong to; a function runs up to its first section boundary and leaves the rest as a list of sections. \<open>exec\<close> runs
  one section of one process: \<open>None\<close> when it has to wait, else its failure, or the new state and what it calls before the rest.
\<close>

section \<open>Sections\<close>

datatype fence_instr =
    FenceEnter bool | FenceSpin bool | FenceSleep bool | FenceArrive bool | FenceOut bool bool | FenceLeave bool

datatype token_instr = TokenGet | TokenIndex | TokenPut | TokenHolding bool | TokenDone | FenceStart | ChildrenNotify

datatype mem_instr = AtomicEnd | AtomicBegin | FinalCommit bool | OpenProtection | ForceCommit nat

datatype lock_instr = LockCount nat | GetLockAgain nat | TryLock nat

datatype barrier_instr = BarrierArrive nat | BarrierBegin | BarrierReal nat | BarrierInside nat

datatype sig_instr = SigLeave "cint list" | SigWait "cint list" | SigReturn

datatype cond_instr =
    CondWait nat nat | CondSleep nat nat | CondLoop nat nat | CondFinish nat | CondSignal nat | CondBroadcast nat

datatype spawn_instr =
    SpawnToken nat | SpawnCount nat | Clone nat | ChildWait | ChildWoken
  | ChildRegister nat nat | ParentWait | ParentWoken

datatype join_instr = JoinFence nat bool | JoinStart bool nat | JoinSleep nat | ThreadJoin nat bool | JoinClose

datatype kill_instr = CancelThread nat | KillToken nat cint | KillThread nat cint

datatype heap_instr =
    HeapLock | HeapMalloc ulong | HeapRefill ulong | HeapOwn nat nat | HeapUnlock | HeapFree ptr
  | HeapZero ulong | HeapSize ptr ulong | HeapCopy ptr ulong | HeapCheck

datatype end_instr = Deregister | StoreRet nat | ExitProcess | Ret ulong | User

datatype instr =
    IFence fence_instr | IToken token_instr | IMem mem_instr | ILock lock_instr | IBarrier barrier_instr | ISig sig_instr
  | ICond cond_instr | ISpawn spawn_instr | IJoin join_instr | IKill kill_instr | IHeap heap_instr | IEnd end_instr

section \<open>Statics and small functions\<close>

definition proc :: "cint \<Rightarrow> xsys \<Rightarrow> xproc" where
  "proc me s = procs s me"

definition my_index :: "cint \<Rightarrow> xsys \<Rightarrow> nat" where
  "my_index me s = xr_thread_index (procs s me)"

definition xr_id :: "cint \<Rightarrow> xsys \<Rightarrow> cint" where
  "xr_id me s = getId me s"

definition isMaster :: "cint \<Rightarrow> xsys \<Rightarrow> bool" where
  "isMaster me s = ((scast (getId me s) :: ulong) = xr_master_thread_id (procs s me))"

definition with_dt :: "(determ \<Rightarrow> determ result) \<Rightarrow> xsys \<Rightarrow> xsys result" where
  "with_dt f s = res_bind (f (dt s)) (\<lambda>d. Inr (s\<lparr>dt := d\<rparr>))"

definition openMemoryProtection :: "cint \<Rightarrow> xsys \<Rightarrow> xsys result" where
  "openMemoryProtection me s =
     (if xr_protection_enabled (procs s me) then Inr s
      else res_bind (on_xm_r (xm_openProtection me) s)
             (\<lambda>s1. Inr (on_proc me (\<lambda>p. p\<lparr>xr_protection_enabled := True\<rparr>) s1)))"

definition closeMemoryProtection :: "cint \<Rightarrow> xsys \<Rightarrow> xsys result" where
  "closeMemoryProtection me s =
     res_bind (on_xm_r (xm_closeProtection me) s)
       (\<lambda>s1. Inr (on_proc me (\<lambda>p. p\<lparr>xr_protection_enabled := False\<rparr>) s1))"

definition xr_finalize :: "cint \<Rightarrow> xsys \<Rightarrow> xsys result" where
  "xr_finalize me = on_xm_r (xm_finalize me)"

definition atomicBegin :: "cint \<Rightarrow> bool \<Rightarrow> xsys \<Rightarrow> xsys result" where
  "atomicBegin me cleanup s =
     (if \<not> xr_protection_enabled (procs s me) then Inr s else on_xm_r (xm_begin me cleanup) s)"

definition atomicEnd :: "cint \<Rightarrow> bool \<Rightarrow> xsys \<Rightarrow> xsys result" where
  "atomicEnd me update s =
     (if \<not> xr_protection_enabled (procs s me) then Inr s else on_xm_r (xm_commit me update) s)"

definition xr_waitFence :: "instr list" where
  "xr_waitFence = [IFence (FenceEnter False)]"

definition xr_waitToken :: "instr list" where
  "xr_waitToken = [IFence (FenceEnter True), IToken TokenGet]"

definition xr_putToken :: "cint \<Rightarrow> xsys \<Rightarrow> xsys result" where
  "xr_putToken me s = with_dt (putToken (my_index me s)) s"

text \<open>The count of children is passed as an \<open>int\<close>; the assertions of \<open>startFence\<close> are compiled out.\<close>

definition xr_startFence :: "cint \<Rightarrow> xsys \<Rightarrow> xsys" where
  "xr_startFence me s =
     (let threads = unat (scast (ucast (xr_children_threads_count (procs s me)) :: cint) :: ulong)
      in on_proc me (\<lambda>p. p\<lparr>xr_children_threads_count := 0, xr_fence_enabled := True\<rparr>) (on_dt (startFence threads) s))"

definition closeFence :: "cint \<Rightarrow> xsys \<Rightarrow> xsys" where
  "closeFence me s =
     (on_proc me (\<lambda>p. p\<lparr>xr_fence_enabled := False, xr_children_threads_count := 0\<rparr>) s)\<lparr>gd_thread_index := 1\<rparr>"

definition forceThreadCommit :: "cint \<Rightarrow> nat \<Rightarrow> xsys \<Rightarrow> xsys result" where
  "forceThreadCommit me v s = res_bind (getThreadPid v s) (\<lambda>pid. Inr (on_xm (xm_forceCommit me pid) s))"

section \<open>Initialisation and registration\<close>

definition xr_initialize :: "xm_os \<Rightarrow> ulong \<Rightarrow> cint \<Rightarrow> xsys \<Rightarrow> xsys result" where
  "xr_initialize os nprocessors me s0 =
     (let s = on_proc me (\<lambda>p. p\<lparr>xr_initialized := True, xr_protection_enabled := False, xr_children_threads_count := 0,
                xr_lock_count := 0, xr_token_holding := False\<rparr>) s0
      in res_bind (on_xm_r (xm_initialize os me) s) (\<lambda>s1.
         let s2 = setId me me s1;
             s3 = on_proc me (\<lambda>p. p\<lparr>xr_master_thread_id := scast me\<rparr>) s2;
             s4 = on_xm (xm_setThreadIndex me 0) s3
         in res_bind (with_dt (determ_initialize nprocessors) (s4\<lparr>dt := determ_getInstance\<rparr>)) (\<lambda>s5.
            let s6 = on_xm (on_globals (on_sh (\<lambda>s. s\<lparr>twins := bm_initialize\<rparr>))) s5;
                s7 = on_proc me (\<lambda>p. p\<lparr>xr_thread_index := 0\<rparr>) s6
            in res_bind (with_dt (registerMaster 0 me) s7)
                 (\<lambda>s8. Inr (on_proc me (\<lambda>p. p\<lparr>xr_fence_enabled := False\<rparr>) s8)))))"

text \<open>\<open>_thread_index\<close> is the \<open>int\<close> that the increment returned, widened to a \<open>size_t\<close>.\<close>

definition childRegister :: "cint \<Rightarrow> nat \<Rightarrow> xsys \<Rightarrow> xsys result" where
  "childRegister me parentindex s =
     (case increment_and_return (gd_thread_index s) of
        (cnt, i) \<Rightarrow>
          let index = unat (scast i :: ulong);
              s1 = on_proc me (\<lambda>p. p\<lparr>xr_thread_index := index, xr_lock_count := 0, xr_token_holding := False,
                     xr_fence_enabled := True\<rparr>) (s\<lparr>gd_thread_index := cnt\<rparr>)
          in res_bind (with_dt (registerThread index me parentindex) s1)
               (\<lambda>s2. Inr (on_xm (\<lambda>m. xm_cleanupOwnedBlocks me (xm_setThreadIndex me (sint i) m)) s2)))"

definition threadDeregister :: "instr list" where
  "threadDeregister = xr_waitToken @ [IMem (FinalCommit False), IMem AtomicEnd, IEnd Deregister]"

section \<open>Spawning and joining\<close>

text \<open>The argument names the status page of the new thread.\<close>

definition xr_spawn :: "cint \<Rightarrow> nat \<Rightarrow> xsys \<Rightarrow> instr list" where
  "xr_spawn me t s =
     (if \<not> xr_protection_enabled (procs s me) then [IMem OpenProtection, IMem AtomicBegin] else [])
     @ [IMem AtomicEnd, IMem (FinalCommit True), ISpawn (SpawnToken t)]"

definition xr_join :: "cint \<Rightarrow> ptr \<Rightarrow> bool \<Rightarrow> xsys \<Rightarrow> instr list" where
  "xr_join me v want s =
     (case v of None \<Rightarrow> []
      | Some t \<Rightarrow> (if xr_fence_enabled (procs s me) then xr_waitToken else [])
          @ [IMem AtomicEnd, IMem (FinalCommit True), IJoin (JoinFence t want)])"

definition xr_join_start :: "cint \<Rightarrow> bool \<Rightarrow> nat \<Rightarrow> xsys \<Rightarrow> (instr list \<times> xsys) result" where
  "xr_join_start me wakeup t s =
     res_bind (getThreadIndex t s) (\<lambda>gi.
     let g = unat (scast gi :: ulong)
     in res_bind (join_start g (my_index me s) wakeup (dt s)) (\<lambda>(sleeps, d).
        Inr (if sleeps then ([IJoin (JoinSleep g), IToken TokenIndex], s\<lparr>dt := d, sleep_join := insert me (sleep_join s)\<rparr>)
             else ([], s\<lparr>dt := d\<rparr>))))"

definition xr_join_wakeup :: "cint \<Rightarrow> nat \<Rightarrow> xsys \<Rightarrow> (instr list \<times> xsys) result" where
  "xr_join_wakeup me g s =
     res_bind (join_wakeup g (my_index me s) (dt s)) (\<lambda>(sleeps, d).
     Inr (if sleeps then ([IJoin (JoinSleep g)], s\<lparr>dt := d, sleep_join := insert me (sleep_join s)\<rparr>) else ([], s\<lparr>dt := d\<rparr>)))"

definition xr_join_close :: "cint \<Rightarrow> xsys \<Rightarrow> xsys result" where
  "xr_join_close me s =
     (if isSingleAliveThread (dt s) then res_bind (closeMemoryProtection me s) (\<lambda>s1. Inr (closeFence me s1)) else Inr s)"

text \<open>A parent that joins the exiting thread is woken, with every other joiner.\<close>

definition xr_deregister :: "cint \<Rightarrow> xsys \<Rightarrow> xsys result" where
  "xr_deregister me s =
     (let i = my_index me s; parent = te_tid_parent (entries (dt s) i);
          wakes = te_status (entries (dt s) parent) = STATUS_JOINING \<and> te_joinee (entries (dt s) parent) = i
      in res_bind (with_dt (deregisterThread i) s) (\<lambda>s1. Inr (if wakes then s1\<lparr>sleep_join := {}\<rparr> else s1)))"

section \<open>Cancelling and killing\<close>

text \<open>\<open>isFound\<close> is still false where it is tested, so the forced commit never happens.\<close>

definition xr_cancel :: "cint \<Rightarrow> nat \<Rightarrow> xsys \<Rightarrow> instr list" where
  "xr_cancel me v s =
     (let isFound = False
      in (if \<not> xr_token_holding (procs s me) then xr_waitToken else [])
         @ [IMem AtomicEnd] @ (if isFound then [IMem (ForceCommit v)] else []) @ [IMem AtomicBegin, IKill (CancelThread v), IToken TokenDone])"

definition xr_cancel_thread :: "cint \<Rightarrow> nat \<Rightarrow> xsys \<Rightarrow> xsys result" where
  "xr_cancel_thread me v s =
     res_bind (xt_cancel v s) (\<lambda>(ti, s1).
     res_bind (cancel (unat (scast ti :: ulong)) (dt s1)) (\<lambda>(found, d).
     Inr (on_proc me (\<lambda>p. p\<lparr>pr_flag := found\<rparr>) (s1\<lparr>dt := d\<rparr>))))"

definition unless_holding :: "cint \<Rightarrow> xsys \<Rightarrow> instr list" where
  "unless_holding me s = (if \<not> xr_token_holding (procs s me) then IToken TokenPut # xr_waitFence else [])"

definition xr_kill :: "cint \<Rightarrow> nat \<Rightarrow> cint \<Rightarrow> xsys \<Rightarrow> instr list" where
  "xr_kill me v sig s = (if sig = SIGKILL \<or> sig = SIGTERM then xr_cancel me v s else []) @ [IKill (KillToken v sig)]"

section \<open>Running a section\<close>

text \<open>\<open>run\<close>: a section that always goes on; \<open>wait_for\<close>: one that waits for a condition first.\<close>

definition run :: "xsys result \<Rightarrow> (instr list \<times> xsys) result option" where
  "run r = Some (res_bind r (\<lambda>s. Inr ([], s)))"

definition wait_for :: "bool result \<Rightarrow> (instr list \<times> xsys) result \<Rightarrow> (instr list \<times> xsys) result option" where
  "wait_for b r = (case b of Inl e \<Rightarrow> Some (Inl e) | Inr c \<Rightarrow> if c then Some r else None)"

text \<open>
  The fence. A thread that finds no arrival phase spins outside the mutex or sleeps on the condition variable, as it decided when
  it entered; the last thread to arrive leaves at once, in the same section. A sleeper has to be woken, and looks again at what it waits for.
\<close>

definition fence_arrive_leave :: "cint \<Rightarrow> bool \<Rightarrow> xsys \<Rightarrow> (instr list \<times> xsys) result" where
  "fence_arrive_leave me keep s =
     (let spinning = spins (dt s)
      in case fence_arrive (my_index me s) (dt s) of
           (lst, d) \<Rightarrow> if lst then Inr ([], waitFence_leave keep (s\<lparr>dt := d\<rparr>))
                       else Inr ([IFence (FenceOut spinning keep)], s\<lparr>dt := d\<rparr>))"

fun exec_fence :: "cint \<Rightarrow> fence_instr \<Rightarrow> xsys \<Rightarrow> (instr list \<times> xsys) result option" where
  "exec_fence me (FenceEnter keep) s =
     Some (if fence_open (dt s) then fence_arrive_leave me keep s
           else if spins (dt s) then Inr ([IFence (FenceSpin keep)], s)
           else Inr ([IFence (FenceSleep keep)], on_dt (fence_sleep (my_index me s)) s))"
| "exec_fence me (FenceSpin keep) s = wait_for (Inr (fence_open (dt s))) (Inr ([IFence (FenceArrive keep)], s))"
| "exec_fence me (FenceSleep keep) s = 
     wait_for (Inr (fence_awake (my_index me s) (dt s)))
       (if fence_open (dt s) then fence_arrive_leave me keep s else Inr ([IFence (FenceSleep keep)], on_dt (fence_sleep (my_index me s)) s))"
| "exec_fence me (FenceArrive keep) s = Some (fence_arrive_leave me keep s)"
| "exec_fence me (FenceOut spinning keep) s =
     (if spinning
      then wait_for (Inr (fence_released (dt s))) (Inr ([IFence (FenceLeave keep)], on_dt (fence_wakeup (my_index me s)) s))
      else wait_for (Inr (fence_awake (my_index me s) (dt s)))
        (if fence_released (dt s) then Inr ([], waitFence_leave keep s)
         else Inr ([IFence (FenceOut spinning keep)], on_dt (fence_sleep_again (my_index me s)) s)))"
| "exec_fence me (FenceLeave keep) s = run (Inr (waitFence_leave keep s))"

text \<open>\<open>cond_wait\<close> and \<open>join\<close> compare the index of the thread at the token position instead of its pid.\<close>

fun exec_token :: "cint \<Rightarrow> token_instr \<Rightarrow> xsys \<Rightarrow> (instr list \<times> xsys) result option" where
  "exec_token me TokenGet s = wait_for (has_token (getId me s) (dt s)) (Inr ([], s))"
| "exec_token me TokenIndex s = wait_for (token_index (my_index me s) (dt s)) (Inr ([], s))"
| "exec_token me TokenPut s = run (xr_putToken me s)"
| "exec_token me (TokenHolding b) s = run (Inr (on_proc me (\<lambda>p. p\<lparr>xr_token_holding := b\<rparr>) s))"
| "exec_token me TokenDone s = Some (Inr (unless_holding me s, s))"
| "exec_token me FenceStart s = run (Inr (xr_startFence me s))"
| "exec_token me ChildrenNotify s = run (Inr (on_dt notifyWaitingChildren s))"

fun exec_mem :: "cint \<Rightarrow> mem_instr \<Rightarrow> xsys \<Rightarrow> (instr list \<times> xsys) result option" where
  "exec_mem me AtomicEnd s = run (atomicEnd me False s)"
| "exec_mem me AtomicBegin s = run (atomicBegin me True s)"
| "exec_mem me (FinalCommit release) s = run (Inr (on_xm (xm_finalcommit me release) s))"
| "exec_mem me OpenProtection s = run (openMemoryProtection me s)"
| "exec_mem me (ForceCommit v) s = run (forceThreadCommit me v s)"

end
