(* ===== verification/XrunSync.thy ===== *)
theory XrunSync
  imports Xrun
begin

text \<open>
  The synchronisation operations of \<open>src/include/xrun.h\<close>, one group of sections at a time. A blocked section
  is one that waits: \<open>exec\<close> is then \<open>None\<close> and another process runs.
\<close>

section \<open>Mutexes\<close>

definition mutex_init :: "cint \<Rightarrow> nat \<Rightarrow> xsys \<Rightarrow> xsys result" where
  "mutex_init me m s = res_bind (lock_init me m s) (\<lambda>(_, s1). Inr s1)"

definition mutex_destroy :: "cint \<Rightarrow> nat \<Rightarrow> xsys \<Rightarrow> xsys result" where
  "mutex_destroy me m s = lock_destroy me m s"

text \<open>Without children there is nothing to exclude; the first operation after spawning starts the fence.\<close>

definition start_or :: "cint \<Rightarrow> instr list \<Rightarrow> xsys \<Rightarrow> instr list" where
  "start_or me body s =
     (if \<not> xr_fence_enabled (procs s me)
      then (if xr_children_threads_count (procs s me) = 0 then []
            else [IToken FenceStart, IToken ChildrenNotify] @ body)
      else body)"

definition mutex_lock :: "cint \<Rightarrow> nat \<Rightarrow> xsys \<Rightarrow> instr list" where
  "mutex_lock me m s = start_or me [ILock (LockCount m)] s"

definition lock_count :: "cint \<Rightarrow> nat \<Rightarrow> xsys \<Rightarrow> (instr list \<times> xsys) result" where
  "lock_count me m s0 =
     (let s = on_proc me (\<lambda>p. p\<lparr>xr_lock_count := xr_lock_count p + 1\<rparr>) s0
      in case lock_isowner me m s of
           (b, s1) \<Rightarrow> if b \<or> isSingleWorkingThread (dt s1)
             then res_bind (lock_acquire me m s1) (\<lambda>(got, s2). Inr (if \<not> got then [ILock (GetLockAgain m)] else [], s2))
             else Inr ([ILock (GetLockAgain m)], s1))"

definition getLockAgain :: "cint \<Rightarrow> nat \<Rightarrow> xsys \<Rightarrow> instr list" where
  "getLockAgain me m s =
     (if \<not> xr_token_holding (procs s me)
      then xr_waitToken @ [IToken (TokenHolding True), IMem AtomicEnd, IMem AtomicBegin] else [])
     @ [ILock (TryLock m)]"

definition try_lock :: "cint \<Rightarrow> nat \<Rightarrow> xsys \<Rightarrow> (instr list \<times> xsys) result" where
  "try_lock me m s =
     res_bind (lock_acquire me m s) (\<lambda>(got, s1).
     Inr (if \<not> got then [IMem AtomicEnd, IToken TokenPut, IMem AtomicBegin] @ xr_waitFence
            @ [IToken (TokenHolding False), ILock (GetLockAgain m)] else [], s1))"

definition mutex_unlock :: "cint \<Rightarrow> nat \<Rightarrow> xsys \<Rightarrow> (instr list \<times> xsys) result" where
  "mutex_unlock me m s0 =
     (if \<not> xr_fence_enabled (procs s0 me) then Inr ([], s0)
      else (let s = on_proc me (\<lambda>p. p\<lparr>xr_lock_count := xr_lock_count p - 1\<rparr>) s0
            in res_bind (lock_release me m s) (\<lambda>s1.
               Inr (if xr_lock_count (procs s1 me) = 0 \<and> xr_token_holding (procs s1 me)
                    then [IMem AtomicEnd, IToken TokenPut, IToken (TokenHolding False), IMem AtomicBegin] @ xr_waitFence
                    else [], s1))))"

fun exec_lock :: "cint \<Rightarrow> lock_instr \<Rightarrow> xsys \<Rightarrow> (instr list \<times> xsys) result option" where
  "exec_lock me (LockCount m) s = Some (lock_count me m s)"
| "exec_lock me (GetLockAgain m) s = Some (Inr (getLockAgain me m s, s))"
| "exec_lock me (TryLock m) s = Some (try_lock me m s)"

section \<open>Barriers\<close>

text \<open>The real barrier releases everybody inside when as many as it was made for have come.\<close>

definition xr_barrier_init :: "cint \<Rightarrow> nat \<Rightarrow> cint \<Rightarrow> xsys \<Rightarrow> xsys result" where
  "xr_barrier_init me bar cnt s =
     res_bind (barrier_init me bar cnt s) (\<lambda>s1.
     res_bind (deref (sync_entry me bar s1)) (\<lambda>e.
     Inr (s1\<lparr>rb_count := (rb_count s1)(e := cnt), rb_inside := (rb_inside s1)(e := {})\<rparr>)))"

definition xr_barrier_destroy :: "cint \<Rightarrow> nat \<Rightarrow> xsys \<Rightarrow> xsys result" where
  "xr_barrier_destroy me bar s = barrier_destroy me bar s"

definition xr_barrier_wait :: "cint \<Rightarrow> nat \<Rightarrow> xsys \<Rightarrow> instr list" where
  "xr_barrier_wait me bar s = start_or me (xr_waitToken @ [IMem AtomicEnd, IBarrier (BarrierArrive bar)]) s"

definition xr_barrier_arrive :: "cint \<Rightarrow> nat \<Rightarrow> xsys \<Rightarrow> (instr list \<times> xsys) result" where
  "xr_barrier_arrive me bar s =
     res_bind (deref (sync_entry me bar s)) (\<lambda>b.
     res_bind (barrier_wait_start me bar (my_index me s) s) (\<lambda>(lst, s1).
     Inr (if lst then [IBarrier (BarrierReal b), IBarrier BarrierBegin] else [IBarrier BarrierBegin, IBarrier (BarrierReal b)], s1)))"

definition real_barrier_enter :: "cint \<Rightarrow> nat \<Rightarrow> xsys \<Rightarrow> instr list \<times> xsys" where
  "real_barrier_enter me b s =
     (if Suc (card (rb_inside s b)) = unat (rb_count s b)
      then ([], s\<lparr>rb_inside := (rb_inside s)(b := {})\<rparr>)
      else ([IBarrier (BarrierInside b)], s\<lparr>rb_inside := (rb_inside s)(b := insert me (rb_inside s b))\<rparr>))"

fun exec_barrier :: "cint \<Rightarrow> barrier_instr \<Rightarrow> xsys \<Rightarrow> (instr list \<times> xsys) result option" where
  "exec_barrier me (BarrierArrive bar) s = Some (xr_barrier_arrive me bar s)"
| "exec_barrier me BarrierBegin s = run (barrier_wait_begin me s)"
| "exec_barrier me (BarrierReal b) s = Some (Inr (real_barrier_enter me b s))"
| "exec_barrier me (BarrierInside b) s = wait_for (Inr (me \<notin> rb_inside s b)) (Inr ([], s))"

section \<open>Signals\<close>

definition EINVAL :: ulong where
  "EINVAL = 22"

definition xr_sig_wait :: "cint list \<Rightarrow> instr list" where
  "xr_sig_wait sigs = xr_waitToken @ [IMem AtomicEnd, ISig (SigLeave sigs)]"

definition bad_signal :: "cint \<Rightarrow> bool" where
  "bad_signal x \<longleftrightarrow> sint x < 1 \<or> 64 < sint x"

text \<open>An error of \<open>sigwait\<close> is returned at once: the thread stays out of the ring. A signal that arrived is taken and reported.\<close>

definition take_signal :: "cint \<Rightarrow> cint list \<Rightarrow> xsys \<Rightarrow> (instr list \<times> xsys) result" where
  "take_signal me sigs s =
     (case filter (\<lambda>x. x \<in> pending s me) sigs of
        [] \<Rightarrow> Inr ([], s)
      | x # _ \<Rightarrow> Inr ([ISig SigReturn, IMem AtomicBegin, IEnd (Ret 0)], s\<lparr>pending := (pending s)(me := pending s me - {x})\<rparr>))"

fun exec_sig :: "cint \<Rightarrow> sig_instr \<Rightarrow> xsys \<Rightarrow> (instr list \<times> xsys) result option" where
  "exec_sig me (SigLeave sigs) s =
     Some (res_bind (with_dt (sig_wait_leave (my_index me s)) s) (\<lambda>s1. Inr ([ISig (SigWait sigs)], s1)))"
| "exec_sig me (SigWait sigs) s =
     (if list_ex bad_signal sigs then Some (Inr ([IEnd (Ret EINVAL)], s))
      else wait_for (Inr (list_ex (\<lambda>x. x \<in> pending s me) sigs)) (take_signal me sigs s))"
| "exec_sig me SigReturn s = run (with_dt (sig_wait_return (my_index me s)) s)"

section \<open>Condition variables\<close>

definition xr_cond_init :: "cint \<Rightarrow> nat \<Rightarrow> xsys \<Rightarrow> xsys result" where
  "xr_cond_init me c s = res_bind (cond_init me c s) (\<lambda>(_, s1). Inr s1)"

definition xr_cond_destroy :: "cint \<Rightarrow> nat \<Rightarrow> xsys \<Rightarrow> xsys result" where
  "xr_cond_destroy me c s = cond_destroy me c s"

definition xr_cond_wait :: "nat \<Rightarrow> nat \<Rightarrow> instr list" where
  "xr_cond_wait c m = [IMem AtomicEnd, ICond (CondWait c m), IMem AtomicBegin]"

text \<open>The waiter sleeps on the condition variable of its entry; a signal wakes everybody who sleeps there.\<close>

definition cond_start :: "cint \<Rightarrow> nat \<Rightarrow> nat \<Rightarrow> xsys \<Rightarrow> (instr list \<times> xsys) result" where
  "cond_start me cnd m s =
     res_bind (cond_entry_of me cnd s) (\<lambda>(c, s1).
     res_bind (cond_wait_start me (my_index me s) cnd m s1) (\<lambda>s2.
     Inr ([ICond (CondSleep c m), IToken TokenIndex, ICond (CondFinish m)],
          s2\<lparr>sleep_cond := (sleep_cond s2)(c := insert me (sleep_cond s2 c))\<rparr>)))"

definition cond_loop :: "cint \<Rightarrow> nat \<Rightarrow> nat \<Rightarrow> xsys \<Rightarrow> (instr list \<times> xsys) result" where
  "cond_loop me c m s =
     (if cond_ready (my_index me s) (dt s) then Inr ([], s)
      else res_bind (cond_retry me (my_index me s) m s) (\<lambda>s1.
           Inr ([ICond (CondSleep c m)], s1\<lparr>sleep_cond := (sleep_cond s1)(c := insert me (sleep_cond s1 c))\<rparr>)))"

definition wake_sleepers :: "nat \<Rightarrow> xsys \<Rightarrow> xsys" where
  "wake_sleepers c s = s\<lparr>sleep_cond := (sleep_cond s)(c := {})\<rparr>"

definition waking :: "(cint \<Rightarrow> nat \<Rightarrow> xsys \<Rightarrow> xsys result) \<Rightarrow> cint \<Rightarrow> nat \<Rightarrow> xsys \<Rightarrow> xsys result" where
  "waking op me cnd s =
     res_bind (cond_entry_of me cnd s) (\<lambda>(c, s1).
     res_bind (op me cnd s1) (\<lambda>s2. Inr (if ce_waiters (cond_tab (dt s1) c) = 0 then s2 else wake_sleepers c s2)))"

definition xr_cond_wake :: "cint \<Rightarrow> cond_instr \<Rightarrow> xsys \<Rightarrow> instr list" where
  "xr_cond_wake me op s =
     (if \<not> xr_fence_enabled (procs s me) then []
      else (if \<not> xr_token_holding (procs s me) then xr_waitToken else [])
           @ [IMem AtomicEnd, ICond op, IMem AtomicBegin, IToken TokenDone])"

definition xr_cond_signal :: "cint \<Rightarrow> nat \<Rightarrow> xsys \<Rightarrow> instr list" where
  "xr_cond_signal me c = xr_cond_wake me (CondSignal c)"

definition xr_cond_broadcast :: "cint \<Rightarrow> nat \<Rightarrow> xsys \<Rightarrow> instr list" where
  "xr_cond_broadcast me c = xr_cond_wake me (CondBroadcast c)"

fun exec_cond :: "cint \<Rightarrow> cond_instr \<Rightarrow> xsys \<Rightarrow> (instr list \<times> xsys) result option" where
  "exec_cond me (CondWait c m) s = Some (cond_start me c m s)"
| "exec_cond me (CondSleep c m) s = wait_for (Inr (me \<notin> sleep_cond s c)) (Inr ([ICond (CondLoop c m)], s))"
| "exec_cond me (CondLoop c m) s = Some (cond_loop me c m s)"
| "exec_cond me (CondFinish m) s = run (cond_wait_finish me m s)"
| "exec_cond me (CondSignal c) s = run (waking cond_signal me c s)"
| "exec_cond me (CondBroadcast c) s = run (waking cond_broadcast me c s)"

section \<open>Spawning, joining, cancelling\<close>

text \<open>
  The parent that spawns keeps the token and turns its fence off until its next synchronisation. \<open>Clone\<close> needs a new process and
  belongs to the step relation.
\<close>

definition spawn_token :: "cint \<Rightarrow> nat \<Rightarrow> xsys \<Rightarrow> instr list" where
  "spawn_token me t s = (if xr_fence_enabled (procs s me) then xr_waitToken else []) @ [ISpawn (SpawnCount t)]"

definition spawn_count :: "cint \<Rightarrow> nat \<Rightarrow> xsys \<Rightarrow> instr list \<times> xsys" where
  "spawn_count me t s =
     ([ISpawn (Clone t), ISpawn ChildWait, IMem AtomicBegin, IEnd (Ret (word_of_nat t))],
      on_proc me (\<lambda>p. (if xr_fence_enabled p then p\<lparr>xr_fence_enabled := False, xr_children_threads_count := 0 + 1\<rparr>
                       else p\<lparr>xr_children_threads_count := xr_children_threads_count p + 1\<rparr>)) s)"

fun exec_spawn :: "cint \<Rightarrow> spawn_instr \<Rightarrow> xsys \<Rightarrow> (instr list \<times> xsys) result option" where
  "exec_spawn me (SpawnToken t) s = Some (Inr (spawn_token me t s, s))"
| "exec_spawn me (SpawnCount t) s = Some (Inr (spawn_count me t s))"
| "exec_spawn me (Clone t) s = None"
| "exec_spawn me ChildWait s =
     (case waitChildRegistered_sleep (my_index me s) (dt s) of
        (sleeps, d) \<Rightarrow> Some (Inr (if sleeps then [ISpawn ChildWoken] else [], s\<lparr>dt := d\<rparr>)))"
| "exec_spawn me ChildWoken s =
     wait_for (Inr (waitChildRegistered_woken (my_index me s) (dt s))) (Inr ([], on_dt waitChildRegistered_done s))"
| "exec_spawn me (ChildRegister parentindex t) s =
     run (res_bind (childRegister me parentindex (setId me me s)) (publish_status me t))"
| "exec_spawn me ParentWait s = Some (Inr ([ISpawn ParentWoken], on_dt (waitParentNotify_sleep (my_index me s)) s))"
| "exec_spawn me ParentWoken s =
     wait_for (Inr (waitParentNotify_woken (my_index me s) (dt s))) (Inr ([], nest me 1 s))"

definition join_fence :: "cint \<Rightarrow> nat \<Rightarrow> bool \<Rightarrow> xsys \<Rightarrow> instr list" where
  "join_fence me t want s =
     (if \<not> xr_fence_enabled (procs s me) then [IToken FenceStart, IJoin (JoinStart True t)] else [IJoin (JoinStart False t)])
     @ [IToken TokenPut, IJoin (ThreadJoin t want)] @ xr_waitFence @ [IMem AtomicBegin, IJoin JoinClose]"

fun exec_join :: "cint \<Rightarrow> join_instr \<Rightarrow> xsys \<Rightarrow> (instr list \<times> xsys) result option" where
  "exec_join me (JoinFence t want) s = Some (Inr (join_fence me t want s, s))"
| "exec_join me (JoinStart wakeup t) s = Some (xr_join_start me wakeup t s)"
| "exec_join me (JoinSleep g) s = wait_for (Inr (me \<notin> sleep_join s)) (xr_join_wakeup me g s)"
| "exec_join me (ThreadJoin t want) s = run (xt_join me t want s)"
| "exec_join me JoinClose s = run (xr_join_close me s)"

fun exec_kill :: "cint \<Rightarrow> kill_instr \<Rightarrow> xsys \<Rightarrow> (instr list \<times> xsys) result option" where
  "exec_kill me (CancelThread v) s = run (xr_cancel_thread me v s)"
| "exec_kill me (KillToken v sig) s =
     Some (Inr ((if \<not> xr_token_holding (procs s me) then xr_waitToken else [])
                @ [IMem AtomicEnd, IKill (KillThread v sig), IMem AtomicBegin, IToken TokenDone], s))"
| "exec_kill me (KillThread v sig) s = run (res_bind (xt_thread_kill v sig s) (\<lambda>(_, s1). Inr s1))"

section \<open>The end of a thread\<close>

text \<open>\<open>User\<close> is the program's own code and belongs to the step relation.\<close>

fun exec_end :: "cint \<Rightarrow> end_instr \<Rightarrow> xsys \<Rightarrow> (instr list \<times> xsys) result option" where
  "exec_end me Deregister s = run (xr_deregister me s)"
| "exec_end me (StoreRet t) s = run (res_bind (store_retval me t (pr_ret (procs s me)) s) (\<lambda>s1. Inr (nest me (- 1) s1)))"
| "exec_end me ExitProcess s = run (Inr (end_process me s))"
| "exec_end me (Ret v) s = run (Inr (set_ret me v s))"
| "exec_end me User s = None"

definition child_code :: "nat \<Rightarrow> nat \<Rightarrow> instr list" where
  "child_code parentindex t =
     [ISpawn (ChildRegister parentindex t), ISpawn ParentWait, IMem AtomicBegin, IEnd User]
     @ threadDeregister @ [IEnd (StoreRet t), IEnd ExitProcess]"

end
