(* ===== verification/XrunHeap.thy ===== *)
theory XrunHeap
  imports XrunSync
begin

text \<open>
  Allocation in the engine (\<open>malloc\<close> to \<open>realloc\<close> of \<open>src/include/xrun.h\<close>), and \<open>exec\<close>, which runs one section of one process. The
  mutex of a per-thread heap is a real one (\<open>PPHeap::lock\<close> of \<open>src/include/warpheap.h\<close>) and is held across the whole allocation; the mutex of the
  source below it (\<open>src/include/xheap.h\<close>) is one of the library, so that an allocation which needs a new chunk goes through
  \<open>mutex_lock\<close> and \<open>mutex_unlock\<close> and may wait for the fence and the token inside. The pointer is returned in \<open>pr_ret\<close>.
\<close>

section \<open>The sections of an allocation\<close>

definition heap_of :: "cint \<Rightarrow> xsys \<Rightarrow> nat" where
  "heap_of me s = xm_heapid (xm s) me"

definition heap_top :: "xsys \<Rightarrow> xheap" where
  "heap_top s = fst (pp_source (xm_pheap (xm s)))"

definition heap_lock :: "cint \<Rightarrow> xsys \<Rightarrow> xsys" where
  "heap_lock me s = s\<lparr>heap_holder := (heap_holder s)(heap_of me s := Some me)\<rparr>"

definition heap_unlock :: "cint \<Rightarrow> xsys \<Rightarrow> xsys" where
  "heap_unlock me s = s\<lparr>heap_holder := (heap_holder s)(heap_of me s := None)\<rparr>"

definition heap_malloc :: "cint \<Rightarrow> ulong \<Rightarrow> xsys \<Rightarrow> (instr list \<times> xsys) result" where
  "heap_malloc me sz s =
     (if xm_asks me sz (xm s) then Inr (mutex_lock me (xh_mutex (heap_top s)) s @ [IHeap (HeapRefill sz)], s)
      else res_bind (xm_malloc me sz (xm s)) (\<lambda>(p, m). Inr ([], heap_unlock me (set_ret me (enc p) (s\<lparr>xm := m\<rparr>)))))"

definition heap_refill :: "cint \<Rightarrow> ulong \<Rightarrow> xsys \<Rightarrow> (instr list \<times> xsys) result" where
  "heap_refill me sz s =
     res_bind (xm_malloc_bump me sz (xm s)) (\<lambda>(p, m).
     let s1 = set_ret me (enc p) (s\<lparr>xm := m\<rparr>);
         start = xh_position (heap_top s);
         n = xh_position (heap_top s1) - start
     in res_bind (mutex_unlock me (xh_mutex (heap_top s)) s1) (\<lambda>(is, s2).
        Inr (is @ [IHeap (HeapOwn start n), IHeap HeapUnlock], s2)))"

definition xr_malloc :: "ulong \<Rightarrow> instr list" where
  "xr_malloc sz = [IHeap HeapLock, IHeap (HeapMalloc sz)]"

definition xr_calloc :: "ulong \<Rightarrow> ulong \<Rightarrow> instr list" where
  "xr_calloc nmemb sz = xr_malloc (nmemb * sz) @ [IHeap (HeapZero (nmemb * sz))]"

definition xr_free :: "ptr \<Rightarrow> instr list" where
  "xr_free p = [IHeap HeapLock, IHeap (HeapFree p)]"

definition xr_getSize :: "ptr \<Rightarrow> xsys \<Rightarrow> ulong result" where
  "xr_getSize p s = xm_getSize p (xm s)"

definition xr_realloc :: "ptr \<Rightarrow> ulong \<Rightarrow> instr list" where
  "xr_realloc p sz =
     (if p = None then xr_malloc sz
      else if sz = 0 then xr_free p @ [IEnd (Ret 0)]
      else [IHeap (HeapSize p sz)])"

definition xm_memset :: "nat \<Rightarrow> byte \<Rightarrow> nat \<Rightarrow> xmemory \<Rightarrow> xmemory" where
  "xm_memset a b n m =
     m\<lparr>xm_pheap := (xm_pheap m)\<lparr>pp_mem := (\<lambda>x. if a \<le> x \<and> x < a + n then b else pp_mem (xm_pheap m) x)\<rparr>\<rparr>"

definition heap_zero :: "cint \<Rightarrow> ulong \<Rightarrow> xsys \<Rightarrow> xsys result" where
  "heap_zero me n s =
     (case dec (pr_ret (procs s me)) of
        None \<Rightarrow> if n = 0 then Inr s else Inl NullDeref
      | Some a \<Rightarrow> Inr (on_xm (xm_memset a 0 (unat n)) s))"

definition heap_size :: "ptr \<Rightarrow> ulong \<Rightarrow> xsys \<Rightarrow> (instr list \<times> xsys) result" where
  "heap_size p sz s =
     res_bind (xr_getSize p s) (\<lambda>osz.
     Inr (xr_malloc sz @ [IHeap (HeapCopy p (if osz < sz then osz else sz))] @ xr_free p, s))"

definition heap_copy :: "cint \<Rightarrow> ptr \<Rightarrow> ulong \<Rightarrow> xsys \<Rightarrow> xsys" where
  "heap_copy me p n s =
     (case (dec (pr_ret (procs s me)), p) of
        (Some new, Some old) \<Rightarrow> on_xm (\<lambda>m. m\<lparr>xm_pheap := pp_copy new old (unat n) (xm_pheap m)\<rparr>) s
      | _ \<Rightarrow> s)"

fun exec_heap :: "cint \<Rightarrow> heap_instr \<Rightarrow> xsys \<Rightarrow> (instr list \<times> xsys) result option" where
  "exec_heap me HeapLock s = wait_for (Inr (heap_holder s (heap_of me s) = None)) (Inr ([], heap_lock me s))"
| "exec_heap me (HeapMalloc sz) s = Some (heap_malloc me sz s)"
| "exec_heap me (HeapRefill sz) s = Some (heap_refill me sz s)"
| "exec_heap me (HeapOwn a n) s = run (on_xm_r (xm_own me a n) s)"
| "exec_heap me HeapUnlock s = run (Inr (heap_unlock me s))"
| "exec_heap me (HeapFree p) s = run (res_bind (on_xm_r (xm_free me p) s) (\<lambda>s1. Inr (heap_unlock me s1)))"
| "exec_heap me (HeapZero n) s = run (heap_zero me n s)"
| "exec_heap me (HeapSize p sz) s = Some (heap_size p sz s)"
| "exec_heap me (HeapCopy p n) s = run (Inr (heap_copy me p n s))"
| "exec_heap me HeapCheck s = run (if pr_ret (procs s me) = 0 then Inl Aborted else Inr s)"

section \<open>Any section\<close>

fun exec :: "cint \<Rightarrow> instr \<Rightarrow> xsys \<Rightarrow> (instr list \<times> xsys) result option" where
  "exec me (IFence i) = exec_fence me i"
| "exec me (IToken i) = exec_token me i"
| "exec me (IMem i) = exec_mem me i"
| "exec me (ILock i) = exec_lock me i"
| "exec me (IBarrier i) = exec_barrier me i"
| "exec me (ISig i) = exec_sig me i"
| "exec me (ICond i) = exec_cond me i"
| "exec me (ISpawn i) = exec_spawn me i"
| "exec me (IJoin i) = exec_join me i"
| "exec me (IKill i) = exec_kill me i"
| "exec me (IHeap i) = exec_heap me i"
| "exec me (IEnd i) = exec_end me i"

end
