(* ===== verification/Libdthread.thy ===== *)
theory Libdthread
  imports XrunHeap
begin

text \<open>
  The interposed functions of \<open>src/source/libdthread.cpp\<close> and the system as a whole: \<open>xstep\<close> is one step of any process, a section of
  the library, a call or a store of the program, or the creation of a process. The functions that only return a constant are
  \<open>lib_constant\<close>.
\<close>

section \<open>Allocation\<close>

text \<open>Before initialisation memory comes from \<open>mmap\<close>, shared and zeroed; its answer is the parameter \<open>pre\<close>.\<close>

definition lib_initialize :: "xm_os \<Rightarrow> ulong \<Rightarrow> cint \<Rightarrow> xsys \<Rightarrow> xsys result" where
  "lib_initialize os nprocessors me s =
     res_bind (xr_initialize os nprocessors me (s\<lparr>gd_thread_index := 1\<rparr>))
       (\<lambda>s1. Inr (on_proc me (\<lambda>p. p\<lparr>lib_initialized := True\<rparr>) s1))"

definition lib_finalize :: "cint \<Rightarrow> xsys \<Rightarrow> xsys" where
  "lib_finalize me = on_proc me (\<lambda>p. p\<lparr>lib_initialized := False\<rparr>)"

definition ready_lib :: "cint \<Rightarrow> xsys \<Rightarrow> bool" where
  "ready_lib me s = lib_initialized (procs s me)"

definition lib_malloc :: "cint \<Rightarrow> ptr \<Rightarrow> ulong \<Rightarrow> xsys \<Rightarrow> (instr list \<times> xsys) result" where
  "lib_malloc me pre sz s =
     (if \<not> ready_lib me s
      then (case pre of None \<Rightarrow> Inl Aborted | Some a \<Rightarrow> Inr ([], set_ret me (enc pre) (on_xm (map_shared a (unat sz)) s)))
      else Inr (xr_malloc sz @ [IHeap HeapCheck], s))"

definition lib_calloc :: "cint \<Rightarrow> ptr \<Rightarrow> ulong \<Rightarrow> ulong \<Rightarrow> xsys \<Rightarrow> (instr list \<times> xsys) result" where
  "lib_calloc me pre nmemb sz s =
     (if \<not> ready_lib me s
      then (case pre of None \<Rightarrow> Inl (if sz * nmemb = 0 then Aborted else NullDeref)
            | Some a \<Rightarrow> Inr ([], set_ret me (enc pre) (on_xm (map_shared a (unat (sz * nmemb))) s)))
      else Inr (xr_calloc nmemb sz @ [IHeap HeapCheck, IHeap (HeapZero (sz * nmemb))], s))"

definition lib_free :: "cint \<Rightarrow> ptr \<Rightarrow> xsys \<Rightarrow> (instr list \<times> xsys) result" where
  "lib_free me p s = Inr (if ready_lib me s then xr_free p else [], s)"

definition lib_memalign :: "cint \<Rightarrow> xsys \<Rightarrow> xsys" where
  "lib_memalign me = set_ret me 0"

definition malloc_usable_size :: "cint \<Rightarrow> ptr \<Rightarrow> xsys \<Rightarrow> xsys result" where
  "malloc_usable_size me p s =
     res_bind (if ready_lib me s then xr_getSize p s else Inr 0) (\<lambda>n. Inr (set_ret me n s))"

definition lib_realloc :: "cint \<Rightarrow> ptr \<Rightarrow> ulong \<Rightarrow> xsys \<Rightarrow> (instr list \<times> xsys) result" where
  "lib_realloc me p sz s = Inr (if ready_lib me s then xr_realloc p sz else [IEnd (Ret 0)], s)"

section \<open>Identity and input-output\<close>

definition lib_getpid :: "cint \<Rightarrow> xsys \<Rightarrow> xsys" where
  "lib_getpid me s = set_ret me (if ready_lib me s then scast (xr_id me s) else 0) s"

definition pthread_self :: "cint \<Rightarrow> xsys \<Rightarrow> xsys" where
  "pthread_self me s = set_ret me (if ready_lib me s then scast (xr_id me s) else 0) s"

definition lib_constant :: "ulong \<Rightarrow> cint \<Rightarrow> xsys \<Rightarrow> xsys" where
  "lib_constant v me = set_ret me v"

text \<open>
  \<open>read\<close> and \<open>write\<close> touch every page of the buffer before the system call, because the kernel does not raise the faults: one byte
  each page, and the last byte, whose index wraps when the count is 0.
\<close>

definition touched :: "ulong \<Rightarrow> ulong list" where
  "touched cnt = map (\<lambda>k. word_of_nat (k * PageSize)) [0 ..< (unat cnt + PageSize - 1) div PageSize] @ [cnt - 1]"

definition region_touch :: "cint \<Rightarrow> nat \<Rightarrow> world \<Rightarrow> world result" where
  "region_touch me a w =
     (if m_prot (transient (locals w me) (computePage (a - xp_base (locals w me)))) = PROT_NONE then handleWrite me a w else Inr w)"

definition region_store8 :: "cint \<Rightarrow> nat \<Rightarrow> byte \<Rightarrow> world \<Rightarrow> world result" where
  "region_store8 me a b w = (case user_store 3 me a b w of None \<Rightarrow> Inl Aborted | Some r \<Rightarrow> r)"

definition xm_region :: "cint \<Rightarrow> nat \<Rightarrow> (world \<Rightarrow> world result) \<Rightarrow> (mem \<Rightarrow> mem) \<Rightarrow> xmemory \<Rightarrow> xmemory result" where
  "xm_region me a f g s =
     (if xo_inRange me a (pp_source (xm_pheap s)) then on_pheap_r (on_world_r f) s
      else if inRange me a (xm_globals s) then on_globals_r f s
      else Inr (xm_elsewhere me a g s))"

definition xm_touch :: "cint \<Rightarrow> nat \<Rightarrow> xmemory \<Rightarrow> xmemory result" where
  "xm_touch me a = xm_region me a (region_touch me a) (\<lambda>m. m)"

definition xm_store8 :: "cint \<Rightarrow> nat \<Rightarrow> byte \<Rightarrow> xmemory \<Rightarrow> xmemory result" where
  "xm_store8 me a b = xm_region me a (region_store8 me a b) (\<lambda>m. m(a := b))"

primrec res_fold :: "('x \<Rightarrow> 's \<Rightarrow> 's result) \<Rightarrow> 'x list \<Rightarrow> 's \<Rightarrow> 's result" where
  "res_fold f [] s = Inr s"
| "res_fold f (x # xs) s = res_bind (f x s) (res_fold f xs)"

definition lib_write :: "cint \<Rightarrow> ulong \<Rightarrow> ulong \<Rightarrow> xsys \<Rightarrow> xsys result" where
  "lib_write me buf cnt = on_xm_r (res_fold (\<lambda>i. xm_touch me (unat (buf + i))) (touched cnt))"

definition lib_read :: "cint \<Rightarrow> ulong \<Rightarrow> ulong \<Rightarrow> xsys \<Rightarrow> xsys result" where
  "lib_read me buf cnt = on_xm_r (res_fold (\<lambda>i. xm_store8 me (unat (buf + i)) 0) (touched cnt))"

section \<open>Threads and synchronisation\<close>

definition when_ready :: "cint \<Rightarrow> instr list \<Rightarrow> xsys \<Rightarrow> (instr list \<times> xsys) result" where
  "when_ready me body s = Inr (if ready_lib me s then body @ [IEnd (Ret 0)] else [IEnd (Ret 0)], s)"

definition at_once :: "cint \<Rightarrow> (xsys \<Rightarrow> xsys result) \<Rightarrow> xsys \<Rightarrow> (instr list \<times> xsys) result" where
  "at_once me f s = (if ready_lib me s then res_bind (f s) (\<lambda>s1. Inr ([IEnd (Ret 0)], s1)) else Inr ([IEnd (Ret 0)], s))"

definition pthread_create :: "cint \<Rightarrow> nat \<Rightarrow> xsys \<Rightarrow> (instr list \<times> xsys) result" where
  "pthread_create me t s = Inr (if ready_lib me s then xr_spawn me t s else [IEnd (Ret 0)], s)"

definition pthread_join :: "cint \<Rightarrow> ptr \<Rightarrow> bool \<Rightarrow> xsys \<Rightarrow> (instr list \<times> xsys) result" where
  "pthread_join me v want s = Inr (if ready_lib me s then xr_join me v want s else [], s)"

definition pthread_exit :: "cint \<Rightarrow> xsys \<Rightarrow> instr list" where
  "pthread_exit me s = (if ready_lib me s then threadDeregister else []) @ [IEnd ExitProcess]"

definition pthread_cancel :: "cint \<Rightarrow> nat \<Rightarrow> xsys \<Rightarrow> (instr list \<times> xsys) result" where
  "pthread_cancel me v s = when_ready me (xr_cancel me v s) s"

definition lib_sigwait :: "cint \<Rightarrow> cint list \<Rightarrow> xsys \<Rightarrow> (instr list \<times> xsys) result" where
  "lib_sigwait me sigs s = Inr (xr_sig_wait sigs, s)"

definition pthread_mutex_init :: "cint \<Rightarrow> nat \<Rightarrow> xsys \<Rightarrow> (instr list \<times> xsys) result" where
  "pthread_mutex_init me m = at_once me (mutex_init me m)"

definition pthread_mutex_lock :: "cint \<Rightarrow> nat \<Rightarrow> xsys \<Rightarrow> (instr list \<times> xsys) result" where
  "pthread_mutex_lock me m s = when_ready me (mutex_lock me m s) s"

definition pthread_mutex_unlock :: "cint \<Rightarrow> nat \<Rightarrow> xsys \<Rightarrow> (instr list \<times> xsys) result" where
  "pthread_mutex_unlock me m s =
     (if ready_lib me s then res_bind (mutex_unlock me m s) (\<lambda>(is, s1). Inr (is @ [IEnd (Ret 0)], s1))
      else Inr ([IEnd (Ret 0)], s))"

definition pthread_mutex_destory :: "cint \<Rightarrow> nat \<Rightarrow> xsys \<Rightarrow> (instr list \<times> xsys) result" where
  "pthread_mutex_destory me m = at_once me (mutex_destroy me m)"

definition pthread_cond_init :: "cint \<Rightarrow> nat \<Rightarrow> xsys \<Rightarrow> (instr list \<times> xsys) result" where
  "pthread_cond_init me c = at_once me (xr_cond_init me c)"

definition pthread_cond_broadcast :: "cint \<Rightarrow> nat \<Rightarrow> xsys \<Rightarrow> (instr list \<times> xsys) result" where
  "pthread_cond_broadcast me c s = when_ready me (xr_cond_broadcast me c s) s"

definition pthread_cond_signal :: "cint \<Rightarrow> nat \<Rightarrow> xsys \<Rightarrow> (instr list \<times> xsys) result" where
  "pthread_cond_signal me c s = when_ready me (xr_cond_signal me c s) s"

definition pthread_cond_wait :: "cint \<Rightarrow> nat \<Rightarrow> nat \<Rightarrow> xsys \<Rightarrow> (instr list \<times> xsys) result" where
  "pthread_cond_wait me c m s = when_ready me (xr_cond_wait c m) s"

definition pthread_cond_destroy :: "cint \<Rightarrow> nat \<Rightarrow> xsys \<Rightarrow> (instr list \<times> xsys) result" where
  "pthread_cond_destroy me c = at_once me (xr_cond_destroy me c)"

definition pthread_barrier_init :: "cint \<Rightarrow> nat \<Rightarrow> cint \<Rightarrow> xsys \<Rightarrow> (instr list \<times> xsys) result" where
  "pthread_barrier_init me b cnt = at_once me (xr_barrier_init me b cnt)"

definition pthread_barrier_destroy :: "cint \<Rightarrow> nat \<Rightarrow> xsys \<Rightarrow> (instr list \<times> xsys) result" where
  "pthread_barrier_destroy me b = at_once me (xr_barrier_destroy me b)"

definition pthread_barrier_wait :: "cint \<Rightarrow> nat \<Rightarrow> xsys \<Rightarrow> (instr list \<times> xsys) result" where
  "pthread_barrier_wait me b s = when_ready me (xr_barrier_wait me b s) s"

section \<open>Calls and steps\<close>

datatype heap_call = Malloc ptr ulong | Calloc ptr ulong ulong | Free ptr | Realloc ptr ulong

datatype memory_call =
    Memalign | UsableSize ptr | Getpid | Self | Write ulong ulong | Read ulong ulong | Constant ulong | Store nat byte

datatype thread_call = Create nat | Join ptr bool | Cancel nat | Sigwait "cint list"

datatype sync_call =
    MutexInit nat | MutexLock nat | MutexUnlock nat | MutexDestory nat | CondInit nat | CondSignalled nat | CondBroadcasted nat
  | CondWaited nat nat | CondDestroy nat | BarrierInit nat cint | BarrierWait nat | BarrierDestroy nat

fun call_heap :: "cint \<Rightarrow> heap_call \<Rightarrow> xsys \<Rightarrow> (instr list \<times> xsys) result" where
  "call_heap me (Malloc pre sz) s = lib_malloc me pre sz s"
| "call_heap me (Calloc pre n sz) s = lib_calloc me pre n sz s"
| "call_heap me (Free p) s = lib_free me p s"
| "call_heap me (Realloc p sz) s = lib_realloc me p sz s"

fun call_memory :: "cint \<Rightarrow> memory_call \<Rightarrow> xsys \<Rightarrow> xsys result" where
  "call_memory me Memalign s = Inr (lib_memalign me s)"
| "call_memory me (UsableSize p) s = malloc_usable_size me p s"
| "call_memory me Getpid s = Inr (lib_getpid me s)"
| "call_memory me Self s = Inr (pthread_self me s)"
| "call_memory me (Write buf cnt) s = lib_write me buf cnt s"
| "call_memory me (Read buf cnt) s = lib_read me buf cnt s"
| "call_memory me (Constant v) s = Inr (lib_constant v me s)"
| "call_memory me (Store a b) s = on_xm_r (xm_store8 me a b) s"

fun call_thread :: "cint \<Rightarrow> thread_call \<Rightarrow> xsys \<Rightarrow> (instr list \<times> xsys) result" where
  "call_thread me (Create t) s = pthread_create me t s"
| "call_thread me (Join v want) s = pthread_join me v want s"
| "call_thread me (Cancel v) s = pthread_cancel me v s"
| "call_thread me (Sigwait sigs) s = lib_sigwait me sigs s"

fun call_sync :: "cint \<Rightarrow> sync_call \<Rightarrow> xsys \<Rightarrow> (instr list \<times> xsys) result" where
  "call_sync me (MutexInit m) s = pthread_mutex_init me m s"
| "call_sync me (MutexLock m) s = pthread_mutex_lock me m s"
| "call_sync me (MutexUnlock m) s = pthread_mutex_unlock me m s"
| "call_sync me (MutexDestory m) s = pthread_mutex_destory me m s"
| "call_sync me (CondInit c) s = pthread_cond_init me c s"
| "call_sync me (CondSignalled c) s = pthread_cond_signal me c s"
| "call_sync me (CondBroadcasted c) s = pthread_cond_broadcast me c s"
| "call_sync me (CondWaited c m) s = pthread_cond_wait me c m s"
| "call_sync me (CondDestroy c) s = pthread_cond_destroy me c s"
| "call_sync me (BarrierInit b n) s = pthread_barrier_init me b n s"
| "call_sync me (BarrierWait b) s = pthread_barrier_wait me b s"
| "call_sync me (BarrierDestroy b) s = pthread_barrier_destroy me b s"

datatype lib_call = HeapCall heap_call | MemoryCall memory_call | ThreadCall thread_call | SyncCall sync_call

fun call :: "cint \<Rightarrow> lib_call \<Rightarrow> xsys \<Rightarrow> (instr list \<times> xsys) result" where
  "call me (HeapCall c) s = call_heap me c s"
| "call me (MemoryCall c) s = res_bind (call_memory me c s) (\<lambda>s1. Inr ([], s1))"
| "call me (ThreadCall c) s = call_thread me c s"
| "call me (SyncCall c) s = call_sync me c s"

text \<open>What is left to run of each process is a list of sections; a process with none has ended.\<close>

type_synonym config = "xsys \<times> (cint \<Rightarrow> instr list)"

inductive xstep :: "config \<Rightarrow> config \<Rightarrow> bool" where
  section_step: "me \<notin> dead s \<Longrightarrow> code me = i # k \<Longrightarrow> exec me i s = Some (Inr (is, s'))
    \<Longrightarrow> xstep (s, code) (s', code(me := is @ k))"
| section_fails: "me \<notin> dead s \<Longrightarrow> code me = i # k \<Longrightarrow> exec me i s = Some (Inl e)
    \<Longrightarrow> xstep (s, code) (end_process me s, code(me := []))"
| program_calls: "me \<notin> dead s \<Longrightarrow> code me = IEnd User # k \<Longrightarrow> call me c s = Inr (is, s')
    \<Longrightarrow> xstep (s, code) (s', code(me := is @ IEnd User # k))"
| program_fails: "me \<notin> dead s \<Longrightarrow> code me = IEnd User # k \<Longrightarrow> call me c s = Inl e
    \<Longrightarrow> xstep (s, code) (end_process me s, code(me := []))"
| program_returns: "me \<notin> dead s \<Longrightarrow> code me = IEnd User # k
    \<Longrightarrow> xstep (s, code) (set_ret me v s, code(me := k))"
| program_exits: "me \<notin> dead s \<Longrightarrow> code me = IEnd User # k
    \<Longrightarrow> xstep (s, code) (s, code(me := pthread_exit me s))"
| clones: "me \<notin> dead s \<Longrightarrow> code me = ISpawn (Clone t) # k \<Longrightarrow> statuses s t = None \<Longrightarrow> child \<noteq> me \<Longrightarrow> code child = []
    \<Longrightarrow> xstep (s, code) (fork_process me child (allocateSharedObject t s),
          code(me := k, child := child_code (my_index me s) t))"
| clone_fails: "me \<notin> dead s \<Longrightarrow> code me = ISpawn (Clone t) # k \<Longrightarrow> statuses s t = None
    \<Longrightarrow> xstep (s, code) (allocateSharedObject t s, code(me := k))"

text \<open>A run of given processes in a given order, for evaluation: each takes one section.\<close>

fun sections :: "cint list \<Rightarrow> config \<Rightarrow> config result option" where
  "sections [] cf = Some (Inr cf)"
| "sections (me # mes) (s, code) =
     (case code me of [] \<Rightarrow> None
      | i # k \<Rightarrow> (case exec me i s of None \<Rightarrow> None
          | Some (Inl e) \<Rightarrow> Some (Inl e)
          | Some (Inr (is, s')) \<Rightarrow> sections mes (s', code(me := is @ k))))"

end
