(* ===== verification/DetermRing.thy ===== *)
theory DetermRing
  imports Determ
begin

text \<open>
  What the synchronisation layer promises, as a scheduler over plain lists, and the proof that the ring, the queues and the counters of
  \<open>src/include/determ.h\<close> implement it: \<open>sim d s Q\<close> relates a state of the layer to one of the scheduler, \<open>Q\<close> being the
  condition variables and barriers in use.
\<close>

section \<open>The scheduler\<close>

datatype queue = Cond nat | Barrier nat

text \<open>
  \<open>running\<close>: the active threads in token order, the holder first; \<open>first\<close>: the thread at the head of \<open>_activelist\<close>;
  \<open>waiting\<close>: the queues; \<open>uncounted\<close>: active threads the fence does not count yet (spawned children before \<open>startFence\<close>,
  joiners before they wake).
\<close>

record sched =
  running :: "nat list"
  first :: nat
  waiting :: "queue \<Rightarrow> nat list"
  uncounted :: nat

definition spec_putToken :: "sched \<Rightarrow> sched" where
  "spec_putToken s = s\<lparr>running := tl (running s) @ [hd (running s)]\<rparr>"

text \<open>The token holder leaves the ring; the token is its successor's.\<close>

definition spec_leave :: "sched \<Rightarrow> sched" where
  "spec_leave s = s\<lparr>running := tl (running s),
     first := (if first s = hd (running s) then hd (tl (running s)) else first s)\<rparr>"

definition spec_wait :: "queue \<Rightarrow> sched \<Rightarrow> sched" where
  "spec_wait q s = (spec_leave s)\<lparr>waiting := (waiting s)(q := waiting s q @ [hd (running s)])\<rparr>"

text \<open>A woken thread gets the token right after the holder.\<close>

definition spec_insert :: "nat list \<Rightarrow> sched \<Rightarrow> sched" where
  "spec_insert ws s = s\<lparr>running := hd (running s) # ws @ tl (running s)\<rparr>"

definition spec_signal :: "nat \<Rightarrow> sched \<Rightarrow> sched" where
  "spec_signal c s =
     (case waiting s (Cond c) of [] \<Rightarrow> s
      | w # ws \<Rightarrow> spec_insert [w] (s\<lparr>waiting := (waiting s)(Cond c := ws)\<rparr>))"

definition spec_wake_all :: "queue \<Rightarrow> sched \<Rightarrow> sched" where
  "spec_wake_all q s = spec_insert (waiting s q) (s\<lparr>waiting := (waiting s)(q := [])\<rparr>)"

definition spec_barrier :: "nat \<Rightarrow> nat \<Rightarrow> sched \<Rightarrow> sched" where
  "spec_barrier b n s =
     (if Suc (length (waiting s (Barrier b))) = n
      then spec_putToken (spec_wake_all (Barrier b) s)
      else spec_wait (Barrier b) s)"

definition spec_exit :: "nat option \<Rightarrow> sched \<Rightarrow> sched" where
  "spec_exit joiner s =
     (case joiner of None \<Rightarrow> spec_leave s
      | Some j \<Rightarrow> (spec_leave (spec_insert [j] s))\<lparr>uncounted := Suc (uncounted s)\<rparr>)"

section \<open>The simulation relation\<close>

definition q_head :: "determ \<Rightarrow> queue \<Rightarrow> ptr" where
  "q_head d q = (case q of Cond c \<Rightarrow> ce_head (cond_tab d c) | Barrier b \<Rightarrow> be_head (barrier_tab d b))"

definition q_count :: "determ \<Rightarrow> queue \<Rightarrow> ulong" where
  "q_count d q = (case q of Cond c \<Rightarrow> ce_waiters (cond_tab d c) | Barrier b \<Rightarrow> be_threads (barrier_tab d b))"

lemma q_simps [simp]:
  "q_head d (Cond c) = ce_head (cond_tab d c)" "q_head d (Barrier b) = be_head (barrier_tab d b)"
  "q_count d (Cond c) = ce_waiters (cond_tab d c)" "q_count d (Barrier b) = be_threads (barrier_tab d b)"
  by (simp_all add: q_head_def q_count_def)

definition queues_ok :: "determ \<Rightarrow> (queue \<Rightarrow> nat list) \<Rightarrow> queue set \<Rightarrow> nat set \<Rightarrow> bool" where
  "queues_ok d W Q R \<longleftrightarrow>
     (\<forall>q\<in>Q. ring_list (nodes d) (q_head d q) (W q) \<and> q_count d q = of_nat (length (W q)) \<and> R \<inter> set (W q) = {})
     \<and> (\<forall>q\<in>Q. \<forall>q'\<in>Q. q \<noteq> q' \<longrightarrow> set (W q) \<inter> set (W q') = {})
     \<and> (\<forall>c. Cond c \<in> Q \<longrightarrow> (\<forall>i\<in>set (W (Cond c)). te_status (entries d i) = STATUS_COND_WAITING \<and> te_cond (entries d i) = Some c))"

lemma queues_okD:
  assumes "queues_ok d W Q R" and "q \<in> Q"
  shows "ring_list (nodes d) (q_head d q) (W q)" "q_count d q = of_nat (length (W q))" "R \<inter> set (W q) = {}"
    and "p \<in> Q \<Longrightarrow> p \<noteq> q \<Longrightarrow> set (W q) \<inter> set (W p) = {}"
    and "q = Cond c \<Longrightarrow> i \<in> set (W q) \<Longrightarrow> te_status (entries d i) = STATUS_COND_WAITING \<and> te_cond (entries d i) = Some c"
  using assms unfolding queues_ok_def by blast+

definition sim :: "determ \<Rightarrow> sched \<Rightarrow> queue set \<Rightarrow> bool" where
  "sim d s Q \<longleftrightarrow>
     running s \<noteq> [] \<and> ring_list (nodes d) (tokenpos d) (running s)
     \<and> activelist d = Some (first s) \<and> first s \<in> set (running s)
     \<and> maxthreads d + of_nat (uncounted s) = of_nat (length (running s))
     \<and> queues_ok d (waiting s) Q (set (running s))"

lemma simE:
  assumes "sim d s Q"
  obtains t rest where "running s = t # rest" "ring_list (nodes d) (Some t) (t # rest)" "tokenpos d = Some t"
    "activelist d = Some (first s)" "first s = t \<or> first s \<in> set rest" "distinct (t # rest)"
    "maxthreads d + of_nat (uncounted s) = 1 + of_nat (length rest)"
    "queues_ok d (waiting s) Q (insert t (set rest))"
proof -
  from assms obtain t rest where r: "running s = t # rest" by (auto simp: sim_def neq_Nil_conv)
  with assms have "tokenpos d = Some t" "ring_list (nodes d) (tokenpos d) (t # rest)" by (auto simp: sim_def ring_list_def)
  moreover from this have "distinct (t # rest)" by (simp add: ring_list_def ring_def)
  ultimately show thesis using that [of t rest] assms r by (auto simp: sim_def)
qed

lemma queues_ok_cong:
  assumes "queues_ok d W Q R" and "nodes d' = nodes d" "cond_tab d' = cond_tab d" "barrier_tab d' = barrier_tab d"
    and "\<And>i. i \<notin> R \<Longrightarrow> te_status (entries d' i) = te_status (entries d i) \<and> te_cond (entries d' i) = te_cond (entries d i)"
  shows "queues_ok d' W Q R"
proof -
  have q: "q_head d' q = q_head d q" "q_count d' q = q_count d q" for q
    by (cases q; simp add: assms(3,4))+
  have "te_status (entries d' i) = STATUS_COND_WAITING \<and> te_cond (entries d' i) = Some c"
    if "Cond c \<in> Q" "i \<in> set (W (Cond c))" for c i
  proof -
    have "i \<notin> R" using assms(1) that unfolding queues_ok_def by blast
    then show ?thesis using assms(1,5) that unfolding queues_ok_def by metis
  qed
  then show ?thesis using assms(1) unfolding queues_ok_def q assms(2) by blast
qed

text \<open>What an operation that touches only the nodes of \<open>A\<close> leaves of the queues.\<close>

lemma queues_ok_frame:
  assumes "queues_ok d W Q R" and "same_outside A (nodes d) ns"
    and "\<And>q. q \<in> Q - {q0} \<Longrightarrow> A \<inter> set (W q) = {} \<and> W' q = W q \<and> q_head d' q = q_head d q \<and> q_count d' q = q_count d q"
    and "q0 \<in> Q \<Longrightarrow> ring_list ns (q_head d' q0) (W' q0) \<and> q_count d' q0 = of_nat (length (W' q0))"
    and "\<And>q. q \<in> Q - {q0} \<Longrightarrow> q0 \<in> Q \<Longrightarrow> set (W' q0) \<inter> set (W q) = {}"
    and "nodes d' = ns" and "\<And>q. q \<in> Q \<Longrightarrow> R' \<inter> set (W' q) = {}"
    and "\<And>q c i. q = Cond c \<Longrightarrow> q \<in> Q \<Longrightarrow> i \<in> set (W' q) \<Longrightarrow> te_status (entries d' i) = STATUS_COND_WAITING \<and> te_cond (entries d' i) = Some c"
  shows "queues_ok d' W' Q R'"
proof -
  have ring: "ring_list ns (q_head d' q) (W' q) \<and> q_count d' q = of_nat (length (W' q))" if q: "q \<in> Q" for q
  proof (cases "q = q0")
    case True
    then show ?thesis using assms(4) q by simp
  next
    case False
    then have f: "A \<inter> set (W q) = {}" "W' q = W q" "q_head d' q = q_head d q" "q_count d' q = q_count d q"
      using assms(3) q by auto
    have "ring_list (nodes d) (q_head d q) (W q)" "q_count d q = of_nat (length (W q))"
      using assms(1) q by (simp_all add: queues_ok_def)
    then show ?thesis using dl.frame [OF _ assms(2)] f by (metis inf_commute)
  qed
  moreover have "set (W' q) \<inter> set (W' q') = {}" if q: "q \<in> Q" "q' \<in> Q" "q \<noteq> q'" for q q'
  proof -
    have "set (W q) \<inter> set (W q') = {}" using assms(1) q by (simp add: queues_ok_def)
    moreover have "W' q = W q" if "q \<noteq> q0" using assms(3) q(1) that by simp
    moreover have "W' q' = W q'" if "q' \<noteq> q0" using assms(3) q(2) that by simp
    moreover have "set (W' q0) \<inter> set (W q') = {}" if "q = q0" using assms(5) [of q'] q that by simp
    moreover have "set (W' q0) \<inter> set (W q) = {}" if "q' = q0" using assms(5) [of q] q that by simp
    ultimately show ?thesis using q(3) by (cases "q = q0"; cases "q' = q0") (auto simp: Int_commute)
  qed
  ultimately show ?thesis using assms(6-8) unfolding queues_ok_def by blast
qed

section \<open>The token\<close>

theorem putToken_sim:
  assumes "sim d s Q"
  shows "\<exists>d'. putToken i d = Inr d' \<and> sim d' (spec_putToken s) Q"
proof -
  from assms obtain t rest where r: "running s = t # rest" "ring_list (nodes d) (Some t) (t # rest)" "tokenpos d = Some t"
    "activelist d = Some (first s)" "first s = t \<or> first s \<in> set rest"
    "maxthreads d + of_nat (uncounted s) = 1 + of_nat (length rest)" "queues_ok d (waiting s) Q (insert t (set rest))"
    by (rule simE)
  have nx: "entry_next (nodes d t) = Some (hd (rest @ [t]))"
    using r(2) by (simp add: ring_list_def ring_next)
  have "ring_list (nodes d) (Some (hd (rest @ [t]))) (rest @ [t])"
    using r(2) ring_rotate1 by (auto simp: ring_list_def)
  moreover have "queues_ok (d\<lparr>tokenpos := Some (hd (rest @ [t]))\<rparr>) (waiting s) Q (insert t (set rest))"
    by (rule queues_ok_cong [OF r(7)]) simp_all
  moreover have "putToken i d = Inr (d\<lparr>tokenpos := Some (hd (rest @ [t]))\<rparr>)" using nx r(3) by (simp add: putToken_def Let_def)
  moreover have "maxthreads d + of_nat (uncounted s) = of_nat (length (rest @ [t]))" unfolding r(6) by simp
  ultimately show ?thesis
    using r(1,4,5) by (intro exI [of _ "d\<lparr>tokenpos := Some (hd (rest @ [t]))\<rparr>"]) (auto simp: spec_putToken_def sim_def)
qed

section \<open>Leaving the ring\<close>

lemma decrFence_simps [simp]:
  "nodes (decrFence d) = nodes d" "entries (decrFence d) = entries d" "cond_tab (decrFence d) = cond_tab d"
  "barrier_tab (decrFence d) = barrier_tab d" "lock_tab (decrFence d) = lock_tab d" "activelist (decrFence d) = activelist d"
  "tokenpos (decrFence d) = tokenpos d" "maxthreads (decrFence d) = maxthreads d - 1"
  "currthreads (decrFence d) = currthreads d" "alivethreads (decrFence d) = alivethreads d"
  by (simp_all add: decrFence_def Let_def)

lemma incrFence_simps [simp]:
  "nodes (incrFence n d) = nodes d" "entries (incrFence n d) = entries d" "cond_tab (incrFence n d) = cond_tab d"
  "barrier_tab (incrFence n d) = barrier_tab d" "lock_tab (incrFence n d) = lock_tab d" "activelist (incrFence n d) = activelist d"
  "tokenpos (incrFence n d) = tokenpos d" "maxthreads (incrFence n d) = maxthreads d + n"
  "currthreads (incrFence n d) = currthreads d" "alivethreads (incrFence n d) = alivethreads d"
  by (simp_all add: incrFence_def)

lemma leave_ring:
  assumes r: "ring_list ns (Some t) (t # rest)" and ne: "rest \<noteq> []" and f: "f = t \<or> f \<in> set rest"
  shows "\<exists>ns'. removeEntry t (Some f) ns = Some (Some (if f = t then hd rest else f), ns')
     \<and> ring_list ns' (Some (hd rest)) rest \<and> same_outside (set rest) ns ns' \<and> entry_next (ns t) = Some (hd rest)"
proof -
  have d: "distinct (t # rest)" and rr: "ring ns (t # rest)" using r by (simp_all add: ring_list_def ring_def)
  have nx: "entry_next (ns t) = Some (hd rest)" using ring_next [OF rr] ne by (simp add: hd_append)
  have sets: "set rest - {t} = set rest" using d by auto
  show ?thesis
  proof (cases "f = t")
    case True
    from removeEntry_ring [OF r, of t] sets obtain h' ns' where
      "removeEntry t (Some t) ns = Some (h', ns')" "ring_list ns' h' rest" "same_outside (set rest) ns ns'" by auto
    moreover from this(2) ne have "h' = Some (hd rest)" by (simp add: ring_list_def)
    ultimately show ?thesis using nx True by auto
  next
    case False
    with f obtain as bs where rest: "rest = as @ f # bs" by (meson in_set_conv_decomp)
    have rf: "ring_list ns (Some f) (f # bs @ t # as)"
      using dl.rotate [of ns t "t # as" f bs] r rest by simp
    have tf: "t \<notin> set (f # bs)" "remove1 t (f # bs @ t # as) = f # bs @ as"
      using d rest by (auto simp: remove1_append)
    have s2: "set (f # bs @ t # as) - {t} = set rest" using d rest by auto
    from removeEntry_ring [OF rf, of t] obtain h' ns' where rm: "removeEntry t (Some f) ns = Some (h', ns')"
      "ring_list ns' h' (f # bs @ as)" "same_outside (set rest) ns ns'" unfolding tf s2 by auto
    then have h': "h' = Some f" by (simp add: ring_list_def)
    have "ring_list ns' (Some (hd rest)) rest"
    proof (cases as)
      case Nil
      then show ?thesis using rm(2) h' rest by simp
    next
      case (Cons a as')
      then show ?thesis using dl.rotate [of ns' f "f # bs" a as'] rm(2) h' rest by simp
    qed
    then show ?thesis using rm h' nx False by auto
  qed
qed

lemma unlink_ring:
  assumes "ring_list (nodes d) (Some t) (t # rest)" and "rest \<noteq> []" and "activelist d = Some f" and "f = t \<or> f \<in> set rest"
  shows "\<exists>ns. unlink t d = Inr (d\<lparr>activelist := Some (if f = t then hd rest else f), nodes := ns\<rparr>)
     \<and> ring_list ns (Some (hd rest)) rest \<and> same_outside (set rest) (nodes d) ns \<and> entry_next (nodes d t) = Some (hd rest)"
  using leave_ring [OF assms(1,2,4)] assms(3) by (auto simp: unlink_def)

text \<open>The running part of the relation after the token holder has left.\<close>

lemma sim_leave:
  assumes "sim d s Q" and "tl (running s) \<noteq> []"
  obtains t rest ns where "running s = t # rest" "rest \<noteq> []" "distinct (t # rest)"
    "unlink t d = Inr (d\<lparr>activelist := Some (first (spec_leave s)), nodes := ns\<rparr>)"
    "ring_list ns (Some (hd rest)) rest" "same_outside (set rest) (nodes d) ns" "entry_next (nodes d t) = Some (hd rest)"
    "first (spec_leave s) \<in> set rest" "maxthreads d - 1 + of_nat (uncounted s) = of_nat (length rest)"
    "queues_ok d (waiting s) Q (insert t (set rest))" "tokenpos d = Some t"
proof -
  from assms(1) obtain t rest where r: "running s = t # rest" "ring_list (nodes d) (Some t) (t # rest)" "tokenpos d = Some t"
    "activelist d = Some (first s)" "first s = t \<or> first s \<in> set rest" "distinct (t # rest)"
    "maxthreads d + of_nat (uncounted s) = 1 + of_nat (length rest)" "queues_ok d (waiting s) Q (insert t (set rest))"
    by (rule simE)
  have ne: "rest \<noteq> []" using assms(2) r(1) by simp
  obtain ns where ns: "unlink t d = Inr (d\<lparr>activelist := Some (if first s = t then hd rest else first s), nodes := ns\<rparr>)"
    "ring_list ns (Some (hd rest)) rest" "same_outside (set rest) (nodes d) ns" "entry_next (nodes d t) = Some (hd rest)"
    using unlink_ring [OF r(2) ne r(4,5)] by blast
  have f: "first (spec_leave s) = (if first s = t then hd rest else first s)" by (simp add: spec_leave_def r(1))
  have "maxthreads d - 1 + of_nat (uncounted s) = maxthreads d + of_nat (uncounted s) - 1" by simp
  also have "\<dots> = of_nat (length rest)" unfolding r(7) by simp
  finally have m: "maxthreads d - 1 + of_nat (uncounted s) = of_nat (length rest)" .
  show thesis
    by (rule that [OF r(1) ne r(6) _ ns(2,3,4) _ m r(8,3)]) (use ns(1) f r(5) ne in auto)
qed

section \<open>Entering and emptying a queue\<close>

lemma q_other:
  "cond_tab d' = (cond_tab d)(c := x) \<Longrightarrow> barrier_tab d' = barrier_tab d \<Longrightarrow> p \<noteq> Cond c
    \<Longrightarrow> q_head d' p = q_head d p \<and> q_count d' p = q_count d p"
  "barrier_tab d' = (barrier_tab d)(b := y) \<Longrightarrow> cond_tab d' = cond_tab d \<Longrightarrow> p \<noteq> Barrier b
    \<Longrightarrow> q_head d' p = q_head d p \<and> q_count d' p = q_count d p"
  by (cases p; auto)+

text \<open>\<open>d'\<close> is \<open>d\<close> with another store of nodes, another head and count of \<open>q\<close>, and other entries for the threads of \<open>A\<close>.\<close>

definition updates_queue :: "determ \<Rightarrow> queue \<Rightarrow> links \<Rightarrow> ptr \<Rightarrow> ulong \<Rightarrow> nat set \<Rightarrow> determ \<Rightarrow> bool" where
  "updates_queue d q ns head n A d' \<longleftrightarrow> nodes d' = ns \<and> q_head d' q = head \<and> q_count d' q = n
     \<and> (\<forall>p. p \<noteq> q \<longrightarrow> q_head d' p = q_head d p \<and> q_count d' p = q_count d p)
     \<and> (\<forall>i. i \<notin> A \<longrightarrow> te_status (entries d' i) = te_status (entries d i) \<and> te_cond (entries d' i) = te_cond (entries d i))"

lemma enter_queue:
  assumes ring: "ring_list ns (Some (hd rest)) rest" and out: "same_outside (set rest) (nodes d) ns"
    and dist: "distinct (t # rest)" and ok: "queues_ok d W Q (insert t (set rest))" and q: "q \<in> Q"
  shows "\<exists>head ns'. insertTail t (q_head d q) ns = Some (head, ns') \<and> ring_list ns' (Some (hd rest)) rest
     \<and> (\<forall>d'. updates_queue d q ns' head (q_count d q + 1) {t} d'
          \<longrightarrow> (\<forall>c. q = Cond c \<longrightarrow> te_status (entries d' t) = STATUS_COND_WAITING \<and> te_cond (entries d' t) = Some c)
          \<longrightarrow> queues_ok d' (W(q := W q @ [t])) Q (set rest))"
proof -
  have w: "ring_list (nodes d) (q_head d q) (W q)" "q_count d q = of_nat (length (W q))" "insert t (set rest) \<inter> set (W q) = {}"
    using ok q unfolding queues_ok_def by blast+
  have w1: "ring_list ns (q_head d q) (W q)" by (rule dl.frame [OF w(1) out]) (use w(3) in auto)
  from dl.ins_tail [OF w1, of t] w(3) obtain head ns' where ins: "insertTail t (q_head d q) ns = Some (head, ns')"
    "ring_list ns' head (W q @ [t])" "same_outside (insert t (set (W q))) ns ns'" by auto
  have rest': "ring_list ns' (Some (hd rest)) rest" by (rule dl.frame [OF ring ins(3)]) (use w(3) dist in auto)
  have same: "same_outside (set rest \<union> insert t (set (W q))) (nodes d) ns'" by (rule dl.same_trans [OF out ins(3)])
  let ?W = "W(q := W q @ [t])"
  have "queues_ok d' ?W Q (set rest)"
    if up: "updates_queue d q ns' head (q_count d q + 1) {t} d'"
      and st: "\<forall>c. q = Cond c \<longrightarrow> te_status (entries d' t) = STATUS_COND_WAITING \<and> te_cond (entries d' t) = Some c" for d'
  proof (rule queues_ok_frame [OF ok same, where ?q0.0 = q])
    fix p assume p: "p \<in> Q - {q}"
    have e: "set (W q) \<inter> set (W p) = {}" "insert t (set rest) \<inter> set (W p) = {}"
      using ok q p unfolding queues_ok_def by blast+
    then show "(set rest \<union> insert t (set (W q))) \<inter> set (W p) = {} \<and> ?W p = W p \<and> q_head d' p = q_head d p \<and> q_count d' p = q_count d p"
      using p up by (auto simp: updates_queue_def)
    show "set (?W q) \<inter> set (W p) = {}" using e by auto
  next
    fix p assume "p \<in> Q"
    then show "set rest \<inter> set (?W p) = {}" using dist ok unfolding queues_ok_def by auto
  next
    fix p c i assume "p = Cond c" "p \<in> Q" "i \<in> set (?W p)"
    moreover have "i \<noteq> t" if "i \<in> set (W p)" for i using ok \<open>p \<in> Q\<close> that unfolding queues_ok_def by blast
    ultimately show "te_status (entries d' i) = STATUS_COND_WAITING \<and> te_cond (entries d' i) = Some c"
      using ok up st by (cases "p = q") (auto simp: queues_ok_def updates_queue_def)
  qed (use ins(2) w(2) up in \<open>simp_all add: updates_queue_def\<close>)
  with ins(1) rest' show ?thesis by blast
qed

text \<open>The whole queue moves in behind the token holder.\<close>

lemma empty_queue:
  assumes ring: "ring_list (nodes d) (Some t) (t # rest)" and ok: "queues_ok d W Q (insert t (set rest))" and q: "q \<in> Q"
  shows "\<exists>ns'. moveWholeList (Some t) (q_head d q) (nodes d) = Some (None, ns') \<and> ring_list ns' (Some t) (t # W q @ rest)
     \<and> (\<forall>d'. updates_queue d q ns' None 0 (set (W q)) d' \<longrightarrow> queues_ok d' (W(q := [])) Q (set (t # W q @ rest)))"
proof -
  have w: "ring_list (nodes d) (q_head d q) (W q)" "set (t # rest) \<inter> set (W q) = {}"
    using ok q unfolding queues_ok_def by auto
  obtain ns' where mv: "moveWholeList (Some t) (q_head d q) (nodes d) = Some (None, ns')" "ring_list ns' (Some t) (t # W q @ rest)"
    "same_outside (set (t # rest) \<union> set (W q)) (nodes d) ns'"
  proof (cases "W q = []")
    case True
    with w(1) have "q_head d q = None" by (simp add: ring_list_def)
    with True ring that [of "nodes d"] show thesis by (simp add: moveWholeList_empty same_outside_def)
  next
    case False
    from dl.wake_all [OF ring w(1) False w(2)] that show thesis by blast
  qed
  let ?W = "W(q := [])"
  have "queues_ok d' ?W Q (set (t # W q @ rest))" if up: "updates_queue d q ns' None 0 (set (W q)) d'" for d'
  proof (rule queues_ok_frame [OF ok mv(3), where ?q0.0 = q])
    fix p assume p: "p \<in> Q - {q}"
    have "set (W q) \<inter> set (W p) = {}" "insert t (set rest) \<inter> set (W p) = {}"
      using ok q p unfolding queues_ok_def by blast+
    then show "(set (t # rest) \<union> set (W q)) \<inter> set (W p) = {} \<and> ?W p = W p \<and> q_head d' p = q_head d p \<and> q_count d' p = q_count d p"
      using p up by (auto simp: updates_queue_def)
  next
    fix p assume p: "p \<in> Q"
    show "set (t # W q @ rest) \<inter> set (?W p) = {}"
    proof (cases "p = q")
      case False
      then have "set (W q) \<inter> set (W p) = {}" "insert t (set rest) \<inter> set (W p) = {}"
        using ok q p unfolding queues_ok_def by blast+
      with False show ?thesis by auto
    qed simp
  next
    fix p c i assume p: "p = Cond c" "p \<in> Q" "i \<in> set (?W p)"
    then have "p \<noteq> q" "i \<in> set (W p)" by (auto split: if_splits)
    moreover from this have "i \<notin> set (W q)" using ok q p(2) unfolding queues_ok_def by blast
    ultimately show "te_status (entries d' i) = STATUS_COND_WAITING \<and> te_cond (entries d' i) = Some c"
      using ok p(1,2) up by (auto simp: queues_ok_def updates_queue_def)
  qed (use up in \<open>simp_all add: ring_list_def updates_queue_def\<close>)
  with mv(1,2) show ?thesis by blast
qed

section \<open>Condition variables\<close>

theorem cond_enqueue_sim:
  assumes sim: "sim d s Q" and two: "tl (running s) \<noteq> []" and c: "Cond c \<in> Q"
  shows "\<exists>d'. cond_enqueue (hd (running s)) c d = Inr d' \<and> sim d' (spec_wait (Cond c) s) Q
     \<and> te_status (entries d' (hd (running s))) = STATUS_COND_WAITING"
proof -
  from sim_leave [OF sim two] obtain t rest ns where l: "running s = t # rest" "rest \<noteq> []" "distinct (t # rest)"
    "unlink t d = Inr (d\<lparr>activelist := Some (first (spec_leave s)), nodes := ns\<rparr>)"
    "ring_list ns (Some (hd rest)) rest" "same_outside (set rest) (nodes d) ns" "entry_next (nodes d t) = Some (hd rest)"
    "first (spec_leave s) \<in> set rest" "maxthreads d - 1 + of_nat (uncounted s) = of_nat (length rest)"
    "queues_ok d (waiting s) Q (insert t (set rest))" .
  from enter_queue [OF l(5,6,3,10) c] obtain head ns' where ins: "insertTail t (ce_head (cond_tab d c)) ns = Some (head, ns')"
    and ring: "ring_list ns' (Some (hd rest)) rest"
    and qs: "\<And>d'. updates_queue d (Cond c) ns' head (ce_waiters (cond_tab d c) + 1) {t} d'
      \<Longrightarrow> te_status (entries d' t) = STATUS_COND_WAITING \<and> te_cond (entries d' t) = Some c
      \<Longrightarrow> queues_ok d' ((waiting s)(Cond c := waiting s (Cond c) @ [t])) Q (set rest)"
    by auto
  let ?d2 = "on_entry t (\<lambda>e. e\<lparr>te_cond := Some c, te_status := STATUS_COND_WAITING\<rparr>)
    (on_cond c (\<lambda>ce. ce\<lparr>ce_head := head, ce_waiters := ce_waiters ce + 1\<rparr>)
       (d\<lparr>activelist := Some (first (spec_leave s)), nodes := ns'\<rparr>))"
  let ?d' = "(decrFence ?d2)\<lparr>tokenpos := Some (hd rest)\<rparr>"
  have eq: "cond_enqueue t c d = Inr ?d'" using l(4,7) ins by (simp add: cond_enqueue_def Let_def)
  have "queues_ok ?d' ((waiting s)(Cond c := waiting s (Cond c) @ [t])) Q (set rest)"
  proof (rule qs)
    have "q_head ?d' p = q_head d p \<and> q_count ?d' p = q_count d p" if "p \<noteq> Cond c" for p
      using that by (cases p) (auto simp: on_entry_def on_cond_def)
    then show "updates_queue d (Cond c) ns' head (ce_waiters (cond_tab d c) + 1) {t} ?d'"
      by (simp add: updates_queue_def on_entry_def on_cond_def)
  qed (simp add: on_entry_def on_cond_def)
  then have "sim ?d' (spec_wait (Cond c) s) Q"
    using l(1,2,8,9) ring by (simp add: sim_def on_entry_def on_cond_def spec_wait_def spec_leave_def)
  then show ?thesis using eq l(1) by (simp add: on_entry_def on_cond_def)
qed

theorem cond_dequeue_sim:
  assumes sim: "sim d s Q" and c: "Cond c \<in> Q" and ne: "waiting s (Cond c) = w # ws"
  shows "\<exists>d'. cond_dequeue c d = Inr d' \<and> sim d' (spec_signal c s) Q \<and> te_status (entries d' w) = STATUS_READY"
proof -
  from sim obtain t rest where r: "running s = t # rest" "ring_list (nodes d) (Some t) (t # rest)" "tokenpos d = Some t"
    "activelist d = Some (first s)" "first s = t \<or> first s \<in> set rest"
    "maxthreads d + of_nat (uncounted s) = 1 + of_nat (length rest)" "queues_ok d (waiting s) Q (insert t (set rest))"
    by (rule simE)
  have q: "ring_list (nodes d) (ce_head (cond_tab d c)) (w # ws)" "ce_waiters (cond_tab d c) = of_nat (Suc (length ws))"
    "set (t # rest) \<inter> set (w # ws) = {}"
    using r(7) c ne unfolding queues_ok_def by (auto dest!: bspec [OF _ c])
  from dl.wake_one [OF r(2) q(1,3)] obtain head ns ns' where wk: "removeHeadEntry (ce_head (cond_tab d c)) (nodes d) = Some (Some w, head, ns)"
    "insertHead w (Some t) ns = Some ns'" "ring_list ns' (Some t) (t # w # rest)" "ring_list ns' head ws"
    "same_outside (set (t # rest) \<union> set (w # ws)) (nodes d) ns'" by blast
  let ?d' = "on_cond c (\<lambda>ce. ce\<lparr>ce_waiters := ce_waiters ce - 1\<rparr>) (incrFence 1
     (on_entry w (\<lambda>e. e\<lparr>te_cond := None, te_status := STATUS_READY\<rparr>) (on_cond c (\<lambda>ce. ce\<lparr>ce_head := head\<rparr>) (d\<lparr>nodes := ns'\<rparr>))))"
  have eq: "cond_dequeue c d = Inr ?d'" using wk(1,2) r(3) by (simp add: cond_dequeue_def Let_def)
  have "queues_ok ?d' ((waiting s)(Cond c := ws)) Q (insert t (insert w (set rest)))"
  proof (rule queues_ok_frame [OF r(7) wk(5), where ?q0.0 = "Cond c"])
    fix p assume p: "p \<in> Q - {Cond c}"
    have e: "set (w # ws) \<inter> set (waiting s p) = {}" "insert t (set rest) \<inter> set (waiting s p) = {}"
      using queues_okD(4) [OF r(7) c, of p] queues_okD(3) [OF r(7), of p] p ne by auto
    have "q_head ?d' p = q_head d p \<and> q_count ?d' p = q_count d p"
      by (rule q_other(1) [where c = c]) (use p in \<open>auto simp: on_cond_def on_entry_def fun_eq_iff\<close>)
    then show "(set (t # rest) \<union> set (w # ws)) \<inter> set (waiting s p) = {} \<and> ((waiting s)(Cond c := ws)) p = waiting s p
       \<and> q_head ?d' p = q_head d p \<and> q_count ?d' p = q_count d p" using e p by auto
    show "set (((waiting s)(Cond c := ws)) (Cond c)) \<inter> set (waiting s p) = {}" using e by auto
  next
    fix p assume p: "p \<in> Q"
    have "w \<notin> set ws" using dl.nodup [OF q(1)] by simp
    moreover have "set (w # ws) \<inter> set (waiting s p) = {}" if "p \<noteq> Cond c"
      using queues_okD(4) [OF r(7) c p that] ne by simp
    ultimately show "insert t (insert w (set rest)) \<inter> set (((waiting s)(Cond c := ws)) p) = {}"
      using queues_okD(3) [OF r(7) p] ne by (cases "p = Cond c") auto
  next
    fix p c' i assume p: "p = Cond c'" "p \<in> Q" "i \<in> set (((waiting s)(Cond c := ws)) p)"
    have "i \<in> set (waiting s p) \<and> i \<noteq> w"
    proof (cases "p = Cond c")
      case True
      then show ?thesis using p(3) ne dl.nodup [OF q(1)] by auto
    next
      case False
      then show ?thesis using p(3) ne queues_okD(4) [OF r(7) c p(2)] by auto
    qed
    then show "te_status (entries ?d' i) = STATUS_COND_WAITING \<and> te_cond (entries ?d' i) = Some c'"
      using r(7) p(1,2) by (auto simp: queues_ok_def on_entry_def on_cond_def)
  qed (use wk(4) q(2) in \<open>simp_all add: on_entry_def on_cond_def\<close>)
  moreover have "maxthreads d + 1 + of_nat (uncounted s) = 2 + of_nat (length rest)"
    using r(6) by (simp add: ac_simps)
  ultimately have "sim ?d' (spec_signal c s) Q"
    using r wk(3) ne by (auto simp: sim_def spec_signal_def spec_insert_def on_entry_def on_cond_def)
  then show ?thesis using eq by (auto simp: on_entry_def on_cond_def)
qed

text \<open>The loop over the waiters visits the whole queue.\<close>

lemma ready_loop_linked:
  "linked (nodes d) ws \<Longrightarrow> distinct ws \<Longrightarrow> ws \<noteq> [] \<Longrightarrow>
   ready_loop (length ws) (Some (hd ws)) d =
     Inr (d\<lparr>entries := \<lambda>i. if i \<in> set ws then (entries d i)\<lparr>te_cond := None, te_status := STATUS_READY\<rparr> else entries d i\<rparr>)"
proof (induction ws arbitrary: d)
  case (Cons w ws)
  let ?d1 = "on_entry w (\<lambda>e. e\<lparr>te_cond := None, te_status := STATUS_READY\<rparr>) d"
  show ?case
  proof (cases ws)
    case Nil
    then show ?thesis by (simp add: on_entry_def fun_upd_def) (metis (full_types))
  next
    case (Cons v vs)
    have n1: "nodes ?d1 = nodes d" by (simp add: on_entry_def)
    have nx: "entry_next (nodes d w) = Some (hd ws)" "linked (nodes ?d1) ws" using Cons.prems(1) Cons by (simp_all add: n1)
    have "ready_loop (length (w # ws)) (Some (hd (w # ws))) d = ready_loop (length ws) (Some (hd ws)) ?d1"
      by (simp add: nx(1))
    also have "\<dots> = Inr (?d1\<lparr>entries := \<lambda>i. if i \<in> set ws then (entries ?d1 i)\<lparr>te_cond := None, te_status := STATUS_READY\<rparr>
        else entries ?d1 i\<rparr>)"
      by (rule Cons.IH [OF nx(2)]) (use Cons.prems Cons in auto)
    also have "?d1\<lparr>entries := \<lambda>i. if i \<in> set ws then (entries ?d1 i)\<lparr>te_cond := None, te_status := STATUS_READY\<rparr> else entries ?d1 i\<rparr>
       = d\<lparr>entries := \<lambda>i. if i \<in> set (w # ws) then (entries d i)\<lparr>te_cond := None, te_status := STATUS_READY\<rparr> else entries d i\<rparr>"
      using Cons.prems(2) by (auto simp: on_entry_def fun_eq_iff)
    finally show ?thesis .
  qed
qed simp

end
