(* ===== verification/DetermSched.thy ===== *)
theory DetermSched
  imports DetermRing
begin

text \<open>
  The rest of the simulation: broadcasts, barriers, threads that exit, join or wait for a signal, and threads that are registered.
\<close>

section \<open>Counts that pass through an int\<close>

lemma through_int:
  assumes "n < 2 ^ 31"
  shows "scast (ucast (word_of_nat n :: ulong) :: cint) = (word_of_nat n :: ulong)"
    and "unat (ucast (word_of_nat n :: ulong) :: cint) = n"
proof -
  have u: "unat (word_of_nat n :: ulong) = n" using assms by (intro unat_of_nat_small) simp
  show n: "unat (ucast (word_of_nat n :: ulong) :: cint) = n"
    using assms u by (simp add: unsigned_ucast_eq take_bit_nat_eq_self)
  have "uint (ucast (word_of_nat n :: ulong) :: cint) = int n" using n by (metis uint_nat)
  moreover have "sint w = signed_take_bit 31 (uint w)" for w :: cint by (simp add: sint_uint)
  ultimately have "sint (ucast (word_of_nat n :: ulong) :: cint) = int n"
    using assms by (simp add: signed_take_bit_int_eq_self)
  then show "scast (ucast (word_of_nat n :: ulong) :: cint) = (word_of_nat n :: ulong)"
    by (simp add: scast_eq)
qed

section \<open>Broadcast\<close>

lemma ring_distinct: "ring h xs \<Longrightarrow> distinct xs"
  by (simp add: ring_def)

lemma ring_linked: "ring h xs \<Longrightarrow> linked h xs"
proof -
  assume r: "ring h xs"
  then obtain ys t where "xs = ys @ [t]" by (metis ring_def rev_exhaust)
  with r show ?thesis by (simp add: ring_def linked_snoc)
qed

theorem cond_wake_all_sim:
  assumes sim: "sim d s Q" and c: "Cond c \<in> Q" and ne: "waiting s (Cond c) \<noteq> []" and len: "length (waiting s (Cond c)) < 2 ^ 31"
  shows "\<exists>d'. cond_wake_all c d = Inr d' \<and> sim d' (spec_wake_all (Cond c) s) Q
     \<and> (\<forall>w\<in>set (waiting s (Cond c)). te_status (entries d' w) = STATUS_READY)"
proof -
  let ?ws = "waiting s (Cond c)"
  from sim obtain t rest where r: "running s = t # rest" "ring_list (nodes d) (Some t) (t # rest)" "tokenpos d = Some t"
    "activelist d = Some (first s)" "first s = t \<or> first s \<in> set rest"
    "maxthreads d + of_nat (uncounted s) = 1 + of_nat (length rest)" "queues_ok d (waiting s) Q (insert t (set rest))"
    by (rule simE)
  have q: "ring_list (nodes d) (ce_head (cond_tab d c)) ?ws" "ce_waiters (cond_tab d c) = of_nat (length ?ws)"
    using queues_okD(1,2) [OF r(7) c] by simp_all
  have h: "ce_head (cond_tab d c) = Some (hd ?ws)" and lk: "linked (nodes d) ?ws" "distinct ?ws"
    using q(1) ne by (auto simp: ring_list_def intro: ring_linked ring_distinct)
  let ?e = "\<lambda>i. if i \<in> set ?ws then (entries d i)\<lparr>te_cond := None, te_status := STATUS_READY\<rparr> else entries d i"
  let ?d1 = "d\<lparr>entries := ?e\<rparr>"
  have loop: "ready_loop (length ?ws) (Some (hd ?ws)) d = Inr ?d1" by (rule ready_loop_linked [OF lk ne])
  from empty_queue [OF r(2,7) c] obtain ns where mv: "moveWholeList (Some t) (ce_head (cond_tab d c)) (nodes d) = Some (None, ns)"
    "ring_list ns (Some t) (t # ?ws @ rest)"
    and qs: "\<And>d'. updates_queue d (Cond c) ns None 0 (set ?ws) d' \<Longrightarrow> queues_ok d' ((waiting s)(Cond c := [])) Q (set (t # ?ws @ rest))"
    by auto
  let ?d' = "on_cond c (\<lambda>ce. ce\<lparr>ce_waiters := 0\<rparr>) (incrFence (of_nat (length ?ws))
     (on_cond c (\<lambda>ce. ce\<lparr>ce_head := None\<rparr>) (?d1\<lparr>nodes := ns\<rparr>)))"
  have eq: "cond_wake_all c d = Inr ?d'"
    unfolding cond_wake_all_def q(2) through_int(2) [OF len] h Let_def
    using mv(1) r(3) h through_int(1) [OF len] by (simp add: loop on_cond_def q(2))
  have "queues_ok ?d' ((waiting s)(Cond c := [])) Q (set (t # ?ws @ rest))"
  proof (rule qs)
    have "q_head ?d' p = q_head d p \<and> q_count ?d' p = q_count d p" if "p \<noteq> Cond c" for p
      by (rule q_other(1) [where c = c]) (use that in \<open>auto simp: on_cond_def fun_eq_iff\<close>)
    then show "updates_queue d (Cond c) ns None 0 (set ?ws) ?d'" by (simp add: updates_queue_def on_cond_def)
  qed
  moreover have "maxthreads d + of_nat (length ?ws) + of_nat (uncounted s) = of_nat (length (t # ?ws @ rest))"
  proof -
    have "maxthreads d + of_nat (length ?ws) + of_nat (uncounted s) = (maxthreads d + of_nat (uncounted s)) + of_nat (length ?ws)" by simp
    then show ?thesis unfolding r(6) by simp
  qed
  moreover have "running (spec_wake_all (Cond c) s) = t # ?ws @ rest" "waiting (spec_wake_all (Cond c) s) = (waiting s)(Cond c := [])"
    "first (spec_wake_all (Cond c) s) = first s" "uncounted (spec_wake_all (Cond c) s) = uncounted s"
    by (simp_all add: spec_wake_all_def spec_insert_def r(1))
  moreover have "first s \<in> set (t # ?ws @ rest)" using r(5) by auto
  ultimately have "sim ?d' (spec_wake_all (Cond c) s) Q"
    using r(3,4) mv(2) unfolding sim_def by (simp add: on_cond_def)
  then show ?thesis using eq by (simp add: on_cond_def)
qed

section \<open>Barriers\<close>

lemma unlink_removeEntry:
  "unlink t d = Inr (d\<lparr>activelist := a, nodes := ns\<rparr>) \<longleftrightarrow> removeEntry t (activelist d) (nodes d) = Some (a, ns)"
proof (cases "removeEntry t (activelist d) (nodes d)")
  case (Some p)
  obtain a' ns' where p: "p = (a', ns')" by (cases p)
  have "d\<lparr>activelist := a', nodes := ns'\<rparr> = d\<lparr>activelist := a, nodes := ns\<rparr> \<Longrightarrow> a' = a \<and> ns' = ns"
    by (drule arg_cong [where f = "\<lambda>d. (activelist d, nodes d)"]) simp
  then show ?thesis using Some p by (auto simp: unlink_def)
qed (simp add: unlink_def)

lemma of_nat_eq_ulong: "m < 2 ^ 31 \<Longrightarrow> n < 2 ^ 31 \<Longrightarrow> (of_nat m = (of_nat n :: ulong)) = (m = n)"
proof -
  assume "m < 2 ^ 31" "n < 2 ^ 31"
  then have "unat (word_of_nat m :: ulong) = m" "unat (word_of_nat n :: ulong) = n"
    by (intro unat_of_nat_small; simp)+
  then show ?thesis by metis
qed

theorem barrier_arrive_sim:
  assumes sim: "sim d s Q" and b: "Barrier b \<in> Q" and n: "be_maxthreads (barrier_tab d b) = of_nat n"
    and le: "Suc (length (waiting s (Barrier b))) \<le> n" and lt: "n < 2 ^ 31"
    and two: "Suc (length (waiting s (Barrier b))) = n \<or> tl (running s) \<noteq> []"
  shows "\<exists>d'. barrier_arrive (hd (running s)) b d = Inr (Suc (length (waiting s (Barrier b))) = n, d')
     \<and> sim d' (spec_barrier b n s) Q \<and> be_maxthreads (barrier_tab d' b) = of_nat n"
proof -
  let ?ws = "waiting s (Barrier b)"
  from sim obtain t rest where r: "running s = t # rest" "ring_list (nodes d) (Some t) (t # rest)" "tokenpos d = Some t"
    "activelist d = Some (first s)" "first s = t \<or> first s \<in> set rest"
    "maxthreads d + of_nat (uncounted s) = 1 + of_nat (length rest)" "queues_ok d (waiting s) Q (insert t (set rest))"
    by (rule simE)
  have q: "be_threads (barrier_tab d b) = of_nat (length ?ws)" using queues_okD(2) [OF r(7) b] by simp
  have "1 + of_nat (length ?ws) = (of_nat (Suc (length ?ws)) :: ulong)" by simp
  then have full: "(be_threads (barrier_tab d b) + 1 = be_maxthreads (barrier_tab d b)) = (Suc (length ?ws) = n)"
    unfolding q n using of_nat_eq_ulong [of "Suc (length ?ws)" n] le lt by (simp only: add.commute)
  show ?thesis
  proof (cases "Suc (length ?ws) = n")
    case True
    from empty_queue [OF r(2,7) b] obtain ns where mv: "moveWholeList (Some t) (be_head (barrier_tab d b)) (nodes d) = Some (None, ns)"
      "ring_list ns (Some t) (t # ?ws @ rest)"
      and qs: "\<And>d'. updates_queue d (Barrier b) ns None 0 (set ?ws) d' \<Longrightarrow> queues_ok d' ((waiting s)(Barrier b := [])) Q (set (t # ?ws @ rest))"
      by auto
    have nx: "entry_next (ns t) = Some (hd (?ws @ rest @ [t]))"
      using mv(2) ring_next [of ns t "?ws @ rest"] by (simp add: ring_list_def)
    have rot: "ring_list ns (Some (hd (?ws @ rest @ [t]))) (?ws @ rest @ [t])"
      using mv(2) ring_rotate1 [of ns t "?ws @ rest"] by (simp add: ring_list_def)
    have m1: "(of_nat n - 1 :: ulong) = of_nat (length ?ws)" using True by (metis add_diff_cancel_left' of_nat_Suc)
    let ?d' = "(on_barrier b (\<lambda>be. be\<lparr>be_threads := 0\<rparr>) (incrFence (of_nat (length ?ws))
       (on_barrier b (\<lambda>be. be\<lparr>be_head := None\<rparr>) ((on_barrier b (\<lambda>be. be\<lparr>be_threads := be_threads be + 1\<rparr>) d)\<lparr>nodes := ns\<rparr>))))
       \<lparr>tokenpos := Some (hd (?ws @ rest @ [t]))\<rparr>"
    have "length ?ws < 2 ^ 31" using le lt by simp
    then have eq: "barrier_arrive t b d = Inr (True, ?d')"
      using True full mv(1) nx r(3) through_int(1) [of "length ?ws"]
      by (simp add: barrier_arrive_def Let_def on_barrier_def n m1)
    have "queues_ok ?d' ((waiting s)(Barrier b := [])) Q (set (t # ?ws @ rest))"
    proof (rule qs)
      have "q_head ?d' p = q_head d p \<and> q_count ?d' p = q_count d p" if "p \<noteq> Barrier b" for p
        by (rule q_other(2) [where b = b]) (use that in \<open>auto simp: on_barrier_def fun_eq_iff\<close>)
      then show "updates_queue d (Barrier b) ns None 0 (set ?ws) ?d'" by (simp add: updates_queue_def on_barrier_def)
    qed
    moreover have "maxthreads d + of_nat (length ?ws) + of_nat (uncounted s) = of_nat (length (?ws @ rest @ [t]))"
    proof -
      have "maxthreads d + of_nat (length ?ws) + of_nat (uncounted s) = (maxthreads d + of_nat (uncounted s)) + of_nat (length ?ws)" by simp
      then show ?thesis unfolding r(6) by simp
    qed
    moreover have "set (t # ?ws @ rest) = set (?ws @ rest @ [t])" by auto
    moreover have "running (spec_barrier b n s) = ?ws @ rest @ [t]" "waiting (spec_barrier b n s) = (waiting s)(Barrier b := [])"
      "first (spec_barrier b n s) = first s" "uncounted (spec_barrier b n s) = uncounted s"
      by (simp_all add: spec_barrier_def spec_putToken_def spec_wake_all_def spec_insert_def r(1) True)
    moreover have "first s \<in> set (?ws @ rest @ [t])" using r(5) by auto
    ultimately have "sim ?d' (spec_barrier b n s) Q"
      using r(4) rot unfolding sim_def by (simp add: on_barrier_def)
    then show ?thesis using eq True r(1) n by (simp add: on_barrier_def)
  next
    case False
    with two have "tl (running s) \<noteq> []" by simp
    from sim_leave [OF sim this] r(1) obtain ns where l: "rest \<noteq> []" "distinct (t # rest)"
      "unlink t d = Inr (d\<lparr>activelist := Some (first (spec_leave s)), nodes := ns\<rparr>)"
      "ring_list ns (Some (hd rest)) rest" "same_outside (set rest) (nodes d) ns" "entry_next (nodes d t) = Some (hd rest)"
      "first (spec_leave s) \<in> set rest" "maxthreads d - 1 + of_nat (uncounted s) = of_nat (length rest)" by auto
    from enter_queue [OF l(4,5,2) r(7) b] obtain head ns' where ins: "insertTail t (be_head (barrier_tab d b)) ns = Some (head, ns')"
      and ring: "ring_list ns' (Some (hd rest)) rest"
      and qs: "\<And>d'. updates_queue d (Barrier b) ns' head (be_threads (barrier_tab d b) + 1) {t} d'
        \<Longrightarrow> queues_ok d' ((waiting s)(Barrier b := ?ws @ [t])) Q (set rest)"
      by auto
    let ?d2 = "on_entry t (\<lambda>e. e\<lparr>te_status := STATUS_BARR_WAITING, te_barrier := Some b\<rparr>)
      (on_barrier b (\<lambda>be. be\<lparr>be_head := head\<rparr>) ((on_barrier b (\<lambda>be. be\<lparr>be_threads := be_threads be + 1\<rparr>) d)
         \<lparr>activelist := Some (first (spec_leave s)), nodes := ns'\<rparr>))"
    let ?d' = "(decrFence ?d2)\<lparr>tokenpos := Some (hd rest)\<rparr>"
    have ul: "unlink t (on_barrier b f d) = Inr ((on_barrier b f d)\<lparr>activelist := Some (first (spec_leave s)), nodes := ns\<rparr>)" for f
      using l(3) unfolding unlink_removeEntry by (simp add: on_barrier_def)
    have eq: "barrier_arrive t b d = Inr (False, ?d')"
      using False full l(6) ins by (simp add: barrier_arrive_def Let_def ul) (simp add: on_barrier_def)
    have "queues_ok ?d' ((waiting s)(Barrier b := ?ws @ [t])) Q (set rest)"
    proof (rule qs)
      have "q_head ?d' p = q_head d p \<and> q_count ?d' p = q_count d p" if "p \<noteq> Barrier b" for p
        by (rule q_other(2) [where b = b]) (use that in \<open>auto simp: on_barrier_def on_entry_def fun_eq_iff\<close>)
      then show "updates_queue d (Barrier b) ns' head (be_threads (barrier_tab d b) + 1) {t} ?d'"
        by (simp add: updates_queue_def on_barrier_def on_entry_def)
    qed
    then have "sim ?d' (spec_barrier b n s) Q"
      using r(1) False l(1,7,8) ring by (simp add: sim_def spec_barrier_def spec_wait_def spec_leave_def on_barrier_def on_entry_def)
    then show ?thesis using eq False r(1) n by (simp add: on_barrier_def on_entry_def)
  qed
qed

section \<open>Threads that leave and come back\<close>

text \<open>A state that differs in what the relation does not read.\<close>

lemma sim_cong:
  assumes "sim d s Q" and "nodes d' = nodes d" "tokenpos d' = tokenpos d" "activelist d' = activelist d"
    "cond_tab d' = cond_tab d" "barrier_tab d' = barrier_tab d"
    and "maxthreads d' + of_nat (uncounted s') = of_nat (length (running s))"
    and "running s' = running s" "waiting s' = waiting s" "first s' = first s"
    and "\<And>q i. q \<in> Q \<Longrightarrow> i \<in> set (waiting s q) \<Longrightarrow> te_status (entries d' i) = te_status (entries d i) \<and> te_cond (entries d' i) = te_cond (entries d i)"
  shows "sim d' s' Q"
proof -
  have q: "q_head d' q = q_head d q" "q_count d' q = q_count d q" for q
    by (cases q; simp add: assms(5,6))+
  have ok: "queues_ok d (waiting s) Q (set (running s))" using assms(1) by (simp add: sim_def)
  have "queues_ok d' (waiting s) Q (set (running s))"
    unfolding queues_ok_def q assms(2)
  proof (intro conjI ballI allI impI)
    fix c i assume c: "Cond c \<in> Q" "i \<in> set (waiting s (Cond c))"
    from queues_okD(5) [OF ok c(1) refl c(2)] assms(11) [OF c]
    show "te_status (entries d' i) = STATUS_COND_WAITING" "te_cond (entries d' i) = Some c" by simp_all
  qed (use ok in \<open>auto simp: queues_ok_def\<close>)
  then show ?thesis using assms(1-4,7-10) by (simp add: sim_def)
qed

lemma running_not_waiting:
  assumes "sim d s Q" and "q \<in> Q" and "i \<in> set (running s)" and "j \<in> set (waiting s q)"
  shows "j \<noteq> i"
proof -
  have "queues_ok d (waiting s) Q (set (running s))" using assms(1) by (simp add: sim_def)
  from queues_okD(3) [OF this assms(2)] assms(3,4) show ?thesis by blast
qed

lemma leave_sim:
  assumes sim: "sim d s Q" and two: "tl (running s) \<noteq> []"
  shows "\<exists>f ns. unlink (hd (running s)) d = Inr (d\<lparr>activelist := Some f, nodes := ns\<rparr>)
     \<and> entry_next (nodes d (hd (running s))) = Some (hd (tl (running s)))
     \<and> entry_next (ns (hd (running s))) = Some (hd (tl (running s)))
     \<and> sim ((decrFence (d\<lparr>activelist := Some f, nodes := ns\<rparr>))\<lparr>tokenpos := Some (hd (tl (running s)))\<rparr>) (spec_leave s) Q"
proof -
  from sim_leave [OF sim two] obtain t rest ns where l: "running s = t # rest" "rest \<noteq> []" "distinct (t # rest)"
    "unlink t d = Inr (d\<lparr>activelist := Some (first (spec_leave s)), nodes := ns\<rparr>)"
    "ring_list ns (Some (hd rest)) rest" "same_outside (set rest) (nodes d) ns" "entry_next (nodes d t) = Some (hd rest)"
    "first (spec_leave s) \<in> set rest" "maxthreads d - 1 + of_nat (uncounted s) = of_nat (length rest)"
    "queues_ok d (waiting s) Q (insert t (set rest))" .
  let ?d' = "(decrFence (d\<lparr>activelist := Some (first (spec_leave s)), nodes := ns\<rparr>))\<lparr>tokenpos := Some (hd rest)\<rparr>"
  have "ns t = nodes d t" using l(3,6) by (simp add: same_outside_def)
  then have nx: "entry_next (ns t) = Some (hd rest)" using l(7) by simp
  have "queues_ok ?d' (waiting s) Q (set rest)"
    unfolding queues_ok_def
  proof (intro conjI ballI allI impI)
    fix q assume q: "q \<in> Q"
    note ok = queues_okD [OF l(10) q]
    have h: "q_head ?d' q = q_head d q" "q_count ?d' q = q_count d q" by (cases q; simp)+
    have "ring_list ns (q_head d q) (waiting s q)" by (rule dl.frame [OF ok(1) l(6)]) (use ok(3) in auto)
    then show "ring_list (nodes ?d') (q_head ?d' q) (waiting s q)" by (simp add: h)
    show "q_count ?d' q = of_nat (length (waiting s q))" "set rest \<inter> set (waiting s q) = {}" using ok(2,3) h by auto
  qed (use l(10) in \<open>auto simp: queues_ok_def\<close>)
  then have "sim ?d' (spec_leave s) Q"
    using l(1,2,5,8,9) by (simp add: sim_def) (simp add: spec_leave_def)
  then show ?thesis using l(1,4,7) nx by auto
qed

theorem sig_wait_leave_sim:
  assumes "sim d s Q" and "tl (running s) \<noteq> []"
  shows "\<exists>d'. sig_wait_leave (hd (running s)) d = Inr d' \<and> sim d' (spec_leave s) Q"
  using leave_sim [OF assms] by (auto simp: sig_wait_leave_def Let_def)

text \<open>A thread in no list is inserted behind the token holder.\<close>

lemma insert_sim:
  assumes sim: "sim d s Q" and j: "j \<notin> set (running s)" "\<And>q. q \<in> Q \<Longrightarrow> j \<notin> set (waiting s q)"
  shows "\<exists>ns. insertHead j (tokenpos d) (nodes d) = Some ns
     \<and> sim (d\<lparr>nodes := ns\<rparr>) ((spec_insert [j] s)\<lparr>uncounted := Suc (uncounted s)\<rparr>) Q"
proof -
  from sim obtain t rest where r: "running s = t # rest" "ring_list (nodes d) (Some t) (t # rest)" "tokenpos d = Some t"
    "activelist d = Some (first s)" "first s = t \<or> first s \<in> set rest"
    "maxthreads d + of_nat (uncounted s) = 1 + of_nat (length rest)" "queues_ok d (waiting s) Q (insert t (set rest))"
    by (rule simE)
  from dl.ins_head [OF r(2), of j] j(1) r(1) obtain ns where ns: "insertHead j (Some t) (nodes d) = Some ns"
    "ring_list ns (Some t) (t # j # rest)" "same_outside (insert j (set (t # rest))) (nodes d) ns" by auto
  have "queues_ok (d\<lparr>nodes := ns\<rparr>) (waiting s) Q (insert t (insert j (set rest)))"
    unfolding queues_ok_def
  proof (intro conjI ballI allI impI)
    fix q assume q: "q \<in> Q"
    note ok = queues_okD [OF r(7) q]
    have h: "q_head (d\<lparr>nodes := ns\<rparr>) q = q_head d q" "q_count (d\<lparr>nodes := ns\<rparr>) q = q_count d q" by (cases q; simp)+
    have "ring_list ns (q_head d q) (waiting s q)" by (rule dl.frame [OF ok(1) ns(3)]) (use ok(3) j(2) [OF q] in auto)
    then show "ring_list (nodes (d\<lparr>nodes := ns\<rparr>)) (q_head (d\<lparr>nodes := ns\<rparr>) q) (waiting s q)" by (simp add: h)
    show "q_count (d\<lparr>nodes := ns\<rparr>) q = of_nat (length (waiting s q))" "insert t (insert j (set rest)) \<inter> set (waiting s q) = {}"
      using ok(2,3) h j(2) [OF q] by auto
  qed (use r(7) in \<open>auto simp: queues_ok_def\<close>)
  moreover have "maxthreads d + (1 + of_nat (uncounted s)) = 1 + (1 + of_nat (length rest))"
    unfolding r(6) [symmetric] by (simp only: add.left_commute)
  ultimately have "sim (d\<lparr>nodes := ns\<rparr>) ((spec_insert [j] s)\<lparr>uncounted := Suc (uncounted s)\<rparr>) Q"
    using r ns(2) by (auto simp: sim_def spec_insert_def)
  then show ?thesis using ns(1) r(3) by auto
qed

theorem sig_wait_return_sim:
  assumes "sim d s Q" and "i \<notin> set (running s)" "\<And>q. q \<in> Q \<Longrightarrow> i \<notin> set (waiting s q)"
  shows "\<exists>d'. sig_wait_return i d = Inr d' \<and> sim d' (spec_insert [i] s) Q"
proof -
  from insert_sim [OF assms] obtain ns where ns: "insertHead i (tokenpos d) (nodes d) = Some ns"
    "sim (d\<lparr>nodes := ns\<rparr>) ((spec_insert [i] s)\<lparr>uncounted := Suc (uncounted s)\<rparr>) Q" by blast
  have "tokenpos d \<noteq> None" using assms(1) by (auto elim!: simE)
  then have "sig_wait_return i d = Inr (incrFence 1 (d\<lparr>nodes := ns\<rparr>))" using ns(1) by (auto simp: sig_wait_return_def)
  moreover have "sim (incrFence 1 (d\<lparr>nodes := ns\<rparr>)) (spec_insert [i] s) Q"
    by (rule sim_cong [OF ns(2)]) (use ns(2) in \<open>auto simp: sim_def spec_insert_def ac_simps\<close>)
  ultimately show ?thesis by blast
qed

text \<open>A thread that exits with the token; \<open>joiner\<close> is the parent when it waits in \<open>join\<close> for this thread.\<close>

definition joiner_of :: "nat \<Rightarrow> determ \<Rightarrow> nat option" where
  "joiner_of i d = (let parent = te_tid_parent (entries d i)
     in if te_status (entries d parent) = STATUS_JOINING \<and> te_joinee (entries d parent) = i then Some parent else None)"

lemma decrFence_unlink:
  "unlink t d = Inr (d\<lparr>activelist := a, nodes := ns\<rparr>) \<Longrightarrow> unlink t (decrFence d) = Inr (decrFence (d\<lparr>activelist := a, nodes := ns\<rparr>))"
proof -
  assume "unlink t d = Inr (d\<lparr>activelist := a, nodes := ns\<rparr>)"
  then have "unlink t (decrFence d) = Inr ((decrFence d)\<lparr>activelist := a, nodes := ns\<rparr>)" by (simp add: unlink_removeEntry)
  moreover have "(decrFence d)\<lparr>activelist := a, nodes := ns\<rparr> = decrFence (d\<lparr>activelist := a, nodes := ns\<rparr>)"
    by (simp add: decrFence_def Let_def)
  ultimately show ?thesis by simp
qed

lemma exit_sim:
  assumes sim: "sim d s Q" and two: "tl (running s) \<noteq> []" and al: "0 < alivethreads d" and t: "hd (running s) = t"
  shows "\<exists>d'. res_bind (unlink t (decrFence (d\<lparr>alivethreads := alivethreads d - 1\<rparr>)))
       (\<lambda>d3. Inr ((freeThreadEntry t d3)\<lparr>tokenpos := entry_next (nodes d t)\<rparr>)) = Inr d'
     \<and> sim d' (spec_leave s) Q \<and> te_status (entries d' t) = STATUS_EXIT \<and> alivethreads d' = alivethreads d - 1"
proof -
  let ?d0 = "d\<lparr>alivethreads := alivethreads d - 1\<rparr>"
  have "sim ?d0 s Q" by (rule sim_cong [OF sim]) (use sim in \<open>auto simp: sim_def\<close>)
  from leave_sim [OF this two] t obtain f ns where ns: "unlink t ?d0 = Inr (?d0\<lparr>activelist := Some f, nodes := ns\<rparr>)"
    "entry_next (nodes d t) = Some (hd (tl (running s)))"
    "sim ((decrFence (?d0\<lparr>activelist := Some f, nodes := ns\<rparr>))\<lparr>tokenpos := Some (hd (tl (running s)))\<rparr>) (spec_leave s) Q" by auto
  let ?d1 = "(decrFence (?d0\<lparr>activelist := Some f, nodes := ns\<rparr>))\<lparr>tokenpos := Some (hd (tl (running s)))\<rparr>"
  let ?d' = "(freeThreadEntry t (decrFence (?d0\<lparr>activelist := Some f, nodes := ns\<rparr>)))\<lparr>tokenpos := Some (hd (tl (running s)))\<rparr>"
  have "t \<in> set (running s)" using two t by (cases "running s") auto
  note other = running_not_waiting [OF sim _ this]
  have "sim ?d' (spec_leave s) Q"
    by (intro sim_cong [OF ns(3)]) (use ns(3) other in \<open>auto simp: sim_def spec_leave_def freeThreadEntry_def on_entry_def\<close>)
  then show ?thesis using decrFence_unlink [OF ns(1)] ns(2)
    by (simp add: freeThreadEntry_def on_entry_def)
qed

theorem deregisterThread_sim:
  assumes sim: "sim d s Q" and al: "0 < alivethreads d" and t: "hd (running s) = t"
    and j: "joiner_of t d = joiner" and two: "joiner = None \<Longrightarrow> tl (running s) \<noteq> []"
    and out: "\<And>p. joiner = Some p \<Longrightarrow> p \<notin> set (running s) \<and> (\<forall>q\<in>Q. p \<notin> set (waiting s q))"
  shows "\<exists>d'. deregisterThread t d = Inr d' \<and> sim d' (spec_exit joiner s) Q
     \<and> te_status (entries d' t) = STATUS_EXIT \<and> alivethreads d' = alivethreads d - 1"
proof (cases joiner)
  case None
  with j have "\<not> (te_status (entries d (te_tid_parent (entries d t))) = STATUS_JOINING \<and> te_joinee (entries d (te_tid_parent (entries d t))) = t)"
    by (auto simp: joiner_of_def Let_def split: if_splits)
  then have "deregisterThread t d = res_bind (unlink t (decrFence (d\<lparr>alivethreads := alivethreads d - 1\<rparr>)))
       (\<lambda>d3. Inr ((freeThreadEntry t d3)\<lparr>tokenpos := entry_next (nodes d t)\<rparr>))"
    using al by (auto simp: deregisterThread_def Let_def)
  with exit_sim [OF sim two al t] None show ?thesis by (simp add: spec_exit_def)
next
  case (Some p)
  with j have jn: "te_status (entries d p) = STATUS_JOINING \<and> te_joinee (entries d p) = t" "te_tid_parent (entries d t) = p"
    by (auto simp: joiner_of_def Let_def split: if_splits)
  from insert_sim [OF sim] out [OF Some] obtain ns where ns: "insertHead p (tokenpos d) (nodes d) = Some ns"
    "sim (d\<lparr>nodes := ns\<rparr>) ((spec_insert [p] s)\<lparr>uncounted := Suc (uncounted s)\<rparr>) Q" by blast
  let ?d1 = "d\<lparr>nodes := ns\<rparr>" and ?s1 = "(spec_insert [p] s)\<lparr>uncounted := Suc (uncounted s)\<rparr>"
  have "deregisterThread t d = res_bind (unlink t (decrFence (?d1\<lparr>alivethreads := alivethreads ?d1 - 1\<rparr>)))
       (\<lambda>d3. Inr ((freeThreadEntry t d3)\<lparr>tokenpos := entry_next (nodes ?d1 t)\<rparr>))"
    using al jn ns(1) by (simp add: deregisterThread_def Let_def)
  moreover have "tl (running ?s1) \<noteq> []" "hd (running ?s1) = t" using t by (simp_all add: spec_insert_def)
  moreover have "spec_leave ?s1 = spec_exit joiner s" using Some by (simp add: spec_exit_def spec_leave_def spec_insert_def)
  ultimately show ?thesis using exit_sim [OF ns(2), of t] al by simp
qed

text \<open>A thread that joins another one leaves the ring unless the other has exited.\<close>

theorem join_start_sim:
  assumes sim: "sim d s Q" and two: "tl (running s) \<noteq> []" and t: "hd (running s) = t" "te_threadindex (entries d t) = t"
    and g: "te_status (entries d g) \<noteq> STATUS_EXIT"
  shows "\<exists>d'. join_start g t wakeup d = Inr (True, d') \<and> sim d' (spec_leave s) Q
     \<and> te_status (entries d' t) = STATUS_JOINING \<and> te_joinee (entries d' t) = g"
proof -
  define d0 where "d0 = (if wakeup then notifyWaitingChildren d else d)"
  have f: "nodes d0 = nodes d" "entries d0 = entries d" "tokenpos d0 = tokenpos d" "activelist d0 = activelist d"
    "cond_tab d0 = cond_tab d" "barrier_tab d0 = barrier_tab d" "maxthreads d0 = maxthreads d"
    by (simp_all add: d0_def notifyWaitingChildren_def)
  have s0: "sim d0 s Q" by (rule sim_cong [OF sim]) (use sim f in \<open>auto simp: sim_def\<close>)
  have tp: "tokenpos d0 = Some t" using sim t(1) unfolding f by (auto elim!: simE)
  from leave_sim [OF s0 two] t obtain fr ns where ns: "unlink t d0 = Inr (d0\<lparr>activelist := Some fr, nodes := ns\<rparr>)"
    "entry_next (ns t) = Some (hd (tl (running s)))"
    "sim ((decrFence (d0\<lparr>activelist := Some fr, nodes := ns\<rparr>))\<lparr>tokenpos := Some (hd (tl (running s)))\<rparr>) (spec_leave s) Q" by auto
  let ?e = "\<lambda>e. e\<lparr>te_status := STATUS_JOINING, te_joinee := g\<rparr>"
  let ?d' = "(decrFence (on_entry t ?e (d0\<lparr>activelist := Some fr, nodes := ns\<rparr>)))\<lparr>tokenpos := Some (hd (tl (running s)))\<rparr>"
  have eq: "join_start g t wakeup d = Inr (True, ?d')"
    using g f(2) ns(1,2) tp t(2) by (simp add: join_start_def d0_def [symmetric] Let_def join_sleep_def on_entry_def)
  have "t \<in> set (running s)" using two t by (cases "running s") auto
  note other = running_not_waiting [OF sim _ this]
  have "sim ?d' (spec_leave s) Q"
    by (intro sim_cong [OF ns(3)]) (use ns(3) other in \<open>auto simp: sim_def spec_leave_def on_entry_def\<close>)
  then show ?thesis using eq f by (simp add: on_entry_def)
qed

text \<open>The joiner wakes after its joinee has exited, and counts in the fence again.\<close>

theorem join_wakeup_sim:
  assumes sim: "sim d s Q" and g: "te_status (entries d g) = STATUS_EXIT" and u: "uncounted s = Suc u"
    and i: "i \<in> set (running s)"
  shows "\<exists>d'. join_wakeup g i d = Inr (False, d') \<and> sim d' (s\<lparr>uncounted := u\<rparr>) Q \<and> te_status (entries d' i) = STATUS_READY"
proof -
  let ?d' = "on_entry i (\<lambda>e. e\<lparr>te_status := STATUS_READY\<rparr>) (incrFence 1 d)"
  note other = running_not_waiting [OF sim _ i]
  have "sim ?d' (s\<lparr>uncounted := u\<rparr>) Q"
    by (intro sim_cong [OF sim]) (use sim u other in \<open>auto simp: sim_def on_entry_def ac_simps\<close>)
  then show ?thesis using g by (simp add: join_wakeup_def Let_def on_entry_def)
qed

theorem startFence_sim:
  assumes "sim d s Q" and "uncounted s = n + u"
  shows "sim (startFence n d) (s\<lparr>uncounted := u\<rparr>) Q"
  by (rule sim_cong [OF assms(1)]) (use assms in \<open>auto simp: sim_def startFence_def ac_simps\<close>)

lemma sim_head:
  assumes "sim d s Q"
  shows "distinct (running s)" and "q \<in> Q \<Longrightarrow> hd (running s) \<notin> set (waiting s q)"
proof -
  from assms obtain t rest where t: "running s = t # rest" "distinct (t # rest)" "queues_ok d (waiting s) Q (insert t (set rest))"
    by (elim simE)
  then show "distinct (running s)" by simp
  show "q \<in> Q \<Longrightarrow> hd (running s) \<notin> set (waiting s q)" using queues_okD(3) [OF t(3)] t(1) by auto
qed

end
