(* ===== verification/Fence.thy ===== *)
theory Fence
  imports DetermSched
begin

text \<open>
  The fence of \<open>determ::waitFence\<close> as a step relation over the sections between its waits: any number of threads pass it over and over,
  in any interleaving, spinning or sleeping. Nobody leaves a round before everybody has arrived, nobody arrives for the next
  round before everybody has left, and the fence never gets stuck: no wakeup is lost.
\<close>

section \<open>The step relation\<close>

text \<open>
  \<open>Dozing\<close>: asleep on the condition variable, before the arrival. \<open>Ready\<close>: a spinning thread has seen the arrival phase open and is about to take the lock,
  without looking again. \<open>Waiting\<close>: it has arrived and spins (\<open>True\<close>) or sleeps (\<open>False\<close>) until the departure phase.
\<close>

datatype place = Running | Dozing | Ready | Waiting bool | Leaving

record fence_state =
  fs_determ :: determ
  fs_place :: "nat \<Rightarrow> place"
  fs_arrived :: "nat \<Rightarrow> nat"
  fs_left :: "nat \<Rightarrow> nat"

text \<open>The moves; a sleeper takes one only after it has been woken.\<close>

inductive fence_move :: "nat set \<Rightarrow> fence_state \<Rightarrow> fence_state \<Rightarrow> bool" for T where
  see: "i \<in> T \<Longrightarrow> fs_place s i = Running \<Longrightarrow> fence_open (fs_determ s)
    \<Longrightarrow> fence_move T s (s\<lparr>fs_place := (fs_place s)(i := Ready)\<rparr>)"
| rouse: "i \<in> T \<Longrightarrow> fs_place s i = Dozing \<Longrightarrow> fence_awake i (fs_determ s) \<Longrightarrow> fence_open (fs_determ s)
    \<Longrightarrow> fence_move T s (s\<lparr>fs_place := (fs_place s)(i := Ready)\<rparr>)"
| arrive: "i \<in> T \<Longrightarrow> fs_place s i = Ready \<Longrightarrow> fence_arrive i (fs_determ s) = (lst, d)
    \<Longrightarrow> fence_move T s (s\<lparr>fs_determ := d, fs_place := (fs_place s)(i := if lst then Leaving else Waiting (spins d)),
          fs_arrived := (fs_arrived s)(i := Suc (fs_arrived s i))\<rparr>)"
| spin_out: "i \<in> T \<Longrightarrow> fs_place s i = Waiting True \<Longrightarrow> fence_released (fs_determ s)
    \<Longrightarrow> fence_move T s (s\<lparr>fs_determ := fence_wakeup i (fs_determ s), fs_place := (fs_place s)(i := Leaving)\<rparr>)"
| wake: "i \<in> T \<Longrightarrow> fs_place s i = Waiting False \<Longrightarrow> fence_awake i (fs_determ s) \<Longrightarrow> fence_released (fs_determ s)
    \<Longrightarrow> fence_move T s (s\<lparr>fs_place := (fs_place s)(i := Leaving)\<rparr>)"
| leave: "i \<in> T \<Longrightarrow> fs_place s i = Leaving \<Longrightarrow> fence_leave (fs_determ s) = (lst, d)
    \<Longrightarrow> fence_move T s (s\<lparr>fs_determ := d, fs_place := (fs_place s)(i := Running), fs_left := (fs_left s)(i := Suc (fs_left s i))\<rparr>)"

text \<open>Going to sleep, and sleeping again after a wakeup in vain.\<close>

inductive fence_rest :: "nat set \<Rightarrow> fence_state \<Rightarrow> fence_state \<Rightarrow> bool" for T where
  doze: "i \<in> T \<Longrightarrow> fs_place s i = Running \<Longrightarrow> \<not> fence_open (fs_determ s)
    \<Longrightarrow> fence_rest T s (s\<lparr>fs_determ := fence_sleep i (fs_determ s), fs_place := (fs_place s)(i := Dozing)\<rparr>)"
| doze_again: "i \<in> T \<Longrightarrow> fs_place s i = Dozing \<Longrightarrow> fence_awake i (fs_determ s) \<Longrightarrow> \<not> fence_open (fs_determ s)
    \<Longrightarrow> fence_rest T s (s\<lparr>fs_determ := fence_sleep i (fs_determ s)\<rparr>)"
| wait_again: "i \<in> T \<Longrightarrow> fs_place s i = Waiting False \<Longrightarrow> fence_awake i (fs_determ s) \<Longrightarrow> \<not> fence_released (fs_determ s)
    \<Longrightarrow> fence_rest T s (s\<lparr>fs_determ := fence_sleep_again i (fs_determ s)\<rparr>)"

definition fence_step :: "nat set \<Rightarrow> fence_state \<Rightarrow> fence_state \<Rightarrow> bool" where
  "fence_step T s s' \<longleftrightarrow> fence_move T s s' \<or> fence_rest T s s'"

inductive fence_reach :: "nat set \<Rightarrow> fence_state \<Rightarrow> bool" for T where
  init: "maxthreads d = of_nat (card T) \<Longrightarrow> currthreads d = 0 \<Longrightarrow> is_arrival_phase d
    \<Longrightarrow> fence_reach T \<lparr>fs_determ = d, fs_place = (\<lambda>_. Running), fs_arrived = (\<lambda>_. 0), fs_left = (\<lambda>_. 0)\<rparr>"
| step: "fence_reach T s \<Longrightarrow> fence_step T s s' \<Longrightarrow> fence_reach T s'"

section \<open>Counting threads by place\<close>

definition inside :: "place \<Rightarrow> bool" where
  "inside p \<longleftrightarrow> p \<notin> {Running, Dozing, Ready}"

definition inside_count :: "nat set \<Rightarrow> (nat \<Rightarrow> place) \<Rightarrow> nat" where
  "inside_count T f = card {i \<in> T. inside (f i)}"

lemma inside_simps [simp]: "\<not> inside Running" "\<not> inside Dozing" "\<not> inside Ready" "inside (Waiting b)" "inside Leaving"
  by (simp_all add: inside_def)

lemma inside_count_enter:
  assumes "finite T" and "i \<in> T" and "\<not> inside (f i)" and "inside p"
  shows "inside_count T (f(i := p)) = Suc (inside_count T f)"
proof -
  have "{j \<in> T. inside ((f(i := p)) j)} = insert i {j \<in> T. inside (f j)}" using assms by auto
  then show ?thesis using assms by (simp add: inside_count_def)
qed

lemma inside_count_exit:
  assumes "finite T" and "i \<in> T" and "inside (f i)" and "\<not> inside p"
  shows "Suc (inside_count T (f(i := p))) = inside_count T f"
  using inside_count_enter [of T i "f(i := p)" "f i"] assms by simp

lemma inside_count_same: "inside p = inside (f i) \<Longrightarrow> inside_count T (f(i := p)) = inside_count T f"
proof -
  assume "inside p = inside (f i)"
  then have "{j \<in> T. inside ((f(i := p)) j)} = {j \<in> T. inside (f j)}" by auto
  then show ?thesis by (simp add: inside_count_def)
qed

lemma inside_count_le: "finite T \<Longrightarrow> inside_count T f \<le> card T"
  unfolding inside_count_def by (rule card_mono) auto

lemma inside_count_full: "finite T \<Longrightarrow> inside_count T f = card T \<longleftrightarrow> (\<forall>i\<in>T. inside (f i))"
proof
  assume fin: "finite T" and eq: "inside_count T f = card T"
  have "{i \<in> T. inside (f i)} = T" by (rule card_subset_eq [OF fin]) (use eq in \<open>auto simp: inside_count_def\<close>)
  then show "\<forall>i\<in>T. inside (f i)" by blast
next
  assume "\<forall>i\<in>T. inside (f i)"
  then have "{i \<in> T. inside (f i)} = T" by auto
  then show "inside_count T f = card T" by (simp add: inside_count_def)
qed

lemma inside_count_zero: "finite T \<Longrightarrow> inside_count T f = 0 \<longleftrightarrow> (\<forall>i\<in>T. \<not> inside (f i))"
  by (auto simp: inside_count_def)

section \<open>The invariant\<close>

text \<open>\<open>r\<close>: the number of completed rounds. In the arrival phase nobody is leaving; in the departure phase everybody has arrived.\<close>

definition fence_inv :: "nat set \<Rightarrow> nat \<Rightarrow> fence_state \<Rightarrow> bool" where
  "fence_inv T r s \<longleftrightarrow>
     maxthreads (fs_determ s) = of_nat (card T) \<and> currthreads (fs_determ s) = of_nat (inside_count T (fs_place s))
     \<and> (if is_arrival_phase (fs_determ s)
        then (\<exists>i\<in>T. \<not> inside (fs_place s i))
           \<and> (\<forall>i\<in>T. fs_place s i \<noteq> Leaving \<and> fs_left s i = r \<and> fs_arrived s i = (if inside (fs_place s i) then Suc r else r))
        else (\<exists>i\<in>T. inside (fs_place s i))
           \<and> (\<forall>i\<in>T. fs_place s i \<noteq> Ready \<and> fs_arrived s i = Suc r \<and> fs_left s i = (if inside (fs_place s i) then r else Suc r)))"

text \<open>No wakeup is lost: nobody sleeps on what has already happened.\<close>

definition none_missed :: "nat set \<Rightarrow> fence_state \<Rightarrow> bool" where
  "none_missed T s \<longleftrightarrow>
     (\<forall>i\<in>T. fs_place s i = (if is_arrival_phase (fs_determ s) then Dozing else Waiting False) \<longrightarrow> i \<notin> sleeping_fence (fs_determ s))"

lemma fence_arrive_simps:
  assumes "fence_arrive i d = (lst, d')" and "maxthreads d = of_nat n" and "currthreads d = of_nat k" and "k < n" and "n < 2 ^ 31"
  shows "lst \<longleftrightarrow> Suc k = n" and "maxthreads d' = of_nat n" and "currthreads d' = of_nat (Suc k)"
    and "is_arrival_phase d' = (is_arrival_phase d \<and> Suc k \<noteq> n)"
proof -
  have sk: "(of_nat k + 1 :: ulong) = of_nat (Suc k)" by (simp add: add.commute)
  have "unat (of_nat (Suc k) :: ulong) = Suc k" "unat (of_nat n :: ulong) = n"
    using assms(4,5) by (intro unat_of_nat_small; simp)+
  then have le: "(of_nat n \<le> (of_nat k + 1 :: ulong)) = (n \<le> Suc k)" unfolding sk word_le_nat_alt by simp
  show "lst \<longleftrightarrow> Suc k = n" "maxthreads d' = of_nat n" "currthreads d' = of_nat (Suc k)"
    "is_arrival_phase d' = (is_arrival_phase d \<and> Suc k \<noteq> n)"
    using assms(1-4) le sk by (auto simp: fence_arrive_def fence_sleep_def Let_def on_entry_def split: if_splits)
qed

lemma fence_arrive_asleep: "fence_arrive i d = (lst, d') \<Longrightarrow> sleeping_fence d' \<subseteq> (if lst then {} else insert i (sleeping_fence d))"
  by (auto simp: fence_arrive_def fence_sleep_def Let_def on_entry_def split: if_splits)

lemma fence_leave_asleep: "fence_leave d = (lst, d') \<Longrightarrow> sleeping_fence d' = (if lst then {} else sleeping_fence d)"
  by (auto simp: fence_leave_def Let_def split: if_splits)

lemma fence_leave_simps:
  assumes "fence_leave d = (lst, d')" and "maxthreads d = of_nat n" and "currthreads d = of_nat (Suc k)" and "k < 2 ^ 31"
  shows "lst \<longleftrightarrow> k = 0" and "maxthreads d' = of_nat n" and "currthreads d' = of_nat k"
    and "is_arrival_phase d' = (is_arrival_phase d \<or> k = 0)"
proof -
  have k: "(of_nat k = (0 :: ulong)) = (k = 0)" using of_nat_eq_ulong [of k 0] assms(4) by simp
  have "currthreads d - 1 = of_nat k" using assms(3) by simp
  then show "lst \<longleftrightarrow> k = 0" "maxthreads d' = of_nat n" "currthreads d' = of_nat k" "is_arrival_phase d' = (is_arrival_phase d \<or> k = 0)"
    using assms(1,2) k by (auto simp: fence_leave_def Let_def split: if_splits)
qed

lemma fence_wakeup_simps [simp]:
  "maxthreads (fence_wakeup i d) = maxthreads d" "currthreads (fence_wakeup i d) = currthreads d"
  "is_arrival_phase (fence_wakeup i d) = is_arrival_phase d" "sleeping_fence (fence_wakeup i d) = sleeping_fence d"
  by (simp_all add: fence_wakeup_def on_entry_def)

lemma fence_sleep_simps [simp]:
  "maxthreads (fence_sleep i d) = maxthreads d" "currthreads (fence_sleep i d) = currthreads d"
  "is_arrival_phase (fence_sleep i d) = is_arrival_phase d" "sleeping_fence (fence_sleep i d) = insert i (sleeping_fence d)"
  "maxthreads (fence_sleep_again i d) = maxthreads d" "currthreads (fence_sleep_again i d) = currthreads d"
  "is_arrival_phase (fence_sleep_again i d) = is_arrival_phase d" "sleeping_fence (fence_sleep_again i d) = insert i (sleeping_fence d)"
  by (simp_all add: fence_sleep_def fence_sleep_again_def on_entry_def)

lemma inv_see:
  assumes fin: "finite T" and small: "card T < 2 ^ 31" and inv: "fence_inv T r s" and i: "i \<in> T" "fs_place s i = Running \<or> fs_place s i = Dozing" "fence_open (fs_determ s)"
  shows "fence_inv T r (s\<lparr>fs_place := (fs_place s)(i := Ready)\<rparr>)"
proof -
  have c: "inside_count T ((fs_place s)(i := Ready)) = inside_count T (fs_place s)"
    by (rule inside_count_same) (use i(2) in auto)
  show ?thesis using inv i c unfolding fence_inv_def fence_open_def by auto
qed

lemma inv_arrive:
  assumes fin: "finite T" and small: "card T < 2 ^ 31" and inv: "fence_inv T r s" and i: "i \<in> T" "fs_place s i = Ready" and a: "fence_arrive i (fs_determ s) = (lst, d)"
  shows "fence_inv T r (s\<lparr>fs_determ := d, fs_place := (fs_place s)(i := if lst then Leaving else Waiting sp),
          fs_arrived := (fs_arrived s)(i := Suc (fs_arrived s i))\<rparr>)"
proof -
  let ?n = "card T" and ?k = "inside_count T (fs_place s)" and ?p = "if lst then Leaving else Waiting sp"
  have ph: "is_arrival_phase (fs_determ s)" using inv i unfolding fence_inv_def by (auto split: if_splits)
  have old: "maxthreads (fs_determ s) = of_nat ?n" "currthreads (fs_determ s) = of_nat ?k"
    "\<forall>j\<in>T. fs_place s j \<noteq> Leaving \<and> fs_left s j = r \<and> fs_arrived s j = (if inside (fs_place s j) then Suc r else r)"
    using inv ph unfolding fence_inv_def by simp_all
  have lt: "?k < ?n" using inside_count_le [OF fin, of "fs_place s"] inside_count_full [OF fin, of "fs_place s"] i
    by (metis inside_simps(3) le_neq_implies_less)
  note sm = fence_arrive_simps [OF a old(1,2) lt small]
  have c: "inside_count T ((fs_place s)(i := ?p)) = Suc ?k"
    by (rule inside_count_enter [OF fin i(1)]) (use i in simp_all)
  show ?thesis
  proof (cases "Suc ?k = ?n")
    case True
    then have full: "\<forall>j\<in>T. inside (((fs_place s)(i := ?p)) j)" using inside_count_full [OF fin] c by metis
    then show ?thesis using sm True c old(3) i unfolding fence_inv_def by (auto split: if_splits)
  next
    case False
    then have "\<exists>j\<in>T. \<not> inside (((fs_place s)(i := ?p)) j)" using inside_count_full [OF fin] c by metis
    then show ?thesis using sm False c old(3) i ph unfolding fence_inv_def by (auto split: if_splits)
  qed
qed

lemma inv_wake:
  assumes inv: "fence_inv T r s" and i: "i \<in> T" "fs_place s i = Waiting sp" "fence_released (fs_determ s)"
    and d: "maxthreads d = maxthreads (fs_determ s)" "currthreads d = currthreads (fs_determ s)" "is_arrival_phase d = is_arrival_phase (fs_determ s)"
  shows "fence_inv T r (s\<lparr>fs_determ := d, fs_place := (fs_place s)(i := Leaving)\<rparr>)"
proof -
  have c: "inside_count T ((fs_place s)(i := Leaving)) = inside_count T (fs_place s)"
    by (rule inside_count_same) (simp add: i)
  show ?thesis using inv i c d unfolding fence_inv_def fence_released_def by auto
qed

lemma inv_rest:
  assumes "fence_rest T s s'" and inv: "fence_inv T r s"
  shows "fence_inv T r s'"
  using assms(1)
proof cases
  case (doze i)
  have c: "inside_count T ((fs_place s)(i := Dozing)) = inside_count T (fs_place s)"
    by (rule inside_count_same) (simp add: doze)
  have "inside (fs_place s j) \<Longrightarrow> j \<noteq> i" for j using doze(3) by auto
  then show ?thesis using inv doze c unfolding fence_inv_def fence_open_def by auto
qed (use inv in \<open>simp_all add: fence_inv_def\<close>)

lemma inv_leave:
  assumes fin: "finite T" and small: "card T < 2 ^ 31" and inv: "fence_inv T r s" and i: "i \<in> T" "fs_place s i = Leaving" and l: "fence_leave (fs_determ s) = (lst, d)"
  shows "\<exists>r'. fence_inv T r' (s\<lparr>fs_determ := d, fs_place := (fs_place s)(i := Running), fs_left := (fs_left s)(i := Suc (fs_left s i))\<rparr>)"
proof -
  let ?s' = "s\<lparr>fs_determ := d, fs_place := (fs_place s)(i := Running), fs_left := (fs_left s)(i := Suc (fs_left s i))\<rparr>"
  let ?k = "inside_count T ((fs_place s)(i := Running))"
  have c: "Suc ?k = inside_count T (fs_place s)"
    by (rule inside_count_exit [OF fin i(1)]) (use i in simp_all)
  have ph: "\<not> is_arrival_phase (fs_determ s)" using inv i unfolding fence_inv_def by (auto split: if_splits)
  have old: "maxthreads (fs_determ s) = of_nat (card T)" "currthreads (fs_determ s) = of_nat (Suc ?k)"
    "\<forall>j\<in>T. fs_place s j \<noteq> Ready \<and> fs_arrived s j = Suc r \<and> fs_left s j = (if inside (fs_place s j) then r else Suc r)"
    using inv ph c unfolding fence_inv_def by simp_all
  have "?k < 2 ^ 31" using inside_count_le [OF fin, of "fs_place s"] c small by linarith
  note sm = fence_leave_simps [OF l old(1,2) this]
  show ?thesis
  proof (cases "?k = 0")
    case True
    then have none: "\<forall>j\<in>T. \<not> inside (((fs_place s)(i := Running)) j)" using inside_count_zero [OF fin] by blast
    then have "fence_inv T (Suc r) ?s'"
      using sm True old(3) i unfolding fence_inv_def by (auto split: if_splits)
    then show ?thesis by blast
  next
    case False
    then have "\<exists>j\<in>T. inside (((fs_place s)(i := Running)) j)" using inside_count_zero [OF fin] by metis
    then have "fence_inv T r ?s'"
      using sm False old(3) i ph unfolding fence_inv_def by (auto split: if_splits)
    then show ?thesis by blast
  qed
qed

lemma inv_step:
  assumes "finite T" and "card T < 2 ^ 31" and "fence_step T s s'" and "fence_inv T r s"
  shows "\<exists>r'. fence_inv T r' s'"
proof (cases "fence_rest T s s'")
  case True
  then show ?thesis using inv_rest assms(4) by blast
next
  case False
  with assms(3) have "fence_move T s s'" by (simp add: fence_step_def)
  then show ?thesis
  proof cases
    case (see i)
    then show ?thesis using inv_see [OF assms(1,2,4)] by blast
  next
    case (rouse i)
    then show ?thesis using inv_see [OF assms(1,2,4)] by blast
  next
    case (arrive i lst d)
    then show ?thesis using inv_arrive [OF assms(1,2,4) arrive(2,3,4), where sp = "spins d"] by auto
  next
    case (spin_out i)
    then show ?thesis using inv_wake [OF assms(4) spin_out(2,3,4), of "fence_wakeup i (fs_determ s)"] by auto
  next
    case (wake i)
    then show ?thesis using inv_wake [OF assms(4) wake(2,3,5), of "fs_determ s"] by auto
  next
    case (leave i lst d)
    then show ?thesis using inv_leave [OF assms(1,2,4) leave(2,3,4)] by simp
  qed
qed

lemma none_missed_step:
  assumes st: "fence_step T s s'" and fin: "finite T" and small: "card T < 2 ^ 31" and inv: "fence_inv T r s" and a: "none_missed T s"
  shows "none_missed T s'"
proof (cases "fence_rest T s s'")
  case True
  then show ?thesis using a by cases (auto simp: none_missed_def fence_open_def fence_released_def)
next
  case False
  with st have "fence_move T s s'" by (simp add: fence_step_def)
  then show ?thesis
  proof cases
    case (arrive i lst d)
    have ph: "is_arrival_phase (fs_determ s)" using inv arrive(2,3) unfolding fence_inv_def by (auto split: if_splits)
    have "is_arrival_phase d = (\<not> lst)" using arrive(4) ph by (auto simp: fence_arrive_def fence_sleep_def Let_def on_entry_def split: if_splits)
    then show ?thesis using a ph fence_arrive_asleep [OF arrive(4)] arrive(1,2) by (auto simp: none_missed_def split: if_splits)
  next
    case (leave i lst d)
    have ph: "\<not> is_arrival_phase (fs_determ s)" using inv leave(2,3) unfolding fence_inv_def by (auto split: if_splits)
    have "is_arrival_phase d = lst" using leave(4) ph by (auto simp: fence_leave_def Let_def split: if_splits)
    then show ?thesis using a ph fence_leave_asleep [OF leave(4)] leave(1,2) by (auto simp: none_missed_def split: if_splits)
  qed (use a in \<open>auto simp: none_missed_def fence_open_def fence_released_def split: if_splits\<close>)
qed

lemma fence_invariants:
  assumes "fence_reach T s" and fin: "finite T" and ne: "T \<noteq> {}" and small: "card T < 2 ^ 31"
  shows "\<exists>r. fence_inv T r s \<and> none_missed T s"
  using assms(1)
proof (induction rule: fence_reach.induct)
  case (init d)
  have "inside_count T (\<lambda>_. Running) = 0" by (simp add: inside_count_def)
  then show ?case using init ne by (intro exI [of _ 0]) (auto simp: fence_inv_def none_missed_def)
next
  case (step s s')
  then show ?case using inv_step [OF fin small] none_missed_step [OF step(2) fin small] by blast
qed

lemma fence_invariant:
  assumes "fence_reach T s" and fin: "finite T" and ne: "T \<noteq> {}" and small: "card T < 2 ^ 31"
  shows "\<exists>r. fence_inv T r s"
  using fence_invariants [OF assms] by blast

text \<open>Nobody leaves a round before everybody has arrived, and nobody is a round ahead.\<close>

lemma fence_safe:
  assumes "fence_inv T r s" and "i \<in> T" and "j \<in> T"
  shows "fs_left s i \<le> fs_arrived s j" and "fs_arrived s i \<le> Suc (fs_left s j)"
  using assms unfolding fence_inv_def by (auto split: if_splits)

text \<open>Some thread can always move, and every move brings it nearer to the end of the round.\<close>

lemma fence_live:
  assumes "fence_inv T r s" and a: "none_missed T s"
  shows "\<exists>s'. fence_move T s s'"
proof (cases "is_arrival_phase (fs_determ s)")
  case True
  with assms obtain i where i: "i \<in> T" "\<not> inside (fs_place s i)" unfolding fence_inv_def by auto
  then consider "fs_place s i = Running" | "fs_place s i = Dozing" | "fs_place s i = Ready" by (auto simp: inside_def)
  then show ?thesis
  proof cases
    case 1
    from see [OF i(1) 1] True show ?thesis by (auto simp: fence_open_def)
  next
    case 2
    from rouse [OF i(1) 2] a i(1) 2 True show ?thesis by (auto simp: fence_open_def fence_awake_def none_missed_def)
  next
    case 3
    obtain lst d where "fence_arrive i (fs_determ s) = (lst, d)" by (cases "fence_arrive i (fs_determ s)")
    from arrive [OF i(1) 3 this] show ?thesis by blast
  qed
next
  case False
  with assms obtain i where i: "i \<in> T" "inside (fs_place s i)" unfolding fence_inv_def by auto
  then consider "fs_place s i = Waiting True" | "fs_place s i = Waiting False" | "fs_place s i = Leaving"
    by (cases "fs_place s i") (auto simp: inside_def)
  then show ?thesis
  proof cases
    case 1
    from spin_out [OF i(1) 1] False show ?thesis by (auto simp: fence_released_def)
  next
    case 2
    from wake [OF i(1) 2] a i(1) 2 False show ?thesis by (auto simp: fence_released_def fence_awake_def none_missed_def)
  next
    case 3
    obtain lst d where "fence_leave (fs_determ s) = (lst, d)" by (cases "fence_leave (fs_determ s)")
    from leave [OF i(1) 3 this] show ?thesis by blast
  qed
qed

fun stage :: "place \<Rightarrow> nat" where
  "stage Running = 0"
| "stage Dozing = 0"
| "stage Ready = 1"
| "stage (Waiting _) = 2"
| "stage Leaving = 3"

definition progress :: "nat set \<Rightarrow> fence_state \<Rightarrow> nat" where
  "progress T s = (\<Sum>i\<in>T. 4 * fs_left s i + stage (fs_place s i))"

lemma sum_grows: "finite T \<Longrightarrow> i \<in> T \<Longrightarrow> f i < g i \<Longrightarrow> (\<And>j. j \<in> T \<Longrightarrow> j \<noteq> i \<Longrightarrow> f j = g j) \<Longrightarrow> sum f T < sum g T" for f g :: "nat \<Rightarrow> nat"
  by (rule sum_strict_mono_ex1) (auto intro: order.order_iff_strict [THEN iffD2])

lemma move_progress: "fence_move T s s' \<Longrightarrow> finite T \<Longrightarrow> progress T s < progress T s'"
  unfolding progress_def by (erule fence_move.cases) (auto intro!: sum_grows)

lemma move_left: "fence_move T s s' \<Longrightarrow> fs_left s i \<le> fs_left s' i"
  by (erule fence_move.cases) auto

lemma reach_moves: "(fence_move T)\<^sup>*\<^sup>* s s' \<Longrightarrow> fence_reach T s \<Longrightarrow> fence_reach T s' \<and> fs_left s i \<le> fs_left s' i"
  by (induction rule: rtranclp_induct) (auto simp: fence_step_def dest: move_left intro: fence_reach.step order_trans)

lemma fence_far:
  assumes "fence_reach T s" and fin: "finite T" and ne: "T \<noteq> {}" and small: "card T < 2 ^ 31"
  shows "\<exists>s'. (fence_move T)\<^sup>*\<^sup>* s s' \<and> n \<le> progress T s'"
proof (induction n)
  case (Suc n)
  then obtain s1 where s1: "(fence_move T)\<^sup>*\<^sup>* s s1" "n \<le> progress T s1" by blast
  then have "fence_reach T s1" using reach_moves assms(1) by blast
  from fence_invariants [OF this fin ne small] fence_live obtain s2 where "fence_move T s1 s2" by blast
  with s1 move_progress [OF this fin] show ?case by (intro exI [of _ s2]) (auto intro: rtranclp.rtrancl_into_rtrancl)
qed auto

text \<open>So the moves alone take everybody through the fence once more.\<close>

lemma fence_passed:
  assumes r: "fence_reach T s" and fin: "finite T" and ne: "T \<noteq> {}" and small: "card T < 2 ^ 31"
  shows "\<exists>s'. (fence_move T)\<^sup>*\<^sup>* s s' \<and> (\<forall>i\<in>T. fs_left s i < fs_left s' i)"
proof -
  define m where "m = Max (fs_left s ` T)"
  from fence_far [OF assms, of "card T * (4 * m + 8)"] obtain s' where s': "(fence_move T)\<^sup>*\<^sup>* s s'" "card T * (4 * m + 8) \<le> progress T s'" by blast
  then have "fence_reach T s'" using reach_moves r by blast
  from fence_invariant [OF this fin ne small] obtain q where q: "fence_inv T q s'" ..
  have "fs_left s i < fs_left s' i" if i: "i \<in> T" for i
  proof (rule ccontr)
    assume "\<not> fs_left s i < fs_left s' i"
    moreover have "fs_left s i \<le> m" unfolding m_def using fin i by simp
    ultimately have le: "fs_left s' i \<le> m" by simp
    have "4 * fs_left s' j + stage (fs_place s' j) < 4 * m + 8" if j: "j \<in> T" for j
    proof -
      have "fs_left s' j \<le> fs_arrived s' i" "fs_arrived s' i \<le> Suc (fs_left s' i)" using fence_safe [OF q] i j by blast+
      then have "fs_left s' j \<le> Suc m" using le by linarith
      moreover have "stage (fs_place s' j) < 4" by (cases "fs_place s' j") simp_all
      ultimately show ?thesis by linarith
    qed
    then have "progress T s' < (\<Sum>j\<in>T. 4 * m + 8)" unfolding progress_def by (intro sum_strict_mono fin ne) simp
    with s'(2) show False by simp
  qed
  with s'(1) show ?thesis by blast
qed

end
