(* ===== verification/DetermLocks.thy ===== *)
theory DetermLocks
  imports DetermSched
begin

text \<open>
  What the locks of \<open>determ.h\<close> promise: exclusion until the release, and the budget of the thread that owns a lock without the token.
  Then registration in the ring, and two ways in which the layer breaks its own rules: a wait by a thread that does not have the token, and a
  signal after a waiter was cancelled.
\<close>

section \<open>Exclusion\<close>

lemma acquire_taken: "le_is_acquired l \<Longrightarrow> acquire_entry me single l = (False, l)"
  by (simp add: acquire_entry_def)

lemma acquire_gets: "acquire_entry me single l = (True, l') \<Longrightarrow> \<not> le_is_acquired l \<and> le_is_acquired l'"
  by (auto simp: acquire_entry_def Let_def split: if_splits)

lemma on_lock_same [simp]: "on_dt (on_lock e (\<lambda>_. lock_tab (dt s) e)) s = s"
  by (simp add: on_dt_def on_lock_def)

lemma dt_on_lock [simp]: "dt (on_dt (on_lock e f) s) = on_lock e f (dt s)" "lock_tab (on_lock e f d) e = f (lock_tab d e)"
  by (simp_all add: on_dt_def on_lock_def)

lemma lock_acquire_known:
  "sync_entry me m s = Some e \<Longrightarrow> lock_acquire me m s =
     Inr (case acquire_entry me (isSingleWorkingThread (dt s)) (lock_tab (dt s) e) of (b, l) \<Rightarrow> (b, on_dt (on_lock e (\<lambda>_. l)) s))"
  by (simp add: lock_acquire_def split: prod.splits)

lemma lock_exclusive:
  assumes "sync_entry me m s = Some e" and "lock_acquire me m s = Inr (True, s')" and "sync_entry q m s' = Some e"
  shows "\<not> le_is_acquired (lock_tab (dt s) e)" and "lock_acquire q m s' = Inr (False, s')"
proof -
  obtain l where l: "acquire_entry me (isSingleWorkingThread (dt s)) (lock_tab (dt s) e) = (True, l)"
    "s' = on_dt (on_lock e (\<lambda>_. l)) s"
    using assms(1,2) by (auto simp: lock_acquire_known split: prod.splits)
  from acquire_gets [OF l(1)] show "\<not> le_is_acquired (lock_tab (dt s) e)" by simp
  from acquire_gets [OF l(1)] l(2) have "le_is_acquired (lock_tab (dt s') e)" by simp
  then show "lock_acquire q m s' = Inr (False, s')" by (simp add: lock_acquire_known [OF assms(3)] acquire_taken)
qed

section \<open>The budget of the owner\<close>

definition owned_free :: "cint \<Rightarrow> lock_entry \<Rightarrow> bool" where
  "owned_free me l \<longleftrightarrow> le_total_users l = 1 \<and> le_last_thread l = me \<and> \<not> le_is_acquired l"

lemma acquire_owned:
  assumes "owned_free me l"
  shows "acquire_entry me single l =
    (if le_budget l = 1
     then (single, l\<lparr>le_is_acquired := single, le_budget := word_of_int LOCK_OWNER_BUDGET\<rparr>)
     else (True, l\<lparr>le_is_acquired := True, le_budget := le_budget l - 1\<rparr>))"
  using assms by (cases l) (auto simp: acquire_entry_def owned_free_def Let_def)

text \<open>The owner acquires and releases the lock \<open>n\<close> times, without a refusal.\<close>

inductive lock_cycles :: "cint \<Rightarrow> nat \<Rightarrow> nat \<Rightarrow> 'a dsys_scheme \<Rightarrow> 'a dsys_scheme \<Rightarrow> bool" for me m where
  stop: "lock_cycles me m 0 s s"
| again: "lock_cycles me m n s s1 \<Longrightarrow> lock_acquire me m s1 = Inr (True, s2) \<Longrightarrow> lock_release me m s2 = Inr s3 \<Longrightarrow> lock_cycles me m (Suc n) s s3"

definition at_lock :: "nat \<Rightarrow> lock_entry \<Rightarrow> 'a dsys_scheme \<Rightarrow> 'a dsys_scheme" where
  "at_lock e l s = on_dt (on_lock e (\<lambda>_. l)) s"

lemma at_lock_simps [simp]:
  "sync_entry me m (at_lock e l s) = sync_entry me m s" "isSingleWorkingThread (dt (at_lock e l s)) = isSingleWorkingThread (dt s)"
  "lock_tab (dt (at_lock e l s)) e = l" "on_dt (on_lock e (\<lambda>_. l')) (at_lock e l s) = at_lock e l' s" "at_lock e (lock_tab (dt s) e) s = s"
  by (simp_all add: at_lock_def on_dt_def on_lock_def sync_entry_def isSingleWorkingThread_def)

lemma lock_release_known:
  "sync_entry me m s = Some e \<Longrightarrow> lock_release me m (at_lock e l s) = Inr (at_lock e (l\<lparr>le_is_acquired := False\<rparr>) s)"
  by (simp add: lock_release_def at_lock_def on_dt_def on_lock_def sync_entry_def)

lemma lock_cycle:
  assumes e: "sync_entry me m s = Some e" and l: "owned_free me l" and go: "le_budget l \<noteq> 1 \<or> isSingleWorkingThread (dt s)"
    and c: "lock_cycles me m n s (at_lock e l s)"
  shows "lock_cycles me m (Suc n) s (at_lock e (l\<lparr>le_budget := if le_budget l = 1 then word_of_int LOCK_OWNER_BUDGET else le_budget l - 1\<rparr>) s)"
proof -
  let ?b = "if le_budget l = 1 then word_of_int LOCK_OWNER_BUDGET else le_budget l - 1"
  have "lock_acquire me m (at_lock e l s) = Inr (True, at_lock e (l\<lparr>le_is_acquired := True, le_budget := ?b\<rparr>) s)"
    using go by (auto simp: lock_acquire_known [of me m "at_lock e l s" e] e acquire_owned [OF l])
  from again [OF c this lock_release_known [OF e]] show ?thesis using l by (cases l) (simp add: owned_free_def)
qed

lemma budget_one:
  assumes "n < unat (b :: cint)"
  shows "b - of_nat n = 1 \<longleftrightarrow> unat b = Suc n"
proof -
  have "b - of_nat n = 1 \<longleftrightarrow> b = of_nat (Suc n)" by (auto simp: algebra_simps)
  also have "\<dots> \<longleftrightarrow> unat b = Suc n"
  proof
    assume "b = of_nat (Suc n)"
    moreover have "Suc n < 2 ^ 32" using assms unsigned_less [of b, where ?'a = nat] by simp
    ultimately show "unat b = Suc n" using unat_of_nat_small [of "Suc n", where ?'a = 32] by simp
  next
    assume "unat b = Suc n"
    then have "of_nat (unat b) = (of_nat (Suc n) :: cint)" by (rule arg_cong)
    then show "b = of_nat (Suc n)" by (simp only: of_nat_unat ucast_id)
  qed
  finally show ?thesis .
qed

lemma owner_cycles:
  assumes e: "sync_entry me m s = Some e" and l: "owned_free me (lock_tab (dt s) e)" and n: "n < unat (le_budget (lock_tab (dt s) e))"
  shows "lock_cycles me m n s (at_lock e ((lock_tab (dt s) e)\<lparr>le_budget := le_budget (lock_tab (dt s) e) - of_nat n\<rparr>) s)"
  using n
proof (induction n)
  case 0
  then show ?case by (simp add: lock_cycles.stop)
next
  case (Suc n)
  let ?l = "(lock_tab (dt s) e)\<lparr>le_budget := le_budget (lock_tab (dt s) e) - of_nat n\<rparr>"
  have b: "le_budget ?l \<noteq> 1" using budget_one [of n "le_budget (lock_tab (dt s) e)"] Suc.prems by simp
  moreover have "owned_free me ?l" using l by (simp add: owned_free_def)
  ultimately have "lock_cycles me m (Suc n) s (at_lock e (?l\<lparr>le_budget := le_budget ?l - 1\<rparr>) s)"
    using lock_cycle [OF e, of ?l n] Suc by auto
  then show ?case by (simp add: algebra_simps)
qed

theorem owner_budget:
  assumes e: "sync_entry me m s = Some e" and l: "owned_free me (lock_tab (dt s) e)" and n: "n < unat (le_budget (lock_tab (dt s) e))"
  shows "\<exists>s' got s''. lock_cycles me m n s s' \<and> lock_acquire me m s' = Inr (got, s'')
     \<and> (got \<longleftrightarrow> isSingleWorkingThread (dt s) \<or> Suc n < unat (le_budget (lock_tab (dt s) e)))
     \<and> (\<not> got \<longrightarrow> owned_free me (lock_tab (dt s'') e) \<and> le_budget (lock_tab (dt s'') e) = word_of_int LOCK_OWNER_BUDGET)"
proof -
  let ?l = "lock_tab (dt s) e" and ?k = "(lock_tab (dt s) e)\<lparr>le_budget := le_budget (lock_tab (dt s) e) - of_nat n\<rparr>"
  have o: "owned_free me ?k" using l by (simp add: owned_free_def)
  have "le_budget ?k = 1 \<longleftrightarrow> \<not> Suc n < unat (le_budget ?l)" using budget_one [OF n] n by auto
  then have "lock_acquire me m (at_lock e ?k s) =
      Inr (if Suc n < unat (le_budget ?l) then (True, at_lock e (?k\<lparr>le_is_acquired := True, le_budget := le_budget ?k - 1\<rparr>) s)
        else (isSingleWorkingThread (dt s), at_lock e (?k\<lparr>le_is_acquired := isSingleWorkingThread (dt s), le_budget := word_of_int LOCK_OWNER_BUDGET\<rparr>) s))"
    by (simp add: lock_acquire_known [of me m "at_lock e ?k s" e] e acquire_owned [OF o])
  then show ?thesis using owner_cycles [OF assms] l
    by (intro exI [of _ "at_lock e ?k s"]) (auto simp: owned_free_def)
qed

text \<open>A thread that works alone is never refused.\<close>

theorem single_cycles:
  assumes e: "sync_entry me m s = Some e" and l: "owned_free me (lock_tab (dt s) e)" and single: "isSingleWorkingThread (dt s)"
  shows "\<exists>l'. owned_free me l' \<and> lock_cycles me m n s (at_lock e l' s)"
proof (induction n)
  case 0
  then show ?case using l by (intro exI [of _ "lock_tab (dt s) e"]) (simp add: lock_cycles.stop)
next
  case (Suc n)
  then obtain k where k: "owned_free me k" "lock_cycles me m n s (at_lock e k s)" by blast
  let ?k = "k\<lparr>le_budget := if le_budget k = 1 then word_of_int LOCK_OWNER_BUDGET else le_budget k - 1\<rparr>"
  have "lock_cycles me m (Suc n) s (at_lock e ?k s)" using lock_cycle [OF e k(1) _ k(2)] single by blast
  then show ?case using k(1) by (intro exI [of _ ?k]) (simp add: owned_free_def)
qed

section \<open>Registration\<close>

text \<open>A new thread enters the ring before the first thread of the active list and is not counted by the fence yet.\<close>

definition spec_register :: "nat \<Rightarrow> sched \<Rightarrow> sched" where
  "spec_register n s =
     (let before = takeWhile (\<lambda>j. j \<noteq> first s) (running s)
      in s\<lparr>running := (if before = [] then running s @ [n] else before @ [n] @ dropWhile (\<lambda>j. j \<noteq> first s) (running s)),
           uncounted := Suc (uncounted s)\<rparr>)"

lemma spec_register_running:
  assumes "running s = as @ f # bs" and "first s = f" and "f \<notin> set as"
  shows "running (spec_register n s) = (if as = [] then f # bs @ [n] else as @ n # f # bs)"
proof -
  have ne: "\<And>x. x \<in> set as \<Longrightarrow> x \<noteq> f" using assms(3) by blast
  have "takeWhile (\<lambda>j. j \<noteq> f) (as @ f # bs) = as" using takeWhile_append2 [of as "\<lambda>j. j \<noteq> f" "f # bs", OF ne] by simp
  moreover have "dropWhile (\<lambda>j. j \<noteq> f) (as @ f # bs) = f # bs" using dropWhile_append2 [of as "\<lambda>j. j \<noteq> f" "f # bs", OF ne] by simp
  ultimately show ?thesis using assms(1,2) by (simp add: spec_register_def Let_def)
qed

lemma spec_register_simps:
  "waiting (spec_register n s) = waiting s" "first (spec_register n s) = first s" "uncounted (spec_register n s) = Suc (uncounted s)"
  by (simp_all add: spec_register_def Let_def)

lemma queues_ok_outside:
  assumes ok: "queues_ok d W Q R" and out: "same_outside A (nodes d) (nodes d')"
    and dis: "\<And>q. q \<in> Q \<Longrightarrow> set (W q) \<inter> (A \<union> R') = {}"
    and tabs: "cond_tab d' = cond_tab d" "barrier_tab d' = barrier_tab d"
    and same: "\<And>q i. q \<in> Q \<Longrightarrow> i \<in> set (W q) \<Longrightarrow> entries d' i = entries d i"
  shows "queues_ok d' W Q R'"
proof -
  have heads: "q_head d' q = q_head d q \<and> q_count d' q = q_count d q" for q using tabs by (cases q) simp_all
  have "ring_list (nodes d') (q_head d' q) (W q)" if "q \<in> Q" for q
    using ring_list_outside [OF queues_okD(1) [OF ok that] out] dis [OF that] heads by auto
  moreover have "q_count d' q = of_nat (length (W q)) \<and> R' \<inter> set (W q) = {}" if "q \<in> Q" for q
    using queues_okD(2) [OF ok that] dis [OF that] heads by auto
  moreover have "set (W q) \<inter> set (W p) = {}" if "q \<in> Q" "p \<in> Q" "q \<noteq> p" for q p
    using queues_okD(4) [OF ok that(1,2)] that(3) by auto
  moreover have "te_status (entries d' i) = STATUS_COND_WAITING \<and> te_cond (entries d' i) = Some c"
    if "Cond c \<in> Q" "i \<in> set (W (Cond c))" for c i
    using queues_okD(5) [OF ok that(1) refl that(2)] same [OF that] by simp
  ultimately show ?thesis unfolding queues_ok_def by blast
qed

lemma registerThread_sim:
  assumes sim: "sim d s Q" and n: "n < MAX_THREADS" "n \<notin> set (running s)" "\<And>q. q \<in> Q \<Longrightarrow> n \<notin> set (waiting s q)"
  shows "\<exists>d'. registerThread n pid parent d = Inr d' \<and> sim d' (spec_register n s) Q
     \<and> te_status (entries d' n) = STATUS_READY \<and> te_tid (entries d' n) = pid \<and> te_tid_parent (entries d' n) = parent"
proof -
  from sim obtain t rest where t: "running s = t # rest" "ring_list (nodes d) (Some t) (t # rest)" "tokenpos d = Some t"
      "activelist d = Some (first s)" "first s = t \<or> first s \<in> set rest" "distinct (t # rest)"
      "maxthreads d + of_nat (uncounted s) = 1 + of_nat (length rest)" "queues_ok d (waiting s) Q (insert t (set rest))"
    by (elim simE)
  define f where "f = first s"
  have "f \<in> set (t # rest)" using t(5) by (simp add: f_def)
  then obtain as bs where split: "t # rest = as @ f # bs" "f \<notin> set as" by (meson split_list_first)
  have ring: "ring (nodes d) (as @ f # bs)" using t(2) split by (simp add: ring_list_def)
  then have "ring_list (nodes d) (Some f) (f # bs @ as)" using ring_rotate [of "nodes d" as "f # bs"] by (simp add: ring_list_def)
  moreover have "n \<notin> set (f # bs @ as)" using n(2) t(1) split(1) by auto
  ultimately obtain head h where h: "insertTail n (Some f) (nodes d) = Some (head, h)" "ring_list h head ((f # bs @ as) @ [n])"
      "same_outside (insert n (set (f # bs @ as))) (nodes d) h"
    using insertTail_ring by blast
  let ?e = "\<lambda>e. e\<lparr>te_tid := pid, te_threadindex := n, te_wait := 0, te_tid_parent := parent, te_status := STATUS_READY\<rparr>"
  let ?d = "(on_entry n ?e d)\<lparr>activelist := head, nodes := h\<rparr>"
  have reg: "registerThread n pid parent d = Inr ?d"
    using n(1) t(3,4) h(1) by (simp add: registerThread_def allocThreadEntry_def Let_def on_entry_def f_def)
  have hd: "head = Some f" using h(2) by (simp add: ring_list_def)
  have run: "running (spec_register n s) = (if as = [] then f # bs @ [n] else as @ n # f # bs)"
    by (rule spec_register_running) (use t(1) split f_def in auto)
  have ring': "ring_list h (Some t) (running (spec_register n s))"
  proof (cases as)
    case Nil
    then show ?thesis using h(2) hd split run by (simp add: ring_list_def)
  next
    case (Cons a as')
    have "ring h ((f # bs) @ (as @ [n]))" using h(2) by (simp add: ring_list_def)
    then have "ring h ((as @ [n]) @ f # bs)" by (rule ring_rotate)
    then show ?thesis using Cons split run by (simp add: ring_list_def)
  qed
  have sets: "set (running (spec_register n s)) = insert n (insert t (set rest))"
    using run split(1) by (metis Un_insert_left append_Nil list.simps(15) set_append sup_commute Un_commute Un_insert_right)
  have len: "length (running (spec_register n s)) = Suc (Suc (length rest))"
  proof -
    have "length (t # rest) = length (as @ f # bs)" by (simp only: split(1))
    then show ?thesis using run by (auto split: if_splits)
  qed
  have "set (t # rest) = set (as @ f # bs)" by (simp only: split(1))
  then have A: "insert n (set (f # bs @ as)) = insert n (insert t (set rest))" by auto
  have "queues_ok ?d (waiting s) Q (set (running (spec_register n s)))"
  proof (rule queues_ok_outside [OF t(8), where A = "insert n (insert t (set rest))"])
    show "same_outside (insert n (insert t (set rest))) (nodes d) (nodes ?d)" using h(3) unfolding A by simp
  qed (use n(3) queues_okD(3) [OF t(8)] sets in \<open>auto simp: on_entry_def\<close>)
  moreover have "running (spec_register n s) \<noteq> []" "first s \<in> set (running (spec_register n s))"
    using sets t(1,5) by auto
  ultimately have "sim ?d (spec_register n s) Q"
    using t ring' len hd by (simp add: sim_def on_entry_def f_def spec_register_simps)
  with reg show ?thesis by (auto simp: on_entry_def)
qed

section \<open>A wait without the token\<close>

text \<open>A thread that owns its lock does not ask for the token; when it then waits, it hands on a token it does not have.\<close>

lemma cond_enqueue_steals:
  assumes sim: "sim d s Q" and c: "Cond c \<in> Q" and r: "running s = t # xs @ i # y # ys"
  shows "\<exists>d'. cond_enqueue i c d = Inr d' \<and> tokenpos d = Some t \<and> tokenpos d' = Some y"
proof -
  from sim obtain rest where t: "running s = t # rest" "ring_list (nodes d) (Some t) (t # rest)" "tokenpos d = Some t"
      "activelist d = Some (first s)" "first s = t \<or> first s \<in> set rest" "distinct (t # rest)"
      "queues_ok d (waiting s) Q (insert t (set rest))"
    using r by (elim simE) auto
  have "ring (nodes d) ((t # xs) @ i # y # ys)" using t(2) t(1) r by (simp add: ring_list_def)
  from ring_rotate [OF this] have next_i: "entry_next (nodes d i) = Some y"
    using ring_next [of "nodes d" i "y # ys @ t # xs"] by simp
  have "first s \<in> set (t # rest)" using t(5) by simp
  from dl.rotate_to [OF t(2) this] obtain zs where z: "ring_list (nodes d) (Some (first s)) (first s # zs)" "set (first s # zs) = set (t # rest)"
    by blast
  have i: "i \<in> set (first s # zs)" unfolding z(2) using t(1) r by auto
  from removeEntry_ring [OF z(1) i] obtain head h where h: "removeEntry i (Some (first s)) (nodes d) = Some (head, h)"
    "same_outside (set (first s # zs) - {i}) (nodes d) h" by blast
  have "ring_list h (ce_head (cond_tab d c)) (waiting s (Cond c))"
    by (rule ring_list_outside [OF _ h(2)]) (use queues_okD(1,3) [OF t(7) c] z(2) in auto)
  moreover have "i \<notin> set (waiting s (Cond c))" using queues_okD(3) [OF t(7) c] i z(2) by auto
  ultimately obtain head' h' where "insertTail i (ce_head (cond_tab d c)) h = Some (head', h')"
    using insertTail_ring by blast
  with h(1) next_i t(3,4) show ?thesis by (simp add: cond_enqueue_def unlink_def Let_def)
qed

section \<open>A signal after a cancellation\<close>

text \<open>\<open>cancel\<close> takes a waiter out of its queue but leaves the count of waiters; the next signal finds nobody at the head.\<close>

lemma cancel_then_signal:
  assumes sim: "sim d s Q" and c: "Cond c \<in> Q" and w: "waiting s (Cond c) = [w]"
  shows "\<exists>d'. cancel w d = Inr (True, d') \<and> ce_waiters (cond_tab d' c) = 1 \<and> cond_dequeue c d' = Inl NullDeref"
proof -
  from sim have ok: "queues_ok d (waiting s) Q (set (running s))" by (simp add: sim_def)
  have r: "ring_list (nodes d) (ce_head (cond_tab d c)) [w]" and n: "ce_waiters (cond_tab d c) = 1"
    and e: "te_status (entries d w) = STATUS_COND_WAITING" "te_cond (entries d w) = Some c"
    using queues_okD(1,2,5) [OF ok c] w by auto
  from removeEntry_ring [OF r, of w] obtain h where h: "removeEntry w (ce_head (cond_tab d c)) (nodes d) = Some (None, h)"
    by (auto simp: ring_list_def)
  then show ?thesis
    using n e by (auto simp: cancel_def cond_dequeue_def Let_def on_cond_def freeThreadEntry_def on_entry_def removeHeadEntry_empty)
qed

end
