(* ===== verification/XrunFacts.thy ===== *)
theory XrunFacts
  imports Libdthread Fence DetermLocks
begin

text \<open>
  Facts on the engine: its fence sections refine the fence of \<open>Fence\<close>; a program without children pays nothing for its
  synchronisation; a spawn under a running fence commits before it asks for the token; a thread stores its result after it has woken its
  joiner.
\<close>

section \<open>The fence sections\<close>

text \<open>Where a process is in the fence, from the first of the sections it has left of it.\<close>

fun place_of :: "instr list \<Rightarrow> place" where
  "place_of (IFence (FenceArrive keep) # k) = Ready"
| "place_of (IFence (FenceSleep keep) # k) = Dozing"
| "place_of (IFence (FenceOut spinning keep) # k) = Waiting spinning"
| "place_of (IFence (FenceLeave keep) # k) = Leaving"
| "place_of k = Running"

lemma dt_waitFence_leave: "dt (waitFence_leave keep s) = snd (fence_leave (dt s))"
  by (auto simp: waitFence_leave_def Let_def split: prod.splits)

lemma spins_arrive: "fence_arrive i d = (lst, d') \<Longrightarrow> spins d' = spins d"
  by (auto simp: fence_arrive_def fence_sleep_def spins_def Let_def on_entry_def split: if_splits)

text \<open>\<open>reaches\<close>: thread \<open>i\<close> of the fence gets to place \<open>p\<close> and layer \<open>d\<close>, and nobody else moves.\<close>

definition reaches :: "nat set \<Rightarrow> nat \<Rightarrow> fence_state \<Rightarrow> place \<Rightarrow> determ \<Rightarrow> bool" where
  "reaches T i f p d \<longleftrightarrow> (\<exists>f'. (fence_step T)\<^sup>*\<^sup>* f f' \<and> fs_determ f' = d \<and> fs_place f' = (fs_place f)(i := p))"

lemma reaches_here: "fs_place f i = p \<Longrightarrow> fs_determ f = d \<Longrightarrow> reaches T i f p d"
  unfolding reaches_def by (intro exI [of _ f]) auto

lemma reaches_step:
  assumes "fence_move T f g" and "fs_place g = (fs_place f)(i := q)" and "reaches T i g p d"
  shows "reaches T i f p d"
proof -
  have "fence_step T f g" using assms(1) by (simp add: fence_step_def)
  with assms(2,3) show ?thesis unfolding reaches_def by (auto intro: converse_rtranclp_into_rtranclp)
qed

lemma reaches_rest:
  assumes "fence_rest T f g" and "fs_place g = (fs_place f)(i := p)" and "fs_determ g = d"
  shows "reaches T i f p d"
proof -
  have "fence_step T f g" using assms(1) by (simp add: fence_step_def)
  with assms(2,3) show ?thesis unfolding reaches_def by (intro exI [of _ g]) auto
qed

lemma reaches_leave:
  assumes "i \<in> T" and "fs_place f i = Leaving" and "fs_determ f = d"
  shows "reaches T i f Running (snd (fence_leave d))"
proof -
  obtain lst d' where l: "fence_leave d = (lst, d')" by (cases "fence_leave d")
  have "fence_leave (fs_determ f) = (lst, d')" using l assms(3) by simp
  from leave [OF assms(1,2) this] show ?thesis
    by (rule reaches_step [where q = Running]) (use l in \<open>simp_all add: reaches_here\<close>)
qed

lemma reaches_arrive:
  assumes "i \<in> T" and "fs_place f i = Ready" and "fence_arrive i (fs_determ f) = (lst, d)"
  shows "reaches T i f (if lst then Running else Waiting (spins (fs_determ f))) (if lst then snd (fence_leave d) else d)"
proof -
  note st = arrive [OF assms]
  show ?thesis
  proof (cases lst)
    case True
    from st show ?thesis
      by (rule reaches_step [where q = Leaving]) (use True reaches_leave [OF assms(1)] in simp_all)
  next
    case False
    from st show ?thesis
      by (rule reaches_step [where q = "Waiting (spins (fs_determ f))"])
        (use False spins_arrive [OF assms(3)] in \<open>simp_all add: reaches_here\<close>)
  qed
qed

lemma reaches_open_arrive:
  assumes "i \<in> T" and "fs_place f i = Running \<or> fs_place f i = Dozing \<and> fence_awake i (fs_determ f)" and "fence_open (fs_determ f)"
    and "fence_arrive i (fs_determ f) = (lst, d)"
  shows "reaches T i f (if lst then Running else Waiting (spins (fs_determ f))) (if lst then snd (fence_leave d) else d)"
proof -
  let ?g = "f\<lparr>fs_place := (fs_place f)(i := Ready)\<rparr>"
  have "reaches T i ?g (if lst then Running else Waiting (spins (fs_determ f))) (if lst then snd (fence_leave d) else d)"
    using reaches_arrive [of i T ?g lst d] assms by (simp cong: if_cong)
  moreover have "fence_move T f ?g" using assms(1-3) see rouse by blast
  ultimately show ?thesis by (intro reaches_step [of T f ?g i Ready]) simp_all
qed

lemma fence_arrive_leave_cases:
  assumes "fence_arrive_leave me keep s = Inr (is, s')"
  obtains lst d where "fence_arrive (my_index me s) (dt s) = (lst, d)"
    "place_of is = (if lst then Running else Waiting (spins (dt s)))" "dt s' = (if lst then snd (fence_leave d) else d)"
  using assms by (auto simp: fence_arrive_leave_def Let_def dt_waitFence_leave split: prod.splits if_splits)

lemma fence_arrive_leave_reaches:
  assumes "fence_arrive_leave me keep s = Inr (is, s')" and "fs_determ f = dt s"
    and "\<And>lst d. fence_arrive (my_index me s) (fs_determ f) = (lst, d) \<Longrightarrow> reaches T (my_index me s) f
           (if lst then Running else Waiting (spins (fs_determ f))) (if lst then snd (fence_leave d) else d)"
  shows "reaches T (my_index me s) f (place_of is) (dt s')"
proof -
  from assms(1) obtain lst d where a: "fence_arrive (my_index me s) (dt s) = (lst, d)"
    "place_of is = (if lst then Running else Waiting (spins (dt s)))" "dt s' = (if lst then snd (fence_leave d) else d)"
    by (rule fence_arrive_leave_cases)
  from assms(3) [of lst d] a show ?thesis by (simp only: assms(2))
qed

lemma exec_fence_refines:
  assumes e: "exec_fence me fi s = Some (Inr (is, s'))" and i: "i = my_index me s" "i \<in> T"
    and f: "fs_determ f = dt s" "fs_place f i = place_of [IFence fi]"
  shows "reaches T i f (place_of is) (dt s')"
proof (cases fi)
  case (FenceEnter keep)
  then have p: "fs_place f i = Running" using f(2) by simp
  show ?thesis
  proof (cases "fence_open (dt s)")
    case True
    then have "fence_arrive_leave me keep s = Inr (is, s')" using e FenceEnter by simp
    then show ?thesis unfolding i(1) using f(1) by (rule fence_arrive_leave_reaches) (use reaches_open_arrive [OF i(2)] p True f(1) i(1) in simp)
  next
    case False
    from doze [OF i(2) p] False f(1) have st: "fence_rest T f (f\<lparr>fs_determ := fence_sleep i (fs_determ f), fs_place := (fs_place f)(i := Dozing)\<rparr>)" by simp
    show ?thesis
    proof (cases "spins (dt s)")
      case True
      then show ?thesis using e FenceEnter f(1) p False by (auto intro: reaches_here)
    next
      case nospin: False
      then show ?thesis using e FenceEnter f(1) False i(1) by (intro reaches_rest [OF st]) (auto simp: on_dt_def)
    qed
  qed
next
  case (FenceSpin keep)
  then have "fence_open (dt s)" "is = [IFence (FenceArrive keep)]" "s' = s" using e by (auto simp: wait_for_def split: if_splits)
  moreover have p: "fs_place f i = Running" using f(2) FenceSpin by simp
  ultimately have "fence_move T f (f\<lparr>fs_place := (fs_place f)(i := Ready)\<rparr>)" using see [OF i(2) p] f(1) by simp
  then show ?thesis
    by (rule reaches_step [where q = Ready]) (use \<open>is = _\<close> \<open>s' = s\<close> f(1) in \<open>simp_all add: reaches_here\<close>)
next
  case (FenceSleep keep)
  then have p: "fs_place f i = Dozing" using f(2) by simp
  have up: "fence_awake i (dt s)" using e FenceSleep i(1) by (auto simp: wait_for_def split: if_splits)
  show ?thesis
  proof (cases "fence_open (dt s)")
    case True
    then have "fence_arrive_leave me keep s = Inr (is, s')" using e FenceSleep by (auto simp: wait_for_def split: if_splits)
    then show ?thesis unfolding i(1) using f(1) by (rule fence_arrive_leave_reaches) (use reaches_open_arrive [OF i(2)] p up True f(1) i(1) in simp)
  next
    case False
    from doze_again [OF i(2) p] up False f(1) have "fence_rest T f (f\<lparr>fs_determ := fence_sleep i (fs_determ f)\<rparr>)" by simp
    then show ?thesis
      by (rule reaches_rest) (use e FenceSleep f(1) False i(1) p in \<open>auto simp: wait_for_def on_dt_def split: if_splits\<close>)
  qed
next
  case (FenceArrive keep)
  then have "fence_arrive_leave me keep s = Inr (is, s')" using e by simp
  then show ?thesis unfolding i(1) using f(1) reaches_arrive [OF i(2), of f] FenceArrive f i(1)
    by (intro fence_arrive_leave_reaches) simp_all
next
  case (FenceOut spinning keep)
  then have p: "fs_place f i = Waiting spinning" using f(2) by simp
  show ?thesis
  proof (cases spinning)
    case True
    let ?g = "f\<lparr>fs_determ := fence_wakeup i (fs_determ f), fs_place := (fs_place f)(i := Leaving)\<rparr>"
    have rel: "fence_released (dt s)" using e FenceOut True by (auto simp: wait_for_def split: if_splits)
    then have "fence_move T f ?g" using spin_out [OF i(2), of f] p True f(1) by simp
    then show ?thesis
      by (rule reaches_step [where q = Leaving]) (use e FenceOut True rel f(1) i in \<open>auto simp: wait_for_def on_dt_def intro!: reaches_here\<close>)
  next
    case asleep: False
    have up: "fence_awake i (dt s)" using e FenceOut asleep i(1) by (auto simp: wait_for_def split: if_splits)
    show ?thesis
    proof (cases "fence_released (dt s)")
      case True
      let ?g = "f\<lparr>fs_place := (fs_place f)(i := Leaving)\<rparr>"
      have st: "fence_move T f ?g" using wake [OF i(2), of f] p asleep up True f(1) by simp
      have "reaches T i ?g (place_of is) (dt s')"
        using e FenceOut asleep True f(1) i reaches_leave [OF i(2), of ?g] by (auto simp: wait_for_def dt_waitFence_leave split: if_splits)
      then show ?thesis by (rule reaches_step [OF st, where q = Leaving, rotated]) simp
    next
      case False
      from wait_again [OF i(2), of f] p asleep up False f(1) have "fence_rest T f (f\<lparr>fs_determ := fence_sleep_again i (fs_determ f)\<rparr>)" by simp
      then show ?thesis
        by (rule reaches_rest) (use e FenceOut f(1) False asleep i(1) p in \<open>auto simp: wait_for_def on_dt_def split: if_splits\<close>)
    qed
  qed
next
  case (FenceLeave keep)
  then have "is = []" "dt s' = snd (fence_leave (dt s))" using e by (auto simp: run_def dt_waitFence_leave)
  then show ?thesis using reaches_leave [OF i(2)] FenceLeave f by simp
qed

section \<open>Programs without children\<close>

text \<open>A process that has spawned nobody since its fence was last off.\<close>

definition alone :: "cint \<Rightarrow> xsys \<Rightarrow> bool" where
  "alone me s \<longleftrightarrow> \<not> xr_fence_enabled (procs s me) \<and> xr_children_threads_count (procs s me) = 0"

lemma alone_free:
  assumes "alone me s" and "c \<in> {MutexLock a, MutexUnlock a, CondSignalled a, CondBroadcasted a, BarrierWait a}"
  shows "call me (SyncCall c) s = Inr ([IEnd (Ret 0)], s)"
  using assms
  by (auto simp: alone_def pthread_mutex_lock_def pthread_mutex_unlock_def pthread_cond_signal_def pthread_cond_broadcast_def
      pthread_barrier_wait_def when_ready_def mutex_lock_def mutex_unlock_def xr_cond_signal_def xr_cond_broadcast_def xr_cond_wake_def
      xr_barrier_wait_def start_or_def)

section \<open>Spawning under a running fence\<close>

lemma spawn_commits_first:
  assumes "me \<notin> dead s" and "code me = IEnd User # k" and "ready_lib me s" and "xr_protection_enabled (procs s me)"
    and "on_xm_r (xm_commit me False) s = Inr s'"
  shows "\<exists>code'. xstep (s, code) (s, code') \<and> (\<exists>code''. xstep (s, code') (s', code'')
     \<and> code'' me = IMem (FinalCommit True) # ISpawn (SpawnToken t) # IEnd User # k)"
proof -
  let ?c1 = "code(me := [IMem AtomicEnd, IMem (FinalCommit True), ISpawn (SpawnToken t)] @ IEnd User # k)"
  have "call me (ThreadCall (Create t)) s = Inr ([IMem AtomicEnd, IMem (FinalCommit True), ISpawn (SpawnToken t)], s)"
    using assms(3,4) by (simp add: pthread_create_def xr_spawn_def)
  from program_calls [of me s code k "ThreadCall (Create t)", OF assms(1,2) this] have s1: "xstep (s, code) (s, ?c1)" .
  have "exec me (IMem AtomicEnd) s = Some (Inr ([], s'))"
    using assms(4,5) by (simp add: run_def atomicEnd_def)
  then have s2: "xstep (s, ?c1) (s', ?c1(me := [] @ [IMem (FinalCommit True), ISpawn (SpawnToken t)] @ IEnd User # k))"
    by (intro section_step [of me s ?c1 "IMem AtomicEnd"]) (use assms(1) in simp_all)
  from s1 s2 show ?thesis by (intro exI [of _ ?c1] conjI exI) (assumption | simp)+
qed

section \<open>The result of a thread\<close>

lemma late_result:
  assumes "xt_join me t want s = Inr s'"
  shows "store_retval child t r s' = Inl Aborted"
  using assms
  by (auto simp: xt_join_def res_bind_Inr freeSharedObject_def store_retval_def on_status_def status_page_def split: if_splits)

end
