(* ===== verification/HeapWait.thy ===== *)
theory HeapWait
  imports XrunFacts
begin

text \<open>
  The wait inside \<open>malloc\<close>. An allocation that needs a new chunk takes the mutex of \<open>xheap\<close>, and with it, once the fence runs, waits
  for the fence and the token; all the while it holds the real mutex of its per-thread heap.
\<close>

section \<open>The sections of an allocation make up the allocation\<close>

definition set_source :: "'w \<Rightarrow> 'w heap \<Rightarrow> 'w heap" where
  "set_source w h = h\<lparr>source := w\<rparr>"

lemma set_source_simps [simp]:
  "hmem (set_source w h) = hmem h" "kz (set_source w h) = kz h" "source (set_source w h) = w"
  by (simp_all add: set_source_def)

lemma set_source_commute:
  "wr a v (set_source w h) = set_source w (wr a v h)" "on_kz f (set_source w h) = set_source w (on_kz f h)"
  "rd a (set_source w h) = rd a h"
  "new_header a v (set_source w h) = set_source w (new_header a v h)" 
  "arena_init a v (set_source w h) = set_source w (arena_init a v h)"
  "arena_malloc a v (set_source w h) = (fst (arena_malloc a v h), set_source w (snd (arena_malloc a v h)))"
  by (simp_all add: set_source_def wr_def on_kz_def rd_def new_header_def arena_init_def arena_malloc_def Let_def)

text \<open>\<open>later own s\<close>: what is left to do to the source after the rest of the heap is done.\<close>

definition later :: "('w \<Rightarrow> 'w result) \<Rightarrow> (ptr \<times> 'w heap) result \<Rightarrow> (ptr \<times> 'w heap) result" where
  "later own r = res_bind r (\<lambda>(p, h). res_bind (own (source h)) (\<lambda>w. Inr (p, set_source w h)))"

lemma adapt_None:
  assumes "adapt_malloc i h = (None, h1)"
  shows "zone_asks sz h1 = zone_asks sz h" and "source h1 = source h"
  using assms
  by (auto simp: adapt_malloc_def zone_asks_def on_kz_def sizeRemaining_def rd_def split: prod.splits option.splits)

lemma zone_no_source: "\<not> zone_asks sz h \<Longrightarrow> zoneMalloc sm chunk sz h = zoneMalloc sm' chunk sz h"
  by (auto simp: zone_asks_def zoneMalloc_def Let_def split: option.splits)

lemma zone_source:
  assumes "zone_asks sz h" and "\<And>n. sm n (source h) = res_bind (sm' n (source h)) (\<lambda>(p, w). res_bind (own w) (\<lambda>w'. Inr (p, w')))"
    and "\<And>n p w. sm' n (source h) = Inr (p, w) \<Longrightarrow> p \<noteq> None"
  shows "zoneMalloc sm chunk sz h = later own (zoneMalloc sm' chunk sz h)"
proof -
  have ret: "source (retire_arena h) = source h"
    by (auto simp: retire_arena_def on_kz_def setNextArena_def wr_def split: option.splits)
  let ?n = "word_of_nat sizeof_Arena + (if chunk < align sz then align sz else chunk)"
  have "slowMalloc sm chunk (align sz) h = later own (slowMalloc sm' chunk (align sz) h)"
  proof (cases "sm' ?n (source h)")
    case (Inl e)
    then show ?thesis by (simp add: slowMalloc_def later_def Let_def ret assms(2))
  next
    case (Inr x)
    then obtain a w where x: "sm' ?n (source h) = Inr (Some a, w)" using assms(3) by (cases x) fastforce
    have c: "retire_arena h\<lparr>source := v\<rparr> = set_source v (retire_arena h)" for v by (simp add: set_source_def)
    have src: "source (snd (arena_malloc b v g)) = source g" "source (arena_init b v g) = source g" "source (on_kz f g) = source g"
      for b v f and g :: "'a heap" by (simp_all add: arena_malloc_def arena_init_def on_kz_def wr_def Let_def)
    show ?thesis using x
      by (cases "own w") (simp_all add: slowMalloc_def later_def Let_def ret assms(2) c set_source_commute src split_beta)
  qed
  then show ?thesis using assms(1) by (auto simp: zoneMalloc_def zone_asks_def Let_def split: option.splits)
qed

lemma later_ns: "ns_malloc (\<lambda>n g. later own (super n g)) sz h = later own (ns_malloc super sz h)"
proof (cases "super (sz + word_of_nat sizeof_header) h")
  case (Inr x)
  have src: "source (new_header b v g) = source g" for b v and g :: "'a heap" by (simp add: new_header_def wr_def)
  obtain p g where x: "x = (p, g)" by (cases x)
  show ?thesis
    by (cases p; cases "own (source g)") (simp_all add: ns_malloc_def later_def Inr x set_source_commute src)
qed (simp add: ns_malloc_def later_def)

lemma big_no_source: "\<not> zone_asks (sz + word_of_nat sizeof_header) h \<Longrightarrow> big_malloc sm chunk sz h = big_malloc sm' chunk sz h"
  using zone_no_source [of "sz + word_of_nat sizeof_header" h sm chunk sm'] by (simp add: big_malloc_def ns_malloc_def)

lemma big_source:
  assumes "zone_asks (sz + word_of_nat sizeof_header) h" and "\<And>n. sm n (source h) = res_bind (sm' n (source h)) (\<lambda>(p, w). res_bind (own w) (\<lambda>w'. Inr (p, w')))"
    and "\<And>n p w. sm' n (source h) = Inr (p, w) \<Longrightarrow> p \<noteq> None"
  shows "big_malloc sm chunk sz h = later own (big_malloc sm' chunk sz h)"
proof -
  have "big_malloc sm chunk sz h = ns_malloc (\<lambda>n g. later own (zoneMalloc sm' chunk n g)) sz h"
    using zone_source [of "sz + word_of_nat sizeof_header" h sm sm' own chunk, OF assms] by (simp add: big_malloc_def ns_malloc_def)
  then show ?thesis by (simp add: later_ns big_malloc_def)
qed

lemma kingsley_no_source: "\<not> heap_asks sz h \<Longrightarrow> kingsley_malloc sm chunk sz h = kingsley_malloc sm' chunk sz h"
  by (auto simp: heap_asks_def kingsley_malloc_def aw_malloc_def strict_malloc_def Let_def adapt_None intro: big_no_source
    split: option.splits prod.splits)

lemma kingsley_source:
  assumes "heap_asks sz h" and "\<And>n. sm n (source h) = res_bind (sm' n (source h)) (\<lambda>(p, w). res_bind (own w) (\<lambda>w'. Inr (p, w')))"
    and "\<And>n p w. sm' n (source h) = Inr (p, w) \<Longrightarrow> p \<noteq> None"
  shows "kingsley_malloc sm chunk sz h = later own (kingsley_malloc sm' chunk sz h)"
proof (cases "align (if sz < 16 then 16 else sz) \<le> maxObjectSize")
  case True
  let ?c = "nat (size2Class (align (if sz < 16 then 16 else sz)))"
  obtain p h1 where ad: "adapt_malloc ?c h = (p, h1)" by (cases "adapt_malloc ?c h")
  with assms(1) True have [simp]: "p = None" by (simp add: heap_asks_def Let_def)
  note n = adapt_None [OF ad [simplified]]
  have "zone_asks (class2Size (size2Class (align (if sz < 16 then 16 else sz))) + word_of_nat sizeof_header) h1"
    using assms(1) True by (simp add: heap_asks_def Let_def n)
  from big_source [OF this, of sm sm' own] assms(2,3) ad True show ?thesis
    by (simp add: kingsley_malloc_def aw_malloc_def strict_malloc_def Let_def n)
next
  case False
  with assms(1) have "zone_asks (align (if sz < 16 then 16 else sz) + word_of_nat sizeof_header) h"
    by (simp add: heap_asks_def Let_def)
  from big_source [OF this, of sm sm' own] assms(2,3) False show ?thesis
    by (simp add: kingsley_malloc_def aw_malloc_def strict_malloc_def Let_def)
qed

lemma xheap_malloc_parts:
  "xheap_malloc me n (x, w) = res_bind (xo_bump n (x, w)) (\<lambda>(p, v). res_bind (xo_own me (xh_position x) (xh_position (fst v) - xh_position x) v)
     (\<lambda>v'. Inr (p, v')))"
  by (auto simp: xheap_malloc_def xo_bump_def xo_own_def xheap_bump_def xheap_sanityCheck_def Let_def res_bind_assoc)

lemma xo_bump_Some: "xo_bump n v = Inr (p, v') \<Longrightarrow> p \<noteq> None"
  by (auto simp: xo_bump_def res_bind_Inr split: prod.splits)

lemma pp_put_source: "pp_put i (set_source w h) p = (pp_put i h p)\<lparr>pp_source := w\<rparr>"
  by (simp add: pp_put_def)

lemma xm_malloc_no_chunk: "\<not> xm_asks me sz s \<Longrightarrow> xm_malloc me sz s = xm_malloc_bump me sz s"
  using kingsley_no_source [of sz "pp_view (xm_heapid s me) (xm_pheap s)" "xo_malloc me" PROTECTEDHEAP_CHUNK xo_bump]
  by (simp add: xm_asks_def xm_malloc_def xm_malloc_bump_def xadapt_malloc_def pp_malloc_def)

lemma xm_malloc_chunk:
  assumes "xm_asks me sz s"
  defines "start \<equiv> xh_position (fst (pp_source (xm_pheap s)))"
  shows "xm_malloc me sz s = res_bind (xm_malloc_bump me sz s) (\<lambda>(p, m).
    res_bind (xm_own me start (xh_position (fst (pp_source (xm_pheap m))) - start) m) (\<lambda>m'. Inr (p, m')))"
proof (cases "NUM_HEAPS \<le> xm_heapid s me")
  case True
  then show ?thesis by (simp add: xm_malloc_def xm_malloc_bump_def xadapt_malloc_def pp_malloc_def)
next
  case False
  let ?h = "pp_view (xm_heapid s me) (xm_pheap s)"
  let ?own = "\<lambda>v. xo_own me start (xh_position (fst v) - start) v"
  have p: "xheap_malloc me n (pp_source (xm_pheap s)) = res_bind (xo_bump n (pp_source (xm_pheap s)))
      (\<lambda>(p, v). res_bind (?own v) (\<lambda>v'. Inr (p, v')))" for n
    using xheap_malloc_parts [of me n "fst (pp_source (xm_pheap s))" "snd (pp_source (xm_pheap s))"] by (simp add: start_def)
  have "heap_asks sz ?h" using assms(1) by (simp add: xm_asks_def)
  then have "kingsley_malloc (xo_malloc me) PROTECTEDHEAP_CHUNK sz ?h = later ?own (kingsley_malloc xo_bump PROTECTEDHEAP_CHUNK sz ?h)"
    by (rule kingsley_source) (use p xo_bump_Some in \<open>auto simp: xo_malloc_def\<close>)
  then have "xm_malloc me sz s = res_bind (later ?own (kingsley_malloc xo_bump PROTECTEDHEAP_CHUNK sz ?h))
      (\<lambda>(p, h). Inr (p, s\<lparr>xm_pheap := pp_put (xm_heapid s me) h (xm_pheap s)\<rparr>))"
    using False by (simp add: xm_malloc_def xadapt_malloc_def pp_malloc_def res_bind_assoc case_prod_unfold)
  also have "\<dots> = res_bind (xm_malloc_bump me sz s) (\<lambda>(p, m).
    res_bind (xm_own me start (xh_position (fst (pp_source (xm_pheap m))) - start) m) (\<lambda>m'. Inr (p, m')))"
    using False
    by (simp add: xm_malloc_bump_def xadapt_malloc_def pp_malloc_def later_def xm_own_def pp_put_source res_bind_assoc case_prod_unfold)
  finally show ?thesis .
qed

text \<open>A process without children allocates in one go: its sections leave what \<open>xm_malloc\<close> leaves.\<close>

definition malloc_done :: "cint \<Rightarrow> (ptr \<times> xmemory) \<Rightarrow> xsys \<Rightarrow> xsys" where
  "malloc_done me r s = heap_unlock me (set_ret me (enc (fst r)) (heap_lock me s\<lparr>xm := snd r\<rparr>))"

lemma sections_step:
  "exec me i s = Some (Inr (is, s')) \<Longrightarrow> code me = i # k \<Longrightarrow> sections (me # mes) (s, code) = sections mes (s', code(me := is @ k))"
  by simp

lemma malloc_sections:
  assumes al: "alone me s" and free: "heap_holder s (heap_of me s) = None" and r: "xm_malloc me sz (xm s) = Inr r"
    and code: "code me = xr_malloc sz @ k"
  shows "\<exists>n. sections (replicate n me) (s, code) = Some (Inr (malloc_done me r s, code(me := k)))"
proof -
  let ?s1 = "heap_lock me s" and ?m = "xh_mutex (heap_top s)"
  have l: "exec me (IHeap HeapLock) s = Some (Inr ([], ?s1))" using free by (simp add: wait_for_def)
  have s1 [simp]: "xm ?s1 = xm s" "heap_top ?s1 = heap_top s" "procs ?s1 = procs s" by (simp_all add: heap_lock_def heap_top_def)
  have ml: "mutex_lock me m t = []" "mutex_unlock me m t = Inr ([], t)" if "procs t me = procs s me \<or> (\<exists>v. procs t me = (procs s me)\<lparr>pr_ret := v\<rparr>)" for m t
    using al that by (auto simp: alone_def mutex_lock_def mutex_unlock_def start_or_def)
  show ?thesis
  proof (cases "xm_asks me sz (xm s)")
    case False
    then have "exec me (IHeap (HeapMalloc sz)) ?s1 = Some (Inr ([], malloc_done me r s))"
      using r by (simp add: heap_malloc_def malloc_done_def case_prod_unfold)
    then have "sections (replicate 2 me) (s, code) = Some (Inr (malloc_done me r s, code(me := k)))"
      using l code by (simp add: xr_malloc_def numeral_2_eq_2 del: exec.simps)
    then show ?thesis ..
  next
    case True
    from trans [OF xm_malloc_chunk [OF True, symmetric] r] obtain p m m' where b: "xm_malloc_bump me sz (xm s) = Inr (p, m)"
      and o: "xm_own me (xh_position (heap_top s)) (xh_position (fst (pp_source (xm_pheap m))) - xh_position (heap_top s)) m = Inr m'"
      and rp: "r = (p, m')"
      by (auto simp: res_bind_Inr heap_top_def)
    let ?s2 = "set_ret me (enc p) (?s1\<lparr>xm := m\<rparr>)" and ?n = "xh_position (fst (pp_source (xm_pheap m))) - xh_position (heap_top s)"
    have pr: "\<exists>v. procs ?s2 me = (procs s me)\<lparr>pr_ret := v\<rparr>" "xm ?s2 = m" by (auto simp: set_ret_def on_proc_def)
    have e: "exec me (IHeap (HeapMalloc sz)) ?s1 = Some (Inr ([IHeap (HeapRefill sz)], ?s1))"
      "exec me (IHeap (HeapRefill sz)) ?s1 = Some (Inr ([IHeap (HeapOwn (xh_position (heap_top s)) ?n), IHeap HeapUnlock], ?s2))"
      "exec me (IHeap (HeapOwn (xh_position (heap_top s)) ?n)) ?s2 = Some (Inr ([], ?s2\<lparr>xm := m'\<rparr>))"
      "exec me (IHeap HeapUnlock) (?s2\<lparr>xm := m'\<rparr>) = Some (Inr ([], heap_unlock me (?s2\<lparr>xm := m'\<rparr>)))"
      using True b o pr ml by (simp_all add: heap_malloc_def heap_refill_def Let_def run_def on_xm_r_def heap_top_def)
    have "sections (replicate 5 me) (s, code) = Some (Inr (heap_unlock me (?s2\<lparr>xm := m'\<rparr>), code(me := k)))"
      using l e code by (simp add: xr_malloc_def eval_nat_numeral del: exec.simps)
    moreover have "heap_unlock me (?s2\<lparr>xm := m'\<rparr>) = malloc_done me r s"
      by (cases s) (simp add: malloc_done_def rp set_ret_def on_proc_def heap_lock_def)
    ultimately show ?thesis by metis
  qed
qed

section \<open>Two threads of one heap\<close>

inductive_cases xstep_cases: "xstep (s, code) cf"

text \<open>A process waits at the fence, spinning or asleep; nothing but the arrival of the last thread releases it.\<close>

definition at_fence :: "cint \<Rightarrow> xsys \<Rightarrow> instr list \<Rightarrow> bool" where
  "at_fence q s is \<longleftrightarrow> (\<exists>spinning keep k. is = IFence (FenceOut spinning keep) # k \<and> (spinning \<or> my_index q s \<in> sleeping_fence (dt s)))"

lemma stuck:
  assumes "is_arrival_phase (dt s)" and "\<And>q. q \<notin> dead s \<Longrightarrow> code q = [] \<or> at_fence q s (code q)
     \<or> (\<exists>k. code q = IHeap HeapLock # k \<and> heap_holder s (heap_of q s) \<noteq> None)"
  shows "\<not> xstep (s, code) cf"
proof
  assume "xstep (s, code) cf"
  then show False
    by (rule xstep_cases) (use assms in \<open>fastforce simp: at_fence_def wait_for_def fence_released_def fence_awake_def split: if_splits\<close>)+
qed

lemma reach_section:
  assumes "exec me i s = Some (Inr (is, s'))" and "me \<notin> dead s" and "xstep\<^sup>*\<^sup>* (s', code(me := is @ k)) cf"
  shows "xstep\<^sup>*\<^sup>* (s, code(me := i # k)) cf"
proof -
  let ?c = "code(me := i # k)"
  have "xstep (s, ?c) (s', ?c(me := is @ k))" by (rule section_step [where code = ?c, OF assms(2) _ assms(1)]) simp
  with assms(3) show ?thesis by (simp add: converse_rtranclp_into_rtranclp)
qed

definition waits_in_malloc :: "cint \<Rightarrow> xsys \<Rightarrow> xsys" where
  "waits_in_malloc me s = on_dt (\<lambda>d. snd (fence_arrive (my_index me s) d)) (on_proc me (\<lambda>p. p\<lparr>xr_lock_count := xr_lock_count p + 1\<rparr>) (heap_lock me s))"

lemma malloc_waits:
  assumes live: "me \<notin> dead s" and code: "code me = xr_malloc sz @ k"
    and free: "heap_holder s (heap_of me s) = None" and asks: "xm_asks me sz (xm s)"
    and new: "sync_entry me (xh_mutex (heap_top s)) s = None"
    and fence: "xr_fence_enabled (procs s me)" "\<not> xr_token_holding (procs s me)"
    and phase: "is_arrival_phase (dt s)" "currthreads (dt s) + 1 < maxthreads (dt s)" "maxthreads (dt s) \<noteq> 1"
  shows "\<exists>is. at_fence me (waits_in_malloc me s) is \<and> xstep\<^sup>*\<^sup>* (s, code) (waits_in_malloc me s, code(me := is))"
proof -
  let ?m = "xh_mutex (heap_top s)"
  let ?s1 = "heap_lock me s"
  let ?s2 = "on_proc me (\<lambda>p. p\<lparr>xr_lock_count := xr_lock_count p + 1\<rparr>) ?s1"
  have d [simp]: "dead ?s1 = dead s" "dead ?s2 = dead s" "dt ?s1 = dt s" "dt ?s2 = dt s" "xm ?s1 = xm s" "xm ?s2 = xm s"
    "heap_top ?s1 = heap_top s" "procs ?s1 = procs s" "xr_token_holding (procs ?s2 me) = xr_token_holding (procs s me)"
    by (simp_all add: heap_lock_def on_proc_def heap_top_def)
  have single: "\<not> isSingleWorkingThread (dt s)" using phase by (simp add: isSingleWorkingThread_def)
  have e1: "exec me (IHeap HeapLock) s = Some (Inr ([], ?s1))" using free by (simp add: wait_for_def)
  have e2: "exec me (IHeap (HeapMalloc sz)) ?s1 = Some (Inr ([ILock (LockCount ?m)] @ [IHeap (HeapRefill sz)], ?s1))"
    using asks fence by (simp add: heap_malloc_def mutex_lock_def start_or_def)
  have e3: "exec me (ILock (LockCount ?m)) ?s1 = Some (Inr ([ILock (GetLockAgain ?m)], ?s2))"
    using new single by (simp add: lock_count_def lock_isowner_def sync_entry_def)
  let ?w = "[IFence (FenceEnter True)] @ [IToken TokenGet, IToken (TokenHolding True), IMem AtomicEnd, IMem AtomicBegin, ILock (TryLock ?m)]"
  have e4: "exec me (ILock (GetLockAgain ?m)) ?s2 = Some (Inr (?w, ?s2))"
    using fence by (simp add: getLockAgain_def xr_waitToken_def)
  have ix: "my_index me ?s2 = my_index me s" by (simp add: my_index_def on_proc_def)
  have e5: "exec me (IFence (FenceEnter True)) ?s2 = Some (Inr ([IFence (FenceOut (spins (dt s)) True)], waits_in_malloc me s))"
    using phase by (simp add: fence_open_def fence_arrive_leave_def Let_def fence_arrive_def waits_in_malloc_def ix on_dt_def)
  let ?r = "[IToken TokenGet, IToken (TokenHolding True), IMem AtomicEnd, IMem AtomicBegin, ILock (TryLock ?m), IHeap (HeapRefill sz)] @ k"
  let ?is = "IFence (FenceOut (spins (dt s)) True) # ?r"
  let ?goal = "(waits_in_malloc me s, code(me := ?is))"
  have "xstep\<^sup>*\<^sup>* (?s2, code(me := IFence (FenceEnter True) # ?r)) ?goal"
    by (rule reach_section [OF e5]) (use live in simp_all)
  then have "xstep\<^sup>*\<^sup>* (?s2, code(me := ILock (GetLockAgain ?m) # IHeap (HeapRefill sz) # k)) ?goal"
    by (intro reach_section [OF e4]) (use live in simp_all)
  then have "xstep\<^sup>*\<^sup>* (?s1, code(me := ILock (LockCount ?m) # IHeap (HeapRefill sz) # k)) ?goal"
    by (intro reach_section [OF e3]) (use live in simp_all)
  then have "xstep\<^sup>*\<^sup>* (?s1, code(me := IHeap (HeapMalloc sz) # k)) ?goal"
    by (intro reach_section [OF e2]) (use live in simp_all)
  then have "xstep\<^sup>*\<^sup>* (s, code(me := IHeap HeapLock # IHeap (HeapMalloc sz) # k)) ?goal"
    by (intro reach_section [OF e1]) (use live in simp_all)
  then have "xstep\<^sup>*\<^sup>* (s, code) ?goal" using code by (simp add: xr_malloc_def fun_upd_idem)
  moreover have "at_fence me (waits_in_malloc me s) ?is"
    using phase by (auto simp: at_fence_def waits_in_malloc_def fence_arrive_def Let_def fence_sleep_def spins_def on_dt_def on_proc_def on_entry_def heap_lock_def my_index_def)
  ultimately show ?thesis by blast
qed

lemma malloc_deadlock:
  assumes live: "me \<notin> dead s" and code: "code me = xr_malloc sz @ k"
    and free: "heap_holder s (heap_of me s) = None" and asks: "xm_asks me sz (xm s)"
    and new: "sync_entry me (xh_mutex (heap_top s)) s = None"
    and fence: "xr_fence_enabled (procs s me)" "\<not> xr_token_holding (procs s me)"
    and phase: "is_arrival_phase (dt s)" "currthreads (dt s) + 1 < maxthreads (dt s)" "maxthreads (dt s) \<noteq> 1"
    and other: "other \<noteq> me" "heap_of other s = heap_of me s" "code other = xr_malloc sz' @ k'"
    and rest: "\<And>q. q \<noteq> me \<Longrightarrow> q \<noteq> other \<Longrightarrow> code q = [] \<or> at_fence q s (code q)"
  shows "\<exists>cf. xstep\<^sup>*\<^sup>* (s, code) cf \<and> (\<forall>cf'. \<not> xstep cf cf')"
proof -
  from malloc_waits [where code = code, OF live code free asks new fence phase] obtain us
    where us: "at_fence me (waits_in_malloc me s) us" and run: "xstep\<^sup>*\<^sup>* (s, code) (waits_in_malloc me s, code(me := us))" by blast
  have ph: "is_arrival_phase (dt (waits_in_malloc me s))"
    using phase by (simp add: waits_in_malloc_def fence_arrive_def Let_def on_dt_def on_proc_def on_entry_def heap_lock_def)
  have h: "heap_of q (waits_in_malloc me s) = heap_of q s" "heap_holder (waits_in_malloc me s) (heap_of me s) = Some me" for q
    by (simp_all add: waits_in_malloc_def heap_of_def heap_lock_def on_proc_def on_dt_def)
  have still: "at_fence q s is \<Longrightarrow> at_fence q (waits_in_malloc me s) is" for q "is"
    using phase by (auto simp: at_fence_def waits_in_malloc_def fence_arrive_def Let_def fence_sleep_def on_dt_def on_proc_def on_entry_def heap_lock_def my_index_def)
  have "\<not> xstep (waits_in_malloc me s, code(me := us)) cf'" for cf'
  proof (rule stuck [OF ph])
    fix q
    show "(code(me := us)) q = [] \<or> at_fence q (waits_in_malloc me s) ((code(me := us)) q)
      \<or> (\<exists>k. (code(me := us)) q = IHeap HeapLock # k \<and> heap_holder (waits_in_malloc me s) (heap_of q (waits_in_malloc me s)) \<noteq> None)"
      by (cases "q = me"; cases "q = other") (use us h other rest [of q] still [of q] in \<open>auto simp: xr_malloc_def\<close>)
  qed
  with run show ?thesis by blast
qed

end
