(* ===== verification/Isolation.thy ===== *)
theory Isolation
  imports SyncVar
begin

text \<open>
  Determinism of the parallel phase. Between two rounds of commits the processes run at the same time, each in its private copies. As
  long as no page is owned by a single process, a store of one process is invisible to the others, so every interleaving of the same
  programs ends in the same state of the page store, and the round of commits that follows in the order of the token starts from it.
\<close>

section \<open>Events\<close>

text \<open>The next store of a process: where and what it stores depends on what it sees.\<close>

type_synonym event = "cint \<times> ((nat \<Rightarrow> byte) \<Rightarrow> nat \<times> byte)"

definition view :: "cint \<Rightarrow> world \<Rightarrow> nat \<Rightarrow> byte" where
  "view q w a = region_load q a w"

definition store_at :: "cint \<Rightarrow> nat \<times> byte \<Rightarrow> world \<Rightarrow> world result" where
  "store_at q x w = (case user_store 3 q (fst x) (snd x) w of None \<Rightarrow> Inl Aborted | Some r \<Rightarrow> r)"

fun run_events :: "event list \<Rightarrow> world \<Rightarrow> world result" where
  "run_events [] w = Inr w"
| "run_events ((q, f) # es) w = res_bind (store_at q (f (view q w)) w) (run_events es)"

text \<open>The events of one process, in its program order.\<close>

definition of_process :: "cint \<Rightarrow> event list \<Rightarrow> event list" where
  "of_process q = filter (\<lambda>e. fst e = q)"

section \<open>Quiet states\<close>

definition quiet :: "world \<Rightarrow> bool" where
  "quiet w \<longleftrightarrow> (\<forall>p. pageOwner (sh w) p = SHARED_PAGE)
     \<and> (\<forall>q p. pageInfo (locals w q) p \<le> PAGE_ACCESS_READ \<and> \<not> m_shared (transient (locals w q) p))"

lemma quietD:
  assumes "quiet w"
  shows "pageOwner (sh w) p = SHARED_PAGE" "pageInfo (locals w q) p = PAGE_ACCESS_NONE \<or> pageInfo (locals w q) p = PAGE_ACCESS_READ"
    "\<not> m_shared (transient (locals w q) p)"
proof -
  have "pageInfo (locals w q) p \<le> 1" using assms by (simp add: quiet_def page_access_defs)
  then have "pageInfo (locals w q) p = 0 \<or> pageInfo (locals w q) p = 1"
    by (simp add: word_le_nat_alt) (metis One_nat_def le_SucE le_zero_eq unat_0 unat_1 word_unat_eq_iff)
  then show "pageInfo (locals w q) p = PAGE_ACCESS_NONE \<or> pageInfo (locals w q) p = PAGE_ACCESS_READ"
    by (simp add: page_access_defs)
qed (use assms in \<open>simp_all add: quiet_def\<close>)

text \<open>What a process reads of the state when no page is owned.\<close>

definition same_for :: "cint \<Rightarrow> world \<Rightarrow> world \<Rightarrow> bool" where
  "same_for q w v \<longleftrightarrow> locals w q = locals v q \<and> pools w q = pools v q \<and> persistentMemory (sh w) = persistentMemory (sh v)
     \<and> persistentVersions (sh w) = persistentVersions (sh v)"

lemma same_for_sym: "same_for q w v \<Longrightarrow> same_for q v w"
  by (simp add: same_for_def)

lemma same_for_local_page: "same_for q w v \<Longrightarrow> local_page q p w = local_page q p v"
  by (auto simp: same_for_def local_page_def share_page_def split: option.splits)

lemma same_for_view: "same_for q w v \<Longrightarrow> view q w = view q v"
  by (auto simp: view_def region_load_def same_for_local_page fun_eq_iff) (simp add: same_for_def)

section \<open>A fault\<close>

definition bump_users :: "nat set \<Rightarrow> (nat \<Rightarrow> shareinfo) \<Rightarrow> nat \<Rightarrow> shareinfo" where
  "bump_users D U p = (if p \<in> D then word_share (share_word (U p) + 1) else U p)"

lemma bump_users_empty [simp]: "bump_users {} U = U"
  by (simp add: bump_users_def fun_eq_iff)

lemma bump_users_commute: "bump_users D (bump_users E U) = bump_users E (bump_users D U)"
  by (simp add: bump_users_def fun_eq_iff)

text \<open>\<open>touches me D w w'\<close>: only \<open>me\<close>'s part of the state and the counts of users of the pages \<open>D\<close> have changed.\<close>

definition touches :: "cint \<Rightarrow> nat set \<Rightarrow> world \<Rightarrow> world \<Rightarrow> bool" where
  "touches me D w w' \<longleftrightarrow> sh w' = (sh w)\<lparr>pageUsers := bump_users D (pageUsers (sh w))\<rparr>
     \<and> (\<forall>q. q \<noteq> me \<longrightarrow> locals w' q = locals w q \<and> pools w' q = pools w q)
     \<and> live w' = live w \<and> resends w' = resends w \<and> mmap_ok w' = mmap_ok w"

lemma touches_same: "touches me D w w' \<Longrightarrow> q \<noteq> me \<Longrightarrow> same_for q w w'"
  by (simp add: touches_def same_for_def)

lemma notifyOwner_quiet: "quiet w \<Longrightarrow> notifyOwnerToCommit me p w = w"
  by (simp add: notifyOwnerToCommit_def Let_def quietD)

lemma pid_not_shared: "SHARED_PAGE \<noteq> pid_ulong me"
  using pid_not_SHARED [of me] by metis

lemma touches_trans0: "touches me {} w v \<Longrightarrow> touches me D v u \<Longrightarrow> touches me D w u"
  and touches_0trans: "touches me D w v \<Longrightarrow> touches me {} v u \<Longrightarrow> touches me D w u"
  by (simp_all add: touches_def)

lemma quiet_local:
  assumes "quiet w" and "touches me D w w'"
    and "\<And>p. pageInfo (locals w' me) p \<le> PAGE_ACCESS_READ \<and> \<not> m_shared (transient (locals w' me) p)"
  shows "quiet w'"
  unfolding quiet_def
proof (intro conjI allI)
  fix q p
  show "pageOwner (sh w') p = SHARED_PAGE" using assms(1,2) by (simp add: quiet_def touches_def)
  show "pageInfo (locals w' q) p \<le> PAGE_ACCESS_READ" "\<not> m_shared (transient (locals w' q) p)"
    using assms by (cases "q = me"; simp add: quiet_def touches_def)+
qed

lemma quiet_le: "quiet w \<Longrightarrow> pageInfo (locals w q) p \<le> PAGE_ACCESS_READ"
  by (simp add: quiet_def)

lemma mprotect_quiet:
  assumes "quiet w"
  shows "touches me {} w (mprotect me p n pr w)" and "quiet (mprotect me p n pr w)"
proof -
  show t: "touches me {} w (mprotect me p n pr w)" by (simp add: touches_def mprotect_def)
  show "quiet (mprotect me p n pr w)" by (rule quiet_local [OF assms t]) (use assms in \<open>simp add: quietD quiet_le\<close>)
qed

lemma mprotectRead_quiet:
  assumes "quiet w"
  shows "touches me {} w (mprotectRead me p w)" and "quiet (mprotectRead me p w)"
proof -
  show t: "touches me {} w (mprotectRead me p w)" by (simp add: touches_def mprotectRead_def mprotect_def)
  show "quiet (mprotectRead me p w)"
  proof (rule quiet_local [OF assms t])
    fix r
    have "pageInfo (locals (mprotectRead me p w) me) r = (if r = p then PAGE_ACCESS_READ else pageInfo (locals w me) r)"
      by (simp add: mprotectRead_def)
    then show "pageInfo (locals (mprotectRead me p w) me) r \<le> PAGE_ACCESS_READ \<and> \<not> m_shared (transient (locals (mprotectRead me p w) me) r)"
      using assms by (simp add: quietD quiet_le)
  qed
qed

lemma add_dirty_quiet:
  assumes "quiet w" and "add_dirty me p w = Inr w'"
  shows "touches me {p} w w'" and "quiet w'" and "transient (locals w' me) = transient (locals w me)"
    and "xp_base (locals w' me) = xp_base (locals w me)"
proof -
  have loc: "transient (locals w' me) = transient (locals w me)" "pageInfo (locals w' me) = pageInfo (locals w me)"
    "xp_base (locals w' me) = xp_base (locals w me)"
    using assms(2) by (auto simp: add_dirty_def Let_def increment_users_def res_bind_Inr)
  then show "transient (locals w' me) = transient (locals w me)" "xp_base (locals w' me) = xp_base (locals w me)" by simp_all
  have "bump_users {p} U = U(p := word_share (share_word (U p) + 1))" for U by (simp add: bump_users_def fun_eq_iff)
  then show t: "touches me {p} w w'"
    using assms(2) by (auto simp: touches_def add_dirty_def Let_def increment_users_def on_sh_def on_pool_def on_lo_def res_bind_Inr)
  show "quiet w'" by (rule quiet_local [OF assms(1) t]) (use assms(1) loc in \<open>simp add: quietD quiet_le\<close>)
qed

lemma handleWrite_quiet_cases:
  assumes "quiet w" and "p = computePage (a - xp_base (locals w me))"
  shows "handleWrite me a w = (if pageInfo (locals w me) p = PAGE_ACCESS_NONE then Inr (mprotectRead me p w)
     else add_dirty me p (mprotect me p 1 PROT_READ_WRITE w))"
  using quietD(2) [OF assms(1), of me p] assms quietD(1) [OF assms(1), of p] pid_not_shared [of me]
  by (auto simp: handleWrite_def Let_def notifyOwner_quiet mprotectWrite_def page_access_defs)

section \<open>A store\<close>

definition new_user :: "cint \<Rightarrow> nat \<Rightarrow> world \<Rightarrow> nat set" where
  "new_user me a w =
     (let p = computePage (a - xp_base (locals w me))
      in if m_prot (transient (locals w me) p) = PROT_READ_WRITE then {} else {p})"

lemma write_byte_quiet:
  assumes "quiet w"
  shows "touches me {} w (write_byte me p k b w)" and "quiet (write_byte me p k b w)"
proof -
  show t: "touches me {} w (write_byte me p k b w)" using quietD(3) [OF assms] by (simp add: touches_def write_byte_def)
  show "quiet (write_byte me p k b w)"
    by (rule quiet_local [OF assms t]) (use quietD(3) [OF assms] quiet_le [OF assms] in \<open>simp add: write_byte_def\<close>)
qed

lemma user_store_touches:
  assumes "user_store n me a b w = Some (Inr w')" and "quiet w"
  shows "touches me (new_user me a w) w w' \<and> quiet w'"
  using assms
proof (induction n arbitrary: w)
  case (Suc n)
  define p where "p = computePage (a - xp_base (locals w me))"
  show ?case
  proof (cases "m_prot (transient (locals w me) p) = PROT_READ_WRITE")
    case True
    then have "w' = write_byte me p ((a - xp_base (locals w me)) mod PageSize) b w" "new_user me a w = {}"
      using Suc.prems(1) by (simp_all add: p_def Let_def new_user_def)
    then show ?thesis using write_byte_quiet [OF Suc.prems(2)] by simp
  next
    case False
    then have d: "new_user me a w = {p}" by (simp add: new_user_def p_def Let_def)
    from False Suc.prems(1) obtain w1 where w1: "handleWrite me a w = Inr w1" "user_store n me a b w1 = Some (Inr w')"
      by (auto simp: p_def Let_def split: sum.splits)
    show ?thesis
    proof (cases "pageInfo (locals w me) p = PAGE_ACCESS_NONE")
      case True
      then have eq: "w1 = mprotectRead me p w" using w1(1) handleWrite_quiet_cases [OF Suc.prems(2) p_def] by simp
      have "new_user me a w1 = {p}" by (simp add: eq new_user_def p_def [symmetric] Let_def)
      with Suc.IH [OF w1(2)] mprotectRead_quiet [OF Suc.prems(2)] eq d show ?thesis by (auto intro: touches_trans0)
    next
      case False
      then have add: "add_dirty me p (mprotect me p 1 PROT_READ_WRITE w) = Inr w1"
        using w1(1) handleWrite_quiet_cases [OF Suc.prems(2) p_def] by simp
      note q = mprotect_quiet [OF Suc.prems(2), of me p 1 PROT_READ_WRITE]
      note ad = add_dirty_quiet [OF q(2) add]
      have "new_user me a w1 = {}" using ad(3,4) by (simp add: new_user_def p_def [symmetric] Let_def)
      with Suc.IH [OF w1(2) ad(2)] ad(1) q(1) d show ?thesis by (auto intro: touches_trans0 touches_0trans)
    qed
  qed
qed simp

text \<open>A store does to its process what it would do in any other state that looks the same to that process.\<close>

lemma on_lo_same: "same_for me w v \<Longrightarrow> same_for me (on_lo me f w) (on_lo me f v)"
  by (simp add: same_for_def)

lemma mprotect_same: "same_for me w v \<Longrightarrow> same_for me (mprotect me p n pr w) (mprotect me p n pr v)"
  by (simp add: mprotect_def on_lo_same)

lemma mprotectRead_same: "same_for me w v \<Longrightarrow> same_for me (mprotectRead me p w) (mprotectRead me p v)"
  by (simp add: mprotectRead_def mprotect_def on_lo_same)

lemma add_dirty_same:
  assumes "same_for me w v" and "add_dirty me p w = Inr w'"
  shows "\<exists>v'. add_dirty me p v = Inr v' \<and> same_for me w' v'"
  using assms by (auto simp: same_for_def add_dirty_def Let_def increment_users_def getPageStart_def res_bind_Inr)

lemma write_byte_same:
  assumes "same_for me w v" and "quiet w"
  shows "same_for me (write_byte me p k b w) (write_byte me p k b v)"
proof -
  have "\<not> m_shared (transient (locals v me) p)" using quietD(3) [OF assms(2), of me p] assms(1) by (simp add: same_for_def)
  then show ?thesis using assms quietD(3) [OF assms(2), of me p] same_for_local_page [OF assms(1), of p]
    by (simp add: write_byte_def same_for_def)
qed

lemma handleWrite_same:
  assumes "same_for me w v" and "quiet w" "quiet v" and "handleWrite me a w = Inr w'"
  shows "\<exists>v'. handleWrite me a v = Inr v' \<and> same_for me w' v'"
proof -
  define p where "p = computePage (a - xp_base (locals w me))"
  have l: "locals v me = locals w me" using assms(1) by (simp add: same_for_def)
  then have pv: "p = computePage (a - xp_base (locals v me))" by (simp add: p_def)
  from assms(4) handleWrite_quiet_cases [OF assms(2) p_def] handleWrite_quiet_cases [OF assms(3) pv] l
  show ?thesis
    using mprotectRead_same [OF assms(1)] add_dirty_same [OF mprotect_same [OF assms(1)]] by (auto split: if_splits)
qed

lemma handleWrite_quiet:
  assumes "quiet w" and "handleWrite me a w = Inr w'"
  shows "quiet w'"
  using assms handleWrite_quiet_cases [OF assms(1) refl, where a = a and me = me] mprotectRead_quiet [OF assms(1)]
    add_dirty_quiet(2) [OF mprotect_quiet(2) [OF assms(1)]]
  by (auto split: if_splits)

lemma user_store_same:
  assumes "user_store n me a b w = Some (Inr w')" and "same_for me w v" and "quiet w" "quiet v"
  shows "\<exists>v'. user_store n me a b v = Some (Inr v') \<and> same_for me w' v'"
  using assms
proof (induction n arbitrary: w v)
  case (Suc n)
  have l: "locals v me = locals w me" using Suc.prems(2) by (simp add: same_for_def)
  show ?case
  proof (cases "m_prot (transient (locals w me) (computePage (a - xp_base (locals w me)))) = PROT_READ_WRITE")
    case True
    then show ?thesis using Suc.prems l write_byte_same [OF Suc.prems(2,3)] by (auto simp: Let_def)
  next
    case False
    with Suc.prems(1) obtain w1 where w1: "handleWrite me a w = Inr w1" "user_store n me a b w1 = Some (Inr w')"
      by (auto simp: Let_def split: sum.splits)
    from handleWrite_same [OF Suc.prems(2-4) w1(1)] obtain v1 where v1: "handleWrite me a v = Inr v1" "same_for me w1 v1" by blast
    from Suc.IH [OF w1(2) v1(2) handleWrite_quiet [OF Suc.prems(3) w1(1)] handleWrite_quiet [OF Suc.prems(4) v1(1)]] v1(1) False l
    show ?thesis by (auto simp: Let_def)
  qed
qed simp

lemma store_at_touches: "store_at q x w = Inr w' \<Longrightarrow> quiet w \<Longrightarrow> touches q (new_user q (fst x) w) w w' \<and> quiet w'"
  by (auto simp: store_at_def split: option.splits dest: user_store_touches)

lemma store_at_same:
  assumes "store_at q x w = Inr w'" and "same_for q w v" and "quiet w" "quiet v"
  shows "\<exists>v'. store_at q x v = Inr v' \<and> same_for q w' v'"
  using user_store_same [of 3 q "fst x" "snd x" w w' v] assms by (auto simp: store_at_def split: option.splits)

lemma new_user_same: "same_for q w v \<Longrightarrow> new_user q a w = new_user q a v"
  by (simp add: new_user_def same_for_def)

section \<open>Interleavings\<close>

text \<open>Two worlds with the same parts are the same.\<close>

lemma touches_both:
  assumes t1: "touches q D w w1" and t2: "touches p E w1 w2" and t3: "touches p E w v1" and t4: "touches q D v1 v2"
    and own: "same_for p w2 v1" "same_for q w1 v2" and ne: "q \<noteq> p"
  shows "w2 = v2"
proof -
  have "sh w2 = sh v2" using t1 t2 t3 t4 by (simp add: touches_def bump_users_commute)
  moreover have "locals w2 i = locals v2 i \<and> pools w2 i = pools v2 i" for i
  proof -
    consider "i = q" | "i = p" | "i \<noteq> q" "i \<noteq> p" by blast
    then show ?thesis
      using t1 t2 t3 t4 own ne by cases (simp_all add: touches_def same_for_def)
  qed
  moreover have "live w2 = live v2" "resends w2 = resends v2" "mmap_ok w2 = mmap_ok v2" using t1 t2 t3 t4 by (simp_all add: touches_def)
  ultimately show ?thesis by (intro world.equality) (simp_all add: fun_eq_iff)
qed

lemma swap_events:
  assumes ne: "q \<noteq> p" and quiet: "quiet w" and r: "run_events ((q, f) # (p, g) # es) w = Inr v"
  shows "run_events ((p, g) # (q, f) # es) w = Inr v"
proof -
  from r obtain w1 w2 where w1: "store_at q (f (view q w)) w = Inr w1" and w2: "store_at p (g (view p w1)) w1 = Inr w2"
    and rest: "run_events es w2 = Inr v" by (auto simp: res_bind_Inr)
  note t1 = store_at_touches [OF w1 quiet]
  have sp: "same_for p w1 w" using same_for_sym [OF touches_same [OF conjunct1 [OF t1]]] ne by simp
  note t2 = store_at_touches [OF w2 conjunct2 [OF t1]]
  from store_at_same [OF w2 sp _ quiet] t1 obtain v1 where v1: "store_at p (g (view p w1)) w = Inr v1" "same_for p w2 v1" by blast
  note t3 = store_at_touches [OF v1(1) quiet]
  have sq: "same_for q w v1" using touches_same [OF conjunct1 [OF t3]] ne by simp
  from store_at_same [OF w1 sq quiet] t3 obtain v2 where v2: "store_at q (f (view q w)) v1 = Inr v2" "same_for q w1 v2" by blast
  note t4 = store_at_touches [OF v2(1) conjunct2 [OF t3]]
  have "w2 = v2"
    using t1 t2 t3 t4 v1(2) v2(2) ne new_user_same [OF sp] new_user_same [OF sq]
    by (intro touches_both [of q "new_user q (fst (f (view q w))) w" w w1 p "new_user p (fst (g (view p w1))) w1"]) simp_all
  with v1(1) v2(1) rest same_for_view [OF sp] same_for_view [OF sq] show ?thesis by simp
qed

lemma run_events_Cons:
  "run_events (e # es) w = Inr v \<longleftrightarrow> (\<exists>w1. run_events [e] w = Inr w1 \<and> run_events es w1 = Inr v)"
  by (cases e) (auto simp: res_bind_Inr)

lemma run_events_quiet: "run_events es w = Inr v \<Longrightarrow> quiet w \<Longrightarrow> quiet v"
  by (induction es w rule: run_events.induct) (auto simp: res_bind_Inr dest: store_at_touches)

text \<open>An event moves behind the events of other processes.\<close>

lemma move_event:
  assumes "\<forall>g\<in>set gs. fst g \<noteq> fst e" and "quiet w" and "run_events (e # gs @ hs) w = Inr v"
  shows "run_events (gs @ e # hs) w = Inr v"
  using assms
proof (induction gs arbitrary: w)
  case (Cons g gs)
  obtain q f where e: "e = (q, f)" by (cases e)
  obtain p h where g: "g = (p, h)" by (cases g)
  have "run_events (g # e # gs @ hs) w = Inr v"
    using swap_events [of q p w f h "gs @ hs" v] Cons.prems e g by auto
  then obtain w1 where w1: "run_events [g] w = Inr w1" "run_events (e # gs @ hs) w1 = Inr v"
    using run_events_Cons [of g "e # gs @ hs" w v] by blast
  from Cons.IH [OF _ run_events_quiet [OF w1(1) Cons.prems(2)] w1(2)] Cons.prems(1)
  have "run_events (gs @ e # hs) w1 = Inr v" by simp
  with w1(1) show ?case using run_events_Cons [of g "gs @ e # hs" w v] by auto
qed simp

lemma first_of_process:
  assumes "of_process q fs = e # es"
  shows "\<exists>gs hs. fs = gs @ e # hs \<and> (\<forall>g\<in>set gs. fst g \<noteq> q) \<and> of_process q hs = es \<and> fst e = q"
  using assms unfolding of_process_def
proof (induction fs)
  case (Cons g fs)
  show ?case
  proof (cases "fst g = q")
    case True
    with Cons.prems show ?thesis by (intro exI [of _ "[]"] exI [of _ fs]) auto
  next
    case False
    with Cons obtain gs hs where "fs = gs @ e # hs" "\<forall>g\<in>set gs. fst g \<noteq> q" "filter (\<lambda>e. fst e = q) hs = es" "fst e = q" by auto
    with False show ?thesis by (intro exI [of _ "g # gs"] exI [of _ hs]) auto
  qed
qed simp

text \<open>Every interleaving of the same programs ends in the same state.\<close>

lemma parallel_deterministic:
  assumes "quiet w" and "run_events es w = Inr v" and "\<And>q. of_process q es = of_process q fs"
  shows "run_events fs w = Inr v"
  using assms
proof (induction es arbitrary: w fs)
  case Nil
  have "fs = []"
  proof (rule ccontr)
    assume "fs \<noteq> []"
    then obtain e fs' where "fs = e # fs'" by (cases fs) auto
    with Nil(3) [of "fst e"] show False by (simp add: of_process_def)
  qed
  with Nil show ?case by simp
next
  case (Cons e es)
  have "of_process (fst e) fs = e # of_process (fst e) es" using Cons.prems(3) [of "fst e"] by (simp add: of_process_def)
  from first_of_process [OF this] obtain gs hs where fs: "fs = gs @ e # hs" "\<forall>g\<in>set gs. fst g \<noteq> fst e" by blast
  obtain w1 where w1: "run_events [e] w = Inr w1" "run_events es w1 = Inr v"
    using Cons.prems(2) run_events_Cons [of e es w v] by blast
  have "of_process q es = of_process q (gs @ hs)" for q
  proof (cases "fst e = q")
    case True
    have "filter (\<lambda>x. fst x = q) gs = []" using fs(2) True by (simp add: filter_empty_conv)
    then show ?thesis using Cons.prems(3) [of q] True by (simp add: of_process_def fs(1))
  next
    case False
    then show ?thesis using Cons.prems(3) [of q] by (simp add: of_process_def fs(1))
  qed
  from Cons.IH [OF run_events_quiet [OF w1(1) Cons.prems(1)] w1(2) this]
  have "run_events (e # gs @ hs) w = Inr v" using w1(1) run_events_Cons [of e "gs @ hs" w v] by blast
  from move_event [OF fs(2) Cons.prems(1) this] show ?case by (simp add: fs(1))
qed

section \<open>Rounds\<close>

text \<open>A round: the processes run, commit in the order \<open>qs\<close> of the token, and begin their next transactions.\<close>

definition run_round :: "cint list \<Rightarrow> event list \<Rightarrow> world \<Rightarrow> world result" where
  "run_round qs es w =
     res_bind (run_events es w) (\<lambda>w1. res_bind (commit_round qs w1) (\<lambda>w2. Inr (begin_all qs w2)))"

fun run_rounds :: "(cint list \<times> event list) list \<Rightarrow> world \<Rightarrow> world result" where
  "run_rounds [] w = Inr w"
| "run_rounds ((qs, es) # rs) w = res_bind (run_round qs es w) (run_rounds rs)"

lemma quiet_cong:
  assumes "quiet w" and "locals w' = locals w" and "pageOwner (sh w') = pageOwner (sh w)"
  shows "quiet w'"
  using assms by (simp add: quiet_def)

lemma createTwinPage_frame:
  "createTwinPage p w = Inr w' \<Longrightarrow> locals w' = locals w \<and> pageOwner (sh w') = pageOwner (sh w)"
  by (auto simp: createTwinPage_def Let_def res_bind_Inr)

lemma commit_page_frame:
  assumes "commit_page q False i w = Inr w'" and "quiet w"
  shows "locals w' = locals w \<and> pageOwner (sh w') = pageOwner (sh w)"
proof -
  define p where "p = pi_pageNo (pe_start (pools w q) i)"
  have "\<exists>w1. (w1 = w \<or> createTwinPage p w = Inr w1) \<and> locals w' = locals w1 \<and> pageOwner (sh w') = pageOwner (sh w1)"
    using assms(1) quietD(1) [OF assms(2)] createTwinPage_frame
    by (auto simp: commit_page_def Let_def p_def res_bind_Inr setSharedPage_def dec_users_def split: if_splits)
  then show ?thesis using createTwinPage_frame by metis
qed

lemma commit_page_locals: "commit_page q False i w = Inr w' \<Longrightarrow> quiet w \<Longrightarrow> locals w' = locals w"
  by (simp add: commit_page_frame)

lemma commit_page_quiet: "commit_page q False i w = Inr w' \<Longrightarrow> quiet w \<Longrightarrow> quiet w'"
  by (metis commit_page_frame quiet_cong)

lemma commit_loop_quiet: "commit_loop q False ds w = Inr w' \<Longrightarrow> quiet w \<Longrightarrow> quiet w'"
proof (induction ds arbitrary: w)
  case (Cons d ds)
  from Cons.prems(1) obtain w1 where "commit_page q False (snd d) w = Inr w1" "commit_loop q False ds w1 = Inr w'"
    by (cases d) (auto simp: res_bind_Inr)
  with Cons.IH commit_page_quiet Cons.prems(2) show ?case by blast
qed simp

lemma quiet_trans_count: "quiet w \<Longrightarrow> quiet (on_lo q (\<lambda>l. l\<lparr>trans_count := n\<rparr>) w)"
  by (simp add: quiet_def)

lemma checkandcommit_quiet: "checkandcommit q False w = Inr w' \<Longrightarrow> quiet w \<Longrightarrow> quiet w'"
  by (auto simp: checkandcommit_def split: if_splits dest!: commit_loop_quiet) (simp add: quiet_def)

lemma commit_round_quiet: "commit_round qs w = Inr w' \<Longrightarrow> quiet w \<Longrightarrow> quiet w'"
proof (induction qs arbitrary: w)
  case (Cons q qs)
  from Cons.prems(1) obtain w1 where "checkandcommit q False w = Inr w1" "commit_round qs w1 = Inr w'"
    by (auto simp: res_bind_Inr)
  with Cons.IH checkandcommit_quiet Cons.prems(2) show ?case by blast
qed simp

lemma updateAll_page_quiet: "quiet w \<Longrightarrow> quiet (updateAll_page q d w)"
  by (simp add: quiet_def updateAll_page_def Let_def updatePage_def)

lemma fold_updateAll_quiet: "quiet w \<Longrightarrow> quiet (fold (updateAll_page q) ds w)"
  by (induction ds arbitrary: w) (simp_all add: updateAll_page_quiet)

lemma xp_begin_quiet: "quiet w \<Longrightarrow> quiet (xp_begin q True w)"
  using fold_updateAll_quiet [of w q "dirtiedPagesList (locals w q)"]
  by (simp add: xp_begin_def updateAll_def Let_def) (simp add: quiet_def)

lemma begin_all_quiet: "quiet w \<Longrightarrow> quiet (begin_all qs w)"
  by (induction qs arbitrary: w) (simp_all add: begin_all_def xp_begin_quiet)

lemma run_round_quiet: "run_round qs es w = Inr v \<Longrightarrow> quiet w \<Longrightarrow> quiet v"
  by (auto simp: run_round_def res_bind_Inr intro!: begin_all_quiet dest: run_events_quiet commit_round_quiet)

lemma run_round_deterministic:
  assumes "quiet w" and "run_round qs es w = Inr v" and "\<And>q. of_process q es = of_process q fs"
  shows "run_round qs fs w = Inr v"
  using assms(2) parallel_deterministic [OF assms(1) _ assms(3)] by (auto simp: run_round_def res_bind_Inr)

text \<open>\<open>same_programs\<close>: the rounds commit in the same orders, and each process runs the same program in each round.\<close>

definition same_programs :: "(cint list \<times> event list) list \<Rightarrow> (cint list \<times> event list) list \<Rightarrow> bool" where
  "same_programs rs rs' \<longleftrightarrow> list_all2 (\<lambda>(qs, es) (qs', fs). qs = qs' \<and> (\<forall>q. of_process q es = of_process q fs)) rs rs'"

lemma rounds_deterministic:
  assumes "quiet w" and "run_rounds rs w = Inr v" and "same_programs rs rs'"
  shows "run_rounds rs' w = Inr v"
  using assms(3,1,2) unfolding same_programs_def
proof (induction arbitrary: w rule: list_all2_induct)
  case (Cons r rs r' rs')
  obtain qs es fs where r: "r = (qs, es)" "r' = (qs, fs)" "\<And>q. of_process q es = of_process q fs"
    using Cons.hyps(1) by (cases r; cases r') auto
  from Cons.prems(2) r obtain w1 where w1: "run_round qs es w = Inr w1" "run_rounds rs w1 = Inr v" by (auto simp: res_bind_Inr)
  from run_round_deterministic [OF Cons.prems(1) w1(1) r(3)] Cons.IH [OF run_round_quiet [OF w1(1) Cons.prems(1)] w1(2)] r
  show ?case by simp
qed simp

section \<open>A round does not fail\<close>

text \<open>\<open>room n w\<close>: the pool of twins has indices for \<open>n\<close> more pages. That the commits return does not depend on what the twins hold.\<close>

definition room :: "nat \<Rightarrow> world \<Rightarrow> bool" where
  "room n w \<longleftrightarrow> bm_wf (twins (sh w)) \<and> unat (load32 bm_cur (twins (sh w))) + n < INITIAL_PAGES"

lemma commit_page_room:
  assumes "quiet w" and "room (Suc n) w"
  shows "\<exists>w'. commit_page q False i w = Inr w' \<and> room n w'"
proof -
  define p where "p = pi_pageNo (pe_start (pools w q) i)"
  let ?c = "load32 bm_cur (twins (sh w))"
  have wf: "bm_wf (twins (sh w))" and c: "unat ?c + 1 < INITIAL_PAGES" using assms(2) by (simp_all add: room_def)
  from createTwinPage_ok [OF wf c, of p] obtain w1 where w1: "createTwinPage p w = Inr w1" "pageOwner (sh w1) = pageOwner (sh w)"
    and t: "twins (sh w1) = bm_setVersion ?c (ucast (persistentVersions (sh w) p)) (write_twin ?c (share_page p w) (store32 bm_cur (?c + 1) (twins (sh w))))"
    by blast
  have cur: "unat (load32 bm_cur (twins (sh w1))) = unat ?c + 1" by (simp add: t unat_next_index [OF wf])
  then have "bm_wf (twins (sh w1))" using c by (simp add: bm_wf_def)
  note w1 = w1 this cur
  have room1: "room n w1" "room n w" using assms(2) w1 by (simp_all add: room_def)
  have sp: "\<And>r. pageOwner (sh w) r = SHARED_PAGE" "\<And>r. pageOwner (sh w1) r = SHARED_PAGE"
    using quietD(1) [OF assms(1)] w1(2) by simp_all
  have dec: "twins (sh (dec_users r v)) = twins (sh v)" for r v by (simp add: dec_users_def)
  show ?thesis
    using w1(1) room1 sp by (simp add: commit_page_def Let_def p_def [symmetric] setSharedPage_def room_def dec)
qed

lemma commit_loop_room:
  assumes "quiet w" and "room (length ds + n) w"
  shows "\<exists>w'. commit_loop q False ds w = Inr w' \<and> room n w' \<and> locals w' = locals w"
  using assms
proof (induction ds arbitrary: w)
  case (Cons d ds)
  from commit_page_room [OF Cons.prems(1), of "length ds + n" q "snd d"] Cons.prems(2)
  obtain w1 where w1: "commit_page q False (snd d) w = Inr w1" "room (length ds + n) w1" by auto
  from Cons.IH [OF commit_page_quiet [OF w1(1) Cons.prems(1)] w1(2)]
  obtain w2 where w2: "commit_loop q False ds w1 = Inr w2" "room n w2" "locals w2 = locals w1" by blast
  with w1 commit_page_locals [OF w1(1) Cons.prems(1)] show ?case by (cases d) auto
qed simp

text \<open>The pages the processes \<open>qs\<close> have dirtied.\<close>

definition dirty_count :: "cint list \<Rightarrow> world \<Rightarrow> nat" where
  "dirty_count qs w = sum_list (map (\<lambda>q. length (dirtiedPagesList (locals w q))) qs)"

lemma checkandcommit_room:
  assumes "quiet w" and "room (length (dirtiedPagesList (locals w q)) + n) w"
  shows "\<exists>w'. checkandcommit q False w = Inr w' \<and> room n w'
     \<and> (\<forall>p. dirtiedPagesList (locals w' p) = dirtiedPagesList (locals w p))"
proof (cases "dirtiedPagesList (locals w q) = []")
  case True
  then show ?thesis using assms by (simp add: checkandcommit_def)
next
  case False
  let ?w = "on_lo q (\<lambda>l. l\<lparr>trans_count := trans_count l + 1\<rparr>) w"
  have "quiet ?w" using assms(1) by (simp add: quiet_def)
  moreover have "room (length (dirtiedPagesList (locals w q)) + n) ?w" using assms(2) by (simp add: room_def)
  ultimately obtain w' where "commit_loop q False (dirtiedPagesList (locals w q)) ?w = Inr w'" "room n w'" "locals w' = locals ?w"
    using commit_loop_room by blast
  with False show ?thesis by (simp add: checkandcommit_def)
qed

lemma commit_round_succeeds:
  assumes "quiet w" and "room (dirty_count qs w + n) w"
  shows "\<exists>w'. commit_round qs w = Inr w' \<and> room n w'"
  using assms
proof (induction qs arbitrary: w)
  case (Cons q qs)
  from checkandcommit_room [OF Cons.prems(1), of q "dirty_count qs w + n"] Cons.prems(2)
  obtain w1 where w1: "checkandcommit q False w = Inr w1" "room (dirty_count qs w + n) w1"
    "\<forall>p. dirtiedPagesList (locals w1 p) = dirtiedPagesList (locals w p)"
    by (auto simp: dirty_count_def add.assoc)
  then have "room (dirty_count qs w1 + n) w1" by (simp add: dirty_count_def)
  from Cons.IH [OF checkandcommit_quiet [OF w1(1) Cons.prems(1)] this] w1(1) show ?case by auto
qed (simp add: dirty_count_def)

end
