(* ===== verification/Realloc.thy ===== *)
theory Realloc
  imports Xmemory
begin

text \<open>
  \<open>xmemory::realloc\<close> keeps what the block holds: the proof composes the allocation, the copy and the deallocation of the per-thread heaps.
\<close>

lemma getSize_ok: "obj_ok (pp_mem p) a \<Longrightarrow> pp_getSize (Some a) p = Inr (load64 (a - 8) (pp_mem p))"
  by (auto simp: pp_getSize_def aw_getSize_def ns_getSize_def ns_getObject_def oh_getSize_def oh_sanityCheck_def obj_ok_def rd_def sizeof_header_def)

lemma obj_size_same:
  assumes "16 \<le> a" and "\<And>x. x \<in> pp_whole p a \<Longrightarrow> m x = pp_mem p x"
  shows "obj_size m a = obj_size (pp_mem p) a"
proof -
  have "load64 (a - 8) m = load64 (a - 8) (pp_mem p)"
    by (rule load64_agree) (use assms in \<open>auto simp: pp_whole_def\<close>)
  then show ?thesis by (simp add: obj_size_def)
qed

text \<open>The copy goes into the new block only, and reads the old one.\<close>

lemma pp_copy_inv:
  assumes inv: "pp_inv good taken Ls Ts p" and i: "i < NUM_HEAPS" "b \<in> Ls i" and n: "n \<le> obj_size (pp_mem p) b"
  shows "pp_inv good taken Ls Ts (pp_copy b a n p)" "\<And>x. x \<notin> pp_block p b \<Longrightarrow> pp_mem (pp_copy b a n p) x = pp_mem p x"
    "\<And>k. k < n \<Longrightarrow> pp_mem (pp_copy b a n p) (b + k) = pp_mem p (a + k)"
proof -
  show same: "pp_mem (pp_copy b a n p) x = pp_mem p x" if "x \<notin> pp_block p b" for x
    using that n by (auto simp: pp_copy_def pp_block_def memcpy_def)
  show "pp_inv good taken Ls Ts (pp_copy b a n p)"
    using pp_inv_write [OF inv i, of "memcpy b a n (pp_mem p) (pp_mem p)"] same unfolding pp_copy_def by simp
  show "\<And>k. k < n \<Longrightarrow> pp_mem (pp_copy b a n p) (b + k) = pp_mem p (a + k)" by (simp add: pp_copy_def)
qed

lemma xm_realloc_split:
  assumes "obj_ok (pp_mem (xm_pheap s)) a"
  shows "xm_realloc me (Some a) sz s =
     res_bind (pp_malloc (xheap_malloc me) PROTECTEDHEAP_CHUNK (xm_heapid s me) sz (xm_pheap s)) (\<lambda>(q, p1).
       let p2 = (case q of None \<Rightarrow> p1 | Some b \<Rightarrow> pp_copy b a (min (obj_size (pp_mem (xm_pheap s)) a) (unat sz)) p1)
       in res_bind (pp_free (xm_heapid s me) (Some a) p2) (\<lambda>p3. Inr (q, s\<lparr>xm_pheap := p3\<rparr>)))"
proof -
  have m: "unat (if l < sz then l else sz) = min (unat l) (unat sz)" for l :: ulong by (simp add: word_less_nat_alt min_def)
  show ?thesis
    unfolding obj_size_def m [symmetric]
    by (cases "pp_malloc (xheap_malloc me) PROTECTEDHEAP_CHUNK (xm_heapid s me) sz (xm_pheap s)")
      (auto simp: xm_realloc_def xm_getSize_def xadapt_getSize_def getSize_ok [OF assms] xm_malloc_def xadapt_malloc_def xo_malloc_def xm_free_def xadapt_free_def
        Let_def res_bind_assoc split: option.split split del: if_split)
qed

theorem xm_realloc_keeps:
  assumes inv: "pp_inv xheap_good xheap_taken Ls Ts (xm_pheap s)" and i: "i < NUM_HEAPS" "a \<in> Ls i" and me: "xm_heapid s me < NUM_HEAPS"
    and sz: "128 + 2 * unat sz < 2 ^ 63"
    and r: "pp_malloc (xheap_malloc me) PROTECTEDHEAP_CHUNK (xm_heapid s me) sz (xm_pheap s) = Inr (Some b, p1)"
  shows "\<exists>s' Ls' Ts'. xm_realloc me (Some a) sz s = Inr (Some b, s') \<and> pp_inv xheap_good xheap_taken Ls' Ts' (xm_pheap s')
     \<and> (\<forall>j. Ls' j = (if j = xm_heapid s me then insert b (Ls j) else Ls j) - (if j = i then {a} else {}))
     \<and> unat sz \<le> obj_size (pp_mem (xm_pheap s')) b
     \<and> (\<forall>k < min (obj_size (pp_mem (xm_pheap s)) a) (unat sz). pp_mem (xm_pheap s') (b + k) = pp_mem (xm_pheap s) (a + k))
     \<and> (\<forall>j c. j < NUM_HEAPS \<longrightarrow> c \<in> Ls j \<longrightarrow> c \<noteq> a \<longrightarrow> (\<forall>x \<in> pp_whole (xm_pheap s) c. pp_mem (xm_pheap s') x = pp_mem (xm_pheap s) x))"
proof -
  let ?p = "xm_pheap s" and ?h = "xm_heapid s me"
  let ?n = "min (obj_size (pp_mem ?p) a) (unat sz)"
  have chunk: "32 + unat PROTECTEDHEAP_CHUNK < 2 ^ 63" by (simp add: PROTECTEDHEAP_CHUNK_def)
  note fresh = xh.pp_malloc_fresh [OF inv me sz chunk r]
  have ok: "obj_ok (pp_mem ?p) c" "16 \<le> c" if "j < NUM_HEAPS" "c \<in> Ls j" for j c
    using holds_ok [OF pp_invD(1) [OF inv that(1)] that(2)] by (simp_all add: obj_ok_def)
  let ?L1 = "Ls(?h := insert b (Ls ?h))"
  from fresh(1) obtain T1 where inv1: "pp_inv xheap_good xheap_taken ?L1 T1 p1" by blast
  have same1: "pp_mem p1 x = pp_mem ?p x" if "j < NUM_HEAPS" "c \<in> Ls j" "x \<in> pp_whole ?p c" for j c x using fresh(7) that by blast
  have whole1: "pp_whole p1 c = pp_whole ?p c" if "j < NUM_HEAPS" "c \<in> Ls j" for j c
    using obj_size_same [OF ok(2) [OF that], of ?p "pp_mem p1"] same1 [OF that] by (simp add: pp_whole_def)
  have ab: "pp_whole p1 b \<inter> pp_whole p1 c = {}" if "j < NUM_HEAPS" "c \<in> Ls j" for j c using fresh(6) that by blast
  let ?p2 = "pp_copy b a ?n p1"
  have n: "?n \<le> obj_size (pp_mem p1) b" using fresh(3) by simp
  have bL: "b \<in> ?L1 ?h" by simp
  note cp = pp_copy_inv [where a = a, OF inv1 me bL n]
  have blk: "pp_block p1 b \<subseteq> pp_whole p1 b" by (rule pp_block_whole)
  have b16: "16 \<le> b" "b - 16 \<in> pp_whole p1 b" using holds_ok [OF pp_invD(1) [OF inv1 me] bL] by (auto simp: obj_ok_def pp_whole_def)
  have size2: "obj_size (pp_mem ?p2) b = obj_size (pp_mem p1) b"
  proof -
    have "load64 (b - 8) (pp_mem ?p2) = load64 (b - 8) (pp_mem p1)" by (rule load64_agree, rule cp(2)) (use b16 in \<open>auto simp: pp_block_def\<close>)
    then show ?thesis by (simp add: obj_size_def)
  qed
  have same2: "pp_mem ?p2 x = pp_mem ?p x" if "j < NUM_HEAPS" "c \<in> Ls j" "x \<in> pp_whole ?p c" for j c x
    using same1 [OF that] cp(2) [of x] ab [OF that(1,2)] whole1 [OF that(1,2)] that(3) blk by auto
  have whole2: "pp_whole ?p2 c = pp_whole ?p c" if "j < NUM_HEAPS" "c \<in> Ls j" for j c
    using obj_size_same [OF ok(2) [OF that], of ?p "pp_mem ?p2"] same2 [OF that] by (simp add: pp_whole_def)
  have aL: "a \<in> ?L1 i" using i by (cases "i = ?h") auto
  from pp_free_moves [OF cp(1) i(1) aL me] obtain p3 T3 where p3: "pp_free ?h (Some a) ?p2 = Inr p3"
    "pp_inv xheap_good xheap_taken (?L1(i := ?L1 i - {a})) T3 p3" "\<forall>x. x \<notin> pp_block ?p2 a \<longrightarrow> pp_mem p3 x = pp_mem ?p2 x" by blast
  have out: "pp_block ?p2 a \<subseteq> pp_whole ?p a" using pp_block_whole [of ?p2 a] whole2 [OF i] by simp
  have res: "xm_realloc me (Some a) sz s = Inr (Some b, s\<lparr>xm_pheap := p3\<rparr>)"
    unfolding xm_realloc_split [OF ok(1) [OF i]] r by (simp add: p3(1))
  have bb: "x \<in> pp_whole p1 b \<Longrightarrow> pp_mem p3 x = pp_mem ?p2 x" for x using p3(3) out ab [OF i] whole1 [OF i] by blast
  have "obj_size (pp_mem p3) b = obj_size (pp_mem p1) b"
  proof -
    have "load64 (b - 8) (pp_mem p3) = load64 (b - 8) (pp_mem ?p2)" by (rule load64_agree, rule bb) (use b16 in \<open>auto simp: pp_whole_def\<close>)
    then show ?thesis using size2 by (simp add: obj_size_def)
  qed
  then have size3: "unat sz \<le> obj_size (pp_mem p3) b" using fresh(3) by simp
  have copied: "pp_mem p3 (b + k) = pp_mem ?p (a + k)" if k: "k < ?n" for k
  proof -
    have "k < obj_size (pp_mem p1) b" by (rule order.strict_trans2 [OF k n])
    then have "b + k \<in> pp_whole p1 b" by (simp add: pp_whole_def)
    then have "pp_mem p3 (b + k) = pp_mem p1 (a + k)" using bb cp(3) [OF k] by simp
    also have "\<dots> = pp_mem ?p (a + k)" by (rule same1 [OF i]) (use k in \<open>simp add: pp_whole_def\<close>)
    finally show ?thesis .
  qed
  have others: "pp_mem p3 x = pp_mem ?p x" if c: "j < NUM_HEAPS" "c \<in> Ls j" "c \<noteq> a" "x \<in> pp_whole ?p c" for j c x
  proof -
    have "pp_whole ?p a \<inter> pp_whole ?p c = {}" by (rule pp_inv_disjoint [OF inv i(1) c(1) i(2) c(2)]) (use c(3) in simp)
    then have "x \<notin> pp_block ?p2 a" using c(4) out by blast
    then show ?thesis using p3(3) same2 [OF c(1,2,4)] by simp
  qed
  have "\<forall>j. (?L1(i := ?L1 i - {a})) j = (if j = ?h then insert b (Ls j) else Ls j) - (if j = i then {a} else {})" by simp
  with res p3(2) size3 copied others show ?thesis
    by (intro exI [of _ "s\<lparr>xm_pheap := p3\<rparr>"] exI [of _ "?L1(i := ?L1 i - {a})"] exI [of _ T3]) simp
qed

text \<open>When no memory can be had, the old block is freed nevertheless.\<close>

lemma xm_realloc_fails:
  assumes inv: "pp_inv xheap_good xheap_taken Ls Ts (xm_pheap s)" and i: "i < NUM_HEAPS" "a \<in> Ls i"
    and r: "pp_malloc (xheap_malloc me) PROTECTEDHEAP_CHUNK (xm_heapid s me) sz (xm_pheap s) = Inr (None, p1)"
  shows "xm_realloc me (Some a) sz s = res_bind (pp_free (xm_heapid s me) (Some a) p1) (\<lambda>p3. Inr (None, s\<lparr>xm_pheap := p3\<rparr>))"
  using holds_ok [OF pp_invD(1) [OF inv i(1)] i(2)] by (simp add: xm_realloc_split r)

end
