(* ===== verification/Samples.thy ===== *)
theory Samples
  imports XpersistOwner
begin

text \<open>
  Concrete states at which the properties are applied: a page store with two processes that have each dirtied page 0, one byte
  each, and variants of it.
\<close>

definition sample_record :: xpageinfo where
  "sample_record = \<lparr>pi_pageNo = 0, pi_version = 0, pi_pageStart = 0, pi_isUpdated = False, pi_isShared = False, pi_release = False\<rparr>"

definition sample_pool :: xpageentry where
  "sample_pool = \<lparr>pe_total = PAGE_ENTRY_NUM, pe_cur = 1, pe_start = (\<lambda>_. sample_record)\<rparr>"

text \<open>Byte \<open>b\<close> of page 0 set to \<open>v\<close>, everything else 7 as in the shared page.\<close>

definition sample_copy :: "nat \<Rightarrow> byte \<Rightarrow> page" where
  "sample_copy b v = (\<lambda>k. if k = b then v else 7)"

definition sample_mapping :: "page option \<Rightarrow> nat \<Rightarrow> mapping" where
  "sample_mapping cp = (\<lambda>p. \<lparr>m_prot = PROT_READ_WRITE, m_shared = False, m_copy = if p = 0 then cp else None\<rparr>)"

definition sample_local :: "page option \<Rightarrow> xlocal" where
  "sample_local cp = \<lparr>xp_base = 0, xp_size = 1048576, transient = sample_mapping cp, isHeap = True, isProtected = True,
     pageInfo = (\<lambda>_. PAGE_ACCESS_READ), ownedblockinfo = (\<lambda>_. 0), ownedblocks = 0,
     dirtiedPagesList = [(0, 0)], trans_count = 0, threadindex = 0\<rparr>"

definition sample_world :: world where
  "sample_world = \<lparr>sh = \<lparr>persistentMemory = (\<lambda>_. 7), persistentVersions = (\<lambda>_. 0),
       pageUsers = (\<lambda>p. \<lparr>si_users = if p = 0 then 2 else 0, si_bitmapIndex = 0\<rparr>),
       pageOwner = (\<lambda>_. SHARED_PAGE), twins = bm_initialize\<rparr>,
     locals = (\<lambda>q. sample_local (Some (if q = 1 then sample_copy 0 1 else sample_copy 1 2))),
     pools = (\<lambda>_. sample_pool), live = (\<lambda>_. True), resends = (\<lambda>_. 0), mmap_ok = (\<lambda>_ _. True)\<rparr>"

lemma sample_commits: "concat (map (commits_of sample_world) [1, 2]) = [(1, 0), (2, 0)]"
  by (simp add: commits_of_def sample_world_def sample_local_def)

lemma sample_on_page: "on_page sample_world p [(1, 0), (2, 0)] = (if p = 0 then [(1, 0), (2, 0)] else [])"
  by (simp add: on_page_def page_of_def record_of_def sample_world_def sample_pool_def sample_record_def)

lemma sample_ready: "ready sample_world [(1, 0), (2, 0)]"
proof -
  have wf: "bm_wf (twins (sh sample_world))" "unat (load32 bm_cur (twins (sh sample_world))) = 1"
    by (simp_all add: sample_world_def bm_wf_initialize) (simp add: bm_initialize_def)
  have "ready_record sample_world [(1, 0), (2, 0)] c" for c
    by (simp add: ready_record_def page_of_def record_of_def on_page_def same_version_def Let_def)
      (simp add: sample_world_def sample_pool_def sample_record_def sample_local_def sample_mapping_def)
  with wf show ?thesis by (simp add: ready_def)
qed

lemma sample_share: "share_page p sample_world = clip (\<lambda>_. 7)"
  by (simp add: share_page_def page_at_def sample_world_def clip_def)

lemma sample_copies: "copies sample_world 0 [(1, 0), (2, 0)] = [clip (sample_copy 0 1), clip (sample_copy 1 2)]"
  by (simp add: copies_def sample_on_page local_page_def)
    (simp add: sample_world_def sample_local_def sample_mapping_def)

lemma sample_race_free: "race_free (share_page 0 sample_world) (copies sample_world 0 [(1, 0), (2, 0)])"
  by (simp add: race_free_def sample_copies sample_share sample_copy_def)

end
