(* ===== verification/SamplesHeap.thy ===== *)
theory SamplesHeap
  imports SyncVar Realloc Samples
begin

text \<open>
  Concrete states at which the properties of the heaps and of the synchronisation words are applied: a protected heap that holds
  one block of 16 bytes at 4112, an internal heap that holds one, and a page store at 1048576 with one page owned by process 5.
\<close>

section \<open>One block\<close>

definition sample_block_mem :: mem where
  "sample_block_mem = store64 4104 16 (store64 4096 MAGIC (\<lambda>_. 0))"

lemma sample_block_load:
  "load64 4104 sample_block_mem = 16" "load64 4096 sample_block_mem = MAGIC"
  by (simp_all add: sample_block_mem_def load64_store64_other)

lemma size_class_16: "size_class 16"
  unfolding size_class_def by (intro disjI1 exI [of _ 1]) (simp add: NUMBINS_def class2Size_def)

lemma sample_block_ok: "obj_ok sample_block_mem 4112" "obj_size sample_block_mem 4112 = 16"
  using sample_block_load size_class_16 by (simp_all add: obj_ok_def obj_size_def)

section \<open>The protected heap\<close>

definition sample_xheap :: xheap where
  "sample_xheap = \<lparr>xh_start = 4096, xh_end = 1048576, xh_position = 8192, xh_remaining = 65536, xh_magic = XHEAP_MAGIC, xh_mutex = 24\<rparr>"

definition sample_pp :: "(xheap \<times> world) ppheap" where
  "sample_pp = \<lparr>pp_mem = sample_block_mem, pp_source = (sample_xheap, sample_world), pp_heap = (\<lambda>_. kingsley_init), pp_lock = (\<lambda>i. 40 * i)\<rparr>"

definition sample_held :: "nat \<Rightarrow> nat set" where
  "sample_held i = (if i = 0 then {4112} else {})"

definition sample_territory :: "nat \<Rightarrow> nat set" where
  "sample_territory i = (if i = 0 then {4096 ..< 4128} else {})"

lemma sample_xheap_good: "xheap_good (sample_xheap, sample_world)"
  by (simp add: xheap_good_def sample_xheap_def PageSize_def)

lemma sample_pp_inv: "pp_inv xheap_good xheap_taken sample_held sample_territory sample_pp"
proof -
  have init: "holds xheap_good xheap_taken {} {} (pp_view i sample_pp)" for i
    using holds_init [of xheap_good "(sample_xheap, sample_world)" xheap_taken sample_block_mem, OF sample_xheap_good]
    by (simp add: pp_view_def sample_pp_def)
  have whole: "whole (pp_view 0 sample_pp) 4112 = {4096 ..< 4128}"
    by (simp add: pp_whole_def sample_pp_def sample_block_ok)
  have taken: "xheap_taken (pp_source sample_pp) = {4096 ..< 8192}"
    by (simp add: xheap_taken_def sample_pp_def sample_xheap_def)
  have "holds xheap_good xheap_taken {4112} {4096 ..< 4128} (pp_view 0 sample_pp)"
    using holds_adopt [OF init [of 0], of 4112] sample_block_ok taken whole
    by (simp add: sample_pp_def)
  with init taken show ?thesis by (simp add: pp_inv_def sample_held_def sample_territory_def)
qed

lemma sample_16: "align 16 = 16" "nat (size2Class 16) = 1" "(16 :: ulong) \<le> maxObjectSize"
  using size2Class_class2Size [of 1] by (simp_all add: align_shift class2Size_def maxObjectSize_def NUMBINS_def)

text \<open>Freed into heap 1, the block is what heap 1 allocates next.\<close>

lemma sample_free_malloc:
  "\<exists>p1 Ts p2. pp_free 1 (Some 4112) sample_pp = Inr p1 \<and> pp_inv xheap_good xheap_taken (sample_held(0 := {})) Ts p1
     \<and> pp_malloc (xheap_malloc me) chunk 1 16 p1 = Inr (Some 4112, p2)"
proof -
  from pp_free_moves [OF sample_pp_inv, of 0 4112 1] obtain p1 Ts
    where p1: "pp_free 1 (Some 4112) sample_pp = Inr p1" "pp_inv xheap_good xheap_taken (sample_held(0 := {})) Ts p1"
      "\<forall>c<NUMBINS. obj_size (pp_mem sample_pp) 4112 = unat (class2Size (int c)) \<longrightarrow> sl_head (pp_heap p1 1) c = Some 4112"
    by (auto simp: sample_held_def NUM_HEAPS_def)
  then have "sl_head (pp_heap p1 1) 1 = Some 4112"
    by (auto dest: spec [of _ 1] simp: NUMBINS_def sample_pp_def sample_block_ok class2Size_def)
  then obtain p2 where "pp_malloc (xheap_malloc me) chunk 1 16 p1 = Inr (Some 4112, p2)"
    using pp_malloc_reuse [of 1 16 16 p1 4112 "xheap_malloc me" chunk] by (auto simp: sample_16 NUM_HEAPS_def)
  with p1 show ?thesis by blast
qed

section \<open>The internal heap\<close>

definition sample_ih :: iheap where
  "sample_ih = \<lparr>ih_heap = \<lparr>hmem = sample_block_mem, source = \<lparr>si_mmap = 4096, alreadyMalloced = True\<rparr>,
     kz = kingsley_init\<lparr>sl_head := (\<lambda>c. if c = 1 then Some 4112 else None)\<rparr>\<rparr>, ih_lock = Some 64\<rparr>"

section \<open>A page store with owned pages, and the memory around it\<close>

definition sample_owner_local :: xlocal where
  "sample_owner_local = (sample_local None)\<lparr>xp_base := 1048576, transient := sample_mapping (Some (sample_copy 8 9)),
     ownedblockinfo := (\<lambda>i. if i = 1 then 2 else 0), ownedblocks := 1, dirtiedPagesList := []\<rparr>"

definition sample_owner_world :: world where
  "sample_owner_world = sample_world\<lparr>
     sh := (sh sample_world)\<lparr>pageOwner := (\<lambda>p. if p = 0 then 5 else SHARED_PAGE), pageUsers := (\<lambda>_. \<lparr>si_users = 0, si_bitmapIndex = 0\<rparr>)\<rparr>,
     locals := (\<lambda>_. sample_owner_local)\<rparr>"

definition sample_xm :: xmemory where
  "sample_xm = \<lparr>xm_globals = sample_owner_world\<lparr>locals := (\<lambda>_. sample_owner_local\<lparr>xp_base := 4194304\<rparr>)\<rparr>,
     xm_pheap = sample_pp\<lparr>pp_source := (sample_xheap, sample_owner_world)\<rparr>, xm_internal = sample_ih, xm_heapid = (\<lambda>_. 0),
     xm_other = (\<lambda>_ _. 0), xm_mapped = (\<lambda>a. a < 4096), xm_shared = (\<lambda>_. 0), xm_handlers = True\<rparr>"

lemma sample_owner_simps [simp]:
  "locals sample_owner_world q = sample_owner_local" "pools sample_owner_world q = sample_pool"
  "pageOwner (sh sample_owner_world) p = (if p = 0 then 5 else SHARED_PAGE)" "live sample_owner_world q"
  "mmap_ok sample_owner_world a n" "heap_world sample_xm = sample_owner_world"
  "xp_base sample_owner_local = 1048576" "xp_size sample_owner_local = 1048576" "isHeap sample_owner_local"
  "isProtected sample_owner_local" "pageInfo sample_owner_local p = PAGE_ACCESS_READ" "ownedblocks sample_owner_local = 1"
  "ownedblockinfo sample_owner_local i = (if i = 1 then 2 else 0)" "dirtiedPagesList sample_owner_local = []"
  "m_shared (transient sample_owner_local p) = False" "m_prot (transient sample_owner_local p) = PROT_READ_WRITE"
  "m_copy (transient sample_owner_local p) = (if p = 0 then Some (sample_copy 8 9) else None)"
  "locals (xm_globals sample_xm) q = sample_owner_local\<lparr>xp_base := 4194304\<rparr>"
  by (simp_all add: sample_owner_world_def sample_owner_local_def sample_world_def sample_local_def sample_mapping_def
      sample_xm_def heap_world_def)

lemma sample_pool_wf: "pe_wf sample_pool" "pe_cur sample_pool = 1" "Suc 0 < PAGE_ENTRY_NUM"
  by (simp_all add: pe_wf_def sample_pool_def PAGE_ENTRY_NUM_def)

lemma sample_heap_word: "heap_word 1 1048584 sample_xm"
  by (simp add: heap_word_def storable_def private_page_def sample_pool_wf computePage_def PageSize_def page_access_defs SHARED_PAGE_def)

lemma sample_dirty_wf: "dirty_wf 1 sample_owner_world"
  by (simp add: dirty_wf_def sample_pool_wf)

lemma sample_owned: "owned_in_blocks 5 sample_owner_world 0"
  by (simp add: owned_in_blocks_def pid_ulong_def)

lemma sample_owner_copy: "local_page 5 0 sample_owner_world 8 = 9"
  by (simp add: local_page_def sample_copy_def PageSize_def)

section \<open>A page shared while process 1 works on it\<close>

text \<open>Process 1 has set byte 3 of page 0 to zero; the page has got a new version since, and no twin.\<close>

definition sample_lost_world :: world where
  "sample_lost_world = sample_world\<lparr>sh := (sh sample_world)\<lparr>persistentVersions := (\<lambda>_. 1),
     pageUsers := (\<lambda>_. \<lparr>si_users = 1, si_bitmapIndex = 0\<rparr>)\<rparr>, locals := (\<lambda>_. sample_local (Some (sample_copy 3 0)))\<rparr>"

lemma sample_twin_zero: "twin_page 1 bm_initialize k = 0" "twin_page 0 bm_initialize k = 0"
  by (simp_all add: twin_page_def page_at_def clip_def bm_initialize_def bm_getAddress_def bm_offsets)

lemma sample_lost_simps:
  "pi_pageNo (pe_start (pools sample_lost_world q) i) = 0" "\<not> pi_isUpdated (pe_start (pools sample_lost_world q) i)"
  "pageOwner (sh sample_lost_world) p = SHARED_PAGE" "pageUsers (sh sample_lost_world) p = \<lparr>si_users = 1, si_bitmapIndex = 0\<rparr>"
  "\<not> same_version (pe_start (pools sample_lost_world q) i) sample_lost_world"
  "local_page q 0 sample_lost_world 3 = 0" "twin_page 0 (twins (sh sample_lost_world)) 3 = 0" "share_page 0 sample_lost_world 3 = 7"
  by (simp_all add: sample_lost_world_def sample_world_def sample_pool_def sample_record_def same_version_def sample_twin_zero
      local_page_def sample_local_def sample_mapping_def sample_copy_def share_page_def page_at_def clip_def PageSize_def)

section \<open>Two blocks\<close>

text \<open>A heap with a block of 16 bytes at 4112, whose first byte is 5, and a free one at 4144.\<close>

definition sample_two_mem :: mem where
  "sample_two_mem = (store64 4136 16 (store64 4128 MAGIC sample_block_mem))(4112 := 5)"

lemma sample_two_load:
  "load64 4104 sample_two_mem = 16" "load64 4096 sample_two_mem = MAGIC" "load64 4136 sample_two_mem = 16" "load64 4128 sample_two_mem = MAGIC"
proof -
  have far: "load64 c (m(4112 := 5)) = load64 c m" if "c + 8 \<le> 4112 \<or> 4112 < c" for c m
    by (rule load64_agree) (use that in auto)
  show "load64 4104 sample_two_mem = 16" "load64 4096 sample_two_mem = MAGIC" "load64 4136 sample_two_mem = 16" "load64 4128 sample_two_mem = MAGIC"
    by (simp_all add: sample_two_mem_def far load64_store64_other sample_block_load)
qed

lemma sample_two_ok: "obj_ok sample_two_mem 4112" "obj_size sample_two_mem 4112 = 16" "obj_ok sample_two_mem 4144" "obj_size sample_two_mem 4144 = 16"
  using sample_two_load size_class_16 by (simp_all add: obj_ok_def obj_size_def)

definition sample_two_pp :: "(xheap \<times> world) ppheap" where
  "sample_two_pp = sample_pp\<lparr>pp_mem := sample_two_mem\<rparr>"

lemma sample_two_inv:
  "pp_inv xheap_good xheap_taken (\<lambda>i. if i = 0 then {4112, 4144} else {}) (\<lambda>i. if i = 0 then {4096 ..< 4160} else {}) sample_two_pp"
proof -
  have init: "holds xheap_good xheap_taken {} {} (pp_view i sample_two_pp)" for i
    using holds_init [of xheap_good "(sample_xheap, sample_world)" xheap_taken sample_two_mem, OF sample_xheap_good]
    by (simp add: pp_view_def sample_pp_def sample_two_pp_def)
  have whole: "pp_whole sample_two_pp 4112 = {4096 ..< 4128}" "pp_whole sample_two_pp 4144 = {4128 ..< 4160}"
    by (simp_all add: pp_whole_def sample_two_pp_def sample_two_ok)
  have taken: "xheap_taken (pp_source sample_two_pp) = {4096 ..< 8192}"
    by (simp add: xheap_taken_def sample_two_pp_def sample_pp_def sample_xheap_def)
  have mem: "pp_mem sample_two_pp = sample_two_mem" by (simp add: sample_two_pp_def)
  have one: "holds xheap_good xheap_taken {4112} {4096 ..< 4128} (pp_view 0 sample_two_pp)"
    using holds_adopt [OF init [of 0], of 4112] sample_two_ok taken whole mem by simp
  have "{4096 ..< 4128} \<union> {4128 ..< 4160} = {4096 ..< 4160 :: nat}" by auto
  moreover have "holds xheap_good xheap_taken (insert 4144 {4112}) ({4096 ..< 4128} \<union> {4128 ..< 4160}) (pp_view 0 sample_two_pp)"
    using holds_adopt [OF one, of 4144] sample_two_ok taken whole mem by simp
  ultimately have "holds xheap_good xheap_taken {4112, 4144} {4096 ..< 4160} (pp_view 0 sample_two_pp)" by (simp add: insert_commute)
  with init taken show ?thesis by (auto simp: pp_inv_def)
qed

lemma sample_realloc:
  "\<exists>p Ls Ts p1. pp_inv xheap_good xheap_taken Ls Ts p \<and> 4112 \<in> Ls 0 \<and> pp_malloc (xheap_malloc me) chunk 0 16 p = Inr (Some 4144, p1)
     \<and> obj_size (pp_mem p) 4112 = 16 \<and> pp_mem p 4112 = 5"
proof -
  let ?L = "\<lambda>i. if i = 0 then {4112, 4144} else {} :: nat set"
  from pp_free_moves [OF sample_two_inv, of 0 4144 0] obtain p Ts
    where p: "pp_inv xheap_good xheap_taken (?L(0 := ?L 0 - {4144})) Ts p" "\<forall>x. x \<notin> pp_block sample_two_pp 4144 \<longrightarrow> pp_mem p x = pp_mem sample_two_pp x"
      "\<forall>c<NUMBINS. obj_size (pp_mem sample_two_pp) 4144 = unat (class2Size (int c)) \<longrightarrow> sl_head (pp_heap p 0) c = Some 4144"
    by (auto simp: NUM_HEAPS_def)
  then have "sl_head (pp_heap p 0) 1 = Some 4144"
    by (auto dest: spec [of _ 1] simp: NUMBINS_def sample_two_pp_def sample_two_ok class2Size_def)
  then obtain p1 where "pp_malloc (xheap_malloc me) chunk 0 16 p = Inr (Some 4144, p1)"
    using pp_malloc_reuse [of 0 16 16 p 4144 "xheap_malloc me" chunk] by (auto simp: sample_16 NUM_HEAPS_def)
  moreover have blk: "pp_block sample_two_pp 4144 = {4144 ..< 4160}" by (simp add: pp_block_def sample_two_pp_def sample_two_ok)
  have "load64 4104 (pp_mem p) = load64 4104 sample_two_mem" by (rule load64_agree) (use p(2) blk in \<open>simp add: sample_two_pp_def\<close>)
  then have "obj_size (pp_mem p) 4112 = 16" by (simp add: obj_size_def sample_two_load)
  moreover have "pp_mem p 4112 = 5" using p(2) blk by (simp add: sample_two_pp_def sample_two_mem_def)
  ultimately show ?thesis using p(1) by (intro exI [of _ p] exI [of _ "?L(0 := ?L 0 - {4144})"] exI [of _ Ts] exI [of _ p1]) auto
qed

end
