(* ===== verification/SamplesSync.thy ===== *)
theory SamplesSync
  imports Fence
begin

text \<open>
  A concrete state of the synchronisation layer at which its properties are applied: threads 0, 1 and 2 are active and 0 has the
  token, 3 and 4 wait on the condition variable with entry 500, 5 waits at the barrier with entry 600, and 6 joins 0.
\<close>

definition sample_node :: "nat \<Rightarrow> nat \<Rightarrow> entry" where
  "sample_node p n = \<lparr>entry_prev = Some p, entry_next = Some n\<rparr>"

definition sample_nodes :: links where
  "sample_nodes = (\<lambda>_. \<lparr>entry_prev = None, entry_next = None\<rparr>)
     (0 := sample_node 2 1, 1 := sample_node 0 2, 2 := sample_node 1 0,
      3 := sample_node 4 4, 4 := sample_node 3 3, 5 := sample_node 5 5)"

definition sample_thread :: "nat \<Rightarrow> thread_entry" where
  "sample_thread i = \<lparr>te_tid = 100 + of_nat i, te_threadindex = i,
     te_status = (if i = 3 \<or> i = 4 then STATUS_COND_WAITING else if i = 5 then STATUS_BARR_WAITING
                  else if i = 6 then STATUS_JOINING else STATUS_READY),
     te_tid_parent = 6, te_cond = (if i = 3 \<or> i = 4 then Some 500 else None),
     te_barrier = (if i = 5 then Some 600 else None), te_wait = 0, te_joinee = 0\<rparr>"

definition sample_determ :: determ where
  "sample_determ = determ_getInstance\<lparr>nodes := sample_nodes, entries := sample_thread,
     cond_tab := (\<lambda>_. \<lparr>ce_waiters = 2, ce_cond = 50, ce_head = Some 3\<rparr>),
     barrier_tab := (\<lambda>_. \<lparr>be_maxthreads = 2, be_threads = 1, be_arrival_phase = True, be_orig_barr = 60, be_head = Some 5\<rparr>),
     activelist := Some 0, tokenpos := Some 0, coresNumb := 4, maxthreads := 3, alivethreads := 7, is_arrival_phase := True\<rparr>"

definition sample_sched :: sched where
  "sample_sched = \<lparr>running = [0, 1, 2], first = 0,
     waiting = (\<lambda>q. case q of Cond _ \<Rightarrow> [3, 4] | Barrier _ \<Rightarrow> [5]), uncounted = 0\<rparr>"

definition sample_queues :: "queue set" where
  "sample_queues = {Cond 500, Barrier 600}"

lemma sample_sched_simps [simp]:
  "running sample_sched = [0, 1, 2]" "first sample_sched = 0" "uncounted sample_sched = 0"
  "waiting sample_sched (Cond c) = [3, 4]" "waiting sample_sched (Barrier b) = [5]"
  "Cond c \<in> sample_queues \<longleftrightarrow> c = 500" "Barrier b \<in> sample_queues \<longleftrightarrow> b = 600"
  by (simp_all add: sample_sched_def sample_queues_def)

lemma sample_sim: "sim sample_determ sample_sched sample_queues"
  by (simp add: sim_def queues_ok_def sample_determ_def sample_sched_def sample_queues_def determ_getInstance_def
      determ_constructor_def ring_list_def ring_def sample_nodes_def sample_node_def sample_thread_def)

lemma sample_no_queue: "q \<in> sample_queues \<Longrightarrow> 6 \<notin> set (waiting sample_sched q)"
  by (auto simp: sample_queues_def)

lemma sample_waiting: "q \<in> sample_queues \<Longrightarrow> set (waiting sample_sched q) \<subseteq> {3, 4, 5}"
  by (auto simp: sample_queues_def)

lemma sample_determ_simps [simp]:
  "alivethreads sample_determ = 7" "be_maxthreads (barrier_tab sample_determ 600) = 2"
  "joiner_of 0 sample_determ = Some 6" "te_threadindex (entries sample_determ i) = i"
  "te_status (entries sample_determ 2) = STATUS_READY"
  by (simp_all add: sample_determ_def determ_getInstance_def determ_constructor_def joiner_of_def sample_thread_def)

text \<open>The same state after thread 0 has left: 6 is active again, not yet counted, and 0 has exited.\<close>

lemma sample_exit:
  "\<exists>d. deregisterThread 0 sample_determ = Inr d \<and> sim d (spec_exit (Some 6) sample_sched) sample_queues
     \<and> te_status (entries d 0) = STATUS_EXIT"
  using deregisterThread_sim [OF sample_sim, of 0 "Some 6"] sample_no_queue by auto

text \<open>A fence of two threads on one core, one of which has arrived and sleeps.\<close>

lemma sample_fence: "\<exists>s. fence_reach {0, 1} s \<and> fs_arrived s 0 = 1 \<and> fs_left s 0 = 0 \<and> fs_place s 0 = Waiting False \<and> sleeping_fence (fs_determ s) = {0}"
proof -
  let ?d = "sample_determ\<lparr>maxthreads := 2, currthreads := 0, coresNumb := 1\<rparr>"
  let ?s = "\<lparr>fs_determ = ?d, fs_place = (\<lambda>_. Running), fs_arrived = (\<lambda>_. 0), fs_left = (\<lambda>_. 0)\<rparr>"
  have phase: "is_arrival_phase ?d" "sleeping_fence ?d = {}" by (simp_all add: sample_determ_def determ_getInstance_def determ_constructor_def)
  let ?t = "?s\<lparr>fs_place := (\<lambda>_. Running)(0 := Ready)\<rparr>"
  have "fence_reach {0, 1} ?s" by (rule fence_reach.init) (use phase in simp_all)
  moreover have "fence_move {0, 1} ?s ?t"
    using fence_move.see [of 0 "{0, 1}" ?s] phase by (simp add: fence_open_def)
  ultimately have r1: "fence_reach {0, 1} ?t" using fence_reach.step unfolding fence_step_def by blast
  define d where "d = snd (fence_arrive 0 ?d)"
  have d: "fence_arrive 0 ?d = (False, d)" "\<not> spins d" "sleeping_fence d = {0}"
    using phase by (simp_all add: d_def fence_arrive_def Let_def spins_def fence_sleep_def on_entry_def word_le_nat_alt)
  let ?u = "?t\<lparr>fs_determ := d, fs_place := (fs_place ?t)(0 := if False then Leaving else Waiting (spins d)), fs_arrived := (fs_arrived ?t)(0 := Suc (fs_arrived ?t 0))\<rparr>"
  have "fence_move {0, 1} ?t ?u" by (rule fence_move.arrive) (use d in simp_all)
  with r1 have "fence_reach {0, 1} ?u" using fence_reach.step unfolding fence_step_def by blast
  then show ?thesis by (intro exI [of _ ?u] conjI) (simp_all add: d)
qed

end
