(* ===== verification/SamplesRun.thy ===== *)
theory SamplesRun
  imports HeapWait Isolation SamplesHeap SamplesSync
begin

text \<open>
  Concrete runs: two processes that store to the same page in parallel, and a system of three processes, 100, 101 and 102, with the
  synchronisation layer of \<open>SamplesSync\<close>, of which 101 has a running fence and 102 is alone.
\<close>

section \<open>Parallel stores\<close>

definition sample_quiet :: world where
  "sample_quiet = sample_world\<lparr>sh := (sh sample_world)\<lparr>pageUsers := (\<lambda>_. \<lparr>si_users = 0, si_bitmapIndex = 0\<rparr>)\<rparr>,
     locals := (\<lambda>_. (sample_local None)\<lparr>transient := (\<lambda>_. \<lparr>m_prot = PROT_READ, m_shared = False, m_copy = None\<rparr>),
       dirtiedPagesList := []\<rparr>), pools := (\<lambda>_. sample_pool\<lparr>pe_cur := 0\<rparr>)\<rparr>"

text \<open>Process 1 adds 4 to byte 0 and copies the sum to byte 2; process 2 sets byte 1.\<close>

definition sample_events :: "event list" where
  "sample_events = [(1, \<lambda>v. (0, v 0 + 4)), (2, \<lambda>v. (1, 9)), (1, \<lambda>v. (2, v 0))]"

definition sample_reordered :: "event list" where
  "sample_reordered = [(2, \<lambda>v. (1, 9)), (1, \<lambda>v. (0, v 0 + 4)), (1, \<lambda>v. (2, v 0))]"

lemma sample_quiet: "quiet sample_quiet"
  by (simp add: quiet_def sample_quiet_def sample_world_def sample_local_def)

lemma sample_same_programs: "of_process q sample_events = of_process q sample_reordered"
  by (simp add: of_process_def sample_events_def sample_reordered_def)

lemma sample_parallel:
  "\<exists>w. run_events sample_events sample_quiet = Inr w \<and> dirtiedPagesList (locals w 1) = [(0, 0)] \<and> dirtiedPagesList (locals w 2) = [(0, 0)]
     \<and> local_page 1 0 w 2 = 11 \<and> local_page 2 0 w 1 = 9 \<and> twins (sh w) = bm_initialize"
  by (simp add: sample_events_def store_at_def view_def region_load_def numeral_3_eq_3 Let_def handleWrite_def add_dirty_def sample_quiet_def
      sample_world_def sample_local_def sample_pool_def computePage_def mprotectWrite_def mprotect_def increment_users_def
      page_access_defs pe_alloc_def PAGE_ENTRY_NUM_def write_byte_def on_lo_def on_pool_def on_sh_def pid_ulong_def SHARED_PAGE_def
      local_page_def share_page_def page_at_def clip_def PageSize_def)

lemma sample_round: "\<exists>v. run_round [1, 2] sample_events sample_quiet = Inr v"
proof -
  from sample_parallel obtain w where w: "run_events sample_events sample_quiet = Inr w"
    "dirtiedPagesList (locals w 1) = [(0, 0)]" "dirtiedPagesList (locals w 2) = [(0, 0)]" "twins (sh w) = bm_initialize" by blast
  have "room (dirty_count [1, 2] w + 0) w"
    using w(2-4) bm_wf_initialize by (simp add: room_def dirty_count_def) (simp add: bm_initialize_def INITIAL_PAGES_def)
  from commit_round_succeeds [OF run_events_quiet [OF w(1) sample_quiet] this] w(1) show ?thesis
    by (auto simp: run_round_def)
qed

section \<open>A system\<close>

definition sample_proc :: "nat \<Rightarrow> xproc" where
  "sample_proc i = \<lparr>lib_initialized = True, xr_initialized = True, xr_protection_enabled = True, xr_master_thread_id = 100,
     xr_thread_index = i, xr_fence_enabled = (i \<noteq> 2), xr_children_threads_count = 0, xr_lock_count = 0, xr_token_holding = False,
     xt_nestingLevel = 0, xt_tid = 100 + of_nat i, pr_ret = 0, pr_flag = False\<rparr>"

definition sample_xsys :: xsys where
  "sample_xsys = \<lparr>dt = sample_determ, xm = sample_xm, procs = (\<lambda>me. sample_proc (unat me - 100)), gd_thread_index = 7,
     statuses = [4096 \<mapsto> \<lparr>ts_tid = 101, ts_threadIndex = 1, ts_retval = 5\<rparr>], sleep_cond = (\<lambda>_. {}), sleep_join = {},
     rb_count = (\<lambda>_. 2), rb_inside = (\<lambda>_. {}), pending = (\<lambda>_. {}), heap_holder = (\<lambda>_. None), dead = {}\<rparr>"

definition sample_code :: "cint \<Rightarrow> instr list" where
  "sample_code me = (if me = 101 then [IEnd User, IEnd ExitProcess] else [])"

lemma sample_xsys_simps [simp]:
  "dt sample_xsys = sample_determ" "xm sample_xsys = sample_xm" "procs sample_xsys me = sample_proc (unat me - 100)"
  "statuses sample_xsys t = (if t = 4096 then Some \<lparr>ts_tid = 101, ts_threadIndex = 1, ts_retval = 5\<rparr> else None)" "dead sample_xsys = {}"
  by (simp_all add: sample_xsys_def)

text \<open>Process 101 has nothing to commit, and not the token either.\<close>

lemma sample_commit: "\<exists>s'. on_xm_r (xm_commit 101 False) sample_xsys = Inr s'"
  by (simp add: on_xm_r_def xm_commit_def on_pheap_r_def on_globals_r_def xo_checkandcommit_def on_world_r_def sample_xm_def
      sample_pp_def checkandcommit_def put_source_def share_pools_def)

lemma sample_no_token: "has_token 101 sample_determ = Inr False"
  by (simp add: has_token_def sample_determ_def determ_getInstance_def determ_constructor_def sample_thread_def)

lemma sample_alone: "alone 102 sample_xsys"
  by (simp add: alone_def sample_proc_def)

lemma sample_join: "\<exists>s'. xt_join 100 4096 True sample_xsys = Inr s'"
  by (simp add: xt_join_def status_page_def)

lemma sample_single_waiter:
  "\<exists>d. sim d (spec_signal 500 sample_sched) sample_queues \<and> waiting (spec_signal 500 sample_sched) (Cond 500) = [4]"
  using cond_dequeue_sim [OF sample_sim, of 500 3 "[4]"] by (auto simp: spec_signal_def spec_insert_def)

definition sample_fence_state :: fence_state where
  "sample_fence_state = \<lparr>fs_determ = sample_determ, fs_place = (\<lambda>_. Running), fs_arrived = (\<lambda>_. 0), fs_left = (\<lambda>_. 0)\<rparr>"

lemma sample_enter:
  "\<exists>s'. exec_fence 100 (FenceEnter False) sample_xsys = Some (Inr ([IFence (FenceOut True False)], s'))" "my_index 100 sample_xsys = 0"
  by (simp_all add: fence_arrive_leave_def my_index_def sample_proc_def fence_open_def spins_def fence_arrive_def on_entry_def
      sample_determ_def determ_getInstance_def determ_constructor_def Let_def word_le_nat_alt)

text \<open>A free lock with entry 4112, acquired.\<close>

lemma sample_locked:
  "\<exists>(s :: dsys) s'. sync_entry 1 1048584 s = Some 4112 \<and> lock_acquire 1 1048584 s = Inr (True, s') \<and> sync_entry 1 1048584 s' = Some 4112"
proof -
  from setSyncEntry_get [OF sample_heap_word, of 4112] obtain m where "getSyncEntry 1 1048584 m = Some 4112" by auto
  then have e: "sync_entry 1 1048584 \<lparr>dt = sample_determ, xm = m\<rparr> = Some 4112" by (simp add: sync_entry_def)
  have "lock_tab sample_determ 4112 = \<lparr>le_total_users = 0, le_last_thread = 0, le_is_acquired = False, le_budget = 0\<rparr>"
    by (simp add: sample_determ_def determ_getInstance_def determ_constructor_def)
  then obtain l where "acquire_entry 1 (isSingleWorkingThread sample_determ) (lock_tab sample_determ 4112) = (True, l)"
    by (simp add: acquire_entry_def)
  then have "lock_acquire 1 1048584 \<lparr>dt = sample_determ, xm = m\<rparr>
      = Inr (True, on_dt (on_lock 4112 (\<lambda>_. l)) \<lparr>dt = sample_determ, xm = m\<rparr>)"
    by (simp add: lock_acquire_known [OF e])
  moreover have "sync_entry 1 1048584 (on_dt (on_lock 4112 (\<lambda>_. l)) \<lparr>dt = sample_determ, xm = m\<rparr>) = Some 4112"
    using e by (simp add: sync_entry_def on_dt_def)
  ultimately show ?thesis using e by blast
qed

text \<open>The same lock, owned by process 1, free, with its whole budget; there are other threads.\<close>

lemma sample_owned_lock:
  "\<exists>s :: dsys. sync_entry 1 1048584 s = Some 4112 \<and> owned_free 1 (lock_tab (dt s) 4112) \<and> le_budget (lock_tab (dt s) 4112) = 10
     \<and> \<not> isSingleWorkingThread (dt s)"
proof -
  from setSyncEntry_get [OF sample_heap_word, of 4112] obtain m where "getSyncEntry 1 1048584 m = Some 4112" by auto
  then show ?thesis
    by (intro exI [of _ "\<lparr>dt = on_lock 4112 (\<lambda>_. \<lparr>le_total_users = 1, le_last_thread = 1, le_is_acquired = False, le_budget = 10\<rparr>) sample_determ, xm = m\<rparr>"])
      (simp add: sync_entry_def owned_free_def on_lock_def isSingleWorkingThread_def sample_determ_def determ_getInstance_def determ_constructor_def)
qed

section \<open>Allocation\<close>

text \<open>Processes 101 and 133, the threads 1 and 33, share heap 1.\<close>

definition sample_crowd :: xsys where
  "sample_crowd = sample_xsys\<lparr>xm := sample_xm\<lparr>xm_heapid := (\<lambda>q. (unat q - 100) mod NUM_HEAPS)\<rparr>\<rparr>"

definition sample_crowd_code :: "cint \<Rightarrow> instr list" where
  "sample_crowd_code q = (if q = 101 \<or> q = 133 then xr_malloc 16 else [])"

lemma sample_crowd_simps [simp]:
  "dt sample_crowd = sample_determ" "heap_of q sample_crowd = (unat q - 100) mod NUM_HEAPS" "dead sample_crowd = {}"
  "heap_holder sample_crowd i = None" "procs sample_crowd q = sample_proc (unat q - 100)" "heap_top sample_crowd = sample_xheap"
  by (simp_all add: sample_crowd_def sample_xsys_def heap_of_def heap_top_def sample_xm_def)

lemma sample_crowd_asks: "xm_asks 101 16 (xm sample_crowd)"
  by (simp add: xm_asks_def heap_asks_def Let_def sample_16 sample_crowd_def sample_xm_def sample_pp_def adapt_malloc_def sl_get_def
      kingsley_init_def zone_asks_def on_kz_def)

lemma sample_crowd_mutex: "sync_entry 101 (xh_mutex sample_xheap) sample_crowd = None"
proof -
  have "xm_load 101 (24 + k) (xm sample_crowd) = 0" if "k < 8" for k
    using that by (simp add: xm_load_def sample_crowd_def sample_xm_def xo_inRange_def inRange_def sample_pp_def)
  then have "xm_load64 101 24 (xm sample_crowd) = 0" unfolding xm_load64_def by (intro load64_bytes) (simp add: byte_of_def)
  then show ?thesis by (simp add: sync_entry_def getSyncEntry_def dec_def sample_xheap_def)
qed

lemma sample_crowd_fence: "is_arrival_phase sample_determ" "currthreads sample_determ + 1 < maxthreads sample_determ" "maxthreads sample_determ \<noteq> 1"
  by (simp_all add: sample_determ_def determ_getInstance_def determ_constructor_def)

text \<open>Process 102 has no children, and a freed block of 16 bytes in its heap.\<close>

definition sample_single :: xsys where
  "sample_single = sample_xsys\<lparr>xm := sample_xm\<lparr>xm_pheap := (xm_pheap sample_xm)\<lparr>
     pp_heap := (\<lambda>_. kingsley_init\<lparr>sl_head := (\<lambda>c. if c = 1 then Some 4112 else None)\<rparr>)\<rparr>\<rparr>\<rparr>"

lemma sample_single_simps: "alone 102 sample_single" "heap_holder sample_single i = None"
  by (simp_all add: alone_def sample_single_def sample_xsys_def sample_proc_def)

lemma sample_single_malloc: "\<exists>m. xm_malloc 102 16 (xm sample_single) = Inr (Some 4112, m)"
  by (simp add: xm_malloc_def xadapt_malloc_def pp_malloc_def kingsley_malloc_def aw_malloc_def strict_malloc_def Let_def sample_16
      sample_single_def sample_xm_def adapt_malloc_def sl_get_def NUM_HEAPS_def)

end
