(* ===== verification/SchedSys.thy ===== *)
theory SchedSys
  imports DetermLocks
begin

text \<open>
  The scheduler as a whole, over plain lists. Its state \<open>sys\<close> knows, besides the lists of \<open>sched\<close>, who joins whom, who has exited or sleeps in \<open>sigwait\<close>
  and how many threads a barrier is for; \<open>spec_op\<close> is one operation, \<open>enabled\<close> says when the program may call it, and \<open>wf_sys\<close> is an
  invariant of all of them. \<open>run_op\<close> is the same operation of the layer, and \<open>implements d s Q\<close> relates the states of both.
\<close>

section \<open>The scheduler\<close>

record sys =
  core :: sched
  parent_of :: "nat \<Rightarrow> nat"
  joins :: "nat \<Rightarrow> nat option"
  woken :: "nat set"
  exited :: "nat set"
  asleep :: "nat set"
  parties :: "nat \<Rightarrow> nat"
  spawned :: nat
  alive :: nat

text \<open>
  The thread with the token acts, except in \<open>OpJoined\<close> (the end of a \<open>join\<close>) and \<open>OpSigReturn\<close> (the end of a \<open>sigwait\<close>).
\<close>

datatype sync_op = OpPass | OpWait nat | OpSignal nat | OpBroadcast nat | OpArrive nat | OpExit | OpRegister nat cint nat
  | OpStart nat | OpJoin nat bool | OpJoined nat | OpSigLeave | OpSigReturn nat

definition actor :: "sys \<Rightarrow> nat" where
  "actor s = hd (running (core s))"

definition parent_joins :: "sys \<Rightarrow> nat option" where
  "parent_joins s = (let p = parent_of s (actor s) in if joins s p = Some (actor s) then Some p else None)"

fun spec_op :: "sync_op \<Rightarrow> sys \<Rightarrow> sys" where
  "spec_op OpPass s = s\<lparr>core := spec_putToken (core s)\<rparr>"
| "spec_op (OpWait c) s = s\<lparr>core := spec_wait (Cond c) (core s)\<rparr>"
| "spec_op (OpSignal c) s = s\<lparr>core := spec_signal c (core s)\<rparr>"
| "spec_op (OpBroadcast c) s = s\<lparr>core := spec_wake_all (Cond c) (core s)\<rparr>"
| "spec_op (OpArrive b) s = s\<lparr>core := spec_barrier b (parties s b) (core s)\<rparr>"
| "spec_op OpExit s = s\<lparr>core := spec_exit (parent_joins s) (core s), woken := woken s \<union> set_option (parent_joins s),
     exited := insert (actor s) (exited s), alive := alive s - 1\<rparr>"
| "spec_op (OpRegister n pid p) s = s\<lparr>core := spec_register n (core s), parent_of := (parent_of s)(n := p),
     exited := exited s - {n}, spawned := Suc (spawned s)\<rparr>"
| "spec_op (OpStart n) s = s\<lparr>core := (core s)\<lparr>uncounted := uncounted (core s) - n\<rparr>, spawned := spawned s - n, alive := alive s + n\<rparr>"
| "spec_op (OpJoin g w) s = (if g \<in> exited s then s else s\<lparr>core := spec_leave (core s), joins := (joins s)(actor s := Some g)\<rparr>)"
| "spec_op (OpJoined i) s = s\<lparr>core := (core s)\<lparr>uncounted := uncounted (core s) - 1\<rparr>, joins := (joins s)(i := None), woken := woken s - {i}\<rparr>"
| "spec_op OpSigLeave s = s\<lparr>core := spec_leave (core s), asleep := insert (actor s) (asleep s)\<rparr>"
| "spec_op (OpSigReturn i) s = s\<lparr>core := spec_insert [i] (core s), asleep := asleep s - {i}\<rparr>"

definition others :: "sys \<Rightarrow> bool" where
  "others s \<longleftrightarrow> tl (running (core s)) \<noteq> []"

text \<open>The threads in a list or asleep.\<close>

definition listed :: "queue set \<Rightarrow> sys \<Rightarrow> nat set" where
  "listed Q s = set (running (core s)) \<union> (\<Union>q\<in>Q. set (waiting (core s) q))"

definition known :: "queue set \<Rightarrow> sys \<Rightarrow> nat set" where
  "known Q s = listed Q s \<union> asleep s \<union> dom (joins s)"

fun enabled :: "queue set \<Rightarrow> sync_op \<Rightarrow> sys \<Rightarrow> bool" where
  "enabled Q OpPass s \<longleftrightarrow> True"
| "enabled Q (OpWait c) s \<longleftrightarrow> Cond c \<in> Q \<and> others s \<and> actor s \<notin> woken s"
| "enabled Q (OpSignal c) s \<longleftrightarrow> Cond c \<in> Q"
| "enabled Q (OpBroadcast c) s \<longleftrightarrow> Cond c \<in> Q"
| "enabled Q (OpArrive b) s \<longleftrightarrow> Barrier b \<in> Q \<and> actor s \<notin> woken s
     \<and> (Suc (length (waiting (core s) (Barrier b))) = parties s b \<or> others s)"
| "enabled Q OpExit s \<longleftrightarrow> actor s \<notin> woken s \<and> 0 < alive s \<and> (parent_joins s = None \<longrightarrow> others s)"
| "enabled Q (OpRegister n pid p) s \<longleftrightarrow> n < MAX_THREADS \<and> n \<notin> known Q s \<and> n \<notin> ran (joins s)"
| "enabled Q (OpStart n) s \<longleftrightarrow> n \<le> spawned s \<and> alive s + n \<le> MAX_THREADS"
| "enabled Q (OpJoin g w) s \<longleftrightarrow> others s \<and> actor s \<notin> woken s"
| "enabled Q (OpJoined i) s \<longleftrightarrow> i \<in> woken s"
| "enabled Q OpSigLeave s \<longleftrightarrow> others s \<and> actor s \<notin> woken s"
| "enabled Q (OpSigReturn i) s \<longleftrightarrow> i \<in> asleep s"

section \<open>The operations of the layer\<close>

fun run_op :: "sync_op \<Rightarrow> determ \<Rightarrow> determ result" where
  "run_op OpPass d = res_bind (deref (tokenpos d)) (\<lambda>t. putToken t d)"
| "run_op (OpWait c) d = res_bind (deref (tokenpos d)) (\<lambda>t. cond_enqueue t c d)"
| "run_op (OpSignal c) d = (if ce_waiters (cond_tab d c) = 0 then Inr d else cond_dequeue c d)"
| "run_op (OpBroadcast c) d = (if ce_waiters (cond_tab d c) = 0 then Inr d else cond_wake_all c d)"
| "run_op (OpArrive b) d = res_bind (deref (tokenpos d)) (\<lambda>t. map_sum id snd (barrier_arrive t b d))"
| "run_op OpExit d = res_bind (deref (tokenpos d)) (\<lambda>t. deregisterThread t d)"
| "run_op (OpRegister n pid p) d = registerThread n pid p d"
| "run_op (OpStart n) d = Inr (startFence n d)"
| "run_op (OpJoin g w) d = res_bind (deref (tokenpos d)) (\<lambda>t. map_sum id snd (join_start g t w d))"
| "run_op (OpJoined i) d = map_sum id snd (join_wakeup (te_joinee (entries d i)) i d)"
| "run_op OpSigLeave d = res_bind (deref (tokenpos d)) (\<lambda>t. sig_wait_leave t d)"
| "run_op (OpSigReturn i) d = sig_wait_return i d"

fun run_ops :: "sync_op list \<Rightarrow> determ \<Rightarrow> determ result" where
  "run_ops [] d = Inr d"
| "run_ops (x # xs) d = res_bind (run_op x d) (run_ops xs)"

fun enabled_all :: "queue set \<Rightarrow> sync_op list \<Rightarrow> sys \<Rightarrow> bool" where
  "enabled_all Q [] s \<longleftrightarrow> True"
| "enabled_all Q (x # xs) s \<longleftrightarrow> enabled Q x s \<and> enabled_all Q xs (spec_op x s)"

section \<open>The invariant of the scheduler\<close>

definition wf_sys :: "queue set \<Rightarrow> sys \<Rightarrow> bool" where
  "wf_sys Q s \<longleftrightarrow>
     (\<forall>i\<in>listed Q s. i < MAX_THREADS \<and> i \<notin> exited s)
     \<and> asleep s \<inter> (listed Q s \<union> exited s \<union> dom (joins s)) = {} \<and> (\<forall>i\<in>asleep s. i < MAX_THREADS)
     \<and> (\<forall>p\<in>dom (joins s). p < MAX_THREADS \<and> p \<notin> exited s \<and> (p \<in> listed Q s \<longrightarrow> p \<in> woken s))
     \<and> (\<forall>p\<in>woken s. p \<in> set (running (core s)) \<and> p \<in> dom (joins s) \<and> the (joins s p) \<in> exited s)
     \<and> (\<forall>b. Barrier b \<in> Q \<longrightarrow> length (waiting (core s) (Barrier b)) < parties s b \<and> parties s b < 2 ^ 31)
     \<and> uncounted (core s) = spawned s + card (woken s) \<and> alive s \<le> MAX_THREADS"

text \<open>The entries of the threads, and the sizes of the barriers.\<close>

definition records :: "queue set \<Rightarrow> determ \<Rightarrow> sys \<Rightarrow> bool" where
  "records Q d s \<longleftrightarrow>
     (\<forall>i. te_tid_parent (entries d i) = parent_of s i)
     \<and> (\<forall>i g. te_status (entries d i) = STATUS_JOINING \<and> te_joinee (entries d i) = g \<longleftrightarrow> joins s i = Some g)
     \<and> (\<forall>i. te_status (entries d i) = STATUS_EXIT \<longleftrightarrow> i \<in> exited s)
     \<and> (\<forall>i\<in>known Q s. te_threadindex (entries d i) = i)
     \<and> (\<forall>b. Barrier b \<in> Q \<longrightarrow> be_maxthreads (barrier_tab d b) = of_nat (parties s b))
     \<and> unat (alivethreads d) = alive s"

definition implements :: "determ \<Rightarrow> sys \<Rightarrow> queue set \<Rightarrow> bool" where
  "implements d s Q \<longleftrightarrow> sim d (core s) Q \<and> wf_sys Q s \<and> records Q d s"

text \<open>What the relation to the lists says of the lists.\<close>

definition apart :: "queue set \<Rightarrow> sched \<Rightarrow> bool" where
  "apart Q c \<longleftrightarrow> running c \<noteq> [] \<and> distinct (running c)
     \<and> (\<forall>q\<in>Q. distinct (waiting c q) \<and> set (running c) \<inter> set (waiting c q) = {} \<and> (\<forall>p\<in>Q. p \<noteq> q \<longrightarrow> set (waiting c q) \<inter> set (waiting c p) = {}))"

lemma sim_apart: "sim d c Q \<Longrightarrow> apart Q c"
proof -
  assume a: "sim d c Q"
  then have ok: "queues_ok d (waiting c) Q (set (running c))" by (simp add: sim_def)
  have "distinct (waiting c q)" if "q \<in> Q" for q using dl.nodup [OF queues_okD(1) [OF ok that]] .
  with a sim_head [OF a] queues_okD(3,4) [OF ok] show ?thesis unfolding apart_def by (auto simp: sim_def)
qed

section \<open>The operations keep the invariant\<close>

definition members :: "queue set \<Rightarrow> sched \<Rightarrow> nat set" where
  "members Q c = set (running c) \<union> (\<Union>q\<in>Q. set (waiting c q))"

lemma listed_members: "listed Q s = members Q (core s)"
  by (simp add: listed_def members_def)

lemma apartE:
  assumes "apart Q c"
  obtains t rest where "running c = t # rest" "t \<notin> set rest" "distinct rest" "\<And>q. q \<in> Q \<Longrightarrow> t \<notin> set (waiting c q)"
    "\<And>q i. q \<in> Q \<Longrightarrow> i \<in> set rest \<Longrightarrow> i \<notin> set (waiting c q)"
proof -
  from assms obtain t rest where "running c = t # rest" by (auto simp: apart_def neq_Nil_conv)
  then show thesis using assms by (intro that [of t rest]) (auto simp: apart_def)
qed

lemma members_pass: "apart Q c \<Longrightarrow> members Q (spec_putToken c) = members Q c"
  by (auto elim!: apartE simp: members_def spec_putToken_def)

lemma members_leave: "apart Q c \<Longrightarrow> members Q (spec_leave c) = members Q c - {hd (running c)}"
  by (auto elim!: apartE simp: members_def spec_leave_def)

lemma members_insert: "running c \<noteq> [] \<Longrightarrow> members Q (spec_insert ws c) = set ws \<union> members Q c"
  by (cases "running c") (auto simp: members_def spec_insert_def)

lemma members_wait: "apart Q c \<Longrightarrow> q \<in> Q \<Longrightarrow> members Q (spec_wait q c) = members Q c"
  by (auto elim!: apartE simp: members_def spec_wait_def spec_leave_def split: if_splits)

lemma members_queue: "q \<in> Q \<Longrightarrow> members Q (c\<lparr>waiting := (waiting c)(q := ws)\<rparr>) = set (running c) \<union> set ws \<union> (\<Union>p\<in>Q - {q}. set (waiting c p))"
  by (auto simp: members_def split: if_splits)

lemma members_split: "q \<in> Q \<Longrightarrow> members Q c = set (running c) \<union> set (waiting c q) \<union> (\<Union>p\<in>Q - {q}. set (waiting c p))"
  by (auto simp: members_def)

lemma members_signal: "apart Q c \<Longrightarrow> Cond v \<in> Q \<Longrightarrow> members Q (spec_signal v c) = members Q c"
  by (auto simp: spec_signal_def members_insert apart_def members_queue members_split [of "Cond v" Q c] split: list.split)

lemma members_wake_all: "apart Q c \<Longrightarrow> q \<in> Q \<Longrightarrow> members Q (spec_wake_all q c) = members Q c"
  by (auto simp: spec_wake_all_def members_insert apart_def members_queue members_split [of q Q c])

lemma members_register: "members Q (spec_register n c) = insert n (members Q c)"
proof -
  have "set (running c) = set (takeWhile P (running c)) \<union> set (dropWhile P (running c))" for P
    by (metis set_append takeWhile_dropWhile_id)
  then have "set (running (spec_register n c)) = insert n (set (running c))" by (auto simp: spec_register_def Let_def)
  then show ?thesis by (simp add: members_def spec_register_def Let_def)
qed

lemma members_barrier: "apart Q c \<Longrightarrow> Barrier b \<in> Q \<Longrightarrow> members Q (spec_barrier b n c) = members Q c"
proof -
  assume a: "apart Q c" "Barrier b \<in> Q"
  have "set (running (spec_putToken c')) = set (running c') \<and> waiting (spec_putToken c') = waiting c'" if "running c' \<noteq> []" for c'
    using that by (cases "running c'") (auto simp: spec_putToken_def)
  moreover have "running (spec_wake_all (Barrier b) c) \<noteq> []" by (simp add: spec_wake_all_def spec_insert_def)
  ultimately have "members Q (spec_putToken (spec_wake_all (Barrier b) c)) = members Q (spec_wake_all (Barrier b) c)"
    by (simp add: members_def)
  with members_wake_all [OF a] members_wait [OF a] show ?thesis by (simp add: spec_barrier_def)
qed

lemma members_exit:
  assumes a: "apart Q c" and j: "\<And>p. j = Some p \<Longrightarrow> p \<notin> members Q c"
  shows "members Q (spec_exit j c) = set_option j \<union> (members Q c - {hd (running c)})"
proof -
  obtain t rest where t: "running c = t # rest" "t \<notin> set rest" "\<And>q. q \<in> Q \<Longrightarrow> t \<notin> set (waiting c q)" using apartE [OF a] by metis
  then have "members Q c - {hd (running c)} = set rest \<union> (\<Union>q\<in>Q. set (waiting c q))" by (auto simp: members_def)
  then show ?thesis using t(1)
    by (cases j) (simp_all add: spec_exit_def members_def spec_leave_def spec_insert_def)
qed

lemma wf_sysD:
  assumes "wf_sys Q s"
  shows "i \<in> listed Q s \<Longrightarrow> i < MAX_THREADS" "i \<in> listed Q s \<Longrightarrow> i \<notin> exited s"
    and "i \<in> asleep s \<Longrightarrow> i < MAX_THREADS \<and> i \<notin> listed Q s \<and> i \<notin> exited s \<and> i \<notin> dom (joins s)"
    and "p \<in> dom (joins s) \<Longrightarrow> p < MAX_THREADS \<and> p \<notin> exited s" "p \<in> dom (joins s) \<Longrightarrow> p \<in> listed Q s \<Longrightarrow> p \<in> woken s"
    and "p \<in> woken s \<Longrightarrow> p \<in> set (running (core s))" "p \<in> woken s \<Longrightarrow> p \<in> dom (joins s)" "p \<in> woken s \<Longrightarrow> the (joins s p) \<in> exited s"
    and "Barrier b \<in> Q \<Longrightarrow> length (waiting (core s) (Barrier b)) < parties s b" "Barrier b \<in> Q \<Longrightarrow> parties s b < 2 ^ 31"
    and "uncounted (core s) = spawned s + card (woken s)" "alive s \<le> MAX_THREADS"
proof -
  note w = assms [unfolded wf_sys_def]
  show "i \<in> listed Q s \<Longrightarrow> i < MAX_THREADS" "i \<in> listed Q s \<Longrightarrow> i \<notin> exited s" using w by simp_all
  have "asleep s \<inter> (listed Q s \<union> exited s \<union> dom (joins s)) = {} \<and> (\<forall>i\<in>asleep s. i < MAX_THREADS)" using w by simp
  then show "i \<in> asleep s \<Longrightarrow> i < MAX_THREADS \<and> i \<notin> listed Q s \<and> i \<notin> exited s \<and> i \<notin> dom (joins s)" by blast
  have d: "\<forall>p\<in>dom (joins s). p < MAX_THREADS \<and> p \<notin> exited s \<and> (p \<in> listed Q s \<longrightarrow> p \<in> woken s)" using w by simp
  show "p \<in> dom (joins s) \<Longrightarrow> p < MAX_THREADS \<and> p \<notin> exited s" using bspec [OF d, of p] by simp
  show "p \<in> dom (joins s) \<Longrightarrow> p \<in> listed Q s \<Longrightarrow> p \<in> woken s" using bspec [OF d, of p] by simp
  have k: "\<forall>p\<in>woken s. p \<in> set (running (core s)) \<and> p \<in> dom (joins s) \<and> the (joins s p) \<in> exited s" using w by simp
  show "p \<in> woken s \<Longrightarrow> p \<in> set (running (core s))" "p \<in> woken s \<Longrightarrow> p \<in> dom (joins s)" "p \<in> woken s \<Longrightarrow> the (joins s p) \<in> exited s"
    using bspec [OF k, of p] by simp_all
qed (use assms in \<open>simp_all add: wf_sys_def\<close>)

lemma actor_member: "apart Q (core s) \<Longrightarrow> actor s \<in> set (running (core s))"
  by (auto simp: actor_def apart_def)

lemma running_listed: "i \<in> set (running (core s)) \<Longrightarrow> i \<in> listed Q s"
  by (simp add: listed_def)

lemma finite_woken: "wf_sys Q s \<Longrightarrow> finite (woken s)"
  by (rule finite_subset [of _ "set (running (core s))"]) (auto dest: wf_sysD(6))

text \<open>An operation that only moves threads from list to list.\<close>

lemma wf_sysI:
  assumes "\<And>i. i \<in> listed Q s \<Longrightarrow> i < MAX_THREADS \<and> i \<notin> exited s"
    and "\<And>i. i \<in> asleep s \<Longrightarrow> i < MAX_THREADS \<and> i \<notin> listed Q s \<and> i \<notin> exited s \<and> i \<notin> dom (joins s)"
    and "\<And>p. p \<in> dom (joins s) \<Longrightarrow> p < MAX_THREADS \<and> p \<notin> exited s \<and> (p \<in> listed Q s \<longrightarrow> p \<in> woken s)"
    and "\<And>p. p \<in> woken s \<Longrightarrow> p \<in> set (running (core s)) \<and> p \<in> dom (joins s) \<and> the (joins s p) \<in> exited s"
    and "\<And>b. Barrier b \<in> Q \<Longrightarrow> length (waiting (core s) (Barrier b)) < parties s b \<and> parties s b < 2 ^ 31"
    and "uncounted (core s) = spawned s + card (woken s)" "alive s \<le> MAX_THREADS"
  shows "wf_sys Q s"
proof -
  have "asleep s \<inter> (listed Q s \<union> exited s \<union> dom (joins s)) = {} \<and> (\<forall>i\<in>asleep s. i < MAX_THREADS)" using assms(2) by blast
  with assms(1,3-) show ?thesis unfolding wf_sys_def by simp
qed

lemma wf_moves:
  assumes w: "wf_sys Q s" and m: "members Q c = members Q (core s)" and u: "uncounted c = uncounted (core s)"
    and k: "\<And>i. i \<in> woken s \<Longrightarrow> i \<in> set (running c)"
    and b: "\<And>b. Barrier b \<in> Q \<Longrightarrow> length (waiting c (Barrier b)) < parties s b"
  shows "wf_sys Q (s\<lparr>core := c\<rparr>)"
proof -
  have l: "listed Q (s\<lparr>core := c\<rparr>) = listed Q s" using m by (simp add: listed_members)
  show ?thesis by (rule wf_sysI; use wf_sysD [OF w] k b u in \<open>simp add: l\<close>)
qed

lemma actor_woken:
  assumes "wf_sys Q s" and "apart Q (core s)" and "actor s \<notin> woken s"
  shows "actor s \<notin> dom (joins s)"
  using wf_sysD(5) [OF assms(1), of "actor s"] assms(3) actor_member [OF assms(2)] running_listed by blast

lemma wf_pass:
  assumes w: "wf_sys Q s" and a: "apart Q (core s)"
  shows "wf_sys Q (spec_op OpPass s)"
  unfolding spec_op.simps
proof (rule wf_moves [OF w members_pass [OF a]])
  fix i assume "i \<in> woken s"
  from wf_sysD(6) [OF w this] a show "i \<in> set (running (spec_putToken (core s)))"
    by (cases "running (core s)") (auto simp: spec_putToken_def)
qed (use wf_sysD(9) [OF w] in \<open>simp_all add: spec_putToken_def\<close>)

lemma wf_wait:
  assumes w: "wf_sys Q s" and a: "apart Q (core s)" and q: "q \<in> Q" and k: "actor s \<notin> woken s"
    and b: "\<And>b. q = Barrier b \<Longrightarrow> Suc (length (waiting (core s) q)) < parties s b"
  shows "wf_sys Q (s\<lparr>core := spec_wait q (core s)\<rparr>)"
proof (rule wf_moves [OF w members_wait [OF a q]])
  fix i assume i: "i \<in> woken s"
  with k have "i \<noteq> actor s" by blast
  with wf_sysD(6) [OF w i] show "i \<in> set (running (spec_wait q (core s)))"
    by (cases "running (core s)") (auto simp: spec_wait_def spec_leave_def actor_def)
qed (use wf_sysD(9) [OF w] b in \<open>auto simp: spec_wait_def spec_leave_def\<close>)

lemma wf_wakes:
  assumes w: "wf_sys Q s" and a: "apart Q (core s)" and c: "Cond c \<in> Q"
  shows "wf_sys Q (spec_op (OpSignal c) s)" "wf_sys Q (spec_op (OpBroadcast c) s)"
  unfolding spec_op.simps
proof -
  have r: "set (running (core s)) \<subseteq> set (running (spec_insert ws c'))" if "running c' = running (core s)" for ws c'
    using that a by (cases "running (core s)") (auto simp: spec_insert_def apart_def)
  show "wf_sys Q (s\<lparr>core := spec_signal c (core s)\<rparr>)"
  proof (rule wf_moves [OF w members_signal [OF a c]])
    fix i assume "i \<in> woken s"
    from wf_sysD(6) [OF w this] show "i \<in> set (running (spec_signal c (core s)))"
      by (auto simp: spec_signal_def split: list.split intro: subsetD [OF r])
  qed (use wf_sysD(9) [OF w] in \<open>auto simp: spec_signal_def spec_insert_def split: list.split\<close>)
  show "wf_sys Q (s\<lparr>core := spec_wake_all (Cond c) (core s)\<rparr>)"
  proof (rule wf_moves [OF w members_wake_all [OF a c]])
    fix i assume "i \<in> woken s"
    from wf_sysD(6) [OF w this] show "i \<in> set (running (spec_wake_all (Cond c) (core s)))"
      by (auto simp: spec_wake_all_def intro: subsetD [OF r])
  qed (use wf_sysD(9) [OF w] in \<open>auto simp: spec_wake_all_def spec_insert_def\<close>)
qed

lemma wf_arrive:
  assumes w: "wf_sys Q s" and a: "apart Q (core s)" and e: "enabled Q (OpArrive b) s"
  shows "wf_sys Q (spec_op (OpArrive b) s)"
proof (cases "Suc (length (waiting (core s) (Barrier b))) = parties s b")
  case False
  then show ?thesis
    using wf_wait [OF w a, of "Barrier b"] e wf_sysD(9) [OF w, of b] by (simp add: spec_barrier_def)
next
  case True
  have b: "Barrier b \<in> Q" using e by simp
  show ?thesis unfolding spec_op.simps
  proof (rule wf_moves [OF w members_barrier [OF a b]])
    fix i assume "i \<in> woken s"
    from wf_sysD(6) [OF w this] a True show "i \<in> set (running (spec_barrier b (parties s b) (core s)))"
      by (cases "running (core s)") (auto simp: spec_barrier_def spec_putToken_def spec_wake_all_def spec_insert_def)
  qed (use wf_sysD(9) [OF w] True in \<open>auto simp: spec_barrier_def spec_putToken_def spec_wake_all_def spec_insert_def\<close>)
qed

lemma running_leave: "apart Q (core s) \<Longrightarrow> i \<in> set (running (core s)) \<Longrightarrow> i \<noteq> actor s \<Longrightarrow> i \<in> set (running (spec_leave (core s)))"
  by (cases "running (core s)") (auto simp: spec_leave_def actor_def)

lemma actor_not_leave: "apart Q (core s) \<Longrightarrow> actor s \<notin> members Q (spec_leave (core s))"
  by (simp add: members_leave actor_def)

lemma wf_join:
  assumes w: "wf_sys Q s" and a: "apart Q (core s)" and e: "enabled Q (OpJoin g wakeup) s"
  shows "wf_sys Q (spec_op (OpJoin g wakeup) s)"
proof (cases "g \<in> exited s")
  case False
  note ac = running_listed [OF actor_member [OF a]]
  have l: "listed Q (s\<lparr>core := spec_leave (core s), joins := (joins s)(actor s \<mapsto> g)\<rparr>) = listed Q s - {actor s}"
    using members_leave [OF a] by (simp add: listed_members actor_def)
  have "wf_sys Q (s\<lparr>core := spec_leave (core s), joins := (joins s)(actor s \<mapsto> g)\<rparr>)"
  proof (rule wf_sysI, unfold l)
    fix p assume p: "p \<in> woken (s\<lparr>core := spec_leave (core s), joins := (joins s)(actor s \<mapsto> g)\<rparr>)"
    then have "p \<noteq> actor s" using e by auto
    with wf_sysD(6-8) [OF w, of p] p running_leave [OF a, of p]
    show "p \<in> set (running (core (s\<lparr>core := spec_leave (core s), joins := (joins s)(actor s \<mapsto> g)\<rparr>)))
      \<and> p \<in> dom (joins (s\<lparr>core := spec_leave (core s), joins := (joins s)(actor s \<mapsto> g)\<rparr>))
      \<and> the (joins (s\<lparr>core := spec_leave (core s), joins := (joins s)(actor s \<mapsto> g)\<rparr>) p)
         \<in> exited (s\<lparr>core := spec_leave (core s), joins := (joins s)(actor s \<mapsto> g)\<rparr>)" by auto
  next
    fix p assume p: "p \<in> dom (joins (s\<lparr>core := spec_leave (core s), joins := (joins s)(actor s \<mapsto> g)\<rparr>))"
    show "p < MAX_THREADS \<and> p \<notin> exited (s\<lparr>core := spec_leave (core s), joins := (joins s)(actor s \<mapsto> g)\<rparr>)
      \<and> (p \<in> listed Q s - {actor s} \<longrightarrow> p \<in> woken (s\<lparr>core := spec_leave (core s), joins := (joins s)(actor s \<mapsto> g)\<rparr>))"
      using wf_sysD(1,2) [OF w ac] wf_sysD(4,5) [OF w, of p] p by (cases "p = actor s") auto
  next
    fix i assume "i \<in> asleep (s\<lparr>core := spec_leave (core s), joins := (joins s)(actor s \<mapsto> g)\<rparr>)"
    then have i: "i \<in> asleep s" by simp
    from wf_sysD(3) [OF w i] ac show "i < MAX_THREADS \<and> i \<notin> listed Q s - {actor s}
      \<and> i \<notin> exited (s\<lparr>core := spec_leave (core s), joins := (joins s)(actor s \<mapsto> g)\<rparr>)
      \<and> i \<notin> dom (joins (s\<lparr>core := spec_leave (core s), joins := (joins s)(actor s \<mapsto> g)\<rparr>))" by auto
  qed (use wf_sysD(1,2,9-12) [OF w] in \<open>auto simp: spec_leave_def\<close>)
  then show ?thesis using False by simp
qed (use w in simp)

lemma wf_sig_leave:
  assumes w: "wf_sys Q s" and a: "apart Q (core s)" and e: "enabled Q OpSigLeave s"
  shows "wf_sys Q (spec_op OpSigLeave s)"
proof -
  let ?s = "s\<lparr>core := spec_leave (core s), asleep := insert (actor s) (asleep s)\<rparr>"
  note ac = running_listed [OF actor_member [OF a]]
  have l: "listed Q ?s = listed Q s - {actor s}"
    using members_leave [OF a] by (simp add: listed_members actor_def)
  have "wf_sys Q ?s"
  proof (rule wf_sysI, unfold l)
    fix p assume p: "p \<in> woken ?s"
    then have "p \<noteq> actor s" using e by auto
    with wf_sysD(6-8) [OF w, of p] p running_leave [OF a, of p]
    show "p \<in> set (running (core ?s)) \<and> p \<in> dom (joins ?s) \<and> the (joins ?s p) \<in> exited ?s" by auto
  next
    fix i assume "i \<in> asleep ?s"
    then show "i < MAX_THREADS \<and> i \<notin> listed Q s - {actor s} \<and> i \<notin> exited ?s \<and> i \<notin> dom (joins ?s)"
      using wf_sysD(1,2) [OF w ac] actor_woken [OF w a] e wf_sysD(3) [OF w, of i] by auto
  next
    fix p assume "p \<in> dom (joins ?s)"
    then show "p < MAX_THREADS \<and> p \<notin> exited ?s \<and> (p \<in> listed Q s - {actor s} \<longrightarrow> p \<in> woken ?s)"
      using wf_sysD(4,5) [OF w, of p] by auto
  qed (use wf_sysD(1,2,9-12) [OF w] in \<open>auto simp: spec_leave_def\<close>)
  then show ?thesis by simp
qed

lemma insert_running: "i \<in> set (running c) \<Longrightarrow> i \<in> set (running (spec_insert ws c))"
  by (cases "running c") (auto simp: spec_insert_def)

lemma wf_sig_return:
  assumes w: "wf_sys Q s" and a: "apart Q (core s)" and e: "enabled Q (OpSigReturn i) s"
  shows "wf_sys Q (spec_op (OpSigReturn i) s)"
proof -
  let ?s = "s\<lparr>core := spec_insert [i] (core s), asleep := asleep s - {i}\<rparr>"
  have l: "listed Q ?s = insert i (listed Q s)" using a by (simp add: listed_members members_insert apart_def)
  have "wf_sys Q ?s"
  proof (rule wf_sysI, unfold l)
    fix p assume p: "p \<in> woken ?s"
    with wf_sysD(6-8) [OF w, of p] insert_running
    show "p \<in> set (running (core ?s)) \<and> p \<in> dom (joins ?s) \<and> the (joins ?s p) \<in> exited ?s" by auto
  next
    fix j assume "j \<in> insert i (listed Q s)"
    then show "j < MAX_THREADS \<and> j \<notin> exited ?s" using wf_sysD(1-3) [OF w] e by auto
  next
    fix j assume "j \<in> asleep ?s"
    then show "j < MAX_THREADS \<and> j \<notin> insert i (listed Q s) \<and> j \<notin> exited ?s \<and> j \<notin> dom (joins ?s)"
      using wf_sysD(3) [OF w, of j] by auto
  next
    fix p assume "p \<in> dom (joins ?s)"
    then show "p < MAX_THREADS \<and> p \<notin> exited ?s \<and> (p \<in> insert i (listed Q s) \<longrightarrow> p \<in> woken ?s)"
      using wf_sysD(4,5) [OF w, of p] wf_sysD(3) [OF w, of i] e by auto
  qed (use wf_sysD(9-12) [OF w] in \<open>auto simp: spec_insert_def\<close>)
  then show ?thesis by simp
qed

lemma wf_joined:
  assumes w: "wf_sys Q s" and i: "i \<in> woken s"
  shows "wf_sys Q (spec_op (OpJoined i) s)" "uncounted (core s) \<noteq> 0"
proof -
  have c: "Suc (card (woken s - {i})) = card (woken s)" by (rule card_Suc_Diff1 [OF finite_woken [OF w] i])
  then show "uncounted (core s) \<noteq> 0" using wf_sysD(11) [OF w] by simp
  let ?s = "s\<lparr>core := (core s)\<lparr>uncounted := uncounted (core s) - 1\<rparr>, joins := (joins s)(i := None), woken := woken s - {i}\<rparr>"
  have l: "listed Q ?s = listed Q s" by (simp add: listed_def)
  have "wf_sys Q ?s"
  proof (rule wf_sysI, unfold l)
    fix p assume p: "p \<in> dom (joins ?s)"
    then show "p < MAX_THREADS \<and> p \<notin> exited ?s \<and> (p \<in> listed Q s \<longrightarrow> p \<in> woken ?s)"
      using wf_sysD(4,5) [OF w, of p] by (auto split: if_splits)
  next
    fix p assume p: "p \<in> woken ?s"
    then have k: "p \<in> woken s" "p \<noteq> i" by auto
    show "p \<in> set (running (core ?s)) \<and> p \<in> dom (joins ?s) \<and> the (joins ?s p) \<in> exited ?s"
      using wf_sysD(6-8) [OF w k(1)] k(2) by simp
  next
    fix j assume "j \<in> asleep ?s"
    then show "j < MAX_THREADS \<and> j \<notin> listed Q s \<and> j \<notin> exited ?s \<and> j \<notin> dom (joins ?s)"
      using wf_sysD(3) [OF w, of j] by simp
  next
    show "uncounted (core ?s) = spawned ?s + card (woken ?s)" using c wf_sysD(11) [OF w] by simp
  qed (use wf_sysD(1,2,9,10,12) [OF w] in auto)
  then show "wf_sys Q (spec_op (OpJoined i) s)" by simp
qed

lemma wf_start:
  assumes w: "wf_sys Q s" and e: "enabled Q (OpStart n) s"
  shows "wf_sys Q (spec_op (OpStart n) s)"
proof -
  let ?s = "spec_op (OpStart n) s"
  have l: "listed Q ?s = listed Q s" by (simp add: listed_def)
  show ?thesis
  proof (rule wf_sysI, unfold l)
    fix p assume p: "p \<in> woken ?s"
    then show "p \<in> set (running (core ?s)) \<and> p \<in> dom (joins ?s) \<and> the (joins ?s p) \<in> exited ?s"
      using wf_sysD(6-8) [OF w, of p] by simp
  next
    fix p assume "p \<in> dom (joins ?s)"
    then show "p < MAX_THREADS \<and> p \<notin> exited ?s \<and> (p \<in> listed Q s \<longrightarrow> p \<in> woken ?s)" using wf_sysD(4,5) [OF w, of p] by simp
  next
    fix i assume "i \<in> asleep ?s"
    then show "i < MAX_THREADS \<and> i \<notin> listed Q s \<and> i \<notin> exited ?s \<and> i \<notin> dom (joins ?s)" using wf_sysD(3) [OF w, of i] by simp
  qed (use wf_sysD(1,2,9-12) [OF w] e in simp_all)
qed

lemma wf_register:
  assumes w: "wf_sys Q s" and e: "enabled Q (OpRegister n pid q) s"
  shows "wf_sys Q (spec_op (OpRegister n pid q) s)"
proof -
  let ?s = "spec_op (OpRegister n pid q) s"
  have n: "n < MAX_THREADS" "n \<notin> listed Q s" "n \<notin> asleep s" "n \<notin> dom (joins s)" "n \<notin> ran (joins s)" using e by (auto simp: known_def)
  have l: "listed Q ?s = insert n (listed Q s)" by (simp add: listed_members members_register)
  show ?thesis
  proof (rule wf_sysI, unfold l)
    fix j assume "j \<in> insert n (listed Q s)"
    then show "j < MAX_THREADS \<and> j \<notin> exited ?s" using n wf_sysD(1,2) [OF w, of j] by auto
  next
    fix j assume "j \<in> asleep ?s"
    then show "j < MAX_THREADS \<and> j \<notin> insert n (listed Q s) \<and> j \<notin> exited ?s \<and> j \<notin> dom (joins ?s)"
      using wf_sysD(3) [OF w, of j] n by auto
  next
    fix p assume p: "p \<in> dom (joins ?s)"
    then show "p < MAX_THREADS \<and> p \<notin> exited ?s \<and> (p \<in> insert n (listed Q s) \<longrightarrow> p \<in> woken ?s)"
      using wf_sysD(4,5) [OF w, of p] n by auto
  next
    fix p assume "p \<in> woken ?s"
    then have p: "p \<in> woken s" by simp
    have "p \<in> set (running (spec_register n (core s)))"
      using wf_sysD(6) [OF w p] by (auto simp: spec_register_def Let_def) (metis UnE set_append takeWhile_dropWhile_id)+
    moreover have "the (joins s p) \<noteq> n" using wf_sysD(7) [OF w p] n(5) by (auto simp: ran_def)
    ultimately show "p \<in> set (running (core ?s)) \<and> p \<in> dom (joins ?s) \<and> the (joins ?s p) \<in> exited ?s"
      using wf_sysD(7,8) [OF w p] by simp
  qed (use wf_sysD(9-12) [OF w] in \<open>simp_all add: spec_register_simps\<close>)
qed

lemma wf_exit:
  assumes w: "wf_sys Q s" and a: "apart Q (core s)" and e: "enabled Q OpExit s"
  shows "wf_sys Q (spec_op OpExit s)" "\<And>p. parent_joins s = Some p \<Longrightarrow> p \<notin> listed Q s"
proof -
  let ?s = "spec_op OpExit s" and ?t = "actor s"
  note ac = running_listed [OF actor_member [OF a]]
  have nt: "?t \<notin> exited s" using wf_sysD(2) [OF w ac] .
  have j: "joins s p = Some ?t" if "parent_joins s = Some p" for p using that by (auto simp: parent_joins_def Let_def split: if_splits)
  show out: "p \<notin> listed Q s" if "parent_joins s = Some p" for p
  proof
    assume "p \<in> listed Q s"
    from wf_sysD(8) [OF w wf_sysD(5) [OF w domI [where m = "joins s", OF j [OF that]] this]] j [OF that] nt show False by simp
  qed
  have nk: "p \<notin> woken s" if "parent_joins s = Some p" for p using wf_sysD(8) [OF w, of p] j [OF that] nt by auto
  have l: "listed Q ?s = set_option (parent_joins s) \<union> (listed Q s - {?t})"
    using members_exit [OF a, of "parent_joins s"] out by (simp add: listed_members actor_def)
  have nd: "?t \<notin> dom (joins s)" using actor_woken [OF w a] e by simp
  show "wf_sys Q ?s"
  proof (rule wf_sysI, unfold l)
    fix i assume "i \<in> set_option (parent_joins s) \<union> (listed Q s - {?t})"
    then show "i < MAX_THREADS \<and> i \<notin> exited ?s"
      using wf_sysD(1,2) [OF w, of i] wf_sysD(4) [OF w, of i] j [of i] nd by (auto simp: domIff)
  next
    fix i assume "i \<in> asleep ?s"
    then show "i < MAX_THREADS \<and> i \<notin> set_option (parent_joins s) \<union> (listed Q s - {?t}) \<and> i \<notin> exited ?s \<and> i \<notin> dom (joins ?s)"
      using wf_sysD(3) [OF w, of i] j [of i] ac by (auto simp: domIff)
  next
    fix p assume "p \<in> dom (joins ?s)"
    then show "p < MAX_THREADS \<and> p \<notin> exited ?s \<and> (p \<in> set_option (parent_joins s) \<union> (listed Q s - {?t}) \<longrightarrow> p \<in> woken ?s)"
      using wf_sysD(4,5) [OF w, of p] nd by auto
  next
    fix p assume p: "p \<in> woken ?s"
    show "p \<in> set (running (core ?s)) \<and> p \<in> dom (joins ?s) \<and> the (joins ?s p) \<in> exited ?s"
    proof (cases "parent_joins s = Some p")
      case True
      then show ?thesis using j [OF True] by (simp add: spec_exit_def spec_leave_def spec_insert_def domI)
    next
      case False
      with p have k: "p \<in> woken s" by simp
      then have "p \<noteq> ?t" using e by auto
      then show ?thesis using wf_sysD(6-8) [OF w k] running_leave [OF a, of p]
        by (cases "parent_joins s") (auto simp: spec_exit_def spec_leave_def spec_insert_def)
    qed
  next
    show "uncounted (core ?s) = spawned ?s + card (woken ?s)"
      using wf_sysD(11) [OF w] finite_woken [OF w] nk
      by (cases "parent_joins s") (simp_all add: spec_exit_def spec_leave_def)
  qed (use wf_sysD(9,10,12) [OF w] in \<open>auto simp: spec_exit_def spec_leave_def spec_insert_def split: option.split\<close>)
qed

theorem wf_spec_op:
  assumes "wf_sys Q s" and "apart Q (core s)" and "enabled Q x s"
  shows "wf_sys Q (spec_op x s)"
proof (cases x)
  case (OpWait c)
  with assms show ?thesis using wf_wait [OF assms(1,2), of "Cond c"] by simp
next
  case (OpSignal c)
  with assms show ?thesis using wf_wakes(1) by (simp only: enabled.simps)
next
  case (OpBroadcast c)
  with assms show ?thesis using wf_wakes(2) by (simp only: enabled.simps)
next
  case (OpJoined i)
  with assms show ?thesis using wf_joined(1) by (simp only: enabled.simps)
next
  case OpPass
  with assms show ?thesis using wf_pass by (simp only:)
next
  case (OpArrive b)
  with assms show ?thesis using wf_arrive by (simp only:)
next
  case OpExit
  with assms show ?thesis using wf_exit(1) by (simp only:)
next
  case (OpRegister n pid q)
  with assms show ?thesis using wf_register by (simp only:)
next
  case (OpStart n)
  with assms show ?thesis using wf_start by (simp only:)
next
  case (OpJoin g wk)
  with assms show ?thesis using wf_join by (simp only:)
next
  case OpSigLeave
  with assms show ?thesis using wf_sig_leave by (simp only:)
next
  case (OpSigReturn i)
  with assms show ?thesis using wf_sig_return by (simp only:)
qed

end
