(* ===== verification/SchedRun.thy ===== *)
theory SchedRun
  imports SamplesSync SchedSys
begin

text \<open>
  Sequences of synchronisation operations: each enabled operation of the layer succeeds and keeps the relation to the scheduler of \<open>SchedSys\<close>, and so
  does each sequence of them. Hence the order in which threads get the token depends on the operations only.
\<close>

section \<open>The operations keep the records\<close>

definition keeps :: "nat set \<Rightarrow> determ \<Rightarrow> determ \<Rightarrow> bool" where
  "keeps A d d' \<longleftrightarrow>
     (\<forall>i. te_tid_parent (entries d' i) = te_tid_parent (entries d i) \<and> te_joinee (entries d' i) = te_joinee (entries d i)
        \<and> te_threadindex (entries d' i) = te_threadindex (entries d i) \<and> (i \<notin> A \<longrightarrow> te_status (entries d' i) = te_status (entries d i)))
     \<and> (\<forall>b. be_maxthreads (barrier_tab d' b) = be_maxthreads (barrier_tab d b)) \<and> alivethreads d' = alivethreads d"

lemma of_null_Inr: "of_null r = Inr y \<longleftrightarrow> r = Some y"
  by (cases r) auto

lemma deref_Inr: "deref p = Inr a \<longleftrightarrow> p = Some a"
  by (cases p) auto

lemmas inverts = res_bind_Inr of_null_Inr deref_Inr

lemma keeps_unlink: "unlink t d = Inr d' \<Longrightarrow> entries d' = entries d \<and> barrier_tab d' = barrier_tab d \<and> alivethreads d' = alivethreads d"
  by (auto simp: unlink_def inverts)

lemma keeps_cond_enqueue: "cond_enqueue t c d = Inr d' \<Longrightarrow> keeps {t} d d'"
  by (auto simp: cond_enqueue_def Let_def inverts keeps_def on_entry_def on_cond_def dest!: keeps_unlink)

lemma keeps_cond_dequeue:
  "cond_dequeue c d = Inr d' \<Longrightarrow> ce_head (cond_tab d c) = Some w \<Longrightarrow> keeps {w} d d'"
  by (auto simp: cond_dequeue_def Let_def inverts keeps_def on_entry_def on_cond_def incrFence_def removeHeadEntry_def split: option.splits)

lemma keeps_sig_wait:
  "sig_wait_leave t d = Inr d' \<Longrightarrow> keeps {} d d'" "sig_wait_return t d = Inr d' \<Longrightarrow> keeps {} d d'"
  by (auto simp: sig_wait_leave_def sig_wait_return_def Let_def inverts keeps_def incrFence_def split: if_splits dest!: keeps_unlink)

lemma keeps_putToken: "putToken t d = Inr d' \<Longrightarrow> keeps {} d d'"
  by (auto simp: putToken_def Let_def inverts keeps_def split: if_splits)

lemma keeps_barrier_arrive:
  "barrier_arrive t b d = Inr (l, d') \<Longrightarrow> keeps {t} d d' \<and> (l \<longrightarrow> keeps {} d d') \<and> (\<not> l \<longrightarrow> te_status (entries d' t) = STATUS_BARR_WAITING)"
  by (auto simp: barrier_arrive_def Let_def inverts keeps_def on_entry_def on_barrier_def incrFence_def split: if_splits dest!: keeps_unlink)

lemma keeps_cond_wake_all:
  assumes "cond_wake_all c d = Inr d'" and "linked (nodes d) ws" "distinct ws" "ws \<noteq> []" "length ws < 2 ^ 31"
    and "ce_head (cond_tab d c) = Some (hd ws)" "ce_waiters (cond_tab d c) = of_nat (length ws)"
  shows "keeps (set ws) d d'"
  using assms(1) through_int(2) [OF assms(5)] ready_loop_linked [OF assms(2-4)] assms(6,7)
  by (auto simp: cond_wake_all_def Let_def inverts keeps_def on_cond_def incrFence_def)

lemma records_keeps:
  assumes r: "records Q d s" and k: "keeps A d d'"
    and A: "\<And>i. i \<in> A \<Longrightarrow> joins s i = None \<and> i \<notin> exited s \<and> te_status (entries d' i) \<noteq> STATUS_JOINING \<and> te_status (entries d' i) \<noteq> STATUS_EXIT"
    and same: "parent_of s' = parent_of s" "joins s' = joins s" "exited s' = exited s" "parties s' = parties s" "alive s' = alive s"
    and known: "known Q s' \<subseteq> known Q s"
  shows "records Q d' s'"
proof -
  have e: "te_tid_parent (entries d' i) = te_tid_parent (entries d i)" "te_joinee (entries d' i) = te_joinee (entries d i)"
    "te_threadindex (entries d' i) = te_threadindex (entries d i)" "i \<notin> A \<Longrightarrow> te_status (entries d' i) = te_status (entries d i)" for i
    using k unfolding keeps_def by blast+
  have m: "be_maxthreads (barrier_tab d' b) = be_maxthreads (barrier_tab d b)" "alivethreads d' = alivethreads d" for b
    using k unfolding keeps_def by blast+
  have j: "te_status (entries d i) = STATUS_JOINING \<and> te_joinee (entries d i) = g \<longleftrightarrow> joins s i = Some g"
    "te_status (entries d i) = STATUS_EXIT \<longleftrightarrow> i \<in> exited s" for i g using r by (auto simp: records_def)
  have j': "te_status (entries d' i) = STATUS_JOINING \<and> te_joinee (entries d' i) = g \<longleftrightarrow> joins s i = Some g"
    "te_status (entries d' i) = STATUS_EXIT \<longleftrightarrow> i \<in> exited s" for i g
    using A [of i] e(2,4) [of i] j [of i] by (cases "i \<in> A"; auto)+
  show ?thesis unfolding records_def same j' using r known by (auto simp: records_def e m)
qed

lemma keeps_deregister:
  "deregisterThread t d = Inr d' \<Longrightarrow> entries d' = (entries d)(t := (entries d t)\<lparr>te_status := STATUS_EXIT\<rparr>) \<and> barrier_tab d' = barrier_tab d"
  by (auto simp: deregisterThread_def Let_def inverts freeThreadEntry_def on_entry_def split: if_splits dest!: keeps_unlink)

lemma keeps_register:
  "registerThread n pid p d = Inr d' \<Longrightarrow>
     entries d' = (entries d)(n := (entries d n)\<lparr>te_tid := pid, te_threadindex := n, te_wait := 0, te_tid_parent := p, te_status := STATUS_READY\<rparr>)
     \<and> barrier_tab d' = barrier_tab d \<and> alivethreads d' = alivethreads d"
  by (auto simp: registerThread_def allocThreadEntry_def Let_def inverts on_entry_def split: if_splits)

lemma keeps_join:
  "join_start g t wakeup d = Inr (l, d') \<Longrightarrow>
     entries d' = (if l then (entries d)(t := (entries d t)\<lparr>te_status := STATUS_JOINING, te_joinee := g\<rparr>)
                   else (entries d)(t := (entries d t)\<lparr>te_status := STATUS_READY\<rparr>))
     \<and> barrier_tab d' = barrier_tab d \<and> alivethreads d' = alivethreads d \<and> (l \<longleftrightarrow> te_status (entries d g) \<noteq> STATUS_EXIT)"
  by (auto simp: join_start_def join_sleep_def notifyWaitingChildren_def Let_def inverts on_entry_def split: if_splits dest!: keeps_unlink)

lemma token_actor: "sim d (core s) Q \<Longrightarrow> tokenpos d = Some (actor s)"
  by (auto simp: actor_def elim!: simE)

lemma implementsD:
  assumes "implements d s Q"
  shows "sim d (core s) Q" "wf_sys Q s" "records Q d s" "apart Q (core s)" "tokenpos d = Some (actor s)"
  using assms sim_apart token_actor by (auto simp: implements_def)

lemma recordsD:
  assumes "records Q d s"
  shows "te_tid_parent (entries d i) = parent_of s i" "te_status (entries d i) = STATUS_JOINING \<and> te_joinee (entries d i) = g \<longleftrightarrow> joins s i = Some g"
    and "te_status (entries d i) = STATUS_EXIT \<longleftrightarrow> i \<in> exited s" "i \<in> known Q s \<Longrightarrow> te_threadindex (entries d i) = i"
    and "Barrier b \<in> Q \<Longrightarrow> be_maxthreads (barrier_tab d b) = of_nat (parties s b)" "unat (alivethreads d) = alive s"
  using assms unfolding records_def by blast+

text \<open>A thread in a list does not join anybody unless it has been woken, and has not exited.\<close>

lemma listed_free: "wf_sys Q s \<Longrightarrow> i \<in> listed Q s \<Longrightarrow> i \<notin> woken s \<Longrightarrow> joins s i = None \<and> i \<notin> exited s"
  using wf_sysD(2,5) by (metis domIff)

lemma waiting_free:
  assumes w: "wf_sys Q s" and a: "apart Q (core s)" and q: "q \<in> Q" "i \<in> set (waiting (core s) q)"
  shows "joins s i = None \<and> i \<notin> exited s"
proof (rule listed_free [OF w])
  show "i \<in> listed Q s" using q by (auto simp: listed_def)
  show "i \<notin> woken s" using a q wf_sysD(6) [OF w, of i] by (auto simp: apart_def)
qed

lemma known_core:
  "asleep s' = asleep s \<Longrightarrow> joins s' = joins s \<Longrightarrow> members Q (core s') \<subseteq> members Q (core s) \<Longrightarrow> known Q s' \<subseteq> known Q s"
  by (auto simp: known_def listed_members)

lemma length_waiting:
  assumes w: "wf_sys Q s" and a: "apart Q (core s)" and q: "q \<in> Q"
  shows "length (waiting (core s) q) \<le> MAX_THREADS"
proof -
  have "set (waiting (core s) q) \<subseteq> {..<MAX_THREADS}" using wf_sysD(1) [OF w] q by (auto simp: listed_def)
  then have "card (set (waiting (core s) q)) \<le> MAX_THREADS" using card_mono [of "{..<MAX_THREADS}"] by fastforce
  moreover have "distinct (waiting (core s) q)" using a q by (simp add: apart_def)
  ultimately show ?thesis by (simp add: distinct_card)
qed

lemma no_waiters:
  assumes i: "implements d s Q" and c: "Cond c \<in> Q"
  shows "ce_waiters (cond_tab d c) = of_nat (length (waiting (core s) (Cond c)))"
    and "ce_waiters (cond_tab d c) = 0 \<longleftrightarrow> waiting (core s) (Cond c) = []"
proof -
  note im = implementsD [OF i]
  have ok: "queues_ok d (waiting (core s)) Q (set (running (core s)))" using im(1) by (simp add: sim_def)
  show n: "ce_waiters (cond_tab d c) = of_nat (length (waiting (core s) (Cond c)))" using queues_okD(2) [OF ok c] by simp
  have "length (waiting (core s) (Cond c)) < 2 ^ 31" using length_waiting [OF im(2,4) c] by (simp add: MAX_THREADS_def)
  then have "(of_nat (length (waiting (core s) (Cond c))) = (of_nat 0 :: ulong)) = (length (waiting (core s) (Cond c)) = 0)"
    by (intro of_nat_eq_ulong) simp_all
  then show "ce_waiters (cond_tab d c) = 0 \<longleftrightarrow> waiting (core s) (Cond c) = []" by (simp add: n)
qed

section \<open>Every enabled operation succeeds\<close>

lemma implements_keeps:
  assumes i: "implements d s Q" and e: "enabled Q x s"
    and sim: "sim d' (core (spec_op x s)) Q" and k: "keeps A d d'"
    and A: "\<And>i. i \<in> A \<Longrightarrow> joins s i = None \<and> i \<notin> exited s \<and> te_status (entries d' i) \<noteq> STATUS_JOINING \<and> te_status (entries d' i) \<noteq> STATUS_EXIT"
    and same: "spec_op x s = s\<lparr>core := c\<rparr>" and m: "members Q c \<subseteq> members Q (core s)"
  shows "implements d' (spec_op x s) Q"
proof -
  note im = implementsD [OF i]
  have "known Q (s\<lparr>core := c\<rparr>) \<subseteq> known Q s" by (rule known_core) (use m in simp_all)
  then have "records Q d' (s\<lparr>core := c\<rparr>)" using records_keeps [OF im(3) k A] by simp
  then show ?thesis using sim wf_spec_op [OF im(2,4) e] by (simp add: implements_def same)
qed

lemma step_pass: "implements d s Q \<Longrightarrow> \<exists>d'. run_op OpPass d = Inr d' \<and> implements d' (spec_op OpPass s) Q"
proof -
  assume i: "implements d s Q"
  note im = implementsD [OF i]
  from putToken_sim [OF im(1)] obtain d' where d': "putToken (actor s) d = Inr d'" "sim d' (spec_putToken (core s)) Q" by blast
  have "implements d' (spec_op OpPass s) Q"
    by (rule implements_keeps [OF i _ _ keeps_putToken [OF d'(1)], where c = "spec_putToken (core s)"])
      (use d' members_pass [OF im(4)] in simp_all)
  then show ?thesis using d' im(5) by simp
qed

lemma step_wait:
  assumes i: "implements d s Q" and e: "enabled Q (OpWait c) s"
  shows "\<exists>d'. run_op (OpWait c) d = Inr d' \<and> implements d' (spec_op (OpWait c) s) Q"
proof -
  note im = implementsD [OF i]
  from cond_enqueue_sim [OF im(1), of c] e obtain d' where d': "cond_enqueue (actor s) c d = Inr d'" "sim d' (spec_wait (Cond c) (core s)) Q"
    "te_status (entries d' (actor s)) = STATUS_COND_WAITING" by (auto simp: others_def actor_def)
  have fr: "joins s (actor s) = None \<and> actor s \<notin> exited s"
    by (rule listed_free [OF im(2) running_listed [OF actor_member [OF im(4)]]]) (use e in simp)
  have "implements d' (spec_op (OpWait c) s) Q"
    by (rule implements_keeps [OF i e _ keeps_cond_enqueue [OF d'(1)], where c = "spec_wait (Cond c) (core s)"])
      (use d' fr e members_wait [OF im(4), of "Cond c"] in auto)
  then show ?thesis using d' im(5) by simp
qed

lemma step_signal:
  assumes i: "implements d s Q" and e: "enabled Q (OpSignal c) s"
  shows "\<exists>d'. run_op (OpSignal c) d = Inr d' \<and> implements d' (spec_op (OpSignal c) s) Q"
proof (cases "waiting (core s) (Cond c)")
  case Nil
  then show ?thesis using i e no_waiters(2) [OF i, of c] by (simp add: spec_signal_def)
next
  case (Cons w ws)
  note im = implementsD [OF i]
  have c: "Cond c \<in> Q" using e by simp
  from cond_dequeue_sim [OF im(1) c Cons] obtain d' where d': "cond_dequeue c d = Inr d'" "sim d' (spec_signal c (core s)) Q"
    "te_status (entries d' w) = STATUS_READY" by blast
  have ok: "queues_ok d (waiting (core s)) Q (set (running (core s)))" using im(1) by (simp add: sim_def)
  have h: "ce_head (cond_tab d c) = Some w" using queues_okD(1) [OF ok c] Cons by (simp add: ring_list_def)
  have fr: "joins s w = None \<and> w \<notin> exited s" by (rule waiting_free [OF im(2,4) c]) (simp add: Cons)
  have "implements d' (spec_op (OpSignal c) s) Q"
    by (rule implements_keeps [OF i e _ keeps_cond_dequeue [OF d'(1) h], where c = "spec_signal c (core s)"])
      (use d' fr members_signal [OF im(4) c] in auto)
  then show ?thesis using d' no_waiters(2) [OF i c] Cons by simp
qed

lemma step_broadcast:
  assumes i: "implements d s Q" and e: "enabled Q (OpBroadcast c) s"
  shows "\<exists>d'. run_op (OpBroadcast c) d = Inr d' \<and> implements d' (spec_op (OpBroadcast c) s) Q"
proof (cases "waiting (core s) (Cond c) = []")
  case True
  then have "spec_wake_all (Cond c) (core s) = core s"
    using implementsD(4) [OF i] by (simp add: spec_wake_all_def spec_insert_def apart_def fun_upd_idem)
  then show ?thesis using i e no_waiters(2) [OF i, of c] True by simp
next
  case False
  note im = implementsD [OF i]
  have c: "Cond c \<in> Q" using e by simp
  have len: "length (waiting (core s) (Cond c)) < 2 ^ 31" using length_waiting [OF im(2,4) c] by (simp add: MAX_THREADS_def)
  from cond_wake_all_sim [OF im(1) c False len] obtain d' where d': "cond_wake_all c d = Inr d'" "sim d' (spec_wake_all (Cond c) (core s)) Q"
    "\<forall>w\<in>set (waiting (core s) (Cond c)). te_status (entries d' w) = STATUS_READY" by blast
  have ok: "queues_ok d (waiting (core s)) Q (set (running (core s)))" using im(1) by (simp add: sim_def)
  have r: "ring (nodes d) (waiting (core s) (Cond c))" "ce_head (cond_tab d c) = Some (hd (waiting (core s) (Cond c)))"
    using queues_okD(1) [OF ok c] False by (auto simp: ring_list_def)
  have k: "keeps (set (waiting (core s) (Cond c))) d d'"
    by (rule keeps_cond_wake_all [OF d'(1) ring_linked [OF r(1)] ring_distinct [OF r(1)] False len r(2) no_waiters(1) [OF i c]])
  have "implements d' (spec_op (OpBroadcast c) s) Q"
    by (rule implements_keeps [OF i e _ k, where c = "spec_wake_all (Cond c) (core s)"])
      (use d' waiting_free [OF im(2,4) c] members_wake_all [OF im(4) c] in auto)
  then show ?thesis using d' no_waiters(2) [OF i c] False by simp
qed

lemma step_arrive:
  assumes i: "implements d s Q" and e: "enabled Q (OpArrive b) s"
  shows "\<exists>d'. run_op (OpArrive b) d = Inr d' \<and> implements d' (spec_op (OpArrive b) s) Q"
proof -
  note im = implementsD [OF i]
  let ?l = "Suc (length (waiting (core s) (Barrier b))) = parties s b"
  have b: "Barrier b \<in> Q" using e by simp
  from barrier_arrive_sim [OF im(1) b recordsD(5) [OF im(3) b]] wf_sysD(9,10) [OF im(2) b] e
  obtain d' where d': "barrier_arrive (actor s) b d = Inr (?l, d')" "sim d' (spec_barrier b (parties s b) (core s)) Q"
    by (auto simp: actor_def others_def)
  have fr: "joins s (actor s) = None \<and> actor s \<notin> exited s"
    by (rule listed_free [OF im(2) running_listed [OF actor_member [OF im(4)]]]) (use e in simp)
  have k: "keeps (if ?l then {} else {actor s}) d d'" "\<not> ?l \<Longrightarrow> te_status (entries d' (actor s)) = STATUS_BARR_WAITING"
    using keeps_barrier_arrive [OF d'(1)] by (auto simp del: length_0_conv split: if_splits)
  have "implements d' (spec_op (OpArrive b) s) Q"
    by (rule implements_keeps [OF i e _ k(1), where c = "spec_barrier b (parties s b) (core s)"])
      (use d' fr k(2) members_barrier [OF im(4) b] in \<open>auto split: if_splits\<close>)
  then show ?thesis using d' im(5) by simp
qed

lemma step_sig_leave:
  assumes i: "implements d s Q" and e: "enabled Q OpSigLeave s"
  shows "\<exists>d'. run_op OpSigLeave d = Inr d' \<and> implements d' (spec_op OpSigLeave s) Q"
proof -
  note im = implementsD [OF i]
  from sig_wait_leave_sim [OF im(1)] e obtain d' where d': "sig_wait_leave (actor s) d = Inr d'" "sim d' (spec_leave (core s)) Q"
    by (auto simp: actor_def others_def)
  have "known Q (spec_op OpSigLeave s) \<subseteq> known Q s"
    using members_leave [OF im(4)] actor_member [OF im(4)] by (auto simp: known_def listed_members members_def)
  then have "records Q d' (spec_op OpSigLeave s)" by (intro records_keeps [OF im(3) keeps_sig_wait(1) [OF d'(1)]]) simp_all
  then show ?thesis using d' im(5) wf_spec_op [OF im(2,4) e] by (simp add: implements_def)
qed

lemma step_sig_return:
  assumes i: "implements d s Q" and e: "enabled Q (OpSigReturn j) s"
  shows "\<exists>d'. run_op (OpSigReturn j) d = Inr d' \<and> implements d' (spec_op (OpSigReturn j) s) Q"
proof -
  note im = implementsD [OF i]
  have j: "j \<notin> listed Q s" using wf_sysD(3) [OF im(2)] e by simp
  from sig_wait_return_sim [OF im(1), of j] j obtain d' where d': "sig_wait_return j d = Inr d'" "sim d' (spec_insert [j] (core s)) Q"
    by (auto simp: listed_def)
  have "known Q (spec_op (OpSigReturn j) s) \<subseteq> known Q s"
    using members_insert [of "core s" Q "[j]"] im(4) e by (auto simp: known_def listed_members apart_def)
  then have "records Q d' (spec_op (OpSigReturn j) s)" by (intro records_keeps [OF im(3) keeps_sig_wait(2) [OF d'(1)]]) simp_all
  then show ?thesis using d' wf_spec_op [OF im(2,4) e] by (simp add: implements_def)
qed

lemma step_start:
  assumes i: "implements d s Q" and e: "enabled Q (OpStart n) s"
  shows "\<exists>d'. run_op (OpStart n) d = Inr d' \<and> implements d' (spec_op (OpStart n) s) Q"
proof -
  note im = implementsD [OF i]
  have "uncounted (core s) = n + (uncounted (core s) - n)" using wf_sysD(11) [OF im(2)] e by simp
  from startFence_sim [OF im(1) this] have sim: "sim (startFence n d) (core (spec_op (OpStart n) s)) Q" by simp
  have "unat (alivethreads d + word_of_nat n) = alive s + n"
  proof -
    have n: "unat (word_of_nat n :: ulong) = n" using e by (intro unat_of_nat_small) (simp add: MAX_THREADS_def)
    show ?thesis using e recordsD(6) [OF im(3)] by (subst unat_plus_simple [THEN iffD1]) (simp_all add: n no_olen_add_nat MAX_THREADS_def)
  qed
  then have "records Q (startFence n d) (spec_op (OpStart n) s)"
    using im(3) by (simp add: records_def startFence_def known_def listed_def)
  then show ?thesis using sim wf_spec_op [OF im(2,4) e] by (simp add: implements_def)
qed

lemma step_joined:
  assumes i: "implements d s Q" and e: "enabled Q (OpJoined j) s"
  shows "\<exists>d'. run_op (OpJoined j) d = Inr d' \<and> implements d' (spec_op (OpJoined j) s) Q"
proof -
  note im = implementsD [OF i]
  have k: "j \<in> woken s" using e by simp
  obtain g where g: "joins s j = Some g" "g \<in> exited s" using wf_sysD(7,8) [OF im(2) k] by auto
  have st: "te_joinee (entries d j) = g" "te_status (entries d g) = STATUS_EXIT"
    using recordsD(2) [OF im(3), of j g] recordsD(3) [OF im(3), of g] g by simp_all
  obtain u where u: "uncounted (core s) = Suc u" using wf_joined(2) [OF im(2) k] not0_implies_Suc by blast
  from join_wakeup_sim [OF im(1) st(2) u wf_sysD(6) [OF im(2) k]]
  obtain d' where d': "join_wakeup g j d = Inr (False, d')" "sim d' ((core s)\<lparr>uncounted := u\<rparr>) Q" by blast
  have fr: "entries d' = (entries d)(j := (entries d j)\<lparr>te_status := STATUS_READY\<rparr>)" "barrier_tab d' = barrier_tab d"
    "alivethreads d' = alivethreads d"
    using d'(1) st(2) by (auto simp: join_wakeup_def Let_def on_entry_def incrFence_def)
  have "known Q (spec_op (OpJoined j) s) \<subseteq> known Q s" by (auto simp: known_def listed_def split: if_splits)
  moreover have "j \<notin> exited s" using wf_sysD(4) [OF im(2) wf_sysD(7) [OF im(2) k]] by simp
  ultimately have "records Q d' (spec_op (OpJoined j) s)"
    using im(3) unfolding records_def fr by (auto simp: subset_iff)
  then show ?thesis using d' st(1) u wf_spec_op [OF im(2,4) e] by (simp add: implements_def)
qed

lemma step_join:
  assumes i: "implements d s Q" and e: "enabled Q (OpJoin g wk) s"
  shows "\<exists>d'. run_op (OpJoin g wk) d = Inr d' \<and> implements d' (spec_op (OpJoin g wk) s) Q"
proof -
  note im = implementsD [OF i]
  have ac: "actor s \<in> listed Q s" using running_listed [OF actor_member [OF im(4)]] .
  have fr: "joins s (actor s) = None \<and> actor s \<notin> exited s" by (rule listed_free [OF im(2) ac]) (use e in simp)
  have idx: "te_threadindex (entries d (actor s)) = actor s" by (rule recordsD(4) [OF im(3)]) (use ac in \<open>simp add: known_def\<close>)
  show ?thesis
  proof (cases "g \<in> exited s")
    case True
    let ?d = "on_entry (actor s) (\<lambda>e. e\<lparr>te_status := STATUS_READY\<rparr>) (if wk then notifyWaitingChildren d else d)"
    have j: "join_start g (actor s) wk d = Inr (False, ?d)"
      using True recordsD(3) [OF im(3), of g] by (simp add: join_start_def notifyWaitingChildren_def Let_def)
    have other: "q \<in> Q \<Longrightarrow> j \<in> set (waiting (core s) q) \<Longrightarrow> j \<noteq> actor s" for q j
      using running_not_waiting [OF im(1)] actor_member [OF im(4)] by blast
    have "sim ?d (core s) Q"
      by (rule sim_cong [OF im(1)]) (use im(1) other in \<open>auto simp: sim_def on_entry_def notifyWaitingChildren_def\<close>)
    moreover have "records Q ?d s" using im(3) fr by (auto simp: records_def on_entry_def notifyWaitingChildren_def)
    ultimately show ?thesis using j im(2,5) True by (simp add: implements_def)
  next
    case False
    from join_start_sim [OF im(1) _ _ idx, of g wk] e False recordsD(3) [OF im(3), of g]
    obtain d' where d': "join_start g (actor s) wk d = Inr (True, d')" "sim d' (spec_leave (core s)) Q" by (auto simp: others_def actor_def)
    note ent = keeps_join [OF d'(1)]
    have "known Q (spec_op (OpJoin g wk) s) \<subseteq> known Q s"
      using members_leave [OF im(4)] ac by (auto simp: known_def listed_members split: if_splits)
    then have "records Q d' (spec_op (OpJoin g wk) s)"
      using im(3) fr False ent unfolding records_def by (auto simp: subset_iff)
    then show ?thesis using d' im(5) False wf_spec_op [OF im(2,4) e] by (simp add: implements_def)
  qed
qed

lemma step_register:
  assumes i: "implements d s Q" and e: "enabled Q (OpRegister n pid p) s"
  shows "\<exists>d'. run_op (OpRegister n pid p) d = Inr d' \<and> implements d' (spec_op (OpRegister n pid p) s) Q"
proof -
  note im = implementsD [OF i]
  have n: "n < MAX_THREADS" "n \<notin> set (running (core s))" "\<And>q. q \<in> Q \<Longrightarrow> n \<notin> set (waiting (core s) q)" "joins s n = None"
    using e by (auto simp: known_def listed_def)
  from registerThread_sim [OF im(1) n(1-3)] obtain d' where d': "registerThread n pid p d = Inr d'" "sim d' (spec_register n (core s)) Q" by blast
  note ent = keeps_register [OF d'(1)]
  have "known Q (spec_op (OpRegister n pid p) s) = insert n (known Q s)" by (simp add: known_def listed_members members_register)
  then have "records Q d' (spec_op (OpRegister n pid p) s)"
    using im(3) n(4) ent unfolding records_def by auto
  then show ?thesis using d' wf_spec_op [OF im(2,4) e] by (simp add: implements_def)
qed

lemma parent_joins_records: "records Q d s \<Longrightarrow> joiner_of (actor s) d = parent_joins s"
proof -
  assume r: "records Q d s"
  have "te_status (entries d p) = STATUS_JOINING \<and> te_joinee (entries d p) = actor s \<longleftrightarrow> joins s p = Some (actor s)" for p
    by (rule recordsD(2) [OF r])
  then show ?thesis by (simp add: joiner_of_def parent_joins_def Let_def recordsD(1) [OF r])
qed

lemma step_exit:
  assumes i: "implements d s Q" and e: "enabled Q OpExit s"
  shows "\<exists>d'. run_op OpExit d = Inr d' \<and> implements d' (spec_op OpExit s) Q"
proof -
  note im = implementsD [OF i]
  have out: "p \<notin> set (running (core s)) \<and> (\<forall>q\<in>Q. p \<notin> set (waiting (core s) q))" if "parent_joins s = Some p" for p
    using wf_exit(2) [OF im(2,4) e that] by (simp add: listed_def)
  have al: "unat (alivethreads d) = alive s" "0 < alive s" using recordsD(6) [OF im(3)] e by simp_all
  then have "0 < alivethreads d" by (simp add: unat_gt_0 [symmetric] word_gt_0)
  from deregisterThread_sim [OF im(1) this refl, of "parent_joins s"] parent_joins_records [OF im(3)] out e
  obtain d' where d': "deregisterThread (actor s) d = Inr d'" "sim d' (spec_exit (parent_joins s) (core s)) Q" "alivethreads d' = alivethreads d - 1"
    by (auto simp: actor_def others_def)
  note ent = keeps_deregister [OF d'(1)]
  have "unat (alivethreads d') = alive s - 1" using d'(3) al unat_minus_one [of "alivethreads d"] by (cases "alivethreads d = 0") simp_all
  moreover have "known Q (spec_op OpExit s) \<subseteq> known Q s"
  proof -
    have "set_option (parent_joins s) \<subseteq> dom (joins s)" by (auto simp: parent_joins_def Let_def split: if_splits)
    moreover have "members Q (spec_exit (parent_joins s) (core s)) = set_option (parent_joins s) \<union> (members Q (core s) - {hd (running (core s))})"
      using wf_exit(2) [OF im(2,4) e] by (intro members_exit [OF im(4)]) (simp add: listed_members)
    ultimately show ?thesis by (auto simp: known_def listed_members)
  qed
  moreover have "joins s (actor s) = None"
    using listed_free [OF im(2) running_listed [OF actor_member [OF im(4)]]] e by simp
  ultimately have "records Q d' (spec_op OpExit s)"
    using im(3) ent unfolding records_def by (auto simp: subset_iff)
  then show ?thesis using d' im(5) wf_spec_op [OF im(2,4) e] by (simp add: implements_def)
qed

theorem run_op_implements:
  assumes "implements d s Q" and "enabled Q x s"
  shows "\<exists>d'. run_op x d = Inr d' \<and> implements d' (spec_op x s) Q"
proof (cases x)
  case OpPass
  with assms step_pass show ?thesis by (simp only:)
next
  case (OpWait c)
  with assms step_wait show ?thesis by (simp only:)
next
  case (OpSignal c)
  with assms step_signal show ?thesis by (simp only:)
next
  case (OpBroadcast c)
  with assms step_broadcast show ?thesis by (simp only:)
next
  case (OpArrive b)
  with assms step_arrive show ?thesis by (simp only:)
next
  case OpExit
  with assms step_exit show ?thesis by (simp only:)
next
  case (OpRegister n pid p)
  with assms step_register show ?thesis by (simp only:)
next
  case (OpStart n)
  with assms step_start show ?thesis by (simp only:)
next
  case (OpJoin g wk)
  with assms step_join show ?thesis by (simp only:)
next
  case (OpJoined i)
  with assms step_joined show ?thesis by (simp only:)
next
  case OpSigLeave
  with assms step_sig_leave show ?thesis by (simp only:)
next
  case (OpSigReturn i)
  with assms step_sig_return show ?thesis by (simp only:)
qed

theorem run_ops_implements:
  assumes "implements d s Q" and "enabled_all Q xs s"
  shows "\<exists>d'. run_ops xs d = Inr d' \<and> implements d' (fold spec_op xs s) Q"
  using assms
proof (induction xs arbitrary: d s)
  case (Cons x xs)
  then obtain d1 where d1: "run_op x d = Inr d1" "implements d1 (spec_op x s) Q" using run_op_implements by fastforce
  with Cons show ?case by simp
qed simp

text \<open>The thread with the token after a sequence of operations depends on the lists and the operations only.\<close>

theorem token_order_determined:
  assumes "implements d s Q" and "implements e s Q" and "enabled_all Q xs s"
  shows "\<exists>d' e'. run_ops xs d = Inr d' \<and> run_ops xs e = Inr e' \<and> tokenpos d' = tokenpos e'
     \<and> tokenpos d' = Some (actor (fold spec_op xs s))"
  using run_ops_implements [OF assms(1,3)] run_ops_implements [OF assms(2,3)] implementsD(5) by metis

section \<open>A sample\<close>

definition sample_sys :: sys where
  "sample_sys = \<lparr>core = sample_sched, parent_of = (\<lambda>_. 6), joins = [6 \<mapsto> 0], woken = {}, exited = {}, asleep = {}, parties = (\<lambda>_. 2),
     spawned = 0, alive = 7\<rparr>"

lemma sample_sys_simps [simp]:
  "core sample_sys = sample_sched" "parent_of sample_sys i = 6" "joins sample_sys = [6 \<mapsto> 0]" "woken sample_sys = {}" "exited sample_sys = {}"
  "asleep sample_sys = {}" "parties sample_sys b = 2" "spawned sample_sys = 0" "alive sample_sys = 7"
  by (simp_all add: sample_sys_def)

lemma sample_implements: "implements sample_determ sample_sys sample_queues"
proof -
  have l: "listed sample_queues sample_sys = {0, 1, 2, 3, 4, 5}" by (auto simp: listed_def sample_queues_def)
  have "wf_sys sample_queues sample_sys" by (simp add: wf_sys_def l MAX_THREADS_def)
  moreover have "records sample_queues sample_determ sample_sys"
    by (auto simp: records_def sample_determ_def sample_thread_def)
  ultimately show ?thesis using sample_sim by (simp add: implements_def)
qed

text \<open>Thread 0 signals and exits, its parent 6 gets the token and returns from its join, thread 3 waits again.\<close>

definition sample_ops :: "sync_op list" where
  "sample_ops = [OpSignal 500, OpExit, OpJoined 6, OpRegister 7 107 6, OpStart 1, OpPass, OpWait 500, OpBroadcast 500, OpSigLeave, OpArrive 600]"

lemmas sample_eval = sample_ops_def sample_sys_def sample_sched_def sample_queues_def spec_signal_def spec_insert_def parent_joins_def actor_def others_def
  spec_exit_def spec_leave_def spec_register_def known_def listed_def spec_putToken_def spec_wait_def spec_wake_all_def spec_barrier_def MAX_THREADS_def

lemma sample_enabled: "enabled_all sample_queues sample_ops sample_sys"
  by (simp add: sample_eval)

lemma sample_order: "running (core (fold spec_op sample_ops sample_sys)) = [5, 3, 2, 7, 6, 4]"
  by (simp add: sample_eval)

end
