(* ===== verification/SegHeap.thy ===== *)
theory SegHeap
  imports HeapSafety
begin

text \<open>
  The general segregated-fits heap, \<open>SegHeap\<close> of \<open>src/include/heaplayers/segheap.h\<close>, the base class of the strict one that dthreads
  instantiates: a bitmap marks the bins that may have free objects, and \<open>malloc\<close> tries the marked bins from the size class upwards before it
  asks the heap for big objects. The template arguments are arguments here: the number of bins, the two functions
  between sizes and classes, the little heaps (one operation for all of them, by index) and the big heap; \<open>'s\<close> is the state of both.
\<close>

section \<open>State and template arguments\<close>

record seg =
  seg_binmap :: "nat \<Rightarrow> ulong"
  seg_memoryHeld :: ulong

record 's seg_args =
  numBins :: nat
  getSizeClass :: "ulong \<Rightarrow> nat"
  getClassMaxSize :: "nat \<Rightarrow> ulong"
  little_malloc :: "nat \<Rightarrow> ulong \<Rightarrow> 's \<Rightarrow> ptr \<times> 's"
  little_free :: "nat \<Rightarrow> nat \<Rightarrow> 's \<Rightarrow> 's"
  little_clear :: "nat \<Rightarrow> 's \<Rightarrow> 's"
  object_size :: "nat \<Rightarrow> 's \<Rightarrow> ulong result"
  big_alloc :: "ulong \<Rightarrow> 's \<Rightarrow> (ptr \<times> 's) result"
  big_free :: "nat \<Rightarrow> 's \<Rightarrow> 's"
  big_clear :: "'s \<Rightarrow> 's"

text \<open>A bitmap word carries 32 bits, whatever the width of \<open>unsigned long\<close>.\<close>

definition num_ulongs :: "'s seg_args \<Rightarrow> nat" where
  "num_ulongs A = (numBins A + 31) div 32"

definition seg_init :: seg where
  "seg_init = \<lparr>seg_binmap = (\<lambda>_. 0), seg_memoryHeld = 0\<rparr>"

definition seg_maxObjectSize :: "'s seg_args \<Rightarrow> ulong" where
  "seg_maxObjectSize A = getClassMaxSize A (numBins A - 1)"

definition idx2block :: "nat \<Rightarrow> nat" where
  "idx2block i = i div 32"

definition idx2bit :: "nat \<Rightarrow> ulong" where
  "idx2bit i = push_bit (i mod 32) 1"

definition get_binmap :: "nat \<Rightarrow> seg \<Rightarrow> ulong" where
  "get_binmap i g = seg_binmap g (i div 32) AND idx2bit i"

definition mark_bin :: "nat \<Rightarrow> seg \<Rightarrow> seg" where
  "mark_bin i g = g\<lparr>seg_binmap := (seg_binmap g)(i div 32 := seg_binmap g (i div 32) OR idx2bit i)\<rparr>"

definition unmark_bin :: "nat \<Rightarrow> seg \<Rightarrow> seg" where
  "unmark_bin i g = g\<lparr>seg_binmap := (seg_binmap g)(i div 32 := seg_binmap g (i div 32) AND NOT (idx2bit i))\<rparr>"

section \<open>malloc\<close>

text \<open>The next word of the bitmap that is not 0.\<close>

function next_block :: "nat \<Rightarrow> (nat \<Rightarrow> ulong) \<Rightarrow> nat \<Rightarrow> nat option" where
  "next_block n B block =
     (if n \<le> Suc block then None
      else if B (Suc block) = 0 then next_block n B (Suc block) else Some (Suc block))"
  by auto
termination by (relation "measure (\<lambda>(n, B, block). n - block)") auto

declare next_block.simps [simp del]

text \<open>The shift to the next marked bit; it would not end if there were none.\<close>

partial_function (option) find_bit :: "ulong \<Rightarrow> ulong \<Rightarrow> nat \<Rightarrow> (ulong \<times> nat) option" where
  "find_bit bitmap b idx =
     (if b AND bitmap = 0 then find_bit bitmap (push_bit 1 b) (Suc idx) else Some (b, idx))"

partial_function (option) seg_search ::
  "(nat \<Rightarrow> ulong \<Rightarrow> 's \<Rightarrow> ptr \<times> 's) \<Rightarrow> nat \<Rightarrow> ulong \<Rightarrow> nat \<Rightarrow> ulong \<Rightarrow> ulong \<Rightarrow> nat \<Rightarrow> (nat \<Rightarrow> ulong) \<Rightarrow> 's \<Rightarrow> (ptr \<times> (nat \<Rightarrow> ulong) \<times> 's) option" where
  "seg_search lm n sz block bitmap b idx B s =
     (case (if bitmap < b \<or> b = 0
            then map_option (\<lambda>k. (k, B k, 1, 32 * k)) (next_block n B block)
            else Some (block, bitmap, b, idx)) of
        None \<Rightarrow> Some (None, B, s)
      | Some (block, bitmap, b, idx) \<Rightarrow>
          Option.bind (find_bit bitmap b idx) (\<lambda>(b, idx).
            case lm idx sz s of
              (Some p, s1) \<Rightarrow> Some (Some p, B, s1)
            | (None, s1) \<Rightarrow>
                (let bitmap' = bitmap AND NOT b
                 in seg_search lm n sz block bitmap' (push_bit 1 b) (Suc idx) (B(block := bitmap')) s1)))"

definition seg_malloc :: "'s seg_args \<Rightarrow> ulong \<Rightarrow> seg \<times> 's \<Rightarrow> (ptr \<times> seg \<times> 's) result option" where
  "seg_malloc A sz gs =
     (case gs of (g, s) \<Rightarrow>
        if seg_maxObjectSize A < sz then Some (res_bind (big_alloc A sz s) (\<lambda>(p, s1). Inr (p, g, s1)))
        else (let sc = getSizeClass A sz; block = idx2block sc
              in Option.bind (seg_search (little_malloc A) (num_ulongs A) sz block (seg_binmap g block) (idx2bit sc) sc (seg_binmap g) s)
                   (\<lambda>(p, B, s1). let g1 = g\<lparr>seg_binmap := B\<rparr>
                      in Some (case p of Some a \<Rightarrow> Inr (Some a, g1, s1)
                               | None \<Rightarrow> res_bind (big_alloc A sz s1) (\<lambda>(q, s2). Inr (q, g1, s2))))))"

section \<open>free and clear\<close>

text \<open>The class shrinks until its size does not exceed the object's; below class 0 there is no little heap.\<close>

fun seg_shrink :: "(nat \<Rightarrow> ulong) \<Rightarrow> ulong \<Rightarrow> nat \<Rightarrow> nat result" where
  "seg_shrink f sz 0 = (if sz < f 0 then Inl OutOfBounds else Inr 0)"
| "seg_shrink f sz (Suc c) = (if sz < f (Suc c) then seg_shrink f sz c else Inr (Suc c))"

definition seg_free :: "'s seg_args \<Rightarrow> nat \<Rightarrow> seg \<times> 's \<Rightarrow> (seg \<times> 's) result" where
  "seg_free A p gs =
     (case gs of (g, s) \<Rightarrow>
        res_bind (object_size A p s) (\<lambda>sz.
          if sz = 0 then Inr (g, s)
          else if seg_maxObjectSize A < sz then Inr (g, big_free A p s)
          else res_bind (seg_shrink (getClassMaxSize A) sz (getSizeClass A sz)) (\<lambda>c.
             Inr ((mark_bin c g)\<lparr>seg_memoryHeld := seg_memoryHeld g + sz\<rparr>, little_free A c p s))))"

definition seg_clear :: "'s seg_args \<Rightarrow> seg \<times> 's \<Rightarrow> seg \<times> 's" where
  "seg_clear A gs =
     (case gs of (g, s) \<Rightarrow>
        (g\<lparr>seg_binmap := (\<lambda>j. if j < num_ulongs A then 0 else seg_binmap g j), seg_memoryHeld := 0\<rparr>,
         big_clear A (fold (little_clear A) [0..<numBins A] s)))"

definition getMemoryHeld :: "seg \<Rightarrow> ulong" where
  "getMemoryHeld g = seg_memoryHeld g"

section \<open>Bits\<close>

definition marked :: "(nat \<Rightarrow> ulong) \<Rightarrow> nat \<Rightarrow> bool" where
  "marked B i = bit (B (i div 32)) (i mod 32)"

definition unmark :: "nat \<Rightarrow> (nat \<Rightarrow> ulong) \<Rightarrow> nat \<Rightarrow> ulong" where
  "unmark i B = B(i div 32 := B (i div 32) AND NOT (push_bit (i mod 32) 1))"

definition words32 :: "(nat \<Rightarrow> ulong) \<Rightarrow> bool" where
  "words32 B = (\<forall>b j. bit (B b) j \<longrightarrow> j < 32)"

lemma bit_push1: "bit (push_bit k 1 :: ulong) j \<longleftrightarrow> j = k \<and> k < 64"
  by (auto simp: bit_simps)

lemma and_push1: "k < 64 \<Longrightarrow> push_bit k 1 AND w = (0 :: ulong) \<longleftrightarrow> \<not> bit w k"
proof
  assume k: "k < 64" and "push_bit k 1 AND w = (0 :: ulong)"
  then have "\<not> bit (push_bit k 1 AND w) k" by simp
  then show "\<not> bit w k" using k by (simp add: bit_and_iff bit_push1 del: push_bit_of_1)
next
  assume "k < 64" "\<not> bit w k"
  then show "push_bit k 1 AND w = (0 :: ulong)"
    by (intro bit_word_eqI) (auto simp: bit_and_iff bit_push1 simp del: push_bit_of_1)
qed

lemma push1_step: "push_bit 1 (push_bit k 1 :: ulong) = push_bit (Suc k) 1"
  by simp

lemma less_push1: "k < 64 \<Longrightarrow> w < (push_bit k 1 :: ulong) \<longleftrightarrow> (\<forall>j. bit w j \<longrightarrow> j < k)"
proof -
  assume k: "k < 64"
  then have "unat (push_bit k 1 :: ulong) = 2 ^ k" by (rule unat_push1)
  then have "w < push_bit k 1 \<longleftrightarrow> unat w < 2 ^ k" by (simp add: word_less_nat_alt)
  also have "\<dots> \<longleftrightarrow> take_bit k (unat w) = unat w" by (simp add: take_bit_nat_eq_self_iff)
  also have "\<dots> \<longleftrightarrow> (\<forall>j. bit w j \<longrightarrow> j < k)" by (auto simp: bit_eq_iff bit_take_bit_iff bit_unsigned_iff)
  finally show ?thesis .
qed

lemma marked_unmark: "marked (unmark i B) j \<longleftrightarrow> marked B j \<and> j \<noteq> i"
proof -
  have "j div 32 = i div 32 \<and> j mod 32 = i mod 32 \<longleftrightarrow> j = i" by (metis div_mult_mod_eq)
  then show ?thesis by (auto simp: marked_def unmark_def bit_simps)
qed

lemma words32_unmark: "words32 B \<Longrightarrow> words32 (unmark i B)"
  by (auto simp: words32_def unmark_def bit_simps)

lemma words32_lt: "words32 B \<Longrightarrow> bit (B b) j \<Longrightarrow> j < 32"
  by (simp add: words32_def)

section \<open>The search is a scan of the marked bins\<close>

text \<open>The reference: try the marked bins in order and unmark those that turn out to be empty.\<close>

fun scan :: "(nat \<Rightarrow> ulong \<Rightarrow> 's \<Rightarrow> ptr \<times> 's) \<Rightarrow> ulong \<Rightarrow> nat list \<Rightarrow> (nat \<Rightarrow> ulong) \<Rightarrow> 's \<Rightarrow> ptr \<times> (nat \<Rightarrow> ulong) \<times> 's" where
  "scan lm sz [] B s = (None, B, s)"
| "scan lm sz (i # is) B s =
     (case lm i sz s of (Some p, s1) \<Rightarrow> (Some p, B, s1) | (None, s1) \<Rightarrow> scan lm sz is (unmark i B) s1)"

definition candidates :: "nat \<Rightarrow> (nat \<Rightarrow> ulong) \<Rightarrow> nat \<Rightarrow> nat list" where
  "candidates n B i = filter (marked B) [i..<32 * n]"

lemma bit_ulong: "bit (w :: ulong) j \<Longrightarrow> j < 64"
  using bit_imp_le_length [of w j] by simp

lemma find_bit_least:
  assumes "bit m j" and "k \<le> j" and "\<And>i. k \<le> i \<Longrightarrow> i < j \<Longrightarrow> \<not> bit m i"
  shows "find_bit m (push_bit k 1) idx = Some (push_bit j 1, idx + (j - k))"
  using assms
proof (induction "j - k" arbitrary: k idx)
  case 0
  then have "j = k" "k < 64" using bit_ulong [OF 0(2)] by simp_all
  then show ?case using 0 and_push1 [of k m] by (subst find_bit.simps) (simp del: push_bit_of_1)
next
  case (Suc d)
  have "k < 64" using bit_ulong [OF Suc.prems(1)] Suc.prems(2) by simp
  moreover have "\<not> bit m k" using Suc.prems(3) [of k] Suc.hyps(2) by simp
  ultimately have "find_bit m (push_bit k 1) idx = find_bit m (push_bit (Suc k) 1) (Suc idx)"
    using and_push1 [of k m] by (subst find_bit.simps) (simp only: push1_step not_False_eq_True if_True)
  also have "\<dots> = Some (push_bit j 1, Suc idx + (j - Suc k))"
    by (rule Suc.hyps(1)) (use Suc.prems Suc.hyps(2) in auto)
  finally show ?case using Suc.hyps(2) by (simp del: push_bit_of_1)
qed

lemma next_block_None: "next_block n B b = None \<Longrightarrow> b < c \<Longrightarrow> c < n \<Longrightarrow> B c = 0"
proof (induction n B b rule: next_block.induct)
  case (1 n B b)
  then have lt: "\<not> n \<le> Suc b" by simp
  have z: "B (Suc b) = 0" using "1.prems"(1) lt by (subst (asm) next_block.simps) (auto split: if_splits)
  then have "next_block n B (Suc b) = None" using "1.prems"(1) lt by (subst (asm) next_block.simps) simp
  from "1.IH" [OF lt z this] "1.prems"(2,3) z show ?case by (cases "c = Suc b") auto
qed

lemma next_block_Some:
  "next_block n B b = Some c \<Longrightarrow> b < c \<and> c < n \<and> B c \<noteq> 0 \<and> (\<forall>d. b < d \<and> d < c \<longrightarrow> B d = 0)"
proof (induction n B b rule: next_block.induct)
  case (1 n B b)
  from "1.prems" have lt: "\<not> n \<le> Suc b" by (subst (asm) next_block.simps) (auto split: if_splits)
  show ?case
  proof (cases "B (Suc b) = 0")
    case True
    then have "next_block n B (Suc b) = Some c" using "1.prems" lt by (subst (asm) next_block.simps) simp
    from "1.IH" [OF lt True this] True show ?thesis by (metis Suc_lessD Suc_lessI)
  next
    case False
    then have "c = Suc b" using "1.prems" lt by (subst (asm) next_block.simps) simp
    then show ?thesis using False lt by auto
  qed
qed

lemma candidates_skip:
  assumes "i \<le> j" and "\<And>m. i \<le> m \<Longrightarrow> m < j \<Longrightarrow> m < 32 * n \<Longrightarrow> \<not> marked B m"
  shows "candidates n B i = candidates n B j"
proof (cases "j \<le> 32 * n")
  case True
  then have "[i..<32 * n] = [i..<j] @ [j..<32 * n]" using assms(1) by (metis le_add_diff_inverse upt_add_eq_append)
  moreover have "filter (marked B) [i..<j] = []" using assms(2) True by (auto simp: filter_empty_conv)
  ultimately show ?thesis by (simp add: candidates_def)
next
  case False
  then have "filter (marked B) [i..<32 * n] = []" using assms(2) by (auto simp: filter_empty_conv)
  then show ?thesis using False by (simp add: candidates_def)
qed

lemma candidates_Cons: "marked B i \<Longrightarrow> i < 32 * n \<Longrightarrow> candidates n B i = i # candidates n B (Suc i)"
  by (simp add: candidates_def upt_conv_Cons)

lemma candidates_unmark: "i < j \<Longrightarrow> candidates n (unmark i B) j = candidates n B j"
  unfolding candidates_def by (rule filter_cong) (auto simp: marked_unmark)

lemma block_index: "j < 32 \<Longrightarrow> (32 * b + j) div 32 = b" "j < 32 \<Longrightarrow> (32 * b + j) mod 32 = (j :: nat)"
  by simp_all

lemma marked_block: "j < 32 \<Longrightarrow> marked B (32 * b + j) = bit (B b) j"
  by (simp add: marked_def)

text \<open>One round of the search: the first marked bin from \<open>idx\<close> on, if there is one.\<close>

lemma first_in_block:
  assumes w: "words32 B" and b: "b < n" and k: "bit (B b) i" "k \<le> i"
  obtains j where "j < 32" "k \<le> j" "find_bit (B b) (push_bit k 1) (32 * b + k) = Some (push_bit j 1, 32 * b + j)"
    "candidates n B (32 * b + k) = (32 * b + j) # candidates n B (Suc (32 * b + j))"
proof -
  define j where "j = (LEAST j. k \<le> j \<and> bit (B b) j)"
  have j: "k \<le> j" "bit (B b) j" using LeastI [of "\<lambda>j. k \<le> j \<and> bit (B b) j" i] k by (auto simp: j_def)
  have least: "\<not> bit (B b) m" if "k \<le> m" "m < j" for m using not_less_Least [of m] that by (auto simp: j_def)
  have j32: "j < 32" using words32_lt [OF w j(2)] .
  have f: "find_bit (B b) (push_bit k 1) (32 * b + k) = Some (push_bit j 1, 32 * b + j)"
    using find_bit_least [OF j(2,1) least, of "32 * b + k"] j(1) by simp
  have "candidates n B (32 * b + k) = candidates n B (32 * b + j)"
  proof (rule candidates_skip)
    fix m assume "32 * b + k \<le> m" "m < 32 * b + j"
    then show "\<not> marked B m" using least [of "m - 32 * b"] marked_block [of "m - 32 * b" B b] j32 by auto
  qed (use j(1) in simp)
  also have "\<dots> = (32 * b + j) # candidates n B (Suc (32 * b + j))"
    by (rule candidates_Cons) (use j j32 b in \<open>auto simp: marked_block\<close>)
  finally show ?thesis using that j32 j(1) f by blast
qed

lemma seg_search_scan:
  assumes "words32 B" and "block < n" and "k \<le> 32" and "idx = 32 * block + k"
  shows "seg_search lm n sz block (B block) (push_bit k 1) idx B s = Some (scan lm sz (candidates n B idx) B s)"
  using assms
proof (induction "32 * n - idx" arbitrary: block k idx B s rule: less_induct)
  case less
  note w = less.prems(1) and bn = less.prems(2) and k = less.prems(3) and idx = less.prems(4)
  have nz: "push_bit k 1 \<noteq> (0 :: ulong)"
  proof
    assume "push_bit k 1 = (0 :: ulong)"
    then have "\<not> bit (push_bit k 1 :: ulong) k" by (simp del: push_bit_of_1)
    then show False using k bit_push1 [of k k] by (simp del: push_bit_of_1)
  qed
  have round: "Option.bind (find_bit (B c) (push_bit l 1) (32 * c + l)) (\<lambda>(b, idx). case lm idx sz s of
        (Some p, s1) \<Rightarrow> Some (Some p, B, s1)
      | (None, s1) \<Rightarrow> (let bitmap' = B c AND NOT b in seg_search lm n sz c bitmap' (push_bit 1 b) (Suc idx) (B(c := bitmap')) s1))
      = Some (scan lm sz (candidates n B (32 * c + l)) B s)"
    if c: "c < n" "bit (B c) i" "l \<le> i" "idx \<le> 32 * c + l" for c l i
  proof -
    obtain j where j: "j < 32" "l \<le> j" "find_bit (B c) (push_bit l 1) (32 * c + l) = Some (push_bit j 1, 32 * c + j)"
      "candidates n B (32 * c + l) = (32 * c + j) # candidates n B (Suc (32 * c + j))"
      by (rule first_in_block [OF w c(1-3)])
    show ?thesis
    proof (cases "lm (32 * c + j) sz s")
      case (Pair q s1)
      have um: "B(c := B c AND NOT (push_bit j 1)) = unmark (32 * c + j) B" using j(1) by (simp add: unmark_def)
      have "seg_search lm n sz c (unmark (32 * c + j) B c) (push_bit (Suc j) 1) (Suc (32 * c + j)) (unmark (32 * c + j) B) s1
          = Some (scan lm sz (candidates n (unmark (32 * c + j) B) (Suc (32 * c + j))) (unmark (32 * c + j) B) s1)"
        by (rule less.hyps) (use w words32_unmark c j k idx bn in auto)
      moreover have "unmark (32 * c + j) B c = B c AND NOT (push_bit j 1)" using j(1) by (simp add: unmark_def)
      ultimately show ?thesis
        using Pair j um candidates_unmark [of "32 * c + j" "Suc (32 * c + j)" n B]
        by (cases q) (simp_all add: Let_def push1_step del: push_bit_of_1)
    qed
  qed
  show ?case
  proof (cases "B block < push_bit k 1")
    case True
    then have no: "\<And>j. bit (B block) j \<Longrightarrow> j < k" using less_push1 [of k "B block"] k by simp
    show ?thesis
    proof (cases "next_block n B block")
      case None
      have "candidates n B idx = candidates n B (32 * n)"
      proof (rule candidates_skip)
        fix m assume m: "idx \<le> m" "m < 32 * n"
        then have d: "block \<le> m div 32" "m div 32 < n" using idx by auto
        show "\<not> marked B m"
        proof (cases "m div 32 = block")
          case True
          then have "k \<le> m mod 32" using m(1) idx by (metis add_le_cancel_left mult_div_mod_eq)
          then show ?thesis using no True by (auto simp: marked_def not_le [symmetric])
        next
          case False
          then have "B (m div 32) = 0" using next_block_None [OF None, of "m div 32"] d by simp
          then show ?thesis by (simp add: marked_def)
        qed
      qed (use idx bn k in simp)
      then have "candidates n B idx = []" by (simp add: candidates_def)
      then show ?thesis using True None by (subst seg_search.simps) simp
    next
      case (Some c)
      note c = next_block_Some [OF Some]
      obtain i where i: "bit (B c) i" using c by (auto simp: bit_eq_iff)
      have skip: "candidates n B idx = candidates n B (32 * c)"
      proof (rule candidates_skip)
        show "idx \<le> 32 * c" using c idx k by simp
        fix m assume m: "idx \<le> m" "m < 32 * c"
        then have d: "block \<le> m div 32" "m div 32 < c" using idx by auto
        show "\<not> marked B m"
        proof (cases "m div 32 = block")
          case True
          then have "k \<le> m mod 32" using m(1) idx by (metis add_le_cancel_left mult_div_mod_eq)
          then show ?thesis using no True by (auto simp: marked_def not_le [symmetric])
        next
          case False
          then have "B (m div 32) = 0" using c d by simp
          then show ?thesis by (simp add: marked_def)
        qed
      qed
      have "idx \<le> 32 * c + 0" using c idx k by simp
      with round [of c i 0] c i have "Option.bind (find_bit (B c) 1 (32 * c)) (\<lambda>(b, idx). case lm idx sz s of
          (Some p, s1) \<Rightarrow> Some (Some p, B, s1)
        | (None, s1) \<Rightarrow> (let bitmap' = B c AND NOT b in seg_search lm n sz c bitmap' (push_bit 1 b) (Suc idx) (B(c := bitmap')) s1))
        = Some (scan lm sz (candidates n B idx) B s)" by (simp add: skip)
      then show ?thesis using True Some by (subst seg_search.simps) (simp cong: option.case_cong)
    qed
  next
    case False
    then have "\<not> (\<forall>j. bit (B block) j \<longrightarrow> j < k)" using less_push1 [of k "B block"] k by simp
    then obtain i where "bit (B block) i" "k \<le> i" by (auto simp: not_less)
    from round [OF bn this] idx nz False show ?thesis by (subst seg_search.simps) (simp del: push_bit_of_1)
  qed
qed

definition seg_spec :: "'s seg_args \<Rightarrow> ulong \<Rightarrow> seg \<times> 's \<Rightarrow> (ptr \<times> seg \<times> 's) result" where
  "seg_spec A sz gs =
     (case gs of (g, s) \<Rightarrow>
        (case scan (little_malloc A) sz (candidates (num_ulongs A) (seg_binmap g) (getSizeClass A sz)) (seg_binmap g) s of
           (Some a, B, s1) \<Rightarrow> Inr (Some a, g\<lparr>seg_binmap := B\<rparr>, s1)
         | (None, B, s1) \<Rightarrow> res_bind (big_alloc A sz s1) (\<lambda>(q, s2). Inr (q, g\<lparr>seg_binmap := B\<rparr>, s2))))"

lemma seg_malloc_spec:
  assumes "words32 (seg_binmap g)" and "getSizeClass A sz < numBins A" and "sz \<le> seg_maxObjectSize A"
  shows "seg_malloc A sz (g, s) = Some (seg_spec A sz (g, s))"
proof -
  let ?c = "getSizeClass A sz"
  have "?c div 32 < num_ulongs A" using assms(2) by (simp add: num_ulongs_def)
  then have "seg_search (little_malloc A) (num_ulongs A) sz (idx2block ?c) (seg_binmap g (idx2block ?c)) (idx2bit ?c) ?c (seg_binmap g) s
      = Some (scan (little_malloc A) sz (candidates (num_ulongs A) (seg_binmap g) ?c) (seg_binmap g) s)"
    unfolding idx2block_def idx2bit_def by (intro seg_search_scan [OF assms(1)]) simp_all
  then show ?thesis using assms(3)
    by (simp add: seg_malloc_def seg_spec_def Let_def not_less [symmetric] split: prod.splits option.splits)
qed

section \<open>First fit among the bins\<close>

text \<open>What \<open>malloc\<close> and \<open>free\<close> rely on: an empty bin says so and does not change, and taking an object makes no other bin non-empty.\<close>

locale little_heaps =
  fixes lmalloc :: "nat \<Rightarrow> ulong \<Rightarrow> 's \<Rightarrow> ptr \<times> 's" and lfree :: "nat \<Rightarrow> nat \<Rightarrow> 's \<Rightarrow> 's" and empty :: "nat \<Rightarrow> 's \<Rightarrow> bool"
  assumes malloc_empty: "empty i s \<Longrightarrow> lmalloc i sz s = (None, s)"
    and malloc_some: "\<not> empty i s \<Longrightarrow> \<exists>p s'. lmalloc i sz s = (Some p, s') \<and> (\<forall>j. empty j s \<longrightarrow> empty j s')"
    and free_other: "j \<noteq> i \<Longrightarrow> empty j (lfree i p s) = empty j s"
begin

definition covers :: "(nat \<Rightarrow> ulong) \<Rightarrow> 's \<Rightarrow> bool" where
  "covers B s \<longleftrightarrow> (\<forall>i. \<not> empty i s \<longrightarrow> marked B i)"

lemma scan_all_empty:
  "(\<And>i. i \<in> set is \<Longrightarrow> empty i s) \<Longrightarrow> fst (scan lmalloc sz is B s) = None \<and> snd (snd (scan lmalloc sz is B s)) = s
     \<and> (covers B s \<longrightarrow> covers (fst (snd (scan lmalloc sz is B s))) s)"
proof (induction "is" arbitrary: B)
  case (Cons i "is")
  have "covers B s \<longrightarrow> covers (unmark i B) s" using Cons.prems [of i] by (auto simp: covers_def marked_unmark)
  with Cons malloc_empty [of i s] show ?case by simp
qed simp

lemma scan_first:
  assumes "i \<in> set is" and "\<not> empty i s" and "\<And>j. j \<in> set is \<Longrightarrow> j < i \<Longrightarrow> empty j s" and "sorted_wrt (<) is" and "covers B s"
  shows "\<exists>p s' B'. lmalloc i sz s = (Some p, s') \<and> scan lmalloc sz is B s = (Some p, B', s') \<and> covers B' s'"
  using assms
proof (induction "is" arbitrary: B)
  case (Cons j "is")
  show ?case
  proof (cases "j = i")
    case True
    from malloc_some [OF Cons.prems(2), of sz] obtain p s' where m: "lmalloc i sz s = (Some p, s')" "\<forall>j. empty j s \<longrightarrow> empty j s'" by blast
    then have "covers B s'" using Cons.prems(5) by (auto simp: covers_def)
    with m True show ?thesis by simp
  next
    case False
    then have "i \<in> set is" "j < i" using Cons.prems(1,4) by auto
    then have e: "empty j s" using Cons.prems(3) by simp
    have "covers (unmark j B) s" using Cons.prems(5) e by (auto simp: covers_def marked_unmark)
    moreover have "\<And>k. k \<in> set is \<Longrightarrow> k < i \<Longrightarrow> empty k s" "sorted_wrt (<) is" using Cons.prems(3,4) by auto
    ultimately obtain p s' B' where "lmalloc i sz s = (Some p, s')" "scan lmalloc sz is (unmark j B) s = (Some p, B', s')" "covers B' s'"
      using Cons.IH [OF \<open>i \<in> set is\<close> Cons.prems(2)] by blast
    with malloc_empty [OF e, of sz] show ?thesis by simp
  qed
qed simp

lemma scan_candidates:
  assumes "covers B s" and "\<And>i. 32 * n \<le> i \<Longrightarrow> empty i s"
  shows "if \<exists>i\<ge>c. \<not> empty i s
     then \<exists>p s' B'. lmalloc (LEAST i. c \<le> i \<and> \<not> empty i s) sz s = (Some p, s')
        \<and> scan lmalloc sz (candidates n B c) B s = (Some p, B', s') \<and> covers B' s'
     else \<exists>B'. scan lmalloc sz (candidates n B c) B s = (None, B', s) \<and> covers B' s"
proof (cases "\<exists>i\<ge>c. \<not> empty i s")
  case True
  define i where "i = (LEAST i. c \<le> i \<and> \<not> empty i s)"
  have i: "c \<le> i" "\<not> empty i s" using LeastI_ex [of "\<lambda>i. c \<le> i \<and> \<not> empty i s"] True by (auto simp: i_def)
  have "i < 32 * n" using assms(2) i(2) by (meson not_less)
  then have mem: "i \<in> set (candidates n B c)" using assms(1) i by (simp add: candidates_def covers_def)
  have "empty j s" if "j \<in> set (candidates n B c)" "j < i" for j
    using not_less_Least [of j "\<lambda>i. c \<le> i \<and> \<not> empty i s"] that by (auto simp: i_def candidates_def)
  moreover have "sorted_wrt (<) (candidates n B c)" unfolding candidates_def by (intro sorted_wrt_filter) simp
  ultimately have "\<exists>p s' B'. lmalloc i sz s = (Some p, s') \<and> scan lmalloc sz (candidates n B c) B s = (Some p, B', s') \<and> covers B' s'"
    using scan_first [OF mem i(2)] assms(1) by blast
  then show ?thesis using True by (simp add: i_def)
next
  case False
  then have "\<And>i. i \<in> set (candidates n B c) \<Longrightarrow> empty i s" by (auto simp: candidates_def)
  from scan_all_empty [of "candidates n B c" s sz B] this assms(1)
  have "fst (scan lmalloc sz (candidates n B c) B s) = None" "snd (snd (scan lmalloc sz (candidates n B c) B s)) = s"
    "covers (fst (snd (scan lmalloc sz (candidates n B c) B s))) s" by blast+
  then have "scan lmalloc sz (candidates n B c) B s = (None, fst (snd (scan lmalloc sz (candidates n B c) B s)), s)" by (metis prod.collapse)
  then show ?thesis using False \<open>covers (fst (snd (scan lmalloc sz (candidates n B c) B s))) s\<close> by (smt (verit, best))
qed

lemma covers_free: "covers (seg_binmap g) s \<Longrightarrow> covers (seg_binmap (mark_bin c g)) (lfree c p s)"
proof -
  assume a: "covers (seg_binmap g) s"
  have "marked (seg_binmap (mark_bin c g)) i \<longleftrightarrow> marked (seg_binmap g) i \<or> i = c" for i
  proof -
    have "i div 32 = c div 32 \<and> i mod 32 = c mod 32 \<longleftrightarrow> i = c" by (metis div_mult_mod_eq)
    then show ?thesis by (auto simp: marked_def mark_bin_def idx2bit_def bit_simps)
  qed
  then show ?thesis using a free_other unfolding covers_def by metis
qed

end

interpretation free_lists: little_heaps "\<lambda>i _. adapt_malloc i" adapt_free "\<lambda>i h. sl_head (kz h) i = None"
proof unfold_locales
  fix i and h :: "'w heap" assume "sl_head (kz h) i = None"
  then show "adapt_malloc i h = (None, h)" by (simp add: adapt_malloc_def sl_get_def on_kz_def fun_upd_idem)
next
  fix i and h :: "'w heap" assume "sl_head (kz h) i \<noteq> None"
  then obtain e where e: "sl_head (kz h) i = Some e" by blast
  show "\<exists>p h'. adapt_malloc i h = (Some p, h') \<and> (\<forall>j. sl_head (kz h) j = None \<longrightarrow> sl_head (kz h') j = None)"
    using e by (auto simp: adapt_malloc_def sl_get_def on_kz_def)
next
  fix i j :: nat and p and h :: "'w heap" assume "j \<noteq> i"
  then show "(sl_head (kz (adapt_free i p h)) j = None) = (sl_head (kz h) j = None)"
    by (simp add: adapt_free_def sl_insert_def on_kz_def)
qed

text \<open>Every bin with an object is one of the heap's and is marked; the words of the bitmap have 32 bits.\<close>

definition bins_known :: "nat \<Rightarrow> seg \<times> 'w heap \<Rightarrow> bool" where
  "bins_known n gs \<longleftrightarrow> words32 (seg_binmap (fst gs)) \<and> (\<forall>i. sl_head (kz (snd gs)) i \<noteq> None \<longrightarrow> i < n \<and> marked (seg_binmap (fst gs)) i)"

lemma scan_words32: "words32 B \<Longrightarrow> words32 (fst (snd (scan lm sz is B s)))"
  by (induction "is" arbitrary: B s) (auto simp: words32_unmark split: prod.splits option.splits)

lemma seg_malloc_first_fit:
  fixes h :: "'w heap"
  assumes k: "bins_known (numBins A) (g, h)" and lm: "little_malloc A = (\<lambda>i _. adapt_malloc i)"
    and sz: "getSizeClass A sz < numBins A" "sz \<le> seg_maxObjectSize A"
  defines "fit \<equiv> \<lambda>i. getSizeClass A sz \<le> i \<and> sl_head (kz h) i \<noteq> None"
  shows "if \<exists>i. fit i
     then \<exists>a h' g'. adapt_malloc (LEAST i. fit i) h = (Some a, h') \<and> seg_malloc A sz (g, h) = Some (Inr (Some a, g', h')) \<and> bins_known (numBins A) (g', h')
     else \<exists>g'. bins_known (numBins A) (g', h) \<and> seg_malloc A sz (g, h) = Some (res_bind (big_alloc A sz h) (\<lambda>(q, h'). Inr (q, g', h')))"
proof -
  let ?c = "getSizeClass A sz" and ?n = "num_ulongs A"
  let ?S = "scan (little_malloc A) sz (candidates ?n (seg_binmap g) ?c) (seg_binmap g) h"
  have w: "words32 (seg_binmap g)" and cov: "free_lists.covers (seg_binmap g) h"
    using k by (auto simp: bins_known_def free_lists.covers_def)
  have "numBins A \<le> 32 * ?n" by (simp add: num_ulongs_def)
  then have "sl_head (kz h) i = None" if "32 * ?n \<le> i" for i using k that by (fastforce simp: bins_known_def)
  note sc = free_lists.scan_candidates [where n = ?n and c = ?c and sz = sz, OF cov this, folded fit_def]
  have w': "words32 (fst (snd ?S))" by (rule scan_words32 [OF w])
  note spec = seg_malloc_spec [OF w sz, where s = h]
  show ?thesis
  proof (cases "\<exists>i. fit i")
    case True
    with sc obtain a h' B' where m: "adapt_malloc (LEAST i. fit i) h = (Some a, h')" "?S = (Some a, B', h')" "free_lists.covers B' h'"
      unfolding lm by auto
    have ne: "sl_head (kz h) (LEAST i. fit i) \<noteq> None" using LeastI_ex [OF True] by (simp add: fit_def)
    have "\<exists>y. sl_head (kz h) j = Some y" if "sl_head (kz h') j = Some y" for j y
      using free_lists.malloc_some [OF ne] m(1) that by fastforce
    then have "bins_known (numBins A) (g\<lparr>seg_binmap := B'\<rparr>, h')"
      using m(2,3) w' k by (auto simp: bins_known_def free_lists.covers_def)
    moreover have "seg_malloc A sz (g, h) = Some (Inr (Some a, g\<lparr>seg_binmap := B'\<rparr>, h'))" using spec m(2) by (simp add: seg_spec_def)
    ultimately show ?thesis using True m(1) by auto
  next
    case False
    with sc obtain B' where m: "?S = (None, B', h)" "free_lists.covers B' h" unfolding lm by auto
    then have "bins_known (numBins A) (g\<lparr>seg_binmap := B'\<rparr>, h)" using w' k by (auto simp: bins_known_def free_lists.covers_def)
    moreover have "seg_malloc A sz (g, h) = Some (res_bind (big_alloc A sz h) (\<lambda>(q, h'). Inr (q, g\<lparr>seg_binmap := B'\<rparr>, h')))"
      using spec m(1) by (simp add: seg_spec_def)
    ultimately show ?thesis using False by auto
  qed
qed

end
