(* ===== verification/Teardown.thy ===== *)
theory Teardown
  imports SegHeap
begin

text \<open>
  How the heap layers give memory back: \<open>AdaptHeap::clear\<close> and \<open>remove\<close> (\<open>adapt.h\<close>), \<open>StrictSegHeap::freeAll\<close> (\<open>segheap.h\<close>) and the destructor of
  \<open>ZoneHeap\<close> (\<open>zoneheap.h\<close>). They follow links until NULL, so they end only when the lists do. The \<open>free\<close> and \<open>clear\<close> of the heap
  below are arguments.
\<close>

section \<open>The operations\<close>

text \<open>Take objects out of a free list until it is empty.\<close>

partial_function (option) drain :: "(nat \<Rightarrow> 'w heap \<Rightarrow> 'w heap) \<Rightarrow> nat \<Rightarrow> 'w heap \<Rightarrow> 'w heap option" where
  "drain sfree i h =
     (case adapt_malloc i h of
        (None, h1) \<Rightarrow> Some h1
      | (Some p, h1) \<Rightarrow> drain sfree i (sfree p h1))"

definition adapt_clear :: "(nat \<Rightarrow> 'w heap \<Rightarrow> 'w heap) \<Rightarrow> ('w heap \<Rightarrow> 'w heap) \<Rightarrow> nat \<Rightarrow> 'w heap \<Rightarrow> 'w heap option" where
  "adapt_clear sfree sclear i h =
     map_option (\<lambda>h1. sclear (on_kz (\<lambda>k. k\<lparr>sl_head := (sl_head k)(i := sl_clear)\<rparr>) h1)) (drain sfree i h)"

definition adapt_remove :: "nat \<Rightarrow> 'w heap \<Rightarrow> (nat \<times> 'w heap) result" where
  "adapt_remove p h = res_bind (sl_remove p) (\<lambda>_. Inr (1, h))"

definition zone_remove :: "nat \<Rightarrow> 'w heap \<Rightarrow> nat \<times> 'w heap" where
  "zone_remove p h = (0, h)"

definition bins_clear :: "kingsley \<Rightarrow> kingsley" where
  "bins_clear k = k\<lparr>binmap := (\<lambda>_. 0), memoryHeld := 0\<rparr>"

fun freeAll :: "(nat \<Rightarrow> 'w heap \<Rightarrow> 'w heap) \<Rightarrow> nat list \<Rightarrow> 'w heap \<Rightarrow> 'w heap option" where
  "freeAll bfree [] h = Some (on_kz bins_clear h)"
| "freeAll bfree (i # is) h = Option.bind (drain bfree i h) (freeAll bfree is)"

definition strict_freeAll :: "(nat \<Rightarrow> 'w heap \<Rightarrow> 'w heap) \<Rightarrow> 'w heap \<Rightarrow> 'w heap option" where
  "strict_freeAll bfree h = freeAll bfree [0..<NUMBINS] h"

definition getNextArena :: "nat \<Rightarrow> 'w heap \<Rightarrow> ptr" where
  "getNextArena a h = dec (rd (a + 8) h)"

partial_function (option) delete_arenas :: "(nat \<Rightarrow> 'w heap \<Rightarrow> 'w heap) \<Rightarrow> ptr \<Rightarrow> 'w heap \<Rightarrow> 'w heap option" where
  "delete_arenas sfree p h =
     (case p of None \<Rightarrow> Some h | Some a \<Rightarrow> delete_arenas sfree (getNextArena a h) (sfree a h))"

definition zone_destroy :: "(nat \<Rightarrow> 'w heap \<Rightarrow> 'w heap) \<Rightarrow> 'w heap \<Rightarrow> 'w heap option" where
  "zone_destroy sfree h =
     map_option (\<lambda>h1. case currentArena (kz h1) of None \<Rightarrow> h1 | Some a \<Rightarrow> sfree a h1)
       (delete_arenas sfree (pastArenas (kz h)) h)"

section \<open>They end, and hand every object down once\<close>

text \<open>
  A heap below whose \<open>free\<close> leaves the lists alone. \<open>given\<close> is what one observes of it, and \<open>get\<close> how that changes when an object is
  given back.
\<close>

locale receiving_heap =
  fixes sfree :: "nat \<Rightarrow> 'w heap \<Rightarrow> 'w heap" and given :: "'w heap \<Rightarrow> 'g" and get :: "nat \<Rightarrow> 'g \<Rightarrow> 'g"
  assumes free_given: "given (sfree p h) = get p (given h)"
    and free_kz: "kz (sfree p h) = kz h"
    and free_mem: "q \<noteq> p \<Longrightarrow> load64 q (hmem (sfree p h)) = load64 q (hmem h)"
    and free_next: "q \<noteq> p \<Longrightarrow> load64 (q + 8) (hmem (sfree p h)) = load64 (q + 8) (hmem h)"
    and given_kz: "given (on_kz f h) = given h"
begin

lemma drain_all:
  assumes "chain (hmem h) (sl_head (kz h) i) xs" and "distinct xs"
  shows "\<exists>h'. drain sfree i h = Some h' \<and> given h' = fold get xs (given h) \<and> kz h' = (kz h)\<lparr>sl_head := (sl_head (kz h))(i := None)\<rparr>
     \<and> (\<forall>q. q \<notin> set xs \<longrightarrow> load64 q (hmem h') = load64 q (hmem h))"
  using assms
proof (induction xs arbitrary: h)
  case Nil
  then show ?case
    by (subst drain.simps) (simp add: adapt_malloc_def sl_get_def on_kz_def fun_upd_idem)
next
  case (Cons x xs)
  let ?h1 = "on_kz (\<lambda>k. k\<lparr>sl_head := (sl_head k)(i := dec (load64 x (hmem h)))\<rparr>) h"
  have hd: "sl_head (kz h) i = Some x" and ch: "chain (hmem h) (dec (load64 x (hmem h))) xs" using Cons.prems(1) by simp_all
  have m: "load64 q (hmem (sfree x ?h1)) = load64 q (hmem h)" if "q \<noteq> x" for q
    using free_mem [OF that, of ?h1] by (simp add: on_kz_def)
  have "chain (hmem (sfree x ?h1)) (dec (load64 x (hmem h))) xs"
  proof (rule chain_agree [OF ch])
    fix q assume "q \<in> set xs"
    with Cons.prems(2) have "q \<noteq> x" by auto
    then show "load64 q (hmem (sfree x ?h1)) = load64 q (hmem h)" by (rule m)
  qed
  then have "chain (hmem (sfree x ?h1)) (sl_head (kz (sfree x ?h1)) i) xs" by (simp add: free_kz) (simp add: on_kz_def)
  moreover have "distinct xs" using Cons.prems(2) by simp
  ultimately obtain h' where h': "drain sfree i (sfree x ?h1) = Some h'" "given h' = fold get xs (given (sfree x ?h1))"
    "kz h' = (kz (sfree x ?h1))\<lparr>sl_head := (sl_head (kz (sfree x ?h1)))(i := None)\<rparr>"
    "\<forall>q. q \<notin> set xs \<longrightarrow> load64 q (hmem h') = load64 q (hmem (sfree x ?h1))"
    using Cons.IH by blast
  have "drain sfree i h = drain sfree i (sfree x ?h1)" using hd by (subst drain.simps) (simp add: adapt_malloc_def sl_get_def)
  then have d: "drain sfree i h = Some h'" using h'(1) by simp
  have k: "kz h' = (kz h)\<lparr>sl_head := (sl_head (kz h))(i := None)\<rparr>" unfolding h'(3) free_kz by (simp add: on_kz_def)
  have g: "given h' = fold get (x # xs) (given h)" by (simp add: h'(2) free_given given_kz)
  have r: "\<forall>q. q \<notin> set (x # xs) \<longrightarrow> load64 q (hmem h') = load64 q (hmem h)" using h'(4) m by simp
  show ?case using d g k r by blast
qed

lemma adapt_clear_all:
  assumes "chain (hmem h) (sl_head (kz h) i) xs" and "distinct xs"
  shows "\<exists>h'. adapt_clear sfree (\<lambda>h. h) i h = Some h' \<and> given h' = fold get xs (given h) \<and> sl_head (kz h') i = None"
proof -
  from drain_all [OF assms] obtain h' where "drain sfree i h = Some h'" "given h' = fold get xs (given h)" by blast
  then show ?thesis by (simp add: adapt_clear_def given_kz) (simp add: on_kz_def sl_clear_def)
qed

text \<open>\<open>freeAll\<close> empties the bins one after the other.\<close>

lemma freeAll_all:
  assumes "\<And>i. i \<in> set is \<Longrightarrow> chain (hmem h) (sl_head (kz h) i) (xs i) \<and> distinct (xs i)" and "distinct is"
    and "\<And>i j. i \<in> set is \<Longrightarrow> j \<in> set is \<Longrightarrow> i \<noteq> j \<Longrightarrow> set (xs i) \<inter> set (xs j) = {}"
  shows "\<exists>h'. freeAll sfree is h = Some h' \<and> given h' = fold get (concat (map xs is)) (given h) \<and> memoryHeld (kz h') = 0
     \<and> (\<forall>i. sl_head (kz h') i = (if i \<in> set is then None else sl_head (kz h) i))"
  using assms
proof (induction "is" arbitrary: h)
  case (Cons i "is")
  from drain_all [of h i "xs i"] Cons.prems(1) obtain h1 where h1: "drain sfree i h = Some h1" "given h1 = fold get (xs i) (given h)"
    "kz h1 = (kz h)\<lparr>sl_head := (sl_head (kz h))(i := None)\<rparr>" "\<forall>q. q \<notin> set (xs i) \<longrightarrow> load64 q (hmem h1) = load64 q (hmem h)" by auto
  have "chain (hmem h1) (sl_head (kz h1) j) (xs j) \<and> distinct (xs j)" if j: "j \<in> set is" for j
  proof -
    have "j \<noteq> i" "set (xs i) \<inter> set (xs j) = {}" using Cons.prems(2,3) j by auto
    with Cons.prems(1) [of j] j h1(3,4) show ?thesis by (auto intro: chain_agree)
  qed
  from Cons.IH [OF this] Cons.prems(2,3) obtain h' where "freeAll sfree is h1 = Some h'" "given h' = fold get (concat (map xs is)) (given h1)"
    "memoryHeld (kz h') = 0" "\<forall>j. sl_head (kz h') j = (if j \<in> set is then None else sl_head (kz h1) j)" by auto
  with h1 show ?case by auto
qed (simp add: given_kz, simp add: on_kz_def bins_clear_def)

text \<open>The past arenas, linked through their second word.\<close>

fun arenas :: "mem \<Rightarrow> ptr \<Rightarrow> nat list \<Rightarrow> bool" where
  "arenas m p [] \<longleftrightarrow> p = None"
| "arenas m p (a # as) \<longleftrightarrow> p = Some a \<and> arenas m (dec (load64 (a + 8) m)) as"

lemma arenas_agree: "arenas m p as \<Longrightarrow> (\<And>a. a \<in> set as \<Longrightarrow> load64 (a + 8) m' = load64 (a + 8) m) \<Longrightarrow> arenas m' p as"
  by (induction as arbitrary: p) auto

lemma delete_arenas_all:
  assumes "arenas (hmem h) p as" and "distinct as"
  shows "\<exists>h'. delete_arenas sfree p h = Some h' \<and> given h' = fold get as (given h) \<and> kz h' = kz h"
  using assms
proof (induction as arbitrary: p h)
  case Nil
  then show ?case by (subst delete_arenas.simps) simp
next
  case (Cons a as)
  have "arenas (hmem (sfree a h)) (getNextArena a h) as"
  proof (rule arenas_agree [where m = "hmem h"])
    show "arenas (hmem h) (getNextArena a h) as" using Cons.prems(1) by (simp add: getNextArena_def rd_def)
    show "load64 (b + 8) (hmem (sfree a h)) = load64 (b + 8) (hmem h)" if "b \<in> set as" for b
      using Cons.prems(2) that by (intro free_next) auto
  qed
  from Cons.IH [OF this] Cons.prems(2) obtain h' where "delete_arenas sfree (getNextArena a h) (sfree a h) = Some h'"
    "given h' = fold get as (given (sfree a h))" "kz h' = kz (sfree a h)" by auto
  with Cons.prems(1) show ?case by (subst delete_arenas.simps) (simp add: free_given free_kz)
qed

lemma zone_destroy_all:
  assumes "arenas (hmem h) (pastArenas (kz h)) as" and "distinct as"
  shows "\<exists>h'. zone_destroy sfree h = Some h' \<and> given h' = fold get (as @ (case currentArena (kz h) of None \<Rightarrow> [] | Some a \<Rightarrow> [a])) (given h)"
proof -
  from delete_arenas_all [OF assms] obtain h' where h': "delete_arenas sfree (pastArenas (kz h)) h = Some h'" "given h' = fold get as (given h)"
    "kz h' = kz h" by blast
  then show ?thesis by (cases "currentArena (kz h)") (simp_all add: zone_destroy_def free_given)
qed

end

text \<open>A heap that records what it is given, the receiver of everything else.\<close>

definition note_free :: "nat \<Rightarrow> (nat list) heap \<Rightarrow> (nat list) heap" where
  "note_free p h = h\<lparr>source := source h @ [p]\<rparr>"

interpretation receiver: receiving_heap note_free source "\<lambda>p g. g @ [p]"
  by unfold_locales (auto simp: note_free_def on_kz_def)

text \<open>The heap below the free lists and the big heap of dthreads keeps what it is given and does nothing.\<close>

interpretation zone_below: receiving_heap zone_free "\<lambda>h. (hmem h, source h)" "\<lambda>p g. g"
  by unfold_locales (auto simp: zone_free_def on_kz_def)

text \<open>A list that leads back to itself is never empty.\<close>

lemma drain_cycle:
  assumes "sl_head (kz h) i = Some x" and "dec (load64 x (hmem h)) = Some x"
  shows "fst (adapt_malloc i h) = Some x" "snd (adapt_malloc i h) = h"
  using assms by (simp_all add: adapt_malloc_def sl_get_def on_kz_def fun_upd_idem)

end
