(* ===== verification/FreeLists.thy ===== *)
theory FreeLists
  imports Prelude
begin

text \<open>
  The free-list layers of \<open>src/include/heaplayers\<close> for objects of one size: \<open>FreeSLList\<close> with \<open>FreelistHeap\<close>, \<open>BoundedFreeListHeap\<close>,
  \<open>FIFOFreelistHeap\<close> and \<open>FirstFitHeap\<close>. A free object keeps the link to the next one in its first word; \<open>next\<close> is that word of every address.
  The heap below is two arguments, its \<open>malloc\<close> and its \<open>free\<close>, over a state \<open>'s\<close>.
\<close>

type_synonym nexts = "nat \<Rightarrow> ptr"

fun linked_list :: "nexts \<Rightarrow> ptr \<Rightarrow> nat list \<Rightarrow> bool" where
  "linked_list nx p [] \<longleftrightarrow> p = None"
| "linked_list nx p (x # xs) \<longleftrightarrow> p = Some x \<and> linked_list nx (nx x) xs"

lemma linked_upd: "x \<notin> set xs \<Longrightarrow> linked_list (nx(x := q)) p xs = linked_list nx p xs"
  by (induction xs arbitrary: p) auto

lemma linked_same: "(\<And>x. x \<in> set xs \<Longrightarrow> nx' x = nx x) \<Longrightarrow> linked_list nx' p xs = linked_list nx p xs"
  by (induction xs arbitrary: p) auto

lemma linked_unique: "linked_list nx p xs \<Longrightarrow> linked_list nx p ys \<Longrightarrow> xs = ys"
proof (induction xs arbitrary: p ys)
  case Nil
  then show ?case by (cases ys) auto
next
  case (Cons x xs)
  then show ?case by (cases ys) auto
qed

text \<open>A list that is linked to its end has no repetition: else it would go round.\<close>

lemma linked_suffix: "linked_list nx p (xs @ ys) \<Longrightarrow> \<exists>q. linked_list nx q ys"
  by (induction xs arbitrary: p) auto

lemma linked_distinct: "linked_list nx p xs \<Longrightarrow> distinct xs"
proof (induction xs arbitrary: p)
  case (Cons x xs)
  have "x \<notin> set xs"
  proof
    assume "x \<in> set xs"
    then obtain ys zs where xs: "xs = ys @ x # zs" by (meson split_list)
    with Cons.prems obtain q where "linked_list nx q (x # zs)" using linked_suffix [of nx "nx x" ys "x # zs"] by auto
    then have "linked_list nx (nx x) zs" by simp
    moreover have "linked_list nx (nx x) xs" using Cons.prems by simp
    ultimately have "zs = xs" by (rule linked_unique)
    moreover have "length xs = Suc (length ys + length zs)" using xs by simp
    ultimately show False by simp
  qed
  with Cons show ?case by auto
qed simp

section \<open>FreeSLList and FreelistHeap\<close>

definition fsl_clear :: ptr where
  "fsl_clear = None"

definition fsl_get :: "ptr \<Rightarrow> nexts \<Rightarrow> ptr \<times> ptr" where
  "fsl_get head nx = (case head of None \<Rightarrow> (None, head) | Some e \<Rightarrow> (Some e, nx e))"

definition fsl_remove :: "ptr \<Rightarrow> nexts \<Rightarrow> ptr \<times> ptr" where
  "fsl_remove head nx = (case head of None \<Rightarrow> (None, head) | Some e \<Rightarrow> (Some e, nx e))"

definition fsl_insert :: "nat \<Rightarrow> ptr \<Rightarrow> nexts \<Rightarrow> ptr \<times> nexts" where
  "fsl_insert e head nx = (Some e, nx(e := head))"

record 's freelist =
  fl_head :: ptr
  fl_next :: nexts
  fl_super :: 's

definition fl_malloc :: "(ulong \<Rightarrow> 's \<Rightarrow> ptr \<times> 's) \<Rightarrow> ulong \<Rightarrow> 's freelist \<Rightarrow> ptr \<times> 's freelist" where
  "fl_malloc smalloc sz f =
     (case fsl_get (fl_head f) (fl_next f) of
        (None, _) \<Rightarrow> (case smalloc sz (fl_super f) of (p, s) \<Rightarrow> (p, f\<lparr>fl_super := s\<rparr>))
      | (Some e, head) \<Rightarrow> (Some e, f\<lparr>fl_head := head\<rparr>))"

definition fl_free :: "ptr \<Rightarrow> 's freelist \<Rightarrow> 's freelist" where
  "fl_free p f =
     (case p of None \<Rightarrow> f
      | Some e \<Rightarrow> (case fsl_insert e (fl_head f) (fl_next f) of (head, nx) \<Rightarrow> f\<lparr>fl_head := head, fl_next := nx\<rparr>))"

partial_function (option) fl_clear :: "(nat \<Rightarrow> 's \<Rightarrow> 's) \<Rightarrow> 's freelist \<Rightarrow> 's freelist option" where
  "fl_clear sfree f =
     (case fsl_get (fl_head f) (fl_next f) of
        (None, _) \<Rightarrow> Some f
      | (Some e, head) \<Rightarrow> fl_clear sfree (f\<lparr>fl_head := head, fl_super := sfree e (fl_super f)\<rparr>))"

text \<open>The heap is a stack of free objects on top of the heap below.\<close>

definition flist_of :: "nat list \<Rightarrow> 's freelist \<Rightarrow> bool" where
  "flist_of xs f \<longleftrightarrow> linked_list (fl_next f) (fl_head f) xs"

lemma fl_malloc_holds:
  assumes "flist_of xs f"
  shows "case xs of [] \<Rightarrow> fl_malloc smalloc sz f = (fst (smalloc sz (fl_super f)), f\<lparr>fl_super := snd (smalloc sz (fl_super f))\<rparr>)
    | x # ys \<Rightarrow> \<exists>f'. fl_malloc smalloc sz f = (Some x, f') \<and> flist_of ys f' \<and> fl_super f' = fl_super f"
  using assms by (cases xs) (auto simp: flist_of_def fl_malloc_def fsl_get_def split: prod.split)

lemma fl_free_holds:
  assumes "flist_of xs f" and "x \<notin> set xs"
  shows "flist_of (x # xs) (fl_free (Some x) f)" "fl_super (fl_free (Some x) f) = fl_super f"
  using assms by (simp_all add: flist_of_def fl_free_def fsl_insert_def linked_upd)

lemma fl_clear_holds:
  "flist_of xs f \<Longrightarrow> \<exists>f'. fl_clear sfree f = Some f' \<and> flist_of [] f' \<and> fl_super f' = fold sfree xs (fl_super f)"
proof (induction xs arbitrary: f)
  case Nil
  then show ?case by (subst fl_clear.simps) (simp add: flist_of_def fsl_get_def)
next
  case (Cons x xs)
  let ?f = "f\<lparr>fl_head := fl_next f x, fl_super := sfree x (fl_super f)\<rparr>"
  have "flist_of xs ?f" using Cons.prems by (simp add: flist_of_def)
  from Cons.IH [OF this] Cons.prems show ?case by (subst fl_clear.simps) (simp add: flist_of_def fsl_get_def)
qed

section \<open>BoundedFreeListHeap\<close>

record 's bounded = "'s freelist" +
  bl_nObjects :: cint

definition bl_init :: "nexts \<Rightarrow> 's \<Rightarrow> 's bounded" where
  "bl_init nx s = \<lparr>fl_head = None, fl_next = nx, fl_super = s, bl_nObjects = 0\<rparr>"

definition bl_malloc :: "(ulong \<Rightarrow> 's \<Rightarrow> ptr \<times> 's) \<Rightarrow> ulong \<Rightarrow> 's bounded \<Rightarrow> ptr \<times> 's bounded" where
  "bl_malloc smalloc sz f =
     (case fl_head f of
        None \<Rightarrow> (case smalloc sz (fl_super f) of (p, s) \<Rightarrow> (p, f\<lparr>fl_super := s\<rparr>))
      | Some e \<Rightarrow> (Some e, f\<lparr>fl_head := fl_next f e\<rparr>))"

partial_function (option) bl_delete :: "(nat \<Rightarrow> 's \<Rightarrow> 's) \<Rightarrow> ptr \<Rightarrow> 's bounded \<Rightarrow> 's bounded option" where
  "bl_delete sfree p f =
     (case p of None \<Rightarrow> Some f
      | Some e \<Rightarrow> bl_delete sfree (fl_next f e) (f\<lparr>fl_super := sfree e (fl_super f)\<rparr>))"

definition bl_clear :: "(nat \<Rightarrow> 's \<Rightarrow> 's) \<Rightarrow> 's bounded \<Rightarrow> 's bounded option" where
  "bl_clear sfree f = map_option (\<lambda>f1. f1\<lparr>fl_head := None, bl_nObjects := 0\<rparr>) (bl_delete sfree (fl_head f) f)"

definition bl_free :: "(nat \<Rightarrow> 's \<Rightarrow> 's) \<Rightarrow> cint \<Rightarrow> nat \<Rightarrow> 's bounded \<Rightarrow> 's bounded option" where
  "bl_free sfree numObjects p f =
     (if bl_nObjects f <s numObjects
      then Some (f\<lparr>fl_next := (fl_next f)(p := fl_head f), fl_head := Some p, bl_nObjects := bl_nObjects f + 1\<rparr>)
      else bl_clear sfree f)"

definition bl_holds :: "nat list \<Rightarrow> 's bounded \<Rightarrow> bool" where
  "bl_holds xs f \<longleftrightarrow> linked_list (fl_next f) (fl_head f) xs"

lemma bl_delete_holds:
  "linked_list (fl_next f) p xs \<Longrightarrow> bl_delete sfree p f = Some (f\<lparr>fl_super := fold sfree xs (fl_super f)\<rparr>)"
proof (induction xs arbitrary: f p)
  case (Cons x xs)
  have "linked_list (fl_next (f\<lparr>fl_super := sfree x (fl_super f)\<rparr>)) (fl_next f x) xs" using Cons.prems by simp
  from Cons.IH [OF this] Cons.prems show ?case by (subst bl_delete.simps) simp
qed (subst bl_delete.simps, simp)

text \<open>A full heap gives the objects of its list to the heap below, and drops the one that is being freed.\<close>

lemma bl_free_full:
  assumes "bl_holds xs f" and "\<not> bl_nObjects f <s numObjects"
  shows "\<exists>f'. bl_free sfree numObjects p f = Some f' \<and> bl_holds [] f' \<and> fl_super f' = fold sfree xs (fl_super f) \<and> bl_nObjects f' = 0"
  using assms by (simp add: bl_free_def bl_clear_def bl_holds_def bl_delete_holds)

lemma bl_free_room:
  assumes "bl_holds xs f" and "bl_nObjects f <s numObjects" and "p \<notin> set xs"
  shows "\<exists>f'. bl_free sfree numObjects p f = Some f' \<and> bl_holds (p # xs) f' \<and> fl_super f' = fl_super f \<and> bl_nObjects f' = bl_nObjects f + 1"
  using assms by (simp add: bl_free_def bl_holds_def linked_upd)

text \<open>\<open>malloc\<close> does not count down: a heap that is given and asked for one object in turn calls itself full although its list is empty.\<close>

fun in_turn :: "(nat \<Rightarrow> 's \<Rightarrow> 's) \<Rightarrow> (ulong \<Rightarrow> 's \<Rightarrow> ptr \<times> 's) \<Rightarrow> cint \<Rightarrow> nat \<Rightarrow> nat \<Rightarrow> 's bounded \<Rightarrow> 's bounded option" where
  "in_turn sfree smalloc m p 0 f = Some f"
| "in_turn sfree smalloc m p (Suc n) f =
     Option.bind (bl_free sfree m p f) (\<lambda>f1. in_turn sfree smalloc m p n (snd (bl_malloc smalloc 8 f1)))"

lemma sless_of_nat:
  assumes "k < unat m" and "unat m < 2 ^ 31"
  shows "(word_of_nat k :: cint) <s m"
proof -
  have k: "unat (word_of_nat k :: cint) = k" by (rule unat_of_nat_small) (use assms in simp)
  have "sint (word_of_nat k :: cint) = int k" using sint_small [of "word_of_nat k"] assms by (simp only: k)
  moreover have "sint m = int (unat m)" by (rule sint_small [OF assms(2)])
  ultimately show ?thesis using assms(1) by (simp only: word_sless_alt of_nat_less_iff)
qed

lemma in_turn_counts:
  assumes "bl_holds [] f" and "bl_nObjects f = of_nat k" and "k + n \<le> unat m" and "unat m < 2 ^ 31"
  shows "\<exists>f'. in_turn sfree smalloc m p n f = Some f' \<and> bl_holds [] f' \<and> bl_nObjects f' = of_nat (k + n) \<and> fl_super f' = fl_super f"
  using assms
proof (induction n arbitrary: f k)
  case (Suc n)
  have "(of_nat k :: cint) <s m" by (rule sless_of_nat) (use Suc.prems(3,4) in auto)
  then have room: "bl_nObjects f <s m" using Suc.prems(2) by simp
  let ?f1 = "f\<lparr>fl_next := (fl_next f)(p := fl_head f), fl_head := Some p, bl_nObjects := bl_nObjects f + 1\<rparr>"
  let ?f2 = "snd (bl_malloc smalloc 8 ?f1)"
  have "bl_free sfree m p f = Some ?f1" using room by (simp add: bl_free_def)
  moreover have "bl_holds [] ?f2" "bl_nObjects ?f2 = of_nat (Suc k)" "fl_super ?f2 = fl_super f"
    using Suc.prems(1,2) by (simp_all add: bl_malloc_def bl_holds_def)
  moreover from Suc.IH [of ?f2 "Suc k"] this Suc.prems(3,4) obtain f' where "in_turn sfree smalloc m p n ?f2 = Some f'" "bl_holds [] f'"
    "bl_nObjects f' = of_nat (Suc k + n)" "fl_super f' = fl_super ?f2" by auto
  ultimately show ?case by simp
qed simp

section \<open>FirstFitHeap\<close>

text \<open>\<open>getSize\<close> is the heap's below. The search keeps the predecessor.\<close>

partial_function (option) ft_search :: "(nat \<Rightarrow> bool) \<Rightarrow> nexts \<Rightarrow> ptr \<Rightarrow> ptr \<Rightarrow> (ptr \<times> ptr) option" where
  "ft_search go nx prev p =
     (if p \<noteq> None \<and> go (the p) then ft_search go nx p (nx (the p)) else Some (prev, p))"

definition ft_malloc :: "(nat \<Rightarrow> ulong) \<Rightarrow> (ulong \<Rightarrow> 's \<Rightarrow> ptr \<times> 's) \<Rightarrow> ulong \<Rightarrow> 's freelist \<Rightarrow> (ptr \<times> 's freelist) option" where
  "ft_malloc getSize smalloc sz f =
     (case fl_head f of
        None \<Rightarrow> Some (case smalloc sz (fl_super f) of (p, s) \<Rightarrow> (p, f\<lparr>fl_super := s\<rparr>))
      | Some _ \<Rightarrow> map_option (\<lambda>(prev, p).
          case p of
            None \<Rightarrow> (case smalloc sz (fl_super f) of (q, s) \<Rightarrow> (q, f\<lparr>fl_super := s\<rparr>))
          | Some e \<Rightarrow> (Some e, case prev of None \<Rightarrow> f\<lparr>fl_head := fl_next f e\<rparr>
                                      | Some d \<Rightarrow> f\<lparr>fl_next := (fl_next f)(d := fl_next f e)\<rparr>))
          (ft_search (\<lambda>e. getSize e < sz) (fl_next f) None (fl_head f)))"

definition ft_free :: "nat \<Rightarrow> 's freelist \<Rightarrow> 's freelist option" where
  "ft_free a f =
     map_option (\<lambda>(prev, _).
       case prev of None \<Rightarrow> f\<lparr>fl_next := (fl_next f)(a := fl_head f), fl_head := Some a\<rparr>
       | Some d \<Rightarrow> f\<lparr>fl_next := (fl_next f)(a := fl_next f d, d := Some a)\<rparr>)
       (ft_search (\<lambda>e. e \<le> a) (fl_next f) None (fl_head f))"

text \<open>The destructor hands the whole list down.\<close>

partial_function (option) ft_destroy :: "(nat \<Rightarrow> 's \<Rightarrow> 's) \<Rightarrow> nexts \<Rightarrow> ptr \<Rightarrow> 's \<Rightarrow> 's option" where
  "ft_destroy sfree nx p s = (case p of None \<Rightarrow> Some s | Some e \<Rightarrow> ft_destroy sfree nx (nx e) (sfree e s))"

lemma ft_destroy_holds: "linked_list nx p xs \<Longrightarrow> ft_destroy sfree nx p s = Some (fold sfree xs s)"
proof (induction xs arbitrary: p s)
  case (Cons x xs)
  then show ?case by (subst ft_destroy.simps) simp
qed (subst ft_destroy.simps, simp)

lemma ft_search_spec:
  "linked_list nx p xs \<Longrightarrow>
     ft_search go nx prev p = Some (if takeWhile go xs = [] then prev else Some (last (takeWhile go xs)),
       case dropWhile go xs of [] \<Rightarrow> None | e # es \<Rightarrow> Some e)"
proof (induction xs arbitrary: p prev)
  case (Cons x xs)
  show ?case
  proof (cases "go x")
    case True
    have "linked_list nx (nx x) xs" using Cons.prems by simp
    from Cons.IH [OF this] Cons.prems True show ?thesis by (subst ft_search.simps) simp
  next
    case False
    then show ?thesis using Cons.prems by (subst ft_search.simps) simp
  qed
qed (subst ft_search.simps, simp)

text \<open>The link of \<open>d\<close> is changed: before \<open>d\<close> the list is the same, after it the new one.\<close>

lemma linked_splice:
  assumes "linked_list nx p (as @ d # bs)" and "linked_list (nx(d := q)) q cs"
  shows "linked_list (nx(d := q)) p (as @ d # cs)"
proof -
  have "d \<notin> set as" using linked_distinct [OF assms(1)] by simp
  with assms show ?thesis by (induction as arbitrary: p) auto
qed

theorem ft_malloc_first_fit:
  assumes "flist_of xs f"
  shows "case dropWhile (\<lambda>e. getSize e < sz) xs of
      [] \<Rightarrow> ft_malloc getSize smalloc sz f = Some (fst (smalloc sz (fl_super f)), f\<lparr>fl_super := snd (smalloc sz (fl_super f))\<rparr>)
    | e # es \<Rightarrow> \<exists>f'. ft_malloc getSize smalloc sz f = Some (Some e, f') \<and> fl_super f' = fl_super f
        \<and> flist_of (takeWhile (\<lambda>e. getSize e < sz) xs @ es) f'"
proof (cases "dropWhile (\<lambda>e. getSize e < sz) xs")
  case Nil
  obtain d where "ft_search (\<lambda>e. getSize e < sz) (fl_next f) None (fl_head f) = Some (d, None)"
    using ft_search_spec [of "fl_next f" "fl_head f" xs "\<lambda>e. getSize e < sz" None] assms
    by (simp only: flist_of_def Nil list.case)
  then show ?thesis unfolding Nil list.case by (cases "fl_head f") (simp_all add: ft_malloc_def case_prod_unfold)
next
  case (Cons e es)
  let ?as = "takeWhile (\<lambda>e. getSize e < sz) xs"
  have xs: "xs = ?as @ e # es" using takeWhile_dropWhile_id [of "\<lambda>e. getSize e < sz" xs] Cons by simp
  have l: "linked_list (fl_next f) (fl_head f) (?as @ e # es)" using assms xs by (simp add: flist_of_def)
  have ne: "fl_head f \<noteq> None" using assms xs by (cases xs) (auto simp: flist_of_def)
  have s: "ft_search (\<lambda>e. getSize e < sz) (fl_next f) None (fl_head f) = Some (if ?as = [] then None else Some (last ?as), Some e)"
    using ft_search_spec [of "fl_next f" "fl_head f" xs] assms Cons by (simp add: flist_of_def)
  have e: "linked_list (fl_next f) (fl_next f e) es"
    using linked_suffix [OF l] by auto
  show ?thesis
  proof (cases "?as = []")
    case True
    then show ?thesis using Cons s ne e by (auto simp: ft_malloc_def flist_of_def)
  next
    case False
    then have as: "?as = butlast ?as @ [last ?as]" by simp
    have d: "last ?as \<notin> set es" using linked_distinct [OF l] False by (metis Un_iff disjoint_insert(2) distinct_append last_in_set list.simps(15) IntI empty_iff insertI2)
    have "linked_list (fl_next f) (fl_head f) (butlast ?as @ last ?as # e # es)" using l as by (metis append.assoc append_Cons append_Nil)
    then have "linked_list ((fl_next f)(last ?as := fl_next f e)) (fl_head f) (butlast ?as @ last ?as # es)"
      by (rule linked_splice) (use d e in \<open>simp add: linked_upd\<close>)
    then have "flist_of (?as @ es) (f\<lparr>fl_next := (fl_next f)(last ?as := fl_next f e)\<rparr>)"
      using as by (simp add: flist_of_def) (metis append.assoc append_Cons append_Nil)
    then show ?thesis using Cons s ne False by (auto simp: ft_malloc_def)
  qed
qed

lemma insort_split: "sorted xs \<Longrightarrow> a \<notin> set xs \<Longrightarrow> takeWhile (\<lambda>e. e \<le> a) xs @ a # dropWhile (\<lambda>e. e \<le> a) xs = insort a xs"
  by (induction xs) (auto simp: insort_is_Cons dest!: order_le_neq_trans)

theorem ft_free_sorted:
  assumes h: "flist_of xs f" and sorted: "sorted xs" and a: "a \<notin> set xs"
  shows "\<exists>f'. ft_free a f = Some f' \<and> flist_of (insort a xs) f' \<and> fl_super f' = fl_super f"
proof -
  let ?as = "takeWhile (\<lambda>e. e \<le> a) xs" and ?bs = "dropWhile (\<lambda>e. e \<le> a) xs"
  have l: "linked_list (fl_next f) (fl_head f) (?as @ ?bs)" using h by (simp add: flist_of_def)
  have s: "ft_search (\<lambda>e. e \<le> a) (fl_next f) None (fl_head f) = Some (if ?as = [] then None else Some (last ?as), case ?bs of [] \<Rightarrow> None | e # es \<Rightarrow> Some e)"
    using ft_search_spec h by (simp add: flist_of_def)
  have ab: "a \<notin> set ?bs" using a by (auto dest: set_dropWhileD)
  show ?thesis
  proof (cases "?as = []")
    case True
    have "xs = ?bs" using True takeWhile_dropWhile_id [of "\<lambda>e. e \<le> a" xs] by simp
    then have "insort a xs = a # xs" using insort_split [OF sorted a] True by simp
    then have "flist_of (insort a xs) (f\<lparr>fl_next := (fl_next f)(a := fl_head f), fl_head := Some a\<rparr>)"
      using h a by (simp add: flist_of_def linked_upd)
    then show ?thesis using s True by (simp add: ft_free_def)
  next
    case False
    let ?d = "last ?as"
    have as: "?as = butlast ?as @ [?d]" using False by simp
    have dx: "?d \<in> set xs" using False by (meson last_in_set set_takeWhileD)
    then have da: "?d \<noteq> a" using a by metis
    have "linked_list (fl_next f) (fl_head f) (butlast ?as @ ?d # ?bs)" using l as by (metis append.assoc append_Cons append_Nil)
    then have l': "linked_list ((fl_next f)(a := fl_next f ?d)) (fl_head f) (butlast ?as @ ?d # ?bs)" and b: "linked_list (fl_next f) (fl_next f ?d) ?bs"
      and db: "?d \<notin> set ?bs"
    proof -
      assume l1: "linked_list (fl_next f) (fl_head f) (butlast ?as @ ?d # ?bs)"
      have "set (butlast ?as @ ?d # ?bs) = set xs" using as by (metis append.assoc append_Cons append_Nil takeWhile_dropWhile_id)
      then show "linked_list ((fl_next f)(a := fl_next f ?d)) (fl_head f) (butlast ?as @ ?d # ?bs)" 
        by (intro linked_upd [THEN iffD2, OF _ l1]) (use a in simp)
      show "linked_list (fl_next f) (fl_next f ?d) ?bs" using linked_suffix [OF l1] by auto
      show "?d \<notin> set ?bs" using linked_distinct [OF l1] by simp
    qed
    have "linked_list ((fl_next f)(a := fl_next f ?d, ?d := Some a)) (fl_head f) (butlast ?as @ ?d # a # ?bs)"
      by (rule linked_splice [OF l']) (use da b db ab in \<open>simp add: linked_upd\<close>)
    then have "flist_of (insort a xs) (f\<lparr>fl_next := (fl_next f)(a := fl_next f ?d, ?d := Some a)\<rparr>)"
      using insort_split [OF sorted a] as by (simp add: flist_of_def) (metis append.assoc append_Cons append_Nil)
    then show ?thesis using s False by (simp add: ft_free_def)
  qed
qed

section \<open>FIFOFreelistHeap\<close>

text \<open>
  \<open>head\<close> and \<open>tail\<close> are objects of the heap itself; their addresses are \<open>H\<close> and \<open>T\<close>. \<open>tail.next\<close> is the last free object. No link is ever
  NULL, so links are plain addresses.
\<close>

record 's fifo =
  ff_next :: "nat \<Rightarrow> nat"
  ff_super :: 's

definition ff_init :: "nat \<Rightarrow> nat \<Rightarrow> 's fifo \<Rightarrow> 's fifo" where
  "ff_init H T f = f\<lparr>ff_next := (ff_next f)(H := T, T := T)\<rparr>"

definition ff_isEmpty :: "nat \<Rightarrow> nat \<Rightarrow> 's fifo \<Rightarrow> bool" where
  "ff_isEmpty H T f = (ff_next f H = T)"

definition ff_malloc :: "nat \<Rightarrow> nat \<Rightarrow> (ulong \<Rightarrow> 's \<Rightarrow> ptr \<times> 's) \<Rightarrow> ulong \<Rightarrow> 's fifo \<Rightarrow> ptr \<times> 's fifo" where
  "ff_malloc H T smalloc sz f =
     (let p = ff_next f H
      in if p = T then (case smalloc sz (ff_super f) of (q, s) \<Rightarrow> (q, f\<lparr>ff_super := s\<rparr>))
         else (let f1 = f\<lparr>ff_next := (ff_next f)(H := ff_next f p)\<rparr>
               in (Some p, if ff_next f1 H = T then f1\<lparr>ff_next := (ff_next f1)(T := T)\<rparr> else f1)))"

definition ff_free :: "nat \<Rightarrow> nat \<Rightarrow> nat \<Rightarrow> 's fifo \<Rightarrow> 's fifo" where
  "ff_free H T p f =
     (let n1 = (ff_next f)(p := T); n2 = n1(n1 T := p); n3 = n2(T := p)
      in f\<lparr>ff_next := if n3 H = T then n3(H := p) else n3\<rparr>)"

partial_function (option) ff_destroy :: "nat \<Rightarrow> (nat \<Rightarrow> 's \<Rightarrow> 's) \<Rightarrow> nat \<Rightarrow> 's fifo \<Rightarrow> 's fifo option" where
  "ff_destroy T sfree p f =
     (if p = T then Some f else ff_destroy T sfree (ff_next f p) (f\<lparr>ff_super := sfree p (ff_super f)\<rparr>))"

fun path :: "(nat \<Rightarrow> nat) \<Rightarrow> nat \<Rightarrow> nat list \<Rightarrow> nat \<Rightarrow> bool" where
  "path nx p [] q \<longleftrightarrow> p = q"
| "path nx p (x # xs) q \<longleftrightarrow> p = x \<and> path nx (nx x) xs q"

definition queue_of :: "nat \<Rightarrow> nat \<Rightarrow> nat list \<Rightarrow> 's fifo \<Rightarrow> bool" where
  "queue_of H T xs f \<longleftrightarrow> H \<noteq> T \<and> H \<notin> set xs \<and> T \<notin> set xs \<and> distinct xs \<and> path (ff_next f) (ff_next f H) xs T
     \<and> ff_next f T = (if xs = [] then T else last xs)"

lemma path_upd: "x \<notin> set xs \<Longrightarrow> path (nx(x := q)) p xs e = path nx p xs e"
  by (induction xs arbitrary: p) auto

lemma path_snoc: "path nx p (xs @ [x]) e \<longleftrightarrow> path nx p xs x \<and> nx x = e"
  by (induction xs arbitrary: p) auto

lemma path_end: "path nx p xs e \<Longrightarrow> xs \<noteq> [] \<Longrightarrow> distinct xs \<Longrightarrow> path (nx(last xs := q)) p xs q"
proof (induction xs arbitrary: p)
  case (Cons x xs)
  then show ?case
  proof (cases "xs = []")
    case False
    then have "last xs \<noteq> x" "last (x # xs) = last xs" using Cons.prems(3) by auto
    with Cons False show ?thesis by auto
  qed simp
qed simp

lemma ff_init_queue: "H \<noteq> T \<Longrightarrow> queue_of H T [] (ff_init H T f)"
  by (simp add: queue_of_def ff_init_def)

theorem ff_malloc_queue:
  assumes "queue_of H T xs f"
  shows "case xs of [] \<Rightarrow> ff_malloc H T smalloc sz f = (fst (smalloc sz (ff_super f)), f\<lparr>ff_super := snd (smalloc sz (ff_super f))\<rparr>)
    | x # ys \<Rightarrow> \<exists>f'. ff_malloc H T smalloc sz f = (Some x, f') \<and> queue_of H T ys f' \<and> ff_super f' = ff_super f"
proof (cases xs)
  case Nil
  then show ?thesis using assms by (simp add: queue_of_def ff_malloc_def Let_def case_prod_unfold)
next
  case (Cons x ys)
  have x: "ff_next f H = x" "x \<noteq> T" "path (ff_next f) (ff_next f x) ys T" "H \<notin> set ys" "T \<notin> set ys" "H \<noteq> T" "x \<noteq> H"
    using assms Cons by (auto simp: queue_of_def)
  have e: "ff_next f x = T \<longleftrightarrow> ys = []" using x(3,5) by (cases ys) auto
  have "ff_malloc H T smalloc sz f = (Some x, f\<lparr>ff_next := if ys = [] then (ff_next f)(H := T, T := T) else (ff_next f)(H := ff_next f x)\<rparr>)"
    using x(1,2) e by (cases "ys = []") (simp_all add: ff_malloc_def Let_def)
  moreover have "queue_of H T ys (f\<lparr>ff_next := if ys = [] then (ff_next f)(H := T, T := T) else (ff_next f)(H := ff_next f x)\<rparr>)"
    using assms Cons x by (auto simp: queue_of_def path_upd)
  ultimately show ?thesis using Cons by simp
qed

theorem ff_free_queue:
  assumes q: "queue_of H T xs f" and p: "p \<notin> set xs" "p \<noteq> H" "p \<noteq> T"
  shows "queue_of H T (xs @ [p]) (ff_free H T p f)" "ff_super (ff_free H T p f) = ff_super f"
proof -
  show "ff_super (ff_free H T p f) = ff_super f" by (simp add: ff_free_def Let_def)
  show "queue_of H T (xs @ [p]) (ff_free H T p f)"
  proof (cases "xs = []")
    case True
    then show ?thesis using q p by (simp add: queue_of_def ff_free_def Let_def)
  next
    case False
    let ?n = "(ff_next f)(p := T, last xs := p, T := p)"
    have l: "last xs \<noteq> H" "last xs \<noteq> p" "last xs \<noteq> T" using q p False by (auto simp: queue_of_def)
    have h: "ff_next f H \<noteq> T" using q False by (cases xs) (auto simp: queue_of_def)
    have "ff_free H T p f = f\<lparr>ff_next := ?n\<rparr>" using q p False h l by (auto simp: ff_free_def Let_def queue_of_def)
    moreover have "path ?n (ff_next f H) xs p"
    proof -
      have "path (ff_next f) (ff_next f H) xs T" "p \<notin> set xs" "T \<notin> set xs" "distinct xs" using q p by (auto simp: queue_of_def)
      then have "path ((ff_next f)(p := T)) (ff_next f H) xs T" by (simp add: path_upd)
      from path_end [OF this False \<open>distinct xs\<close>] have "path ((ff_next f)(p := T, last xs := p)) (ff_next f H) xs p" .
      then show ?thesis using \<open>T \<notin> set xs\<close> by (simp only: path_upd not_False_eq_True)
    qed
    ultimately show ?thesis using q p l by (simp add: queue_of_def path_snoc)
  qed
qed

lemma ff_destroy_queue:
  "path (ff_next f) p xs T \<Longrightarrow> T \<notin> set xs \<Longrightarrow> ff_destroy T sfree p f = Some (f\<lparr>ff_super := fold sfree xs (ff_super f)\<rparr>)"
proof (induction xs arbitrary: p f)
  case (Cons x xs)
  let ?f = "f\<lparr>ff_super := sfree x (ff_super f)\<rparr>"
  have "ff_destroy T sfree p f = ff_destroy T sfree (ff_next f x) ?f" using Cons.prems by (subst ff_destroy.simps) simp
  also have "\<dots> = Some (?f\<lparr>ff_super := fold sfree xs (ff_super ?f)\<rparr>)" by (rule Cons.IH) (use Cons.prems in simp_all)
  finally show ?case by simp
qed (subst ff_destroy.simps, simp)

end
