(* ===== verification/DLists.thy ===== *)
theory DLists
  imports Links HeapLayers
begin

text \<open>
  The doubly linked lists of \<open>src/include/heaplayers\<close>: \<open>DLList\<close> (\<open>util/dllist.h\<close>), the queue of \<open>FIFODLFreelistHeap\<close> (\<open>fifodlfreelist.h\<close>) and the
  children of \<open>NestedHeap\<close> (\<open>nestedheap.h\<close>). The first and the last are over the store of nodes of \<open>Links\<close>, the queue is in the memory, where its links take the first
  16 bytes of the freed objects. Following NULL is the failure \<open>NullDeref\<close>.
\<close>

section \<open>DLList\<close>

definition dl_clear :: ptr where
  "dl_clear = None"

definition dl_isEmpty :: "ptr \<Rightarrow> bool" where
  "dl_isEmpty head = (head = None)"

definition dl_get :: "ptr \<Rightarrow> links \<Rightarrow> ptr \<times> ptr \<times> links" where
  "dl_get head ns =
     (case head of None \<Rightarrow> (None, None, ns)
      | Some e \<Rightarrow> (let head' = entry_next (ns e)
                  in (Some e, head', case head' of None \<Rightarrow> ns | Some h \<Rightarrow> set_prev h None ns)))"

definition dl_remove :: "nat \<Rightarrow> ptr \<Rightarrow> links \<Rightarrow> (ptr \<times> links) result" where
  "dl_remove e head ns =
     (if head \<noteq> Some e
      then res_bind (deref (entry_prev (ns e))) (\<lambda>q.
             let n1 = set_next q (entry_next (ns e)) ns
             in Inr (head, case entry_next (n1 e) of None \<Rightarrow> n1 | Some x \<Rightarrow> set_prev x (entry_prev (n1 e)) n1))
      else res_bind (deref head) (\<lambda>h. let head' = entry_next (ns h) in
           res_bind (deref head') (\<lambda>h1.
           res_bind (deref (entry_next (ns h1))) (\<lambda>h2. Inr (head', set_prev h2 None ns)))))"

definition dl_insert :: "nat \<Rightarrow> ptr \<Rightarrow> links \<Rightarrow> ptr \<times> links" where
  "dl_insert e head ns =
     (case head of
        Some h \<Rightarrow> (Some e, set_prev e None (set_prev h (Some e) (set_next e (Some h) ns)))
      | None \<Rightarrow> (Some e, set_next e None (set_prev e None ns)))"

fun dlist :: "links \<Rightarrow> ptr \<Rightarrow> ptr \<Rightarrow> nat list \<Rightarrow> bool" where
  "dlist ns q p [] \<longleftrightarrow> p = None"
| "dlist ns q p (x # xs) \<longleftrightarrow> p = Some x \<and> entry_prev (ns x) = q \<and> dlist ns (Some x) (entry_next (ns x)) xs"

lemma dlist_same:
  "dlist ns q p xs \<Longrightarrow> (\<And>x. x \<in> set xs \<Longrightarrow> entry_next (ns' x) = entry_next (ns x) \<and> entry_prev (ns' x) = entry_prev (ns x)) \<Longrightarrow> dlist ns' q p xs"
  by (induction xs arbitrary: p q) auto

lemma dlist_prev:
  "dlist ns q p xs \<Longrightarrow> distinct xs \<Longrightarrow> dlist (case p of None \<Rightarrow> ns | Some x \<Rightarrow> set_prev x r ns) r p xs"
  by (cases xs) (auto intro: dlist_same)

theorem dl_get_list:
  "dlist ns None head (x # xs) \<Longrightarrow> distinct (x # xs) \<Longrightarrow>
     \<exists>head' ns'. dl_get head ns = (Some x, head', ns') \<and> dlist ns' None head' xs"
  using dlist_prev [of ns "Some x" "entry_next (ns x)" xs None] by (auto simp: dl_get_def Let_def)

theorem dl_insert_list:
  assumes "dlist ns None head xs" and "distinct xs" and "e \<notin> set xs"
  shows "\<exists>ns'. dl_insert e head ns = (Some e, ns') \<and> dlist ns' None (Some e) (e # xs)"
proof (cases xs)
  case (Cons x ys)
  then show ?thesis using assms by (auto simp: dl_insert_def intro: dlist_same)
qed (use assms in \<open>simp add: dl_insert_def\<close>)

lemma dlist_unlink:
  assumes "dlist ns q p (as @ e # bs)" and "distinct (as @ e # bs)" and "as \<noteq> []"
  shows "\<exists>d. entry_prev (ns e) = Some d \<and> d \<in> set as
     \<and> (let n1 = set_next d (entry_next (ns e)) ns in dlist (case entry_next (n1 e) of None \<Rightarrow> n1 | Some x \<Rightarrow> set_prev x (entry_prev (n1 e)) n1) q p (as @ bs))"
  using assms
proof (induction as arbitrary: p q)
  case (Cons a as)
  show ?case
  proof (cases "as = []")
    case True
    have e: "e \<noteq> a" "distinct bs" "a \<notin> set bs" "e \<notin> set bs" using Cons.prems(2) True by auto
    have d: "dlist ns (Some a) (entry_next (ns a)) (e # bs)" "p = Some a" "entry_prev (ns a) = q" using Cons.prems(1) True by auto
    then have b: "entry_prev (ns e) = Some a" "dlist ns (Some e) (entry_next (ns e)) bs" by auto
    have "dlist (set_next a (entry_next (ns e)) ns) (Some e) (entry_next (ns e)) bs" by (rule dlist_same [OF b(2)]) (use e in auto)
    from dlist_prev [OF this e(2), of "Some a"]
    have "dlist (case entry_next (ns e) of None \<Rightarrow> set_next a (entry_next (ns e)) ns | Some x \<Rightarrow> set_prev x (Some a) (set_next a (entry_next (ns e)) ns))
      (Some a) (entry_next (ns e)) bs" .
    moreover have "entry_next (ns e) \<noteq> Some a" using b(2) e(3) by (cases bs) auto
    ultimately show ?thesis using True b(1) d e(1) by (auto simp: Let_def split: option.splits)
  next
    case False
    have "dlist ns (Some a) (entry_next (ns a)) (as @ e # bs)" "p = Some a" "entry_prev (ns a) = q" using Cons.prems(1) by auto
    with Cons.IH [of "Some a" "entry_next (ns a)"] Cons.prems(2) False obtain d where d: "entry_prev (ns e) = Some d" "d \<in> set as"
      "dlist (case entry_next (set_next d (entry_next (ns e)) ns e) of None \<Rightarrow> set_next d (entry_next (ns e)) ns
         | Some x \<Rightarrow> set_prev x (entry_prev (set_next d (entry_next (ns e)) ns e)) (set_next d (entry_next (ns e)) ns)) (Some a) (entry_next (ns a)) (as @ bs)"
      by (auto simp: Let_def)
    have "a \<noteq> d" "a \<noteq> e" using d(2) Cons.prems(2) by auto
    moreover have "entry_next (ns e) \<noteq> Some a"
    proof -
      have "\<exists>r. dlist ns r (entry_next (ns e)) bs" using \<open>dlist ns (Some a) (entry_next (ns a)) (as @ e # bs)\<close>
        by (induction as arbitrary: a) auto
      then show ?thesis using Cons.prems(2) by (cases bs) auto
    qed
    ultimately show ?thesis using d \<open>p = Some a\<close> \<open>entry_prev (ns a) = q\<close> by (auto simp: Let_def split: option.splits)
  qed
qed simp

theorem dl_remove_inner:
  assumes "dlist ns None head xs" and "distinct xs" and "e \<in> set (tl xs)"
  shows "\<exists>ns'. dl_remove e head ns = Inr (head, ns') \<and> dlist ns' None head (remove1 e xs)"
proof -
  obtain h ys where xs: "xs = h # ys" using assms(3) by (cases xs) auto
  then obtain as bs where ys: "ys = as @ e # bs" using assms(3) by (auto dest: split_list)
  have "e \<noteq> h" "e \<notin> set as" using assms(2) xs ys by auto
  then have r: "remove1 e xs = (h # as) @ bs" using xs ys by (simp add: remove1_append)
  from dlist_unlink [of ns None head "h # as" e bs] assms(1,2) xs ys r \<open>e \<noteq> h\<close> show ?thesis
    by (auto simp: dl_remove_def Let_def)
qed

text \<open>
  Removing the head goes wrong: the code steps to the new head before it clears the link back, and so clears the link of the entry after it. With
  fewer than three entries it follows NULL; otherwise the list is no longer linked backwards.
\<close>

theorem dl_remove_head:
  assumes "dlist ns None head (e # xs)" and "distinct (e # xs)"
  shows "case xs of
      x # y # zs \<Rightarrow> \<exists>ns'. dl_remove e head ns = Inr (Some x, ns') \<and> \<not> dlist ns' None (Some x) xs \<and> entry_prev (ns' x) = Some e \<and> entry_prev (ns' y) = None
    | _ \<Rightarrow> dl_remove e head ns = Inl NullDeref"
  using assms by (auto simp: dl_remove_def split: list.split)

section \<open>FIFODLFreelistHeap\<close>

text \<open>
  The state of a layer whose data stand in the memory: the memory, and the state of the layers below. \<open>H\<close> and \<open>T\<close> are the addresses of the sentinels \<open>head\<close> and
  \<open>tail\<close>. Freed objects enter behind \<open>head\<close>, \<open>malloc\<close> takes the one before \<open>tail\<close>.
\<close>

record 's layer =
  ly_mem :: mem
  ly_super :: 's

definition fo_prev :: "nat \<Rightarrow> 's layer \<Rightarrow> ptr" where
  "fo_prev p h = dec (load64 p (ly_mem h))"

definition fo_next :: "nat \<Rightarrow> 's layer \<Rightarrow> ptr" where
  "fo_next p h = dec (load64 (p + 8) (ly_mem h))"

definition fo_set_prev :: "nat \<Rightarrow> ptr \<Rightarrow> 's layer \<Rightarrow> 's layer" where
  "fo_set_prev p q h = h\<lparr>ly_mem := store64 p (enc q) (ly_mem h)\<rparr>"

definition fo_set_next :: "nat \<Rightarrow> ptr \<Rightarrow> 's layer \<Rightarrow> 's layer" where
  "fo_set_next p q h = h\<lparr>ly_mem := store64 (p + 8) (enc q) (ly_mem h)\<rparr>"

definition fd_init :: "nat \<Rightarrow> nat \<Rightarrow> 's layer \<Rightarrow> 's layer" where
  "fd_init H T h = fo_set_next T (Some T) (fo_set_prev T (Some H) (fo_set_next H (Some T) (fo_set_prev H (Some H) h)))"

definition fd_isEmpty :: "nat \<Rightarrow> nat \<Rightarrow> 's layer \<Rightarrow> bool" where
  "fd_isEmpty H T h = (fo_next H h = Some T)"

definition fd_malloc :: "nat \<Rightarrow> nat \<Rightarrow> (ulong \<Rightarrow> 's layer \<Rightarrow> ptr \<times> 's layer) \<Rightarrow> ulong \<Rightarrow> 's layer \<Rightarrow> (ptr \<times> 's layer) result" where
  "fd_malloc H T smalloc sz h =
     (let p = fo_prev T h
      in if p = Some H then Inr (smalloc sz h)
         else res_bind (deref p) (\<lambda>e.
           res_bind (deref (fo_prev e h)) (\<lambda>d.
           let h1 = fo_set_next d (Some T) h
           in Inr (Some e, fo_set_prev T (fo_prev e h1) h1))))"

definition fd_free :: "nat \<Rightarrow> nat \<Rightarrow> 's layer \<Rightarrow> 's layer result" where
  "fd_free H p h =
     (let h1 = fo_set_next p (fo_next H h) h
      in res_bind (deref (fo_next p h1)) (\<lambda>x.
         Inr (fo_set_next H (Some p) (fo_set_prev p (Some H) (fo_set_prev x (Some p) h1)))))"

definition fd_remove :: "nat \<Rightarrow> 's layer \<Rightarrow> 's layer result" where
  "fd_remove p h =
     res_bind (deref (fo_prev p h)) (\<lambda>d.
     let h1 = fo_set_next d (fo_next p h) h in
     res_bind (deref (fo_next p h1)) (\<lambda>x.
     let h2 = fo_set_prev x (fo_prev p h1) h1
     in Inr (fo_set_prev p None (fo_set_next p None h2))))"

partial_function (option) fd_destroy :: "nat \<Rightarrow> (nat \<Rightarrow> 's layer \<Rightarrow> 's layer) \<Rightarrow> ptr \<Rightarrow> 's layer \<Rightarrow> 's layer result option" where
  "fd_destroy T sfree p h =
     (if p = Some T then Some (Inr h)
      else if p = None then Some (Inl NullDeref)
      else fd_destroy T sfree (fo_next (the p) h) (sfree (the p) h))"

fun dseg :: "links \<Rightarrow> nat \<Rightarrow> nat list \<Rightarrow> nat \<Rightarrow> bool" where
  "dseg ns a [] b \<longleftrightarrow> entry_next (ns a) = Some b \<and> entry_prev (ns b) = Some a"
| "dseg ns a (x # xs) b \<longleftrightarrow> entry_next (ns a) = Some x \<and> entry_prev (ns x) = Some a \<and> dseg ns x xs b"

lemma dseg_same:
  "dseg ns a xs b \<Longrightarrow> (\<And>x. x \<in> set (a # xs) \<Longrightarrow> entry_next (ns' x) = entry_next (ns x))
     \<Longrightarrow> (\<And>x. x \<in> set (xs @ [b]) \<Longrightarrow> entry_prev (ns' x) = entry_prev (ns x)) \<Longrightarrow> dseg ns' a xs b"
  by (induction xs arbitrary: a) auto

lemma dseg_append: "dseg ns a (xs @ x # ys) b \<longleftrightarrow> dseg ns a xs x \<and> dseg ns x ys b"
  by (induction xs arbitrary: a) auto

text \<open>The neighbours of \<open>e\<close> are linked to each other.\<close>

lemma dseg_unlink:
  assumes "dseg ns a (xs @ e # ys) b" and "distinct (a # xs @ e # ys @ [b])"
  shows "\<exists>d x. entry_prev (ns e) = Some d \<and> entry_next (ns e) = Some x \<and> d \<noteq> e \<and> x \<noteq> e
     \<and> d = last (a # xs) \<and> x = hd (ys @ [b]) \<and> dseg (set_prev x (Some d) (set_next d (Some x) ns)) a (xs @ ys) b"
proof -
  let ?d = "last (a # xs)" and ?x = "hd (ys @ [b])"
  have s: "dseg ns a xs e" "dseg ns e ys b" using assms(1) by (simp_all add: dseg_append)
  have p: "entry_prev (ns e) = Some ?d" using s(1) by (induction xs arbitrary: a) auto
  have n: "entry_next (ns e) = Some ?x" using s(2) by (cases ys) auto
  have left: "dseg (set_next ?d q m) a xs c" if "dseg m a xs e" "entry_prev (m c) = Some ?d" "q = Some c" "distinct (a # xs)" for m c q
    using that by (induction xs arbitrary: a) (auto split: if_splits)
  let ?ns = "set_prev ?x (Some ?d) (set_next ?d (Some ?x) ns)"
  have dx: "?d \<in> set (a # xs)" "?x \<in> set (ys @ [b])" by (simp, simp add: hd_append)
  have "dseg ?ns a (xs @ ys) b"
  proof (cases ys)
    case Nil
    have "dseg (set_prev b (Some ?d) ns) a xs e" by (rule dseg_same [OF s(1)]) (use assms(2) Nil in auto)
    from left [OF this, of b "Some b"] assms(2) Nil have "dseg (set_next ?d (Some b) (set_prev b (Some ?d) ns)) a xs b" by auto
    moreover have "set_next ?d (Some b) (set_prev b (Some ?d) ns) = set_prev b (Some ?d) (set_next ?d (Some b) ns)"
      by (auto simp: set_next_def set_prev_def fun_eq_iff)
    ultimately show ?thesis using Nil by simp
  next
    case (Cons y zs)
    have "dseg (set_prev y (Some ?d) ns) a xs e" by (rule dseg_same [OF s(1)]) (use assms(2) Cons in auto)
    from left [OF this, of y "Some y"] assms(2) Cons have "dseg (set_next ?d (Some y) (set_prev y (Some ?d) ns)) a xs y" by auto
    moreover have "set_next ?d (Some y) (set_prev y (Some ?d) ns) = set_prev y (Some ?d) (set_next ?d (Some y) ns)"
      by (auto simp: set_next_def set_prev_def fun_eq_iff)
    ultimately have l: "dseg ?ns a xs y" using Cons by simp
    have "dseg ns y zs b" using s(2) Cons by simp
    then have "dseg ?ns y zs b" by (rule dseg_same) (use assms(2) Cons dx in auto)
    with l show ?thesis using Cons by (simp add: dseg_append)
  qed
  with p n dx assms(2) show ?thesis by auto
qed

text \<open>The 16 bytes of the links of the objects in \<open>C\<close> do not overlap, and none of them is at NULL.\<close>

definition fo_cells :: "nat set \<Rightarrow> bool" where
  "fo_cells C \<longleftrightarrow> (\<forall>x\<in>C. 0 < x \<and> x + 16 \<le> 2 ^ 64 \<and> (\<forall>y\<in>C. x = y \<or> x + 16 \<le> y \<or> y + 16 \<le> x))"

definition links_of :: "'s layer \<Rightarrow> links" where
  "links_of h = (\<lambda>p. \<lparr>entry_prev = fo_prev p h, entry_next = fo_next p h\<rparr>)"

lemma links_of_sel [simp]: "entry_prev (links_of h p) = fo_prev p h" "entry_next (links_of h p) = fo_next p h"
  by (simp_all add: links_of_def)

text \<open>Only the links of the objects in \<open>C\<close> have been written.\<close>

definition written :: "nat set \<Rightarrow> 's layer \<Rightarrow> 's layer \<Rightarrow> bool" where
  "written C h h' \<longleftrightarrow> ly_super h' = ly_super h \<and> (\<forall>y. (\<forall>x\<in>C. y < x \<or> x + 16 \<le> y) \<longrightarrow> ly_mem h' y = ly_mem h y)"

lemma written_refl: "written C h h"
  by (simp add: written_def)

lemma written_trans: "written C h h' \<Longrightarrow> written C h' h'' \<Longrightarrow> written C h h''"
  by (simp add: written_def)

lemma written_mono: "written C h h' \<Longrightarrow> C \<subseteq> D \<Longrightarrow> written D h h'"
  by (auto simp: written_def)

lemma written_set: "p \<in> C \<Longrightarrow> written C h (fo_set_prev p v h)" "p \<in> C \<Longrightarrow> written C h (fo_set_next p v h)"
  by (fastforce simp: written_def fo_set_prev_def fo_set_next_def)+

lemma fo_cells_mono: "fo_cells D \<Longrightarrow> C \<subseteq> D \<Longrightarrow> fo_cells C"
  by (auto simp: fo_cells_def)

lemma dec_enc_cell: "fo_cells C \<Longrightarrow> set_option v \<subseteq> C \<Longrightarrow> dec (enc v) = v"
proof (cases v)
  case (Some q)
  assume "fo_cells C" "set_option v \<subseteq> C"
  then have "0 < q" "q < 2 ^ 64" using Some by (auto simp: fo_cells_def)
  then have "unat (word_of_nat q :: ulong) = q" "(word_of_nat q :: ulong) \<noteq> 0" by (simp_all add: unat_of_nat word_of_nat_eq_0_iff) (auto dest: dvd_imp_le)
  then show ?thesis using Some by (simp add: dec_def enc_def)
qed (simp add: dec_def enc_def)

text \<open>On such objects the links in memory are a store of nodes.\<close>

definition agree :: "nat set \<Rightarrow> 's layer \<Rightarrow> links \<Rightarrow> bool" where
  "agree C h ns \<longleftrightarrow> (\<forall>x\<in>C. links_of h x = ns x)"

lemma agree_refl: "agree C h (links_of h)"
  by (simp add: agree_def)

lemma agree_sel: "agree C h ns \<Longrightarrow> x \<in> C \<Longrightarrow> fo_prev x h = entry_prev (ns x)" "agree C h ns \<Longrightarrow> x \<in> C \<Longrightarrow> fo_next x h = entry_next (ns x)"
  by (metis agree_def links_of_sel)+

lemma agree_set:
  assumes C: "fo_cells C" and a: "agree C h ns" and p: "p \<in> C" and v: "set_option v \<subseteq> C"
  shows "agree C (fo_set_prev p v h) (set_prev p v ns)" "agree C (fo_set_next p v h) (set_next p v ns)"
proof -
  have d: "x = p \<or> x + 16 \<le> p \<or> p + 16 \<le> x" if "x \<in> C" for x using C p that by (auto simp: fo_cells_def)
  note e = dec_enc_cell [OF C v]
  note defs = agree_def links_of_def fo_prev_def fo_next_def fo_set_prev_def fo_set_next_def
  have "links_of (fo_set_prev p v h) x = set_prev p v ns x \<and> links_of (fo_set_next p v h) x = set_next p v ns x" if x: "x \<in> C" for x
    using a [unfolded agree_def, rule_format, OF x, symmetric] d [OF x] e by (auto simp: defs set_prev_def set_next_def load64_store64_other)
  then show "agree C (fo_set_prev p v h) (set_prev p v ns)" "agree C (fo_set_next p v h) (set_next p v ns)" by (simp_all add: agree_def)
qed

definition between :: "nat \<Rightarrow> nat \<Rightarrow> nat list \<Rightarrow> 's layer \<Rightarrow> bool" where
  "between H T xs h \<longleftrightarrow> fo_cells (set (H # xs @ [T])) \<and> distinct (H # xs @ [T]) \<and> dseg (links_of h) H xs T"

lemma between_agree:
  assumes "agree C h ns" and "dseg ns H xs T" and "distinct (H # xs @ [T])" and "fo_cells C" and "set (H # xs @ [T]) \<subseteq> C"
  shows "between H T xs h"
proof -
  have same: "links_of h x = ns x" if "x \<in> set (H # xs @ [T])" for x using assms(1,5) that by (auto simp: agree_def)
  have "dseg (links_of h) H xs T" by (rule dseg_same [OF assms(2)]) (auto simp del: links_of_sel intro!: arg_cong [where f = entry_next] arg_cong [where f = entry_prev] same)
  with assms(3,4) fo_cells_mono [OF assms(4,5)] show ?thesis by (simp add: between_def)
qed

theorem fd_malloc_oldest:
  assumes "between H T xs h"
  shows "if xs = [] then fd_malloc H T smalloc sz h = Inr (smalloc sz h)
     else \<exists>h'. fd_malloc H T smalloc sz h = Inr (Some (last xs), h') \<and> between H T (butlast xs) h' \<and> written (set (H # xs @ [T])) h h'"
proof (cases "xs = []")
  case True
  then show ?thesis using assms by (simp add: between_def fd_malloc_def)
next
  case False
  then obtain ys e where xs: "xs = ys @ [e]" by (metis rev_exhaust)
  let ?C = "set (H # xs @ [T])"
  have C: "fo_cells ?C" using assms by (simp add: between_def)
  have d: "distinct (H # ys @ e # [] @ [T])" "dseg (links_of h) H (ys @ [e]) T" using assms xs by (auto simp: between_def)
  from dseg_unlink [OF d(2,1)] obtain d where u: "fo_prev e h = Some d" "d \<noteq> e" "d = last (H # ys)"
    "dseg (set_prev T (Some d) (set_next d (Some T) (links_of h))) H ys T" by auto
  have t: "fo_prev T h = Some e" using d(2) by (simp add: dseg_append)
  have "d \<in> set (H # ys)" unfolding u(3) by (rule last_in_set) simp
  then have i: "d \<in> ?C" "e \<in> ?C" "T \<in> ?C" using xs by auto
  let ?h1 = "fo_set_next d (Some T) h"
  have a1: "agree ?C ?h1 (set_next d (Some T) (links_of h))" by (rule agree_set [OF C agree_refl i(1)]) (use i in simp)
  then have p: "fo_prev e ?h1 = Some d" using agree_sel(1) [OF a1 i(2)] u(1) by simp
  have "agree ?C (fo_set_prev T (Some d) ?h1) (set_prev T (Some d) (set_next d (Some T) (links_of h)))"
    by (rule agree_set [OF C a1 i(3)]) (use i in simp)
  then have "between H T ys (fo_set_prev T (Some d) ?h1)" by (rule between_agree [OF _ u(4) _ C]) (use d(1) xs in auto)
  moreover have "written ?C h (fo_set_prev T (Some d) ?h1)" by (rule written_trans [OF written_set(2) [OF i(1)] written_set(1) [OF i(3)]])
  moreover have "e \<noteq> H" using d(1) by auto
  ultimately show ?thesis using xs u(1) t p by (simp add: fd_malloc_def Let_def)
qed

theorem fd_free_newest:
  assumes "between H T xs h" and "p \<notin> set (H # xs @ [T])" and C: "fo_cells (set (p # H # xs @ [T]))"
  shows "\<exists>h'. fd_free H p h = Inr h' \<and> between H T (p # xs) h' \<and> written (set (p # H # xs @ [T])) h h'"
proof -
  let ?C = "set (p # H # xs @ [T])" and ?ls = "links_of h"
  obtain x where x: "fo_next H h = Some x" "x = hd (xs @ [T])" using assms(1) by (cases xs) (auto simp: between_def)
  let ?ns = "set_next H (Some p) (set_prev p (Some H) (set_prev x (Some p) (set_next p (Some x) ?ls)))"
  have "dseg ?ns p xs T"
  proof (cases xs)
    case (Cons y ys)
    have "dseg ?ls y ys T" using assms(1) Cons by (simp add: between_def)
    then have "dseg ?ns y ys T" by (rule dseg_same) (use assms Cons x in \<open>auto simp: between_def\<close>)
    then show ?thesis using assms Cons x by (auto simp: between_def)
  qed (use assms x in \<open>auto simp: between_def\<close>)
  moreover have "p \<noteq> H" "x \<noteq> p" using assms(2) x(2) by (auto simp: hd_append split: if_splits)
  ultimately have ds: "dseg ?ns H (p # xs) T" by auto
  have i: "p \<in> ?C" "H \<in> ?C" "x \<in> ?C" using x(2) by (auto simp: hd_append)
  let ?h1 = "fo_set_next p (Some x) h" and ?h2 = "fo_set_prev x (Some p) (fo_set_next p (Some x) h)"
  have a1: "agree ?C ?h1 (set_next p (Some x) ?ls)" by (rule agree_set(2) [OF C agree_refl i(1)]) (use i in simp)
  then have n1: "fo_next p ?h1 = Some x" using agree_sel(2) [OF a1 i(1)] by simp
  have a2: "agree ?C ?h2 (set_prev x (Some p) (set_next p (Some x) ?ls))" by (rule agree_set(1) [OF C a1 i(3)]) (use i in simp)
  have a3: "agree ?C (fo_set_prev p (Some H) ?h2) (set_prev p (Some H) (set_prev x (Some p) (set_next p (Some x) ?ls)))"
    by (rule agree_set(1) [OF C a2 i(1)]) (use i in simp)
  have a4: "agree ?C (fo_set_next H (Some p) (fo_set_prev p (Some H) ?h2)) ?ns" by (rule agree_set(2) [OF C a3 i(2)]) (use i in simp)
  then have "between H T (p # xs) (fo_set_next H (Some p) (fo_set_prev p (Some H) ?h2))"
    by (rule between_agree [OF _ ds _ C]) (use assms(1,2) in \<open>auto simp: between_def\<close>)
  moreover have "written ?C h (fo_set_next H (Some p) (fo_set_prev p (Some H) ?h2))"
    by (intro written_trans [OF _ written_set(2)] written_trans [OF _ written_set(1)] written_set(2) i)
  ultimately show ?thesis using x(1) n1 by (simp add: fd_free_def Let_def)
qed

theorem fd_remove_any:
  assumes "between H T xs h" and "e \<in> set xs"
  shows "\<exists>h'. fd_remove e h = Inr h' \<and> between H T (remove1 e xs) h' \<and> written (set (H # xs @ [T])) h h'"
proof -
  let ?C = "set (H # xs @ [T])" and ?ls = "links_of h"
  have C: "fo_cells ?C" using assms(1) by (simp add: between_def)
  obtain ys zs where xs: "xs = ys @ e # zs" "e \<notin> set ys" using split_list_first [OF assms(2)] by blast
  have d: "distinct (H # ys @ e # zs @ [T])" "dseg ?ls H (ys @ e # zs) T" using assms(1) xs by (auto simp: between_def)
  from dseg_unlink [OF d(2,1)] obtain q x where u: "fo_prev e h = Some q" "fo_next e h = Some x" "q \<noteq> e" "x \<noteq> e"
    "q = last (H # ys)" "x = hd (zs @ [T])" "dseg (set_prev x (Some q) (set_next q (Some x) ?ls)) H (ys @ zs) T" by auto
  let ?ns = "set_prev e None (set_next e None (set_prev x (Some q) (set_next q (Some x) ?ls)))"
  have ds: "dseg ?ns H (ys @ zs) T" by (rule dseg_same [OF u(7)]) (use d(1) in auto)
  have r: "remove1 e xs = ys @ zs" using xs by (simp add: remove1_append)
  have "q \<in> set (H # ys)" unfolding u(5) by (rule last_in_set) simp
  moreover have "x \<in> set (zs @ [T])" unfolding u(6) by (rule hd_in_set) simp
  ultimately have i: "q \<in> ?C" "x \<in> ?C" "e \<in> ?C" using xs by auto
  let ?h1 = "fo_set_next q (Some x) h" and ?h2 = "fo_set_prev x (Some q) (fo_set_next q (Some x) h)"
  have a1: "agree ?C ?h1 (set_next q (Some x) ?ls)" by (rule agree_set(2) [OF C agree_refl i(1)]) (use i in simp)
  then have n1: "fo_next e ?h1 = Some x" "fo_prev e ?h1 = Some q" using agree_sel [OF a1 i(3)] u by simp_all
  have a2: "agree ?C ?h2 (set_prev x (Some q) (set_next q (Some x) ?ls))" by (rule agree_set(1) [OF C a1 i(2)]) (use i in simp)
  have a3: "agree ?C (fo_set_next e None ?h2) (set_next e None (set_prev x (Some q) (set_next q (Some x) ?ls)))" by (rule agree_set(2) [OF C a2 i(3)]) simp
  have "agree ?C (fo_set_prev e None (fo_set_next e None ?h2)) ?ns" by (rule agree_set(1) [OF C a3 i(3)]) simp
  then have "between H T (ys @ zs) (fo_set_prev e None (fo_set_next e None ?h2))" by (rule between_agree [OF _ ds _ C]) (use d(1) xs in auto)
  moreover have "written ?C h (fo_set_prev e None (fo_set_next e None ?h2))"
    by (intro written_trans [OF _ written_set(2)] written_trans [OF _ written_set(1)] written_set(2) i)
  ultimately show ?thesis using u(1,2) n1 r by (simp add: fd_remove_def Let_def)
qed

text \<open>The destructor hands every object down; freeing one below may write to that object only.\<close>

lemma fd_destroy_all:
  assumes "dseg (links_of h) x ys T" and "distinct (x # ys @ [T])" and "\<And>x g. written {x} g (sfree x g)" and "fo_cells (set (x # ys @ [T]))"
  shows "fd_destroy T sfree (Some x) h = Some (Inr (fold sfree (x # ys) h))"
  using assms(1,2,4)
proof (induction ys arbitrary: x h)
  case Nil
  then show ?case by (subst fd_destroy.simps, simp, subst fd_destroy.simps) simp
next
  case (Cons y ys)
  have same: "links_of (sfree x h) z = links_of h z" if "z \<in> set (y # ys @ [T])" for z
  proof -
    have d: "x + 16 \<le> z \<or> z + 16 \<le> x" using Cons.prems(2,3) that by (auto simp: fo_cells_def)
    have "ly_mem (sfree x h) (z + j) = ly_mem h (z + j)" if "j < 16" for j using assms(3) [of x h] d that by (auto simp: written_def)
    then have "load64 z (ly_mem (sfree x h)) = load64 z (ly_mem h)" "load64 (z + 8) (ly_mem (sfree x h)) = load64 (z + 8) (ly_mem h)"
      by (simp_all add: load64_eq_iff add.assoc)
    then show ?thesis by (simp add: links_of_def fo_prev_def fo_next_def)
  qed
  have n: "fo_next x h = Some y" "x \<noteq> T" "dseg (links_of h) y ys T" using Cons.prems by simp_all
  have "dseg (links_of (sfree x h)) y ys T" by (rule dseg_same [OF n(3)]) (auto simp del: links_of_sel intro!: arg_cong [where f = entry_next] arg_cong [where f = entry_prev] same)
  moreover have "fo_cells (set (y # ys @ [T]))" by (rule fo_cells_mono [OF Cons.prems(3)]) auto
  ultimately have "fd_destroy T sfree (Some y) (sfree x h) = Some (Inr (fold sfree (y # ys) (sfree x h)))" by (intro Cons.IH) (use Cons.prems(2) in simp_all)
  with n show ?case by (subst fd_destroy.simps) simp
qed

section \<open>NestedHeap\<close>

text \<open>
  A heap has a list of children, linked through \<open>prev\<close> and \<open>next\<close>. Clearing a heap clears its children; the recursion is a stack of the
  positions in the lists of children that are still to be visited. \<open>sclear\<close> clears one heap without its children.
\<close>

record nested =
  nh_links :: links
  nh_parent :: "nat \<Rightarrow> ptr"
  nh_child :: "nat \<Rightarrow> ptr"

definition nh_init :: "nat \<Rightarrow> nested \<Rightarrow> nested" where
  "nh_init h n = n\<lparr>nh_links := set_next h None (set_prev h None (nh_links n)), nh_parent := (nh_parent n)(h := None), nh_child := (nh_child n)(h := None)\<rparr>"

definition addChild :: "nat \<Rightarrow> nat \<Rightarrow> nested \<Rightarrow> nested" where
  "addChild this ch n =
     (let n1 = (case nh_child n this of
                  None \<Rightarrow> n\<lparr>nh_child := (nh_child n)(this := Some ch), nh_links := set_next ch None (set_prev ch None (nh_links n))\<rparr>
                | Some c \<Rightarrow> n\<lparr>nh_links := set_prev c (Some ch) (set_next ch (Some c) (set_prev ch None (nh_links n))),
                             nh_child := (nh_child n)(this := Some ch)\<rparr>)
      in n1\<lparr>nh_parent := (nh_parent n1)(ch := Some this)\<rparr>)"

definition removeSibling :: "nat \<Rightarrow> nested \<Rightarrow> nested" where
  "removeSibling sib n =
     (let n1 = (case entry_prev (nh_links n sib) of None \<Rightarrow> n
                | Some q \<Rightarrow> n\<lparr>nh_links := set_next q (entry_next (nh_links n sib)) (nh_links n)\<rparr>)
      in case entry_next (nh_links n1 sib) of None \<Rightarrow> n1
         | Some x \<Rightarrow> n1\<lparr>nh_links := set_prev x (entry_prev (nh_links n1 sib)) (nh_links n1)\<rparr>)"

definition removeChild :: "nat \<Rightarrow> nat \<Rightarrow> nested \<Rightarrow> nested" where
  "removeChild this ch n =
     removeSibling ch
       (if nh_child n this = Some ch
        then n\<lparr>nh_child := (nh_child n)(this := case entry_prev (nh_links n ch) of Some q \<Rightarrow> Some q | None \<Rightarrow> entry_next (nh_links n ch))\<rparr>
        else n)"

partial_function (option) nh_clear_from :: "(nat \<Rightarrow> 's \<Rightarrow> 's) \<Rightarrow> nested \<Rightarrow> ptr list \<Rightarrow> 's \<Rightarrow> 's option" where
  "nh_clear_from sclear n ps s =
     (case ps of [] \<Rightarrow> Some s
      | p # qs \<Rightarrow> if p = None then nh_clear_from sclear n qs s
                 else nh_clear_from sclear n (nh_child n (the p) # entry_next (nh_links n (the p)) # qs) (sclear (the p) s))"

definition nh_clear :: "(nat \<Rightarrow> 's \<Rightarrow> 's) \<Rightarrow> nat \<Rightarrow> nested \<Rightarrow> 's \<Rightarrow> 's option" where
  "nh_clear sclear this n s = nh_clear_from sclear n [nh_child n this] (sclear this s)"

definition nh_destroy :: "(nat \<Rightarrow> 's \<Rightarrow> 's) \<Rightarrow> nat \<Rightarrow> nested \<times> 's \<Rightarrow> (nested \<times> 's) option" where
  "nh_destroy sclear this ns =
     (case ns of (n, s) \<Rightarrow> map_option (\<lambda>s1.
        (removeSibling this (case nh_parent n this of None \<Rightarrow> n | Some p \<Rightarrow> removeChild p this n), s1)) (nh_clear sclear this n s))"

lemma removeSibling_keeps [simp]: "nh_child (removeSibling h n) = nh_child n" "nh_parent (removeSibling h n) = nh_parent n"
  by (simp_all add: removeSibling_def Let_def split: option.splits)

theorem addChild_list:
  assumes "dlist (nh_links n) None (nh_child n this) xs" and "distinct xs" and "ch \<notin> set xs"
  shows "dlist (nh_links (addChild this ch n)) None (nh_child (addChild this ch n) this) (ch # xs)" "nh_parent (addChild this ch n) ch = Some this"
proof -
  show "nh_parent (addChild this ch n) ch = Some this" by (simp add: addChild_def Let_def)
  show "dlist (nh_links (addChild this ch n)) None (nh_child (addChild this ch n) this) (ch # xs)"
  proof (cases xs)
    case (Cons x ys)
    then have "dlist (nh_links n) (Some x) (entry_next (nh_links n x)) ys" using assms(1) by simp
    then have "dlist (set_prev x (Some ch) (set_next ch (Some x) (set_prev ch None (nh_links n)))) (Some x) (entry_next (nh_links n x)) ys"
      by (rule dlist_same) (use assms(2,3) Cons in auto)
    then show ?thesis using assms Cons by (auto simp: addChild_def Let_def)
  qed (use assms in \<open>simp add: addChild_def Let_def\<close>)
qed

theorem removeChild_list:
  assumes l: "dlist (nh_links n) None (nh_child n this) xs" and d: "distinct xs" and ch: "ch \<in> set xs"
  shows "dlist (nh_links (removeChild this ch n)) None (nh_child (removeChild this ch n) this) (remove1 ch xs)"
proof -
  obtain as bs where xs: "xs = as @ ch # bs" "ch \<notin> set as" using split_list_first [OF ch] by blast
  have r: "remove1 ch xs = as @ bs" using xs by (simp add: remove1_append)
  show ?thesis
  proof (cases as)
    case Nil
    have c: "nh_child n this = Some ch" "entry_prev (nh_links n ch) = None" "dlist (nh_links n) (Some ch) (entry_next (nh_links n ch)) bs"
      using l xs Nil by auto
    have "distinct bs" using d xs by simp
    from dlist_prev [OF c(3) this, of None] c(1,2) r Nil show ?thesis
      by (cases "entry_next (nh_links n ch)") (simp_all add: removeChild_def removeSibling_def Let_def)
  next
    case (Cons a as')
    then have h: "nh_child n this = Some a" "a \<noteq> ch" using l xs by auto
    from dlist_unlink [of "nh_links n" None "nh_child n this" as ch bs] l d xs(1) Cons obtain q where
      q: "entry_prev (nh_links n ch) = Some q"
      "let n1 = set_next q (entry_next (nh_links n ch)) (nh_links n)
       in dlist (case entry_next (n1 ch) of None \<Rightarrow> n1 | Some x \<Rightarrow> set_prev x (entry_prev (n1 ch)) n1) None (nh_child n this) (as @ bs)" by auto
    have c: "nh_child (removeChild this ch n) = nh_child n" using h by (simp add: removeChild_def)
    have "nh_links (removeChild this ch n) =
      (let n1 = set_next q (entry_next (nh_links n ch)) (nh_links n)
       in case entry_next (n1 ch) of None \<Rightarrow> n1 | Some x \<Rightarrow> set_prev x (entry_prev (n1 ch)) n1)"
      using h q(1) by (simp add: removeChild_def removeSibling_def Let_def split: option.split)
    with q(2) c r show ?thesis by (simp add: Let_def)
  qed
qed

text \<open>The tree below a heap; clearing visits it from the root, every heap once.\<close>

datatype heap_tree = Heap nat "heap_tree list"

fun root_of :: "heap_tree \<Rightarrow> nat" where
  "root_of (Heap h ts) = h"

fun heaps_of :: "heap_tree \<Rightarrow> nat list" where
  "heaps_of (Heap h ts) = h # concat (map heaps_of ts)"

fun tree_at :: "nested \<Rightarrow> heap_tree \<Rightarrow> bool" where
  "tree_at n (Heap h ts) \<longleftrightarrow> dlist (nh_links n) None (nh_child n h) (map root_of ts) \<and> (\<forall>t\<in>set ts. tree_at n t)"

lemma nh_clear_forest:
  assumes "dlist (nh_links n) q p (map root_of ts)" and "\<forall>t\<in>set ts. tree_at n t"
  shows "nh_clear_from sclear n (p # ps) s = nh_clear_from sclear n ps (fold sclear (concat (map heaps_of ts)) s)"
  using assms
proof (induction "sum_list (map size ts)" arbitrary: q p ts ps s rule: less_induct)
  case less
  show ?case
  proof (cases ts)
    case Nil
    then show ?thesis using less.prems by (subst nh_clear_from.simps) simp
  next
    case (Cons t us)
    obtain h cs where t: "t = Heap h cs" by (cases t)
    have p: "p = Some h" "dlist (nh_links n) (Some h) (entry_next (nh_links n h)) (map root_of us)" using less.prems(1) Cons t by auto
    have c: "dlist (nh_links n) None (nh_child n h) (map root_of cs)" "\<forall>t\<in>set cs. tree_at n t" "\<forall>t\<in>set us. tree_at n t"
      using less.prems(2) Cons t by auto
    have sz: "sum_list (map size cs) < sum_list (map size ts)" "sum_list (map size us) < sum_list (map size ts)"
      using Cons t by (simp_all add: size_list_conv_sum_list)
    have "nh_clear_from sclear n (p # ps) s = nh_clear_from sclear n (nh_child n h # entry_next (nh_links n h) # ps) (sclear h s)"
      using p(1) by (subst nh_clear_from.simps) simp
    also have "\<dots> = nh_clear_from sclear n (entry_next (nh_links n h) # ps) (fold sclear (concat (map heaps_of cs)) (sclear h s))"
      by (rule less.hyps [OF sz(1) c(1,2)])
    also have "\<dots> = nh_clear_from sclear n ps (fold sclear (concat (map heaps_of us)) (fold sclear (concat (map heaps_of cs)) (sclear h s)))"
      by (rule less.hyps [OF sz(2) p(2) c(3)])
    finally show ?thesis using Cons t by simp
  qed
qed

theorem nh_clear_all:
  assumes "tree_at n t"
  shows "nh_clear sclear (root_of t) n s = Some (fold sclear (heaps_of t) s)"
proof -
  obtain h ts where t: "t = Heap h ts" by (cases t)
  have "nh_clear_from sclear n [nh_child n h] (sclear h s) = nh_clear_from sclear n [] (fold sclear (concat (map heaps_of ts)) (sclear h s))"
    by (rule nh_clear_forest) (use assms t in auto)
  then show ?thesis using t by (simp add: nh_clear_def) (subst nh_clear_from.simps, simp)
qed

end
