(* ===== verification/BumpHeaps.thy ===== *)
theory BumpHeaps
  imports Prelude
begin

text \<open>
  The layers of \<open>src/include/heaplayers\<close> that carve objects off the front of a piece of memory: \<open>ChunkHeap\<close> (\<open>chunkheap.h\<close>), \<open>SlopHeap\<close> (\<open>slopheap.h\<close>) and
  \<open>StaticHeap\<close> (\<open>staticheap.h\<close>), and \<open>NullHeap\<close> (\<open>nullheap.h\<close>). Pointers are 64-bit numbers here, 0 is NULL, so that pointer arithmetic wraps as it does in the code.
  The heap below is its \<open>malloc\<close>, over a state \<open>'s\<close>.
\<close>

definition bytes_of :: "ulong \<Rightarrow> ulong \<Rightarrow> nat set" where
  "bytes_of p sz = {unat p..<unat p + unat sz}"

section \<open>ChunkHeap\<close>

record chunk_heap =
  ck_buffer :: ulong
  ck_eob :: ulong

definition ck_init :: chunk_heap where
  "ck_init = \<lparr>ck_buffer = 0, ck_eob = 0\<rparr>"

definition ck_round :: "ulong \<Rightarrow> ulong \<Rightarrow> ulong" where
  "ck_round chunk sz = ((sz - 1) div chunk + 1) * chunk"

definition ck_getMoreMemory :: "ulong \<Rightarrow> (ulong \<Rightarrow> 's \<Rightarrow> ulong \<times> 's) \<Rightarrow> ulong \<Rightarrow> chunk_heap \<times> 's \<Rightarrow> ulong \<times> chunk_heap \<times> 's" where
  "ck_getMoreMemory chunk smalloc sz hs =
     (case hs of (h, s) \<Rightarrow>
        (case smalloc (ck_round chunk sz) s of (buf, s1) \<Rightarrow>
          if buf = 0 then (0, h, s1)
          else (let h1 = (if ck_eob h \<noteq> buf then h\<lparr>ck_buffer := buf\<rparr> else h);
                    reqSize = (if ck_eob h \<noteq> buf then ck_round chunk sz else ck_round chunk sz + (ck_eob h - ck_buffer h));
                    h2 = h1\<lparr>ck_eob := ck_buffer h1 + reqSize\<rparr>
                in (ck_buffer h2, h2\<lparr>ck_buffer := ck_buffer h2 + sz\<rparr>, s1))))"

definition ck_malloc :: "ulong \<Rightarrow> (ulong \<Rightarrow> 's \<Rightarrow> ulong \<times> 's) \<Rightarrow> ulong \<Rightarrow> chunk_heap \<times> 's \<Rightarrow> ulong \<times> chunk_heap \<times> 's" where
  "ck_malloc chunk smalloc sz hs =
     (case hs of (h, s) \<Rightarrow>
        if ck_buffer h + sz \<le> ck_eob h then (ck_buffer h, h\<lparr>ck_buffer := ck_buffer h + sz\<rparr>, s)
        else ck_getMoreMemory chunk smalloc sz (h\<lparr>ck_buffer := ck_buffer h + sz - sz\<rparr>, s))"

definition ck_clear :: "('s \<Rightarrow> 's) \<Rightarrow> chunk_heap \<times> 's \<Rightarrow> chunk_heap \<times> 's" where
  "ck_clear sclear hs = (case hs of (h, s) \<Rightarrow> (h\<lparr>ck_buffer := 0, ck_eob := 0\<rparr>, sclear s))"

definition ck_free :: "chunk_heap \<Rightarrow> nat set" where
  "ck_free h = {unat (ck_buffer h)..<unat (ck_eob h)}"

lemma ck_round_bounds:
  assumes "0 < sz" and "0 < chunk" and "unat sz + unat chunk < 2 ^ 64"
  shows "unat sz \<le> unat (ck_round chunk sz)" "unat (ck_round chunk sz) < unat sz + unat chunk" "unat (ck_round chunk sz) mod unat chunk = 0"
proof -
  let ?k = "(unat sz - 1) div unat chunk + 1"
  have p: "0 < unat sz" "0 < unat chunk" using assms(1,2) by (simp_all add: word_less_nat_alt)
  have m: "unat (sz - 1) = unat sz - 1" using unat_minus_one [of sz] p(1) by (cases "sz = 0") simp_all
  have d: "unat ((sz - 1) div chunk) = (unat sz - 1) div unat chunk" by (simp add: unat_div m)
  have le: "unat sz \<le> ?k * unat chunk" "?k * unat chunk < unat sz + unat chunk"
  proof -
    have "unat sz - 1 = (unat sz - 1) div unat chunk * unat chunk + (unat sz - 1) mod unat chunk" by simp
    moreover have "(unat sz - 1) mod unat chunk < unat chunk" using p by simp
    moreover have "?k * unat chunk = (unat sz - 1) div unat chunk * unat chunk + unat chunk" by (simp add: algebra_simps)
    ultimately show "unat sz \<le> ?k * unat chunk" "?k * unat chunk < unat sz + unat chunk" using p by linarith+
  qed
  have "?k * 1 \<le> ?k * unat chunk" by (rule mult_le_mono) (use p in auto)
  then have k: "?k < 2 ^ 64" using le assms(3) by simp
  have "unat ((sz - 1) div chunk + 1) = ?k" using k d by (subst unat_add_no_overflow) simp_all
  then have "unat (ck_round chunk sz) = ?k * unat chunk"
    unfolding ck_round_def using le(2) assms(3) by (subst unat_word_ariths) simp
  then show "unat sz \<le> unat (ck_round chunk sz)" "unat (ck_round chunk sz) < unat sz + unat chunk" "unat (ck_round chunk sz) mod unat chunk = 0"
    using le by simp_all
qed

text \<open>
  Memory is carved off the front: the object and what is free afterwards are disjoint parts of what was free before and of the chunk that was asked for.
\<close>

theorem ck_malloc_carves:
  assumes h: "unat (ck_buffer h) \<le> unat (ck_eob h)" and sz: "0 < sz" "0 < chunk" "unat sz + unat chunk < 2 ^ 64"
    and wrap: "unat (ck_buffer h) + unat sz < 2 ^ 64"
    and fresh: "smalloc (ck_round chunk sz) s = (buf, s1)" "unat buf + unat (ck_round chunk sz) < 2 ^ 64"
    and m: "ck_malloc chunk smalloc sz (h, s) = (p, h', s')" "p \<noteq> 0"
  shows "bytes_of p sz \<subseteq> ck_free h \<union> bytes_of buf (ck_round chunk sz)" "ck_free h' \<subseteq> ck_free h \<union> bytes_of buf (ck_round chunk sz)"
    and "bytes_of p sz \<inter> ck_free h' = {}" "unat (ck_buffer h') \<le> unat (ck_eob h')"
proof -
  have add: "unat (ck_buffer h + sz) = unat (ck_buffer h) + unat sz" by (rule unat_add_no_overflow) (use wrap in simp)
  note rb = ck_round_bounds [OF sz]
  let ?r = "ck_round chunk sz"
  have "bytes_of p sz \<subseteq> ck_free h \<union> bytes_of buf ?r \<and> ck_free h' \<subseteq> ck_free h \<union> bytes_of buf ?r \<and> bytes_of p sz \<inter> ck_free h' = {}
     \<and> unat (ck_buffer h') \<le> unat (ck_eob h')"
  proof (cases "ck_buffer h + sz \<le> ck_eob h")
    case True
    then show ?thesis using m(1) add by (auto simp: ck_malloc_def bytes_of_def ck_free_def word_le_nat_alt)
  next
    case False
    then have big: "unat (ck_eob h) < unat (ck_buffer h) + unat sz" using add by (simp add: word_le_nat_alt)
    show ?thesis
    proof (cases "ck_eob h = buf")
      case new: False
      have b: "unat (buf + ?r) = unat buf + unat ?r" "unat (buf + sz) = unat buf + unat sz"
        by (rule unat_add_no_overflow; use fresh(2) rb in simp)+
      have "p = buf" "h' = \<lparr>ck_buffer = buf + sz, ck_eob = buf + ?r\<rparr>"
        using m False new fresh(1) by (auto simp: ck_malloc_def ck_getMoreMemory_def Let_def split: if_splits)
      then show ?thesis using b rb by (auto simp: bytes_of_def ck_free_def)
    next
      case True
      have e: "ck_buffer h + (?r + (ck_eob h - ck_buffer h)) = buf + ?r" using True by (simp add: algebra_simps)
      have b: "unat (buf + ?r) = unat buf + unat ?r" by (rule unat_add_no_overflow) (use fresh(2) in simp)
      have "p = ck_buffer h" "h' = \<lparr>ck_buffer = ck_buffer h + sz, ck_eob = buf + ?r\<rparr>"
        using m False True fresh(1) e by (auto simp: ck_malloc_def ck_getMoreMemory_def Let_def split: if_splits)
      then show ?thesis using add b rb h True by (auto simp: bytes_of_def ck_free_def)
    qed
  qed
  then show "bytes_of p sz \<subseteq> ck_free h \<union> bytes_of buf ?r" "ck_free h' \<subseteq> ck_free h \<union> bytes_of buf ?r"
    "bytes_of p sz \<inter> ck_free h' = {}" "unat (ck_buffer h') \<le> unat (ck_eob h')" by blast+
qed

text \<open>The test compares the end of the object, not its size: a request that wraps round is served from what is left.\<close>

theorem ck_malloc_wraps:
  assumes "ck_eob h = ck_buffer h + k" and "sz = - ck_buffer h"
  shows "ck_malloc chunk smalloc sz (h, s) = (ck_buffer h, h\<lparr>ck_buffer := 0\<rparr>, s)"
  using assms by (simp add: ck_malloc_def)

section \<open>SlopHeap\<close>

record slop_heap =
  so_ptr :: ulong
  so_remaining :: ulong

definition so_init :: slop_heap where
  "so_init = \<lparr>so_ptr = 0, so_remaining = 0\<rparr>"

definition so_getMoreMemory :: "ulong \<Rightarrow> (ulong \<Rightarrow> 's \<Rightarrow> ulong \<times> 's) \<Rightarrow> ulong \<Rightarrow> slop_heap \<times> 's \<Rightarrow> ulong \<times> slop_heap \<times> 's" where
  "so_getMoreMemory slop smalloc nbytes hs =
     (case hs of (h, s) \<Rightarrow>
        (case smalloc (nbytes + slop) s of (newptr, s1) \<Rightarrow>
          if newptr = 0 then (0, h, s1)
          else (let h1 = (if so_ptr h \<noteq> 0 \<and> so_ptr h + so_remaining h + slop = newptr
                          then h\<lparr>so_remaining := so_remaining h + slop\<rparr>
                          else h\<lparr>so_ptr := newptr, so_remaining := 0\<rparr>)
                in (so_ptr h1, h1\<lparr>so_ptr := so_ptr h1 + nbytes\<rparr>, s1))))"

definition so_malloc :: "ulong \<Rightarrow> (ulong \<Rightarrow> 's \<Rightarrow> ulong \<times> 's) \<Rightarrow> ulong \<Rightarrow> slop_heap \<times> 's \<Rightarrow> ulong \<times> slop_heap \<times> 's" where
  "so_malloc slop smalloc nbytes hs =
     (case hs of (h, s) \<Rightarrow>
        if nbytes \<le> so_remaining h
        then (so_ptr h, h\<lparr>so_remaining := so_remaining h - nbytes, so_ptr := so_ptr h + nbytes\<rparr>, s)
        else so_getMoreMemory slop smalloc nbytes hs)"

definition so_clear :: "('s \<Rightarrow> 's) \<Rightarrow> slop_heap \<times> 's \<Rightarrow> slop_heap \<times> 's" where
  "so_clear sclear hs = (case hs of (h, s) \<Rightarrow> (h\<lparr>so_ptr := 0, so_remaining := 0\<rparr>, sclear s))"

definition so_free :: "ulong \<Rightarrow> slop_heap \<Rightarrow> slop_heap" where
  "so_free p h = h"

text \<open>
  The promise of the layer: behind the last object there are always at least \<open>slop\<close> bytes of its own memory. \<open>M\<close> is the memory it has been given, and
  the free part with the slop behind it ends inside \<open>M\<close>.
\<close>

definition slop_ok :: "ulong \<Rightarrow> nat set \<Rightarrow> slop_heap \<Rightarrow> bool" where
  "slop_ok slop M h \<longleftrightarrow> unat (so_ptr h) + unat (so_remaining h) + unat slop < 2 ^ 64
     \<and> (so_ptr h = 0 \<longrightarrow> so_remaining h = 0)
     \<and> (so_ptr h \<noteq> 0 \<longrightarrow> {unat (so_ptr h)..<unat (so_ptr h) + unat (so_remaining h) + unat slop} \<subseteq> M)"

theorem so_malloc_slop:
  assumes ok: "slop_ok slop M h" and nb: "0 < nbytes"
    and fresh: "smalloc (nbytes + slop) s = (q, s1)" "unat q + unat nbytes + unat slop < 2 ^ 64"
    and m: "so_malloc slop smalloc nbytes (h, s) = (p, h', s')" "p \<noteq> 0"
  shows "slop_ok slop (M \<union> {unat q..<unat q + unat nbytes + unat slop}) h'" "so_ptr h' = p + nbytes"
    and "{unat p..<unat p + unat nbytes} \<subseteq> M \<union> {unat q..<unat q + unat nbytes + unat slop}"
proof -
  let ?N = "{unat q..<unat q + unat nbytes + unat slop}"
  have "slop_ok slop (M \<union> ?N) h' \<and> so_ptr h' = p + nbytes \<and> {unat p..<unat p + unat nbytes} \<subseteq> M \<union> ?N"
  proof (cases "nbytes \<le> so_remaining h")
    case True
    then have r: "unat (so_remaining h - nbytes) = unat (so_remaining h) - unat nbytes" "unat nbytes \<le> unat (so_remaining h)"
      by (simp_all add: unat_sub word_le_nat_alt)
    have a: "unat (so_ptr h + nbytes) = unat (so_ptr h) + unat nbytes"
      by (rule unat_add_no_overflow) (use ok r in \<open>simp add: slop_ok_def\<close>)
    have "so_ptr h \<noteq> 0" using m True by (auto simp: so_malloc_def)
    then have M: "{unat (so_ptr h)..<unat (so_ptr h) + unat (so_remaining h) + unat slop} \<subseteq> M" using ok by (simp add: slop_ok_def)
    have p: "p = so_ptr h" "h' = h\<lparr>so_remaining := so_remaining h - nbytes, so_ptr := so_ptr h + nbytes\<rparr>" using m True by (auto simp: so_malloc_def)
    have "so_ptr h + nbytes \<noteq> 0" using a nb by (metis add_is_0 unat_eq_zero word_neq_0_conv unat_0)
    then show ?thesis using p r a M ok by (auto simp: slop_ok_def subset_iff)
  next
    case False
    have q: "q \<noteq> 0" using m False fresh(1) by (auto simp: so_malloc_def so_getMoreMemory_def)
    show ?thesis
    proof (cases "so_ptr h \<noteq> 0 \<and> so_ptr h + so_remaining h + slop = q")
      case True
      have u: "unat (so_ptr h + so_remaining h) = unat (so_ptr h) + unat (so_remaining h)" "unat (so_remaining h + slop) = unat (so_remaining h) + unat slop"
        by (rule unat_add_no_overflow; use ok in \<open>simp add: slop_ok_def\<close>)+
      have "unat (so_ptr h + so_remaining h + slop) = unat (so_ptr h) + unat (so_remaining h) + unat slop"
        using u ok by (subst unat_add_no_overflow) (simp_all add: slop_ok_def)
      then have uq: "unat q = unat (so_ptr h) + unat (so_remaining h) + unat slop" using True by simp
      have a: "unat (so_ptr h + nbytes) = unat (so_ptr h) + unat nbytes"
        by (rule unat_add_no_overflow) (use fresh(2) uq in simp)
      have M: "{unat (so_ptr h)..<unat q} \<subseteq> M" using ok True uq by (simp add: slop_ok_def)
      have p: "p = so_ptr h" "h' = h\<lparr>so_remaining := so_remaining h + slop, so_ptr := so_ptr h + nbytes\<rparr>"
        using m False True fresh(1) q by (auto simp: so_malloc_def so_getMoreMemory_def Let_def)
      have "so_ptr h + nbytes \<noteq> 0" using a nb by (metis add_is_0 unat_eq_zero word_neq_0_conv unat_0)
      then show ?thesis using p a u uq M fresh(2) by (auto simp: slop_ok_def subset_iff)
    next
      case new: False
      have a: "unat (q + nbytes) = unat q + unat nbytes" by (rule unat_add_no_overflow) (use fresh(2) in simp)
      have p: "p = q" "h' = h\<lparr>so_ptr := q + nbytes, so_remaining := 0\<rparr>"
        using m False new fresh(1) q by (auto simp: so_malloc_def so_getMoreMemory_def Let_def)
      then show ?thesis using a fresh(2) by (auto simp: slop_ok_def)
    qed
  qed
  then show "slop_ok slop (M \<union> ?N) h'" "so_ptr h' = p + nbytes" "{unat p..<unat p + unat nbytes} \<subseteq> M \<union> ?N" by blast+
qed

section \<open>StaticHeap and NullHeap\<close>

record static_heap =
  st_ptr :: ulong
  st_remaining :: ulong

definition st_init :: "ulong \<Rightarrow> ulong \<Rightarrow> static_heap" where
  "st_init buf memorySize = \<lparr>st_ptr = buf, st_remaining = memorySize\<rparr>"

definition st_malloc :: "ulong \<Rightarrow> static_heap \<Rightarrow> ulong \<times> static_heap" where
  "st_malloc sz h =
     (if st_remaining h < sz then (0, h)
      else (st_ptr h, h\<lparr>st_ptr := st_ptr h + sz, st_remaining := st_remaining h - sz\<rparr>))"

definition st_free :: "ulong \<Rightarrow> static_heap \<Rightarrow> static_heap" where
  "st_free p h = h"

definition st_remove :: "ulong \<Rightarrow> nat" where
  "st_remove p = 0"

definition st_isValid :: "ulong \<Rightarrow> ulong \<Rightarrow> bool" where
  "st_isValid buf p = (buf \<le> p \<and> p < buf)"

definition null_malloc :: "ulong \<Rightarrow> ulong" where
  "null_malloc sz = 0"

definition null_getSize :: "ulong \<Rightarrow> ulong" where
  "null_getSize p = 0"

fun st_mallocs :: "ulong list \<Rightarrow> static_heap \<Rightarrow> ulong list \<times> static_heap" where
  "st_mallocs [] h = ([], h)"
| "st_mallocs (sz # szs) h = (case st_malloc sz h of (p, h1) \<Rightarrow> case st_mallocs szs h1 of (ps, h2) \<Rightarrow> (p # ps, h2))"

lemma st_malloc_step:
  assumes "unat (st_ptr h) + unat (st_remaining h) < 2 ^ 64" and "st_malloc sz h = (p, h')" and "p \<noteq> 0"
  shows "bytes_of p sz = {unat (st_ptr h)..<unat (st_ptr h')}" "unat (st_ptr h) \<le> unat (st_ptr h')"
    and "unat (st_ptr h') + unat (st_remaining h') = unat (st_ptr h) + unat (st_remaining h)"
proof -
  have le: "sz \<le> st_remaining h" "p = st_ptr h" "h' = h\<lparr>st_ptr := st_ptr h + sz, st_remaining := st_remaining h - sz\<rparr>"
    using assms(2,3) by (auto simp: st_malloc_def split: if_splits)
  have "unat sz \<le> unat (st_remaining h)" using le(1) by (simp add: word_le_nat_alt)
  moreover from this assms(1) have "unat (st_ptr h + sz) = unat (st_ptr h) + unat sz" by (intro unat_add_no_overflow) simp
  moreover have "unat (st_remaining h - sz) = unat (st_remaining h) - unat sz" using le(1) by (simp add: unat_sub)
  ultimately show "bytes_of p sz = {unat (st_ptr h)..<unat (st_ptr h')}" "unat (st_ptr h) \<le> unat (st_ptr h')"
    "unat (st_ptr h') + unat (st_remaining h') = unat (st_ptr h) + unat (st_remaining h)" using le(2,3) by (auto simp: bytes_of_def)
qed

theorem st_mallocs_apart:
  assumes "unat (st_ptr h) + unat (st_remaining h) < 2 ^ 64" and "st_mallocs szs h = (ps, h')"
  shows "(\<forall>b\<in>set (map (\<lambda>(p, sz). bytes_of p sz) (filter (\<lambda>(p, sz). p \<noteq> 0) (zip ps szs))). b \<subseteq> {unat (st_ptr h)..<unat (st_ptr h) + unat (st_remaining h)})
     \<and> sorted_wrt (\<lambda>b c. b \<inter> c = {}) (map (\<lambda>(p, sz). bytes_of p sz) (filter (\<lambda>(p, sz). p \<noteq> 0) (zip ps szs)))"
  using assms
proof (induction szs arbitrary: h ps)
  case (Cons sz szs)
  obtain p h1 qs where s: "st_malloc sz h = (p, h1)" "st_mallocs szs h1 = (qs, h')" "ps = p # qs"
    using Cons.prems(2) by (auto split: prod.splits)
  show ?case
  proof (cases "p = 0")
    case True
    show ?thesis
    proof (cases "st_remaining h < sz")
      case False
      then have "st_ptr h = 0" "h1 = h\<lparr>st_ptr := st_ptr h + sz, st_remaining := st_remaining h - sz\<rparr>" using s(1) True by (auto simp: st_malloc_def)
      then have h1: "st_ptr h1 = sz" "st_remaining h1 = st_remaining h - sz" "st_ptr h = 0" by simp_all
      have u: "unat (st_remaining h - sz) = unat (st_remaining h) - unat sz" "unat sz \<le> unat (st_remaining h)"
        using False by (simp_all add: unat_sub word_le_nat_alt not_less)
      then have "unat (st_ptr h1) + unat (st_remaining h1) < 2 ^ 64" using Cons.prems(1) h1 by simp
      from Cons.IH [OF this s(2)] h1 u show ?thesis using s(3) True by fastforce
    qed (use Cons s True in \<open>auto simp: st_malloc_def\<close>)
  next
    case False
    note st = st_malloc_step [OF Cons.prems(1) s(1) False]
    have "unat (st_ptr h1) + unat (st_remaining h1) < 2 ^ 64" using st(3) Cons.prems(1) by simp
    from Cons.IH [OF this s(2)] st s(3) False show ?thesis by fastforce
  qed
qed simp

text \<open>The check whether a pointer belongs to the heap can never succeed: it compares with the start twice.\<close>

theorem st_isValid_never: "\<not> st_isValid buf p"
  by (auto simp: st_isValid_def)

end
