(* ===== verification/Xalloc.thy ===== *)
theory Xalloc
  imports HeapSafety
begin

text \<open>
  \<open>XallocHeap\<close> of \<open>src/include/heaplayers/xallocHeap.h\<close>: a stack of blocks in one array. The word in front of a block holds the size of the block
  before it and, in bit 0, whether the block itself is in use; freeing the last block pops it and all unused blocks under it.
\<close>

section \<open>The code\<close>

record xalloc =
  xa_end :: nat
  xa_start :: nat
  xa_last :: ptr
  xa_mem :: mem

definition size_lval :: "nat \<Rightarrow> mem \<Rightarrow> ulong" where
  "size_lval x m = load64 (x - 8) m"

definition set_size_lval :: "nat \<Rightarrow> ulong \<Rightarrow> mem \<Rightarrow> mem" where
  "set_size_lval x v m = store64 (x - 8) v m"

definition prev_block :: "nat \<Rightarrow> mem \<Rightarrow> nat" where
  "prev_block x m = x - unat (size_lval x m AND NOT 1)"

definition in_use :: "nat \<Rightarrow> mem \<Rightarrow> bool" where
  "in_use x m = (size_lval x m AND 1 \<noteq> 0)"

definition set_use :: "nat \<Rightarrow> mem \<Rightarrow> mem" where
  "set_use x m = set_size_lval x (size_lval x m OR 1) m"

definition clear_use :: "nat \<Rightarrow> mem \<Rightarrow> mem" where
  "clear_use x m = set_size_lval x (size_lval x m AND NOT 1) m"

text \<open>The parameter of \<open>align\<close> is an \<open>int\<close>.\<close>

definition xa_align :: "ulong \<Rightarrow> ulong" where
  "xa_align sz = (scast (ucast sz :: cint) + 7) AND NOT 7"

definition xa_init :: "nat \<Rightarrow> mem \<Rightarrow> xalloc" where
  "xa_init buf m =
     (let e = buf + unat (xa_align 8)
      in \<lparr>xa_end = e, xa_start = buf, xa_last = None, xa_mem = set_size_lval e 0 m\<rparr>)"

definition xa_malloc :: "nat \<Rightarrow> ulong \<Rightarrow> xalloc \<Rightarrow> ptr \<times> xalloc" where
  "xa_malloc arenaSize sz a =
     (let old = xa_end a; a1 = a\<lparr>xa_end := old + unat (xa_align (sz + 8))\<rparr>
      in if xa_start a1 + arenaSize \<le> old + unat sz then (None, a1)
         else (let m1 = set_size_lval (xa_end a1) (word_of_nat (xa_end a1 - old)) (xa_mem a1);
                   m2 = set_use old (clear_use (xa_end a1) m1)
               in (Some old, a1\<lparr>xa_mem := m2, xa_last := Some old\<rparr>)))"

partial_function (option) xa_pop :: "nat \<Rightarrow> mem \<Rightarrow> (nat \<times> ptr) option" where
  "xa_pop p m =
     (let q = prev_block p m
      in if q = p then Some (p, None) else if in_use q m then Some (p, Some q) else xa_pop q m)"

definition xa_free :: "nat \<Rightarrow> xalloc \<Rightarrow> xalloc option" where
  "xa_free p a =
     (let a1 = a\<lparr>xa_mem := clear_use p (xa_mem a)\<rparr>
      in if xa_last a1 = Some p
         then map_option (\<lambda>(e, l). a1\<lparr>xa_end := e, xa_last := l\<rparr>) (xa_pop p (xa_mem a1))
         else Some a1)"

section \<open>The blocks\<close>

text \<open>The blocks from the last to the first, each with its size, header included, and whether it is in use; \<open>s\<close> is the first block's address.\<close>

fun blocks :: "mem \<Rightarrow> nat \<Rightarrow> (nat \<times> bool) list \<Rightarrow> nat \<Rightarrow> bool" where
  "blocks m s [] e \<longleftrightarrow> e = s \<and> size_lval e m AND NOT 1 = 0"
| "blocks m s ((sz, u) # bs) e \<longleftrightarrow> 8 \<le> sz \<and> sz < 2 ^ 64 \<and> s + sz \<le> e \<and> size_lval e m AND NOT 1 = word_of_nat sz
     \<and> in_use (e - sz) m = u \<and> blocks m s bs (e - sz)"

definition last_of :: "(nat \<times> bool) list \<Rightarrow> nat \<Rightarrow> ptr" where
  "last_of bs e = (case bs of [] \<Rightarrow> None | (sz, u) # _ \<Rightarrow> Some (e - sz))"

fun top_used :: "(nat \<times> bool) list \<Rightarrow> bool" where
  "top_used [] \<longleftrightarrow> True"
| "top_used (b # bs) \<longleftrightarrow> snd b"

definition stacked :: "(nat \<times> bool) list \<Rightarrow> xalloc \<Rightarrow> bool" where
  "stacked bs a \<longleftrightarrow> blocks (xa_mem a) (xa_start a + 8) bs (xa_end a) \<and> xa_last a = last_of bs (xa_end a) \<and> top_used bs"

lemma mask_parts:
  "(w OR 1) AND NOT 1 = w AND NOT (1 :: ulong)" "(w AND NOT 1) AND NOT 1 = w AND NOT (1 :: ulong)"
  "(w OR 1) AND 1 \<noteq> (0 :: ulong)" "(w AND NOT 1) AND 1 = (0 :: ulong)"
proof -
  show "(w OR 1) AND NOT 1 = w AND NOT (1 :: ulong)" "(w AND NOT 1) AND NOT 1 = w AND NOT (1 :: ulong)" "(w AND NOT 1) AND 1 = (0 :: ulong)"
    by (auto intro: bit_word_eqI simp: bit_simps)
  have "bit ((w OR 1) AND 1) 0" by (simp add: bit_simps)
  then show "(w OR 1) AND 1 \<noteq> (0 :: ulong)" by (metis bit_0_eq bot_apply bot_bool_def)
qed

lemma not_one: "NOT (1 :: ulong) = - 2"
  by simp

lemmas mask_simps = mask_parts [unfolded not_one]

lemma blocks_frame:
  assumes "blocks m s bs e" and "8 \<le> s"
    and "size_lval e m' AND NOT 1 = size_lval e m AND NOT 1"
    and "\<And>x. s \<le> x \<Longrightarrow> x + 8 \<le> e \<Longrightarrow> size_lval x m' = size_lval x m"
  shows "blocks m' s bs e"
  using assms
proof (induction bs arbitrary: e)
  case (Cons b bs)
  obtain sz u where b: "b = (sz, u)" by (cases b)
  have x: "s \<le> e - sz" "e - sz + 8 \<le> e" using Cons.prems(1) b by auto
  have "blocks m' s bs (e - sz)"
  proof (rule Cons.IH)
    show "blocks m s bs (e - sz)" using Cons.prems(1) b by simp
    show "size_lval (e - sz) m' AND NOT 1 = size_lval (e - sz) m AND NOT 1" using Cons.prems(4) x by simp
    show "size_lval y m' = size_lval y m" if "s \<le> y" "y + 8 \<le> e - sz" for y using Cons.prems(4) [of y] that by simp
  qed (use Cons.prems(2) in simp)
  then show ?case using Cons.prems b x by (simp add: in_use_def)
qed simp

lemma size_lval_set [simp]: "8 \<le> x \<Longrightarrow> size_lval x (set_size_lval x v m) = v"
  by (simp add: size_lval_def set_size_lval_def)

lemma size_lval_other: "8 \<le> x \<Longrightarrow> x + 8 \<le> y \<or> y + 8 \<le> x \<Longrightarrow> 8 \<le> y \<Longrightarrow> size_lval x (set_size_lval y v m) = size_lval x m"
  by (simp add: size_lval_def set_size_lval_def) (rule load64_store64_other, auto)

lemma scast_ucast_small:
  assumes "n < 2 ^ 31"
  shows "scast (ucast (word_of_nat n :: ulong) :: cint) = (word_of_nat n :: ulong)"
proof -
  have u: "unat (word_of_nat n :: ulong) = n" using assms by (intro unat_of_nat_small) simp
  have n: "unat (ucast (word_of_nat n :: ulong) :: cint) = n"
    using assms u by (simp add: unsigned_ucast_eq take_bit_nat_eq_self)
  have "uint (ucast (word_of_nat n :: ulong) :: cint) = int n" using n by (metis uint_nat)
  moreover have "sint w = signed_take_bit 31 (uint w)" for w :: cint by (simp add: sint_uint)
  ultimately have "sint (ucast (word_of_nat n :: ulong) :: cint) = int n"
    using assms by (simp add: signed_take_bit_int_eq_self)
  then show ?thesis by (simp add: scast_eq)
qed

lemma xa_align_eq:
  assumes "unat sz < 2 ^ 31 - 8"
  shows "unat (xa_align sz) = (unat sz + 7) div 8 * 8"
proof -
  have "scast (ucast (word_of_nat (unat sz) :: ulong) :: cint) = (word_of_nat (unat sz) :: ulong)"
    by (rule scast_ucast_small) (use assms in simp)
  then have "xa_align sz = align sz" by (simp add: xa_align_def align_def)
  moreover have "unat (align sz) = (unat sz + 7) div 8 * 8" by (rule unat_align) (use assms in simp)
  ultimately show ?thesis by simp
qed

lemma xa_init_stacked: "stacked [] (xa_init buf m)"
proof -
  have "unat (xa_align 8) = 8" using xa_align_eq [of 8] by simp
  then show ?thesis by (simp add: stacked_def xa_init_def Let_def last_of_def)
qed

lemma blocks_le: "blocks m s bs e \<Longrightarrow> s \<le> e"
  by (cases bs) auto

lemma even_mask: "even n \<Longrightarrow> (word_of_nat n :: ulong) AND NOT 1 = word_of_nat n"
proof (rule bit_word_eqI)
  fix k assume "even n"
  then have "\<not> bit (word_of_nat n :: ulong) 0" by (simp add: bit_0)
  then show "bit ((word_of_nat n :: ulong) AND NOT 1) k = bit (word_of_nat n :: ulong) k"
    by (cases k) (auto simp: bit_simps)
qed

theorem xa_malloc_pushes:
  assumes st: "stacked bs a" and sz: "unat sz < 2 ^ 31 - 16" and room: "xa_end a + unat sz < xa_start a + arenaSize"
  defines "n \<equiv> (unat sz + 15) div 8 * 8"
  shows "\<exists>a'. xa_malloc arenaSize sz a = (Some (xa_end a), a') \<and> stacked ((n, True) # bs) a' \<and> xa_start a' = xa_start a
     \<and> xa_end a' = xa_end a + n" "unat sz + 8 \<le> n"
proof -
  let ?e = "xa_end a" and ?s = "xa_start a + 8" and ?m = "xa_mem a"
  have al: "unat (sz + 8) = unat sz + 8" by (subst unat_add_no_overflow) (use sz in simp_all)
  have n: "unat (xa_align (sz + 8)) = n" unfolding n_def using sz by (subst xa_align_eq) (simp_all add: al)
  have n8: "8 \<le> n" "n < 2 ^ 64" "even n" unfolding n_def using sz by auto
  show "unat sz + 8 \<le> n" unfolding n_def by simp
  have b: "blocks ?m ?s bs ?e" using st by (simp add: stacked_def)
  have se: "?s \<le> ?e" using blocks_le [OF b] .
  define m1 where "m1 = set_size_lval (?e + n) (word_of_nat n) ?m"
  define m2 where "m2 = set_use ?e (clear_use (?e + n) m1)"
  have m1e: "size_lval (?e + n) m1 = word_of_nat n" "\<And>x. 8 \<le> x \<Longrightarrow> x \<le> ?e \<Longrightarrow> size_lval x m1 = size_lval x ?m"
    using n8 by (auto simp: m1_def intro!: size_lval_other)
  have m2e: "size_lval (?e + n) m2 = word_of_nat n AND NOT 1"
    using n8 se m1e(1) by (simp add: m2_def set_use_def size_lval_other) (simp add: clear_use_def)
  have cl: "\<And>x. 8 \<le> x \<Longrightarrow> x \<le> ?e \<Longrightarrow> size_lval x (clear_use (?e + n) m1) = size_lval x m1"
    using n8 by (auto simp: clear_use_def intro!: size_lval_other)
  have m2o: "size_lval ?e m2 = size_lval ?e ?m OR 1" using se cl m1e(2) by (simp add: m2_def set_use_def)
  have m2x: "size_lval x m2 = size_lval x ?m" if "?s \<le> x" "x + 8 \<le> ?e" for x
    using that se cl m1e(2) by (simp add: m2_def set_use_def size_lval_other)
  have "blocks m2 ?s bs ?e" by (rule blocks_frame [OF b]) (use m2x m2o in \<open>auto simp: mask_simps\<close>)
  then have "blocks m2 ?s ((n, True) # bs) (?e + n)"
    using n8 se m2e m2o by (simp add: even_mask [unfolded not_one] mask_simps in_use_def)
  then show "\<exists>a'. xa_malloc arenaSize sz a = (Some ?e, a') \<and> stacked ((n, True) # bs) a' \<and> xa_start a' = xa_start a \<and> xa_end a' = ?e + n"
    using room n by (simp add: xa_malloc_def Let_def stacked_def last_of_def m1_def m2_def)
qed

lemma xa_pop_drops:
  assumes "blocks m s bs p" and "8 \<le> s"
  shows "\<exists>e l. xa_pop p m = Some (e, l) \<and> blocks m s (dropWhile (\<lambda>b. \<not> snd b) bs) e \<and> l = last_of (dropWhile (\<lambda>b. \<not> snd b) bs) e"
  using assms
proof (induction bs arbitrary: p)
  case Nil
  then have "prev_block p m = p" by (auto simp: prev_block_def)
  with Nil show ?case by (subst xa_pop.simps) (auto simp: Let_def last_of_def)
next
  case (Cons b bs)
  obtain sz u where b: "b = (sz, u)" by (cases b)
  have sz: "8 \<le> sz" "sz < 2 ^ 64" "s + sz \<le> p" "in_use (p - sz) m = u" "blocks m s bs (p - sz)" using Cons.prems(1) b by auto
  have "unat (size_lval p m AND NOT 1) = sz" using Cons.prems(1) b unat_of_nat_small [of sz, where 'a = 64] by simp
  then have q: "prev_block p m = p - sz" by (simp add: prev_block_def)
  show ?case
  proof (cases u)
    case True
    have "p - sz \<noteq> p" "in_use (p - sz) m" using sz True by simp_all
    then have "xa_pop p m = Some (p, Some (p - sz))" using q by (subst xa_pop.simps) (simp only: Let_def if_True if_False)
    then show ?thesis using b True Cons.prems(1) by (simp add: last_of_def)
  next
    case False
    have "p - sz \<noteq> p" "\<not> in_use (p - sz) m" using sz False by simp_all
    then have "xa_pop p m = xa_pop (p - sz) m" using q by (subst xa_pop.simps) (simp only: Let_def if_False)
    with Cons.IH [OF sz(5) Cons.prems(2)] show ?thesis using b False by simp
  qed
qed

lemma dropWhile_head: "top_used (dropWhile (\<lambda>b. \<not> snd b) bs)"
  by (induction bs) simp_all

theorem xa_free_last:
  assumes "stacked ((sz, u) # bs) a"
  shows "\<exists>a'. xa_free (xa_end a - sz) a = Some a' \<and> stacked (dropWhile (\<lambda>b. \<not> snd b) bs) a' \<and> xa_start a' = xa_start a"
proof -
  let ?p = "xa_end a - sz" and ?s = "xa_start a + 8"
  have b: "blocks (xa_mem a) ?s bs ?p" "?s \<le> ?p" using assms by (auto simp: stacked_def)
  have "blocks (clear_use ?p (xa_mem a)) ?s bs ?p"
    by (rule blocks_frame [OF b(1)]) (use b(2) in \<open>auto simp: clear_use_def mask_simps size_lval_other\<close>)
  from xa_pop_drops [OF this] obtain e l where p: "xa_pop ?p (clear_use ?p (xa_mem a)) = Some (e, l)"
    "blocks (clear_use ?p (xa_mem a)) ?s (dropWhile (\<lambda>b. \<not> snd b) bs) e" "l = last_of (dropWhile (\<lambda>b. \<not> snd b) bs) e" by auto
  have "xa_last a = Some ?p" using assms by (simp add: stacked_def last_of_def)
  with p dropWhile_head [of bs] show ?thesis by (simp add: xa_free_def Let_def stacked_def)
qed

definition place_below :: "(nat \<times> bool) list \<Rightarrow> nat \<Rightarrow> nat" where
  "place_below as e = e - sum_list (map fst as)"

lemma blocks_clear:
  assumes "blocks m s (as @ (sz, u) # bs) e" and "8 \<le> s"
  shows "blocks (clear_use (place_below as e - sz) m) s (as @ (sz, False) # bs) e" "s \<le> place_below as e - sz" "place_below as e - sz + 8 \<le> place_below as e"
    "place_below as e \<le> e"
  using assms
proof (induction as arbitrary: e)
  case Nil
  {
    case 1
    let ?p = "e - sz"
    have b: "blocks m s bs ?p" "s \<le> ?p" "?p + 8 \<le> e" "8 \<le> e" using 1 by auto
    have "blocks (clear_use ?p m) s bs ?p"
      by (rule blocks_frame [OF b(1)]) (use b 1 in \<open>auto simp: clear_use_def mask_simps size_lval_other\<close>)
    then show ?case using 1 b by (simp add: place_below_def clear_use_def size_lval_other in_use_def mask_simps)
  next
    case 2
    then show ?case by (auto simp: place_below_def)
  next
    case 3
    then show ?case by (auto simp: place_below_def)
  next
    case 4
    then show ?case by (simp add: place_below_def)
  }
next
  case (Cons a as)
  obtain n v where a: "a = (n, v)" by (cases a)
  have pl: "place_below (a # as) x = place_below as (x - n)" for x using a by (simp add: place_below_def)
  {
    case 1
    have c: "8 \<le> n" "s + n \<le> e" "blocks m s (as @ (sz, u) # bs) (e - n)" using 1 a by auto
    note ih = Cons.IH [OF c(3) 1(2)]
    let ?p = "place_below as (e - n) - sz"
    have "?p + 8 \<le> e - n" using ih(3,4) by simp
    moreover have "8 \<le> ?p" using ih(2) 1(2) by simp
    ultimately have "size_lval e (clear_use ?p m) = size_lval e m" "size_lval (e - n) (clear_use ?p m) = size_lval (e - n) m"
      using c unfolding clear_use_def by (auto intro!: size_lval_other)
    then show ?case unfolding pl using 1 a ih(1) by (simp add: in_use_def)
  next
    case 2
    with Cons.IH(2) [of "e - n"] a pl show ?case by simp
  next
    case 3
    with Cons.IH(3) [of "e - n"] a pl show ?case by simp
  next
    case 4
    with Cons.IH(4) [of "e - n"] a pl show ?case by simp
  }
qed

theorem xa_free_inner:
  assumes "stacked (as @ (sz, u) # bs) a" and "as \<noteq> []"
  shows "\<exists>a'. xa_free (place_below as (xa_end a) - sz) a = Some a' \<and> stacked (as @ (sz, False) # bs) a' \<and> xa_start a' = xa_start a"
proof -
  obtain n v as' where as: "as = (n, v) # as'" using assms(2) by (cases as) auto
  let ?p = "place_below as (xa_end a) - sz"
  have b: "blocks (xa_mem a) (xa_start a + 8) (as @ (sz, u) # bs) (xa_end a)" using assms(1) by (simp add: stacked_def)
  note c = blocks_clear [OF b]
  have "xa_last a = Some (xa_end a - n)" using assms(1) as by (simp add: stacked_def last_of_def)
  moreover have "blocks (xa_mem a) (xa_start a + 8) (as' @ (sz, u) # bs) (xa_end a - n)" using b as by simp
  from blocks_clear(3,4) [OF this] have "?p < xa_end a - n" using as by (simp add: place_below_def)
  ultimately have "xa_last a \<noteq> Some ?p" by simp
  then show ?thesis using assms(1) c(1) as by (simp add: xa_free_def Let_def stacked_def last_of_def)
qed

text \<open>When the last block in use is freed the array is empty again.\<close>

theorem xa_free_empties:
  assumes "stacked ((sz, True) # bs) a" and "\<forall>b\<in>set bs. \<not> snd b"
  shows "\<exists>a'. xa_free (xa_end a - sz) a = Some a' \<and> stacked [] a' \<and> xa_end a' = xa_start a + 8"
proof -
  have "dropWhile (\<lambda>b. \<not> snd b) bs = []" using assms(2) by simp
  with xa_free_last [OF assms(1)] obtain a' where "xa_free (xa_end a - sz) a = Some a'" "stacked [] a'" "xa_start a' = xa_start a" by metis
  then show ?thesis by (auto simp: stacked_def)
qed

section \<open>Two errors\<close>

text \<open>A request that fails moves the end of the array all the same: a smaller request that would have fitted fails after it.\<close>

theorem xa_malloc_fails_forever:
  assumes "unat sz < 2 ^ 31 - 16" and "xa_start a + arenaSize \<le> xa_end a + unat sz"
  shows "\<exists>a'. xa_malloc arenaSize sz a = (None, a') \<and> xa_start a' + arenaSize \<le> xa_end a' \<and> fst (xa_malloc arenaSize sz' a') = None"
proof -
  have al: "unat (sz + 8) = unat sz + 8" by (subst unat_add_no_overflow) (use assms(1) in simp_all)
  have "unat (xa_align (sz + 8)) = (unat sz + 15) div 8 * 8" using assms(1) by (subst xa_align_eq) (simp_all add: al)
  then have "unat sz \<le> unat (xa_align (sz + 8))" by simp
  then show ?thesis using assms(2) by (simp add: xa_malloc_def Let_def)
qed

text \<open>The test forgets the header behind the new block: it is written beyond the array when the block ends near its end.\<close>

theorem xa_malloc_overruns:
  assumes "unat sz < 2 ^ 31 - 16" and "xa_start a + arenaSize = xa_end a + 8 * k" and "8 * k < unat sz + 8" and "unat sz < 8 * k" and "8 \<le> xa_end a"
  shows "\<exists>p a'. xa_malloc arenaSize sz a = (Some p, a') \<and> xa_end a' - 8 = xa_start a + arenaSize
     \<and> load64 (xa_start a + arenaSize) (xa_mem a') = word_of_nat (8 * k + 8)"
proof -
  have al: "unat (sz + 8) = unat sz + 8" by (subst unat_add_no_overflow) (use assms(1) in simp_all)
  have "(unat sz + 15) div 8 = k + 1" using assms(3,4) by linarith
  then have n: "unat (xa_align (sz + 8)) = 8 * k + 8" using assms(1) by (subst xa_align_eq) (simp_all add: al add.commute)
  have e: "xa_end a + unat (xa_align (sz + 8)) - 8 = xa_start a + arenaSize" using n assms(2) by simp
  have "load64 (xa_start a + arenaSize) (set_use (xa_end a) (clear_use (xa_end a + (8 * k + 8))
      (set_size_lval (xa_end a + (8 * k + 8)) (word_of_nat (8 * k + 8)) (xa_mem a)))) = word_of_nat (8 * k + 8) AND NOT 1"
    using assms(2,4,5) by (simp add: set_use_def set_size_lval_def clear_use_def size_lval_def load64_store64_other)
  then show ?thesis using assms(2,4) n even_mask [of "8 * k + 8"] by (simp add: xa_malloc_def Let_def)
qed

end
