(* ===== verification/Bins.thy ===== *)
theory Bins
  imports Kingsley
begin

text \<open>
  The tables of size classes of \<open>src/include/heaplayers/bins4k.h\<close>, \<open>bins8k.h\<close>, \<open>bins16k.h\<close> and \<open>bins64k.h\<close>, for chunks of 4, 8, 16 and 64
  kilobytes. \<open>h\<close> is \<open>sizeof(Header)\<close>, a template argument. Two of the four functions look the class up in a table, the others search the bins.
\<close>

section \<open>Search\<close>

text \<open>The first bin from \<open>c\<close> on that is big enough; beyond the last bin the code reads on.\<close>

fun slowLookup :: "ulong list \<Rightarrow> ulong \<Rightarrow> nat \<Rightarrow> nat result" where
  "slowLookup [] sz c = Inl OutOfBounds"
| "slowLookup (b # bs) sz c = (if b < sz then slowLookup bs sz (Suc c) else Inr c)"

definition bins4k :: "ulong \<Rightarrow> ulong list" where
  "bins4k h = [8, 16, 24, 32, 40, 48, 56, 64, 72, 80, 88, 96, 104, 112, 120, 128, 152, 176, 208, 248, 296, 352, 416, 496, 592, 704, 856,
     1024, 1224, 1712, 2048, 3416, 4096 - h]"

definition bins4k_getSizeClass :: "ulong \<Rightarrow> ulong \<Rightarrow> nat result" where
  "bins4k_getSizeClass h sz =
     (if sz < 8 then Inr 0 else if sz \<le> 128 then Inr (unat (drop_bit 3 (sz + 7) - 1)) else slowLookup (bins4k h) sz 0)"

definition bins64k :: "ulong \<Rightarrow> ulong list" where
  "bins64k h = [8, 16, 24, 32, 40, 48, 56, 64, 72, 80, 96, 112, 128, 152, 176, 208, 248, 296, 352, 416, 496, 592, 704, 840, 1008, 1208, 1448, 1736,
     2080, 2496, 2992, 3584, 4096 - h, 4912, 5888, 7064, 8192 - h, 9824, 11784, 12288 - h, 14744, 16384 - h, 19656, 20480 - h, 24576 - h,
     28672 - h, 32768 - h, 36864 - h, 40960 - h, 45056 - h, 49152 - h, 53248 - h, 57344 - h, 61440 - h, 65536 - h]"

definition bins64k_getSizeClass :: "ulong \<Rightarrow> ulong \<Rightarrow> nat result" where
  "bins64k_getSizeClass h sz =
     (let sz = (if sz < 8 then 8 else sz) in if sz \<le> 80 then Inr (unat (drop_bit 3 (sz - 1))) else slowLookup (bins64k h) sz 0)"

section \<open>Tables\<close>

text \<open>The tables hold the classes 0, 1, 2, and so on, each as often as the list says.\<close>

fun runs :: "nat \<Rightarrow> nat list \<Rightarrow> nat list" where
  "runs c [] = []"
| "runs c (n # ns) = replicate n c @ runs (Suc c) ns"

definition table_class :: "nat list \<Rightarrow> ulong \<Rightarrow> nat result" where
  "table_class t sz =
     (let ind = sint (ucast (drop_bit 3 (sz - 1)) :: cint)
      in if 0 \<le> ind \<and> ind < int (length t) then Inr (t ! nat ind) else Inl OutOfBounds)"

definition bins8k :: "ulong \<Rightarrow> ulong list" where
  "bins8k h = [8, 16, 24, 32, 40, 48, 56, 64, 72, 80, 96, 112, 128, 152, 176, 208, 248, 296, 352, 416, 496, 592, 704, 840, 1008, 1208, 1448, 1736,
     2272, 2720, 3400, 4096 - h]"

definition runs8k :: "nat list" where
  "runs8k = [1, 1, 1, 1, 1, 1, 1, 1, 1, 1, 2, 2, 2, 3, 3, 4, 5, 6, 7, 8, 10, 12, 14, 17, 21, 25, 30, 36, 67, 56, 85, 85, 340, 168]"

definition bins8k_getSizeClass :: "ulong \<Rightarrow> nat result" where
  "bins8k_getSizeClass sz = table_class (runs 0 runs8k) sz"

definition bins16k :: "ulong \<Rightarrow> ulong list" where
  "bins16k h = [8, 16, 24, 32, 40, 56, 80, 112, 160, 224, 320, 456, 648, 920, 1312, 1864, 2656, 3784, 5392, 5448, 7760, 8176, 11648, 16384 - h]"

definition runs16k :: "nat list" where
  "runs16k = [1, 1, 1, 1, 1, 2, 3, 4, 6, 8, 12, 17, 24, 34, 49, 69, 99, 141, 201, 7, 289, 52, 434, 588]"

definition bins16k_getSizeClass :: "ulong \<Rightarrow> nat result" where
  "bins16k_getSizeClass sz = table_class (runs 0 runs16k) sz"

definition getClassSize :: "ulong list \<Rightarrow> nat \<Rightarrow> ulong result" where
  "getClassSize bins i = (if i < length bins then Inr (bins ! i) else Inl OutOfBounds)"

lemma drop3: "unat (drop_bit 3 x) = unat (x :: ulong) div 8"
  by (simp add: drop_bit_eq_div unat_div_distrib)

lemma unat_small: "n < 16777216 \<Longrightarrow> unat (word_of_nat n :: ulong) = n"
  by (simp add: unat_of_nat)

section \<open>They find the least class that fits\<close>

definition fits :: "ulong list \<Rightarrow> ulong \<Rightarrow> nat \<Rightarrow> bool" where
  "fits bins sz c \<longleftrightarrow> c < length bins \<and> sz \<le> bins ! c \<and> (\<forall>j<c. bins ! j < sz)"

lemma slowLookup_fits:
  assumes "bs \<noteq> []" and "sz \<le> last bs"
  shows "\<exists>c. slowLookup bs sz d = Inr (d + c) \<and> fits bs sz c"
  using assms
proof (induction bs arbitrary: d)
  case (Cons b bs)
  show ?case
  proof (cases "b < sz")
    case True
    with Cons.prems have ne: "bs \<noteq> []" "sz \<le> last bs" by (auto simp: not_le split: if_splits)
    from Cons.IH [OF this, of "Suc d"] obtain c where c: "slowLookup bs sz (Suc d) = Inr (Suc d + c)" "fits bs sz c" by blast
    with True have "fits (b # bs) sz (Suc c)" by (auto simp: fits_def less_Suc_eq_0_disj)
    with c True show ?thesis by (intro exI [of _ "Suc c"]) simp
  next
    case False
    then have "sz \<le> b" by simp
    with False show ?thesis by (intro exI [of _ 0]) (auto simp: fits_def)
  qed
qed simp

text \<open>The small classes are the multiples of eight, so that they need no search.\<close>

lemma steps_fit:
  assumes "\<And>i. i < k \<Longrightarrow> i < length bs \<and> bs ! i = word_of_nat (8 * Suc i)" and "0 < n" "n \<le> 8 * k" "k < 1048576"
  shows "fits bs (word_of_nat n) ((n - 1) div 8)"
proof -
  have c: "(n - 1) div 8 < k" using assms(2-4) by (simp add: div_less_iff_less_mult)
  have le: "n \<le> 8 * Suc ((n - 1) div 8)" using assms(2) by simp
  have "(word_of_nat n :: ulong) \<le> word_of_nat (8 * Suc ((n - 1) div 8))"
    using le c assms(4) unat_small [of n] unat_small [of "8 * Suc ((n - 1) div 8)"] by (simp add: word_le_nat_alt del: of_nat_mult mult_Suc_right)
  moreover have "(word_of_nat (8 * Suc j) :: ulong) < word_of_nat n" if "j < (n - 1) div 8" for j
  proof -
    have "Suc j \<le> (n - 1) div 8" using that by simp
    then have "8 * Suc j \<le> n - 1" by (simp add: less_eq_div_iff_mult_less_eq mult.commute del: mult_Suc_right)
    with assms(2) have "8 * Suc j < n" by linarith
    then show ?thesis using that c assms(4) le unat_small [of n] unat_small [of "8 * Suc j"] by (simp add: word_less_nat_alt del: of_nat_mult mult_Suc_right)
  qed
  ultimately show ?thesis using assms(1) c by (auto simp: fits_def)
qed

lemma small_bins:
  "i < 16 \<Longrightarrow> i < length (bins4k h) \<and> bins4k h ! i = word_of_nat (8 * Suc i)" "i < 10 \<Longrightarrow> i < length (bins64k h) \<and> bins64k h ! i = word_of_nat (8 * Suc i)"
  by (auto simp: bins4k_def bins64k_def less_Suc_eq numeral_eq_Suc)

lemma bins4k_class:
  assumes "sz \<le> 4096 - h"
  shows "\<exists>c. bins4k_getSizeClass h sz = Inr c \<and> fits (bins4k h) sz c"
proof -
  consider "sz < 8" | "8 \<le> sz" "sz \<le> 128" | "128 < sz" by force
  then show ?thesis
  proof cases
    case 1
    then show ?thesis by (intro exI [of _ 0]) (simp add: bins4k_getSizeClass_def fits_def bins4k_def)
  next
    case 2
    have n: "8 \<le> unat sz" "unat sz \<le> 128" using 2 by (simp_all add: word_le_nat_alt)
    then have "unat (sz + 7) = unat sz + 7" by (simp add: unat_word_ariths)
    then have "unat (drop_bit 3 (sz + 7)) = Suc ((unat sz - 1) div 8)" using n by (simp add: drop3)
    then have "unat (drop_bit 3 (sz + 7) - 1) = (unat sz - 1) div 8" by (simp add: unat_sub_if_size word_le_nat_alt)
    then show ?thesis using 2 steps_fit [of 16 "bins4k h" "unat sz"] small_bins(1) n
      by (auto simp: bins4k_getSizeClass_def not_less)
  next
    case 3
    have s: "\<not> sz < 8" "\<not> sz \<le> 128" using 3 by (simp_all add: word_less_nat_alt word_le_nat_alt)
    show ?thesis using slowLookup_fits [of "bins4k h" sz 0] assms s by (simp add: bins4k_getSizeClass_def bins4k_def)
  qed
qed

lemma bins64k_class:
  assumes "sz \<le> 65536 - h"
  shows "\<exists>c. bins64k_getSizeClass h sz = Inr c \<and> fits (bins64k h) sz c"
proof -
  consider "sz < 8" | "8 \<le> sz" "sz \<le> 80" | "80 < sz" by force
  then show ?thesis
  proof cases
    case 1
    then have "sz \<le> 8" by simp
    with 1 show ?thesis by (intro exI [of _ 0]) (simp add: bins64k_getSizeClass_def fits_def bins64k_def)
  next
    case 2
    have n: "8 \<le> unat sz" "unat sz \<le> 80" using 2 by (simp_all add: word_le_nat_alt)
    then have "unat (sz - 1) = unat sz - 1" by (simp add: unat_sub_if_size word_le_nat_alt)
    then have "unat (drop_bit 3 (sz - 1)) = (unat sz - 1) div 8" by (simp add: drop3)
    then show ?thesis using 2 steps_fit [of 10 "bins64k h" "unat sz"] small_bins(2) n
      by (auto simp: bins64k_getSizeClass_def not_less)
  next
    case 3
    have s: "\<not> sz < 8" "\<not> sz \<le> 80" using 3 by (simp_all add: word_less_nat_alt word_le_nat_alt)
    show ?thesis using slowLookup_fits [of "bins64k h" sz 0] assms s by (simp add: bins64k_getSizeClass_def bins64k_def)
  qed
qed

section \<open>The tables agree with the bins\<close>

lemma length_runs [simp]: "length (runs c ns) = sum_list ns"
  by (induction ns arbitrary: c) simp_all

lemma runs_nth:
  "i < sum_list ns \<Longrightarrow> \<exists>c<length ns. runs b ns ! i = b + c \<and> sum_list (take c ns) \<le> i \<and> i < sum_list (take (Suc c) ns)"
proof (induction ns arbitrary: b i)
  case (Cons n ns)
  show ?case
  proof (cases "i < n")
    case True
    then show ?thesis by (intro exI [of _ 0]) (simp add: nth_append)
  next
    case False
    with Cons.prems have "i - n < sum_list ns" by simp
    from Cons.IH [OF this, of "Suc b"] obtain c where c: "c < length ns" "runs (Suc b) ns ! (i - n) = Suc b + c"
      "sum_list (take c ns) \<le> i - n" "i - n < sum_list (take (Suc c) ns)" by blast
    with False show ?thesis by (intro exI [of _ "Suc c"]) (auto simp: nth_append)
  qed
qed simp

lemma sum_take_mono: "a \<le> b \<Longrightarrow> sum_list (take a ns) \<le> sum_list (take b (ns :: nat list))"
  by (metis add.right_neutral add_left_mono le_add1 le_add_diff_inverse sum_list_append take_add zero_le)

lemma table_index:
  fixes sz :: ulong
  assumes "0 < sz" "unat sz \<le> 2 ^ 31"
  shows "sint (ucast (drop_bit 3 (sz - 1)) :: cint) = int ((unat sz - 1) div 8)"
proof -
  have "unat (sz - 1) = unat sz - 1" using assms(1) by (simp add: unat_sub_if_size word_le_nat_alt word_less_nat_alt Suc_le_eq)
  then have u: "unat (drop_bit 3 (sz - 1)) = (unat sz - 1) div 8" by (simp add: drop3)
  have b: "(unat sz - 1) div 8 < 2 ^ 31" using assms(2) by simp
  have "unat (ucast (drop_bit 3 (sz - 1)) :: cint) = (unat sz - 1) div 8"
    using u b by (simp add: unsigned_ucast_eq take_bit_nat_eq_self)
  then show ?thesis using b sint_small [of "ucast (drop_bit 3 (sz - 1))"] by simp
qed

definition stepped :: "nat list \<Rightarrow> nat \<Rightarrow> ulong \<Rightarrow> ulong list" where
  "stepped ns m b = map (\<lambda>j. word_of_nat (8 * sum_list (take (Suc j) ns))) [0..<m] @ [b]"

lemma table_fits:
  assumes m: "m < length ns" and sum: "sum_list ns < 1048576" and sz: "0 < sz" "sz \<le> b" "unat sz \<le> 8 * sum_list (take (Suc m) ns)"
  shows "\<exists>c. table_class (runs 0 ns) sz = Inr c \<and> fits (stepped ns m b) sz c"
proof -
  let ?i = "(unat sz - 1) div 8"
  have pos: "0 < unat sz" using sz(1) by (simp add: word_less_nat_alt)
  have S: "sum_list (take k ns) \<le> sum_list ns" for k using sum_take_mono [of k "max k (length ns)" ns] by simp
  have i: "?i < sum_list (take (Suc m) ns)" using sz(3) pos by (simp add: div_less_iff_less_mult)
  then have il: "?i < sum_list ns" using S le_trans not_less by blast
  have "unat sz \<le> 2 ^ 31" using sz(3) S [of "Suc m"] sum by simp
  from table_index [OF sz(1) this] have ix: "sint (ucast (drop_bit 3 (sz - 1)) :: cint) = int ?i" .
  from runs_nth [OF il, of 0] obtain c where c: "c < length ns" "runs 0 ns ! ?i = c" "sum_list (take c ns) \<le> ?i" "?i < sum_list (take (Suc c) ns)" by auto
  have cm: "c \<le> m"
  proof (rule ccontr)
    assume "\<not> c \<le> m"
    then have "sum_list (take (Suc m) ns) \<le> sum_list (take c ns)" by (intro sum_take_mono) simp
    with c(3) i show False by simp
  qed
  have u: "unat (word_of_nat (8 * sum_list (take k ns)) :: ulong) = 8 * sum_list (take k ns)" for k
    by (rule unat_small) (use S [of k] sum in linarith)
  have "stepped ns m b ! j < sz" if "j < c" for j
  proof -
    have "sum_list (take (Suc j) ns) \<le> ?i" using sum_take_mono [of "Suc j" c ns] that c(3) by simp
    then have "8 * sum_list (take (Suc j) ns) < unat sz" using pos by linarith
    with that cm show ?thesis by (simp add: stepped_def nth_append word_less_nat_alt u del: of_nat_mult)
  qed
  moreover have "sz \<le> stepped ns m b ! c"
  proof (cases "c = m")
    case False
    have "unat sz \<le> 8 * sum_list (take (Suc c) ns)" using c(4) pos by linarith
    with False cm show ?thesis by (simp add: stepped_def nth_append word_le_nat_alt u del: of_nat_mult)
  qed (use sz(2) in \<open>simp add: stepped_def nth_append\<close>)
  ultimately have "fits (stepped ns m b) sz c" using cm by (simp add: fits_def stepped_def)
  with ix il c(2) show ?thesis by (simp add: table_class_def)
qed

lemma bins8k_class:
  assumes "0 < sz" "sz \<le> 4096 - h" "16 \<le> h" "h \<le> 4096"
  shows "\<exists>c. bins8k_getSizeClass sz = Inr c \<and> fits (bins8k h) sz c"
proof -
  have "bins8k h = stepped runs8k 31 (4096 - h)" by (simp add: bins8k_def stepped_def runs8k_def upt_rec)
  moreover have "unat sz \<le> 8 * sum_list (take (Suc 31) runs8k)" using assms
    by (simp add: runs8k_def word_le_nat_alt unat_sub_if_size)
  moreover have "sum_list runs8k < 1048576" "31 < length runs8k" by (simp_all add: runs8k_def)
  ultimately show ?thesis using table_fits [of 31 runs8k sz "4096 - h"] assms(1,2) by (simp add: bins8k_getSizeClass_def)
qed

lemma bins16k_class:
  assumes "0 < sz" "sz \<le> 16384 - h" "32 \<le> h" "h \<le> 16384"
  shows "\<exists>c. bins16k_getSizeClass sz = Inr c \<and> fits (bins16k h) sz c"
proof -
  have "bins16k h = stepped runs16k 23 (16384 - h)" by (simp add: bins16k_def stepped_def runs16k_def upt_rec)
  moreover have "unat sz \<le> 8 * sum_list (take (Suc 23) runs16k)" using assms
    by (simp add: runs16k_def word_le_nat_alt unat_sub_if_size)
  moreover have "sum_list runs16k < 1048576" "23 < length runs16k" by (simp_all add: runs16k_def)
  ultimately show ?thesis using table_fits [of 23 runs16k sz "16384 - h"] assms(1,2) by (simp add: bins16k_getSizeClass_def)
qed

text \<open>A request for no byte has index -1. A header smaller than 16 or 32 bytes leaves sizes that are in a class without a bin, or behind the table.\<close>

lemma bins_outside:
  "bins8k_getSizeClass 0 = Inl OutOfBounds" "bins16k_getSizeClass 0 = Inl OutOfBounds"
  "bins8k_getSizeClass 4088 = Inr (length (bins8k 8))" "bins16k_getSizeClass 16360 = Inl OutOfBounds"
  by code_simp+

end
