(* ===== verification/Batches.thy ===== *)
theory Batches
  imports FreeLists
begin

text \<open>
  \<open>MultiMalloc\<close> and \<open>BatchHeap\<close> of \<open>src/include/heaplayers/experimental/batchheap.h\<close>: objects go from and to the heap below in batches of \<open>B\<close>, the template
  argument \<open>BatchNumber\<close>. A list ends early where the code would follow the NULL at its end.
\<close>

section \<open>MultiMalloc\<close>

fun multimalloc_loop :: "(ulong \<Rightarrow> 's \<Rightarrow> ptr \<times> 's) \<Rightarrow> ulong \<Rightarrow> nat \<Rightarrow> nat \<Rightarrow> int \<Rightarrow> nexts \<Rightarrow> 's \<Rightarrow> int \<times> nexts \<times> 's" where
  "multimalloc_loop smalloc sz 0 p i nx s = (i, nx(p := None), s)"
| "multimalloc_loop smalloc sz (Suc n) p i nx s =
     (case smalloc sz s of
        (None, s1) \<Rightarrow> (i, nx(p := None), s1)
      | (Some q, s1) \<Rightarrow> multimalloc_loop smalloc sz n q (i + 1) (nx(p := Some q)) s1)"

definition multimalloc :: "(ulong \<Rightarrow> 's \<Rightarrow> ptr \<times> 's) \<Rightarrow> int \<Rightarrow> ulong \<Rightarrow> nexts \<Rightarrow> 's \<Rightarrow> int \<times> ptr \<times> nexts \<times> 's" where
  "multimalloc smalloc num sz nx s =
     (case smalloc sz s of
        (None, s1) \<Rightarrow> (0, None, nx, s1)
      | (Some p, s1) \<Rightarrow> (case multimalloc_loop smalloc sz (nat (num - 1)) p 1 nx s1 of (i, nx1, s2) \<Rightarrow> (i, Some p, nx1, s2)))"

fun multifree :: "(nat \<Rightarrow> 's \<Rightarrow> 's) \<Rightarrow> nat \<Rightarrow> ptr \<Rightarrow> nexts \<Rightarrow> 's \<Rightarrow> 's result" where
  "multifree sfree 0 prev nx s = Inr s"
| "multifree sfree (Suc n) prev nx s = res_bind (deref prev) (\<lambda>a. multifree sfree n (nx a) nx (sfree a s))"

section \<open>BatchHeap\<close>

record 's batch =
  bt_nObjects :: int
  bt_list0 :: ptr
  bt_list1 :: ptr
  bt_next :: nexts
  bt_super :: 's

definition bt_init :: "nexts \<Rightarrow> 's \<Rightarrow> 's batch" where
  "bt_init nx s = \<lparr>bt_nObjects = 0, bt_list0 = None, bt_list1 = None, bt_next = nx, bt_super = s\<rparr>"

definition bt_destroy :: "(nat \<Rightarrow> 's \<Rightarrow> 's) \<Rightarrow> int \<Rightarrow> 's batch \<Rightarrow> 's result" where
  "bt_destroy sfree B h =
     (if bt_nObjects h \<le> B then multifree sfree (nat (bt_nObjects h)) (bt_list0 h) (bt_next h) (bt_super h)
      else res_bind (multifree sfree (nat B) (bt_list0 h) (bt_next h) (bt_super h))
             (multifree sfree (nat (bt_nObjects h - B)) (bt_list1 h) (bt_next h)))"

definition bt_refill :: "(ulong \<Rightarrow> 's \<Rightarrow> ptr \<times> 's) \<Rightarrow> int \<Rightarrow> ulong \<Rightarrow> 's batch \<Rightarrow> 's batch" where
  "bt_refill smalloc B sz h =
     (if bt_nObjects h = 0
      then (case multimalloc smalloc B sz (bt_next h) (bt_super h) of
              (n, p, nx, s) \<Rightarrow> h\<lparr>bt_nObjects := n, bt_list0 := p, bt_next := nx, bt_super := s\<rparr>)
      else h)"

definition bt_malloc :: "(ulong \<Rightarrow> 's \<Rightarrow> ptr \<times> 's) \<Rightarrow> int \<Rightarrow> ulong \<Rightarrow> 's batch \<Rightarrow> (nat \<times> 's batch) result" where
  "bt_malloc smalloc B sz h =
     (let h1 = bt_refill smalloc B sz h;
          h2 = h1\<lparr>bt_nObjects := bt_nObjects h1 - 1\<rparr> in
      if bt_nObjects h1 > B
      then res_bind (deref (bt_list1 h1)) (\<lambda>p. Inr (p, h2\<lparr>bt_list1 := bt_next h1 p\<rparr>))
      else res_bind (deref (bt_list0 h1)) (\<lambda>p. Inr (p, h2\<lparr>bt_list0 := bt_next h1 p\<rparr>)))"

definition bt_push :: "int \<Rightarrow> nat \<Rightarrow> 's batch \<Rightarrow> 's batch" where
  "bt_push B p h =
     (if bt_nObjects h \<le> B then h\<lparr>bt_next := (bt_next h)(p := bt_list0 h), bt_list0 := Some p, bt_nObjects := bt_nObjects h + 1\<rparr>
      else h\<lparr>bt_next := (bt_next h)(p := bt_list1 h), bt_list1 := Some p, bt_nObjects := bt_nObjects h + 1\<rparr>)"

definition bt_free :: "(nat \<Rightarrow> 's \<Rightarrow> 's) \<Rightarrow> int \<Rightarrow> nat \<Rightarrow> 's batch \<Rightarrow> 's batch result" where
  "bt_free sfree B p h =
     (let h1 = bt_push B p h in
      if bt_nObjects h1 = 2 * B
      then res_bind (multifree sfree (nat B) (bt_list1 h1) (bt_next h1) (bt_super h1)) (\<lambda>s. Inr (h1\<lparr>bt_list1 := None, bt_super := s\<rparr>))
      else Inr h1)"

section \<open>Batches from and to the heap below\<close>

text \<open>What the heap below hands out when it is asked up to \<open>n\<close> times.\<close>

fun handed :: "(ulong \<Rightarrow> 's \<Rightarrow> ptr \<times> 's) \<Rightarrow> ulong \<Rightarrow> nat \<Rightarrow> 's \<Rightarrow> nat list \<times> 's" where
  "handed smalloc sz 0 s = ([], s)"
| "handed smalloc sz (Suc n) s =
     (case smalloc sz s of (None, s1) \<Rightarrow> ([], s1) | (Some q, s1) \<Rightarrow> (q # fst (handed smalloc sz n s1), snd (handed smalloc sz n s1)))"

lemma handed_length: "length (fst (handed smalloc sz n s)) \<le> n"
  by (induction n arbitrary: s) (auto split: prod.split option.split)

lemma multimalloc_loop_links:
  assumes "distinct (p # fst (handed smalloc sz n s))"
  shows "\<exists>nx'. multimalloc_loop smalloc sz n p i nx s = (i + int (length (fst (handed smalloc sz n s))), nx', snd (handed smalloc sz n s))
     \<and> linked_list nx' (Some p) (p # fst (handed smalloc sz n s)) \<and> (\<forall>a. a \<notin> set (p # fst (handed smalloc sz n s)) \<longrightarrow> nx' a = nx a)"
  using assms
proof (induction n arbitrary: p i nx s)
  case (Suc n)
  obtain q s1 where q: "smalloc sz s = (q, s1)" by (cases "smalloc sz s")
  show ?case
  proof (cases q)
    case (Some x)
    with Suc.prems q have d: "distinct (x # fst (handed smalloc sz n s1))" and p: "p \<notin> set (x # fst (handed smalloc sz n s1))" by auto
    from Suc.IH [OF d, of "i + 1" "nx(p := Some x)"] obtain nx' where nx': "multimalloc_loop smalloc sz n x (i + 1) (nx(p := Some x)) s1
        = (i + 1 + int (length (fst (handed smalloc sz n s1))), nx', snd (handed smalloc sz n s1))"
      "linked_list nx' (Some x) (x # fst (handed smalloc sz n s1))" "\<forall>a. a \<notin> set (x # fst (handed smalloc sz n s1)) \<longrightarrow> nx' a = (nx(p := Some x)) a"
      by blast
    have "nx' p = Some x" using nx'(3) p by simp
    with nx' q Some show ?thesis by auto
  qed (use q in auto)
qed auto

lemma multimalloc_batch:
  assumes "distinct (fst (handed smalloc sz (nat n) s))" and "1 \<le> n"
  shows "\<exists>nx'. multimalloc smalloc n sz nx s = (int (length (fst (handed smalloc sz (nat n) s))),
        (case fst (handed smalloc sz (nat n) s) of [] \<Rightarrow> None | p # _ \<Rightarrow> Some p), nx', snd (handed smalloc sz (nat n) s))
     \<and> linked_list nx' (case fst (handed smalloc sz (nat n) s) of [] \<Rightarrow> None | p # _ \<Rightarrow> Some p) (fst (handed smalloc sz (nat n) s))"
proof -
  obtain k where k: "nat n = Suc k" using assms(2) by (cases "nat n") auto
  then have k': "nat (n - 1) = k" by simp
  obtain q s1 where q: "smalloc sz s = (q, s1)" by (cases "smalloc sz s")
  show ?thesis
  proof (cases q)
    case (Some p)
    with assms(1) q k have "distinct (p # fst (handed smalloc sz k s1))" by simp
    from multimalloc_loop_links [OF this, of 1 nx] obtain nx' where "multimalloc_loop smalloc sz k p 1 nx s1
        = (1 + int (length (fst (handed smalloc sz k s1))), nx', snd (handed smalloc sz k s1))"
      "linked_list nx' (Some p) (p # fst (handed smalloc sz k s1))" by blast
    with q Some k k' show ?thesis by (simp add: multimalloc_def)
  qed (use q k in \<open>simp add: multimalloc_def\<close>)
qed

lemma multifree_list:
  assumes "linked_list nx p xs"
  shows "multifree sfree n p nx s = (if n \<le> length xs then Inr (fold sfree (take n xs) s) else Inl NullDeref)"
  using assms
proof (induction n arbitrary: p xs s)
  case (Suc n)
  then show ?case by (cases xs) auto
qed simp

section \<open>The two lists\<close>

text \<open>
  The first list takes one object more than the comment of the code says: \<open>free\<close> asks whether at most \<open>B\<close> objects are free before it adds one, \<open>malloc\<close>
  whether more than \<open>B\<close> are free before it takes one.
\<close>

definition bt_ok :: "int \<Rightarrow> nat list \<Rightarrow> nat list \<Rightarrow> 's batch \<Rightarrow> bool" where
  "bt_ok B xs ys h \<longleftrightarrow> linked_list (bt_next h) (bt_list0 h) xs \<and> linked_list (bt_next h) (bt_list1 h) ys \<and> set xs \<inter> set ys = {}
     \<and> bt_nObjects h = int (length xs) + int (length ys) \<and> int (length xs) \<le> B + 1 \<and> (ys \<noteq> [] \<longrightarrow> int (length xs) = B + 1)"

lemma bt_init_ok: "0 \<le> B \<Longrightarrow> bt_ok B [] [] (bt_init nx s)"
  by (simp add: bt_ok_def bt_init_def)

text \<open>An allocation from a heap with free objects.\<close>

lemma bt_malloc_first:
  assumes "bt_ok B (x # xs) [] h" and "int (length (x # xs)) \<le> B"
  shows "\<exists>h'. bt_malloc smalloc B sz h = Inr (x, h') \<and> bt_ok B xs [] h' \<and> bt_super h' = bt_super h"
  using assms by (auto simp: bt_malloc_def bt_refill_def bt_ok_def Let_def)

lemma bt_malloc_second:
  assumes "bt_ok B xs (y # ys) h" and "0 \<le> B"
  shows "\<exists>h'. bt_malloc smalloc B sz h = Inr (y, h') \<and> bt_ok B xs ys h' \<and> bt_super h' = bt_super h"
  using assms by (auto simp: bt_malloc_def bt_refill_def bt_ok_def Let_def)

text \<open>With \<open>B + 1\<close> free objects all are in the first list, but \<open>malloc\<close> looks into the second.\<close>

lemma bt_malloc_crashes:
  assumes "bt_ok B xs [] h" and "int (length xs) = B + 1" and "0 \<le> B"
  shows "bt_malloc smalloc B sz h = Inl NullDeref"
  using assms by (auto simp: bt_malloc_def bt_refill_def bt_ok_def Let_def)

text \<open>An allocation from an empty heap takes a batch from below, and follows NULL if there is none.\<close>

lemma bt_malloc_batch:
  assumes "bt_ok B [] [] h" and "1 \<le> B" and "distinct (fst (handed smalloc sz (nat B) (bt_super h)))"
  shows "case fst (handed smalloc sz (nat B) (bt_super h)) of
      [] \<Rightarrow> bt_malloc smalloc B sz h = Inl NullDeref
    | x # xs \<Rightarrow> \<exists>h'. bt_malloc smalloc B sz h = Inr (x, h') \<and> bt_ok B xs [] h' \<and> bt_super h' = snd (handed smalloc sz (nat B) (bt_super h))"
proof -
  let ?l = "fst (handed smalloc sz (nat B) (bt_super h))"
  have "bt_nObjects h = 0" "bt_list1 h = None" using assms(1) by (auto simp: bt_ok_def)
  moreover from multimalloc_batch [OF assms(3,2), of "bt_next h"] obtain nx' where
    "multimalloc smalloc B sz (bt_next h) (bt_super h) = (int (length ?l), (case ?l of [] \<Rightarrow> None | p # _ \<Rightarrow> Some p), nx', snd (handed smalloc sz (nat B) (bt_super h)))"
    "linked_list nx' (case ?l of [] \<Rightarrow> None | p # _ \<Rightarrow> Some p) ?l" by blast
  moreover have "int (length ?l) \<le> B" using handed_length [of smalloc sz "nat B" "bt_super h"] assms(2) by linarith
  ultimately show ?thesis using assms(2) by (cases ?l) (auto simp: bt_malloc_def bt_refill_def bt_ok_def Let_def)
qed

text \<open>A free adds the object to a list, until \<open>2 * B\<close> objects are free: then one more than the second list holds are to be given back.\<close>

lemma bt_free_first:
  assumes "bt_ok B xs [] h" and "int (length xs) \<le> B" and "x \<notin> set xs" and "2 \<le> B"
  shows "\<exists>h'. bt_free sfree B x h = Inr h' \<and> bt_ok B (x # xs) [] h' \<and> bt_super h' = bt_super h"
  using assms by (auto simp: bt_free_def bt_push_def bt_ok_def Let_def linked_upd)

lemma bt_free_second:
  assumes "bt_ok B xs ys h" and "int (length xs) = B + 1" and "int (length ys) < B - 2" and "x \<notin> set xs \<union> set ys"
  shows "\<exists>h'. bt_free sfree B x h = Inr h' \<and> bt_ok B xs (x # ys) h' \<and> bt_super h' = bt_super h"
  using assms by (auto simp: bt_free_def bt_push_def bt_ok_def Let_def linked_upd)

lemma bt_free_crashes:
  assumes "bt_ok B xs ys h" and "int (length xs) + int (length ys) = 2 * B - 1" and "x \<notin> set xs \<union> set ys" and "1 \<le> B"
  shows "bt_free sfree B x h = Inl NullDeref"
proof -
  have "\<exists>zs. linked_list (bt_next (bt_push B x h)) (bt_list1 (bt_push B x h)) zs \<and> int (length zs) < B"
  proof (cases "bt_nObjects h \<le> B")
    case True
    then have "bt_list1 (bt_push B x h) = bt_list1 h" "bt_next (bt_push B x h) = (bt_next h)(x := bt_list0 h)" by (auto simp: bt_push_def)
    then have "linked_list (bt_next (bt_push B x h)) (bt_list1 (bt_push B x h)) ys" using assms(1,3) by (simp add: bt_ok_def linked_upd)
    moreover have "int (length ys) < B" using assms(1,4) True by (cases "ys = []") (auto simp: bt_ok_def)
    ultimately show ?thesis by blast
  next
    case False
    then have "linked_list (bt_next (bt_push B x h)) (bt_list1 (bt_push B x h)) (x # ys)" using assms(1,3) by (simp add: bt_push_def bt_ok_def linked_upd)
    moreover have "int (length xs) = B + 1" using assms(1) False by (cases "ys = []") (auto simp: bt_ok_def)
    then have "int (length (x # ys)) < B" using assms(2) by simp
    ultimately show ?thesis by blast
  qed
  then obtain zs where z: "linked_list (bt_next (bt_push B x h)) (bt_list1 (bt_push B x h)) zs" "int (length zs) < B" by blast
  have "bt_nObjects (bt_push B x h) = 2 * B" using assms(1,2) by (auto simp: bt_push_def bt_ok_def)
  then show ?thesis using z(2) by (simp add: bt_free_def Let_def multifree_list [OF z(1)])
qed

end
