(* ===== verification/Chunks.thy ===== *)
theory Chunks
  imports FreeLists
begin

text \<open>
  \<open>Chunk\<close> of \<open>src/include/heaplayers/experimental/chunk.h\<close>, a piece of memory that is carved into slots of one size, and the slot heap of
  \<open>experimental/slotheap.h\<close>, which allocates from one chunk at a time. The template arguments \<open>chunkSize\<close> and \<open>slotSize\<close> are arguments.
  In front of each slot is a block with the chunk it belongs to and the next free block.
\<close>

section \<open>Chunks\<close>

definition sizeof_Chunk :: nat where
  "sizeof_Chunk = 16"

definition sizeof_ChunkBlock :: nat where
  "sizeof_ChunkBlock = 16"

record chunks =
  freeSlots :: "nat \<Rightarrow> ptr"
  numSlotsAvailable :: "nat \<Rightarrow> int"
  blk_chunk :: "nat \<Rightarrow> nat"
  blk_next :: nexts

definition ck_alignment :: "nat \<Rightarrow> nat" where
  "ck_alignment sz = (sz + 7) div 8 * 8"

definition blksize :: "nat \<Rightarrow> nat" where
  "blksize slotSize = ck_alignment (sizeof_ChunkBlock + slotSize)"

definition getNumSlots :: "nat \<Rightarrow> nat \<Rightarrow> nat" where
  "getNumSlots chunkSize slotSize = (chunkSize - sizeof_Chunk) div ck_alignment (sizeof_ChunkBlock + slotSize)"

definition getNumSlotsFree :: "nat \<Rightarrow> chunks \<Rightarrow> int" where
  "getNumSlotsFree c m = numSlotsAvailable m c"

definition getNumSlotsInUse :: "nat \<Rightarrow> nat \<Rightarrow> nat \<Rightarrow> chunks \<Rightarrow> int" where
  "getNumSlotsInUse chunkSize slotSize c m = int (getNumSlots chunkSize slotSize) - numSlotsAvailable m c"

definition getChunkBlock :: "nat \<Rightarrow> nat" where
  "getChunkBlock p = p - sizeof_ChunkBlock"

definition getChunk :: "nat \<Rightarrow> chunks \<Rightarrow> nat" where
  "getChunk p m = blk_chunk m (getChunkBlock p)"

fun carve :: "nat \<Rightarrow> nat \<Rightarrow> nat \<Rightarrow> nat \<Rightarrow> chunks \<Rightarrow> chunks" where
  "carve slotSize c 0 b m = m"
| "carve slotSize c (Suc n) b m =
     carve slotSize c n (b + blksize slotSize)
       (m\<lparr>blk_chunk := (blk_chunk m)(b := c), blk_next := (blk_next m)(b := freeSlots m c), freeSlots := (freeSlots m)(c := Some b)\<rparr>)"

definition new_chunk :: "nat \<Rightarrow> nat \<Rightarrow> nat \<Rightarrow> chunks \<Rightarrow> chunks" where
  "new_chunk chunkSize slotSize c m =
     carve slotSize c (getNumSlots chunkSize slotSize) (c + sizeof_Chunk)
       (m\<lparr>freeSlots := (freeSlots m)(c := None), numSlotsAvailable := (numSlotsAvailable m)(c := int (getNumSlots chunkSize slotSize))\<rparr>)"

definition getSlot :: "nat \<Rightarrow> chunks \<Rightarrow> ptr \<times> chunks" where
  "getSlot c m =
     (case freeSlots m c of
        None \<Rightarrow> (None, m)
      | Some b \<Rightarrow> (Some (b + sizeof_ChunkBlock),
          m\<lparr>freeSlots := (freeSlots m)(c := blk_next m b), numSlotsAvailable := (numSlotsAvailable m)(c := numSlotsAvailable m c - 1),
            blk_chunk := (blk_chunk m)(b := c), blk_next := (blk_next m)(b := None)\<rparr>))"

definition putSlot :: "nat \<Rightarrow> nat \<Rightarrow> chunks \<Rightarrow> chunks" where
  "putSlot c p m =
     (let b = getChunkBlock p in
      m\<lparr>blk_next := (blk_next m)(b := freeSlots m c), freeSlots := (freeSlots m)(c := Some b), numSlotsAvailable := (numSlotsAvailable m)(c := numSlotsAvailable m c + 1)\<rparr>)"

section \<open>SlotHeap\<close>

record 's slotheap =
  sh_current :: nat
  sh_chunks :: chunks
  sh_super :: 's

definition sh_fresh :: "(ulong \<Rightarrow> 's \<Rightarrow> ptr \<times> 's) \<Rightarrow> nat \<Rightarrow> nat \<Rightarrow> 's slotheap \<Rightarrow> 's slotheap result" where
  "sh_fresh smalloc chunkSize slotSize h =
     (case smalloc (word_of_nat chunkSize) (sh_super h) of
        (p, s) \<Rightarrow> res_bind (deref p) (\<lambda>c. Inr (h\<lparr>sh_current := c, sh_chunks := new_chunk chunkSize slotSize c (sh_chunks h), sh_super := s\<rparr>)))"

definition sh_malloc :: "(ulong \<Rightarrow> 's \<Rightarrow> ptr \<times> 's) \<Rightarrow> nat \<Rightarrow> nat \<Rightarrow> 's slotheap \<Rightarrow> (ptr \<times> 's slotheap) result" where
  "sh_malloc smalloc chunkSize slotSize h =
     (case getSlot (sh_current h) (sh_chunks h) of
        (Some p, m) \<Rightarrow> Inr (Some p, h\<lparr>sh_chunks := m\<rparr>)
      | (None, _) \<Rightarrow> res_bind (sh_fresh smalloc chunkSize slotSize h) (\<lambda>h1.
          (case getSlot (sh_current h1) (sh_chunks h1) of (q, m) \<Rightarrow> Inr (q, h1\<lparr>sh_chunks := m\<rparr>))))"

definition sh_free :: "(nat \<Rightarrow> 's \<Rightarrow> 's) \<Rightarrow> nat \<Rightarrow> 's slotheap \<Rightarrow> 's slotheap" where
  "sh_free sfree p h =
     (if getChunk p (sh_chunks h) = sh_current h then h\<lparr>sh_chunks := putSlot (sh_current h) p (sh_chunks h)\<rparr>
      else h\<lparr>sh_super := sfree p (sh_super h)\<rparr>)"

section \<open>The slots of a chunk\<close>

definition slot_blocks :: "nat \<Rightarrow> nat \<Rightarrow> nat \<Rightarrow> nat list" where
  "slot_blocks slotSize b n = map (\<lambda>i. b + i * blksize slotSize) [0..<n]"

lemma blksize_pos: "sizeof_ChunkBlock + slotSize \<le> blksize slotSize"
  unfolding blksize_def ck_alignment_def by presburger

lemma slot_blocks_Suc: "slot_blocks slotSize b (Suc n) = b # slot_blocks slotSize (b + blksize slotSize) n"
proof -
  have "map (\<lambda>i. b + i * blksize slotSize) [0..<Suc n] = b # map (\<lambda>i. b + Suc i * blksize slotSize) [0..<n]"
    by (simp add: upt_conv_Cons map_Suc_upt [symmetric] comp_def del: upt_Suc)
  then show ?thesis by (simp add: slot_blocks_def add.assoc)
qed

text \<open>Blocks and the slots behind them are disjoint and lie inside the chunk.\<close>

lemma slot_blocks_apart:
  assumes "x \<in> set (slot_blocks slotSize b n)" and "y \<in> set (slot_blocks slotSize b n)" and "x < y"
  shows "x + sizeof_ChunkBlock + slotSize \<le> y"
proof -
  from assms obtain i j where ij: "x = b + i * blksize slotSize" "y = b + j * blksize slotSize" by (auto simp: slot_blocks_def)
  then have "i < j" using assms(3) by auto
  then have "(i + 1) * blksize slotSize \<le> j * blksize slotSize" by (intro mult_le_mono1) simp
  with ij blksize_pos [of slotSize] show ?thesis by simp
qed

lemma slot_blocks_inside:
  assumes "x \<in> set (slot_blocks slotSize (c + sizeof_Chunk) (getNumSlots chunkSize slotSize))" and "sizeof_Chunk \<le> chunkSize"
  shows "c + sizeof_Chunk \<le> x \<and> x + sizeof_ChunkBlock + slotSize \<le> c + chunkSize"
proof -
  from assms(1) obtain i where i: "x = c + sizeof_Chunk + i * blksize slotSize" "i \<in> {0..<getNumSlots chunkSize slotSize}"
    unfolding slot_blocks_def set_map set_upt by blast
  have "(i + 1) * blksize slotSize \<le> getNumSlots chunkSize slotSize * blksize slotSize" using i(2) by (intro mult_le_mono1) simp
  also have "\<dots> \<le> chunkSize - sizeof_Chunk" unfolding getNumSlots_def blksize_def by simp
  finally show ?thesis using i(1) assms(2) blksize_pos [of slotSize] by simp
qed

lemma slot_blocks_distinct: "distinct (slot_blocks slotSize b n)"
proof -
  have "0 < blksize slotSize" using blksize_pos [of slotSize] by (simp add: sizeof_ChunkBlock_def)
  then have "inj_on (\<lambda>i. b + i * blksize slotSize) (set [0..<n])" by (auto simp: inj_on_def)
  then show ?thesis by (simp add: slot_blocks_def distinct_map)
qed

section \<open>The free slots\<close>

text \<open>\<open>bs\<close> are the blocks of the chunk \<open>c\<close>, and \<open>fs\<close> the free ones in the order of the list.\<close>

definition chunk_ok :: "nat \<Rightarrow> nat list \<Rightarrow> nat list \<Rightarrow> chunks \<Rightarrow> bool" where
  "chunk_ok c bs fs m \<longleftrightarrow> linked_list (blk_next m) (freeSlots m c) fs \<and> set fs \<subseteq> set bs \<and> numSlotsAvailable m c = int (length fs) \<and> (\<forall>b\<in>set bs. blk_chunk m b = c)"

lemma carve_links:
  assumes "linked_list (blk_next m) (freeSlots m c) fs" and "set (slot_blocks slotSize b n) \<inter> set fs = {}"
  shows "linked_list (blk_next (carve slotSize c n b m)) (freeSlots (carve slotSize c n b m) c) (rev (slot_blocks slotSize b n) @ fs)
     \<and> numSlotsAvailable (carve slotSize c n b m) = numSlotsAvailable m
     \<and> (\<forall>x. blk_chunk (carve slotSize c n b m) x = (if x \<in> set (slot_blocks slotSize b n) then c else blk_chunk m x))"
  using assms
proof (induction n arbitrary: b m fs)
  case 0
  then show ?case by (simp add: slot_blocks_def)
next
  case (Suc n)
  let ?m = "m\<lparr>blk_chunk := (blk_chunk m)(b := c), blk_next := (blk_next m)(b := freeSlots m c), freeSlots := (freeSlots m)(c := Some b)\<rparr>"
  have b: "b \<notin> set fs" "b \<notin> set (slot_blocks slotSize (b + blksize slotSize) n)" "set (slot_blocks slotSize (b + blksize slotSize) n) \<inter> set fs = {}"
    using Suc.prems(2) slot_blocks_distinct [of slotSize b "Suc n"] by (auto simp: slot_blocks_Suc)
  have l: "linked_list (blk_next ?m) (freeSlots ?m c) (b # fs)" using Suc.prems(1) b(1) by (simp add: linked_upd)
  have "set (slot_blocks slotSize (b + blksize slotSize) n) \<inter> set (b # fs) = {}" using b by auto
  from Suc.IH [OF l this] show ?case by (auto simp: slot_blocks_Suc)
qed

lemma new_chunk_ok:
  shows "chunk_ok c (slot_blocks slotSize (c + sizeof_Chunk) (getNumSlots chunkSize slotSize))
     (rev (slot_blocks slotSize (c + sizeof_Chunk) (getNumSlots chunkSize slotSize))) (new_chunk chunkSize slotSize c m)"
proof -
  let ?n = "getNumSlots chunkSize slotSize"
  let ?m = "m\<lparr>freeSlots := (freeSlots m)(c := None), numSlotsAvailable := (numSlotsAvailable m)(c := int ?n)\<rparr>"
  have "linked_list (blk_next ?m) (freeSlots ?m c) []" "set (slot_blocks slotSize (c + sizeof_Chunk) ?n) \<inter> set [] = {}" by simp_all
  from carve_links [OF this] show ?thesis
    unfolding chunk_ok_def new_chunk_def by (simp add: slot_blocks_def)
qed

lemma getSlot_ok:
  assumes "chunk_ok c bs fs m"
  shows "case fs of
      [] \<Rightarrow> getSlot c m = (None, m)
    | b # gs \<Rightarrow> \<exists>m'. getSlot c m = (Some (b + sizeof_ChunkBlock), m') \<and> chunk_ok c bs gs m' \<and> getChunk (b + sizeof_ChunkBlock) m' = c"
proof (cases fs)
  case (Cons b gs)
  have "b \<notin> set gs" using assms linked_distinct [of "blk_next m" "freeSlots m c" fs] Cons by (auto simp: chunk_ok_def)
  with assms Cons show ?thesis by (auto simp: chunk_ok_def getSlot_def linked_upd getChunk_def getChunkBlock_def)
qed (use assms in \<open>simp add: chunk_ok_def getSlot_def\<close>)

lemma putSlot_ok:
  assumes "chunk_ok c bs fs m" and "b \<in> set bs" and "b \<notin> set fs"
  shows "chunk_ok c bs (b # fs) (putSlot c (b + sizeof_ChunkBlock) m)"
  using assms by (auto simp: chunk_ok_def putSlot_def getChunkBlock_def linked_upd Let_def)

section \<open>The slot heap\<close>

definition sh_blocks :: "nat \<Rightarrow> nat \<Rightarrow> nat \<Rightarrow> nat list" where
  "sh_blocks chunkSize slotSize c = slot_blocks slotSize (c + sizeof_Chunk) (getNumSlots chunkSize slotSize)"

definition sh_ok :: "nat \<Rightarrow> nat \<Rightarrow> nat list \<Rightarrow> 's slotheap \<Rightarrow> bool" where
  "sh_ok chunkSize slotSize fs h \<longleftrightarrow> chunk_ok (sh_current h) (sh_blocks chunkSize slotSize (sh_current h)) fs (sh_chunks h)"

text \<open>A chunk with a free slot gives its newest one; a chunk without one is left and the last slot of a new chunk is taken.\<close>

lemma sh_malloc_slot:
  assumes "sh_ok chunkSize slotSize (b # fs) h"
  shows "\<exists>h'. sh_malloc smalloc chunkSize slotSize h = Inr (Some (b + sizeof_ChunkBlock), h') \<and> sh_ok chunkSize slotSize fs h' \<and> sh_super h' = sh_super h"
  using getSlot_ok [OF assms [unfolded sh_ok_def]] by (auto simp: sh_malloc_def sh_ok_def)

lemma sh_malloc_fresh:
  assumes "sh_ok chunkSize slotSize [] h" and "smalloc (word_of_nat chunkSize) (sh_super h) = (p, s)" and "0 < getNumSlots chunkSize slotSize"
  shows "case p of
      None \<Rightarrow> sh_malloc smalloc chunkSize slotSize h = Inl NullDeref
    | Some c \<Rightarrow> \<exists>b bs h'. rev (sh_blocks chunkSize slotSize c) = b # bs \<and> sh_malloc smalloc chunkSize slotSize h = Inr (Some (b + sizeof_ChunkBlock), h')
        \<and> sh_current h' = c \<and> sh_ok chunkSize slotSize bs h' \<and> sh_super h' = s"
proof -
  have none: "getSlot (sh_current h) (sh_chunks h) = (None, sh_chunks h)" using getSlot_ok [OF assms(1) [unfolded sh_ok_def]] by simp
  show ?thesis
  proof (cases p)
    case (Some c)
    let ?m = "new_chunk chunkSize slotSize c (sh_chunks h)"
    have "rev (sh_blocks chunkSize slotSize c) \<noteq> []" using assms(3) by (simp add: sh_blocks_def slot_blocks_def)
    then obtain b bs where b: "rev (sh_blocks chunkSize slotSize c) = b # bs" by (cases "rev (sh_blocks chunkSize slotSize c)") auto
    have "chunk_ok c (sh_blocks chunkSize slotSize c) (b # bs) ?m" using new_chunk_ok [of c slotSize chunkSize] b by (simp add: sh_blocks_def)
    from getSlot_ok [OF this] obtain m' where "getSlot c ?m = (Some (b + sizeof_ChunkBlock), m')" "chunk_ok c (sh_blocks chunkSize slotSize c) bs m'" by auto
    then show ?thesis using none assms(2) Some b by (auto simp: sh_malloc_def sh_fresh_def sh_ok_def)
  qed (use none assms(2) in \<open>simp add: sh_malloc_def sh_fresh_def\<close>)
qed

lemma sh_free_slot:
  assumes "sh_ok chunkSize slotSize fs h" and "b \<in> set (sh_blocks chunkSize slotSize (sh_current h))" and "b \<notin> set fs"
  shows "sh_ok chunkSize slotSize (b # fs) (sh_free sfree (b + sizeof_ChunkBlock) h)" "sh_super (sh_free sfree (b + sizeof_ChunkBlock) h) = sh_super h"
proof -
  have "getChunk (b + sizeof_ChunkBlock) (sh_chunks h) = sh_current h" using assms(1,2) by (simp add: sh_ok_def chunk_ok_def getChunk_def getChunkBlock_def)
  then show "sh_ok chunkSize slotSize (b # fs) (sh_free sfree (b + sizeof_ChunkBlock) h)" "sh_super (sh_free sfree (b + sizeof_ChunkBlock) h) = sh_super h"
    using assms putSlot_ok by (simp_all add: sh_free_def sh_ok_def)
qed

text \<open>An object of another chunk goes to the heap below: its slot never comes back to its chunk.\<close>

lemma sh_free_other:
  "getChunk p (sh_chunks h) \<noteq> sh_current h \<Longrightarrow> sh_free sfree p h = h\<lparr>sh_super := sfree p (sh_super h)\<rparr>"
  by (simp add: sh_free_def)

end
