(* ===== verification/SizedHeaps.thy ===== *)
theory SizedHeaps
  imports Prelude
begin

text \<open>
  The layers of \<open>src/include/heaplayers\<close> that put something around or into an object: \<open>SizeHeap\<close> (\<open>sizeheap.h\<close>), \<open>AddHeap\<close> (\<open>addheap.h\<close>),
  \<open>SizeOwnerHeap\<close> (\<open>sizeownerheap.h\<close>), \<open>SizeThreadHeap\<close> (\<open>sizethreadheap.h\<close>), \<open>DebugHeap\<close> (\<open>debugheap.h\<close>), \<open>SanityCheckHeap\<close> (\<open>sanitycheckheap.h\<close>),
  \<open>CheckHeap\<close> (\<open>checkheap.h\<close>) and \<open>PadHeap\<close> (\<open>padheap.h\<close>). The functions of the heap below are arguments over its state.
\<close>

record 's sized =
  wm :: mem
  sized_below :: 's

definition on_below :: "('s \<Rightarrow> 's) \<Rightarrow> 's sized \<Rightarrow> 's sized" where
  "on_below f h = h\<lparr>sized_below := f (sized_below h)\<rparr>"

definition call_malloc :: "(ulong \<Rightarrow> 's \<Rightarrow> ptr \<times> 's) \<Rightarrow> ulong \<Rightarrow> 's sized \<Rightarrow> ptr \<times> 's sized" where
  "call_malloc smalloc sz h = (case smalloc sz (sized_below h) of (p, s) \<Rightarrow> (p, h\<lparr>sized_below := s\<rparr>))"

definition memset :: "nat \<Rightarrow> byte \<Rightarrow> nat \<Rightarrow> mem \<Rightarrow> mem" where
  "memset a c n m = (\<lambda>b. if a \<le> b \<and> b < a + n then c else m b)"

section \<open>SizeHeap\<close>

text \<open>A header of one word holds the size; placing it at NULL is a store through NULL.\<close>

definition sizeof_freeObject :: nat where
  "sizeof_freeObject = 8"

definition sz_getSize :: "nat \<Rightarrow> mem \<Rightarrow> ulong" where
  "sz_getSize p m = load64 (p - sizeof_freeObject) m"

definition sz_malloc :: "(ulong \<Rightarrow> 's \<Rightarrow> ptr \<times> 's) \<Rightarrow> ulong \<Rightarrow> 's sized \<Rightarrow> (nat \<times> 's sized) result" where
  "sz_malloc smalloc sz h =
     (case call_malloc smalloc (sz + word_of_nat sizeof_freeObject) h of
        (p, h1) \<Rightarrow> res_bind (deref p) (\<lambda>a. Inr (a + sizeof_freeObject, h1\<lparr>wm := store64 a sz (wm h1)\<rparr>)))"

definition sz_free :: "(nat \<Rightarrow> 's \<Rightarrow> 's) \<Rightarrow> nat \<Rightarrow> 's sized \<Rightarrow> 's sized" where
  "sz_free sfree p h = on_below (sfree (p - sizeof_freeObject)) h"

lemma sz_malloc_size:
  assumes "smalloc (sz + 8) (sized_below h) = (Some a, s)"
  shows "\<exists>h'. sz_malloc smalloc sz h = Inr (a + 8, h') \<and> sz_getSize (a + 8) (wm h') = sz \<and> sized_below h' = s
     \<and> (\<forall>b. b < a \<or> a + 8 \<le> b \<longrightarrow> wm h' b = wm h b) \<and> sized_below (sz_free sfree (a + 8) h') = sfree a s"
  using assms by (simp add: sz_malloc_def call_malloc_def sz_getSize_def sz_free_def on_below_def sizeof_freeObject_def)

text \<open>Requests within eight bytes of 2^64 wrap, and a failure of the heap below is not noticed.\<close>

lemma sz_malloc_wraps: "smalloc 0 (sized_below h) = (Some a, s) \<Longrightarrow> \<exists>h'. sz_malloc smalloc (- 8) h = Inr (a + 8, h') \<and> sz_getSize (a + 8) (wm h') = - 8"
  by (simp add: sz_malloc_def call_malloc_def sz_getSize_def sizeof_freeObject_def)

lemma sz_malloc_null: "smalloc (sz + 8) (sized_below h) = (None, s) \<Longrightarrow> sz_malloc smalloc sz h = Inl NullDeref"
  by (simp add: sz_malloc_def call_malloc_def sizeof_freeObject_def)

section \<open>AddHeap and SizeOwnerHeap\<close>

definition add_align :: "ulong \<Rightarrow> ulong" where
  "add_align sz = (sz + 7) AND NOT 7"

text \<open>\<open>n\<close> is the size of the class that is added.\<close>

definition add_malloc :: "nat \<Rightarrow> (ulong \<Rightarrow> 's \<Rightarrow> ptr \<times> 's) \<Rightarrow> ulong \<Rightarrow> 's sized \<Rightarrow> ptr \<times> 's sized" where
  "add_malloc n smalloc sz h = call_malloc smalloc (sz + add_align (word_of_nat n)) h"

definition add_free :: "nat \<Rightarrow> (nat \<Rightarrow> 's \<Rightarrow> 's) \<Rightarrow> nat \<Rightarrow> 's sized \<Rightarrow> 's sized" where
  "add_free n sfree p h = on_below (sfree (p - n)) h"

definition add_getSize :: "nat \<Rightarrow> (nat \<Rightarrow> 's \<Rightarrow> ulong) \<Rightarrow> nat \<Rightarrow> 's sized \<Rightarrow> ulong" where
  "add_getSize n sgetSize p h = sgetSize (p - n) (sized_below h)"

definition sizeof_SizeOwner :: nat where
  "sizeof_SizeOwner = 16"

definition so_malloc_owner :: "ulong \<Rightarrow> (ulong \<Rightarrow> 's \<Rightarrow> ptr \<times> 's) \<Rightarrow> ulong \<Rightarrow> 's sized \<Rightarrow> (nat \<times> 's sized) result" where
  "so_malloc_owner this smalloc sz h =
     (case add_malloc sizeof_SizeOwner smalloc sz h of
        (p, h1) \<Rightarrow> res_bind (deref p) (\<lambda>a. Inr (a + sizeof_SizeOwner, h1\<lparr>wm := store64 (a + 8) this (store64 a sz (wm h1))\<rparr>)))"

definition so_free_owner :: "(nat \<Rightarrow> 's \<Rightarrow> 's) \<Rightarrow> nat \<Rightarrow> 's sized \<Rightarrow> 's sized" where
  "so_free_owner sfree p h = add_free sizeof_SizeOwner sfree (p - sizeof_SizeOwner) h"

definition so_owner :: "nat \<Rightarrow> mem \<Rightarrow> ulong" where
  "so_owner p m = load64 (p - sizeof_SizeOwner + 8) m"

definition so_size :: "nat \<Rightarrow> mem \<Rightarrow> ulong" where
  "so_size p m = load64 (p - sizeof_SizeOwner) m"

text \<open>Size and owner can be read back. But \<open>AddHeap\<close> hands out the address it got and frees the one before: the heap below is given an object that it never handed out.\<close>

lemma add_free_shifts:
  assumes "smalloc (sz + add_align (word_of_nat n)) (sized_below h) = (Some a, s)"
  shows "\<exists>h'. add_malloc n smalloc sz h = (Some a, h') \<and> sized_below (add_free n sfree a h') = sfree (a - n) s"
  using assms by (simp add: add_malloc_def call_malloc_def add_free_def on_below_def)

lemma so_malloc_header:
  assumes "smalloc (sz + 16) (sized_below h) = (Some a, s)"
  shows "\<exists>h'. so_malloc_owner this smalloc sz h = Inr (a + 16, h') \<and> so_size (a + 16) (wm h') = sz \<and> so_owner (a + 16) (wm h') = this
     \<and> sized_below (so_free_owner sfree (a + 16) h') = sfree (a - 16) s"
  using assms
  by (simp add: so_malloc_owner_def add_malloc_def call_malloc_def sizeof_SizeOwner_def add_align_def so_size_def so_owner_def so_free_owner_def add_free_def
      on_below_def load64_store64_other)

section \<open>SizeThreadHeap\<close>

text \<open>On 64 bits the header has 16 bytes, while room for 8 is requested and the header is looked for 8 bytes before the object.\<close>

definition sizeof_st :: nat where
  "sizeof_st = 16"

definition getOrigPtr :: "nat \<Rightarrow> nat" where
  "getOrigPtr p = p - 8"

definition stt_malloc :: "(ulong \<Rightarrow> 's \<Rightarrow> ptr \<times> 's) \<Rightarrow> ulong \<Rightarrow> 's sized \<Rightarrow> (nat \<times> 's sized) result" where
  "stt_malloc smalloc sz h =
     (case call_malloc smalloc (sz + 8) h of
        (p, h1) \<Rightarrow> res_bind (deref p) (\<lambda>a. Inr (a + sizeof_st, h1\<lparr>wm := store64 a sz (wm h1)\<rparr>)))"

definition stt_free :: "(nat \<Rightarrow> 's \<Rightarrow> 's) \<Rightarrow> nat \<Rightarrow> 's sized \<Rightarrow> 's sized" where
  "stt_free sfree p h = on_below (sfree (getOrigPtr p)) h"

definition stt_size :: "nat \<Rightarrow> mem \<Rightarrow> ulong" where
  "stt_size p m = load64 (getOrigPtr p) m"

definition stt_thread :: "nat \<Rightarrow> mem \<Rightarrow> cint" where
  "stt_thread p m = load32 (getOrigPtr p + 8) m"

lemma stt_free_shifts:
  assumes "smalloc (sz + 8) (sized_below h) = (Some a, s)"
  shows "\<exists>h'. stt_malloc smalloc sz h = Inr (a + 16, h') \<and> stt_size (a + 16) (wm h') = load64 (a + 8) (wm h) \<and> sized_below (stt_free sfree (a + 16) h') = sfree (a + 8) s"
  using assms by (simp add: stt_malloc_def call_malloc_def sizeof_st_def stt_size_def getOrigPtr_def stt_free_def on_below_def load64_store64_other add.commute)

section \<open>DebugHeap\<close>

definition CANARY :: ulong where
  "CANARY = 0xdeadbeef"

definition db_malloc :: "(ulong \<Rightarrow> 's \<Rightarrow> ptr \<times> 's) \<Rightarrow> ulong \<Rightarrow> 's sized \<Rightarrow> (nat \<times> 's sized) result" where
  "db_malloc smalloc sz h =
     (case call_malloc smalloc (sz + 8) h of
        (p, h1) \<Rightarrow> res_bind (deref p) (\<lambda>a. Inr (a, h1\<lparr>wm := store64 (a + unat sz) CANARY (memset a 65 (unat sz) (wm h1))\<rparr>)))"

text \<open>The canary is looked for after a step of \<open>sz\<close> words, not of \<open>sz\<close> bytes.\<close>

definition db_free :: "byte \<Rightarrow> (nat \<Rightarrow> 's \<Rightarrow> ulong) \<Rightarrow> (nat \<Rightarrow> 's \<Rightarrow> 's) \<Rightarrow> nat \<Rightarrow> 's sized \<Rightarrow> 's sized result" where
  "db_free freeChar sgetSize sfree p h =
     (let sz = sgetSize p (sized_below h) in
      if load64 (unat (word_of_nat p + 8 * (sz - 8) :: ulong)) (wm h) \<noteq> CANARY then Inl Aborted
      else Inr (on_below (sfree p) (h\<lparr>wm := memset p freeChar (unat sz) (wm h)\<rparr>)))"

lemma db_malloc_fills:
  assumes "smalloc (sz + 8) (sized_below h) = (Some a, s)"
  shows "\<exists>h'. db_malloc smalloc sz h = Inr (a, h') \<and> load64 (a + unat sz) (wm h') = CANARY \<and> (\<forall>b. a \<le> b \<and> b < a + unat sz \<longrightarrow> wm h' b = 65)
     \<and> (\<forall>b. b < a \<or> a + unat sz + 8 \<le> b \<longrightarrow> wm h' b = wm h b)"
  using assms by (simp add: db_malloc_def call_malloc_def memset_def)

text \<open>So freeing an object aborts, unless the canary of it happens to be 7 times its size further on.\<close>

lemma db_free_misses:
  assumes "smalloc (sz + 8) (sized_below h) = (Some a, s)" and "sgetSize a s = sz + 8" and "a + 8 * unat sz < 2 ^ 64" and "1 < unat sz"
    and "load64 (a + 8 * unat sz) (wm h) \<noteq> CANARY"
  shows "\<exists>h'. db_malloc smalloc sz h = Inr (a, h') \<and> db_free c sgetSize sfree a h' = Inl Aborted"
proof -
  have "word_of_nat a + 8 * sz = (word_of_nat (a + 8 * unat sz) :: ulong)" by simp
  then have u: "unat (word_of_nat a + 8 * sz :: ulong) = a + 8 * unat sz" using assms(3) by (simp only: unat_of_nat) simp
  have "load64 (a + 8 * unat sz) (store64 (a + unat sz) CANARY (memset a 65 (unat sz) (wm h))) = load64 (a + 8 * unat sz) (memset a 65 (unat sz) (wm h))"
    if "8 \<le> 7 * unat sz" by (rule load64_store64_other) (use that in linarith)
  also have "\<dots> = load64 (a + 8 * unat sz) (wm h)" by (simp add: load64_eq_iff memset_def)
  finally have "load64 (a + 8 * unat sz) (store64 (a + unat sz) CANARY (memset a 65 (unat sz) (wm h))) = load64 (a + 8 * unat sz) (wm h)"
    using assms(4) by linarith
  with assms(1,2,5) u show ?thesis by (simp add: db_malloc_def call_malloc_def db_free_def Let_def)
qed

section \<open>SanityCheckHeap\<close>

record 's sanity = "'s sized" +
  allocatedObjects :: "nat \<Rightarrow> cint option"

definition FREED :: cint where
  "FREED = - 1"

definition sc_malloc :: "(ulong \<Rightarrow> 's \<Rightarrow> ptr \<times> 's) \<Rightarrow> ulong \<Rightarrow> 's sanity \<Rightarrow> ptr \<times> 's sanity" where
  "sc_malloc smalloc sz h =
     (case smalloc sz (sized_below h) of
        (None, s) \<Rightarrow> (None, h\<lparr>sized_below := s\<rparr>)
      | (Some p, s) \<Rightarrow>
          (let h1 = h\<lparr>sized_below := s, wm := memset p 65 (unat sz) (wm h)\<rparr> in
           case allocatedObjects h p of
             None \<Rightarrow> (Some p, h1\<lparr>allocatedObjects := (allocatedObjects h)(p \<mapsto> ucast sz)\<rparr>)
           | Some v \<Rightarrow> if v \<noteq> FREED then (None, h1) else (Some p, h1\<lparr>allocatedObjects := (allocatedObjects h)(p \<mapsto> ucast sz)\<rparr>)))"

definition sc_free :: "(nat \<Rightarrow> 's \<Rightarrow> 's) \<Rightarrow> nat \<Rightarrow> 's sanity \<Rightarrow> 's sanity" where
  "sc_free sfree p h =
     (case allocatedObjects h p of
        None \<Rightarrow> h
      | Some v \<Rightarrow> if v = FREED then h
          else h\<lparr>wm := memset p 70 (unat (scast v :: ulong)) (wm h), allocatedObjects := (allocatedObjects h)(p \<mapsto> FREED), sized_below := sfree p (sized_below h)\<rparr>)"

definition sc_live :: "'s sanity \<Rightarrow> nat set" where
  "sc_live h = {p. \<exists>v. allocatedObjects h p = Some v \<and> v \<noteq> FREED}"

text \<open>An object is handed out only when it is not in use, a free of an object in use reaches the heap below exactly once, and all other frees do nothing.\<close>

lemma sc_malloc_live:
  assumes "sc_malloc smalloc sz h = (Some p, h')" and "ucast sz \<noteq> FREED"
  shows "p \<notin> sc_live h" "sc_live h' = insert p (sc_live h)"
  using assms by (auto simp: sc_malloc_def sc_live_def Let_def split: prod.splits option.splits if_splits)

lemma sc_malloc_in_use: "smalloc sz (sized_below h) = (Some p, s) \<Longrightarrow> p \<in> sc_live h \<Longrightarrow> fst (sc_malloc smalloc sz h) = None"
  by (auto simp: sc_malloc_def sc_live_def Let_def)

lemma sc_free_live:
  assumes "p \<in> sc_live h"
  shows "sc_live (sc_free sfree p h) = sc_live h - {p}" "sized_below (sc_free sfree p h) = sfree p (sized_below h)"
  using assms by (auto simp: sc_free_def sc_live_def split: if_splits)

lemma sc_free_other: "p \<notin> sc_live h \<Longrightarrow> sc_free sfree p h = h"
  by (auto simp: sc_free_def sc_live_def split: option.split)

lemma sc_free_twice: "sc_free sfree p (sc_free sfree p h) = sc_free sfree p h"
  by (cases "p \<in> sc_live h") (simp_all add: sc_free_other sc_free_live)

text \<open>A size of 4 GB less one byte is taken for the mark of a freed object: the object is never freed.\<close>

lemma sc_malloc_unfreeable:
  assumes "smalloc 0xFFFFFFFF (sized_below h) = (Some p, s)" and "allocatedObjects h p = None"
  shows "\<exists>h'. sc_malloc smalloc 0xFFFFFFFF h = (Some p, h') \<and> sc_free sfree p h' = h'"
  using assms by (simp add: sc_malloc_def sc_free_def FREED_def)

section \<open>CheckHeap and PadHeap\<close>

definition chk_malloc :: "(ulong \<Rightarrow> 's \<Rightarrow> ptr \<times> 's) \<Rightarrow> ulong \<Rightarrow> 's \<Rightarrow> (nat \<times> 's) result" where
  "chk_malloc smalloc sz s =
     (case smalloc sz s of
        (None, s1) \<Rightarrow> Inl Aborted
      | (Some a, s1) \<Rightarrow> if a mod 8 \<noteq> 0 then Inl Aborted else Inr (a, s1))"

lemma chk_malloc_aligned: "chk_malloc smalloc sz s = Inr (a, s1) \<longleftrightarrow> smalloc sz s = (Some a, s1) \<and> 8 dvd a"
  by (auto simp: chk_malloc_def dvd_eq_mod_eq_0 split: prod.split option.split)

definition pad_roundup :: "cint \<Rightarrow> ulong \<Rightarrow> ulong" where
  "pad_roundup line sz = (sz + scast line - 1) AND scast (NOT (line - 1))"

definition pad_malloc :: "cint \<Rightarrow> (ulong \<Rightarrow> 's \<Rightarrow> ptr \<times> 's) \<Rightarrow> ulong \<Rightarrow> 's \<Rightarrow> ptr \<times> 's" where
  "pad_malloc line smalloc sz s = smalloc (pad_roundup line sz) s"

text \<open>For a power of two, and unless the sum wraps, the result is the least multiple that is not below the request.\<close>

lemma pad_mask:
  assumes "k < 31"
  shows "scast (push_bit k 1 :: cint) = (push_bit k 1 :: ulong)" "scast (NOT (push_bit k 1 - 1 :: cint)) = (NOT (mask k) :: ulong)"
proof -
  have b: "bit (push_bit k 1 :: 'a::len word) j \<longleftrightarrow> j = k \<and> k < LENGTH('a)" for j
    by (auto simp: bit_simps)
  show "scast (push_bit k 1 :: cint) = (push_bit k 1 :: ulong)"
    by (rule bit_word_eqI) (use assms in \<open>auto simp: bit_signed_iff b simp del: push_bit_of_1\<close>)
  have "(push_bit k 1 - 1 :: cint) = mask k" by (simp add: mask_eq_exp_minus_1)
  moreover have "scast (NOT (mask k) :: cint) = (NOT (mask k) :: ulong)"
    by (rule bit_word_eqI) (use assms in \<open>auto simp: bit_signed_iff bit_not_iff bit_mask_iff\<close>)
  ultimately show "scast (NOT (push_bit k 1 - 1 :: cint)) = (NOT (mask k) :: ulong)" by simp
qed

lemma pad_roundup_least:
  assumes "k < 31" and "unat sz + 2 ^ k - 1 < 2 ^ 64"
  shows "unat (pad_roundup (push_bit k 1) sz) = (unat sz + 2 ^ k - 1) div 2 ^ k * 2 ^ k"
proof -
  define x where "x = sz + push_bit k 1 - 1"
  have p: "unat (push_bit k 1 :: ulong) = 2 ^ k" using assms(1) by (intro unat_push1) simp
  have "push_bit k 1 - 1 = (word_of_nat (2 ^ k - 1) :: ulong)" by (simp add: of_nat_diff)
  then have "x = sz + word_of_nat (2 ^ k - 1)" unfolding x_def by (metis add_diff_eq)
  then have "x = word_of_nat (unat sz + (2 ^ k - 1))" unfolding of_nat_add by simp
  then have x: "unat x = unat sz + 2 ^ k - 1" using assms(2) by (simp only: unat_of_nat) simp
  have "unat x < 2 ^ LENGTH(64)" by (rule unsigned_less)
  then have ux: "unat x < 2 ^ 64" by simp
  have "pad_roundup (push_bit k 1) sz = x AND NOT (mask k)" unfolding pad_roundup_def pad_mask [OF assms(1)] x_def ..
  also have "\<dots> = push_bit k (drop_bit k x)"
    by (rule bit_word_eqI) (auto simp: bit_and_iff bit_not_iff bit_push_bit_iff bit_drop_bit_eq bit_mask_iff)
  finally have "unat (pad_roundup (push_bit k 1) sz) = take_bit 64 (push_bit k (drop_bit k (unat x)))"
    using take_bit_nat_eq_self [OF ux] by (simp only: unsigned_push_bit_eq unsigned_drop_bit_eq) simp
  also have "\<dots> = take_bit 64 (unat x div 2 ^ k * 2 ^ k)" by (simp add: push_bit_eq_mult drop_bit_eq_div)
  also have "\<dots> = unat x div 2 ^ k * 2 ^ k"
  proof (rule take_bit_nat_eq_self)
    have "unat x div 2 ^ k * 2 ^ k \<le> unat x" by simp
    also note ux
    finally show "unat x div 2 ^ k * 2 ^ k < 2 ^ 64" .
  qed
  finally show ?thesis by (simp only: x)
qed

end
