(* ===== verification/Tables.thy ===== *)
theory Tables
  imports Prelude
begin

text \<open>
  \<open>MyHashMap\<close> of \<open>src/include/heaplayers/util/myhashmap.h\<close>, a hash table with chained bins, and \<open>DynamicArray\<close> of \<open>util/dynarray.h\<close>. The hash function
  and the allocator of the nodes are arguments.
\<close>

section \<open>MyHashMap\<close>

record ('k, 'v) list_node =
  nd_key :: 'k
  nd_value :: 'v
  nd_next :: ptr

record ('k, 'v, 's) hashmap =
  hm_numBins :: nat
  hm_bins :: "nat \<Rightarrow> ptr"
  hm_nodes :: "nat \<Rightarrow> ('k, 'v) list_node"
  hm_allocator :: 's

definition INITIAL_NUM_BINS :: nat where
  "INITIAL_NUM_BINS = 511"

definition hm_init :: "nat \<Rightarrow> (nat \<Rightarrow> ('k, 'v) list_node) \<Rightarrow> 's \<Rightarrow> ('k, 'v, 's) hashmap" where
  "hm_init n ns s = \<lparr>hm_numBins = n, hm_bins = (\<lambda>_. None), hm_nodes = ns, hm_allocator = s\<rparr>"

definition binIndex :: "('k \<Rightarrow> ulong) \<Rightarrow> 'k \<Rightarrow> ('k, 'v, 's) hashmap \<Rightarrow> nat" where
  "binIndex hash k m = unat (hash k) mod hm_numBins m"

text \<open>The node with a key, and the one before it.\<close>

partial_function (option) hm_seek :: "(nat \<Rightarrow> ('k, 'v) list_node) \<Rightarrow> 'k \<Rightarrow> ptr \<Rightarrow> ptr \<Rightarrow> (ptr \<times> ptr) option" where
  "hm_seek ns k prv p =
     (if p = None \<or> nd_key (ns (the p)) = k then Some (prv, p) else hm_seek ns k p (nd_next (ns (the p))))"

definition hm_insert :: "('k \<Rightarrow> ulong) \<Rightarrow> (ulong \<Rightarrow> 's \<Rightarrow> ptr \<times> 's) \<Rightarrow> 'k \<Rightarrow> 'v \<Rightarrow> ('k, 'v, 's) hashmap \<Rightarrow> ('k, 'v, 's) hashmap" where
  "hm_insert hash smalloc k v m =
     (let i = binIndex hash k m in
      case smalloc 24 (hm_allocator m) of
        (None, s) \<Rightarrow> m\<lparr>hm_allocator := s\<rparr>
      | (Some a, s) \<Rightarrow> m\<lparr>hm_nodes := (hm_nodes m)(a := \<lparr>nd_key = k, nd_value = v, nd_next = hm_bins m i\<rparr>), hm_bins := (hm_bins m)(i := Some a), hm_allocator := s\<rparr>)"

definition hm_set :: "('k \<Rightarrow> ulong) \<Rightarrow> (ulong \<Rightarrow> 's \<Rightarrow> ptr \<times> 's) \<Rightarrow> 'k \<Rightarrow> 'v \<Rightarrow> ('k, 'v, 's) hashmap \<Rightarrow> ('k, 'v, 's) hashmap option" where
  "hm_set hash smalloc k v m =
     map_option (\<lambda>(q, p). case p of
         Some a \<Rightarrow> m\<lparr>hm_nodes := (hm_nodes m)(a := (hm_nodes m a)\<lparr>nd_value := v\<rparr>)\<rparr>
       | None \<Rightarrow> hm_insert hash smalloc k v m)
       (hm_seek (hm_nodes m) k None (hm_bins m (binIndex hash k m)))"

definition hm_get :: "('k \<Rightarrow> ulong) \<Rightarrow> 'k \<Rightarrow> ('k, 'v, 's) hashmap \<Rightarrow> 'v option option" where
  "hm_get hash k m =
     map_option (\<lambda>(q, p). map_option (\<lambda>a. nd_value (hm_nodes m a)) p) (hm_seek (hm_nodes m) k None (hm_bins m (binIndex hash k m)))"

definition hm_erase :: "('k \<Rightarrow> ulong) \<Rightarrow> (nat \<Rightarrow> 's \<Rightarrow> 's) \<Rightarrow> 'k \<Rightarrow> ('k, 'v, 's) hashmap \<Rightarrow> ('k, 'v, 's) hashmap option" where
  "hm_erase hash sfree k m =
     (let i = binIndex hash k m in
      map_option (\<lambda>(q, p). case p of
          None \<Rightarrow> m
        | Some a \<Rightarrow>
            (if p \<noteq> hm_bins m i
             then m\<lparr>hm_nodes := (hm_nodes m)(the q := (hm_nodes m (the q))\<lparr>nd_next := nd_next (hm_nodes m a)\<rparr>), hm_allocator := sfree a (hm_allocator m)\<rparr>
             else m\<lparr>hm_bins := (hm_bins m)(i := nd_next (hm_nodes m a)), hm_allocator := sfree a (hm_allocator m)\<rparr>))
        (hm_seek (hm_nodes m) k None (hm_bins m i)))"

section \<open>The table is a map\<close>

fun node_list :: "(nat \<Rightarrow> ('k, 'v) list_node) \<Rightarrow> ptr \<Rightarrow> nat list \<Rightarrow> bool" where
  "node_list ns p [] \<longleftrightarrow> p = None"
| "node_list ns p (a # as) \<longleftrightarrow> p = Some a \<and> node_list ns (nd_next (ns a)) as"

text \<open>The nodes of bin \<open>i\<close>, and what they store; \<open>L\<close> gives the nodes of every bin.\<close>

definition chain_ok :: "('k \<Rightarrow> nat) \<Rightarrow> nat \<Rightarrow> (nat \<Rightarrow> ('k, 'v) list_node) \<Rightarrow> ptr \<Rightarrow> nat list \<Rightarrow> bool" where
  "chain_ok ix i ns p as \<longleftrightarrow> node_list ns p as \<and> distinct (map (\<lambda>a. nd_key (ns a)) as) \<and> (\<forall>a\<in>set as. ix (nd_key (ns a)) = i)"

definition stored :: "(nat \<Rightarrow> ('k, 'v) list_node) \<Rightarrow> nat list \<Rightarrow> 'k \<Rightarrow> 'v option" where
  "stored ns as = map_of (map (\<lambda>a. (nd_key (ns a), nd_value (ns a))) as)"

definition table :: "('k \<Rightarrow> ulong) \<Rightarrow> (nat \<Rightarrow> nat list) \<Rightarrow> ('k, 'v, 's) hashmap \<Rightarrow> bool" where
  "table hash L m \<longleftrightarrow> 0 < hm_numBins m \<and> (\<forall>i<hm_numBins m. chain_ok (\<lambda>k. binIndex hash k m) i (hm_nodes m) (hm_bins m i) (L i))"

definition content :: "('k \<Rightarrow> ulong) \<Rightarrow> (nat \<Rightarrow> nat list) \<Rightarrow> ('k, 'v, 's) hashmap \<Rightarrow> 'k \<Rightarrow> 'v option" where
  "content hash L m k = stored (hm_nodes m) (L (binIndex hash k m)) k"

lemma node_list_same: "node_list ns p as \<Longrightarrow> (\<And>a. a \<in> set as \<Longrightarrow> nd_next (ns' a) = nd_next (ns a)) \<Longrightarrow> node_list ns' p as"
  by (induction as arbitrary: p) auto

lemma node_list_append: "node_list ns p (as @ a # bs) \<Longrightarrow> node_list ns (nd_next (ns a)) bs"
  by (induction as arbitrary: p) auto

lemma hm_seek_none: "node_list ns p as \<Longrightarrow> (\<And>a. a \<in> set as \<Longrightarrow> nd_key (ns a) \<noteq> k) \<Longrightarrow> \<exists>q. hm_seek ns k prv p = Some (q, None)"
proof (induction as arbitrary: p prv)
  case Nil
  then show ?case by (subst hm_seek.simps) simp
next
  case (Cons b as)
  then have "hm_seek ns k prv p = hm_seek ns k (Some b) (nd_next (ns b))" by (subst hm_seek.simps) simp
  with Cons show ?case by simp
qed

lemma hm_seek_found:
  "node_list ns p (xs @ a # bs) \<Longrightarrow> nd_key (ns a) = k \<Longrightarrow> (\<And>x. x \<in> set xs \<Longrightarrow> nd_key (ns x) \<noteq> k)
     \<Longrightarrow> hm_seek ns k prv p = Some (if xs = [] then prv else Some (last xs), Some a)"
proof (induction xs arbitrary: p prv)
  case Nil
  then show ?case by (subst hm_seek.simps) simp
next
  case (Cons b xs)
  then have "hm_seek ns k prv p = hm_seek ns k (Some b) (nd_next (ns b))" by (subst hm_seek.simps) simp
  with Cons show ?case by simp
qed

lemma stored_append: "stored ns (as @ bs) k = (case stored ns as k of None \<Rightarrow> stored ns bs k | Some v \<Rightarrow> Some v)"
  by (simp add: stored_def map_add_def split: option.split)

lemma stored_Cons: "stored ns (a # as) k = (if nd_key (ns a) = k then Some (nd_value (ns a)) else stored ns as k)"
  by (simp add: stored_def)

lemma stored_None: "(\<And>a. a \<in> set as \<Longrightarrow> nd_key (ns a) \<noteq> k) \<Longrightarrow> stored ns as k = None"
  by (induction as) (fastforce simp: stored_def)+

lemma stored_same: "(\<And>a. a \<in> set as \<Longrightarrow> nd_key (ns' a) = nd_key (ns a) \<and> nd_value (ns' a) = nd_value (ns a)) \<Longrightarrow> stored ns' as = stored ns as"
  unfolding stored_def by (intro arg_cong [of _ _ map_of] map_cong) auto

lemma chain_ok_same: "chain_ok ix i ns p as \<Longrightarrow> (\<And>a. a \<in> set as \<Longrightarrow> nd_key (ns' a) = nd_key (ns a) \<and> nd_next (ns' a) = nd_next (ns a)) \<Longrightarrow> chain_ok ix i ns' p as"
proof -
  assume c: "chain_ok ix i ns p as" and s: "\<And>a. a \<in> set as \<Longrightarrow> nd_key (ns' a) = nd_key (ns a) \<and> nd_next (ns' a) = nd_next (ns a)"
  have "map (\<lambda>a. nd_key (ns' a)) as = map (\<lambda>a. nd_key (ns a)) as" using s by (intro map_cong) auto
  then have "distinct (map (\<lambda>a. nd_key (ns' a)) as)" using c unfolding chain_ok_def by metis
  moreover have "node_list ns' p as" by (rule node_list_same [of ns]) (use c s in \<open>auto simp: chain_ok_def\<close>)
  ultimately show ?thesis using c s by (simp add: chain_ok_def)
qed

lemma binIndex_simps [simp]:
  "binIndex hash k (m\<lparr>hm_nodes := ns\<rparr>) = binIndex hash k m" "binIndex hash k (m\<lparr>hm_bins := b\<rparr>) = binIndex hash k m"
  "binIndex hash k (m\<lparr>hm_allocator := s\<rparr>) = binIndex hash k m"
  by (simp_all add: binIndex_def)

lemma tableD:
  assumes "table hash L m"
  shows "binIndex hash k m < hm_numBins m" "i < hm_numBins m \<Longrightarrow> chain_ok (\<lambda>k. binIndex hash k m) i (hm_nodes m) (hm_bins m i) (L i)"
  using assms by (simp_all add: table_def binIndex_def)

lemma other_bin: "table hash L m \<Longrightarrow> i < hm_numBins m \<Longrightarrow> j < hm_numBins m \<Longrightarrow> a \<in> set (L i) \<Longrightarrow> a \<in> set (L j) \<Longrightarrow> i = j"
  using tableD(2) [of hash L m i] tableD(2) [of hash L m j] by (auto simp: chain_ok_def)

text \<open>Where the search ends: at the first node with the key, with the nodes before it.\<close>

lemma seek_cases:
  assumes "chain_ok ix i ns p as"
  obtains (absent) q where "hm_seek ns k None p = Some (q, None)" "\<And>a. a \<in> set as \<Longrightarrow> nd_key (ns a) \<noteq> k" "stored ns as k = None"
  | (found) xs a bs where "as = xs @ a # bs" "nd_key (ns a) = k" "\<And>b. b \<in> set (xs @ bs) \<Longrightarrow> nd_key (ns b) \<noteq> k"
      "hm_seek ns k None p = Some (if xs = [] then None else Some (last xs), Some a)"
proof -
  have c: "node_list ns p as" "distinct (map (\<lambda>a. nd_key (ns a)) as)" using assms by (simp_all add: chain_ok_def)
  show thesis
  proof (cases "\<exists>a\<in>set as. nd_key (ns a) = k")
    case False
    then have no: "\<And>a. a \<in> set as \<Longrightarrow> nd_key (ns a) \<noteq> k" by blast
    from hm_seek_none [OF c(1) no] obtain q where "hm_seek ns k None p = Some (q, None)" by blast
    from absent [OF this no stored_None [OF no]] show thesis .
  next
    case True
    from split_list_first_prop [OF True] obtain xs a bs
      where as: "as = xs @ a # bs" "nd_key (ns a) = k" "\<forall>x\<in>set xs. nd_key (ns x) \<noteq> k" by blast
    have "nd_key (ns b) \<noteq> k" if "b \<in> set (xs @ bs)" for b
      using that c(2) as(2) unfolding as(1) by (auto simp: image_iff)
    moreover have "hm_seek ns k None p = Some (if xs = [] then None else Some (last xs), Some a)"
      by (rule hm_seek_found) (use c(1) as in blast)+
    ultimately show thesis using found [OF as(1,2)] by blast
  qed
qed

theorem hm_get_content:
  assumes "table hash L m"
  shows "hm_get hash k m = Some (content hash L m k)"
  using tableD(2) [OF assms tableD(1) [OF assms, of k]]
proof (cases rule: seek_cases [where k = k])
  case (absent q)
  then show ?thesis by (simp add: hm_get_def content_def)
next
  case (found xs a bs)
  have "stored (hm_nodes m) xs k = None" by (rule stored_None) (use found(3) in simp)
  then have "stored (hm_nodes m) (xs @ a # bs) k = Some (nd_value (hm_nodes m a))" using found(2) by (simp add: stored_append stored_Cons)
  then show ?thesis using found(1,4) by (simp add: hm_get_def content_def)
qed

text \<open>A change of one bin, and of nodes of it only.\<close>

lemma table_upd:
  assumes t: "table hash L m" and i: "i < hm_numBins m"
    and c: "chain_ok (\<lambda>k. binIndex hash k m) i ns' p' as'"
    and other: "\<And>j a. j < hm_numBins m \<Longrightarrow> j \<noteq> i \<Longrightarrow> a \<in> set (L j) \<Longrightarrow> ns' a = hm_nodes m a"
  shows "table hash (L(i := as')) (m\<lparr>hm_nodes := ns', hm_bins := (hm_bins m)(i := p'), hm_allocator := s\<rparr>)"
    "content hash (L(i := as')) (m\<lparr>hm_nodes := ns', hm_bins := (hm_bins m)(i := p'), hm_allocator := s\<rparr>) k
      = (if binIndex hash k m = i then stored ns' as' k else content hash L m k)"
proof -
  have "chain_ok (\<lambda>k. binIndex hash k m) j ns' (hm_bins m j) (L j)" if "j < hm_numBins m" "j \<noteq> i" for j
    by (rule chain_ok_same [OF tableD(2) [OF t that(1)]]) (simp add: other [OF that])
  then show "table hash (L(i := as')) (m\<lparr>hm_nodes := ns', hm_bins := (hm_bins m)(i := p'), hm_allocator := s\<rparr>)"
    using t c by (simp add: table_def)
  have "stored ns' (L (binIndex hash k m)) = stored (hm_nodes m) (L (binIndex hash k m))" if "binIndex hash k m \<noteq> i"
    by (rule stored_same) (use other [OF tableD(1) [OF t] that] in simp)
  then show "content hash (L(i := as')) (m\<lparr>hm_nodes := ns', hm_bins := (hm_bins m)(i := p'), hm_allocator := s\<rparr>) k
      = (if binIndex hash k m = i then stored ns' as' k else content hash L m k)"
    by (simp add: content_def)
qed

theorem hm_set_content:
  assumes t: "table hash L m" and new: "smalloc 24 (hm_allocator m) = (Some p, s)" and p: "\<And>i. i < hm_numBins m \<Longrightarrow> p \<notin> set (L i)"
  shows "\<exists>m' L'. hm_set hash smalloc k v m = Some m' \<and> table hash L' m' \<and> content hash L' m' = (content hash L m)(k \<mapsto> v)"
proof -
  let ?i = "binIndex hash k m"
  have i: "?i < hm_numBins m" by (rule tableD(1) [OF t])
  note c = tableD(2) [OF t i]
  from c show ?thesis
  proof (cases rule: seek_cases [where k = k])
    case (absent q)
    let ?ns = "(hm_nodes m)(p := \<lparr>nd_key = k, nd_value = v, nd_next = hm_bins m ?i\<rparr>)"
    have old: "a \<in> set (L j) \<Longrightarrow> j < hm_numBins m \<Longrightarrow> ?ns a = hm_nodes m a" for a j using p by auto
    have "chain_ok (\<lambda>k. binIndex hash k m) ?i ?ns (hm_bins m ?i) (L ?i)" by (rule chain_ok_same [OF c]) (use p [OF i] in auto)
    then have c': "chain_ok (\<lambda>k. binIndex hash k m) ?i ?ns (Some p) (p # L ?i)"
      using absent(2) p [OF i] by (auto simp: chain_ok_def image_iff)
    have st: "stored ?ns (p # L ?i) k' = ((stored (hm_nodes m) (L ?i))(k \<mapsto> v)) k'" for k'
      using stored_same [of "L ?i" ?ns "hm_nodes m"] old [OF _ i] by (simp add: stored_Cons)
    note u = table_upd [OF t i c', of s]
    have o: "a \<in> set (L j) \<Longrightarrow> j < hm_numBins m \<Longrightarrow> j \<noteq> ?i \<Longrightarrow> ?ns a = hm_nodes m a" for a j using old by simp
    have "content hash (L(?i := p # L ?i)) (m\<lparr>hm_nodes := ?ns, hm_bins := (hm_bins m)(?i := Some p), hm_allocator := s\<rparr>) = (content hash L m)(k \<mapsto> v)"
      by (rule ext) (subst u(2), use o in simp, simp add: st content_def)
    moreover have "table hash (L(?i := p # L ?i)) (m\<lparr>hm_nodes := ?ns, hm_bins := (hm_bins m)(?i := Some p), hm_allocator := s\<rparr>)"
      by (rule u(1)) (rule o)
    ultimately show ?thesis using absent(1) new by (auto simp: hm_set_def hm_insert_def Let_def)
  next
    case (found xs a bs)
    let ?ns = "(hm_nodes m)(a := (hm_nodes m a)\<lparr>nd_value := v\<rparr>)"
    have c': "chain_ok (\<lambda>k. binIndex hash k m) ?i ?ns (hm_bins m ?i) (L ?i)" by (rule chain_ok_same [OF c]) simp
    have "a \<in> set (L ?i)" using found(1) by simp
    then have o: "b \<in> set (L j) \<Longrightarrow> j < hm_numBins m \<Longrightarrow> j \<noteq> ?i \<Longrightarrow> ?ns b = hm_nodes m b" for b j
      using other_bin [OF t i, of j a] by auto
    have ab: "stored ?ns xs k' = stored (hm_nodes m) xs k' \<and> stored ?ns bs k' = stored (hm_nodes m) bs k'" for k'
      using found(2,3) by (intro conjI fun_cong [OF stored_same]) auto
    have no: "stored (hm_nodes m) xs k = None" by (rule stored_None) (use found(3) in simp)
    have st: "stored ?ns (L ?i) k' = ((stored (hm_nodes m) (L ?i))(k \<mapsto> v)) k'" for k'
      unfolding found(1) using found(2) ab no by (auto simp: stored_append stored_Cons split: option.split)
    note u = table_upd [OF t i c', of "hm_allocator m"]
    have "content hash (L(?i := L ?i)) (m\<lparr>hm_nodes := ?ns, hm_bins := (hm_bins m)(?i := hm_bins m ?i), hm_allocator := hm_allocator m\<rparr>) = (content hash L m)(k \<mapsto> v)"
      by (rule ext) (subst u(2), use o in simp, simp add: st content_def)
    moreover have "table hash (L(?i := L ?i)) (m\<lparr>hm_nodes := ?ns, hm_bins := (hm_bins m)(?i := hm_bins m ?i), hm_allocator := hm_allocator m\<rparr>)"
      by (rule u(1)) (rule o)
    ultimately show ?thesis using found(4) by (auto simp: hm_set_def)
  qed
qed

text \<open>When the allocator has no memory, \<open>set\<close> of a new key loses the entry without a sign.\<close>

lemma hm_set_lost:
  assumes t: "table hash L m" and "smalloc 24 (hm_allocator m) = (None, s)" and "content hash L m k = None"
  shows "hm_set hash smalloc k v m = Some (m\<lparr>hm_allocator := s\<rparr>)"
  using tableD(2) [OF t tableD(1) [OF t, of k]]
proof (cases rule: seek_cases [where k = k])
  case (absent q)
  then show ?thesis using assms(2) by (simp add: hm_set_def hm_insert_def Let_def)
next
  case (found xs a bs)
  have "stored (hm_nodes m) xs k = None" by (rule stored_None) (use found(3) in simp)
  then have "content hash L m k \<noteq> None" using found(1,2) by (simp add: content_def stored_append stored_Cons)
  then show ?thesis using assms(3) by simp
qed

lemma node_list_unlink:
  "node_list ns p (xs @ a # bs) \<Longrightarrow> distinct (xs @ a # bs) \<Longrightarrow> xs \<noteq> [] \<Longrightarrow>
     node_list (ns(last xs := (ns (last xs))\<lparr>nd_next := nd_next (ns a)\<rparr>)) p (xs @ bs)"
proof (induction xs arbitrary: p)
  case (Cons x xs)
  show ?case
  proof (cases "xs = []")
    case True
    have "node_list ns (nd_next (ns a)) bs" using Cons.prems(1) True by simp
    then have "node_list (ns(x := (ns x)\<lparr>nd_next := nd_next (ns a)\<rparr>)) (nd_next (ns a)) bs"
      by (rule node_list_same) (use Cons.prems(2) in auto)
    then show ?thesis using Cons.prems(1) True by (simp add: fun_upd_def)
  next
    case False
    have "last xs \<noteq> x" using Cons.prems(2) False last_in_set [of xs] by auto
    then show ?thesis using Cons.IH [of "nd_next (ns x)"] Cons.prems False by simp
  qed
qed simp

theorem hm_erase_content:
  assumes t: "table hash L m"
  shows "\<exists>m' L'. hm_erase hash sfree k m = Some m' \<and> table hash L' m' \<and> content hash L' m' = (content hash L m)(k := None)"
proof -
  let ?i = "binIndex hash k m"
  have i: "?i < hm_numBins m" by (rule tableD(1) [OF t])
  note c = tableD(2) [OF t i]
  from c show ?thesis
  proof (cases rule: seek_cases [where k = k])
    case (absent q)
    then have "content hash L m k = None" by (simp add: content_def)
    then have "content hash L m = (content hash L m)(k := None)" by (simp add: fun_upd_idem)
    with t absent(1) show ?thesis by (auto simp: hm_erase_def Let_def)
  next
    case (found xs a bs)
    let ?s = "sfree a (hm_allocator m)"
    have ck: "distinct (map (\<lambda>a. nd_key (hm_nodes m a)) (xs @ a # bs))" "node_list (hm_nodes m) (hm_bins m ?i) (xs @ a # bs)"
      "\<forall>b\<in>set (xs @ a # bs). binIndex hash (nd_key (hm_nodes m b)) m = ?i" using c found(1) by (simp_all add: chain_ok_def)
    then have d: "distinct (xs @ a # bs)" by (simp only: distinct_map)
    have no: "stored (hm_nodes m) xs k = None" "stored (hm_nodes m) bs k = None" by (rule stored_None, use found(3) in simp)+
    have st: "stored (hm_nodes m) (xs @ bs) k' = ((stored (hm_nodes m) (L ?i))(k := None)) k'" for k'
      unfolding found(1) using no found(2) by (auto simp: stored_append stored_Cons split: option.split)
    define ns where "ns = (if xs = [] then hm_nodes m else (hm_nodes m)(last xs := (hm_nodes m (last xs))\<lparr>nd_next := nd_next (hm_nodes m a)\<rparr>))"
    define p where "p = (if xs = [] then nd_next (hm_nodes m a) else hm_bins m ?i)"
    have same: "nd_key (ns b) = nd_key (hm_nodes m b) \<and> nd_value (ns b) = nd_value (hm_nodes m b)" for b by (simp add: ns_def)
    have "node_list ns p (xs @ bs)" using node_list_unlink [OF ck(2) d] ck(2) by (cases "xs = []") (simp_all add: ns_def p_def)
    then have c': "chain_ok (\<lambda>k. binIndex hash k m) ?i ns p (xs @ bs)" using ck same by (simp add: chain_ok_def)
    have o: "ns b = hm_nodes m b" if "b \<in> set (L j)" "j < hm_numBins m" "j \<noteq> ?i" for b j
    proof -
      have "xs \<noteq> [] \<Longrightarrow> last xs \<in> set (L ?i)" using found(1) by simp
      then have "xs \<noteq> [] \<Longrightarrow> b \<noteq> last xs" using other_bin [OF t i that(2), of b] that by auto
      then show ?thesis by (auto simp: ns_def)
    qed
    let ?m = "m\<lparr>hm_nodes := ns, hm_bins := (hm_bins m)(?i := p), hm_allocator := ?s\<rparr>"
    note u = table_upd [OF t i c', of ?s]
    have "stored ns (xs @ bs) = stored (hm_nodes m) (xs @ bs)" by (rule stored_same) (simp add: same)
    then have "content hash (L(?i := xs @ bs)) ?m = (content hash L m)(k := None)"
      by (intro ext) (subst u(2), use o in simp, simp add: st content_def)
    moreover have "table hash (L(?i := xs @ bs)) ?m" by (rule u(1)) (rule o)
    moreover have "hm_erase hash sfree k m = Some ?m"
    proof (cases "xs = []")
      case True
      then have "hm_bins m ?i = Some a" using ck(2) by simp
      then show ?thesis using True found(4) by (simp add: hm_erase_def Let_def ns_def p_def)
    next
      case False
      then have "hm_bins m ?i = Some (hd xs)" "hd xs \<noteq> a" using ck(2) d by (cases xs; auto)+
      then show ?thesis using False found(4) by (simp add: hm_erase_def Let_def ns_def p_def fun_upd_idem)
    qed
    ultimately show ?thesis by blast
  qed
qed

section \<open>DynamicArray\<close>

text \<open>\<open>junk\<close> is what fresh memory holds. Indices are below 1073741824, so that \<open>index * 2 + 1\<close> does not overflow an \<open>int\<close>.\<close>

record 'a darray =
  internalArray :: "'a list option"
  internalArrayLength :: nat

definition da_init :: "'a darray" where
  "da_init = \<lparr>internalArray = None, internalArrayLength = 0\<rparr>"

definition da_clear :: "'a darray \<Rightarrow> 'a darray" where
  "da_clear a = (if internalArray a = None then a else a\<lparr>internalArray := None, internalArrayLength := 0\<rparr>)"

definition da_at :: "nat \<Rightarrow> 'a darray \<Rightarrow> 'a result" where
  "da_at i a = (case internalArray a of None \<Rightarrow> Inl NullDeref | Some xs \<Rightarrow> if i < length xs then Inr (xs ! i) else Inl OutOfBounds)"

definition da_grow :: "(nat \<Rightarrow> 'a) \<Rightarrow> nat \<Rightarrow> 'a darray \<Rightarrow> 'a darray" where
  "da_grow junk i a =
     (if internalArrayLength a \<le> i
      then (let newSize = i * 2 + 1; arr = map junk [0..<newSize]
            in \<lparr>internalArray = Some (case internalArray a of None \<Rightarrow> arr | Some xs \<Rightarrow> take (internalArrayLength a) xs @ drop (internalArrayLength a) arr),
                internalArrayLength = newSize\<rparr>)
      else a)"

definition da_store :: "(nat \<Rightarrow> 'a) \<Rightarrow> nat \<Rightarrow> 'a \<Rightarrow> 'a darray \<Rightarrow> 'a darray" where
  "da_store junk i v a = (let b = da_grow junk i a in b\<lparr>internalArray := map_option (\<lambda>xs. xs[i := v]) (internalArray b)\<rparr>)"

definition da_trim :: "(nat \<Rightarrow> 'a) \<Rightarrow> nat \<Rightarrow> 'a darray \<Rightarrow> 'a darray" where
  "da_trim junk n a =
     (case internalArray a of
        None \<Rightarrow> a
      | Some xs \<Rightarrow>
          if n * 4 < internalArrayLength a
          then \<lparr>internalArray = Some (take n xs @ drop n (map junk [0..<n * 2])), internalArrayLength = n * 2\<rparr> else a)"

definition da_ok :: "'a darray \<Rightarrow> bool" where
  "da_ok a \<longleftrightarrow> internalArrayLength a = (case internalArray a of None \<Rightarrow> 0 | Some xs \<Rightarrow> length xs)"

lemma da_grow_keeps:
  assumes "da_ok a"
  shows "da_ok (da_grow junk i a)" "i < internalArrayLength (da_grow junk i a)" "j < internalArrayLength a \<Longrightarrow> da_at j (da_grow junk i a) = da_at j a"
  using assms by (auto simp: da_ok_def da_grow_def da_at_def Let_def nth_append min_def split: option.splits)

theorem da_store_at:
  assumes "da_ok a"
  shows "da_ok (da_store junk i v a)" "da_at i (da_store junk i v a) = Inr v"
    "j \<noteq> i \<Longrightarrow> j < internalArrayLength a \<Longrightarrow> da_at j (da_store junk i v a) = da_at j a"
proof -
  note g = da_grow_keeps [OF assms, where junk = junk and i = i]
  obtain xs where xs: "internalArray (da_grow junk i a) = Some xs" "length xs = internalArrayLength (da_grow junk i a)"
    using g(1,2) by (cases "internalArray (da_grow junk i a)") (auto simp: da_ok_def)
  then show "da_ok (da_store junk i v a)" "da_at i (da_store junk i v a) = Inr v" using g(2)
    by (simp_all add: da_store_def da_ok_def da_at_def Let_def)
  show "da_at j (da_store junk i v a) = da_at j a" if "j \<noteq> i" "j < internalArrayLength a"
  proof -
    have "da_at j (da_store junk i v a) = da_at j (da_grow junk i a)" using that(1) xs(1) by (simp add: da_store_def da_at_def Let_def)
    then show ?thesis using g(3) [OF that(2)] by simp
  qed
qed

theorem da_trim_keeps:
  assumes "da_ok a" and "n \<le> internalArrayLength a"
  shows "da_ok (da_trim junk n a)" "n \<le> internalArrayLength (da_trim junk n a)" "j < n \<Longrightarrow> da_at j (da_trim junk n a) = da_at j a"
    "internalArrayLength (da_trim junk n a) \<le> 4 * n \<or> internalArrayLength (da_trim junk n a) = 0"
  using assms by (auto simp: da_ok_def da_trim_def da_at_def nth_append min_def split: option.splits)

end
