(* ===== verification/RoutedHeaps.thy ===== *)
theory RoutedHeaps
  imports FreeLists Tables "HOL-Library.Signed_Division"
begin

text \<open>
  The layers of \<open>src/include/heaplayers\<close> that choose between heaps: \<open>HybridHeap\<close> (\<open>hybridheap.h\<close>), \<open>ThreadHeap\<close> (\<open>threadheap.h\<close>), \<open>TryHeap\<close> (\<open>tryheap.h\<close>),
  \<open>BinHeap\<close> (\<open>experimental/binheap.h\<close>), \<open>THeap\<close> (\<open>experimental/theap.h\<close>), \<open>ExceptionHeap\<close> (\<open>exceptionheap.h\<close>), \<open>UniqueHeap\<close> (\<open>unique.h\<close>), and the
  source heap \<open>MmapHeap\<close> (\<open>mmapheap.h\<close>). The heaps they choose from are arguments, each with its state.
\<close>

section \<open>HybridHeap\<close>

record ('a, 'b) hybrid =
  hy_small :: 'a
  hy_big :: 'b

definition hy_slowPath :: "(ulong \<Rightarrow> 'b \<Rightarrow> ptr \<times> 'b) \<Rightarrow> ulong \<Rightarrow> ('a, 'b) hybrid \<Rightarrow> ptr \<times> ('a, 'b) hybrid" where
  "hy_slowPath bmalloc sz h = (case bmalloc sz (hy_big h) of (p, b) \<Rightarrow> (p, h\<lparr>hy_big := b\<rparr>))"

definition hy_malloc :: "cint \<Rightarrow> (ulong \<Rightarrow> 'a \<Rightarrow> ptr \<times> 'a) \<Rightarrow> (ulong \<Rightarrow> 'b \<Rightarrow> ptr \<times> 'b) \<Rightarrow> ulong \<Rightarrow> ('a, 'b) hybrid \<Rightarrow> ptr \<times> ('a, 'b) hybrid" where
  "hy_malloc BigSize smalloc bmalloc sz h =
     (if sz \<le> scast BigSize then (case smalloc sz (hy_small h) of (p, a) \<Rightarrow> (p, h\<lparr>hy_small := a\<rparr>)) else hy_slowPath bmalloc sz h)"

definition hy_free :: "cint \<Rightarrow> (nat \<Rightarrow> 'a \<Rightarrow> ulong) \<Rightarrow> (nat \<Rightarrow> 'a \<Rightarrow> 'a) \<Rightarrow> (nat \<Rightarrow> 'b \<Rightarrow> 'b) \<Rightarrow> nat \<Rightarrow> ('a, 'b) hybrid \<Rightarrow> ('a, 'b) hybrid" where
  "hy_free BigSize sgetSize sfree bfree p h =
     (if sgetSize p (hy_small h) \<le> scast BigSize then h\<lparr>hy_small := sfree p (hy_small h)\<rparr> else h\<lparr>hy_big := bfree p (hy_big h)\<rparr>)"

definition hy_clear :: "('a \<Rightarrow> 'a) \<Rightarrow> ('b \<Rightarrow> 'b) \<Rightarrow> ('a, 'b) hybrid \<Rightarrow> ('a, 'b) hybrid" where
  "hy_clear sclear bclear h = (let h1 = h\<lparr>hy_big := bclear (hy_big h)\<rparr> in h1\<lparr>hy_small := sclear (hy_small h1)\<rparr>)"

text \<open>
  Objects return to the heap they came from when \<open>getSize\<close> is at most \<open>BigSize\<close> just for the objects of the small heap; a small heap that rounds a request of
  \<open>BigSize\<close> bytes up has its object freed to the big heap.
\<close>

lemma hy_returns:
  assumes "hy_malloc BigSize smalloc bmalloc sz h = (Some p, h')" and "sgetSize p (hy_small h') \<le> scast BigSize \<longleftrightarrow> sz \<le> scast BigSize"
  shows "if sz \<le> scast BigSize
     then smalloc sz (hy_small h) = (Some p, hy_small h') \<and> hy_free BigSize sgetSize sfree bfree p h' = h'\<lparr>hy_small := sfree p (hy_small h')\<rparr>
     else bmalloc sz (hy_big h) = (Some p, hy_big h') \<and> hy_free BigSize sgetSize sfree bfree p h' = h'\<lparr>hy_big := bfree p (hy_big h')\<rparr>"
  using assms by (auto simp: hy_malloc_def hy_slowPath_def hy_free_def split: prod.splits if_splits)

lemma hy_crosses:
  assumes "smalloc (scast BigSize) (hy_small h) = (Some p, a)" and "scast BigSize < sgetSize p a"
  shows "\<exists>h'. hy_malloc BigSize smalloc bmalloc (scast BigSize) h = (Some p, h') \<and> hy_free BigSize sgetSize sfree bfree p h' = h'\<lparr>hy_big := bfree p (hy_big h')\<rparr>"
  using assms by (auto simp: hy_malloc_def hy_free_def)

section \<open>ThreadHeap\<close>

text \<open>The Linux branch: \<open>pthread_self\<close> is cast to \<open>int\<close> before the shift, and the sign stays.\<close>

definition th_getThreadId :: "ulong \<Rightarrow> int" where
  "th_getThreadId self = drop_bit 10 (sint (ucast self :: cint))"

definition th_getHeap :: "nat \<Rightarrow> int \<Rightarrow> nat result" where
  "th_getHeap NumHeaps index = (if 0 \<le> index \<and> index < int NumHeaps then Inr (nat index) else Inl OutOfBounds)"

definition th_index :: "nat \<Rightarrow> ulong \<Rightarrow> nat result" where
  "th_index NumHeaps self = th_getHeap NumHeaps (th_getThreadId self smod int NumHeaps)"

definition th_malloc :: "nat \<Rightarrow> ulong \<Rightarrow> (ulong \<Rightarrow> 's \<Rightarrow> ptr \<times> 's) \<Rightarrow> ulong \<Rightarrow> (nat \<Rightarrow> 's) \<Rightarrow> (ptr \<times> (nat \<Rightarrow> 's)) result" where
  "th_malloc NumHeaps self smalloc sz hs =
     res_bind (th_index NumHeaps self) (\<lambda>i. case smalloc sz (hs i) of (p, s) \<Rightarrow> Inr (p, hs(i := s)))"

definition th_free :: "nat \<Rightarrow> ulong \<Rightarrow> (nat \<Rightarrow> 's \<Rightarrow> 's) \<Rightarrow> nat \<Rightarrow> (nat \<Rightarrow> 's) \<Rightarrow> (nat \<Rightarrow> 's) result" where
  "th_free NumHeaps self sfree p hs = res_bind (th_index NumHeaps self) (\<lambda>i. Inr (hs(i := sfree p (hs i))))"

definition th_getSize :: "nat \<Rightarrow> ulong \<Rightarrow> (nat \<Rightarrow> 's \<Rightarrow> ulong) \<Rightarrow> nat \<Rightarrow> (nat \<Rightarrow> 's) \<Rightarrow> ulong result" where
  "th_getSize NumHeaps self sgetSize p hs = res_bind (th_index NumHeaps self) (\<lambda>i. Inr (sgetSize p (hs i)))"

text \<open>Half of the values of \<open>pthread_self\<close> give an index, the others mostly lead in front of the array.\<close>

lemma th_index_ok: "0 < NumHeaps \<Longrightarrow> 0 \<le> sint (ucast self :: cint) \<Longrightarrow> \<exists>i<NumHeaps. th_index NumHeaps self = Inr i"
proof -
  assume n: "0 < NumHeaps" and s: "0 \<le> sint (ucast self :: cint)"
  have "0 \<le> th_getThreadId self" using s by (simp add: th_getThreadId_def)
  then have "th_getThreadId self smod int NumHeaps = th_getThreadId self mod int NumHeaps" using n by (simp add: smod_int_alt_def sgn_if)
  then show ?thesis using n by (auto simp: th_index_def th_getHeap_def nat_less_iff intro!: exI [of _ "nat (th_getThreadId self mod int NumHeaps)"])
qed

lemma th_index_negative:
  "th_getThreadId self < 0 \<Longrightarrow> \<not> int NumHeaps dvd th_getThreadId self \<Longrightarrow> th_index NumHeaps self = Inl OutOfBounds"
proof -
  assume t: "th_getThreadId self < 0" "\<not> int NumHeaps dvd th_getThreadId self"
  have "th_getThreadId self smod int NumHeaps = - (\<bar>th_getThreadId self\<bar> mod int NumHeaps)" using t(1) by (simp add: smod_int_alt_def sgn_if)
  moreover have "\<bar>th_getThreadId self\<bar> mod int NumHeaps \<noteq> 0" using t(2) by (simp add: dvd_eq_mod_eq_0 [symmetric])
  moreover have "0 \<le> \<bar>th_getThreadId self\<bar> mod int NumHeaps"
    by (cases "NumHeaps = 0") simp_all
  ultimately have "th_getThreadId self smod int NumHeaps < 0" by linarith
  then show ?thesis by (simp add: th_index_def th_getHeap_def)
qed

section \<open>TryHeap and BinHeap\<close>

definition try_malloc :: "(ulong \<Rightarrow> 'a \<Rightarrow> ptr \<times> 'a) \<Rightarrow> (ulong \<Rightarrow> 'b \<Rightarrow> ptr \<times> 'b) \<Rightarrow> ulong \<Rightarrow> 'a \<times> 'b \<Rightarrow> ptr \<times> 'a \<times> 'b" where
  "try_malloc m1 m2 sz h =
     (case m1 sz (fst h) of
        (Some p, a) \<Rightarrow> (Some p, a, snd h)
      | (None, a) \<Rightarrow> (case m2 sz (snd h) of (p, b) \<Rightarrow> (p, a, b)))"

definition try_free :: "(nat \<Rightarrow> 'a \<Rightarrow> 'a) \<Rightarrow> nat \<Rightarrow> 'a \<times> 'b \<Rightarrow> 'a \<times> 'b" where
  "try_free f1 p h = (f1 p (fst h), snd h)"

text \<open>An object of the second heap is freed to the first.\<close>

lemma try_free_first:
  "m1 sz a = (None, a1) \<Longrightarrow> m2 sz b = (Some p, b1) \<Longrightarrow> try_malloc m1 m2 sz (a, b) = (Some p, a1, b1) \<and> try_free f1 p (a1, b1) = (f1 p a1, b1)"
  by (simp add: try_malloc_def try_free_def)

fun bin_from :: "cint list \<Rightarrow> ulong \<Rightarrow> nat \<Rightarrow> nat" where
  "bin_from [] sz i = i"
| "bin_from (b # bs) sz i = (if scast b \<ge> sz then i else bin_from bs sz (i + 1))"

definition findBin :: "cint list \<Rightarrow> ulong \<Rightarrow> nat" where
  "findBin Bins sz = bin_from Bins sz 0"

definition bin_malloc :: "cint list \<Rightarrow> (ulong \<Rightarrow> 's \<Rightarrow> ptr \<times> 's) \<Rightarrow> ulong \<Rightarrow> (nat \<Rightarrow> 's) \<Rightarrow> ptr \<times> (nat \<Rightarrow> 's)" where
  "bin_malloc Bins smalloc sz hs = (let bin = findBin Bins sz in case smalloc sz (hs bin) of (p, s) \<Rightarrow> (p, hs(bin := s)))"

definition bin_free :: "cint list \<Rightarrow> (nat \<Rightarrow> ulong) \<Rightarrow> (nat \<Rightarrow> 's \<Rightarrow> 's) \<Rightarrow> nat \<Rightarrow> (nat \<Rightarrow> 's) \<Rightarrow> (nat \<Rightarrow> 's)" where
  "bin_free Bins osize sfree p hs = (let bin = findBin Bins (osize p) in hs(bin := sfree p (hs bin)))"

text \<open>The first bin that fits, or the heap behind the bins.\<close>

lemma bin_from_least: "bin_from Bins sz i = i + (if \<exists>j<length Bins. sz \<le> scast (Bins ! j) then LEAST j. j < length Bins \<and> sz \<le> scast (Bins ! j) else length Bins)"
proof (induction Bins arbitrary: i)
  case (Cons b bs)
  let ?P = "\<lambda>xs j. j < length xs \<and> sz \<le> scast (xs ! j)"
  show ?case
  proof (cases "sz \<le> scast b")
    case True
    then have "(LEAST j. ?P (b # bs) j) = 0" by (intro Least_equality) auto
    with True show ?thesis by force
  next
    case False
    have ex: "(\<exists>j. ?P (b # bs) j) \<longleftrightarrow> (\<exists>j. ?P bs j)"
    proof
      assume "\<exists>j. ?P (b # bs) j"
      then obtain j where j: "?P (b # bs) j" by blast
      with False obtain k where "j = Suc k" by (cases j) auto
      with j show "\<exists>j. ?P bs j" by auto
    next
      assume "\<exists>j. ?P bs j"
      then obtain j where "?P bs j" by blast
      then have "?P (b # bs) (Suc j)" by simp
      then show "\<exists>j. ?P (b # bs) j" by blast
    qed
    have least: "(LEAST j. ?P (b # bs) j) = Suc (LEAST j. ?P bs j)" if "\<exists>j. ?P bs j"
    proof -
      from that ex obtain j where "?P (b # bs) j" by blast
      moreover have "\<not> ?P (b # bs) 0" using False by simp
      ultimately have "(LEAST j. ?P (b # bs) j) = Suc (LEAST j. ?P (b # bs) (Suc j))" by (rule Least_Suc)
      then show ?thesis by simp
    qed
    show ?thesis using False ex least Cons.IH [of "i + 1"] by auto
  qed
qed simp

lemma findBin_least: "findBin Bins sz = (if \<exists>j<length Bins. sz \<le> scast (Bins ! j) then LEAST j. j < length Bins \<and> sz \<le> scast (Bins ! j) else length Bins)"
  by (simp add: findBin_def bin_from_least)

section \<open>ExceptionHeap\<close>

text \<open>\<open>throw new std::bad_alloc\<close> throws a pointer; \<open>catch (std::bad_alloc)\<close> catches objects.\<close>

datatype thrown = Bad_alloc | Bad_alloc_pointer

definition ex_malloc :: "(ulong \<Rightarrow> 's \<Rightarrow> ptr \<times> 's) \<Rightarrow> ulong \<Rightarrow> 's \<Rightarrow> (thrown + nat) \<times> 's" where
  "ex_malloc smalloc sz s = (case smalloc sz s of (None, s1) \<Rightarrow> (Inl Bad_alloc_pointer, s1) | (Some p, s1) \<Rightarrow> (Inr p, s1))"

definition catch_malloc :: "(ulong \<Rightarrow> 's \<Rightarrow> (thrown + nat) \<times> 's) \<Rightarrow> ulong \<Rightarrow> 's \<Rightarrow> (thrown + ptr) \<times> 's" where
  "catch_malloc smalloc sz s =
     (case smalloc sz s of
        (Inr p, s1) \<Rightarrow> (Inr (Some p), s1)
      | (Inl Bad_alloc, s1) \<Rightarrow> (Inr None, s1)
      | (Inl e, s1) \<Rightarrow> (Inl e, s1))"

lemma catch_misses: "smalloc sz s = (None, s1) \<Longrightarrow> catch_malloc (ex_malloc smalloc) sz s = (Inl Bad_alloc_pointer, s1)"
  by (simp add: catch_malloc_def ex_malloc_def)

section \<open>UniqueHeap\<close>

text \<open>All instances share one heap, which the destructor of the last of them destroys; the heap is \<open>None\<close> once that has happened.\<close>

record 's unique =
  numRefs :: int
  uq_heap :: "'s option"

definition addRef :: "'s unique \<Rightarrow> 's unique" where
  "addRef u = u\<lparr>numRefs := numRefs u + 1\<rparr>"

definition delRef :: "'s unique \<Rightarrow> int \<times> 's unique" where
  "delRef u = (let u1 = u\<lparr>numRefs := numRefs u - 1\<rparr> in (numRefs u1, u1))"

definition uq_destroy :: "'s unique \<Rightarrow> 's unique" where
  "uq_destroy u = (case delRef u of (r, u1) \<Rightarrow> if r \<le> 0 then u1\<lparr>uq_heap := None\<rparr> else u1)"

lemma uq_last: "numRefs u = int n \<Longrightarrow> numRefs ((addRef ^^ m) u) = int (n + m)" 
  by (induction m) (simp_all add: addRef_def)

lemma uq_destroys: "numRefs u = int (Suc n) \<Longrightarrow> uq_heap (uq_destroy u) = (if n = 0 then None else uq_heap u) \<and> numRefs (uq_destroy u) = int n"
  by (simp add: uq_destroy_def delRef_def Let_def)

section \<open>THeap\<close>

text \<open>The heap of free objects is a \<open>FreelistHeap\<close> over \<open>NullHeap\<close>; \<open>size\<close> of an object is \<open>osize\<close>.\<close>

record 's theap =
  tp_list :: "unit freelist"
  tp_total :: cint
  tp_super :: 's

definition null_below :: "ulong \<Rightarrow> unit \<Rightarrow> ptr \<times> unit" where
  "null_below sz s = (None, s)"

definition tp_malloc :: "(nat \<Rightarrow> ulong) \<Rightarrow> (ulong \<Rightarrow> 's \<Rightarrow> ptr \<times> 's) \<Rightarrow> ulong \<Rightarrow> 's theap \<Rightarrow> ptr \<times> 's theap" where
  "tp_malloc osize smalloc sz h =
     (case fl_malloc null_below sz (tp_list h) of
        (None, f) \<Rightarrow> (case smalloc sz (tp_super h) of (p, s) \<Rightarrow> (p, h\<lparr>tp_list := f, tp_super := s\<rparr>))
      | (Some p, f) \<Rightarrow> (Some p, h\<lparr>tp_list := f, tp_total := tp_total h - ucast (osize p)\<rparr>))"

partial_function (option) tp_dump :: "(nat \<Rightarrow> 's \<Rightarrow> 's) \<Rightarrow> unit freelist \<Rightarrow> 's \<Rightarrow> (unit freelist \<times> 's) option" where
  "tp_dump sfree f s =
     (case fl_malloc null_below 1 f of
        (None, f1) \<Rightarrow> Some (f1, s)
      | (Some p, f1) \<Rightarrow> tp_dump sfree f1 (sfree p s))"

definition tp_free :: "cint \<Rightarrow> (nat \<Rightarrow> ulong) \<Rightarrow> (nat \<Rightarrow> 's \<Rightarrow> 's) \<Rightarrow> nat \<Rightarrow> 's theap \<Rightarrow> 's theap option" where
  "tp_free Threshold osize sfree p h =
     (if sint (tp_total h) < sint Threshold
      then Some (h\<lparr>tp_list := fl_free (Some p) (tp_list h), tp_total := tp_total h + ucast (osize p)\<rparr>)
      else map_option (\<lambda>(f, s). h\<lparr>tp_list := f, tp_super := sfree p s, tp_total := 0\<rparr>) (tp_dump sfree (tp_list h) (tp_super h)))"

definition tp_ok :: "(nat \<Rightarrow> ulong) \<Rightarrow> nat list \<Rightarrow> 's theap \<Rightarrow> bool" where
  "tp_ok osize xs h \<longleftrightarrow> flist_of xs (tp_list h) \<and> tp_total h = sum_list (map (\<lambda>p. ucast (osize p)) xs)"

lemma tp_malloc_holds:
  assumes "tp_ok osize xs h"
  shows "case xs of
      [] \<Rightarrow> \<exists>h'. tp_malloc osize smalloc sz h = (fst (smalloc sz (tp_super h)), h') \<and> tp_ok osize [] h' \<and> tp_super h' = snd (smalloc sz (tp_super h))
    | x # ys \<Rightarrow> \<exists>h'. tp_malloc osize smalloc sz h = (Some x, h') \<and> tp_ok osize ys h' \<and> tp_super h' = tp_super h"
  using fl_malloc_holds [of xs "tp_list h" null_below sz] assms
  by (cases xs) (auto simp: tp_ok_def tp_malloc_def null_below_def flist_of_def split: prod.split)

lemma tp_dump_holds: "flist_of xs f \<Longrightarrow> \<exists>f'. tp_dump sfree f s = Some (f', fold sfree xs s) \<and> flist_of [] f'"
proof (induction xs arbitrary: f s)
  case Nil
  then show ?case using fl_malloc_holds [OF Nil, of null_below 1] by (subst tp_dump.simps) (auto simp: null_below_def flist_of_def)
next
  case (Cons x xs)
  from fl_malloc_holds [OF Cons.prems, of null_below 1] obtain f1 where "fl_malloc null_below 1 f = (Some x, f1)" "flist_of xs f1" by auto
  with Cons.IH [OF this(2), of "sfree x s"] show ?case by (subst tp_dump.simps) simp
qed

text \<open>Below the threshold the object is kept, from there on everything that is kept goes to the heap below, oldest object last, then the object itself.\<close>

lemma tp_free_holds:
  assumes "tp_ok osize xs h" and "x \<notin> set xs"
  shows "if sint (tp_total h) < sint Threshold
     then \<exists>h'. tp_free Threshold osize sfree x h = Some h' \<and> tp_ok osize (x # xs) h' \<and> tp_super h' = tp_super h
     else \<exists>h'. tp_free Threshold osize sfree x h = Some h' \<and> tp_ok osize [] h' \<and> tp_super h' = sfree x (fold sfree xs (tp_super h))"
proof (cases "sint (tp_total h) < sint Threshold")
  case True
  then show ?thesis using assms fl_free_holds(1) [of xs "tp_list h" x] by (simp add: tp_free_def tp_ok_def add.commute)
next
  case False
  from tp_dump_holds [of xs "tp_list h" sfree "tp_super h"] assms(1) obtain f' where "tp_dump sfree (tp_list h) (tp_super h) = Some (f', fold sfree xs (tp_super h))" "flist_of [] f'"
    by (auto simp: tp_ok_def)
  with False show ?thesis by (simp add: tp_free_def tp_ok_def)
qed

section \<open>MmapHeap\<close>

text \<open>\<open>mmap\<close> gives \<open>None\<close> for \<open>MAP_FAILED\<close>. The sizes of the mappings are kept in a hash table; the section under \<open>MyMapLock\<close> is one step.\<close>

record ('s, 'o) mmapheap =
  MyMap :: "(ptr, ulong, 's) hashmap"
  mh_os :: 'o

definition private_malloc :: "(ulong \<Rightarrow> 'o \<Rightarrow> ptr \<times> 'o) \<Rightarrow> ulong \<Rightarrow> 'o \<Rightarrow> ptr \<times> 'o" where
  "private_malloc mmap sz s = mmap sz s"

definition private_free :: "(ptr \<Rightarrow> ulong \<Rightarrow> 'o \<Rightarrow> 'o) \<Rightarrow> ptr \<Rightarrow> ulong \<Rightarrow> 'o \<Rightarrow> 'o" where
  "private_free munmap p sz s = munmap p sz s"

definition mh_malloc :: "(ptr \<Rightarrow> ulong) \<Rightarrow> (ulong \<Rightarrow> 's \<Rightarrow> ptr \<times> 's) \<Rightarrow> (ulong \<Rightarrow> 'o \<Rightarrow> ptr \<times> 'o) \<Rightarrow> ulong \<Rightarrow> ('s, 'o) mmapheap \<Rightarrow> (ptr \<times> ('s, 'o) mmapheap) option" where
  "mh_malloc hash smalloc mmap sz h =
     (case private_malloc mmap sz (mh_os h) of
        (p, s) \<Rightarrow> map_option (\<lambda>m. (p, \<lparr>MyMap = m, mh_os = s\<rparr>)) (hm_set hash smalloc p sz (MyMap h)))"

definition mh_getSize :: "(ptr \<Rightarrow> ulong) \<Rightarrow> ptr \<Rightarrow> ('s, 'o) mmapheap \<Rightarrow> ulong option" where
  "mh_getSize hash p h = map_option (\<lambda>v. case v of None \<Rightarrow> 0 | Some sz \<Rightarrow> sz) (hm_get hash p (MyMap h))"

definition mh_free :: "(ptr \<Rightarrow> ulong) \<Rightarrow> (nat \<Rightarrow> 's \<Rightarrow> 's) \<Rightarrow> (ptr \<Rightarrow> ulong \<Rightarrow> 'o \<Rightarrow> 'o) \<Rightarrow> ptr \<Rightarrow> ('s, 'o) mmapheap \<Rightarrow> ('s, 'o) mmapheap option" where
  "mh_free hash sfree munmap p h =
     Option.bind (mh_getSize hash p h) (\<lambda>sz.
       map_option (\<lambda>m. \<lparr>MyMap = m, mh_os = private_free munmap p sz (mh_os h)\<rparr>) (hm_erase hash sfree p (MyMap h)))"

text \<open>\<open>S\<close> are the sizes of the mappings.\<close>

definition mh_ok :: "(ptr \<Rightarrow> ulong) \<Rightarrow> (ptr \<Rightarrow> ulong option) \<Rightarrow> ('s, 'o) mmapheap \<Rightarrow> bool" where
  "mh_ok hash S h \<longleftrightarrow> (\<exists>L. table hash L (MyMap h) \<and> content hash L (MyMap h) = S)"

lemma mh_malloc_records:
  assumes "mh_ok hash S h" and "mmap sz (mh_os h) = (p, s)"
    and "smalloc 24 (hm_allocator (MyMap h)) = (Some a, t)" and "\<And>L i. table hash L (MyMap h) \<Longrightarrow> i < hm_numBins (MyMap h) \<Longrightarrow> a \<notin> set (L i)"
  shows "\<exists>h'. mh_malloc hash smalloc mmap sz h = Some (p, h') \<and> mh_ok hash (S(p \<mapsto> sz)) h' \<and> mh_os h' = s \<and> mh_getSize hash p h' = Some sz"
proof -
  from assms(1) obtain L where L: "table hash L (MyMap h)" "content hash L (MyMap h) = S" by (auto simp: mh_ok_def)
  from hm_set_content [where smalloc = smalloc and p = a and s = t, OF L(1) assms(3) assms(4) [OF L(1)]] obtain m' L' where
    m: "hm_set hash smalloc p sz (MyMap h) = Some m'" "table hash L' m'" "content hash L' m' = S(p \<mapsto> sz)" using L(2) by blast
  with hm_get_content [OF m(2), of p] assms(2) show ?thesis by (auto simp: mh_malloc_def private_malloc_def mh_ok_def mh_getSize_def)
qed

lemma mh_free_unmaps:
  assumes "mh_ok hash S h"
  shows "\<exists>h'. mh_free hash sfree munmap p h = Some h' \<and> mh_ok hash (S(p := None)) h' \<and> mh_os h' = munmap p (case S p of None \<Rightarrow> 0 | Some sz \<Rightarrow> sz) (mh_os h)"
proof -
  from assms obtain L where L: "table hash L (MyMap h)" "content hash L (MyMap h) = S" by (auto simp: mh_ok_def)
  from hm_erase_content [OF L(1)] obtain m' L' where "hm_erase hash sfree p (MyMap h) = Some m'" "table hash L' m'" "content hash L' m' = S(p := None)"
    using L(2) by blast
  with hm_get_content [OF L(1), of p] L(2) show ?thesis by (auto simp: mh_free_def mh_getSize_def private_free_def mh_ok_def)
qed

end
