(* ===== verification/Coalesce.thy ===== *)
theory Coalesce
  imports DLists
begin

text \<open>
  Splitting and coalescing: \<open>RequireCoalesceable\<close>, \<open>CoalesceableHeap\<close> (\<open>src/include/heaplayers/coalesceableheap.h\<close>) and \<open>CoalesceHeap\<close>
  (\<open>coalesceheap.h\<close>). Every object has a header of two words: the first holds, from bit 0, whether the object before is free, whether
  this one is mapped, and 62 bits of the size of the object before; the second is the size of the object. So whether an object is free stands in the header behind
  it. The layer below \<open>CoalesceHeap\<close>, which keeps the free objects, is an argument. It has its links in the free objects, in the memory that the headers are in; so a free
  object needs 16 bytes, or its links are stored over the header behind it.
\<close>

section \<open>Headers\<close>

definition sizeof_Header :: nat where
  "sizeof_Header = 16"

definition hd_getSize :: "nat \<Rightarrow> mem \<Rightarrow> ulong" where
  "hd_getSize a m = load64 (a + 8) m"

definition hd_setSize :: "nat \<Rightarrow> ulong \<Rightarrow> mem \<Rightarrow> mem" where
  "hd_setSize a sz m = store64 (a + 8) sz m"

definition hd_getPrevSize :: "nat \<Rightarrow> mem \<Rightarrow> ulong" where
  "hd_getPrevSize a m = drop_bit 2 (load64 a m)"

definition hd_setPrevSize :: "nat \<Rightarrow> ulong \<Rightarrow> mem \<Rightarrow> mem" where
  "hd_setPrevSize a sz m = store64 a (push_bit 2 sz OR (load64 a m AND 3)) m"

definition hd_isPrevFree :: "nat \<Rightarrow> mem \<Rightarrow> bool" where
  "hd_isPrevFree a m = (load64 a m AND 1 \<noteq> 0)"

definition hd_markPrevFree :: "nat \<Rightarrow> mem \<Rightarrow> mem" where
  "hd_markPrevFree a m = store64 a (load64 a m OR 1) m"

definition hd_markPrevInUse :: "nat \<Rightarrow> mem \<Rightarrow> mem" where
  "hd_markPrevInUse a m = store64 a (load64 a m AND NOT 1) m"

definition hd_isMmapped :: "nat \<Rightarrow> mem \<Rightarrow> bool" where
  "hd_isMmapped a m = (load64 a m AND 2 \<noteq> 0)"

definition hd_markMmapped :: "nat \<Rightarrow> mem \<Rightarrow> mem" where
  "hd_markMmapped a m = store64 a (load64 a m OR 2) m"

definition hd_markNotMmapped :: "nat \<Rightarrow> mem \<Rightarrow> mem" where
  "hd_markNotMmapped a m = store64 a (load64 a m AND NOT 2) m"

definition getNextHeader :: "nat \<Rightarrow> mem \<Rightarrow> nat" where
  "getNextHeader a m = a + 16 + unat (hd_getSize a m)"

definition hd_markFree :: "nat \<Rightarrow> mem \<Rightarrow> mem" where
  "hd_markFree a m = hd_markPrevFree (getNextHeader a m) m"

definition hd_markInUse :: "nat \<Rightarrow> mem \<Rightarrow> mem" where
  "hd_markInUse a m = hd_markPrevInUse (getNextHeader a m) m"

definition hd_isFree :: "nat \<Rightarrow> mem \<Rightarrow> bool" where
  "hd_isFree a m = hd_isPrevFree (getNextHeader a m) m"

definition hd_isNextFree :: "nat \<Rightarrow> mem \<Rightarrow> bool" where
  "hd_isNextFree a m = hd_isPrevFree (getNextHeader (getNextHeader a m) m) m"

definition hd_getPrev :: "nat \<Rightarrow> mem \<Rightarrow> nat" where
  "hd_getPrev a m = a - unat (hd_getPrevSize a m)"

definition hd_getNext :: "nat \<Rightarrow> mem \<Rightarrow> nat" where
  "hd_getNext a m = a + 32 + unat (hd_getSize a m)"

definition getHeader :: "nat \<Rightarrow> nat" where
  "getHeader p = p - 16"

text \<open>The constructor leaves \<open>_prevStatus\<close> undefined; \<open>u\<close> is the bit that is there.\<close>

definition makeObject :: "bool \<Rightarrow> nat \<Rightarrow> ulong \<Rightarrow> ulong \<Rightarrow> mem \<Rightarrow> nat \<times> mem" where
  "makeObject u buf prevsz sz m =
     (let m1 = store64 (buf + 8) sz (store64 buf (push_bit 2 prevsz OR of_bool u) m)
      in (buf + 16, hd_setPrevSize (buf + 16 + unat sz) sz m1))"

section \<open>CoalesceableHeap\<close>

definition ca_malloc :: "(ulong \<Rightarrow> 's \<Rightarrow> ptr \<times> 's) \<Rightarrow> ulong \<Rightarrow> 's layer \<Rightarrow> ptr \<times> 's layer" where
  "ca_malloc smalloc sz h =
     (case smalloc (sz + 16) (ly_super h) of
        (None, s) \<Rightarrow> (None, h\<lparr>ly_super := s\<rparr>)
      | (Some buf, s) \<Rightarrow>
          (let m1 = hd_setSize buf sz (ly_mem h); nxt = buf + 16 + unat sz; m2 = hd_setPrevSize nxt sz m1;
               m3 = hd_markNotMmapped buf m2; m4 = hd_setSize nxt 0 m3
           in (Some (buf + 16), \<lparr>ly_mem = hd_markInUse nxt m4, ly_super = s\<rparr>)))"

definition ca_free :: "(nat \<Rightarrow> 's \<Rightarrow> 's) \<Rightarrow> nat \<Rightarrow> 's layer \<Rightarrow> 's layer" where
  "ca_free sfree p h = h\<lparr>ly_super := sfree (p - 16) (ly_super h)\<rparr>"

section \<open>CoalesceHeap\<close>

definition co_coalesce :: "nat \<Rightarrow> nat \<Rightarrow> mem \<Rightarrow> mem" where
  "co_coalesce f s m =
     (let newSize = word_of_nat (s - f) + hd_getSize (getHeader s) m; m1 = hd_setSize (getHeader f) newSize m
      in hd_setPrevSize (getHeader (hd_getNext (getHeader f) m1)) newSize m1)"

definition co_split :: "bool \<Rightarrow> nat \<Rightarrow> ulong \<Rightarrow> mem \<Rightarrow> ptr \<times> mem" where
  "co_split u p req m =
     (let actual = hd_getSize (getHeader p) m
      in if 24 \<le> actual - req
         then (let m1 = hd_setSize (getHeader p) req m; q = p + unat req + 16; m2 = snd (makeObject u (getHeader q) req (actual - req - 16) m1)
               in (Some q, hd_markPrevInUse (getHeader q) m2))
         else (None, m))"

definition co_malloc :: "bool \<Rightarrow> (ulong \<Rightarrow> 's layer \<Rightarrow> (ptr \<times> 's layer) result) \<Rightarrow> (nat \<Rightarrow> 's layer \<Rightarrow> 's layer result) \<Rightarrow> ulong \<Rightarrow> 's layer
    \<Rightarrow> (ptr \<times> 's layer) result" where
  "co_malloc u smalloc sfree sz h =
     res_bind (smalloc sz h) (\<lambda>(r, h1).
       case r of None \<Rightarrow> Inr (None, h1)
       | Some p \<Rightarrow>
           (case co_split u p sz (hd_markInUse (getHeader p) (ly_mem h1)) of
              (None, m) \<Rightarrow> Inr (Some p, h1\<lparr>ly_mem := m\<rparr>)
            | (Some q, m) \<Rightarrow> res_bind (sfree q (h1\<lparr>ly_mem := hd_markFree (getHeader q) m\<rparr>)) (\<lambda>h2. Inr (Some p, h2))))"

text \<open>The second half of \<open>free\<close>, from the test of the next object on.\<close>

definition co_finish :: "(nat \<Rightarrow> 's layer \<Rightarrow> 's layer result) \<Rightarrow> (nat \<Rightarrow> 's layer \<Rightarrow> 's layer result) \<Rightarrow> nat \<Rightarrow> nat \<Rightarrow> 's layer \<Rightarrow> 's layer result" where
  "co_finish sremove sfree p nxt h =
     res_bind (if hd_isFree (getHeader nxt) (ly_mem h) then res_bind (sremove nxt h) (\<lambda>h1. Inr (h1\<lparr>ly_mem := co_coalesce p nxt (ly_mem h1)\<rparr>)) else Inr h)
       (\<lambda>h1. sfree p (h1\<lparr>ly_mem := hd_markFree (getHeader p) (ly_mem h1)\<rparr>))"

definition co_free :: "(nat \<Rightarrow> 's layer \<Rightarrow> 's layer result) \<Rightarrow> (nat \<Rightarrow> 's layer \<Rightarrow> 's layer result) \<Rightarrow> nat \<Rightarrow> 's layer \<Rightarrow> 's layer result" where
  "co_free sremove sfree p h =
     (let m = ly_mem h; prv = hd_getPrev (getHeader p) m; nxt = hd_getNext (getHeader p) m
      in if hd_getNext (getHeader prv) m \<noteq> p \<or> hd_getPrev (getHeader nxt) m \<noteq> p
         then sfree p h
         else if hd_isPrevFree (getHeader p) m
              then res_bind (sremove prv h) (\<lambda>h1. co_finish sremove sfree prv nxt (h1\<lparr>ly_mem := co_coalesce prv p (ly_mem h1)\<rparr>))
              else co_finish sremove sfree p nxt h)"

section \<open>One header\<close>

lemma low_bits: "unat (w :: ulong) < 2 ^ 62 \<Longrightarrow> bit w n \<Longrightarrow> n < 62"
  by (rule bit_below)

lemma three: "(3 :: ulong) = mask 2" and one: "(1 :: ulong) = mask 1"
  by (simp_all add: mask_eq_exp_minus_1)

lemma prev_size_bits:
  assumes "unat w < 2 ^ 62"
  shows "drop_bit 2 (push_bit 2 w OR (v AND 3)) = (w :: ulong)"
proof (rule bit_word_eqI)
  fix n assume "n < LENGTH(64)"
  then show "bit (drop_bit 2 (push_bit 2 w OR (v AND 3))) n = bit w n"
    using low_bits [OF assms, of n] unfolding three by (auto simp: bit_simps)
qed

lemma new_size_bits:
  assumes "unat w < 2 ^ 62"
  shows "drop_bit 2 (push_bit 2 w OR of_bool u) = (w :: ulong)"
proof (rule bit_word_eqI)
  fix n assume "n < LENGTH(64)"
  then show "bit (drop_bit 2 (push_bit 2 w OR of_bool u)) n = bit w n"
    using low_bits [OF assms, of n] by (auto simp: bit_simps)
qed

lemma status_bits:
  "(push_bit 2 w OR (v AND 3)) AND 1 = v AND (1 :: ulong)" "drop_bit 2 (v OR 1) = drop_bit 2 (v :: ulong)" "(v AND NOT 1) AND 1 = (0 :: ulong)"
  "drop_bit 2 (v AND NOT 1) = drop_bit 2 (v :: ulong)"
proof -
  show "(push_bit 2 w OR (v AND 3)) AND 1 = v AND (1 :: ulong)" unfolding one three by (rule bit_word_eqI) (auto simp: bit_simps)
  show "drop_bit 2 (v OR 1) = drop_bit 2 v" unfolding one by (rule bit_word_eqI) (auto simp: bit_simps)
  show "(v AND NOT 1) AND 1 = 0" by (rule bit_word_eqI) (auto simp: bit_simps)
  show "drop_bit 2 (v AND NOT 1) = drop_bit 2 v"
  proof (rule bit_word_eqI)
    fix n assume "n < LENGTH(64)"
    show "bit (drop_bit 2 (v AND NOT 1)) n = bit (drop_bit 2 v) n"
      unfolding one by (simp only: bit_drop_bit_eq bit_and_iff bit_not_iff bit_mask_iff o_apply possible_bit_word) (use bit_imp_le_length [of v "2 + n"] in auto)
  qed
qed

lemma status_set: "(v OR 1) AND 1 \<noteq> (0 :: ulong)"
proof -
  have "bit ((v OR 1) AND 1) 0" by (simp add: bit_simps)
  then show ?thesis by (metis bit_0_eq bot_apply bot_bool_def)
qed

lemma hd_simps:
  "unat sz < 2 ^ 62 \<Longrightarrow> hd_getPrevSize a (hd_setPrevSize a sz m) = sz" "hd_isPrevFree a (hd_setPrevSize a sz m) = hd_isPrevFree a m"
  "hd_getPrevSize a (hd_markPrevFree a m) = hd_getPrevSize a m" "hd_getPrevSize a (hd_markPrevInUse a m) = hd_getPrevSize a m"
  "hd_isPrevFree a (hd_markPrevFree a m)" "\<not> hd_isPrevFree a (hd_markPrevInUse a m)" "hd_getSize a (hd_setSize a sz m) = sz"
  by (simp_all only: hd_getPrevSize_def hd_setPrevSize_def hd_isPrevFree_def hd_markPrevFree_def hd_markPrevInUse_def hd_getSize_def hd_setSize_def
      load64_store64 prev_size_bits status_bits status_set not_False_eq_True not_True_eq_False simp_thms)

text \<open>A step that changes only bytes between two addresses.\<close>

definition within :: "nat \<Rightarrow> nat \<Rightarrow> mem \<Rightarrow> mem \<Rightarrow> bool" where
  "within lo hi m m' \<longleftrightarrow> (\<forall>y. y < lo \<or> hi \<le> y \<longrightarrow> m' y = m y)"

lemma within_store64: "within a (a + 8) m (store64 a v m)"
  by (auto simp: within_def store64_def)

lemma within_hd:
  "within a (a + 8) m (hd_setPrevSize a sz m)" "within a (a + 8) m (hd_markPrevFree a m)" "within a (a + 8) m (hd_markPrevInUse a m)"
  "within (a + 8) (a + 16) m (hd_setSize a sz m)"
  by (auto simp: within_def hd_setPrevSize_def hd_markPrevFree_def hd_markPrevInUse_def hd_setSize_def store64_def)

lemma within_mono: "within lo hi m m' \<Longrightarrow> lo' \<le> lo \<Longrightarrow> hi \<le> hi' \<Longrightarrow> within lo' hi' m m'"
  by (auto simp: within_def)

lemma within_trans: "within lo hi m m' \<Longrightarrow> within lo hi m' m'' \<Longrightarrow> within lo hi m m''"
  by (simp add: within_def)

lemma within_refl: "within lo hi m m"
  by (simp add: within_def)

lemma within_load: "within lo hi m m' \<Longrightarrow> x + 8 \<le> lo \<or> hi \<le> x \<Longrightarrow> load64 x m' = load64 x m"
  by (auto simp: within_def load64_eq_iff)

lemma within_views:
  "within lo hi m m' \<Longrightarrow> x + 8 \<le> lo \<or> hi \<le> x \<Longrightarrow> hd_getPrevSize x m' = hd_getPrevSize x m"
  "within lo hi m m' \<Longrightarrow> x + 8 \<le> lo \<or> hi \<le> x \<Longrightarrow> hd_isPrevFree x m' = hd_isPrevFree x m"
  "within lo hi m m' \<Longrightarrow> x + 16 \<le> lo \<or> hi \<le> x + 8 \<Longrightarrow> hd_getSize x m' = hd_getSize x m"
  using within_load [of lo hi m m' x] within_load [of lo hi m m' "x + 8"] by (auto simp: hd_getPrevSize_def hd_isPrevFree_def hd_getSize_def)

section \<open>The objects of a stretch of memory\<close>

text \<open>Size and state of the objects, one behind the other, from the header at \<open>a\<close> to the one at \<open>e\<close>.\<close>

fun tags :: "mem \<Rightarrow> nat \<Rightarrow> (nat \<times> bool) list \<Rightarrow> nat \<Rightarrow> bool" where
  "tags m a [] e \<longleftrightarrow> a = e"
| "tags m a ((sz, fr) # bs) e \<longleftrightarrow> hd_getSize a m = word_of_nat sz \<and> hd_getPrevSize (a + 16 + sz) m = word_of_nat sz
     \<and> hd_isPrevFree (a + 16 + sz) m = fr \<and> tags m (a + 16 + sz) bs e"

definition width :: "(nat \<times> bool) list \<Rightarrow> nat" where
  "width bs = sum_list (map (\<lambda>b. 16 + fst b) bs)"

lemma width_simps [simp]: "width [] = 0" "width (b # bs) = 16 + fst b + width bs" "width (xs @ ys) = width xs + width ys"
  by (simp_all add: width_def)

fun frees :: "nat \<Rightarrow> (nat \<times> bool) list \<Rightarrow> nat set" where
  "frees a [] = {}"
| "frees a ((sz, fr) # bs) = (if fr then {a + 16} else {}) \<union> frees (a + 16 + sz) bs"

lemma frees_append: "frees a (xs @ ys) = frees a xs \<union> frees (a + width xs) ys"
  by (induction xs arbitrary: a) (auto simp: add.assoc)

lemma frees_bounds: "p \<in> frees a bs \<Longrightarrow> a + 16 \<le> p \<and> p \<le> a + width bs"
  by (induction bs arbitrary: a) (fastforce split: if_splits)+

lemma tags_end: "tags m a bs e \<Longrightarrow> e = a + width bs"
proof (induction bs arbitrary: a)
  case (Cons b bs)
  then show ?case by (cases b) (fastforce simp: add.assoc)
qed simp

lemma tags_append: "tags m a (xs @ ys) e \<longleftrightarrow> tags m a xs (a + width xs) \<and> tags m (a + width xs) ys e"
  by (induction xs arbitrary: a) (auto simp: add.assoc)

lemma tags_pair: "tags m b [(s1, f1), (s2, f2)] c \<longleftrightarrow> tags m b [(s1, f1)] (b + 16 + s1) \<and> tags m (b + 16 + s1) [(s2, f2)] c"
  by auto

lemma tags_within:
  assumes "tags m a bs e" and "within lo hi m m'" and "e + 8 \<le> lo \<or> hi \<le> a + 8"
  shows "tags m' a bs e"
  using assms(1,3)
proof (induction bs arbitrary: a)
  case (Cons b bs)
  obtain sz fr where b: "b = (sz, fr)" by (cases b)
  have t: "tags m (a + 16 + sz) bs e" using Cons.prems(1) b by simp
  have "a + 16 + sz \<le> e" using tags_end [OF t] by simp
  with Cons.prems b Cons.IH [OF t] show ?case by (auto simp: within_views [OF assms(2)])
qed simp

lemma tags_replace:
  assumes "tags m a (xs @ bs @ ys) e" and "within (a + width xs + 8) (a + width xs + width bs + 8) m m'"
    and "tags m' (a + width xs) bs' (a + width xs + width bs)"
  shows "tags m' a (xs @ bs' @ ys) e"
proof -
  let ?b = "a + width xs" and ?c = "a + width xs + width bs"
  have t: "tags m a xs ?b" "tags m ?c ys e" using assms(1) by (simp_all add: tags_append)
  have "tags m' a xs ?b" by (rule tags_within [OF t(1) assms(2)]) simp
  moreover have "tags m' ?c ys e" by (rule tags_within [OF t(2) assms(2)]) simp
  moreover have "?c = ?b + width bs'" using tags_end [OF assms(3)] by simp
  ultimately show ?thesis using assms(3) by (simp add: tags_append)
qed

lemma tags_replaceI:
  "tags m a (xs @ bs @ ys) e \<Longrightarrow> c = a + width xs + width bs \<Longrightarrow> within (a + width xs + 8) (c + 8) m m' \<Longrightarrow> tags m' (a + width xs) bs' c
     \<Longrightarrow> tags m' a (xs @ bs' @ ys) e"
  using tags_replace [of m a xs bs ys e m' bs'] by simp

section \<open>The operations on the objects\<close>

lemma small_word: "n < 2 ^ 62 \<Longrightarrow> unat (word_of_nat n :: ulong) = n"
  by (intro unat_of_nat_small) simp

lemma one_object:
  assumes "tags m b [(s, f)] c" and "c < 2 ^ 62"
  shows "c = b + 16 + s" "unat (hd_getSize b m) = s" "getNextHeader b m = c" "hd_getNext b m = c + 16"
proof -
  show c: "c = b + 16 + s" using assms(1) by simp
  have "hd_getSize b m = word_of_nat s" using assms(1) by simp
  then show "unat (hd_getSize b m) = s" using small_word [of s] assms(2) c by simp
  then show "getNextHeader b m = c" "hd_getNext b m = c + 16" using c by (simp_all add: getNextHeader_def hd_getNext_def)
qed

lemma mark_object:
  assumes "tags m b [(s, f)] c" and "c < 2 ^ 62"
  shows "tags (hd_markFree b m) b [(s, True)] c" "tags (hd_markInUse b m) b [(s, False)] c"
    "within (b + 8) (c + 8) m (hd_markFree b m)" "within (b + 8) (c + 8) m (hd_markInUse b m)"
proof -
  note o = one_object [OF assms]
  have bc: "b + 16 \<le> c" using o(1) by simp
  have w: "within c (c + 8) m (hd_markFree b m)" "within c (c + 8) m (hd_markInUse b m)"
    unfolding hd_markFree_def hd_markInUse_def o(3) by (rule within_hd)+
  then show "within (b + 8) (c + 8) m (hd_markFree b m)" "within (b + 8) (c + 8) m (hd_markInUse b m)"
    using bc by (auto elim: within_mono)
  have "hd_getSize b (hd_markFree b m) = hd_getSize b m" "hd_getSize b (hd_markInUse b m) = hd_getSize b m"
    using bc by (auto intro: within_views [OF w(1)] within_views [OF w(2)])
  then show "tags (hd_markFree b m) b [(s, True)] c" "tags (hd_markInUse b m) b [(s, False)] c"
    using assms(1) o(1,3) by (simp_all add: hd_markFree_def hd_markInUse_def hd_simps)
qed

lemma neighbours:
  assumes "tags m b [(s1, f1), (s2, f2)] d" and "d < 2 ^ 62" and p: "p = b + 32 + s1"
  shows "hd_getPrev (getHeader p) m = b + 16" "hd_getPrev (getHeader (d + 16)) m = p" "hd_getNext (getHeader p) m = d + 16"
    "hd_getNext (getHeader (b + 16)) m = p" "hd_isPrevFree (getHeader p) m = f1"
proof -
  have hh: "getHeader p = b + 16 + s1" "getHeader (d + 16) = d" "getHeader (b + 16) = b" by (simp_all add: getHeader_def p)
  have t: "tags m b [(s1, f1)] (b + 16 + s1)" "tags m (b + 16 + s1) [(s2, f2)] d" using assms(1) unfolding tags_pair by blast+
  have d: "d = b + 32 + s1 + s2" and sm: "b + 16 + s1 < 2 ^ 62" using one_object(1) [OF t(2) assms(2)] assms(2) by simp_all
  have "hd_getPrevSize (b + 16 + s1) m = word_of_nat s1" "hd_getPrevSize d m = word_of_nat s2" using t d by (simp_all add: ac_simps)
  then have "unat (hd_getPrevSize (b + 16 + s1) m) = s1" "unat (hd_getPrevSize d m) = s2"
    using small_word [of s1] small_word [of s2] assms(2) d by simp_all
  then show "hd_getPrev (getHeader p) m = b + 16" "hd_getPrev (getHeader (d + 16)) m = p" unfolding hh by (simp_all add: hd_getPrev_def d p)
  show "hd_getNext (getHeader p) m = d + 16" "hd_getNext (getHeader (b + 16)) m = p"
    unfolding hh one_object(4) [OF t(2) assms(2)] one_object(4) [OF t(1) sm] by (simp_all add: p)
  show "hd_isPrevFree (getHeader p) m = f1" using t(1) hh by simp
qed

lemma coalesce_objects:
  assumes "tags m b [(s1, f1), (s2, f2)] c" and "c < 2 ^ 62"
  shows "tags (co_coalesce (b + 16) (b + 32 + s1) m) b [(s1 + 16 + s2, f2)] c" "within (b + 8) (c + 8) m (co_coalesce (b + 16) (b + 32 + s1) m)"
proof -
  let ?n = "s1 + 16 + s2" and ?w = "word_of_nat (s1 + 16 + s2) :: ulong"
  have c: "c = b + 16 + ?n" using assms(1) by simp
  have s2: "hd_getSize (b + 16 + s1) m = word_of_nat s2" using assms(1) by simp
  have uw: "unat ?w = ?n" by (rule small_word) (use assms(2) c in simp)
  define m1 where "m1 = hd_setSize b ?w m"
  have w1: "within (b + 8) (b + 16) m m1" unfolding m1_def by (rule within_hd)
  have g1: "hd_getSize b m1 = ?w" unfolding m1_def by (simp add: hd_simps)
  have nx: "hd_getNext b m1 = c + 16" using g1 uw c by (simp add: hd_getNext_def)
  have h: "getHeader (b + 32 + s1) = b + 16 + s1" "getHeader (b + 16) = b" "getHeader (c + 16) = c" by (simp_all add: getHeader_def)
  have "word_of_nat (b + 32 + s1 - (b + 16)) + word_of_nat s2 = ?w" by simp
  then have eq: "co_coalesce (b + 16) (b + 32 + s1) m = hd_setPrevSize c ?w m1"
    unfolding co_coalesce_def Let_def h s2 by (simp only: m1_def [symmetric] nx h)
  have w2: "within c (c + 8) m1 (hd_setPrevSize c ?w m1)" by (rule within_hd)
  have "within (b + 8) (c + 8) m m1" "within (b + 8) (c + 8) m1 (hd_setPrevSize c ?w m1)"
    using w1 w2 c by (auto elim: within_mono)
  then show "within (b + 8) (c + 8) m (co_coalesce (b + 16) (b + 32 + s1) m)" unfolding eq by (rule within_trans)
  have "hd_getSize b (hd_setPrevSize c ?w m1) = ?w" using within_views(3) [OF w2, of b] g1 c by simp
  moreover have "hd_isPrevFree c m1 = f2" using within_views(2) [OF w1, of c] assms(1) c by (simp add: ac_simps)
  ultimately show "tags (co_coalesce (b + 16) (b + 32 + s1) m) b [(s1 + 16 + s2, f2)] c"
    unfolding eq using uw assms(2) c by (simp add: hd_simps ac_simps)
qed

lemma split_object:
  assumes "tags m b [(s, f)] c" and "c < 2 ^ 62" and "unat req \<le> s"
  shows "if s - unat req < 24 then co_split u (b + 16) req m = (None, m)
     else \<exists>m'. co_split u (b + 16) req m = (Some (b + 32 + unat req), m') \<and> within (b + 8) (c + 8) m m'
        \<and> tags m' b [(unat req, False), (s - unat req - 16, f)] c"
proof -
  note o = one_object [OF assms(1,2)]
  let ?a = "hd_getSize b m" and ?r = "unat req"
  have le: "req \<le> ?a" using assms(3) o(2) by (simp add: word_le_nat_alt)
  have d: "unat (?a - req) = s - ?r" using le o(2) by (simp add: unat_sub)
  have g: "24 \<le> ?a - req \<longleftrightarrow> \<not> s - ?r < 24" by (simp add: word_le_nat_alt d not_less)
  show ?thesis
  proof (cases "s - ?r < 24")
    case True
    then show ?thesis using g by (simp add: co_split_def getHeader_def Let_def)
  next
    case False
    let ?q = "b + 16 + ?r" and ?n = "?a - req - 16"
    have n: "unat ?n = s - ?r - 16" using False d by (simp add: unat_sub word_le_nat_alt)
    have qc: "?q + 16 + unat ?n = c" using n False assms(3) o(1) by simp
    define m1 where "m1 = hd_setSize b req m"
    define m2 where "m2 = store64 ?q (push_bit 2 req OR of_bool u) m1"
    define m3 where "m3 = store64 (?q + 8) ?n m2"
    define m4 where "m4 = hd_setPrevSize c ?n m3"
    define m5 where "m5 = hd_markPrevInUse ?q m4"
    have eq: "co_split u (b + 16) req m = (Some (b + 32 + ?r), m5)"
      using False g qc by (simp add: co_split_def getHeader_def Let_def makeObject_def m1_def m2_def m3_def m4_def m5_def ac_simps)
    have w1: "within (b + 8) (b + 16) m m1" unfolding m1_def by (rule within_hd)
    have w2: "within ?q (?q + 8) m1 m2" unfolding m2_def by (rule within_store64)
    have w3: "within (?q + 8) (?q + 16) m2 m3" unfolding m3_def using within_store64 [of "?q + 8" m2 ?n] by (simp add: add.assoc)
    have w4: "within c (c + 8) m3 m4" unfolding m4_def by (rule within_hd)
    have w5: "within ?q (?q + 8) m4 m5" unfolding m5_def by (rule within_hd)
    note w = w1 w2 w3 w4 w5
    have "within (b + 8) (c + 8) m m1" "within (b + 8) (c + 8) m1 m2" "within (b + 8) (c + 8) m2 m3" "within (b + 8) (c + 8) m3 m4" "within (b + 8) (c + 8) m4 m5"
      using w qc by (auto elim: within_mono)
    then have all: "within (b + 8) (c + 8) m m5" by (meson within_trans)
    have small: "unat req < 2 ^ 62" "unat ?n < 2 ^ 62" using qc assms(2) by simp_all
    have "hd_getSize b m5 = hd_getSize b m1" using w(2-5) qc by (simp add: within_views)
    then have a1: "hd_getSize b m5 = word_of_nat ?r" by (simp add: m1_def hd_simps)
    have "hd_getPrevSize ?q m5 = hd_getPrevSize ?q m4" unfolding m5_def by (simp add: hd_simps)
    also have "\<dots> = hd_getPrevSize ?q m2" using w(3,4) qc by (simp add: within_views)
    also have "\<dots> = req" unfolding m2_def hd_getPrevSize_def using new_size_bits [OF small(1)] by simp
    finally have a2: "hd_getPrevSize ?q m5 = word_of_nat ?r" by simp
    have N: "word_of_nat (s - ?r - 16) = ?n" by (subst n [symmetric]) simp
    have a3: "\<not> hd_isPrevFree ?q m5" unfolding m5_def by (simp add: hd_simps)
    have "hd_getSize ?q m5 = hd_getSize ?q m3" using w(4,5) qc by (simp add: within_views)
    then have a4: "hd_getSize ?q m5 = word_of_nat (s - ?r - 16)" unfolding m3_def hd_getSize_def N by simp
    have "hd_getPrevSize c m5 = hd_getPrevSize c m4" using w(5) qc by (simp add: within_views)
    then have a5: "hd_getPrevSize c m5 = word_of_nat (s - ?r - 16)" unfolding m4_def N using small(2) by (simp add: hd_simps)
    have "hd_isPrevFree c m5 = hd_isPrevFree c m4" using w(5) qc by (simp add: within_views)
    also have "\<dots> = hd_isPrevFree c m3" unfolding m4_def by (simp add: hd_simps)
    also have "\<dots> = f" using w(1-3) qc assms(1) o(1) by (simp add: within_views)
    finally have "tags m5 b [(?r, False), (s - ?r - 16, f)] c" using a1 a2 a3 a4 a5 qc n by (simp add: ac_simps)
    then show ?thesis using False eq all by auto
  qed
qed

definition with_next :: "nat \<Rightarrow> nat \<times> bool \<Rightarrow> (nat \<times> bool) list" where
  "with_next s b = (if snd b then [(s + 16 + fst b, True)] else [(s, True), b])"

definition joined :: "nat \<times> bool \<Rightarrow> nat \<Rightarrow> nat \<times> bool \<Rightarrow> (nat \<times> bool) list" where
  "joined b1 s b3 = (if snd b1 then with_next (fst b1 + 16 + s) b3 else b1 # with_next s b3)"

definition cut :: "nat \<Rightarrow> nat \<Rightarrow> (nat \<times> bool) list" where
  "cut s r = (if s - r < 24 then [(s, False)] else [(r, False), (s - r - 16, True)])"

section \<open>Room for the links\<close>

text \<open>Free objects have room for the links; objects with that much room, and the sentinels, are apart from each other and from all headers.\<close>

definition roomy :: "(nat \<times> bool) list \<Rightarrow> bool" where
  "roomy bs \<longleftrightarrow> (\<forall>b\<in>set bs. snd b \<longrightarrow> 16 \<le> fst b)"

lemma roomy_simps [simp]: "roomy []" "roomy (b # bs) \<longleftrightarrow> (snd b \<longrightarrow> 16 \<le> fst b) \<and> roomy bs" "roomy (xs @ ys) \<longleftrightarrow> roomy xs \<and> roomy ys"
  by (auto simp: roomy_def)

fun bodies :: "nat \<Rightarrow> (nat \<times> bool) list \<Rightarrow> nat set" where
  "bodies a [] = {}"
| "bodies a ((sz, fr) # bs) = (if 16 \<le> sz then {a + 16} else {}) \<union> bodies (a + 16 + sz) bs"

definition outside :: "nat \<Rightarrow> nat \<Rightarrow> nat set \<Rightarrow> bool" where
  "outside a e home \<longleftrightarrow> fo_cells home \<and> (\<forall>x\<in>home. x + 16 \<le> a \<or> e + 16 \<le> x)"

lemma bodies_append: "bodies a (xs @ ys) = bodies a xs \<union> bodies (a + width xs) ys"
  by (induction xs arbitrary: a) (auto simp: add.assoc)

lemma bodies_bounds: "q \<in> bodies a bs \<Longrightarrow> a + 16 \<le> q \<and> q + 16 \<le> a + width bs"
  by (induction bs arbitrary: a) (fastforce split: if_splits)+

lemma frees_bodies: "roomy bs \<Longrightarrow> frees a bs \<subseteq> bodies a bs"
proof (induction bs arbitrary: a)
  case (Cons b bs)
  then have "frees (a + 16 + fst b) bs \<subseteq> bodies (a + 16 + fst b) bs" by simp
  with Cons.prems show ?case by (cases b) auto
qed simp

lemma bodies_cells:
  assumes "outside a e home" and "e = a + width bs" and "e < 2 ^ 62"
  shows "fo_cells (home \<union> bodies a bs)"
proof -
  have d: "\<forall>x\<in>bodies a bs. \<forall>y\<in>bodies a bs. x = y \<or> x + 16 \<le> y \<or> y + 16 \<le> x"
  proof (induction bs arbitrary: a)
    case (Cons b bs)
    have "a + 16 + 16 \<le> q" if "q \<in> bodies (a + 16 + fst b) bs" "16 \<le> fst b" for q using bodies_bounds [OF that(1)] that(2) by simp
    then show ?case using Cons [of "a + 16 + fst b"] by (cases b) (auto split: if_splits)
  qed simp
  have b: "\<forall>x\<in>bodies a bs. a + 16 \<le> x \<and> x + 16 \<le> e" using bodies_bounds assms(2) by blast
  have hb: "x + 16 \<le> y \<or> y + 16 \<le> x" if "x \<in> home" "y \<in> bodies a bs" for x y
  proof -
    have "a + 16 \<le> y" "y + 16 \<le> e" "x + 16 \<le> a \<or> e + 16 \<le> x" using that b assms(1) by (simp_all add: outside_def)
    then show ?thesis by linarith
  qed
  have h: "\<forall>x\<in>home. 0 < x \<and> x + 16 \<le> 2 ^ 64" "\<forall>x\<in>home. \<forall>y\<in>home. x = y \<or> x + 16 \<le> y \<or> y + 16 \<le> x"
    using assms(1) unfolding outside_def fo_cells_def by blast+
  have "e \<le> 2 ^ 64" using assms(3) by simp
  then have "\<forall>x\<in>bodies a bs. 0 < x \<and> x + 16 \<le> 2 ^ 64" using b by fastforce
  moreover have "x = y \<or> x + 16 \<le> y \<or> y + 16 \<le> x" if "x \<in> home \<union> bodies a bs" "y \<in> home \<union> bodies a bs" for x y
    using that hb [of x y] hb [of y x] d [rule_format, of x y] h(2) [rule_format, of x y] by blast
  ultimately show ?thesis using h(1) by (simp add: fo_cells_def ball_Un)
qed

text \<open>Writing links leaves all headers as they are.\<close>

lemma tags_same:
  assumes "tags m a bs e" and "\<And>y. a \<le> y \<Longrightarrow> y < e + 8 \<Longrightarrow> (\<forall>q\<in>bodies a bs. y < q \<or> q + 16 \<le> y) \<Longrightarrow> m' y = m y"
  shows "tags m' a bs e"
  using assms
proof (induction bs arbitrary: a)
  case (Cons b bs)
  obtain sz fr where b: "b = (sz, fr)" by (cases b)
  let ?c = "a + 16 + sz"
  have t: "hd_getSize a m = word_of_nat sz" "hd_getPrevSize ?c m = word_of_nat sz" "hd_isPrevFree ?c m = fr" "tags m ?c bs e" using Cons.prems(1) b by simp_all
  have e: "?c \<le> e" using tags_end [OF t(4)] by simp
  have bs: "?c + 16 \<le> q" if "q \<in> bodies ?c bs" for q using bodies_bounds [OF that] by simp
  have "load64 (a + 8) m' = load64 (a + 8) m" unfolding load64_eq_iff
    by (intro allI impI Cons.prems(2)) (use e bs b in \<open>fastforce split: if_splits\<close>)+
  moreover have "load64 ?c m' = load64 ?c m" unfolding load64_eq_iff
    by (intro allI impI Cons.prems(2)) (use e bs b in \<open>fastforce split: if_splits\<close>)+
  moreover have "tags m' ?c bs e"
  proof (rule Cons.IH [OF t(4)])
    fix y assume "?c \<le> y" "y < e + 8" "\<forall>q\<in>bodies ?c bs. y < q \<or> q + 16 \<le> y"
    then show "m' y = m y" by (intro Cons.prems(2)) (use b in \<open>auto split: if_splits\<close>)
  qed
  ultimately show ?case using t(1-3) b by (simp add: hd_getSize_def hd_getPrevSize_def hd_isPrevFree_def)
qed simp

lemma tags_written:
  assumes t: "tags (ly_mem h) a bs e" and w: "written (home \<union> B) h h'" and B: "B \<subseteq> bodies a bs" and out: "outside a e home"
  shows "tags (ly_mem h') a bs e"
proof (rule tags_same [OF t])
  fix y assume y: "a \<le> y" "y < e + 8" "\<forall>q\<in>bodies a bs. y < q \<or> q + 16 \<le> y"
  then have "\<forall>x\<in>home \<union> B. y < x \<or> x + 16 \<le> y" using B out by (fastforce simp: outside_def)
  with w show "ly_mem h' y = ly_mem h y" by (simp add: written_def)
qed

section \<open>The layer with the free objects\<close>

text \<open>
  What \<open>CoalesceHeap\<close> needs of it: it keeps a set of objects, which an object can enter and any of them can leave. It writes only to the first 16
  bytes of these objects and to places \<open>home\<close> of its own, and nothing else in the memory matters to it.
\<close>

locale free_store =
  fixes sfree :: "nat \<Rightarrow> 's layer \<Rightarrow> 's layer result" and sremove :: "nat \<Rightarrow> 's layer \<Rightarrow> 's layer result"
    and good :: "nat set \<Rightarrow> 's layer \<Rightarrow> bool" and home :: "nat set"
  assumes store_free: "good F h \<Longrightarrow> p \<notin> home \<union> F \<Longrightarrow> fo_cells (insert p (home \<union> F)) \<Longrightarrow> \<exists>h'. sfree p h = Inr h' \<and> good (insert p F) h' \<and> written (insert p (home \<union> F)) h h'"
    and store_remove: "good F h \<Longrightarrow> p \<in> F \<Longrightarrow> \<exists>h'. sremove p h = Inr h' \<and> good (F - {p}) h' \<and> written (home \<union> F) h h'"
    and store_stable: "good F h \<Longrightarrow> ly_super h' = ly_super h \<Longrightarrow> (\<And>x j. x \<in> home \<union> F \<Longrightarrow> j < 16 \<Longrightarrow> ly_mem h' (x + j) = ly_mem h (x + j)) \<Longrightarrow> good F h'"
begin

text \<open>The free objects do not notice when headers change among objects in use.\<close>

lemma retag:
  assumes g: "good (frees a xs \<union> frees c ys) h" and w: "within (a + width xs + 8) (c + 8) (ly_mem h) m" and room: "roomy xs"
    and out: "outside a e home" and c: "a + width xs \<le> c" "c + width ys = e"
  shows "good (frees a xs \<union> frees c ys) (h\<lparr>ly_mem := m\<rparr>)"
proof (rule store_stable [OF g])
  fix x j :: nat assume x: "x \<in> home \<union> (frees a xs \<union> frees c ys)" and j: "j < 16"
  have "x + 16 \<le> a + width xs \<or> c + 16 \<le> x"
    using x out frees_bodies [OF room, of a] bodies_bounds [of x a xs] frees_bounds [of x c ys] c by (auto simp: outside_def)
  then have "x + j < a + width xs + 8 \<or> c + 8 \<le> x + j" using j by linarith
  with w show "ly_mem (h\<lparr>ly_mem := m\<rparr>) (x + j) = ly_mem h (x + j)" by (auto simp: within_def)
qed simp

text \<open>An object that is marked already is handed down, and a free one is taken out.\<close>

lemma hand_down:
  assumes t: "tags (ly_mem h) a (xs @ (s, True) # ys) e" and e: "e < 2 ^ 62" and g: "good (frees a xs \<union> frees (a + width xs + 16 + s) ys) h"
    and room: "roomy (xs @ (s, True) # ys)" and out: "outside a e home"
  shows "\<exists>h'. sfree (a + width xs + 16) h = Inr h' \<and> tags (ly_mem h') a (xs @ (s, True) # ys) e \<and> good (frees a (xs @ (s, True) # ys)) h'"
proof -
  let ?bs = "xs @ (s, True) # ys" and ?p = "a + width xs + 16" and ?F = "frees a xs \<union> frees (a + width xs + 16 + s) ys"
  have fr: "frees a ?bs = insert ?p ?F" by (simp add: frees_append)
  have sub: "insert ?p ?F \<subseteq> bodies a ?bs" using frees_bodies [OF room, of a] unfolding fr .
  then have "fo_cells (insert ?p (home \<union> ?F))" by (intro fo_cells_mono [OF bodies_cells [OF out tags_end [OF t] e]]) blast
  moreover have "?p \<notin> home" using out tags_end [OF t] by (fastforce simp: outside_def)
  moreover have "?p \<notin> ?F" using frees_bounds [of ?p a xs] frees_bounds [of ?p "a + width xs + 16 + s" ys] by auto
  ultimately obtain h' where h': "sfree ?p h = Inr h'" "good (insert ?p ?F) h'" "written (insert ?p (home \<union> ?F)) h h'" using store_free [OF g] by blast
  have "tags (ly_mem h') a ?bs e" by (rule tags_written [OF t _ sub out]) (use h'(3) in simp)
  with h'(1,2) fr show ?thesis by simp
qed

lemma take_out:
  assumes t: "tags (ly_mem h) a bs e" and g: "good (frees a bs) h" and q: "q \<in> frees a bs" and room: "roomy bs" and out: "outside a e home"
  shows "\<exists>h'. sremove q h = Inr h' \<and> tags (ly_mem h') a bs e \<and> good (frees a bs - {q}) h'"
proof -
  from store_remove [OF g q] obtain h' where h': "sremove q h = Inr h'" "good (frees a bs - {q}) h'" "written (home \<union> frees a bs) h h'" by blast
  with tags_written [OF t h'(3) frees_bodies [OF room] out] show ?thesis by blast
qed

text \<open>The second half of \<open>free\<close>: join the next object if it is free, then hand the object down.\<close>

lemma join_next:
  assumes t: "tags (ly_mem h) a (xs @ (s, False) # (s3, f3) # ys) e" and e: "e < 2 ^ 62"
    and g: "good (frees a (xs @ (s, False) # (s3, f3) # ys)) h" and room: "roomy (xs @ (s3, f3) # ys)" "16 \<le> s" and out: "outside a e home"
    and p: "p = a + width xs + 16" and nxt: "nxt = a + width xs + 32 + s"
  shows "\<exists>h'. co_finish sremove sfree p nxt h = Inr h' \<and> tags (ly_mem h') a (xs @ with_next s (s3, f3) @ ys) e
     \<and> good (frees a (xs @ with_next s (s3, f3) @ ys)) h'"
proof -
  let ?bs = "xs @ (s, False) # (s3, f3) # ys" and ?b = "a + width xs" and ?c = "a + width xs + 32 + s + s3"
  have h: "getHeader p = ?b" "getHeader nxt = ?b + 16 + s" by (simp_all add: p nxt getHeader_def)
  have mid: "tags m ?b [(s, False), (s3, f3)] ?c" "tags m ?c ys e" if "tags m a ?bs e" for m
    using that by (simp_all add: tags_append ac_simps)
  have ce: "?c + width ys = e" using tags_end [OF mid(2) [OF t]] by simp
  then have cs: "?c < 2 ^ 62" using e by simp
  have nx: "hd_isFree (getHeader nxt) (ly_mem h) = f3"
    using one_object(3) [of "ly_mem h" "?b + 16 + s" s3 f3 ?c] mid(1) [OF t] cs h by (simp add: hd_isFree_def ac_simps)
  have fr: "frees a ?bs = frees a xs \<union> (if f3 then {nxt} else {}) \<union> frees ?c ys" by (simp add: frees_append nxt ac_simps)
  show ?thesis
  proof (cases f3)
    case True
    have "nxt \<in> frees a ?bs" using fr True by simp
    from take_out [OF t g this _ out] room obtain h1 where h1: "sremove nxt h = Inr h1" "tags (ly_mem h1) a ?bs e" "good (frees a ?bs - {nxt}) h1" by auto
    have "nxt \<notin> frees a xs" "nxt \<notin> frees ?c ys" using frees_bounds [of nxt a xs] frees_bounds [of nxt ?c ys] by (auto simp: nxt)
    then have f1: "frees a ?bs - {nxt} = frees a xs \<union> frees ?c ys" unfolding fr using True by auto
    let ?m = "co_coalesce p nxt (ly_mem h1)"
    have co: "tags ?m ?b [(s + 16 + s3, f3)] ?c" "within (?b + 8) (?c + 8) (ly_mem h1) ?m"
      using coalesce_objects [OF mid(1) [OF h1(2)] cs] by (simp_all add: p nxt ac_simps)
    note mk = mark_object [OF co(1) cs]
    have chg: "within (?b + 8) (?c + 8) (ly_mem h1) (hd_markFree ?b ?m)" using co(2) mk(3) by (rule within_trans)
    have t2: "tags (hd_markFree ?b ?m) a (xs @ [(s + 16 + s3, True)] @ ys) e"
      by (intro tags_replaceI [OF _ _ chg mk(1), of "[(s, False), (s3, f3)]"]) (use h1(2) in simp_all)
    have "good (frees a xs \<union> frees ?c ys) (h1\<lparr>ly_mem := hd_markFree ?b ?m\<rparr>)" by (rule retag [OF h1(3) [unfolded f1] chg _ out _ ce]) (use room in simp_all)
    from hand_down [of "h1\<lparr>ly_mem := hd_markFree ?b ?m\<rparr>" a xs "s + 16 + s3" ys e] t2 e this out room True
    show ?thesis using nx h1(1) h p by (simp add: with_next_def co_finish_def ac_simps)
  next
    case False
    have m0: "tags (ly_mem h) ?b [(s, False)] (?b + 16 + s)" using mid(1) [OF t] by simp
    have "?b + 16 + s < 2 ^ 62" using cs by simp
    note mk = mark_object [OF m0 this]
    have t2: "tags (hd_markFree ?b (ly_mem h)) a (xs @ [(s, True)] @ (s3, f3) # ys) e"
      by (intro tags_replaceI [OF _ _ mk(3,1), of "[(s, False)]"]) (use t in simp_all)
    have f1: "frees a ?bs = frees a xs \<union> frees (?b + 16 + s) ((s3, f3) # ys)" by (simp add: frees_append ac_simps)
    have "good (frees a xs \<union> frees (?b + 16 + s) ((s3, f3) # ys)) (h\<lparr>ly_mem := hd_markFree ?b (ly_mem h)\<rparr>)"
      by (rule retag [OF g [unfolded f1] mk(3) _ out]) (use room ce in simp_all)
    from hand_down [of "h\<lparr>ly_mem := hd_markFree ?b (ly_mem h)\<rparr>" a xs s "(s3, f3) # ys" e] t2 e this out room
    show ?thesis using False nx h p by (simp add: with_next_def co_finish_def)
  qed
qed

text \<open>An object in use with neighbours joins those of them that are free.\<close>

lemma co_free_objects:
  assumes t: "tags (ly_mem h) a (xs @ (s1, f1) # (s2, False) # (s3, f3) # ys) e" and e: "e < 2 ^ 62"
    and g: "good (frees a (xs @ (s1, f1) # (s2, False) # (s3, f3) # ys)) h" and room: "roomy (xs @ (s1, f1) # (s2, False) # (s3, f3) # ys)" "16 \<le> s2"
    and out: "outside a e home"
  shows "\<exists>h'. co_free sremove sfree (a + width xs + 32 + s1) h = Inr h' \<and> tags (ly_mem h') a (xs @ joined (s1, f1) s2 (s3, f3) @ ys) e
     \<and> good (frees a (xs @ joined (s1, f1) s2 (s3, f3) @ ys)) h'"
proof -
  let ?bs = "xs @ (s1, f1) # (s2, False) # (s3, f3) # ys" and ?b = "a + width xs" and ?p = "a + width xs + 32 + s1"
  let ?nxt = "?b + 48 + s1 + s2" and ?d = "?b + 32 + s1 + s2"
  have mid: "tags m ?b [(s1, f1), (s2, False)] ?d" "tags m (?d + 16 + s3) ys e" if "tags m a ?bs e" for m
    using that by (simp_all add: tags_append ac_simps)
  have de: "?d + width ((s3, f3) # ys) = e" using tags_end [OF mid(2) [OF t]] by simp
  then have ds: "?d < 2 ^ 62" using e by simp
  have dn: "?d + 16 = ?nxt" by simp
  note nb = neighbours [OF mid(1) [OF t] ds refl, unfolded dn]
  show ?thesis
  proof (cases f1)
    case False
    have t': "tags (ly_mem h) a ((xs @ [(s1, f1)]) @ (s2, False) # (s3, f3) # ys) e"
      and g': "good (frees a ((xs @ [(s1, f1)]) @ (s2, False) # (s3, f3) # ys)) h" using t g by simp_all
    have r': "roomy ((xs @ [(s1, f1)]) @ (s3, f3) # ys)" using room by simp
    have "?p = a + width (xs @ [(s1, f1)]) + 16" "?nxt = a + width (xs @ [(s1, f1)]) + 32 + s2" by simp_all
    from join_next [OF t' e g' r' room(2) out this] False nb show ?thesis by (simp add: co_free_def Let_def joined_def)
  next
    case True
    let ?F1 = "frees a (xs @ (s1 + 16 + s2, False) # (s3, f3) # ys)"
    have fr: "frees a ?bs = insert (?b + 16) (frees a xs \<union> frees ?d ((s3, f3) # ys))" "?F1 = frees a xs \<union> frees ?d ((s3, f3) # ys)"
      using True by (auto simp: frees_append ac_simps)
    have "?b + 16 \<notin> frees a xs" "?b + 16 \<notin> frees ?d ((s3, f3) # ys)"
      using frees_bounds [of "?b + 16" a xs] frees_bounds [of "?b + 16" ?d "(s3, f3) # ys"] by auto
    then have F1: "frees a ?bs - {?b + 16} = frees a xs \<union> frees ?d ((s3, f3) # ys)" unfolding fr by auto
    have "?b + 16 \<in> frees a ?bs" unfolding fr by simp
    from take_out [OF t g this room(1) out] obtain h1 where h1: "sremove (?b + 16) h = Inr h1" "tags (ly_mem h1) a ?bs e"
      "good (frees a xs \<union> frees ?d ((s3, f3) # ys)) h1" unfolding F1 by blast
    note co = coalesce_objects [OF mid(1) [OF h1(2)] ds]
    let ?h = "h1\<lparr>ly_mem := co_coalesce (?b + 16) ?p (ly_mem h1)\<rparr>"
    have "tags (co_coalesce (?b + 16) ?p (ly_mem h1)) a (xs @ [(s1 + 16 + s2, False)] @ (s3, f3) # ys) e"
      by (intro tags_replaceI [OF _ _ co(2,1), of "[(s1, f1), (s2, False)]"]) (use h1(2) in simp_all)
    then have t': "tags (ly_mem ?h) a (xs @ (s1 + 16 + s2, False) # (s3, f3) # ys) e" by simp
    have g': "good ?F1 ?h" unfolding fr(2) by (rule retag [OF h1(3) co(2) _ out _ de]) (use room in simp_all)
    have r': "roomy (xs @ (s3, f3) # ys)" "16 \<le> s1 + 16 + s2" using room by simp_all
    have "?nxt = a + width xs + 32 + (s1 + 16 + s2)" by simp
    from join_next [OF t' e g' r' out refl this] True nb h1(1) show ?thesis by (simp add: co_free_def Let_def joined_def)
  qed
qed

text \<open>
  \<open>malloc\<close> of the layer below gives an object that is big enough; the rest of it becomes a free object. The code splits off a rest of 8 bytes, too,
  which has no room for the links; that case is left out here.
\<close>

lemma co_malloc_objects:
  assumes m: "smalloc sz h = Inr (Some (a + width xs + 16), h1)" and t: "tags (ly_mem h1) a (xs @ (s, f) # ys) e" and e: "e < 2 ^ 62"
    and sz: "unat sz \<le> s" and g: "good (frees a (xs @ (s, False) # ys)) h1" and room: "roomy (xs @ ys)" "s - unat sz < 24 \<or> 32 \<le> s - unat sz" and out: "outside a e home"
  shows "\<exists>h'. co_malloc u smalloc sfree sz h = Inr (Some (a + width xs + 16), h') \<and> tags (ly_mem h') a (xs @ cut s (unat sz) @ ys) e
     \<and> good (frees a (xs @ cut s (unat sz) @ ys)) h'"
proof -
  let ?b = "a + width xs" and ?c = "a + width xs + 16 + s" and ?r = "unat sz"
  have mid: "tags (ly_mem h1) ?b [(s, f)] ?c" "tags (ly_mem h1) ?c ys e" using t by (simp_all add: tags_append ac_simps)
  have ce: "?c + width ys = e" using tags_end [OF mid(2)] by simp
  then have cs: "?c < 2 ^ 62" using e by simp
  define m1 where "m1 = hd_markInUse ?b (ly_mem h1)"
  have m1: "tags m1 ?b [(s, False)] ?c" "within (?b + 8) (?c + 8) (ly_mem h1) m1" unfolding m1_def using mark_object [OF mid(1) cs] by simp_all
  have b: "getHeader (?b + 16) = ?b" by (simp add: getHeader_def)
  have fs: "frees a (xs @ (s, False) # ys) = frees a xs \<union> frees ?c ys" by (simp add: frees_append ac_simps)
  note re = retag [OF g [unfolded fs] _ _ out _ ce]
  note sp = split_object [OF m1(1) cs sz, of u]
  show ?thesis
  proof (cases "s - ?r < 24")
    case True
    have "tags m1 a (xs @ [(s, False)] @ ys) e" by (intro tags_replaceI [OF _ _ m1(2,1), of "[(s, f)]"]) (use t in simp_all)
    moreover have "good (frees a xs \<union> frees ?c ys) (h1\<lparr>ly_mem := m1\<rparr>)" by (rule re [OF m1(2)]) (use room in simp_all)
    ultimately show ?thesis using True sp m fs b by (simp add: co_malloc_def cut_def m1_def)
  next
    case False
    let ?q = "?b + 32 + ?r" and ?n = "s - ?r - 16"
    obtain m2 where m2: "co_split u (?b + 16) sz m1 = (Some ?q, m2)" "within (?b + 8) (?c + 8) m1 m2" "tags m2 ?b [(?r, False), (?n, False)] ?c"
      using sp False by auto
    have h2: "getHeader ?q = ?b + 16 + ?r" by (simp add: getHeader_def)
    have "tags m2 (?b + 16 + ?r) [(?n, False)] ?c" using m2(3) unfolding tags_pair by blast
    note mk = mark_object [OF this cs]
    let ?m3 = "hd_markFree (?b + 16 + ?r) m2" and ?xs = "xs @ [(?r, False)]"
    have l: "tags ?m3 ?b [(?r, False)] (?b + 16 + ?r)" by (rule tags_within [OF _ mk(3)]) (use m2(3) tags_pair in blast, simp)
    have new: "tags ?m3 ?b [(?r, False), (?n, True)] ?c" by (rule tags_pair [THEN iffD2]) (rule conjI [OF l mk(1)])
    have "within (?b + 8) (?c + 8) m2 ?m3" using mk(3) by (rule within_mono) simp_all
    then have chg: "within (?b + 8) (?c + 8) (ly_mem h1) ?m3" using m1(2) m2(2) by (meson within_trans)
    have t3: "tags ?m3 a (xs @ [(?r, False), (?n, True)] @ ys) e" by (intro tags_replaceI [OF _ _ chg new, of "[(s, f)]"]) (use t in simp_all)
    have cq: "?c = ?b + 32 + ?r + ?n" using False sz by simp
    have "good (frees a xs \<union> frees ?c ys) (h1\<lparr>ly_mem := ?m3\<rparr>)" by (rule re [OF chg]) (use room in simp_all)
    then have g3: "good (frees a ?xs \<union> frees (a + width ?xs + 16 + ?n) ys) (h1\<lparr>ly_mem := ?m3\<rparr>)" using cq by (simp add: frees_append ac_simps)
    have "tags (ly_mem (h1\<lparr>ly_mem := ?m3\<rparr>)) a (?xs @ (?n, True) # ys) e" using t3 by simp
    moreover have "roomy (?xs @ (?n, True) # ys)" using room False by auto
    ultimately obtain h' where "sfree (a + width ?xs + 16) (h1\<lparr>ly_mem := ?m3\<rparr>) = Inr h'"
      "tags (ly_mem h') a (?xs @ (?n, True) # ys) e" "good (frees a (?xs @ (?n, True) # ys)) h'" using hand_down [OF _ e g3 _ out] by blast
    then show ?thesis using False m b m2(1) h2 by (simp add: co_malloc_def cut_def ac_simps flip: m1_def)
  qed
qed

end

text \<open>\<open>FIFODLFreelistHeap\<close> is such a layer.\<close>

interpretation fifo_store: free_store "fd_free H" fd_remove "\<lambda>F h. \<exists>xs. between H T xs h \<and> set xs = F" "{H, T}" for H T
proof
  fix F and h :: "'s layer" and p
  assume "\<exists>xs. between H T xs h \<and> set xs = F" and p: "p \<notin> {H, T} \<union> F" "fo_cells (insert p ({H, T} \<union> F))"
  then obtain xs where xs: "between H T xs h" "set xs = F" by auto
  have eq: "insert p ({H, T} \<union> F) = set (p # H # xs @ [T])" using xs(2) by auto
  have "p \<notin> set (H # xs @ [T])" using p(1) xs(2) by auto
  from fd_free_newest [OF xs(1) this p(2) [unfolded eq]] obtain h' where "fd_free H p h = Inr h'" "between H T (p # xs) h'" "written (insert p ({H, T} \<union> F)) h h'"
    unfolding eq by blast
  with xs(2) show "\<exists>h'. fd_free H p h = Inr h' \<and> (\<exists>xs. between H T xs h' \<and> set xs = insert p F) \<and> written (insert p ({H, T} \<union> F)) h h'"
    by (metis list.simps(15))
next
  fix F and h :: "'s layer" and p
  assume "\<exists>xs. between H T xs h \<and> set xs = F" and p: "p \<in> F"
  then obtain xs where xs: "between H T xs h" "set xs = F" "p \<in> set xs" by auto
  then have r: "set (remove1 p xs) = F - {p}" by (auto simp: between_def)
  have "set (H # xs @ [T]) = {H, T} \<union> F" using xs(2) by auto
  with fd_remove_any [OF xs(1,3)] r show "\<exists>h'. fd_remove p h = Inr h' \<and> (\<exists>xs. between H T xs h' \<and> set xs = F - {p}) \<and> written ({H, T} \<union> F) h h'" by metis
next
  fix F and h h' :: "'s layer"
  assume "\<exists>xs. between H T xs h \<and> set xs = F" and same: "\<And>x j. x \<in> {H, T} \<union> F \<Longrightarrow> j < 16 \<Longrightarrow> ly_mem h' (x + j) = ly_mem h (x + j)"
  then obtain xs where xs: "between H T xs h" "set xs = F" by auto
  have eq: "set (H # xs @ [T]) = {H, T} \<union> F" using xs(2) by auto
  have "links_of h' x = links_of h x" if "x \<in> {H, T} \<union> F" for x
  proof -
    have "load64 x (ly_mem h') = load64 x (ly_mem h)" "load64 (x + 8) (ly_mem h') = load64 (x + 8) (ly_mem h)"
      using same [OF that] by (simp_all add: load64_eq_iff add.assoc)
    then show ?thesis by (simp add: links_of_def fo_prev_def fo_next_def)
  qed
  then have "agree ({H, T} \<union> F) h' (links_of h)" by (simp add: agree_def)
  moreover have "dseg (links_of h) H xs T" "distinct (H # xs @ [T])" "fo_cells ({H, T} \<union> F)" using xs(1) unfolding between_def eq by blast+
  ultimately have "between H T xs h'" by (rule between_agree) (use eq in simp)
  with xs(2) show "\<exists>xs. between H T xs h' \<and> set xs = F" by blast
qed

section \<open>No two free neighbours\<close>

definition settled :: "(nat \<times> bool) list \<Rightarrow> bool" where
  "settled bs \<longleftrightarrow> successively (\<lambda>b c. \<not> (snd b \<and> snd c)) bs"

lemma settled_joined: "settled (xs @ b1 # (s, False) # b3 # ys) \<Longrightarrow> settled (xs @ joined b1 s b3 @ ys)"
  by (cases xs rule: rev_cases; cases ys) (auto simp: settled_def joined_def with_next_def successively_append_iff)

lemma settled_cut: "settled (xs @ (s, True) # ys) \<Longrightarrow> settled (xs @ cut s r @ ys)"
  by (cases xs rule: rev_cases; cases ys) (auto simp: settled_def cut_def successively_append_iff)

section \<open>New objects\<close>

text \<open>
  \<open>CoalesceableHeap::malloc\<close> leaves an object and the header behind it, that of an empty object in use. It asks for the object and one
  header, but writes 24 bytes behind the object: the header, and the status of the empty object in the word behind that.
\<close>

lemma ca_malloc_object:
  assumes "smalloc (sz + 16) (ly_super h) = (Some buf, s)" and "unat sz < 2 ^ 62"
  defines "nxt \<equiv> buf + 16 + unat sz"
  shows "\<exists>h'. ca_malloc smalloc sz h = (Some (buf + 16), h') \<and> ly_super h' = s \<and> within buf (nxt + 24) (ly_mem h) (ly_mem h')
     \<and> tags (ly_mem h') buf [(unat sz, hd_isPrevFree nxt (ly_mem h))] nxt \<and> hd_getSize nxt (ly_mem h') = 0 \<and> \<not> hd_isPrevFree (nxt + 16) (ly_mem h')"
proof -
  let ?m = "ly_mem h"
  define m1 where "m1 = hd_setSize buf sz ?m"
  define m2 where "m2 = hd_setPrevSize nxt sz m1"
  define m3 where "m3 = hd_markNotMmapped buf m2"
  define m4 where "m4 = hd_setSize nxt 0 m3"
  define m5 where "m5 = hd_markPrevInUse (nxt + 16) m4"
  have g4: "hd_getSize nxt m4 = 0" unfolding m4_def by (simp add: hd_simps)
  then have eq: "ca_malloc smalloc sz h = (Some (buf + 16), \<lparr>ly_mem = m5, ly_super = s\<rparr>)"
    using assms(1) by (simp add: ca_malloc_def Let_def hd_markInUse_def getNextHeader_def m1_def m2_def m3_def m4_def m5_def nxt_def add.assoc)
  have w1: "within (buf + 8) (buf + 16) ?m m1" unfolding m1_def by (rule within_hd)
  have w2: "within nxt (nxt + 8) m1 m2" unfolding m2_def by (rule within_hd)
  have w3: "within buf (buf + 8) m2 m3" unfolding m3_def hd_markNotMmapped_def by (rule within_store64)
  have w4: "within (nxt + 8) (nxt + 16) m3 m4" unfolding m4_def by (rule within_hd)
  have w5: "within (nxt + 16) (nxt + 16 + 8) m4 m5" unfolding m5_def by (rule within_hd)
  have le: "buf + 16 \<le> nxt" by (simp add: nxt_def)
  have "within buf (nxt + 24) ?m m1" "within buf (nxt + 24) m1 m2" "within buf (nxt + 24) m2 m3" "within buf (nxt + 24) m3 m4" "within buf (nxt + 24) m4 m5"
    using w1 w2 w3 w4 w5 le by (auto elim: within_mono)
  then have all: "within buf (nxt + 24) ?m m5" by (meson within_trans)
  have "hd_getSize buf m5 = hd_getSize buf m1" using w2 w3 w4 w5 le by (simp add: within_views)
  then have a1: "hd_getSize buf m5 = sz" unfolding m1_def by (simp add: hd_simps)
  have "hd_getPrevSize nxt m5 = hd_getPrevSize nxt m2" using w3 w4 w5 le by (simp add: within_views)
  then have a2: "hd_getPrevSize nxt m5 = sz" unfolding m2_def using assms(2) by (simp add: hd_simps)
  have "hd_isPrevFree nxt m5 = hd_isPrevFree nxt m2" using w3 w4 w5 le by (simp add: within_views)
  then have a3: "hd_isPrevFree nxt m5 = hd_isPrevFree nxt ?m" unfolding m2_def using w1 le by (simp add: hd_simps within_views)
  have a4: "hd_getSize nxt m5 = 0" using w5 g4 by (simp add: within_views)
  have a5: "\<not> hd_isPrevFree (nxt + 16) m5" unfolding m5_def by (rule hd_simps)
  have "tags m5 buf [(unat sz, hd_isPrevFree nxt ?m)] nxt" using a1 a2 a3 unfolding nxt_def by simp
  with all a4 a5 show ?thesis by (intro exI [of _ "\<lparr>ly_mem = m5, ly_super = s\<rparr>"] conjI eq) (simp_all only: layer.simps not_False_eq_True)
qed

end
