(* ===== verification/Bits.thy ===== *)
theory Bits
  imports SegHeap
begin

text \<open>
  \<open>BitString\<close> of \<open>src/include/heaplayers/util/bitstring.h\<close>, a bitmap with an allocator of runs, and \<open>BitIndex\<close> of \<open>util/bitindex.h\<close> and \<open>bitindex.cpp\<close>. An
  entry of the bitmap uses 32 bits of an \<open>unsigned long\<close>, which has 64 here.
\<close>

section \<open>BitString\<close>

record bitstring =
  bs_B :: "ulong list"
  bs_firstPos :: nat

definition ALL_ALLOCATED :: ulong where
  "ALL_ALLOCATED = - 1"

definition bs_clear :: "nat \<Rightarrow> bitstring" where
  "bs_clear N = \<lparr>bs_B = replicate ((N + 31) div 32) ALL_ALLOCATED, bs_firstPos = 0\<rparr>"

definition bs_get :: "nat \<Rightarrow> bitstring \<Rightarrow> bool result" where
  "bs_get i s = (if i div 32 < length (bs_B s) then Inr (bs_B s ! (i div 32) AND push_bit (i mod 32) 1 \<noteq> 0) else Inl OutOfBounds)"

definition bs_set :: "nat \<Rightarrow> bitstring \<Rightarrow> bitstring result" where
  "bs_set i s =
     (if i div 32 < length (bs_B s)
      then (let s1 = s\<lparr>bs_B := (bs_B s)[i div 32 := bs_B s ! (i div 32) OR push_bit (i mod 32) 1]\<rparr>
            in Inr (if i < bs_firstPos s1 then s1\<lparr>bs_firstPos := i\<rparr> else s1))
      else Inl OutOfBounds)"

text \<open>The complement is one of 32 bits, so the upper half of the entry is cleared.\<close>

definition bs_reset :: "nat \<Rightarrow> bitstring \<Rightarrow> bitstring result" where
  "bs_reset i s =
     (if i div 32 < length (bs_B s)
      then Inr (s\<lparr>bs_B := (bs_B s)[i div 32 := bs_B s ! (i div 32) AND ucast (NOT (push_bit (i mod 32) 1) :: 32 word)]\<rparr>)
      else Inl OutOfBounds)"

fun bs_free :: "nat \<Rightarrow> nat \<Rightarrow> bitstring \<Rightarrow> bitstring result" where
  "bs_free pos 0 s = Inr s"
| "bs_free pos (Suc n) s = res_bind (bs_reset pos s) (bs_free (Suc pos) n)"

text \<open>The next position that is a multiple of the alignment.\<close>

partial_function (option) align_up :: "nat \<Rightarrow> nat \<Rightarrow> nat option" where
  "align_up al p = (if p mod al \<noteq> 0 then align_up al (Suc p) else Some p)"

text \<open>The first taken bit of a run, if any.\<close>

fun bs_taken :: "nat \<Rightarrow> nat \<Rightarrow> nat \<Rightarrow> bitstring \<Rightarrow> nat option result" where
  "bs_taken pos j 0 s = Inr None"
| "bs_taken pos j (Suc n) s = res_bind (bs_get (pos + j) s) (\<lambda>t. if t then Inr (Some j) else bs_taken pos (Suc j) n s)"

fun bs_claim :: "nat \<Rightarrow> nat \<Rightarrow> bitstring \<Rightarrow> bitstring result" where
  "bs_claim pos 0 s = Inr s"
| "bs_claim pos (Suc n) s = res_bind (bs_set pos s) (bs_claim (Suc pos) n)"

partial_function (option) bs_search :: "nat \<Rightarrow> nat \<Rightarrow> nat \<Rightarrow> bitstring \<Rightarrow> nat \<Rightarrow> nat option result option" where
  "bs_search N len al s p =
     (if N \<le> p then Some (Inr None)
      else if length (bs_B s) \<le> p div 32 then Some (Inl OutOfBounds)
      else if bs_B s ! (p div 32) = ALL_ALLOCATED then Option.bind (align_up al ((p div 32 + 1) * 32)) (bs_search N len al s)
      else if bs_get p s = Inr True then bs_search N len al s (p + al)
      else (case bs_taken p 0 len s of
              Inl e \<Rightarrow> Some (Inl e)
            | Inr t \<Rightarrow> if t = None then Some (Inr (Some p)) else Option.bind (align_up al (p + the t)) (bs_search N len al s)))"

definition bs_allocate :: "nat \<Rightarrow> nat \<Rightarrow> nat \<Rightarrow> bitstring \<Rightarrow> (nat option \<times> bitstring) result option" where
  "bs_allocate N len al s =
     map_option (\<lambda>r. res_bind r (\<lambda>q. case q of None \<Rightarrow> Inr (None, s) | Some p \<Rightarrow> res_bind (bs_claim p len s) (\<lambda>s1. Inr (Some p, s1))))
       (bs_search N len al s (bs_firstPos s))"

section \<open>lsb and msb\<close>

definition lsb_index32 :: "nat list" where
  "lsb_index32 = [0, 1, 28, 2, 29, 14, 24, 3, 30, 22, 20, 15, 25, 17, 4, 8, 31, 27, 13, 23, 21, 19, 16, 7, 26, 12, 18, 6, 11, 5, 10, 9]"

definition bs_lsb :: "ulong \<Rightarrow> nat result" where
  "bs_lsb b = (let k = drop_bit 27 ((b AND - b) * 0x077CB531) in if k < 32 then Inr (lsb_index32 ! unat k) else Inl OutOfBounds)"

text \<open>The position of the first bit that is set, from \<open>index\<close> on; \<open>1 << 31\<close> is an \<open>int\<close>, so the mask is extended with ones.\<close>

fun bs_firstAfter_loop :: "nat \<Rightarrow> nat \<Rightarrow> ulong list \<Rightarrow> nat option result" where
  "bs_firstAfter_loop i indmask [] = Inr None"
| "bs_firstAfter_loop i indmask (w # ws) =
     (let v = w AND scast (NOT (push_bit (indmask mod 32) 1 - 1 :: cint))
      in if w \<noteq> 0 \<and> v \<noteq> 0 then res_bind (bs_lsb v) (\<lambda>k. Inr (Some (32 * i + k)))
         else bs_firstAfter_loop (Suc i) (indmask - 32) ws)"

definition bs_firstAfter :: "nat \<Rightarrow> bitstring \<Rightarrow> nat option result" where
  "bs_firstAfter index s = bs_firstAfter_loop (index div 32) (index mod 32) (drop (index div 32) (bs_B s))"

text \<open>The tables that \<open>setup\<close> fills; \<open>debruijn32 << i\<close> is computed in 32 bits there.\<close>

definition bi_index32 :: "nat list" where
  "bi_index32 = fold (\<lambda>i t. t[unat (drop_bit 27 (push_bit i 0x077CB531 :: 32 word)) := i]) [0..<32] (replicate 32 0)"

definition bi_lgtable :: "nat list" where
  "bi_lgtable = [0, 0, 1, 1, 2, 2, 2, 2, 3, 3, 3, 3, 3, 3, 3, 3]"

definition bi_lsb :: "ulong \<Rightarrow> nat result" where
  "bi_lsb b = (let k = drop_bit 27 ((b AND - b) * 0x077CB531) in if k < 32 then Inr (bi_index32 ! unat k) else Inl OutOfBounds)"

text \<open>One step of \<open>msb\<close>: the bits counted so far and the rest of the word.\<close>

definition msb_step :: "nat \<Rightarrow> nat \<times> ulong \<Rightarrow> nat \<times> ulong" where
  "msb_step n p = (if 2 ^ n \<le> snd p then (fst p + n, drop_bit n (snd p)) else p)"

definition bi_msb :: "ulong \<Rightarrow> nat result" where
  "bi_msb b =
     (let p = msb_step 4 (msb_step 8 (msb_step 16 (0, b)))
      in if snd p < 16 then Inr (fst p + bi_lgtable ! unat (snd p)) else Inl OutOfBounds)"

definition bi_on :: "nat \<Rightarrow> ulong" where
  "bi_on i = scast (push_bit i 1 :: cint)"

definition bi_off :: "nat \<Rightarrow> ulong" where
  "bi_off i = NOT (bi_on i)"

definition bi_set :: "ulong \<Rightarrow> nat \<Rightarrow> ulong" where
  "bi_set b i = b OR bi_on i"

definition bi_reset :: "ulong \<Rightarrow> nat \<Rightarrow> ulong" where
  "bi_reset b i = b AND bi_off i"

section \<open>lsb is right for the bits 0 to 5 only\<close>

text \<open>In 64 bits the product is not cut to 32: from bit 6 on the index leaves the table.\<close>

lemma lowest_split:
  assumes "bit b k" and "\<And>j. j < k \<Longrightarrow> \<not> bit b j"
  shows "(b :: ulong) AND - b = push_bit k 1"
proof -
  let ?h = "b AND NOT (mask (Suc k))"
  have k: "k < 64" using assms(1) bit_imp_le_length [of b k] by simp
  have h: "bit ?h n \<longleftrightarrow> bit b n \<and> k < n" for n
    using bit_imp_le_length [of b n] by (auto simp: bit_and_iff bit_not_iff bit_mask_iff less_Suc_eq_le not_le)
  have above: "bit b n \<Longrightarrow> n = k \<or> k < n" for n using assms(2) by (meson nat_neq_iff)
  have "b = ?h OR push_bit k 1"
    by (rule bit_word_eqI) (use assms(1) k above in \<open>auto simp: bit_or_iff h bit_push1 simp del: push_bit_of_1\<close>)
  also have "\<dots> = ?h + push_bit k 1" by (rule disjunctive_add [symmetric]) (simp add: h bit_push1 del: push_bit_of_1)
  finally have "b - 1 = ?h + mask k" by (simp add: mask_eq_exp_minus_1 push_bit_eq_mult)
  also have "\<dots> = ?h OR mask k" by (rule disjunctive_add) (simp add: h bit_mask_iff)
  finally have "- b = NOT (?h OR mask k)" by (simp add: minus_eq_not_minus_1)
  then show ?thesis using assms(1) k above
    by (intro bit_word_eqI) (auto simp: bit_and_iff bit_not_iff bit_or_iff h bit_push1 bit_mask_iff simp del: push_bit_of_1)
qed

lemma shifted_index:
  assumes "6 \<le> k" and "k < 64"
  shows "\<not> drop_bit 27 (push_bit k 0x077CB531 :: ulong) < 32"
proof
  define w where "w = drop_bit 27 (push_bit k 0x077CB531 :: ulong)"
  assume "drop_bit 27 (push_bit k 0x077CB531 :: ulong) < 32"
  then have small: "unat w < 2 ^ 5" by (simp add: w_def word_less_nat_alt)
  have w: "bit w j \<longleftrightarrow> j + 27 < 64 \<and> k \<le> j + 27 \<and> bit (0x077CB531 :: ulong) (j + 27 - k)" for j
    unfolding w_def by (auto simp: bit_drop_bit_eq bit_push_bit_iff add.commute simp del: bit_numeral_simps)
  have b: "bit (0x077CB531 :: ulong) 0" "bit (0x077CB531 :: ulong) 26" by simp_all
  show False
  proof (cases "k < 32")
    case True
    have "bit w (k - 1)" unfolding w using b(2) True assms by simp
    from bit_below [OF small this] assms show False by simp
  next
    case False
    have "bit w (k - 27)" unfolding w using b(1) False assms by simp
    from bit_below [OF small this] False show False by simp
  qed
qed

lemma index32_eq: "bi_index32 = lsb_index32"
  by code_simp

theorem bs_lsb_exact:
  assumes "bit b k" and "\<And>j. j < k \<Longrightarrow> \<not> bit b j"
  shows "bs_lsb b = (if k < 6 then Inr k else Inl OutOfBounds)" "bi_lsb b = bs_lsb b"
proof -
  have k: "k < 64" using assms(1) bit_imp_le_length [of b k] by simp
  have b: "bs_lsb b = (let i = drop_bit 27 (push_bit k 0x077CB531 :: ulong) in if i < 32 then Inr (lsb_index32 ! unat i) else Inl OutOfBounds)"
    by (simp only: bs_lsb_def lowest_split [OF assms] push_bit_eq_mult mult_1 mult.commute [of "0x077CB531"])
  show "bs_lsb b = (if k < 6 then Inr k else Inl OutOfBounds)"
  proof (cases "k < 6")
    case True
    then have "k \<in> {0, 1, 2, 3, 4, 5}" by auto
    then show ?thesis unfolding b by (auto simp: lsb_index32_def)
  qed (use b shifted_index [of k] k in simp)
  show "bi_lsb b = bs_lsb b" by (simp only: bi_lsb_def bs_lsb_def index32_eq)
qed

lemma lgtable: "n < 16 \<Longrightarrow> n \<noteq> 0 \<Longrightarrow> 2 ^ (bi_lgtable ! n) \<le> n \<and> n < 2 ^ Suc (bi_lgtable ! n)"
  by (auto simp: bi_lgtable_def less_Suc_eq numeral_eq_Suc)

lemma msb_step_rest:
  assumes "n < 64"
  shows "\<exists>d. fst (msb_step n p) = fst p + d \<and> unat (snd (msb_step n p)) = unat (snd p) div 2 ^ d \<and> (0 < unat (snd p) \<longrightarrow> 0 < unat (snd (msb_step n p)))
     \<and> (unat (snd p) < 2 ^ n * 2 ^ n \<longrightarrow> unat (snd (msb_step n p)) < 2 ^ n) \<and> (2 ^ n * 2 ^ n \<le> unat (snd p) \<longrightarrow> 2 ^ n \<le> unat (snd (msb_step n p)))"
proof -
  have "unat (2 ^ n :: ulong) = 2 ^ n" using unat_push1 [OF assms] by simp
  then have le: "2 ^ n \<le> snd p \<longleftrightarrow> 2 ^ n \<le> unat (snd p)" by (simp add: word_le_nat_alt)
  have d: "unat (drop_bit n (snd p)) = unat (snd p) div 2 ^ n" by (rule unat_drop_div)
  show ?thesis
  proof (cases "2 ^ n \<le> unat (snd p)")
    case True
    then show ?thesis using le d by (intro exI [of _ n]) (auto simp: msb_step_def div_less_iff_less_mult div_greater_zero_iff less_eq_div_iff_mult_less_eq)
  next
    case False
    have "(2 ^ n :: nat) \<le> 2 ^ n * 2 ^ n" by simp
    with False have "\<not> 2 ^ n * 2 ^ n \<le> unat (snd p)" by linarith
    with False show ?thesis using le by (intro exI [of _ 0]) (auto simp: msb_step_def)
  qed
qed

theorem bi_msb_exact:
  assumes "b \<noteq> 0"
  shows "if unat b < 2 ^ 32 then \<exists>n. bi_msb b = Inr n \<and> 2 ^ n \<le> unat b \<and> unat b < 2 ^ Suc n else bi_msb b = Inl OutOfBounds"
proof -
  define p1 where "p1 = msb_step 16 (0, b)"
  define p2 where "p2 = msb_step 8 p1"
  define p3 where "p3 = msb_step 4 p2"
  have msb: "bi_msb b = (if snd p3 < 16 then Inr (fst p3 + bi_lgtable ! unat (snd p3)) else Inl OutOfBounds)"
    by (simp add: bi_msb_def p1_def p2_def p3_def Let_def)
  have b: "0 < unat b" using assms by (simp add: unat_gt_0)
  obtain d1 where d1: "fst p1 = d1" "unat (snd p1) = unat b div 2 ^ d1" "0 < unat (snd p1)" "unat b < 2 ^ 32 \<longrightarrow> unat (snd p1) < 2 ^ 16" "2 ^ 32 \<le> unat b \<longrightarrow> 2 ^ 16 \<le> unat (snd p1)"
    using msb_step_rest [of 16 "(0, b)"] b by (auto simp: p1_def)
  obtain d2 where d2: "fst p2 = d1 + d2" "unat (snd p2) = unat (snd p1) div 2 ^ d2" "0 < unat (snd p2)" "unat (snd p1) < 2 ^ 16 \<longrightarrow> unat (snd p2) < 2 ^ 8" "2 ^ 16 \<le> unat (snd p1) \<longrightarrow> 2 ^ 8 \<le> unat (snd p2)"
    using msb_step_rest [of 8 p1] d1(1,3) by (auto simp: p2_def)
  obtain d3 where d3: "fst p3 = d1 + d2 + d3" "unat (snd p3) = unat (snd p2) div 2 ^ d3" "0 < unat (snd p3)" "unat (snd p2) < 2 ^ 8 \<longrightarrow> unat (snd p3) < 2 ^ 4" "2 ^ 8 \<le> unat (snd p2) \<longrightarrow> 2 ^ 4 \<le> unat (snd p3)"
    using msb_step_rest [of 4 p2] d2(1,3) by (auto simp: p3_def)
  let ?l = "fst p3" and ?c = "unat (snd p3)"
  have c: "?c = unat b div 2 ^ ?l" using d1(2) d2(2) d3(1,2) by (simp add: div_mult2_eq power_add)
  have lt: "snd p3 < 16 \<longleftrightarrow> ?c < 16" by (simp add: word_less_nat_alt)
  show ?thesis
  proof (cases "unat b < 2 ^ 32")
    case True
    then have small: "?c < 16" using d1(4) d2(4) d3(4) by simp
    let ?n = "bi_lgtable ! ?c"
    have n: "2 ^ ?n \<le> ?c" "?c < 2 ^ Suc ?n" using lgtable [OF small] d3(3) by simp_all
    have "2 ^ (?l + ?n) \<le> unat b" using n(1) unfolding c by (simp add: less_eq_div_iff_mult_less_eq power_add mult.commute)
    moreover have "unat b < 2 ^ Suc (?l + ?n)" using n(2) unfolding c by (simp add: div_less_iff_less_mult power_add mult.commute mult.left_commute)
    ultimately show ?thesis using True small lt by (simp add: msb)
  next
    case False
    then have "16 \<le> ?c" using d1(5) d2(5) d3(5) by simp
    then show ?thesis using False lt by (simp add: msb)
  qed
qed

section \<open>allocate is a search for the first fit\<close>

definition is_free :: "bitstring \<Rightarrow> nat \<Rightarrow> bool" where
  "is_free s i = (\<not> bit (bs_B s ! (i div 32)) (i mod 32))"

text \<open>A run may start at \<open>p\<close>: no bit of it that is in the map is taken.\<close>

definition may_start :: "nat \<Rightarrow> bitstring \<Rightarrow> nat \<Rightarrow> bool" where
  "may_start len s p = (is_free s p \<and> (\<forall>j<len. p + j < 32 * length (bs_B s) \<longrightarrow> is_free s (p + j)))"

lemma bs_get_eq: "bs_get i s = (if i < 32 * length (bs_B s) then Inr (\<not> is_free s i) else Inl OutOfBounds)"
proof -
  have "i div 32 < length (bs_B s) \<longleftrightarrow> i < 32 * length (bs_B s)" by (metis div_less_iff_less_mult mult.commute zero_less_numeral)
  then show ?thesis by (simp add: bs_get_def is_free_def and_push1 [of "i mod 32"] and.commute del: push_bit_of_1)
qed

lemma align_up_least:
  assumes "p \<le> q" and "al dvd q" and "\<And>r. p \<le> r \<Longrightarrow> r < q \<Longrightarrow> \<not> al dvd r"
  shows "align_up al p = Some q"
  using assms
proof (induction "q - p" arbitrary: p)
  case 0
  then show ?case by (subst align_up.simps) (auto simp: dvd_eq_mod_eq_0)
next
  case (Suc d)
  have "align_up al (Suc p) = Some q" by (rule Suc.hyps(1)) (use Suc.hyps(2) Suc.prems in auto)
  moreover have "p mod al \<noteq> 0" using Suc.prems(3) [of p] Suc.hyps(2) by (auto simp: dvd_eq_mod_eq_0)
  ultimately show ?case by (subst align_up.simps) simp
qed

lemma align_up_spec:
  assumes "0 < al"
  obtains q where "align_up al p = Some q" "p \<le> q" "al dvd q" "\<And>r. p \<le> r \<Longrightarrow> r < q \<Longrightarrow> \<not> al dvd r"
proof -
  let ?q = "LEAST q. p \<le> q \<and> al dvd q"
  have "p \<le> p * al \<and> al dvd p * al" using assms by simp
  then have "p \<le> ?q \<and> al dvd ?q" by (rule LeastI)
  moreover have "p \<le> r \<Longrightarrow> r < ?q \<Longrightarrow> \<not> al dvd r" for r using not_less_Least by blast
  ultimately show thesis using that align_up_least [of p ?q al] by blast
qed

lemma find_skip: "p \<le> q \<Longrightarrow> (\<And>r. p \<le> r \<Longrightarrow> r < q \<Longrightarrow> \<not> P r) \<Longrightarrow> find P [p..<N] = find P [q..<N]"
proof (induction "q - p" arbitrary: p)
  case (Suc d)
  then have "find P [Suc p..<N] = find P [q..<N]" "\<not> P p" by simp_all
  then show ?case using Suc(2,3) by (cases "p < N") (simp_all add: upt_conv_Cons)
qed simp

lemma in_map: "i div 32 < n \<longleftrightarrow> i < 32 * n" for n :: nat
  by (metis div_less_iff_less_mult mult.commute zero_less_numeral)

lemma bs_taken_spec:
  "(case bs_taken p j n s of
      Inl e \<Rightarrow> e = OutOfBounds \<and> 32 * length (bs_B s) < p + j + n \<and> (\<forall>i. j \<le> i \<and> p + i < 32 * length (bs_B s) \<longrightarrow> is_free s (p + i))
    | Inr None \<Rightarrow> (\<forall>i. j \<le> i \<and> i < j + n \<longrightarrow> p + i < 32 * length (bs_B s) \<and> is_free s (p + i))
    | Inr (Some i) \<Rightarrow> j \<le> i \<and> i < j + n \<and> p + i < 32 * length (bs_B s) \<and> \<not> is_free s (p + i))"
proof (induction n arbitrary: j)
  case (Suc n)
  consider "32 * length (bs_B s) \<le> p + j" | "p + j < 32 * length (bs_B s)" "\<not> is_free s (p + j)" | "p + j < 32 * length (bs_B s)" "is_free s (p + j)"
    by linarith
  then show ?case
  proof cases
    case 3
    have "j \<le> i \<longleftrightarrow> i = j \<or> Suc j \<le> i" for i by auto
    with Suc.IH [of "Suc j"] 3 show ?thesis by (auto simp: bs_get_eq split: sum.splits option.splits)
  qed (auto simp: bs_get_eq)
qed (simp, auto)

definition bs_first :: "nat \<Rightarrow> nat \<Rightarrow> nat \<Rightarrow> bitstring \<Rightarrow> nat \<Rightarrow> nat option result" where
  "bs_first N len al s p =
     (case find (\<lambda>q. al dvd q \<and> may_start len s q) [p..<N] of
        None \<Rightarrow> Inr None
      | Some q \<Rightarrow> if q + len \<le> 32 * length (bs_B s) then Inr (Some q) else Inl OutOfBounds)"

lemma bs_first_skip: "p \<le> q \<Longrightarrow> (\<And>r. p \<le> r \<Longrightarrow> r < q \<Longrightarrow> al dvd r \<Longrightarrow> \<not> may_start len s r) \<Longrightarrow> bs_first N len al s p = bs_first N len al s q"
  unfolding bs_first_def using find_skip [of p q "\<lambda>q. al dvd q \<and> may_start len s q" N] by simp

lemma bs_search_first:
  assumes "0 < al" and "al dvd p" and N: "N \<le> 32 * length (bs_B s)"
  shows "bs_search N len al s p = Some (bs_first N len al s p)"
  using assms(2)
proof (induction "N - p" arbitrary: p rule: less_induct)
  case less
  show ?case
  proof (cases "N \<le> p")
    case True
    then show ?thesis by (subst bs_search.simps) (simp add: bs_first_def)
  next
    case False
    then have p: "p < 32 * length (bs_B s)" "\<not> length (bs_B s) \<le> p div 32" using N in_map [of p] by (simp_all add: not_le)
    have next_multiple: "al dvd r \<Longrightarrow> p < r \<Longrightarrow> p + al \<le> r" for r
      using less.prems by (metis dvd_diff_nat dvd_imp_le le_add_diff_inverse less_imp_le nat_add_left_cancel_le zero_less_diff)
    have skip: "bs_search N len al s q = Some (bs_first N len al s p)" if "al dvd q" "p < q" "\<And>r. p \<le> r \<Longrightarrow> r < q \<Longrightarrow> al dvd r \<Longrightarrow> \<not> may_start len s r" for q
      using less.hyps [of q] bs_first_skip [of p q al len s N] that False by simp
    consider (whole) "bs_B s ! (p div 32) = ALL_ALLOCATED" | (taken) "bs_B s ! (p div 32) \<noteq> ALL_ALLOCATED" "\<not> is_free s p"
      | (free) "bs_B s ! (p div 32) \<noteq> ALL_ALLOCATED" "is_free s p" by blast
    then show ?thesis
    proof cases
      case whole
      obtain q where q: "align_up al ((p div 32 + 1) * 32) = Some q" "(p div 32 + 1) * 32 \<le> q" "al dvd q" "\<And>r. (p div 32 + 1) * 32 \<le> r \<Longrightarrow> r < q \<Longrightarrow> \<not> al dvd r"
        using align_up_spec [OF assms(1), of "(p div 32 + 1) * 32"] by metis
      have "\<not> is_free s r" if "p \<le> r" "r < (p div 32 + 1) * 32" for r
      proof -
        have "r div 32 = p div 32" using that by (metis Suc_eq_plus1 div_le_mono le_antisym less_Suc_eq_le less_mult_imp_div_less)
        then show ?thesis using whole by (simp add: is_free_def ALL_ALLOCATED_def)
      qed
      then have "\<not> may_start len s r" if "p \<le> r" "r < q" "al dvd r" for r
        using q(4) [of r] that by (cases "r < (p div 32 + 1) * 32") (auto simp: may_start_def)
      moreover have "p < q" using q(2) by (metis Suc_eq_plus1 dividend_less_div_times less_le_trans mult_Suc zero_less_numeral add.commute)
      ultimately show ?thesis using skip [OF q(3)] q(1) whole p(2) False by (subst bs_search.simps) simp
    next
      case taken
      have "\<not> may_start len s r" if "p \<le> r" "r < p + al" "al dvd r" for r
        using that next_multiple [of r] taken(2) by (cases "r = p") (auto simp: may_start_def)
      with skip [of "p + al"] less.prems assms(1) show ?thesis using taken p False
        by (subst bs_search.simps) (simp add: bs_get_eq)
    next
      case free
      then have ng: "bs_get p s \<noteq> Inr True" by (simp add: bs_get_eq)
      note sp = bs_taken_spec [where p = p and j = 0 and n = len and s = s]
      show ?thesis
      proof (cases "bs_taken p 0 len s")
        case (Inl e)
        then have e: "e = OutOfBounds" "32 * length (bs_B s) < p + len" "may_start len s p" using sp free(2) by (auto simp: may_start_def)
        have "bs_first N len al s p = Inl OutOfBounds" using e(2,3) less.prems False by (simp add: bs_first_def upt_conv_Cons)
        then show ?thesis using Inl e(1) False p(2) free(1) ng by (subst bs_search.simps) simp
      next
        case (Inr t)
        show ?thesis
        proof (cases t)
          case None
          then have m: "may_start len s p" "p + len \<le> 32 * length (bs_B s)" using sp Inr p(1) free(2)
            by (auto simp: may_start_def) (metis add.right_neutral le_add_diff_inverse less_imp_le not_less add_less_cancel_left)
          have "bs_first N len al s p = Inr (Some p)" using m less.prems False by (simp add: bs_first_def upt_conv_Cons)
          then show ?thesis using Inr None False p(2) free(1) ng by (subst bs_search.simps) simp
        next
          case (Some i)
          then have i: "i < len" "p + i < 32 * length (bs_B s)" "\<not> is_free s (p + i)" using sp Inr by auto
          obtain q where q: "align_up al (p + i) = Some q" "p + i \<le> q" "al dvd q" "\<And>r. p + i \<le> r \<Longrightarrow> r < q \<Longrightarrow> \<not> al dvd r"
            using align_up_spec [OF assms(1), of "p + i"] by metis
          have "i \<noteq> 0" using i(3) free(2) by (cases i) auto
          moreover have "\<not> may_start len s r" if "p \<le> r" "r < q" "al dvd r" for r
          proof -
            have "r < p + i" using q(4) [of r] that by (meson not_less)
            then have "p + i - r < len" "r + (p + i - r) = p + i" using that(1) i(1) by simp_all
            then show ?thesis using i(2,3) unfolding may_start_def by metis
          qed
          ultimately show ?thesis using skip [OF q(3)] q(1,2) Inr Some False p(2) free(1) ng by (subst bs_search.simps) simp
        qed
      qed
    qed
  qed
qed

text \<open>Setting and resetting bits.\<close>

definition same_map :: "bitstring \<Rightarrow> bitstring \<Rightarrow> bool" where
  "same_map s s' \<longleftrightarrow> length (bs_B s') = length (bs_B s) \<and> (bs_firstPos s = 0 \<longrightarrow> bs_firstPos s' = 0)"

lemma same_place: "i div 32 = k div 32 \<and> i mod 32 = k mod 32 \<longleftrightarrow> i = k" for i k :: nat
  by (metis div_mult_mod_eq)

lemma bs_set_bit:
  assumes "i < 32 * length (bs_B s)"
  shows "\<exists>s'. bs_set i s = Inr s' \<and> same_map s s' \<and> (\<forall>k. is_free s' k \<longleftrightarrow> is_free s k \<and> k \<noteq> i)"
proof -
  have i: "i div 32 < length (bs_B s)" using assms by (simp add: in_map)
  have "bit ((bs_B s)[i div 32 := bs_B s ! (i div 32) OR push_bit (i mod 32) 1] ! (k div 32)) (k mod 32)
     \<longleftrightarrow> bit (bs_B s ! (k div 32)) (k mod 32) \<or> k = i" for k
    using i same_place [of i k] by (auto simp: nth_list_update bit_or_iff bit_push1 simp del: push_bit_of_1)
  then show ?thesis using i by (simp add: bs_set_def same_map_def is_free_def Let_def del: push_bit_of_1)
qed

lemma bs_reset_bit:
  assumes "i < 32 * length (bs_B s)"
  shows "\<exists>s'. bs_reset i s = Inr s' \<and> same_map s s' \<and> (\<forall>k. is_free s' k \<longleftrightarrow> is_free s k \<or> k = i)"
proof -
  have i: "i div 32 < length (bs_B s)" using assms by (simp add: in_map)
  have m: "bit (ucast (NOT (push_bit (i mod 32) 1) :: 32 word) :: ulong) j \<longleftrightarrow> j < 32 \<and> j \<noteq> i mod 32" for j
    by (auto simp: bit_ucast_iff bit_not_iff bit_push_bit_iff bit_1_iff simp del: push_bit_of_1)
  have "bit ((bs_B s)[i div 32 := bs_B s ! (i div 32) AND ucast (NOT (push_bit (i mod 32) 1) :: 32 word)] ! (k div 32)) (k mod 32)
     \<longleftrightarrow> bit (bs_B s ! (k div 32)) (k mod 32) \<and> k \<noteq> i" for k
    using i same_place [of i k] by (auto simp: nth_list_update bit_and_iff m simp del: push_bit_of_1)
  then show ?thesis using i by (simp add: bs_reset_def same_map_def is_free_def del: push_bit_of_1)
qed

lemma bs_claim_run:
  assumes "p + n \<le> 32 * length (bs_B s)"
  shows "\<exists>s'. bs_claim p n s = Inr s' \<and> same_map s s' \<and> (\<forall>k. is_free s' k \<longleftrightarrow> is_free s k \<and> \<not> (p \<le> k \<and> k < p + n))"
  using assms
proof (induction n arbitrary: p s)
  case (Suc n)
  obtain s1 where s1: "bs_set p s = Inr s1" "same_map s s1" "\<forall>k. is_free s1 k \<longleftrightarrow> is_free s k \<and> k \<noteq> p"
    using bs_set_bit [of p s] Suc.prems by auto
  have "Suc p + n \<le> 32 * length (bs_B s1)" using Suc.prems s1(2) by (simp add: same_map_def)
  from Suc.IH [OF this] obtain s2 where "bs_claim (Suc p) n s1 = Inr s2" "same_map s1 s2"
    and s2: "\<forall>k. is_free s2 k \<longleftrightarrow> is_free s1 k \<and> \<not> (Suc p \<le> k \<and> k < Suc p + n)" by blast
  moreover have "is_free s2 k \<longleftrightarrow> is_free s k \<and> \<not> (p \<le> k \<and> k < p + Suc n)" for k
    using s2 [THEN spec, of k] s1(3) [THEN spec, of k] by (auto simp: Suc_le_eq nat_less_le)
  ultimately show ?case using s1(1,2) by (simp add: same_map_def)
qed (simp add: same_map_def not_less [symmetric])

theorem bs_free_run:
  assumes "p + n \<le> 32 * length (bs_B s)"
  shows "\<exists>s'. bs_free p n s = Inr s' \<and> same_map s s' \<and> (\<forall>k. is_free s' k \<longleftrightarrow> is_free s k \<or> p \<le> k \<and> k < p + n)"
  using assms
proof (induction n arbitrary: p s)
  case (Suc n)
  obtain s1 where s1: "bs_reset p s = Inr s1" "same_map s s1" "\<forall>k. is_free s1 k \<longleftrightarrow> is_free s k \<or> k = p"
    using bs_reset_bit [of p s] Suc.prems by auto
  have "Suc p + n \<le> 32 * length (bs_B s1)" using Suc.prems s1(2) by (simp add: same_map_def)
  from Suc.IH [OF this] obtain s2 where "bs_free (Suc p) n s1 = Inr s2" "same_map s1 s2"
    and s2: "\<forall>k. is_free s2 k \<longleftrightarrow> is_free s1 k \<or> Suc p \<le> k \<and> k < Suc p + n" by blast
  moreover have "is_free s2 k \<longleftrightarrow> is_free s k \<or> p \<le> k \<and> k < p + Suc n" for k
    using s2 [THEN spec, of k] s1(3) [THEN spec, of k] by (auto simp: Suc_le_eq nat_less_le)
  ultimately show ?case using s1(1,2) by (simp add: same_map_def)
qed (simp add: same_map_def not_less [symmetric])

theorem bs_allocate_first_fit:
  assumes "0 < al" and "N \<le> 32 * length (bs_B s)" and "bs_firstPos s = 0"
  shows "case bs_first N len al s 0 of
      Inl e \<Rightarrow> bs_allocate N len al s = Some (Inl e)
    | Inr None \<Rightarrow> bs_allocate N len al s = Some (Inr (None, s))
    | Inr (Some p) \<Rightarrow> \<exists>s'. bs_allocate N len al s = Some (Inr (Some p, s')) \<and> same_map s s'
        \<and> (\<forall>k. is_free s' k \<longleftrightarrow> is_free s k \<and> \<not> (p \<le> k \<and> k < p + len))"
proof -
  have s: "bs_search N len al s (bs_firstPos s) = Some (bs_first N len al s 0)"
    using bs_search_first [OF assms(1) _ assms(2), of 0 len] assms(3) by simp
  show ?thesis
  proof (cases "bs_first N len al s 0")
    case (Inr q)
    show ?thesis
    proof (cases q)
      case (Some p)
      then have "p + len \<le> 32 * length (bs_B s)" using Inr by (auto simp: bs_first_def split: option.splits if_splits)
      from bs_claim_run [OF this] show ?thesis using s Inr Some by (auto simp: bs_allocate_def)
    qed (use s Inr in \<open>simp add: bs_allocate_def\<close>)
  qed (use s in \<open>simp add: bs_allocate_def\<close>)
qed

text \<open>At the end of the map the search reads beyond it: a single free bit at the end is enough for a request of two.\<close>

lemma bs_allocate_overruns:
  assumes "0 < L" and "\<And>i. i < 32 * L \<Longrightarrow> is_free s i \<longleftrightarrow> i = 32 * L - 1" and "length (bs_B s) = L" and "bs_firstPos s = 0"
  shows "bs_allocate (32 * L) 2 1 s = Some (Inl OutOfBounds)"
proof -
  have m: "may_start 2 s i \<longleftrightarrow> i = 32 * L - 1" if "i < 32 * L" for i
  proof
    show "may_start 2 s i \<Longrightarrow> i = 32 * L - 1" using assms(2) that by (simp add: may_start_def)
    assume i: "i = 32 * L - 1"
    have "is_free s (i + j)" if "j < 2" "i + j < 32 * length (bs_B s)" for j
      using assms(2) [of "i + j"] that i assms(3) by auto
    moreover have "is_free s i" using assms(2) that i by simp
    ultimately show "may_start 2 s i" by (simp add: may_start_def)
  qed
  have "find (\<lambda>q. 1 dvd q \<and> may_start 2 s q) [0..<32 * L] = find (\<lambda>q. 1 dvd q \<and> may_start 2 s q) [32 * L - 1..<32 * L]"
    by (rule find_skip) (use m in auto)
  also have "[32 * L - 1..<32 * L] = [32 * L - 1]" using assms(1) by (simp add: upt_conv_Cons)
  finally have "bs_first (32 * L) 2 1 s 0 = Inl OutOfBounds" using m [of "32 * L - 1"] assms(1,3) by (simp add: bs_first_def)
  then show ?thesis using bs_allocate_first_fit [of 1 "32 * L" s 2] assms(3,4) by simp
qed

section \<open>firstAfter\<close>

lemma mask_from: "m < 32 \<Longrightarrow> j < 64 \<Longrightarrow> bit (scast (NOT (push_bit m 1 - 1 :: cint)) :: ulong) j \<longleftrightarrow> m \<le> j"
proof -
  assume m: "m < 32" and j: "j < 64"
  have "push_bit m 1 - 1 = (mask m :: cint)" by (simp add: mask_eq_exp_minus_1 push_bit_eq_mult)
  then show ?thesis using m j by (auto simp: bit_signed_iff bit_not_iff bit_mask_iff min_def)
qed

lemma find_shift: "find P [n + l..<n + m] = map_option (\<lambda>k. n + k) (find (\<lambda>k. P (n + k)) [l..<m])"
proof -
  have "[n + l..<n + m] = map (\<lambda>k. n + k) [l..<m]" by (induction m) auto
  moreover have "find P (map f xs) = map_option f (find (\<lambda>k. P (f k)) xs)" for f and xs :: "nat list" by (induction xs) auto
  ultimately show ?thesis by simp
qed

lemma upt_split: "i \<le> j \<Longrightarrow> j \<le> k \<Longrightarrow> [i..<k] = [i..<j] @ [j..<k]"
  by (metis le_add_diff_inverse upt_add_eq_append)

lemma find_append: "find P (xs @ ys) = (case find P xs of None \<Rightarrow> find P ys | Some x \<Rightarrow> Some x)"
  by (induction xs) auto

definition bs_next :: "nat \<Rightarrow> nat \<Rightarrow> ulong list \<Rightarrow> nat option result" where
  "bs_next i m ws =
     (case find (\<lambda>p. bit (ws ! (p div 32)) (p mod 32)) [m..<32 * length ws] of
        None \<Rightarrow> Inr None | Some p \<Rightarrow> if p mod 32 < 6 then Inr (Some (32 * i + p)) else Inl OutOfBounds)"

lemma firstAfter_loop_next:
  assumes "m < 32" and "\<forall>w\<in>set ws. \<forall>j. bit w j \<longrightarrow> j < 32"
  shows "bs_firstAfter_loop i m ws = bs_next i m ws"
  using assms
proof (induction ws arbitrary: i m)
  case (Cons w ws)
  let ?P = "\<lambda>p. bit ((w # ws) ! (p div 32)) (p mod 32)"
  define v where "v = w AND scast (NOT (push_bit (m mod 32) 1 - 1 :: cint))"
  have v: "bit v j \<longleftrightarrow> bit w j \<and> m \<le> j" for j
    using mask_from [of m j] Cons.prems bit_imp_le_length [of w j] by (auto simp: v_def bit_and_iff)
  have low: "?P p \<longleftrightarrow> bit w p" if "p < 32" for p using that by simp
  have split: "[m..<32 * length (w # ws)] = [m..<32] @ [32..<32 + 32 * length ws]" using Cons.prems(1) by (subst upt_split [of m 32]) (use Cons.prems(1) in simp_all)
  have "m - 32 = 0" using Cons.prems(1) by simp
  then have step: "bs_firstAfter_loop i m (w # ws) = (if w \<noteq> 0 \<and> v \<noteq> 0 then res_bind (bs_lsb v) (\<lambda>k. Inr (Some (32 * i + k))) else bs_firstAfter_loop (Suc i) 0 ws)"
    by (simp only: bs_firstAfter_loop.simps Let_def v_def)
  show ?case
  proof (cases "v = 0")
    case True
    have "find ?P [m..<32] = None" unfolding find_None_iff using v low True by (auto simp del: nth_Cons_numeral)
    then have "find ?P [m..<32 * length (w # ws)] = map_option (\<lambda>k. 32 + k) (find (\<lambda>p. bit (ws ! (p div 32)) (p mod 32)) [0..<32 * length ws])"
      unfolding split using div_add_self1 [of "32 :: nat"] by (simp add: find_append find_shift [of _ 32 0, simplified])
    then have "bs_next i m (w # ws) = bs_next (Suc i) 0 ws" unfolding bs_next_def
      by (simp only:) (cases "find (\<lambda>p. bit (ws ! (p div 32)) (p mod 32)) [0..<32 * length ws]", simp_all)
    moreover have "bs_firstAfter_loop i m (w # ws) = bs_firstAfter_loop (Suc i) 0 ws" unfolding step using True by simp
    ultimately show ?thesis using Cons.IH [of 0 "Suc i"] Cons.prems(2) by simp
  next
    case False
    then obtain j where "bit v j" by (metis bit_0_eq bit_word_eqI bot_apply bot_bool_def)
    define k where "k = (LEAST j. bit v j)"
    have k: "bit v k" "\<And>j. j < k \<Longrightarrow> \<not> bit v j" using LeastI [of "bit v" j] not_less_Least \<open>bit v j\<close> by (auto simp: k_def)
    have k32: "k < 32" "m \<le> k" using v k(1) Cons.prems(2) by auto
    have "[m..<32] = [m..<k] @ k # [Suc k..<32]" using k32 by (metis upt_split upt_conv_Cons less_imp_le)
    moreover have "find ?P [m..<k] = None" unfolding find_None_iff using v k(2) low k32 by (auto simp del: nth_Cons_numeral)
    moreover have "?P k" using low [OF k32(1)] k(1) v by blast
    ultimately have "find ?P [m..<32 * length (w # ws)] = Some k" unfolding split by (simp add: find_append)
    then have "bs_next i m (w # ws) = (if k < 6 then Inr (Some (32 * i + k)) else Inl OutOfBounds)" unfolding bs_next_def using k32 by simp
    moreover have "w \<noteq> 0" using v k(1) by auto
    ultimately show ?thesis unfolding step using False bs_lsb_exact(1) [OF k] by simp
  qed
qed (simp add: bs_next_def)

theorem bs_firstAfter_exact:
  assumes "\<forall>w\<in>set (bs_B s). \<forall>j. bit w j \<longrightarrow> j < 32" and "index < 32 * length (bs_B s)"
  shows "bs_firstAfter index s =
     (case find (\<lambda>p. \<not> is_free s p) [index..<32 * length (bs_B s)] of
        None \<Rightarrow> Inr None | Some p \<Rightarrow> if p mod 32 < 6 then Inr (Some p) else Inl OutOfBounds)"
proof -
  let ?d = "index div 32" and ?m = "index mod 32" and ?L = "length (bs_B s)"
  have d: "?d \<le> ?L" using assms(2) by linarith
  have ix: "index = 32 * ?d + ?m" "32 * ?L = 32 * ?d + 32 * (?L - ?d)" using d by simp_all
  have "find (\<lambda>p. \<not> is_free s p) [index..<32 * ?L] = find (\<lambda>p. \<not> is_free s p) [32 * ?d + ?m..<32 * ?d + 32 * (?L - ?d)]"
    using ix by metis
  also have "\<dots> = map_option (\<lambda>k. 32 * ?d + k) (find (\<lambda>k. \<not> is_free s (32 * ?d + k)) [?m..<32 * (?L - ?d)])" by (rule find_shift)
  also have "(\<lambda>k. \<not> is_free s (32 * ?d + k)) = (\<lambda>k. bit (drop ?d (bs_B s) ! (k div 32)) (k mod 32))"
    using d by (simp add: is_free_def fun_eq_iff add.commute)
  finally have f: "find (\<lambda>p. \<not> is_free s p) [index..<32 * ?L] = map_option (\<lambda>k. 32 * ?d + k) (find (\<lambda>k. bit (drop ?d (bs_B s) ! (k div 32)) (k mod 32)) [?m..<32 * (?L - ?d)])" .
  have "\<forall>w\<in>set (drop ?d (bs_B s)). \<forall>j. bit w j \<longrightarrow> j < 32" using assms(1) by (meson in_set_dropD)
  from firstAfter_loop_next [OF _ this, of ?m ?d] show ?thesis
    unfolding f by (simp add: bs_firstAfter_def bs_next_def split: option.split)
qed

end
