(* ===== verification/Treap.thy ===== *)
theory Treap
  imports Prelude "HOL-Library.Tree"
begin

text \<open>
  \<open>Treap\<close> of \<open>src/include/heaplayers/experimental/treap.h\<close>: a search tree over the keys that is a heap over the priorities, with the least priority at the root. The
  nodes are linked by pointers to parent and children; a node lives in memory that the caller provides. Loops follow these pointers, so that
  they are partial; they end on every well-formed tree.
\<close>

section \<open>Nodes\<close>

record ('k, 'v) tnode =
  tn_priority :: "32 word"
  tn_key :: 'k
  tn_value :: 'v
  tn_parent :: ptr
  tn_left :: ptr
  tn_right :: ptr

record ('k, 'v) treap =
  tr_root :: ptr
  tr_nodes :: "nat \<Rightarrow> ('k, 'v) tnode"

definition t_init :: "(nat \<Rightarrow> ('k, 'v) tnode) \<Rightarrow> ('k, 'v) treap" where
  "t_init ns = \<lparr>tr_root = None, tr_nodes = ns\<rparr>"

definition t_upd :: "nat \<Rightarrow> (('k, 'v) tnode \<Rightarrow> ('k, 'v) tnode) \<Rightarrow> ('k, 'v) treap \<Rightarrow> ('k, 'v) treap" where
  "t_upd a f tr = tr\<lparr>tr_nodes := (tr_nodes tr)(a := f (tr_nodes tr a))\<rparr>"

section \<open>Rotations\<close>

text \<open>The pointer to \<open>n\<close> in its parent, or the root, becomes \<open>r\<close>.\<close>

definition t_relink :: "ptr \<Rightarrow> nat \<Rightarrow> ptr \<Rightarrow> ('k, 'v) treap \<Rightarrow> ('k, 'v) treap" where
  "t_relink up n r tr =
     (case up of
        None \<Rightarrow> tr\<lparr>tr_root := r\<rparr>
      | Some q \<Rightarrow> if tn_left (tr_nodes tr q) = Some n then t_upd q (\<lambda>x. x\<lparr>tn_left := r\<rparr>) tr else t_upd q (\<lambda>x. x\<lparr>tn_right := r\<rparr>) tr)"

definition rotateLeft :: "nat \<Rightarrow> ('k, 'v) treap \<Rightarrow> ('k, 'v) treap result" where
  "rotateLeft n tr =
     res_bind (deref (tn_right (tr_nodes tr n))) (\<lambda>r.
       let tr1 = t_upd n (\<lambda>x. x\<lparr>tn_right := tn_left (tr_nodes tr r)\<rparr>) tr;
           tr2 = (case tn_left (tr_nodes tr1 r) of None \<Rightarrow> tr1 | Some b \<Rightarrow> t_upd b (\<lambda>x. x\<lparr>tn_parent := Some n\<rparr>) tr1);
           tr3 = t_upd r (\<lambda>x. x\<lparr>tn_parent := tn_parent (tr_nodes tr2 n)\<rparr>) tr2;
           tr4 = t_relink (tn_parent (tr_nodes tr3 n)) n (Some r) tr3;
           tr5 = t_upd r (\<lambda>x. x\<lparr>tn_left := Some n\<rparr>) tr4
       in Inr (t_upd n (\<lambda>x. x\<lparr>tn_parent := Some r\<rparr>) tr5))"

definition rotateRight :: "nat \<Rightarrow> ('k, 'v) treap \<Rightarrow> ('k, 'v) treap result" where
  "rotateRight n tr =
     res_bind (deref (tn_left (tr_nodes tr n))) (\<lambda>l.
       let tr1 = t_upd n (\<lambda>x. x\<lparr>tn_left := tn_right (tr_nodes tr l)\<rparr>) tr;
           tr2 = (case tn_right (tr_nodes tr1 l) of None \<Rightarrow> tr1 | Some b \<Rightarrow> t_upd b (\<lambda>x. x\<lparr>tn_parent := Some n\<rparr>) tr1);
           tr3 = t_upd l (\<lambda>x. x\<lparr>tn_parent := tn_parent (tr_nodes tr2 n)\<rparr>) tr2;
           tr4 = t_relink (tn_parent (tr_nodes tr3 n)) n (Some l) tr3;
           tr5 = t_upd l (\<lambda>x. x\<lparr>tn_right := Some n\<rparr>) tr4
       in Inr (t_upd n (\<lambda>x. x\<lparr>tn_parent := Some l\<rparr>) tr5))"

section \<open>Search\<close>

partial_function (option) lookup_loop :: "'k::linorder \<Rightarrow> (nat \<Rightarrow> ('k, 'v) tnode) \<Rightarrow> ptr \<Rightarrow> ptr option" where
  "lookup_loop k ns p =
     (if p = None \<or> tn_key (ns (the p)) = k then Some p
      else if k < tn_key (ns (the p)) then lookup_loop k ns (tn_left (ns (the p)))
      else lookup_loop k ns (tn_right (ns (the p))))"

definition t_lookup :: "'k::linorder \<Rightarrow> ('k, 'v) treap \<Rightarrow> ptr option" where
  "t_lookup k tr = lookup_loop k (tr_nodes tr) (tr_root tr)"

partial_function (option) lookupGeq :: "'k::linorder \<Rightarrow> (nat \<Rightarrow> ('k, 'v) tnode) \<Rightarrow> ptr \<Rightarrow> ptr \<Rightarrow> ptr option" where
  "lookupGeq k ns best p =
     (if p = None then Some best
      else if tn_key (ns (the p)) = k then Some p
      else if tn_key (ns (the p)) < k then lookupGeq k ns best (tn_right (ns (the p)))
      else lookupGeq k ns (if best = None \<or> tn_key (ns (the p)) < tn_key (ns (the best)) then p else best) (tn_left (ns (the p))))"

definition lookupGreater :: "'k::linorder \<Rightarrow> ('k, 'v) treap \<Rightarrow> ptr option" where
  "lookupGreater k tr = lookupGeq k (tr_nodes tr) None (tr_root tr)"

section \<open>Insertion and removal\<close>

text \<open>The node below which a new key goes.\<close>

partial_function (option) t_descend :: "'k::linorder \<Rightarrow> (nat \<Rightarrow> ('k, 'v) tnode) \<Rightarrow> ptr \<Rightarrow> ptr \<Rightarrow> ptr option" where
  "t_descend k ns up p =
     (if p = None then Some up
      else t_descend k ns p (if k < tn_key (ns (the p)) then tn_left (ns (the p)) else tn_right (ns (the p))))"

partial_function (option) rotate_up :: "nat \<Rightarrow> ptr \<Rightarrow> ('k, 'v) treap \<Rightarrow> ('k, 'v) treap result option" where
  "rotate_up x up tr =
     (if up = None \<or> tn_priority (tr_nodes tr (the up)) \<le> tn_priority (tr_nodes tr x) then Some (Inr tr)
      else (case (if tn_left (tr_nodes tr (the up)) = Some x then rotateRight (the up) tr else rotateLeft (the up) tr) of
              Inl e \<Rightarrow> Some (Inl e)
            | Inr tr1 \<Rightarrow> rotate_up x (tn_parent (tr_nodes tr1 x)) tr1))"

definition t_insert :: "nat \<Rightarrow> 'k::linorder \<Rightarrow> 'v \<Rightarrow> 32 word \<Rightarrow> ('k, 'v) treap \<Rightarrow> ('k, 'v) treap result option" where
  "t_insert n k v pr tr =
     Option.bind (t_descend k (tr_nodes tr) None (tr_root tr)) (\<lambda>up.
       let tr1 = t_upd n (\<lambda>_. \<lparr>tn_priority = pr, tn_key = k, tn_value = v, tn_parent = up, tn_left = None, tn_right = None\<rparr>) tr;
           tr2 = (case up of
                    None \<Rightarrow> tr1\<lparr>tr_root := Some n\<rparr>
                  | Some q \<Rightarrow> if k < tn_key (tr_nodes tr1 q) then t_upd q (\<lambda>x. x\<lparr>tn_left := Some n\<rparr>) tr1 else t_upd q (\<lambda>x. x\<lparr>tn_right := Some n\<rparr>) tr1)
       in rotate_up n up tr2)"

partial_function (option) rotate_down :: "nat \<Rightarrow> ('k, 'v) treap \<Rightarrow> ('k, 'v) treap result option" where
  "rotate_down x tr =
     (let l = tn_left (tr_nodes tr x); r = tn_right (tr_nodes tr x) in
      if l = None \<and> r = None then Some (Inr tr)
      else (case (if r = None then rotateRight x tr
                  else if l = None then rotateLeft x tr
                  else if tn_priority (tr_nodes tr (the l)) < tn_priority (tr_nodes tr (the r)) then rotateRight x tr
                  else rotateLeft x tr) of
              Inl e \<Rightarrow> Some (Inl e)
            | Inr tr1 \<Rightarrow> rotate_down x tr1))"

definition t_remove :: "ptr \<Rightarrow> ('k, 'v) treap \<Rightarrow> (ptr \<times> ('k, 'v) treap) result option" where
  "t_remove p tr =
     (case p of
        None \<Rightarrow> Some (Inr (None, tr))
      | Some x \<Rightarrow> map_option (\<lambda>r. res_bind r (\<lambda>tr1. Inr (Some x, t_relink (tn_parent (tr_nodes tr1 x)) x None tr1))) (rotate_down x tr))"

text \<open>The order in which the destructor deletes the nodes, and in which they are printed.\<close>

partial_function (option) deleteTreap :: "(nat \<Rightarrow> ('k, 'v) tnode) \<Rightarrow> ptr \<Rightarrow> nat list option" where
  "deleteTreap ns p =
     (if p = None then Some []
      else Option.bind (deleteTreap ns (tn_left (ns (the p)))) (\<lambda>xs.
           Option.bind (deleteTreap ns (tn_right (ns (the p)))) (\<lambda>ys. Some (xs @ ys @ [the p]))))"

partial_function (option) reallyPrint :: "(nat \<Rightarrow> ('k, 'v) tnode) \<Rightarrow> ptr \<Rightarrow> 'k list option" where
  "reallyPrint ns p =
     (if p = None then Some []
      else Option.bind (reallyPrint ns (tn_left (ns (the p)))) (\<lambda>xs.
           Option.bind (reallyPrint ns (tn_right (ns (the p)))) (\<lambda>ys. Some (xs @ tn_key (ns (the p)) # ys))))"

text \<open>
  The two tests that \<open>insert\<close> and \<open>remove\<close> call in comments. The bounds are \<open>int\<close>, while priorities are unsigned: C converts the bound. \<open>bstProperty\<close> is given for
  the key type \<open>size_t\<close> of the one use of the class.
\<close>

partial_function (option) heapProperty :: "(nat \<Rightarrow> ('k, 'v) tnode) \<Rightarrow> ptr \<Rightarrow> cint \<Rightarrow> bool option" where
  "heapProperty ns p lbound =
     (if p = None then Some True
      else if tn_priority (ns (the p)) < lbound then Some False
      else Option.bind (heapProperty ns (tn_left (ns (the p))) (tn_priority (ns (the p)))) (\<lambda>b.
           if \<not> b then Some False else heapProperty ns (tn_right (ns (the p))) (tn_priority (ns (the p)))))"

partial_function (option) bstProperty :: "(nat \<Rightarrow> (ulong, 'v) tnode) \<Rightarrow> ptr \<Rightarrow> cint \<Rightarrow> cint \<Rightarrow> bool option" where
  "bstProperty ns p lbound ubound =
     (if p = None then Some True
      else if tn_key (ns (the p)) < scast lbound \<or> scast ubound < tn_key (ns (the p)) then Some False
      else Option.bind (bstProperty ns (tn_left (ns (the p))) lbound (ucast (tn_key (ns (the p))))) (\<lambda>b.
           if \<not> b then Some False else bstProperty ns (tn_right (ns (the p))) (ucast (tn_key (ns (the p)))) ubound))"

section \<open>The linked nodes as a tree\<close>

fun tlinked :: "(nat \<Rightarrow> ('k, 'v) tnode) \<Rightarrow> ptr \<Rightarrow> ptr \<Rightarrow> nat tree \<Rightarrow> bool" where
  "tlinked ns up p Leaf \<longleftrightarrow> p = None"
| "tlinked ns up p (Node l a r) \<longleftrightarrow> p = Some a \<and> tn_parent (ns a) = up \<and> tlinked ns (Some a) (tn_left (ns a)) l \<and> tlinked ns (Some a) (tn_right (ns a)) r"

text \<open>The way from a subtree up to the root: on which side it hangs, below which node, and the other subtree of that node.\<close>

type_synonym zipper = "(bool \<times> nat \<times> nat tree) list"

fun plug :: "zipper \<Rightarrow> nat tree \<Rightarrow> nat tree" where
  "plug [] t = t"
| "plug ((d, a, s) # c) t = plug c (if d then Node t a s else Node s a t)"

fun ctx :: "(nat \<Rightarrow> ('k, 'v) tnode) \<Rightarrow> ptr \<Rightarrow> zipper \<Rightarrow> ptr \<Rightarrow> ptr \<Rightarrow> bool" where
  "ctx ns rt [] up p \<longleftrightarrow> up = None \<and> p = rt"
| "ctx ns rt ((d, a, s) # c) up p \<longleftrightarrow> up = Some a
     \<and> (if d then tn_left (ns a) = p \<and> tlinked ns (Some a) (tn_right (ns a)) s else tn_right (ns a) = p \<and> tlinked ns (Some a) (tn_left (ns a)) s)
     \<and> ctx ns rt c (tn_parent (ns a)) (Some a)"

fun zaddrs :: "zipper \<Rightarrow> nat list" where
  "zaddrs [] = []"
| "zaddrs ((d, a, s) # c) = a # inorder s @ zaddrs c"

text \<open>The treap, seen from a subtree.\<close>

definition focus :: "('k, 'v) treap \<Rightarrow> zipper \<Rightarrow> nat tree \<Rightarrow> bool" where
  "focus tr c t \<longleftrightarrow> (\<exists>up p. ctx (tr_nodes tr) (tr_root tr) c up p \<and> tlinked (tr_nodes tr) up p t) \<and> distinct (zaddrs c @ inorder t)"

lemma focus_frame: "focus tr ((d, a, s) # c) t \<longleftrightarrow> focus tr c (if d then Node t a s else Node s a t)"
  by (auto simp: focus_def)

lemma focus_plug: "focus tr c t \<longleftrightarrow> focus tr [] (plug c t)"
proof (induction c arbitrary: t)
  case (Cons x c)
  obtain d a s where "x = (d, a, s)" by (cases x)
  with Cons [of "if d then Node t a s else Node s a t"] show ?case by (simp add: focus_frame)
qed simp

definition same_shape :: "nat set \<Rightarrow> (nat \<Rightarrow> ('k, 'v) tnode) \<Rightarrow> (nat \<Rightarrow> ('k, 'v) tnode) \<Rightarrow> bool" where
  "same_shape A ns ns' \<longleftrightarrow> (\<forall>a\<in>A. tn_parent (ns' a) = tn_parent (ns a) \<and> tn_left (ns' a) = tn_left (ns a) \<and> tn_right (ns' a) = tn_right (ns a))"

lemma tlinked_same: "tlinked ns up p t \<Longrightarrow> same_shape (set_tree t) ns ns' \<Longrightarrow> tlinked ns' up p t"
  by (induction t arbitrary: up p) (auto simp: same_shape_def)

lemma tlinked_root: "tlinked ns up p t \<Longrightarrow> p = (case t of Leaf \<Rightarrow> None | Node l a r \<Rightarrow> Some a)"
  by (cases t) auto

lemma ctx_same: "ctx ns rt c up p \<Longrightarrow> same_shape (set (zaddrs c)) ns ns' \<Longrightarrow> ctx ns' rt c up p"
proof (induction c arbitrary: up p)
  case (Cons x c)
  obtain d a s where x: "x = (d, a, s)" by (cases x)
  have "same_shape (set_tree s) ns ns'" "same_shape (set (zaddrs c)) ns ns'" using Cons.prems(2) x by (auto simp: same_shape_def)
  with Cons.prems x Cons.IH show ?case by (auto simp: same_shape_def intro: tlinked_same)
qed simp

text \<open>A new parent pointer for the root of a subtree.\<close>

lemma tlinked_moved:
  fixes ns ns' :: "nat \<Rightarrow> ('k, 'v) tnode"
  assumes "tlinked ns up p t" and "distinct (inorder t)"
    and "\<And>a. a \<in> set_tree t \<Longrightarrow> tn_left (ns' a) = tn_left (ns a) \<and> tn_right (ns' a) = tn_right (ns a)
      \<and> tn_parent (ns' a) = (if p = Some a then up' else tn_parent (ns a))"
  shows "tlinked ns' up' p t"
proof (cases t)
  case (Node l a r)
  have sub: "same_shape (set_tree l \<union> set_tree r) ns ns'" using assms Node by (auto simp: same_shape_def)
  then have "same_shape (set_tree l) ns ns'" "same_shape (set_tree r) ns ns'" by (auto simp: same_shape_def)
  with assms(1,3) Node show ?thesis by (auto intro: tlinked_same)
qed (use assms(1) in simp)

lemma ctx_relink:
  assumes "ctx (tr_nodes tr) (tr_root tr) c up (Some n)" and "distinct (zaddrs c)" and "n \<notin> set (zaddrs c)"
  shows "ctx (tr_nodes (t_relink up n r tr)) (tr_root (t_relink up n r tr)) c up r"
proof (cases c)
  case (Cons x c')
  obtain d a s where x: "x = (d, a, s)" by (cases x)
  have up: "up = Some a" and rest: "ctx (tr_nodes tr) (tr_root tr) c' (tn_parent (tr_nodes tr a)) (Some a)" using assms(1) Cons x by auto
  have side: "tn_left (tr_nodes tr a) = Some n \<longleftrightarrow> d"
  proof (cases d)
    case False
    with assms(1) Cons x have "tlinked (tr_nodes tr) (Some a) (tn_left (tr_nodes tr a)) s" by simp
    with assms(3) Cons x False show ?thesis by (cases s) auto
  qed (use assms(1) Cons x in simp)
  let ?ns = "tr_nodes (t_relink up n r tr)"
  have "same_shape (set_tree s) (tr_nodes tr) ?ns" "same_shape (set (zaddrs c')) (tr_nodes tr) ?ns"
    using assms(2) Cons x by (auto simp: same_shape_def t_relink_def t_upd_def up)
  then show ?thesis using assms(1) Cons x side rest by (auto simp: t_relink_def t_upd_def intro: tlinked_same ctx_same)
qed (use assms(1) in \<open>simp add: t_relink_def\<close>)

lemma relink_other: "ctx (tr_nodes tr) rt c up p \<Longrightarrow> same_shape (- set (zaddrs c)) (tr_nodes tr) (tr_nodes (t_relink up n r tr))"
  by (cases c) (auto simp: same_shape_def t_relink_def t_upd_def)

text \<open>Keys, values and priorities stay where they are.\<close>

definition same_data :: "('k, 'v) treap \<Rightarrow> ('k, 'v) treap \<Rightarrow> bool" where
  "same_data tr tr' \<longleftrightarrow> (\<forall>a. tn_key (tr_nodes tr' a) = tn_key (tr_nodes tr a) \<and> tn_value (tr_nodes tr' a) = tn_value (tr_nodes tr a)
     \<and> tn_priority (tr_nodes tr' a) = tn_priority (tr_nodes tr a))"

lemma same_data_refl: "same_data tr tr"
  by (simp add: same_data_def)

lemma same_data_trans: "same_data tr tr' \<Longrightarrow> same_data tr' tr'' \<Longrightarrow> same_data tr tr''"
  by (simp add: same_data_def)

lemma same_data_upd: "(\<And>x. tn_key (f x) = tn_key x \<and> tn_value (f x) = tn_value x \<and> tn_priority (f x) = tn_priority x) \<Longrightarrow> same_data tr (t_upd a f tr)"
  by (simp add: same_data_def t_upd_def)

lemma same_data_relink: "same_data tr (t_relink up n r tr)"
  by (auto simp: same_data_def t_relink_def t_upd_def split: option.splits)

text \<open>Both rotations at once: \<open>d\<close> says on which side the subtrees hang.\<close>

definition kid :: "bool \<Rightarrow> ('k, 'v) tnode \<Rightarrow> ptr" where
  "kid d x = (if d then tn_left x else tn_right x)"

definition branch :: "bool \<Rightarrow> nat tree \<Rightarrow> nat \<Rightarrow> nat tree \<Rightarrow> nat tree" where
  "branch d x a y = (if d then Node x a y else Node y a x)"

lemma tlinked_branch: "tlinked ns up p (branch d x a y) \<longleftrightarrow> p = Some a \<and> tn_parent (ns a) = up
    \<and> tlinked ns (Some a) (kid d (ns a)) x \<and> tlinked ns (Some a) (kid (\<not> d) (ns a)) y"
  by (auto simp: branch_def kid_def)

lemma same_shape_kid: "same_shape A ns ns' \<longleftrightarrow>
    (\<forall>a\<in>A. tn_parent (ns' a) = tn_parent (ns a) \<and> kid d (ns' a) = kid d (ns a) \<and> kid (\<not> d) (ns' a) = kid (\<not> d) (ns a))"
  by (auto simp: same_shape_def kid_def)

lemma rotate_core:
  fixes tr tr3 tr4 tr6 :: "('k, 'v) treap"
  defines "ns \<equiv> tr_nodes tr"
  assumes cx: "ctx ns (tr_root tr) c up (Some n)" and li: "tlinked ns up (Some n) (branch d l n (branch d m r e))"
    and dist: "distinct (zaddrs c @ n # r # inorder l @ inorder m @ inorder e)" and b: "b = kid d (ns r)"
    and ns3: "\<And>a. kid d (tr_nodes tr3 a) = kid d (ns a) \<and> kid (\<not> d) (tr_nodes tr3 a) = (if a = n then b else kid (\<not> d) (ns a))
      \<and> tn_parent (tr_nodes tr3 a) = (if a = r then up else if b = Some a then Some n else tn_parent (ns a))" "tr_root tr3 = tr_root tr"
    and tr4: "tr4 = t_relink up n (Some r) tr3"
    and n6: "\<And>a. kid d (tr_nodes tr6 a) = (if a = r then Some n else kid d (tr_nodes tr4 a)) \<and> kid (\<not> d) (tr_nodes tr6 a) = kid (\<not> d) (tr_nodes tr4 a)
      \<and> tn_parent (tr_nodes tr6 a) = (if a = n then Some r else tn_parent (tr_nodes tr4 a))" "tr_root tr6 = tr_root tr4"
  shows "focus tr6 c (branch d (branch d l n m) r e)"
proof -
  let ?n6 = "tr_nodes tr6"
  have mb: "tlinked ns (Some r) b m" using li b by (simp add: tlinked_branch)
  have bm: "b = Some a \<Longrightarrow> a \<in> set_tree m" for a using tlinked_root [OF mb] by (auto split: tree.splits)
  have parts: "n \<notin> set (zaddrs c)" "r \<notin> set (zaddrs c)" "set_tree m \<inter> set (zaddrs c) = {}" "n \<noteq> r" "b \<noteq> Some n" "b \<noteq> Some r"
    using dist bm by auto
  have "same_shape (set (zaddrs c)) ns (tr_nodes tr3)" unfolding same_shape_kid [where d = d] using ns3(1) parts bm by auto
  then have c3: "ctx (tr_nodes tr3) (tr_root tr3) c up (Some n)" using ctx_same [OF cx] ns3(2) by simp
  have c4: "ctx (tr_nodes tr4) (tr_root tr4) c up (Some r)" unfolding tr4 by (rule ctx_relink [OF c3]) (use dist in auto)
  have o4: "same_shape (- set (zaddrs c)) (tr_nodes tr3) (tr_nodes tr4)" unfolding tr4 by (rule relink_other [OF c3])
  have "same_shape (set (zaddrs c)) (tr_nodes tr4) ?n6" unfolding same_shape_kid [where d = d] using n6 parts by auto
  then have c6: "ctx ?n6 (tr_root tr6) c up (Some r)" using ctx_same [OF c4] n6(2) by simp
  have val: "kid d (?n6 a) = (if a = r then Some n else kid d (ns a))" "kid (\<not> d) (?n6 a) = (if a = n then b else kid (\<not> d) (ns a))"
    "tn_parent (?n6 a) = (if a = n then Some r else if a = r then up else if b = Some a then Some n else tn_parent (ns a))" if "a \<notin> set (zaddrs c)" for a
    using o4 that ns3(1) [of a] n6(1) [of a] unfolding same_shape_kid [where d = d] by auto
  have far: "a \<notin> set (zaddrs c) \<and> a \<noteq> n \<and> a \<noteq> r \<and> b \<noteq> Some a" if "a \<in> set_tree l \<union> set_tree e" for a
    using that dist bm [of a] by auto
  have "same_shape (set_tree l) ns ?n6" "same_shape (set_tree e) ns ?n6"
    unfolding same_shape_kid [where d = d] using val far by simp_all
  then have le: "tlinked ?n6 (Some n) (kid d (ns n)) l" "tlinked ?n6 (Some r) (kid (\<not> d) (ns r)) e" using li by (auto simp: tlinked_branch intro: tlinked_same)
  have m6: "tlinked ?n6 (Some n) b m"
  proof (rule tlinked_moved [OF mb])
    fix a assume "a \<in> set_tree m"
    then have "a \<notin> set (zaddrs c)" "a \<noteq> n" "a \<noteq> r" using dist by auto
    then have "kid d (?n6 a) = kid d (ns a)" "kid (\<not> d) (?n6 a) = kid (\<not> d) (ns a)" "tn_parent (?n6 a) = (if b = Some a then Some n else tn_parent (ns a))"
      using val by simp_all
    then show "tn_left (?n6 a) = tn_left (ns a) \<and> tn_right (?n6 a) = tn_right (ns a) \<and> tn_parent (?n6 a) = (if b = Some a then Some n else tn_parent (ns a))"
      by (auto simp: kid_def split: if_splits)
  qed (use dist in simp)
  have "tlinked ?n6 up (Some r) (branch d (branch d l n m) r e)" using le m6 val parts by (simp add: tlinked_branch)
  with c6 show ?thesis using dist by (auto simp: focus_def branch_def)
qed

lemma rotateLeft_focus:
  assumes "focus tr c (Node l n (Node m r e))"
  shows "\<exists>tr'. rotateLeft n tr = Inr tr' \<and> focus tr' c (Node (Node l n m) r e) \<and> same_data tr tr'"
proof -
  let ?ns = "tr_nodes tr"
  obtain up where cx: "ctx ?ns (tr_root tr) c up (Some n)" and li: "tlinked ?ns up (Some n) (branch True l n (branch True m r e))"
    using assms by (auto simp: focus_def branch_def)
  have dist: "distinct (zaddrs c @ n # r # inorder l @ inorder m @ inorder e)" using assms by (auto simp: focus_def)
  define b where "b = tn_left (?ns r)"
  define tr1 where "tr1 = t_upd n (\<lambda>x. x\<lparr>tn_right := b\<rparr>) tr"
  define tr2 where "tr2 = (case b of None \<Rightarrow> tr1 | Some b \<Rightarrow> t_upd b (\<lambda>x. x\<lparr>tn_parent := Some n\<rparr>) tr1)"
  define tr3 where "tr3 = t_upd r (\<lambda>x. x\<lparr>tn_parent := up\<rparr>) tr2"
  define tr4 where "tr4 = t_relink up n (Some r) tr3"
  define tr6 where "tr6 = t_upd n (\<lambda>x. x\<lparr>tn_parent := Some r\<rparr>) (t_upd r (\<lambda>x. x\<lparr>tn_left := Some n\<rparr>) tr4)"
  have bm: "tlinked ?ns (Some r) b m" using li by (simp add: branch_def b_def)
  have nr: "n \<noteq> r" "b \<noteq> Some n" using dist tlinked_root [OF bm] by (auto split: tree.splits)
  have "focus tr6 c (branch True (branch True l n m) r e)"
    by (rule rotate_core [OF cx li dist _ _ _ tr4_def, of b])
      (use nr in \<open>auto simp: kid_def b_def tr6_def tr3_def tr2_def tr1_def t_upd_def split: option.splits\<close>)
  moreover have "rotateLeft n tr = Inr tr6"
  proof -
    have "tn_left (tr_nodes tr1 r) = b" by (simp add: tr1_def t_upd_def b_def)
    moreover have "tn_parent (tr_nodes tr2 n) = up" using nr li by (auto simp: branch_def tr2_def tr1_def t_upd_def split: option.splits)
    moreover have "tn_parent (tr_nodes tr3 n) = up" using calculation(2) nr by (simp add: tr3_def t_upd_def)
    moreover have "tn_right (?ns n) = Some r" using li by (simp add: branch_def)
    ultimately show ?thesis unfolding rotateLeft_def
      by (simp add: Let_def tr6_def tr4_def tr3_def tr2_def tr1_def b_def cong: option.case_cong)
  qed
  moreover have "same_data tr tr6"
    unfolding tr6_def tr4_def tr3_def tr2_def tr1_def
    by (auto simp: same_data_def t_upd_def t_relink_def split: option.splits)
  ultimately show ?thesis by (auto simp: branch_def)
qed

lemma rotateRight_focus:
  assumes "focus tr c (Node (Node e r m) n l)"
  shows "\<exists>tr'. rotateRight n tr = Inr tr' \<and> focus tr' c (Node e r (Node m n l)) \<and> same_data tr tr'"
proof -
  let ?ns = "tr_nodes tr"
  obtain up where cx: "ctx ?ns (tr_root tr) c up (Some n)" and li: "tlinked ?ns up (Some n) (branch False l n (branch False m r e))"
    using assms by (auto simp: focus_def branch_def)
  have dist: "distinct (zaddrs c @ n # r # inorder l @ inorder m @ inorder e)" using assms by (auto simp: focus_def)
  define b where "b = tn_right (?ns r)"
  define tr1 where "tr1 = t_upd n (\<lambda>x. x\<lparr>tn_left := b\<rparr>) tr"
  define tr2 where "tr2 = (case b of None \<Rightarrow> tr1 | Some b \<Rightarrow> t_upd b (\<lambda>x. x\<lparr>tn_parent := Some n\<rparr>) tr1)"
  define tr3 where "tr3 = t_upd r (\<lambda>x. x\<lparr>tn_parent := up\<rparr>) tr2"
  define tr4 where "tr4 = t_relink up n (Some r) tr3"
  define tr6 where "tr6 = t_upd n (\<lambda>x. x\<lparr>tn_parent := Some r\<rparr>) (t_upd r (\<lambda>x. x\<lparr>tn_right := Some n\<rparr>) tr4)"
  have bm: "tlinked ?ns (Some r) b m" using li by (simp add: branch_def b_def)
  have nr: "n \<noteq> r" "b \<noteq> Some n" using dist tlinked_root [OF bm] by (auto split: tree.splits)
  have "focus tr6 c (branch False (branch False l n m) r e)"
    by (rule rotate_core [OF cx li dist _ _ _ tr4_def, of b])
      (use nr in \<open>auto simp: kid_def b_def tr6_def tr3_def tr2_def tr1_def t_upd_def split: option.splits\<close>)
  moreover have "rotateRight n tr = Inr tr6"
  proof -
    have "tn_right (tr_nodes tr1 r) = b" by (simp add: tr1_def t_upd_def b_def)
    moreover have "tn_parent (tr_nodes tr2 n) = up" using nr li by (auto simp: branch_def tr2_def tr1_def t_upd_def split: option.splits)
    moreover have "tn_parent (tr_nodes tr3 n) = up" using calculation(2) nr by (simp add: tr3_def t_upd_def)
    moreover have "tn_left (?ns n) = Some r" using li by (simp add: branch_def)
    ultimately show ?thesis unfolding rotateRight_def
      by (simp add: Let_def tr6_def tr4_def tr3_def tr2_def tr1_def b_def cong: option.case_cong)
  qed
  moreover have "same_data tr tr6"
    unfolding tr6_def tr4_def tr3_def tr2_def tr1_def
    by (auto simp: same_data_def t_upd_def t_relink_def split: option.splits)
  ultimately show ?thesis by (auto simp: branch_def)
qed

section \<open>The heap order\<close>

fun hp :: "(nat \<Rightarrow> 'p::linorder) \<Rightarrow> nat tree \<Rightarrow> bool" where
  "hp pr Leaf = True"
| "hp pr (Node l a r) \<longleftrightarrow> (\<forall>b\<in>set_tree l \<union> set_tree r. pr a \<le> pr b) \<and> hp pr l \<and> hp pr r"

text \<open>The part above a subtree, when the nodes of \<open>B\<close> hang there.\<close>

fun hpc :: "(nat \<Rightarrow> 'p::linorder) \<Rightarrow> zipper \<Rightarrow> nat set \<Rightarrow> bool" where
  "hpc pr [] B = True"
| "hpc pr ((d, a, s) # c) B \<longleftrightarrow> (\<forall>b\<in>B \<union> set_tree s. pr a \<le> pr b) \<and> hp pr s \<and> hpc pr c (insert a (B \<union> set_tree s))"

lemma hp_plug: "hp pr (plug c t) \<longleftrightarrow> hp pr t \<and> hpc pr c (set_tree t)"
proof (induction c arbitrary: t)
  case (Cons x c)
  obtain d a s where x: "x = (d, a, s)" by (cases x)
  have "set_tree (if d then Node t a s else Node s a t) = insert a (set_tree t \<union> set_tree s)" by auto
  with Cons [of "if d then Node t a s else Node s a t"] x show ?case by auto
qed simp

lemma hpc_mono: "hpc pr c B \<Longrightarrow> B' \<subseteq> B \<Longrightarrow> hpc pr c B'"
proof (induction c arbitrary: B B')
  case (Cons x c)
  obtain d a s where x: "x = (d, a, s)" by (cases x)
  have "hpc pr c (insert a (B' \<union> set_tree s))" by (rule Cons.IH [of "insert a (B \<union> set_tree s)"]) (use Cons.prems x in auto)
  with Cons.prems x show ?case by auto
qed simp

lemma hpc_insert: "hpc pr c B \<Longrightarrow> b \<in> B \<Longrightarrow> pr b \<le> pr x \<Longrightarrow> hpc pr c (insert x B)"
proof (induction c arbitrary: B b)
  case (Cons y c)
  obtain d a s where y: "y = (d, a, s)" by (cases y)
  have "pr a \<le> pr x" using Cons.prems y by (auto intro: order_trans)
  moreover have "hpc pr c (insert x (insert a (B \<union> set_tree s)))" by (rule Cons.IH [of _ a]) (use Cons.prems y \<open>pr a \<le> pr x\<close> in auto)
  then have "hpc pr c (insert a (insert x B \<union> set_tree s))" by (simp add: insert_commute)
  ultimately show ?case using Cons.prems y by auto
qed simp

text \<open>The test of the heap property is exact, but with the bound \<open>INT_MIN\<close> that the comments name it rejects every treap whose root has a priority below 2^31.\<close>

lemma heapProperty_exact:
  "tlinked ns up p t \<Longrightarrow> heapProperty ns p b = Some (hp (\<lambda>a. tn_priority (ns a)) t \<and> (\<forall>a\<in>set_tree t. b \<le> tn_priority (ns a)))"
proof (induction t arbitrary: up p b)
  case (Node l a r)
  note IH = Node.IH(1) [of "Some a" "tn_left (ns a)" "tn_priority (ns a)"] Node.IH(2) [of "Some a" "tn_right (ns a)" "tn_priority (ns a)"]
  show ?case
    by (subst heapProperty.simps) (use IH Node.prems in \<open>auto simp: not_less intro: order_trans\<close>)
qed (simp add: heapProperty.simps)

lemma heapProperty_int_min: "tn_priority (ns a) < 0x80000000 \<Longrightarrow> heapProperty ns (Some a) 0x80000000 = Some False"
  by (subst heapProperty.simps) simp

text \<open>The test of the order is right for keys below 2^31 and bounds that are not negative.\<close>

lemma small_key:
  assumes "k < (0x80000000 :: ulong)"
  shows "scast (ucast k :: cint) = k"
proof -
  have u: "unat k < 2 ^ 31" using assms by (simp add: word_less_nat_alt)
  then have "unat (ucast k :: cint) = unat k" by (simp add: unsigned_ucast_eq take_bit_nat_eq_self)
  then have "sint (ucast k :: cint) = int (unat k)" using sint_small [of "ucast k"] u by simp
  then show ?thesis by (simp add: scast_eq)
qed

lemma bstProperty_exact:
  assumes "tlinked ns up p t" and "\<forall>a\<in>set_tree t. tn_key (ns a) < 0x80000000"
  shows "bstProperty ns p lb ub = Some (sorted (map (\<lambda>a. tn_key (ns a)) (inorder t)) \<and> (\<forall>a\<in>set_tree t. scast lb \<le> tn_key (ns a) \<and> tn_key (ns a) \<le> scast ub))"
  using assms
proof (induction t arbitrary: up p lb ub)
  case (Node l a r)
  let ?k = "tn_key (ns a)"
  note IH = Node.IH(1) [of "Some a" "tn_left (ns a)" lb "ucast ?k"] Node.IH(2) [of "Some a" "tn_right (ns a)" "ucast ?k" ub]
  have k: "scast (ucast ?k :: cint) = ?k" using Node.prems(2) by (intro small_key) simp
  show ?case
    by (subst bstProperty.simps)
      (use IH Node.prems in \<open>auto simp: k not_less sorted_append intro: order_trans\<close>)
qed (simp add: bstProperty.simps)

fun zleft :: "zipper \<Rightarrow> nat list" where
  "zleft [] = []"
| "zleft ((d, a, s) # c) = zleft c @ (if d then [] else inorder s @ [a])"

fun zright :: "zipper \<Rightarrow> nat list" where
  "zright [] = []"
| "zright ((d, a, s) # c) = (if d then a # inorder s else []) @ zright c"

lemma inorder_plug: "inorder (plug c t) = zleft c @ inorder t @ zright c"
proof (induction c arbitrary: t)
  case (Cons x c)
  obtain d a s where "x = (d, a, s)" by (cases x)
  with Cons [of "if d then Node t a s else Node s a t"] show ?case by simp
qed simp

section \<open>Rotating up\<close>

lemma focusD:
  assumes "focus tr c (Node l x r)"
  shows "tn_parent (tr_nodes tr x) = (case c of [] \<Rightarrow> None | (d, a, s) # _ \<Rightarrow> Some a)"
    "tn_left (tr_nodes tr x) = (case l of Leaf \<Rightarrow> None | Node _ a _ \<Rightarrow> Some a)" "tn_right (tr_nodes tr x) = (case r of Leaf \<Rightarrow> None | Node _ a _ \<Rightarrow> Some a)"
  using assms by (auto simp: focus_def dest!: tlinked_root split: list.splits)

lemma focus_side:
  assumes "focus tr ((d, a, s) # c) (Node l x r)"
  shows "tn_left (tr_nodes tr a) = Some x \<longleftrightarrow> d"
proof -
  have "focus tr c (if d then Node (Node l x r) a s else Node s a (Node l x r))" 
    using assms by (simp add: focus_frame)
  moreover have "x \<notin> set_tree s" using assms by (auto simp: focus_def)
  ultimately show ?thesis using focusD(2) [of tr c "if d then Node l x r else s" a "if d then s else Node l x r"] by (auto split: if_splits tree.splits)
qed

lemma rotate_up_focus:
  fixes tr :: "('k, 'v) treap"
  defines "pr \<equiv> \<lambda>a. tn_priority (tr_nodes tr a)"
  assumes "focus tr c (Node l x r)" and "hp pr (Node l x r)" and "hpc pr c (set_tree l \<union> set_tree r)"
  shows "\<exists>tr' t. rotate_up x (case c of [] \<Rightarrow> None | (d, a, s) # _ \<Rightarrow> Some a) tr = Some (Inr tr') \<and> focus tr' [] t
     \<and> inorder t = inorder (plug c (Node l x r)) \<and> hp pr t \<and> same_data tr tr'"
  using assms
proof (induction c arbitrary: tr l r rule: length_induct)
  case (1 c)
  show ?case
  proof (cases c)
    case Nil
    have "rotate_up x None tr = Some (Inr tr)" by (simp add: rotate_up.simps)
    with Nil 1(3-) same_data_refl show ?thesis by fastforce
  next
    case (Cons y c')
    obtain d a s where y: "y = (d, a, s)" by (cases y)
    let ?pr = "\<lambda>a. tn_priority (tr_nodes tr a)"
    have f: "focus tr ((d, a, s) # c') (Node l x r)" using 1(3) Cons y by simp
    have h: "hp ?pr (Node l x r)" "\<forall>b\<in>set_tree l \<union> set_tree r \<union> set_tree s. ?pr a \<le> ?pr b" "hp ?pr s"
      "hpc ?pr c' (insert a (set_tree l \<union> set_tree r \<union> set_tree s))"
      using 1(2,4,5) Cons y by auto
    show ?thesis
    proof (cases "?pr a \<le> ?pr x")
      case True
      then have "rotate_up x (Some a) tr = Some (Inr tr)" by (simp add: rotate_up.simps)
      moreover have "hpc ?pr c' (insert x (insert a (set_tree l \<union> set_tree r \<union> set_tree s)))" by (rule hpc_insert [OF h(4) _ True]) simp
      then have "hpc ?pr c (set_tree (Node l x r))" using Cons y h(2,3) True by (simp add: insert_commute)
      then have "hp ?pr (plug c (Node l x r))" using h(1) by (simp only: hp_plug)
      moreover have "focus tr [] (plug c (Node l x r))" using 1(3) focus_plug by blast
      ultimately show ?thesis using 1(2) Cons y by (intro exI [of _ tr] exI [of _ "plug c (Node l x r)"]) (simp add: same_data_refl)
    next
      case False
      let ?t = "if d then Node l x (Node r a s) else Node (Node s a l) x r"
      have f': "focus tr c' (if d then Node (Node l x r) a s else Node s a (Node l x r))" using f by (simp add: focus_frame)
      obtain tr1 where tr1: "(if d then rotateRight a tr else rotateLeft a tr) = Inr tr1" "focus tr1 c' ?t" "same_data tr tr1"
        using rotateRight_focus [of tr c' l x r a s] rotateLeft_focus [of tr c' s a l x r] f' by (cases d) auto
      have same: "tn_priority (tr_nodes tr1 b) = ?pr b" for b using tr1(3) by (simp add: same_data_def)
      have up: "tn_parent (tr_nodes tr1 x) = (case c' of [] \<Rightarrow> None | (d, a, s) # _ \<Rightarrow> Some a)" using tr1(2) focusD(1) by (auto split: if_splits)
      have lt: "?pr x < ?pr a" using False by simp
      have ht: "hp ?pr ?t" using h(1-3) lt by (auto intro: order_trans [OF less_imp_le])
      have hc: "hpc ?pr c' (insert a (set_tree l \<union> set_tree r \<union> set_tree s))" by (rule h(4))
      obtain l' r' where lr: "?t = Node l' x r'" "set_tree l' \<union> set_tree r' = insert a (set_tree l \<union> set_tree r \<union> set_tree s)" by (cases d) auto
      have "length c' < length c" and pr1: "pr = (\<lambda>a. tn_priority (tr_nodes tr1 a))" using Cons 1(2) same by auto
      moreover have "focus tr1 c' (Node l' x r')" "hp pr (Node l' x r')" "hpc pr c' (set_tree l' \<union> set_tree r')"
        using tr1(2) ht hc lr 1(2) by simp_all
      ultimately have "\<exists>tr' t. rotate_up x (case c' of [] \<Rightarrow> None | (d, a, s) # _ \<Rightarrow> Some a) tr1 = Some (Inr tr') \<and> focus tr' [] t
         \<and> inorder t = inorder (plug c' (Node l' x r')) \<and> hp pr t \<and> same_data tr1 tr'"
        using 1(1) by blast
      then obtain tr' t where e: "rotate_up x (case c' of [] \<Rightarrow> None | (d, a, s) # _ \<Rightarrow> Some a) tr1 = Some (Inr tr')" "focus tr' [] t"
         "inorder t = inorder (plug c' (Node l' x r'))" "hp pr t" "same_data tr1 tr'" by blast
      have "rotate_up x (Some a) tr = rotate_up x (tn_parent (tr_nodes tr1 x)) tr1"
        by (subst rotate_up.simps) (use False focus_side [OF f] tr1(1) in auto)
      moreover have "inorder (plug c (Node l x r)) = inorder (plug c' ?t)" using Cons y by (simp add: inorder_plug)
      ultimately show ?thesis using e up lr Cons y 1(2) same_data_trans [OF tr1(3) e(5)] by auto
    qed
  qed
qed

section \<open>Insertion\<close>

definition treap_inv :: "('k::linorder, 'v) treap \<Rightarrow> nat tree \<Rightarrow> bool" where
  "treap_inv tr t \<longleftrightarrow> focus tr [] t \<and> hp (\<lambda>a. tn_priority (tr_nodes tr a)) t \<and> sorted (map (\<lambda>a. tn_key (tr_nodes tr a)) (inorder t))"

abbreviation up_of :: "zipper \<Rightarrow> ptr" where
  "up_of c \<equiv> (case c of [] \<Rightarrow> None | (d, a, s) # _ \<Rightarrow> Some a)"

lemma descend_focus:
  fixes tr :: "('k::linorder, 'v) treap"
  defines "key \<equiv> \<lambda>a. tn_key (tr_nodes tr a)"
  assumes "focus tr c t" and "sorted (map key (inorder (plug c t)))" and "\<forall>a\<in>set (zleft c). key a \<le> k" "\<forall>a\<in>set (zright c). k < key a"
    and "\<forall>d a s c0. c = (d, a, s) # c0 \<longrightarrow> d = (k < key a)"
  shows "\<exists>c'. t_descend k (tr_nodes tr) (up_of c) (case t of Leaf \<Rightarrow> None | Node l a r \<Rightarrow> Some a) = Some (up_of c') \<and> focus tr c' Leaf
     \<and> plug c' Leaf = plug c t \<and> (\<forall>a\<in>set (zleft c'). key a \<le> k) \<and> (\<forall>a\<in>set (zright c'). k < key a)
     \<and> (\<forall>d a s c0. c' = (d, a, s) # c0 \<longrightarrow> d = (k < key a))"
  using assms(2-)
proof (induction t arbitrary: c)
  case Leaf
  then show ?case by (intro exI [of _ c]) (simp add: t_descend.simps)
next
  case (Node l a r)
  let ?d = "k < key a"
  let ?c = "(?d, a, if ?d then r else l) # c" and ?t = "if ?d then l else r"
  have pl: "plug ?c ?t = plug c (Node l a r)" by simp
  have ord: "\<forall>b\<in>set_tree l. key b \<le> key a" "\<forall>b\<in>set_tree r. key a \<le> key b"
    using Node.prems(2) by (auto simp: inorder_plug sorted_append)
  have f: "focus tr ?c ?t" using Node.prems(1) by (simp add: focus_frame)
  have z: "\<forall>b\<in>set (zleft ?c). key b \<le> k" "\<forall>b\<in>set (zright ?c). k < key b" using Node.prems(3,4) ord by auto
  have next_d: "t_descend k (tr_nodes tr) (up_of c) (Some a) = t_descend k (tr_nodes tr) (up_of ?c) (case ?t of Leaf \<Rightarrow> None | Node l a r \<Rightarrow> Some a)"
    by (subst t_descend.simps) (use focusD(2,3) [OF Node.prems(1)] in \<open>simp add: key_def\<close>)
  have so: "sorted (map key (inorder (plug ?c ?t)))" using Node.prems(2) pl by simp
  have hd: "\<forall>d b s c0. ?c = (d, b, s) # c0 \<longrightarrow> d = (k < key b)" by simp
  show ?case
  proof (cases ?d)
    case True
    then have c: "?c = (True, a, r) # c" "?t = l" by simp_all
    from Node.IH(1) [OF f [unfolded c] so [unfolded c] z [unfolded c] hd [unfolded c]] show ?thesis
      unfolding next_d [unfolded c] pl [unfolded c] tree.case .
  next
    case False
    then have c: "?c = (False, a, l) # c" "?t = r" by simp_all
    from Node.IH(2) [OF f [unfolded c] so [unfolded c] z [unfolded c] hd [unfolded c]] show ?thesis
      unfolding next_d [unfolded c] pl [unfolded c] tree.case .
  qed
qed

lemma ctx_child:
  assumes "ctx (tr_nodes tr) (tr_root tr) ((d, a, s) # c) up p" and "distinct (zaddrs ((d, a, s) # c))"
  shows "ctx (tr_nodes (t_upd a (\<lambda>x. if d then x\<lparr>tn_left := r\<rparr> else x\<lparr>tn_right := r\<rparr>) tr)) (tr_root tr) ((d, a, s) # c) up r"
proof -
  let ?ns = "tr_nodes (t_upd a (\<lambda>x. if d then x\<lparr>tn_left := r\<rparr> else x\<lparr>tn_right := r\<rparr>) tr)"
  have "same_shape (set_tree s) (tr_nodes tr) ?ns" "same_shape (set (zaddrs c)) (tr_nodes tr) ?ns"
    using assms(2) by (auto simp: same_shape_def t_upd_def)
  then show ?thesis using assms(1) by (auto simp: t_upd_def intro: tlinked_same ctx_same)
qed

lemma hp_cong: "(\<And>a. a \<in> set_tree t \<Longrightarrow> pr a = pr' a) \<Longrightarrow> hp pr t = hp pr' t"
  by (induction t) auto

lemma set_plug: "set_tree (plug c t) = set (zaddrs c) \<union> set_tree t"
proof (induction c arbitrary: t)
  case (Cons x c)
  obtain d a s where "x = (d, a, s)" by (cases x)
  with Cons [of "if d then Node t a s else Node s a t"] show ?case by auto
qed simp

theorem t_insert_inv:
  assumes inv: "treap_inv tr t" and n: "n \<notin> set_tree t"
  shows "\<exists>tr' t' xs ys. t_insert n k v pr tr = Some (Inr tr') \<and> treap_inv tr' t' \<and> inorder t = xs @ ys \<and> inorder t' = xs @ n # ys
     \<and> tn_key (tr_nodes tr' n) = k \<and> tn_value (tr_nodes tr' n) = v \<and> tn_priority (tr_nodes tr' n) = pr
     \<and> (\<forall>a. a \<noteq> n \<longrightarrow> tn_key (tr_nodes tr' a) = tn_key (tr_nodes tr a) \<and> tn_value (tr_nodes tr' a) = tn_value (tr_nodes tr a)
          \<and> tn_priority (tr_nodes tr' a) = tn_priority (tr_nodes tr a))"
proof -
  let ?key = "\<lambda>a. tn_key (tr_nodes tr a)"
  have f: "focus tr [] t" and so: "sorted (map ?key (inorder t))" and h: "hp (\<lambda>a. tn_priority (tr_nodes tr a)) t"
    using inv by (simp_all add: treap_inv_def)
  from f obtain p where p: "tr_root tr = p" "tlinked (tr_nodes tr) None p t" by (auto simp: focus_def)
  from descend_focus [OF f, of k] so obtain c where d: "t_descend k (tr_nodes tr) None p = Some (up_of c)" "focus tr c Leaf"
     "plug c Leaf = t" "\<forall>a\<in>set (zleft c). ?key a \<le> k" "\<forall>a\<in>set (zright c). k < ?key a" "\<forall>d a s c0. c = (d, a, s) # c0 \<longrightarrow> d = (k < ?key a)"
    using tlinked_root [OF p(2)] by auto
  define new where "new = \<lparr>tn_priority = pr, tn_key = k, tn_value = v, tn_parent = up_of c, tn_left = None, tn_right = None\<rparr>"
  define tr1 where "tr1 = t_upd n (\<lambda>_. new) tr"
  define tr2 where "tr2 = (case up_of c of None \<Rightarrow> tr1\<lparr>tr_root := Some n\<rparr>
    | Some q \<Rightarrow> if k < tn_key (tr_nodes tr1 q) then t_upd q (\<lambda>x. x\<lparr>tn_left := Some n\<rparr>) tr1 else t_upd q (\<lambda>x. x\<lparr>tn_right := Some n\<rparr>) tr1)"
  have ins: "t_insert n k v pr tr = rotate_up n (up_of c) tr2"
    unfolding t_insert_def Let_def tr2_def tr1_def new_def p(1) d(1) by simp
  have nz: "n \<notin> set (zaddrs c)" using n d(3) set_plug [of c Leaf] by auto
  have dz: "distinct (zaddrs c)" using d(2) by (simp add: focus_def)
  obtain up where cx: "ctx (tr_nodes tr) (tr_root tr) c up None" using d(2) by (auto simp: focus_def)
  have up: "up = up_of c" using cx by (cases c) auto
  have "same_shape (set (zaddrs c)) (tr_nodes tr) (tr_nodes tr1)" using nz by (auto simp: same_shape_def tr1_def t_upd_def)
  then have c1: "ctx (tr_nodes tr1) (tr_root tr1) c up None" using ctx_same [OF cx] by (simp add: tr1_def t_upd_def)
  have c2: "ctx (tr_nodes tr2) (tr_root tr2) c up (Some n)"
  proof (cases c)
    case (Cons x c')
    obtain e a s where x: "x = (e, a, s)" by (cases x)
    have "tn_key (tr_nodes tr1 a) = ?key a" using nz Cons x by (simp add: tr1_def t_upd_def)
    then have "tr2 = t_upd a (\<lambda>x. if e then x\<lparr>tn_left := Some n\<rparr> else x\<lparr>tn_right := Some n\<rparr>) tr1"
      using d(6) Cons x by (simp add: tr2_def)
    moreover have "tr_root tr2 = tr_root tr1" using Cons x by (simp add: tr2_def t_upd_def)
    moreover have "ctx (tr_nodes tr1) (tr_root tr1) ((e, a, s) # c') up None" "distinct (zaddrs ((e, a, s) # c'))" using c1 dz Cons x by simp_all
    note ctx_child [OF this, of "Some n"]
    ultimately show ?thesis using Cons x by (simp only:)
  qed (use up in \<open>simp add: tr2_def\<close>)
  have node: "tr_nodes tr2 n = new" using nz by (cases c) (auto simp: tr2_def tr1_def t_upd_def)
  then have "tlinked (tr_nodes tr2) up (Some n) (Node Leaf n Leaf)" using up by (simp add: new_def)
  then have f2: "focus tr2 c (Node Leaf n Leaf)" using c2 nz dz by (auto simp: focus_def)
  let ?pr = "\<lambda>a. tn_priority (tr_nodes tr2 a)"
  have data: "tn_key (tr_nodes tr2 a) = ?key a \<and> tn_value (tr_nodes tr2 a) = tn_value (tr_nodes tr a) \<and> ?pr a = tn_priority (tr_nodes tr a)" if "a \<noteq> n" for a
    using that by (auto simp: tr2_def tr1_def t_upd_def split: option.splits)
  have "hp ?pr t" using h hp_cong [of t ?pr "\<lambda>a. tn_priority (tr_nodes tr a)"] n data by metis
  then have "hpc ?pr c {}" using hp_plug [of ?pr c Leaf] d(3) by simp
  then obtain tr' t' where t': "rotate_up n (up_of c) tr2 = Some (Inr tr')" "focus tr' [] t'" "inorder t' = inorder (plug c (Node Leaf n Leaf))"
    "hp ?pr t'" "same_data tr2 tr'" using rotate_up_focus [OF f2] by auto
  have io: "inorder t = zleft c @ zright c" "inorder t' = zleft c @ n # zright c"
    using t'(3) inorder_plug [of c Leaf] d(3) by (simp_all add: inorder_plug)
  have nio: "n \<notin> set (inorder t)" using n by simp
  have k': "tn_key (tr_nodes tr' n) = k" "a \<noteq> n \<Longrightarrow> tn_key (tr_nodes tr' a) = ?key a" for a
    using t'(5) data node by (auto simp: same_data_def new_def)
  have mp: "map (\<lambda>a. tn_key (tr_nodes tr' a)) (zleft c) = map ?key (zleft c)" "map (\<lambda>a. tn_key (tr_nodes tr' a)) (zright c) = map ?key (zright c)"
    using nio io(1) by (auto simp: map_eq_conv intro!: k'(2))
  have "sorted (map ?key (zleft c) @ k # map ?key (zright c))"
    using so io(1) d(4,5) by (auto simp: sorted_append less_imp_le)
  then have "sorted (map (\<lambda>a. tn_key (tr_nodes tr' a)) (inorder t'))"
    unfolding io(2) map_append list.map mp k'(1) .
  then have "treap_inv tr' t'" using t'(2,4,5) by (simp add: treap_inv_def same_data_def)
  with t'(1,5) ins io data node k' show ?thesis
    by (intro exI [of _ tr'] exI [of _ t'] exI [of _ "zleft c"] exI [of _ "zright c"]) (simp add: same_data_def new_def)
qed

section \<open>Removal\<close>

lemma rotate_down_focus:
  fixes tr :: "('k, 'v) treap"
  assumes "pr = (\<lambda>a. tn_priority (tr_nodes tr a))" and "focus tr c (Node l x r)" and "hp pr l" "hp pr r" and "hpc pr c (set_tree l \<union> set_tree r)"
  shows "\<exists>tr' c'. rotate_down x tr = Some (Inr tr') \<and> focus tr' c' (Node Leaf x Leaf) \<and> hpc pr c' {}
     \<and> inorder (plug c' (Node Leaf x Leaf)) = inorder (plug c (Node l x r)) \<and> same_data tr tr'"
  using assms
proof (induction "size l + size r" arbitrary: tr c l r rule: less_induct)
  case less
  let ?pr = "\<lambda>a. tn_priority (tr_nodes tr a)"
  note kids = focusD(2,3) [OF less.prems(2)]
  have step: ?case if tr1: "(if r = Leaf then rotateRight x tr else if l = Leaf then rotateLeft x tr
         else if ?pr (the (tn_left (tr_nodes tr x))) < ?pr (the (tn_right (tr_nodes tr x))) then rotateRight x tr else rotateLeft x tr) = Inr tr1"
      and f1: "focus tr1 c1 (Node l1 x r1)" and sd: "same_data tr tr1" and h1: "hp pr l1" "hp pr r1" "hpc pr c1 (set_tree l1 \<union> set_tree r1)"
      and sz: "size l1 + size r1 < size l + size r" and io: "inorder (plug c1 (Node l1 x r1)) = inorder (plug c (Node l x r))"
    for tr1 c1 l1 r1
  proof -
    have pr1: "pr = (\<lambda>a. tn_priority (tr_nodes tr1 a))" using less.prems(1) sd by (simp add: same_data_def)
    obtain tr' c' where e: "rotate_down x tr1 = Some (Inr tr')" "focus tr' c' (Node Leaf x Leaf)" "hpc pr c' {}"
      "inorder (plug c' (Node Leaf x Leaf)) = inorder (plug c1 (Node l1 x r1))" "same_data tr1 tr'"
      using less.hyps [OF sz pr1 f1 h1] by blast
    have "\<not> (l = Leaf \<and> r = Leaf)" using sz by auto
    then have "rotate_down x tr = rotate_down x tr1"
      by (subst rotate_down.simps) (use kids tr1 in \<open>auto simp: Let_def split: tree.splits if_splits\<close>)
    with e io same_data_trans [OF sd e(5)] show ?thesis by auto
  qed
  show ?case
  proof (cases "l = Leaf \<and> r = Leaf")
    case True
    then have "rotate_down x tr = Some (Inr tr)" by (subst rotate_down.simps) (use kids in simp)
    with True less.prems show ?thesis using same_data_refl by (intro exI [of _ tr] exI [of _ c]) simp
  next
    case False
    show ?thesis
    proof (cases "r = Leaf \<or> l \<noteq> Leaf \<and> ?pr (the (tn_left (tr_nodes tr x))) < ?pr (the (tn_right (tr_nodes tr x)))")
      case True
      with False obtain ll y lr where l: "l = Node ll y lr" by (cases l) auto
      obtain tr1 where tr1: "rotateRight x tr = Inr tr1" "focus tr1 c (Node ll y (Node lr x r))" "same_data tr tr1"
        using rotateRight_focus [of tr c ll y lr x r] less.prems(2) l by auto
      have "\<forall>b\<in>set_tree r. pr y \<le> pr b"
      proof (cases r)
        case (Node rl z rr)
        with True kids l have "pr y < pr z" using less.prems(1) by simp
        then show ?thesis using less.prems(4) Node by (auto intro: order_trans [OF less_imp_le])
      qed simp
      then have "hpc pr ((False, y, ll) # c) (set_tree lr \<union> set_tree r)"
        using less.prems(3,5) l by (auto simp: insert_commute Un_ac)
      then show ?thesis
        by (intro step [of tr1 "(False, y, ll) # c" lr r]) (use True False tr1 l less.prems(3,4) in \<open>auto simp: focus_frame inorder_plug\<close>)
    next
      case F: False
      then obtain rl z rr where r: "r = Node rl z rr" by (cases r) auto
      obtain tr1 where tr1: "rotateLeft x tr = Inr tr1" "focus tr1 c (Node (Node l x rl) z rr)" "same_data tr tr1"
        using rotateLeft_focus [of tr c l x rl z rr] less.prems(2) r by auto
      have "\<forall>b\<in>set_tree l. pr z \<le> pr b"
      proof (cases l)
        case (Node ll y lr)
        with F kids r have "pr z \<le> pr y" using less.prems(1) by (simp add: not_less)
        then show ?thesis using less.prems(3) Node by (auto intro: order_trans)
      qed simp
      then have "hpc pr ((True, z, rr) # c) (set_tree l \<union> set_tree rl)"
        using less.prems(4,5) r by (auto simp: insert_commute Un_ac)
      then show ?thesis
        by (intro step [of tr1 "(True, z, rr) # c" l rl]) (use F tr1 r less.prems(3,4) in \<open>auto simp: focus_frame inorder_plug\<close>)
    qed
  qed
qed

lemma plug_append: "plug (c @ c') t = plug c' (plug c t)"
  by (induction c t rule: plug.induct) simp_all

lemma plug_at: "x \<in> set_tree t \<Longrightarrow> \<exists>c l r. t = plug c (Node l x r)"
proof (induction t)
  case (Node l a r)
  then consider "x = a" | "x \<in> set_tree l" | "x \<in> set_tree r" by auto
  then show ?case
  proof cases
    case 1
    then show ?thesis by (intro exI [of _ "[]"]) simp
  next
    case 2
    with Node.IH obtain c l' r' where "l = plug c (Node l' x r')" by blast
    then have "Node l a r = plug (c @ [(True, a, r)]) (Node l' x r')" by (simp add: plug_append)
    then show ?thesis by blast
  next
    case 3
    with Node.IH obtain c l' r' where "r = plug c (Node l' x r')" by blast
    then have "Node l a r = plug (c @ [(False, a, l)]) (Node l' x r')" by (simp add: plug_append)
    then show ?thesis by blast
  qed
qed simp

theorem t_remove_inv:
  assumes inv: "treap_inv tr t" and x: "x \<in> set_tree t"
  shows "\<exists>tr' t'. t_remove (Some x) tr = Some (Inr (Some x, tr')) \<and> treap_inv tr' t' \<and> inorder t' = remove1 x (inorder t) \<and> same_data tr tr'"
proof -
  let ?pr = "\<lambda>a. tn_priority (tr_nodes tr a)"
  obtain c l r where t: "t = plug c (Node l x r)" using plug_at [OF x] by blast
  have "focus tr c (Node l x r)" using inv t focus_plug [of tr c "Node l x r"] by (simp add: treap_inv_def)
  moreover have "hp ?pr (Node l x r)" "hpc ?pr c (set_tree (Node l x r))" using inv t hp_plug [of ?pr c "Node l x r"] by (simp_all add: treap_inv_def)
  then have "hp ?pr l" "hp ?pr r" "hpc ?pr c (set_tree l \<union> set_tree r)" by (auto elim: hpc_mono)
  ultimately obtain tr1 c1 where d: "rotate_down x tr = Some (Inr tr1)" "focus tr1 c1 (Node Leaf x Leaf)" "hpc ?pr c1 {}"
    "inorder (plug c1 (Node Leaf x Leaf)) = inorder t" "same_data tr tr1" using rotate_down_focus [OF refl, of tr c l x r] t by auto
  obtain up where cx: "ctx (tr_nodes tr1) (tr_root tr1) c1 up (Some x)" "tn_parent (tr_nodes tr1 x) = up" using d(2) by (auto simp: focus_def)
  define tr2 where "tr2 = t_relink up x None tr1"
  have dz: "distinct (zaddrs c1)" "x \<notin> set (zaddrs c1)" using d(2) by (auto simp: focus_def)
  have "focus tr2 c1 Leaf" using ctx_relink [OF cx(1) dz, of None] dz by (auto simp: focus_def tr2_def)
  then have f: "focus tr2 [] (plug c1 Leaf)" using focus_plug by blast
  have sd: "same_data tr tr2" unfolding tr2_def by (rule same_data_trans [OF d(5) same_data_relink])
  have zl: "inorder t = zleft c1 @ x # zright c1" using d(4) by (simp add: inorder_plug)
  have "distinct (inorder t)" using inv by (simp add: treap_inv_def focus_def)
  then have io: "inorder (plug c1 Leaf) = remove1 x (inorder t)" unfolding zl by (simp add: inorder_plug remove1_append)
  have "hp ?pr (plug c1 Leaf)" using d(3) by (simp add: hp_plug)
  moreover have "sorted (map (\<lambda>a. tn_key (tr_nodes tr a)) (inorder (plug c1 Leaf)))"
    using inv zl by (auto simp: treap_inv_def inorder_plug sorted_append)
  ultimately have "treap_inv tr2 (plug c1 Leaf)" using f sd by (simp add: treap_inv_def same_data_def)
  moreover have "t_remove (Some x) tr = Some (Inr (Some x, tr2))" using d(1) cx(2) by (simp add: t_remove_def tr2_def)
  ultimately show ?thesis using io sd by blast
qed

section \<open>Search\<close>

lemma lookup_loop_finds:
  assumes "tlinked ns up p t" and "sorted (map (\<lambda>a. tn_key (ns a)) (inorder t))"
  shows "\<exists>q. lookup_loop k ns p = Some q \<and> (case q of None \<Rightarrow> \<forall>a\<in>set_tree t. tn_key (ns a) \<noteq> k | Some a \<Rightarrow> a \<in> set_tree t \<and> tn_key (ns a) = k)"
  using assms
proof (induction t arbitrary: up p)
  case Leaf
  then show ?case by (simp add: lookup_loop.simps)
next
  case (Node l a r)
  have ord: "\<forall>b\<in>set_tree l. tn_key (ns b) \<le> tn_key (ns a)" "\<forall>b\<in>set_tree r. tn_key (ns a) \<le> tn_key (ns b)"
    using Node.prems(2) by (auto simp: sorted_append)
  have s: "sorted (map (\<lambda>a. tn_key (ns a)) (inorder l))" "sorted (map (\<lambda>a. tn_key (ns a)) (inorder r))"
    using Node.prems(2) by (auto simp: sorted_append)
  have p: "p = Some a" using Node.prems(1) by simp
  consider "tn_key (ns a) = k" | "k < tn_key (ns a)" | "tn_key (ns a) < k" by force
  then show ?case
  proof cases
    case 1
    then show ?thesis by (simp add: lookup_loop.simps p)
  next
    case 2
    then have e: "lookup_loop k ns p = lookup_loop k ns (tn_left (ns a))" by (subst lookup_loop.simps) (auto simp: p)
    obtain q where "lookup_loop k ns (tn_left (ns a)) = Some q"
      "case q of None \<Rightarrow> \<forall>a\<in>set_tree l. tn_key (ns a) \<noteq> k | Some a \<Rightarrow> a \<in> set_tree l \<and> tn_key (ns a) = k"
      using Node.IH(1) [of "Some a" "tn_left (ns a)"] Node.prems(1) s by auto
    with 2 ord(2) show ?thesis unfolding e by (auto split: option.splits)
  next
    case 3
    then have e: "lookup_loop k ns p = lookup_loop k ns (tn_right (ns a))" by (subst lookup_loop.simps) (auto simp: p)
    obtain q where "lookup_loop k ns (tn_right (ns a)) = Some q"
      "case q of None \<Rightarrow> \<forall>a\<in>set_tree r. tn_key (ns a) \<noteq> k | Some a \<Rightarrow> a \<in> set_tree r \<and> tn_key (ns a) = k"
      using Node.IH(2) [of "Some a" "tn_right (ns a)"] Node.prems(1) s by auto
    with 3 ord(1) show ?thesis unfolding e by (auto split: option.splits)
  qed
qed

text \<open>The least key that is not below \<open>k\<close>.\<close>

definition best_fit :: "('k::linorder) \<Rightarrow> (nat \<Rightarrow> 'k) \<Rightarrow> nat set \<Rightarrow> ptr \<Rightarrow> bool" where
  "best_fit k key A q \<longleftrightarrow> (case q of None \<Rightarrow> \<forall>a\<in>A. key a < k | Some b \<Rightarrow> b \<in> A \<and> k \<le> key b \<and> (\<forall>a\<in>A. k \<le> key a \<longrightarrow> key b \<le> key a))"

lemma lookupGeq_best:
  fixes ns :: "nat \<Rightarrow> ('k::linorder, 'v) tnode"
  defines "key \<equiv> \<lambda>a. tn_key (ns a)"
  assumes "tlinked ns up p t" and "sorted (map key (inorder t))" and "\<And>b. best = Some b \<Longrightarrow> k \<le> key b \<and> (\<forall>a\<in>set_tree t. key a \<le> key b)"
  shows "\<exists>q. lookupGeq k ns best p = Some q \<and> best_fit k key (set_tree t \<union> set_option best) q"
  using assms(2-)
proof (induction t arbitrary: up p best)
  case Leaf
  then show ?case by (auto simp: lookupGeq.simps best_fit_def split: option.splits)
next
  case (Node l a r)
  have ord: "\<forall>b\<in>set_tree l. key b \<le> key a" "\<forall>b\<in>set_tree r. key a \<le> key b"
    using Node.prems(2) by (auto simp: sorted_append)
  have s: "sorted (map key (inorder l))" "sorted (map key (inorder r))" using Node.prems(2) by (auto simp: sorted_append)
  have p: "p = Some a" using Node.prems(1) by simp
  consider "key a = k" | "key a < k" | "k < key a" by force
  then show ?case
  proof cases
    case 1
    then show ?thesis by (intro exI [of _ "Some a"]) (simp add: lookupGeq.simps p best_fit_def key_def)
  next
    case 2
    then have e: "lookupGeq k ns best p = lookupGeq k ns best (tn_right (ns a))" by (subst lookupGeq.simps) (auto simp: p key_def)
    obtain q where q: "lookupGeq k ns best (tn_right (ns a)) = Some q" "best_fit k key (set_tree r \<union> set_option best) q"
      using Node.IH(2) [of "Some a" "tn_right (ns a)" best] Node.prems(1,3) s by auto
    have "\<forall>b\<in>insert a (set_tree l). key b < k" using 2 ord(1) by auto
    then have "best_fit k key (set_tree (Node l a r) \<union> set_option best) q" using q(2) by (fastforce simp: best_fit_def split: option.splits)
    with q(1) e show ?thesis by simp
  next
    case 3
    let ?b = "if best = None \<or> key a < key (the best) then Some a else best"
    have e: "lookupGeq k ns best p = lookupGeq k ns ?b (tn_left (ns a))" by (subst lookupGeq.simps) (use 3 in \<open>auto simp: p key_def\<close>)
    define b where "b = (if best = None \<or> key a < key (the best) then a else the best)"
    have b: "?b = Some b" "key b = key a" "b = a \<or> best = Some b" using Node.prems(3) unfolding b_def by (cases best; force)+
    obtain q where q: "lookupGeq k ns ?b (tn_left (ns a)) = Some q" "best_fit k key (set_tree l \<union> set_option ?b) q"
      using Node.IH(1) [of "Some a" "tn_left (ns a)" ?b] Node.prems(1) s b less_imp_le [OF 3] ord(1) by auto
    have "best_fit k key (set_tree (Node l a r) \<union> set_option best) q"
    proof -
      from q(2) b 3 obtain x where x: "q = Some x" "x \<in> insert b (set_tree l)" "k \<le> key x" "\<forall>y\<in>insert b (set_tree l). k \<le> key y \<longrightarrow> key x \<le> key y"
        by (auto simp: best_fit_def split: option.splits)
      have xa: "key x \<le> key a" using x(4) b(2) 3 by auto
      have "key x \<le> key y" if y: "y \<in> set_tree (Node l a r) \<union> set_option best" "k \<le> key y" for y
      proof -
        consider "y \<in> set_tree l" | "y = a" | "y \<in> set_tree r \<union> set_option best" using y(1) by auto
        then show ?thesis
        proof cases
          case 1
          with x(4) y(2) show ?thesis by simp
        next
          case 3
          then have "key a \<le> key y" using ord(2) Node.prems(3) by auto
          with xa show ?thesis by (rule order_trans)
        qed (use xa in simp)
      qed
      moreover have "x \<in> set_tree (Node l a r) \<union> set_option best" using x(2) b(3) by auto
      ultimately show ?thesis using x(1,3) by (simp add: best_fit_def)
    qed
    with q(1) e show ?thesis by simp
  qed
qed

theorem t_lookup_finds:
  assumes "treap_inv tr t"
  shows "\<exists>q. t_lookup k tr = Some q \<and> (case q of None \<Rightarrow> \<forall>a\<in>set_tree t. tn_key (tr_nodes tr a) \<noteq> k | Some a \<Rightarrow> a \<in> set_tree t \<and> tn_key (tr_nodes tr a) = k)"
    "\<exists>q. lookupGreater k tr = Some q \<and> best_fit k (\<lambda>a. tn_key (tr_nodes tr a)) (set_tree t) q"
proof -
  obtain p where p: "tr_root tr = p" "tlinked (tr_nodes tr) None p t" "sorted (map (\<lambda>a. tn_key (tr_nodes tr a)) (inorder t))"
    using assms by (auto simp: treap_inv_def focus_def)
  show "\<exists>q. t_lookup k tr = Some q \<and> (case q of None \<Rightarrow> \<forall>a\<in>set_tree t. tn_key (tr_nodes tr a) \<noteq> k | Some a \<Rightarrow> a \<in> set_tree t \<and> tn_key (tr_nodes tr a) = k)"
    using lookup_loop_finds [OF p(2,3)] p(1) by (simp add: t_lookup_def)
  show "\<exists>q. lookupGreater k tr = Some q \<and> best_fit k (\<lambda>a. tn_key (tr_nodes tr a)) (set_tree t) q"
    using lookupGeq_best [OF p(2,3), of None k] p(1) by (simp add: lookupGreater_def)
qed

text \<open>The destructor deletes children before parents, and printing goes through the keys in order.\<close>

lemma deleteTreap_postorder: "tlinked ns up p t \<Longrightarrow> deleteTreap ns p = Some (postorder t)"
proof (induction t arbitrary: up p)
  case (Node l a r)
  then show ?case by (subst deleteTreap.simps) auto
qed (simp add: deleteTreap.simps)

lemma reallyPrint_keys: "tlinked ns up p t \<Longrightarrow> reallyPrint ns p = Some (map (\<lambda>a. tn_key (ns a)) (inorder t))"
proof (induction t arbitrary: up p)
  case (Node l a r)
  then show ?case by (subst reallyPrint.simps) auto
qed (simp add: reallyPrint.simps)

section \<open>CartesianHeap\<close>

text \<open>
  \<open>CartesianHeap\<close> of \<open>experimental/cartesianheap.h\<close> keeps its free objects in a treap by size: each object holds its own node, whose priority is the low half of its
  address. \<open>getSize\<close> and \<open>malloc\<close> of the heap above are arguments.
\<close>

record 's cartesian =
  ch_treap :: "(ulong, nat) treap"
  ch_super :: 's

definition sizeof_Node :: ulong where
  "sizeof_Node = 48"

definition ch_malloc :: "(ulong \<Rightarrow> 's \<Rightarrow> ptr \<times> 's) \<Rightarrow> ulong \<Rightarrow> 's cartesian \<Rightarrow> (ptr \<times> 's cartesian) result option" where
  "ch_malloc smalloc sz h =
     (let sz = (if sz < sizeof_Node then sizeof_Node else sz) in
      Option.bind (lookupGreater sz (ch_treap h)) (\<lambda>q. case q of
          Some n \<Rightarrow> (let p = tn_value (tr_nodes (ch_treap h) n)
                    in map_option (\<lambda>r. res_bind r (\<lambda>(_, tr). Inr (Some p, h\<lparr>ch_treap := tr\<rparr>))) (t_remove (Some n) (ch_treap h)))
        | None \<Rightarrow> (case smalloc sz (ch_super h) of (p, s) \<Rightarrow> Some (Inr (p, h\<lparr>ch_super := s\<rparr>)))))"

definition ch_free :: "(nat \<Rightarrow> 's \<Rightarrow> ulong) \<Rightarrow> nat \<Rightarrow> 's cartesian \<Rightarrow> 's cartesian result option" where
  "ch_free getSize p h =
     map_option (\<lambda>r. res_bind r (\<lambda>tr. Inr (h\<lparr>ch_treap := tr\<rparr>))) (t_insert p (getSize p (ch_super h)) p (word_of_nat p) (ch_treap h))"

definition ch_remove :: "nat \<Rightarrow> 's cartesian \<Rightarrow> 's cartesian result option" where
  "ch_remove p h = map_option (\<lambda>r. res_bind r (\<lambda>(_, tr). Inr (h\<lparr>ch_treap := tr\<rparr>))) (t_remove (Some p) (ch_treap h))"

text \<open>The objects \<open>F\<close> are free, and each node carries size and address of its object.\<close>

definition ch_ok :: "(nat \<Rightarrow> 's \<Rightarrow> ulong) \<Rightarrow> nat set \<Rightarrow> 's cartesian \<Rightarrow> bool" where
  "ch_ok getSize F h \<longleftrightarrow> (\<exists>t. treap_inv (ch_treap h) t \<and> set_tree t = F)
     \<and> (\<forall>a\<in>F. tn_value (tr_nodes (ch_treap h) a) = a \<and> tn_key (tr_nodes (ch_treap h) a) = getSize a (ch_super h))"

lemma ch_take:
  assumes "ch_ok getSize F h" and "p \<in> F"
  shows "\<exists>tr. t_remove (Some p) (ch_treap h) = Some (Inr (Some p, tr)) \<and> ch_ok getSize (F - {p}) (h\<lparr>ch_treap := tr\<rparr>)"
proof -
  from assms obtain t where t: "treap_inv (ch_treap h) t" "set_tree t = F" by (auto simp: ch_ok_def)
  from t_remove_inv [OF t(1)] assms(2) t(2) obtain tr t' where r: "t_remove (Some p) (ch_treap h) = Some (Inr (Some p, tr))" "treap_inv tr t'"
    "inorder t' = remove1 p (inorder t)" "same_data (ch_treap h) tr" by blast
  have "distinct (inorder t)" using t(1) by (simp add: treap_inv_def focus_def)
  then have "set_tree t' = F - {p}" using r(3) t(2) by (metis set_inorder set_remove1_eq)
  with r assms(1) show ?thesis by (auto simp: ch_ok_def same_data_def)
qed

theorem ch_free_adds:
  assumes ok: "ch_ok getSize F h" and p: "p \<notin> F"
  shows "\<exists>h'. ch_free getSize p h = Some (Inr h') \<and> ch_ok getSize (insert p F) h' \<and> ch_super h' = ch_super h"
proof -
  from ok obtain t where t: "treap_inv (ch_treap h) t" "set_tree t = F" by (auto simp: ch_ok_def)
  from t_insert_inv [OF t(1)] p t(2) obtain tr t' xs ys where r: "t_insert p (getSize p (ch_super h)) p (word_of_nat p) (ch_treap h) = Some (Inr tr)"
    "treap_inv tr t'" "inorder t = xs @ ys" "inorder t' = xs @ p # ys" "tn_key (tr_nodes tr p) = getSize p (ch_super h)" "tn_value (tr_nodes tr p) = p"
    "\<forall>a. a \<noteq> p \<longrightarrow> tn_key (tr_nodes tr a) = tn_key (tr_nodes (ch_treap h) a) \<and> tn_value (tr_nodes tr a) = tn_value (tr_nodes (ch_treap h) a)"
    by metis
  have "set_tree t' = insert p F" using r(3,4) t(2) by (metis Un_insert_right list.set(2) set_append set_inorder)
  with r ok p show ?thesis by (auto simp: ch_free_def ch_ok_def)
qed

theorem ch_malloc_best:
  assumes ok: "ch_ok getSize F h"
  defines "n \<equiv> \<lambda>sz. if sz < sizeof_Node then sizeof_Node else sz"
  shows "if \<exists>a\<in>F. n sz \<le> getSize a (ch_super h)
     then \<exists>b h'. ch_malloc smalloc sz h = Some (Inr (Some b, h')) \<and> b \<in> F \<and> n sz \<le> getSize b (ch_super h)
        \<and> (\<forall>a\<in>F. n sz \<le> getSize a (ch_super h) \<longrightarrow> getSize b (ch_super h) \<le> getSize a (ch_super h)) \<and> ch_ok getSize (F - {b}) h'
     else ch_malloc smalloc sz h = (case smalloc (n sz) (ch_super h) of (p, s) \<Rightarrow> Some (Inr (p, h\<lparr>ch_super := s\<rparr>)))"
proof -
  let ?key = "\<lambda>a. tn_key (tr_nodes (ch_treap h) a)"
  from ok obtain t where t: "treap_inv (ch_treap h) t" "set_tree t = F" "\<forall>a\<in>F. tn_value (tr_nodes (ch_treap h) a) = a \<and> ?key a = getSize a (ch_super h)"
    by (auto simp: ch_ok_def)
  from t_lookup_finds(2) [OF t(1), of "n sz"] obtain q where q: "lookupGreater (n sz) (ch_treap h) = Some q" "best_fit (n sz) ?key F q" using t(2) by auto
  show ?thesis
  proof (cases q)
    case None
    then have "\<not> (\<exists>a\<in>F. n sz \<le> getSize a (ch_super h))" using q(2) t(3) by (auto simp: best_fit_def)
    with q(1) None show ?thesis by (simp add: ch_malloc_def n_def Let_def)
  next
    case (Some b)
    have b: "b \<in> F" "n sz \<le> getSize b (ch_super h)" "\<forall>a\<in>F. n sz \<le> getSize a (ch_super h) \<longrightarrow> getSize b (ch_super h) \<le> getSize a (ch_super h)"
      using q(2) t(3) Some by (auto simp: best_fit_def)
    from ch_take [OF ok b(1)] obtain tr where r: "t_remove (Some b) (ch_treap h) = Some (Inr (Some b, tr))" "ch_ok getSize (F - {b}) (h\<lparr>ch_treap := tr\<rparr>)" by blast
    have "ch_malloc smalloc sz h = Some (Inr (Some b, h\<lparr>ch_treap := tr\<rparr>))"
      using q(1) Some r(1) t(3) b(1) by (simp add: ch_malloc_def n_def Let_def)
    with b r(2) show ?thesis by auto
  qed
qed

end
