(* ===== verification/RecursiveLock.thy ===== *)
theory RecursiveLock
  imports Prelude
begin

text \<open>
  \<open>Lock\<close> of \<open>src/include/heaplayers/spinlock.h\<close>, a spin lock on an atomic exchange, and \<open>RecursiveLockType\<close> of \<open>util/recursivelock.h\<close> on top of it, with
  the thread index of \<open>util/cpuinfo.h\<close>, as steps of any number of threads: every access to a shared variable is one step. \<open>self\<close> gives the result
  of \<open>pthread_self\<close>.
\<close>

section \<open>State\<close>

definition UNLOCKED :: ulong where
  "UNLOCKED = 0"

definition LOCKED :: ulong where
  "LOCKED = 1"

record rlock =
  rl_mutex :: ulong
  rl_tid :: cint
  rl_count :: cint
  anyThreadCreated :: bool

definition rl_init :: rlock where
  "rl_init = \<lparr>rl_mutex = UNLOCKED, rl_tid = - 1, rl_count = 0, anyThreadCreated = False\<rparr>"

definition getThreadId :: "(nat \<Rightarrow> ulong) \<Rightarrow> nat \<Rightarrow> ulong" where
  "getThreadId self i = drop_bit 10 (self i)"

definition currthread :: "(nat \<Rightarrow> ulong) \<Rightarrow> nat \<Rightarrow> cint" where
  "currthread self i = ucast (getThreadId self i)"

text \<open>Where a thread is: outside of both functions, or before the next access to a shared variable.\<close>

datatype rl_pc = Away | AskOwner | TryBase | Contend | Spin | TakeOwner | CountUp | AskRelease | CountDown | TestZero | ClearOwner | ReleaseBase | Died

section \<open>Steps\<close>

definition MyInterlockedExchange :: "ulong \<Rightarrow> rlock \<Rightarrow> ulong \<times> rlock" where
  "MyInterlockedExchange v s = (rl_mutex s, s\<lparr>rl_mutex := v\<rparr>)"

text \<open>\<open>Lock::lock\<close> up to its first exchange, one round of \<open>contendedLock\<close>, and \<open>Lock::unlock\<close>.\<close>

definition base_lock :: "rlock \<Rightarrow> rl_pc \<times> rlock" where
  "base_lock s =
     (if anyThreadCreated s
      then (case MyInterlockedExchange LOCKED s of (old, s1) \<Rightarrow> (if old \<noteq> UNLOCKED then Contend else TakeOwner, s1))
      else (TakeOwner, s\<lparr>rl_mutex := LOCKED\<rparr>))"

definition contendedLock :: "rlock \<Rightarrow> rl_pc \<times> rlock" where
  "contendedLock s = (case MyInterlockedExchange LOCKED s of (old, s1) \<Rightarrow> (if old = UNLOCKED then TakeOwner else Spin, s1))"

definition base_unlock :: "rlock \<Rightarrow> rlock" where
  "base_unlock s = s\<lparr>rl_mutex := UNLOCKED\<rparr>"

text \<open>The next step of a thread inside \<open>lock\<close> or \<open>unlock\<close>; there is none where the counter would overflow.\<close>

fun rl_lock :: "cint \<Rightarrow> rl_pc \<Rightarrow> rlock \<Rightarrow> (rl_pc \<times> rlock) option" where
  "rl_lock me AskOwner s = Some (if rl_tid s = me then CountUp else TryBase, s)"
| "rl_lock me TryBase s = Some (base_lock s)"
| "rl_lock me Contend s = Some (contendedLock s)"
| "rl_lock me Spin s = Some (if rl_mutex s = LOCKED then Spin else Contend, s)"
| "rl_lock me TakeOwner s = Some (CountUp, s\<lparr>rl_tid := me\<rparr>)"
| "rl_lock me CountUp s = (if rl_count s = 0x7FFFFFFF then None else Some (Away, s\<lparr>rl_count := rl_count s + 1\<rparr>))"
| "rl_lock me _ s = None"

fun rl_unlock :: "cint \<Rightarrow> rl_pc \<Rightarrow> rlock \<Rightarrow> (rl_pc \<times> rlock) option" where
  "rl_unlock me AskRelease s = Some (if rl_tid s = me then CountDown else Died, s)"
| "rl_unlock me CountDown s = Some (TestZero, s\<lparr>rl_count := rl_count s - 1\<rparr>)"
| "rl_unlock me TestZero s = Some (if rl_count s = 0 then ClearOwner else Away, s)"
| "rl_unlock me ClearOwner s = Some (ReleaseBase, s\<lparr>rl_tid := - 1\<rparr>)"
| "rl_unlock me ReleaseBase s = Some (Away, base_unlock s)"
| "rl_unlock me _ s = None"

text \<open>The threads: where each is, and how often it has returned from \<open>lock\<close> more than it has started to leave.\<close>

record lock_sys =
  ls_lock :: rlock
  ls_pc :: "nat \<Rightarrow> rl_pc"
  ls_depth :: "nat \<Rightarrow> nat"

definition ls_init :: lock_sys where
  "ls_init = \<lparr>ls_lock = rl_init, ls_pc = (\<lambda>_. Away), ls_depth = (\<lambda>_. 0)\<rparr>"

inductive ls_step :: "nat \<Rightarrow> (nat \<Rightarrow> ulong) \<Rightarrow> nat \<Rightarrow> lock_sys \<Rightarrow> lock_sys \<Rightarrow> bool" for n self where
  create: "ls_pc t 0 = Away \<Longrightarrow> 0 < n \<Longrightarrow> ls_step n self 0 t (t\<lparr>ls_lock := (ls_lock t)\<lparr>anyThreadCreated := True\<rparr>\<rparr>)"
| call_lock: "ls_pc t i = Away \<Longrightarrow> i = 0 \<or> anyThreadCreated (ls_lock t) \<Longrightarrow> i < n \<Longrightarrow> ls_step n self i t (t\<lparr>ls_pc := (ls_pc t)(i := AskOwner)\<rparr>)"
| call_unlock: "ls_pc t i = Away \<Longrightarrow> i = 0 \<or> anyThreadCreated (ls_lock t) \<Longrightarrow> i < n \<Longrightarrow> ls_step n self i t (t\<lparr>ls_pc := (ls_pc t)(i := AskRelease)\<rparr>)"
| lock: "rl_lock (currthread self i) (ls_pc t i) (ls_lock t) = Some (p, s) \<Longrightarrow>
    i < n \<Longrightarrow> ls_step n self i t (t\<lparr>ls_lock := s, ls_pc := (ls_pc t)(i := p), ls_depth := (ls_depth t)(i := ls_depth t i + (if ls_pc t i = CountUp then 1 else 0))\<rparr>)"
| unlock: "rl_unlock (currthread self i) (ls_pc t i) (ls_lock t) = Some (p, s) \<Longrightarrow>
    i < n \<Longrightarrow> ls_step n self i t (t\<lparr>ls_lock := s, ls_pc := (ls_pc t)(i := p), ls_depth := (ls_depth t)(i := ls_depth t i - (if ls_pc t i = CountDown then 1 else 0))\<rparr>)"

inductive ls_reach :: "nat \<Rightarrow> (nat \<Rightarrow> ulong) \<Rightarrow> lock_sys \<Rightarrow> bool" for n self where
  start: "ls_reach n self ls_init"
| more: "ls_reach n self t \<Longrightarrow> ls_step n self i t u \<Longrightarrow> ls_reach n self u"

section \<open>One thread inside\<close>

text \<open>A thread that does not own the lock, the lock without an owner, and the lock with the owner \<open>me\<close>.\<close>

definition out :: "rl_pc \<Rightarrow> nat \<Rightarrow> bool" where
  "out p d \<longleftrightarrow> d = 0 \<and> p \<in> {Away, AskOwner, TryBase, Contend, Spin, AskRelease, Died}"

definition vacant :: "rlock \<Rightarrow> bool" where
  "vacant s \<longleftrightarrow> rl_mutex s = UNLOCKED \<and> rl_tid s = - 1 \<and> rl_count s = 0"

definition owned :: "cint \<Rightarrow> rl_pc \<Rightarrow> nat \<Rightarrow> rlock \<Rightarrow> bool" where
  "owned me p d s \<longleftrightarrow> rl_mutex s = LOCKED \<and> rl_tid s = (if p \<in> {TakeOwner, ReleaseBase} then - 1 else me)
     \<and> rl_count s = word_of_nat d \<and> d < 2 ^ 31
     \<and> (if p \<in> {TakeOwner, ClearOwner, ReleaseBase} then d = 0 else if p \<in> {Away, AskOwner, AskRelease, CountDown} then 0 < d else p \<in> {CountUp, TestZero})"

definition ls_inv :: "nat \<Rightarrow> (nat \<Rightarrow> ulong) \<Rightarrow> lock_sys \<Rightarrow> bool" where
  "ls_inv n self t \<longleftrightarrow>
     (vacant (ls_lock t) \<and> (\<forall>i. out (ls_pc t i) (ls_depth t i))
      \<or> (\<exists>h<n. owned (currthread self h) (ls_pc t h) (ls_depth t h) (ls_lock t) \<and> (\<forall>i. i \<noteq> h \<longrightarrow> out (ls_pc t i) (ls_depth t i))))
     \<and> (anyThreadCreated (ls_lock t) \<or> (\<forall>i. i \<noteq> 0 \<longrightarrow> ls_pc t i = Away \<and> ls_depth t i = 0))"

definition tids_ok :: "nat \<Rightarrow> (nat \<Rightarrow> ulong) \<Rightarrow> bool" where
  "tids_ok n self \<longleftrightarrow> inj_on (currthread self) {..<n} \<and> (\<forall>i<n. currthread self i \<noteq> - 1)"

lemma tids_neq: "tids_ok n self \<Longrightarrow> i < n \<Longrightarrow> j < n \<Longrightarrow> currthread self i = currthread self j \<longleftrightarrow> i = j"
  by (auto simp: tids_ok_def inj_on_eq_iff)

lemma tids_valid: "tids_ok n self \<Longrightarrow> i < n \<Longrightarrow> - 1 \<noteq> currthread self i"
  by (metis tids_ok_def)

lemma base_simps:
  "base_lock s = (if anyThreadCreated s \<and> rl_mutex s \<noteq> 0 then Contend else TakeOwner, s\<lparr>rl_mutex := 1\<rparr>)"
  "contendedLock s = (if rl_mutex s = 0 then TakeOwner else Spin, s\<lparr>rl_mutex := 1\<rparr>)"
  "base_unlock s = s\<lparr>rl_mutex := 0\<rparr>" "UNLOCKED = 0" "LOCKED = 1"
  by (simp_all add: base_lock_def contendedLock_def base_unlock_def MyInterlockedExchange_def UNLOCKED_def LOCKED_def)

lemma count_values:
  assumes "d < 2 ^ 31"
  shows "(word_of_nat d :: cint) = 0 \<longleftrightarrow> d = 0" "(word_of_nat d :: cint) = 0x7FFFFFFF \<longleftrightarrow> d = 2 ^ 31 - 1"
proof -
  have u: "unat (word_of_nat d :: cint) = d" using assms by (simp add: unat_of_nat)
  then show "(word_of_nat d :: cint) = 0 \<longleftrightarrow> d = 0" by (simp add: word_unat_eq_iff)
  show "(word_of_nat d :: cint) = 0x7FFFFFFF \<longleftrightarrow> d = 2 ^ 31 - 1" using u by (simp add: word_unat_eq_iff)
qed

text \<open>One step of a thread when nobody owns the lock, when it owns the lock itself, and when another one does.\<close>

lemma lock_vacant:
  "rl_lock me p s = Some (p', s') \<Longrightarrow> vacant s \<Longrightarrow> out p 0 \<Longrightarrow> - 1 \<noteq> me \<Longrightarrow>
     p \<noteq> CountUp \<and> anyThreadCreated s' = anyThreadCreated s \<and> (vacant s' \<and> out p' 0 \<or> owned me p' 0 s')"
  by (cases p) (auto simp: vacant_def out_def owned_def base_simps)

lemma lock_owned:
  "rl_lock me p s = Some (p', s') \<Longrightarrow> owned me p d s \<Longrightarrow>
     anyThreadCreated s' = anyThreadCreated s \<and> owned me p' (d + (if p = CountUp then 1 else 0)) s'"
  by (cases p) (auto simp: owned_def base_simps count_values add.commute split: if_splits)

lemma lock_other:
  "rl_lock me p s = Some (p', s') \<Longrightarrow> rl_mutex s = LOCKED \<Longrightarrow> rl_tid s \<noteq> me \<Longrightarrow> anyThreadCreated s \<Longrightarrow> out p 0 \<Longrightarrow> p \<noteq> CountUp \<and> s' = s \<and> out p' 0"
  by (cases p) (auto simp: out_def base_simps)

lemma unlock_vacant: "rl_unlock me p s = Some (p', s') \<Longrightarrow> vacant s \<Longrightarrow> out p 0 \<Longrightarrow> - 1 \<noteq> me \<Longrightarrow> p \<noteq> CountDown \<and> s' = s \<and> out p' 0"
  by (cases p) (auto simp: vacant_def out_def)

lemma unlock_owned:
  "rl_unlock me p s = Some (p', s') \<Longrightarrow> owned me p d s \<Longrightarrow> anyThreadCreated s' = anyThreadCreated s
     \<and> (owned me p' (d - (if p = CountDown then 1 else 0)) s' \<or> vacant s' \<and> out p' (d - (if p = CountDown then 1 else 0)))"
  by (cases p) (auto simp: owned_def vacant_def out_def base_simps count_values of_nat_diff split: if_splits)

lemma unlock_other: "rl_unlock me p s = Some (p', s') \<Longrightarrow> rl_tid s \<noteq> me \<Longrightarrow> out p 0 \<Longrightarrow> p \<noteq> CountDown \<and> s' = s \<and> out p' 0"
  by (cases p) (auto simp: out_def)

section \<open>Every step keeps the invariant\<close>

text \<open>A step of thread \<open>i\<close> changes its own place and count only.\<close>

lemma inv_update:
  assumes "\<forall>j. j \<noteq> i \<longrightarrow> out (ls_pc t j) (ls_depth t j)" and "i < n"
    and "vacant s \<and> out p d \<or> owned (currthread self i) p d s"
    and "anyThreadCreated s \<or> i = 0 \<and> (\<forall>j. j \<noteq> 0 \<longrightarrow> ls_pc t j = Away \<and> ls_depth t j = 0)"
  shows "ls_inv n self (t\<lparr>ls_lock := s, ls_pc := (ls_pc t)(i := p), ls_depth := (ls_depth t)(i := d)\<rparr>)"
  using assms by (auto simp: ls_inv_def)

lemma inv_other:
  assumes "ls_inv n self t" and "h < n" "h \<noteq> i" "owned (currthread self h) (ls_pc t h) (ls_depth t h) (ls_lock t)"
    and "\<forall>j. j \<noteq> h \<longrightarrow> out (ls_pc t j) (ls_depth t j)" and "out p d" "anyThreadCreated (ls_lock t)"
  shows "ls_inv n self (t\<lparr>ls_lock := ls_lock t, ls_pc := (ls_pc t)(i := p), ls_depth := (ls_depth t)(i := d)\<rparr>)"
  using assms by (auto simp: ls_inv_def)

lemma owner_tid: "owned me p d s \<Longrightarrow> - 1 \<noteq> me' \<Longrightarrow> me \<noteq> me' \<Longrightarrow> rl_tid s \<noteq> me'"
  by (auto simp: owned_def)

lemma owner_runs: "owned me p d s \<Longrightarrow> \<not> (p = Away \<and> d = 0)"
  by (auto simp: owned_def)

lemma owned_locked: "owned me p d s \<Longrightarrow> rl_mutex s = LOCKED"
  by (simp add: owned_def)

text \<open>The three situations of a thread, as a rule.\<close>

lemma inv_cases:
  assumes "tids_ok n self" and "ls_inv n self t" and "i < n" and "i = 0 \<or> anyThreadCreated (ls_lock t) \<or> ls_pc t i \<noteq> Away"
  obtains (vacant) "vacant (ls_lock t)" "out (ls_pc t i) (ls_depth t i)" "\<forall>j. j \<noteq> i \<longrightarrow> out (ls_pc t j) (ls_depth t j)"
    | (owner) "owned (currthread self i) (ls_pc t i) (ls_depth t i) (ls_lock t)" "\<forall>j. j \<noteq> i \<longrightarrow> out (ls_pc t j) (ls_depth t j)"
    | (other) h where "h < n" "h \<noteq> i" "owned (currthread self h) (ls_pc t h) (ls_depth t h) (ls_lock t)" "\<forall>j. j \<noteq> h \<longrightarrow> out (ls_pc t j) (ls_depth t j)"
        "out (ls_pc t i) (ls_depth t i)" "rl_tid (ls_lock t) \<noteq> currthread self i" "anyThreadCreated (ls_lock t)"
proof (cases "vacant (ls_lock t) \<and> (\<forall>i. out (ls_pc t i) (ls_depth t i))")
  case True
  then show ?thesis by (intro vacant) auto
next
  case False
  then obtain h where h: "h < n" "owned (currthread self h) (ls_pc t h) (ls_depth t h) (ls_lock t)" "\<forall>j. j \<noteq> h \<longrightarrow> out (ls_pc t j) (ls_depth t j)"
    using assms(2) by (auto simp: ls_inv_def)
  show ?thesis
  proof (cases "h = i")
    case True
    with h show ?thesis by (intro owner) auto
  next
    case False
    have "currthread self h \<noteq> currthread self i" using tids_neq [OF assms(1) h(1) assms(3)] False by simp
    then have "rl_tid (ls_lock t) \<noteq> currthread self i" using owner_tid [OF h(2)] tids_valid [OF assms(1,3)] by blast
    moreover have "anyThreadCreated (ls_lock t)"
    proof (rule ccontr)
      assume "\<not> anyThreadCreated (ls_lock t)"
      then have "\<forall>j. j \<noteq> 0 \<longrightarrow> ls_pc t j = Away \<and> ls_depth t j = 0" using assms(2) by (simp add: ls_inv_def)
      then have "i \<noteq> 0 \<Longrightarrow> False" "h \<noteq> 0 \<Longrightarrow> False" using assms(4) owner_runs [OF h(2)] \<open>\<not> anyThreadCreated (ls_lock t)\<close> by auto
      with False show False by auto
    qed
    ultimately show ?thesis using h False by (intro other [of h]) auto
  qed
qed

lemma others_idle: "ls_inv n self t \<Longrightarrow> i = 0 \<or> anyThreadCreated (ls_lock t) \<or> ls_pc t i \<noteq> Away \<Longrightarrow>
    anyThreadCreated (ls_lock t) \<or> i = 0 \<and> (\<forall>j. j \<noteq> 0 \<longrightarrow> ls_pc t j = Away \<and> ls_depth t j = 0)"
  by (auto simp: ls_inv_def)

lemma inv_lock:
  assumes ok: "tids_ok n self" and inv: "ls_inv n self t" and i: "i < n" and st: "rl_lock (currthread self i) (ls_pc t i) (ls_lock t) = Some (p, s)"
  shows "ls_inv n self (t\<lparr>ls_lock := s, ls_pc := (ls_pc t)(i := p), ls_depth := (ls_depth t)(i := ls_depth t i + (if ls_pc t i = CountUp then 1 else 0))\<rparr>)"
proof -
  have run: "i = 0 \<or> anyThreadCreated (ls_lock t) \<or> ls_pc t i \<noteq> Away" using st by auto
  note idle = others_idle [OF inv run]
  show ?thesis using ok inv i run
  proof (cases rule: inv_cases)
    case vacant
    have d: "ls_depth t i = 0" using vacant(2) by (simp add: out_def)
    show ?thesis by (rule inv_update [OF vacant(3) i]) (use lock_vacant [OF st vacant(1) _ tids_valid [OF ok i]] vacant(2) d idle in auto)
  next
    case owner
    show ?thesis by (rule inv_update [OF owner(2) i]) (use lock_owned [OF st owner(1)] idle in auto)
  next
    case (other h)
    have d: "ls_depth t i = 0" using other(5) by (simp add: out_def)
    have "ls_pc t i \<noteq> CountUp \<and> s = ls_lock t \<and> out p 0"
      by (rule lock_other [OF st owned_locked [OF other(3)] other(6,7)]) (use other(5) d in simp)
    with inv_other [OF inv other(1-4)] other(7) d show ?thesis by simp
  qed
qed

lemma inv_unlock:
  assumes ok: "tids_ok n self" and inv: "ls_inv n self t" and i: "i < n" and st: "rl_unlock (currthread self i) (ls_pc t i) (ls_lock t) = Some (p, s)"
  shows "ls_inv n self (t\<lparr>ls_lock := s, ls_pc := (ls_pc t)(i := p), ls_depth := (ls_depth t)(i := ls_depth t i - (if ls_pc t i = CountDown then 1 else 0))\<rparr>)"
proof -
  have run: "i = 0 \<or> anyThreadCreated (ls_lock t) \<or> ls_pc t i \<noteq> Away" using st by auto
  note idle = others_idle [OF inv run]
  show ?thesis using ok inv i run
  proof (cases rule: inv_cases)
    case vacant
    have d: "ls_depth t i = 0" using vacant(2) by (simp add: out_def)
    show ?thesis by (rule inv_update [OF vacant(3) i]) (use unlock_vacant [OF st vacant(1) _ tids_valid [OF ok i]] vacant(1,2) d idle in auto)
  next
    case owner
    show ?thesis by (rule inv_update [OF owner(2) i]) (use unlock_owned [OF st owner(1)] idle in auto)
  next
    case (other h)
    have d: "ls_depth t i = 0" using other(5) by (simp add: out_def)
    have "ls_pc t i \<noteq> CountDown \<and> s = ls_lock t \<and> out p 0"
      by (rule unlock_other [OF st other(6)]) (use other(5) d in simp)
    with inv_other [OF inv other(1-4)] other(7) d show ?thesis by simp
  qed
qed

lemma inv_call:
  assumes ok: "tids_ok n self" and inv: "ls_inv n self t" and i: "i < n" and "ls_pc t i = Away" "i = 0 \<or> anyThreadCreated (ls_lock t)" and p: "p \<in> {AskOwner, AskRelease}"
  shows "ls_inv n self (t\<lparr>ls_pc := (ls_pc t)(i := p)\<rparr>)"
proof -
  have run: "i = 0 \<or> anyThreadCreated (ls_lock t) \<or> ls_pc t i \<noteq> Away" using assms(5) by blast
  let ?u = "t\<lparr>ls_lock := ls_lock t, ls_pc := (ls_pc t)(i := p), ls_depth := (ls_depth t)(i := ls_depth t i)\<rparr>"
  note idle = others_idle [OF inv run]
  have o: "out (ls_pc t i) d \<Longrightarrow> out p d" for d using p assms(4) by (auto simp: out_def)
  have "ls_inv n self ?u" using ok inv i run
  proof (cases rule: inv_cases)
    case vacant
    show ?thesis by (rule inv_update [OF vacant(3) i _ idle]) (use o vacant(1,2) in simp)
  next
    case owner
    have "owned (currthread self i) p (ls_depth t i) (ls_lock t)" using owner(1) p assms(4) by (auto simp: owned_def)
    then show ?thesis by (intro inv_update [OF owner(2) i _ idle]) simp
  next
    case (other h)
    show ?thesis by (rule inv_other [OF inv other(1-4) o [OF other(5)] other(7)])
  qed
  then show ?thesis by simp
qed

lemma inv_init: "ls_inv n self ls_init"
  by (simp add: ls_inv_def vacant_def out_def ls_init_def rl_init_def UNLOCKED_def)

lemma inv_create: "ls_inv n self t \<Longrightarrow> ls_inv n self (t\<lparr>ls_lock := (ls_lock t)\<lparr>anyThreadCreated := True\<rparr>\<rparr>)"
  by (auto simp: ls_inv_def vacant_def owned_def)

theorem ls_reach_inv: "ls_reach n self t \<Longrightarrow> tids_ok n self \<Longrightarrow> ls_inv n self t"
proof (induction rule: ls_reach.induct)
  case start
  show ?case by (rule inv_init)
next
  case (more t i u)
  from more(2) show ?case
  proof cases
    case create
    with more(3,4) inv_create show ?thesis by simp
  next
    case call_lock
    with more(3,4) inv_call show ?thesis by simp
  next
    case call_unlock
    with more(3,4) inv_call show ?thesis by simp
  next
    case (lock p s)
    with more(3,4) inv_lock show ?thesis by simp
  next
    case (unlock p s)
    with more(3,4) inv_unlock show ?thesis by simp
  qed
qed

lemma the_owner:
  assumes "ls_inv n self t" and "0 < ls_depth t i"
  shows "owned (currthread self i) (ls_pc t i) (ls_depth t i) (ls_lock t)" "\<forall>j. j \<noteq> i \<longrightarrow> out (ls_pc t j) (ls_depth t j)"
proof -
  have "\<not> out (ls_pc t i) (ls_depth t i)" using assms(2) by (simp add: out_def)
  then obtain h where "owned (currthread self h) (ls_pc t h) (ls_depth t h) (ls_lock t)" "\<forall>j. j \<noteq> h \<longrightarrow> out (ls_pc t j) (ls_depth t j)" "h = i"
    using assms(1) unfolding ls_inv_def by metis
  then show "owned (currthread self i) (ls_pc t i) (ls_depth t i) (ls_lock t)" "\<forall>j. j \<noteq> i \<longrightarrow> out (ls_pc t j) (ls_depth t j)" by simp_all
qed

text \<open>Two threads never hold the lock, and a thread that holds it never waits for it.\<close>

theorem recursive_lock_excludes:
  assumes "tids_ok n self" and "ls_reach n self t" and "0 < ls_depth t i"
  shows "0 < ls_depth t j \<Longrightarrow> j = i" and "ls_pc t i \<notin> {TryBase, Contend, Spin, Died}" and "rl_mutex (ls_lock t) = LOCKED"
    and "rl_count (ls_lock t) = word_of_nat (ls_depth t i)"
proof -
  note own = the_owner [OF ls_reach_inv [OF assms(2,1)] assms(3)]
  show "0 < ls_depth t j \<Longrightarrow> j = i" using own(2) by (auto simp: out_def)
  show "ls_pc t i \<notin> {TryBase, Contend, Spin, Died}" "rl_mutex (ls_lock t) = LOCKED" "rl_count (ls_lock t) = word_of_nat (ls_depth t i)"
    using own(1) by (auto simp: owned_def split: if_splits)
qed

text \<open>A thread that holds the lock does not die in \<open>unlock\<close>.\<close>

lemma unlock_own: "tids_ok n self \<Longrightarrow> ls_reach n self t \<Longrightarrow> 0 < ls_depth t i \<Longrightarrow> ls_pc t i = AskRelease \<Longrightarrow>
    rl_unlock (currthread self i) (ls_pc t i) (ls_lock t) = Some (CountDown, ls_lock t)"
  using the_owner(1) [OF ls_reach_inv] by (fastforce simp: owned_def)

section \<open>Threads with the same index\<close>

text \<open>The first thread locks; then any thread with the same index, which keeps 32 of the 64 bits, gets in too.\<close>

definition locked_once :: "cint \<Rightarrow> lock_sys" where
  "locked_once me = \<lparr>ls_lock = \<lparr>rl_mutex = 1, rl_tid = me, rl_count = 1, anyThreadCreated = True\<rparr>, ls_pc = (\<lambda>_. Away), ls_depth = (\<lambda>_. 0)(0 := 1)\<rparr>"

lemma reach_lock: "ls_reach n self t \<Longrightarrow> rl_lock (currthread self i) (ls_pc t i) (ls_lock t) = Some (p, s) \<Longrightarrow> i < n \<Longrightarrow>
    u = t\<lparr>ls_lock := s, ls_pc := (ls_pc t)(i := p), ls_depth := (ls_depth t)(i := ls_depth t i + (if ls_pc t i = CountUp then 1 else 0))\<rparr> \<Longrightarrow> ls_reach n self u"
  using ls_reach.more ls_step.lock by metis

lemma reach_locked_once:
  assumes "0 < n" and me: "- 1 \<noteq> currthread self 0"
  shows "ls_reach n self (locked_once (currthread self 0))"
proof -
  let ?s = "\<lambda>m t c. \<lparr>rl_mutex = m, rl_tid = t, rl_count = c, anyThreadCreated = True\<rparr>"
  let ?t = "\<lambda>m t c p. \<lparr>ls_lock = ?s m t c, ls_pc = (\<lambda>_. Away)(0 := p), ls_depth = (\<lambda>_. 0)\<rparr>"
  have "ls_reach n self (?t 0 (- 1) 0 Away)"
    using ls_reach.more [OF ls_reach.start ls_step.create [of ls_init n self]] assms(1)
    by (simp add: ls_init_def rl_init_def UNLOCKED_def fun_upd_idem)
  then have "ls_reach n self (?t 0 (- 1) 0 AskOwner)"
    using ls_reach.more [OF _ ls_step.call_lock [of "?t 0 (- 1) 0 Away" 0 n self]] assms(1) by simp
  then have "ls_reach n self (?t 0 (- 1) 0 TryBase)" by (rule reach_lock [where i = 0]) (use assms in auto)
  then have "ls_reach n self (?t 1 (- 1) 0 TakeOwner)" by (rule reach_lock [where i = 0]) (use assms in \<open>auto simp: base_simps\<close>)
  then have "ls_reach n self (?t 1 (currthread self 0) 0 CountUp)" by (rule reach_lock [where i = 0]) (use assms in auto)
  then show ?thesis by (rule reach_lock [where i = 0]) (use assms in \<open>auto simp: locked_once_def\<close>)
qed

lemma same_index_enters:
  assumes "1 < n" and "currthread self 1 = currthread self 0" and "- 1 \<noteq> currthread self 0"
  shows "\<exists>t. ls_reach n self t \<and> 0 < ls_depth t 0 \<and> 0 < ls_depth t 1"
proof -
  let ?u = "locked_once (currthread self 0)"
  have "ls_reach n self (?u\<lparr>ls_pc := (\<lambda>_. Away)(1 := AskOwner)\<rparr>)"
    using ls_reach.more [OF reach_locked_once ls_step.call_lock [of ?u 1 n self]] assms by (simp add: locked_once_def)
  then have "ls_reach n self (?u\<lparr>ls_pc := (\<lambda>_. Away)(1 := CountUp)\<rparr>)"
    by (rule reach_lock [where i = 1]) (use assms in \<open>auto simp: locked_once_def\<close>)
  then have "ls_reach n self (?u\<lparr>ls_lock := (ls_lock ?u)\<lparr>rl_count := 2\<rparr>, ls_depth := (ls_depth ?u)(1 := 1)\<rparr>)"
    by (rule reach_lock [where i = 1]) (use assms in \<open>auto simp: locked_once_def\<close>)
  then show ?thesis by (intro exI conjI) (auto simp: locked_once_def)
qed

end
