(* ===== verification/Aoff.thy ===== *)
theory Aoff
  imports Prelude
begin

text \<open>
  \<open>AOFFHeap\<close> of \<open>src/include/heaplayers/experimental/aoffheap.h\<close>: a circular list of the free objects in order of their addresses, first fit and immediate
  coalescing. An object has a header of 8 bytes with its size, and a free one has its two links behind that, all in the one memory: the links of an object of fewer than
  16 bytes lie over the header behind it. \<open>H\<close> is the address of the list head, which is a member of the heap, and NULL is 0. \<open>FreeThreshold\<close>, the heap below and its
  functions are arguments.
\<close>

record 's aoff =
  ao_mem :: mem
  ao_super :: 's

definition ao_size :: "'s aoff \<Rightarrow> nat \<Rightarrow> cint" where
  "ao_size h a = load32 a (ao_mem h)"

definition ao_prev :: "'s aoff \<Rightarrow> nat \<Rightarrow> nat" where
  "ao_prev h a = unat (load64 (a + 8) (ao_mem h))"

definition ao_next :: "'s aoff \<Rightarrow> nat \<Rightarrow> nat" where
  "ao_next h a = unat (load64 (a + 16) (ao_mem h))"

definition sizeof_allocated :: nat where
  "sizeof_allocated = 8"

definition sizeof_freed :: nat where
  "sizeof_freed = 24"

definition ao_set_size :: "nat \<Rightarrow> ulong \<Rightarrow> 's aoff \<Rightarrow> 's aoff" where
  "ao_set_size a sz h = h\<lparr>ao_mem := store32 a (ucast sz) (ao_mem h)\<rparr>"

definition ao_set_prev :: "nat \<Rightarrow> nat \<Rightarrow> 's aoff \<Rightarrow> 's aoff" where
  "ao_set_prev a p h = h\<lparr>ao_mem := store64 (a + 8) (word_of_nat p) (ao_mem h)\<rparr>"

definition ao_set_next :: "nat \<Rightarrow> nat \<Rightarrow> 's aoff \<Rightarrow> 's aoff" where
  "ao_set_next a p h = h\<lparr>ao_mem := store64 (a + 16) (word_of_nat p) (ao_mem h)\<rparr>"

definition new_freed :: "nat \<Rightarrow> ulong \<Rightarrow> nat \<Rightarrow> nat \<Rightarrow> 's aoff \<Rightarrow> 's aoff" where
  "new_freed a sz p n h = ao_set_size a sz (ao_set_next a n (ao_set_prev a p h))"

text \<open>\<open>getSize\<close> is an \<open>int\<close>; in arithmetic with \<open>size_t\<close> it is sign-extended.\<close>

definition ao_getSize :: "nat \<Rightarrow> 's aoff \<Rightarrow> ulong" where
  "ao_getSize a h = scast (ao_size h a)"

definition getSuccessor :: "nat \<Rightarrow> 's aoff \<Rightarrow> nat" where
  "getSuccessor a h = nat (int a + int sizeof_allocated + sint (ao_size h a))"

definition ao_init :: "nat \<Rightarrow> 's aoff \<Rightarrow> 's aoff" where
  "ao_init H h = ao_set_prev H H (ao_set_next H H (ao_set_size H 0 h))"

partial_function (option) ao_search :: "nat \<Rightarrow> ulong \<Rightarrow> 's aoff \<Rightarrow> nat \<Rightarrow> nat option" where
  "ao_search H need h p = (if p \<noteq> H \<and> ao_getSize p h < need then ao_search H need h (ao_next h p) else Some p)"

definition ao_malloc :: "nat \<Rightarrow> (ulong \<Rightarrow> 's \<Rightarrow> ptr \<times> 's) \<Rightarrow> ulong \<Rightarrow> 's aoff \<Rightarrow> (ptr \<times> 's aoff) result option" where
  "ao_malloc H smalloc sz h =
     map_option (\<lambda>p.
       if p = H
       then (case smalloc (sz + word_of_nat sizeof_allocated) (ao_super h) of
               (None, s) \<Rightarrow> Inr (None, h\<lparr>ao_super := s\<rparr>)
             | (Some b, s) \<Rightarrow> Inr (Some (b + sizeof_allocated), new_freed b sz 0 0 (h\<lparr>ao_super := s\<rparr>)))
       else (let prv = ao_prev h p; nxt = ao_next h p; oldSize = ao_getSize p h in
             if oldSize - sz \<ge> word_of_nat sizeof_freed
             then (let h1 = ao_set_size p sz h;
                       q = getSuccessor p h1;
                       h2 = new_freed q (oldSize - sz - word_of_nat sizeof_freed) prv nxt h1
                   in Inr (Some (p + sizeof_allocated), ao_set_prev nxt q (ao_set_next prv q h2)))
             else Inl Aborted))
       (ao_search H (sz + word_of_nat sizeof_freed) h (ao_next h H))"

definition ao_coalesce :: "nat \<Rightarrow> nat \<Rightarrow> 's aoff \<Rightarrow> 's aoff" where
  "ao_coalesce cur succ h =
     (let h1 = ao_set_next cur (ao_next h succ) h;
          h2 = ao_set_prev (ao_next h1 succ) cur h1
      in ao_set_size cur (ao_getSize cur h2 + ao_getSize succ h2 + word_of_nat sizeof_allocated) h2)"

definition ao_unlink :: "nat \<Rightarrow> 's aoff \<Rightarrow> 's aoff" where
  "ao_unlink a h = (let prv = ao_prev h a; nxt = ao_next h a in ao_set_prev nxt prv (ao_set_next prv nxt h))"

partial_function (option) ao_place :: "nat \<Rightarrow> 's aoff \<Rightarrow> nat \<Rightarrow> nat \<Rightarrow> nat \<Rightarrow> (nat \<times> nat) option" where
  "ao_place H h this prv nxt = (if nxt \<noteq> H \<and> nxt < this then ao_place H h this nxt (ao_next h nxt) else Some (prv, nxt))"

definition ao_link :: "nat \<Rightarrow> nat \<Rightarrow> nat \<Rightarrow> 's aoff \<Rightarrow> 's aoff" where
  "ao_link this prv nxt h = (let h1 = ao_set_prev nxt this (ao_set_next prv this h) in new_freed this (ao_getSize this h1) prv nxt h1)"

definition ao_free :: "nat \<Rightarrow> cint \<Rightarrow> (nat \<Rightarrow> 's \<Rightarrow> 's) \<Rightarrow> nat \<Rightarrow> 's aoff \<Rightarrow> 's aoff option" where
  "ao_free H FreeThreshold sfree p h =
     (let this = p - sizeof_allocated in
      map_option (\<lambda>(prv, nxt).
        if this = nxt then h
        else (let h1 = ao_link this prv nxt h;
                  (this1, h2) = (if getSuccessor prv h1 = this then (prv, ao_coalesce prv this h1) else (this, h1));
                  h3 = (if getSuccessor this1 h2 = nxt then ao_coalesce this1 nxt h2 else h2)
              in if sint (ao_size h3 this1) \<ge> sint FreeThreshold
                 then (let h4 = ao_unlink this1 h3 in h4\<lparr>ao_super := sfree this1 (ao_super h4)\<rparr>)
                 else h3))
        (ao_place H h this H (ao_next h H)))"

section \<open>The fields in memory\<close>

text \<open>Cells of 24 bytes that do not overlap.\<close>

definition ao_cells :: "nat set \<Rightarrow> bool" where
  "ao_cells C \<longleftrightarrow> (\<forall>x\<in>C. x + 24 \<le> 2 ^ 64 \<and> (\<forall>y\<in>C. x = y \<or> x + 24 \<le> y \<or> y + 24 \<le> x))"

lemma load32_eq: "(\<And>j. j < 4 \<Longrightarrow> m' (b + j) = m (b + j)) \<Longrightarrow> load32 b m' = load32 b m"
proof (rule bit_word_eqI)
  fix n assume eq: "\<And>j. j < 4 \<Longrightarrow> m' (b + j) = m (b + j)" and n: "n < LENGTH(32)"
  then have "n div 8 < 4" by simp
  with eq n show "bit (load32 b m') n = bit (load32 b m) n" by (simp add: bit_load32)
qed

lemma load32_store64_other: "b + 4 \<le> a \<or> a + 8 \<le> b \<Longrightarrow> load32 b (store64 a v m) = load32 b m"
  by (rule load32_eq) (auto simp: store64_def)

lemma load64_store32_other: "b + 8 \<le> a \<or> a + 4 \<le> b \<Longrightarrow> load64 b (store32 a v m) = load64 b m"
  by (auto simp: load64_eq_iff store32_def)

lemma unat_addr: "p < 2 ^ 64 \<Longrightarrow> unat (word_of_nat p :: ulong) = p"
  by (simp add: unat_of_nat)

lemma cell_fields:
  assumes C: "ao_cells C" and a: "a \<in> C" "x \<in> C"
  shows "ao_size (ao_set_size a v h) x = (if x = a then ucast v else ao_size h x)" "ao_size (ao_set_prev a p h) x = ao_size h x"
    "ao_size (ao_set_next a p h) x = ao_size h x" "ao_prev (ao_set_size a v h) x = ao_prev h x" "ao_prev (ao_set_next a p h) x = ao_prev h x"
    "ao_next (ao_set_size a v h) x = ao_next h x" "ao_next (ao_set_prev a p h) x = ao_next h x"
    "p \<in> C \<Longrightarrow> ao_prev (ao_set_prev a p h) x = (if x = a then p else ao_prev h x)"
    "p \<in> C \<Longrightarrow> ao_next (ao_set_next a p h) x = (if x = a then p else ao_next h x)"
proof -
  have d: "x = a \<or> a + 24 \<le> x \<or> x + 24 \<le> a" and p: "p \<in> C \<Longrightarrow> p < 2 ^ 64" using C a by (auto simp: ao_cells_def)
  note f = ao_size_def ao_prev_def ao_next_def ao_set_size_def ao_set_prev_def ao_set_next_def
  show "ao_size (ao_set_size a v h) x = (if x = a then ucast v else ao_size h x)" "ao_size (ao_set_prev a p h) x = ao_size h x"
    "ao_size (ao_set_next a p h) x = ao_size h x" "ao_prev (ao_set_size a v h) x = ao_prev h x" "ao_prev (ao_set_next a p h) x = ao_prev h x"
    "ao_next (ao_set_size a v h) x = ao_next h x" "ao_next (ao_set_prev a p h) x = ao_next h x"
    using d by (auto simp: f load32_store32_other load32_store64_other load64_store32_other load64_store64_other)
  show "p \<in> C \<Longrightarrow> ao_prev (ao_set_prev a p h) x = (if x = a then p else ao_prev h x)"
    "p \<in> C \<Longrightarrow> ao_next (ao_set_next a p h) x = (if x = a then p else ao_next h x)"
    using d p by (auto simp: f unat_addr load64_store64_other)
qed

lemma set_super [simp]: "ao_super (ao_set_size a v h) = ao_super h" "ao_super (ao_set_prev a p h) = ao_super h" "ao_super (ao_set_next a p h) = ao_super h"
  by (simp_all add: ao_set_size_def ao_set_prev_def ao_set_next_def)

lemma fields_super [simp]: "ao_size (h\<lparr>ao_super := q\<rparr>) = ao_size h" "ao_prev (h\<lparr>ao_super := q\<rparr>) = ao_prev h" "ao_next (h\<lparr>ao_super := q\<rparr>) = ao_next h"
  by (simp_all add: ao_size_def ao_prev_def ao_next_def fun_eq_iff)

section \<open>Linked cells\<close>

fun ao_dlinked :: "(nat \<Rightarrow> nat) \<Rightarrow> (nat \<Rightarrow> nat) \<Rightarrow> nat list \<Rightarrow> bool" where
  "ao_dlinked nx pv (x # y # zs) \<longleftrightarrow> nx x = y \<and> pv y = x \<and> ao_dlinked nx pv (y # zs)"
| "ao_dlinked nx pv _ = True"

lemma dlinked_split: "ao_dlinked nx pv (us @ x # vs) \<longleftrightarrow> ao_dlinked nx pv (us @ [x]) \<and> ao_dlinked nx pv (x # vs)"
proof (induction us)
  case (Cons u us)
  then show ?case by (cases us) auto
qed simp

lemma dlinked_same:
  "ao_dlinked nx pv L \<Longrightarrow> (\<And>x. x \<in> set (butlast L) \<Longrightarrow> nx' x = nx x) \<Longrightarrow> (\<And>x. x \<in> set (tl L) \<Longrightarrow> pv' x = pv x) \<Longrightarrow> ao_dlinked nx' pv' L"
proof (induction nx pv L rule: ao_dlinked.induct)
  case (1 nx pv x y zs)
  have "ao_dlinked nx' pv' (y # zs)" by (rule "1.IH") (use "1.prems" in auto)
  with "1.prems" show ?case by auto
qed auto

text \<open>The list goes through \<open>as\<close> and back to its head. A cell between two others comes and goes.\<close>

definition ao_ring :: "nat \<Rightarrow> nat list \<Rightarrow> 's aoff \<Rightarrow> bool" where
  "ao_ring H as h \<longleftrightarrow> ao_dlinked (ao_next h) (ao_prev h) (H # as @ [H]) \<and> distinct (H # as)"

lemma ends_split:
  assumes "p = last (H # us)" and "n = hd (vs @ [H])"
  obtains ls rs where "H # us = ls @ [p]" "vs @ [H] = n # rs" "\<And>ms. H # (us @ ms @ vs) @ [H] = ls @ p # ms @ n # rs"
proof -
  have l: "H # us = butlast (H # us) @ [p]" and v: "vs @ [H] = n # tl (vs @ [H])" using assms by simp_all
  have "H # (us @ ms @ vs) @ [H] = butlast (H # us) @ p # ms @ n # tl (vs @ [H])" for ms
  proof -
    have "H # (us @ ms @ vs) @ [H] = (H # us) @ ms @ (vs @ [H])" by simp
    also have "\<dots> = (butlast (H # us) @ [p]) @ ms @ (n # tl (vs @ [H]))" by (intro arg_cong2 [of _ _ _ _ "(@)"] refl l v)
    finally show ?thesis by simp
  qed
  with that l v show ?thesis by blast
qed

lemma ring_gap:
  assumes "ao_ring H (us @ vs) h"
  shows "ao_next h (last (H # us)) = hd (vs @ [H])" "ao_prev h (hd (vs @ [H])) = last (H # us)"
proof -
  define p where "p = last (H # us)"
  define n where "n = hd (vs @ [H])"
  obtain ls rs where all: "\<And>ms. H # (us @ ms @ vs) @ [H] = ls @ p # ms @ n # rs" using ends_split [OF p_def n_def] by metis
  have "ao_dlinked (ao_next h) (ao_prev h) (H # (us @ vs) @ [H])" using assms unfolding ao_ring_def by (rule conjunct1)
  then have "ao_dlinked (ao_next h) (ao_prev h) (ls @ p # [] @ n # rs)" by (simp only: all [of "[]", simplified append_Nil] append_Nil)
  then have "ao_dlinked (ao_next h) (ao_prev h) (p # n # rs)" unfolding append_Nil dlinked_split [of _ _ ls p "n # rs"] by (rule conjunct2)
  then have "ao_next h p = n" "ao_prev h n = p" by simp_all
  then show "ao_next h (last (H # us)) = hd (vs @ [H])" "ao_prev h (hd (vs @ [H])) = last (H # us)" unfolding p_def n_def by blast+
qed

lemma ring_change:
  assumes r: "ao_ring H (us @ ms @ vs) h" and d: "set ns \<inter> set (H # us @ vs) = {}" "distinct ns"
    and new: "ao_dlinked (ao_next h') (ao_prev h') (last (H # us) # ns @ [hd (vs @ [H])])"
    and same: "\<And>x. x \<in> set (H # us @ vs) \<Longrightarrow> x \<noteq> last (H # us) \<Longrightarrow> ao_next h' x = ao_next h x"
      "\<And>x. x \<in> set (H # us @ vs) \<Longrightarrow> x \<noteq> hd (vs @ [H]) \<Longrightarrow> ao_prev h' x = ao_prev h x"
  shows "ao_ring H (us @ ns @ vs) h'"
proof -
  define p where "p = last (H # us)"
  define n where "n = hd (vs @ [H])"
  obtain ls rs where l': "H # us = ls @ [p]" and v': "vs @ [H] = n # rs" and all: "\<And>ms. H # (us @ ms @ vs) @ [H] = ls @ p # ms @ n # rs"
    using ends_split [OF p_def n_def] by metis
  have old: "ao_dlinked (ao_next h) (ao_prev h) (ls @ p # ms @ n # rs)" using r unfolding ao_ring_def all [of ms] by simp
  then have o1: "ao_dlinked (ao_next h) (ao_prev h) (ls @ [p])" and "ao_dlinked (ao_next h) (ao_prev h) ((p # ms) @ n # rs)"
    using dlinked_split [of _ _ ls p "ms @ n # rs"] by simp_all
  then have o2: "ao_dlinked (ao_next h) (ao_prev h) (n # rs)" using dlinked_split [of _ _ "p # ms" n rs] by simp
  have dist: "distinct (H # us)" "distinct (vs @ [H])" "set us \<inter> set vs = {}" using r by (auto simp: ao_ring_def)
  have dl: "distinct (ls @ [p])" "distinct (n # rs)" using dist(1,2) l' v' by simp_all
  have sl: "set (ls @ [p]) \<subseteq> set (H # us @ vs)" "set (n # rs) \<subseteq> set (H # us @ vs)" by (simp_all only: l' [symmetric] v' [symmetric]) auto
  have n_us: "n \<notin> set us" using r by (cases vs; auto simp: ao_ring_def n_def)
  have p_vs: "p \<notin> set vs" "us \<noteq> [] \<Longrightarrow> p \<noteq> H" using r by (cases us rule: rev_cases; simp add: ao_ring_def p_def)+
  have n1: "ao_dlinked (ao_next h') (ao_prev h') (ls @ [p])"
  proof (rule dlinked_same [OF o1])
    fix x assume "x \<in> set (butlast (ls @ [p]))"
    then show "ao_next h' x = ao_next h x" using same(1) [of x] sl(1) dl(1) p_def by auto
  next
    fix x assume x: "x \<in> set (tl (ls @ [p]))"
    then have "x \<in> set us" using l' by (metis list.sel(3))
    then show "ao_prev h' x = ao_prev h x" using same(2) [of x] n_us n_def by auto
  qed
  have n2: "ao_dlinked (ao_next h') (ao_prev h') (n # rs)"
  proof (rule dlinked_same [OF o2])
    fix x assume "x \<in> set (butlast (n # rs))"
    then have "x \<in> set vs" using v' by (metis butlast_snoc)
    then show "ao_next h' x = ao_next h x" using same(1) [of x] p_vs(1) p_def by auto
  next
    fix x assume "x \<in> set (tl (n # rs))"
    then show "ao_prev h' x = ao_prev h x" using same(2) [of x] sl(2) dl(2) n_def by auto
  qed
  have "ao_dlinked (ao_next h') (ao_prev h') ((p # ns) @ n # rs)"
    using new n2 dlinked_split [of _ _ "p # ns" n rs] by (simp add: p_def n_def)
  then have "ao_dlinked (ao_next h') (ao_prev h') (ls @ p # ns @ n # rs)" using n1 dlinked_split [of _ _ ls p "ns @ n # rs"] by simp
  moreover note all [of ns]
  moreover have "distinct (H # us @ ns @ vs)" using r d by (auto simp: ao_ring_def)
  ultimately show ?thesis by (simp add: ao_ring_def)
qed

section \<open>The free list\<close>

text \<open>
  Free objects with their sizes, in order of their addresses, inside of 2 GB from \<open>lo\<close>; the list head lies elsewhere. Each has room for its header and links, also
  where its size says less: \<open>ao_end\<close> is where both have ended. Neighbours may touch only in between the steps of \<open>free\<close>.
\<close>

definition ao_end :: "nat \<times> nat \<Rightarrow> nat" where
  "ao_end x = fst x + max (8 + snd x) 24"

lemma ao_end_le [simp]: "ao_end x \<le> b \<longleftrightarrow> fst x + 8 + snd x \<le> b \<and> fst x + 24 \<le> b"
  by (auto simp: ao_end_def)

definition ao_ok :: "nat \<Rightarrow> nat \<Rightarrow> (nat \<times> nat) list \<Rightarrow> 's aoff \<Rightarrow> bool" where
  "ao_ok H lo fs h \<longleftrightarrow> ao_ring H (map fst fs) h \<and> (\<forall>x\<in>set fs. ao_size h (fst x) = word_of_nat (snd x) \<and> lo \<le> fst x \<and> ao_end x \<le> lo + 2 ^ 31)
     \<and> sorted_wrt (\<lambda>x y. ao_end x \<le> fst y) fs \<and> ao_size h H = 0 \<and> (H + 24 \<le> lo \<or> lo + 2 ^ 31 < H) \<and> H + 24 \<le> 2 ^ 64 \<and> lo + 2 ^ 31 \<le> 2 ^ 64"

definition ao_apart :: "(nat \<times> nat) list \<Rightarrow> bool" where
  "ao_apart fs \<longleftrightarrow> sorted_wrt (\<lambda>x y. fst x + 8 + snd x < fst y) fs"

lemma small_size:
  assumes "s < 2 ^ 31"
  shows "sint (word_of_nat s :: cint) = int s" "(scast (word_of_nat s :: cint) :: ulong) = word_of_nat s" "unat (word_of_nat s :: ulong) = s"
proof -
  have "unat (word_of_nat s :: cint) = s" using assms by (simp add: unat_of_nat)
  then show i: "sint (word_of_nat s :: cint) = int s" using sint_small [of "word_of_nat s"] assms by simp
  then show "(scast (word_of_nat s :: cint) :: ulong) = word_of_nat s" by (simp add: scast_eq)
  show "unat (word_of_nat s :: ulong) = s" using assms by (simp add: unat_of_nat)
qed

lemma int_of_nat: "(ucast (word_of_nat n :: ulong) :: cint) = word_of_nat n"
  by (rule bit_word_eqI) (auto simp: bit_simps)

lemma ao_size_of:
  assumes "ao_ok H lo fs h" and "(a, s) \<in> set fs"
  shows "s < 2 ^ 31" "ao_getSize a h = word_of_nat s" "getSuccessor a h = a + 8 + s" "lo \<le> a" "a + 8 + s \<le> lo + 2 ^ 31" "a + 24 \<le> lo + 2 ^ 31"
proof -
  have a: "ao_size h a = word_of_nat s" "lo \<le> a" "ao_end (a, s) \<le> lo + 2 ^ 31" using assms unfolding ao_ok_def by force+
  from a(2,3) show s: "s < 2 ^ 31" "lo \<le> a" "a + 8 + s \<le> lo + 2 ^ 31" "a + 24 \<le> lo + 2 ^ 31" by simp_all
  show "ao_getSize a h = word_of_nat s" "getSuccessor a h = a + 8 + s"
    using a(1) small_size [OF s(1)] by (simp_all add: ao_getSize_def getSuccessor_def sizeof_allocated_def nat_add_distrib)
qed

lemma head_successor: "ao_ok H lo fs h \<Longrightarrow> getSuccessor H h = H + 8"
  by (simp add: ao_ok_def getSuccessor_def sizeof_allocated_def nat_add_distrib)

lemma sorted_cells:
  assumes "sorted_wrt (\<lambda>x y. ao_end x \<le> fst y) fs" and "\<forall>x\<in>set fs. lo \<le> fst x \<and> ao_end x \<le> lo + 2 ^ 31"
    and "H + 24 \<le> lo \<or> lo + 2 ^ 31 < H" "H + 24 \<le> 2 ^ 64" "lo + 2 ^ 31 \<le> 2 ^ 64"
  shows "ao_cells (set (H # map fst fs))"
proof -
  have "\<forall>x\<in>set fs. \<forall>y\<in>set fs. fst x = fst y \<or> fst x + 24 \<le> fst y \<or> fst y + 24 \<le> fst x"
    using assms(1) by (induction fs) auto
  with assms(2-) show ?thesis unfolding ao_cells_def by fastforce
qed

lemma ao_ok_cells: "ao_ok H lo fs h \<Longrightarrow> ao_cells (set (H # map fst fs))"
  unfolding ao_ok_def by (rule sorted_cells [of fs lo H]) blast+

text \<open>An object that is linked in at its place.\<close>

lemma ao_link_ok:
  assumes ok: "ao_ok H lo (xs @ ys) h" and sz: "ao_size h t = word_of_nat s" and t: "lo \<le> t" "ao_end (t, s) \<le> lo + 2 ^ 31"
    and order: "\<forall>x\<in>set xs. ao_end x \<le> t" "\<forall>y\<in>set ys. ao_end (t, s) \<le> fst y"
  shows "ao_ok H lo (xs @ (t, s) # ys) (ao_link t (last (H # map fst xs)) (hd (map fst ys @ [H])) h)"
proof -
  let ?p = "last (H # map fst xs)" and ?n = "hd (map fst ys @ [H])"
  let ?h = "ao_link t ?p ?n h" and ?C = "set (H # map fst (xs @ (t, s) # ys))"
  have r: "ao_ring H (map fst xs @ [] @ map fst ys) h" using ok by (simp add: ao_ok_def)
  have sorted: "sorted_wrt (\<lambda>x y. ao_end x \<le> fst y) (xs @ (t, s) # ys)"
    using ok order by (fastforce simp: ao_ok_def sorted_wrt_append)
  have cells: "ao_cells ?C" by (rule sorted_cells [OF sorted]) (use ok t in \<open>auto simp: ao_ok_def\<close>)
  note f = cell_fields [OF cells]
  have H: "t \<noteq> H" using t ok by (auto simp: ao_ok_def)
  have new: "t \<notin> set (H # map fst xs @ map fst ys)" using H order by fastforce
  have p: "?p \<in> set (H # map fst xs)" by (rule last_in_set) simp
  have n: "?n \<in> set (map fst ys @ [H])" by (rule hd_in_set) simp
  have "t \<notin> set (H # map fst xs)" "t \<notin> set (map fst ys @ [H])" using new by auto
  with p n have pn: "t \<noteq> ?p" "t \<noteq> ?n" by metis+
  have "set (H # map fst xs) \<subseteq> ?C" "set (map fst ys @ [H]) \<subseteq> ?C" by auto
  with p n have C: "?p \<in> ?C" "?n \<in> ?C" "t \<in> ?C" by (blast, blast, simp)
  have s31: "s < 2 ^ 31" using t by simp
  have sz': "ao_getSize t (ao_set_prev ?n t (ao_set_next ?p t h)) = word_of_nat s"
    unfolding ao_getSize_def f(2) [OF C(2,3)] f(3) [OF C(1,3)] sz by (rule small_size(2) [OF s31])
  have link: "?h = new_freed t (word_of_nat s) ?p ?n (ao_set_prev ?n t (ao_set_next ?p t h))" unfolding ao_link_def Let_def sz' ..
  have size: "ao_size ?h x = ao_size h x" if "x \<in> ?C" for x
    using sz int_of_nat [of s] unfolding link new_freed_def by (simp only: f(1-3) [OF C(3) that] f(2) [OF C(2) that] f(3) [OF C(1) that]) simp
  have links: "ao_next ?h x = (if x = t then ?n else if x = ?p then t else ao_next h x)" "ao_prev ?h x = (if x = t then ?p else if x = ?n then t else ao_prev h x)"
    if x: "x \<in> ?C" for x unfolding link new_freed_def
    by (simp_all only: f(4-7) [OF C(3) x] f(8) [OF C(3) x C(1)] f(9) [OF C(3) x C(2)] f(7) [OF C(2) x] f(5) [OF C(1) x] f(8) [OF C(2) x C(3)] f(9) [OF C(1) x C(3)])
  have "ao_ring H (map fst xs @ [t] @ map fst ys) ?h"
  proof (rule ring_change [OF r])
    show "ao_dlinked (ao_next ?h) (ao_prev ?h) (?p # [t] @ [?n])" using pn by (simp only: append.simps ao_dlinked.simps links [OF C(1)] links [OF C(2)] links [OF C(3)]) simp
  next
    fix x assume x: "x \<in> set (H # map fst xs @ map fst ys)" "x \<noteq> ?p"
    then have "x \<in> ?C" "x \<noteq> t" using new by auto
    with x(2) show "ao_next ?h x = ao_next h x" by (simp only: links if_False)
  next
    fix x assume x: "x \<in> set (H # map fst xs @ map fst ys)" "x \<noteq> ?n"
    then have "x \<in> ?C" "x \<noteq> t" using new by auto
    with x(2) show "ao_prev ?h x = ao_prev h x" by (simp only: links if_False)
  qed (use new in auto)
  moreover have "\<forall>x\<in>set (xs @ (t, s) # ys). ao_size ?h (fst x) = ao_size h (fst x)" by (intro ballI size) auto
  then have "\<forall>x\<in>set (xs @ (t, s) # ys). ao_size ?h (fst x) = word_of_nat (snd x)" using ok sz by (auto simp: ao_ok_def)
  moreover have "ao_size ?h H = ao_size h H" by (rule size) simp
  ultimately show ?thesis using ok t sorted unfolding ao_ok_def by (auto simp del: last.simps)
qed

text \<open>An object that is taken out.\<close>

lemma ao_unlink_ok:
  assumes ok: "ao_ok H lo (xs @ (a, s) # ys) h"
  shows "ao_ok H lo (xs @ ys) (ao_unlink a h)" "ao_super (ao_unlink a h) = ao_super h"
proof -
  let ?p = "last (H # map fst xs)" and ?n = "hd (map fst ys @ [H])" and ?C = "set (H # map fst (xs @ (a, s) # ys))"
  have r: "ao_ring H (map fst xs @ [a] @ map fst ys) h" using ok by (simp add: ao_ok_def)
  have "ao_prev h a = ?p" using ring_gap(2) [of H "map fst xs" "[a] @ map fst ys" h] r by simp
  moreover have "ao_next h a = ?n" using ring_gap(1) [of H "map fst xs @ [a]" "map fst ys" h] r by simp
  ultimately have h': "ao_unlink a h = ao_set_prev ?n ?p (ao_set_next ?p ?n h)" by (simp only: ao_unlink_def Let_def)
  have "?p \<in> set (H # map fst xs)" by (rule last_in_set) simp
  moreover have "?n \<in> set (map fst ys @ [H])" by (rule hd_in_set) simp
  moreover have "set (H # map fst xs) \<subseteq> ?C" "set (map fst ys @ [H]) \<subseteq> ?C" by auto
  ultimately have C: "?p \<in> ?C" "?n \<in> ?C" by blast+
  note f = cell_fields [OF ao_ok_cells [OF ok]]
  have links: "ao_next (ao_unlink a h) x = (if x = ?p then ?n else ao_next h x)" "ao_prev (ao_unlink a h) x = (if x = ?n then ?p else ao_prev h x)"
    "ao_size (ao_unlink a h) x = ao_size h x" if x: "x \<in> ?C" for x
    unfolding h' by (simp_all only: f(2,7) [OF C(2) x] f(3,5) [OF C(1) x] f(8) [OF C(2) x C(1)] f(9) [OF C(1) x C(2)])
  have "ao_ring H (map fst xs @ [] @ map fst ys) (ao_unlink a h)"
  proof (rule ring_change [OF r])
    show "ao_dlinked (ao_next (ao_unlink a h)) (ao_prev (ao_unlink a h)) (?p # [] @ [?n])"
      by (simp only: append.simps ao_dlinked.simps links [OF C(1)] links [OF C(2)]) simp
  next
    fix x assume x: "x \<in> set (H # map fst xs @ map fst ys)" "x \<noteq> ?p"
    then have "x \<in> ?C" by auto
    with x(2) show "ao_next (ao_unlink a h) x = ao_next h x" by (simp only: links if_False)
  next
    fix x assume x: "x \<in> set (H # map fst xs @ map fst ys)" "x \<noteq> ?n"
    then have "x \<in> ?C" by auto
    with x(2) show "ao_prev (ao_unlink a h) x = ao_prev h x" by (simp only: links if_False)
  qed simp_all
  moreover have "\<forall>x\<in>set (xs @ ys). ao_size (ao_unlink a h) (fst x) = ao_size h (fst x)" by (intro ballI links(3)) auto
  moreover have "ao_size (ao_unlink a h) H = ao_size h H" by (rule links(3)) simp
  ultimately show "ao_ok H lo (xs @ ys) (ao_unlink a h)" using ok by (auto simp: ao_ok_def sorted_wrt_append)
  show "ao_super (ao_unlink a h) = ao_super h" unfolding h' by simp
qed

text \<open>Two neighbours that touch become one.\<close>

lemma ao_coalesce_ok:
  assumes ok: "ao_ok H lo (xs @ (a, s) # (b, u) # ys) h" and touch: "a + 8 + s = b"
  shows "ao_ok H lo (xs @ (a, s + u + 8) # ys) (ao_coalesce a b h)" "ao_super (ao_coalesce a b h) = ao_super h"
proof -
  let ?n = "hd (map fst ys @ [H])" and ?C = "set (H # map fst (xs @ (a, s) # (b, u) # ys))"
  let ?h = "ao_coalesce a b h"
  have r: "ao_ring H ((map fst xs @ [a]) @ [b] @ map fst ys) h" using ok by (simp add: ao_ok_def)
  have nx: "ao_next h b = ?n" using ring_gap(1) [of H "map fst xs @ [a, b]" "map fst ys" h] r by simp
  have d: "a \<noteq> b" "a \<noteq> H" "b \<noteq> a" using r by (auto simp: ao_ring_def)
  have sa: "ao_getSize a h = word_of_nat s" "ao_getSize b h = word_of_nat u" "lo \<le> a" "b + 8 + u \<le> lo + 2 ^ 31" "b + 24 \<le> lo + 2 ^ 31"
    using ao_size_of [OF ok, of a s] ao_size_of [OF ok, of b u] by auto
  have "?n \<in> set (map fst ys @ [H])" by (rule hd_in_set) simp
  then have C: "?n \<in> ?C" "a \<in> ?C" "b \<in> ?C" by auto
  note f = cell_fields [OF ao_ok_cells [OF ok]]
  have nx': "ao_next (ao_set_next a ?n h) b = ?n" unfolding f(9) [OF C(2,3,1)] if_not_P [OF d(3)] by (rule nx)
  define h2 where "h2 = ao_set_prev ?n a (ao_set_next a ?n h)"
  have "ao_size h2 x = ao_size h x" if "x \<in> ?C" for x unfolding h2_def by (simp only: f(2) [OF C(1) that] f(3) [OF C(2) that])
  with C sa have sz2: "ao_getSize a h2 = word_of_nat s" "ao_getSize b h2 = word_of_nat u" by (simp_all add: ao_getSize_def)
  have h': "?h = ao_set_size a (word_of_nat (s + u + 8)) h2"
    unfolding ao_coalesce_def Let_def nx nx' h2_def [symmetric] sz2 by (simp add: sizeof_allocated_def add.assoc)
  have links: "ao_next ?h x = (if x = a then ?n else ao_next h x)" "ao_prev ?h x = (if x = ?n then a else ao_prev h x)"
    "ao_size ?h x = (if x = a then word_of_nat (s + u + 8) else ao_size h x)" if x: "x \<in> ?C" for x
    unfolding h' h2_def by (simp_all only: f(1,4,6) [OF C(2) x] f(2,7) [OF C(1) x] f(3,5) [OF C(2) x] f(8) [OF C(1) x C(2)] f(9) [OF C(2) x C(1)] int_of_nat)
  have "ao_ring H ((map fst xs @ [a]) @ [] @ map fst ys) ?h"
  proof (rule ring_change [OF r])
    show "ao_dlinked (ao_next ?h) (ao_prev ?h) (last (H # map fst xs @ [a]) # [] @ [?n])"
      using links(1) [OF C(2)] links(2) [OF C(1)] by simp
  next
    fix x assume x: "x \<in> set (H # (map fst xs @ [a]) @ map fst ys)" "x \<noteq> last (H # map fst xs @ [a])"
    then have "x \<in> ?C" "x \<noteq> a" by auto
    then show "ao_next ?h x = ao_next h x" by (simp only: links if_False)
  next
    fix x assume x: "x \<in> set (H # (map fst xs @ [a]) @ map fst ys)" "x \<noteq> ?n"
    then have "x \<in> ?C" by auto
    with x(2) show "ao_prev ?h x = ao_prev h x" by (simp only: links if_False)
  qed simp_all
  moreover have "\<forall>x\<in>set (xs @ (a, s + u + 8) # ys). ao_size ?h (fst x) = (if fst x = a then word_of_nat (s + u + 8) else ao_size h (fst x))"
    by (intro ballI links(3)) auto
  moreover have "ao_size ?h H = ao_size h H" using links(3) [of H] d(2) by simp
  moreover have "\<forall>x\<in>set (xs @ ys). fst x \<noteq> a" using r by (auto simp: ao_ring_def)
  moreover have "sorted_wrt (\<lambda>x y. ao_end x \<le> fst y) (xs @ (a, s + u + 8) # ys)"
    using ok touch by (auto simp: ao_ok_def sorted_wrt_append)
  moreover have "ao_end (a, s + u + 8) \<le> lo + 2 ^ 31" using sa(4,5) touch by simp
  ultimately show "ao_ok H lo (xs @ (a, s + u + 8) # ys) ?h" using ok sa(3) by (auto simp: ao_ok_def)
  show "ao_super ?h = ao_super h" by (simp add: h' h2_def)
qed

section \<open>Freeing\<close>

definition ao_joins :: "nat \<times> nat \<Rightarrow> nat \<times> nat \<Rightarrow> bool" where
  "ao_joins x y \<longleftrightarrow> fst x + 8 + snd x = fst y"

definition ao_join :: "nat \<times> nat \<Rightarrow> nat \<times> nat \<Rightarrow> nat \<times> nat" where
  "ao_join x y = (fst x, snd x + snd y + 8)"

text \<open>The free objects before, the object with the neighbours that touch it, and the free objects behind.\<close>

definition ao_join_left :: "(nat \<times> nat) list \<Rightarrow> nat \<times> nat \<Rightarrow> (nat \<times> nat) list \<times> nat \<times> nat" where
  "ao_join_left xs x = (if xs \<noteq> [] \<and> ao_joins (last xs) x then (butlast xs, ao_join (last xs) x) else (xs, x))"

definition ao_join_right :: "nat \<times> nat \<Rightarrow> (nat \<times> nat) list \<Rightarrow> (nat \<times> nat) \<times> (nat \<times> nat) list" where
  "ao_join_right x ys = (if ys \<noteq> [] \<and> ao_joins x (hd ys) then (ao_join x (hd ys), tl ys) else (x, ys))"

definition ao_freed :: "(nat \<times> nat) list \<Rightarrow> nat \<times> nat \<Rightarrow> (nat \<times> nat) list \<Rightarrow> (nat \<times> nat) list \<times> (nat \<times> nat) \<times> (nat \<times> nat) list" where
  "ao_freed xs x ys = (fst (ao_join_left xs x), ao_join_right (snd (ao_join_left xs x)) ys)"

lemma ao_place_found:
  assumes "ao_ok H lo (ws @ xs @ ys) h" and "\<forall>x\<in>set xs. fst x < t" and "\<forall>y\<in>set ys. \<not> fst y < t"
  shows "ao_place H h t (last (H # map fst ws)) (hd (map fst (xs @ ys) @ [H])) = Some (last (H # map fst (ws @ xs)), hd (map fst ys @ [H]))"
  using assms
proof (induction xs arbitrary: ws)
  case Nil
  then show ?case by (subst ao_place.simps) (cases ys; simp)
next
  case (Cons x xs)
  have r: "ao_ring H (map fst (ws @ [x]) @ map fst (xs @ ys)) h" using Cons.prems(1) by (simp add: ao_ok_def)
  have "ao_next h (fst x) = hd (map fst (xs @ ys) @ [H])" using ring_gap(1) [OF r] by simp
  moreover have "fst x \<noteq> H" using r by (auto simp: ao_ring_def)
  moreover have "ao_place H h t (last (H # map fst (ws @ [x]))) (hd (map fst (xs @ ys) @ [H])) = Some (last (H # map fst ((ws @ [x]) @ xs)), hd (map fst ys @ [H]))"
    by (rule Cons.IH) (use Cons.prems in simp_all)
  ultimately show ?case using Cons.prems(2) by (subst ao_place.simps) simp
qed

text \<open>The two tests for neighbours, after the object has been linked in.\<close>

lemma join_left_step:
  assumes ok: "ao_ok H lo (xs @ x # ys) h" 
  shows "\<exists>h'. (if getSuccessor (last (H # map fst xs)) h = fst x then (last (H # map fst xs), ao_coalesce (last (H # map fst xs)) (fst x) h) else (fst x, h))
       = (fst (snd (ao_join_left xs x)), h')
     \<and> ao_ok H lo (fst (ao_join_left xs x) @ snd (ao_join_left xs x) # ys) h' \<and> ao_super h' = ao_super h"
proof (cases xs rule: rev_cases)
  case Nil
  have "lo \<le> fst x" "fst x \<le> lo + 2 ^ 31" using ao_size_of(4,5) [OF ok, of "fst x" "snd x"] by auto
  then have "getSuccessor H h \<noteq> fst x" using head_successor [OF ok] ok by (auto simp: ao_ok_def)
  with ok Nil show ?thesis by (simp add: ao_join_left_def)
next
  case (snoc us p)
  have su: "getSuccessor (fst p) h = fst p + 8 + snd p" using ao_size_of(3) [OF ok, of "fst p" "snd p"] snoc by simp
  show ?thesis
  proof (cases "ao_joins p x")
    case True
    have "ao_ok H lo (us @ (fst p, snd p) # (fst x, snd x) # ys) h" using ok snoc by simp
    from ao_coalesce_ok [OF this] True have "ao_ok H lo (us @ ao_join p x # ys) (ao_coalesce (fst p) (fst x) h)"
      "ao_super (ao_coalesce (fst p) (fst x) h) = ao_super h" by (simp_all add: ao_joins_def ao_join_def)
    with True snoc su show ?thesis by (simp add: ao_join_left_def ao_joins_def ao_join_def)
  next
    case False
    with ok snoc su show ?thesis by (auto simp: ao_join_left_def ao_joins_def)
  qed
qed

lemma join_right_step:
  assumes ok: "ao_ok H lo (xs @ x # ys) h"
  shows "\<exists>h'. (if getSuccessor (fst x) h = hd (map fst ys @ [H]) then ao_coalesce (fst x) (hd (map fst ys @ [H])) h else h) = h'
     \<and> ao_ok H lo (xs @ fst (ao_join_right x ys) # snd (ao_join_right x ys)) h' \<and> ao_super h' = ao_super h \<and> fst (fst (ao_join_right x ys)) = fst x"
proof -
  have su: "getSuccessor (fst x) h = fst x + 8 + snd x" "lo \<le> fst x" "fst x + 8 + snd x \<le> lo + 2 ^ 31"
    using ao_size_of(3,4,5) [OF ok, of "fst x" "snd x"] by auto
  show ?thesis
  proof (cases ys)
    case Nil
    have "fst x + 8 + snd x \<noteq> H" using su(2,3) ok by (auto simp: ao_ok_def)
    with ok su(1) Nil show ?thesis by (simp add: ao_join_right_def)
  next
    case (Cons y zs)
    show ?thesis
    proof (cases "ao_joins x y")
      case True
      have "ao_ok H lo (xs @ (fst x, snd x) # (fst y, snd y) # zs) h" using ok Cons by simp
      from ao_coalesce_ok [OF this] True have "ao_ok H lo (xs @ ao_join x y # zs) (ao_coalesce (fst x) (fst y) h)"
        "ao_super (ao_coalesce (fst x) (fst y) h) = ao_super h" by (simp_all add: ao_joins_def ao_join_def)
      with True Cons su(1) show ?thesis by (simp add: ao_join_right_def ao_joins_def ao_join_def)
    next
      case False
      with ok Cons su(1) show ?thesis by (auto simp: ao_join_right_def ao_joins_def)
    qed
  qed
qed

text \<open>The object is merged with the neighbours that touch it; what is then at least as big as the threshold is handed to the heap below.\<close>

theorem ao_free_joins:
  assumes ok: "ao_ok H lo (xs @ ys) h" and sz: "ao_size h t = word_of_nat s" and t: "lo \<le> t" "ao_end (t, s) \<le> lo + 2 ^ 31"
    and order: "\<forall>x\<in>set xs. ao_end x \<le> t" "\<forall>y\<in>set ys. ao_end (t, s) \<le> fst y" and f: "ao_freed xs (t, s) ys = (us, (a, z), vs)"
  shows "\<exists>h'. ao_free H T sfree (t + 8) h = Some h'
     \<and> (if int z \<ge> sint T then ao_ok H lo (us @ vs) h' \<and> ao_super h' = sfree a (ao_super h) else ao_ok H lo (us @ (a, z) # vs) h' \<and> ao_super h' = ao_super h)"
proof -
  let ?p = "last (H # map fst xs)" and ?n = "hd (map fst ys @ [H])"
  have pl: "ao_place H h t H (ao_next h H) = Some (?p, ?n)"
  proof -
    have "ao_ok H lo ([] @ xs @ ys) h" using ok by simp
    moreover have "ao_next h H = hd (map fst (xs @ ys) @ [H])" using ring_gap(1) [of H "[]" "map fst (xs @ ys)" h] ok by (simp add: ao_ok_def)
    ultimately show ?thesis using ao_place_found [of H lo "[]" xs ys h t] order by fastforce
  qed
  have nt: "t \<noteq> ?n" using ok t order(2) by (cases ys) (auto simp: ao_ok_def)
  define h1 where "h1 = ao_link t ?p ?n h"
  have ok1: "ao_ok H lo (xs @ (t, s) # ys) h1" unfolding h1_def by (rule ao_link_ok [OF ok sz t order])
  have s1: "ao_super h1 = ao_super h" by (simp add: h1_def ao_link_def new_freed_def Let_def)
  define x where "x = snd (ao_join_left xs (t, s))"
  have ux: "us = fst (ao_join_left xs (t, s))" "ao_join_right x ys = ((a, z), vs)" using f by (simp_all add: ao_freed_def x_def)
  from join_left_step [OF ok1, unfolded fst_conv] obtain h2 where h2: "(if getSuccessor ?p h1 = t then (?p, ao_coalesce ?p t h1) else (t, h1)) = (fst x, h2)"
    "ao_ok H lo (us @ x # ys) h2" "ao_super h2 = ao_super h1" unfolding ux(1) x_def by blast
  from join_right_step [OF h2(2)] ux(2) obtain h3 where h3: "(if getSuccessor (fst x) h2 = ?n then ao_coalesce (fst x) ?n h2 else h2) = h3"
    "ao_ok H lo (us @ (a, z) # vs) h3" "ao_super h3 = ao_super h2" "a = fst x" by auto
  have sz3: "sint (ao_size h3 a) = int z" using ao_size_of(1) [OF h3(2), of a z] small_size(1) [of z] h3(2) by (simp add: ao_ok_def)
  have "ao_free H T sfree (t + 8) h = Some (if int z \<ge> sint T then (ao_unlink a h3)\<lparr>ao_super := sfree a (ao_super (ao_unlink a h3))\<rparr> else h3)"
    unfolding ao_free_def Let_def sizeof_allocated_def add_diff_cancel_right' pl option.map prod.case h1_def [symmetric] if_not_P [OF nt] h2(1) h3(4) [symmetric]
      h3(1) [folded h3(4)] sz3 ..
  moreover have "ao_ok H lo (us @ vs) ((ao_unlink a h3)\<lparr>ao_super := q\<rparr>)" for q using ao_unlink_ok(1) [OF h3(2)] by (simp add: ao_ok_def ao_ring_def)
  ultimately show ?thesis using h3(2,3) h2(3) s1 ao_unlink_ok(2) [OF h3(2)] by simp
qed

text \<open>Where no two free objects touched, none do afterwards.\<close>

lemma freed_apart:
  assumes ap: "ao_apart (xs @ ys)" and order: "\<forall>x\<in>set xs. ao_end x \<le> t" "\<forall>y\<in>set ys. ao_end (t, s) \<le> fst y" and f: "ao_freed xs (t, s) ys = (us, x, vs)"
  shows "ao_apart (us @ x # vs)"
proof -
  define l where "l = snd (ao_join_left xs (t, s))"
  have us: "us = fst (ao_join_left xs (t, s))" "ao_join_right l ys = (x, vs)" using f by (simp_all add: ao_freed_def l_def)
  have left: "ao_apart us \<and> fst l + snd l = t + s \<and> (\<forall>u\<in>set us. fst u + 8 + snd u < fst l \<and> u \<in> set xs) \<and> fst l \<le> t"
  proof (cases xs rule: rev_cases)
    case (snoc ws p)
    have w: "ao_apart ws" "\<forall>u\<in>set ws. fst u + 8 + snd u < fst p" using ap snoc by (auto simp: ao_apart_def sorted_wrt_append)
    show ?thesis
    proof (cases "ao_joins p (t, s)")
      case True
      then have "us = ws" "l = ao_join p (t, s)" using snoc us(1) by (simp_all add: ao_join_left_def l_def)
      with w True snoc show ?thesis by (auto simp: ao_joins_def ao_join_def)
    next
      case False
      then have e: "us = xs" "l = (t, s)" using snoc us(1) by (simp_all add: ao_join_left_def l_def)
      have "fst p + 8 + snd p < t" using False snoc order(1) by (auto simp: ao_joins_def)
      with w(2) have "\<forall>u\<in>set xs. fst u + 8 + snd u < t" using snoc by auto
      with e ap show ?thesis by (simp add: ao_apart_def sorted_wrt_append)
    qed
  qed (use us(1) in \<open>auto simp: ao_join_left_def l_def ao_apart_def\<close>)
  have right: "ao_apart vs \<and> fst x = fst l \<and> (\<forall>v\<in>set vs. fst x + 8 + snd x < fst v \<and> v \<in> set ys)"
  proof (cases ys)
    case Nil
    then show ?thesis using us(2) by (auto simp: ao_join_right_def ao_apart_def)
  next
    case (Cons p ws)
    have w: "ao_apart ws" "\<forall>v\<in>set ws. fst p + 8 + snd p < fst v" using ap Cons by (auto simp: ao_apart_def sorted_wrt_append)
    have e: "fst l + 8 + snd l \<le> fst p" using order(2) Cons left by auto
    show ?thesis
    proof (cases "ao_joins l p")
      case True
      then have "x = ao_join l p" "vs = ws" using Cons us(2) by (simp_all add: ao_join_right_def)
      with w True Cons show ?thesis by (auto simp: ao_joins_def ao_join_def)
    next
      case False
      then have q: "x = l" "vs = ys" using Cons us(2) by (simp_all add: ao_join_right_def)
      have "fst l + 8 + snd l < fst p" using False e by (simp add: ao_joins_def)
      with w(2) have "\<forall>v\<in>set ys. fst l + 8 + snd l < fst v" using Cons by auto
      with q ap show ?thesis by (simp add: ao_apart_def sorted_wrt_append)
    qed
  qed
  have "\<forall>u\<in>set us. \<forall>v\<in>set vs. fst u + 8 + snd u < fst v" using left right ap by (auto simp: ao_apart_def sorted_wrt_append)
  with left right show ?thesis by (auto simp: ao_apart_def sorted_wrt_append)
qed

section \<open>Allocation\<close>

lemma ao_search_first:
  assumes "ao_ok H lo (ws @ xs @ ys) h" and "\<forall>x\<in>set xs. snd x < n" and "ys \<noteq> [] \<longrightarrow> n \<le> snd (hd ys)" and "n < 2 ^ 64"
  shows "ao_search H (word_of_nat n) h (hd (map fst (xs @ ys) @ [H])) = Some (hd (map fst ys @ [H]))"
  using assms
proof (induction xs arbitrary: ws)
  case Nil
  have n: "unat (word_of_nat n :: ulong) = n" using Nil.prems(4) by (simp add: unat_of_nat)
  show ?case
  proof (cases ys)
    case (Cons y zs)
    have "ao_getSize (fst y) h = word_of_nat (snd y)" "snd y < 2 ^ 31" using ao_size_of(1,2) [OF Nil.prems(1), of "fst y" "snd y"] Cons by auto
    then have "\<not> ao_getSize (fst y) h < word_of_nat n" using Nil.prems(3) Cons n small_size(3) [of "snd y"] by (simp add: word_less_nat_alt)
    then show ?thesis using Cons by (subst ao_search.simps) simp
  qed (subst ao_search.simps, simp)
next
  case (Cons x xs)
  have n: "unat (word_of_nat n :: ulong) = n" using Cons.prems(4) by (simp add: unat_of_nat)
  have r: "ao_ring H (map fst (ws @ [x]) @ map fst (xs @ ys)) h" using Cons.prems(1) by (simp add: ao_ok_def)
  have "ao_next h (fst x) = hd (map fst (xs @ ys) @ [H])" using ring_gap(1) [OF r] by simp
  moreover have "fst x \<noteq> H" using r by (auto simp: ao_ring_def)
  moreover have "ao_getSize (fst x) h = word_of_nat (snd x)" "snd x < 2 ^ 31" using ao_size_of(1,2) [OF Cons.prems(1), of "fst x" "snd x"] by auto
  then have "ao_getSize (fst x) h < word_of_nat n" using Cons.prems(2) n small_size(3) [of "snd x"] by (simp add: word_less_nat_alt)
  moreover have "ao_search H (word_of_nat n) h (hd (map fst (xs @ ys) @ [H])) = Some (hd (map fst ys @ [H]))"
    by (rule Cons.IH [of "ws @ [x]"]) (use Cons.prems in simp_all)
  ultimately show ?case by (subst ao_search.simps) simp
qed

text \<open>
  The first object that has room for the request and another header and links is split. The request has at least 16 bytes, as the source asserts. What remains is 16 bytes shorter than it could be: the size of the links is
  taken off besides the header. So it does not touch the object behind it any more.
\<close>

theorem ao_malloc_first:
  assumes ok: "ao_ok H lo (xs @ (a, s) # ys) h" and small: "\<forall>x\<in>set xs. snd x < n + 24" and big: "n + 24 \<le> s"
    and n16: "16 \<le> n"
  shows "\<exists>h'. ao_malloc H smalloc (word_of_nat n) h = Some (Inr (Some (a + 8), h')) \<and> ao_ok H lo (xs @ (a + 8 + n, s - n - 24) # ys) h'
     \<and> ao_size h' a = word_of_nat n \<and> ao_super h' = ao_super h"
proof -
  let ?p = "last (H # map fst xs)" and ?n = "hd (map fst ys @ [H])" and ?q = "a + 8 + n"
  have a: "s < 2 ^ 31" "ao_getSize a h = word_of_nat s" "lo \<le> a" "a + 8 + s \<le> lo + 2 ^ 31" using ao_size_of [OF ok, of a s] by simp_all
  have r: "ao_ring H (map fst xs @ [a] @ map fst ys) h" using ok by (simp add: ao_ok_def)
  have nx: "ao_prev h a = ?p" "ao_next h a = ?n"
    using ring_gap(2) [of H "map fst xs" "[a] @ map fst ys" h] ring_gap(1) [of H "map fst xs @ [a]" "map fst ys" h] r by simp_all
  have aH: "a \<noteq> H" using r by (auto simp: ao_ring_def)
  have search: "ao_search H (word_of_nat n + word_of_nat sizeof_freed) h (ao_next h H) = Some a"
  proof -
    have "ao_next h H = hd (map fst (xs @ (a, s) # ys) @ [H])" using ring_gap(1) [of H "[]" "map fst xs @ [a] @ map fst ys" h] r by simp
    moreover have "ao_ok H lo ([] @ xs @ (a, s) # ys) h" using ok by simp
    ultimately show ?thesis using ao_search_first [of H lo "[]" xs "(a, s) # ys" h "n + 24"] small big a(1) by (simp add: sizeof_freed_def)
  qed
  define h1 where "h1 = ao_set_size a (word_of_nat n) h"
  have q: "getSuccessor a h1 = ?q"
    using small_size(1) [of n] int_of_nat [of n] a(1) big by (simp add: h1_def getSuccessor_def ao_size_def ao_set_size_def sizeof_allocated_def nat_add_distrib)
  have rest: "word_of_nat s - word_of_nat n - word_of_nat sizeof_freed = (word_of_nat (s - n - 24) :: ulong)"
    using big by (simp add: sizeof_freed_def of_nat_diff)
  have "word_of_nat s - word_of_nat n = (word_of_nat (s - n) :: ulong)" using big by (simp add: of_nat_diff)
  moreover have "unat (word_of_nat (s - n) :: ulong) = s - n" using a(1) by (intro small_size(3)) linarith
  ultimately have room: "word_of_nat s - word_of_nat n \<ge> (word_of_nat sizeof_freed :: ulong)" using big by (simp add: sizeof_freed_def word_le_nat_alt)
  define h' where "h' = ao_set_prev ?n ?q (ao_set_next ?p ?q (new_freed ?q (word_of_nat (s - n - 24)) ?p ?n h1))"
  have m: "ao_malloc H smalloc (word_of_nat n) h = Some (Inr (Some (a + 8), h'))"
    unfolding ao_malloc_def search option.map if_not_P [OF aH] nx Let_def h1_def [symmetric] q a(2) if_P [OF room] rest h'_def [symmetric] sizeof_allocated_def ..
  have order: "\<forall>x\<in>set xs. ao_end x \<le> a" "\<forall>y\<in>set ys. a + 8 + s \<le> fst y" using ok by (auto simp: ao_ok_def sorted_wrt_append)
  then have ord: "\<forall>x\<in>set xs. fst x < ?q" "\<forall>y\<in>set ys. ?q < fst y" "\<forall>x\<in>set (xs @ ys). fst x \<noteq> a \<and> fst x \<noteq> ?q" using big by fastforce+
  have qH: "?q \<noteq> H" using ok a big by (auto simp: ao_ok_def)
  have qn: "?q \<notin> set (H # map fst xs @ map fst ys)" using ord(3) qH by force
  have qp: "?q \<noteq> ?p" "?q \<noteq> ?n" using ord(1,2) qH by (cases xs rule: rev_cases; auto; fail) (use ord(1,2) qH in \<open>cases ys; auto\<close>)
  let ?C = "set (H # map fst (xs @ (a, n) # (?q, s - n - 24) # ys))"
  have sorted: "sorted_wrt (\<lambda>x y. ao_end x \<le> fst y) (xs @ (a, n) # (?q, s - n - 24) # ys)"
    using ok big n16 by (fastforce simp: ao_ok_def sorted_wrt_append)
  have cells: "ao_cells ?C" by (rule sorted_cells [OF sorted, of lo]) (use ok big n16 in \<open>auto simp: ao_ok_def\<close>)
  note f = cell_fields [OF cells]
  have "?p \<in> set (H # map fst xs)" by (rule last_in_set) simp
  moreover have "?n \<in> set (map fst ys @ [H])" by (rule hd_in_set) simp
  moreover have "set (H # map fst xs) \<subseteq> ?C" "set (map fst ys @ [H]) \<subseteq> ?C" by auto
  ultimately have C: "?p \<in> ?C" "?n \<in> ?C" "a \<in> ?C" "?q \<in> ?C" by (blast, blast, simp_all)
  have super: "ao_super h' = ao_super h" by (simp add: h'_def h1_def new_freed_def)
  have links: "ao_next h' x = (if x = ?p then ?q else if x = ?q then ?n else ao_next h x)" "ao_prev h' x = (if x = ?n then ?q else if x = ?q then ?p else ao_prev h x)"
    "ao_size h' x = (if x = ?q then word_of_nat (s - n - 24) else if x = a then word_of_nat n else ao_size h x)" if x: "x \<in> ?C" for x
    unfolding h'_def h1_def new_freed_def
    by (simp_all only: f(1,4,6) [OF C(3) x] f(1-7) [OF C(4) x] f(2,7) [OF C(2) x] f(3,5) [OF C(1) x] f(8) [OF C(2) x C(4)] f(9) [OF C(1) x C(4)]
        f(8) [OF C(4) x C(1)] f(9) [OF C(4) x C(2)] int_of_nat)
  have "ao_ring H (map fst xs @ [?q] @ map fst ys) h'"
  proof (rule ring_change [OF r])
    show "ao_dlinked (ao_next h') (ao_prev h') (?p # [?q] @ [?n])" using qp by (simp only: append.simps ao_dlinked.simps links [OF C(1)] links [OF C(2)] links [OF C(4)]) simp
  next
    fix x assume x: "x \<in> set (H # map fst xs @ map fst ys)" "x \<noteq> ?p"
    then have "x \<in> ?C" "x \<noteq> ?q" using qn by auto
    with x(2) show "ao_next h' x = ao_next h x" by (simp only: links if_False)
  next
    fix x assume x: "x \<in> set (H # map fst xs @ map fst ys)" "x \<noteq> ?n"
    then have "x \<in> ?C" "x \<noteq> ?q" using qn by auto
    with x(2) show "ao_prev h' x = ao_prev h x" by (simp only: links if_False)
  qed (use qn in auto)
  moreover have "\<forall>x\<in>set (xs @ (?q, s - n - 24) # ys). ao_size h' (fst x) =
      (if fst x = ?q then word_of_nat (s - n - 24) else if fst x = a then word_of_nat n else ao_size h (fst x))" by (intro ballI links(3)) auto
  then have "\<forall>x\<in>set (xs @ (?q, s - n - 24) # ys). ao_size h' (fst x) = word_of_nat (snd x)" using ok ord(3) by (auto simp: ao_ok_def)
  moreover have "ao_size h' H = 0" using links(3) [of H] qH aH ok by (simp add: ao_ok_def)
  moreover have "ao_size h' a = word_of_nat n" using links(3) [OF C(3)] n16 by simp
  moreover have "sorted_wrt (\<lambda>x y. ao_end x \<le> fst y) (xs @ (?q, s - n - 24) # ys)" using sorted by (simp add: sorted_wrt_append)
  ultimately have "ao_ok H lo (xs @ (?q, s - n - 24) # ys) h'" "ao_size h' a = word_of_nat n" using ok big a(3,4) unfolding ao_ok_def by auto
  with m super show ?thesis by simp
qed

theorem ao_malloc_below:
  assumes ok: "ao_ok H lo fs h" and small: "\<forall>x\<in>set fs. snd x < n + 24" and n: "n + 24 < 2 ^ 64"
  shows "case smalloc (word_of_nat n + 8) (ao_super h) of
      (None, t) \<Rightarrow> ao_malloc H smalloc (word_of_nat n) h = Some (Inr (None, h\<lparr>ao_super := t\<rparr>))
    | (Some b, t) \<Rightarrow> ao_malloc H smalloc (word_of_nat n) h = Some (Inr (Some (b + 8), new_freed b (word_of_nat n) 0 0 (h\<lparr>ao_super := t\<rparr>)))"
proof -
  have "ao_next h H = hd (map fst fs @ [H])" using ring_gap(1) [of H "[]" "map fst fs" h] ok by (simp add: ao_ok_def)
  moreover have "ao_ok H lo ([] @ fs @ []) h" using ok by simp
  ultimately have "ao_search H (word_of_nat n + word_of_nat sizeof_freed) h (ao_next h H) = Some H"
    using ao_search_first [of H lo "[]" fs "[]" h "n + 24"] small n by (simp add: sizeof_freed_def)
  then show ?thesis by (auto simp: ao_malloc_def sizeof_allocated_def split: prod.split option.split)
qed

end
