(* ===== verification/SamplesLayers.thy ===== *)
theory SamplesLayers
  imports SegHeap Coalesce Bits Tables Treap RecursiveLock Aoff SamplesHeap
begin

text \<open>
  Concrete states at which the properties of the remaining heap layers are applied: a segregated heap with one free object in bin 3, four
  objects with boundary tags of which the first and the third are free, a bitmap of 64 bits, an empty hash table, a treap with two nodes and a recursive lock.
\<close>

section \<open>One free object in bin 3\<close>

definition sample_seg_heap :: "nat heap" where
  "sample_seg_heap = \<lparr>hmem = sample_block_mem, source = 0, kz = kingsley_init\<lparr>sl_head := [3 \<mapsto> 4112]\<rparr>\<rparr>"

definition sample_seg :: seg where
  "sample_seg = \<lparr>seg_binmap = (\<lambda>j. if j = 0 then 12 else 0), seg_memoryHeld = 64\<rparr>"

definition sample_seg_args :: "nat heap seg_args" where
  "sample_seg_args = \<lparr>numBins = NUMBINS, getSizeClass = (\<lambda>sz. nat (size2Class sz)), getClassMaxSize = (\<lambda>c. class2Size (int c)),
     little_malloc = (\<lambda>i _. adapt_malloc i), little_free = adapt_free, little_clear = (\<lambda>i h. h), object_size = (\<lambda>p h. Inr 64),
     big_alloc = (\<lambda>sz h. Inr (None, h)), big_free = (\<lambda>p h. h), big_clear = (\<lambda>h. h)\<rparr>"

lemma sample_seg_known: "bins_known (numBins sample_seg_args) (sample_seg, sample_seg_heap)"
proof -
  have twelve: "(12 :: ulong) = push_bit 2 1 OR push_bit 3 1" by simp
  have b: "bit (12 :: ulong) j \<longleftrightarrow> j = 2 \<or> j = 3" for j unfolding twelve by (auto simp: bit_or_iff bit_push1 simp del: push_bit_of_1)
  have "NUMBINS > 3" by (simp add: NUMBINS_def)
  with b show ?thesis
    by (auto simp: bins_known_def sample_seg_def sample_seg_heap_def sample_seg_args_def words32_def marked_def kingsley_init_def split: if_splits)
qed

lemma sample_seg_class: "little_malloc sample_seg_args = (\<lambda>i _. adapt_malloc i)" "getSizeClass sample_seg_args 16 = 1"
  "getSizeClass sample_seg_args 16 < numBins sample_seg_args" "16 \<le> seg_maxObjectSize sample_seg_args"
  using sample_16 by (simp_all add: sample_seg_args_def seg_maxObjectSize_def maxObjectSize_def NUMBINS_def class2Size_def)

lemma sample_seg_least: "(LEAST i. 1 \<le> i \<and> sl_head (kz sample_seg_heap) i \<noteq> None) = 3"
  by (rule Least_equality) (auto simp: sample_seg_heap_def split: if_splits)

section \<open>Boundary tags\<close>

text \<open>The sentinels are at 100 and 200, the links of the two free objects in their first 16 bytes.\<close>

definition sample_layer :: "unit layer" where
  "sample_layer = fo_set_next 100 (Some 1112) (fo_set_prev 1112 (Some 100) (fo_set_next 1112 (Some 1016) (fo_set_prev 1016 (Some 1112)
     (fo_set_next 1016 (Some 200) (fo_set_prev 200 (Some 1016)
     \<lparr>ly_mem = store64 1008 32 (store64 1048 129 (store64 1056 32 (store64 1096 128 (store64 1104 32 (store64 1144 129
       (store64 1152 0 (store64 1160 0 (\<lambda>_. 0)))))))), ly_super = ()\<rparr>)))))"

lemma sample_tags: "tags (ly_mem sample_layer) 1000 [(32, True), (32, False), (32, True), (0, False)] 1160"
  by (simp add: sample_layer_def fo_set_prev_def fo_set_next_def hd_getSize_def hd_getPrevSize_def hd_isPrevFree_def load64_store64_other)

lemma sample_between: "between 100 200 [1112, 1016] sample_layer"
  by (simp add: sample_layer_def between_def fo_cells_def fo_prev_def fo_next_def fo_set_prev_def fo_set_next_def load64_store64_other enc_def dec_def)

section \<open>A bitmap\<close>

definition sample_bits :: bitstring where
  "sample_bits = \<lparr>bs_B = [0xFFFFFFFFFFFFFFF0, 0xFFFFFFFFFFFFFF00], bs_firstPos = 0\<rparr>"

lemma sample_first: "bs_first 64 8 4 sample_bits 0 = Inr (Some 32)"
  by code_simp

section \<open>A hash table\<close>

definition sample_table :: "(nat, nat, nat) hashmap" where
  "sample_table = hm_init INITIAL_NUM_BINS (\<lambda>_. \<lparr>nd_key = 0, nd_value = 0, nd_next = None\<rparr>) 4096"

lemma sample_table_ok: "table word_of_nat (\<lambda>_. []) sample_table" "content word_of_nat (\<lambda>_. []) sample_table = Map.empty"
  by (auto simp: table_def content_def stored_def chain_ok_def sample_table_def hm_init_def INITIAL_NUM_BINS_def)

section \<open>A treap of two free objects, and a lock that one of two threads holds\<close>

definition sample_treap :: "(ulong, nat) treap" where
  "sample_treap = \<lparr>tr_root = Some 100, tr_nodes = (\<lambda>_. \<lparr>tn_priority = 0, tn_key = 0, tn_value = 0, tn_parent = None, tn_left = None, tn_right = None\<rparr>)
     (100 := \<lparr>tn_priority = 1, tn_key = 80, tn_value = 100, tn_parent = None, tn_left = Some 200, tn_right = None\<rparr>,
      200 := \<lparr>tn_priority = 2, tn_key = 48, tn_value = 200, tn_parent = Some 100, tn_left = None, tn_right = None\<rparr>)\<rparr>"

abbreviation sample_two :: "nat tree" where
  "sample_two \<equiv> Node (Node Leaf 200 Leaf) 100 Leaf"

lemma sample_treap_inv: "treap_inv sample_treap sample_two"
  by (simp add: treap_inv_def focus_def sample_treap_def)

definition sample_cartesian :: "unit cartesian" where
  "sample_cartesian = \<lparr>ch_treap = sample_treap, ch_super = ()\<rparr>"

definition sample_sizes :: "nat \<Rightarrow> unit \<Rightarrow> ulong" where
  "sample_sizes a s = (if a = 100 then 80 else 48)"

lemma sample_cartesian_ok: "ch_ok sample_sizes {100, 200} sample_cartesian"
  unfolding ch_ok_def using sample_treap_inv
  by (intro conjI exI [of _ sample_two]) (auto simp: sample_cartesian_def sample_sizes_def sample_treap_def)

definition sample_self :: "nat \<Rightarrow> ulong" where
  "sample_self i = (if i = 0 then 4096 else 8192)"

lemma sample_currthread: "currthread sample_self 0 = 4" "currthread sample_self 1 = 8"
  by (simp_all add: currthread_def getThreadId_def sample_self_def)

lemma sample_tids: "tids_ok 2 sample_self"
proof -
  have two: "{..<2} = {0, 1 :: nat}" by (auto simp: less_2_cases_iff)
  show ?thesis unfolding tids_ok_def two by (auto simp: inj_on_def sample_currthread sample_currthread(2) [unfolded One_nat_def] less_2_cases_iff)
qed

lemma sample_held_once: "ls_reach 2 sample_self (locked_once 4)"
  using reach_locked_once [of 2 sample_self] sample_currthread(1) by simp

section \<open>One free object in an address-ordered list\<close>

definition sample_aoff :: "unit aoff" where
  "sample_aoff = new_freed 1000 200 100 100 (new_freed 100 0 1000 1000 \<lparr>ao_mem = (\<lambda>_. 0), ao_super = ()\<rparr>)"

lemma sample_aoff_ok: "ao_ok 100 1000 [(1000, 200)] sample_aoff" "ao_apart [(1000, 200)]"
proof -
  have C: "ao_cells {100, 1000}" by (simp add: ao_cells_def)
  note f = cell_fields [OF C]
  have "ao_next sample_aoff 100 = 1000" "ao_prev sample_aoff 100 = 1000" "ao_next sample_aoff 1000 = 100" "ao_prev sample_aoff 1000 = 100"
    "ao_size sample_aoff 100 = 0" "ao_size sample_aoff 1000 = 200" by (simp_all add: sample_aoff_def new_freed_def f)
  then show "ao_ok 100 1000 [(1000, 200)] sample_aoff" by (simp add: ao_ok_def ao_ring_def)
qed (simp add: ao_apart_def)

end
