(* ===== verification/AlignedChunk.thy ===== *)
theory AlignedChunk
  imports Bits
begin

text \<open>
  \<open>src/include/heaplayers/experimental/alignedchunk.h\<close>: chunks whose address is a multiple of their size, a power of two, so that the chunk of a slot is found
  by masking. A bitmap in the footer marks the slots in use; it is updated with the atomic exchange of the system, which is the argument
  \<open>xchg\<close>: from the contents of the word and the new value it gives the value it returns and the contents afterwards. The template arguments \<open>chunkSize\<close>
  and \<open>slotSize\<close> are \<open>C\<close> and \<open>S\<close>.
\<close>

section \<open>AlignHeap\<close>

definition masked :: "nat \<Rightarrow> nat \<Rightarrow> nat" where
  "masked C a = unat (word_of_nat a AND - word_of_nat C :: ulong)"

definition al_malloc :: "(ulong \<Rightarrow> 's \<Rightarrow> ptr \<times> 's) \<Rightarrow> nat \<Rightarrow> ulong \<Rightarrow> mem \<times> 's \<Rightarrow> nat \<times> mem \<times> 's" where
  "al_malloc smalloc C sz ms =
     (case ms of (m, s) \<Rightarrow>
        case smalloc (sz + word_of_nat C) s of (q, s1) \<Rightarrow>
          let buf = (case q of None \<Rightarrow> 0 | Some a \<Rightarrow> a); alignedBuf = masked C (buf + 8 + C - 1)
          in (alignedBuf, store64 (alignedBuf - 8) (word_of_nat buf) m, s1))"

definition al_free :: "(nat \<Rightarrow> 's \<Rightarrow> 's) \<Rightarrow> nat \<Rightarrow> mem \<times> 's \<Rightarrow> mem \<times> 's" where
  "al_free sfree p ms = (case ms of (m, s) \<Rightarrow> (m, sfree (unat (load64 (p - 8) m)) s))"

section \<open>AlignedChunk\<close>

datatype chunk_status = RELEASED | ACQUIRED

record achunk =
  ac_inUse :: cint
  ac_freeBitmap :: ulong
  ac_emptyBitmap :: ulong
  ac_status :: chunk_status
  ac_prev :: ptr
  ac_next :: ptr

definition sizeof_AlignedChunk :: nat where
  "sizeof_AlignedChunk = 48"

definition ac_getNumSlots :: nat where
  "ac_getNumSlots = 31"

definition ac_new :: achunk where
  "ac_new = \<lparr>ac_inUse = 0, ac_freeBitmap = bi_set 0 0, ac_emptyBitmap = bi_set 0 0, ac_status = ACQUIRED, ac_prev = None, ac_next = None\<rparr>"

definition ac_isReleased :: "achunk \<Rightarrow> bool" where
  "ac_isReleased ch = (ac_status ch = RELEASED)"

definition ac_acquire :: "achunk \<Rightarrow> achunk" where
  "ac_acquire ch = ch\<lparr>ac_status := ACQUIRED\<rparr>"

definition ac_release :: "achunk \<Rightarrow> achunk" where
  "ac_release ch = ch\<lparr>ac_status := RELEASED\<rparr>"

definition ac_getChunk :: "nat \<Rightarrow> nat \<Rightarrow> nat" where
  "ac_getChunk C p = masked C p + C - sizeof_AlignedChunk"

text \<open>
  \<open>getSlot\<close> and \<open>putSlot\<close> are cut at their accesses of the bitmap: \<open>Read_get\<close> and \<open>Read_put\<close> are before the read, \<open>Swap_get\<close> and
  \<open>Swap_put\<close> before the exchange. The count \<open>inUse\<close>, which only assertions read, is updated with the exchange. The header of the chunk is at \<open>a\<close>.
\<close>

datatype slot_result = Slot ptr | Emptied bool

datatype slot_pc = Read_get | Swap_get ulong nat | Put_slot nat | Read_put nat | Swap_put ulong nat | Finished slot_result

type_synonym interlocked = "ulong \<Rightarrow> ulong \<Rightarrow> ulong \<times> ulong"

fun slot_step :: "interlocked \<Rightarrow> nat \<Rightarrow> nat \<Rightarrow> nat \<Rightarrow> slot_pc \<Rightarrow> achunk \<Rightarrow> (slot_pc \<times> achunk) result" where
  "slot_step xchg C S a Read_get ch =
     (let currBitmap = ac_freeBitmap ch
      in if currBitmap = - 1 then Inr (Finished (Slot None), ch)
         else res_bind (bi_msb (NOT currBitmap AND - (NOT currBitmap))) (\<lambda>bitIndex.
           if ac_getNumSlots < bitIndex then Inr (Finished (Slot None), ch) else Inr (Swap_get currBitmap bitIndex, ch)))"
| "slot_step xchg C S a (Swap_get oldBitmap bitIndex) ch =
     (case xchg (ac_freeBitmap ch) (bi_set oldBitmap bitIndex) of (updated, now) \<Rightarrow>
        let ch1 = ch\<lparr>ac_freeBitmap := now\<rparr>
        in Inr (if updated = oldBitmap then (Finished (Slot (Some (masked C a + S * (ac_getNumSlots - bitIndex)))), ch1\<lparr>ac_inUse := ac_inUse ch + 1\<rparr>)
                else (Read_get, ch1)))"
| "slot_step xchg C S a (Put_slot p) ch =
     (let k = (p - masked C p) div S in if ac_getNumSlots < k then Inl OutOfBounds else Inr (Read_put (ac_getNumSlots - k), ch))"
| "slot_step xchg C S a (Read_put bitIndex) ch = Inr (Swap_put (ac_freeBitmap ch) bitIndex, ch)"
| "slot_step xchg C S a (Swap_put oldBitmap bitIndex) ch =
     (case xchg (ac_freeBitmap ch) (bi_reset oldBitmap bitIndex) of (updated, now) \<Rightarrow>
        let ch1 = ch\<lparr>ac_freeBitmap := now\<rparr>
        in Inr (if updated = oldBitmap then (Finished (Emptied (bi_reset oldBitmap bitIndex = ac_emptyBitmap ch)), ch1\<lparr>ac_inUse := ac_inUse ch - 1\<rparr>)
                else (Read_put bitIndex, ch1)))"
| "slot_step xchg C S a (Finished r) ch = Inr (Finished r, ch)"

text \<open>Alone, an operation runs until it has finished.\<close>

partial_function (option) slot_run :: "interlocked \<Rightarrow> nat \<Rightarrow> nat \<Rightarrow> nat \<Rightarrow> slot_pc \<Rightarrow> achunk \<Rightarrow> (slot_result \<times> achunk) result option" where
  "slot_run xchg C S a pc ch =
     (case slot_step xchg C S a pc ch of
        Inl e \<Rightarrow> Some (Inl e)
      | Inr (pc1, ch1) \<Rightarrow> (case pc1 of Finished r \<Rightarrow> Some (Inr (r, ch1)) | _ \<Rightarrow> slot_run xchg C S a pc1 ch1))"

definition ac_getSlot :: "interlocked \<Rightarrow> nat \<Rightarrow> nat \<Rightarrow> nat \<Rightarrow> achunk \<Rightarrow> (ptr \<times> achunk) result option" where
  "ac_getSlot xchg C S a ch = map_option (map_sum id (\<lambda>(r, ch1). (case r of Slot p \<Rightarrow> p | Emptied _ \<Rightarrow> None, ch1))) (slot_run xchg C S a Read_get ch)"

definition ac_putSlot :: "interlocked \<Rightarrow> nat \<Rightarrow> nat \<Rightarrow> nat \<Rightarrow> nat \<Rightarrow> achunk \<Rightarrow> (bool \<times> achunk) result option" where
  "ac_putSlot xchg C S a p ch = map_option (map_sum id (\<lambda>(r, ch1). (case r of Emptied b \<Rightarrow> b | Slot _ \<Rightarrow> False, ch1))) (slot_run xchg C S a (Put_slot p) ch)"

section \<open>The bitmap\<close>

text \<open>Bit 0 blocks the footer; bit 31 stands for all higher ones, since \<open>1 << 31\<close> is negative.\<close>

definition bitmap_of :: "nat set \<Rightarrow> ulong \<Rightarrow> bool" where
  "bitmap_of U b \<longleftrightarrow> U \<subseteq> {1..31} \<and> (\<forall>j<64. bit b j \<longleftrightarrow> j = 0 \<or> min j 31 \<in> U)"

definition atomic_exchange :: "interlocked \<Rightarrow> bool" where
  "atomic_exchange xchg \<longleftrightarrow> (\<forall>m v. xchg m v = (m, v))"

lemma bit_bi_on: "i < 32 \<Longrightarrow> bit (bi_on i) j \<longleftrightarrow> j < 64 \<and> min j 31 = i"
proof -
  assume i: "i < 32"
  have "bit (push_bit i 1 :: cint) n \<longleftrightarrow> n = i" for n using i by (auto simp: bit_simps)
  then show ?thesis using i by (auto simp: bi_on_def bit_signed_iff min_def simp del: push_bit_of_1)
qed

lemma bitmap_full: "bitmap_of U b \<Longrightarrow> b = - 1 \<longleftrightarrow> U = {1..31}"
proof -
  assume b: "bitmap_of U b"
  have "b = - 1 \<longleftrightarrow> (\<forall>j<64. bit b j)" by (auto simp: bit_eq_iff)
  also have "\<dots> \<longleftrightarrow> U = {1..31}"
  proof
    assume all: "\<forall>j<64. bit b j"
    have "j \<in> U" if "j \<in> {1..31}" for j using all b that by (auto simp: bitmap_of_def dest!: spec [of _ j])
    then show "U = {1..31}" using b by (auto simp: bitmap_of_def)
  qed (use b in \<open>auto simp: bitmap_of_def min_def\<close>)
  finally show ?thesis .
qed

lemma bitmap_set: "bitmap_of U b \<Longrightarrow> 1 \<le> i \<Longrightarrow> i \<le> 31 \<Longrightarrow> bitmap_of (insert i U) (bi_set b i)"
  by (auto simp: bitmap_of_def bi_set_def bit_or_iff bit_bi_on)

lemma bitmap_reset: "bitmap_of U b \<Longrightarrow> 1 \<le> i \<Longrightarrow> i \<le> 31 \<Longrightarrow> bitmap_of (U - {i}) (bi_reset b i)"
  by (auto simp: bitmap_of_def bi_reset_def bi_off_def bit_and_iff bit_not_iff bit_bi_on)

lemma bitmap_unique: "bitmap_of U b \<Longrightarrow> bitmap_of V c \<Longrightarrow> b = c \<longleftrightarrow> U = V"
proof
  assume b: "bitmap_of U b" and c: "bitmap_of V c" and eq: "b = c"
  show "U = V"
  proof (rule set_eqI)
    fix j show "j \<in> U \<longleftrightarrow> j \<in> V"
    proof (cases "1 \<le> j \<and> j \<le> 31")
      case True then show ?thesis using b c eq unfolding bitmap_of_def by (auto dest!: spec [of _ j])
    qed (use b c in \<open>auto simp: bitmap_of_def\<close>)
  qed
next
  assume "bitmap_of U b" "bitmap_of V c" "U = V"
  then show "b = c" by (auto simp: bitmap_of_def intro!: bit_word_eqI)
qed

lemma bitmap_new: "bitmap_of {} (ac_freeBitmap ac_new)" "ac_emptyBitmap ac_new = ac_freeBitmap ac_new"
  by (auto simp: bitmap_of_def ac_new_def bi_set_def bit_bi_on min_def)

text \<open>The index that \<open>getSlot\<close> finds is that of the lowest clear bit.\<close>

lemma lowest_clear:
  assumes b: "bitmap_of U b" and i: "i \<in> {1..31}" "i \<notin> U" "\<And>j. 1 \<le> j \<Longrightarrow> j < i \<Longrightarrow> j \<in> U"
  shows "bi_msb (NOT b AND - (NOT b)) = Inr i"
proof -
  have "bit b j \<longleftrightarrow> j = 0 \<or> min j 31 \<in> U" if "j < 64" for j using b that by (simp add: bitmap_of_def)
  moreover have "j = 0 \<or> min j 31 \<in> U" if "j < i" for j using i that by (cases "j = 0") (auto simp: min_def)
  ultimately have "bit (NOT b) i" "\<And>j. j < i \<Longrightarrow> \<not> bit (NOT b) j" using i(1,2) by (auto simp: bit_not_iff min_def)
  from lowest_split [OF this] have p: "NOT b AND - (NOT b) = push_bit i 1" .
  have u: "unat (push_bit i 1 :: ulong) = 2 ^ i" using i(1) by (intro unat_push1) simp
  then have "push_bit i 1 \<noteq> (0 :: ulong)" by (metis unat_0 power_not_zero zero_neq_numeral)
  moreover have "(2 :: nat) ^ i < 2 ^ 32" using i(1) by (intro power_strict_increasing) auto
  ultimately obtain n where n: "bi_msb (push_bit i 1) = Inr n" "(2 :: nat) ^ n \<le> 2 ^ i" "(2 :: nat) ^ i < 2 ^ Suc n"
    using bi_msb_exact [of "push_bit i 1"] unfolding u by auto
  then have "n = i" by (simp add: power_increasing_iff power_strict_increasing_iff del: power_Suc)
  with n(1) p show ?thesis by simp
qed

section \<open>Slots\<close>

lemma masked_eq:
  assumes "C = 2 ^ k" and "k < 64" and "C dvd b" and "b + C \<le> 2 ^ 64" and "b \<le> a" and "a < b + C"
  shows "masked C a = b"
proof -
  have m: "- word_of_nat C = (NOT (mask k) :: ulong)" using minus_exp_eq_not_mask [of k, where 'a = "64 word"] by (simp add: assms(1))
  have "(word_of_nat a :: ulong) AND NOT (mask k) = push_bit k (drop_bit k (word_of_nat a))"
    by (rule bit_word_eqI) (auto simp: bit_simps)
  moreover have "unat (push_bit k 1 :: ulong) = 2 ^ k" using assms(2) by (rule unat_push1)
  then have "unat (2 ^ k :: ulong) = 2 ^ k" by simp
  moreover have "unat (word_of_nat a :: ulong) = a" using assms(4,6) by (simp add: unat_of_nat)
  ultimately have "unat ((word_of_nat a :: ulong) AND NOT (mask k)) = (a div 2 ^ k * 2 ^ k) mod 2 ^ 64"
    by (simp add: push_bit_eq_mult unat_word_ariths unat_drop_div)
  moreover from assms(3) obtain q where q: "b = C * q" by (rule dvdE)
  then have "a div 2 ^ k = q" using assms(1,5,6) by (intro div_nat_eqI) simp_all
  moreover have "b mod 2 ^ 64 = b" using assms(4,5,6) by (intro mod_less) linarith
  ultimately show ?thesis unfolding masked_def m using q assms(1) by (simp add: mult.commute)
qed

definition slot_at :: "nat \<Rightarrow> nat \<Rightarrow> nat \<Rightarrow> nat" where
  "slot_at S b i = b + S * (31 - i)"

definition header_at :: "nat \<Rightarrow> nat \<Rightarrow> nat" where
  "header_at C b = b + C - sizeof_AlignedChunk"

text \<open>What the constructor asserts of the sizes, and of the place of a chunk.\<close>

definition chunk_sizes :: "nat \<Rightarrow> nat \<Rightarrow> bool" where
  "chunk_sizes C S \<longleftrightarrow> (\<exists>k<63. C = 2 ^ k) \<and> 8 \<le> S \<and> 31 * S + sizeof_AlignedChunk \<le> C"

definition aligned_at :: "nat \<Rightarrow> nat \<Rightarrow> bool" where
  "aligned_at C b \<longleftrightarrow> C dvd b \<and> b + C \<le> 2 ^ 64"

lemma masked_at:
  assumes "chunk_sizes C S" and "aligned_at C b"
  shows "masked C b = b" "masked C (header_at C b) = b" "i \<in> {1..31} \<Longrightarrow> masked C (slot_at S b i) = b" "ac_getChunk C b = header_at C b"
    "i \<in> {1..31} \<Longrightarrow> ac_getChunk C (slot_at S b i) = header_at C b"
proof -
  from assms obtain k where k: "C = 2 ^ k" "k < 64" and s: "8 \<le> S" "31 * S + 48 \<le> C" and b: "C dvd b" "b + C \<le> 2 ^ 64"
    by (auto simp: chunk_sizes_def aligned_at_def sizeof_AlignedChunk_def)
  note m = masked_eq [OF k b]
  show 1: "masked C b = b" using s by (intro m) simp_all
  show "masked C (header_at C b) = b" using s by (intro m) (simp_all add: header_at_def sizeof_AlignedChunk_def)
  have "S * (31 - i) \<le> 31 * S" by simp
  then show 2: "masked C (slot_at S b i) = b" using s unfolding slot_at_def by (intro m) linarith+
  show "ac_getChunk C b = header_at C b" "ac_getChunk C (slot_at S b i) = header_at C b" by (simp_all add: ac_getChunk_def header_at_def 1 2)
qed

text \<open>The slots of a chunk are apart from each other and from its footer.\<close>

lemma slots_apart:
  assumes "chunk_sizes C S" and "i \<in> {1..31}" and "j \<in> {1..31}" and "i < j"
  shows "slot_at S b j + S \<le> slot_at S b i" "slot_at S b i + S \<le> header_at C b"
proof -
  have "S * (31 - j) + S \<le> S * (31 - i)" using assms(3,4) by (metis (no_types) Suc_diff_Suc Suc_leI atLeastAtMost_iff diff_less_mono2 less_le_trans mult_Suc_right mult_le_mono2 add.commute)
  then show "slot_at S b j + S \<le> slot_at S b i" by (simp add: slot_at_def)
  have "S * (31 - i) + S = S * Suc (31 - i)" by simp
  also have "\<dots> \<le> S * 31" using assms(2) by (intro mult_le_mono2) auto
  finally have "S * (31 - i) + S \<le> S * 31" .
  moreover have "31 * S + 48 \<le> C" using assms(1) by (simp add: chunk_sizes_def sizeof_AlignedChunk_def)
  ultimately have "S * (31 - i) + S + 48 \<le> C" by linarith
  then show "slot_at S b i + S \<le> header_at C b" unfolding slot_at_def header_at_def sizeof_AlignedChunk_def by linarith
qed

lemma least_clear:
  fixes U :: "nat set"
  assumes "U \<subseteq> {1..31}" and "U \<noteq> {1..31}"
  obtains i where "i = (LEAST i. 1 \<le> i \<and> i \<notin> U)" "i \<in> {1..31}" "i \<notin> U" "\<And>j. 1 \<le> j \<Longrightarrow> j < i \<Longrightarrow> j \<in> U"
proof -
  define i where "i = (LEAST i. 1 \<le> i \<and> i \<notin> U)"
  from assms obtain x where "x \<in> {1..31}" "x \<notin> U" by blast
  then have x: "1 \<le> x" "x \<le> 31" "x \<notin> U" by simp_all
  have "1 \<le> i \<and> i \<notin> U" unfolding i_def by (rule LeastI [of "\<lambda>i. 1 \<le> i \<and> i \<notin> U" x]) (use x in simp)
  moreover have "i \<le> x" unfolding i_def by (rule Least_le) (use x in simp)
  ultimately have "i \<in> {1..31}" "i \<notin> U" using x(2) by simp_all
  moreover have "j \<in> U" if "1 \<le> j" "j < i" for j using not_less_Least [of j "\<lambda>i. 1 \<le> i \<and> i \<notin> U"] that unfolding i_def by blast
  ultimately show ?thesis by (rule that [OF i_def])
qed

lemma ac_getSlot_full:
  assumes "bitmap_of {1..31} (ac_freeBitmap ch)"
  shows "ac_getSlot xchg C S a ch = Some (Inr (None, ch))"
  using bitmap_full [OF assms] by (simp add: ac_getSlot_def slot_run.simps [of _ _ _ _ Read_get] Let_def)

lemma ac_getSlot_lowest:
  assumes x: "atomic_exchange xchg" and b: "bitmap_of U (ac_freeBitmap ch)" and i: "i \<in> {1..31}" "i \<notin> U" "\<And>j. 1 \<le> j \<Longrightarrow> j < i \<Longrightarrow> j \<in> U"
  shows "ac_getSlot xchg C S a ch =
    Some (Inr (Some (masked C a + S * (31 - i)), ch\<lparr>ac_freeBitmap := bi_set (ac_freeBitmap ch) i, ac_inUse := ac_inUse ch + 1\<rparr>))"
proof -
  have "ac_freeBitmap ch \<noteq> - 1" using bitmap_full [OF b] i(1,2) by auto
  moreover have "bi_msb (NOT (ac_freeBitmap ch) AND - (NOT (ac_freeBitmap ch))) = Inr i" by (rule lowest_clear [OF b i])
  ultimately have "slot_step xchg C S a Read_get ch = Inr (Swap_get (ac_freeBitmap ch) i, ch)"
    using i(1) unfolding slot_step.simps(1) Let_def by (simp add: ac_getNumSlots_def)
  then show ?thesis using x
    by (simp add: ac_getSlot_def slot_run.simps [of _ _ _ _ Read_get] slot_run.simps [of _ _ _ _ "Swap_get _ _"] atomic_exchange_def ac_getNumSlots_def
        del: slot_step.simps(1))
qed

lemma ac_putSlot_clears:
  assumes x: "atomic_exchange xchg" and b: "bitmap_of U (ac_freeBitmap ch)" "bitmap_of {} (ac_emptyBitmap ch)"
    and c: "chunk_sizes C S" "aligned_at C d" and i: "i \<in> {1..31}"
  shows "ac_putSlot xchg C S a (slot_at S d i) ch =
    Some (Inr (U \<subseteq> {i}, ch\<lparr>ac_freeBitmap := bi_reset (ac_freeBitmap ch) i, ac_inUse := ac_inUse ch - 1\<rparr>))"
proof -
  have "0 < S" using c(1) by (simp add: chunk_sizes_def)
  then have "slot_step xchg C S a (Put_slot (slot_at S d i)) ch = Inr (Read_put i, ch)"
    using masked_at(3) [OF c i] i by (auto simp: Let_def ac_getNumSlots_def slot_at_def)
  moreover have "bi_reset (ac_freeBitmap ch) i = ac_emptyBitmap ch \<longleftrightarrow> U \<subseteq> {i}"
    using bitmap_unique [OF bitmap_reset [OF b(1), of i] b(2)] i by auto
  ultimately show ?thesis using x
    by (simp add: ac_putSlot_def slot_run.simps [of _ _ _ _ "Put_slot _"] slot_run.simps [of _ _ _ _ "Read_put _"] slot_run.simps [of _ _ _ _ "Swap_put _ _"] atomic_exchange_def Let_def
        del: slot_step.simps(3))
qed

section \<open>Interleaved, two threads can get the same slot\<close>

text \<open>
  Threads that share a chunk take the steps of their operations in any order. A thread may put the slots it holds.
  The exchange stores its value even where another thread has changed the bitmap since it was read, so that the change is lost.
\<close>

record slots =
  sl_chunk :: achunk
  sl_pc :: "nat \<Rightarrow> slot_pc option"
  sl_held :: "nat \<Rightarrow> nat set"

fun sl_return :: "nat \<Rightarrow> slot_pc \<Rightarrow> slots \<Rightarrow> slots" where
  "sl_return t (Finished (Slot (Some p))) s = s\<lparr>sl_pc := (sl_pc s)(t := None), sl_held := (sl_held s)(t := insert p (sl_held s t))\<rparr>"
| "sl_return t (Finished r) s = s\<lparr>sl_pc := (sl_pc s)(t := None)\<rparr>"
| "sl_return t pc s = s\<lparr>sl_pc := (sl_pc s)(t := Some pc)\<rparr>"

inductive slots_step :: "interlocked \<Rightarrow> nat \<Rightarrow> nat \<Rightarrow> nat \<Rightarrow> slots \<Rightarrow> slots \<Rightarrow> bool" for xchg C S a where
  call_get: "sl_pc s t = None \<Longrightarrow> slots_step xchg C S a s (s\<lparr>sl_pc := (sl_pc s)(t := Some Read_get)\<rparr>)"
| call_put: "sl_pc s t = None \<Longrightarrow> p \<in> sl_held s t
    \<Longrightarrow> slots_step xchg C S a s (s\<lparr>sl_pc := (sl_pc s)(t := Some (Put_slot p)), sl_held := (sl_held s)(t := sl_held s t - {p})\<rparr>)"
| run: "sl_pc s t = Some pc \<Longrightarrow> slot_step xchg C S a pc (sl_chunk s) = Inr (pc', ch) \<Longrightarrow> slots_step xchg C S a s (sl_return t pc' (s\<lparr>sl_chunk := ch\<rparr>))"

definition sl_init :: slots where
  "sl_init = \<lparr>sl_chunk = ac_new, sl_pc = (\<lambda>_. None), sl_held = (\<lambda>_. {})\<rparr>"

text \<open>A step is determined by the thread that takes it.\<close>

definition sl_run :: "interlocked \<Rightarrow> nat \<Rightarrow> nat \<Rightarrow> nat \<Rightarrow> nat \<Rightarrow> slots \<Rightarrow> slots" where
  "sl_run xchg C S a t s =
     (case sl_pc s t of
        None \<Rightarrow> s\<lparr>sl_pc := (sl_pc s)(t := Some Read_get)\<rparr>
      | Some pc \<Rightarrow> (case slot_step xchg C S a pc (sl_chunk s) of Inl e \<Rightarrow> s | Inr (pc', ch) \<Rightarrow> sl_return t pc' (s\<lparr>sl_chunk := ch\<rparr>)))"

lemma sl_run_step: "(slots_step xchg C S a)\<^sup>*\<^sup>* s (sl_run xchg C S a t s)"
  by (auto simp: sl_run_def split: option.split sum.split intro!: r_into_rtranclp call_get run)

lemma sl_fold_steps: "(slots_step xchg C S a)\<^sup>*\<^sup>* s (fold (sl_run xchg C S a) ts s)"
  by (induction ts arbitrary: s) (auto intro: rtranclp_trans sl_run_step)

lemma small_bitmaps: "bi_set 0 0 = 1" "bi_set 1 1 = 3" "bi_set 3 2 = 7"
  by (simp_all add: bi_set_def bi_on_def)

lemma small_reads:
  "ac_freeBitmap ch = 1 \<Longrightarrow> slot_step xchg C S a Read_get ch = Inr (Swap_get 1 1, ch)"
  "ac_freeBitmap ch = 3 \<Longrightarrow> slot_step xchg C S a Read_get ch = Inr (Swap_get 3 2, ch)"
  by (simp_all add: bi_msb_def msb_step_def bi_lgtable_def ac_getNumSlots_def)

theorem slot_given_twice:
  assumes "atomic_exchange xchg"
  shows "\<exists>s. (slots_step xchg C S a)\<^sup>*\<^sup>* sl_init s \<and> masked C a + S * 29 \<in> sl_held s 0 \<inter> sl_held s 1"
proof -
  let ?r = "sl_run xchg C S a"
  define s where "s = fold ?r [0, 0, 1, 1, 1, 1, 1, 1, 0, 0, 0] sl_init"
  have "(slots_step xchg C S a)\<^sup>*\<^sup>* sl_init s" unfolding s_def by (rule sl_fold_steps)
  moreover have "masked C a + S * 29 \<in> sl_held s 0 \<inter> sl_held s 1"
    using assms by (simp add: s_def sl_run_def sl_init_def ac_new_def small_bitmaps small_reads atomic_exchange_def Let_def ac_getNumSlots_def
        del: slot_step.simps(1) One_nat_def)
  ultimately show ?thesis by blast
qed

section \<open>The heap of chunks\<close>

text \<open>The chunks are in memory, by the address of their header. The class keeps released chunks in a list, linked through \<open>next\<close>.\<close>

record 's aheap =
  ah_chunks :: "nat \<Rightarrow> achunk"
  ah_chunkList :: ptr
  ah_length :: cint
  ah_super :: 's

definition ah_init :: "(nat \<Rightarrow> achunk) \<Rightarrow> 's \<Rightarrow> 's aheap" where
  "ah_init m s = \<lparr>ah_chunks = m, ah_chunkList = None, ah_length = 0, ah_super = s\<rparr>"

definition on_chunk :: "nat \<Rightarrow> (achunk \<Rightarrow> achunk) \<Rightarrow> 's aheap \<Rightarrow> 's aheap" where
  "on_chunk c f h = h\<lparr>ah_chunks := (ah_chunks h)(c := f (ah_chunks h c))\<rparr>"

text \<open>Without memory below, the constructor runs at the address NULL leads to.\<close>

definition ah_malloc :: "(ulong \<Rightarrow> 's \<Rightarrow> ptr \<times> 's) \<Rightarrow> nat \<Rightarrow> 's aheap \<Rightarrow> (nat \<times> 's aheap) result" where
  "ah_malloc smalloc C h =
     (case ah_chunkList h of
        Some ch \<Rightarrow> Inr (masked C ch, on_chunk ch ac_acquire (h\<lparr>ah_chunkList := ac_next (ah_chunks h ch), ah_length := ah_length h - 1\<rparr>))
      | None \<Rightarrow> (case smalloc (word_of_nat C) (ah_super h) of (q, s) \<Rightarrow> res_bind (deref q) (\<lambda>buf.
          let ch = ac_getChunk C buf in Inr (masked C ch, on_chunk ch (\<lambda>_. ac_new) (h\<lparr>ah_super := s\<rparr>)))))"

definition ah_free :: "(nat \<Rightarrow> 's \<Rightarrow> 's) \<Rightarrow> cint \<Rightarrow> nat \<Rightarrow> nat \<Rightarrow> 's aheap \<Rightarrow> 's aheap" where
  "ah_free sfree maxFree C p h =
     (let ch = ac_getChunk C p
      in if maxFree <s ah_length h then h\<lparr>ah_super := sfree (masked C ch) (ah_super h)\<rparr>
         else on_chunk ch (\<lambda>c. c\<lparr>ac_next := ah_chunkList h\<rparr>) (h\<lparr>ah_chunkList := Some ch, ah_length := ah_length h + 1\<rparr>))"

definition ah_size :: "nat \<Rightarrow> nat \<Rightarrow> nat" where
  "ah_size S p = S"

text \<open>The destructor; it would not end on a cycle.\<close>

partial_function (option) ah_destroy_loop :: "(nat \<Rightarrow> 's \<Rightarrow> 's) \<Rightarrow> nat \<Rightarrow> (nat \<Rightarrow> achunk) \<Rightarrow> ptr \<Rightarrow> 's \<Rightarrow> 's option" where
  "ah_destroy_loop sfree C m q s =
     (case q of None \<Rightarrow> Some s | Some ch \<Rightarrow> ah_destroy_loop sfree C m (ac_next (m ch)) (sfree (masked C ch) s))"

definition ah_destroy :: "(nat \<Rightarrow> 's \<Rightarrow> 's) \<Rightarrow> nat \<Rightarrow> 's aheap \<Rightarrow> 's option" where
  "ah_destroy sfree C h = ah_destroy_loop sfree C (ah_chunks h) (ah_chunkList h) (ah_super h)"

section \<open>The heap of slots\<close>

text \<open>It is modelled over the heap of chunks, as \<open>AlignedChunkHeapFoo\<close> composes them.\<close>

record 's asheap =
  as_myChunk :: ptr
  as_heap :: "'s aheap"

definition as_init :: "'s aheap \<Rightarrow> 's asheap" where
  "as_init h = \<lparr>as_myChunk = None, as_heap = h\<rparr>"

definition as_chunk :: "(ulong \<Rightarrow> 's \<Rightarrow> ptr \<times> 's) \<Rightarrow> nat \<Rightarrow> 's asheap \<Rightarrow> (nat \<times> 's aheap) result" where
  "as_chunk smalloc C h =
     (case as_myChunk h of
        Some c \<Rightarrow> Inr (c, as_heap h)
      | None \<Rightarrow> res_bind (ah_malloc smalloc C (as_heap h)) (\<lambda>(p, h1). Inr (ac_getChunk C p, h1)))"

partial_function (option) as_malloc :: "interlocked \<Rightarrow> (ulong \<Rightarrow> 's \<Rightarrow> ptr \<times> 's) \<Rightarrow> nat \<Rightarrow> nat \<Rightarrow> 's asheap \<Rightarrow> (nat \<times> 's asheap) result option" where
  "as_malloc xchg smalloc C S h =
     (case as_chunk smalloc C h of
        Inl e \<Rightarrow> Some (Inl e)
      | Inr (c, h1) \<Rightarrow> Option.bind (ac_getSlot xchg C S c (ah_chunks h1 c)) (\<lambda>r. case r of
            Inl e \<Rightarrow> Some (Inl e)
          | Inr (Some p, ch) \<Rightarrow> Some (Inr (p, \<lparr>as_myChunk = Some c, as_heap = on_chunk c (\<lambda>_. ch) h1\<rparr>))
          | Inr (None, ch) \<Rightarrow> as_malloc xchg smalloc C S \<lparr>as_myChunk = None, as_heap = on_chunk c (\<lambda>_. ac_release ch) h1\<rparr>))"

definition as_free :: "interlocked \<Rightarrow> (nat \<Rightarrow> 's \<Rightarrow> 's) \<Rightarrow> cint \<Rightarrow> nat \<Rightarrow> nat \<Rightarrow> nat \<Rightarrow> 's asheap \<Rightarrow> 's asheap result option" where
  "as_free xchg sfree maxFree C S p h =
     (let c = ac_getChunk C p
      in map_option (\<lambda>r. res_bind r (\<lambda>(empty, ch).
           let h1 = on_chunk c (\<lambda>_. ch) (as_heap h)
           in Inr (h\<lparr>as_heap := if empty \<and> ac_isReleased ch then ah_free sfree maxFree C (masked C c) h1 else h1\<rparr>)))
         (ac_putSlot xchg C S c p (ah_chunks (as_heap h) c)))"

definition as_destroy :: "(nat \<Rightarrow> 's \<Rightarrow> 's) \<Rightarrow> cint \<Rightarrow> nat \<Rightarrow> 's asheap \<Rightarrow> 's asheap" where
  "as_destroy sfree maxFree C h =
     (case as_myChunk h of
        None \<Rightarrow> h
      | Some c \<Rightarrow> h\<lparr>as_heap := ah_free sfree maxFree C (masked C c) (on_chunk c ac_release (as_heap h))\<rparr>)"

section \<open>The invariant of the heap of slots\<close>

fun ac_listed :: "nat \<Rightarrow> (nat \<Rightarrow> achunk) \<Rightarrow> ptr \<Rightarrow> nat list \<Rightarrow> bool" where
  "ac_listed C m q [] \<longleftrightarrow> q = None"
| "ac_listed C m q (b # bs) \<longleftrightarrow> q = Some (header_at C b) \<and> ac_listed C m (ac_next (m (header_at C b))) bs"

text \<open>
  The chunks at \<open>G\<close> have the slots \<open>U\<close> in use; all of them but the current one are released and have a slot in use; the chunks at \<open>L\<close> are kept
  empty in the list.
\<close>

definition chunk_at :: "nat \<Rightarrow> (nat \<Rightarrow> achunk) \<Rightarrow> nat set \<Rightarrow> nat \<Rightarrow> bool" where
  "chunk_at C m V b \<longleftrightarrow> aligned_at C b \<and> bitmap_of {} (ac_emptyBitmap (m (header_at C b))) \<and> bitmap_of V (ac_freeBitmap (m (header_at C b)))"

definition as_ok :: "nat \<Rightarrow> nat set \<Rightarrow> (nat \<Rightarrow> nat set) \<Rightarrow> nat list \<Rightarrow> 's asheap \<Rightarrow> bool" where
  "as_ok C G U L h \<longleftrightarrow>
     (let m = ah_chunks (as_heap h)
      in (\<forall>b \<in> G. chunk_at C m (U b) b \<and> (as_myChunk h = Some (header_at C b) \<or> ac_isReleased (m (header_at C b)) \<and> U b \<noteq> {}))
       \<and> (\<forall>b \<in> set L. chunk_at C m {} b)
       \<and> G \<inter> set L = {} \<and> distinct L \<and> ac_listed C m (ah_chunkList (as_heap h)) L
       \<and> (\<forall>c. as_myChunk h = Some c \<longrightarrow> c \<in> header_at C ` G \<and> \<not> ac_isReleased (m c)))"

lemma header_inj: "header_at C b = header_at C d \<longleftrightarrow> b = d" if "sizeof_AlignedChunk \<le> C" for b d
  using that by (auto simp: header_at_def)

lemma ac_listed_same:
  "(\<And>b. b \<in> set L \<Longrightarrow> ac_next (m' (header_at C b)) = ac_next (m (header_at C b))) \<Longrightarrow> ac_listed C m' q L = ac_listed C m q L"
  by (induction L arbitrary: q) auto

lemma chunk_at_other: "d \<noteq> b \<Longrightarrow> sizeof_AlignedChunk \<le> C \<Longrightarrow> chunk_at C (m(header_at C b := x)) V d = chunk_at C m V d"
  by (simp add: chunk_at_def header_inj)

lemma ac_listed_other: "b \<notin> set L \<Longrightarrow> sizeof_AlignedChunk \<le> C \<Longrightarrow> ac_listed C (m(header_at C b := x)) q L = ac_listed C m q L"
  by (rule ac_listed_same) (auto simp: header_inj)

lemma chunks_at_other:
  "b \<notin> B \<Longrightarrow> sizeof_AlignedChunk \<le> C \<Longrightarrow> (\<forall>d\<in>B. chunk_at C (m(header_at C b := x)) V d) = (\<forall>d\<in>B. chunk_at C m V d)"
  by (metis chunk_at_other)

lemma as_malloc_current:
  assumes x: "atomic_exchange xchg" and sz: "chunk_sizes C S" and ok: "as_ok C G U L h" and b: "b \<in> G" "as_myChunk h = Some (header_at C b)" "U b \<noteq> {1..31}"
  shows "\<exists>i h'. as_malloc xchg smalloc C S h = Some (Inr (slot_at S b i, h')) \<and> i \<in> {1..31} \<and> i \<notin> U b \<and> as_ok C G (U(b := insert i (U b))) L h'
     \<and> ah_super (as_heap h') = ah_super (as_heap h)"
proof -
  let ?m = "ah_chunks (as_heap h)" and ?c = "header_at C b"
  have C: "sizeof_AlignedChunk \<le> C" using sz by (auto simp: chunk_sizes_def)
  from ok b(1) have c: "chunk_at C ?m (U b) b" "b \<notin> set L" by (auto simp: as_ok_def Let_def)
  then have bm: "bitmap_of (U b) (ac_freeBitmap (?m ?c))" and al: "aligned_at C b" by (simp_all add: chunk_at_def)
  from bm have "U b \<subseteq> {1..31}" by (simp add: bitmap_of_def)
  from least_clear [OF this b(3)] obtain i where i: "i \<in> {1..31}" "i \<notin> U b" "\<And>j. 1 \<le> j \<Longrightarrow> j < i \<Longrightarrow> j \<in> U b" by metis
  let ?ch = "?m ?c\<lparr>ac_freeBitmap := bi_set (ac_freeBitmap (?m ?c)) i, ac_inUse := ac_inUse (?m ?c) + 1\<rparr>"
  define h' where "h' = \<lparr>as_myChunk = Some ?c, as_heap = on_chunk ?c (\<lambda>_. ?ch) (as_heap h)\<rparr>"
  have "as_malloc xchg smalloc C S h = Some (Inr (slot_at S b i, h'))"
    using ac_getSlot_lowest [OF x bm i, of C S ?c] masked_at(2) [OF sz al] b(2)
    by (subst as_malloc.simps) (simp add: as_chunk_def slot_at_def h'_def)
  moreover have "as_ok C G (U(b := insert i (U b))) L h'"
  proof -
    have m': "ah_chunks (as_heap h') = ?m(?c := ?ch)" "as_myChunk h' = as_myChunk h" "ah_chunkList (as_heap h') = ah_chunkList (as_heap h)"
      by (simp_all add: h'_def on_chunk_def b(2))
    have "chunk_at C (?m(?c := ?ch)) (insert i (U b)) b" using c(1) bitmap_set [OF bm] i(1) by (simp add: chunk_at_def)
    moreover have "ac_isReleased ?ch = ac_isReleased (?m ?c)" by (simp add: ac_isReleased_def)
    ultimately show ?thesis using ok b(1,2) c(2) unfolding as_ok_def Let_def m'
      by (auto simp: chunk_at_other [OF _ C] chunks_at_other [OF _ C] ac_listed_other [OF _ C] header_inj [OF C])
  qed
  ultimately show ?thesis using i(1,2) by (intro exI [of _ i] exI [of _ h']) (simp add: h'_def on_chunk_def)
qed

text \<open>A chunk comes from the list or, aligned and new, from below.\<close>

definition supplied :: "(ulong \<Rightarrow> 's \<Rightarrow> ptr \<times> 's) \<Rightarrow> nat \<Rightarrow> nat set \<Rightarrow> nat list \<Rightarrow> 's \<Rightarrow> bool" where
  "supplied smalloc C G L s \<longleftrightarrow>
     L \<noteq> [] \<or> (case smalloc (word_of_nat C) s of (None, _) \<Rightarrow> False | (Some b, _) \<Rightarrow> aligned_at C b \<and> b \<notin> G)"

lemma as_fetch:
  assumes sz: "chunk_sizes C S" and ok: "as_ok C G U L h" and none: "as_myChunk h = None"
    and from_below: "supplied smalloc C G L (ah_super (as_heap h))"
  shows "\<exists>b h1 L'. as_chunk smalloc C h = Inr (header_at C b, h1) \<and> b \<notin> G \<and> as_ok C (insert b G) (U(b := {})) L' \<lparr>as_myChunk = Some (header_at C b), as_heap = h1\<rparr>
    \<and> set L = set L' \<union> (if L = [] then {} else {b})"
proof (cases L)
  case (Cons b L')
  let ?m = "ah_chunks (as_heap h)" and ?c = "header_at C b"
  have C: "sizeof_AlignedChunk \<le> C" using sz by (auto simp: chunk_sizes_def)
  from ok Cons have b: "chunk_at C ?m {} b" "b \<notin> G" "b \<notin> set L'" "ah_chunkList (as_heap h) = Some ?c" "ac_listed C ?m (ac_next (?m ?c)) L'"
    by (auto simp: as_ok_def Let_def)
  then have al: "aligned_at C b" by (simp add: chunk_at_def)
  define h1 where "h1 = on_chunk ?c ac_acquire ((as_heap h)\<lparr>ah_chunkList := ac_next (?m ?c), ah_length := ah_length (as_heap h) - 1\<rparr>)"
  have "as_chunk smalloc C h = Inr (?c, h1)"
    using masked_at(2,4) [OF sz al] by (simp add: as_chunk_def none ah_malloc_def b(4) h1_def)
  moreover have "as_ok C (insert b G) (U(b := {})) L' \<lparr>as_myChunk = Some ?c, as_heap = h1\<rparr>"
  proof -
    have m': "ah_chunks h1 = ?m(?c := ac_acquire (?m ?c))" "ah_chunkList h1 = ac_next (?m ?c)" by (simp_all add: h1_def on_chunk_def)
    have "chunk_at C (?m(?c := ac_acquire (?m ?c))) {} b" using b(1) by (simp add: chunk_at_def ac_acquire_def)
    moreover have "\<not> ac_isReleased (ac_acquire (?m ?c))" by (simp add: ac_isReleased_def ac_acquire_def)
    ultimately show ?thesis using ok b none Cons unfolding as_ok_def Let_def
      by (auto simp: m' chunk_at_other [OF _ C] chunks_at_other [OF _ C] ac_listed_other [OF _ C] header_inj [OF C])
  qed
  ultimately show ?thesis using b(2) Cons by (intro exI [of _ b] exI [of _ h1] exI [of _ L']) auto
next
  case Nil
  with from_below obtain b s where b: "smalloc (word_of_nat C) (ah_super (as_heap h)) = (Some b, s)" "aligned_at C b" "b \<notin> G" by (auto simp: supplied_def split: prod.splits option.splits)
  let ?m = "ah_chunks (as_heap h)" and ?c = "header_at C b"
  have C: "sizeof_AlignedChunk \<le> C" using sz by (auto simp: chunk_sizes_def)
  have list: "ah_chunkList (as_heap h) = None" using ok Nil by (simp add: as_ok_def Let_def)
  define h1 where "h1 = on_chunk ?c (\<lambda>_. ac_new) ((as_heap h)\<lparr>ah_super := s\<rparr>)"
  have "as_chunk smalloc C h = Inr (?c, h1)"
    using masked_at(2,4) [OF sz b(2)] by (simp add: as_chunk_def none ah_malloc_def list b(1) h1_def Let_def)
  moreover have "as_ok C (insert b G) (U(b := {})) [] \<lparr>as_myChunk = Some ?c, as_heap = h1\<rparr>"
  proof -
    have m': "ah_chunks h1 = ?m(?c := ac_new)" "ah_chunkList h1 = None" by (simp_all add: h1_def on_chunk_def list)
    have "chunk_at C (?m(?c := ac_new)) {} b" using b(2) bitmap_new by (simp add: chunk_at_def)
    moreover have "\<not> ac_isReleased ac_new" by (simp add: ac_isReleased_def ac_new_def)
    ultimately show ?thesis using ok b(3) none Nil unfolding as_ok_def Let_def
      by (auto simp: m' chunk_at_other [OF _ C] header_inj [OF C])
  qed
  ultimately show ?thesis using b(3) Nil by (intro exI [of _ b] exI [of _ h1] exI [of _ "[]"]) auto
qed

text \<open>A chunk that is full is let go.\<close>

lemma as_let_go:
  assumes sz: "chunk_sizes C S" and ok: "as_ok C G U L h" and b: "b \<in> G" "as_myChunk h = Some (header_at C b)" "U b = {1..31}"
  shows "\<exists>h1. as_malloc xchg smalloc C S h = as_malloc xchg smalloc C S h1 \<and> as_ok C G U L h1 \<and> as_myChunk h1 = None \<and> ah_super (as_heap h1) = ah_super (as_heap h)"
proof -
  let ?m = "ah_chunks (as_heap h)" and ?c = "header_at C b"
  have C: "sizeof_AlignedChunk \<le> C" using sz by (auto simp: chunk_sizes_def)
  from ok b(1) have c: "chunk_at C ?m (U b) b" "b \<notin> set L" by (auto simp: as_ok_def Let_def)
  define h1 where "h1 = \<lparr>as_myChunk = None, as_heap = on_chunk ?c (\<lambda>_. ac_release (?m ?c)) (as_heap h)\<rparr>"
  have "ac_getSlot xchg C S ?c (?m ?c) = Some (Inr (None, ?m ?c))" using c(1) b(3) by (intro ac_getSlot_full) (simp add: chunk_at_def)
  then have "as_malloc xchg smalloc C S h = as_malloc xchg smalloc C S h1" by (subst as_malloc.simps) (simp add: as_chunk_def b(2) h1_def)
  moreover have "as_ok C G U L h1"
  proof -
    have m': "ah_chunks (as_heap h1) = ?m(?c := ac_release (?m ?c))" "as_myChunk h1 = None" "ah_chunkList (as_heap h1) = ah_chunkList (as_heap h)"
      by (simp_all add: h1_def on_chunk_def)
    have "chunk_at C (?m(?c := ac_release (?m ?c))) (U b) b" using c(1) by (simp add: chunk_at_def ac_release_def)
    moreover have "ac_isReleased (ac_release (?m ?c))" by (simp add: ac_isReleased_def ac_release_def)
    moreover have "U b \<noteq> {}" using b(3) by simp
    ultimately show ?thesis using ok b(1,2) c(2) unfolding as_ok_def Let_def m'
      by (auto simp: chunk_at_other [OF _ C] chunks_at_other [OF _ C] ac_listed_other [OF _ C] header_inj [OF C] b(2))
  qed
  ultimately show ?thesis by (intro exI [of _ h1]) (simp add: h1_def on_chunk_def)
qed

text \<open>The slots in use, over all chunks.\<close>

definition slots_used :: "nat set \<Rightarrow> (nat \<Rightarrow> nat set) \<Rightarrow> (nat \<times> nat) set" where
  "slots_used G U = {(b, i). b \<in> G \<and> i \<in> U b}"

lemma as_malloc_none:
  assumes x: "atomic_exchange xchg" and sz: "chunk_sizes C S" and ok: "as_ok C G U L h" and none: "as_myChunk h = None"
    and from_below: "supplied smalloc C G L (ah_super (as_heap h))"
  shows "\<exists>b i h' G' U' L'. as_malloc xchg smalloc C S h = Some (Inr (slot_at S b i, h')) \<and> i \<in> {1..31} \<and> (b, i) \<notin> slots_used G U
     \<and> as_ok C G' U' L' h' \<and> slots_used G' U' = insert (b, i) (slots_used G U)"
proof -
  from as_fetch [OF sz ok none from_below] obtain b h1 L' where b: "as_chunk smalloc C h = Inr (header_at C b, h1)" "b \<notin> G"
    "as_ok C (insert b G) (U(b := {})) L' \<lparr>as_myChunk = Some (header_at C b), as_heap = h1\<rparr>" by blast
  let ?h = "\<lparr>as_myChunk = Some (header_at C b), as_heap = h1\<rparr>"
  have "as_chunk smalloc C ?h = Inr (header_at C b, h1)" by (simp add: as_chunk_def)
  then have eq: "as_malloc xchg smalloc C S h = as_malloc xchg smalloc C S ?h"
    using b(1) as_malloc.simps [of xchg smalloc C S h] as_malloc.simps [of xchg smalloc C S ?h] by simp
  from as_malloc_current [OF x sz b(3), of b smalloc] obtain i h' where i: "as_malloc xchg smalloc C S ?h = Some (Inr (slot_at S b i, h'))" "i \<in> {1..31}"
    "as_ok C (insert b G) (U(b := {i})) L' h'" by auto
  have "slots_used (insert b G) (U(b := {i})) = insert (b, i) (slots_used G U)" "(b, i) \<notin> slots_used G U" using b(2) by (auto simp: slots_used_def split: if_splits)
  with eq i show ?thesis by metis
qed

theorem as_malloc_fresh:
  assumes x: "atomic_exchange xchg" and sz: "chunk_sizes C S" and ok: "as_ok C G U L h"
    and from_below: "supplied smalloc C G L (ah_super (as_heap h))"
  shows "\<exists>b i h' G' U' L'. as_malloc xchg smalloc C S h = Some (Inr (slot_at S b i, h')) \<and> i \<in> {1..31} \<and> (b, i) \<notin> slots_used G U
     \<and> as_ok C G' U' L' h' \<and> slots_used G' U' = insert (b, i) (slots_used G U)"
proof (cases "as_myChunk h")
  case None
  then show ?thesis by (rule as_malloc_none [OF x sz ok _ from_below])
next
  case (Some c)
  then obtain b where b: "b \<in> G" "as_myChunk h = Some (header_at C b)" using ok by (auto simp: as_ok_def Let_def)
  show ?thesis
  proof (cases "U b = {1..31}")
    case True
    from as_let_go [OF sz ok b True, of xchg smalloc] obtain h1 where h1: "as_malloc xchg smalloc C S h = as_malloc xchg smalloc C S h1" "as_ok C G U L h1" "as_myChunk h1 = None"
      "ah_super (as_heap h1) = ah_super (as_heap h)" by blast
    show ?thesis unfolding h1(1) by (rule as_malloc_none [OF x sz h1(2,3)]) (use from_below h1(4) in simp)
  next
    case False
    from as_malloc_current [OF x sz ok b False, of smalloc] obtain i h' where i: "as_malloc xchg smalloc C S h = Some (Inr (slot_at S b i, h'))" "i \<in> {1..31}" "i \<notin> U b"
      "as_ok C G (U(b := insert i (U b))) L h'" by blast
    have "slots_used G (U(b := insert i (U b))) = insert (b, i) (slots_used G U)" "(b, i) \<notin> slots_used G U" using b(1) i(3) by (auto simp: slots_used_def split: if_splits)
    with i(1,2,4) show ?thesis by metis
  qed
qed

text \<open>The list grows as long as its length does not exceed \<open>maxFree\<close>, so it can hold one chunk more than that.\<close>

theorem as_free_slot:
  assumes x: "atomic_exchange xchg" and sz: "chunk_sizes C S" and ok: "as_ok C G U L h" and b: "b \<in> G" "i \<in> U b"
  shows "\<exists>h'. as_free xchg sfree maxFree C S (slot_at S b i) h = Some (Inr h')
     \<and> (if U b = {i} \<and> as_myChunk h \<noteq> Some (header_at C b)
        then as_ok C (G - {b}) U (if maxFree <s ah_length (as_heap h) then L else b # L) h'
          \<and> ah_super (as_heap h') = (if maxFree <s ah_length (as_heap h) then sfree b (ah_super (as_heap h)) else ah_super (as_heap h))
        else as_ok C G (U(b := U b - {i})) L h' \<and> ah_super (as_heap h') = ah_super (as_heap h))"
proof -
  let ?m = "ah_chunks (as_heap h)" and ?c = "header_at C b"
  have C: "sizeof_AlignedChunk \<le> C" using sz by (auto simp: chunk_sizes_def)
  from ok b(1) have c: "chunk_at C ?m (U b) b" "b \<notin> set L" "as_myChunk h = Some ?c \<or> ac_isReleased (?m ?c) \<and> U b \<noteq> {}" by (auto simp: as_ok_def Let_def)
  then have bm: "bitmap_of (U b) (ac_freeBitmap (?m ?c))" "bitmap_of {} (ac_emptyBitmap (?m ?c))" and al: "aligned_at C b" by (simp_all add: chunk_at_def)
  then have i: "i \<in> {1..31}" using b(2) by (auto simp: bitmap_of_def)
  let ?ch = "?m ?c\<lparr>ac_freeBitmap := bi_reset (ac_freeBitmap (?m ?c)) i, ac_inUse := ac_inUse (?m ?c) - 1\<rparr>"
  have at: "ac_getChunk C (slot_at S b i) = ?c" "masked C ?c = b" "ac_getChunk C b = ?c" using masked_at [OF sz al] i by simp_all
  have one: "U b \<subseteq> {i} \<longleftrightarrow> U b = {i}" using b(2) by blast
  have rel: "ac_isReleased ?ch = ac_isReleased (?m ?c)" by (simp add: ac_isReleased_def)
  have mine: "as_myChunk h = Some ?c \<Longrightarrow> \<not> ac_isReleased (?m ?c)" using ok by (simp add: as_ok_def Let_def)
  define h1 where "h1 = on_chunk ?c (\<lambda>_. ?ch) (as_heap h)"
  have free: "as_free xchg sfree maxFree C S (slot_at S b i) h =
     Some (Inr (h\<lparr>as_heap := if U b = {i} \<and> ac_isReleased (?m ?c) then ah_free sfree maxFree C b h1 else h1\<rparr>))"
    using ac_putSlot_clears [OF x bm sz al i, of ?c] by (simp add: as_free_def at Let_def one rel h1_def)
  have m1: "ah_chunks h1 = ?m(?c := ?ch)" "ah_chunkList h1 = ah_chunkList (as_heap h)" "ah_super h1 = ah_super (as_heap h)" "ah_length h1 = ah_length (as_heap h)"
    by (simp_all add: h1_def on_chunk_def)
  have new: "chunk_at C (?m(?c := ?ch)) (U b - {i}) b" using c(1) bitmap_reset [OF bm(1)] i by (simp add: chunk_at_def)
  show ?thesis
  proof (cases "U b = {i} \<and> as_myChunk h \<noteq> Some ?c")
    case True
    with c(3) have r: "ac_isReleased (?m ?c)" by simp
    define h2 where "h2 = ah_free sfree maxFree C b h1"
    have h2: "h2 = (if maxFree <s ah_length (as_heap h) then h1\<lparr>ah_super := sfree b (ah_super (as_heap h))\<rparr>
        else h1\<lparr>ah_chunks := ?m(?c := ?ch\<lparr>ac_next := ah_chunkList (as_heap h)\<rparr>), ah_chunkList := Some ?c, ah_length := ah_length (as_heap h) + 1\<rparr>)"
      by (simp add: h2_def ah_free_def at Let_def m1 on_chunk_def)
    have new': "chunk_at C (?m(?c := ?ch\<lparr>ac_next := n\<rparr>)) {} b" for n using new True by (simp add: chunk_at_def)
    have "as_ok C (G - {b}) U (if maxFree <s ah_length (as_heap h) then L else b # L) (h\<lparr>as_heap := h2\<rparr>)"
      using ok b(1) c(2) True new' unfolding as_ok_def Let_def h2
      by (auto simp: m1 chunk_at_other [OF _ C] chunks_at_other [OF _ C] ac_listed_other [OF _ C] header_inj [OF C] rel)
    then show ?thesis using free True r by (intro exI [of _ "h\<lparr>as_heap := h2\<rparr>"]) (auto simp: h2_def [symmetric] h2 m1)
  next
    case False
    then have "\<not> (U b = {i} \<and> ac_isReleased (?m ?c))" using mine by blast
    moreover have "as_ok C G (U(b := U b - {i})) L (h\<lparr>as_heap := h1\<rparr>)"
      using ok b c(2) False new unfolding as_ok_def Let_def
      by (auto simp: m1 chunk_at_other [OF _ C] chunks_at_other [OF _ C] ac_listed_other [OF _ C] header_inj [OF C] rel)
    ultimately show ?thesis using free False by (intro exI [of _ "h\<lparr>as_heap := h1\<rparr>"]) (auto simp: m1)
  qed
qed

section \<open>AlignHeap aligns\<close>

text \<open>The memory asked for is enough only because the memory below is aligned to words already.\<close>

theorem al_malloc_aligned:
  assumes C: "C = 2 ^ k" "3 \<le> k" "k < 63" and q: "smalloc (sz + word_of_nat C) s = (Some a, s1)" and a: "8 dvd a" "a + 2 * C < 2 ^ 64"
  shows "\<exists>p m1. al_malloc smalloc C sz (m, s) = (p, m1, s1) \<and> C dvd p \<and> a + 8 \<le> p \<and> p \<le> a + C \<and> al_free sfree p (m1, s1) = (m1, sfree a s1)
    \<and> (\<forall>x. x < p - 8 \<or> p \<le> x \<longrightarrow> m1 x = m x)"
proof -
  have C8: "8 dvd C" using C(2) le_imp_power_dvd [of 3 k "2 :: nat"] unfolding C(1) by simp
  then have c8: "8 \<le> C" using C(1) by (intro dvd_imp_le) simp_all
  define x where "x = a + 8 + C - 1"
  define p where "p = x div C * C"
  have lo: "p \<le> x" and hi: "x < p + C" using c8 dividend_less_div_times [of C x] by (simp_all add: p_def add.commute)
  have dvd: "C dvd p" by (simp add: p_def)
  have bound: "p + C \<le> 2 ^ 64"
  proof -
    have "(2 :: nat) ^ 64 = 2 ^ k * 2 ^ (64 - k)" using C(3) by (simp flip: power_add)
    then obtain n where n: "(2 :: nat) ^ 64 = C * n" unfolding C(1) by blast
    have "x < C * n" using a(2) c8 unfolding n [symmetric] x_def by linarith
    then have "x div C < n" by (simp add: div_less_iff_less_mult mult.commute c8 order_less_le_trans [of 0 8])
    then have "Suc (x div C) * C \<le> n * C" by (intro mult_le_mono1) simp
    then show ?thesis unfolding n p_def by (simp add: mult.commute add.commute)
  qed
  have m: "masked C x = p" by (rule masked_eq [OF C(1) _ dvd bound lo hi]) (use C(3) in simp)
  have "8 dvd p" using C8 dvd by (rule dvd_trans)
  have r: "a + 8 \<le> p" using hi by (simp add: x_def)
  have "p \<le> a + C"
  proof -
    from \<open>8 dvd p\<close> a(1) C8 obtain i j n where e: "p = 8 * i" "a = 8 * j" "C = 8 * n" by (auto elim!: dvdE)
    have "8 * i \<le> 8 * j + 8 + 8 * n - 1" using lo unfolding x_def e .
    then have "8 * i < 8 * (j + 1 + n)" using c8 by simp
    then have "i < j + 1 + n" by simp
    then show ?thesis unfolding e by simp
  qed
  moreover have "unat (word_of_nat a :: ulong) = a" using a(2) by (simp add: unat_of_nat)
  moreover have "store64 (p - 8) v m y = m y" if "y < p - 8 \<or> p \<le> y" for v y using that r by (intro store64_other) auto
  ultimately show ?thesis using m dvd r q by (simp add: al_malloc_def al_free_def x_def Let_def)
qed

end
