(* ===== verification/Spec2Isabelle.thy ===== *)
theory Spec2Isabelle
  imports SamplesRun SchedRun Teardown FreeLists DLists BumpHeaps Xalloc Bins Batches Chunks SizedHeaps RoutedHeaps SamplesLayers AlignedChunk
begin

text \<open>
  Dthreads is a replacement for the pthreads library that makes multithreaded programs deterministic. Every thread is a process
  with private copies of the pages of the heap and of the globals. A thread publishes its stores at synchronisation points only,
  while it holds a token that travels a ring of the active threads; a fence separates the parallel phases, in which threads run in isolation,
  from the serial ones, in which each in turn commits the pages it has changed. File names below are relative to \<open>src/\<close> of the repository.

  The build that is modelled is \<open>libdthread.so\<close> of \<open>src/Makefile\<close>: 64 bits, \<open>LAZY_COMMIT\<close>, \<open>LOCK_OWNERSHIP\<close>,
  \<open>DETERM_MEMORY_ALLOC\<close> and \<open>NDEBUG\<close> defined, so that \<open>assert\<close> does nothing; \<open>SSE_SUPPORT\<close>, \<open>GET_CHARACTERISTICS\<close>,
  \<open>ENABLE_PROFILING\<close> and the other switches undefined. The SSE page diff of the 32-bit build is modelled besides the
  word-by-word one, and the two are proved equal.

  \<^bold>\<open>Foundations.\<close>
  \<^item> \<open>Prelude\<close>: machine integers, pointers, \<open>result\<close> (a failure or a value; \<open>res_bind\<close> runs one operation after another) and the constants
    of \<open>src/include/xdefines.h\<close>. A failure is \<open>Exited\<close> or \<open>Aborted\<close> where the code calls \<open>exit\<close> or \<open>abort\<close>, and
    \<open>NullDeref\<close>, \<open>OutOfBounds\<close> or \<open>Uninitialised\<close> where it uses a bad pointer or index.
  \<^item> \<open>Links\<close>: \<open>src/include/list.h\<close>, circular doubly linked lists over a store of nodes; the locale \<open>ring_ops\<close> is the contract
    of its operations over plain lists, interpreted on them; the scheduler proofs rest on its facts.
  \<^item> \<open>Xatomic\<close>: \<open>src/include/xatomic.h\<close>, 32-bit instructions on 64-bit words.

  \<^bold>\<open>The page store.\<close>
  \<^item> \<open>Pools\<close>: the locale \<open>bump_pool\<close>, the contract of the two index pools; \<open>Xbitmap\<close> (twin pages, \<open>src/include/xbitmap.h\<close>, as the
    one mapping it is) and \<open>Xpageentry\<close> (page records, \<open>src/include/xpageentry.h\<close>, \<open>xpageinfo.h\<close>) provide it.
  \<^item> \<open>PageDiff\<close>: \<open>commitWord\<close> and \<open>writePageDiffs\<close> of \<open>src/include/xpersist.h\<close>, and \<open>merge\<close>, their reference.
  \<^item> \<open>Xpersist\<close>: one region, that is the class \<open>xpersist\<close>: a \<open>world\<close> has the part all processes share (persistent pages, versions,
    owners, users and twins), and for every process its own part (protections, private copies, page states, dirty pages, owned blocks) and its pool of page
    records. \<open>transient\<close> is what the address range of the region is mapped to: a page is mapped shared or private, with a protection, and holds a private copy
    once it has been written. \<open>user_store\<close> is a store of the program: it takes the page faults that the protections call for (\<open>handleWrite\<close>)
    and tries again. Three attempts are enough because a page is first made readable, then writable; \<open>user_store_returns\<close> proves it.
  \<^item> \<open>XpersistCommit\<close> and \<open>XpersistOwner\<close>: the effect of a round of commits on every page, and of ownership. \<open>Isolation\<close>: the parallel phase, any
    interleaving of the stores of the processes, and when a commit has all the twins it needs.

  \<^bold>\<open>The heaps of dthreads.\<close>
  \<^item> \<open>Kingsley\<close>: the size classes of \<open>src/include/heaplayers/kingsleyheap.h\<close>. \<open>HeapLayers\<close>: the layers of \<open>src/include/heaplayers\<close> that are
    used, \<open>ZoneHeap\<close>, \<open>SLList\<close> with \<open>AdaptHeap\<close>, \<open>StrictSegHeap\<close>, \<open>ANSIWrapper\<close>, and \<open>src/include/objectheader.h\<close>, over a byte memory.
  \<^item> \<open>HeapSafety\<close>: the invariant of one Kingsley heap, and the locale \<open>source_heap\<close>, the contract of the heap it takes memory from;
    \<open>KingsleyHeap\<close> and \<open>WarpHeap\<close> continue that locale. It is interpreted on \<open>xheap\<close> (\<open>Xheap\<close>, \<open>src/include/xheap.h\<close>) and on the internal
    source (\<open>Internal\<close>, \<open>src/include/internalheap.h\<close>). \<open>WarpHeap\<close> also has the per-thread heaps of \<open>src/include/warpheap.h\<close>. \<open>Teardown\<close>: the destructors.
  \<^item> \<open>Xmemory\<close>: \<open>xmemory.h\<close>, \<open>xoneheap.h\<close>, \<open>xglobals.h\<close> and \<open>xadaptheap.h\<close>: both regions, the allocation functions and the signal handlers. \<open>Realloc\<close>: what
    \<open>realloc\<close> keeps. \<open>SyncVar\<close>: words of program memory that hold the pointers of the library (\<open>getSyncEntry\<close>, \<open>setSyncEntry\<close>, \<open>clearSyncEntry\<close>).

  \<^bold>\<open>Synchronisation.\<close>
  \<^item> \<open>Determ\<close>: \<open>src/include/determ.h\<close>, the token ring, the fence, locks, condition variables, barriers, joins, cancellation. A function that blocks is cut at
    its waits: \<open>cond_wait_start\<close> ends where \<open>pthread_cond_wait\<close> sleeps, \<open>cond_ready\<close> is what it waits for, \<open>cond_wait_finish\<close> is the rest. The fence keeps the set of the
    threads that sleep on its condition variable, \<open>sleeping_fence\<close>; its broadcasts empty it, and only a thread that has left it goes on. \<open>fence_wakeup\<close> is a wake-up without cause.
  \<^item> \<open>DetermRing\<close>, \<open>DetermSched\<close>: the scheduler the layer promises, over plain lists of thread indices, and the simulation \<open>sim\<close>: ring, queues
    and counters implement it. \<open>SchedSys\<close>, \<open>SchedRun\<close>: runs of twelve operations of the layer and of the scheduler. \<open>DetermLocks\<close>: exclusion and lock ownership.
    \<open>Fence\<close>: \<open>waitFence\<close> as a step relation over any number of threads, its sleepers and broadcasts included, with its invariant, in which no sleeper has missed its broadcast.
  \<^item> \<open>Xthread\<close>: \<open>src/include/xthread.h\<close>, \<open>src/source/xthread.cpp\<close>: processes and their status pages.
  \<^item> \<open>Xrun\<close>, \<open>XrunSync\<close>: \<open>src/include/xrun.h\<close>. A function is a list of sections (\<open>instr\<close>) between waits; \<open>exec\<close> runs one section of one process, is
    \<open>None\<close> while that section has to wait, and gives the sections it calls.
  \<^item> \<open>XrunHeap\<close>: allocation in the engine. It holds the real mutex of the per-thread heap and, when the heap needs a chunk, takes the mutex of
    \<open>xheap\<close>, which is one of the library itself. \<open>HeapWait\<close>: these sections make up one allocation, and a deadlock inside.
  \<^item> \<open>Libdthread\<close>: \<open>src/source/libdthread.cpp\<close>, and \<open>xstep\<close>, one step of any process of the system. \<open>XrunFacts\<close>: its sections refine the
    fence; what single-threaded programs pay; two errors.

  \<^bold>\<open>The library of heap layers\<close> in \<open>src/include/heaplayers\<close>, from which the heaps of dthreads are built; the layers below a layer are arguments of its operations.
  \<^item> \<open>SegHeap\<close> (\<open>segheap.h\<close>), \<open>Bins\<close> (the size classes of \<open>bins4k.h\<close> and its relatives), \<open>FreeLists\<close> and \<open>DLists\<close> (singly and doubly linked free lists and \<open>nestedheap.h\<close>),
    \<open>BumpHeaps\<close> (chunk, slop and static heaps), \<open>Xalloc\<close>, \<open>SizedHeaps\<close> (layers that add headers or checks), \<open>RoutedHeaps\<close> (layers that choose a heap).
  \<^item> \<open>Coalesce\<close> (\<open>coalesceableheap.h\<close>, \<open>coalesceheap.h\<close>): boundary tags. The locale \<open>free_store\<close> is what coalescing needs of the layer with the free objects: it keeps a set
    of objects and writes to their first 16 bytes only; it is interpreted on \<open>FIFODLFreelistHeap\<close>, whose links are in the memory that the tags are in.
  \<^item> \<open>Bits\<close>, \<open>Tables\<close>, \<open>Treap\<close>, \<open>RecursiveLock\<close>: bit strings, hash map and arrays, treap with the Cartesian heap, and the recursive spin lock of \<open>util\<close>.
  \<^item> \<open>Batches\<close>, \<open>Chunks\<close>, \<open>AlignedChunk\<close>, \<open>Aoff\<close>: of \<open>experimental\<close>, batches, chunks with slots, aligned chunks and the address-ordered heap, the last one over its memory, too.
  \<^item> \<open>Samples\<close>, \<open>SamplesHeap\<close>, \<open>SamplesSync\<close>, \<open>SamplesRun\<close>, \<open>SamplesLayers\<close>: the concrete states at which the properties are applied.

  \<^bold>\<open>What is shown.\<close> C1 to C4: determinism of what the processes compute, given the order of commits, and what a round of commits leaves. C5 to C12: every
  operation of the synchronisation layer does to ring, token, queues and fence what the scheduler promises, so that the next owner of the token is determined by the
  lists alone. C13 to C15: the fence. C16 to C18: the per-thread heaps and \<open>realloc\<close>. C19, C35: locks. C20 to C26: page diff, twins, synchronisation words, dirty list,
  faults, ownership. C27 to C34: the library of heap layers. C36 to C40: errors of the code, each shown at its cause; C31 and C35 have exact bounds of two more.
  The last section has further facts that hold of the same definitions.

  \<^bold>\<open>Bounds.\<close> A commit needs a twin for every dirty page with another user, and the pool of twins gives one while its index is below \<open>INITIAL_PAGES\<close>; C21 is stated up to that bound.
  Sizes of objects with boundary tags are below \<open>2 ^ 62\<close>, as the header has 62 bits for one. A free object of C27 and a request of C31 have at least 16 bytes, the size of the links;
  the source asserts it in C31 and does not see to it in C27, where a rest of 8 bytes is split off (a finding). The free objects of C31 lie within 2 GB, as their sizes are \<open>int\<close>.

  \<^bold>\<open>Simplifications.\<close> The memory behind the per-thread heaps (\<open>pp_mem\<close>) is a byte memory of its own; the page store over the same addresses carries
  protections, versions and commits. Functions that run under \<open>determ::lock\<close> are one step. Waits on condition variables other than that of the fence are guards that are tested until
  they hold, and do not wake up without cause; spinning waits are sections that wait for their condition. \<open>write\<close> and \<open>read\<close> touch their buffers; the system call after it has no effect on the
  state. The signal number that \<open>sigwait\<close> stores through its second argument is not stored. Handlers that the program installs are not run. Memory
  order is that of the interleaving. In the heap layers without a memory of their own the links and fields of objects are maps from addresses.

  \<^bold>\<open>Not modelled.\<close> \<open>src/source/real.cpp\<close> and \<open>src/include/real.h\<close> look up the functions of the C library; \<open>prof.h\<close>, \<open>prof.cpp\<close>, \<open>debug.h\<close> measure and print, and
  are compiled out; \<open>xmemory.cpp\<close> and \<open>xrun.cpp\<close> define static members; \<open>xplock.h\<close> and \<open>privateheap.h\<close> forward to the system. Of \<open>src/include/heaplayers\<close> these are left out:
  layers that log and measure, wrappers of system allocators and locks, headers that pass one call on, the obstacks, \<open>dlheap.h\<close>, and versions in \<open>experimental\<close> of layers that are
  modelled, several of which do not compile. \<open>eval\<close> and \<open>test\<close> are benchmarks and tests.

  \<^bold>\<open>What could follow.\<close> Mutual exclusion of the token over \<open>xstep\<close> for programs that call \<open>cond_wait\<close> with the token; the broadcasts of the other condition variables; the composition
  of \<open>dlheap.h\<close> over the coalescing layers.
\<close>

section \<open>Properties\<close>

text \<open>
  C1. Determinism. Let no page be owned. However the stores of the processes interleave in each round, as long as each process runs the
  same program and the rounds commit in the same orders, the state of the page store at the end is the same. What a process stores
  may depend on all it sees.
\<close>

theorem execution_deterministic:
  assumes "quiet w" and "run_rounds rs w = Inr v" and "same_programs rs rs'"
  shows "run_rounds rs' w = Inr v"
  by (rule rounds_deterministic [OF assms])

theorem execution_deterministic_witness:
  "\<exists>v. run_rounds [([1, 2], sample_events)] sample_quiet = Inr v \<and> run_rounds [([1, 2], sample_reordered)] sample_quiet = Inr v"
proof -
  from sample_round obtain v where v: "run_rounds [([1, 2], sample_events)] sample_quiet = Inr v" by auto
  have "same_programs [([1, 2], sample_events)] [([1, 2], sample_reordered)]"
    by (simp add: same_programs_def sample_same_programs)
  from execution_deterministic [OF sample_quiet v this] v show ?thesis by blast
qed

text \<open>
  C2. A round of commits. When the processes \<open>qs\<close> have each dirtied some shared pages since the last round and then
  commit one after the other, every page ends as the merge, in that order, of the private copies of the processes
  that dirtied it over the content they started from; its version counts the commits; its users are gone and its twin is released.
\<close>

theorem commit_round_merges_in_order:
  assumes "cs = concat (map (commits_of w) qs)" and "ready w cs"
  shows "\<exists>w'. commit_round qs w = Inr w'
     \<and> (\<forall>p. share_page p w' = merge_all (share_page p w) (copies w p cs) (share_page p w)
          \<and> persistentVersions (sh w') p = persistentVersions (sh w) p + of_nat (length (on_page w p cs))
          \<and> (on_page w p cs \<noteq> [] \<longrightarrow> pageUsers (sh w') p = \<lparr>si_users = 0, si_bitmapIndex = 0\<rparr>)
          \<and> (on_page w p cs = [] \<longrightarrow> share_page p w' = share_page p w))"
  by (rule commit_round_merges [OF assms])

theorem commit_round_merges_in_order_witness:
  "\<exists>w'. commit_round [1, 2] sample_world = Inr w' \<and> share_page 0 w' 0 = 1 \<and> share_page 0 w' 1 = 2 \<and> share_page 0 w' 2 = 7"
proof -
  from commit_round_merges_in_order [OF sample_commits [symmetric] sample_ready] obtain w'
    where "commit_round [1, 2] sample_world = Inr w'"
      "share_page 0 w' = merge_all (share_page 0 sample_world) (copies sample_world 0 [(1, 0), (2, 0)]) (share_page 0 sample_world)"
    by blast
  then show ?thesis
    by (intro exI [of _ w'])
      (simp add: sample_share sample_copies sample_copy_def merge_page_def clip_def PageSize_def)
qed

text \<open>
  C3. Data-race freedom makes the order irrelevant. If no byte of the page is written by two of the processes, committing in any
  other order gives the same shared page.
\<close>

theorem commit_order_irrelevant:
  assumes "cs = concat (map (commits_of w) qs)" and "ready w cs" and "mset qs = mset qs'"
    and "race_free (share_page p w) (copies w p cs)"
  shows "\<exists>v v'. commit_round qs w = Inr v \<and> commit_round qs' w = Inr v' \<and> share_page p v = share_page p v'"
  by (rule commit_round_race_free [OF assms])

theorem commit_order_irrelevant_witness:
  "\<exists>v v'. commit_round [1, 2] sample_world = Inr v \<and> commit_round [2, 1] sample_world = Inr v'
     \<and> share_page 0 v = share_page 0 v'"
  by (rule commit_order_irrelevant [OF sample_commits [symmetric] sample_ready _ sample_race_free]) simp

text \<open>
  C4. Agreement after a round. When all processes have committed and begin their next transactions, each of them sees every page
  it had touched exactly as the shared memory has it, and its list of dirty pages is empty.
\<close>

theorem round_then_begin_agrees:
  assumes "cs = concat (map (commits_of w) qs)" and "ready w cs" and "distinct qs" and "q \<in> set qs"
    and "commit_round qs w = Inr w'"
    and "m_copy (transient (locals w q) p) = None \<or> (\<exists>c\<in>set (commits_of w q). page_of w c = p)"
  shows "local_page q p (begin_all qs w') = share_page p (begin_all qs w')
     \<and> dirtiedPagesList (locals (begin_all qs w') q) = []"
  using round_then_begin [OF assms] by simp

theorem round_then_begin_agrees_witness:
  "\<exists>w'. commit_round [1, 2] sample_world = Inr w'
     \<and> local_page 2 0 (begin_all [1, 2] w') = share_page 0 (begin_all [1, 2] w')"
proof -
  from commit_round_merges [OF sample_commits [symmetric] sample_ready] obtain w' where w': "commit_round [1, 2] sample_world = Inr w'"
    by blast
  have "\<exists>c\<in>set (commits_of sample_world 2). page_of sample_world c = 0"
    by (simp add: commits_of_def page_of_def record_of_def sample_world_def sample_local_def sample_pool_def sample_record_def)
  then show ?thesis
    using round_then_begin_agrees [OF sample_commits [symmetric] sample_ready, of 2 w' 0] w' by (simp add: exI [of _ w'])
qed

text \<open>
  C5. Sequences of operations. In a state of the layer that implements a state of the abstract scheduler (active threads, queues, joins, barriers as
  plain lists and sets), any sequence of operations that the scheduler enables one after the other (passing the token, waiting, signalling, arriving at barriers,
  exiting, registering, joining, waiting for signals) runs without failure, ends in a state that implements the one the scheduler ends in, and leaves the
  token with the thread that the scheduler says. So the order of the token is a function of the lists and the operations.
\<close>

theorem sync_runs_refine:
  assumes "implements d s Q" and "enabled_all Q xs s"
  shows "\<exists>d'. run_ops xs d = Inr d' \<and> implements d' (fold spec_op xs s) Q \<and> tokenpos d' = Some (actor (fold spec_op xs s))"
  using run_ops_implements [OF assms] implementsD(5) by blast

theorem sync_runs_refine_witness:
  "\<exists>d'. run_ops sample_ops sample_determ = Inr d' \<and> tokenpos d' = Some 5"
  using sync_runs_refine [OF sample_implements sample_enabled] sample_order by (auto simp: actor_def)

text \<open>
  C6. The token. Passing the token refines a rotation of the queue of the active threads: the ring of the code, its links and its
  token pointer implement a list whose head holds the token.
\<close>

theorem putToken_rotates:
  assumes "sim d s Q"
  shows "\<exists>d'. putToken i d = Inr d' \<and> sim d' (spec_putToken s) Q"
  by (rule putToken_sim [OF assms])

theorem putToken_rotates_witness:
  "\<exists>d'. putToken 0 sample_determ = Inr d' \<and> sim d' (sample_sched\<lparr>running := [1, 2, 0]\<rparr>) sample_queues"
  using putToken_rotates [OF sample_sim, of 0] by (simp add: spec_putToken_def sample_sched_def)

text \<open>
  C7. Waiting on a condition variable. The owner of the token leaves the ring of the active threads, is appended to the queue of the
  condition variable and passes the token on; the fence no longer counts it.
\<close>

theorem cond_wait_enqueues:
  assumes "sim d s Q" and "tl (running s) \<noteq> []" and "Cond c \<in> Q"
  shows "\<exists>d'. cond_enqueue (hd (running s)) c d = Inr d' \<and> sim d' (spec_wait (Cond c) s) Q
     \<and> te_status (entries d' (hd (running s))) = STATUS_COND_WAITING"
  by (rule cond_enqueue_sim [OF assms])

theorem cond_wait_enqueues_witness:
  "\<exists>d'. cond_enqueue 0 500 sample_determ = Inr d' \<and> sim d' (spec_wait (Cond 500) sample_sched) sample_queues
     \<and> waiting (spec_wait (Cond 500) sample_sched) (Cond 500) = [3, 4, 0]"
  using cond_wait_enqueues [OF sample_sim, of 500] by (auto simp: spec_wait_def)

text \<open>
  C8. Signalling. The first waiter of the queue becomes ready and is inserted right behind the owner of the token; it is counted by
  the fence again.
\<close>

theorem cond_signal_wakes_first:
  assumes "sim d s Q" and "Cond c \<in> Q" and "waiting s (Cond c) = w # ws"
  shows "\<exists>d'. cond_dequeue c d = Inr d' \<and> sim d' (spec_signal c s) Q \<and> te_status (entries d' w) = STATUS_READY"
  by (rule cond_dequeue_sim [OF assms])

theorem cond_signal_wakes_first_witness:
  "\<exists>d'. cond_dequeue 500 sample_determ = Inr d' \<and> sim d' (spec_signal 500 sample_sched) sample_queues
     \<and> te_status (entries d' 3) = STATUS_READY \<and> running (spec_signal 500 sample_sched) = [0, 3, 1, 2]"
  using cond_signal_wakes_first [OF sample_sim, of 500 3 "[4]"] by (auto simp: spec_signal_def spec_insert_def)

text \<open>
  C9. Broadcasting. All waiters become ready and the whole queue is spliced, in order, right behind the owner of the token.
\<close>

theorem cond_broadcast_wakes_all:
  assumes "sim d s Q" and "Cond c \<in> Q" and "waiting s (Cond c) \<noteq> []" and "length (waiting s (Cond c)) < 2 ^ 31"
  shows "\<exists>d'. cond_wake_all c d = Inr d' \<and> sim d' (spec_wake_all (Cond c) s) Q
     \<and> (\<forall>w\<in>set (waiting s (Cond c)). te_status (entries d' w) = STATUS_READY)"
  by (rule cond_wake_all_sim [OF assms])

theorem cond_broadcast_wakes_all_witness:
  "\<exists>d'. cond_wake_all 500 sample_determ = Inr d' \<and> sim d' (spec_wake_all (Cond 500) sample_sched) sample_queues
     \<and> te_status (entries d' 3) = STATUS_READY \<and> te_status (entries d' 4) = STATUS_READY"
  using cond_broadcast_wakes_all [OF sample_sim, of 500] by auto

text \<open>
  C10. Barriers. An arriving thread that is not the last leaves the ring for the queue of the barrier; the last one stays and moves the
  whole queue back behind itself. The result tells which case it was.
\<close>

theorem barrier_wait_arrives:
  assumes "sim d s Q" and "Barrier b \<in> Q" and "be_maxthreads (barrier_tab d b) = of_nat n"
    and "Suc (length (waiting s (Barrier b))) \<le> n" and "n < 2 ^ 31"
    and "Suc (length (waiting s (Barrier b))) = n \<or> tl (running s) \<noteq> []"
  shows "\<exists>d'. barrier_arrive (hd (running s)) b d = Inr (Suc (length (waiting s (Barrier b))) = n, d')
     \<and> sim d' (spec_barrier b n s) Q \<and> be_maxthreads (barrier_tab d' b) = of_nat n"
  by (rule barrier_arrive_sim [OF assms])

theorem barrier_wait_arrives_witness:
  "\<exists>d'. barrier_arrive 0 600 sample_determ = Inr (True, d') \<and> sim d' (spec_barrier 600 2 sample_sched) sample_queues"
  using barrier_wait_arrives [OF sample_sim, of 600 2] by auto

text \<open>
  C11. Exit. The exiting owner of the token leaves the ring for good. If its parent is joining it, the parent is inserted behind the
  token owner first and gets the token next; its status is exited and one thread fewer is alive.
\<close>

theorem deregisterThread_exits:
  assumes "sim d s Q" and "0 < alivethreads d" and "hd (running s) = t"
    and "joiner_of t d = joiner" and "joiner = None \<Longrightarrow> tl (running s) \<noteq> []"
    and "\<And>p. joiner = Some p \<Longrightarrow> p \<notin> set (running s) \<and> (\<forall>q\<in>Q. p \<notin> set (waiting s q))"
  shows "\<exists>d'. deregisterThread t d = Inr d' \<and> sim d' (spec_exit joiner s) Q
     \<and> te_status (entries d' t) = STATUS_EXIT \<and> alivethreads d' = alivethreads d - 1"
  by (rule deregisterThread_sim [OF assms])

theorem deregisterThread_exits_witness:
  "\<exists>d. deregisterThread 0 sample_determ = Inr d \<and> sim d (spec_exit (Some 6) sample_sched) sample_queues
     \<and> te_status (entries d 0) = STATUS_EXIT"
  using deregisterThread_exits [OF sample_sim, of 0 "Some 6"] sample_no_queue by auto

text \<open>
  C12. Registration. A new thread enters the ring before the first thread of the active list, ready, with its pid and parent recorded, and
  not yet counted by the fence.
\<close>

theorem registerThread_enters:
  assumes "sim d s Q" and "n < MAX_THREADS" "n \<notin> set (running s)" "\<And>q. q \<in> Q \<Longrightarrow> n \<notin> set (waiting s q)"
  shows "\<exists>d'. registerThread n pid parent d = Inr d' \<and> sim d' (spec_register n s) Q
     \<and> te_status (entries d' n) = STATUS_READY \<and> te_tid (entries d' n) = pid \<and> te_tid_parent (entries d' n) = parent"
  by (rule registerThread_sim [OF assms])

theorem registerThread_enters_witness:
  "\<exists>d'. registerThread 7 107 0 sample_determ = Inr d' \<and> sim d' (spec_register 7 sample_sched) sample_queues
     \<and> running (spec_register 7 sample_sched) = [0, 1, 2, 7]"
proof -
  have "\<exists>d'. registerThread 7 107 0 sample_determ = Inr d' \<and> sim d' (spec_register 7 sample_sched) sample_queues
     \<and> te_status (entries d' 7) = STATUS_READY \<and> te_tid (entries d' 7) = 107 \<and> te_tid_parent (entries d' 7) = 0"
  proof (rule registerThread_enters [OF sample_sim])
    show "7 \<notin> set (waiting sample_sched q)" if "q \<in> sample_queues" for q using sample_waiting [OF that] by auto
  qed (simp_all add: MAX_THREADS_def)
  then show ?thesis by (auto simp: spec_register_def)
qed

text \<open>
  C13. The fence separates rounds. However the threads interleave, spinning or sleeping, nobody has left a round that somebody has
  not arrived at, and nobody has arrived at the round after one that somebody has not left.
\<close>

theorem waitFence_separates_rounds:
  assumes "fence_reach T s" and "finite T" and "card T < 2 ^ 31" and "i \<in> T" and "j \<in> T"
  shows "fs_left s i \<le> fs_arrived s j \<and> fs_arrived s i \<le> Suc (fs_left s j)"
proof -
  from assms(4) have "T \<noteq> {}" by blast
  from fence_invariant [OF assms(1,2) this assms(3)] obtain r where "fence_inv T r s" ..
  from fence_safe [OF this assms(4,5)] show ?thesis by blast
qed

theorem waitFence_separates_rounds_witness:
  "\<exists>s. fence_reach {0, 1} s \<and> fs_left s 0 \<le> fs_arrived s 1 \<and> fs_arrived s 0 = 1"
proof -
  from sample_fence obtain s where s: "fence_reach {0, 1} s" "fs_arrived s 0 = 1" by blast
  with waitFence_separates_rounds [OF s(1), of 0 1] show ?thesis by auto
qed

text \<open>
  C14. The fence is never stuck. From every reachable state of it some thread can move, not counting threads that go to sleep, and such moves alone take every
  thread through the fence once more. A thread that sleeps on the condition variable moves only after a broadcast has woken it, so no wakeup is lost.
\<close>

theorem waitFence_never_stuck:
  assumes "fence_reach T s" and "finite T" and "T \<noteq> {}" and "card T < 2 ^ 31"
  shows "(\<exists>s'. fence_move T s s') \<and> (\<exists>s'. (fence_move T)\<^sup>*\<^sup>* s s' \<and> (\<forall>i\<in>T. fs_left s i < fs_left s' i))"
  using fence_invariants [OF assms] fence_live fence_passed [OF assms] by blast

theorem waitFence_never_stuck_witness:
  "\<exists>s s'. fence_reach {0, 1} s \<and> fs_place s 0 = Waiting False \<and> 0 \<in> sleeping_fence (fs_determ s) \<and> (fence_move {0, 1})\<^sup>*\<^sup>* s s' \<and> 0 < fs_left s' 0 \<and> 0 < fs_left s' 1"
proof -
  from sample_fence obtain s where s: "fence_reach {0, 1} s" "fs_place s 0 = Waiting False" "0 \<in> sleeping_fence (fs_determ s)" by auto
  with waitFence_never_stuck [OF s(1)] obtain s' where "(fence_move {0, 1})\<^sup>*\<^sup>* s s'" "\<forall>i\<in>{0, 1}. fs_left s i < fs_left s' i" by auto
  with s show ?thesis by (intro exI [of _ s] exI [of _ s']) (auto dest: bspec [of _ _ 0] bspec [of _ _ 1] intro: le_less_trans)
qed

text \<open>
  C15. The engine's fence is the fence of the step relation: whatever section of \<open>waitFence\<close> a process runs, spinning or sleeping,
  first or last, corresponds to steps of its thread, and moves nobody else.
\<close>

theorem waitFence_sections_refine:
  assumes "exec_fence me fi s = Some (Inr (is, s'))" and "i = my_index me s" "i \<in> T"
    and "fs_determ f = dt s" "fs_place f i = place_of [IFence fi]"
  shows "reaches T i f (place_of is) (dt s')"
  by (rule exec_fence_refines [OF assms])

theorem waitFence_sections_refine_witness:
  "\<exists>s'. reaches {0, 1, 2} 0 sample_fence_state (Waiting True) (dt s')
     \<and> exec_fence 100 (FenceEnter False) sample_xsys = Some (Inr ([IFence (FenceOut True False)], s'))"
proof -
  from sample_enter obtain s' where "exec_fence 100 (FenceEnter False) sample_xsys = Some (Inr ([IFence (FenceOut True False)], s'))" by blast
  with waitFence_sections_refine [OF this, of 0 "{0, 1, 2}" sample_fence_state] sample_enter(2) show ?thesis
    by (auto simp: sample_fence_state_def)
qed

text \<open>
  C16. Allocation is safe. A block that any per-thread heap returns, header included, is disjoint from every block held in any of the
  heaps, and the allocation leaves the contents of all of those as they were; the block is at least as large as asked for, and aligned.
\<close>

theorem warpheap_malloc_fresh:
  assumes "pp_inv xheap_good xheap_taken Ls Ts p" and "i < NUM_HEAPS" and "128 + 2 * unat sz < 2 ^ 63" and "32 + unat chunk < 2 ^ 63"
    and "pp_malloc (xheap_malloc me) chunk i sz p = Inr (Some a, p')"
  shows "(\<exists>T'. pp_inv xheap_good xheap_taken (Ls(i := insert a (Ls i))) (Ts(i := T')) p') \<and> unat sz \<le> obj_size (pp_mem p') a \<and> a mod 8 = 0
     \<and> (\<forall>j b. j < NUM_HEAPS \<longrightarrow> b \<in> Ls j \<longrightarrow> pp_whole p' a \<inter> pp_whole p' b = {}
          \<and> (\<forall>x \<in> pp_whole p b. pp_mem p' x = pp_mem p x))"
  using xh.pp_malloc_fresh [OF assms] by blast

theorem warpheap_malloc_fresh_witness:
  "\<exists>p1 p2. pp_free 1 (Some 4112) sample_pp = Inr p1 \<and> pp_malloc (xheap_malloc 1) 65536 1 16 p1 = Inr (Some 4112, p2)
     \<and> 16 \<le> obj_size (pp_mem p2) 4112"
proof -
  from sample_free_malloc [of 1 65536] obtain p1 Ts p2 where p: "pp_free 1 (Some 4112) sample_pp = Inr p1"
    "pp_inv xheap_good xheap_taken (sample_held(0 := {})) Ts p1" "pp_malloc (xheap_malloc 1) 65536 1 16 p1 = Inr (Some 4112, p2)" by blast
  from warpheap_malloc_fresh [OF p(2) _ _ _ p(3)] p show ?thesis by (auto simp: NUM_HEAPS_def)
qed

text \<open>
  C17. Deallocation. A held block can be freed through any heap, not only the one it came from: the invariant of all heaps still holds
  without it, nothing outside the block changes, and it heads the free list of its size class in the heap it was freed into.
\<close>

theorem warpheap_free_moves:
  assumes "pp_inv good taken Ls Ts p" and "i < NUM_HEAPS" "a \<in> Ls i" and "j < NUM_HEAPS"
  shows "\<exists>p' Ts'. pp_free j (Some a) p = Inr p' \<and> pp_inv good taken (Ls(i := Ls i - {a})) Ts' p'
     \<and> (\<forall>x. x \<notin> pp_block p a \<longrightarrow> pp_mem p' x = pp_mem p x)
     \<and> (\<forall>c<NUMBINS. obj_size (pp_mem p) a = unat (class2Size (int c)) \<longrightarrow> sl_head (pp_heap p' j) c = Some a)"
  using pp_free_moves [OF assms] by blast

theorem warpheap_free_moves_witness:
  "\<exists>p'. pp_free 1 (Some 4112) sample_pp = Inr p' \<and> pp_mem p' 4104 = pp_mem sample_pp 4104"
proof -
  have "\<exists>p' Ts'. pp_free 1 (Some 4112) sample_pp = Inr p'
     \<and> pp_inv xheap_good xheap_taken (sample_held(0 := sample_held 0 - {4112})) Ts' p'
     \<and> (\<forall>x. x \<notin> pp_block sample_pp 4112 \<longrightarrow> pp_mem p' x = pp_mem sample_pp x)
     \<and> (\<forall>c<NUMBINS. obj_size (pp_mem sample_pp) 4112 = unat (class2Size (int c)) \<longrightarrow> sl_head (pp_heap p' 1) c = Some 4112)"
    by (rule warpheap_free_moves [OF sample_pp_inv]) (simp_all add: NUM_HEAPS_def sample_held_def)
  then show ?thesis by (auto simp: pp_block_def)
qed

text \<open>
  C18. \<open>xmemory::realloc\<close>. When the heap of the caller has memory for the request, the new block is at least as large as requested, it starts with the bytes of the old block, as
  many as fit, the old block is free again, whichever heap it was taken by, and no byte of any other block that is in use changes.
\<close>

theorem realloc_keeps_contents:
  assumes "pp_inv xheap_good xheap_taken Ls Ts (xm_pheap s)" and "i < NUM_HEAPS" "a \<in> Ls i" and "xm_heapid s me < NUM_HEAPS" and "128 + 2 * unat sz < 2 ^ 63"
    and "pp_malloc (xheap_malloc me) PROTECTEDHEAP_CHUNK (xm_heapid s me) sz (xm_pheap s) = Inr (Some b, p1)"
  shows "\<exists>s' Ls' Ts'. xm_realloc me (Some a) sz s = Inr (Some b, s') \<and> pp_inv xheap_good xheap_taken Ls' Ts' (xm_pheap s')
     \<and> (\<forall>j. Ls' j = (if j = xm_heapid s me then insert b (Ls j) else Ls j) - (if j = i then {a} else {}))
     \<and> unat sz \<le> obj_size (pp_mem (xm_pheap s')) b
     \<and> (\<forall>k < min (obj_size (pp_mem (xm_pheap s)) a) (unat sz). pp_mem (xm_pheap s') (b + k) = pp_mem (xm_pheap s) (a + k))
     \<and> (\<forall>j c. j < NUM_HEAPS \<longrightarrow> c \<in> Ls j \<longrightarrow> c \<noteq> a \<longrightarrow> (\<forall>x \<in> pp_whole (xm_pheap s) c. pp_mem (xm_pheap s') x = pp_mem (xm_pheap s) x))"
  by (rule xm_realloc_keeps [OF assms])

theorem realloc_keeps_contents_witness:
  "\<exists>s s'. xm_realloc 5 (Some 4112) 16 s = Inr (Some 4144, s') \<and> pp_mem (xm_pheap s) 4112 = 5 \<and> pp_mem (xm_pheap s') 4144 = 5"
proof -
  from sample_realloc [of 5 PROTECTEDHEAP_CHUNK] obtain p Ls Ts p1 where p: "pp_inv xheap_good xheap_taken Ls Ts p" "4112 \<in> Ls 0"
    "pp_malloc (xheap_malloc 5) PROTECTEDHEAP_CHUNK 0 16 p = Inr (Some 4144, p1)" "obj_size (pp_mem p) 4112 = 16" "pp_mem p 4112 = 5" by blast
  let ?s = "sample_xm\<lparr>xm_pheap := p\<rparr>"
  have s: "xm_pheap ?s = p" "xm_heapid ?s 5 = 0" by (simp_all add: sample_xm_def)
  have z: "0 < NUM_HEAPS" by (simp add: NUM_HEAPS_def)
  have r: "128 + 2 * unat (16 :: ulong) < 2 ^ 63" by simp
  from realloc_keeps_contents [of Ls Ts ?s 0 4112 5 16 4144 p1, unfolded s, OF p(1) z p(2) z r p(3)] obtain s' where
    s': "xm_realloc 5 (Some 4112) 16 ?s = Inr (Some 4144, s')" "\<forall>k < min (obj_size (pp_mem p) 4112) (unat (16 :: ulong)). pp_mem (xm_pheap s') (4144 + k) = pp_mem p (4112 + k)"
    by blast
  have "0 < min (obj_size (pp_mem p) 4112) (unat (16 :: ulong))" unfolding p(4) by simp
  with s'(2) have "pp_mem (xm_pheap s') (4144 + 0) = pp_mem p (4112 + 0)" by blast
  with s' s(1) p(5) show ?thesis by (intro exI [of _ ?s] exI [of _ s']) simp
qed

text \<open>
  C19. Mutual exclusion. An acquisition that succeeds found the lock free, and from then on every acquisition of the lock, by anybody, is refused
  and changes nothing.
\<close>

theorem lock_excludes:
  assumes "sync_entry me m s = Some e" and "lock_acquire me m s = Inr (True, s')" and "sync_entry q m s' = Some e"
  shows "\<not> le_is_acquired (lock_tab (dt s) e) \<and> lock_acquire q m s' = Inr (False, s')"
  using lock_exclusive [OF assms] by blast

theorem lock_excludes_witness:
  "\<exists>(s :: dsys) s'. lock_acquire 1 1048584 s = Inr (True, s') \<and> lock_acquire 1 1048584 s' = Inr (False, s')"
proof -
  from sample_locked obtain s s' :: dsys where s: "sync_entry 1 1048584 s = Some 4112" "lock_acquire 1 1048584 s = Inr (True, s')"
    "sync_entry 1 1048584 s' = Some 4112" by blast
  from lock_excludes [OF s] s(2) show ?thesis by blast
qed

text \<open>
  C20. The two page diffs agree. The SSE loop over 16-byte vectors with its compare, mask and masked move, and the loop over words
  with its bytewise slow path, write the same page, whatever the private page, the twin and the target hold.
\<close>

theorem writePageDiffs_sse_equiv: "writePageDiffs_sse lcl twin dest = writePageDiffs lcl twin dest"
  by (simp only: writePageDiffs_merge writePageDiffs_sse_merge)

text \<open>
  C21. A round of commits never fails for want of anything but twins: when no page is owned and the pool of twins has as many indices left
  as the processes have dirtied pages, the next index plus that number being below \<open>INITIAL_PAGES\<close>, which is where \<open>get\<close> fails, all commits of the round return, and what is left of the pool
  is at least what was not asked for. (What they commit is right only up to index 3070, see \<open>setVersion_bound\<close>; that they return does not depend on it.)
\<close>

theorem commit_round_returns:
  assumes "quiet w" and "room (dirty_count qs w + n) w"
  shows "\<exists>w'. commit_round qs w = Inr w' \<and> room n w'"
  by (rule commit_round_succeeds [OF assms])

theorem commit_round_returns_witness:
  "\<exists>w w'. run_events sample_events sample_quiet = Inr w \<and> commit_round [1, 2] w = Inr w'"
proof -
  from sample_parallel obtain w where w: "run_events sample_events sample_quiet = Inr w"
    "dirtiedPagesList (locals w 1) = [(0, 0)]" "dirtiedPagesList (locals w 2) = [(0, 0)]" "twins (sh w) = bm_initialize" by blast
  have "room (dirty_count [1, 2] w + 0) w"
    using w(2-4) bm_wf_initialize by (simp add: room_def dirty_count_def) (simp add: bm_initialize_def INITIAL_PAGES_def)
  from commit_round_returns [OF run_events_quiet [OF w(1) sample_quiet] this] w(1) show ?thesis by blast
qed

text \<open>
  C22. The word of a lock, condition variable or barrier. After \<open>setSyncEntry\<close> the process reads the entry back through
  \<open>getSyncEntry\<close>, and the shared copy of the word holds it as well, before any commit.
\<close>

theorem setSyncEntry_roundtrip:
  assumes "heap_word me a s" and "0 < e" "e < 2 ^ 64"
  shows "\<exists>s'. setSyncEntry me a e s = Inr s' \<and> getSyncEntry me a s' = Some e \<and> shared_word me a s' = word_of_nat e"
  by (rule setSyncEntry_get [OF assms])

theorem setSyncEntry_roundtrip_witness:
  "\<exists>s'. setSyncEntry 1 1048584 4112 sample_xm = Inr s' \<and> getSyncEntry 1 1048584 s' = Some 4112"
  using setSyncEntry_roundtrip [OF sample_heap_word, of 4112] by auto

text \<open>
  C23. The list of dirty pages stays well formed. After a write fault it is still sorted by page, names each record at most once, and
  each record names the page it is listed under.
\<close>

theorem handleWrite_keeps_dirty_list:
  assumes "dirty_wf me w" and "handleWrite me addr w = Inr w'"
    and "pageOwner (sh w) (computePage (addr - xp_base (locals w me))) < 2 ^ 32"
  shows "dirty_wf me w'"
  by (rule handleWrite_dirty_wf [OF assms])

theorem handleWrite_keeps_dirty_list_witness:
  "\<exists>w'. handleWrite 1 1048577 sample_owner_world = Inr w' \<and> dirty_wf 1 w'"
proof -
  have p: "computePage (1048577 - xp_base (locals sample_owner_world 1)) = 0" by (simp add: computePage_def PageSize_def)
  with handleWrite_write [OF p [symmetric]] obtain w' where w': "handleWrite 1 1048577 sample_owner_world = Inr w'"
    using sample_pool_wf by auto
  with handleWrite_keeps_dirty_list [OF sample_dirty_wf w'] p show ?thesis by auto
qed

text \<open>
  C24. Faulting stores return. A store to a private page of the region, readable or not, succeeds after at most two faults (one to make
  the page readable, one to make it writable), and the process sees the byte.
\<close>

theorem user_store_returns:
  assumes "p = computePage (addr - xp_base (locals w me))" and "pe_wf (pools w me)"
    and "pe_cur (pools w me) < PAGE_ENTRY_NUM" and "pageInfo (locals w me) p \<le> PAGE_ACCESS_WRITE"
    and "\<not> m_shared (transient (locals w me) p)" and "pageOwner (sh w) p < 2 ^ 32"
  shows "\<exists>w'. user_store 3 me addr b w = Some (Inr w')
    \<and> local_page me p w' ((addr - xp_base (locals w me)) mod PageSize) = b"
  by (rule user_store_succeeds [OF assms])

theorem user_store_returns_witness:
  "\<exists>w'. user_store 3 1 1048577 77 sample_owner_world = Some (Inr w') \<and> local_page 1 0 w' 1 = 77"
proof -
  have "\<exists>w'. user_store 3 1 1048577 77 sample_owner_world = Some (Inr w')
      \<and> local_page 1 0 w' ((1048577 - xp_base (locals sample_owner_world 1)) mod PageSize) = 77"
    by (rule user_store_returns) (simp_all add: sample_pool_wf computePage_def PageSize_def page_access_defs)
  then show ?thesis by (simp add: PageSize_def)
qed

text \<open>
  C25. Before a process is created or ends, \<open>finalcommit\<close> publishes its owned pages: exactly the pages it still owns in its recorded
  blocks become shared with its own content; every other page and its own view stay as they were.
\<close>

theorem finalcommit_publishes:
  "pageOwner (sh (finalcommit me r w)) p = (if owned_in_blocks me w p then SHARED_PAGE else pageOwner (sh w) p)
   \<and> share_page p (finalcommit me r w) = (if owned_in_blocks me w p then local_page me p w else share_page p w)
   \<and> local_page me p (finalcommit me r w) = local_page me p w"
  by (simp only: finalcommit_shares)

text \<open>
  C26. Stealing a page. When a process faults on a page another process owns, the owner, if it is alive, publishes its content first;
  afterwards the page is shared and no other page has changed.
\<close>

theorem notifyOwner_publishes:
  assumes "pageOwner (sh w) p < 2 ^ 32"
  shows "isSharedPage p (notifyOwnerToCommit me p w)
     \<and> share_page r (notifyOwnerToCommit me p w) =
       (if r = p \<and> \<not> isSharedPage p w \<and> live w (owner_pid p w) then local_page (owner_pid p w) p w else share_page r w)"
  using notifyOwnerToCommit_shared [OF assms] by blast

theorem notifyOwner_publishes_witness:
  "isSharedPage 0 (notifyOwnerToCommit 1 0 sample_owner_world) \<and> share_page 0 (notifyOwnerToCommit 1 0 sample_owner_world) 8 = 9"
  using notifyOwner_publishes [of sample_owner_world 0 1 0] sample_owner_copy
  by (simp add: isSharedPage_def owner_pid_def SHARED_PAGE_def)

text \<open>
  C27. Boundary tags. Let the memory from \<open>a\<close> to \<open>e\<close> be tiled by objects whose headers carry their sizes, the sizes of the objects before them and
  whether these are free, let no two neighbours be free, and let the list of the layer below hold exactly the free objects; its links are in the first 16 bytes of these
  objects, in the same memory, and its sentinels are elsewhere. Let the free objects and the one to be freed have at least 16 bytes; those in use may be smaller. Freeing an
  object that is in use merges it with a free predecessor and a free successor, and all of this holds again. (Links of an object with fewer than 16 bytes would be stored
  over the header behind it.)
\<close>

theorem coalesce_free_merges:
  fixes h :: "'s layer"
  assumes "tags (ly_mem h) a (xs @ (s1, f1) # (s2, False) # (s3, f3) # ys) e" and "e < 2 ^ 62"
    and "settled (xs @ (s1, f1) # (s2, False) # (s3, f3) # ys)"
    and "roomy (xs @ (s1, f1) # (s2, False) # (s3, f3) # ys)" and "16 \<le> s2"
    and "between H T fs h" and "set fs = frees a (xs @ (s1, f1) # (s2, False) # (s3, f3) # ys)"
    and "H + 16 \<le> a \<or> e + 16 \<le> H" and "T + 16 \<le> a \<or> e + 16 \<le> T"
  shows "\<exists>h' fs'. co_free fd_remove (fd_free H) (a + width xs + 32 + s1) h = Inr h'
     \<and> tags (ly_mem h') a (xs @ joined (s1, f1) s2 (s3, f3) @ ys) e \<and> settled (xs @ joined (s1, f1) s2 (s3, f3) @ ys)
     \<and> roomy (xs @ joined (s1, f1) s2 (s3, f3) @ ys)
     \<and> between H T fs' h' \<and> set fs' = frees a (xs @ joined (s1, f1) s2 (s3, f3) @ ys)"
proof -
  have "fo_cells {H, T}" by (rule fo_cells_mono [of "set (H # fs @ [T])"]) (use assms(6) in \<open>auto simp: between_def\<close>)
  then have out: "outside a e {H, T}" using assms(8,9) by (simp add: outside_def)
  have room: "roomy (xs @ joined (s1, f1) s2 (s3, f3) @ ys)" using assms(4,5) by (auto simp: joined_def with_next_def)
  have "\<exists>zs. between H T zs h \<and> set zs = frees a (xs @ (s1, f1) # (s2, False) # (s3, f3) # ys)" using assms(6,7) by blast
  from fifo_store.co_free_objects [OF assms(1,2) this assms(4,5) out] settled_joined [OF assms(3)] room show ?thesis by auto
qed

theorem coalesce_free_merges_witness:
  "\<exists>h'. co_free fd_remove (fd_free 100) 1064 sample_layer = Inr h' \<and> tags (ly_mem h') 1000 [(128, True), (0, False)] 1160 \<and> between 100 200 [1016] h'"
proof -
  let ?b = "[] @ (32, True) # (32, False) # (32, True) # [(0, False)]"
  have t: "tags (ly_mem sample_layer) 1000 ?b 1160" using sample_tags by simp
  have s: "settled ?b" "roomy ?b" by (simp_all add: settled_def)
  have f: "set [1112, 1016] = frees 1000 ?b" by auto
  from coalesce_free_merges [OF t _ s _ sample_between f] obtain h' fs' where h': "co_free fd_remove (fd_free 100) 1064 sample_layer = Inr h'"
    "tags (ly_mem h') 1000 [(128, True), (0, False)] 1160" "between 100 200 fs' h'" "set fs' = {1016}"
    by (auto simp: joined_def with_next_def)
  have "distinct fs'" using h'(3) by (simp add: between_def)
  then have "length fs' = 1" using h'(4) distinct_card [of fs'] by simp
  then obtain x where "fs' = [x]" unfolding One_nat_def length_Suc_conv by blast
  with h'(4) have "fs' = [1016]" by simp
  with h' show ?thesis by blast
qed

text \<open>
  C28. First fit among the bins. Let every bin with free objects be marked in the bitmap. A request of at most the largest class takes
  the newest object of the least bin, from the class of the request upwards, that has one, and leaves the bitmap so that bins with objects are
  still marked; when all these bins are empty, the heap for big objects is asked. The search runs over the words and bits of the bitmap, and ends.
\<close>

theorem segheap_first_fit:
  fixes h :: "'w heap"
  assumes "bins_known (numBins A) (g, h)" and "little_malloc A = (\<lambda>i _. adapt_malloc i)"
    and "getSizeClass A sz < numBins A" and "sz \<le> seg_maxObjectSize A"
  shows "if \<exists>i. getSizeClass A sz \<le> i \<and> sl_head (kz h) i \<noteq> None
     then \<exists>a h' g'. adapt_malloc (LEAST i. getSizeClass A sz \<le> i \<and> sl_head (kz h) i \<noteq> None) h = (Some a, h')
        \<and> seg_malloc A sz (g, h) = Some (Inr (Some a, g', h')) \<and> bins_known (numBins A) (g', h')
     else \<exists>g'. bins_known (numBins A) (g', h) \<and> seg_malloc A sz (g, h) = Some (res_bind (big_alloc A sz h) (\<lambda>(q, h'). Inr (q, g', h')))"
  using seg_malloc_first_fit [OF assms] .

theorem segheap_first_fit_witness:
  "\<exists>h' g'. seg_malloc sample_seg_args 16 (sample_seg, sample_seg_heap) = Some (Inr (Some 4112, g', h')) \<and> bins_known NUMBINS (g', h')"
proof -
  have ex: "\<exists>i. 1 \<le> i \<and> sl_head (kz sample_seg_heap) i \<noteq> None" by (intro exI [of _ 3]) (simp add: sample_seg_heap_def)
  have n: "numBins sample_seg_args = NUMBINS" by (simp add: sample_seg_args_def)
  have "fst (adapt_malloc 3 sample_seg_heap) = Some 4112" by (simp add: adapt_malloc_def sl_get_def sample_seg_heap_def)
  with segheap_first_fit [OF sample_seg_known sample_seg_class(1,3,4)] show ?thesis
    unfolding sample_seg_class(2) n using ex by (auto simp: sample_seg_least [unfolded One_nat_def] simp del: not_None_eq)
qed

text \<open>
  C29. The hash table is a map. In a table whose chains are well-formed, \<open>get\<close> returns what the map holds under the key, \<open>set\<close> updates the map, given that the
  allocator has a node that is in no chain, and \<open>erase\<close> removes the key; both leave the chains well-formed. All searches end.
\<close>

theorem hashmap_is_map:
  assumes "table hash L m" and "smalloc 24 (hm_allocator m) = (Some p, s)" and "\<And>i. i < hm_numBins m \<Longrightarrow> p \<notin> set (L i)"
  shows "hm_get hash k m = Some (content hash L m k)
     \<and> (\<exists>m' L'. hm_set hash smalloc k v m = Some m' \<and> table hash L' m' \<and> content hash L' m' = (content hash L m)(k \<mapsto> v))
     \<and> (\<exists>m' L'. hm_erase hash sfree k m = Some m' \<and> table hash L' m' \<and> content hash L' m' = (content hash L m)(k := None))"
  using hm_get_content [OF assms(1)] hm_set_content [where smalloc = smalloc and p = p and s = s, OF assms] hm_erase_content [OF assms(1)] by blast

theorem hashmap_is_map_witness:
  "\<exists>m' L'. hm_set word_of_nat (\<lambda>sz a. (Some a, a + 24)) 7 70 sample_table = Some m' \<and> table word_of_nat L' m' \<and> content word_of_nat L' m' = [7 \<mapsto> 70]"
  using hashmap_is_map [OF sample_table_ok(1), of "\<lambda>sz a. (Some a, a + 24)" 4096 4120 7 70] sample_table_ok(2)
  by (simp add: sample_table_def hm_init_def)

text \<open>
  C30. Bitmap allocation. The search of \<open>allocate\<close>, which skips full entries and continues behind the first taken bit of a run that fails, finds what a search that tries
  every aligned position finds: the first one where a run of free bits may start. Then exactly the bits of the run change from free to taken. The run may go over
  the end of the map; then \<open>allocate\<close> reads beyond it.
\<close>

theorem bitmap_first_fit:
  assumes "0 < al" and "N \<le> 32 * length (bs_B s)" and "bs_firstPos s = 0"
  shows "case bs_first N len al s 0 of
      Inl e \<Rightarrow> bs_allocate N len al s = Some (Inl e)
    | Inr None \<Rightarrow> bs_allocate N len al s = Some (Inr (None, s))
    | Inr (Some p) \<Rightarrow> \<exists>s'. bs_allocate N len al s = Some (Inr (Some p, s')) \<and> same_map s s'
        \<and> (\<forall>k. is_free s' k \<longleftrightarrow> is_free s k \<and> \<not> (p \<le> k \<and> k < p + len))"
  by (rule bs_allocate_first_fit [OF assms])

theorem bitmap_first_fit_witness:
  "\<exists>s'. bs_allocate 64 8 4 sample_bits = Some (Inr (Some 32, s')) \<and> \<not> is_free s' 32 \<and> \<not> is_free s' 39"
  using bitmap_first_fit [of 4 64 sample_bits 8] unfolding sample_first by (auto simp: sample_bits_def)

text \<open>
  C31. Address-ordered first fit, for requests of at least 16 bytes: the source asserts that the links of a freed object fit behind its header, and with fewer bytes they would be
  stored over the next header. When no object before has room for the request and a header with links, the first object that has it is split: the request gets its front part, the
  rest stays in the list, in order of addresses. Freeing the object again merges it with this rest to one free object at the old place, which is 16
  bytes smaller than before: the code takes the links off besides the header. All searches end.
\<close>

theorem aoff_split_loses_bytes:
  assumes "ao_ok H lo (xs @ (a, s) # ys) h" and "ao_apart (xs @ (a, s) # ys)" and "\<forall>x\<in>set xs. snd x < n + 24" and "n + 24 \<le> s" and "16 \<le> n" and "int s < sint T"
  shows "\<exists>h1 h2. ao_malloc H smalloc (word_of_nat n) h = Some (Inr (Some (a + 8), h1)) \<and> ao_ok H lo (xs @ (a + 8 + n, s - n - 24) # ys) h1
     \<and> ao_free H T sfree (a + 8) h1 = Some h2 \<and> ao_ok H lo (xs @ (a, s - 16) # ys) h2 \<and> ao_apart (xs @ (a, s - 16) # ys) \<and> ao_super h2 = ao_super h"
proof -
  let ?ys = "(a + 8 + n, s - n - 24) # ys"
  from ao_malloc_first [OF assms(1,3,4,5)] obtain h1 where m: "ao_malloc H smalloc (word_of_nat n) h = Some (Inr (Some (a + 8), h1))"
    "ao_ok H lo (xs @ ?ys) h1" "ao_size h1 a = word_of_nat n" "ao_super h1 = ao_super h" by blast
  have r: "lo \<le> a" "ao_end (a, n) \<le> lo + 2 ^ 31" using ao_size_of(4-6) [OF assms(1), of a s] assms(4) by simp_all
  have before: "\<forall>x\<in>set xs. fst x + 8 + snd x < a" "\<forall>y\<in>set ys. a + 8 + s < fst y" using assms(2) by (auto simp: ao_apart_def sorted_wrt_append)
  have order: "\<forall>x\<in>set xs. ao_end x \<le> a" "\<forall>y\<in>set ?ys. ao_end (a, n) \<le> fst y"
    using assms(1,4,5) before(2) by (auto simp: ao_ok_def sorted_wrt_append)
  have "xs \<noteq> [] \<Longrightarrow> \<not> ao_joins (last xs) (a, n)" using before(1) by (auto simp: ao_joins_def)
  then have "ao_freed xs (a, n) ?ys = (xs, (a, s - 16), ys)"
    using assms(4) by (auto simp: ao_freed_def ao_join_left_def ao_join_right_def ao_joins_def ao_join_def)
  from ao_free_joins [OF m(2,3) r order this, of T sfree] assms(6) obtain h2 where "ao_free H T sfree (a + 8) h1 = Some h2"
    "ao_ok H lo (xs @ (a, s - 16) # ys) h2" "ao_super h2 = ao_super h1" by auto
  moreover have "ao_apart (xs @ (a, s - 16) # ys)" using assms(2) before by (auto simp: ao_apart_def sorted_wrt_append)
  ultimately show ?thesis using m by auto
qed

theorem aoff_split_loses_bytes_witness:
  "\<exists>h1 h2. ao_malloc 100 (\<lambda>sz s. (None, s)) 100 sample_aoff = Some (Inr (Some 1008, h1)) \<and> ao_free 100 4096 (\<lambda>p s. s) 1008 h1 = Some h2 \<and> ao_ok 100 1000 [(1000, 184)] h2"
  using aoff_split_loses_bytes [where xs = "[]" and ys = "[]" and n = 100 and T = 4096 and smalloc = "\<lambda>sz s. (None, s)" and sfree = "\<lambda>p s. s",
      simplified, OF sample_aoff_ok(1) sample_aoff_ok(2)] by fastforce

text \<open>
  C32. Treaps. Inserting a node that is not in a well-formed treap ends without a failure; the nodes are again a tree linked both ways, in order by key, a heap by priority, with
  the new node at one place between the others and the old nodes in their order; a search for the key finds a node that has it. Removing the node again ends as well and
  leaves a well-formed treap of the old nodes in the old order.
\<close>

theorem treap_insert_keeps:
  assumes "treap_inv tr t" and "n \<notin> set_tree t"
  shows "\<exists>tr1 t1 tr2 t2 xs ys q. t_insert n k v pr tr = Some (Inr tr1) \<and> treap_inv tr1 t1 \<and> inorder t = xs @ ys \<and> inorder t1 = xs @ n # ys
     \<and> t_lookup k tr1 = Some (Some q) \<and> tn_key (tr_nodes tr1 q) = k
     \<and> t_remove (Some n) tr1 = Some (Inr (Some n, tr2)) \<and> treap_inv tr2 t2 \<and> inorder t2 = inorder t"
proof -
  from t_insert_inv [OF assms] obtain tr1 t1 xs ys where i: "t_insert n k v pr tr = Some (Inr tr1)" "treap_inv tr1 t1" "inorder t = xs @ ys"
    "inorder t1 = xs @ n # ys" "tn_key (tr_nodes tr1 n) = k" by metis
  have n: "n \<in> set_tree t1" "n \<notin> set xs" using i(3,4) assms(2) set_inorder [of t] set_inorder [of t1] by auto
  from t_lookup_finds(1) [OF i(2), of k] i(5) n(1) obtain q where q: "t_lookup k tr1 = Some (Some q)" "tn_key (tr_nodes tr1 q) = k"
    by (auto split: option.splits)
  from t_remove_inv [OF i(2) n(1)] obtain tr2 t2 where r: "t_remove (Some n) tr1 = Some (Inr (Some n, tr2))" "treap_inv tr2 t2" "inorder t2 = remove1 n (inorder t1)"
    by blast
  have "inorder t2 = inorder t" using r(3) i(3,4) n(2) by (simp add: remove1_append)
  with i q r show ?thesis by blast
qed

theorem treap_insert_keeps_witness:
  "\<exists>tr1 t1. t_insert 300 64 300 0 sample_treap = Some (Inr tr1) \<and> treap_inv tr1 t1 \<and> set_tree t1 = {100, 200, 300}"
proof -
  have n: "300 \<notin> set_tree sample_two" by simp
  from treap_insert_keeps [OF sample_treap_inv n, of 64 300 0] obtain tr1 t1 xs ys where t: "t_insert 300 64 300 0 sample_treap = Some (Inr tr1)"
    "treap_inv tr1 t1" "inorder sample_two = xs @ ys" "inorder t1 = xs @ 300 # ys" by blast
  have "set (inorder t1) = insert 300 (set (inorder sample_two))" unfolding t(3,4) by auto
  then have "set_tree t1 = {100, 200, 300}" by auto
  with t(1,2) show ?thesis by blast
qed

text \<open>
  C33. Mutual exclusion of the recursive lock. Let the indices of the threads be different and none of them \<open>-1\<close>. In every state that any interleaving of the steps
  of the threads reaches, when a thread has returned from \<open>lock\<close> more often than it has called \<open>unlock\<close>, no other thread has, the mutex is locked, the count is the
  depth of its calls, the thread does not wait for the lock, and when it calls \<open>unlock\<close> the test of the owner succeeds.
\<close>

theorem recursive_lock_one_owner:
  assumes "tids_ok n self" and "ls_reach n self t" and "0 < ls_depth t i"
  shows "(\<forall>j. 0 < ls_depth t j \<longleftrightarrow> j = i) \<and> rl_mutex (ls_lock t) = LOCKED \<and> rl_count (ls_lock t) = word_of_nat (ls_depth t i)
     \<and> ls_pc t i \<notin> {TryBase, Contend, Spin, Died}
     \<and> (ls_pc t i = AskRelease \<longrightarrow> rl_unlock (currthread self i) (ls_pc t i) (ls_lock t) = Some (CountDown, ls_lock t))"
  using recursive_lock_excludes [OF assms] unlock_own [OF assms] assms(3) by blast

theorem recursive_lock_one_owner_witness:
  "ls_reach 2 sample_self (locked_once 4) \<and> \<not> 0 < ls_depth (locked_once 4) 1 \<and> rl_mutex (ls_lock (locked_once 4)) = LOCKED"
  using recursive_lock_one_owner [OF sample_tids sample_held_once, of 0] sample_held_once by (simp add: locked_once_def)

text \<open>
  C34. Size classes. For every size the small heaps serve, \<open>size2Class\<close> is in range and names the smallest class whose blocks are large
  enough, with less than twice the space asked for (or 8 bytes).
\<close>

theorem size2Class_tight:
  assumes "sz \<le> maxObjectSize"
  shows "0 \<le> size2Class sz \<and> size2Class sz < int NUMBINS \<and> sz \<le> class2Size (size2Class sz)
     \<and> unat (class2Size (size2Class sz)) < 2 * max 8 (unat sz)
     \<and> (\<forall>c. 0 \<le> c \<longrightarrow> c < size2Class sz \<longrightarrow> class2Size c < sz)"
  using size2Class_fits [OF assms] by blast

theorem size2Class_tight_witness: "size2Class 100 < int NUMBINS \<and> 100 \<le> class2Size (size2Class 100)"
  using size2Class_tight [of 100] by (simp add: maxObjectSize_def NUMBINS_def class2Size_def)

text \<open>
  C35. The budget of an owner. The only user of a lock acquires and releases it over and over. It succeeds until its budget is used up and is refused once then, with a new budget, so that it
  has to get the token; when it is the only working thread, it is not refused then either, nor ever.
\<close>

theorem lock_owner_budget:
  assumes "sync_entry me m s = Some e" and "owned_free me (lock_tab (dt s) e)" and "n < unat (le_budget (lock_tab (dt s) e))"
  shows "(\<exists>s' got s''. lock_cycles me m n s s' \<and> lock_acquire me m s' = Inr (got, s'')
       \<and> (got \<longleftrightarrow> isSingleWorkingThread (dt s) \<or> Suc n < unat (le_budget (lock_tab (dt s) e)))
       \<and> (\<not> got \<longrightarrow> owned_free me (lock_tab (dt s'') e) \<and> le_budget (lock_tab (dt s'') e) = word_of_int LOCK_OWNER_BUDGET))
    \<and> (isSingleWorkingThread (dt s) \<longrightarrow> (\<forall>k. \<exists>s'. lock_cycles me m k s s'))"
  using owner_budget [OF assms] single_cycles [OF assms(1,2)] by blast

theorem lock_owner_budget_witness:
  "\<exists>(s :: dsys) s' s''. sync_entry 1 1048584 s = Some 4112 \<and> lock_cycles 1 1048584 9 s s' \<and> lock_acquire 1 1048584 s' = Inr (False, s'') \<and> le_budget (lock_tab (dt s'') 4112) = 10"
proof -
  from sample_owned_lock obtain s :: dsys where s: "sync_entry 1 1048584 s = Some 4112" "owned_free 1 (lock_tab (dt s) 4112)"
    "le_budget (lock_tab (dt s) 4112) = 10" "\<not> isSingleWorkingThread (dt s)" by blast
  from lock_owner_budget [OF s(1,2), of 9] s(3,4) obtain s' s'' where "lock_cycles 1 1048584 9 s s'" "lock_acquire 1 1048584 s' = Inr (False, s'')"
    "le_budget (lock_tab (dt s'') 4112) = word_of_int LOCK_OWNER_BUDGET" by auto
  with s(1) show ?thesis by (auto simp: LOCK_OWNER_BUDGET_def)
qed

text \<open>
  C36. A wait can steal the token. A thread that holds its lock as its owner does not have the token; when it waits on a condition
  variable, the token moves from its holder to the thread behind the waiter.
\<close>

theorem cond_wait_steals_token:
  assumes "sim d s Q" and "Cond c \<in> Q" and "running s = t # xs @ i # y # ys"
  shows "\<exists>d'. cond_enqueue i c d = Inr d' \<and> tokenpos d = Some t \<and> tokenpos d' = Some y"
  by (rule cond_enqueue_steals [OF assms])

theorem cond_wait_steals_token_witness:
  "\<exists>d'. cond_enqueue 1 500 sample_determ = Inr d' \<and> tokenpos sample_determ = Some 0 \<and> tokenpos d' = Some 2"
  by (rule cond_wait_steals_token [OF sample_sim, where xs = "[]" and ys = "[]"]) simp_all

text \<open>
  C37. Cancellation leaves a trap. Cancelling the only waiter of a condition variable empties its queue but not its count of waiters, so the next
  signal takes the head of an empty queue and dereferences NULL.
\<close>

theorem signal_after_cancel_crashes:
  assumes "sim d s Q" and "Cond c \<in> Q" and "waiting s (Cond c) = [w]"
  shows "\<exists>d'. cancel w d = Inr (True, d') \<and> ce_waiters (cond_tab d' c) = 1 \<and> cond_dequeue c d' = Inl NullDeref"
  by (rule cancel_then_signal [OF assms])

theorem signal_after_cancel_crashes_witness:
  "\<exists>d d'. cancel 4 d = Inr (True, d') \<and> cond_dequeue 500 d' = Inl NullDeref"
proof -
  from sample_single_waiter obtain d where d: "sim d (spec_signal 500 sample_sched) sample_queues"
    "waiting (spec_signal 500 sample_sched) (Cond 500) = [4]" by blast
  from signal_after_cancel_crashes [OF d(1) _ d(2)] show ?thesis by auto
qed

text \<open>
  C38. \<open>malloc\<close> can deadlock. Two processes whose thread indices agree modulo \<open>NUM_HEAPS\<close> use the same heap. When one of them needs a new chunk, it waits at the fence
  inside \<open>malloc\<close> and keeps the real mutex of the heap; the other waits for that mutex and so never arrives at the fence. When everybody else has ended or waits
  at the fence, spinning or asleep, no step is possible any more.
\<close>

theorem malloc_deadlocks:
  assumes "me \<notin> dead s" and "code me = xr_malloc sz @ k" and "heap_holder s (heap_of me s) = None"
    and "xm_asks me sz (xm s)" and "sync_entry me (xh_mutex (heap_top s)) s = None"
    and "xr_fence_enabled (procs s me)" and "\<not> xr_token_holding (procs s me)"
    and "is_arrival_phase (dt s)" and "currthreads (dt s) + 1 < maxthreads (dt s)" and "maxthreads (dt s) \<noteq> 1"
    and "other \<noteq> me" and "heap_of other s = heap_of me s" and "code other = xr_malloc sz' @ k'"
    and "\<And>q. q \<noteq> me \<Longrightarrow> q \<noteq> other \<Longrightarrow> code q = [] \<or> at_fence q s (code q)"
  shows "\<exists>cf. xstep\<^sup>*\<^sup>* (s, code) cf \<and> (\<forall>cf'. \<not> xstep cf cf')"
  by (rule malloc_deadlock) (rule assms | assumption)+

theorem malloc_deadlocks_witness:
  "\<exists>cf. xstep\<^sup>*\<^sup>* (sample_crowd, sample_crowd_code) cf \<and> (\<forall>cf'. \<not> xstep cf cf')"
  by (rule malloc_deadlocks [of 101 _ _ 16 "[]" 133 16 "[]"])
    (simp_all add: sample_crowd_asks sample_crowd_mutex sample_crowd_fence sample_crowd_code_def sample_proc_def NUM_HEAPS_def)

text \<open>
  C39. A lost update. A page that becomes shared while a process works on it has no twin when that process is its only user; its
  commit then compares with the uninitialised twin page, so a byte that it changed to what that page holds (zero) is not published.
\<close>

theorem commit_loses_zero_bytes:
  assumes "e = pe_start (pools w me) i" and "p = pi_pageNo e" and "\<not> pi_isUpdated e"
    and "pageOwner (sh w) p = SHARED_PAGE" and "pageUsers (sh w) p = \<lparr>si_users = 1, si_bitmapIndex = 0\<rparr>"
    and "\<not> same_version e w" and "local_page me p w k = twin_page 0 (twins (sh w)) k"
  shows "\<exists>w'. commit_page me False i w = Inr w' \<and> share_page p w' k = share_page p w k"
  by (rule commit_page_lost_zero [OF assms])

theorem commit_loses_zero_bytes_witness:
  "\<exists>w'. commit_page 1 False 0 sample_lost_world = Inr w' \<and> local_page 1 0 sample_lost_world 3 = 0 \<and> share_page 0 w' 3 = 7"
  using commit_loses_zero_bytes [OF refl refl, of sample_lost_world 1 0 3] by (auto simp: sample_lost_simps)

text \<open>
  C40. The table of owned blocks is one page and holds 256 pairs, but the guard of \<open>setOwnedPage\<close> exits only when the count gets to 2048. So a process takes blocks, whatever they are, up to
  the 256th without being stopped, and the one after that is written behind the page.
\<close>

theorem setOwnedPage_overflows:
  assumes "isProtected (locals w me)" and "unat (ownedblocks (locals w me)) \<le> 256"
  shows "if unat (ownedblocks (locals w me)) + length bs \<le> 256
     then \<exists>w'. own_blocks me bs w = Inr w' \<and> unat (ownedblocks (locals w' me)) = unat (ownedblocks (locals w me)) + length bs
     else own_blocks me bs w = Inl OutOfBounds"
  by (rule own_blocks_fit [OF assms])

theorem setOwnedPage_overflows_witness:
  "(\<exists>w. own_blocks 1 (replicate 255 (1048576, 4096)) sample_owner_world = Inr w) \<and> own_blocks 1 (replicate 256 (1048576, 4096)) sample_owner_world = Inl OutOfBounds"
  using setOwnedPage_overflows [of sample_owner_world 1 "replicate 255 (1048576, 4096)"] setOwnedPage_overflows [of sample_owner_world 1 "replicate 256 (1048576, 4096)"]
  by auto

section \<open>Further facts\<close>

text \<open>
  Join, first half. Joining a thread that has not exited takes the owner of the token out of the ring, records whom it joins and
  asks it to sleep.
\<close>

theorem join_blocks:
  assumes "sim d s Q" and "tl (running s) \<noteq> []" and "hd (running s) = t" "te_threadindex (entries d t) = t"
    and "te_status (entries d g) \<noteq> STATUS_EXIT"
  shows "\<exists>d'. join_start g t wakeup d = Inr (True, d') \<and> sim d' (spec_leave s) Q
     \<and> te_status (entries d' t) = STATUS_JOINING \<and> te_joinee (entries d' t) = g"
  by (rule join_start_sim [OF assms])

theorem join_blocks_witness:
  "\<exists>d'. join_start 2 0 True sample_determ = Inr (True, d') \<and> sim d' (spec_leave sample_sched) sample_queues
     \<and> te_status (entries d' 0) = STATUS_JOINING"
  using join_blocks [OF sample_sim, of 0 2 True] by auto

text \<open>
  Join, second half. The joiner that the exit of its child put back into the ring finds the exit, is counted by the fence
  again and is ready.
\<close>

theorem join_returns:
  assumes "sim d s Q" and "te_status (entries d g) = STATUS_EXIT" and "uncounted s = Suc u" and "i \<in> set (running s)"
  shows "\<exists>d'. join_wakeup g i d = Inr (False, d') \<and> sim d' (s\<lparr>uncounted := u\<rparr>) Q \<and> te_status (entries d' i) = STATUS_READY"
  by (rule join_wakeup_sim [OF assms])

theorem join_returns_witness:
  "\<exists>d d'. deregisterThread 0 sample_determ = Inr d \<and> join_wakeup 0 6 d = Inr (False, d') \<and> te_status (entries d' 6) = STATUS_READY"
proof -
  from sample_exit obtain d where d: "deregisterThread 0 sample_determ = Inr d"
    "sim d (spec_exit (Some 6) sample_sched) sample_queues" "te_status (entries d 0) = STATUS_EXIT" by blast
  then show ?thesis using join_returns [OF d(2,3), of 0 6] by (auto simp: spec_exit_def spec_leave_def spec_insert_def)
qed

text \<open>
  Waiting for a signal. The owner of the token leaves the ring before it sleeps; when the signal has arrived it is inserted behind
  whoever has the token then, and is counted again.
\<close>

theorem sig_wait_leaves_and_returns:
  assumes "sim d s Q" and "tl (running s) \<noteq> []"
  shows "\<exists>d1 d2. sig_wait_leave (hd (running s)) d = Inr d1 \<and> sim d1 (spec_leave s) Q
     \<and> sig_wait_return (hd (running s)) d1 = Inr d2 \<and> sim d2 (spec_insert [hd (running s)] (spec_leave s)) Q"
proof -
  from sig_wait_leave_sim [OF assms] obtain d1
    where d1: "sig_wait_leave (hd (running s)) d = Inr d1" "sim d1 (spec_leave s) Q" by blast
  have "hd (running s) \<notin> set (running (spec_leave s))"
    using assms(2) sim_head(1) [OF assms(1)] by (cases "running s") (auto simp: spec_leave_def)
  with sig_wait_return_sim [OF d1(2)] sim_head(2) [OF assms(1)] d1 show ?thesis by (force simp: spec_leave_def)
qed

theorem sig_wait_leaves_and_returns_witness:
  "\<exists>d1 d2. sig_wait_leave 0 sample_determ = Inr d1 \<and> sig_wait_return 0 d1 = Inr d2
     \<and> sim d2 (spec_insert [0] (spec_leave sample_sched)) sample_queues"
  using sig_wait_leaves_and_returns [OF sample_sim] by auto

text \<open>
  Round trip of the size classes: the size of a class belongs to that class.
\<close>

theorem size2Class_inverts:
  assumes "0 \<le> i" and "i < 60"
  shows "size2Class (class2Size i) = i"
  by (rule size2Class_class2Size [OF assms])

theorem size2Class_inverts_witness: "size2Class (class2Size 28) = 28"
  by (rule size2Class_inverts) simp_all

text \<open>
  Sequential programs pay nothing. For a process that has no children, locking, unlocking, signalling, broadcasting and waiting at a
  barrier do not touch the state and cannot block.
\<close>

theorem alone_sync_is_free:
  assumes "alone me s" and "c \<in> {MutexLock a, MutexUnlock a, CondSignalled a, CondBroadcasted a, BarrierWait a}"
  shows "call me (SyncCall c) s = Inr ([IEnd (Ret 0)], s)"
  by (rule alone_free [OF assms])

theorem alone_sync_is_free_witness: "call 102 (SyncCall (MutexLock 64)) sample_xsys = Inr ([IEnd (Ret 0)], sample_xsys)"
  by (rule alone_sync_is_free [OF sample_alone]) simp

text \<open>
  Spawning breaks the order of the commits. A process whose fence is on and that creates a thread commits its pages as the first thing it
  does; only then does it ask for the token. Nothing makes it wait for its turn.
\<close>

theorem spawn_commits_without_token:
  assumes "me \<notin> dead s" and "code me = IEnd User # k" and "ready_lib me s" and "xr_protection_enabled (procs s me)"
    and "on_xm_r (xm_commit me False) s = Inr s'"
  shows "\<exists>code'. xstep (s, code) (s, code') \<and> (\<exists>code''. xstep (s, code') (s', code'')
     \<and> code'' me = IMem (FinalCommit True) # ISpawn (SpawnToken t) # IEnd User # k)"
  by (rule spawn_commits_first) (rule assms)+

theorem spawn_commits_without_token_witness:
  "\<exists>s' code' code''. xstep (sample_xsys, sample_code) (sample_xsys, code') \<and> xstep (sample_xsys, code') (s', code'')
     \<and> xr_fence_enabled (procs sample_xsys 101) \<and> has_token 101 (dt sample_xsys) = Inr False"
proof -
  from sample_commit obtain s' where "on_xm_r (xm_commit 101 False) sample_xsys = Inr s'" by blast
  then have "\<exists>code'. xstep (sample_xsys, sample_code) (sample_xsys, code') \<and> (\<exists>code''. xstep (sample_xsys, code') (s', code'')
      \<and> code'' 101 = IMem (FinalCommit True) # ISpawn (SpawnToken 8192) # IEnd User # [IEnd ExitProcess])"
    by (intro spawn_commits_without_token) (simp_all add: sample_code_def ready_lib_def sample_proc_def)
  with sample_no_token show ?thesis by (auto simp: sample_proc_def)
qed

text \<open>
  The twins are shared with a table of versions that is too small: storing the version of any twin up to index 3070 changes no twin
  page, while the version of twin 3071 overwrites the first bytes of twin page 1.
\<close>

theorem setVersion_bound:
  "(unat i \<le> 3070 \<and> 1 \<le> unat j \<longrightarrow> twin_page j (bm_setVersion i v m) = twin_page j m)
   \<and> (k < 4 \<longrightarrow> twin_page 1 (bm_setVersion 3071 v m) k = byte_of v k)"
  using setVersion_keeps_twins setVersion_3071 by blast

theorem setVersion_bound_witness: "twin_page 1 (bm_setVersion 3071 1 bm_initialize) 0 = 1 \<and> twin_page 1 bm_initialize 0 = 0"
  using setVersion_bound [of 0 0 1 bm_initialize 0] by (simp add: sample_twin_zero byte_of_def)

text \<open>
  \<open>clearSyncEntry\<close> clears only half of the word. The process reads NULL afterwards, but the shared copy, which
  \<open>setSyncEntry\<close> had written directly, keeps the stale entry until the page is committed.
\<close>

theorem clearSyncEntry_stale:
  assumes "heap_word me a s" and "0 < xp_base (locals (heap_world s) me)" "0 < xp_base (locals (xm_globals s) me)"
    and "pageInfo (locals (heap_world s) me) (computePage (a - xp_base (locals (heap_world s) me))) = PAGE_ACCESS_READ"
  shows "\<exists>s'. clearSyncEntry me a s = Inr s' \<and> getSyncEntry me a s' = None \<and> shared_word me a s' = shared_word me a s"
  by (rule clearSyncEntry_keeps_shared [OF assms])

theorem clearSyncEntry_stale_witness:
  "\<exists>s'. clearSyncEntry 1 1048584 sample_xm = Inr s' \<and> getSyncEntry 1 1048584 s' = None
     \<and> shared_word 1 1048584 s' = shared_word 1 1048584 sample_xm"
  using clearSyncEntry_stale [OF sample_heap_word] by simp

text \<open>
  Best fit. When the nodes of a Cartesian heap are the free objects with their sizes, \<open>malloc\<close> takes one of the least size among those that fit the request, rounded up to
  the size of a node, and the nodes are the other free objects; it asks the layer below exactly when none fits. Freeing an object that is not free adds it.
\<close>

theorem cartesian_best_fit:
  assumes "ch_ok getSize F h" and "p \<notin> F" and "m = (if sz < sizeof_Node then sizeof_Node else sz)"
  shows "(if \<exists>a\<in>F. m \<le> getSize a (ch_super h)
      then \<exists>b h'. ch_malloc smalloc sz h = Some (Inr (Some b, h')) \<and> b \<in> F \<and> m \<le> getSize b (ch_super h)
        \<and> (\<forall>a\<in>F. m \<le> getSize a (ch_super h) \<longrightarrow> getSize b (ch_super h) \<le> getSize a (ch_super h)) \<and> ch_ok getSize (F - {b}) h'
      else ch_malloc smalloc sz h = (case smalloc m (ch_super h) of (q, s) \<Rightarrow> Some (Inr (q, h\<lparr>ch_super := s\<rparr>))))
    \<and> (\<exists>h'. ch_free getSize p h = Some (Inr h') \<and> ch_ok getSize (insert p F) h')"
  using ch_malloc_best [OF assms(1), of sz smalloc] ch_free_adds [OF assms(1,2)] unfolding assms(3) by blast

theorem cartesian_best_fit_witness:
  "(\<exists>h'. ch_malloc (\<lambda>sz s. (None, s)) 50 sample_cartesian = Some (Inr (Some 100, h')) \<and> ch_ok sample_sizes {200} h')
     \<and> (\<exists>h'. ch_free sample_sizes 300 sample_cartesian = Some (Inr h') \<and> ch_ok sample_sizes {300, 100, 200} h')"
proof -
  have p: "300 \<notin> {100, 200 :: nat}" by simp
  have m: "50 = (if 50 < sizeof_Node then sizeof_Node else 50)" by (simp add: sizeof_Node_def)
  have d: "{100, 200} - {100 :: nat} = {200}" by auto
  from cartesian_best_fit [OF sample_cartesian_ok p m, of "\<lambda>sz s. (None, s)"] show ?thesis
    by (auto simp: sample_sizes_def sample_cartesian_def d split: if_splits)
qed

text \<open>
  An allocation of a process without children is atomic: its sections, from the mutex of the per-thread heap over the chunk that the heap may have to ask
  for to the release of the mutex, leave the memory that \<open>xm_malloc\<close> leaves, and its pointer in the return register.
\<close>

theorem alone_malloc:
  assumes "alone me s" and "heap_holder s (heap_of me s) = None" and "xm_malloc me sz (xm s) = Inr r"
    and "code me = xr_malloc sz @ k"
  shows "\<exists>n. sections (replicate n me) (s, code) = Some (Inr (malloc_done me r s, code(me := k)))"
  by (rule malloc_sections) (rule assms)+

theorem alone_malloc_witness:
  "\<exists>n r. fst r = Some 4112 \<and> sections (replicate n 102) (sample_single, (\<lambda>_. [])(102 := xr_malloc 16)) =
     Some (Inr (malloc_done 102 r sample_single, (\<lambda>_. [])))"
proof -
  from sample_single_malloc obtain m where "xm_malloc 102 16 (xm sample_single) = Inr (Some 4112, m)" by blast
  from alone_malloc [OF sample_single_simps this, of "(\<lambda>_. [])(102 := xr_malloc 16)" "[]"] obtain n
    where "sections (replicate n 102) (sample_single, (\<lambda>_. [])(102 := xr_malloc 16)) =
      Some (Inr (malloc_done 102 (Some 4112, m) sample_single, ((\<lambda>_. [])(102 := xr_malloc 16))(102 := [])))" by auto
  then show ?thesis by (intro exI [of _ n] exI [of _ "(Some 4112, m)"]) (simp add: fun_upd_idem)
qed

end
